(* ===== verification/Prelude.thy ===== *)
theory Prelude
  imports Main "HOL-Library.Word" "HOL-Library.AList"
begin

unbundle bit_operations_syntax

section \<open>Shared vocabulary of the GamePath development\<close>

text \<open>
  The types every component uses (machine integers at their width, byte strings, the monotonic
  clock), the big-endian byte encodings of \<^verbatim>\<open>to_be_bytes\<close> and \<^verbatim>\<open>from_be_bytes\<close>, sub-slices,
  hash maps as association lists with distinct keys, and the generic lemmas about them.

  An \<^verbatim>\<open>Instant\<close> is a number of nanoseconds since an arbitrary start; a \<^verbatim>\<open>Duration\<close> is a number of
  nanoseconds. \<^verbatim>\<open>Instant::duration_since\<close> and \<^verbatim>\<open>saturating_duration_since\<close> both give zero when the
  argument is later, which is subtraction on \<open>nat\<close>.
\<close>

type_synonym u8 = "8 word"
type_synonym u16 = "16 word"
type_synonym u32 = "32 word"
type_synonym u64 = "64 word"
type_synonym bytes = "u8 list"
type_synonym instant = nat
type_synonym duration = nat
type_synonym ipv4 = "u8 list"

definition millis :: "nat \<Rightarrow> duration" where
  "millis n = n * 1000000"

definition secs :: "nat \<Rightarrow> duration" where
  "secs n = n * 1000000000"

definition duration_since :: "instant \<Rightarrow> instant \<Rightarrow> duration" where
  "duration_since later earlier = later - earlier"

named_theorems wire_simps \<open>sizes and round trips of the byte encodings\<close>
named_theorems table_simps \<open>lookups and sizes of the association-list tables\<close>

subsection \<open>Slices\<close>

text \<open>\<^verbatim>\<open>&xs[a..b]\<close>, for \<open>a \<le> b \<le> length xs\<close>; every use stands behind the length check of the source.\<close>

definition subslice :: "nat \<Rightarrow> nat \<Rightarrow> 'a list \<Rightarrow> 'a list" where
  "subslice a b xs = take (b - a) (drop a xs)"

lemma length_subslice [simp, wire_simps]: "length (subslice a b xs) = min (b - a) (length xs - a)"
  by (simp add: subslice_def)

lemma nth_subslice: "i < b - a \<Longrightarrow> a + i < length xs \<Longrightarrow> subslice a b xs ! i = xs ! (a + i)"
  by (simp add: subslice_def)

lemma subslice_append_left: "b \<le> length xs \<Longrightarrow> subslice a b (xs @ ys) = subslice a b xs"
  by (simp add: subslice_def)

lemma subslice_append_right:
  "length xs \<le> a \<Longrightarrow> subslice a b (xs @ ys) = subslice (a - length xs) (b - length xs) ys"
  by (simp add: subslice_def)

lemma subslice_full [simp]: "subslice 0 (length xs) xs = xs"
  by (simp add: subslice_def)

lemma subslice_0: "subslice 0 b xs = take b xs"
  by (simp add: subslice_def)

lemma subslice_join:
  assumes "a \<le> b" and "b \<le> c"
  shows "subslice a b xs @ subslice b c xs = subslice a c xs"
  using assms take_add [of "b - a" "c - b" "drop a xs"] by (simp add: subslice_def)

lemma subslice_one: "i < length xs \<Longrightarrow> subslice i (Suc i) xs = [xs ! i]"
  using take_Suc_conv_app_nth [of 0 "drop i xs"] by (simp add: subslice_def)

text \<open>\<^verbatim>\<open>xs[a..a + ys.len()].copy_from_slice(ys)\<close>.\<close>

definition put :: "nat \<Rightarrow> 'a list \<Rightarrow> 'a list \<Rightarrow> 'a list" where
  "put a ys xs = take a xs @ ys @ drop (a + length ys) xs"

lemma length_put [simp, wire_simps]: "a + length ys \<le> length xs \<Longrightarrow> length (put a ys xs) = length xs"
  by (simp add: put_def)

lemma nth_put:
  assumes "a + length ys \<le> length xs" and "i < length xs"
  shows "put a ys xs ! i = (if a \<le> i \<and> i < a + length ys then ys ! (i - a) else xs ! i)"
  using assms by (auto simp: put_def nth_append min_def)

lemma put_put:
  assumes "a + length ys \<le> length xs" and "length zs = length ys"
  shows "put a zs (put a ys xs) = put a zs xs"
  using assms by (simp add: put_def)

lemma put_same: "a + length ys \<le> length xs \<Longrightarrow> subslice a (a + length ys) xs = ys \<Longrightarrow> put a ys xs = xs"
  by (simp add: put_def subslice_def) (metis append_take_drop_id add.commute drop_drop)

lemma put_append_left: "a + length ys \<le> length xs \<Longrightarrow> put a ys (xs @ zs) = put a ys xs @ zs"
  by (simp add: put_def)

lemma put_append_right: "length xs \<le> a \<Longrightarrow> put a ys (xs @ zs) = xs @ put (a - length xs) ys zs"
  by (simp add: put_def)

lemma update_put: "i < length xs \<Longrightarrow> xs[i := v] = put i [v] xs"
  by (simp add: put_def upd_conv_take_nth_drop)

text \<open>Filling a buffer of zeros from the left, field by field.\<close>

lemma put_zeros:
  "a = length xs \<Longrightarrow> length ys \<le> n \<Longrightarrow>
     put a ys (xs @ replicate n z) = (xs @ ys) @ replicate (n - length ys) z"
  by (simp add: put_def)

lemma update_zeros:
  "i = length xs \<Longrightarrow> 1 \<le> n \<Longrightarrow> (xs @ replicate n z)[i := v] = (xs @ [v]) @ replicate (n - 1) z"
  by (cases n) (simp_all add: list_update_append)

lemma subslice_put_same:
  assumes "a + length ys \<le> length xs"
  shows "subslice a (a + length ys) (put a ys xs) = ys"
  using assms by (simp add: put_def subslice_def)

lemma subslice_put_other:
  assumes "a + length ys \<le> length xs" and "d \<le> length xs" and "d \<le> a \<or> a + length ys \<le> c"
  shows "subslice c d (put a ys xs) = subslice c d xs"
proof (rule nth_equalityI)
  show "length (subslice c d (put a ys xs)) = length (subslice c d xs)"
    using assms(1) by simp
  fix i assume "i < length (subslice c d (put a ys xs))"
  with assms(1) have "i < d - c" "c + i < length xs" by auto
  with assms show "subslice c d (put a ys xs) ! i = subslice c d xs ! i"
    by (auto simp: nth_subslice nth_put)
qed

lemma subslice_put_inside:
  assumes "a \<le> k" and "k + length ys \<le> b" and "b \<le> length xs"
  shows "subslice a b (put k ys xs) = put (k - a) ys (subslice a b xs)"
proof (rule nth_equalityI)
  show len: "length (subslice a b (put k ys xs)) = length (put (k - a) ys (subslice a b xs))"
    using assms by simp
  fix i assume "i < length (subslice a b (put k ys xs))"
  then have "i < b - a" "a + i < length xs" using assms by auto
  then show "subslice a b (put k ys xs) ! i = put (k - a) ys (subslice a b xs) ! i"
    using assms by (auto simp: nth_subslice nth_put diff_diff_left add.commute)
qed

subsection \<open>Big-endian integers\<close>

lemma unat_u8_less [simp]: "unat (b :: u8) < 256"
  using unsigned_less [of b, where ?'a = nat] by simp

lemma unat_u16_less [simp]: "unat (w :: u16) < 65536"
  using unsigned_less [of w, where ?'a = nat] by simp

lemma unat_u32_less [simp]: "unat (w :: u32) < 4294967296"
  using unsigned_less [of w, where ?'a = nat] by simp

lemma unat_u64_less [simp]: "unat (w :: u64) < 18446744073709551616"
  using unsigned_less [of w, where ?'a = nat] by simp

lemma unat_succ_of_less: "(a :: u64) < b \<Longrightarrow> unat (a + 1) = unat a + 1"
  using unat_u64_less [of b] by (simp add: unat_word_ariths word_less_nat_alt del: unat_u64_less)

lemma unat_ucast_u8 [simp]: "unat (ucast (w :: 'a::len word) :: u8) = unat w mod 256"
  by (simp add: unsigned_ucast_eq take_bit_eq_mod)

lemma unat_ucast_u8_u64 [simp]: "unat (ucast (b :: u8) :: u64) = unat b"
  using unat_u8_less [of b] by (simp add: unsigned_ucast_eq take_bit_eq_mod del: unat_u8_less)

definition count_ones :: "'a::len word \<Rightarrow> nat" where
  "count_ones w = length (filter (bit w) [0..<LENGTH('a)])"

primrec be_of_nat :: "nat \<Rightarrow> nat \<Rightarrow> bytes" where
  "be_of_nat 0 v = []"
| "be_of_nat (Suc n) v = be_of_nat n (v div 256) @ [of_nat v]"

definition nat_of_be :: "bytes \<Rightarrow> nat" where
  "nat_of_be bs = foldl (\<lambda>acc b. acc * 256 + unat b) 0 bs"

lemma length_be_of_nat [simp, wire_simps]: "length (be_of_nat n v) = n"
  by (induction n arbitrary: v) auto

lemma nat_of_be_Nil [simp]: "nat_of_be [] = 0"
  by (simp add: nat_of_be_def)

lemma nat_of_be_snoc [simp]: "nat_of_be (bs @ [b]) = nat_of_be bs * 256 + unat b"
  by (simp add: nat_of_be_def)

lemma nat_of_be_of_nat [simp, wire_simps]: "nat_of_be (be_of_nat n v) = v mod 256 ^ n"
proof (induction n arbitrary: v)
  case (Suc n)
  have "unat (of_nat v :: u8) = v mod 256"
    by (simp add: unat_of_nat)
  with Suc show ?case
    by (simp add: mod_mult2_eq)
qed simp

lemma nat_of_be_less: "nat_of_be bs < 256 ^ length bs"
proof (induction bs rule: rev_induct)
  case (snoc b bs)
  show ?case
    using snoc unat_u8_less [of b] by (simp del: unat_u8_less)
qed simp

lemma be_of_nat_of_be [wire_simps]: "length bs = n \<Longrightarrow> be_of_nat n (nat_of_be bs) = bs"
proof (induction bs arbitrary: n rule: rev_induct)
  case (snoc b bs)
  have "unat b < 256" by simp
  then have div: "(nat_of_be bs * 256 + unat b) div 256 = nat_of_be bs" by simp
  have low: "(of_nat (nat_of_be bs * 256 + unat b) :: u8) = b"
  proof (rule word_unat_eq_iff [THEN iffD2])
    show "unat (of_nat (nat_of_be bs * 256 + unat b) :: u8) = unat b"
      by (simp only: unat_of_nat) simp
  qed
  from snoc obtain m where "n = Suc m" "length bs = m" by auto
  with snoc.IH [of m] div low show ?case by (simp del: of_nat_add of_nat_mult)
qed simp

definition be16 :: "u16 \<Rightarrow> bytes" where "be16 w = be_of_nat 2 (unat w)"
definition be32 :: "u32 \<Rightarrow> bytes" where "be32 w = be_of_nat 4 (unat w)"
definition be64 :: "u64 \<Rightarrow> bytes" where "be64 w = be_of_nat 8 (unat w)"
definition of_be16 :: "bytes \<Rightarrow> u16" where "of_be16 bs = of_nat (nat_of_be bs)"
definition of_be32 :: "bytes \<Rightarrow> u32" where "of_be32 bs = of_nat (nat_of_be bs)"
definition of_be64 :: "bytes \<Rightarrow> u64" where "of_be64 bs = of_nat (nat_of_be bs)"

lemma length_be [simp, wire_simps]: "length (be16 h) = 2" "length (be32 w) = 4" "length (be64 d) = 8"
  by (simp_all add: be16_def be32_def be64_def)

lemma of_be16_be16 [simp, wire_simps]: "of_be16 (be16 w) = w"
  using unat_u16_less [of w] by (simp add: of_be16_def be16_def)

lemma of_be32_be32 [simp, wire_simps]: "of_be32 (be32 w) = w"
  using unat_u32_less [of w] by (simp add: of_be32_def be32_def)

lemma of_be64_be64 [simp, wire_simps]: "of_be64 (be64 w) = w"
  using unat_u64_less [of w] by (simp add: of_be64_def be64_def)

lemma be16_of_be16 [wire_simps]: "length bs = 2 \<Longrightarrow> be16 (of_be16 bs) = bs"
  using nat_of_be_less [of bs] by (simp add: of_be16_def be16_def unat_of_nat be_of_nat_of_be)

lemma be32_of_be32 [wire_simps]: "length bs = 4 \<Longrightarrow> be32 (of_be32 bs) = bs"
  using nat_of_be_less [of bs] by (simp add: of_be32_def be32_def unat_of_nat be_of_nat_of_be)

lemma be64_of_be64 [wire_simps]: "length bs = 8 \<Longrightarrow> be64 (of_be64 bs) = bs"
  using nat_of_be_less [of bs] by (simp add: of_be64_def be64_def unat_of_nat be_of_nat_of_be)

lemma be16_inject [simp]: "be16 a = be16 b \<longleftrightarrow> a = b"
  by (metis of_be16_be16)

lemma be32_inject [simp]: "be32 a = be32 b \<longleftrightarrow> a = b"
  by (metis of_be32_be32)

lemma be64_inject [simp]: "be64 a = be64 b \<longleftrightarrow> a = b"
  by (metis of_be64_be64)

lemma unat_of_be16: "length bs = 2 \<Longrightarrow> unat (of_be16 bs) = nat_of_be bs"
  using nat_of_be_less [of bs] by (simp add: of_be16_def unat_of_nat)

lemma nat_of_be_pair [simp]: "nat_of_be [a, b] = unat a * 256 + unat b"
  by (simp add: nat_of_be_def)

subsection \<open>Socket addresses\<close>

text \<open>Addresses are only compared, stored and handed to the socket.\<close>

datatype SocketAddr = SocketAddrV4 ipv4 u16 | SocketAddrV6 bytes u16

subsection \<open>Iterator adaptors\<close>

text \<open>
  \<^verbatim>\<open>iter_mut().find(..)\<close> followed by a mutation of what was found; \<^verbatim>\<open>max_by_key\<close>, which returns the
  last of several maxima, and \<^verbatim>\<open>min_by_key\<close>, which returns the first of several minima.
\<close>

fun update_first :: "('a \<Rightarrow> bool) \<Rightarrow> ('a \<Rightarrow> 'a) \<Rightarrow> 'a list \<Rightarrow> 'a list" where
  "update_first P f [] = []"
| "update_first P f (x # xs) = (if P x then f x # xs else x # update_first P f xs)"

fun max_by_key :: "('a \<Rightarrow> 'k :: linorder) \<Rightarrow> 'a list \<Rightarrow> 'a option" where
  "max_by_key key [] = None"
| "max_by_key key (x # xs) =
     (case max_by_key key xs of
        None \<Rightarrow> Some x
      | Some y \<Rightarrow> if key x \<le> key y then Some y else Some x)"

fun min_by_key :: "('a \<Rightarrow> 'k :: linorder) \<Rightarrow> 'a list \<Rightarrow> 'a option" where
  "min_by_key key [] = None"
| "min_by_key key (x # xs) =
     (case min_by_key key xs of
        None \<Rightarrow> Some x
      | Some y \<Rightarrow> if key x \<le> key y then Some x else Some y)"

lemma max_by_key_None [simp]: "max_by_key key xs = None \<longleftrightarrow> xs = []"
  by (cases xs) (auto split: option.splits)

lemma min_by_key_None [simp]: "min_by_key key xs = None \<longleftrightarrow> xs = []"
  by (cases xs) (auto split: option.splits)

lemma max_by_key_in: "max_by_key key xs = Some y \<Longrightarrow> y \<in> set xs"
  by (induction xs arbitrary: y) (auto split: option.splits if_splits)

lemma min_by_key_in: "min_by_key key xs = Some y \<Longrightarrow> y \<in> set xs"
  by (induction xs arbitrary: y) (auto split: option.splits if_splits)

lemma max_by_key_max: "max_by_key key xs = Some y \<Longrightarrow> x \<in> set xs \<Longrightarrow> key x \<le> key y"
  by (induction xs arbitrary: y) (fastforce split: option.splits if_splits)+

lemma min_by_key_min: "min_by_key key xs = Some y \<Longrightarrow> x \<in> set xs \<Longrightarrow> key y \<le> key x"
  by (induction xs arbitrary: y) (fastforce split: option.splits if_splits)+

lemma in_set_tlD: "x \<in> set (tl xs) \<Longrightarrow> x \<in> set xs"
  by (cases xs) simp_all

lemma update_first_keeps:
  assumes "\<And>x. g (f x) = g x"
  shows "map g (update_first P f xs) = map g xs"
  by (induction xs) (simp_all add: assms)

lemma length_update_first [simp]: "length (update_first P f xs) = length xs"
  by (induction xs) simp_all

lemma set_update_first: "set (update_first P f xs) \<subseteq> set xs \<union> f ` {x \<in> set xs. P x}"
  by (induction xs) auto

lemma set_update_firstD:
  "y \<in> set (update_first P f xs) \<Longrightarrow> y \<in> set xs \<or> (\<exists>x \<in> set xs. P x \<and> y = f x)"
  using set_update_first [of P f xs] by auto

lemma update_first_unique:
  assumes "distinct (map g xs)"
  shows "update_first (\<lambda>x. g x = a) f xs = map (\<lambda>x. if g x = a then f x else x) xs"
proof (use assms in \<open>induction xs\<close>)
  case (Cons x xs)
  then have "map (\<lambda>y. if g y = a then f y else y) xs = xs" if "g x = a"
    using that by (intro map_idI) (auto simp: image_iff)
  with Cons show ?case by simp
qed simp

subsection \<open>Panics and literal buffers\<close>

text \<open>A call that may panic: an index or a slice out of range.\<close>

datatype 'a outcome = Panic | Ret 'a

lemma replicate_numeral: "replicate (numeral k) x = x # replicate (pred_numeral k) x"
  by (simp add: numeral_eq_Suc)

lemma unat_shift_right: "unat (drop_bit n (w :: 'a::len word)) = unat w div 2 ^ n"
  using unsigned_less [of w, where ?'a = nat]
  by (subst unsigned_drop_bit_eq) (simp add: drop_bit_eq_div take_bit_nat_eq_self)

lemma be_of_nat_2: "be_of_nat 2 v = [of_nat (v div 256), of_nat v]"
  by (simp add: numeral_2_eq_2)

lemma be16_bytes: "be16 w = [ucast (drop_bit 8 w), ucast w]"
proof -
  have "unat w div 256 < 256" using unat_u16_less [of w] by (simp del: unat_u16_less)
  then show ?thesis
    by (simp add: be16_def be_of_nat_2 word_unat_eq_iff unat_of_nat unat_shift_right)
qed

lemma nat_of_be_be16 [simp]: "nat_of_be (be16 w) = unat w"
  by (simp add: be16_def)

lemma unat_of_be16_pair [simp]: "unat (of_be16 [a, b]) = unat a * 256 + unat b"
  by (simp add: unat_of_be16)

lemma length_4E:
  assumes "length xs = 4"
  obtains a b c d where "xs = [a, b, c, d]"
  using assms by (auto simp: numeral_eq_Suc length_Suc_conv)

subsection \<open>Tables as association lists\<close>

lemma set_alist_update: "x \<in> set (AList.update k v al) \<Longrightarrow> x = (k, v) \<or> x \<in> set al"
  by (induction al) (auto split: if_splits)

lemma set_alist_delete: "x \<in> set (AList.delete k al) \<Longrightarrow> x \<in> set al"
  by (induction al) (auto split: if_splits)

lemma length_alist_update: "length (AList.update k v al) = (if k \<in> fst ` set al then length al else length al + 1)"
  by (induction al) auto

lemma distinct_alist:
  "distinct (map fst al) \<Longrightarrow> distinct (map fst (AList.update k v al))"
  "distinct (map fst al) \<Longrightarrow> distinct (map fst (AList.delete k al))"
  by (simp_all add: distinct_update distinct_delete)

lemma alist_update_new: "map_of xs k = None \<Longrightarrow> AList.update k v xs = xs @ [(k, v)]"
  by (induction xs) (auto split: if_splits)

lemma alist_delete_absent: "map_of t k = None \<Longrightarrow> AList.delete k t = t"
  by (induction t) (auto simp: AList.delete_eq split: if_splits)

lemma find_Some_in_set: "find P xs = Some x \<Longrightarrow> x \<in> set xs"
  by (auto simp: find_Some_iff)

end
