(* ===== verification/Contracts.thy ===== *)
theory Contracts
  imports Prelude
begin

section \<open>Interfaces between the components\<close>

text \<open>
  The contracts the components offer each other, as locales: a duplicate filter, a wire format and
  a state machine with an invariant. Each is interpreted on the model's own definitions in the
  theory of the component that provides it.
\<close>

subsection \<open>A filter that admits every key at most once\<close>

text \<open>
  \<open>would s k\<close> asks whether \<open>k\<close> would be admitted, \<open>commit s k\<close> decides and records it. A key
  that has been offered is refused from then on, and nothing that is refused is admitted later.
\<close>

locale once_filter =
  fixes would :: "'s \<Rightarrow> 'k \<Rightarrow> bool"
    and commit :: "'s \<Rightarrow> 'k \<Rightarrow> bool \<times> 's"
    and ok :: "'s \<Rightarrow> bool"
  assumes commit_verdict: "ok s \<Longrightarrow> fst (commit s k) = would s k"
    and commit_ok: "ok s \<Longrightarrow> ok (snd (commit s k))"
    and commit_blocks: "ok s \<Longrightarrow> \<not> would (snd (commit s k)) k"
    and commit_keeps: "ok s \<Longrightarrow> \<not> would s j \<Longrightarrow> \<not> would (snd (commit s k)) j"
begin

primrec admitted :: "'s \<Rightarrow> 'k list \<Rightarrow> 'k list" where
  "admitted s [] = []"
| "admitted s (k # ks) =
     (if fst (commit s k) then k # admitted (snd (commit s k)) ks
      else admitted (snd (commit s k)) ks)"

primrec after :: "'s \<Rightarrow> 'k list \<Rightarrow> 's" where
  "after s [] = s"
| "after s (k # ks) = after (snd (commit s k)) ks"

lemma after_ok: "ok s \<Longrightarrow> ok (after s ks)"
  by (induction ks arbitrary: s) (simp_all add: commit_ok)

lemma refused_stays_refused: "ok s \<Longrightarrow> \<not> would s j \<Longrightarrow> \<not> would (after s ks) j"
  by (induction ks arbitrary: s) (simp_all add: commit_ok commit_keeps)

lemma refused_not_admitted: "ok s \<Longrightarrow> \<not> would s j \<Longrightarrow> j \<notin> set (admitted s ks)"
proof (induction ks arbitrary: s)
  case (Cons k ks)
  then have "j \<notin> set (admitted (snd (commit s k)) ks)"
    by (simp add: commit_ok commit_keeps)
  moreover have "fst (commit s k) \<Longrightarrow> j \<noteq> k"
    using Cons.prems by (auto simp: commit_verdict)
  ultimately show ?case by auto
qed simp

lemma admitted_distinct: "ok s \<Longrightarrow> distinct (admitted s ks)"
proof (induction ks arbitrary: s)
  case (Cons k ks)
  have "k \<notin> set (admitted (snd (commit s k)) ks)"
    using Cons.prems by (intro refused_not_admitted) (simp_all add: commit_ok commit_blocks)
  with Cons show ?case by (simp add: commit_ok)
qed simp

lemma offered_is_refused: "ok s \<Longrightarrow> k \<in> set ks \<Longrightarrow> \<not> would (after s ks) k"
proof (induction ks arbitrary: s)
  case (Cons j ks)
  then show ?case
    by (auto simp: commit_ok commit_blocks refused_stays_refused)
qed simp

end

subsection \<open>A wire format\<close>

text \<open>
  \<open>encode\<close> writes a valid value, \<open>decode\<close> reads it back, and whatever \<open>decode\<close> accepts is valid.
\<close>

locale wire_format =
  fixes encode :: "'a \<Rightarrow> bytes"
    and decode :: "bytes \<Rightarrow> 'a option"
    and valid :: "'a \<Rightarrow> bool"
  assumes decode_encode: "valid x \<Longrightarrow> decode (encode x) = Some x"
    and decode_valid: "decode bs = Some x \<Longrightarrow> valid x"
begin

lemma encode_injective: "valid x \<Longrightarrow> valid y \<Longrightarrow> encode x = encode y \<Longrightarrow> x = y"
  by (metis decode_encode option.inject)

lemma reencode_stable: "decode bs = Some x \<Longrightarrow> decode (encode x) = Some x"
  by (simp add: decode_encode decode_valid)

end

text \<open>A canonical format has one spelling for every value.\<close>

locale canonical_format = wire_format +
  assumes encode_decode: "decode bs = Some x \<Longrightarrow> encode x = bs"
begin

lemma decode_injective: "decode as = Some x \<Longrightarrow> decode bs = Some x \<Longrightarrow> as = bs"
  by (metis encode_decode)

lemma decode_iff: "decode bs = Some x \<longleftrightarrow> valid x \<and> encode x = bs"
  using decode_encode decode_valid encode_decode by blast

end

subsection \<open>A component with an invariant\<close>

text \<open>
  Every operation of the component keeps the invariant, so every state a sequence of operations
  reaches satisfies it.
\<close>

locale component =
  fixes init :: "'s"
    and step :: "'e \<Rightarrow> 's \<Rightarrow> 's"
    and inv :: "'s \<Rightarrow> bool"
  assumes init_inv: "inv init"
    and step_inv: "inv s \<Longrightarrow> inv (step e s)"
begin

lemma run_inv_from: "inv s \<Longrightarrow> inv (fold step es s)"
  by (induction es arbitrary: s) (simp_all add: step_inv)

lemma run_inv: "inv (fold step es init)"
  by (rule run_inv_from [OF init_inv])

end

subsection \<open>A component that answers its callers\<close>

text \<open>
  A run of a component whose operations also return something: the final state and everything that
  was returned, in order.
\<close>

fun emit_run :: "('e \<Rightarrow> 's \<Rightarrow> 's \<times> 'o list) \<Rightarrow> 'e list \<Rightarrow> 's \<Rightarrow> 's \<times> 'o list" where
  "emit_run step [] s = (s, [])"
| "emit_run step (e # es) s =
     (let (s', os) = step e s; (s'', os') = emit_run step es s' in (s'', os @ os'))"

lemma emit_run_simps:
  "fst (emit_run step (e # es) s) = fst (emit_run step es (fst (step e s)))"
  "snd (emit_run step (e # es) s) = snd (step e s) @ snd (emit_run step es (fst (step e s)))"
  by (simp_all add: case_prod_unfold Let_def)

lemma emit_run_append:
  "fst (emit_run step (es @ es') s) = fst (emit_run step es' (fst (emit_run step es s)))"
  "snd (emit_run step (es @ es') s) =
     snd (emit_run step es s) @ snd (emit_run step es' (fst (emit_run step es s)))"
  by (induction es arbitrary: s) (simp_all add: emit_run_simps del: emit_run.simps(2))

text \<open>
  The contract of such a component: from a state that satisfies the invariant, an operation its
  caller may perform keeps the invariant and returns only what the component promises.
\<close>

locale emitting_component =
  fixes step :: "'e \<Rightarrow> 's \<Rightarrow> 's \<times> 'o list"
    and inv :: "'s \<Rightarrow> bool"
    and allowed :: "'e \<Rightarrow> bool"
    and promised :: "'o \<Rightarrow> bool"
  assumes step_keeps: "inv s \<Longrightarrow> allowed e \<Longrightarrow> inv (fst (step e s))"
    and step_emits: "inv s \<Longrightarrow> allowed e \<Longrightarrow> list_all promised (snd (step e s))"
begin

lemma emit_run_keeps: "inv s \<Longrightarrow> list_all allowed es \<Longrightarrow> inv (fst (emit_run step es s))"
  by (induction es arbitrary: s) (simp_all add: emit_run_simps step_keeps del: emit_run.simps(2))

lemma emit_run_emits: "inv s \<Longrightarrow> list_all allowed es \<Longrightarrow> list_all promised (snd (emit_run step es s))"
  by (induction es arbitrary: s)
     (simp_all add: emit_run_simps step_keeps step_emits del: emit_run.simps(2))

end

end
