(* ===== verification/Replay.thy ===== *)
theory Replay
  imports Contracts
begin

section \<open>Replay protection (\<^verbatim>\<open>engine/src/replay.rs\<close>)\<close>

text \<open>
  The sliding replay window over the session's sequence numbers: a circular bitmap of 128 words of
  64 bits, indexed by the sequence modulo 8192, of which only the skipped range is cleared when the
  window advances. The lemmas relate the bitmap to the unbounded set of the sequences accepted so
  far: the window gives the verdicts that set gives, with a horizon of 8192 below the newest.
\<close>

subsection \<open>The code\<close>

definition WINDOW :: u64 where "WINDOW = 8192"
definition WORDS :: nat where "WORDS = unat (WINDOW div 64)"
definition MAX_REORDERING :: u64 where "MAX_REORDERING = 2048"

record ReplayWindow =
  rw_highest :: u64
  rw_seen :: "u64 list"
  rw_initialized :: bool

definition replay_default :: ReplayWindow where
  "replay_default = \<lparr>rw_highest = 0, rw_seen = replicate WORDS 0, rw_initialized = False\<rparr>"

definition slot :: "u64 \<Rightarrow> nat \<times> u64" where
  "slot sequence =
     (let position = sequence mod WINDOW
      in (unat (position div 64), push_bit (unat (position mod 64)) 1))"

definition is_set :: "ReplayWindow \<Rightarrow> u64 \<Rightarrow> bool" where
  "is_set w sequence = (case slot sequence of (word, bt) \<Rightarrow> (rw_seen w ! word) AND bt \<noteq> 0)"

definition set_sequence :: "u64 \<Rightarrow> ReplayWindow \<Rightarrow> ReplayWindow" where
  "set_sequence sequence w =
     (case slot sequence of (word, bt) \<Rightarrow>
        w\<lparr>rw_seen := (rw_seen w)[word := (rw_seen w ! word) OR bt]\<rparr>)"

definition clear_sequence :: "u64 \<Rightarrow> ReplayWindow \<Rightarrow> ReplayWindow" where
  "clear_sequence sequence w =
     (case slot sequence of (word, bt) \<Rightarrow>
        w\<lparr>rw_seen := (rw_seen w)[word := (rw_seen w ! word) AND NOT bt]\<rparr>)"

text \<open>The loop \<^verbatim>\<open>for skipped in from..until { self.clear(skipped); }\<close>.\<close>

definition clear_range :: "u64 \<Rightarrow> u64 \<Rightarrow> ReplayWindow \<Rightarrow> ReplayWindow" where
  "clear_range from until w = fold (\<lambda>skipped. clear_sequence (of_nat skipped)) [unat from..<unat until] w"

definition would_accept :: "ReplayWindow \<Rightarrow> u64 \<Rightarrow> bool" where
  "would_accept w sequence =
     (\<not> rw_initialized w \<or> sequence > rw_highest w \<or>
      (rw_highest w - sequence < WINDOW \<and> \<not> is_set w sequence))"

definition is_too_old :: "ReplayWindow \<Rightarrow> u64 \<Rightarrow> bool" where
  "is_too_old w sequence =
     (rw_initialized w \<and>
      (if sequence \<le> rw_highest w then rw_highest w - sequence else 0) \<ge> WINDOW)"

definition replay_accept :: "ReplayWindow \<Rightarrow> u64 \<Rightarrow> bool \<times> ReplayWindow" where
  "replay_accept w sequence =
     (if \<not> rw_initialized w then
        (True, set_sequence sequence (w\<lparr>rw_initialized := True, rw_highest := sequence\<rparr>))
      else if sequence > rw_highest w then
        (let advance = sequence - rw_highest w;
             w' = (if advance \<ge> WINDOW then w\<lparr>rw_seen := replicate WORDS 0\<rparr>
                   else clear_range (rw_highest w + 1) sequence w)
         in (True, set_sequence sequence (w'\<lparr>rw_highest := sequence\<rparr>)))
      else if rw_highest w - sequence \<ge> WINDOW \<or> is_set w sequence then (False, w)
      else (True, set_sequence sequence w))"

subsection \<open>The bitmap as a set of positions\<close>

definition position :: "u64 \<Rightarrow> nat" where
  "position sequence = unat sequence mod 8192"

definition mark :: "ReplayWindow \<Rightarrow> nat \<Rightarrow> bool" where
  "mark w p = bit (rw_seen w ! (p div 64)) (p mod 64)"

lemma WORDS_eq [simp]: "WORDS = 128"
  by (simp add: WORDS_def WINDOW_def)

lemma position_less [simp]: "position s < 8192"
  by (simp add: position_def)

lemma position_word [simp]: "position s div 64 < 128"
  using position_less [of s] by (simp only: less_mult_imp_div_less)

lemma unat_WINDOW [simp]: "unat WINDOW = 8192"
  by (simp add: WINDOW_def)

lemma slot_eq: "slot s = (position s div 64, push_bit (position s mod 64) 1)"
proof -
  have pos: "unat (s mod WINDOW) = position s"
    by (simp add: WINDOW_def position_def unat_mod_distrib)
  have "unat (s mod WINDOW div 64) = position s div 64"
    by (simp add: unat_div_distrib pos)
  moreover have "unat (s mod WINDOW mod 64) = position s mod 64"
    by (simp add: unat_mod_distrib position_def)
  ultimately show ?thesis by (simp add: slot_def Let_def)
qed

lemma and_bit_iff: "(x :: u64) AND 2 ^ k \<noteq> 0 \<longleftrightarrow> bit x k"
proof -
  have "x AND 2 ^ k = of_bool (bit x k) * 2 ^ k"
    by (rule bit_word_eqI) (auto simp: bit_simps)
  moreover have "bit x k \<Longrightarrow> (2 :: u64) ^ k \<noteq> 0"
    using exp_eq_0_imp_not_bit by blast
  ultimately show ?thesis by auto
qed

lemma is_set_mark: "is_set w s \<longleftrightarrow> mark w (position s)"
  by (simp add: is_set_def slot_eq and_bit_iff mark_def)

lemma split_position: "p < (8192 :: nat) \<Longrightarrow> p div 64 = q div 64 \<and> p mod 64 = q mod 64 \<longleftrightarrow> p = q"
  by (metis div_mult_mod_eq)

lemma mark_set_sequence:
  assumes "length (rw_seen w) = 128" and "p < 8192"
  shows "mark (set_sequence s w) p \<longleftrightarrow> p = position s \<or> mark w p"
  using assms split_position [of p "position s"] less_mult_imp_div_less [of p 128 64]
  by (auto simp: mark_def set_sequence_def slot_eq nth_list_update bit_simps)

lemma mark_clear_sequence:
  assumes "length (rw_seen w) = 128" and "p < 8192"
  shows "mark (clear_sequence s w) p \<longleftrightarrow> p \<noteq> position s \<and> mark w p"
  using assms split_position [of p "position s"] less_mult_imp_div_less [of p 128 64]
  by (auto simp: mark_def clear_sequence_def slot_eq nth_list_update bit_simps)

lemma sequence_frame [simp]:
  "length (rw_seen (set_sequence s w)) = length (rw_seen w)"
  "length (rw_seen (clear_sequence s w)) = length (rw_seen w)"
  "rw_highest (set_sequence s w) = rw_highest w"
  "rw_initialized (set_sequence s w) = rw_initialized w"
  "rw_highest (clear_sequence s w) = rw_highest w"
  "rw_initialized (clear_sequence s w) = rw_initialized w"
  by (simp_all add: set_sequence_def clear_sequence_def slot_eq)

lemma mark_record_update [simp]:
  "mark (w\<lparr>rw_highest := h\<rparr>) p = mark w p"
  "mark (w\<lparr>rw_initialized := i\<rparr>) p = mark w p"
  by (simp_all add: mark_def)

lemma clear_fold:
  assumes "length (rw_seen w) = 128" and "p < 8192" and "\<forall>k \<in> set ks. k < 2 ^ 64"
  shows "length (rw_seen (fold (\<lambda>k. clear_sequence (of_nat k)) ks w)) = 128
    \<and> (mark (fold (\<lambda>k. clear_sequence (of_nat k)) ks w) p
         \<longleftrightarrow> mark w p \<and> (\<forall>k \<in> set ks. k mod 8192 \<noteq> p))"
  using assms
proof (induction ks arbitrary: w)
  case (Cons k ks)
  have "position (of_nat k) = k mod 8192"
    using Cons.prems by (simp add: position_def unat_of_nat)
  with Cons show ?case
    by (auto simp: mark_clear_sequence)
qed simp

lemma clear_range_frame [simp]:
  "rw_highest (clear_range a b w) = rw_highest w"
  "rw_initialized (clear_range a b w) = rw_initialized w"
proof -
  have "rw_highest (fold (\<lambda>k. clear_sequence (of_nat k)) ks w) = rw_highest w
      \<and> rw_initialized (fold (\<lambda>k. clear_sequence (of_nat k)) ks w) = rw_initialized w" for ks
    by (induction ks arbitrary: w) simp_all
  then show "rw_highest (clear_range a b w) = rw_highest w"
    "rw_initialized (clear_range a b w) = rw_initialized w"
    by (simp_all add: clear_range_def)
qed

lemma clear_range_length [simp]:
  assumes "length (rw_seen w) = 128"
  shows "length (rw_seen (clear_range a b w)) = 128"
proof -
  have "length (rw_seen (fold (\<lambda>k. clear_sequence (of_nat k)) ks w)) = 128" for ks
    using assms by (induction ks arbitrary: w) simp_all
  then show ?thesis by (simp add: clear_range_def)
qed

lemma mark_clear_range:
  assumes "length (rw_seen w) = 128" and "p < 8192"
  shows "mark (clear_range a b w) p
    \<longleftrightarrow> mark w p \<and> (\<forall>k. unat a \<le> k \<and> k < unat b \<longrightarrow> k mod 8192 \<noteq> p)"
proof -
  have "\<forall>k \<in> set [unat a..<unat b]. k < 2 ^ 64"
    using unat_u64_less [of b] by (auto simp del: unat_u64_less)
  from clear_fold [OF assms this] show ?thesis
    unfolding clear_range_def by auto
qed

subsection \<open>The specification: the set of all sequences accepted so far\<close>

definition history_admits :: "nat set \<Rightarrow> nat \<Rightarrow> bool" where
  "history_admits A n \<longleftrightarrow> A = {} \<or> n > Max A \<or> (Max A - n < 8192 \<and> n \<notin> A)"

definition history_accept :: "nat set \<Rightarrow> nat \<Rightarrow> bool \<times> nat set" where
  "history_accept A n = (history_admits A n, if history_admits A n then insert n A else A)"

definition remembers :: "ReplayWindow \<Rightarrow> nat set \<Rightarrow> bool" where
  "remembers w A \<longleftrightarrow>
     length (rw_seen w) = 128 \<and> finite A \<and> (rw_initialized w \<longleftrightarrow> A \<noteq> {}) \<and>
     (A = {} \<longrightarrow> (\<forall>p < 8192. \<not> mark w p)) \<and>
     (A \<noteq> {} \<longrightarrow> unat (rw_highest w) = Max A \<and>
        (\<forall>n. n \<le> Max A \<and> Max A < n + 8192 \<longrightarrow> (mark w (n mod 8192) \<longleftrightarrow> n \<in> A)))"

lemma remembers_default: "remembers replay_default {}"
  by (simp add: remembers_def replay_default_def mark_def)

lemma would_accept_history:
  assumes "remembers w A"
  shows "would_accept w s \<longleftrightarrow> history_admits A (unat s)"
proof (cases "A = {}")
  case True
  with assms show ?thesis by (simp add: would_accept_def history_admits_def remembers_def)
next
  case False
  with assms have init: "rw_initialized w" and top: "unat (rw_highest w) = Max A"
    and marks: "\<And>n. n \<le> Max A \<Longrightarrow> Max A < n + 8192 \<Longrightarrow> mark w (n mod 8192) \<longleftrightarrow> n \<in> A"
    by (auto simp: remembers_def)
  have gt: "s > rw_highest w \<longleftrightarrow> unat s > Max A"
    by (simp add: word_less_nat_alt top)
  show ?thesis
  proof (cases "unat s > Max A")
    case True
    then show ?thesis using gt by (simp add: would_accept_def history_admits_def)
  next
    case le: False
    then have "s \<le> rw_highest w" using gt by simp
    then have "unat (rw_highest w - s) = Max A - unat s"
      by (simp add: unat_sub top)
    then have dist: "rw_highest w - s < WINDOW \<longleftrightarrow> Max A - unat s < 8192"
      by (simp add: word_less_nat_alt WINDOW_def)
    have "Max A - unat s < 8192 \<Longrightarrow> is_set w s \<longleftrightarrow> unat s \<in> A"
      using marks [of "unat s"] le by (simp add: is_set_mark position_def)
    with init gt dist le False show ?thesis
      by (auto simp: would_accept_def history_admits_def)
  qed
qed

lemma accept_verdict: "fst (replay_accept w s) = would_accept w s"
  by (auto simp: replay_accept_def would_accept_def Let_def not_less)

lemma same_slot_far:
  assumes "(k :: nat) mod 8192 = n mod 8192" and "n < k"
  shows "n + 8192 \<le> k"
proof -
  from assms obtain d where "k = n + 8192 * d" "d > 0"
    by (metis add.commute less_imp_add_positive mod_add_self1 mult.commute mod_eq_nat1E nat_less_le
        less_or_eq_imp_le mult_0_right gr0I add_cancel_left_right)
  then show ?thesis by simp
qed

lemma Max_insert_top: "finite A \<Longrightarrow> A \<noteq> {} \<Longrightarrow> n > Max A \<Longrightarrow> Max (insert n A) = n"
  by simp

text \<open>The three ways \<^verbatim>\<open>accept\<close> records a sequence: the first one, a new highest, a gap filled.\<close>

lemma remembers_first:
  assumes "remembers w {}"
  shows "remembers (set_sequence s (w\<lparr>rw_initialized := True, rw_highest := s\<rparr>)) {unat s}"
proof -
  from assms have len: "length (rw_seen w) = 128" and clean: "\<forall>p < 8192. \<not> mark w p"
    by (simp_all add: remembers_def)
  have "mark (set_sequence s (w\<lparr>rw_initialized := True, rw_highest := s\<rparr>)) (n mod 8192) \<longleftrightarrow> n = unat s"
    if "n \<le> unat s" and "unat s < n + 8192" for n
    using that len clean same_slot_far [of "unat s" n]
    by (cases "n = unat s") (auto simp: mark_set_sequence position_def)
  with len show ?thesis by (simp add: remembers_def)
qed

lemma remembers_fill:
  assumes "remembers w A" and "A \<noteq> {}" and "unat s \<le> Max A" and "Max A < unat s + 8192"
  shows "remembers (set_sequence s w) (insert (unat s) A)"
proof -
  from assms have len: "length (rw_seen w) = 128" and fin: "finite A"
    and top: "unat (rw_highest w) = Max A" and init: "rw_initialized w"
    and marks: "\<And>n. n \<le> Max A \<Longrightarrow> Max A < n + 8192 \<Longrightarrow> mark w (n mod 8192) \<longleftrightarrow> n \<in> A"
    by (auto simp: remembers_def)
  have top': "Max (insert (unat s) A) = Max A"
    using fin assms(2,3) by (simp add: max_def)
  have "mark (set_sequence s w) (n mod 8192) \<longleftrightarrow> n \<in> insert (unat s) A"
    if "n \<le> Max A" and "Max A < n + 8192" for n
    using that len marks [of n] assms(3,4) same_slot_far [of "unat s" n] same_slot_far [of n "unat s"]
    by (cases n "unat s" rule: linorder_cases) (auto simp: mark_set_sequence position_def)
  with len fin init top top' show ?thesis by (simp add: remembers_def)
qed

lemma remembers_advance:
  assumes "remembers w A" and "A \<noteq> {}" and "unat s > Max A"
    and "w' = (if s - rw_highest w \<ge> WINDOW then w\<lparr>rw_seen := replicate WORDS 0\<rparr>
               else clear_range (rw_highest w + 1) s w)"
  shows "remembers (set_sequence s (w'\<lparr>rw_highest := s\<rparr>)) (insert (unat s) A)"
proof -
  from assms have len: "length (rw_seen w) = 128" and fin: "finite A"
    and top: "unat (rw_highest w) = Max A" and init: "rw_initialized w"
    and marks: "\<And>n. n \<le> Max A \<Longrightarrow> Max A < n + 8192 \<Longrightarrow> mark w (n mod 8192) \<longleftrightarrow> n \<in> A"
    by (auto simp: remembers_def)
  have below: "n \<in> A \<Longrightarrow> n \<le> Max A" for n using fin by simp
  have lt: "rw_highest w < s" by (simp add: word_less_nat_alt top assms(3))
  have adv: "unat (s - rw_highest w) = unat s - Max A"
    using lt by (simp add: unat_sub top)
  have succ: "unat (rw_highest w + 1) = Max A + 1"
    using unat_succ_of_less [OF lt] top by simp
  have len': "length (rw_seen w') = 128" and init': "rw_initialized w'"
    using len init by (simp_all add: assms(4))
  have "mark w' (n mod 8192) \<longleftrightarrow> n \<in> A" if "n < unat s" and "unat s < n + 8192" for n
  proof (cases "unat s - Max A \<ge> 8192")
    case True
    then have "s - rw_highest w \<ge> WINDOW" by (simp add: word_le_nat_alt adv)
    then have "\<not> mark w' (n mod 8192)"
      using less_mult_imp_div_less [of "n mod 8192" 128 64] by (simp add: assms(4) mark_def)
    moreover have "n \<notin> A" using below [of n] True that by auto
    ultimately show ?thesis by simp
  next
    case False
    then have "\<not> s - rw_highest w \<ge> WINDOW" by (simp add: word_le_nat_alt adv)
    then have w': "mark w' (n mod 8192) \<longleftrightarrow>
        mark w (n mod 8192) \<and> (\<forall>k. Max A + 1 \<le> k \<and> k < unat s \<longrightarrow> k mod 8192 \<noteq> n mod 8192)"
      using len by (simp add: assms(4) mark_clear_range succ)
    show ?thesis
    proof (cases "n \<le> Max A")
      case True
      then have "Max A < n + 8192" using that assms(3) by simp
      moreover have "\<forall>k. Max A + 1 \<le> k \<and> k < unat s \<longrightarrow> k mod 8192 \<noteq> n mod 8192"
        using same_slot_far [of _ n] True that by force
      ultimately show ?thesis using w' marks True by simp
    next
      case False
      then have "\<not> mark w' (n mod 8192)"
        using w' that by (metis Suc_eq_plus1 not_less_eq_eq)
      then show ?thesis using below [of n] False by auto
    qed
  qed
  then have "mark (set_sequence s (w'\<lparr>rw_highest := s\<rparr>)) (n mod 8192) \<longleftrightarrow> n \<in> insert (unat s) A"
    if "n \<le> unat s" and "unat s < n + 8192" for n
    using that len' same_slot_far [of "unat s" n]
    by (cases "n = unat s") (auto simp: mark_set_sequence position_def)
  with len' fin init' Max_insert_top [OF fin assms(2,3)] show ?thesis
    by (simp add: remembers_def)
qed

lemma accept_history:
  assumes "remembers w A"
  shows "remembers (snd (replay_accept w s)) (snd (history_accept A (unat s)))"
proof (cases "A = {}")
  case True
  with assms have "\<not> rw_initialized w" by (simp add: remembers_def)
  with True assms show ?thesis
    by (simp add: replay_accept_def history_accept_def history_admits_def remembers_first)
next
  case False
  with assms have init: "rw_initialized w" and top: "unat (rw_highest w) = Max A"
    by (auto simp: remembers_def)
  have verdict: "fst (replay_accept w s) = history_admits A (unat s)"
    using accept_verdict would_accept_history [OF assms] by simp
  consider (up) "unat s > Max A" | (fill) "unat s \<le> Max A" "history_admits A (unat s)"
    | (refuse) "unat s \<le> Max A" "\<not> history_admits A (unat s)" by linarith
  then show ?thesis
  proof cases
    case up
    then have "s > rw_highest w" by (simp add: word_less_nat_alt top)
    with up init assms False show ?thesis
      by (simp add: replay_accept_def history_accept_def history_admits_def Let_def remembers_advance)
  next
    case fill
    then have "\<not> s > rw_highest w" by (simp add: word_less_nat_alt top)
    with fill verdict init have "snd (replay_accept w s) = set_sequence s w"
      by (auto simp: replay_accept_def split: if_splits)
    moreover have "Max A < unat s + 8192"
      using fill False by (auto simp: history_admits_def)
    ultimately show ?thesis
      using remembers_fill [OF assms False] fill by (simp add: history_accept_def)
  next
    case refuse
    then have "\<not> s > rw_highest w" by (simp add: word_less_nat_alt top)
    with refuse verdict init have "snd (replay_accept w s) = w"
      by (auto simp: replay_accept_def split: if_splits)
    with refuse assms show ?thesis by (simp add: history_accept_def)
  qed
qed

subsection \<open>The window as a duplicate filter\<close>

lemma history_admits_after:
  assumes "finite A"
  shows "\<not> history_admits (snd (history_accept A n)) n"
    and "\<not> history_admits A j \<Longrightarrow> \<not> history_admits (snd (history_accept A n)) j"
proof -
  have "\<not> history_admits (insert n A) n"
    using assms Max_ge [of "insert n A" n] by (simp add: history_admits_def not_less del: Max_insert)
  then show "\<not> history_admits (snd (history_accept A n)) n"
    by (simp add: history_accept_def)
  assume "\<not> history_admits A j"
  then have ne: "A \<noteq> {}" and "j \<le> Max A" and gone: "j \<in> A \<or> 8192 \<le> Max A - j"
    by (auto simp: history_admits_def)
  moreover have "Max A \<le> Max (insert n A)"
    using assms ne by (simp add: Max_mono subset_insertI)
  ultimately show "\<not> history_admits (snd (history_accept A n)) j"
    by (auto simp: history_accept_def history_admits_def)
qed

definition window_ok :: "ReplayWindow \<Rightarrow> bool" where
  "window_ok w \<longleftrightarrow> (\<exists>A. remembers w A)"

lemma window_ok_default [simp]: "window_ok replay_default"
  using remembers_default by (auto simp: window_ok_def)

interpretation replay: once_filter would_accept replay_accept window_ok
proof
  fix w s j assume "window_ok w"
  then obtain A where A: "remembers w A" by (auto simp: window_ok_def)
  then have fin: "finite A" by (simp add: remembers_def)
  note next_window = would_accept_history [OF accept_history [OF A, of s]]
  show "fst (replay_accept w s) = would_accept w s" by (rule accept_verdict)
  show "window_ok (snd (replay_accept w s))" using accept_history [OF A] by (auto simp: window_ok_def)
  show "\<not> would_accept (snd (replay_accept w s)) s"
    using next_window history_admits_after(1) [OF fin] by simp
  show "\<not> would_accept w j \<Longrightarrow> \<not> would_accept (snd (replay_accept w s)) j"
    using next_window history_admits_after(2) [OF fin] would_accept_history [OF A] by simp
qed

subsection \<open>Whole runs\<close>

primrec replay_verdicts :: "ReplayWindow \<Rightarrow> u64 list \<Rightarrow> bool list" where
  "replay_verdicts w [] = []"
| "replay_verdicts w (s # ss) =
     fst (replay_accept w s) # replay_verdicts (snd (replay_accept w s)) ss"

definition replay_after :: "ReplayWindow \<Rightarrow> u64 list \<Rightarrow> ReplayWindow" where
  "replay_after w ss = fold (\<lambda>s w. snd (replay_accept w s)) ss w"

definition replay_accepted :: "ReplayWindow \<Rightarrow> u64 list \<Rightarrow> u64 list" where
  "replay_accepted w ss = map fst (filter snd (zip ss (replay_verdicts w ss)))"

primrec history_verdicts :: "nat set \<Rightarrow> nat list \<Rightarrow> bool list" where
  "history_verdicts A [] = []"
| "history_verdicts A (n # ns) =
     fst (history_accept A n) # history_verdicts (snd (history_accept A n)) ns"

lemma replay_after_eq: "replay_after w ss = replay.after w ss"
  by (induction ss arbitrary: w) (simp_all add: replay_after_def)

lemma replay_accepted_eq: "replay_accepted w ss = replay.admitted w ss"
  by (induction ss arbitrary: w) (simp_all add: replay_accepted_def)

lemma verdicts_history:
  "remembers w A \<Longrightarrow> replay_verdicts w ss = history_verdicts A (map unat ss)"
proof (induction ss arbitrary: w A)
  case (Cons s ss)
  have "fst (replay_accept w s) = fst (history_accept A (unat s))"
    using accept_verdict would_accept_history [OF Cons.prems] by (simp add: history_accept_def)
  with Cons accept_history [OF Cons.prems] show ?case by simp
qed simp

lemma after_history:
  "remembers w A \<Longrightarrow> \<exists>B. remembers (replay_after w ss) B \<and> B \<subseteq> A \<union> unat ` set ss"
proof (induction ss arbitrary: w A)
  case (Cons s ss)
  from Cons.IH [OF accept_history [OF Cons.prems, of s]] show ?case
    by (fastforce simp: replay_after_def history_accept_def split: if_splits)
qed (auto simp: replay_after_def)

text \<open>
  C6. For any stream of sequence numbers, however reordered and duplicated, the circular 8192-bit
  window gives exactly the verdicts of a receiver that remembers every accepted sequence for ever:
  accept what is new, refuse a repeat and refuse anything 8192 or more behind the newest.
\<close>

theorem replay_window_refines_history:
  "replay_verdicts replay_default ss = history_verdicts {} (map unat ss)"
  by (rule verdicts_history [OF remembers_default])

text \<open>
  No sequence number is accepted twice in the life of a session, whatever arrives.
\<close>

theorem replay_accepts_at_most_once:
  "distinct (replay_accepted replay_default ss)"
  by (simp add: replay_accepted_eq replay.admitted_distinct)

text \<open>
  A frame that arrives for the first time and is overtaken by at most \<^verbatim>\<open>MAX_REORDERING\<close>
  sequences is never taken for a replay: the deepest outbound queue of the sender costs no frame.
\<close>

theorem replay_tolerates_reordering:
  assumes "s \<notin> set ss" and "\<forall>t \<in> set ss. unat t \<le> unat s + unat MAX_REORDERING"
  shows "fst (replay_accept (replay_after replay_default ss) s)"
proof -
  obtain B where B: "remembers (replay_after replay_default ss) B" "B \<subseteq> unat ` set ss"
    using after_history [OF remembers_default] by auto
  have new: "unat s \<notin> B" using B(2) assms(1) by (auto simp: image_iff simp flip: word_unat_eq_iff dest!: subsetD)
  have "\<forall>t \<in> set ss. unat t \<le> unat s + 2048"
    using assms(2) by (simp add: MAX_REORDERING_def)
  then have "\<forall>b \<in> B. b \<le> unat s + 2048" using B(2) by blast
  then have "B \<noteq> {} \<Longrightarrow> Max B \<le> unat s + 2048"
    using B(1) by (simp add: remembers_def)
  with new have "history_admits B (unat s)"
    by (cases "B = {}") (auto simp: history_admits_def)
  then show ?thesis using accept_verdict would_accept_history [OF B(1)] by simp
qed

theorem replay_tolerates_reordering_witness:
  "fst (replay_accept (replay_after replay_default [2049, 7]) 1)"
proof -
  have new: "(1 :: u64) \<notin> set [2049, 7]" by simp
  have near: "\<forall>t \<in> set [2049, 7 :: u64]. unat t \<le> unat (1 :: u64) + unat MAX_REORDERING"
    by (simp add: MAX_REORDERING_def)
  show ?thesis by (rule replay_tolerates_reordering [OF new near])
qed

end
