(* ===== verification/Protocol.thy ===== *)
theory Protocol
  imports Contracts
begin

section \<open>The relay frame header and the health probes (\<^verbatim>\<open>engine/src/protocol.rs\<close>)\<close>

text \<open>
  The 40-byte frame header with its decoder and the four ways decoding fails, and the payloads of
  the health probes. The lemmas show that the header format is lossless in both directions and that
  a probe reply answers exactly the probe it was made for.
\<close>

definition MAGIC :: u32 where "MAGIC = 0x47505448"
definition VERSION :: u8 where "VERSION = 1"
definition HEADER_LEN :: nat where "HEADER_LEN = 40"

definition FLAG_CONTROL :: u8 where "FLAG_CONTROL = 1"
definition FLAG_SERVER_TO_CLIENT :: u8 where "FLAG_SERVER_TO_CLIENT = 2"
definition FLAG_REPAIR :: u8 where "FLAG_REPAIR = 4"
definition FLAG_PATH_UNHEALTHY :: u8 where "FLAG_PATH_UNHEALTHY = 8"

lemmas flag_defs = FLAG_CONTROL_def FLAG_SERVER_TO_CLIENT_def FLAG_REPAIR_def FLAG_PATH_UNHEALTHY_def

text \<open>The byte strings \<^verbatim>\<open>b"ping"\<close> and \<^verbatim>\<open>b"pong"\<close>.\<close>

definition PING :: bytes where "PING = [112, 105, 110, 103]"
definition PONG :: bytes where "PONG = [112, 111, 110, 103]"

definition probe_request :: "u64 \<Rightarrow> bytes" where
  "probe_request sequence = PING @ be64 sequence"

definition probe_response :: "bytes \<Rightarrow> bytes option" where
  "probe_response request =
     (if request \<noteq> PING \<and> \<not> (length request = 12 \<and> take 4 request = PING) then None
      else Some (PONG @ drop 4 request))"

definition probe_reply_matches :: "bytes \<Rightarrow> u64 \<Rightarrow> bool \<Rightarrow> bool" where
  "probe_reply_matches reply sequence allow_legacy =
     ((allow_legacy \<and> reply = PONG) \<or>
      (length reply = 12 \<and> take 4 reply = PONG \<and> drop 4 reply = be64 sequence))"

text \<open>\<^verbatim>\<open>client_id\<close> is an array of 16 bytes: \<open>header_ok\<close> states its length.\<close>

record FrameHeader =
  fh_flags :: u8
  fh_client_id :: bytes
  fh_session_id :: u64
  fh_sequence :: u64

definition header_ok :: "FrameHeader \<Rightarrow> bool" where
  "header_ok h \<longleftrightarrow> length (fh_client_id h) = 16"

datatype DecodeError = TooShort | InvalidMagic | UnsupportedVersion | InvalidHeaderLength

definition header_encode :: "FrameHeader \<Rightarrow> bytes" where
  "header_encode h =
     (let bytes = replicate HEADER_LEN 0;
          bytes = put 0 (be32 MAGIC) bytes;
          bytes = bytes[4 := VERSION];
          bytes = bytes[5 := fh_flags h];
          bytes = put 6 (be16 (of_nat HEADER_LEN)) bytes;
          bytes = put 8 (fh_client_id h) bytes;
          bytes = put 24 (be64 (fh_session_id h)) bytes
      in put 32 (be64 (fh_sequence h)) bytes)"

definition header_decode :: "bytes \<Rightarrow> DecodeError + FrameHeader" where
  "header_decode bytes =
     (if length bytes < HEADER_LEN then Inl TooShort
      else if of_be32 (subslice 0 4 bytes) \<noteq> MAGIC then Inl InvalidMagic
      else if bytes ! 4 \<noteq> VERSION then Inl UnsupportedVersion
      else if unat (of_be16 (subslice 6 8 bytes)) \<noteq> HEADER_LEN then Inl InvalidHeaderLength
      else Inr \<lparr>fh_flags = bytes ! 5, fh_client_id = subslice 8 24 bytes,
                fh_session_id = of_be64 (subslice 24 32 bytes),
                fh_sequence = of_be64 (subslice 32 40 bytes)\<rparr>)"

subsection \<open>The header as a concatenation\<close>

lemma header_encode_concat:
  assumes "header_ok h"
  shows "header_encode h =
    be32 MAGIC @ [VERSION, fh_flags h] @ be16 40 @ fh_client_id h
      @ be64 (fh_session_id h) @ be64 (fh_sequence h)"
proof -
  have lens: "length (fh_client_id h) = 16"
    "length (be64 (fh_session_id h)) = 8" "length (be64 (fh_sequence h)) = 8"
    using assms by (simp_all add: header_ok_def)
  show ?thesis
    unfolding header_encode_def HEADER_LEN_def Let_def
    by (simp add: put_zeros [where xs = "[]", simplified] put_zeros update_zeros lens del: append_assoc)
qed

lemma length_header_encode [simp, wire_simps]: "header_ok h \<Longrightarrow> length (header_encode h) = 40"
  by (simp add: header_encode_concat header_ok_def)

lemma header_decode_encode:
  assumes "header_ok h"
  shows "header_decode (header_encode h @ rest) = Inr h"
proof -
  have id: "length (fh_client_id h) = 16" using assms by (simp add: header_ok_def)
  let ?bs = "header_encode h @ rest"
  note concat = header_encode_concat [OF assms]
  have "subslice 0 4 ?bs = be32 MAGIC" "?bs ! 4 = VERSION" "?bs ! 5 = fh_flags h"
    "subslice 6 8 ?bs = be16 40" "subslice 8 24 ?bs = fh_client_id h"
    "subslice 24 32 ?bs = be64 (fh_session_id h)" "subslice 32 40 ?bs = be64 (fh_sequence h)"
    using id by (simp_all add: concat subslice_def nth_append)
  then show ?thesis
    using assms by (simp add: header_decode_def HEADER_LEN_def)
qed

lemma header_decode_Inr:
  assumes "header_decode bs = Inr h"
  shows "header_ok h" and "take 40 bs = header_encode h" and "40 \<le> length bs"
proof -
  from assms have len: "40 \<le> length bs" and magic: "of_be32 (subslice 0 4 bs) = MAGIC"
    and version: "bs ! 4 = VERSION" and hlen: "unat (of_be16 (subslice 6 8 bs)) = 40"
    and h: "h = \<lparr>fh_flags = bs ! 5, fh_client_id = subslice 8 24 bs,
                fh_session_id = of_be64 (subslice 24 32 bs), fh_sequence = of_be64 (subslice 32 40 bs)\<rparr>"
    by (auto simp: header_decode_def HEADER_LEN_def split: if_splits)
  show ok: "header_ok h" and "40 \<le> length bs" using len by (simp_all add: header_ok_def h)
  from hlen have "of_be16 (subslice 6 8 bs) = 40" by (simp add: word_unat_eq_iff)
  with magic have parts: "be32 MAGIC = subslice 0 4 bs" "be16 40 = subslice 6 8 bs"
    using len be32_of_be32 [of "subslice 0 4 bs"] be16_of_be16 [of "subslice 6 8 bs"] by simp_all
  have flag_bytes: "[bs ! 4] = subslice 4 5 bs" "[bs ! 5] = subslice 5 6 bs"
    using len subslice_one [of 4 bs] subslice_one [of 5 bs] by simp_all
  have "take 40 bs = subslice 0 4 bs @ [bs ! 4] @ [bs ! 5] @ subslice 6 8 bs @ subslice 8 24 bs
      @ subslice 24 32 bs @ subslice 32 40 bs"
    unfolding flag_bytes subslice_0 [of 40, symmetric] by (simp add: subslice_join)
  then show "take 40 bs = header_encode h"
    using len by (simp add: header_encode_concat [OF ok] parts version)
      (simp add: h be64_of_be64 version [symmetric])
qed

definition header_of :: "bytes \<Rightarrow> FrameHeader option" where
  "header_of bs = (case header_decode bs of Inl _ \<Rightarrow> None | Inr h \<Rightarrow> Some h)"

interpretation header: wire_format header_encode header_of header_ok
proof
  show "header_ok h \<Longrightarrow> header_of (header_encode h) = Some h" for h
    using header_decode_encode [of h "[]"] by (simp add: header_of_def)
  show "header_of bs = Some h \<Longrightarrow> header_ok h" for bs h
    by (auto simp: header_of_def header_decode_Inr split: sum.splits)
qed

text \<open>
  A header survives encoding with any payload behind it, and conversely whatever the decoder
  accepts is the encoding of what it returned, so the 40 authenticated bytes of a frame and the
  header read from them say the same thing.
\<close>

theorem header_round_trip:
  "(\<forall>h rest. length (fh_client_id h) = 16 \<longrightarrow> header_decode (header_encode h @ rest) = Inr h)
   \<and> (\<forall>bs h. header_decode bs = Inr h \<longrightarrow> bs = header_encode h @ drop 40 bs)"
proof (intro conjI allI impI)
  fix h :: FrameHeader and rest assume "length (fh_client_id h) = 16"
  then show "header_decode (header_encode h @ rest) = Inr h"
    by (simp add: header_decode_encode header_ok_def)
next
  fix bs h assume "header_decode bs = Inr h"
  then show "bs = header_encode h @ drop 40 bs"
    using header_decode_Inr(2) append_take_drop_id by metis
qed

definition sample_header :: FrameHeader where
  "sample_header = \<lparr>fh_flags = 3, fh_client_id = replicate 16 7, fh_session_id = 42, fh_sequence = 9001\<rparr>"

theorem header_round_trip_witness:
  "header_decode (header_encode sample_header @ [1, 2]) = Inr sample_header"
proof -
  have "length (fh_client_id sample_header) = 16" by (simp add: sample_header_def)
  with header_round_trip show ?thesis by blast
qed

subsection \<open>Probes\<close>

lemma probe_response_request: "probe_response (probe_request s) = Some (PONG @ be64 s)"
  by (simp add: probe_response_def probe_request_def PING_def)

lemma probe_response_Some:
  "probe_response request = Some reply \<Longrightarrow> take 4 reply = PONG \<and> drop 4 reply = drop 4 request"
  by (auto simp: probe_response_def PONG_def split: if_splits)

text \<open>
  The reply to a tagged probe is accepted for that probe and for no other, with and without
  the legacy allowance; an untagged ping gets the untagged pong, which is accepted only while the
  peer has not shown tagged support.
\<close>

theorem probe_reply_answers_its_request:
  "(\<exists>reply. probe_response (probe_request s) = Some reply
      \<and> (\<forall>t legacy. probe_reply_matches reply t legacy \<longleftrightarrow> t = s))
   \<and> probe_response PING = Some PONG
   \<and> (\<forall>t legacy. probe_reply_matches PONG t legacy \<longleftrightarrow> legacy)"
proof (intro conjI exI allI)
  show "probe_response (probe_request s) = Some (PONG @ be64 s)"
    by (rule probe_response_request)
  have "be64 s \<noteq> []" using length_be(3) [of s] by force
  then show "probe_reply_matches (PONG @ be64 s) t legacy \<longleftrightarrow> t = s" for t legacy
    by (auto simp: probe_reply_matches_def PONG_def)
qed (simp_all add: probe_reply_matches_def PONG_def probe_response_def PING_def)

end
