(* ===== verification/Auth.thy ===== *)
theory Auth
  imports Protocol
begin

section \<open>Sealing and opening relay frames (\<^verbatim>\<open>engine/src/auth.rs\<close>)\<close>

text \<open>
  Key derivation, nonces, and the sealed frame format: the encoded header in the clear, as
  associated data, then the ciphertext. HKDF-SHA256, ChaCha20-Poly1305 and base64 are third-party
  crates, so they are a parameter of the model (\<open>crypto_lib\<close>), with what the code relies on as the
  predicates \<open>aead_correct\<close> and \<open>aead_tight\<close>.
\<close>

subsection \<open>The cryptographic crates\<close>

text \<open>
  \<open>cl_hkdf salt ikm info\<close> expands a 32-byte key; \<open>cl_encrypt key nonce aad msg\<close> and
  \<open>cl_decrypt key nonce aad ct\<close> are the AEAD; \<open>cl_base64\<close> is the URL-safe unpadded decoder.
\<close>

record crypto_lib =
  cl_hkdf :: "bytes \<Rightarrow> bytes \<Rightarrow> bytes \<Rightarrow> bytes option"
  cl_encrypt :: "bytes \<Rightarrow> bytes \<Rightarrow> bytes \<Rightarrow> bytes \<Rightarrow> bytes option"
  cl_decrypt :: "bytes \<Rightarrow> bytes \<Rightarrow> bytes \<Rightarrow> bytes \<Rightarrow> bytes option"
  cl_base64 :: "string \<Rightarrow> bytes option"

text \<open>Decryption with the same key, nonce and associated data undoes encryption.\<close>

definition aead_correct :: "crypto_lib \<Rightarrow> bool" where
  "aead_correct L \<longleftrightarrow>
     (\<forall>k n aad msg ct. cl_encrypt L k n aad msg = Some ct \<longrightarrow> cl_decrypt L k n aad ct = Some msg)"

text \<open>
  ChaCha20-Poly1305 is deterministic and the tag is recomputed on decryption, so a ciphertext that
  decrypts is the one encryption makes.
\<close>

definition aead_tight :: "crypto_lib \<Rightarrow> bool" where
  "aead_tight L \<longleftrightarrow>
     (\<forall>k n aad msg ct. cl_decrypt L k n aad ct = Some msg \<longrightarrow> cl_encrypt L k n aad msg = Some ct)"

subsection \<open>The code\<close>

definition CLIENT_TO_SERVER_NONCE :: u32 where "CLIENT_TO_SERVER_NONCE = 0x43545331"
definition SERVER_TO_CLIENT_NONCE :: u32 where "SERVER_TO_CLIENT_NONCE = 0x53544331"

datatype auth_error =
    UnsupportedEnrollmentVersion
  | InvalidClientId
  | InvalidPreSharedKey
  | ClientIdLength
  | PreSharedKeyLength
  | ClientKeyDerivation
  | ServerKeyDerivation
  | EncryptionFailed
  | InvalidFrame DecodeError
  | AuthenticationFailed

record EnrollmentToken =
  et_version :: u8
  et_client_id :: string
  et_pre_shared_key :: string
  et_virtual_ipv4 :: ipv4

definition material :: "crypto_lib \<Rightarrow> EnrollmentToken \<Rightarrow> auth_error + (bytes \<times> bytes)" where
  "material L t =
     (if et_version t \<noteq> 1 then Inl UnsupportedEnrollmentVersion
      else case cl_base64 L (et_client_id t) of
        None \<Rightarrow> Inl InvalidClientId
      | Some cid \<Rightarrow>
         (case cl_base64 L (et_pre_shared_key t) of
            None \<Rightarrow> Inl InvalidPreSharedKey
          | Some key \<Rightarrow>
             if length cid \<noteq> 16 then Inl ClientIdLength
             else if length key \<noteq> 32 then Inl PreSharedKeyLength
             else Inr (cid, key)))"

text \<open>The expansion labels \<^verbatim>\<open>b"gamepath-v1 client-to-server"\<close> and \<^verbatim>\<open>b"gamepath-v1 server-to-client"\<close>.\<close>

definition ascii :: "string \<Rightarrow> bytes" where
  "ascii s = map (\<lambda>c. of_nat (of_char c)) s"

record SessionCrypto =
  client_to_server :: bytes
  server_to_client :: bytes

definition session_crypto_new :: "crypto_lib \<Rightarrow> bytes \<Rightarrow> u64 \<Rightarrow> auth_error + SessionCrypto" where
  "session_crypto_new L pre_shared_key session_id =
     (case cl_hkdf L (be64 session_id) pre_shared_key (ascii ''gamepath-v1 client-to-server'') of
        None \<Rightarrow> Inl ClientKeyDerivation
      | Some client_key \<Rightarrow>
         (case cl_hkdf L (be64 session_id) pre_shared_key (ascii ''gamepath-v1 server-to-client'') of
            None \<Rightarrow> Inl ServerKeyDerivation
          | Some server_key \<Rightarrow>
              Inr \<lparr>client_to_server = client_key, server_to_client = server_key\<rparr>))"

definition nonce :: "u32 \<Rightarrow> u64 \<Rightarrow> bytes" where
  "nonce prefix sequence = put 4 (be64 sequence) (put 0 (be32 prefix) (replicate 12 0))"

definition seal :: "crypto_lib \<Rightarrow> bytes \<Rightarrow> u32 \<Rightarrow> FrameHeader \<Rightarrow> bytes \<Rightarrow> auth_error + bytes" where
  "seal L cipher prefix header plaintext =
     (let encoded = header_encode header
      in case cl_encrypt L cipher (nonce prefix (fh_sequence header)) encoded plaintext of
           None \<Rightarrow> Inl EncryptionFailed
         | Some ciphertext \<Rightarrow> Inr (encoded @ ciphertext))"

definition open_frame :: "crypto_lib \<Rightarrow> bytes \<Rightarrow> u32 \<Rightarrow> bytes \<Rightarrow> auth_error + (FrameHeader \<times> bytes)" where
  "open_frame L cipher prefix frame =
     (case header_decode frame of
        Inl e \<Rightarrow> Inl (InvalidFrame e)
      | Inr header \<Rightarrow>
         (case cl_decrypt L cipher (nonce prefix (fh_sequence header))
                 (take HEADER_LEN frame) (drop HEADER_LEN frame) of
            None \<Rightarrow> Inl AuthenticationFailed
          | Some plaintext \<Rightarrow> Inr (header, plaintext)))"

definition seal_client :: "crypto_lib \<Rightarrow> SessionCrypto \<Rightarrow> FrameHeader \<Rightarrow> bytes \<Rightarrow> auth_error + bytes" where
  "seal_client L c = seal L (client_to_server c) CLIENT_TO_SERVER_NONCE"

definition open_client :: "crypto_lib \<Rightarrow> SessionCrypto \<Rightarrow> bytes \<Rightarrow> auth_error + (FrameHeader \<times> bytes)" where
  "open_client L c = open_frame L (client_to_server c) CLIENT_TO_SERVER_NONCE"

definition seal_server :: "crypto_lib \<Rightarrow> SessionCrypto \<Rightarrow> FrameHeader \<Rightarrow> bytes \<Rightarrow> auth_error + bytes" where
  "seal_server L c = seal L (server_to_client c) SERVER_TO_CLIENT_NONCE"

definition open_server :: "crypto_lib \<Rightarrow> SessionCrypto \<Rightarrow> bytes \<Rightarrow> auth_error + (FrameHeader \<times> bytes)" where
  "open_server L c = open_frame L (server_to_client c) SERVER_TO_CLIENT_NONCE"

subsection \<open>Nonces and the frame format\<close>

lemma nonce_concat: "nonce prefix sequence = be32 prefix @ be64 sequence"
  unfolding nonce_def
  by (simp add: put_zeros [where xs = "[]", simplified] put_zeros)

lemma nonce_inject: "nonce p s = nonce q t \<longleftrightarrow> p = q \<and> s = t"
  by (simp add: nonce_concat)

lemma nonce_directions: "nonce CLIENT_TO_SERVER_NONCE s \<noteq> nonce SERVER_TO_CLIENT_NONCE t"
  by (simp add: nonce_inject CLIENT_TO_SERVER_NONCE_def SERVER_TO_CLIENT_NONCE_def)

lemma seal_Inr:
  "seal L k p h msg = Inr frame \<longleftrightarrow>
     (\<exists>ct. cl_encrypt L k (nonce p (fh_sequence h)) (header_encode h) msg = Some ct
        \<and> frame = header_encode h @ ct)"
  by (auto simp: seal_def Let_def split: option.splits)

lemma open_seal:
  assumes "aead_correct L" and "header_ok h" and "seal L k p h msg = Inr frame"
  shows "open_frame L k p frame = Inr (h, msg)"
proof -
  from assms(3) obtain ct where ct: "cl_encrypt L k (nonce p (fh_sequence h)) (header_encode h) msg = Some ct"
    and frame: "frame = header_encode h @ ct"
    by (auto simp: seal_Inr)
  have "cl_decrypt L k (nonce p (fh_sequence h)) (header_encode h) ct = Some msg"
    using assms(1) ct by (simp add: aead_correct_def)
  then show ?thesis
    using assms(2) by (simp add: open_frame_def frame header_decode_encode HEADER_LEN_def)
qed

lemma open_is_seal:
  assumes "aead_tight L" and "open_frame L k p frame = Inr (h, msg)"
  shows "header_ok h" and "seal L k p h msg = Inr frame"
proof -
  from assms(2) have dec: "header_decode frame = Inr h"
    and plain: "cl_decrypt L k (nonce p (fh_sequence h)) (take HEADER_LEN frame) (drop HEADER_LEN frame) = Some msg"
    by (auto simp: open_frame_def split: sum.splits option.splits)
  show "header_ok h" using dec by (rule header_decode_Inr)
  have hd: "take HEADER_LEN frame = header_encode h"
    using header_decode_Inr(2) [OF dec] by (simp add: HEADER_LEN_def)
  have "cl_encrypt L k (nonce p (fh_sequence h)) (header_encode h) msg = Some (drop HEADER_LEN frame)"
    using assms(1) plain hd by (simp add: aead_tight_def)
  then show "seal L k p h msg = Inr frame"
    using append_take_drop_id [of HEADER_LEN frame] by (simp add: seal_Inr hd)
qed

text \<open>
  C12. What one end seals, the other end opens to the same header and payload, in both directions,
  provided the AEAD crate decrypts what it encrypts.
\<close>

theorem sealed_frames_open:
  assumes "aead_correct L" and "length (fh_client_id h) = 16"
  shows "(seal_client L c h msg = Inr frame \<longrightarrow> open_client L c frame = Inr (h, msg))
    \<and> (seal_server L c h msg = Inr frame \<longrightarrow> open_server L c frame = Inr (h, msg))"
  using assms open_seal
  by (simp add: header_ok_def seal_client_def open_client_def seal_server_def open_server_def)

text \<open>
  A concrete library that meets both hypotheses, for the witnesses: the tag is sixteen zero bytes.
\<close>

definition tag_lib :: crypto_lib where
  "tag_lib = \<lparr>cl_hkdf = (\<lambda>salt ikm info. Some (take 32 (salt @ ikm))),
     cl_encrypt = (\<lambda>k n aad msg. Some (msg @ replicate 16 0)),
     cl_decrypt = (\<lambda>k n aad ct. if drop (length ct - 16) ct = replicate 16 0
       then Some (take (length ct - 16) ct) else None),
     cl_base64 = (\<lambda>s. Some (ascii s))\<rparr>"

lemma tag_lib_correct: "aead_correct tag_lib"
  by (simp add: aead_correct_def tag_lib_def)

lemma tag_lib_tight: "aead_tight tag_lib"
  by (auto simp: aead_tight_def tag_lib_def split: if_splits) (metis append_take_drop_id)

definition sample_crypto :: SessionCrypto where
  "sample_crypto = \<lparr>client_to_server = [1], server_to_client = [2]\<rparr>"

theorem sealed_frames_open_witness:
  "open_client tag_lib sample_crypto (header_encode sample_header @ 5 # replicate 16 0) = Inr (sample_header, [5])"
proof -
  have "length (fh_client_id sample_header) = 16" by (simp add: sample_header_def)
  moreover have "seal_client tag_lib sample_crypto sample_header [5] = Inr (header_encode sample_header @ 5 # replicate 16 0)"
    by (simp add: seal_client_def seal_def tag_lib_def Let_def)
  ultimately show ?thesis using sealed_frames_open [OF tag_lib_correct] by blast
qed

text \<open>
  C13. A frame the relay opens is, byte for byte, the frame sealing the returned header and payload
  makes under the session's client key: no byte of the clear header or of the ciphertext can differ
  from what the key's holder sealed. The client nonce and the server nonce of any two sequences
  differ, so the two directions never share a nonce.
\<close>

theorem opened_frame_is_authentic:
  assumes "aead_tight L" and "open_client L c frame = Inr (h, msg)"
  shows "seal_client L c h msg = Inr frame \<and> length (fh_client_id h) = 16
    \<and> (\<forall>s t. nonce CLIENT_TO_SERVER_NONCE s \<noteq> nonce SERVER_TO_CLIENT_NONCE t)"
  using assms open_is_seal [of L "client_to_server c" CLIENT_TO_SERVER_NONCE frame h msg] nonce_directions
  by (simp add: seal_client_def open_client_def header_ok_def)

theorem opened_frame_is_authentic_witness:
  "seal_client tag_lib sample_crypto sample_header [5] = Inr (header_encode sample_header @ 5 # replicate 16 0)"
proof -
  have "header_decode (header_encode sample_header @ 5 # replicate 16 0) = Inr sample_header"
    by (rule header_decode_encode) (simp add: header_ok_def sample_header_def)
  then have "open_client tag_lib sample_crypto (header_encode sample_header @ 5 # replicate 16 0) = Inr (sample_header, [5])"
    by (simp add: open_client_def open_frame_def tag_lib_def HEADER_LEN_def header_ok_def sample_header_def)
  from opened_frame_is_authentic [OF tag_lib_tight this] show ?thesis by simp
qed

end
