(* ===== verification/Fec_Policy.thy ===== *)
theory Fec_Policy
  imports Contracts Complex_Main
begin

section \<open>Group size and probe history of loss repair (\<^verbatim>\<open>engine/src/fec.rs\<close>)\<close>

text \<open>
  How many packets one repair covers, the hysteresis that shrinks and regrows the multipath group,
  and the 60-probe history a path is judged by.

  A loss ratio is a rational number here. In the source it is an \<^verbatim>\<open>f64\<close> quotient of two integers
  of at most 60, or the least of several such quotients, and it is only ever compared with the
  literals 0.10 and 0.04. Division and literals are correctly rounded and two different fractions
  involved differ by more than 1/1600, so the comparisons have the same outcome.
\<close>

definition MAX_GROUP :: nat where "MAX_GROUP = 4"
definition MULTIPATH_GROUP :: u8 where "MULTIPATH_GROUP = 4"
definition LOSSY_MULTIPATH_GROUP :: u8 where "LOSSY_MULTIPATH_GROUP = 2"
definition SINGLE_PATH_GROUP :: u8 where "SINGLE_PATH_GROUP = 1"
definition LOSSY_PATH_LOSS :: rat where "LOSSY_PATH_LOSS = 10 / 100"
definition RECOVERED_PATH_LOSS :: rat where "RECOVERED_PATH_LOSS = 4 / 100"
definition LOSSY_AFTER :: duration where "LOSSY_AFTER = secs 10"
definition RECOVERED_AFTER :: duration where "RECOVERED_AFTER = secs 60"

definition group_size_for :: "u32 \<Rightarrow> u8 \<Rightarrow> u8" where
  "group_size_for healthy_paths multipath_group =
     (if healthy_paths \<ge> 2 then multipath_group else SINGLE_PATH_GROUP)"

subsection \<open>Multipath policy\<close>

record MultipathPolicy =
  mp_lossy :: bool
  mp_crossing_since :: "instant option"

definition policy_default :: MultipathPolicy where
  "policy_default = \<lparr>mp_lossy = False, mp_crossing_since = None\<rparr>"

definition policy_group :: "MultipathPolicy \<Rightarrow> u8" where
  "policy_group p = (if mp_lossy p then LOSSY_MULTIPATH_GROUP else MULTIPATH_GROUP)"

definition policy_interrupt :: "MultipathPolicy \<Rightarrow> MultipathPolicy" where
  "policy_interrupt p = p\<lparr>mp_crossing_since := None\<rparr>"

text \<open>\<^verbatim>\<open>observe\<close> returns the policy it leaves and the group size to use from now on.\<close>

definition policy_observe :: "MultipathPolicy \<Rightarrow> rat \<Rightarrow> instant \<Rightarrow> MultipathPolicy \<times> u8" where
  "policy_observe p best_loss now =
     (let crossing = (if mp_lossy p then best_loss < RECOVERED_PATH_LOSS else best_loss \<ge> LOSSY_PATH_LOSS)
      in if \<not> crossing then
           (let p' = p\<lparr>mp_crossing_since := None\<rparr> in (p', policy_group p'))
         else
           (let since = (case mp_crossing_since p of Some t \<Rightarrow> t | None \<Rightarrow> now);
                p1 = p\<lparr>mp_crossing_since := Some since\<rparr>;
                hold = (if mp_lossy p then RECOVERED_AFTER else LOSSY_AFTER);
                p2 = (if duration_since now since \<ge> hold
                      then p1\<lparr>mp_lossy := \<not> mp_lossy p, mp_crossing_since := None\<rparr> else p1)
            in (p2, policy_group p2)))"

text \<open>A run of observations and interruptions, as the path workers make them.\<close>

datatype policy_event = Observe rat instant | Interrupt

fun policy_step :: "policy_event \<Rightarrow> MultipathPolicy \<Rightarrow> MultipathPolicy" where
  "policy_step (Observe loss now) p = fst (policy_observe p loss now)"
| "policy_step Interrupt p = policy_interrupt p"

definition policy_run :: "policy_event list \<Rightarrow> MultipathPolicy" where
  "policy_run es = fold policy_step es policy_default"

text \<open>
  \<open>streak bad t es\<close>: the newest events of \<open>es\<close> are observations that all satisfy \<open>bad\<close>, the
  first of them made at \<open>t\<close>.
\<close>

definition streak :: "(rat \<Rightarrow> bool) \<Rightarrow> instant \<Rightarrow> policy_event list \<Rightarrow> bool" where
  "streak bad t es \<longleftrightarrow>
     (\<exists>old loss newer. es = old @ Observe loss t # newer
        \<and> bad loss \<and> (\<forall>e \<in> set newer. \<exists>l n. e = Observe l n \<and> bad l))"

definition crossing_of :: "bool \<Rightarrow> rat \<Rightarrow> bool" where
  "crossing_of is_lossy loss = (if is_lossy then loss < RECOVERED_PATH_LOSS else loss \<ge> LOSSY_PATH_LOSS)"

definition hold_of :: "bool \<Rightarrow> duration" where
  "hold_of is_lossy = (if is_lossy then RECOVERED_AFTER else LOSSY_AFTER)"

lemma streak_snoc: "streak bad t es \<Longrightarrow> bad l \<Longrightarrow> streak bad t (es @ [Observe l n])"
  unfolding streak_def by fastforce

lemma streak_single: "bad l \<Longrightarrow> streak bad n (es @ [Observe l n])"
  unfolding streak_def by fastforce

lemma policy_run_snoc: "policy_run (es @ [e]) = policy_step e (policy_run es)"
  by (simp add: policy_run_def)

lemmas observe_unfold = policy_observe_def crossing_of_def hold_of_def Let_def

lemma policy_run_streak:
  "mp_crossing_since (policy_run es) = Some t \<Longrightarrow> streak (crossing_of (mp_lossy (policy_run es))) t es"
proof (induction es arbitrary: t rule: rev_induct)
  case Nil
  then show ?case by (simp add: policy_run_def policy_default_def)
next
  case (snoc e es)
  show ?case
  proof (cases e)
    case (Observe l n)
    let ?p = "policy_run es"
    from snoc.prems have cross: "crossing_of (mp_lossy ?p) l"
      and same: "mp_lossy (policy_run (es @ [e])) = mp_lossy ?p"
      and t: "t = (case mp_crossing_since ?p of Some t \<Rightarrow> t | None \<Rightarrow> n)"
      by (auto simp: Observe policy_run_snoc observe_unfold split: if_splits)
    show ?thesis
    proof (cases "mp_crossing_since ?p")
      case None
      with t cross show ?thesis by (simp only: same) (simp add: Observe streak_single)
    next
      case (Some u)
      with t have "streak (crossing_of (mp_lossy ?p)) t es" using snoc.IH by simp
      with cross show ?thesis by (simp only: same) (simp add: Observe streak_snoc)
    qed
  next
    case Interrupt
    with snoc.prems show ?thesis by (simp add: policy_run_snoc policy_interrupt_def)
  qed
qed

lemma policy_flip:
  assumes "mp_lossy (policy_run (es @ [e])) \<noteq> mp_lossy (policy_run es)"
  shows "\<exists>loss now t. e = Observe loss now \<and> duration_since now t \<ge> hold_of (mp_lossy (policy_run es))
    \<and> streak (crossing_of (mp_lossy (policy_run es))) t (es @ [e])"
proof (cases e)
  case (Observe l n)
  let ?p = "policy_run es"
  let ?t = "case mp_crossing_since ?p of Some t \<Rightarrow> t | None \<Rightarrow> n"
  from assms have cross: "crossing_of (mp_lossy ?p) l" and long: "duration_since n ?t \<ge> hold_of (mp_lossy ?p)"
    by (auto simp: Observe policy_run_snoc observe_unfold split: if_splits)
  have "streak (crossing_of (mp_lossy ?p)) ?t (es @ [e])"
    using cross policy_run_streak [of es]
    by (cases "mp_crossing_since ?p") (simp_all add: Observe streak_single streak_snoc)
  with Observe long show ?thesis by blast
next
  case Interrupt
  with assms show ?thesis by (simp add: policy_run_snoc policy_interrupt_def)
qed

text \<open>The times of the observations, in the order they were made.\<close>

fun event_times :: "policy_event list \<Rightarrow> instant list" where
  "event_times [] = []"
| "event_times (Observe l n # es) = n # event_times es"
| "event_times (Interrupt # es) = event_times es"

lemma event_times_append: "event_times (as @ bs) = event_times as @ event_times bs"
  by (induction as rule: event_times.induct) auto

lemma streak_time: "streak bad t es \<Longrightarrow> t \<in> set (event_times es)"
  by (auto simp: streak_def event_times_append)

lemma lossy_streak_progress:
  assumes "sorted (event_times (old @ [Observe loss t]))" and "loss \<ge> LOSSY_PATH_LOSS"
    and "\<forall>e \<in> set newer. \<exists>l n. e = Observe l n \<and> l \<ge> LOSSY_PATH_LOSS"
  defines "q \<equiv> policy_run (old @ Observe loss t # newer)"
  shows "mp_lossy q \<or> (\<exists>u \<le> t. mp_crossing_since q = Some u)"
  using assms(3) unfolding q_def
proof (induction newer rule: rev_induct)
  case Nil
  have "u \<le> t" if "mp_crossing_since (policy_run old) = Some u" for u
    using streak_time [OF policy_run_streak [OF that]] assms(1)
    by (simp add: event_times_append sorted_append)
  with assms(2) show ?case
    by (auto simp: policy_run_snoc observe_unfold RECOVERED_PATH_LOSS_def LOSSY_PATH_LOSS_def split: option.splits)
next
  case (snoc e newer)
  then obtain l n where e: "e = Observe l n" "l \<ge> LOSSY_PATH_LOSS" by auto
  let ?q = "policy_run (old @ Observe loss t # newer)"
  have step: "policy_run (old @ Observe loss t # newer @ [e]) = policy_step e ?q"
    using policy_run_snoc [of "old @ Observe loss t # newer" e] by simp
  from snoc have "mp_lossy ?q \<or> (\<exists>u \<le> t. mp_crossing_since ?q = Some u)" by simp
  with e show ?case unfolding step
    by (auto simp: observe_unfold RECOVERED_PATH_LOSS_def LOSSY_PATH_LOSS_def)
qed

lemma lossy_streak_flips:
  assumes "sorted (event_times es)" and "streak (\<lambda>l. l \<ge> LOSSY_PATH_LOSS) t es"
    and "es \<noteq> []" and "last es = Observe l now" and "duration_since now t \<ge> LOSSY_AFTER"
  shows "mp_lossy (policy_run es)"
proof -
  from assms(2) obtain old loss newer where es: "es = old @ Observe loss t # newer"
    and bad: "loss \<ge> LOSSY_PATH_LOSS" "\<forall>e \<in> set newer. \<exists>l n. e = Observe l n \<and> l \<ge> LOSSY_PATH_LOSS"
    unfolding streak_def by blast
  have "newer \<noteq> []"
    using assms(4,5) by (auto simp: es duration_since_def LOSSY_AFTER_def secs_def)
  then obtain mid where mid: "newer = mid @ [Observe l now]"
    using assms(4) es by (metis append_butlast_last_id last_ConsR last_appendR list.distinct(1))
  let ?q = "policy_run (old @ Observe loss t # mid)"
  have "sorted (event_times (old @ [Observe loss t]))"
    using assms(1) by (simp add: es event_times_append sorted_append)
  then have q: "mp_lossy ?q \<or> (\<exists>u \<le> t. mp_crossing_since ?q = Some u)"
    using bad by (intro lossy_streak_progress) (auto simp: mid)
  have "l \<ge> LOSSY_PATH_LOSS" using bad(2) by (auto simp: mid)
  moreover have "policy_run es = policy_step (Observe l now) ?q"
    using policy_run_snoc [of "old @ Observe loss t # mid"] by (simp add: es mid)
  ultimately show ?thesis
    using q assms(5)
    by (auto simp: observe_unfold duration_since_def RECOVERED_PATH_LOSS_def LOSSY_PATH_LOSS_def)
qed

lemma group_lossy: "policy_group p = LOSSY_MULTIPATH_GROUP \<longleftrightarrow> mp_lossy p"
  by (simp add: policy_group_def LOSSY_MULTIPATH_GROUP_def MULTIPATH_GROUP_def)

text \<open>
  The multipath group goes from four to two only after an unbroken run of observations at 10%
  loss or more that spans at least ten seconds, and back only after an unbroken run below 4% that
  spans at least sixty; and a run of lossy observations spanning ten seconds always shrinks it.
\<close>

theorem group_size_hysteresis:
  "(policy_group (policy_run es) = MULTIPATH_GROUP
      \<and> policy_group (policy_run (es @ [e])) = LOSSY_MULTIPATH_GROUP
      \<longrightarrow> (\<exists>loss now t. e = Observe loss now \<and> duration_since now t \<ge> secs 10
             \<and> streak (\<lambda>l. l \<ge> 1 / 10) t (es @ [e])))
   \<and> (policy_group (policy_run es) = LOSSY_MULTIPATH_GROUP
      \<and> policy_group (policy_run (es @ [e])) = MULTIPATH_GROUP
      \<longrightarrow> (\<exists>loss now t. e = Observe loss now \<and> duration_since now t \<ge> secs 60
             \<and> streak (\<lambda>l. l < 1 / 25) t (es @ [e])))
   \<and> (sorted (event_times (es @ [Observe l now])) \<and> duration_since now t \<ge> secs 10
      \<and> streak (\<lambda>l. l \<ge> 1 / 10) t (es @ [Observe l now])
      \<longrightarrow> policy_group (policy_run (es @ [Observe l now])) = LOSSY_MULTIPATH_GROUP)"
proof -
  have bad: "crossing_of False = (\<lambda>l. l \<ge> 1 / 10)" "crossing_of True = (\<lambda>l. l < 1 / 25)"
    by (auto simp: crossing_of_def LOSSY_PATH_LOSS_def RECOVERED_PATH_LOSS_def fun_eq_iff)
  have hold: "hold_of False = secs 10" "hold_of True = secs 60"
    by (simp_all add: hold_of_def LOSSY_AFTER_def RECOVERED_AFTER_def)
  have four: "policy_group p = MULTIPATH_GROUP \<longleftrightarrow> \<not> mp_lossy p" for p
    by (simp add: policy_group_def LOSSY_MULTIPATH_GROUP_def MULTIPATH_GROUP_def)
  show ?thesis
    using policy_flip [of es e] lossy_streak_flips [of "es @ [Observe l now]" t l now]
    by (auto simp: group_lossy four bad hold LOSSY_AFTER_def LOSSY_PATH_LOSS_def)
qed

theorem group_size_hysteresis_witness:
  "policy_group (policy_run [Observe 1 0, Observe 1 (secs 10)]) = LOSSY_MULTIPATH_GROUP"
proof -
  have "sorted (event_times ([Observe 1 0] @ [Observe 1 (secs 10)]))" by simp
  moreover have "duration_since (secs 10) 0 \<ge> secs 10" by (simp add: duration_since_def)
  moreover have "streak (\<lambda>l. l \<ge> 1 / 10) 0 ([Observe 1 0] @ [Observe 1 (secs 10)])"
    unfolding streak_def by (rule exI [of _ "[]"]) auto
  ultimately have "policy_group (policy_run ([Observe 1 0] @ [Observe 1 (secs 10)]))
      = LOSSY_MULTIPATH_GROUP"
    using group_size_hysteresis [of "[Observe 1 0]" Interrupt 1 "secs 10" 0] by blast
  then show ?thesis by simp
qed

subsection \<open>Probe history\<close>

definition LOSS_WINDOW :: u32 where "LOSS_WINDOW = 60"
definition MIN_LOSS_SAMPLES :: u32 where "MIN_LOSS_SAMPLES = 30"

record ProbeHistory =
  ph_lost :: u64
  ph_samples :: u32

definition probe_history_default :: ProbeHistory where
  "probe_history_default = \<lparr>ph_lost = 0, ph_samples = 0\<rparr>"

definition record_outcome :: "bool \<Rightarrow> ProbeHistory \<Rightarrow> ProbeHistory" where
  "record_outcome lost h =
     (let window = drop_bit (64 - unat LOSS_WINDOW) (- 1 :: u64)
      in h\<lparr>ph_lost := (push_bit 1 (ph_lost h) OR of_bool lost) AND window,
           ph_samples := min (ph_samples h + 1) LOSS_WINDOW\<rparr>)"

text \<open>The loop \<^verbatim>\<open>while self.samples > 0 && self.lost & 1 == 1\<close> ends because \<^verbatim>\<open>samples\<close> shrinks.\<close>

function forget_outage :: "ProbeHistory \<Rightarrow> ProbeHistory" where
  "forget_outage h =
     (if ph_samples h > 0 \<and> ph_lost h AND 1 = 1
      then forget_outage (h\<lparr>ph_lost := drop_bit 1 (ph_lost h), ph_samples := ph_samples h - 1\<rparr>)
      else h)"
  by pat_completeness auto
termination
proof (relation "measure (\<lambda>h. unat (ph_samples h))")
  fix h :: ProbeHistory assume "ph_samples h > 0 \<and> ph_lost h AND 1 = 1"
  then have "unat (ph_samples h - 1) < unat (ph_samples h)"
    by (metis word_less_nat_alt measure_unat word_gt_0)
  then show "(h\<lparr>ph_lost := drop_bit 1 (ph_lost h), ph_samples := ph_samples h - 1\<rparr>, h)
      \<in> measure (\<lambda>h. unat (ph_samples h))" by simp
qed simp

declare forget_outage.simps [simp del]

definition history_loss :: "ProbeHistory \<Rightarrow> rat option" where
  "history_loss h =
     (if ph_samples h \<ge> MIN_LOSS_SAMPLES
      then Some (of_nat (count_ones (ph_lost h)) / of_nat (unat (ph_samples h)))
      else None)"

text \<open>The outcomes the history stands for, newest first; \<open>True\<close> is a lost probe.\<close>

definition outcomes :: "ProbeHistory \<Rightarrow> bool list" where
  "outcomes h = map (bit (ph_lost h)) [0..<unat (ph_samples h)]"

definition history_ok :: "ProbeHistory \<Rightarrow> bool" where
  "history_ok h \<longleftrightarrow> unat (ph_samples h) \<le> 60 \<and> (\<forall>i \<ge> unat (ph_samples h). \<not> bit (ph_lost h) i)"

lemma bit_record_outcome:
  "bit (ph_lost (record_outcome b h)) i \<longleftrightarrow> i < 60 \<and> (if i = 0 then b else bit (ph_lost h) (i - 1))"
proof -
  have shift: "bit (push_bit 1 (ph_lost h)) i \<longleftrightarrow> 1 \<le> i \<and> i < 64 \<and> bit (ph_lost h) (i - 1)"
    by (subst bit_push_bit_iff) simp
  have "ph_lost (record_outcome b h)
      = (push_bit 1 (ph_lost h) OR of_bool b) AND drop_bit (64 - unat LOSS_WINDOW) (- 1)"
    by (simp only: record_outcome_def Let_def) (cases h, simp)
  then show ?thesis
    by (simp only: bit_and_iff bit_or_iff shift) (auto simp: LOSS_WINDOW_def bit_simps)
qed

lemma samples_record_outcome:
  "history_ok h \<Longrightarrow> unat (ph_samples (record_outcome b h)) = min 60 (Suc (unat (ph_samples h)))"
  by (simp add: record_outcome_def LOSS_WINDOW_def history_ok_def min_def word_le_nat_alt unat_word_ariths)

lemma outcomes_record:
  assumes "history_ok h"
  shows "outcomes (record_outcome b h) = take 60 (b # outcomes h)"
proof (rule nth_equalityI)
  show "length (outcomes (record_outcome b h)) = length (take 60 (b # outcomes h))"
    using assms by (simp add: outcomes_def samples_record_outcome)
  fix i assume "i < length (outcomes (record_outcome b h))"
  with assms show "outcomes (record_outcome b h) ! i = take 60 (b # outcomes h) ! i"
    by (cases i) (auto simp: outcomes_def samples_record_outcome bit_record_outcome simp del: upt_Suc)
qed

lemma history_ok_record: "history_ok h \<Longrightarrow> history_ok (record_outcome b h)"
  using samples_record_outcome [of h b]
  by (auto simp: history_ok_def bit_record_outcome Suc_le_eq)

lemma history_ok_default [simp]: "history_ok probe_history_default"
  by (simp add: history_ok_def probe_history_default_def)

lemma outcomes_forget:
  "outcomes (forget_outage h) = dropWhile (\<lambda>lost. lost) (outcomes h)
   \<and> (history_ok h \<longrightarrow> history_ok (forget_outage h))"
proof (induction h rule: forget_outage.induct)
  case (1 h)
  let ?h = "h\<lparr>ph_lost := drop_bit 1 (ph_lost h), ph_samples := ph_samples h - 1\<rparr>"
  have odd: "ph_lost h AND 1 = 1 \<longleftrightarrow> bit (ph_lost h) 0"
    by (simp add: and_one_eq odd_iff_mod_2_eq_one bit_0 flip: odd_iff_mod_2_eq_one)
  show ?case
  proof (cases "ph_samples h > 0 \<and> ph_lost h AND 1 = 1")
    case True
    then have pos: "unat (ph_samples h) > 0" by (simp add: word_less_nat_alt)
    then have pred: "unat (ph_samples h - 1) = unat (ph_samples h) - 1"
      by (simp add: unat_sub word_le_nat_alt)
    from pos obtain n where n: "unat (ph_samples h) = Suc n" using gr0_implies_Suc by blast
    have "outcomes h = True # outcomes ?h"
      using True pred n odd
      by (simp add: outcomes_def upt_conv_Cons bit_simps del: upt_Suc) (simp add: map_Suc_upt [symmetric] comp_def del: upt_Suc)
    moreover have "history_ok h \<longrightarrow> history_ok ?h"
      using pred n by (auto simp: history_ok_def bit_simps)
    ultimately show ?thesis
      using True 1 by (simp add: forget_outage.simps [of h])
  next
    case False
    then have "outcomes h = [] \<or> \<not> hd (outcomes h)"
      using odd by (auto simp: outcomes_def hd_map word_gt_0)
    then have "dropWhile (\<lambda>lost. lost) (outcomes h) = outcomes h"
      by (cases "outcomes h") auto
    moreover have "forget_outage h = h"
      using False by (subst forget_outage.simps) auto
    ultimately show ?thesis by simp
  qed
qed

lemma history_loss_outcomes:
  assumes "history_ok h"
  shows "history_loss h =
    (if length (outcomes h) \<ge> 30
     then Some (of_nat (count_list (outcomes h) True) / of_nat (length (outcomes h))) else None)"
proof -
  have "filter (bit (ph_lost h)) [0..<64] = filter (bit (ph_lost h)) [0..<unat (ph_samples h)]"
  proof -
    have "[0..<64] = [0..<unat (ph_samples h)] @ [unat (ph_samples h)..<64]"
      using assms upt_add_eq_append [of 0 "unat (ph_samples h)" "64 - unat (ph_samples h)"]
      by (simp add: history_ok_def)
    then show ?thesis using assms by (simp add: history_ok_def filter_empty_conv)
  qed
  then have "count_ones (ph_lost h) = count_list (outcomes h) True"
    by (simp add: count_ones_def outcomes_def count_list_eq_length_filter filter_map comp_def)
  then show ?thesis
    by (simp add: history_loss_def MIN_LOSS_SAMPLES_def outcomes_def word_le_nat_alt)
qed

text \<open>The history as a component: a probe outcome is recorded, or an outage is forgotten.\<close>

datatype history_event = Outcome bool | Outage

fun history_step :: "history_event \<Rightarrow> ProbeHistory \<Rightarrow> ProbeHistory" where
  "history_step (Outcome lost) h = record_outcome lost h"
| "history_step Outage h = forget_outage h"

interpretation history: component probe_history_default history_step history_ok
proof
  show "history_ok h \<Longrightarrow> history_ok (history_step e h)" for e h
    by (cases e) (simp_all add: history_ok_record outcomes_forget)
qed simp

text \<open>What the history stands for: the newest 60 outcomes, with the outages taken out.\<close>

fun outcome_list_step :: "history_event \<Rightarrow> bool list \<Rightarrow> bool list" where
  "outcome_list_step (Outcome lost) os = take 60 (lost # os)"
| "outcome_list_step Outage os = dropWhile (\<lambda>lost. lost) os"

definition outcome_list_loss :: "bool list \<Rightarrow> rat option" where
  "outcome_list_loss os =
     (if length os \<ge> 30 then Some (of_nat (count_list os True) / of_nat (length os)) else None)"

lemma history_simulates:
  "history_ok h \<Longrightarrow> outcomes (fold history_step es h) = fold outcome_list_step es (outcomes h)"
proof (induction es arbitrary: h)
  case (Cons e es)
  have "outcomes (history_step e h) = outcome_list_step e (outcomes h)"
    using Cons.prems by (cases e) (simp_all add: outcomes_record outcomes_forget)
  with Cons history.step_inv [of h e] show ?case by simp
qed simp

text \<open>
  The 64-bit shift register with its sample count behaves as the list of the newest 60 probe
  outcomes from which the run of losses at the newest end is cut when an outage is forgotten, and
  the loss it reports is the share of lost probes in that list, once it holds thirty.
\<close>

theorem probe_history_refines_outcomes:
  "history_loss (fold history_step es probe_history_default)
     = outcome_list_loss (fold outcome_list_step es [])"
proof -
  have "outcomes probe_history_default = []"
    by (simp add: outcomes_def probe_history_default_def)
  then show ?thesis
    using history_loss_outcomes [OF history.run_inv [of es]] history_simulates [OF history_ok_default, of es]
    by (simp add: outcome_list_loss_def)
qed

end
