(* ===== verification/Fec_Encoder.thy ===== *)
theory Fec_Encoder
  imports Fec_Policy
begin

section \<open>Loss repair: control messages and the encoder (\<^verbatim>\<open>engine/src/fec.rs\<close>)\<close>

text \<open>
  The offer and acceptance messages, the XOR parity of a group of packets, and the encoder that
  gathers sent packets into groups and closes each with a repair payload. The lemmas describe the
  encoder by the group of packets it holds: its parity is the XOR of their length-prefixed blocks,
  and what it emits on closing is the payload of exactly that group.
\<close>

subsection \<open>Control messages\<close>

definition FEC_VERSION :: u8 where "FEC_VERSION = 1"

text \<open>The byte strings \<^verbatim>\<open>b"fecq"\<close> and \<^verbatim>\<open>b"feca"\<close>.\<close>

definition OFFER :: bytes where "OFFER = [102, 101, 99, 113]"
definition ACCEPT :: bytes where "ACCEPT = [102, 101, 99, 97]"
definition CONTROL_LEN :: nat where "CONTROL_LEN = 6"

record Offer =
  of_group_size :: u8
  of_mtu :: u16

definition control :: "bytes \<Rightarrow> u8 \<Rightarrow> bytes" where
  "control tag group_size = tag @ [FEC_VERSION, group_size]"

definition offer_message :: "Offer \<Rightarrow> bytes" where
  "offer_message o' = control OFFER (of_group_size o') @ be16 (of_mtu o')"

definition fec_accept :: "u8 \<Rightarrow> bytes" where
  "fec_accept group_size = control ACCEPT group_size"

fun parse_control :: "bytes \<Rightarrow> bytes \<Rightarrow> u8 option" where
  "parse_control tag [a, b, c, d, version, grp] =
     (if [a, b, c, d] = tag \<and> version = FEC_VERSION \<and> 1 \<le> grp \<and> grp \<le> of_nat MAX_GROUP
      then Some grp else None)"
| "parse_control tag _ = None"

definition parse_offer :: "bytes \<Rightarrow> Offer option" where
  "parse_offer payload =
     (if length payload < CONTROL_LEN then None
      else let head = take CONTROL_LEN payload; mtu = drop CONTROL_LEN payload
           in if length mtu \<noteq> 2 then None
              else case parse_control OFFER head of
                     None \<Rightarrow> None
                   | Some g \<Rightarrow> Some \<lparr>of_group_size = g, of_mtu = of_be16 mtu\<rparr>)"

definition accepted_group :: "bytes \<Rightarrow> u8 option" where
  "accepted_group payload = parse_control ACCEPT payload"

definition group_ok :: "u8 \<Rightarrow> bool" where
  "group_ok g \<longleftrightarrow> 1 \<le> g \<and> g \<le> 4"

lemma parse_control_Some:
  "parse_control tag payload = Some g \<longleftrightarrow> group_ok g \<and> payload = control tag g \<and> length tag = 4"
proof
  assume "parse_control tag payload = Some g"
  then show "group_ok g \<and> payload = control tag g \<and> length tag = 4"
    by (cases "(tag, payload)" rule: parse_control.cases)
      (auto simp: group_ok_def MAX_GROUP_def control_def split: if_splits)
next
  assume rhs: "group_ok g \<and> payload = control tag g \<and> length tag = 4"
  then obtain a b c d where "tag = [a, b, c, d]"
    by (auto simp: numeral_eq_Suc length_Suc_conv)
  with rhs show "parse_control tag payload = Some g"
    by (simp add: control_def group_ok_def MAX_GROUP_def)
qed

lemma length_control [simp]: "length (control tag g) = length tag + 2"
  by (simp add: control_def)

interpretation offers: canonical_format offer_message parse_offer "\<lambda>o'. group_ok (of_group_size o')"
proof
  fix o' :: Offer assume "group_ok (of_group_size o')"
  then have "parse_control OFFER (control OFFER (of_group_size o')) = Some (of_group_size o')"
    by (simp add: parse_control_Some OFFER_def)
  then show "parse_offer (offer_message o') = Some o'"
    by (simp add: parse_offer_def offer_message_def CONTROL_LEN_def Let_def OFFER_def)
next
  fix bs o' assume "parse_offer bs = Some o'"
  then obtain g where g: "parse_control OFFER (take 6 bs) = Some g" "length (drop 6 bs) = 2"
    "o' = \<lparr>of_group_size = g, of_mtu = of_be16 (drop 6 bs)\<rparr>"
    by (auto simp: parse_offer_def CONTROL_LEN_def Let_def split: if_splits option.splits)
  then show "group_ok (of_group_size o')" by (simp add: parse_control_Some)
  show "offer_message o' = bs"
    using g append_take_drop_id [of 6 bs]
    by (simp add: parse_control_Some offer_message_def be16_of_be16)
qed

interpretation acceptance: canonical_format fec_accept accepted_group group_ok
  by unfold_locales (auto simp: accepted_group_def fec_accept_def parse_control_Some ACCEPT_def)

subsection \<open>Parity\<close>

definition LENGTH_PREFIX :: nat where "LENGTH_PREFIX = 2"

text \<open>\<^verbatim>\<open>for (byte, source) in target.iter_mut().zip(packet) { *byte ^= source; }\<close>\<close>

fun xor_zip :: "bytes \<Rightarrow> bytes \<Rightarrow> bytes" where
  "xor_zip (b # bs) (s # ss) = (b XOR s) # xor_zip bs ss"
| "xor_zip bs _ = bs"

definition xor_member :: "bytes \<Rightarrow> bytes \<Rightarrow> bytes" where
  "xor_member parity packet =
     (let needed = LENGTH_PREFIX + length packet;
          parity = (if length parity < needed
                    then parity @ replicate (needed - length parity) 0 else parity);
          len = be16 (of_nat (length packet));
          parity = parity[0 := parity ! 0 XOR len ! 0];
          parity = parity[1 := parity ! 1 XOR len ! 1]
      in take LENGTH_PREFIX parity @ xor_zip (drop LENGTH_PREFIX parity) packet)"

text \<open>
  Zero-extended XOR of byte strings, and the block a packet contributes: its length in two bytes
  and its bytes.
\<close>

definition byte_at :: "bytes \<Rightarrow> nat \<Rightarrow> u8" where
  "byte_at xs i = (if i < length xs then xs ! i else 0)"

definition zxor :: "bytes \<Rightarrow> bytes \<Rightarrow> bytes" where
  "zxor xs ys = map (\<lambda>i. byte_at xs i XOR byte_at ys i) [0..<max (length xs) (length ys)]"

definition block :: "bytes \<Rightarrow> bytes" where
  "block packet = be16 (of_nat (length packet)) @ packet"

lemma length_zxor [simp]: "length (zxor xs ys) = max (length xs) (length ys)"
  by (simp add: zxor_def)

lemma byte_at_zxor [simp]: "byte_at (zxor xs ys) i = byte_at xs i XOR byte_at ys i"
  by (cases "i < max (length xs) (length ys)") (auto simp: zxor_def byte_at_def)

lemma byte_at_Cons [simp]: "byte_at (x # xs) 0 = x" "byte_at (x # xs) (Suc i) = byte_at xs i"
  by (simp_all add: byte_at_def)

lemma length_block [simp]: "length (block p) = 2 + length p"
  by (simp add: block_def)

lemma bytes_eqI: "length xs = length ys \<Longrightarrow> (\<And>i. byte_at xs i = byte_at ys i) \<Longrightarrow> xs = ys"
  by (metis (no_types, lifting) byte_at_def nth_equalityI)

lemma zxor_Nil [simp]: "zxor [] ys = ys"
  by (rule bytes_eqI) (simp_all, simp add: byte_at_def)

lemma length_xor_zip [simp]: "length (xor_zip bs ss) = length bs"
  by (induction bs ss rule: xor_zip.induct) auto

lemma byte_at_xor_zip:
  "length ss \<le> length bs \<Longrightarrow> byte_at (xor_zip bs ss) i = byte_at bs i XOR byte_at ss i"
proof (induction bs ss arbitrary: i rule: xor_zip.induct)
  case (1 b bs s ss)
  then show ?case by (cases i) auto
qed (auto simp: byte_at_def)

lemma byte_at_append:
  "byte_at (xs @ ys) i = (if i < length xs then byte_at xs i else byte_at ys (i - length xs))"
  by (auto simp: byte_at_def nth_append)

lemma byte_at_zeros [simp]: "byte_at (replicate n 0) i = 0"
  by (simp add: byte_at_def)

lemma byte_at_past [simp]: "length xs \<le> i \<Longrightarrow> byte_at xs i = 0"
  by (simp add: byte_at_def)

lemma byte_at_take_drop:
  "byte_at (take n xs) i = (if i < n then byte_at xs i else 0)" "byte_at (drop n xs) i = byte_at xs (n + i)"
  by (auto simp: byte_at_def)

lemma byte_at_update: "j < length xs \<Longrightarrow> byte_at (xs[j := v]) i = (if i = j then v else byte_at xs i)"
  by (simp add: byte_at_def nth_list_update)

lemma xor_member_zxor: "xor_member parity packet = zxor parity (block packet)"
proof -
  define wide where "wide = (if length parity < 2 + length packet
    then parity @ replicate (2 + length packet - length parity) 0 else parity)"
  define len where "len = be16 (of_nat (length packet))"
  have wl: "length wide = max (length parity) (2 + length packet)" by (auto simp: wide_def)
  have wb: "byte_at wide i = byte_at parity i" for i by (simp add: wide_def byte_at_append)
  have ll: "length len = 2" by (simp add: len_def)
  define start where "start = wide[0 := wide ! 0 XOR len ! 0, 1 := wide ! 1 XOR len ! 1]"
  have sl: "length start = length wide" by (simp add: start_def)
  have sb: "byte_at start i = byte_at wide i XOR byte_at len i" for i
    using wl ll by (auto simp: start_def byte_at_def nth_list_update less_2_cases_iff)
  have "xor_member parity packet = take 2 start @ xor_zip (drop 2 start) packet"
    using wl by (simp add: xor_member_def LENGTH_PREFIX_def Let_def wide_def start_def len_def)
  also have "\<dots> = zxor parity (block packet)"
  proof (rule bytes_eqI)
    show "length (take 2 start @ xor_zip (drop 2 start) packet) = length (zxor parity (block packet))"
      using sl wl by simp
    fix i
    show "byte_at (take 2 start @ xor_zip (drop 2 start) packet) i = byte_at (zxor parity (block packet)) i"
    proof (cases "i < 2")
      case True
      then show ?thesis using sl wl ll
        by (simp add: byte_at_append byte_at_take_drop sb wb block_def len_def [symmetric])
    next
      case False
      then obtain j where "i = j + 2" by (metis le_add_diff_inverse2 not_less)
      then show ?thesis using sl wl ll
        by (simp add: byte_at_append byte_at_xor_zip byte_at_take_drop sb wb block_def len_def [symmetric])
    qed
  qed
  finally show ?thesis .
qed

text \<open>The parity of a group is the XOR of the blocks of its packets.\<close>

definition group_parity :: "(u64 \<times> bytes) list \<Rightarrow> bytes" where
  "group_parity grp = foldl xor_member [] (map snd grp)"

lemma group_parity_snoc: "group_parity (grp @ [(s, p)]) = xor_member (group_parity grp) p"
  by (simp add: group_parity_def)

lemma group_parity_Nil [simp]: "group_parity [] = []"
  by (simp add: group_parity_def)

subsection \<open>The encoder\<close>

definition GROUP_MAX_AGE :: duration where "GROUP_MAX_AGE = millis 5"
definition MAX_SPAN :: u64 where "MAX_SPAN = 255"
definition REPAIR_HEADER_MAX :: nat where "REPAIR_HEADER_MAX = 1 + 8 + 1 + (MAX_GROUP - 1) + 2"

record Encoder =
  en_group_size :: nat
  en_max_packet :: nat
  en_base :: u64
  en_offsets :: "u8 list"
  en_count :: nat
  en_parity :: bytes
  en_opened_at :: "instant option"

definition clamp_group :: "u8 \<Rightarrow> nat" where
  "clamp_group group_size = max 1 (min MAX_GROUP (unat group_size))"

definition encoder_new :: "u8 \<Rightarrow> nat \<Rightarrow> Encoder" where
  "encoder_new group_size max_packet =
     \<lparr>en_group_size = clamp_group group_size, en_max_packet = min max_packet 65535, en_base = 0,
      en_offsets = replicate MAX_GROUP 0, en_count = 0, en_parity = [], en_opened_at = None\<rparr>"

definition encoder_group_size :: "Encoder \<Rightarrow> u8" where
  "encoder_group_size e = of_nat (en_group_size e)"

definition set_max_packet :: "nat \<Rightarrow> Encoder \<Rightarrow> Encoder" where
  "set_max_packet max_packet e = e\<lparr>en_max_packet := min max_packet 65535\<rparr>"

definition deadline :: "Encoder \<Rightarrow> instant option" where
  "deadline e = map_option (\<lambda>opened. opened + GROUP_MAX_AGE) (en_opened_at e)"

definition expired :: "Encoder \<Rightarrow> instant \<Rightarrow> bool" where
  "expired e now = (case deadline e of None \<Rightarrow> False | Some d \<Rightarrow> now \<ge> d)"

definition encoder_close :: "Encoder \<Rightarrow> Encoder \<times> bytes option" where
  "encoder_close e =
     (if en_count e = 0 then (e, None)
      else (e\<lparr>en_count := 0, en_parity := [], en_opened_at := None\<rparr>,
            Some ([FEC_VERSION] @ be64 (en_base e) @ [of_nat (en_count e)]
                  @ subslice 1 (en_count e) (en_offsets e) @ en_parity e)))"

definition set_group_size :: "u8 \<Rightarrow> Encoder \<Rightarrow> Encoder \<times> bytes option" where
  "set_group_size group_size e =
     (if clamp_group group_size = en_group_size e then (e, None)
      else encoder_close (e\<lparr>en_group_size := clamp_group group_size\<rparr>))"

definition can_join :: "Encoder \<Rightarrow> u64 \<Rightarrow> instant \<Rightarrow> bool" where
  "can_join e sequence now =
     (let last_one = en_base e + ucast (en_offsets e ! (en_count e - 1))
      in en_count e < en_group_size e \<and> sequence > last_one
         \<and> sequence - en_base e \<le> MAX_SPAN \<and> \<not> expired e now)"

definition encoder_push :: "u64 \<Rightarrow> bytes \<Rightarrow> instant \<Rightarrow> Encoder \<Rightarrow> Encoder \<times> bytes option" where
  "encoder_push sequence packet now e =
     (if packet = [] \<or> length packet > en_max_packet e then (e, None)
      else
        (let (e1, closed) = (if en_count e > 0 \<and> \<not> can_join e sequence now
                             then encoder_close e else (e, None));
             e2 = (if en_count e1 = 0 then e1\<lparr>en_base := sequence, en_opened_at := Some now\<rparr> else e1);
             e3 = e2\<lparr>en_offsets := (en_offsets e2)[en_count e2 := ucast (sequence - en_base e2)],
                      en_count := en_count e2 + 1,
                      en_parity := xor_member (en_parity e2) packet\<rparr>
         in (e3, closed)))"

definition flush_due :: "instant \<Rightarrow> Encoder \<Rightarrow> Encoder \<times> bytes option" where
  "flush_due now e = (if expired e now then encoder_close e else (e, None))"

subsection \<open>The group an encoder holds\<close>

text \<open>
  Members carry strictly increasing sequences within 255 of the first, and packets of 1 to 65535
  bytes; there are at most four.
\<close>

definition group_wf :: "(u64 \<times> bytes) list \<Rightarrow> bool" where
  "group_wf grp \<longleftrightarrow> grp \<noteq> [] \<and> length grp \<le> 4 \<and> sorted_wrt (<) (map fst grp)
     \<and> (\<forall>m \<in> set grp. fst (hd grp) \<le> fst m \<and> unat (fst m) \<le> unat (fst (hd grp)) + 255
          \<and> snd m \<noteq> [] \<and> length (snd m) \<le> 65535)"

definition offsets_of :: "(u64 \<times> bytes) list \<Rightarrow> u8 list" where
  "offsets_of grp = map (\<lambda>(s, p). ucast (s - fst (hd grp))) grp"

definition repair_payload :: "(u64 \<times> bytes) list \<Rightarrow> bytes" where
  "repair_payload grp =
     [FEC_VERSION] @ be64 (fst (hd grp)) @ [of_nat (length grp)] @ tl (offsets_of grp) @ group_parity grp"

definition encoder_holds :: "Encoder \<Rightarrow> (u64 \<times> bytes) list \<Rightarrow> bool" where
  "encoder_holds e grp \<longleftrightarrow>
     1 \<le> en_group_size e \<and> en_group_size e \<le> 4 \<and> en_max_packet e \<le> 65535
     \<and> length (en_offsets e) = 4 \<and> en_count e = length grp \<and> en_parity e = group_parity grp
     \<and> (en_opened_at e = None \<longleftrightarrow> grp = [])
     \<and> (grp \<noteq> [] \<longrightarrow> group_wf grp \<and> en_base e = fst (hd grp) \<and> take (length grp) (en_offsets e) = offsets_of grp)"

lemma clamp_group_range: "1 \<le> clamp_group g" "clamp_group g \<le> 4"
  by (simp_all add: clamp_group_def MAX_GROUP_def)

lemma encoder_new_holds: "encoder_holds (encoder_new g m) []"
  using clamp_group_range [of g] by (simp add: encoder_holds_def encoder_new_def MAX_GROUP_def)

lemma length_offsets_of [simp]: "length (offsets_of grp) = length grp"
  by (simp add: offsets_of_def)

lemma close_holds:
  assumes "encoder_holds e grp" and "grp \<noteq> []"
  shows "snd (encoder_close e) = Some (repair_payload grp)" and "encoder_holds (fst (encoder_close e)) []"
proof -
  have "subslice 1 (length grp) (en_offsets e) = tl (take (length grp) (en_offsets e))"
    by (simp add: subslice_def drop_take drop_Suc flip: tl_take)
      (metis One_nat_def drop_0 drop_Suc tl_take take_tl)
  with assms show "snd (encoder_close e) = Some (repair_payload grp)"
    by (simp add: encoder_close_def encoder_holds_def repair_payload_def)
  show "encoder_holds (fst (encoder_close e)) []"
    using assms by (simp add: encoder_close_def encoder_holds_def)
qed

lemma offset_recovers:
  assumes "(b :: u64) \<le> s" and "unat s \<le> unat b + 255"
  shows "b + ucast (ucast (s - b) :: u8) = s" and "unat (ucast (s - b) :: u8) = unat s - unat b"
proof -
  have d: "unat (s - b) = unat s - unat b" using assms(1) by (simp add: unat_sub)
  with assms(2) have small: "unat (s - b) < 256" by simp
  then show u: "unat (ucast (s - b) :: u8) = unat s - unat b"
    by (simp add: d)
  have "(ucast (ucast (s - b) :: u8) :: u64) = s - b"
    using small by (simp add: word_unat_eq_iff)
  then show "b + ucast (ucast (s - b) :: u8) = s" by simp
qed

lemma group_wf_member:
  assumes "group_wf grp" and "m \<in> set grp"
  shows "fst (hd grp) \<le> fst m" "unat (fst m) \<le> unat (fst (hd grp)) + 255" "snd m \<noteq> []" "length (snd m) \<le> 65535"
  using assms by (auto simp: group_wf_def)

lemma group_wf_last:
  assumes "group_wf grp"
  shows "fst (hd grp) \<le> fst (last grp)" "unat (fst (last grp)) \<le> unat (fst (hd grp)) + 255"
proof -
  have "last grp \<in> set grp" using assms by (simp add: group_wf_def)
  then show "fst (hd grp) \<le> fst (last grp)" "unat (fst (last grp)) \<le> unat (fst (hd grp)) + 255"
    by (simp_all add: group_wf_member [OF assms])
qed

lemma holds_last_offset:
  assumes "encoder_holds e grp" and "grp \<noteq> []"
  shows "en_base e + ucast (en_offsets e ! (en_count e - 1)) = fst (last grp)"
proof -
  let ?n = "length grp - 1"
  have n: "?n < length grp" using assms(2) by simp
  have "en_offsets e ! ?n = take (length grp) (en_offsets e) ! ?n" using n by simp
  also have "\<dots> = ucast (fst (last grp) - fst (hd grp))"
    using assms n by (simp add: encoder_holds_def offsets_of_def last_conv_nth case_prod_unfold)
  finally have off: "en_offsets e ! ?n = ucast (fst (last grp) - fst (hd grp))" .
  with assms show ?thesis
    using offset_recovers(1) group_wf_last by (simp add: encoder_holds_def)
qed

lemma group_wf_snoc:
  assumes "group_wf grp" and "length grp < 4" and "s > fst (last grp)"
    and "unat s \<le> unat (fst (hd grp)) + 255" and "p \<noteq> []" and "length p \<le> 65535"
  shows "group_wf (grp @ [(s, p)])"
proof -
  have ne: "grp \<noteq> []" using assms(1) by (simp add: group_wf_def)
  have sorted: "sorted_wrt (<) (map fst grp)" using assms(1) by (simp add: group_wf_def)
  have le: "x \<le> fst (last grp)" if "x \<in> fst ` set grp" for x
  proof -
    from that obtain i where i: "i < length grp" "x = fst (grp ! i)" by (auto simp: in_set_conv_nth)
    then show ?thesis
      using sorted_wrt_nth_less [OF sorted, of i "length grp - 1"] ne
      by (cases "i = length grp - 1") (auto simp: last_conv_nth intro: less_imp_le)
  qed
  have lt: "\<forall>x \<in> fst ` set grp. x < s" using le assms(3) by (meson le_less_trans)
  moreover have "fst (hd grp) \<in> fst ` set grp" using ne by simp
  ultimately have "fst (hd grp) \<le> s" by (meson less_imp_le)
  with assms ne sorted lt show ?thesis
    by (auto simp: group_wf_def sorted_wrt_append)
qed

lemma push_joins:
  assumes "encoder_holds e grp" and "grp \<noteq> []" and "can_join e s now"
    and "p \<noteq> []" and "length p \<le> en_max_packet e"
  shows "encoder_holds (fst (encoder_push s p now e)) (grp @ [(s, p)])" and "snd (encoder_push s p now e) = None"
proof -
  from assms(3) have few: "en_count e < en_group_size e" and up: "s > fst (last grp)"
    and span: "s - en_base e \<le> MAX_SPAN"
    using holds_last_offset [OF assms(1,2)] by (simp_all add: can_join_def Let_def)
  have base: "en_base e = fst (hd grp)" and wf: "group_wf grp" and cnt: "en_count e = length grp"
    and offs: "take (length grp) (en_offsets e) = offsets_of grp" and four: "length grp < 4"
    using assms(1,2) few by (simp_all add: encoder_holds_def)
  have le: "fst (hd grp) \<le> s" using up group_wf_last(1) [OF wf] by simp
  then have near: "unat s \<le> unat (fst (hd grp)) + 255"
    using span by (simp add: base MAX_SPAN_def word_le_nat_alt unat_sub)
  have "group_wf (grp @ [(s, p)])"
    using group_wf_snoc [OF wf four up near assms(4)] assms(1,5) by (simp add: encoder_holds_def)
  moreover have "take (Suc (length grp)) ((en_offsets e)[length grp := ucast (s - fst (hd grp))])
      = offsets_of (grp @ [(s, p)])"
    using assms(1,2) four offs
    by (simp add: encoder_holds_def take_Suc_conv_app_nth offsets_of_def)
  ultimately show "encoder_holds (fst (encoder_push s p now e)) (grp @ [(s, p)])"
    "snd (encoder_push s p now e) = None"
    using assms base cnt
    by (simp_all add: encoder_push_def encoder_holds_def Let_def group_parity_snoc)
qed

lemma push_opens:
  assumes "encoder_holds e []" and "p \<noteq> []" and "length p \<le> en_max_packet e"
  shows "encoder_holds (fst (encoder_push s p now e)) [(s, p)]" and "snd (encoder_push s p now e) = None"
  using assms
  by (simp_all add: encoder_push_def encoder_holds_def Let_def group_wf_def offsets_of_def take_Suc_conv_app_nth
      group_parity_def)

lemma push_closes:
  assumes "encoder_holds e grp" and "grp \<noteq> []" and "\<not> can_join e s now"
    and "p \<noteq> []" and "length p \<le> en_max_packet e"
  shows "encoder_holds (fst (encoder_push s p now e)) [(s, p)]"
    and "snd (encoder_push s p now e) = Some (repair_payload grp)"
proof -
  have cnt: "en_count e > 0" using assms(1,2) by (simp add: encoder_holds_def)
  have same: "en_max_packet (fst (encoder_close e)) = en_max_packet e"
    by (simp add: encoder_close_def)
  have empty: "en_count (fst (encoder_close e)) = 0" by (simp add: encoder_close_def)
  have "encoder_push s p now e =
      (fst (encoder_push s p now (fst (encoder_close e))), snd (encoder_close e))"
    using assms(3-5) cnt empty same by (simp add: encoder_push_def Let_def case_prod_unfold)
  then show "encoder_holds (fst (encoder_push s p now e)) [(s, p)]"
    "snd (encoder_push s p now e) = Some (repair_payload grp)"
    using push_opens(1) [of "fst (encoder_close e)" p s now] close_holds [OF assms(1,2)] assms(4,5) same
    by simp_all
qed

subsection \<open>Whole runs of the encoder\<close>

datatype encoder_event =
    PushPacket u64 bytes instant
  | SetGroup u8
  | SetMaxPacket nat
  | FlushDue instant

fun encoder_step :: "encoder_event \<Rightarrow> Encoder \<Rightarrow> Encoder \<times> bytes option" where
  "encoder_step (PushPacket s p now) e = encoder_push s p now e"
| "encoder_step (SetGroup g) e = set_group_size g e"
| "encoder_step (SetMaxPacket m) e = (set_max_packet m e, None)"
| "encoder_step (FlushDue now) e = flush_due now e"

text \<open>The packet an event gives the encoder to protect: empty and oversized ones are left out.\<close>

fun protects :: "encoder_event \<Rightarrow> Encoder \<Rightarrow> (u64 \<times> bytes) list" where
  "protects (PushPacket s p now) e = (if p = [] \<or> length p > en_max_packet e then [] else [(s, p)])"
| "protects _ e = []"

primrec encoder_run :: "encoder_event list \<Rightarrow> Encoder \<Rightarrow> Encoder \<times> bytes list" where
  "encoder_run [] e = (e, [])"
| "encoder_run (ev # evs) e =
     (let (e1, out) = encoder_step ev e; (e2, outs) = encoder_run evs e1
      in (e2, (case out of None \<Rightarrow> [] | Some r \<Rightarrow> [r]) @ outs))"

primrec protected_packets :: "encoder_event list \<Rightarrow> Encoder \<Rightarrow> (u64 \<times> bytes) list" where
  "protected_packets [] e = []"
| "protected_packets (ev # evs) e = protects ev e @ protected_packets evs (fst (encoder_step ev e))"

lemma close_empty: "encoder_holds e [] \<Longrightarrow> encoder_close e = (e, None)"
  by (simp add: encoder_close_def encoder_holds_def)

lemma holds_resize: "encoder_holds e grp \<Longrightarrow> encoder_holds (e\<lparr>en_group_size := clamp_group g\<rparr>) grp"
  using clamp_group_range [of g] by (simp add: encoder_holds_def)

lemma encoder_step_holds:
  assumes "encoder_holds e grp"
  shows "(snd (encoder_step ev e) = None \<and> encoder_holds (fst (encoder_step ev e)) (grp @ protects ev e))
    \<or> (grp \<noteq> [] \<and> snd (encoder_step ev e) = Some (repair_payload grp)
        \<and> encoder_holds (fst (encoder_step ev e)) (protects ev e))"
proof -
  have close: "(snd (encoder_close x) = None \<and> encoder_holds (fst (encoder_close x)) grp)
      \<or> (grp \<noteq> [] \<and> snd (encoder_close x) = Some (repair_payload grp) \<and> encoder_holds (fst (encoder_close x)) [])"
    if "encoder_holds x grp" for x
    using that close_empty close_holds by (cases "grp = []") auto
  show ?thesis
  proof (cases ev)
    case (PushPacket s p now)
    show ?thesis
    proof (cases "p = [] \<or> length p > en_max_packet e")
      case True
      with assms show ?thesis by (auto simp: PushPacket encoder_push_def)
    next
      case False
      then show ?thesis
        using assms push_opens push_joins push_closes [of e grp s now p]
        by (cases "grp = []"; cases "can_join e s now") (simp_all add: PushPacket)
    qed
  next
    case (SetGroup g)
    then show ?thesis
      using assms close [OF holds_resize [OF assms]] by (auto simp: set_group_size_def)
  next
    case (SetMaxPacket m)
    then show ?thesis using assms by (auto simp: set_max_packet_def encoder_holds_def)
  next
    case (FlushDue now)
    then show ?thesis using assms close [OF assms] by (auto simp: flush_due_def)
  qed
qed

lemma encoder_run_covers:
  assumes "encoder_holds e grp"
  shows "\<exists>groups rest. snd (encoder_run evs e) = map repair_payload groups
    \<and> encoder_holds (fst (encoder_run evs e)) rest \<and> (\<forall>g \<in> set groups. group_wf g)
    \<and> concat groups @ rest = grp @ protected_packets evs e"
  using assms
proof (induction evs arbitrary: e grp)
  case Nil
  then have "snd (encoder_run [] e) = map repair_payload [] \<and> encoder_holds (fst (encoder_run [] e)) grp
      \<and> concat [] @ grp = grp @ protected_packets [] e" by simp
  then show ?case by (metis empty_iff list.set(1))
next
  case (Cons ev evs)
  let ?e = "fst (encoder_step ev e)"
  from encoder_step_holds [OF Cons.prems, of ev] show ?case
  proof
    assume a: "snd (encoder_step ev e) = None \<and> encoder_holds ?e (grp @ protects ev e)"
    with Cons.IH [of ?e "grp @ protects ev e"] show ?thesis
      by (auto simp: case_prod_unfold)
  next
    assume a: "grp \<noteq> [] \<and> snd (encoder_step ev e) = Some (repair_payload grp) \<and> encoder_holds ?e (protects ev e)"
    then obtain groups rest where IH: "snd (encoder_run evs ?e) = map repair_payload groups"
      "encoder_holds (fst (encoder_run evs ?e)) rest" "\<forall>g \<in> set groups. group_wf g"
      "concat groups @ rest = protects ev e @ protected_packets evs ?e"
      using Cons.IH by blast
    have "group_wf grp" using Cons.prems a by (simp add: encoder_holds_def)
    with a IH show ?thesis
      by (intro exI [of _ "grp # groups"] exI [of _ rest]) (simp add: case_prod_unfold Let_def)
  qed
qed

lemma length_parity_le: "\<forall>q \<in> set grp. length (snd q) \<le> m \<Longrightarrow> length (group_parity grp) \<le> 2 + m"
proof (induction grp rule: rev_induct)
  case (snoc q grp)
  then show ?case by (cases q) (simp add: group_parity_snoc xor_member_zxor)
qed simp

text \<open>The same packets read off the events alone: the limit is the one set last, at most 65535 bytes.\<close>

fun accepted_packets :: "nat \<Rightarrow> encoder_event list \<Rightarrow> (u64 \<times> bytes) list" where
  "accepted_packets limit [] = []"
| "accepted_packets limit (PushPacket s p now # evs) =
     (if 0 < length p \<and> length p \<le> limit then [(s, p)] else []) @ accepted_packets limit evs"
| "accepted_packets limit (SetMaxPacket m # evs) = accepted_packets (min m 65535) evs"
| "accepted_packets limit (_ # evs) = accepted_packets limit evs"

lemma close_limit: "en_max_packet (fst (encoder_close e)) = en_max_packet e"
  by (simp add: encoder_close_def)

lemma step_limit:
  "en_max_packet (fst (encoder_step ev e)) = (case ev of SetMaxPacket m \<Rightarrow> min m 65535 | _ \<Rightarrow> en_max_packet e)"
  by (cases ev) (auto simp: encoder_push_def set_group_size_def set_max_packet_def flush_due_def close_limit
      case_prod_unfold Let_def)

lemma protected_accepted: "protected_packets evs e = accepted_packets (en_max_packet e) evs"
proof (induction evs arbitrary: e)
  case (Cons ev evs)
  then show ?case by (cases ev) (auto simp: step_limit simp del: encoder_step.simps)
qed simp

text \<open>
  C11. Whatever is pushed, resized and flushed, the repairs an encoder has emitted and the group it
  still holds open cover every packet it accepted - every one that is not empty and no longer than the
  limit set at the time; a longer one is left unprotected - in order, each in exactly one group; every
  repair is the payload of its group, and groups have at most four members with increasing
  sequences no more than 255 apart.
\<close>

theorem encoder_covers_every_packet:
  "\<exists>groups rest.
     snd (encoder_run evs (encoder_new g m)) = map repair_payload groups
     \<and> encoder_holds (fst (encoder_run evs (encoder_new g m))) rest
     \<and> list_all group_wf groups
     \<and> concat groups @ rest = accepted_packets (min m 65535) evs"
  using encoder_run_covers [OF encoder_new_holds, of evs g m]
  by (simp add: list_all_iff protected_accepted encoder_new_def)

text \<open>
  A repair covering packets of at most \<open>m\<close> bytes is at most \<^verbatim>\<open>REPAIR_HEADER_MAX\<close> (15) bytes
  longer than \<open>m\<close>, so it fits the MTU budget that reserves them, and its first byte never reads as
  the version nibble of an IPv4 packet.
\<close>

theorem repair_fits_budget:
  assumes "group_wf grp" and "\<forall>q \<in> set grp. length (snd q) \<le> m"
  shows "length (repair_payload grp) \<le> m + REPAIR_HEADER_MAX \<and> drop_bit 4 (hd (repair_payload grp)) \<noteq> 4"
proof -
  have "length grp \<le> 4" using assms(1) by (simp add: group_wf_def)
  then show ?thesis
    using length_parity_le [OF assms(2)]
    by (simp add: repair_payload_def REPAIR_HEADER_MAX_def MAX_GROUP_def FEC_VERSION_def)
qed

theorem repair_fits_budget_witness:
  "length (repair_payload [(3, [1, 2]), (6, [3])]) \<le> 2 + REPAIR_HEADER_MAX"
proof -
  have "group_wf [(3, [1, 2]), (6, [3])]" by (simp add: group_wf_def)
  moreover have "\<forall>q \<in> set [(3 :: u64, [1, 2 :: u8]), (6, [3])]. length (snd q) \<le> 2" by simp
  ultimately show ?thesis using repair_fits_budget by blast
qed

end
