(* ===== verification/Fec_Decoder.thy ===== *)
theory Fec_Decoder
  imports Fec_Encoder
begin

section \<open>Loss repair: the decoder (\<^verbatim>\<open>engine/src/fec.rs\<close>)\<close>

text \<open>
  Parsing a repair payload, remembering delivered packets, and rebuilding the one missing member of
  a group. The lemmas show that a repair made from a group rebuilds exactly the lost packet, and
  that no rebuilt packet ever differs from the one that was sent under its sequence.
\<close>

subsection \<open>The code\<close>

definition RECENT_CAPACITY :: nat where "RECENT_CAPACITY = 512"
definition PENDING_CAPACITY :: nat where "PENDING_CAPACITY = 32"
definition PENDING_MAX_AGE :: duration where "PENDING_MAX_AGE = millis 500"

text \<open>
  \<^verbatim>\<open>members\<close> is the array of four of which the first \<^verbatim>\<open>count\<close> are used; the model keeps the used
  part, which is what \<^verbatim>\<open>Repair::members()\<close> returns.
\<close>

record Repair =
  rp_members :: "u64 list"
  rp_parity :: bytes
  rp_received_at :: instant

definition rp_count :: "Repair \<Rightarrow> nat" where
  "rp_count r = length (rp_members r)"

text \<open>The loop over the offsets: \<open>previous\<close> is the member parsed last.\<close>

fun parse_members :: "u64 \<Rightarrow> u64 \<Rightarrow> u8 list \<Rightarrow> u64 list option" where
  "parse_members base previous [] = Some []"
| "parse_members base previous (offset # offsets) =
     (if unat base + unat offset \<ge> 2 ^ 64 then None
      else let member = base + ucast offset
           in if member \<le> previous then None
              else case parse_members base member offsets of
                     None \<Rightarrow> None
                   | Some ms \<Rightarrow> Some (member # ms))"

fun repair_parse :: "bytes \<Rightarrow> instant \<Rightarrow> Repair option" where
  "repair_parse [] now = None"
| "repair_parse (version # rest) now =
     (if version \<noteq> FEC_VERSION \<or> length rest < 9 then None
      else let base = of_be64 (take 8 rest); count = unat (rest ! 8)
           in if count = 0 \<or> count > MAX_GROUP then None
              else if length rest < 9 + count - 1 then None
              else let offsets = subslice 9 (9 + count - 1) rest; parity = drop (9 + count - 1) rest
                   in if length parity \<le> LENGTH_PREFIX then None
                      else case parse_members base base offsets of
                             None \<Rightarrow> None
                           | Some ms \<Rightarrow>
                               Some \<lparr>rp_members = base # ms, rp_parity = parity, rp_received_at = now\<rparr>)"

definition missing :: "Repair \<Rightarrow> (u64 \<Rightarrow> bool) \<Rightarrow> nat" where
  "missing r delivered = length (filter (\<lambda>m. \<not> delivered m) (rp_members r))"

record Decoder =
  de_recent :: "(u64 \<times> bytes) list"
  de_pending :: "Repair list"
  de_storing :: bool
  de_repairs_received :: nat
  de_unrecoverable :: nat

definition decoder_default :: Decoder where
  "decoder_default = \<lparr>de_recent = [], de_pending = [], de_storing = False,
     de_repairs_received = 0, de_unrecoverable = 0\<rparr>"

definition recent_slot :: "u64 \<Rightarrow> nat" where
  "recent_slot sequence = unat sequence mod RECENT_CAPACITY"

definition remember :: "u64 \<Rightarrow> bytes \<Rightarrow> Decoder \<Rightarrow> Decoder" where
  "remember sequence packet d =
     (if \<not> de_storing d then d
      else let recent = (if de_recent d = [] then replicate RECENT_CAPACITY (0, []) else de_recent d)
           in d\<lparr>de_recent := recent[recent_slot sequence := (sequence, packet)]\<rparr>)"

definition stored :: "Decoder \<Rightarrow> u64 \<Rightarrow> bytes option" where
  "stored d sequence =
     (if recent_slot sequence < length (de_recent d)
      then case de_recent d ! recent_slot sequence of
             (held, packet) \<Rightarrow> if held = sequence \<and> packet \<noteq> [] then Some packet else None
      else None)"

fun xor_stored :: "Decoder \<Rightarrow> bytes \<Rightarrow> u64 list \<Rightarrow> bytes option" where
  "xor_stored d parity [] = Some parity"
| "xor_stored d parity (m # ms) =
     (case stored d m of
        None \<Rightarrow> None
      | Some packet \<Rightarrow>
          if LENGTH_PREFIX + length packet > length parity then None
          else xor_stored d (xor_member parity packet) ms)"

definition rebuild :: "Decoder \<Rightarrow> Repair \<Rightarrow> u64 \<Rightarrow> bytes option" where
  "rebuild d r lost =
     (case xor_stored d (rp_parity r) (filter (\<lambda>m. m \<noteq> lost) (rp_members r)) of
        None \<Rightarrow> None
      | Some parity \<Rightarrow>
          (let len = unat (of_be16 [parity ! 0, parity ! 1])
           in if len = 0 \<or> LENGTH_PREFIX + len > length parity then None
              else Some (drop LENGTH_PREFIX (take (LENGTH_PREFIX + len) parity))))"

definition resolve :: "Repair \<Rightarrow> (u64 \<Rightarrow> bool) \<Rightarrow> Decoder \<Rightarrow> Decoder \<times> (u64 \<times> bytes) option" where
  "resolve r delivered d =
     (case filter (\<lambda>m. \<not> delivered m) (rp_members r) of
        [] \<Rightarrow> (d, None)
      | [lost] \<Rightarrow>
          (case rebuild d r lost of
             None \<Rightarrow> (d\<lparr>de_unrecoverable := de_unrecoverable d + 1\<rparr>, None)
           | Some packet \<Rightarrow> (d, Some (lost, packet)))
      | _ \<Rightarrow>
          (let d' = (if length (de_pending d) \<ge> PENDING_CAPACITY
                     then d\<lparr>de_pending := tl (de_pending d), de_unrecoverable := de_unrecoverable d + 1\<rparr>
                     else d)
           in (d'\<lparr>de_pending := de_pending d' @ [r]\<rparr>, None)))"

definition accept_repair ::
  "bytes \<Rightarrow> instant \<Rightarrow> (u64 \<Rightarrow> bool) \<Rightarrow> Decoder \<Rightarrow> Decoder \<times> (u64 \<times> bytes) option" where
  "accept_repair payload now delivered d =
     (case repair_parse payload now of
        None \<Rightarrow> (d, None)
      | Some r \<Rightarrow>
          resolve r delivered
            (d\<lparr>de_repairs_received := de_repairs_received d + 1,
               de_storing := (de_storing d \<or> rp_count r > 1)\<rparr>))"

definition has_pending :: "Decoder \<Rightarrow> bool" where
  "has_pending d \<longleftrightarrow> de_pending d \<noteq> []"

text \<open>\<^verbatim>\<open>Vec::swap_remove\<close>: the last element takes the place of the removed one.\<close>

definition swap_remove :: "nat \<Rightarrow> 'a list \<Rightarrow> 'a list" where
  "swap_remove i xs = (if i = length xs - 1 then butlast xs else (butlast xs)[i := last xs])"

fun position_of :: "('a \<Rightarrow> bool) \<Rightarrow> 'a list \<Rightarrow> nat option" where
  "position_of f [] = None"
| "position_of f (x # xs) = (if f x then Some 0 else map_option Suc (position_of f xs))"

definition retry_pending :: "instant \<Rightarrow> (u64 \<Rightarrow> bool) \<Rightarrow> Decoder \<Rightarrow> Decoder \<times> (u64 \<times> bytes) option" where
  "retry_pending now delivered d =
     (let before = length (de_pending d);
          fresh = filter (\<lambda>r. duration_since now (rp_received_at r) < PENDING_MAX_AGE
                              \<or> missing r delivered = 0) (de_pending d);
          d1 = d\<lparr>de_unrecoverable := de_unrecoverable d + (before - length fresh)\<rparr>;
          waiting = filter (\<lambda>r. missing r delivered > 0) fresh;
          d2 = d1\<lparr>de_pending := waiting\<rparr>
      in case position_of (\<lambda>r. missing r delivered = 1) waiting of
           None \<Rightarrow> (d2, None)
         | Some i \<Rightarrow> resolve (waiting ! i) delivered (d2\<lparr>de_pending := swap_remove i waiting\<rparr>))"

subsection \<open>Parsing what the encoder emits\<close>

lemma parse_members_offsets:
  assumes "sorted_wrt (<) (previous # map fst ms)"
    and "\<forall>m \<in> set ms. base \<le> fst m \<and> unat (fst m) \<le> unat base + 255"
  shows "parse_members base previous (map (\<lambda>m. ucast (fst m - base)) ms) = Some (map fst ms)"
  using assms
proof (induction ms arbitrary: previous)
  case (Cons m ms)
  have off: "base + ucast (ucast (fst m - base) :: u8) = fst m"
    "unat (ucast (fst m - base) :: u8) = unat (fst m) - unat base"
    using Cons.prems(2) offset_recovers [of base "fst m"] by simp_all
  have "unat base \<le> unat (fst m)" using Cons.prems(2) by (simp add: word_le_nat_alt)
  then have "unat base + unat (ucast (fst m - base) :: u8) < 2 ^ 64"
    using off(2) unat_u64_less [of "fst m"] by (simp del: unat_u64_less unat_ucast_u8)
  moreover have "parse_members base (fst m) (map (\<lambda>m. ucast (fst m - base)) ms) = Some (map fst ms)"
    using Cons by simp
  ultimately show ?case
    using Cons.prems(1) by (simp add: off Let_def not_le del: unat_ucast_u8)
qed simp

lemma length_parity_ge: "q \<in> set grp \<Longrightarrow> 2 + length (snd q) \<le> length (group_parity grp)"
proof (induction grp rule: rev_induct)
  case (snoc r grp)
  then show ?case by (cases r) (auto simp: group_parity_snoc xor_member_zxor)
qed simp

lemma repair_parse_layout:
  assumes "length offs < 4" and "2 < length parity" and "parse_members base base offs = Some ms"
  shows "repair_parse (FEC_VERSION # be64 base @ of_nat (length offs + 1) # offs @ parity) now =
    Some \<lparr>rp_members = base # ms, rp_parity = parity, rp_received_at = now\<rparr>"
proof -
  let ?rest = "be64 base @ of_nat (length offs + 1) # offs @ parity"
  have parts: "take 8 ?rest = be64 base" "?rest ! 8 = of_nat (length offs + 1)"
    "subslice 9 (9 + length offs) ?rest = offs" "drop (9 + length offs) ?rest = parity"
    "length ?rest = 9 + length offs + length parity"
    by (simp_all add: nth_append subslice_def)
  have cnt: "unat (of_nat (length offs + 1) :: u8) = length offs + 1"
    using assms(1) by (simp add: unat_of_nat del: of_nat_add of_nat_Suc)
  have step: "repair_parse (FEC_VERSION # rest) now = Some \<lparr>rp_members = base # ms, rp_parity = parity, rp_received_at = now\<rparr>"
    if "take 8 rest = be64 base" "rest ! 8 = of_nat (length offs + 1)"
      "subslice 9 (9 + length offs) rest = offs" "drop (9 + length offs) rest = parity"
      "length rest = 9 + length offs + length parity" for rest
    using that cnt assms by (simp add: MAX_GROUP_def LENGTH_PREFIX_def Let_def del: of_nat_Suc of_nat_add)
  show ?thesis by (rule step [OF parts])
qed

lemma parse_repair_payload:
  assumes "group_wf grp"
  shows "repair_parse (repair_payload grp) now =
    Some \<lparr>rp_members = map fst grp, rp_parity = group_parity grp, rp_received_at = now\<rparr>"
proof -
  from assms obtain m ms where grp: "grp = m # ms" by (cases grp) (auto simp: group_wf_def)
  let ?offs = "map (\<lambda>q. ucast (fst q - fst m) :: u8) ms"
  have few: "length ?offs < 4" using assms by (simp add: group_wf_def grp)
  have long: "2 < length (group_parity grp)"
    using length_parity_ge [of m grp] group_wf_member(3) [OF assms, of m] by (cases "snd m") (auto simp: grp)
  have members: "parse_members (fst m) (fst m) ?offs = Some (map fst ms)"
    using assms by (intro parse_members_offsets) (auto simp: group_wf_def grp)
  have "repair_payload grp = FEC_VERSION # be64 (fst m) @ of_nat (length ?offs + 1) # ?offs @ group_parity grp"
    by (simp add: repair_payload_def grp offsets_of_def case_prod_unfold)
  also have "repair_parse \<dots> now = Some \<lparr>rp_members = fst m # map fst ms, rp_parity = group_parity grp, rp_received_at = now\<rparr>"
    by (rule repair_parse_layout [OF few long members])
  finally show ?thesis by (simp add: grp)
qed

subsection \<open>Rebuilding one member\<close>

definition xsum :: "u8 list \<Rightarrow> u8" where
  "xsum bs = foldr (XOR) bs 0"

lemma xsum_simps [simp]: "xsum [] = 0" "xsum (b # bs) = b XOR xsum bs"
  by (simp_all add: xsum_def)

lemma xsum_append [simp]: "xsum (as @ bs) = xsum as XOR xsum bs"
  by (induction as) (simp_all add: xor.assoc)

lemma byte_at_group_parity:
  "byte_at (group_parity grp) i = xsum (map (\<lambda>m. byte_at (block (snd m)) i) grp)"
proof (induction grp rule: rev_induct)
  case (snoc q grp)
  then show ?case by (cases q) (simp add: group_parity_snoc xor_member_zxor)
qed (simp add: byte_at_def)

text \<open>The packets a decoder holds for some members, as a list of (sequence, packet) pairs.\<close>

definition holds_members :: "Decoder \<Rightarrow> (u64 \<times> bytes) list \<Rightarrow> bool" where
  "holds_members d ms \<longleftrightarrow> (\<forall>m \<in> set ms. stored d (fst m) = Some (snd m))"

lemma xor_stored_members:
  assumes "holds_members d ms" and "\<forall>m \<in> set ms. 2 + length (snd m) \<le> length parity"
  shows "\<exists>out. xor_stored d parity (map fst ms) = Some out \<and> length out = length parity
    \<and> (\<forall>i. byte_at out i = byte_at parity i XOR xsum (map (\<lambda>m. byte_at (block (snd m)) i) ms))"
  using assms
proof (induction ms arbitrary: parity)
  case (Cons m ms)
  let ?p = "xor_member parity (snd m)"
  have len: "length ?p = length parity" using Cons.prems(2) by (simp add: xor_member_zxor)
  obtain out where out: "xor_stored d ?p (map fst ms) = Some out" "length out = length ?p"
    "\<forall>i. byte_at out i = byte_at ?p i XOR xsum (map (\<lambda>m. byte_at (block (snd m)) i) ms)"
    using Cons.IH [of ?p] Cons.prems len by (auto simp: holds_members_def)
  have "xor_stored d parity (map fst (m # ms)) = Some out"
    using Cons.prems out(1) by (simp add: holds_members_def LENGTH_PREFIX_def)
  with out len show ?case by (auto simp: xor_member_zxor xor.assoc)
qed simp

lemma bytes_prefixI:
  assumes "length xs \<ge> length ys" and "\<And>i. i < length ys \<Longrightarrow> byte_at xs i = byte_at ys i"
  shows "take (length ys) xs = ys"
  using assms by (intro nth_equalityI) (auto simp: byte_at_def)

lemma rebuild_lost:
  assumes "group_wf (as @ (lost, packet) # cs)" and "holds_members d (as @ cs)"
    and "rp_members r = map fst (as @ (lost, packet) # cs)"
    and "rp_parity r = group_parity (as @ (lost, packet) # cs)"
  shows "rebuild d r lost = Some packet"
proof -
  let ?grp = "as @ (lost, packet) # cs"
  have "sorted_wrt (<) (map fst ?grp)" using assms(1) by (simp add: group_wf_def)
  then have "filter (\<lambda>m. m \<noteq> lost) (map fst as) = map fst as"
    "filter (\<lambda>m. m \<noteq> lost) (map fst cs) = map fst cs"
    unfolding filter_id_conv by (auto simp: sorted_wrt_append)
  then have others: "filter (\<lambda>m. m \<noteq> lost) (rp_members r) = map fst (as @ cs)"
    by (simp add: assms(3))
  have fit: "\<forall>m \<in> set (as @ cs). 2 + length (snd m) \<le> length (rp_parity r)"
    using length_parity_ge [of _ ?grp] by (auto simp: assms(4))
  obtain out where out: "xor_stored d (rp_parity r) (map fst (as @ cs)) = Some out"
    "length out = length (rp_parity r)"
    "\<And>i. byte_at out i = byte_at (rp_parity r) i XOR xsum (map (\<lambda>m. byte_at (block (snd m)) i) (as @ cs))"
    using xor_stored_members [OF assms(2) fit] by blast
  have same: "byte_at out i = byte_at (block packet) i" for i
    by (simp add: out(3) assms(4) byte_at_group_parity) (simp add: xor.assoc xor.left_commute)
  have len: "2 + length packet \<le> length out"
    using length_parity_ge [of "(lost, packet)" ?grp] by (simp add: out(2) assms(4))
  have blk: "take (2 + length packet) out = block packet"
    using bytes_prefixI [of "block packet" out] len same by simp
  have "(lost, packet) \<in> set ?grp" by simp
  with group_wf_member [OF assms(1)] have pk: "packet \<noteq> []" "length packet \<le> 65535" by fastforce+
  have "[out ! 0, out ! 1] = take 2 out"
    using len by (cases out; cases "tl out") (auto simp: numeral_2_eq_2)
  also have "take 2 out = be16 (of_nat (length packet))"
    using arg_cong [OF blk, of "take 2"] by (simp add: block_def min_def)
  finally have "unat (of_be16 [out ! 0, out ! 1]) = length packet"
    using pk(2) by (simp add: unat_of_nat)
  then show ?thesis
    using pk len blk by (simp add: rebuild_def others out(1) [simplified] LENGTH_PREFIX_def Let_def block_def)
qed

subsection \<open>The decoder never makes a packet up\<close>

text \<open>
  \<open>truth\<close> is what the peer really sent under each sequence. A group is genuine when its members
  are; the decoder's invariant is that what it stores and what it waits for is genuine.
\<close>

definition genuine_group :: "(u64 \<rightharpoonup> bytes) \<Rightarrow> (u64 \<times> bytes) list \<Rightarrow> bool" where
  "genuine_group truth grp \<longleftrightarrow> group_wf grp \<and> list_all (\<lambda>m. truth (fst m) = Some (snd m)) grp"

definition genuine :: "(u64 \<rightharpoonup> bytes) \<Rightarrow> Repair \<Rightarrow> bool" where
  "genuine truth r \<longleftrightarrow>
     (\<exists>grp. genuine_group truth grp \<and> rp_members r = map fst grp \<and> rp_parity r = group_parity grp)"

definition recent_wf :: "Decoder \<Rightarrow> bool" where
  "recent_wf d \<longleftrightarrow> de_recent d = [] \<or> length (de_recent d) = RECENT_CAPACITY"

definition decoder_ok :: "(u64 \<rightharpoonup> bytes) \<Rightarrow> Decoder \<Rightarrow> bool" where
  "decoder_ok truth d \<longleftrightarrow> recent_wf d
     \<and> (\<forall>e \<in> set (de_recent d). snd e \<noteq> [] \<longrightarrow> truth (fst e) = Some (snd e))
     \<and> (\<forall>r \<in> set (de_pending d). genuine truth r) \<and> length (de_pending d) \<le> PENDING_CAPACITY"

lemma recent_slot_less: "recent_slot s < RECENT_CAPACITY"
  by (simp add: recent_slot_def RECENT_CAPACITY_def)

lemma decoder_ok_default: "decoder_ok truth decoder_default"
  by (simp add: decoder_ok_def decoder_default_def recent_wf_def)

lemma decoder_ok_remember:
  assumes "decoder_ok truth d" and "truth s = Some p"
  shows "decoder_ok truth (remember s p d)"
  using assms by (auto simp: decoder_ok_def remember_def recent_wf_def Let_def dest!: set_update_memI
      elim!: in_set_replicate [THEN iffD1, elim_format] dest: set_update_subset_insert [THEN subsetD])

lemma stored_true:
  assumes "decoder_ok truth d" and "stored d s = Some p"
  shows "truth s = Some p"
proof -
  let ?e = "de_recent d ! recent_slot s"
  have "recent_slot s < length (de_recent d)" "fst ?e = s" "snd ?e = p" "p \<noteq> []"
    using assms(2) by (auto simp: stored_def split: if_splits prod.splits)
  moreover from this have "?e \<in> set (de_recent d)" by simp
  ultimately show ?thesis using assms(1) by (auto simp: decoder_ok_def)
qed

lemma xor_stored_all: "xor_stored d parity ms = Some out \<Longrightarrow> m \<in> set ms \<Longrightarrow> stored d m \<noteq> None"
  by (induction ms arbitrary: parity) (auto split: option.splits if_splits)

lemma rebuild_true:
  assumes "decoder_ok truth d" and "genuine truth r" and "rebuild d r lost = Some p"
    and "lost \<in> set (rp_members r)"
  shows "truth lost = Some p"
proof -
  obtain grp where grp: "genuine_group truth grp" "rp_members r = map fst grp" "rp_parity r = group_parity grp"
    using assms(2) by (auto simp: genuine_def)
  obtain q where "(lost, q) \<in> set grp" using assms(4) grp(2) by auto
  then obtain as cs where split: "grp = as @ (lost, q) # cs" by (meson split_list)
  have tr: "truth lost = Some q" "\<And>m. m \<in> set (as @ cs) \<Longrightarrow> truth (fst m) = Some (snd m)"
    using grp(1) by (auto simp: genuine_group_def split list_all_iff)
  have "sorted_wrt (<) (map fst grp)" using grp(1) by (simp add: genuine_group_def group_wf_def)
  then have "\<And>m. m \<in> set (as @ cs) \<Longrightarrow> fst m \<in> set (filter (\<lambda>m. m \<noteq> lost) (rp_members r))"
    by (auto simp: grp(2) split sorted_wrt_append)
  then have "\<And>m. m \<in> set (as @ cs) \<Longrightarrow> stored d (fst m) \<noteq> None"
    using assms(3) xor_stored_all unfolding rebuild_def by (fastforce split: option.splits)
  then have "holds_members d (as @ cs)"
    unfolding holds_members_def using tr(2) stored_true [OF assms(1)] by fastforce
  then have "rebuild d r lost = Some q"
    using grp by (intro rebuild_lost) (auto simp: genuine_group_def split)
  with assms(3) tr show ?thesis by simp
qed

lemma resolve_ok:
  assumes "decoder_ok truth d" and "genuine truth r"
  shows "decoder_ok truth (fst (resolve r delivered d))"
    and "snd (resolve r delivered d) = Some (s, p) \<Longrightarrow> truth s = Some p \<and> \<not> delivered s"
proof -
  show "decoder_ok truth (fst (resolve r delivered d))"
    using assms
    by (auto simp: resolve_def decoder_ok_def recent_wf_def PENDING_CAPACITY_def Let_def
        split: list.splits option.splits dest: list.set_sel(2) [rotated])
  assume out: "snd (resolve r delivered d) = Some (s, p)"
  then have "filter (\<lambda>m. \<not> delivered m) (rp_members r) = [s]" "rebuild d r s = Some p"
    by (auto simp: resolve_def Let_def split: list.splits option.splits)
  moreover from arg_cong [OF this(1), of set] have "s \<in> set (rp_members r)" "\<not> delivered s" by auto
  ultimately show "truth s = Some p \<and> \<not> delivered s"
    using rebuild_true [OF assms] by simp
qed

lemma parse_genuine:
  assumes "genuine_group truth grp" and "repair_parse (repair_payload grp) now = Some r"
  shows "genuine truth r"
  using assms parse_repair_payload [of grp now] by (auto simp: genuine_def genuine_group_def)

lemma set_swap_remove: "i < length xs \<Longrightarrow> set (swap_remove i xs) \<subseteq> set xs"
  by (cases xs rule: rev_cases)
     (auto simp: swap_remove_def dest: set_update_subset_insert [THEN subsetD])

lemma length_swap_remove: "i < length xs \<Longrightarrow> length (swap_remove i xs) = length xs - 1"
  by (simp add: swap_remove_def)

lemma position_of_Some:
  "position_of f xs = Some i \<Longrightarrow> i < length xs \<and> f (xs ! i)"
  by (induction xs arbitrary: i) (auto split: if_splits)

lemma accept_repair_ok:
  assumes "decoder_ok truth d" and "genuine_group truth grp"
  shows "decoder_ok truth (fst (accept_repair (repair_payload grp) now delivered d))"
    and "snd (accept_repair (repair_payload grp) now delivered d) = Some (s, p) \<Longrightarrow>
      truth s = Some p \<and> \<not> delivered s"
proof -
  obtain r where r: "repair_parse (repair_payload grp) now = Some r" "genuine truth r"
    using parse_repair_payload [of grp now] assms(2) parse_genuine by (auto simp: genuine_group_def)
  define d' where "d' = d\<lparr>de_repairs_received := de_repairs_received d + 1,
               de_storing := (de_storing d \<or> rp_count r > 1)\<rparr>"
  have "decoder_ok truth d'" using assms(1) by (simp add: d'_def decoder_ok_def recent_wf_def)
  from resolve_ok [OF this r(2), of delivered]
  show "decoder_ok truth (fst (accept_repair (repair_payload grp) now delivered d))"
    and "snd (accept_repair (repair_payload grp) now delivered d) = Some (s, p) \<Longrightarrow>
      truth s = Some p \<and> \<not> delivered s"
    by (simp_all add: accept_repair_def r(1) d'_def)
qed

lemma retry_pending_ok:
  assumes "decoder_ok truth d"
  shows "decoder_ok truth (fst (retry_pending now delivered d))"
    and "snd (retry_pending now delivered d) = Some (s, p) \<Longrightarrow> truth s = Some p \<and> \<not> delivered s"
proof -
  define fresh where "fresh = filter (\<lambda>r. duration_since now (rp_received_at r) < PENDING_MAX_AGE
                              \<or> missing r delivered = 0) (de_pending d)"
  define waiting where "waiting = filter (\<lambda>r. missing r delivered > 0) fresh"
  define d2 where "d2 = d\<lparr>de_unrecoverable := de_unrecoverable d + (length (de_pending d) - length fresh),
    de_pending := waiting\<rparr>"
  note retry = retry_pending_def Let_def fresh_def [symmetric] waiting_def [symmetric]
  have few: "length waiting \<le> length (de_pending d)"
    unfolding waiting_def fresh_def by (rule order_trans [OF length_filter_le length_filter_le])
  have sub: "set waiting \<subseteq> set (de_pending d)" by (auto simp: waiting_def fresh_def)
  have d2: "decoder_ok truth d2"
    using assms few sub by (auto simp: d2_def decoder_ok_def recent_wf_def)
  have "decoder_ok truth (fst (retry_pending now delivered d))
    \<and> (snd (retry_pending now delivered d) = Some (s, p) \<longrightarrow> truth s = Some p \<and> \<not> delivered s)"
  proof (cases "position_of (\<lambda>r. missing r delivered = 1) waiting")
    case None
    with d2 show ?thesis by (simp add: retry d2_def)
  next
    case (Some i)
    then have i: "i < length waiting" using position_of_Some by fastforce
    have "decoder_ok truth (d2\<lparr>de_pending := swap_remove i waiting\<rparr>)"
      using d2 set_swap_remove [OF i] length_swap_remove [OF i] by (auto simp: decoder_ok_def d2_def recent_wf_def)
    moreover have "genuine truth (waiting ! i)"
      using i d2 nth_mem [OF i] by (simp add: decoder_ok_def d2_def)
    moreover have "retry_pending now delivered d =
        resolve (waiting ! i) delivered (d2\<lparr>de_pending := swap_remove i waiting\<rparr>)"
      using Some by (simp add: retry d2_def)
    ultimately show ?thesis
      using resolve_ok [of truth _ "waiting ! i" delivered] by simp
  qed
  then show "decoder_ok truth (fst (retry_pending now delivered d))"
    and "snd (retry_pending now delivered d) = Some (s, p) \<Longrightarrow> truth s = Some p \<and> \<not> delivered s"
    by auto
qed

text \<open>A repair that is resolved on a retry leaves the waiting list, so a retry loop ends.\<close>

lemma resolve_single:
  assumes "missing r delivered = 1"
  shows "de_pending (fst (resolve r delivered d)) = de_pending d"
  using assms
  by (cases "filter (\<lambda>m. \<not> delivered m) (rp_members r)" rule: remdups_adj.cases)
     (auto simp: missing_def resolve_def split: option.splits)

lemma retry_pending_shrinks:
  assumes "snd (retry_pending now delivered d) = Some q"
  shows "length (de_pending (fst (retry_pending now delivered d))) < length (de_pending d)"
proof -
  define waiting where "waiting = filter (\<lambda>r. missing r delivered > 0)
    (filter (\<lambda>r. duration_since now (rp_received_at r) < PENDING_MAX_AGE \<or> missing r delivered = 0) (de_pending d))"
  obtain i where i: "position_of (\<lambda>r. missing r delivered = 1) waiting = Some i"
    using assms by (auto simp: retry_pending_def Let_def waiting_def split: option.splits)
  then have at: "i < length waiting" "missing (waiting ! i) delivered = 1" using position_of_Some by fastforce+
  have "length waiting \<le> length (de_pending d)"
    unfolding waiting_def by (rule order_trans [OF length_filter_le length_filter_le])
  moreover have "de_pending (fst (retry_pending now delivered d)) = swap_remove i waiting"
    using i resolve_single [OF at(2)] by (simp add: retry_pending_def Let_def waiting_def)
  ultimately show ?thesis using at(1) length_swap_remove [OF at(1)] by simp
qed

lemma remember_pending [simp]: "de_pending (remember s p d) = de_pending d"
  by (simp add: remember_def Let_def)

text \<open>
  The operations a receive loop performs: store what it delivered, take a repair, retry the waiting
  ones. Each call brings its own view of what has been delivered so far. The peer's repairs are the
  payloads its encoder emits for groups it really sent.
\<close>

datatype decoder_event =
    Remember u64 bytes
  | Accept_Repair "(u64 \<times> bytes) list" instant "u64 \<Rightarrow> bool"
  | Retry_Pending instant "u64 \<Rightarrow> bool"

fun decoder_step :: "decoder_event \<Rightarrow> Decoder \<Rightarrow> Decoder \<times> (u64 \<times> bytes) list" where
  "decoder_step (Remember s p) d = (remember s p d, [])"
| "decoder_step (Accept_Repair grp now delivered) d =
     map_prod id (case_option [] (\<lambda>x. [x])) (accept_repair (repair_payload grp) now delivered d)"
| "decoder_step (Retry_Pending now delivered) d =
     map_prod id (case_option [] (\<lambda>x. [x])) (retry_pending now delivered d)"

fun honest :: "(u64 \<rightharpoonup> bytes) \<Rightarrow> decoder_event \<Rightarrow> bool" where
  "honest truth (Remember s p) \<longleftrightarrow> truth s = Some p"
| "honest truth (Accept_Repair grp now delivered) \<longleftrightarrow> genuine_group truth grp"
| "honest truth (Retry_Pending now delivered) \<longleftrightarrow> True"

interpretation decoder: emitting_component decoder_step "decoder_ok truth" "honest truth"
  "\<lambda>m. truth (fst m) = Some (snd m)" for truth
proof
  fix d e
  assume d: "decoder_ok truth d" and e: "honest truth e"
  show "decoder_ok truth (fst (decoder_step e d))"
    using d e by (cases e) (simp_all add: decoder_ok_remember accept_repair_ok(1) retry_pending_ok(1))
  show "list_all (\<lambda>m. truth (fst m) = Some (snd m)) (snd (decoder_step e d))"
    using e accept_repair_ok(2) [OF d] retry_pending_ok(2) [OF d] by (cases e) (auto split: option.splits)
qed

text \<open>
  C9. The decoder never fabricates a packet: whatever interleaving of stored packets, repairs and
  retries a receiver performs, and whatever each call claims was already delivered, every packet the
  decoder rebuilds is the one the peer sent under that sequence, provided the stored packets and the
  repaired groups are the peer's. It also never waits for more than 32 repairs.
\<close>

theorem decoder_never_fabricates:
  assumes "list_all (honest truth) events"
  shows "list_all (\<lambda>m. truth (fst m) = Some (snd m)) (snd (emit_run decoder_step events decoder_default))
    \<and> length (de_pending (fst (emit_run decoder_step events decoder_default))) \<le> 32"
  using decoder.emit_run_emits [OF decoder_ok_default assms] decoder.emit_run_keeps [OF decoder_ok_default assms]
  by (simp add: decoder_ok_def PENDING_CAPACITY_def)

definition sample_group :: "(u64 \<times> bytes) list" where
  "sample_group = [(7, [1, 2, 3]), (8, [9])]"

definition sample_receiver :: "decoder_event list" where
  "sample_receiver = [Accept_Repair sample_group 0 (\<lambda>_. True), Remember 8 [9],
     Accept_Repair sample_group 5 (\<lambda>s. s = 8), Retry_Pending 6 (\<lambda>_. False)]"

theorem decoder_never_fabricates_witness:
  "list_all (honest (map_of sample_group)) sample_receiver
    \<and> list_all (\<lambda>m. map_of sample_group (fst m) = Some (snd m))
        (snd (emit_run decoder_step sample_receiver decoder_default))"
proof -
  have "list_all (honest (map_of sample_group)) sample_receiver"
    by (simp add: sample_receiver_def sample_group_def genuine_group_def group_wf_def)
  with decoder_never_fabricates [OF this] show ?thesis by simp
qed

subsection \<open>A single loss is always recovered\<close>

lemma stored_remember_same:
  assumes "recent_wf d" and "de_storing d" and "p \<noteq> []"
  shows "stored (remember s p d) s = Some p"
  using assms recent_slot_less [of s] by (auto simp: stored_def remember_def recent_wf_def Let_def)

lemma stored_remember_other:
  assumes "recent_wf d" and "recent_slot s \<noteq> recent_slot t" and "stored d t = Some q"
  shows "stored (remember s p d) t = Some q"
  using assms by (auto simp: stored_def remember_def Let_def split: if_splits)

lemma remember_wf [simp]:
  "recent_wf d \<Longrightarrow> recent_wf (remember s p d)" "de_storing (remember s p d) = de_storing d"
  by (auto simp: recent_wf_def remember_def Let_def)

definition remember_all :: "(u64 \<times> bytes) list \<Rightarrow> Decoder \<Rightarrow> Decoder" where
  "remember_all ms = fold (\<lambda>m. remember (fst m) (snd m)) ms"

lemma remember_all_keeps:
  assumes "recent_wf d" and "stored d t = Some q" and "\<forall>m \<in> set ms. recent_slot (fst m) \<noteq> recent_slot t"
  shows "stored (remember_all ms d) t = Some q"
  using assms by (induction ms arbitrary: d) (simp_all add: remember_all_def stored_remember_other)

lemma remember_all_holds:
  assumes "recent_wf d" and "de_storing d" and "distinct (map (\<lambda>m. recent_slot (fst m)) ms)"
    and "\<forall>m \<in> set ms. snd m \<noteq> []"
  shows "holds_members (remember_all ms d) ms"
  using assms
proof (induction ms arbitrary: d)
  case (Cons m ms)
  let ?d = "remember (fst m) (snd m) d"
  have "\<forall>q \<in> set ms. recent_slot (fst q) \<noteq> recent_slot (fst m)"
    using Cons.prems(3) by (auto simp: image_iff)
  then have "stored (remember_all ms ?d) (fst m) = Some (snd m)"
    using Cons.prems by (intro remember_all_keeps stored_remember_same remember_wf) simp_all
  moreover have "holds_members (remember_all ms ?d) ms"
    using Cons by simp
  ultimately show ?case by (simp add: holds_members_def remember_all_def)
qed (simp add: holds_members_def)

lemma mod_near_eq:
  assumes "(a :: nat) mod k = b mod k" and "a < b + k" and "b < a + k"
  shows "a = b"
proof (rule ccontr)
  assume "a \<noteq> b"
  then consider "a < b" | "b < a" by linarith
  then show False
  proof cases
    case 1
    then have "k dvd b - a" using assms(1) mod_eq_dvd_iff_nat [of a b k] by simp
    then show False using 1 assms(3) by (auto dest: dvd_imp_le)
  next
    case 2
    then have "k dvd a - b" using assms(1) mod_eq_dvd_iff_nat [of b a k] by simp
    then show False using 2 assms(2) by (auto dest: dvd_imp_le)
  qed
qed

lemma group_slots_distinct:
  assumes "group_wf grp"
  shows "distinct (map (\<lambda>m. recent_slot (fst m)) grp)"
proof -
  have "distinct (map fst grp)"
    using assms strict_sorted_iff [of "map fst grp"] by (simp add: group_wf_def)
  moreover have "inj_on recent_slot (set (map fst grp))"
  proof (rule inj_onI)
    fix a b assume "a \<in> set (map fst grp)" "b \<in> set (map fst grp)"
    then have "unat (fst (hd grp)) \<le> unat a" "unat a \<le> unat (fst (hd grp)) + 255"
      "unat (fst (hd grp)) \<le> unat b" "unat b \<le> unat (fst (hd grp)) + 255"
      using group_wf_member [OF assms] by (auto simp: word_le_nat_alt)
    then have "unat a < unat b + 512" "unat b < unat a + 512" by linarith+
    moreover assume "recent_slot a = recent_slot b"
    ultimately have "unat a = unat b"
      using mod_near_eq [of "unat a" 512 "unat b"] by (simp add: recent_slot_def RECENT_CAPACITY_def)
    then show "a = b" by (simp add: word_unat_eq_iff)
  qed
  ultimately show ?thesis
    using distinct_map [of recent_slot "map fst grp"] by (simp add: comp_def)
qed

text \<open>
  C10. A single loss is recovered. A group of which all members but one reached a storing decoder is
  completed by its repair: the decoder returns the lost packet, byte for byte, under its own sequence.
\<close>

theorem single_loss_recovered:
  assumes "group_wf (before @ (lost, packet) # after)" and "recent_wf d" and "de_storing d"
    and "list_all (\<lambda>m. delivered (fst m)) (before @ after)" and "\<not> delivered lost"
  shows "snd (accept_repair (repair_payload (before @ (lost, packet) # after)) now delivered
      (remember_all (before @ after) d)) = Some (lost, packet)"
proof -
  let ?grp = "before @ (lost, packet) # after"
  have holds: "holds_members (remember_all (before @ after) d) (before @ after)"
    using group_slots_distinct [OF assms(1)] group_wf_member(3) [OF assms(1)] assms(2,3)
    by (intro remember_all_holds) auto
  have lost: "filter (\<lambda>m. \<not> delivered m) (map fst ?grp) = [lost]"
    using assms(4,5) by (auto simp: list_all_iff filter_empty_conv)
  define r where "r = \<lparr>rp_members = map fst ?grp, rp_parity = group_parity ?grp, rp_received_at = now\<rparr>"
  have "rebuild d' r lost = Some packet" if "holds_members d' (before @ after)" for d'
    using that assms(1) by (intro rebuild_lost) (simp_all add: r_def)
  moreover have "rp_members r = map fst ?grp" by (simp add: r_def)
  moreover have "holds_members (x\<lparr>de_repairs_received := a, de_storing := b\<rparr>) ms = holds_members x ms" for x a b ms
    by (simp add: holds_members_def stored_def)
  ultimately show ?thesis
    using holds lost parse_repair_payload [OF assms(1), of now, folded r_def]
    by (simp add: accept_repair_def resolve_def del: filter_append filter.simps(2) map_append list.map(2))
qed

definition sample_decoder :: Decoder where
  "sample_decoder = decoder_default\<lparr>de_storing := True\<rparr>"

theorem single_loss_recovered_witness:
  "snd (accept_repair (repair_payload [(7, [1, 2, 3]), (8, [9])]) 0 (\<lambda>s. s = 8)
      (remember_all [(8, [9])] sample_decoder)) = Some (7, [1, 2, 3])"
  using single_loss_recovered [of "[]" 7 "[1, 2, 3]" "[(8, [9])]" sample_decoder "\<lambda>s. s = 8" 0]
  by (simp add: group_wf_def recent_wf_def sample_decoder_def decoder_default_def)

end
