(* ===== verification/Icmp.thy ===== *)
theory Icmp
  imports Contracts
begin

section \<open>Internet checksums and hand-built ICMP (\<^verbatim>\<open>engine/src/icmp.rs\<close>)\<close>

text \<open>
  The ones'-complement checksum with its 32-bit accumulator, the echo request and reply the engine
  sends through a tunnel, and the "fragmentation needed" answer. The lemmas show that the accumulator
  cannot overflow for a datagram, that a written checksum always verifies, and that a reply is
  recognised exactly when it answers the request.
\<close>

subsection \<open>The checksum\<close>

text \<open>\<^verbatim>\<open>chunks_exact(2)\<close> and its remainder; the additions are those of \<^verbatim>\<open>u32\<close>.\<close>

fun sum_chunks :: "u32 \<Rightarrow> bytes \<Rightarrow> u32" where
  "sum_chunks acc (a # b # rest) = sum_chunks (acc + ucast (of_be16 [a, b])) rest"
| "sum_chunks acc [z] = acc + push_bit 8 (ucast z)"
| "sum_chunks acc [] = acc"

lemma fold_step:
  "unat ((s AND 0xffff) + drop_bit 16 s :: u32) = unat s mod 65536 + unat s div 65536"
proof -
  have "unat (s AND 0xffff) = unat s mod 65536"
    using unsigned_and_eq [of s "0xffff :: u32", where ?'a = nat] take_bit_eq_mask [of 16 "unat s"]
    by (simp add: take_bit_eq_mod mask_eq_exp_minus_1)
  moreover have "unat (drop_bit 16 s) = unat s div 65536"
    by (simp add: unat_shift_right)
  moreover have "unat s div 65536 < 65536" using unat_u32_less [of s] by (simp del: unat_u32_less)
  ultimately show ?thesis by (simp add: unat_word_ariths)
qed

function fold_carry :: "u32 \<Rightarrow> u32" where
  "fold_carry acc = (if acc > 0xffff then fold_carry ((acc AND 0xffff) + drop_bit 16 acc) else acc)"
  by auto
termination
proof (relation "measure unat")
  fix acc :: u32 assume "acc > 0xffff"
  then have "unat acc > 65535" by (simp add: word_less_nat_alt)
  moreover have "unat acc = unat acc div 65536 * 65536 + unat acc mod 65536" by simp
  moreover from calculation have "unat acc div 65536 \<ge> 1" by simp
  ultimately show "((acc AND 0xffff) + drop_bit 16 acc, acc) \<in> measure unat"
    unfolding in_measure fold_step by linarith
qed simp

declare fold_carry.simps [simp del]

definition internet_checksum :: "bytes \<Rightarrow> u16" where
  "internet_checksum bs = NOT (ucast (fold_carry (sum_chunks 0 bs)))"

text \<open>What it computes: the plain sum of the 16-bit words, modulo 65535.\<close>

fun wsum :: "bytes \<Rightarrow> nat" where
  "wsum (a # b # rest) = unat a * 256 + unat b + wsum rest"
| "wsum [z] = unat z * 256"
| "wsum [] = 0"

lemma wsum_bound: "2 * wsum bs \<le> 65535 * (length bs + 1)"
proof (induction bs rule: wsum.induct)
  case (1 a b rest)
  have "unat a \<le> 255" "unat b \<le> 255" using unat_u8_less [of a] unat_u8_less [of b] by linarith+
  with 1 show ?case by simp
next
  case (2 z)
  show ?case using unat_u8_less [of z] by (simp del: unat_u8_less)
qed simp

lemma wsum_append: "even (length xs) \<Longrightarrow> wsum (xs @ ys) = wsum xs + wsum ys"
  by (induction xs rule: wsum.induct) simp_all

lemma sum_chunks_no_overflow:
  "unat s + wsum bs < 2 ^ 32 \<Longrightarrow> unat (sum_chunks s bs) = unat s + wsum bs"
proof (induction s bs rule: sum_chunks.induct)
  case (1 s a b rest)
  have "unat (ucast (of_be16 [a, b]) :: u32) = unat a * 256 + unat b"
    using unat_u16_less [of "of_be16 [a, b]"] by (simp add: unsigned_ucast_eq take_bit_eq_mod del: unat_u16_less)
  moreover from this have "unat (s + ucast (of_be16 [a, b])) = unat s + (unat a * 256 + unat b)"
    using 1(2) by (simp add: unat_word_ariths)
  ultimately show ?case using 1 by simp
next
  case (2 s z)
  have "unat (push_bit 8 (ucast z) :: u32) = unat z * 256"
    using unat_u8_less [of z]
    by (simp add: push_bit_eq_mult unat_word_ariths unsigned_ucast_eq take_bit_eq_mod del: unat_u8_less)
  with 2 show ?case by (simp add: unat_word_ariths)
qed simp

lemma fold_carry_props:
  "unat (fold_carry s) \<le> 65535 \<and> unat (fold_carry s) mod 65535 = unat s mod 65535
    \<and> (unat (fold_carry s) = 0 \<longleftrightarrow> unat s = 0)"
proof (induction s rule: fold_carry.induct)
  case (1 s)
  show ?case
  proof (cases "s > 0xffff")
    case True
    have "unat s = unat s div 65536 * 65535 + (unat s mod 65536 + unat s div 65536)" by simp
    then have "(unat s mod 65536 + unat s div 65536) mod 65535 = unat s mod 65535"
      by (metis mod_mult_self3)
    moreover have "unat s mod 65536 + unat s div 65536 = 0 \<longleftrightarrow> unat s = 0" by auto
    ultimately show ?thesis
      using 1 [OF True] True fold_carry.simps [of s] by (simp only: fold_step) simp
  next
    case False
    then have "fold_carry s = s" using fold_carry.simps [of s] by simp
    with False show ?thesis by (simp add: word_le_nat_alt not_less)
  qed
qed

lemma unat_not_u16: "unat (NOT w :: u16) = 65535 - unat w"
proof -
  have "NOT w = - 1 - w" by (simp add: not_eq_complement)
  moreover have "w \<le> - 1" by simp
  ultimately have "unat (NOT w) = unat (- 1 :: u16) - unat w" by (simp only: unat_sub)
  then show ?thesis by (simp add: unsigned_minus_1_eq_mask mask_eq_exp_minus_1)
qed

lemma folded_complement:
  "(unat (NOT (ucast (fold_carry acc)) :: u16) + unat acc) mod 65535 = 0"
  "unat (NOT (ucast (fold_carry acc)) :: u16) = 65535 \<longleftrightarrow> unat acc = 0"
proof -
  let ?f = "fold_carry acc"
  have f: "unat ?f \<le> 65535" "unat ?f mod 65535 = unat acc mod 65535" "unat ?f = 0 \<longleftrightarrow> unat acc = 0"
    using fold_carry_props [of acc] by auto
  have "unat (ucast ?f :: u16) = unat ?f" using f(1) by (simp add: unsigned_ucast_eq take_bit_eq_mod)
  then have c: "unat (NOT (ucast ?f) :: u16) = 65535 - unat ?f" by (simp add: unat_not_u16)
  then show "unat (NOT (ucast ?f) :: u16) = 65535 \<longleftrightarrow> unat acc = 0" using f by auto
  have "(65535 - unat ?f + unat ?f) mod 65535 = 0" using f(1) by simp
  then show "(unat (NOT (ucast ?f) :: u16) + unat acc) mod 65535 = 0"
    using f(2) c by (metis mod_add_right_eq)
qed

lemma checksum_value:
  assumes "length bs \<le> 65536"
  shows "(unat (internet_checksum bs) + wsum bs) mod 65535 = 0"
    and "unat (internet_checksum bs) = 65535 \<longleftrightarrow> wsum bs = 0"
proof -
  have "unat (sum_chunks 0 bs) = wsum bs"
    using wsum_bound [of bs] assms by (subst sum_chunks_no_overflow) simp_all
  then show "(unat (internet_checksum bs) + wsum bs) mod 65535 = 0"
    and "unat (internet_checksum bs) = 65535 \<longleftrightarrow> wsum bs = 0"
    using folded_complement [of "sum_chunks 0 bs"] by (simp_all add: internet_checksum_def)
qed

text \<open>A checksum of zero over data that includes it: the receiver's test.\<close>

lemma checksum_zero_iff:
  assumes "length bs \<le> 65536"
  shows "internet_checksum bs = 0 \<longleftrightarrow> wsum bs \<noteq> 0 \<and> wsum bs mod 65535 = 0"
proof
  assume "internet_checksum bs = 0"
  then have "unat (internet_checksum bs) = 0" by simp
  then show "wsum bs \<noteq> 0 \<and> wsum bs mod 65535 = 0" using checksum_value [OF assms] by auto
next
  assume nz: "wsum bs \<noteq> 0 \<and> wsum bs mod 65535 = 0"
  then have "unat (internet_checksum bs) mod 65535 = 0"
    using checksum_value(1) [OF assms] by (metis add.right_neutral mod_add_right_eq)
  moreover have "unat (internet_checksum bs) < 65535"
    using checksum_value(2) [OF assms] nz unat_u16_less [of "internet_checksum bs"] by linarith
  ultimately have "unat (internet_checksum bs) = 0" by simp
  then show "internet_checksum bs = 0" by (simp add: word_unat_eq_iff)
qed

lemma wsum_be16 [simp]: "wsum (be16 w) = unat w"
proof -
  obtain a b where ab: "be16 w = [a, b]" by (simp add: be16_bytes)
  with nat_of_be_be16 [of w] show ?thesis by simp
qed

lemma wsum_put:
  assumes "even k" and "k + 2 \<le> length bs"
  shows "wsum (put k (be16 c) bs) + wsum (subslice k (k + 2) bs) = wsum bs + unat c"
proof -
  have "bs = take k bs @ subslice k (k + 2) bs @ drop (k + 2) bs"
    using append_take_drop_id [of k bs] append_take_drop_id [of 2 "drop k bs"]
    by (simp add: subslice_def add.commute)
  moreover have "even (length (take k bs))" "even (length (subslice k (k + 2) bs))"
    using assms by (simp_all add: min_def)
  ultimately have "wsum bs = wsum (take k bs) + (wsum (subslice k (k + 2) bs) + wsum (drop (k + 2) bs))"
    using wsum_append [of "take k bs"] wsum_append [of "subslice k (k + 2) bs"] by metis
  moreover have "wsum (put k (be16 c) bs) = wsum (take k bs) + unat c + wsum (drop (k + 2) bs)"
    using assms by (simp add: put_def wsum_append min_def)
  ultimately show ?thesis by simp
qed

text \<open>Writing the checksum of data whose checksum field is zero makes the data verify.\<close>

lemma checksum_verifies:
  assumes "even k" and "k + 2 \<le> length bs" and "length bs \<le> 65536" and "subslice k (k + 2) bs = [0, 0]"
  shows "internet_checksum (put k (be16 (internet_checksum bs)) bs) = 0"
proof -
  let ?c = "internet_checksum bs"
  have "wsum (put k (be16 ?c) bs) = unat ?c + wsum bs"
    using wsum_put [OF assms(1,2), of ?c] unfolding assms(4) by simp
  moreover have "(unat ?c + wsum bs) mod 65535 = 0" "unat ?c + wsum bs \<noteq> 0"
    using checksum_value [OF assms(3)] by auto
  ultimately show ?thesis
    using assms by (subst checksum_zero_iff) simp_all
qed

subsection \<open>Echoes\<close>

text \<open>The byte string \<^verbatim>\<open>b"gamepath-data-plane"\<close>.\<close>

definition echo_payload :: bytes where
  "echo_payload = [103, 97, 109, 101, 112, 97, 116, 104, 45, 100, 97, 116, 97, 45, 112, 108, 97, 110, 101]"

definition icmp_echo_packet :: "ipv4 \<Rightarrow> ipv4 \<Rightarrow> u16 \<Rightarrow> u16 \<Rightarrow> bool \<Rightarrow> bytes" where
  "icmp_echo_packet source destination identifier sequence reply =
     (let payload = echo_payload;
          total_length = 20 + 8 + length payload;
          packet = replicate total_length 0;
          packet = packet[0 := 0x45];
          packet = put 2 (be16 (of_nat total_length)) packet;
          packet = put 6 (be16 0x4000) packet;
          packet = packet[8 := 64];
          packet = packet[9 := 1];
          packet = put 12 source packet;
          packet = put 16 destination packet;
          packet = put 10 (be16 (internet_checksum (take 20 packet))) packet;
          packet = packet[20 := if reply then 0 else 8];
          packet = put 24 (be16 identifier) packet;
          packet = put 26 (be16 sequence) packet;
          packet = put 28 payload packet
      in put 22 (be16 (internet_checksum (drop 20 packet))) packet)"

definition icmp_reply_sequence :: "bytes \<Rightarrow> ipv4 \<Rightarrow> ipv4 \<Rightarrow> u16 \<Rightarrow> u16 option" where
  "icmp_reply_sequence packet source destination identifier =
     (if length packet < 28 \<or> drop_bit 4 (packet ! 0) \<noteq> 4 then None
      else let header_length = unat (packet ! 0 AND 0x0f) * 4;
               total_length = unat (of_be16 [packet ! 2, packet ! 3])
           in if header_length < 20 \<or> total_length < header_length + 8 \<or> total_length > length packet
                 \<or> packet ! 9 \<noteq> 1 \<or> subslice 12 16 packet \<noteq> source \<or> subslice 16 20 packet \<noteq> destination
                 \<or> of_be16 [packet ! 6, packet ! 7] AND 0x3fff \<noteq> 0
              then None
              else let echo = subslice header_length total_length packet
                   in if echo ! 0 = 0 \<and> echo ! 1 = 0 \<and> of_be16 [echo ! 4, echo ! 5] = identifier
                         \<and> internet_checksum echo = 0
                      then Some (of_be16 [echo ! 6, echo ! 7]) else None)"

text \<open>The packet written out: an IPv4 header and an ICMP message, each with its checksum in place.\<close>

definition echo_header :: "ipv4 \<Rightarrow> ipv4 \<Rightarrow> bytes" where
  "echo_header source destination =
     (let header = [0x45, 0, 0, 47, 0, 0, 0x40, 0, 64, 1, 0, 0] @ source @ destination
      in put 10 (be16 (internet_checksum header)) header)"

definition echo_message :: "u16 \<Rightarrow> u16 \<Rightarrow> bool \<Rightarrow> bytes" where
  "echo_message identifier sequence reply =
     (let message = [if reply then 0 else 8, 0, 0, 0] @ be16 identifier @ be16 sequence @ echo_payload
      in put 2 (be16 (internet_checksum message)) message)"

lemma icmp_echo_packet_layout:
  assumes "length source = 4" and "length destination = 4"
  shows "icmp_echo_packet source destination identifier sequence reply =
    echo_header source destination @ echo_message identifier sequence reply"
proof -
  obtain a b c d where src: "source = [a, b, c, d]" using assms(1) by (rule length_4E)
  obtain e f g h where dst: "destination = [e, f, g, h]" using assms(2) by (rule length_4E)
  have be: "be16 (47 :: u16) = [0, 47]" "be16 (0x4000 :: u16) = [0x40, 0]" by (simp_all add: be16_bytes)
  have ck: "length (be16 w) = 2" for w by simp
  have fields: "put 16 destination (put 12 source ((((put 6 (be16 0x4000) (put 2 (be16 47)
      ((replicate 47 0)[0 := 0x45]))))[8 := 64])[9 := 1]))
    = ([0x45, 0, 0, 47, 0, 0, 0x40, 0, 64, 1, 0, 0] @ source @ destination) @ replicate 27 0"
    by (simp add: src dst be replicate_numeral put_def)
  let ?m = "[if reply then 0 else 8, 0, 0, 0] @ be16 identifier @ be16 sequence @ echo_payload"
  have message: "put 8 echo_payload (put 6 (be16 sequence) (put 4 (be16 identifier)
      ((replicate 27 0)[0 := if reply then 0 else 8]))) = ?m"
    by (simp add: replicate_numeral put_def echo_payload_def)
  have len: "length echo_payload = 19" by (simp add: echo_payload_def)
  show ?thesis
    using fields message
    by (simp add: icmp_echo_packet_def echo_header_def echo_message_def Let_def assms len
        put_append_left put_append_right list_update_append del: append_Cons append_assoc)
qed

lemma echo_header_verifies:
  assumes "length source = 4" and "length destination = 4"
  shows "internet_checksum (echo_header source destination) = 0" "length (echo_header source destination) = 20"
  unfolding echo_header_def Let_def
  using assms by (auto intro!: checksum_verifies simp: subslice_def)

lemma echo_message_verifies:
  "internet_checksum (echo_message identifier sequence reply) = 0"
  "length (echo_message identifier sequence reply) = 27"
  unfolding echo_message_def Let_def
  by (auto intro!: checksum_verifies simp: subslice_def echo_payload_def)

lemma echo_header_bytes:
  assumes "length source = 4" and "length destination = 4"
  shows "\<exists>x y. echo_header source destination =
    [0x45, 0, 0, 47, 0, 0, 0x40, 0, 64, 1, x, y] @ source @ destination"
  using assms by (simp add: echo_header_def Let_def put_def be16_bytes)

lemma echo_message_bytes:
  "\<exists>x y. echo_message identifier sequence reply =
    [if reply then 0 else 8, 0, x, y] @ be16 identifier @ be16 sequence @ echo_payload"
  by (simp add: echo_message_def Let_def put_def) (auto simp: be16_bytes)

text \<open>
  An echo reply built by \<^verbatim>\<open>icmp_echo_packet\<close> is recognised as the answer and gives back its
  sequence number exactly when it carries the awaited identifier; an echo request never passes for a
  reply. Both checksums of the packet verify.
\<close>

theorem icmp_echo_round_trip:
  assumes "length source = 4" and "length destination = 4"
  shows "icmp_reply_sequence (icmp_echo_packet source destination identifier sequence reply)
      source destination awaited = (if reply \<and> awaited = identifier then Some sequence else None)
    \<and> internet_checksum (take 20 (icmp_echo_packet source destination identifier sequence reply)) = 0
    \<and> internet_checksum (drop 20 (icmp_echo_packet source destination identifier sequence reply)) = 0"
proof -
  let ?h = "echo_header source destination" and ?m = "echo_message identifier sequence reply"
  obtain x y where h: "?h = [0x45, 0, 0, 47, 0, 0, 0x40, 0, 64, 1, x, y] @ source @ destination"
    using echo_header_bytes [OF assms] by blast
  obtain v w where m: "?m = [if reply then 0 else 8, 0, v, w] @ be16 identifier @ be16 sequence @ echo_payload"
    using echo_message_bytes by blast
  have lens: "length ?h = 20" "length ?m = 27"
    using echo_header_verifies(2) [OF assms] echo_message_verifies(2) by auto
  have echo: "subslice 20 47 (?h @ ?m) = ?m" using lens by (simp add: subslice_def)
  have addresses: "subslice 12 16 (?h @ ?m) = source" "subslice 16 20 (?h @ ?m) = destination"
    using assms by (simp_all add: h subslice_def)
  have bytes: "(?h @ ?m) ! 0 = 0x45" "(?h @ ?m) ! 2 = 0" "(?h @ ?m) ! 3 = 47" "(?h @ ?m) ! 9 = 1"
    "(?h @ ?m) ! 6 = 0x40" "(?h @ ?m) ! 7 = 0"
    by (simp_all add: h)
  have "of_be16 [0x40, 0] AND 0x3fff = (0 :: u16)" by (simp add: of_be16_def)
  moreover have "drop_bit 4 0x45 = (4 :: u8)" "unat (0x45 AND 0x0f :: u8) = 5" by simp_all
  moreover have fields: "[?m ! 4, ?m ! 5] = be16 identifier" "[?m ! 6, ?m ! 7] = be16 sequence"
    "?m ! 0 = (if reply then 0 else 8)" "?m ! 1 = 0"
    by (simp_all add: m be16_bytes)
  moreover have "of_be16 [?m ! 4, ?m ! 5] = identifier" "of_be16 [?m ! 6, ?m ! 7] = sequence"
    by (simp_all only: fields of_be16_be16)
  ultimately have "icmp_reply_sequence (?h @ ?m) source destination awaited =
      (if reply \<and> awaited = identifier then Some sequence else None)"
    using lens addresses bytes echo echo_message_verifies(1)
    by (cases reply) (auto simp: icmp_reply_sequence_def Let_def)
  then show ?thesis
    using lens echo_header_verifies(1) [OF assms] echo_message_verifies(1)
    by (simp add: icmp_echo_packet_layout [OF assms])
qed

theorem icmp_echo_round_trip_witness:
  "icmp_reply_sequence (icmp_echo_packet [1, 1, 1, 1] [10, 203, 0, 2] 7 42 True)
     [1, 1, 1, 1] [10, 203, 0, 2] 7 = Some 42"
  using icmp_echo_round_trip [of "[1, 1, 1, 1]" "[10, 203, 0, 2]" 7 42 True 7] by simp

subsection \<open>Fragmentation needed\<close>

definition fragmentation_needed :: "bytes \<Rightarrow> u16 \<Rightarrow> bytes option outcome" where
  "fragmentation_needed packet mtu =
     (if length packet < 8 then Ret None
      else let header_length = unat (packet ! 0 AND 0x0f) * 4;
               total_length = unat (of_be16 [packet ! 2, packet ! 3]);
               flags = of_be16 [packet ! 6, packet ! 7]
           in if drop_bit 4 (packet ! 0) \<noteq> 4 \<or> header_length < 20 \<or> total_length > length packet
                 \<or> total_length \<le> unat mtu \<or> flags AND 0x4000 = 0 \<or> flags AND 0x3fff \<noteq> 0
              then Ret None
              else if length packet < 10 then Panic
              else if packet ! 9 = 1 \<and> \<not> (header_length < length packet \<and> packet ! header_length \<in> {0, 8})
              then Ret None
              else if length packet < 20 then Panic
              else let quoted = take (min (header_length + 8) total_length) packet;
                       len = 20 + 8 + length quoted;
                       reply = replicate len 0;
                       reply = reply[0 := 0x45];
                       reply = put 2 (be16 (of_nat len)) reply;
                       reply = put 6 (be16 0x4000) reply;
                       reply = reply[8 := 64];
                       reply = reply[9 := 1];
                       reply = put 12 (subslice 16 20 packet) reply;
                       reply = put 16 (subslice 12 16 packet) reply;
                       reply = put 10 (be16 (internet_checksum (take 20 reply))) reply;
                       reply = reply[20 := 3];
                       reply = reply[21 := 4];
                       reply = put 26 (be16 mtu) reply;
                       reply = put 28 quoted reply
                   in Ret (Some (put 22 (be16 (internet_checksum (drop 20 reply))) reply)))"

end
