(* ===== verification/Fragments.thy ===== *)
theory Fragments
  imports Icmp
begin

section \<open>IPv4 fragments (\<^verbatim>\<open>engine/src/ipv4_fragments.rs\<close>)\<close>

text \<open>
  Recognising fragments, correcting a transport checksum after an address change, splitting a
  datagram for the tunnel, and the trail that sends later fragments after the first. Reassembly is in
  theory Reassembly. The hash map of the source is an association list with distinct keys; the order
  of its entries stands for the iteration order, about which nothing is assumed.

  The source reads header bytes only of packets its callers have checked to be at least 20 bytes
  long (\<^verbatim>\<open>is_fragment\<close>, the injector's and the capture loop's own parsing).
\<close>

definition FRAGMENT_TIMEOUT :: duration where "FRAGMENT_TIMEOUT = secs 2"
definition MAX_DATAGRAMS :: nat where "MAX_DATAGRAMS = 64"
definition MAX_FRAGMENTS_PER_DATAGRAM :: nat where "MAX_FRAGMENTS_PER_DATAGRAM = 64"
definition MAX_DATAGRAM_LENGTH :: nat where "MAX_DATAGRAM_LENGTH = 65535"
definition MORE_FRAGMENTS :: u16 where "MORE_FRAGMENTS = 0x2000"
definition DONT_FRAGMENT :: u16 where "DONT_FRAGMENT = 0x4000"
definition OFFSET_MASK :: u16 where "OFFSET_MASK = 0x1fff"

record DatagramKey =
  dk_source :: bytes
  dk_destination :: bytes
  dk_protocol :: u8
  dk_identification :: u16

definition datagram_key :: "bytes \<Rightarrow> DatagramKey" where
  "datagram_key packet = \<lparr>dk_source = subslice 12 16 packet, dk_destination = subslice 16 20 packet,
     dk_protocol = packet ! 9, dk_identification = of_be16 [packet ! 4, packet ! 5]\<rparr>"

definition frag_flags :: "bytes \<Rightarrow> u16" where
  "frag_flags packet = of_be16 [packet ! 6, packet ! 7]"

definition is_fragment :: "bytes \<Rightarrow> bool" where
  "is_fragment packet \<longleftrightarrow> length packet \<ge> 20 \<and> drop_bit 4 (packet ! 0) = 4
     \<and> frag_flags packet AND (MORE_FRAGMENTS OR OFFSET_MASK) \<noteq> 0"

definition is_later_fragment :: "bytes \<Rightarrow> bool" where
  "is_later_fragment packet \<longleftrightarrow> is_fragment packet \<and> frag_flags packet AND OFFSET_MASK \<noteq> 0"

definition is_first_fragment :: "bytes \<Rightarrow> bool" where
  "is_first_fragment packet \<longleftrightarrow> is_fragment packet \<and> frag_flags packet AND OFFSET_MASK = 0"

definition word_at :: "bytes \<Rightarrow> nat \<Rightarrow> u16" where
  "word_at packet i = of_be16 [packet ! i, packet ! (i + 1)]"

text \<open>
  \<^verbatim>\<open>while sum >> 16 != 0\<close> of this file is the same loop as \<^verbatim>\<open>while sum > 0xffff\<close> of the checksum:
  both fold until the upper half is empty.
\<close>

definition readdress_transport_checksum :: "bytes \<Rightarrow> bytes \<Rightarrow> bool \<times> bytes" where
  "readdress_transport_checksum rewritten original =
     (let header = unat (rewritten ! 0 AND 0x0f) * 4
      in if rewritten ! 9 \<noteq> 6 \<and> rewritten ! 9 \<noteq> 17 then (True, rewritten)
         else let offset = (if rewritten ! 9 = 6 then header + 16 else header + 6)
              in if length rewritten < offset + 2 then (False, rewritten)
                 else let checksum = word_at rewritten offset
                      in if rewritten ! 9 = 17 \<and> checksum = 0 then (True, rewritten)
                         else let total = fold (\<lambda>word acc. acc + ucast (NOT (word_at original word))
                                    + ucast (word_at rewritten word)) [12, 14, 16, 18] (ucast (NOT checksum) :: u32);
                                  updated = NOT (ucast (fold_carry total)) :: u16;
                                  updated = (if rewritten ! 9 = 17 \<and> updated = 0 then 0xffff else updated)
                              in (True, put offset (be16 updated) rewritten))"

subsection \<open>Splitting\<close>

text \<open>\<^verbatim>\<open>slice::chunks\<close>.\<close>

function chunks :: "nat \<Rightarrow> 'a list \<Rightarrow> 'a list list" where
  "chunks n xs = (if n = 0 \<or> xs = [] then [] else take n xs # chunks n (drop n xs))"
  by auto
termination by (relation "measure (length \<circ> snd)") auto

declare chunks.simps [simp del]

definition make_piece :: "bytes \<Rightarrow> bytes \<Rightarrow> u16 \<Rightarrow> bytes" where
  "make_piece packet piece flags =
     (let frag = take 20 packet @ piece;
          frag = put 2 (be16 (of_nat (length frag))) frag;
          frag = put 6 (be16 flags) frag;
          frag = put 10 [0, 0] frag
      in put 10 (be16 (internet_checksum (take 20 frag))) frag)"

definition split_for_tunnel :: "bytes \<Rightarrow> nat \<Rightarrow> bytes list option" where
  "split_for_tunnel packet mtu =
     (if length packet < 20 \<or> packet ! 0 \<noteq> 0x45 \<or> mtu < 28 then None
      else let total_length = unat (word_at packet 2); flags = frag_flags packet
           in if total_length > length packet \<or> total_length \<le> mtu then None
              else let base = unat (flags AND OFFSET_MASK) * 8;
                       more = (flags AND MORE_FRAGMENTS \<noteq> 0);
                       dont_fragment = flags AND DONT_FRAGMENT;
                       size = (mtu - 20) div 8 * 8;
                       payload = subslice 20 total_length packet;
                       count = (length payload + size - 1) div size
                   in Some (map (\<lambda>(index, piece).
                        make_piece packet piece
                          (dont_fragment OR of_nat ((base + index * size) div 8)
                            OR (if more \<or> index + 1 \<noteq> count then MORE_FRAGMENTS else 0)))
                        (enumerate 0 (chunks size payload))))"

definition fragment :: "bytes \<Rightarrow> nat \<Rightarrow> bytes list option" where
  "fragment packet mtu =
     (if length packet < 20 \<or> frag_flags packet AND DONT_FRAGMENT \<noteq> 0 then None
      else split_for_tunnel packet mtu)"

subsection \<open>The trail of outbound first fragments\<close>

definition TRAIL_TTL :: duration where "TRAIL_TTL = secs 5"
definition TRAIL_LIMIT :: nat where "TRAIL_LIMIT = 64"

text \<open>
  The verdict is \<^verbatim>\<open>Option<Option<Ipv4Addr>>\<close>: outside \<open>None\<close> for the open network, inside the
  resolver a redirected lookup was rewritten to. The deque's front is the list's head.
\<close>

record FragmentTrail =
  ft_datagrams :: "(DatagramKey \<times> ipv4 option option \<times> instant) list"

definition trail_default :: FragmentTrail where
  "trail_default = \<lparr>ft_datagrams = []\<rparr>"

definition trail_record :: "bytes \<Rightarrow> ipv4 option option \<Rightarrow> instant \<Rightarrow> FragmentTrail \<Rightarrow> FragmentTrail" where
  "trail_record first tunnelled now t =
     (let key = datagram_key first;
          kept = filter (\<lambda>d. fst d \<noteq> key \<and> duration_since now (snd (snd d)) < TRAIL_TTL) (ft_datagrams t);
          kept = (if length kept \<ge> TRAIL_LIMIT then tl kept else kept)
      in t\<lparr>ft_datagrams := kept @ [(key, tunnelled, now)]\<rparr>)"

definition trail_lookup :: "bytes \<Rightarrow> instant \<Rightarrow> FragmentTrail \<Rightarrow> ipv4 option option" where
  "trail_lookup later now t =
     (case find (\<lambda>d. fst d = datagram_key later \<and> duration_since now (snd (snd d)) < TRAIL_TTL) (ft_datagrams t) of
        None \<Rightarrow> None
      | Some (datagram, tunnelled, seen) \<Rightarrow> tunnelled)"

subsection \<open>What the pieces carry\<close>

lemma chunks_Nil [simp]: "chunks n [] = []"
  by (simp add: chunks.simps)

lemma chunks_step: "n > 0 \<Longrightarrow> xs \<noteq> [] \<Longrightarrow> chunks n xs = take n xs # chunks n (drop n xs)"
  by (subst chunks.simps) simp

lemma concat_chunks: "n > 0 \<Longrightarrow> concat (chunks n xs) = xs"
  by (induction n xs rule: chunks.induct) (simp add: chunks.simps)

lemma length_chunks: "n > 0 \<Longrightarrow> length (chunks n xs) = (length xs + n - 1) div n"
proof (induction n xs rule: chunks.induct)
  case (1 n xs)
  show ?case
  proof (cases "xs = []")
    case False
    have "length (chunks n xs) = 1 + (length xs - n + n - 1) div n"
      using 1 False by (simp add: chunks_step)
    also have "\<dots> = (length xs + n - 1) div n"
    proof (cases "length xs \<ge> n")
      case True
      then have "length xs + n - 1 = (length xs - n + n - 1) + 1 * n" using 1(2) False by (cases xs) simp_all
      then show ?thesis using 1(2) by (metis add.commute div_mult_self1 less_not_refl)
    next
      case less: False
      then have "(length xs + n - 1) div n = 1"
        using 1(2) False by (intro div_nat_eqI) (cases xs; simp)+
      moreover have "(length xs - n + n - 1) div n = 0" using less 1(2) by simp
      ultimately show ?thesis by simp
    qed
    finally show ?thesis .
  qed (simp add: "1.prems")
qed

lemma chunks_nonempty: "n > 0 \<Longrightarrow> c \<in> set (chunks n xs) \<Longrightarrow> c \<noteq> []"
proof (induction n xs rule: chunks.induct)
  case (1 n xs)
  then show ?case by (cases "xs = []") (auto simp: chunks_step)
qed

text \<open>Where consecutive pieces start when the first starts at \<open>c\<close>.\<close>

fun pieces_from :: "nat \<Rightarrow> bytes list \<Rightarrow> (nat \<times> bytes) list" where
  "pieces_from c [] = []"
| "pieces_from c (x # xs) = (c, x) # pieces_from (c + length x) xs"

lemma length_pieces_from [simp]: "length (pieces_from c xs) = length xs"
  by (induction xs arbitrary: c) simp_all

lemma pieces_from_chunks:
  "n > 0 \<Longrightarrow> pieces_from c (chunks n xs) = map (\<lambda>(i, x). (c + i * n, x)) (enumerate 0 (chunks n xs))"
proof (induction n xs arbitrary: c rule: chunks.induct)
  case (1 n xs)
  show ?case
  proof (cases "length xs \<le> n")
    case True
    then show ?thesis using 1(2) by (cases "xs = []") (simp_all add: chunks_step)
  next
    case False
    then have "xs \<noteq> []" "length (take n xs) = n" by auto
    moreover have "map (\<lambda>(i, x). (c + n + i * n, x)) (enumerate 0 ys) = map (\<lambda>(i, x). (c + i * n, x)) (enumerate 1 ys)" for ys :: "bytes list"
      using enumerate_Suc_eq [of 0 ys] by (simp add: case_prod_unfold)
    ultimately show ?thesis using 1 by (simp add: chunks_step)
  qed
qed

lemma chunk_start_bound:
  "n > 0 \<Longrightarrow> i < length (chunks n xs) \<Longrightarrow> i * n + length (chunks n xs ! i) \<le> length xs"
proof (induction n xs arbitrary: i rule: chunks.induct)
  case (1 n xs)
  then show ?case
  proof (cases "length xs \<le> n")
    case True
    then show ?thesis using 1(2,3) by (cases "xs = []") (simp_all add: chunks_step)
  next
    case False
    then have ne: "xs \<noteq> []" by auto
    show ?thesis
    proof (cases i)
      case 0
      then show ?thesis using 1(2) ne by (simp add: chunks_step)
    next
      case (Suc j)
      have "j * n + length (chunks n (drop n xs) ! j) \<le> length xs - n"
        using 1 ne Suc by (simp add: chunks_step)
      then show ?thesis using False Suc 1(2) ne by (simp add: chunks_step)
    qed
  qed
qed

lemma chunk_full:
  "n > 0 \<Longrightarrow> i + 1 < length (chunks n xs) \<Longrightarrow> length (chunks n xs ! i) = n"
proof (induction n xs arbitrary: i rule: chunks.induct)
  case (1 n xs)
  then have ne: "xs \<noteq> []" by auto
  show ?case
  proof (cases i)
    case 0
    then show ?thesis using 1 ne by (cases "length xs \<le> n") (simp_all add: chunks_step)
  next
    case (Suc j)
    then show ?thesis using 1 ne by (simp add: chunks_step)
  qed
qed

subsection \<open>Reading a piece back\<close>

lemma make_piece_reads:
  assumes "length packet \<ge> 20" and "length piece \<le> 65515"
  shows "length (make_piece packet piece flags) = 20 + length piece"
    and "i < 20 \<Longrightarrow> i \<notin> {2, 3, 6, 7, 10, 11} \<Longrightarrow> make_piece packet piece flags ! i = packet ! i"
    and "subslice 2 4 (make_piece packet piece flags) = be16 (of_nat (20 + length piece))"
    and "subslice 6 8 (make_piece packet piece flags) = be16 flags"
    and "subslice 12 20 (make_piece packet piece flags) = subslice 12 20 packet"
    and "drop 20 (make_piece packet piece flags) = piece"
    and "internet_checksum (take 20 (make_piece packet piece flags)) = 0"
proof -
  define f0 where "f0 = put 10 [0, 0] (put 6 (be16 flags) (put 2 (be16 (of_nat (20 + length piece))) (take 20 packet)))"
  define f where "f = put 10 (be16 (internet_checksum f0)) f0"
  have len: "length f0 = 20" "length f = 20" using assms(1) by (simp_all add: f0_def f_def)
  have m: "make_piece packet piece flags = f @ piece"
    using assms(1) by (simp add: make_piece_def Let_def put_append_left f0_def f_def min_def)
  show "length (make_piece packet piece flags) = 20 + length piece" by (simp add: m len)
  show "drop 20 (make_piece packet piece flags) = piece" by (simp add: m len)
  show "i < 20 \<Longrightarrow> i \<notin> {2, 3, 6, 7, 10, 11} \<Longrightarrow> make_piece packet piece flags ! i = packet ! i"
    using assms(1) len by (auto simp: m nth_append f_def f0_def nth_put)
  have sub: "subslice a b (make_piece packet piece flags) = subslice a b f" if "b \<le> 20" for a b
    using that len by (simp add: m subslice_append_left)
  show "subslice 2 4 (make_piece packet piece flags) = be16 (of_nat (20 + length piece))"
    using assms(1) subslice_put_same [of 2 "be16 (of_nat (20 + length piece))" "take 20 packet"]
    by (simp add: sub f_def f0_def subslice_put_other)
  show "subslice 6 8 (make_piece packet piece flags) = be16 flags"
    using assms(1) subslice_put_same [of 6 "be16 flags" "put 2 (be16 (of_nat (20 + length piece))) (take 20 packet)"]
    by (simp add: sub f_def f0_def subslice_put_other)
  show "subslice 12 20 (make_piece packet piece flags) = subslice 12 20 packet"
    using assms(1) by (simp add: sub f_def f0_def subslice_put_other) (simp add: subslice_def take_drop)
  have "subslice 10 12 f0 = [0, 0]"
    using assms(1) subslice_put_same [of 10 "[0, 0]" "put 6 (be16 flags) (put 2 (be16 (of_nat (20 + length piece))) (take 20 packet))"]
    by (simp add: f0_def)
  then show "internet_checksum (take 20 (make_piece packet piece flags)) = 0"
    using checksum_verifies [of 10 f0] len by (simp add: m f_def)
qed

end
