(* ===== verification/Reassembly.thy ===== *)
theory Reassembly
  imports Fragments
begin

section \<open>Reassembling datagrams (\<^verbatim>\<open>Reassembler\<close> of \<^verbatim>\<open>engine/src/ipv4_fragments.rs\<close>)\<close>

text \<open>
  The table of incomplete datagrams and the \<^verbatim>\<open>push\<close> that completes them. The lemmas show the bounds
  of the table, and that a datagram split for the tunnel is rebuilt byte for byte from its pieces in
  any order, with any number of duplicates.
\<close>

record Partial =
  pa_started :: instant
  pa_header :: "bytes option"
  pa_pieces :: "(nat \<times> bytes) list"
  pa_end :: "nat option"

record Reassembler =
  ra_partials :: "(DatagramKey \<times> Partial) list"
  ra_discarded :: nat

definition reassembler_default :: Reassembler where
  "reassembler_default = \<lparr>ra_partials = [], ra_discarded = 0\<rparr>"

definition discard :: "DatagramKey \<Rightarrow> Reassembler \<Rightarrow> Reassembler" where
  "discard key r =
     (if map_of (ra_partials r) key = None then r
      else r\<lparr>ra_partials := AList.delete key (ra_partials r), ra_discarded := ra_discarded r + 1\<rparr>)"

definition take_discarded :: "Reassembler \<Rightarrow> Reassembler \<times> nat" where
  "take_discarded r = (r\<lparr>ra_discarded := 0\<rparr>, ra_discarded r)"

definition expire_partials :: "instant \<Rightarrow> Reassembler \<Rightarrow> Reassembler" where
  "expire_partials now r =
     (let kept = filter (\<lambda>e. duration_since now (pa_started (snd e)) < FRAGMENT_TIMEOUT) (ra_partials r)
      in r\<lparr>ra_partials := kept, ra_discarded := ra_discarded r + (length (ra_partials r) - length kept)\<rparr>)"

text \<open>The coverage loop over the sorted pieces: how far they reach, a gap, or an overlap.\<close>

datatype coverage = Covered nat | Gap | Overlap

fun cover :: "nat \<Rightarrow> (nat \<times> bytes) list \<Rightarrow> coverage" where
  "cover covered [] = Covered covered"
| "cover covered ((start, piece) # pieces) =
     (if start > covered then Gap
      else if start < covered then Overlap
      else cover (covered + length piece) pieces)"

definition whole_datagram :: "bytes \<Rightarrow> (nat \<times> bytes) list \<Rightarrow> bytes" where
  "whole_datagram header pieces =
     (let datagram = header @ concat (map snd pieces);
          dont_fragment = frag_flags header AND DONT_FRAGMENT;
          datagram = put 2 (be16 (of_nat (length datagram))) datagram;
          datagram = put 6 (be16 dont_fragment) datagram;
          datagram = put 10 [0, 0] datagram
      in put 10 (be16 (internet_checksum (take (length header) datagram))) datagram)"

text \<open>The entry of a datagram once a new piece is added to it.\<close>

definition with_piece :: "bytes \<Rightarrow> bool \<Rightarrow> nat \<Rightarrow> bytes \<Rightarrow> Partial \<Rightarrow> Partial" where
  "with_piece header mf offset payload p =
     p\<lparr>pa_end := (if mf then pa_end p else Some (offset + length payload)),
       pa_header := (if offset = 0 then Some header else pa_header p),
       pa_pieces := pa_pieces p @ [(offset, payload)]\<rparr>"

definition store :: "DatagramKey \<Rightarrow> Partial \<Rightarrow> Reassembler \<Rightarrow> Reassembler" where
  "store key p r = r\<lparr>ra_partials := AList.update key p (ra_partials r)\<rparr>"

text \<open>From the check of the number of pieces on: \<open>p\<close> is the entry of \<open>key\<close> in \<open>r\<close>.\<close>

definition complete_datagram :: "DatagramKey \<Rightarrow> Partial \<Rightarrow> Reassembler \<Rightarrow> Reassembler \<times> bytes option" where
  "complete_datagram key p r =
     (if length (pa_pieces p) > MAX_FRAGMENTS_PER_DATAGRAM then (discard key r, None)
      else (case (pa_header p, pa_end p) of
              (Some header, Some stop) \<Rightarrow>
                if length header + stop > MAX_DATAGRAM_LENGTH then (discard key r, None)
                else let pieces = sort_key fst (pa_pieces p);
                         r = store key (p\<lparr>pa_pieces := pieces\<rparr>) r
                     in (case cover 0 pieces of
                           Gap \<Rightarrow> (r, None)
                         | Overlap \<Rightarrow> (discard key r, None)
                         | Covered covered \<Rightarrow>
                             if covered \<noteq> stop then (discard key r, None)
                             else (r\<lparr>ra_partials := AList.delete key (ra_partials r)\<rparr>,
                                   Some (whole_datagram header pieces)))
            | _ \<Rightarrow> (r, None)))"

text \<open>From the entry on: \<open>p\<close> is the entry of \<open>key\<close> in \<open>r\<close>, existing or just inserted.\<close>

definition push_piece ::
  "DatagramKey \<Rightarrow> Partial \<Rightarrow> bytes \<Rightarrow> bool \<Rightarrow> nat \<Rightarrow> bytes \<Rightarrow> Reassembler \<Rightarrow> Reassembler \<times> bytes option" where
  "push_piece key p header mf offset payload r =
     (case find (\<lambda>q. fst q = offset) (pa_pieces p) of
        Some (_, known) \<Rightarrow> (if known \<noteq> payload then discard key r else r, None)
      | None \<Rightarrow>
          if \<not> mf \<and> pa_end p \<noteq> None \<and> pa_end p \<noteq> Some (offset + length payload) then (discard key r, None)
          else let p = with_piece header mf offset payload p
               in complete_datagram key p (store key p r))"

text \<open>Room for a new datagram: the table is full and \<open>key\<close> is not in it.\<close>

definition evict_oldest :: "DatagramKey \<Rightarrow> Reassembler \<Rightarrow> Reassembler" where
  "evict_oldest key r =
     (if map_of (ra_partials r) key = None \<and> length (ra_partials r) \<ge> MAX_DATAGRAMS
      then case min_by_key (\<lambda>e. pa_started (snd e)) (ra_partials r) of
             None \<Rightarrow> r
           | Some oldest \<Rightarrow> discard (fst oldest) r
      else r)"

definition push :: "bytes \<Rightarrow> instant \<Rightarrow> Reassembler \<Rightarrow> Reassembler \<times> bytes option" where
  "push packet now r =
     (let r = expire_partials now r;
          header_length = unat (packet ! 0 AND 0x0f) * 4;
          total_length = unat (word_at packet 2)
      in if header_length < 20 \<or> total_length < header_length \<or> total_length > length packet
         then (r\<lparr>ra_discarded := ra_discarded r + 1\<rparr>, None)
         else let flags = frag_flags packet;
                  offset = unat (flags AND OFFSET_MASK) * 8;
                  mf = (flags AND MORE_FRAGMENTS \<noteq> 0);
                  payload = subslice header_length total_length packet;
                  key = datagram_key packet;
                  stop = offset + length payload
              in if (mf \<and> length payload mod 8 \<noteq> 0) \<or> header_length + stop > MAX_DATAGRAM_LENGTH
                 then (discard key r, None)
                 else let r = evict_oldest key r
                      in case map_of (ra_partials r) key of
                           Some p \<Rightarrow> push_piece key p (take header_length packet) mf offset payload r
                         | None \<Rightarrow>
                             (let p = \<lparr>pa_started = now, pa_header = None, pa_pieces = [], pa_end = None\<rparr>
                              in push_piece key p (take header_length packet) mf offset payload (store key p r)))"

subsection \<open>Bounds\<close>

definition partial_ok :: "Partial \<Rightarrow> bool" where
  "partial_ok p \<longleftrightarrow> length (pa_pieces p) \<le> MAX_FRAGMENTS_PER_DATAGRAM \<and> distinct (map fst (pa_pieces p))"

definition reassembler_ok :: "Reassembler \<Rightarrow> bool" where
  "reassembler_ok r \<longleftrightarrow> distinct (map fst (ra_partials r)) \<and> length (ra_partials r) \<le> MAX_DATAGRAMS
     \<and> (\<forall>e \<in> set (ra_partials r). partial_ok (snd e))"

lemma reassembler_default_ok: "reassembler_ok reassembler_default"
  by (simp add: reassembler_ok_def reassembler_default_def)

lemma discard_ok: "reassembler_ok r \<Longrightarrow> reassembler_ok (discard key r)"
  using length_delete_le [of key "ra_partials r"]
  by (auto simp: reassembler_ok_def discard_def distinct_alist dest: set_alist_delete)

lemma expire_ok: "reassembler_ok r \<Longrightarrow> reassembler_ok (expire_partials now r)"
  by (auto simp: reassembler_ok_def expire_partials_def Let_def distinct_map_filter
      intro: order_trans [OF length_filter_le])

lemma store_ok:
  assumes "reassembler_ok r" and "partial_ok p"
    and "map_of (ra_partials r) key \<noteq> None \<or> length (ra_partials r) < MAX_DATAGRAMS"
  shows "reassembler_ok (store key p r)"
  using assms
  by (auto simp: reassembler_ok_def store_def distinct_alist length_alist_update map_of_eq_None_iff dest!: set_alist_update)

lemma delete_ok:
  assumes "reassembler_ok r"
  shows "reassembler_ok (r\<lparr>ra_partials := AList.delete key (ra_partials r), ra_discarded := n\<rparr>)"
    "reassembler_ok (r\<lparr>ra_partials := AList.delete key (ra_partials r)\<rparr>)"
  using assms length_delete_le [of key "ra_partials r"]
  by (auto simp: reassembler_ok_def distinct_alist dest: set_alist_delete)

lemma discard_store:
  "discard key (store key p r) =
     r\<lparr>ra_partials := AList.delete key (ra_partials r), ra_discarded := ra_discarded r + 1\<rparr>"
  by (simp add: discard_def store_def update_conv delete_update_same)

lemma store_store [simp]: "store key p (store key q r) = store key p r"
  by (simp add: store_def)

lemma delete_store [simp]: "AList.delete key (ra_partials (store key p r)) = AList.delete key (ra_partials r)"
  by (simp add: store_def delete_update_same)

lemma overwrite_store [simp]: "(store key p r)\<lparr>ra_partials := al\<rparr> = r\<lparr>ra_partials := al\<rparr>"
  by (simp add: store_def)

lemma partial_ok_sorted: "partial_ok (p\<lparr>pa_pieces := sort_key fst (pa_pieces p)\<rparr>) = partial_ok p"
  by (simp add: partial_ok_def distinct_map)

lemma complete_datagram_ok:
  assumes "reassembler_ok r" and "distinct (map fst (pa_pieces p))" and "map_of (ra_partials r) key \<noteq> None"
  shows "reassembler_ok (fst (complete_datagram key p (store key p r)))"
proof (cases "length (pa_pieces p) > MAX_FRAGMENTS_PER_DATAGRAM")
  case True
  then show ?thesis using delete_ok [OF assms(1)] by (simp add: complete_datagram_def discard_store)
next
  case False
  then have p: "partial_ok p" using assms(2) by (simp add: partial_ok_def)
  then have "reassembler_ok (store key p r)" "reassembler_ok (store key (p\<lparr>pa_pieces := sort_key fst (pa_pieces p)\<rparr>) r)"
    using assms(1,3) by (simp_all add: store_ok partial_ok_sorted)
  then show ?thesis
    using False delete_ok [OF assms(1)]
    by (auto simp: complete_datagram_def discard_store Let_def split: option.splits coverage.splits)
qed

lemma push_piece_ok:
  assumes "reassembler_ok r" and "map_of (ra_partials r) key = Some p"
  shows "reassembler_ok (fst (push_piece key p header mf offset payload r))"
proof (cases "find (\<lambda>q. fst q = offset) (pa_pieces p)")
  case None
  have "partial_ok p" using assms map_of_SomeD [OF assms(2)] by (auto simp: reassembler_ok_def)
  then have "distinct (map fst (pa_pieces (with_piece header mf offset payload p)))"
    using None by (auto simp: partial_ok_def with_piece_def find_None_iff image_iff)
  then have "reassembler_ok (fst (complete_datagram key (with_piece header mf offset payload p)
      (store key (with_piece header mf offset payload p) r)))"
    using assms by (intro complete_datagram_ok) simp_all
  then show ?thesis using None discard_ok [OF assms(1)] by (simp add: push_piece_def Let_def)
next
  case (Some q)
  then show ?thesis using assms discard_ok [OF assms(1)] by (cases q) (simp add: push_piece_def)
qed

lemma evict_oldest_ok: "reassembler_ok r \<Longrightarrow> reassembler_ok (evict_oldest key r)"
  by (simp add: evict_oldest_def discard_ok split: option.splits)

lemma evict_oldest_keeps: "map_of (ra_partials (evict_oldest key r)) key = map_of (ra_partials r) key"
proof (cases "map_of (ra_partials r) key")
  case None
  then have "map_of (AList.delete k (ra_partials r)) key = None" for k by (simp add: delete_conv')
  with None show ?thesis by (simp add: evict_oldest_def discard_def split: option.splits)
qed (simp add: evict_oldest_def)

lemma evict_oldest_room:
  assumes "reassembler_ok r" and "map_of (ra_partials r) key = None"
  shows "length (ra_partials (evict_oldest key r)) < MAX_DATAGRAMS"
proof (cases "length (ra_partials r) \<ge> MAX_DATAGRAMS")
  case True
  then have "ra_partials r \<noteq> []" by (auto simp: MAX_DATAGRAMS_def)
  then obtain e where e: "min_by_key (\<lambda>e. pa_started (snd e)) (ra_partials r) = Some e"
    by (metis min_by_key_None not_None_eq)
  then have in_r: "e \<in> set (ra_partials r)" by (rule min_by_key_in)
  then have "map_of (ra_partials r) (fst e) \<noteq> None" by (simp add: map_of_eq_None_iff)
  with e True assms(2) have "ra_partials (evict_oldest key r) = AList.delete (fst e) (ra_partials r)"
    by (auto simp: evict_oldest_def discard_def)
  moreover have "length (AList.delete (fst e) (ra_partials r)) < length (ra_partials r)"
    using in_r by (auto simp: AList.delete_eq intro!: length_filter_less)
  ultimately show ?thesis using assms(1) by (auto simp: reassembler_ok_def)
next
  case False
  then show ?thesis by (simp add: evict_oldest_def)
qed

definition fresh_partial :: "instant \<Rightarrow> Partial" where
  "fresh_partial now = \<lparr>pa_started = now, pa_header = None, pa_pieces = [], pa_end = None\<rparr>"

lemma store_fresh_ok:
  assumes "reassembler_ok r" and "map_of (ra_partials r) key = None"
  shows "reassembler_ok (store key (fresh_partial now) (evict_oldest key r))"
  using assms evict_oldest_room [OF assms]
  by (intro store_ok evict_oldest_ok) (simp_all add: partial_ok_def fresh_partial_def)

lemma store_lookup [simp]: "map_of (ra_partials (store key p r)) key = Some p"
  by (simp add: store_def update_conv)

lemma push_cases:
  obtains (dropped) n where "push packet now r = ((expire_partials now r)\<lparr>ra_discarded := n\<rparr>, None)"
  | (given_up) "push packet now r = (discard (datagram_key packet) (expire_partials now r), None)"
  | (known) hl mf off c p where "20 \<le> hl" "hl \<le> length packet"
      "map_of (ra_partials (evict_oldest (datagram_key packet) (expire_partials now r))) (datagram_key packet) = Some p"
      "push packet now r = push_piece (datagram_key packet) p (take hl packet) mf off c
        (evict_oldest (datagram_key packet) (expire_partials now r))"
  | (new) hl mf off c where "20 \<le> hl" "hl \<le> length packet"
      "map_of (ra_partials (expire_partials now r)) (datagram_key packet) = None"
      "push packet now r = push_piece (datagram_key packet) (fresh_partial now) (take hl packet) mf off c
        (store (datagram_key packet) (fresh_partial now) (evict_oldest (datagram_key packet) (expire_partials now r)))"
proof -
  define hl where "hl = unat (packet ! 0 AND 0x0f) * 4"
  define tl where "tl = unat (word_at packet 2)"
  define off where "off = unat (frag_flags packet AND OFFSET_MASK) * 8"
  define mf where "mf = (frag_flags packet AND MORE_FRAGMENTS \<noteq> 0)"
  define c where "c = subslice hl tl packet"
  let ?bad = "hl < 20 \<or> tl < hl \<or> tl > length packet"
  let ?odd = "(mf \<and> length c mod 8 \<noteq> 0) \<or> hl + (off + length c) > MAX_DATAGRAM_LENGTH"
  note push_eq = push_def [of packet now r, unfolded Let_def, folded hl_def tl_def off_def mf_def, folded c_def fresh_partial_def]
  consider "?bad" | "\<not> ?bad" "?odd" | "\<not> ?bad" "\<not> ?odd" by blast
  then show thesis
  proof cases
    case 1
    then show thesis using dropped by (simp add: push_eq)
  next
    case 2
    then show thesis using given_up by (simp add: push_eq)
  next
    case 3
    then have hl: "20 \<le> hl" "hl \<le> length packet" by auto
    show thesis
    proof (cases "map_of (ra_partials (evict_oldest (datagram_key packet) (expire_partials now r))) (datagram_key packet)")
      case None
      then have "map_of (ra_partials (expire_partials now r)) (datagram_key packet) = None"
        by (simp add: evict_oldest_keeps)
      moreover have "push packet now r = push_piece (datagram_key packet) (fresh_partial now) (take hl packet) mf off c
          (store (datagram_key packet) (fresh_partial now) (evict_oldest (datagram_key packet) (expire_partials now r)))"
        using 3 None unfolding push_eq by auto
      ultimately show thesis by (rule new [OF hl])
    next
      case (Some p)
      moreover have "push packet now r = push_piece (datagram_key packet) p (take hl packet) mf off c
          (evict_oldest (datagram_key packet) (expire_partials now r))"
        using 3 Some unfolding push_eq by auto
      ultimately show thesis by (rule known [OF hl])
    qed
  qed
qed

lemma push_ok:
  assumes "reassembler_ok r"
  shows "reassembler_ok (fst (push packet now r))"
proof -
  let ?r = "expire_partials now r" and ?key = "datagram_key packet"
  have r: "reassembler_ok ?r" by (rule expire_ok [OF assms])
  show ?thesis
  proof (cases rule: push_cases [of packet now r])
    case (dropped n)
    then show ?thesis using r by (simp add: reassembler_ok_def)
  next
    case given_up
    then show ?thesis using discard_ok [OF r] by simp
  next
    case (known hl mf off c p)
    then show ?thesis using push_piece_ok [OF evict_oldest_ok [OF r] known(3)] by simp
  next
    case (new hl mf off c)
    then show ?thesis using push_piece_ok [OF store_fresh_ok [OF r new(3)] store_lookup] by simp
  qed
qed

interpretation reassembler: component reassembler_default "\<lambda>e. fst \<circ> push (fst e) (snd e)" reassembler_ok
  by unfold_locales (simp_all add: reassembler_default_ok push_ok)

text \<open>
  The reassembler's memory is bounded: whatever fragments arrive at whatever times, it holds at
  most 64 incomplete datagrams of at most 64 pieces each, one entry per datagram and one piece per
  offset.
\<close>

theorem reassembler_bounded:
  "length (ra_partials (fold (\<lambda>e. fst \<circ> push (fst e) (snd e)) arrivals reassembler_default)) \<le> 64
    \<and> distinct (map fst (ra_partials (fold (\<lambda>e. fst \<circ> push (fst e) (snd e)) arrivals reassembler_default)))
    \<and> list_all (\<lambda>e. length (pa_pieces (snd e)) \<le> 64 \<and> distinct (map fst (pa_pieces (snd e))))
        (ra_partials (fold (\<lambda>e. fst \<circ> push (fst e) (snd e)) arrivals reassembler_default))"
  using reassembler.run_inv [of arrivals]
  by (simp add: reassembler_ok_def partial_ok_def MAX_DATAGRAMS_def MAX_FRAGMENTS_PER_DATAGRAM_def list_all_iff)

subsection \<open>Coverage\<close>

lemma pieces_from_start: "q \<in> set (pieces_from c cs) \<Longrightarrow> c \<le> fst q"
  by (induction cs arbitrary: c) fastforce+

lemma pieces_from_sorted:
  "\<forall>x \<in> set cs. x \<noteq> [] \<Longrightarrow> sorted_wrt (<) (map fst (pieces_from c cs))"
proof (induction cs arbitrary: c)
  case (Cons x cs)
  moreover have "c < fst q" if "q \<in> set (pieces_from (c + length x) cs)" for q
    using pieces_from_start [OF that] Cons.prems by (cases x) auto
  ultimately show ?case by auto
qed simp

lemma snd_pieces_from [simp]: "map snd (pieces_from c cs) = cs"
  by (induction cs arbitrary: c) simp_all

lemma pieces_from_Nil [simp]: "pieces_from c cs = [] \<longleftrightarrow> cs = []"
  by (cases cs) simp_all

lemma pieces_from_last:
  "cs \<noteq> [] \<Longrightarrow> fst (last (pieces_from c cs)) + length (snd (last (pieces_from c cs))) = c + length (concat cs)"
proof (induction cs arbitrary: c)
  case (Cons x cs)
  then show ?case by (cases "cs = []") simp_all
qed simp

lemma cover_all: "cover c (pieces_from c cs) = Covered (c + length (concat cs))"
  by (induction cs arbitrary: c) (simp_all add: add.assoc)

lemma cover_missing:
  assumes "\<forall>x \<in> set cs. x \<noteq> []" and "cs \<noteq> []" and "P (last (pieces_from c cs))"
    and "\<exists>q \<in> set (pieces_from c cs). \<not> P q"
  shows "cover c (filter P (pieces_from c cs)) = Gap"
  using assms
proof (induction cs arbitrary: c)
  case (Cons x cs)
  show ?case
  proof (cases "cs = []")
    case True
    with Cons.prems show ?thesis by simp
  next
    case False
    then have ne: "pieces_from (c + length x) cs \<noteq> []" by (cases cs) simp_all
    show ?thesis
    proof (cases "P (c, x)")
      case True
      then show ?thesis using Cons False ne by simp
    next
      case out: False
      let ?rest = "filter P (pieces_from (c + length x) cs)"
      have "last (pieces_from (c + length x) cs) \<in> set ?rest" using Cons.prems(3) ne by simp
      then obtain q qs where q: "?rest = q # qs" by (cases ?rest) auto
      then have "q \<in> set ?rest" by simp
      then have "q \<in> set (pieces_from (c + length x) cs)" by simp
      then have "c + length x \<le> fst q" by (rule pieces_from_start)
      moreover have "length x > 0" using Cons.prems(1) by simp
      ultimately have "c < fst q" by linarith
      then show ?thesis using out q by (cases q) simp
    qed
  qed
qed simp

lemma sorted_pieces:
  assumes "sorted_wrt (<) (map fst L)" and "set ps \<subseteq> set L" and "distinct (map fst ps)"
  shows "sort_key fst ps = filter (\<lambda>q. q \<in> set ps) (L :: (nat \<times> bytes) list)"
proof -
  have sorted: "sorted (map fst L)" and dist: "distinct (map fst L)"
    using assms(1) strict_sorted_iff [of "map fst L"] by auto
  have "inj_on fst (set L)" using dist by (simp add: distinct_map)
  then have "inj_on fst (set (sort_key fst ps) \<union> set (filter (\<lambda>q. q \<in> set ps) L))"
    using assms(2) by (auto elim: inj_on_subset)
  moreover have "set (sort_key fst ps) = set (filter (\<lambda>q. q \<in> set ps) L)" using assms(2) by auto
  moreover have "distinct (map fst (sort_key fst ps))" using assms(3) by (simp add: distinct_map)
  moreover have "sorted (map fst (filter (\<lambda>q. q \<in> set ps) L))" by (rule sorted_filter [OF sorted])
  moreover have "distinct (map fst (filter (\<lambda>q. q \<in> set ps) L))" by (rule distinct_map_filter [OF dist])
  moreover have "sorted (map fst (sort_key fst ps))" by simp
  ultimately show ?thesis by (intro map_sorted_distinct_set_unique)
qed

subsection \<open>A split datagram\<close>

definition datagram_wf :: "bytes \<Rightarrow> bool" where
  "datagram_wf packet \<longleftrightarrow> length packet \<ge> 20 \<and> packet ! 0 = 0x45 \<and> unat (word_at packet 2) = length packet
     \<and> frag_flags packet \<in> {0, DONT_FRAGMENT}
     \<and> subslice 10 12 packet = be16 (internet_checksum (put 10 [0, 0] (take 20 packet)))"

definition split_size :: "nat \<Rightarrow> nat" where
  "split_size mtu = (mtu - 20) div 8 * 8"

definition split_payloads :: "bytes \<Rightarrow> nat \<Rightarrow> bytes list" where
  "split_payloads packet mtu = chunks (split_size mtu) (drop 20 packet)"

definition piece_flags :: "bytes \<Rightarrow> nat \<Rightarrow> nat \<Rightarrow> u16" where
  "piece_flags packet mtu i = frag_flags packet OR of_nat (i * split_size mtu div 8)
     OR (if i + 1 \<noteq> length (split_payloads packet mtu) then MORE_FRAGMENTS else 0)"

lemma split_layout:
  assumes "datagram_wf packet" and "split_for_tunnel packet mtu = Some pieces"
  shows "split_size mtu > 0" and "8 dvd split_size mtu" and "length pieces = length (split_payloads packet mtu)"
    and "i < length pieces \<Longrightarrow> pieces ! i = make_piece packet (split_payloads packet mtu ! i) (piece_flags packet mtu i)"
proof -
  have mtu: "mtu \<ge> 28" using assms(2) by (auto simp: split_for_tunnel_def split: if_splits)
  then show size: "split_size mtu > 0" by (simp add: split_size_def div_greater_zero_iff)
  show "8 dvd split_size mtu" by (simp add: split_size_def)
  have wf: "length packet \<ge> 20" "unat (word_at packet 2) = length packet" "frag_flags packet \<in> {0, DONT_FRAGMENT}"
    using assms(1) by (auto simp: datagram_wf_def)
  have fl: "frag_flags packet AND OFFSET_MASK = 0" "frag_flags packet AND MORE_FRAGMENTS = 0"
    "frag_flags packet AND DONT_FRAGMENT = frag_flags packet"
    using wf(3) by (auto simp: OFFSET_MASK_def MORE_FRAGMENTS_def DONT_FRAGMENT_def)
  have payload: "subslice 20 (length packet) packet = drop 20 packet" by (simp add: subslice_def)
  have count: "(length (drop 20 packet) + split_size mtu - 1) div split_size mtu = length (split_payloads packet mtu)"
    using size by (simp add: split_payloads_def length_chunks)
  have eq: "pieces = map (\<lambda>(i, piece). make_piece packet piece (piece_flags packet mtu i))
      (enumerate 0 (split_payloads packet mtu))"
    using assms(2) wf(2) fl payload count [unfolded split_size_def split_payloads_def]
    by (auto simp: split_for_tunnel_def Let_def piece_flags_def split_payloads_def split_size_def
        simp del: length_drop split: if_splits)
  then show "length pieces = length (split_payloads packet mtu)" by simp
  then show "i < length pieces \<Longrightarrow>
      pieces ! i = make_piece packet (split_payloads packet mtu ! i) (piece_flags packet mtu i)"
    using eq by (simp add: nth_enumerate_eq)
qed

lemma word_at_sub: "i + 2 \<le> length xs \<Longrightarrow> subslice i (i + 2) xs = be16 (word_at xs i)"
proof -
  assume i: "i + 2 \<le> length xs"
  then have "subslice i (i + 2) xs = [xs ! i, xs ! (i + 1)]"
    using subslice_join [of i "i + 1" "i + 2" xs] subslice_one [of i xs] subslice_one [of "i + 1" xs] by simp
  then show ?thesis by (simp add: word_at_def be16_of_be16)
qed

lemma word_at_eqI: "i + 2 \<le> length xs \<Longrightarrow> subslice i (i + 2) xs = be16 w \<Longrightarrow> word_at xs i = w"
  using word_at_sub [of i xs] by simp

lemma and_high_bit: "\<not> bit w k \<Longrightarrow> w AND push_bit k 1 = (0 :: 'a::len word)"
  by (rule bit_word_eqI) (auto simp: bit_and_iff bit_exp_iff)

lemma flag_bits:
  assumes "df \<in> {0, DONT_FRAGMENT}" and "mf \<in> {0, MORE_FRAGMENTS}" and "off < 8192"
  shows "unat ((df OR of_nat off OR mf) AND OFFSET_MASK) = off"
    and "(df OR of_nat off OR mf) AND MORE_FRAGMENTS = mf"
    and "(df OR of_nat off OR mf) AND DONT_FRAGMENT = df"
proof -
  have small: "unat (of_nat off :: u16) = off" using assms(3) by (simp add: unat_of_nat)
  have masks: "OFFSET_MASK = mask 13" "MORE_FRAGMENTS = push_bit 13 1" "DONT_FRAGMENT = push_bit 14 1"
    by (simp_all add: OFFSET_MASK_def MORE_FRAGMENTS_def DONT_FRAGMENT_def mask_eq_exp_minus_1)
  have "take_bit 13 (of_nat off :: u16) = of_nat off"
    unfolding word_unat_eq_iff unsigned_take_bit_eq small using assms(3) by (simp add: take_bit_nat_eq_self)
  then have o1: "of_nat off AND OFFSET_MASK = (of_nat off :: u16)" by (simp only: masks take_bit_eq_mask)
  have hi: "\<not> bit (of_nat off :: u16) n" if "n \<ge> 13" for n
    using that arg_cong [OF \<open>take_bit 13 (of_nat off :: u16) = of_nat off\<close>, of "\<lambda>w. bit w n"]
    by (simp add: bit_take_bit_iff)
  have o2: "of_nat off AND MORE_FRAGMENTS = (0 :: u16)" "of_nat off AND DONT_FRAGMENT = (0 :: u16)"
    unfolding masks by (rule and_high_bit, rule hi, simp)+
  have c: "df AND OFFSET_MASK = 0" "mf AND OFFSET_MASK = 0" "df AND MORE_FRAGMENTS = 0"
    "mf AND MORE_FRAGMENTS = mf" "df AND DONT_FRAGMENT = df" "mf AND DONT_FRAGMENT = 0"
    using assms(1,2) by (auto simp: OFFSET_MASK_def MORE_FRAGMENTS_def DONT_FRAGMENT_def)
  show "unat ((df OR of_nat off OR mf) AND OFFSET_MASK) = off"
    "(df OR of_nat off OR mf) AND MORE_FRAGMENTS = mf" "(df OR of_nat off OR mf) AND DONT_FRAGMENT = df"
    by (simp_all add: bit.conj_disj_distrib2 c o1 o2 small)
qed

text \<open>What \<open>push\<close> reads out of the \<open>i\<close>-th piece.\<close>

lemma piece_reads:
  assumes "datagram_wf packet" and "split_for_tunnel packet mtu = Some pieces" and "i < length pieces"
  defines "f \<equiv> pieces ! i" and "c \<equiv> split_payloads packet mtu ! i"
  shows "length f = 20 + length c" and "f ! 0 = 0x45" and "unat (word_at f 2) = length f"
    and "unat (frag_flags f AND OFFSET_MASK) * 8 = i * split_size mtu"
    and "frag_flags f AND MORE_FRAGMENTS \<noteq> 0 \<longleftrightarrow> i + 1 \<noteq> length pieces"
    and "frag_flags f AND DONT_FRAGMENT = frag_flags packet"
    and "drop 20 f = c" and "datagram_key f = datagram_key packet"
    and "i * split_size mtu + length c \<le> length packet - 20" and "i + 1 \<noteq> length pieces \<Longrightarrow> length c mod 8 = 0"
proof -
  note layout = split_layout [OF assms(1,2)]
  have wf: "length packet \<ge> 20" "frag_flags packet \<in> {0, DONT_FRAGMENT}" "packet ! 0 = 0x45"
    "unat (word_at packet 2) = length packet"
    using assms(1) by (auto simp: datagram_wf_def)
  then have max: "length packet \<le> 65535" using unat_u16_less [of "word_at packet 2"] by linarith
  have i: "i < length (chunks (split_size mtu) (drop 20 packet))"
    using assms(3) layout(3) by (simp add: split_payloads_def)
  show bound: "i * split_size mtu + length c \<le> length packet - 20"
    using chunk_start_bound [OF layout(1) i] by (simp add: c_def split_payloads_def)
  have f: "f = make_piece packet c (piece_flags packet mtu i)" using layout(4) assms(3) by (simp add: f_def c_def)
  have small: "length c \<le> 65515" using bound max by simp
  note reads = make_piece_reads [OF wf(1) small, where flags = "piece_flags packet mtu i", folded f]
  show len: "length f = 20 + length c" and "drop 20 f = c" by (rule reads)+
  show "f ! 0 = 0x45" using reads(2) [of 0] wf(3) by simp
  have "word_at f 2 = of_nat (20 + length c)" using reads(3) len by (intro word_at_eqI) simp_all
  then show "unat (word_at f 2) = length f" using small len by (simp add: unat_of_nat del: of_nat_add)
  have "word_at f 6 = piece_flags packet mtu i" using reads(4) len by (intro word_at_eqI) simp_all
  then have flags: "frag_flags f = piece_flags packet mtu i" by (simp add: frag_flags_def word_at_def)
  obtain k where k: "split_size mtu = 8 * k" using layout(2) by (auto elim: dvdE)
  have off: "i * split_size mtu div 8 * 8 = i * split_size mtu" by (simp add: k)
  have "i * split_size mtu div 8 < 8192" using bound max off by linarith
  note bits = flag_bits [OF wf(2) _ this, of "if i + 1 \<noteq> length (split_payloads packet mtu) then MORE_FRAGMENTS else 0"]
  show "unat (frag_flags f AND OFFSET_MASK) * 8 = i * split_size mtu"
    "frag_flags f AND MORE_FRAGMENTS \<noteq> 0 \<longleftrightarrow> i + 1 \<noteq> length pieces"
    "frag_flags f AND DONT_FRAGMENT = frag_flags packet"
    using bits off layout(3) unfolding flags piece_flags_def
    by (auto simp: MORE_FRAGMENTS_def split: if_splits)
  show "i + 1 \<noteq> length pieces \<Longrightarrow> length c mod 8 = 0"
    using chunk_full [OF layout(1), of i "drop 20 packet"] i layout(3) k by (simp add: c_def split_payloads_def)
  have addr: "subslice a b f = subslice a b packet" if "12 \<le> a" "a \<le> b" "b \<le> 20" for a b
  proof -
    have "subslice a b xs = subslice (a - 12) (b - 12) (subslice 12 20 xs)" for xs :: bytes
      using that by (simp add: subslice_def take_drop min_def)
    then show ?thesis using reads(5) by simp
  qed
  show "datagram_key f = datagram_key packet"
    using reads(2) [of 9] reads(2) [of 4] reads(2) [of 5] by (simp add: datagram_key_def addr)
qed

subsection \<open>Collecting the pieces\<close>

text \<open>The entry of a datagram of which exactly the pieces \<open>S\<close> have arrived.\<close>

definition collected :: "bytes \<Rightarrow> nat \<Rightarrow> bytes list \<Rightarrow> nat set \<Rightarrow> Partial \<Rightarrow> bool" where
  "collected packet mtu pieces S p \<longleftrightarrow> S \<subseteq> {..<length pieces}
     \<and> set (pa_pieces p) = (\<lambda>i. (i * split_size mtu, split_payloads packet mtu ! i)) ` S
     \<and> distinct (map fst (pa_pieces p))
     \<and> pa_header p = (if 0 \<in> S then Some (take 20 (pieces ! 0)) else None)
     \<and> pa_end p = (if length pieces - 1 \<in> S then Some (length packet - 20) else None)"

lemma collected_length:
  assumes "collected packet mtu pieces S p"
  shows "length (pa_pieces p) \<le> length pieces"
proof -
  have "distinct (pa_pieces p)" using assms by (auto simp: collected_def distinct_map)
  then have "length (pa_pieces p) = card (set (pa_pieces p))" by (simp add: distinct_card)
  also have "\<dots> \<le> card S"
    using assms card_image_le finite_subset unfolding collected_def by (metis finite_lessThan)
  also have "\<dots> \<le> length pieces"
    using assms card_mono [of "{..<length pieces}" S] by (simp add: collected_def)
  finally show ?thesis .
qed

lemma nth_split_pieces:
  assumes "datagram_wf packet" and "split_for_tunnel packet mtu = Some pieces" and "i < length pieces"
  shows "pieces_from 0 (split_payloads packet mtu) ! i = (i * split_size mtu, split_payloads packet mtu ! i)"
proof -
  note layout = split_layout [OF assms(1,2)]
  have "pieces_from 0 (split_payloads packet mtu) =
      map (\<lambda>(i, x). (0 + i * split_size mtu, x)) (enumerate 0 (split_payloads packet mtu))"
    unfolding split_payloads_def by (rule pieces_from_chunks [OF layout(1)])
  then show ?thesis using assms(3) layout(3) by (simp add: nth_enumerate_eq)
qed

lemma last_piece_end:
  assumes "datagram_wf packet" and "split_for_tunnel packet mtu = Some pieces" and "pieces \<noteq> []"
  shows "(length pieces - 1) * split_size mtu + length (split_payloads packet mtu ! (length pieces - 1)) = length packet - 20"
proof -
  note layout = split_layout [OF assms(1,2)]
  let ?cs = "split_payloads packet mtu"
  have ne: "?cs \<noteq> []" using assms(3) layout(3) by auto
  then have "last (pieces_from 0 ?cs) = pieces_from 0 ?cs ! (length ?cs - 1)"
    by (subst last_conv_nth) (auto dest: arg_cong [of _ _ length])
  then have "last (pieces_from 0 ?cs) = ((length pieces - 1) * split_size mtu, ?cs ! (length pieces - 1))"
    using nth_split_pieces [OF assms(1,2), of "length pieces - 1"] ne layout(3) by simp
  with pieces_from_last [OF ne, of 0]
  have "(length pieces - 1) * split_size mtu + length (?cs ! (length pieces - 1)) = length (concat ?cs)"
    by simp
  then show ?thesis using concat_chunks [OF layout(1), of "drop 20 packet"] by (simp add: split_payloads_def)
qed

lemma collected_insert:
  assumes "datagram_wf packet" and "split_for_tunnel packet mtu = Some pieces" and "i < length pieces"
    and "collected packet mtu pieces S p" and "i \<notin> S"
  shows "collected packet mtu pieces (insert i S)
    (with_piece (take 20 (pieces ! i)) (i + 1 \<noteq> length pieces) (i * split_size mtu) (split_payloads packet mtu ! i) p)"
proof -
  note layout = split_layout [OF assms(1,2)]
  have "pieces \<noteq> []" using assms(3) by auto
  have starts: "i * split_size mtu \<notin> fst ` set (pa_pieces p)"
    using assms(4,5) layout(1) by (auto simp: collected_def)
  have "i + 1 = length pieces \<Longrightarrow> i * split_size mtu + length (split_payloads packet mtu ! i) = length packet - 20"
    using last_piece_end [OF assms(1,2) \<open>pieces \<noteq> []\<close>] by (metis add_diff_cancel_right')
  moreover have "i * split_size mtu = 0 \<longleftrightarrow> i = 0" using layout(1) by simp
  moreover have "i + 1 \<noteq> length pieces \<longleftrightarrow> length pieces - 1 \<noteq> i" using assms(3) by auto
  ultimately show ?thesis
    using assms(3,4) starts by (auto simp: collected_def with_piece_def)
qed

lemma collected_known:
  assumes "datagram_wf packet" and "split_for_tunnel packet mtu = Some pieces"
    and "collected packet mtu pieces S p"
  shows "find (\<lambda>q. fst q = i * split_size mtu) (pa_pieces p) =
    (if i \<in> S then Some (i * split_size mtu, split_payloads packet mtu ! i) else None)"
proof -
  note layout = split_layout [OF assms(1,2)]
  have ps: "q \<in> set (pa_pieces p) \<Longrightarrow> fst q = i * split_size mtu \<Longrightarrow> i \<in> S \<and> q = (i * split_size mtu, split_payloads packet mtu ! i)" for q
    using assms(3) layout(1) by (auto simp: collected_def)
  show ?thesis
  proof (cases "find (\<lambda>q. fst q = i * split_size mtu) (pa_pieces p)")
    case None
    then have "i \<notin> S" using assms(3) by (auto simp: find_None_iff collected_def)
    with None show ?thesis by simp
  next
    case (Some q)
    then have "q \<in> set (pa_pieces p)" "fst q = i * split_size mtu"
      unfolding find_Some_iff by auto
    with ps Some show ?thesis by auto
  qed
qed

lemma collected_sorted:
  assumes "datagram_wf packet" and "split_for_tunnel packet mtu = Some pieces"
    and "collected packet mtu pieces S p"
  shows "sort_key fst (pa_pieces p) =
    filter (\<lambda>q. q \<in> set (pa_pieces p)) (pieces_from 0 (split_payloads packet mtu))"
proof (rule sorted_pieces)
  note layout = split_layout [OF assms(1,2)]
  show "sorted_wrt (<) (map fst (pieces_from 0 (split_payloads packet mtu)))"
    using chunks_nonempty [OF layout(1)] by (intro pieces_from_sorted) (auto simp: split_payloads_def)
  show "distinct (map fst (pa_pieces p))" using assms(3) by (simp add: collected_def)
  show "set (pa_pieces p) \<subseteq> set (pieces_from 0 (split_payloads packet mtu))"
  proof
    fix q assume "q \<in> set (pa_pieces p)"
    then obtain i where i: "i < length pieces" "q = (i * split_size mtu, split_payloads packet mtu ! i)"
      using assms(3) by (auto simp: collected_def)
    then have "q = pieces_from 0 (split_payloads packet mtu) ! i" using nth_split_pieces [OF assms(1,2)] by simp
    then show "q \<in> set (pieces_from 0 (split_payloads packet mtu))" using i layout(3) by simp
  qed
qed

lemma distinct_sort_key: "distinct (map f xs) \<Longrightarrow> distinct (map f (sort_key g xs))"
  by (simp add: distinct_map)

lemma collected_sort:
  "collected packet mtu pieces S p \<Longrightarrow> collected packet mtu pieces S (p\<lparr>pa_pieces := sort_key fst (pa_pieces p)\<rparr>)"
  by (simp add: collected_def distinct_sort_key)

lemma split_pieces_set:
  assumes "datagram_wf packet" and "split_for_tunnel packet mtu = Some pieces"
  shows "set (pieces_from 0 (split_payloads packet mtu)) =
    (\<lambda>i. (i * split_size mtu, split_payloads packet mtu ! i)) ` {..<length pieces}"
proof -
  have "set xs = (\<lambda>i. xs ! i) ` {..<length xs}" for xs :: "(nat \<times> bytes) list"
    by (auto simp: set_conv_nth)
  from this [of "pieces_from 0 (split_payloads packet mtu)"] show ?thesis
    using nth_split_pieces [OF assms] split_layout(3) [OF assms] by (auto simp: image_iff)
qed

lemma whole_is_packet:
  assumes "datagram_wf packet" and "split_for_tunnel packet mtu = Some pieces" and "pieces \<noteq> []"
  shows "whole_datagram (take 20 (pieces ! 0)) (pieces_from 0 (split_payloads packet mtu)) = packet"
proof -
  note layout = split_layout [OF assms(1,2)]
  have z: "0 < length pieces" using assms(3) by simp
  note reads = piece_reads [OF assms(1,2) z]
  let ?h = "take 20 (pieces ! 0)" and ?z = "put 10 [0, 0] (take 20 packet)"
  have wf: "length packet \<ge> 20" "unat (word_at packet 2) = length packet"
    "subslice 10 12 packet = be16 (internet_checksum ?z)"
    using assms(1) by (auto simp: datagram_wf_def)
  have h: "length ?h = 20" using reads(1) by simp
  have payload: "concat (split_payloads packet mtu) = drop 20 packet"
    using concat_chunks [OF layout(1), of "drop 20 packet"] by (simp add: split_payloads_def)
  have df: "frag_flags ?h AND DONT_FRAGMENT = frag_flags packet"
    using reads(6) reads(1) by (simp add: frag_flags_def)
  have w: "be16 (of_nat (length packet)) = subslice 2 4 packet" "be16 (frag_flags packet) = subslice 6 8 packet"
    using word_at_sub [of 2 packet] word_at_sub [of 6 packet] wf
    by (auto simp: frag_flags_def word_at_def word_unat_eq_iff) (metis of_nat_unat ucast_id wf(2))+
  have same: "i < 20 \<Longrightarrow> i \<notin> {2, 3, 6, 7, 10, 11} \<Longrightarrow> ?h ! i = packet ! i" for i
    using layout(4) [OF z] make_piece_reads(2) [OF wf(1)] piece_reads(9) [OF assms(1,2) z] unat_u16_less [of "word_at packet 2"] wf(2)
    by simp
  have header: "put 10 [0, 0] (put 6 (be16 (frag_flags packet)) (put 2 (be16 (of_nat (length packet))) ?h)) = ?z"
  proof (rule nth_equalityI)
    fix i assume "i < length (put 10 [0, 0] (put 6 (be16 (frag_flags packet)) (put 2 (be16 (of_nat (length packet))) ?h)))"
    then have i: "i < 20" using h by simp
    consider "i = 2" | "i = 3" | "i = 6" | "i = 7" | "i = 10" | "i = 11" | "i \<notin> {2, 3, 6, 7, 10, 11}" by blast
    then show "put 10 [0, 0] (put 6 (be16 (frag_flags packet)) (put 2 (be16 (of_nat (length packet))) ?h)) ! i = ?z ! i"
      using i h wf(1) same [OF i] by cases (auto simp: nth_put w nth_subslice)
  qed (use h wf(1) in simp)
  have "put 10 (be16 (internet_checksum ?z)) ?z = take 20 packet"
    using wf(1,3) put_same [of 10 "be16 (internet_checksum ?z)" "take 20 packet"]
      put_put [of 10 "[0, 0]" "take 20 packet" "be16 (internet_checksum ?z)"]
    by (simp add: subslice_def take_drop)
  moreover have len: "length (?h @ drop 20 packet) = length packet" using h wf(1) by simp
  ultimately show ?thesis
    using h wf(1) unfolding whole_datagram_def Let_def snd_pieces_from payload df len
    by (simp add: put_append_left header)
qed

text \<open>What adding one piece of the datagram to its entry does.\<close>

lemma push_piece_collects:
  assumes "datagram_wf packet" and "split_for_tunnel packet mtu = Some pieces" and "length pieces \<le> 64"
    and "i < length pieces" and "collected packet mtu pieces S p" and "map_of (ra_partials r) key = Some p"
  defines "pushed \<equiv> push_piece key p (take 20 (pieces ! i)) (i + 1 \<noteq> length pieces) (i * split_size mtu)
    (split_payloads packet mtu ! i) r"
  shows "i \<in> S \<Longrightarrow> pushed = (r, None)"
    and "i \<notin> S \<Longrightarrow> insert i S \<noteq> {..<length pieces} \<Longrightarrow>
      \<exists>p'. pushed = (store key p' r, None) \<and> collected packet mtu pieces (insert i S) p' \<and> pa_started p' = pa_started p"
    and "i \<notin> S \<Longrightarrow> insert i S = {..<length pieces} \<Longrightarrow> snd pushed = Some packet"
proof -
  note found = collected_known [OF assms(1,2,5), of i]
  show "i \<in> S \<Longrightarrow> pushed = (r, None)" using found by (simp add: pushed_def push_piece_def)
  let ?q = "with_piece (take 20 (pieces ! i)) (i + 1 \<noteq> length pieces) (i * split_size mtu) (split_payloads packet mtu ! i) p"
  let ?L = "pieces_from 0 (split_payloads packet mtu)"
  assume new: "i \<notin> S"
  have q: "collected packet mtu pieces (insert i S) ?q" by (rule collected_insert [OF assms(1,2,4,5) new])
  have few: "length (pa_pieces ?q) \<le> 64" using collected_length [OF q] assms(3) by simp
  have "i + 1 = length pieces \<Longrightarrow> length pieces - 1 = i" by simp
  then have "\<not> (\<not> (i + 1 \<noteq> length pieces) \<and> pa_end p \<noteq> None)" using assms(5) new by (auto simp: collected_def)
  then have pushed: "pushed = complete_datagram key ?q (store key ?q r)"
    using found new by (auto simp: pushed_def push_piece_def Let_def)
  have started: "pa_started ?q = pa_started p" by (simp add: with_piece_def)
  have ends: "pa_header ?q = (if 0 \<in> insert i S then Some (take 20 (pieces ! 0)) else None)"
    "pa_end ?q = (if length pieces - 1 \<in> insert i S then Some (length packet - 20) else None)"
    using q by (simp_all add: collected_def)
  have "0 < length pieces" using assms(4) by linarith
  then have h20: "length (take 20 (pieces ! 0)) = 20"
    using piece_reads(1) [OF assms(1,2), of 0] by simp
  have size: "20 + (length packet - 20) \<le> MAX_DATAGRAM_LENGTH"
    using assms(1) unat_u16_less [of "word_at packet 2"] by (auto simp: datagram_wf_def MAX_DATAGRAM_LENGTH_def)
  have nonempty: "\<forall>x \<in> set (split_payloads packet mtu). x \<noteq> []"
    using chunks_nonempty split_layout(1) [OF assms(1,2)] by (auto simp: split_payloads_def)
  have ne: "split_payloads packet mtu \<noteq> []" using assms(4) split_layout(3) [OF assms(1,2)] by auto
  note sorted = collected_sorted [OF assms(1,2) q]
  have inL: "(j * split_size mtu, split_payloads packet mtu ! j) \<in> set (pa_pieces ?q) \<longleftrightarrow> j \<in> insert i S" for j
    using q split_layout(1) [OF assms(1,2)] by (auto simp: collected_def)
  show "\<exists>p'. pushed = (store key p' r, None) \<and> collected packet mtu pieces (insert i S) p' \<and> pa_started p' = pa_started p"
    if partial: "insert i S \<noteq> {..<length pieces}"
  proof (cases "0 \<in> insert i S \<and> length pieces - 1 \<in> insert i S")
    case True
    obtain j where j: "j < length pieces" "j \<notin> insert i S"
      using partial assms(4,5) by (auto simp: collected_def)
    have "last ?L = ?L ! (length pieces - 1)"
      using ne split_layout(3) [OF assms(1,2)] by (simp add: last_conv_nth)
    then have "last ?L \<in> set (pa_pieces ?q)"
      using nth_split_pieces [OF assms(1,2), of "length pieces - 1"] assms(4) True inL by simp
    moreover have "\<exists>x \<in> set ?L. x \<notin> set (pa_pieces ?q)"
      using j inL [of j] split_pieces_set [OF assms(1,2)] by auto
    ultimately have "cover 0 (sort_key fst (pa_pieces ?q)) = Gap"
      unfolding sorted by (intro cover_missing [OF nonempty ne])
    then have "pushed = (store key (?q\<lparr>pa_pieces := sort_key fst (pa_pieces ?q)\<rparr>) r, None)"
      using True few ends h20 size
      by (simp add: pushed complete_datagram_def MAX_FRAGMENTS_PER_DATAGRAM_def Let_def del: length_take)
    moreover have "collected packet mtu pieces (insert i S) (?q\<lparr>pa_pieces := sort_key fst (pa_pieces ?q)\<rparr>)"
      using q by (rule collected_sort)
    ultimately show ?thesis using started by auto
  next
    case False
    then have "pushed = (store key ?q r, None)"
      using few ends by (auto simp: pushed complete_datagram_def MAX_FRAGMENTS_PER_DATAGRAM_def split: option.splits)
    then show ?thesis using q started by auto
  qed
  show "snd pushed = Some packet" if all: "insert i S = {..<length pieces}"
  proof -
    have "filter (\<lambda>q. q \<in> set (pa_pieces ?q)) ?L = ?L"
      using q all split_pieces_set [OF assms(1,2)] by (auto simp: filter_id_conv collected_def)
    moreover have "concat (split_payloads packet mtu) = drop 20 packet"
      using concat_chunks split_layout(1) [OF assms(1,2)] by (simp add: split_payloads_def)
    moreover have "0 \<in> insert i S" "length pieces - 1 \<in> insert i S"
      unfolding all lessThan_iff using assms(4) by linarith+
    then have "pa_header ?q = Some (take 20 (pieces ! 0))" "pa_end ?q = Some (length packet - 20)"
      by (simp_all only: ends if_True)
    moreover have "sort_key fst (pa_pieces ?q) = ?L" using sorted calculation(1) by simp
    moreover have "cover 0 ?L = Covered (length packet - 20)"
      using cover_all [of 0 "split_payloads packet mtu"] calculation(2) by simp
    moreover have "pieces \<noteq> []" using assms(4) by auto
    ultimately show ?thesis
      using few h20 size whole_is_packet [OF assms(1,2)]
      by (simp add: pushed complete_datagram_def MAX_FRAGMENTS_PER_DATAGRAM_def Let_def del: length_take)
  qed
qed

text \<open>
  The state of a reassembler that holds exactly the pieces \<open>S\<close> of the datagram, the first of them
  since \<open>start\<close>.
\<close>

definition holding :: "bytes \<Rightarrow> nat \<Rightarrow> bytes list \<Rightarrow> instant \<Rightarrow> nat set \<Rightarrow> Reassembler \<Rightarrow> bool" where
  "holding packet mtu pieces start S r \<longleftrightarrow> reassembler_ok r
     \<and> (case map_of (ra_partials r) (datagram_key packet) of
          None \<Rightarrow> S = {}
        | Some p \<Rightarrow> S \<noteq> {} \<and> collected packet mtu pieces S p \<and> pa_started p = start)"

lemma map_of_filter_value:
  "distinct (map fst al) \<Longrightarrow> map_of (filter (\<lambda>e. Q (snd e)) al) key =
    (case map_of al key of None \<Rightarrow> None | Some p \<Rightarrow> if Q p then Some p else None)"
  by (induction al) (auto split: option.splits simp: map_of_eq_None_iff)

lemma expire_lookup:
  assumes "reassembler_ok r"
  shows "map_of (ra_partials (expire_partials now r)) key =
    (case map_of (ra_partials r) key of
       None \<Rightarrow> None
     | Some p \<Rightarrow> if duration_since now (pa_started p) < FRAGMENT_TIMEOUT then Some p else None)"
  using assms map_of_filter_value [of "ra_partials r" "\<lambda>p. duration_since now (pa_started p) < FRAGMENT_TIMEOUT" key]
  by (simp add: expire_partials_def Let_def reassembler_ok_def)

lemma push_fields:
  assumes "unat (f ! 0 AND 0x0f) * 4 = 20" and "unat (word_at f 2) = length f" and "20 \<le> length f"
    and "unat (frag_flags f AND OFFSET_MASK) * 8 = off" and "(frag_flags f AND MORE_FRAGMENTS \<noteq> 0) = mf"
    and "subslice 20 (length f) f = c" and "datagram_key f = key"
    and "\<not> ((mf \<and> length c mod 8 \<noteq> 0) \<or> MAX_DATAGRAM_LENGTH < 20 + (off + length c))"
  shows "push f now r = (case map_of (ra_partials (evict_oldest key (expire_partials now r))) key of
      Some p \<Rightarrow> push_piece key p (take 20 f) mf off c (evict_oldest key (expire_partials now r))
    | None \<Rightarrow> push_piece key (fresh_partial now) (take 20 f) mf off c
        (store key (fresh_partial now) (evict_oldest key (expire_partials now r))))"
  using assms(3,8) unfolding push_def Let_def assms(1,2,4-7) fresh_partial_def
  by (cases "map_of (ra_partials (evict_oldest key (expire_partials now r))) key") auto

lemma push_reaches_entry:
  assumes "datagram_wf packet" and "split_for_tunnel packet mtu = Some pieces" and "i < length pieces"
    and "holding packet mtu pieces start S r"
    and "duration_since now start < secs 2" and "S = {} \<Longrightarrow> now = start"
  obtains p r' where "map_of (ra_partials r') (datagram_key packet) = Some p" "reassembler_ok r'"
    "collected packet mtu pieces S p" "pa_started p = start"
    "push (pieces ! i) now r = push_piece (datagram_key packet) p (take 20 (pieces ! i)) (i + 1 \<noteq> length pieces)
      (i * split_size mtu) (split_payloads packet mtu ! i) r'"
proof -
  note reads = piece_reads [OF assms(1-3)]
  let ?key = "datagram_key packet" and ?r = "expire_partials now r"
  have ok: "reassembler_ok r" using assms(4) by (simp add: holding_def)
  have max: "length packet \<le> 65535" "20 \<le> length packet"
    using assms(1) unat_u16_less [of "word_at packet 2"] by (auto simp: datagram_wf_def)
  have sub: "subslice 20 (20 + length (split_payloads packet mtu ! i)) (pieces ! i) = split_payloads packet mtu ! i"
    using reads(1,7) by (simp add: subslice_def)
  have nib: "unat (0x45 AND 0x0f :: u8) * 4 = 20" by simp
  let ?r1 = "evict_oldest ?key ?r"
  have guard: "\<not> ((i + 1 \<noteq> length pieces \<and> length (split_payloads packet mtu ! i) mod 8 \<noteq> 0)
      \<or> MAX_DATAGRAM_LENGTH < 20 + (i * split_size mtu + length (split_payloads packet mtu ! i)))"
    using reads(9,10) max unfolding MAX_DATAGRAM_LENGTH_def by linarith
  have push: "push (pieces ! i) now r = (case map_of (ra_partials ?r1) ?key of
      Some p \<Rightarrow> push_piece ?key p (take 20 (pieces ! i)) (i + 1 \<noteq> length pieces) (i * split_size mtu) (split_payloads packet mtu ! i) ?r1
    | None \<Rightarrow> push_piece ?key (fresh_partial now) (take 20 (pieces ! i)) (i + 1 \<noteq> length pieces) (i * split_size mtu)
        (split_payloads packet mtu ! i) (store ?key (fresh_partial now) ?r1))"
    using sub reads(1) by (intro push_fields) (simp_all only: reads guard nib not_False_eq_True le_add1)
  have entry: "map_of (ra_partials ?r) ?key = map_of (ra_partials r) ?key"
    using assms(4,5) by (auto simp: expire_lookup [OF ok] holding_def FRAGMENT_TIMEOUT_def split: option.splits)
  show thesis
  proof (cases "map_of (ra_partials r) ?key")
    case None
    then have "S = {}" "now = start" using assms(4,6) by (simp_all add: holding_def)
    moreover have "collected packet mtu pieces {} (fresh_partial now)" by (simp add: collected_def fresh_partial_def)
    moreover have "reassembler_ok (store ?key (fresh_partial now) ?r1)"
      using store_fresh_ok [OF expire_ok [OF ok]] None entry by simp
    ultimately show thesis
      using that [of "store ?key (fresh_partial now) ?r1" "fresh_partial now"] push None entry
      by (simp add: evict_oldest_keeps fresh_partial_def)
  next
    case (Some p)
    then show thesis
      using that [of ?r1 p] push entry assms(4) evict_oldest_ok [OF expire_ok [OF ok]]
      by (simp add: evict_oldest_keeps holding_def)
  qed
qed

lemma holding_step:
  assumes "datagram_wf packet" and "split_for_tunnel packet mtu = Some pieces" and "length pieces \<le> 64"
    and "i < length pieces" and "holding packet mtu pieces start S r"
    and "duration_since now start < secs 2" and "S = {} \<Longrightarrow> now = start"
  shows "insert i S \<noteq> {..<length pieces} \<Longrightarrow>
      snd (push (pieces ! i) now r) = None \<and> holding packet mtu pieces start (insert i S) (fst (push (pieces ! i) now r))"
    and "i \<notin> S \<Longrightarrow> insert i S = {..<length pieces} \<Longrightarrow> snd (push (pieces ! i) now r) = Some packet"
proof -
  obtain p r' where r': "map_of (ra_partials r') (datagram_key packet) = Some p" "reassembler_ok r'"
    and p: "collected packet mtu pieces S p" "pa_started p = start"
    and push: "push (pieces ! i) now r = push_piece (datagram_key packet) p (take 20 (pieces ! i)) (i + 1 \<noteq> length pieces)
      (i * split_size mtu) (split_payloads packet mtu ! i) r'"
    using push_reaches_entry [OF assms(1,2,4-7)] by blast
  note collects = push_piece_collects [OF assms(1-4) p(1) r'(1), folded push]
  show "i \<notin> S \<Longrightarrow> insert i S = {..<length pieces} \<Longrightarrow> snd (push (pieces ! i) now r) = Some packet"
    by (rule collects(3))
  have ok: "reassembler_ok (fst (push (pieces ! i) now r))"
    using assms(5) push_ok by (simp add: holding_def)
  show "snd (push (pieces ! i) now r) = None \<and> holding packet mtu pieces start (insert i S) (fst (push (pieces ! i) now r))"
    if partial: "insert i S \<noteq> {..<length pieces}"
  proof (cases "i \<in> S")
    case True
    then show ?thesis using collects(1) r' p by (simp add: holding_def insert_absorb) blast
  next
    case False
    then show ?thesis using collects(2) [OF False partial] ok p(2) by (auto simp: holding_def)
  qed
qed

definition push_step :: "bytes list \<Rightarrow> nat \<times> instant \<Rightarrow> Reassembler \<Rightarrow> Reassembler \<times> bytes list" where
  "push_step pieces a r = map_prod id (case_option [] (\<lambda>d. [d])) (push (pieces ! fst a) (snd a) r)"

lemma push_step_simps [simp]:
  "fst (push_step pieces a r) = fst (push (pieces ! fst a) (snd a) r)"
  "snd (push_step pieces a r) = (case snd (push (pieces ! fst a) (snd a) r) of None \<Rightarrow> [] | Some d \<Rightarrow> [d])"
  by (simp_all add: push_step_def)

lemma push_run:
  assumes "datagram_wf packet" and "split_for_tunnel packet mtu = Some pieces" and "length pieces \<le> 64"
    and "holding packet mtu pieces start S r" and "list_all (\<lambda>a. fst a < length pieces \<and> duration_since (snd a) start < secs 2) as"
    and "S \<union> fst ` set as \<subset> {..<length pieces}" and "S = {} \<Longrightarrow> as \<noteq> [] \<Longrightarrow> snd (hd as) = start"
  shows "snd (emit_run (push_step pieces) as r) = []
    \<and> holding packet mtu pieces start (S \<union> fst ` set as) (fst (emit_run (push_step pieces) as r))"
  using assms(4-7)
proof (induction as arbitrary: S r)
  case (Cons a as)
  have "insert (fst a) S \<noteq> {..<length pieces}" using Cons.prems(3) by auto
  then have step: "snd (push (pieces ! fst a) (snd a) r) = None"
    "holding packet mtu pieces start (insert (fst a) S) (fst (push (pieces ! fst a) (snd a) r))"
    using holding_step(1) [OF assms(1-3) _ Cons.prems(1)] Cons.prems(2,4) by auto
  have "snd (emit_run (push_step pieces) as (fst (push (pieces ! fst a) (snd a) r))) = []
    \<and> holding packet mtu pieces start (insert (fst a) S \<union> fst ` set as)
        (fst (emit_run (push_step pieces) as (fst (push (pieces ! fst a) (snd a) r))))"
    using Cons.prems step(2) by (intro Cons.IH) auto
  with step(1) show ?case
    by (simp add: emit_run_simps del: emit_run.simps(2))
qed simp

text \<open>
  C33. Splitting for the tunnel loses nothing, within the reassembler's limits: the pieces of a valid
  datagram with a plain 20-byte header and not itself a fragment, at most 64 of them, delivered within two seconds of the first in
  any order and with any duplicates before the last missing one, rebuild exactly the datagram that was
  split - header, Don't Fragment bit and checksum included - and nothing is delivered before. The
  reassembler may hold other datagrams, even be full, but no part of one with the same key (addresses,
  protocol and identification). Beyond these limits the code discards the pieces.
\<close>

theorem split_datagram_reassembles:
  assumes "datagram_wf packet" and "split_for_tunnel packet mtu = Some pieces" and "length pieces \<le> 64"
    and "reassembler_ok r" and "map_of (ra_partials r) (datagram_key packet) = None"
    and "missing < length pieces" and "fst ` set arrivals = {..<length pieces} - {missing}"
    and "list_all (\<lambda>a. duration_since (snd a) (snd (hd (arrivals @ [(missing, now)]))) < secs 2) (arrivals @ [(missing, now)])"
  shows "snd (emit_run (push_step pieces) (arrivals @ [(missing, now)]) r) = [packet]"
proof -
  let ?start = "snd (hd (arrivals @ [(missing, now)]))"
  have hold: "holding packet mtu pieces ?start {} r" using assms(4,5) by (simp add: holding_def)
  have run: "snd (emit_run (push_step pieces) arrivals r) = []
    \<and> holding packet mtu pieces ?start (fst ` set arrivals) (fst (emit_run (push_step pieces) arrivals r))"
    using push_run [OF assms(1-3) hold, of arrivals] assms(6-8) by (auto simp: list_all_iff)
  have "snd (push (pieces ! missing) now (fst (emit_run (push_step pieces) arrivals r))) = Some packet"
    using run assms(6-8) by (intro holding_step(2) [OF assms(1-3) assms(6) conjunct2 [OF run]]) auto
  with run show ?thesis
    by (simp add: emit_run_append emit_run_simps del: emit_run.simps(2))
qed

text \<open>A 36-byte datagram, split for a link of 28 bytes into two pieces that arrive in reverse.\<close>

definition sample_datagram :: bytes where
  "sample_datagram =
     [0x45, 0, 0, 36, 0, 7, 0x40, 0, 64, 17, 0x25, 0x2a, 10, 203, 0, 2, 10, 203, 0, 1,
      1, 2, 3, 4, 5, 6, 7, 8, 9, 10, 11, 12, 13, 14, 15, 16]"

theorem split_datagram_reassembles_witness:
  "\<exists>pieces. split_for_tunnel sample_datagram 28 = Some pieces
    \<and> snd (emit_run (push_step pieces) [(1, 0), (0, 5)] reassembler_default) = [sample_datagram]"
proof -
  have wf: "datagram_wf sample_datagram"
    by (simp add: datagram_wf_def sample_datagram_def word_at_def frag_flags_def of_be16_def DONT_FRAGMENT_def
        subslice_def put_def internet_checksum_def fold_carry.simps be16_bytes)
  have "split_for_tunnel sample_datagram 28 \<noteq> None"
    by (simp add: split_for_tunnel_def sample_datagram_def Let_def word_at_def)
  then obtain pieces where pieces: "split_for_tunnel sample_datagram 28 = Some pieces" by auto
  have "length pieces = 2"
    using split_layout(1,3) [OF wf pieces]
    by (simp add: split_payloads_def length_chunks) (simp add: split_size_def sample_datagram_def)
  moreover have "{1} = {..<2 :: nat} - {0}" by (auto simp: lessThan_def)
  ultimately have "snd (emit_run (push_step pieces) ([(1, 0)] @ [(0, 5)]) reassembler_default) = [sample_datagram]"
    by (intro split_datagram_reassembles [OF wf pieces _ reassembler_default_ok])
       (simp_all add: reassembler_default_def secs_def duration_since_def)
  with pieces show ?thesis by simp
qed

end
