(* ===== verification/Path_Policy.thy ===== *)
theory Path_Policy
  imports Contracts
begin

section \<open>Per-path reply selection messages (\<^verbatim>\<open>engine/src/path_policy.rs\<close>)\<close>

text \<open>
  The control payload with which a client tells the relay whether a path carries replies. A path
  number below 64 and a selection byte of 0 or 1 are the only spellings accepted, so the format is
  canonical.
\<close>

text \<open>The byte strings \<^verbatim>\<open>b"path"\<close> and \<^verbatim>\<open>b"pata"\<close>.\<close>

definition POLICY_REQUEST :: bytes where "POLICY_REQUEST = [112, 97, 116, 104]"
definition POLICY_ACCEPT :: bytes where "POLICY_ACCEPT = [112, 97, 116, 97]"

record PathPolicy =
  pp_path :: u8
  pp_selected :: bool

definition policy_request :: "PathPolicy \<Rightarrow> bytes" where
  "policy_request p =
     [POLICY_REQUEST ! 0, POLICY_REQUEST ! 1, POLICY_REQUEST ! 2, POLICY_REQUEST ! 3,
      pp_path p, of_bool (pp_selected p)]"

definition policy_parse :: "bytes \<Rightarrow> PathPolicy option" where
  "policy_parse payload =
     (if length payload \<noteq> 6 \<or> take 4 payload \<noteq> POLICY_REQUEST \<or> payload ! 4 \<ge> 64 \<or> payload ! 5 > 1
      then None
      else Some \<lparr>pp_path = payload ! 4, pp_selected = (payload ! 5 \<noteq> 0)\<rparr>)"

definition policy_accept :: bytes where
  "policy_accept = POLICY_ACCEPT"

definition policy_accepted :: "bytes \<Rightarrow> bool" where
  "policy_accepted payload \<longleftrightarrow> payload = POLICY_ACCEPT"

definition policy_ok :: "PathPolicy \<Rightarrow> bool" where
  "policy_ok p \<longleftrightarrow> pp_path p < 64"

lemma u8_le_1: "(b :: u8) \<le> 1 \<Longrightarrow> b = of_bool (b \<noteq> 0)"
  by (auto simp: word_le_nat_alt word_unat_eq_iff)

lemma length_6E:
  assumes "length xs = 6"
  obtains a b c d e f where "xs = [a, b, c, d, e, f]"
  using assms by (auto simp: numeral_eq_Suc length_Suc_conv)

interpretation policy: canonical_format policy_request policy_parse policy_ok
proof
  fix p :: PathPolicy assume "policy_ok p"
  then show "policy_parse (policy_request p) = Some p"
    by (cases p) (auto simp: policy_parse_def policy_request_def POLICY_REQUEST_def policy_ok_def)
next
  fix bs p assume parsed: "policy_parse bs = Some p"
  then show "policy_ok p"
    by (auto simp: policy_parse_def policy_ok_def split: if_splits)
  from parsed have "length bs = 6" by (auto simp: policy_parse_def split: if_splits)
  then obtain a b c d e f where bs: "bs = [a, b, c, d, e, f]" by (rule length_6E)
  from parsed have "f \<le> 1" by (auto simp: policy_parse_def bs split: if_splits)
  then have "f = of_bool (f \<noteq> 0)" by (rule u8_le_1)
  with parsed show "policy_request p = bs"
    by (auto simp: policy_parse_def policy_request_def bs POLICY_REQUEST_def split: if_splits)
qed

lemma policy_parse_path: "policy_parse payload = Some p \<Longrightarrow> unat (pp_path p) < 64"
  using policy.decode_valid [of payload p] by (simp add: policy_ok_def word_less_nat_alt)

end
