(* ===== verification/Endpoints.thy ===== *)
theory Endpoints
  imports Path_Policy
begin

section \<open>Return destinations of a session (\<^verbatim>\<open>relay/src/endpoints.rs\<close>)\<close>

text \<open>
  The relay keeps up to eight addresses a client was authenticated from, each with the policy of the
  path it belongs to, and picks from them where replies and repairs go. The lemmas show the table's
  bounds, that no path owns two addresses, that \<^verbatim>\<open>apply\<close> cannot panic for a parsed policy, and that
  a session with a live address never loses its replies.
\<close>

definition ENDPOINT_CAPACITY :: nat where "ENDPOINT_CAPACITY = 8"
definition ENDPOINT_TTL :: duration where "ENDPOINT_TTL = secs 45"
definition REPAIR_FRESHNESS :: duration where "REPAIR_FRESHNESS = secs 3"

record Endpoint =
  ep_address :: SocketAddr
  ep_seen :: instant
  ep_policy :: "PathPolicy option"
  ep_healthy :: bool

record Endpoints =
  es_entries :: "Endpoint list"
  es_policy_sequences :: "u64 option list"
  es_selective :: bool

definition endpoints_default :: Endpoints where
  "endpoints_default = \<lparr>es_entries = [], es_policy_sequences = replicate 64 None, es_selective = False\<rparr>"

definition endpoints_len :: "Endpoints \<Rightarrow> nat" where
  "endpoints_len e = length (es_entries e)"

definition prune :: "instant \<Rightarrow> Endpoints \<Rightarrow> Endpoints" where
  "prune now e =
     e\<lparr>es_entries := filter (\<lambda>entry. duration_since now (ep_seen entry) \<le> ENDPOINT_TTL) (es_entries e)\<rparr>"

definition observe :: "SocketAddr \<Rightarrow> instant \<Rightarrow> Endpoints \<Rightarrow> Endpoints" where
  "observe address now e =
     (let e = prune now e; entries = es_entries e
      in if \<exists>entry \<in> set entries. ep_address entry = address
         then e\<lparr>es_entries := update_first (\<lambda>entry. ep_address entry = address)
                  (\<lambda>entry. entry\<lparr>ep_seen := now\<rparr>) entries\<rparr>
         else let entries = (if length entries \<ge> ENDPOINT_CAPACITY then tl (sort_key ep_seen entries) else entries)
              in e\<lparr>es_entries := entries @
                   [\<lparr>ep_address = address, ep_seen = now, ep_policy = None, ep_healthy = True\<rparr>]\<rparr>)"

text \<open>
  \<open>None\<close> is a panic: an out-of-range index into the 64 policy sequences, or the \<^verbatim>\<open>unwrap\<close> of an entry
  that is not there.
\<close>

definition apply_policy ::
  "SocketAddr \<Rightarrow> PathPolicy \<Rightarrow> bool \<Rightarrow> u64 \<Rightarrow> instant \<Rightarrow> Endpoints \<Rightarrow> Endpoints option" where
  "apply_policy address policy healthy sequence now e =
     (let path = unat (pp_path policy)
      in if path \<ge> length (es_policy_sequences e) then None
         else if (case es_policy_sequences e ! path of None \<Rightarrow> False | Some previous \<Rightarrow> sequence \<le> previous)
         then Some e
         else let e1 = e\<lparr>es_policy_sequences := (es_policy_sequences e)[path := Some sequence],
                         es_selective := True,
                         es_entries := filter (\<lambda>entry. ep_address entry = address
                           \<or> \<not> (case ep_policy entry of None \<Rightarrow> False | Some old \<Rightarrow> pp_path old = pp_path policy))
                           (es_entries e)\<rparr>;
                  e2 = observe address now e1
              in if \<exists>entry \<in> set (es_entries e2). ep_address entry = address
                 then Some (e2\<lparr>es_entries := update_first (\<lambda>entry. ep_address entry = address)
                        (\<lambda>entry. entry\<lparr>ep_policy := Some policy, ep_healthy := healthy\<rparr>) (es_entries e2)\<rparr>)
                 else None)"

definition carries_replies :: "Endpoint \<Rightarrow> bool" where
  "carries_replies entry = (case ep_policy entry of None \<Rightarrow> False | Some policy \<Rightarrow> pp_selected policy)"

definition targets :: "instant \<Rightarrow> Endpoints \<Rightarrow> Endpoints \<times> SocketAddr list" where
  "targets now e =
     (let e = prune now e;
          selected = (\<exists>entry \<in> set (es_entries e). \<not> es_selective e \<or> carries_replies entry);
          fallback = (if selected then None else map_option ep_address (max_by_key ep_seen (es_entries e)))
      in (e, map ep_address (filter (\<lambda>entry.
               if selected then \<not> es_selective e \<or> carries_replies entry
               else Some (ep_address entry) = fallback) (es_entries e))))"

definition fresh :: "instant \<Rightarrow> Endpoint \<Rightarrow> bool" where
  "fresh now entry \<longleftrightarrow> ep_healthy entry \<and> duration_since now (ep_seen entry) \<le> REPAIR_FRESHNESS
     \<and> ep_policy entry \<noteq> None"

definition spare :: "Endpoint \<Rightarrow> bool" where
  "spare entry = (case ep_policy entry of None \<Rightarrow> False | Some policy \<Rightarrow> \<not> pp_selected policy)"

definition eligible :: "instant \<Rightarrow> Endpoint list \<Rightarrow> Endpoint list" where
  "eligible now entries =
     (let has_spare = (\<exists>entry \<in> set entries. fresh now entry \<and> spare entry)
      in filter (\<lambda>entry. fresh now entry \<and> (\<not> has_spare \<or> spare entry)) entries)"

definition endpoint_repair_target :: "instant \<Rightarrow> u64 \<Rightarrow> Endpoints \<Rightarrow> Endpoints \<times> SocketAddr option" where
  "endpoint_repair_target now turn e =
     (let e = prune now e
      in if \<not> es_selective e then (e, None)
         else let candidates = eligible now (es_entries e); count = length candidates
              in if count = 0
                 then let (e', ts) = targets now e in (e', if ts = [] then None else Some (hd ts))
                 else (e, Some (ep_address (candidates ! (unat turn mod count)))))"

subsection \<open>The table's invariant\<close>

definition entry_path :: "Endpoint \<Rightarrow> u8 option" where
  "entry_path entry = map_option pp_path (ep_policy entry)"

definition one_entry_per_path :: "Endpoint list \<Rightarrow> bool" where
  "one_entry_per_path entries \<longleftrightarrow>
     (\<forall>a \<in> set entries. \<forall>b \<in> set entries. entry_path a \<noteq> None \<longrightarrow> entry_path a = entry_path b \<longrightarrow> a = b)"

definition endpoints_ok :: "Endpoints \<Rightarrow> bool" where
  "endpoints_ok e \<longleftrightarrow> length (es_entries e) \<le> ENDPOINT_CAPACITY
     \<and> distinct (map ep_address (es_entries e)) \<and> length (es_policy_sequences e) = 64
     \<and> one_entry_per_path (es_entries e)"

lemma endpoints_default_ok: "endpoints_ok endpoints_default"
  by (simp add: endpoints_ok_def endpoints_default_def one_entry_per_path_def)

lemma one_entry_per_path_subset:
  "one_entry_per_path xs \<Longrightarrow> set ys \<subseteq> set xs \<Longrightarrow> one_entry_per_path ys"
  unfolding one_entry_per_path_def by blast

lemma endpoints_ok_filter:
  assumes "endpoints_ok e"
  shows "endpoints_ok (e\<lparr>es_entries := filter P (es_entries e)\<rparr>)"
  using assms order_trans [OF length_filter_le [of P "es_entries e"]]
  by (auto simp: endpoints_ok_def distinct_map_filter intro: one_entry_per_path_subset [of "es_entries e"])

lemma prune_ok [simp]: "endpoints_ok e \<Longrightarrow> endpoints_ok (prune now e)"
  unfolding prune_def by (rule endpoints_ok_filter)

lemma one_entry_per_path_map:
  assumes "one_entry_per_path xs" and "\<And>x. entry_path (f x) = entry_path x"
  shows "one_entry_per_path (map f xs)"
  using assms unfolding one_entry_per_path_def by auto

lemma one_entry_per_path_snoc:
  assumes "one_entry_per_path xs" and "entry_path x = None"
  shows "one_entry_per_path (xs @ [x])"
  unfolding one_entry_per_path_def
proof (intro ballI impI)
  fix a b assume "a \<in> set (xs @ [x])" "b \<in> set (xs @ [x])" "entry_path a \<noteq> None" "entry_path a = entry_path b"
  then have "a \<in> set xs" "b \<in> set xs" using assms(2) by auto
  with assms(1) \<open>entry_path a \<noteq> None\<close> \<open>entry_path a = entry_path b\<close> show "a = b"
    unfolding one_entry_per_path_def by blast
qed

lemma distinct_map_sort_tl:
  assumes "distinct (map f xs)"
  shows "distinct (map f (tl (sort_key k xs)))"
proof -
  have "distinct (map f (sort_key k xs))"
    using assms by (simp add: distinct_map)
  then show ?thesis unfolding map_tl by (rule distinct_tl)
qed

lemma observe_known:
  assumes "endpoints_ok e" and "\<exists>entry \<in> set (es_entries (prune now e)). ep_address entry = address"
  shows "observe address now e = (prune now e)\<lparr>es_entries :=
    map (\<lambda>entry. if ep_address entry = address then entry\<lparr>ep_seen := now\<rparr> else entry) (es_entries (prune now e))\<rparr>"
  using assms prune_ok [OF assms(1), of now]
  by (auto simp: observe_def endpoints_ok_def Let_def update_first_unique)

lemma observe_ok:
  assumes "endpoints_ok e"
  shows "endpoints_ok (observe address now e)"
proof (cases "\<exists>entry \<in> set (es_entries (prune now e)). ep_address entry = address")
  case True
  have "ep_address \<circ> (\<lambda>entry :: Endpoint. if ep_address entry = address then entry\<lparr>ep_seen := now\<rparr> else entry) = ep_address"
    by (auto simp: fun_eq_iff)
  with prune_ok [OF assms, of now] show ?thesis
    by (simp add: observe_known [OF assms True] endpoints_ok_def entry_path_def one_entry_per_path_map)
next
  case False
  let ?old = "es_entries (prune now e)"
  let ?kept = "if length ?old \<ge> ENDPOINT_CAPACITY then tl (sort_key ep_seen ?old) else ?old"
  have sub: "set ?kept \<subseteq> set ?old" by (auto dest: in_set_tlD)
  have "one_entry_per_path ?kept" "distinct (map ep_address ?kept)" "length ?kept < ENDPOINT_CAPACITY"
    using prune_ok [OF assms, of now] one_entry_per_path_subset [OF _ sub]
    by (auto simp: endpoints_ok_def distinct_map_sort_tl ENDPOINT_CAPACITY_def split: if_splits)
  moreover have "address \<notin> ep_address ` set ?kept" using False sub by auto
  ultimately show ?thesis
    using False prune_ok [OF assms, of now]
    by (simp add: observe_def Let_def endpoints_ok_def entry_path_def one_entry_per_path_snoc del: if_split)
qed

lemma observe_has: "\<exists>entry \<in> set (es_entries (observe address now e)). ep_address entry = address"
proof -
  have "\<exists>x \<in> set (update_first (\<lambda>x. ep_address x = a) (\<lambda>x. x\<lparr>ep_seen := now\<rparr>) xs). ep_address x = a"
    if "\<exists>x \<in> set xs. ep_address x = a" for xs a
    using that by (induction xs) auto
  then show ?thesis by (auto simp: observe_def Let_def)
qed

lemma observe_origin:
  assumes "x \<in> set (es_entries (observe address now e))"
  shows "(\<exists>y \<in> set (es_entries e). ep_address x = ep_address y \<and> ep_policy x = ep_policy y)
    \<or> (ep_address x = address \<and> ep_policy x = None)"
proof -
  have "x \<in> set (es_entries e) \<or> (\<exists>y \<in> set (es_entries e). x = y\<lparr>ep_seen := now\<rparr>)
    \<or> (ep_address x = address \<and> ep_policy x = None)"
    using assms
    by (auto simp: observe_def prune_def Let_def split: if_splits dest!: set_update_firstD in_set_tlD)
  then show ?thesis by auto
qed

lemma observe_sequences [simp]:
  "es_policy_sequences (observe address now e) = es_policy_sequences e"
  "es_selective (observe address now e) = es_selective e"
  by (simp_all add: observe_def prune_def Let_def)

lemma apply_policy_cases:
  assumes "endpoints_ok e" and "unat (pp_path policy) < 64"
  obtains "apply_policy address policy healthy sequence now e = Some e"
      "\<exists>previous. es_policy_sequences e ! unat (pp_path policy) = Some previous \<and> sequence \<le> previous"
  | e2 where "endpoints_ok e2" "\<exists>x \<in> set (es_entries e2). ep_address x = address"
      "\<forall>x \<in> set (es_entries e2). ep_address x \<noteq> address \<longrightarrow> entry_path x \<noteq> Some (pp_path policy)"
      "es_policy_sequences e2 = (es_policy_sequences e)[unat (pp_path policy) := Some sequence]"
      "es_selective e2"
      "apply_policy address policy healthy sequence now e =
        Some (e2\<lparr>es_entries := map (\<lambda>x. if ep_address x = address
          then x\<lparr>ep_policy := Some policy, ep_healthy := healthy\<rparr> else x) (es_entries e2)\<rparr>)"
proof (cases "case es_policy_sequences e ! unat (pp_path policy) of None \<Rightarrow> False | Some previous \<Rightarrow> sequence \<le> previous")
  case True
  with assms that(1) show thesis
    by (auto simp: apply_policy_def endpoints_ok_def split: option.splits)
next
  case False
  define keep where "keep = (\<lambda>entry :: Endpoint. ep_address entry = address
    \<or> \<not> (case ep_policy entry of None \<Rightarrow> False | Some old \<Rightarrow> pp_path old = pp_path policy))"
  define e1 where "e1 = e\<lparr>es_policy_sequences := (es_policy_sequences e)[unat (pp_path policy) := Some sequence],
    es_selective := True, es_entries := filter keep (es_entries e)\<rparr>"
  have "endpoints_ok e1"
    using endpoints_ok_filter [OF assms(1), of keep] by (simp add: e1_def endpoints_ok_def)
  then have ok: "endpoints_ok (observe address now e1)" by (rule observe_ok)
  have only: "\<forall>x \<in> set (es_entries (observe address now e1)). ep_address x \<noteq> address \<longrightarrow> entry_path x \<noteq> Some (pp_path policy)"
  proof (intro ballI impI)
    fix x assume x: "x \<in> set (es_entries (observe address now e1))" "ep_address x \<noteq> address"
    with observe_origin [OF x(1)] obtain y where "y \<in> set (es_entries e1)" "ep_address x = ep_address y" "ep_policy x = ep_policy y"
      by auto
    with x(2) show "entry_path x \<noteq> Some (pp_path policy)"
      by (auto simp: e1_def keep_def entry_path_def split: option.splits)
  qed
  have "apply_policy address policy healthy sequence now e =
      Some ((observe address now e1)\<lparr>es_entries := map (\<lambda>x. if ep_address x = address
        then x\<lparr>ep_policy := Some policy, ep_healthy := healthy\<rparr> else x) (es_entries (observe address now e1))\<rparr>)"
    using False assms observe_has [of address now e1] ok
    by (simp add: apply_policy_def endpoints_ok_def Let_def update_first_unique
        keep_def [symmetric] e1_def [symmetric])
  with that(2) [OF ok observe_has only] show thesis by (simp add: e1_def)
qed

lemma apply_policy_ok:
  assumes "endpoints_ok e" and "unat (pp_path policy) < 64"
  shows "\<exists>e'. apply_policy address policy healthy sequence now e = Some e' \<and> endpoints_ok e'"
  using assms
proof (cases rule: apply_policy_cases [where address = address and healthy = healthy and sequence = sequence and now = now])
  case (2 e2)
  let ?f = "\<lambda>x :: Endpoint. if ep_address x = address then x\<lparr>ep_policy := Some policy, ep_healthy := healthy\<rparr> else x"
  have "ep_address \<circ> ?f = ep_address" by (auto simp: fun_eq_iff)
  moreover have "one_entry_per_path (map ?f (es_entries e2))"
    unfolding one_entry_per_path_def
  proof (intro ballI impI)
    fix a b
    assume "a \<in> set (map ?f (es_entries e2))" "b \<in> set (map ?f (es_entries e2))"
      and path: "entry_path a \<noteq> None" "entry_path a = entry_path b"
    then obtain x y where xy: "x \<in> set (es_entries e2)" "y \<in> set (es_entries e2)" "a = ?f x" "b = ?f y" by auto
    have unique: "x = y" if "ep_address x = ep_address y"
      using that xy(1,2) 2(1) by (auto simp: endpoints_ok_def distinct_map dest: inj_onD)
    have same: "x = y" if "entry_path x \<noteq> None" "entry_path x = entry_path y"
      using that xy(1,2) 2(1) by (auto simp: endpoints_ok_def one_entry_per_path_def)
    show "a = b"
      using 2(3) xy path unique same
      by (cases "ep_address x = address"; cases "ep_address y = address") (auto simp: entry_path_def)
  qed
  ultimately show ?thesis using 2(1,6) by (simp add: endpoints_ok_def)
qed (simp add: assms(1))

lemma targets_state: "fst (targets now e) = prune now e"
  by (simp add: targets_def Let_def)

lemma prune_prune [simp]: "prune now (prune now e) = prune now e"
  by (simp add: prune_def)

lemma repair_target_state: "fst (endpoint_repair_target now turn e) = prune now e"
  using targets_state [of now "prune now e"]
  by (auto simp: endpoint_repair_target_def Let_def split: prod.splits)

text \<open>
  Everything the relay does with a session's table. A policy reaches \<^verbatim>\<open>apply\<close> only out of
  \<^verbatim>\<open>PathPolicy::parse\<close>, so the event carries the payload it is parsed from.
\<close>

datatype endpoint_event =
    Observe SocketAddr instant
  | Apply SocketAddr bytes bool u64 instant
  | Repair_Target instant u64
  | Targets instant

fun endpoint_step :: "endpoint_event \<Rightarrow> Endpoints option \<Rightarrow> Endpoints option" where
  "endpoint_step _ None = None"
| "endpoint_step (Observe address now) (Some e) = Some (observe address now e)"
| "endpoint_step (Apply address payload healthy sequence now) (Some e) =
     (case policy_parse payload of
        None \<Rightarrow> Some e
      | Some policy \<Rightarrow> apply_policy address policy healthy sequence now e)"
| "endpoint_step (Repair_Target now turn) (Some e) = Some (fst (endpoint_repair_target now turn e))"
| "endpoint_step (Targets now) (Some e) = Some (fst (targets now e))"

interpretation endpoints: component "Some endpoints_default" endpoint_step
  "\<lambda>s. \<exists>e. s = Some e \<and> endpoints_ok e"
proof
  fix ev s assume "\<exists>e. s = Some e \<and> endpoints_ok e"
  then show "\<exists>e. endpoint_step ev s = Some e \<and> endpoints_ok e"
    by (cases ev)
       (auto simp: observe_ok targets_state repair_target_state apply_policy_ok policy_parse_path
         split: option.splits)
qed (simp add: endpoints_default_ok)

text \<open>
  Whatever the relay does with a session's endpoint table, in any order and at any times, it never
  panics (no policy index is out of range and the entry \<^verbatim>\<open>apply\<close> unwraps is always there), holds at
  most eight entries with pairwise different addresses, and never has two entries for one path.
\<close>

theorem endpoint_table_invariant:
  "\<exists>e. fold endpoint_step events (Some endpoints_default) = Some e
    \<and> length (es_entries e) \<le> 8 \<and> distinct (map ep_address (es_entries e))
    \<and> one_entry_per_path (es_entries e)"
  using endpoints.run_inv [of events] by (auto simp: endpoints_ok_def ENDPOINT_CAPACITY_def)

subsection \<open>Where replies go\<close>

definition live :: "instant \<Rightarrow> Endpoint \<Rightarrow> bool" where
  "live now entry \<longleftrightarrow> duration_since now (ep_seen entry) \<le> secs 45"

lemma prune_entries: "es_entries (prune now e) = filter (live now) (es_entries e)"
  by (simp add: prune_def live_def [abs_def] ENDPOINT_TTL_def)

lemma filter_unique_address:
  assumes "distinct (map ep_address xs)" and "y \<in> set xs"
  shows "filter (\<lambda>x. ep_address x = ep_address y) xs = [y]"
  using assms by (induction xs) (auto simp: filter_empty_conv image_iff)

text \<open>
  What a reply's destinations should be: the live entries the client selected, or every live entry
  while the client has sent no policy; when it has and selected none of the live ones, the one live
  entry seen last.
\<close>

definition reply_spec :: "instant \<Rightarrow> Endpoints \<Rightarrow> SocketAddr list \<Rightarrow> bool" where
  "reply_spec now e addresses \<longleftrightarrow>
     (let alive = filter (live now) (es_entries e); chosen = filter carries_replies alive
      in if \<not> es_selective e then addresses = map ep_address alive
         else if chosen \<noteq> [] then addresses = map ep_address chosen
         else if alive = [] then addresses = []
         else \<exists>latest \<in> set alive. addresses = [ep_address latest] \<and> (\<forall>x \<in> set alive. ep_seen x \<le> ep_seen latest))"

text \<open>
  C39. Replies are never lost and never multiplied by accident. For a client that never selected an
  endpoint the destinations are all its live endpoints; for one that did they are exactly the live selected
  ones; and when none of the live ones is selected, a single unselected fallback, the live endpoint heard
  from last. So there is a destination exactly when some endpoint is live.
\<close>

theorem replies_reach_selected_endpoints:
  assumes "endpoints_ok e"
  shows "reply_spec now e (snd (targets now e))
    \<and> (snd (targets now e) = [] \<longleftrightarrow> filter (live now) (es_entries e) = [])"
proof -
  let ?alive = "filter (live now) (es_entries e)"
  have sel: "es_selective (prune now e) = es_selective e" by (simp add: prune_def)
  note t = targets_def Let_def prune_entries sel
  have dist: "distinct (map ep_address ?alive)" using assms by (simp add: endpoints_ok_def distinct_map_filter)
  consider "\<not> es_selective e" | "es_selective e" "filter carries_replies ?alive \<noteq> []"
    | "es_selective e" "filter carries_replies ?alive = []" "?alive = []"
    | latest where "es_selective e" "filter carries_replies ?alive = []" "?alive \<noteq> []"
        "max_by_key ep_seen ?alive = Some latest"
    by (metis max_by_key_None not_None_eq)
  then show ?thesis
  proof cases
    case 1
    then have "snd (targets now e) = map ep_address ?alive"
      by (auto simp: t)
    with 1 show ?thesis by (simp add: reply_spec_def Let_def)
  next
    case 2
    then have "\<exists>x \<in> set ?alive. carries_replies x" by (auto simp: filter_empty_conv)
    with 2 have "snd (targets now e) = map ep_address (filter carries_replies ?alive)"
      by (auto simp: t)
    with 2 show ?thesis by (auto simp: reply_spec_def Let_def filter_empty_conv)
  next
    case 3
    then show ?thesis by (simp add: reply_spec_def t)
  next
    case (4 latest)
    have none: "\<not> (\<exists>x \<in> set ?alive. carries_replies x)" using 4 by (auto simp: filter_empty_conv)
    have "latest \<in> set ?alive" using 4(4) by (rule max_by_key_in)
    with dist have "filter (\<lambda>x. ep_address x = ep_address latest) ?alive = [latest]" by (rule filter_unique_address)
    moreover have "snd (targets now e) = map ep_address (filter (\<lambda>x. ep_address x = ep_address latest) ?alive)"
      using 4 none by (simp add: t del: filter_filter)
    ultimately have "snd (targets now e) = [ep_address latest]" by simp
    moreover have "\<forall>x \<in> set ?alive. ep_seen x \<le> ep_seen latest" using max_by_key_max [OF 4(4)] by blast
    ultimately show ?thesis
      using 4 \<open>latest \<in> set ?alive\<close> unfolding reply_spec_def Let_def by (auto simp del: filter_filter set_filter)
  qed
qed

definition sample_endpoints :: Endpoints where
  "sample_endpoints = observe (SocketAddrV4 [10, 0, 0, 1] 40001) 5 (observe (SocketAddrV4 [10, 0, 0, 2] 40002) 3 endpoints_default)"

theorem replies_reach_selected_endpoints_witness:
  "endpoints_ok sample_endpoints \<and> snd (targets 7 sample_endpoints) \<noteq> []"
proof -
  have ok: "endpoints_ok sample_endpoints"
    by (simp add: sample_endpoints_def observe_ok endpoints_default_ok)
  have "filter (live 7) (es_entries sample_endpoints) \<noteq> []"
    by (simp add: sample_endpoints_def observe_def prune_def endpoints_default_def ENDPOINT_CAPACITY_def
        live_def duration_since_def secs_def)
  with replies_reach_selected_endpoints [OF ok, of 7] ok show ?thesis by blast
qed

end
