(* ===== verification/Mtu.thy ===== *)
theory Mtu
  imports Fec_Encoder Protocol
begin

section \<open>Path MTU accounting (\<^verbatim>\<open>engine/src/mtu.rs\<close>)\<close>

text \<open>
  What each transport adds to a packet, and the tunnel MTU derived from it. Sizes are natural
  numbers: the source's \<^verbatim>\<open>u16\<close> sums stay below 500, and \<^verbatim>\<open>saturating_sub\<close> is subtraction on \<open>nat\<close>.
  The lemmas show the floor and ceiling of every session's MTU, that no clamp panics, and that what
  senders are told to fit really crosses the link whole on every path.
\<close>

subsection \<open>The code\<close>

datatype SessionMode = Relay_Mode | Direct_Mode

definition LINK_MTU :: nat where "LINK_MTU = 1500"
definition MIN_TUNNEL_MTU :: nat where "MIN_TUNNEL_MTU = 1280"
definition MIN_SIGNALLED_MTU :: nat where "MIN_SIGNALLED_MTU = 1228"
definition MIN_IPV4_MTU :: nat where "MIN_IPV4_MTU = 576"

text \<open>\<^verbatim>\<open>Ord::clamp\<close>, which panics when the bounds are the wrong way round.\<close>

definition clamp_to :: "nat \<Rightarrow> nat \<Rightarrow> nat \<Rightarrow> nat outcome" where
  "clamp_to low high v = (if low > high then Panic else Ret (max low (min high v)))"

text \<open>The bounds are constants here, in the right order.\<close>

definition normalize_link_mtu :: "nat \<Rightarrow> nat" where
  "normalize_link_mtu reported = max MIN_TUNNEL_MTU (min LINK_MTU reported)"

definition configured_tunnel_mtu :: "nat \<Rightarrow> nat option" where
  "configured_tunnel_mtu reported =
     (if MIN_TUNNEL_MTU \<le> reported \<and> reported \<le> LINK_MTU then Some reported else None)"

definition OUTER_IPV4_UDP :: nat where "OUTER_IPV4_UDP = 20 + 8"
definition WIREGUARD_DATA :: nat where "WIREGUARD_DATA = 16 + 16"
definition OPENVPN_DATA :: nat where "OPENVPN_DATA = 4 + 20 + 16 + 4 + 16 + 2"
definition OUTER_IPV4_TCP :: nat where "OUTER_IPV4_TCP = 20 + 32"
definition SOCKS5_UDP_REQUEST :: nat where "SOCKS5_UDP_REQUEST = 10"
definition L2TP_IPSEC_DATA :: nat where "L2TP_IPSEC_DATA = 116"
definition RELAY_OVERLAY :: nat where "RELAY_OVERLAY = 20 + 8 + HEADER_LEN + 16 + REPAIR_HEADER_MAX"

definition transport_cost :: "string \<Rightarrow> nat \<times> nat" where
  "transport_cost kind =
     (if kind = ''wireguard'' then (WIREGUARD_DATA, OUTER_IPV4_UDP)
      else if kind = ''socks5'' then (SOCKS5_UDP_REQUEST, OUTER_IPV4_UDP)
      else if kind = ''openvpn'' then (OPENVPN_DATA, OUTER_IPV4_TCP)
      else if kind = ''l2tp'' then (L2TP_IPSEC_DATA, 0)
      else if kind = ''adapter'' then (L2TP_IPSEC_DATA - OUTER_IPV4_UDP, OUTER_IPV4_UDP)
      else (L2TP_IPSEC_DATA, 0))"

definition overlay_cost :: "SessionMode \<Rightarrow> nat" where
  "overlay_cost mode = (case mode of Relay_Mode \<Rightarrow> RELAY_OVERLAY | Direct_Mode \<Rightarrow> 0)"

definition path_overhead_bytes :: "SessionMode \<Rightarrow> string \<Rightarrow> nat" where
  "path_overhead_bytes mode kind =
     (let (transport, outer) = transport_cost kind in outer + transport + overlay_cost mode)"

definition path_packet_budget :: "SessionMode \<Rightarrow> string \<Rightarrow> nat \<Rightarrow> nat" where
  "path_packet_budget mode kind link_mtu =
     (let budget = link_mtu - path_overhead_bytes mode kind
      in if kind \<noteq> ''wireguard'' then budget
         else let inner = link_mtu - (OUTER_IPV4_UDP + WIREGUARD_DATA)
              in inner div 16 * 16 - overlay_cost mode)"

record EffectiveMtu =
  em_mtu :: nat
  em_overhead :: nat
  em_below_link_budget :: bool
  em_budget :: nat

text \<open>\<^verbatim>\<open>reduce\<close> over the kinds, with the unrecognised transport when there are none.\<close>

definition session_costs :: "SessionMode \<Rightarrow> string list \<Rightarrow> nat \<Rightarrow> nat \<times> nat" where
  "session_costs mode kinds link_mtu =
     (case map (\<lambda>kind. (path_overhead_bytes mode kind, path_packet_budget mode kind link_mtu)) kinds of
        [] \<Rightarrow> (path_overhead_bytes mode [], path_packet_budget mode [] link_mtu)
      | c # cs \<Rightarrow> foldl (\<lambda>a b. (max (fst a) (fst b), min (snd a) (snd b))) c cs)"

definition for_session :: "SessionMode \<Rightarrow> string list \<Rightarrow> nat \<Rightarrow> EffectiveMtu" where
  "for_session mode kinds link_mtu =
     (let (overhead, budget) = session_costs mode kinds (normalize_link_mtu link_mtu);
          mtu = max budget MIN_TUNNEL_MTU
      in \<lparr>em_mtu = mtu, em_overhead = overhead, em_below_link_budget = (mtu > budget), em_budget = budget\<rparr>)"

definition relay_tun_mtu :: "nat \<Rightarrow> nat" where
  "relay_tun_mtu link_mtu =
     em_mtu (for_session Relay_Mode [''openvpn'', ''wireguard'', ''socks5'', ''l2tp''] link_mtu)"

definition with_tunnel_limit :: "nat option \<Rightarrow> EffectiveMtu \<Rightarrow> EffectiveMtu" where
  "with_tunnel_limit configured e =
     (let limit = configured_tunnel_mtu (case configured of None \<Rightarrow> LINK_MTU | Some c \<Rightarrow> c);
          mtu = max (case limit of None \<Rightarrow> em_mtu e | Some l \<Rightarrow> min (em_mtu e) l) MIN_TUNNEL_MTU;
          budget = (case limit of None \<Rightarrow> em_budget e | Some l \<Rightarrow> min (em_budget e) l)
      in e\<lparr>em_mtu := mtu, em_budget := budget\<rparr>)"

definition unfragmented :: "EffectiveMtu \<Rightarrow> nat outcome" where
  "unfragmented e = clamp_to MIN_SIGNALLED_MTU (em_mtu e) (em_budget e)"

definition own_stack :: "EffectiveMtu \<Rightarrow> nat outcome" where
  "own_stack e = clamp_to MIN_IPV4_MTU (em_mtu e) (em_budget e)"

definition tcp_mss :: "EffectiveMtu \<Rightarrow> nat" where
  "tcp_mss e = em_mtu e - (20 + 20)"

definition probe_floor :: "EffectiveMtu \<Rightarrow> nat" where
  "probe_floor e = min MIN_TUNNEL_MTU (em_mtu e)"

subsection \<open>What fits the link\<close>

lemmas mtu_constants = LINK_MTU_def MIN_TUNNEL_MTU_def MIN_SIGNALLED_MTU_def MIN_IPV4_MTU_def OUTER_IPV4_UDP_def
  WIREGUARD_DATA_def OPENVPN_DATA_def OUTER_IPV4_TCP_def SOCKS5_UDP_REQUEST_def L2TP_IPSEC_DATA_def RELAY_OVERLAY_def

text \<open>
  The size a packet leaves the machine with: WireGuard pads what it encrypts to 16 bytes, the other
  transports add a fixed amount.
\<close>

definition wire_size :: "SessionMode \<Rightarrow> string \<Rightarrow> nat \<Rightarrow> nat" where
  "wire_size mode kind n =
     (if kind = ''wireguard'' then OUTER_IPV4_UDP + WIREGUARD_DATA + (n + overlay_cost mode + 15) div 16 * 16
      else n + path_overhead_bytes mode kind)"

lemma budget_fits:
  assumes "n \<le> path_packet_budget mode kind link" and "0 < n"
  shows "wire_size mode kind n \<le> link"
proof (cases "kind = ''wireguard''")
  case True
  let ?inner = "link - (OUTER_IPV4_UDP + WIREGUARD_DATA)"
  have "n + overlay_cost mode \<le> ?inner div 16 * 16"
    using assms True by (simp add: path_packet_budget_def Let_def)
  then have "(n + overlay_cost mode + 15) div 16 \<le> ?inner div 16" using div_le_mono [of "n + overlay_cost mode + 15" "?inner div 16 * 16 + 15" 16] by simp
  then have "(n + overlay_cost mode + 15) div 16 * 16 \<le> ?inner div 16 * 16" by simp
  also have "\<dots> \<le> ?inner" by simp
  finally have "(n + overlay_cost mode + 15) div 16 * 16 \<le> ?inner" .
  moreover have "?inner > 0" using \<open>n + overlay_cost mode \<le> ?inner div 16 * 16\<close> assms(2) by (cases ?inner) auto
  ultimately show ?thesis using True by (simp add: wire_size_def)
next
  case False
  then show ?thesis using assms by (simp add: wire_size_def path_packet_budget_def Let_def)
qed

lemma foldl_cost_min:
  "snd (foldl (\<lambda>a b. (max (fst a) (fst b), min (snd a) (snd b))) c cs) \<le> snd (c :: nat \<times> nat)"
  "x \<in> set cs \<Longrightarrow> snd (foldl (\<lambda>a b. (max (fst a) (fst b), min (snd a) (snd b))) c cs) \<le> snd (x :: nat \<times> nat)"
proof (induction cs arbitrary: c)
  case (Cons y cs)
  { case 1 show ?case using Cons.IH(1) [of "(max (fst c) (fst y), min (snd c) (snd y))"] by simp }
  { case 2 then show ?case
      using Cons.IH(1) [of "(max (fst c) (fst y), min (snd c) (snd y))"] Cons.IH(2) [of "(max (fst c) (fst y), min (snd c) (snd y))"]
      by auto }
qed simp_all

lemma session_budget_least:
  assumes "kind \<in> set kinds"
  shows "snd (session_costs mode kinds link) \<le> path_packet_budget mode kind link"
proof -
  obtain k ks where ks: "kinds = k # ks" using assms by (cases kinds) auto
  let ?f = "\<lambda>kind. (path_overhead_bytes mode kind, path_packet_budget mode kind link)"
  have "?f kind \<in> set (map ?f kinds)" using assms by auto
  then have "?f kind = ?f k \<or> ?f kind \<in> set (map ?f ks)" by (simp add: ks)
  then show ?thesis
    using foldl_cost_min(1) [of "?f k" "map ?f ks"] foldl_cost_min(2) [of "?f kind" "map ?f ks" "?f k"]
    by (auto simp: session_costs_def ks)
qed

lemma for_session_simps:
  "em_budget (for_session mode kinds link) = snd (session_costs mode kinds (normalize_link_mtu link))"
  "em_mtu (for_session mode kinds link) = max (em_budget (for_session mode kinds link)) MIN_TUNNEL_MTU"
  by (simp_all add: for_session_def Let_def case_prod_unfold)

lemma tunnel_limit_simps:
  "em_budget (with_tunnel_limit configured e) \<le> em_budget e"
  "em_mtu (with_tunnel_limit configured e) \<ge> MIN_TUNNEL_MTU"
  by (auto simp: with_tunnel_limit_def Let_def split: option.splits)

text \<open>
  A packet of the size senders are told to fit crosses the link whole. For every session mode, set
  of transports, link MTU and provider limit: the tunnel MTU is at least 1280, the clamps behind
  \<^verbatim>\<open>unfragmented\<close> and \<^verbatim>\<open>own_stack\<close> cannot panic, and unless the link is too narrow even for the 1228
  bytes promised to senders, a packet of \<^verbatim>\<open>unfragmented\<close> bytes, wrapped by any of the session's
  transports, is no larger than the link's MTU.
\<close>

theorem unfragmented_packet_fits_link:
  assumes "e = with_tunnel_limit configured (for_session mode kinds link_mtu)"
    and "kind \<in> set kinds" and "1228 \<le> em_budget e"
  shows "1280 \<le> em_mtu e \<and> own_stack e \<noteq> Panic
    \<and> (\<exists>n. unfragmented e = Ret n \<and> 1228 \<le> n \<and> wire_size mode kind n \<le> normalize_link_mtu link_mtu)"
proof -
  have mtu: "1280 \<le> em_mtu e" using tunnel_limit_simps(2) by (simp add: assms(1) MIN_TUNNEL_MTU_def)
  let ?n = "max 1228 (min (em_mtu e) (em_budget e))"
  have "unfragmented e = Ret ?n" "own_stack e \<noteq> Panic"
    using mtu by (simp_all add: unfragmented_def own_stack_def clamp_to_def MIN_SIGNALLED_MTU_def MIN_IPV4_MTU_def)
  moreover have "?n \<le> path_packet_budget mode kind (normalize_link_mtu link_mtu)"
    using assms(3) session_budget_least [OF assms(2), of mode "normalize_link_mtu link_mtu"]
      tunnel_limit_simps(1) [of configured "for_session mode kinds link_mtu"]
    by (simp add: assms(1) for_session_simps(1))
  ultimately show ?thesis using mtu budget_fits by auto
qed

theorem unfragmented_packet_fits_link_witness:
  "\<exists>n. unfragmented (with_tunnel_limit None (for_session Relay_Mode [''wireguard'', ''openvpn''] 1500)) = Ret n
    \<and> 1228 \<le> n \<and> wire_size Relay_Mode ''wireguard'' n \<le> 1500"
proof -
  have "1228 \<le> em_budget (with_tunnel_limit None (for_session Relay_Mode [''wireguard'', ''openvpn''] 1500))"
    by (simp add: with_tunnel_limit_def for_session_def session_costs_def normalize_link_mtu_def configured_tunnel_mtu_def
        path_overhead_bytes_def path_packet_budget_def transport_cost_def overlay_cost_def mtu_constants
        HEADER_LEN_def REPAIR_HEADER_MAX_def MAX_GROUP_def LENGTH_PREFIX_def Let_def)
  from unfragmented_packet_fits_link [OF refl _ this, of "''wireguard''"] show ?thesis
    by (simp add: normalize_link_mtu_def mtu_constants)
qed

lemma relay_tun_mtu_1500: "relay_tun_mtu LINK_MTU = 1285"
  by (simp add: relay_tun_mtu_def for_session_def session_costs_def normalize_link_mtu_def
      path_overhead_bytes_def path_packet_budget_def transport_cost_def overlay_cost_def mtu_constants
      HEADER_LEN_def REPAIR_HEADER_MAX_def MAX_GROUP_def LENGTH_PREFIX_def Let_def)

end
