(* ===== verification/Relay_Session.thy ===== *)
theory Relay_Session
  imports Replay Auth Fec_Decoder Reassembly Endpoints Mtu
begin

section \<open>One relay session (\<^verbatim>\<open>relay/src/main.rs\<close>)\<close>

text \<open>
  The state the relay keeps for a client's session and everything it does with it: sealing and
  fanning out replies, applying path policies and repair offers, admitting data and rebuilt packets,
  and retrying waiting repairs. What leaves the relay is a list of actions: one \<open>Send\<close> for a sealed
  frame with the endpoints it is sent to, and one \<open>Tun\<close> for a packet written to the TUN device;
  failures of the socket and the device are ignored by the source and have no effect on the state.

  \<^verbatim>\<open>Instant::now()\<close> is a parameter. A handler reads it a few times within microseconds; the model
  uses one reading for all of them. The wall clock behind \<^verbatim>\<open>fresh_outbound_sequence\<close> is a parameter
  as well.
\<close>

definition MIN_REPLY_MTU :: u16 where "MIN_REPLY_MTU = 576"

record RepairState =
  rs_encoder :: Encoder
  rs_decoder :: Decoder
  rs_offer_sequence :: u64
  rs_recovered :: nat

record SessionState =
  ss_replay :: ReplayWindow
  ss_endpoints :: Endpoints
  ss_outbound_sequence :: u64
  ss_repair_turn :: u64
  ss_last_seen :: instant
  ss_rejected_frames :: nat
  ss_repair :: "RepairState option"
  ss_reply_mtu :: "u16 option"
  ss_fragments :: Reassembler

datatype relay_action = Send bytes "SocketAddr list" | Tun bytes

definition reply_repair_limit :: "Offer \<Rightarrow> nat" where
  "reply_repair_limit o' = min (unat (of_mtu o')) (relay_tun_mtu LINK_MTU)"

definition repair_state_new :: "Offer \<Rightarrow> RepairState" where
  "repair_state_new o' = \<lparr>rs_encoder = encoder_new (of_group_size o') (reply_repair_limit o'),
     rs_decoder = decoder_default, rs_offer_sequence = 0, rs_recovered = 0\<rparr>"

text \<open>\<open>wall\<close> is what \<^verbatim>\<open>fresh_outbound_sequence\<close> returns: the wall clock in microseconds.\<close>

definition session_new :: "u64 \<Rightarrow> instant \<Rightarrow> SessionState" where
  "session_new wall now = \<lparr>ss_replay = replay_default, ss_endpoints = endpoints_default,
     ss_outbound_sequence = wall, ss_repair_turn = 0, ss_last_seen = now, ss_rejected_frames = 0,
     ss_repair = None, ss_reply_mtu = None, ss_fragments = reassembler_default\<rparr>"

definition server_header :: "u8 \<Rightarrow> bytes \<Rightarrow> u64 \<Rightarrow> u64 \<Rightarrow> FrameHeader" where
  "server_header flags client_id session_id sequence =
     \<lparr>fh_flags = flags OR FLAG_SERVER_TO_CLIENT, fh_client_id = client_id, fh_session_id = session_id,
       fh_sequence = sequence\<rparr>"

definition fan_out ::
  "crypto_lib \<Rightarrow> SessionCrypto \<Rightarrow> bytes \<Rightarrow> u64 \<Rightarrow> u8 \<Rightarrow> bytes \<Rightarrow> instant \<Rightarrow> SessionState
     \<Rightarrow> SessionState \<times> relay_action list \<times> u64 option" where
  "fan_out L crypto client_id session_id flags payload now s =
     (let (es, target, turn) =
            (if flags AND FLAG_REPAIR \<noteq> 0
             then let (es, target) = endpoint_repair_target now (ss_repair_turn s) (ss_endpoints s)
                  in (es, target, ss_repair_turn s + 1)
             else (ss_endpoints s, None, ss_repair_turn s));
          (es, endpoints) = targets now es;
          s = s\<lparr>ss_endpoints := es, ss_repair_turn := turn\<rparr>
      in if endpoints = [] then (s, [], None)
         else let s = s\<lparr>ss_outbound_sequence := ss_outbound_sequence s + 1\<rparr>;
                  header = server_header flags client_id session_id (ss_outbound_sequence s)
              in case seal_server L crypto header payload of
                   Inl _ \<Rightarrow> (s, [], None)
                 | Inr frame \<Rightarrow>
                     (s, [Send frame (case target of Some e \<Rightarrow> [e] | None \<Rightarrow> endpoints)], Some (fh_sequence header)))"

definition observe_endpoint :: "SocketAddr \<Rightarrow> instant \<Rightarrow> SessionState \<Rightarrow> SessionState" where
  "observe_endpoint endpoint now s =
     s\<lparr>ss_endpoints := observe endpoint now (ss_endpoints s), ss_last_seen := now\<rparr>"

text \<open>A control reply on the path the request came by: the next sequence, sealed and sent.\<close>

definition control_reply ::
  "crypto_lib \<Rightarrow> SessionCrypto \<Rightarrow> bytes \<Rightarrow> u64 \<Rightarrow> bytes \<Rightarrow> SocketAddr \<Rightarrow> SessionState
     \<Rightarrow> SessionState \<times> relay_action list" where
  "control_reply L crypto client_id session_id payload endpoint s =
     (let s = s\<lparr>ss_outbound_sequence := ss_outbound_sequence s + 1\<rparr>
      in case seal_server L crypto (server_header FLAG_CONTROL client_id session_id (ss_outbound_sequence s)) payload of
           Inl _ \<Rightarrow> (s, [])
         | Inr frame \<Rightarrow> (s, [Send frame [endpoint]]))"

text \<open>\<open>Ret None\<close> is the source's \<^verbatim>\<open>false\<close>: the payload is not a policy.\<close>

definition apply_path_policy ::
  "crypto_lib \<Rightarrow> SessionCrypto \<Rightarrow> FrameHeader \<Rightarrow> bytes \<Rightarrow> SocketAddr \<Rightarrow> instant \<Rightarrow> SessionState
     \<Rightarrow> (SessionState \<times> relay_action list) option outcome" where
  "apply_path_policy L crypto header plaintext endpoint now s =
     (case policy_parse plaintext of
        None \<Rightarrow> Ret None
      | Some policy \<Rightarrow>
          (case apply_policy endpoint policy (fh_flags header AND FLAG_PATH_UNHEALTHY = 0)
                  (fh_sequence header) now (ss_endpoints s) of
             None \<Rightarrow> Panic
           | Some es \<Rightarrow>
               Ret (Some (control_reply L crypto (fh_client_id header) (fh_session_id header) policy_accept endpoint
                      (s\<lparr>ss_endpoints := es\<rparr>)))))"

definition apply_repair_offer ::
  "crypto_lib \<Rightarrow> SessionCrypto \<Rightarrow> bytes \<Rightarrow> u64 \<Rightarrow> u64 \<Rightarrow> Offer \<Rightarrow> SocketAddr \<Rightarrow> instant \<Rightarrow> SessionState
     \<Rightarrow> SessionState \<times> relay_action list" where
  "apply_repair_offer L crypto client_id session_id offer_sequence o' endpoint now s =
     (let repair = (case ss_repair s of Some r \<Rightarrow> r | None \<Rightarrow> repair_state_new o');
          newer = (offer_sequence \<ge> rs_offer_sequence repair);
          (repair, closed) =
            (if newer
             then let (encoder, closed) =
                        set_group_size (of_group_size o') (set_max_packet (reply_repair_limit o') (rs_encoder repair))
                  in (repair\<lparr>rs_offer_sequence := offer_sequence, rs_encoder := encoder\<rparr>, closed)
             else (repair, None));
          applied = encoder_group_size (rs_encoder repair);
          s = s\<lparr>ss_repair := Some repair,
                ss_reply_mtu := (if newer then Some (max (of_mtu o') MIN_REPLY_MTU) else ss_reply_mtu s)\<rparr>;
          (s, sent) =
            (case closed of
               None \<Rightarrow> (s, [])
             | Some payload \<Rightarrow>
                 (let (s, sent, _) = fan_out L crypto client_id session_id FLAG_REPAIR payload now s in (s, sent)));
          (s, answer) = control_reply L crypto client_id session_id (fec_accept applied) endpoint s
      in (s, sent @ answer))"

definition ipv4_source :: "bytes \<Rightarrow> ipv4 option" where
  "ipv4_source packet =
     (if length packet < 20 \<or> drop_bit 4 (packet ! 0) \<noteq> 4 then None
      else Some [packet ! 12, packet ! 13, packet ! 14, packet ! 15])"

definition ipv4_destination :: "bytes \<Rightarrow> ipv4 option" where
  "ipv4_destination packet =
     (if length packet < 20 \<or> drop_bit 4 (packet ! 0) \<noteq> 4 then None
      else Some [packet ! 16, packet ! 17, packet ! 18, packet ! 19])"

definition rebuilt :: "bytes \<Rightarrow> instant \<Rightarrow> Reassembler \<Rightarrow> Reassembler \<times> bytes option" where
  "rebuilt packet now fragments =
     (if is_fragment packet then push packet now fragments else (fragments, Some packet))"

definition write_to_tun :: "bytes \<Rightarrow> instant \<Rightarrow> SessionState \<Rightarrow> SessionState \<times> relay_action list" where
  "write_to_tun packet now s =
     (let (fragments, whole) = rebuilt packet now (ss_fragments s)
      in (s\<lparr>ss_fragments := fragments\<rparr>, case whole of None \<Rightarrow> [] | Some p \<Rightarrow> [Tun p]))"

definition admit_rebuilt ::
  "ipv4 \<Rightarrow> u64 \<Rightarrow> bytes \<Rightarrow> instant \<Rightarrow> SessionState \<Rightarrow> SessionState \<times> relay_action list" where
  "admit_rebuilt virtual_ipv4 sequence packet now s =
     (if ipv4_source packet \<noteq> Some virtual_ipv4 then (s, [])
      else let (fresh_one, window) = replay_accept (ss_replay s) sequence;
               s = s\<lparr>ss_replay := window\<rparr>
           in if \<not> fresh_one then (s, [])
              else let (s, written) = write_to_tun packet now s
                   in (s\<lparr>ss_repair := map_option (\<lambda>r. r\<lparr>rs_decoder := remember sequence packet (rs_decoder r),
                            rs_recovered := rs_recovered r + 1\<rparr>) (ss_repair s)\<rparr>, written))"

subsection \<open>Retrying the waiting repairs\<close>

definition pending_count :: "SessionState \<Rightarrow> nat" where
  "pending_count s = (case ss_repair s of None \<Rightarrow> 0 | Some r \<Rightarrow> length (de_pending (rs_decoder r)))"

lemma write_to_tun_repair [simp]: "ss_repair (fst (write_to_tun packet now s)) = ss_repair s"
  by (simp add: write_to_tun_def case_prod_unfold Let_def)

lemma admit_rebuilt_pending [simp]:
  "pending_count (fst (admit_rebuilt ip q p now s)) = pending_count s"
  by (auto simp: admit_rebuilt_def pending_count_def Let_def case_prod_unfold split: option.splits)

text \<open>The loop: it ends because every rebuilt packet takes its repair out of the waiting list.\<close>

function retry_pending_repairs :: "ipv4 \<Rightarrow> instant \<Rightarrow> SessionState \<Rightarrow> SessionState \<times> relay_action list" where
  "retry_pending_repairs virtual_ipv4 now s =
     (case ss_repair s of
        None \<Rightarrow> (s, [])
      | Some repair \<Rightarrow>
          if \<not> has_pending (rs_decoder repair) then (s, [])
          else let result = retry_pending now (\<lambda>q. \<not> would_accept (ss_replay s) q) (rs_decoder repair);
                   s' = s\<lparr>ss_repair := Some (repair\<lparr>rs_decoder := fst result\<rparr>)\<rparr>
               in case snd result of
                    None \<Rightarrow> (s', [])
                  | Some (sequence, packet) \<Rightarrow>
                      (let admitted = admit_rebuilt virtual_ipv4 sequence packet now s';
                           rest = retry_pending_repairs virtual_ipv4 now (fst admitted)
                       in (fst rest, snd admitted @ snd rest)))"
  by pat_completeness auto
termination
proof (relation "measure (\<lambda>(ip, now, s). pending_count s)", goal_cases)
  case (2 ip now s repair result s' q sequence packet admitted)
  then have "length (de_pending (fst result)) < length (de_pending (rs_decoder repair))"
    using retry_pending_shrinks by auto
  moreover have "pending_count s' = length (de_pending (fst result))"
    "pending_count s = length (de_pending (rs_decoder repair))"
    using 2 by (simp_all add: pending_count_def)
  moreover have "pending_count (fst admitted) = pending_count s'" using 2 by simp
  ultimately show ?case by simp
qed simp

declare retry_pending_repairs.simps [simp del]

subsection \<open>A frame of the session\<close>

text \<open>
  The serve loop from \<^verbatim>\<open>observe_endpoint\<close> on, for a frame that was authenticated as coming from this
  session.
\<close>

definition control_frame ::
  "crypto_lib \<Rightarrow> SessionCrypto \<Rightarrow> bytes \<Rightarrow> FrameHeader \<Rightarrow> bytes \<Rightarrow> SocketAddr \<Rightarrow> instant \<Rightarrow> SessionState
     \<Rightarrow> (SessionState \<times> relay_action list) outcome" where
  "control_frame L crypto client_id header plaintext endpoint now s =
     (case apply_path_policy L crypto header plaintext endpoint now s of
        Panic \<Rightarrow> Panic
      | Ret (Some result) \<Rightarrow> Ret result
      | Ret None \<Rightarrow>
          (case parse_offer plaintext of
             Some o' \<Rightarrow>
               Ret (apply_repair_offer L crypto client_id (fh_session_id header) (fh_sequence header) o' endpoint now s)
           | None \<Rightarrow>
               (case probe_response plaintext of
                  None \<Rightarrow> Ret (s, [])
                | Some response \<Rightarrow>
                    Ret (control_reply L crypto client_id (fh_session_id header) response endpoint s))))"

definition repair_frame :: "ipv4 \<Rightarrow> bytes \<Rightarrow> instant \<Rightarrow> SessionState \<Rightarrow> SessionState \<times> relay_action list" where
  "repair_frame virtual_ipv4 plaintext now s =
     (case ss_repair s of
        None \<Rightarrow> (s, [])
      | Some repair \<Rightarrow>
          (let (decoder, result) = accept_repair plaintext now (\<lambda>q. \<not> would_accept (ss_replay s) q) (rs_decoder repair);
               s = s\<lparr>ss_repair := Some (repair\<lparr>rs_decoder := decoder\<rparr>)\<rparr>;
               (s, first) = (case result of
                  None \<Rightarrow> (s, [])
                | Some (sequence, packet) \<Rightarrow> admit_rebuilt virtual_ipv4 sequence packet now s);
               (s, rest) = retry_pending_repairs virtual_ipv4 now s
           in (s, first @ rest)))"

definition data_frame :: "ipv4 \<Rightarrow> u64 \<Rightarrow> bytes \<Rightarrow> instant \<Rightarrow> SessionState \<Rightarrow> SessionState \<times> relay_action list" where
  "data_frame virtual_ipv4 sequence plaintext now s =
     (if ipv4_source plaintext \<noteq> Some virtual_ipv4 then (s, [])
      else let (s, written) = write_to_tun plaintext now s
           in case ss_repair s of
                None \<Rightarrow> (s, written)
              | Some repair \<Rightarrow>
                  (let s = s\<lparr>ss_repair := Some (repair\<lparr>rs_decoder := remember sequence plaintext (rs_decoder repair)\<rparr>)\<rparr>;
                       (s, rest) = retry_pending_repairs virtual_ipv4 now s
                   in (s, written @ rest)))"

definition session_frame ::
  "crypto_lib \<Rightarrow> SessionCrypto \<Rightarrow> bytes \<Rightarrow> ipv4 \<Rightarrow> FrameHeader \<Rightarrow> bytes \<Rightarrow> SocketAddr \<Rightarrow> instant \<Rightarrow> SessionState
     \<Rightarrow> (SessionState \<times> relay_action list) outcome" where
  "session_frame L crypto client_id virtual_ipv4 header plaintext endpoint now s =
     (let s = observe_endpoint endpoint now s;
          (fresh_one, window) = replay_accept (ss_replay s) (fh_sequence header);
          s = s\<lparr>ss_replay := window\<rparr>
      in if \<not> fresh_one then Ret (s\<lparr>ss_rejected_frames := ss_rejected_frames s + 1\<rparr>, [])
         else if fh_flags header AND FLAG_CONTROL \<noteq> 0
         then control_frame L crypto client_id header plaintext endpoint now s
         else if fh_flags header AND FLAG_REPAIR \<noteq> 0 then Ret (repair_frame virtual_ipv4 plaintext now s)
         else Ret (data_frame virtual_ipv4 (fh_sequence header) plaintext now s))"

text \<open>One reply packet, and the flusher's visit to one session.\<close>

definition send_reply ::
  "crypto_lib \<Rightarrow> SessionCrypto \<Rightarrow> bytes \<Rightarrow> u64 \<Rightarrow> bytes \<Rightarrow> instant \<Rightarrow> SessionState
     \<Rightarrow> SessionState \<times> relay_action list" where
  "send_reply L crypto client_id session_id packet now s =
     (case fan_out L crypto client_id session_id 0 packet now s of
        (s, sent, None) \<Rightarrow> (s, sent)
      | (s, sent, Some sequence) \<Rightarrow>
          (case ss_repair s of
             None \<Rightarrow> (s, sent)
           | Some repair \<Rightarrow>
               (let (encoder, closed) = encoder_push sequence packet now (rs_encoder repair);
                    s = s\<lparr>ss_repair := Some (repair\<lparr>rs_encoder := encoder\<rparr>)\<rparr>
                in case closed of
                     None \<Rightarrow> (s, sent)
                   | Some payload \<Rightarrow>
                       (let (s, more_sent, _) = fan_out L crypto client_id session_id FLAG_REPAIR payload now s
                        in (s, sent @ more_sent)))))"

definition flush_session ::
  "crypto_lib \<Rightarrow> bytes \<Rightarrow> bytes \<Rightarrow> u64 \<Rightarrow> instant \<Rightarrow> SessionState \<Rightarrow> SessionState \<times> relay_action list" where
  "flush_session L key client_id session_id now s =
     (case ss_repair s of
        None \<Rightarrow> (s, [])
      | Some repair \<Rightarrow>
          (let (encoder, closed) = flush_due now (rs_encoder repair);
               s = s\<lparr>ss_repair := Some (repair\<lparr>rs_encoder := encoder\<rparr>)\<rparr>
           in case closed of
                None \<Rightarrow> (s, [])
              | Some payload \<Rightarrow>
                  (case session_crypto_new L key session_id of
                     Inl _ \<Rightarrow> (s, [])
                   | Inr crypto \<Rightarrow>
                       (let (s, sent, _) = fan_out L crypto client_id session_id FLAG_REPAIR payload now s
                        in (s, sent)))))"

fun send_replies ::
  "crypto_lib \<Rightarrow> SessionCrypto \<Rightarrow> bytes \<Rightarrow> u64 \<Rightarrow> bytes list \<Rightarrow> instant \<Rightarrow> SessionState
     \<Rightarrow> SessionState \<times> relay_action list" where
  "send_replies L crypto client_id session_id [] now s = (s, [])"
| "send_replies L crypto client_id session_id (piece # pieces) now s =
     (let (s, sent) = send_reply L crypto client_id session_id piece now s;
          (s, rest) = send_replies L crypto client_id session_id pieces now s
      in (s, sent @ rest))"

definition reply_session ::
  "crypto_lib \<Rightarrow> SessionCrypto \<Rightarrow> bytes \<Rightarrow> u64 \<Rightarrow> bytes \<Rightarrow> instant \<Rightarrow> SessionState
     \<Rightarrow> SessionState \<times> relay_action list" where
  "reply_session L crypto client_id session_id packet now s =
     (case Option.bind (ss_reply_mtu s) (\<lambda>mtu. split_for_tunnel packet (unat mtu)) of
        Some pieces \<Rightarrow> send_replies L crypto client_id session_id pieces now s
      | None \<Rightarrow> send_reply L crypto client_id session_id packet now s)"

end
