(* ===== verification/Relay_Safety.thy ===== *)
theory Relay_Safety
  imports Relay_Session
begin

section \<open>What a relay session guarantees\<close>

text \<open>
  Every operation of theory Relay_Session is a \<open>transition\<close>: it keeps the session's invariant, never
  lets the replay window accept what it refused before, writes only packets from the client's own
  address to the TUN device, and seals frames under strictly increasing sequences, using up at most a
  given number of them. Transitions compose, so every run of a session is one, and the properties are
  read off it.
\<close>

subsection \<open>Transitions\<close>

definition headers_from :: "ipv4 \<Rightarrow> Reassembler \<Rightarrow> bool" where
  "headers_from ip r \<longleftrightarrow> (\<forall>e \<in> set (ra_partials r). \<forall>h. pa_header (snd e) = Some h \<longrightarrow> ipv4_source h = Some ip)"

definition session_ok :: "ipv4 \<Rightarrow> SessionState \<Rightarrow> bool" where
  "session_ok ip s \<longleftrightarrow> window_ok (ss_replay s) \<and> endpoints_ok (ss_endpoints s)
     \<and> reassembler_ok (ss_fragments s) \<and> headers_from ip (ss_fragments s)"

definition frame_sequence :: "bytes \<Rightarrow> u64" where
  "frame_sequence frame = (case header_decode frame of Inl _ \<Rightarrow> 0 | Inr h \<Rightarrow> fh_sequence h)"

definition sent_sequences :: "relay_action list \<Rightarrow> u64 list" where
  "sent_sequences acts = concat (map (\<lambda>a. case a of Send f _ \<Rightarrow> [frame_sequence f] | Tun _ \<Rightarrow> []) acts)"

definition tun_packets :: "relay_action list \<Rightarrow> bytes list" where
  "tun_packets acts = concat (map (\<lambda>a. case a of Send _ _ \<Rightarrow> [] | Tun p \<Rightarrow> [p]) acts)"

lemma actions_append [simp]:
  "sent_sequences (a @ b) = sent_sequences a @ sent_sequences b" "tun_packets (a @ b) = tun_packets a @ tun_packets b"
  "sent_sequences [] = []" "tun_packets [] = []"
  "sent_sequences (Tun p # b) = sent_sequences b" "tun_packets (Tun p # b) = p # tun_packets b"
  "sent_sequences (Send f es # b) = frame_sequence f # sent_sequences b" "tun_packets (Send f es # b) = tun_packets b"
  by (simp_all add: sent_sequences_def tun_packets_def)

text \<open>\<open>n\<close> sequences were used, and the frames sent carry some of them, in increasing order.\<close>

definition uses_sequences :: "u64 \<Rightarrow> u64 list \<Rightarrow> nat \<Rightarrow> bool" where
  "uses_sequences start sent n \<longleftrightarrow>
     (\<exists>ks. sent = map (\<lambda>k. start + of_nat k) ks \<and> sorted_wrt (<) ks \<and> set ks \<subseteq> {1..n})"

lemma uses_none [simp]: "uses_sequences start [] n"
  by (simp add: uses_sequences_def)

lemma uses_one: "1 \<le> n \<Longrightarrow> uses_sequences start [start + of_nat n] n"
  unfolding uses_sequences_def by (rule exI [of _ "[n]"]) simp

lemma uses_append:
  assumes "uses_sequences start as n" and "uses_sequences (start + of_nat n) bs m"
  shows "uses_sequences start (as @ bs) (n + m)"
proof -
  obtain ks where ks: "as = map (\<lambda>k. start + of_nat k) ks" "sorted_wrt (<) ks" "set ks \<subseteq> {1..n}"
    using assms(1) by (auto simp: uses_sequences_def)
  obtain js where js: "bs = map (\<lambda>k. start + of_nat n + of_nat k) js" "sorted_wrt (<) js" "set js \<subseteq> {1..m}"
    using assms(2) by (auto simp: uses_sequences_def)
  have "as @ bs = map (\<lambda>k. start + of_nat k) (ks @ map (\<lambda>j. n + j) js)"
    by (simp add: ks(1) js(1) add.assoc)
  moreover have "sorted_wrt (<) (ks @ map (\<lambda>j. n + j) js)"
    using ks js by (fastforce simp: sorted_wrt_append sorted_wrt_map)
  moreover have "set (ks @ map (\<lambda>j. n + j) js) \<subseteq> {1..n + m}" using ks(3) js(3) by fastforce
  ultimately show ?thesis unfolding uses_sequences_def by blast
qed

lemma uses_distinct:
  assumes "uses_sequences start sent n" and "n < 2 ^ 64"
  shows "distinct sent"
proof -
  obtain ks where ks: "sent = map (\<lambda>k. start + of_nat k) ks" "sorted_wrt (<) ks" "set ks \<subseteq> {1..n}"
    using assms(1) by (auto simp: uses_sequences_def)
  have "inj_on (\<lambda>k. start + of_nat k :: u64) (set ks)"
  proof (rule inj_onI)
    fix j k assume jk: "j \<in> set ks" "k \<in> set ks" "start + of_nat j = (start + of_nat k :: u64)"
    then have "j < 2 ^ 64" "k < 2 ^ 64" using ks(3) assms(2) by force+
    moreover have "unat (of_nat j :: u64) = unat (of_nat k :: u64)" using jk(3) by simp
    ultimately show "j = k" by (simp add: unat_of_nat)
  qed
  moreover have "distinct ks" using ks(2) strict_sorted_iff by blast
  ultimately show ?thesis by (simp add: ks(1) distinct_map)
qed

lemma uses_increasing:
  assumes "uses_sequences start sent n" and "n < 2 ^ 64"
  shows "sorted_wrt (<) (map (\<lambda>q. q - start) sent)" and "list_all (\<lambda>q. 0 < q - start \<and> q - start \<le> of_nat n) sent"
proof -
  obtain ks where ks: "sent = map (\<lambda>k. start + of_nat k) ks" "sorted_wrt (<) ks" "set ks \<subseteq> {1..n}"
    using assms(1) by (auto simp: uses_sequences_def)
  have val: "unat (of_nat k :: u64) = k" if "k \<le> n" for k
    using that assms(2) by (simp add: unat_of_nat)
  have less: "(of_nat j :: u64) < of_nat k" if "j < k" "k \<le> n" for j k
    using that val [of j] val [of k] by (simp add: word_less_nat_alt)
  have "sorted_wrt (\<lambda>j k. (of_nat j :: u64) < of_nat k) ks"
    using ks(2) by (rule sorted_wrt_mono_rel [rotated]) (use ks(3) less in auto)
  then show "sorted_wrt (<) (map (\<lambda>q. q - start) sent)" by (simp add: ks(1) sorted_wrt_map)
  have "(0 :: u64) < of_nat k \<and> of_nat k \<le> (of_nat n :: u64)" if "k \<in> set ks" for k
    using that ks(3) less [of 0 k] val [of k] val [of n] by (auto simp: word_le_nat_alt)
  then show "list_all (\<lambda>q. 0 < q - start \<and> q - start \<le> of_nat n) sent" by (simp add: ks(1) list_all_iff)
qed

definition transition :: "ipv4 \<Rightarrow> nat \<Rightarrow> SessionState \<Rightarrow> relay_action list \<Rightarrow> SessionState \<Rightarrow> bool" where
  "transition ip k s acts s' \<longleftrightarrow> session_ok ip s'
     \<and> (\<forall>q. \<not> would_accept (ss_replay s) q \<longrightarrow> \<not> would_accept (ss_replay s') q)
     \<and> (\<forall>p \<in> set (tun_packets acts). ipv4_source p = Some ip)
     \<and> (\<exists>n \<le> k. ss_outbound_sequence s' = ss_outbound_sequence s + of_nat n
            \<and> uses_sequences (ss_outbound_sequence s) (sent_sequences acts) n)"

lemma transition_trans:
  assumes "transition ip j s as s1" and "transition ip k s1 bs s2"
  shows "transition ip (j + k) s (as @ bs) s2"
proof -
  obtain n where n: "n \<le> j" "ss_outbound_sequence s1 = ss_outbound_sequence s + of_nat n"
    "uses_sequences (ss_outbound_sequence s) (sent_sequences as) n"
    using assms(1) by (auto simp: transition_def)
  obtain m where m: "m \<le> k" "ss_outbound_sequence s2 = ss_outbound_sequence s1 + of_nat m"
    "uses_sequences (ss_outbound_sequence s1) (sent_sequences bs) m"
    using assms(2) by (auto simp: transition_def)
  have "uses_sequences (ss_outbound_sequence s) (sent_sequences (as @ bs)) (n + m)"
    using uses_append [OF n(3)] m(3) n(2) by simp
  moreover have "ss_outbound_sequence s2 = ss_outbound_sequence s + of_nat (n + m)"
    using n(2) m(2) by (simp add: add.assoc)
  moreover have "n + m \<le> j + k" using n(1) m(1) by simp
  ultimately show ?thesis using assms unfolding transition_def actions_append set_append by blast
qed

lemma transition_mono: "transition ip j s acts s' \<Longrightarrow> j \<le> k \<Longrightarrow> transition ip k s acts s'"
  unfolding transition_def by (meson order_trans)

lemma transition_quiet: "transition ip 0 s as s1 \<Longrightarrow> transition ip k s1 bs s2 \<Longrightarrow> transition ip k s (as @ bs) s2"
  using transition_trans [of ip 0 s as s1 k bs s2] by simp

text \<open>A change of anything but the window, the endpoints, the fragments and the sequence.\<close>

lemma transition_silent:
  assumes "session_ok ip s" and "ss_replay s' = ss_replay s" and "ss_outbound_sequence s' = ss_outbound_sequence s"
    and "endpoints_ok (ss_endpoints s')" and "ss_fragments s' = ss_fragments s"
  shows "transition ip k s [] s'"
  using assms by (auto simp: transition_def session_ok_def intro: exI [of _ 0])

subsection \<open>Sealing\<close>

lemma sealed_sequence:
  assumes "length client_id = 16"
    and "seal_server L crypto (server_header flags client_id session_id sequence) payload = Inr frame"
  shows "frame_sequence frame = sequence"
proof -
  let ?h = "server_header flags client_id session_id sequence"
  have "header_ok ?h" using assms(1) by (simp add: header_ok_def server_header_def)
  moreover obtain ct where "frame = header_encode ?h @ ct"
    using assms(2) by (auto simp: seal_server_def seal_Inr)
  ultimately have "header_decode frame = Inr ?h" by (simp add: header_decode_encode)
  then show ?thesis by (simp add: frame_sequence_def server_header_def)
qed

lemma transition_sealed:
  assumes "session_ok ip s" and "ss_replay s' = ss_replay s" and "endpoints_ok (ss_endpoints s')"
    and "ss_fragments s' = ss_fragments s" and "ss_outbound_sequence s' = ss_outbound_sequence s + 1"
    and "acts = [] \<or> (\<exists>f es. acts = [Send f es] \<and> frame_sequence f = ss_outbound_sequence s + 1)" and "1 \<le> k"
  shows "transition ip k s acts s'"
proof -
  have "uses_sequences (ss_outbound_sequence s) (sent_sequences acts) 1"
    using assms(6) uses_one [of 1 "ss_outbound_sequence s"] by auto
  then show ?thesis
    using assms by (auto simp: transition_def session_ok_def intro!: exI [of _ "1 :: nat"])
qed

lemma control_reply_transition:
  assumes "session_ok ip s" and "length client_id = 16"
  shows "transition ip 1 s (snd (control_reply L crypto client_id session_id payload endpoint s))
    (fst (control_reply L crypto client_id session_id payload endpoint s))"
  using assms sealed_sequence [OF assms(2)]
  by (intro transition_sealed) (auto simp: control_reply_def Let_def session_ok_def split: sum.splits)

lemma fan_out_transition:
  assumes "session_ok ip s" and "length client_id = 16"
  shows "transition ip 1 s (fst (snd (fan_out L crypto client_id session_id flags payload now s)))
    (fst (fan_out L crypto client_id session_id flags payload now s))"
proof -
  define pre where "pre = (if flags AND FLAG_REPAIR \<noteq> 0
    then let (es, target) = endpoint_repair_target now (ss_repair_turn s) (ss_endpoints s)
         in (es, target, ss_repair_turn s + 1)
    else (ss_endpoints s, None, ss_repair_turn s))"
  obtain es target turn where pre_eq: "pre = (es, target, turn)" by (cases pre)
  have "es = ss_endpoints s \<or> es = prune now (ss_endpoints s)"
    using pre_eq repair_target_state [of now "ss_repair_turn s" "ss_endpoints s"]
    by (auto simp: pre_def Let_def split: if_splits prod.splits)
  then have ok: "endpoints_ok (prune now es)" using assms(1) by (auto simp: session_ok_def)
  obtain ts where ts: "targets now es = (prune now es, ts)"
    using targets_state [of now es] by (cases "targets now es") auto
  let ?s1 = "s\<lparr>ss_endpoints := prune now es, ss_repair_turn := turn\<rparr>"
  let ?h = "server_header flags client_id session_id (ss_outbound_sequence s + 1)"
  have eq: "fan_out L crypto client_id session_id flags payload now s =
    (if ts = [] then (?s1, [], None)
     else case seal_server L crypto ?h payload of
            Inl _ \<Rightarrow> (?s1\<lparr>ss_outbound_sequence := ss_outbound_sequence s + 1\<rparr>, [], None)
          | Inr frame \<Rightarrow> (?s1\<lparr>ss_outbound_sequence := ss_outbound_sequence s + 1\<rparr>,
              [Send frame (case target of Some e \<Rightarrow> [e] | None \<Rightarrow> ts)], Some (fh_sequence ?h)))"
    unfolding fan_out_def pre_def [symmetric] pre_eq by (simp add: ts Let_def split: sum.splits)
  show ?thesis
  proof (cases "ts = []")
    case True
    then show ?thesis using assms(1) ok by (auto simp: eq intro: transition_silent)
  next
    case False
    then show ?thesis
      using assms(1) ok sealed_sequence [OF assms(2)]
      by (auto simp: eq split: sum.splits intro!: transition_sealed)
  qed
qed

lemma policy_transition:
  assumes "session_ok ip s" and "length (fh_client_id header) = 16"
  shows "\<exists>result. apply_path_policy L crypto header plaintext endpoint now s = Ret result
    \<and> (case result of None \<Rightarrow> True | Some (s', acts) \<Rightarrow> transition ip 1 s acts s')"
proof (cases "policy_parse plaintext")
  case None
  then show ?thesis by (simp add: apply_path_policy_def)
next
  case (Some policy)
  then obtain es where es: "apply_policy endpoint policy (fh_flags header AND FLAG_PATH_UNHEALTHY = 0)
      (fh_sequence header) now (ss_endpoints s) = Some es" "endpoints_ok es"
    using apply_policy_ok policy_parse_path assms(1) by (metis session_ok_def)
  have "transition ip 0 s [] (s\<lparr>ss_endpoints := es\<rparr>)"
    using assms(1) es(2) by (intro transition_silent) simp_all
  moreover have "session_ok ip (s\<lparr>ss_endpoints := es\<rparr>)"
    using assms(1) es(2) by (simp add: session_ok_def)
  ultimately have "transition ip 1 s
      ([] @ snd (control_reply L crypto (fh_client_id header) (fh_session_id header) policy_accept endpoint (s\<lparr>ss_endpoints := es\<rparr>)))
      (fst (control_reply L crypto (fh_client_id header) (fh_session_id header) policy_accept endpoint (s\<lparr>ss_endpoints := es\<rparr>)))"
    using control_reply_transition assms(2) by (intro transition_quiet)
  then show ?thesis
    using Some es(1) by (simp add: apply_path_policy_def case_prod_unfold)
qed

lemma transition_ok: "transition ip k s acts s' \<Longrightarrow> session_ok ip s'"
  by (simp add: transition_def)

lemma transition_repair:
  assumes "session_ok ip s"
  shows "transition ip k s [] (s\<lparr>ss_repair := r\<rparr>)" "session_ok ip (s\<lparr>ss_repair := r\<rparr>)"
  using assms by (auto simp: session_ok_def intro: transition_silent)

lemma offer_transition:
  assumes "session_ok ip s" and "length client_id = 16"
  shows "transition ip 2 s (snd (apply_repair_offer L crypto client_id session_id q o' endpoint now s))
    (fst (apply_repair_offer L crypto client_id session_id q o' endpoint now s))"
proof -
  define repair where "repair = (case ss_repair s of Some r \<Rightarrow> r | None \<Rightarrow> repair_state_new o')"
  define step where "step = (if q \<ge> rs_offer_sequence repair
     then let (encoder, closed) =
                set_group_size (of_group_size o') (set_max_packet (reply_repair_limit o') (rs_encoder repair))
          in (repair\<lparr>rs_offer_sequence := q, rs_encoder := encoder\<rparr>, closed)
     else (repair, None))"
  obtain r closed where step_eq: "step = (r, closed)" by (cases step)
  let ?s1 = "s\<lparr>ss_repair := Some r,
     ss_reply_mtu := (if q \<ge> rs_offer_sequence repair then Some (max (of_mtu o') MIN_REPLY_MTU) else ss_reply_mtu s)\<rparr>"
  have t1: "transition ip 0 s [] ?s1" using assms(1) by (intro transition_silent) (simp_all add: session_ok_def)
  define fo where "fo = (case closed of None \<Rightarrow> (?s1, []) | Some payload \<Rightarrow>
     (let (s, sent, _) = fan_out L crypto client_id session_id FLAG_REPAIR payload now ?s1 in (s, sent)))"
  have t2: "transition ip 1 ?s1 (snd fo) (fst fo)"
    using transition_ok [OF t1] fan_out_transition [OF transition_ok [OF t1] assms(2)]
    by (auto simp: fo_def case_prod_unfold Let_def session_ok_def intro: transition_silent split: option.splits)
  note t3 = control_reply_transition [OF transition_ok [OF t2] assms(2)]
  have "apply_repair_offer L crypto client_id session_id q o' endpoint now s =
    (let (s, answer) = control_reply L crypto client_id session_id (fec_accept (encoder_group_size (rs_encoder r))) endpoint (fst fo)
     in (s, snd fo @ answer))"
    unfolding apply_repair_offer_def repair_def [symmetric] Let_def step_def [unfolded Let_def, symmetric] step_eq
    by (cases closed) (simp_all add: fo_def case_prod_unfold Let_def)
  then show ?thesis
    using transition_quiet [OF t1 transition_trans [OF t2 t3]] by (simp add: case_prod_unfold Let_def numeral_2_eq_2)
qed

subsection \<open>Writing to the TUN device\<close>

lemma source_take:
  assumes "ipv4_source packet = Some ip" and "20 \<le> n" and "n \<le> length packet"
  shows "ipv4_source (take n packet) = Some ip"
  using assms by (auto simp: ipv4_source_def split: if_splits)

lemma whole_source:
  assumes "ipv4_source h = Some ip"
  shows "ipv4_source (whole_datagram h pieces) = Some ip"
proof -
  have len: "length h \<ge> 20" using assms by (auto simp: ipv4_source_def split: if_splits)
  let ?d = "whole_datagram h pieces"
  have d: "length ?d \<ge> 20" using len by (simp add: whole_datagram_def Let_def)
  have same: "?d ! i = h ! i" if "i < 20" "i < 2 \<or> 12 \<le> i" for i
    using that(2)
  proof
    assume "i < 2"
    then show ?thesis using len that(1) by (simp add: whole_datagram_def Let_def nth_put nth_append)
  next
    assume "12 \<le> i"
    then show ?thesis using len that(1) by (simp add: whole_datagram_def Let_def nth_put nth_append)
  qed
  show ?thesis using assms len d by (simp add: ipv4_source_def same split: if_splits)
qed

lemma headers_from_subset:
  "headers_from ip r \<Longrightarrow> set (ra_partials r') \<subseteq> set (ra_partials r) \<Longrightarrow> headers_from ip r'"
  unfolding headers_from_def by blast

lemma headers_from_store:
  assumes "headers_from ip r" and "\<forall>h. pa_header p = Some h \<longrightarrow> ipv4_source h = Some ip"
  shows "headers_from ip (store key p r)"
  using assms by (auto simp: headers_from_def store_def dest!: set_alist_update)

lemma headers_from_delete:
  "headers_from ip r \<Longrightarrow> headers_from ip (r\<lparr>ra_partials := AList.delete key (ra_partials r), ra_discarded := n\<rparr>)"
  "headers_from ip r \<Longrightarrow> headers_from ip (r\<lparr>ra_partials := AList.delete key (ra_partials r)\<rparr>)"
  by (auto elim!: headers_from_subset dest: set_alist_delete)

lemma headers_from_discard: "headers_from ip r \<Longrightarrow> headers_from ip (discard key r)"
  by (auto simp: discard_def elim!: headers_from_subset dest: set_alist_delete)

lemma complete_source:
  assumes "headers_from ip r" and "\<forall>h. pa_header p = Some h \<longrightarrow> ipv4_source h = Some ip"
  shows "headers_from ip (fst (complete_datagram key p (store key p r)))"
    and "snd (complete_datagram key p (store key p r)) = Some d \<Longrightarrow> ipv4_source d = Some ip"
  using assms headers_from_store [OF assms] headers_from_store [OF assms(1), of "p\<lparr>pa_pieces := ps\<rparr>" for ps]
    headers_from_delete [OF assms(1)]
  by (auto simp: complete_datagram_def discard_store Let_def whole_source split: option.splits coverage.splits if_splits)

lemma push_piece_source:
  assumes "headers_from ip r" and "\<forall>h. pa_header p = Some h \<longrightarrow> ipv4_source h = Some ip"
    and "ipv4_source header = Some ip"
  shows "headers_from ip (fst (push_piece key p header mf offset payload r))"
    and "snd (push_piece key p header mf offset payload r) = Some d \<Longrightarrow> ipv4_source d = Some ip"
proof -
  have w: "\<forall>h. pa_header (with_piece header mf offset payload p) = Some h \<longrightarrow> ipv4_source h = Some ip"
    using assms(2,3) by (simp add: with_piece_def)
  show "headers_from ip (fst (push_piece key p header mf offset payload r))"
    using complete_source(1) [OF assms(1) w] headers_from_discard [OF assms(1)] assms(1)
    by (auto simp: push_piece_def Let_def split: option.splits)
  show "snd (push_piece key p header mf offset payload r) = Some d \<Longrightarrow> ipv4_source d = Some ip"
    using complete_source(2) [OF assms(1) w] by (auto simp: push_piece_def Let_def split: option.splits if_splits)
qed

lemma push_source:
  assumes "headers_from ip r" and "ipv4_source packet = Some ip"
  shows "headers_from ip (fst (push packet now r))"
    and "snd (push packet now r) = Some d \<Longrightarrow> ipv4_source d = Some ip"
proof -
  let ?r = "expire_partials now r" and ?key = "datagram_key packet"
  have r: "headers_from ip ?r"
    using assms(1) by (rule headers_from_subset) (auto simp: expire_partials_def Let_def)
  then have e: "headers_from ip (evict_oldest ?key ?r)"
    by (auto simp: evict_oldest_def headers_from_discard split: option.splits)
  have "headers_from ip (fst (push packet now r)) \<and> (\<forall>d. snd (push packet now r) = Some d \<longrightarrow> ipv4_source d = Some ip)"
  proof (cases rule: push_cases [of packet now r])
    case (dropped n)
    then show ?thesis using r by (simp add: headers_from_def)
  next
    case given_up
    then show ?thesis using headers_from_discard [OF r] by simp
  next
    case (known hl mf off c p)
    have "\<forall>h. pa_header p = Some h \<longrightarrow> ipv4_source h = Some ip"
      using e map_of_SomeD [OF known(3)] by (auto simp: headers_from_def)
    then show ?thesis
      using push_piece_source [OF e _ source_take [OF assms(2) known(1,2)]] known(4) by simp
  next
    case (new hl mf off c)
    have none: "\<forall>h. pa_header (fresh_partial now) = Some h \<longrightarrow> ipv4_source h = Some ip" by (simp add: fresh_partial_def)
    show ?thesis
      using push_piece_source [OF headers_from_store [OF e none] none source_take [OF assms(2) new(1,2)]] new(4) by simp
  qed
  then show "headers_from ip (fst (push packet now r))"
    and "snd (push packet now r) = Some d \<Longrightarrow> ipv4_source d = Some ip" by auto
qed

lemma write_to_tun_transition:
  assumes "session_ok ip s" and "ipv4_source packet = Some ip"
  shows "transition ip 0 s (snd (write_to_tun packet now s)) (fst (write_to_tun packet now s))"
proof -
  have frag: "reassembler_ok (ss_fragments s)" "headers_from ip (ss_fragments s)"
    using assms(1) by (simp_all add: session_ok_def)
  have "reassembler_ok (fst (rebuilt packet now (ss_fragments s)))" "headers_from ip (fst (rebuilt packet now (ss_fragments s)))"
    "\<And>p. snd (rebuilt packet now (ss_fragments s)) = Some p \<Longrightarrow> ipv4_source p = Some ip"
    using frag push_ok push_source [OF frag(2) assms(2), of now] assms(2) by (auto simp: rebuilt_def split: if_splits)
  then show ?thesis
    using assms(1)
    by (auto simp: transition_def session_ok_def write_to_tun_def case_prod_unfold Let_def
        intro!: exI [of _ 0] split: option.splits)
qed

lemma window_transition:
  assumes "session_ok ip s"
  shows "transition ip 0 s [] (s\<lparr>ss_replay := snd (replay_accept (ss_replay s) q)\<rparr>)"
    and "\<not> would_accept (snd (replay_accept (ss_replay s) q)) q"
  using assms replay.commit_ok replay.commit_keeps replay.commit_blocks
  by (auto simp: transition_def session_ok_def intro!: exI [of _ 0])

lemma admit_rebuilt_transition:
  assumes "session_ok ip s"
  shows "transition ip 0 s (snd (admit_rebuilt ip q packet now s)) (fst (admit_rebuilt ip q packet now s))"
proof (cases "ipv4_source packet = Some ip")
  case False
  then show ?thesis using assms by (auto simp: admit_rebuilt_def session_ok_def intro: transition_silent)
next
  case True
  let ?s1 = "s\<lparr>ss_replay := snd (replay_accept (ss_replay s) q)\<rparr>"
  have t1: "transition ip 0 s [] ?s1" by (rule window_transition(1) [OF assms])
  let ?w = "write_to_tun packet now ?s1"
  have t2: "transition ip 0 ?s1 (snd ?w) (fst ?w)" by (rule write_to_tun_transition [OF transition_ok [OF t1] True])
  have t3: "transition ip 0 (fst ?w) [] ((fst ?w)\<lparr>ss_repair := r\<rparr>)" for r
    by (rule transition_repair(1) [OF transition_ok [OF t2]])
  show ?thesis
    using t1 transition_quiet [OF t1 transition_trans [OF t2 t3]] True
    by (simp add: admit_rebuilt_def case_prod_unfold Let_def)
qed

lemma retry_transition:
  "session_ok ip s \<Longrightarrow> transition ip 0 s (snd (retry_pending_repairs ip now s)) (fst (retry_pending_repairs ip now s))"
proof (induction ip now s rule: retry_pending_repairs.induct)
  case (1 ip now s)
  have refl: "transition ip 0 s [] s" using 1(2) by (auto simp: session_ok_def intro: transition_silent)
  show ?case
  proof (cases "ss_repair s")
    case None
    then show ?thesis using refl by (simp add: retry_pending_repairs.simps [of ip now s])
  next
    case (Some repair)
    define result where "result = retry_pending now (\<lambda>q. \<not> would_accept (ss_replay s) q) (rs_decoder repair)"
    define s' where "s' = s\<lparr>ss_repair := Some (repair\<lparr>rs_decoder := fst result\<rparr>)\<rparr>"
    have t1: "transition ip 0 s [] s'" unfolding s'_def by (rule transition_repair(1) [OF 1(2)])
    show ?thesis
    proof (cases "has_pending (rs_decoder repair)")
      case False
      then show ?thesis using Some refl by (simp add: retry_pending_repairs.simps [of ip now s])
    next
      case True
      show ?thesis
      proof (cases "snd result")
        case None
        then show ?thesis
          using Some True t1 by (simp add: retry_pending_repairs.simps [of ip now s] result_def s'_def Let_def)
      next
        case (Some qp)
        obtain q packet where qp: "qp = (q, packet)" by (cases qp)
        define a where "a = admit_rebuilt ip q packet now s'"
        have t2: "transition ip 0 s' (snd a) (fst a)"
          unfolding a_def by (rule admit_rebuilt_transition [OF transition_ok [OF t1]])
        have t3: "transition ip 0 (fst a) (snd (retry_pending_repairs ip now (fst a))) (fst (retry_pending_repairs ip now (fst a)))"
          using 1(1) [OF \<open>ss_repair s = Some repair\<close> _ result_def s'_def Some, of q packet a] True transition_ok [OF t2] qp
          by (simp add: a_def)
        have "retry_pending_repairs ip now s =
            (fst (retry_pending_repairs ip now (fst a)), snd a @ snd (retry_pending_repairs ip now (fst a)))"
          using \<open>ss_repair s = Some repair\<close> True Some qp
          by (simp add: retry_pending_repairs.simps [of ip now s] result_def [symmetric] s'_def [symmetric] a_def Let_def)
        then show ?thesis using transition_quiet [OF t1 transition_trans [OF t2 t3]] by simp
      qed
    qed
  qed
qed

subsection \<open>Frames, replies and the flusher\<close>

lemma observe_transition:
  assumes "session_ok ip s"
  shows "transition ip 0 s [] (observe_endpoint endpoint now s)"
  using assms by (intro transition_silent) (simp_all add: observe_endpoint_def session_ok_def observe_ok)

lemma control_transition:
  assumes "session_ok ip s" and "length client_id = 16" and "length (fh_client_id header) = 16"
  shows "\<exists>s' acts. control_frame L crypto client_id header plaintext endpoint now s = Ret (s', acts) \<and> transition ip 2 s acts s'"
proof -
  have refl: "transition ip 2 s [] s" using assms(1) by (auto simp: session_ok_def intro: transition_silent)
  obtain result where result: "apply_path_policy L crypto header plaintext endpoint now s = Ret result"
      "case result of None \<Rightarrow> True | Some (s', acts) \<Rightarrow> transition ip 1 s acts s'"
    using policy_transition [OF assms(1,3)] by blast
  show ?thesis
  proof (cases result)
    case (Some r)
    then show ?thesis using result by (cases r) (auto simp: control_frame_def intro: transition_mono)
  next
    case None
    have "\<exists>s' acts. r = (s', acts) \<and> transition ip 2 s acts s'" if "transition ip 2 s (snd r) (fst r)" for r
      using that by (cases r) auto
    then show ?thesis
      using None result(1) refl offer_transition [OF assms(1,2)] transition_mono [OF control_reply_transition [OF assms(1,2)], where k = 2]
      by (auto simp: control_frame_def split: option.splits)
  qed
qed

lemma repair_frame_transition:
  assumes "session_ok ip s"
  shows "transition ip 0 s (snd (repair_frame ip plaintext now s)) (fst (repair_frame ip plaintext now s))"
proof (cases "ss_repair s")
  case None
  then show ?thesis using assms by (auto simp: repair_frame_def session_ok_def intro: transition_silent)
next
  case (Some repair)
  let ?a = "accept_repair plaintext now (\<lambda>q. \<not> would_accept (ss_replay s) q) (rs_decoder repair)"
  let ?s1 = "s\<lparr>ss_repair := Some (repair\<lparr>rs_decoder := fst ?a\<rparr>)\<rparr>"
  have t1: "transition ip 0 s [] ?s1" by (rule transition_repair(1) [OF assms])
  define m where "m = (case snd ?a of None \<Rightarrow> (?s1, []) | Some (q, packet) \<Rightarrow> admit_rebuilt ip q packet now ?s1)"
  have t2: "transition ip 0 ?s1 (snd m) (fst m)"
    using transition_ok [OF t1] admit_rebuilt_transition [OF transition_ok [OF t1]]
    by (auto simp: m_def session_ok_def intro: transition_silent split: option.splits)
  note t3 = retry_transition [OF transition_ok [OF t2]]
  have "repair_frame ip plaintext now s =
      (fst (retry_pending_repairs ip now (fst m)), snd m @ snd (retry_pending_repairs ip now (fst m)))"
    using Some by (simp add: repair_frame_def m_def case_prod_unfold Let_def)
  then show ?thesis using transition_quiet [OF t1 transition_trans [OF t2 t3]] by simp
qed

lemma data_frame_transition:
  assumes "session_ok ip s"
  shows "transition ip 0 s (snd (data_frame ip q plaintext now s)) (fst (data_frame ip q plaintext now s))"
proof (cases "ipv4_source plaintext = Some ip")
  case False
  then show ?thesis using assms by (auto simp: data_frame_def session_ok_def intro: transition_silent)
next
  case True
  let ?w = "write_to_tun plaintext now s"
  have t1: "transition ip 0 s (snd ?w) (fst ?w)" by (rule write_to_tun_transition [OF assms True])
  show ?thesis
  proof (cases "ss_repair s")
    case None
    then show ?thesis using True t1 by (simp add: data_frame_def case_prod_unfold Let_def)
  next
    case (Some repair)
    let ?s2 = "(fst ?w)\<lparr>ss_repair := Some (repair\<lparr>rs_decoder := remember q plaintext (rs_decoder repair)\<rparr>)\<rparr>"
    have t2: "transition ip 0 (fst ?w) [] ?s2" by (rule transition_repair(1) [OF transition_ok [OF t1]])
    note t3 = retry_transition [OF transition_ok [OF t2], of now]
    show ?thesis
      using True Some transition_quiet [OF t1 transition_trans [OF t2 t3]]
      by (simp add: data_frame_def case_prod_unfold Let_def)
  qed
qed

lemma transition_result: "transition ip k s (snd r) (fst r) \<Longrightarrow> \<exists>s' acts. Ret r = Ret (s', acts) \<and> transition ip k s acts s'"
  by (cases r) auto

lemma dispatch_transition:
  assumes "session_ok ip s" and "length client_id = 16" and "length (fh_client_id header) = 16"
  shows "\<exists>s' acts. (if c1 then Ret (s\<lparr>ss_rejected_frames := n\<rparr>, [])
      else if c2 then control_frame L crypto client_id header plaintext endpoint now s
      else if c3 then Ret (repair_frame ip plaintext now s)
      else Ret (data_frame ip q plaintext now s)) = Ret (s', acts) \<and> transition ip 2 s acts s'"
proof -
  have "transition ip 2 s [] (s\<lparr>ss_rejected_frames := n\<rparr>)"
    using assms(1) by (intro transition_silent) (simp_all add: session_ok_def)
  then show ?thesis
    using control_transition [OF assms] transition_result [OF transition_mono [OF repair_frame_transition [OF assms(1)], where k = 2]]
      transition_result [OF transition_mono [OF data_frame_transition [OF assms(1)], where k = 2]]
    by (cases c1; cases c2; cases c3) simp_all
qed

lemma session_frame_transition:
  assumes "session_ok ip s" and "length client_id = 16" and "length (fh_client_id header) = 16"
  shows "\<exists>s' acts. session_frame L crypto client_id ip header plaintext endpoint now s = Ret (s', acts)
    \<and> transition ip 2 s acts s' \<and> \<not> would_accept (ss_replay s') (fh_sequence header)"
proof -
  let ?s1 = "observe_endpoint endpoint now s"
  have t1: "transition ip 0 s [] ?s1" by (rule observe_transition [OF assms(1)])
  let ?q = "fh_sequence header"
  let ?s2 = "?s1\<lparr>ss_replay := snd (replay_accept (ss_replay ?s1) ?q)\<rparr>"
  have t2: "transition ip 0 ?s1 [] ?s2" by (rule window_transition(1) [OF transition_ok [OF t1]])
  have blocked: "\<not> would_accept (ss_replay ?s2) ?q"
    using window_transition(2) [OF transition_ok [OF t1], of ?q] by simp
  have ok2: "session_ok ip ?s2" by (rule transition_ok [OF t2])
  have t12: "transition ip 0 s [] ?s2" using transition_quiet [OF t1 t2] by simp
  have "\<exists>s' acts. (if \<not> fst (replay_accept (ss_replay ?s1) ?q) then Ret (?s2\<lparr>ss_rejected_frames := ss_rejected_frames ?s2 + 1\<rparr>, [])
      else if fh_flags header AND FLAG_CONTROL \<noteq> 0 then control_frame L crypto client_id header plaintext endpoint now ?s2
      else if fh_flags header AND FLAG_REPAIR \<noteq> 0 then Ret (repair_frame ip plaintext now ?s2)
      else Ret (data_frame ip ?q plaintext now ?s2)) = Ret (s', acts) \<and> transition ip 2 ?s2 acts s'"
    by (rule dispatch_transition [OF ok2 assms(2,3)])
  then obtain s' acts where run: "session_frame L crypto client_id ip header plaintext endpoint now s = Ret (s', acts)"
      "transition ip 2 ?s2 acts s'"
    by (auto simp: session_frame_def case_prod_unfold Let_def)
  then have "\<not> would_accept (ss_replay s') ?q" using blocked by (simp add: transition_def)
  with run transition_quiet [OF t12 run(2)] show ?thesis by auto
qed

lemma send_reply_transition:
  assumes "session_ok ip s" and "length client_id = 16"
  shows "transition ip 2 s (snd (send_reply L crypto client_id session_id packet now s))
    (fst (send_reply L crypto client_id session_id packet now s))"
proof -
  obtain s1 sent q where fo: "fan_out L crypto client_id session_id 0 packet now s = (s1, sent, q)" by (rule prod_cases3)
  have t1: "transition ip 1 s sent s1" using fan_out_transition [OF assms, of L crypto session_id 0 packet now] by (simp add: fo)
  show ?thesis
  proof (cases q)
    case None
    then show ?thesis using transition_mono [OF t1, of 2] by (simp add: send_reply_def fo)
  next
    case (Some sequence)
    show ?thesis
    proof (cases "ss_repair s1")
      case None
      then show ?thesis using Some transition_mono [OF t1, of 2] by (simp add: send_reply_def fo)
    next
      case r: (Some repair)
      let ?p = "encoder_push sequence packet now (rs_encoder repair)"
      let ?s2 = "s1\<lparr>ss_repair := Some (repair\<lparr>rs_encoder := fst ?p\<rparr>)\<rparr>"
      have t2: "transition ip 0 s1 [] ?s2" by (rule transition_repair(1) [OF transition_ok [OF t1]])
      note t3 = fan_out_transition [OF transition_ok [OF t2] assms(2)]
      have "transition ip 2 s sent ?s2" using transition_mono [OF transition_trans [OF t1 t2], of 2] by simp
      then show ?thesis
        using Some r transition_trans [OF t1 transition_quiet [OF t2 t3]]
        by (simp add: numeral_2_eq_2 send_reply_def fo case_prod_unfold Let_def split: option.splits)
    qed
  qed
qed

lemma send_replies_transition:
  "session_ok ip s \<Longrightarrow> length client_id = 16 \<Longrightarrow>
     transition ip (2 * length pieces) s (snd (send_replies L crypto client_id session_id pieces now s))
       (fst (send_replies L crypto client_id session_id pieces now s))"
proof (induction pieces arbitrary: s)
  case Nil
  then show ?case by (auto simp: session_ok_def intro: transition_silent)
next
  case (Cons piece pieces)
  note t1 = send_reply_transition [OF Cons.prems]
  note t2 = Cons.IH [OF transition_ok [OF t1] Cons.prems(2)]
  show ?case using transition_trans [OF t1 t2] by (simp add: case_prod_unfold Let_def)
qed

lemma length_chunks_le: "length (chunks n xs) \<le> length xs"
proof (induction n xs rule: chunks.induct)
  case (1 n xs)
  show ?case
  proof (cases "n = 0 \<or> xs = []")
    case True
    then show ?thesis by (simp add: chunks.simps [of n xs])
  next
    case False
    then have "length (chunks n (drop n xs)) \<le> length xs - n" "0 < n" "0 < length xs" using 1 by simp_all
    then have "length (chunks n (drop n xs)) < length xs" by linarith
    then show ?thesis using False by (simp add: chunks.simps [of n xs])
  qed
qed

lemma split_pieces_bound: "split_for_tunnel packet mtu = Some pieces \<Longrightarrow> length pieces \<le> length packet"
  by (auto simp: split_for_tunnel_def Let_def length_chunks_le split: if_splits intro!: order_trans [OF length_chunks_le])

lemma reply_transition:
  assumes "session_ok ip s" and "length client_id = 16"
  shows "transition ip (2 * (length packet + 1)) s (snd (reply_session L crypto client_id session_id packet now s))
    (fst (reply_session L crypto client_id session_id packet now s))"
proof (cases "Option.bind (ss_reply_mtu s) (\<lambda>mtu. split_for_tunnel packet (unat mtu))")
  case None
  then show ?thesis
    using transition_mono [OF send_reply_transition [OF assms], of "2 * (length packet + 1)"] by (simp add: reply_session_def)
next
  case (Some pieces)
  then have "length pieces \<le> length packet" by (auto simp: bind_eq_Some_conv intro: split_pieces_bound)
  then show ?thesis
    using transition_mono [OF send_replies_transition [OF assms, of pieces L crypto session_id now], of "2 * (length packet + 1)"] Some
    by (simp add: reply_session_def)
qed

lemma flush_transition:
  assumes "session_ok ip s" and "length client_id = 16"
  shows "transition ip 1 s (snd (flush_session L key client_id session_id now s))
    (fst (flush_session L key client_id session_id now s))"
proof (cases "ss_repair s")
  case None
  then show ?thesis using assms by (auto simp: flush_session_def session_ok_def intro: transition_silent)
next
  case (Some repair)
  let ?s1 = "s\<lparr>ss_repair := Some (repair\<lparr>rs_encoder := fst (flush_due now (rs_encoder repair))\<rparr>)\<rparr>"
  have t1: "transition ip 0 s [] ?s1" by (rule transition_repair(1) [OF assms(1)])
  note t2 = fan_out_transition [OF transition_ok [OF t1] assms(2)]
  show ?thesis
    using Some transition_mono [OF t1, of 1] transition_quiet [OF t1 t2]
    by (simp add: flush_session_def case_prod_unfold Let_def split: option.splits sum.splits)
qed

subsection \<open>Runs of a session\<close>

text \<open>
  Whatever happens to a session during its life: authenticated frames, replies read from the TUN
  device, visits of the flusher.
\<close>

datatype session_event =
    Client_Frame FrameHeader bytes SocketAddr instant
  | Reply_Packet bytes instant
  | Flush instant

fun session_step ::
  "crypto_lib \<Rightarrow> SessionCrypto \<Rightarrow> bytes \<Rightarrow> bytes \<Rightarrow> u64 \<Rightarrow> ipv4 \<Rightarrow> session_event \<Rightarrow> SessionState
     \<Rightarrow> (SessionState \<times> relay_action list) outcome" where
  "session_step L crypto key client_id session_id ip (Client_Frame header plaintext endpoint now) s =
     session_frame L crypto client_id ip header plaintext endpoint now s"
| "session_step L crypto key client_id session_id ip (Reply_Packet packet now) s =
     Ret (reply_session L crypto client_id session_id packet now s)"
| "session_step L crypto key client_id session_id ip (Flush now) s =
     Ret (flush_session L key client_id session_id now s)"

fun session_run ::
  "crypto_lib \<Rightarrow> SessionCrypto \<Rightarrow> bytes \<Rightarrow> bytes \<Rightarrow> u64 \<Rightarrow> ipv4 \<Rightarrow> session_event list \<Rightarrow> SessionState
     \<Rightarrow> (SessionState \<times> relay_action list) outcome" where
  "session_run L crypto key client_id session_id ip [] s = Ret (s, [])"
| "session_run L crypto key client_id session_id ip (e # es) s =
     (case session_step L crypto key client_id session_id ip e s of
        Panic \<Rightarrow> Panic
      | Ret (s, acts) \<Rightarrow>
          (case session_run L crypto key client_id session_id ip es s of
             Panic \<Rightarrow> Panic
           | Ret (s, rest) \<Rightarrow> Ret (s, acts @ rest)))"

text \<open>Frames come out of \<^verbatim>\<open>FrameHeader::decode\<close>, whose client id has 16 bytes.\<close>

fun event_ok :: "session_event \<Rightarrow> bool" where
  "event_ok (Client_Frame header plaintext endpoint now) \<longleftrightarrow> length (fh_client_id header) = 16"
| "event_ok _ \<longleftrightarrow> True"

text \<open>How many sequences an event can use up: a control frame closes a group and is answered, each piece of a
  reply is followed by a repair, the flusher sends one repair.\<close>

fun seals_at_most :: "session_event \<Rightarrow> nat" where
  "seals_at_most (Client_Frame header plaintext endpoint now) = 2"
| "seals_at_most (Reply_Packet packet now) = 2 * (length packet + 1)"
| "seals_at_most (Flush now) = 1"

lemma session_step_transition:
  assumes "session_ok ip s" and "length client_id = 16" and "event_ok e"
  shows "\<exists>s' acts. session_step L crypto key client_id session_id ip e s = Ret (s', acts) \<and> transition ip (seals_at_most e) s acts s'"
proof (cases e)
  case (Client_Frame header plaintext endpoint now)
  then have "length (fh_client_id header) = 16" using assms(3) by simp
  from session_frame_transition [OF assms(1,2) this, of L crypto plaintext endpoint now] Client_Frame
  show ?thesis by auto
next
  case (Reply_Packet packet now)
  then show ?thesis using transition_result [OF reply_transition [OF assms(1,2)]] by simp
next
  case (Flush now)
  then show ?thesis using transition_result [OF flush_transition [OF assms(1,2)]] by simp
qed

lemma session_run_transition:
  assumes "length client_id = 16"
  shows "session_ok ip s \<Longrightarrow> list_all event_ok es \<Longrightarrow>
    \<exists>s' acts. session_run L crypto key client_id session_id ip es s = Ret (s', acts)
      \<and> transition ip (sum_list (map seals_at_most es)) s acts s'"
proof (induction es arbitrary: s)
  case Nil
  then show ?case by (auto simp: session_ok_def intro: transition_silent)
next
  case (Cons e es)
  obtain s1 as where s1: "session_step L crypto key client_id session_id ip e s = Ret (s1, as)" "transition ip (seals_at_most e) s as s1"
    using session_step_transition [OF Cons.prems(1) assms] Cons.prems(2) by force
  obtain s2 bs where s2: "session_run L crypto key client_id session_id ip es s1 = Ret (s2, bs)" "transition ip (sum_list (map seals_at_most es)) s1 bs s2"
    using Cons.IH [OF transition_ok [OF s1(2)]] Cons.prems(2) by auto
  show ?case using s1(1) s2(1) transition_trans [OF s1(2) s2(2)] by auto
qed

lemma session_run_append:
  "session_run L crypto key client_id session_id ip (as @ bs) s =
     (case session_run L crypto key client_id session_id ip as s of
        Panic \<Rightarrow> Panic
      | Ret (s1, u) \<Rightarrow>
          (case session_run L crypto key client_id session_id ip bs s1 of
             Panic \<Rightarrow> Panic
           | Ret (s2, v) \<Rightarrow> Ret (s2, u @ v)))"
  by (induction as arbitrary: s) (auto split: outcome.splits prod.splits)

lemma session_new_ok: "session_ok ip (session_new wall now)"
proof -
  have "headers_from ip reassembler_default" by (simp add: headers_from_def reassembler_default_def)
  then show ?thesis by (simp add: session_ok_def session_new_def endpoints_default_ok reassembler_default_ok)
qed

text \<open>
  C7. A client can only speak for itself: over the whole life of a session, whatever frames, repairs and
  fragments arrive and in whatever order, the relay does not panic and every packet it writes to the
  TUN device carries the virtual address the client is enrolled with - also packets rebuilt from
  repairs and datagrams rebuilt from fragments.
\<close>

theorem tun_writes_carry_client_address:
  assumes "length client_id = 16" and "list_all event_ok events"
  shows "\<exists>s acts. session_run L crypto key client_id session_id ip events (session_new wall start) = Ret (s, acts)
    \<and> list_all (\<lambda>p. ipv4_source p = Some ip) (tun_packets acts)"
proof -
  obtain s acts where "session_run L crypto key client_id session_id ip events (session_new wall start) = Ret (s, acts)"
      "transition ip (sum_list (map seals_at_most events)) (session_new wall start) acts s"
    using session_run_transition [OF assms(1) session_new_ok assms(2)] by blast
  then show ?thesis by (auto simp: transition_def list_all_iff)
qed

text \<open>
  C8. No nonce is used twice: counted from the session's start, the sequences of the frames a session
  sends strictly increase from frame to frame and end at its counter, so no two frames share one, as
  long as the events of its life cannot use up the \<open>2 ^ 64\<close> sequences (a frame of the client uses at most two, a
  reply two for each of its pieces, the flusher one). The AEAD nonce is the sequence under the session's key.
\<close>

theorem sealed_frames_never_repeat_a_nonce:
  assumes "length client_id = 16" and "list_all event_ok events" and "sum_list (map seals_at_most events) < 2 ^ 64"
  shows "\<exists>s acts. session_run L crypto key client_id session_id ip events (session_new wall start) = Ret (s, acts)
    \<and> distinct (sent_sequences acts)
    \<and> sorted_wrt (<) (map (\<lambda>q. q - wall) (sent_sequences acts))
    \<and> list_all (\<lambda>q. 0 < q - wall \<and> q - wall \<le> ss_outbound_sequence s - wall) (sent_sequences acts)"
proof -
  obtain s acts where run: "session_run L crypto key client_id session_id ip events (session_new wall start) = Ret (s, acts)"
      "transition ip (sum_list (map seals_at_most events)) (session_new wall start) acts s"
    using session_run_transition [OF assms(1) session_new_ok assms(2)] by blast
  then obtain n where n: "n \<le> sum_list (map seals_at_most events)" "ss_outbound_sequence s = wall + of_nat n"
      "uses_sequences wall (sent_sequences acts) n"
    by (auto simp: transition_def session_new_def)
  then have "n < 2 ^ 64" using assms(3) by simp
  with run(1) uses_distinct [OF n(3)] uses_increasing [OF n(3)] n(2) show ?thesis by auto
qed

text \<open>
  A frame has an effect at most once: after a frame has been handled, and whatever happens to the
  session afterwards, the same sequence arriving again - the duplicate of a second path, or a replay -
  sends nothing and writes nothing.
\<close>

theorem repeated_frame_has_no_effect:
  assumes "length client_id = 16" and "list_all event_ok (earlier @ Client_Frame header plaintext endpoint now # later)"
    and "session_run L crypto key client_id session_id ip
      (earlier @ Client_Frame header plaintext endpoint now # later) (session_new wall start) = Ret (s, acts)"
    and "length (fh_client_id again) = 16" and "fh_sequence again = fh_sequence header"
  shows "\<exists>s'. session_frame L crypto client_id ip again plaintext' endpoint' now' s = Ret (s', [])
    \<and> ss_rejected_frames s' = ss_rejected_frames s + 1 \<and> ss_fragments s' = ss_fragments s \<and> ss_repair s' = ss_repair s"
proof -
  let ?frame = "Client_Frame header plaintext endpoint now"
  obtain s1 u v where s1: "session_run L crypto key client_id session_id ip earlier (session_new wall start) = Ret (s1, u)"
      "session_run L crypto key client_id session_id ip (?frame # later) s1 = Ret (s, v)"
    using assms(3) by (auto simp: session_run_append split: outcome.splits prod.splits)
  have early: "list_all event_ok earlier" and late: "list_all event_ok later" using assms(2) by simp_all
  obtain s1' u' where "session_run L crypto key client_id session_id ip earlier (session_new wall start) = Ret (s1', u')"
      "transition ip (sum_list (map seals_at_most earlier)) (session_new wall start) u' s1'"
    using session_run_transition [OF assms(1) session_new_ok early] by blast
  then have ok1: "session_ok ip s1" using s1(1) by (auto dest: transition_ok)
  have "length (fh_client_id header) = 16" using assms(2) by simp
  then obtain s2 acts2 where s2: "session_frame L crypto client_id ip header plaintext endpoint now s1 = Ret (s2, acts2)"
      "transition ip 2 s1 acts2 s2" "\<not> would_accept (ss_replay s2) (fh_sequence header)"
    using session_frame_transition [OF ok1 assms(1)] by blast
  obtain w where w: "session_run L crypto key client_id session_id ip later s2 = Ret (s, w)"
    using s1(2) s2(1) by (auto split: outcome.splits prod.splits)
  obtain s' w' where "session_run L crypto key client_id session_id ip later s2 = Ret (s', w')" "transition ip (sum_list (map seals_at_most later)) s2 w' s'"
    using session_run_transition [OF assms(1) transition_ok [OF s2(2)] late] by blast
  with w have "transition ip (sum_list (map seals_at_most later)) s2 w s" by simp
  then have no: "\<not> would_accept (ss_replay s) (fh_sequence again)" using s2(3) assms(5) by (simp add: transition_def)
  then have "\<not> fst (replay_accept (ss_replay s) (fh_sequence again))" by (simp add: accept_verdict)
  then show ?thesis
    by (auto simp: session_frame_def observe_endpoint_def case_prod_unfold Let_def)
qed

subsection \<open>A concrete session\<close>

definition sample_events :: "session_event list" where
  "sample_events =
     [Client_Frame sample_header (probe_request 3) (SocketAddrV4 [192, 0, 2, 1] 4000) 0,
      Reply_Packet [1, 2, 3] 1, Flush 2]"

lemma sample_events_ok: "list_all event_ok sample_events"
  by (simp add: sample_events_def sample_header_def)

theorem tun_writes_carry_client_address_witness:
  "\<exists>s acts. session_run tag_lib sample_crypto [7] (replicate 16 0) 9 [10, 203, 0, 2] sample_events (session_new 5 0) = Ret (s, acts)
    \<and> list_all (\<lambda>p. ipv4_source p = Some [10, 203, 0, 2]) (tun_packets acts)"
  by (rule tun_writes_carry_client_address [OF _ sample_events_ok]) simp

theorem sealed_frames_never_repeat_a_nonce_witness:
  "\<exists>s acts. session_run tag_lib sample_crypto [7] (replicate 16 0) 9 [10, 203, 0, 2] sample_events (session_new 5 0) = Ret (s, acts)
    \<and> distinct (sent_sequences acts)
    \<and> sorted_wrt (<) (map (\<lambda>q. q - 5) (sent_sequences acts))
    \<and> list_all (\<lambda>q. 0 < q - 5 \<and> q - 5 \<le> ss_outbound_sequence s - 5) (sent_sequences acts)"
  by (rule sealed_frames_never_repeat_a_nonce [OF _ sample_events_ok]) (simp_all add: sample_events_def)

theorem repeated_frame_has_no_effect_witness:
  "\<exists>s acts s'. session_run tag_lib sample_crypto [7] (replicate 16 0) 9 [10, 203, 0, 2] sample_events (session_new 5 0) = Ret (s, acts)
    \<and> session_frame tag_lib sample_crypto (replicate 16 0) [10, 203, 0, 2] sample_header (probe_request 4)
        (SocketAddrV4 [192, 0, 2, 2] 4001) 3 s = Ret (s', [])"
proof -
  have id: "length (replicate 16 (0 :: u8)) = 16" by simp
  obtain s acts where run: "session_run tag_lib sample_crypto [7] (replicate 16 0) 9 [10, 203, 0, 2] sample_events (session_new 5 0) = Ret (s, acts)"
    using session_run_transition [OF id session_new_ok sample_events_ok] by blast
  have split: "sample_events = [] @ Client_Frame sample_header (probe_request 3) (SocketAddrV4 [192, 0, 2, 1] 4000) 0
      # [Reply_Packet [1, 2, 3] 1, Flush 2]"
    by (simp add: sample_events_def)
  have "\<exists>s'. session_frame tag_lib sample_crypto (replicate 16 0) [10, 203, 0, 2] sample_header (probe_request 4)
        (SocketAddrV4 [192, 0, 2, 2] 4001) 3 s = Ret (s', []) \<and> ss_rejected_frames s' = ss_rejected_frames s + 1
        \<and> ss_fragments s' = ss_fragments s \<and> ss_repair s' = ss_repair s"
    using sample_events_ok run unfolding split
    by (rule repeated_frame_has_no_effect [OF id]) (simp_all add: sample_header_def)
  with run show ?thesis by blast
qed

end
