(* ===== verification/Relay.thy ===== *)
theory Relay
  imports Relay_Safety
begin

section \<open>The relay (\<^verbatim>\<open>relay/src/main.rs\<close>)\<close>

text \<open>
  The table of enrolled clients and the three threads that share it under one lock: the serve loop,
  the TUN reader and the repair flusher. Each takes the lock for a whole step, so the relay is the
  sequence of their steps in any interleaving. Hash maps are association lists with distinct keys;
  where the source iterates one, the list order stands for the iteration order.
\<close>

definition SESSION_TTL :: duration where "SESSION_TTL = secs 180"
definition MAX_SESSIONS_PER_CLIENT :: nat where "MAX_SESSIONS_PER_CLIENT = 8"
definition REPAIR_IDLE_WAIT :: duration where "REPAIR_IDLE_WAIT = millis 250"

record ClientRecord =
  cr_name :: string
  cr_version :: u8
  cr_client_id :: string
  cr_pre_shared_key :: string
  cr_virtual_ipv4 :: ipv4

definition client_token :: "ClientRecord \<Rightarrow> EnrollmentToken" where
  "client_token r = \<lparr>et_version = cr_version r, et_client_id = cr_client_id r,
     et_pre_shared_key = cr_pre_shared_key r, et_virtual_ipv4 = cr_virtual_ipv4 r\<rparr>"

record RelayClient =
  rc_record :: ClientRecord
  rc_client_id :: bytes
  rc_key :: bytes
  rc_sessions :: "(u64 \<times> SessionState) list"

type_synonym clients = "(bytes \<times> RelayClient) list"

subsection \<open>Admitting a session\<close>

text \<open>The eviction loop: while the client holds eight sessions, the least recently seen one goes.\<close>

function evict_sessions :: "(u64 \<times> SessionState) list \<Rightarrow> (u64 \<times> SessionState) list" where
  "evict_sessions sessions =
     (if length sessions \<ge> MAX_SESSIONS_PER_CLIENT
      then case min_by_key (\<lambda>e. ss_last_seen (snd e)) sessions of
             None \<Rightarrow> sessions
           | Some oldest \<Rightarrow> evict_sessions (AList.delete (fst oldest) sessions)
      else sessions)"
  by pat_completeness auto
termination
proof (relation "measure length", goal_cases)
  case (2 sessions oldest)
  then have "oldest \<in> set sessions" by (auto dest: min_by_key_in)
  then show ?case by (auto simp: AList.delete_eq intro!: length_filter_less)
qed simp

declare evict_sessions.simps [simp del]

definition admit_session :: "u64 \<Rightarrow> instant \<Rightarrow> u64 \<Rightarrow> RelayClient \<Rightarrow> RelayClient \<times> SessionState" where
  "admit_session session_id now wall client =
     (let sessions = filter (\<lambda>e. duration_since now (ss_last_seen (snd e)) \<le> SESSION_TTL) (rc_sessions client);
          sessions = (if map_of sessions session_id = None then evict_sessions sessions else sessions)
      in case map_of sessions session_id of
           Some session \<Rightarrow> (client\<lparr>rc_sessions := sessions\<rparr>, session)
         | None \<Rightarrow>
             (client\<lparr>rc_sessions := AList.update session_id (session_new wall now) sessions\<rparr>, session_new wall now))"

definition stateless_probe_reply ::
  "crypto_lib \<Rightarrow> RelayClient \<Rightarrow> SessionCrypto \<Rightarrow> FrameHeader \<Rightarrow> bytes \<Rightarrow> u64 \<Rightarrow> bytes option" where
  "stateless_probe_reply L client crypto header plaintext wall =
     (if fh_flags header AND FLAG_CONTROL = 0 \<or> map_of (rc_sessions client) (fh_session_id header) \<noteq> None then None
      else case probe_response plaintext of
             None \<Rightarrow> None
           | Some response \<Rightarrow>
               (case seal_server L crypto
                       (server_header FLAG_CONTROL (rc_client_id client) (fh_session_id header) wall) response of
                  Inl _ \<Rightarrow> None
                | Inr frame \<Rightarrow> Some frame))"

subsection \<open>The three threads\<close>

definition serve_frame ::
  "crypto_lib \<Rightarrow> instant \<Rightarrow> u64 \<Rightarrow> bytes \<Rightarrow> SocketAddr \<Rightarrow> clients \<Rightarrow> (clients \<times> relay_action list) outcome" where
  "serve_frame L now wall frame endpoint clients =
     (if length frame < HEADER_LEN + 16 then Ret (clients, [])
      else case header_decode frame of
        Inl _ \<Rightarrow> Ret (clients, [])
      | Inr header \<Rightarrow>
          if fh_flags header AND FLAG_SERVER_TO_CLIENT \<noteq> 0 then Ret (clients, [])
          else (case map_of clients (fh_client_id header) of
            None \<Rightarrow> Ret (clients, [])
          | Some client \<Rightarrow>
              (case session_crypto_new L (rc_key client) (fh_session_id header) of
                 Inl _ \<Rightarrow> Ret (clients, [])
               | Inr crypto \<Rightarrow>
                   (case open_client L crypto frame of
                      Inl _ \<Rightarrow> Ret (clients, [])
                    | Inr (verified_header, plaintext) \<Rightarrow>
                        (case stateless_probe_reply L client crypto verified_header plaintext wall of
                           Some reply \<Rightarrow> Ret (clients, [Send reply [endpoint]])
                         | None \<Rightarrow>
                             (let (client, session) = admit_session (fh_session_id header) now wall client
                              in case session_frame L crypto (rc_client_id client) (cr_virtual_ipv4 (rc_record client))
                                        verified_header plaintext endpoint now session of
                                   Panic \<Rightarrow> Panic
                                 | Ret (session, acts) \<Rightarrow>
                                     Ret (AList.update (fh_client_id header)
                                            (client\<lparr>rc_sessions :=
                                               AList.update (fh_session_id header) session (rc_sessions client)\<rparr>) clients,
                                          acts)))))))"

definition forward_reply ::
  "crypto_lib \<Rightarrow> instant \<Rightarrow> bytes \<Rightarrow> clients \<Rightarrow> clients \<times> relay_action list" where
  "forward_reply L now packet clients =
     (case ipv4_destination packet of
        None \<Rightarrow> (clients, [])
      | Some destination \<Rightarrow>
          (case find (\<lambda>c. cr_virtual_ipv4 (rc_record (snd c)) = destination) clients of
             None \<Rightarrow> (clients, [])
           | Some (cid, client) \<Rightarrow>
               (case max_by_key (\<lambda>e. ss_last_seen (snd e)) (rc_sessions client) of
                  None \<Rightarrow> (clients, [])
                | Some (session_id, session) \<Rightarrow>
                    (case session_crypto_new L (rc_key client) session_id of
                       Inl _ \<Rightarrow> (clients, [])
                     | Inr crypto \<Rightarrow>
                         (let (session, acts) = reply_session L crypto (rc_client_id client) session_id packet now session
                          in (AList.update cid (client\<lparr>rc_sessions := AList.update session_id session (rc_sessions client)\<rparr>) clients,
                              acts))))))"

fun flush_sessions ::
  "crypto_lib \<Rightarrow> instant \<Rightarrow> RelayClient \<Rightarrow> (u64 \<times> SessionState) list \<Rightarrow> (u64 \<times> SessionState) list \<times> relay_action list" where
  "flush_sessions L now client [] = ([], [])"
| "flush_sessions L now client ((session_id, s) # rest) =
     (let (s', acts) = flush_session L (rc_key client) (rc_client_id client) session_id now s;
          (rest', acts') = flush_sessions L now client rest
      in ((session_id, s') # rest', acts @ acts'))"

fun flush_clients :: "crypto_lib \<Rightarrow> instant \<Rightarrow> clients \<Rightarrow> clients \<times> relay_action list" where
  "flush_clients L now [] = ([], [])"
| "flush_clients L now ((cid, client) # rest) =
     (let (sessions, acts) = flush_sessions L now client (rc_sessions client);
          (rest', acts') = flush_clients L now rest
      in ((cid, client\<lparr>rc_sessions := sessions\<rparr>) # rest', acts @ acts'))"

text \<open>
  How long the flusher then sleeps: until the earliest deadline of the groups it left open. A session
  whose group was due contributes none.
\<close>

definition open_deadline :: "instant \<Rightarrow> SessionState \<Rightarrow> instant option" where
  "open_deadline now s =
     (case ss_repair s of
        None \<Rightarrow> None
      | Some repair \<Rightarrow> if snd (flush_due now (rs_encoder repair)) \<noteq> None then None else deadline (rs_encoder repair))"

definition flush_wait :: "instant \<Rightarrow> clients \<Rightarrow> duration" where
  "flush_wait now clients =
     (let deadlines = concat (map (\<lambda>c. concat (map (\<lambda>e. case open_deadline now (snd e) of None \<Rightarrow> [] | Some d \<Rightarrow> [d])
                                 (rc_sessions (snd c)))) clients)
      in case deadlines of
           [] \<Rightarrow> REPAIR_IDLE_WAIT
         | d # ds \<Rightarrow> duration_since (fold min ds d) now)"

subsection \<open>The relay's invariant\<close>

definition client_ip :: "RelayClient \<Rightarrow> ipv4" where
  "client_ip c = cr_virtual_ipv4 (rc_record c)"

definition sessions_ok :: "ipv4 \<Rightarrow> (u64 \<times> SessionState) list \<Rightarrow> bool" where
  "sessions_ok ip sessions \<longleftrightarrow> distinct (map fst sessions) \<and> length sessions \<le> MAX_SESSIONS_PER_CLIENT
     \<and> (\<forall>e \<in> set sessions. session_ok ip (snd e))"

definition client_ok :: "RelayClient \<Rightarrow> bool" where
  "client_ok c \<longleftrightarrow> length (rc_client_id c) = 16 \<and> sessions_ok (client_ip c) (rc_sessions c)"

definition relay_ok :: "clients \<Rightarrow> bool" where
  "relay_ok clients \<longleftrightarrow> distinct (map fst clients) \<and> (\<forall>c \<in> set clients. client_ok (snd c))"

lemma sessions_ok_filter: "sessions_ok ip sessions \<Longrightarrow> sessions_ok ip (filter P sessions)"
  by (auto simp: sessions_ok_def distinct_map_filter intro: order_trans [OF length_filter_le])

lemma evict_sessions_ok:
  "sessions_ok ip sessions \<Longrightarrow> sessions_ok ip (evict_sessions sessions) \<and> length (evict_sessions sessions) < 8
     \<and> set (evict_sessions sessions) \<subseteq> set sessions"
proof (induction sessions rule: evict_sessions.induct)
  case (1 sessions)
  show ?case
  proof (cases "length sessions \<ge> MAX_SESSIONS_PER_CLIENT")
    case False
    then show ?thesis using 1(2) by (simp add: evict_sessions.simps [of sessions] MAX_SESSIONS_PER_CLIENT_def)
  next
    case True
    then have "sessions \<noteq> []" by (auto simp: MAX_SESSIONS_PER_CLIENT_def)
    then obtain oldest where oldest: "min_by_key (\<lambda>e. ss_last_seen (snd e)) sessions = Some oldest"
      by (metis min_by_key_None not_None_eq)
    have "sessions_ok ip (AList.delete (fst oldest) sessions)"
      using sessions_ok_filter [OF 1(2)] by (simp add: AList.delete_eq)
    note smaller = 1(1) [OF True oldest this]
    have "set (AList.delete (fst oldest) sessions) \<subseteq> set sessions" by (auto simp: AList.delete_eq)
    moreover have "evict_sessions sessions = evict_sessions (AList.delete (fst oldest) sessions)"
      using True oldest by (simp add: evict_sessions.simps [of sessions])
    ultimately show ?thesis using smaller by auto
  qed
qed

lemma sessions_ok_update:
  assumes "sessions_ok ip sessions" and "session_ok ip s"
    and "map_of sessions k \<noteq> None \<or> length sessions < 8"
  shows "sessions_ok ip (AList.update k s sessions)"
  using assms
  by (auto simp: sessions_ok_def distinct_alist length_alist_update map_of_eq_None_iff MAX_SESSIONS_PER_CLIENT_def
      dest!: set_alist_update)

lemma admit_session_ok:
  assumes "client_ok client"
  shows "client_ok (fst (admit_session session_id now wall client))"
    and "session_ok (client_ip client) (snd (admit_session session_id now wall client))"
    and "map_of (rc_sessions (fst (admit_session session_id now wall client))) session_id \<noteq> None"
    and "rc_record (fst (admit_session session_id now wall client)) = rc_record client"
    and "rc_client_id (fst (admit_session session_id now wall client)) = rc_client_id client"
proof -
  define live where "live = filter (\<lambda>e. duration_since now (ss_last_seen (snd e)) \<le> SESSION_TTL) (rc_sessions client)"
  define kept where "kept = (if map_of live session_id = None then evict_sessions live else live)"
  have eq: "admit_session session_id now wall client = (case map_of kept session_id of
      Some session \<Rightarrow> (client\<lparr>rc_sessions := kept\<rparr>, session)
    | None \<Rightarrow> (client\<lparr>rc_sessions := AList.update session_id (session_new wall now) kept\<rparr>, session_new wall now))"
    unfolding admit_session_def Let_def live_def [symmetric] kept_def [symmetric] by (rule refl)
  have live: "sessions_ok (client_ip client) live"
    unfolding live_def using assms by (intro sessions_ok_filter) (simp add: client_ok_def)
  then have kept: "sessions_ok (client_ip client) kept" by (simp add: kept_def evict_sessions_ok)
  have room: "length kept < 8" if "map_of kept session_id = None"
    using that evict_sessions_ok [OF live] by (cases "map_of live session_id") (simp_all add: kept_def)
  show "client_ok (fst (admit_session session_id now wall client))"
    using assms kept room sessions_ok_update [OF kept session_new_ok]
    by (auto simp: eq client_ok_def client_ip_def split: option.splits)
  show "session_ok (client_ip client) (snd (admit_session session_id now wall client))"
    using kept session_new_ok by (auto simp: eq sessions_ok_def split: option.splits dest: map_of_SomeD)
  show "map_of (rc_sessions (fst (admit_session session_id now wall client))) session_id \<noteq> None"
    by (auto simp: eq update_conv split: option.splits)
  show "rc_record (fst (admit_session session_id now wall client)) = rc_record client"
    "rc_client_id (fst (admit_session session_id now wall client)) = rc_client_id client"
    by (simp_all add: eq split: option.splits)
qed

lemma relay_ok_update: "relay_ok clients \<Longrightarrow> client_ok c \<Longrightarrow> relay_ok (AList.update cid c clients)"
  by (auto simp: relay_ok_def distinct_alist dest!: set_alist_update)

lemma client_ok_session:
  assumes "client_ok c" and "session_ok (client_ip c) s" and "map_of (rc_sessions c) k \<noteq> None"
  shows "client_ok (c\<lparr>rc_sessions := AList.update k s (rc_sessions c)\<rparr>)"
  using assms sessions_ok_update by (simp add: client_ok_def client_ip_def)

lemma decoded_client_id: "header_decode bs = Inr h \<Longrightarrow> length (fh_client_id h) = 16"
  using header_decode_Inr(1) by (auto simp: header_ok_def)

lemma open_frame_header: "open_client L crypto frame = Inr (h, p) \<Longrightarrow> header_decode frame = Inr h"
  by (auto simp: open_client_def open_frame_def split: sum.splits option.splits)

text \<open>What the serve loop does with a frame: nothing, a stateless answer, or a frame of a session.\<close>

lemma serve_frame_cases:
  obtains (ignored) "serve_frame L now wall frame endpoint clients = Ret (clients, [])"
  | (authentic) header client crypto plaintext where
      "header_decode frame = Inr header" "fh_flags header AND FLAG_SERVER_TO_CLIENT = 0"
      "map_of clients (fh_client_id header) = Some client"
      "session_crypto_new L (rc_key client) (fh_session_id header) = Inr crypto"
      "open_client L crypto frame = Inr (header, plaintext)"
      "serve_frame L now wall frame endpoint clients =
        (case stateless_probe_reply L client crypto header plaintext wall of
           Some reply \<Rightarrow> Ret (clients, [Send reply [endpoint]])
         | None \<Rightarrow>
             (let (client, session) = admit_session (fh_session_id header) now wall client
              in case session_frame L crypto (rc_client_id client) (cr_virtual_ipv4 (rc_record client))
                        header plaintext endpoint now session of
                   Panic \<Rightarrow> Panic
                 | Ret (session, acts) \<Rightarrow>
                     Ret (AList.update (fh_client_id header)
                            (client\<lparr>rc_sessions := AList.update (fh_session_id header) session (rc_sessions client)\<rparr>) clients,
                          acts)))"
proof -
  consider "serve_frame L now wall frame endpoint clients = Ret (clients, [])"
    | header client crypto vp where "\<not> length frame < HEADER_LEN + 16" "header_decode frame = Inr header"
      "fh_flags header AND FLAG_SERVER_TO_CLIENT = 0"
      "map_of clients (fh_client_id header) = Some client"
      "session_crypto_new L (rc_key client) (fh_session_id header) = Inr crypto" "open_client L crypto frame = Inr vp"
  proof (cases "length frame < HEADER_LEN + 16 \<or> (\<exists>e. header_decode frame = Inl e)")
    case True
    then show thesis by (intro that(1)) (auto simp: serve_frame_def)
  next
    case False
    then obtain header where h: "\<not> length frame < HEADER_LEN + 16" "header_decode frame = Inr header"
      by (cases "header_decode frame") auto
    show thesis
    proof (cases "fh_flags header AND FLAG_SERVER_TO_CLIENT = 0 \<and> (\<exists>client crypto vp.
        map_of clients (fh_client_id header) = Some client
        \<and> session_crypto_new L (rc_key client) (fh_session_id header) = Inr crypto \<and> open_client L crypto frame = Inr vp)")
      case True
      then show thesis using h that(2) by blast
    next
      case none: False
      show thesis
        by (rule that(1)) (use h none in \<open>simp add: serve_frame_def split: option.split sum.split if_split; blast\<close>)
    qed
  qed
  then show thesis
  proof cases
    case 1
    then show thesis by (rule ignored)
  next
    case (2 header client crypto vp)
    obtain p where vp: "vp = (header, p)"
      using 2(2,6) open_frame_header [of L crypto frame "fst vp" "snd vp"] by (cases vp) simp
    show thesis
      by (rule authentic [OF 2(2-5) 2(6) [unfolded vp]]) (use 2 vp in \<open>simp add: serve_frame_def\<close>)
  qed
qed

lemma serve_frame_ok:
  assumes "relay_ok clients"
  shows "\<exists>clients' acts. serve_frame L now wall frame endpoint clients = Ret (clients', acts) \<and> relay_ok clients'"
proof (cases rule: serve_frame_cases [of L now wall frame endpoint clients])
  case ignored
  then show ?thesis using assms by simp
next
  case (authentic header client crypto plaintext)
  show ?thesis
  proof (cases "stateless_probe_reply L client crypto header plaintext wall")
    case (Some reply)
    then show ?thesis using authentic(6) assms by simp
  next
    case None
    obtain client' session where adm: "admit_session (fh_session_id header) now wall client = (client', session)" by (rule prod.exhaust)
    have "client_ok client" using assms map_of_SomeD [OF authentic(3)] by (auto simp: relay_ok_def)
    note ok = admit_session_ok [OF this, of "fh_session_id header" now wall, unfolded adm fst_conv snd_conv]
    have ip: "cr_virtual_ipv4 (rc_record client') = client_ip client" "client_ip client' = client_ip client"
      using ok(4) by (simp_all add: client_ip_def)
    have ids: "length (rc_client_id client') = 16" "length (fh_client_id header) = 16"
      using ok(1) decoded_client_id [OF authentic(1)] by (simp_all add: client_ok_def)
    obtain s' acts where frame: "session_frame L crypto (rc_client_id client') (client_ip client) header plaintext endpoint now session = Ret (s', acts)"
        "transition (client_ip client) 2 session acts s'"
      using session_frame_transition [OF ok(2) ids] by blast
    have "client_ok (client'\<lparr>rc_sessions := AList.update (fh_session_id header) s' (rc_sessions client')\<rparr>)"
      using client_ok_session [OF ok(1) _ ok(3)] transition_ok [OF frame(2)] ip by simp
    then show ?thesis
      using authentic(6) None adm frame(1) ip relay_ok_update [OF assms] by simp
  qed
qed

lemma forward_reply_ok: "relay_ok clients \<Longrightarrow> relay_ok (fst (forward_reply L now packet clients))"
proof -
  assume ok: "relay_ok clients"
  have "relay_ok (AList.update cid (client\<lparr>rc_sessions := AList.update sid
      (fst (reply_session L crypto (rc_client_id client) sid packet now session)) (rc_sessions client)\<rparr>) clients)"
    if "find P clients = Some (cid, client)" "max_by_key f (rc_sessions client) = Some (sid, session)" for P f cid client sid session crypto
  proof -
    have c: "client_ok client" using ok find_Some_in_set [OF that(1)] by (auto simp: relay_ok_def)
    have in_s: "(sid, session) \<in> set (rc_sessions client)" by (rule max_by_key_in [OF that(2)])
    then have "session_ok (client_ip client) session" using c by (auto simp: client_ok_def sessions_ok_def)
    then have "session_ok (client_ip client) (fst (reply_session L crypto (rc_client_id client) sid packet now session))"
      using c by (intro transition_ok [OF reply_transition]) (simp_all add: client_ok_def)
    moreover have "map_of (rc_sessions client) sid \<noteq> None" using weak_map_of_SomeI [OF in_s] by blast
    ultimately show ?thesis using ok c by (intro relay_ok_update client_ok_session)
  qed
  then show ?thesis
    using ok by (simp add: forward_reply_def case_prod_unfold Let_def split: option.split sum.split) blast
qed

lemma flush_sessions_ok:
  assumes "length (rc_client_id client) = 16"
  shows "map fst (fst (flush_sessions L now client sessions)) = map fst sessions"
    and "(\<forall>e \<in> set sessions. session_ok ip (snd e)) \<Longrightarrow>
      (\<forall>e \<in> set (fst (flush_sessions L now client sessions)). session_ok ip (snd e))"
proof (induction sessions)
  case (Cons e sessions)
  obtain k s where e: "e = (k, s)" by (cases e)
  { case 1 show ?case using Cons.IH(1) by (simp add: e case_prod_unfold Let_def) }
  { case 2
    then show ?case
      using Cons.IH(2) transition_ok [OF flush_transition [OF _ assms]] by (auto simp: e case_prod_unfold Let_def) }
qed simp_all

lemma flush_clients_ok:
  "map fst (fst (flush_clients L now clients)) = map fst clients"
  "(\<forall>c \<in> set clients. client_ok (snd c)) \<Longrightarrow> (\<forall>c \<in> set (fst (flush_clients L now clients)). client_ok (snd c))"
proof (induction clients)
  case (Cons c clients)
  obtain k cl where c: "c = (k, cl)" by (cases c)
  { case 1 show ?case using Cons.IH(1) by (simp add: c case_prod_unfold Let_def) }
  { case 2
    then have cl: "length (rc_client_id cl) = 16" "sessions_ok (client_ip cl) (rc_sessions cl)"
      by (simp_all add: c client_ok_def)
    have "length (fst (flush_sessions L now cl (rc_sessions cl))) = length (rc_sessions cl)"
      using flush_sessions_ok(1) [OF cl(1), of L now "rc_sessions cl"] by (metis length_map)
    then have "sessions_ok (client_ip cl) (fst (flush_sessions L now cl (rc_sessions cl)))"
      using cl(2) flush_sessions_ok(1) [OF cl(1)] flush_sessions_ok(2) [OF cl(1), of "rc_sessions cl"]
      unfolding sessions_ok_def by presburger
    then show ?case using 2 Cons.IH(2) cl(1) by (auto simp: c case_prod_unfold Let_def client_ok_def client_ip_def) }
qed simp_all

text \<open>
  C3. A frame that nobody sealed with an enrolled client's key is inert: whenever the serve loop answers
  a datagram or changes anything, the datagram is byte for byte what sealing its header and payload
  under an enrolled client's session key makes, it is not one of the relay's own frames reflected
  back, and no other client's entry has changed.
\<close>

theorem unauthenticated_frames_are_inert:
  assumes "aead_tight L" and "serve_frame L now wall frame endpoint clients = Ret (clients', acts)"
    and "(clients', acts) \<noteq> (clients, [])"
  shows "\<exists>header client crypto plaintext. map_of clients (fh_client_id header) = Some client
    \<and> session_crypto_new L (rc_key client) (fh_session_id header) = Inr crypto
    \<and> seal_client L crypto header plaintext = Inr frame \<and> fh_flags header AND FLAG_SERVER_TO_CLIENT = 0
    \<and> (\<forall>other. map_of clients' other = (if other = fh_client_id header then map_of clients' other else map_of clients other))"
proof (cases rule: serve_frame_cases [of L now wall frame endpoint clients])
  case ignored
  then show ?thesis using assms by simp
next
  case (authentic header client crypto plaintext)
  have "seal_client L crypto header plaintext = Inr frame"
    using open_is_seal(2) [OF assms(1)] authentic(5) by (simp add: open_client_def seal_client_def)
  moreover have "map_of clients' other = map_of clients other" if "other \<noteq> fh_client_id header" for other
    using assms(2) authentic(6) that
    by (auto simp: update_conv Let_def case_prod_unfold split: option.splits outcome.splits)
  ultimately show ?thesis using authentic(2-4) by (intro exI [of _ header] exI [of _ client]) auto
qed

text \<open>A probe of a session the relay does not hold, under the stand-in library.\<close>

definition sample_client :: RelayClient where
  "sample_client = \<lparr>rc_record = \<lparr>cr_name = ''pc'', cr_version = 1, cr_client_id = ''id'', cr_pre_shared_key = ''key'',
       cr_virtual_ipv4 = [10, 203, 0, 2]\<rparr>, rc_client_id = replicate 16 7, rc_key = [1], rc_sessions = []\<rparr>"

definition sample_probe_header :: FrameHeader where
  "sample_probe_header = \<lparr>fh_flags = FLAG_CONTROL, fh_client_id = replicate 16 7, fh_session_id = 1, fh_sequence = 1\<rparr>"

lemma sample_probe_answered:
  "serve_frame tag_lib 0 5 (header_encode sample_probe_header @ probe_request 4 @ replicate 16 0) ep
     [(replicate 16 7, sample_client)] =
   Ret ([(replicate 16 7, sample_client)],
     [Send (header_encode (server_header FLAG_CONTROL (replicate 16 7) 1 5) @ PONG @ be64 4 @ replicate 16 0) [ep]])"
proof -
  have dec: "header_decode (header_encode sample_probe_header @ probe_request 4 @ replicate 16 0) = Inr sample_probe_header"
    by (rule header_decode_encode) (simp add: header_ok_def sample_probe_header_def)
  obtain crypto where crypto: "session_crypto_new tag_lib [1] 1 = Inr crypto"
    by (simp add: session_crypto_new_def tag_lib_def)
  have "open_client tag_lib crypto (header_encode sample_probe_header @ probe_request 4 @ replicate 16 0)
      = Inr (sample_probe_header, probe_request 4)"
    using dec by (simp add: open_client_def open_frame_def tag_lib_def HEADER_LEN_def header_ok_def sample_probe_header_def)
  moreover have "stateless_probe_reply tag_lib sample_client crypto sample_probe_header (probe_request 4) 5
      = Some (header_encode (server_header FLAG_CONTROL (replicate 16 7) 1 5) @ PONG @ be64 4 @ replicate 16 0)"
    by (simp add: stateless_probe_reply_def sample_probe_header_def sample_client_def probe_response_request FLAG_CONTROL_def
        seal_server_def seal_def tag_lib_def Let_def)
  ultimately show ?thesis
    using dec crypto
    by (simp add: serve_frame_def HEADER_LEN_def probe_request_def PING_def sample_probe_header_def sample_client_def
        FLAG_CONTROL_def FLAG_SERVER_TO_CLIENT_def header_ok_def)
qed

theorem unauthenticated_frames_are_inert_witness:
  "\<exists>crypto header plaintext. session_crypto_new tag_lib (rc_key sample_client) (fh_session_id header) = Inr crypto
    \<and> seal_client tag_lib crypto header plaintext = Inr (header_encode sample_probe_header @ probe_request 4 @ replicate 16 0)"
  using unauthenticated_frames_are_inert [OF tag_lib_tight sample_probe_answered] by (auto split: if_splits)

subsection \<open>The flusher\<close>

lemma fan_out_repair [simp]:
  "ss_repair (fst (fan_out L crypto client_id session_id flags payload now s)) = ss_repair s"
  by (auto simp: fan_out_def Let_def case_prod_unfold split: sum.splits)

lemma flush_session_repair:
  "ss_repair (fst (flush_session L key client_id session_id now s)) =
     map_option (\<lambda>r. r\<lparr>rs_encoder := fst (flush_due now (rs_encoder r))\<rparr>) (ss_repair s)"
  by (cases "ss_repair s") (simp_all add: flush_session_def case_prod_unfold Let_def split: option.split sum.split)

lemma flush_sessions_member:
  "(k, s') \<in> set (fst (flush_sessions L now client sessions)) \<Longrightarrow>
     \<exists>s. (k, s) \<in> set sessions \<and> s' = fst (flush_session L (rc_key client) (rc_client_id client) k now s)"
  by (induction sessions) (simp, auto simp: case_prod_unfold Let_def, blast+)

lemma flush_clients_member:
  "(k, c') \<in> set (fst (flush_clients L now clients)) \<Longrightarrow>
     \<exists>c. (k, c) \<in> set clients \<and> rc_sessions c' = fst (flush_sessions L now c (rc_sessions c))"
  by (induction clients) (simp, auto simp: case_prod_unfold Let_def, blast+)

lemma fold_min_le: "x \<in> set (d # ds) \<Longrightarrow> fold min ds d \<le> (x :: nat)"
  unfolding Min.set_eq_fold [symmetric] by (rule Min_le) simp_all

lemma flush_wait_le:
  assumes "(cid, c) \<in> set clients" and "(sid, s) \<in> set (rc_sessions c)" and "open_deadline now s = Some d"
  shows "flush_wait now clients \<le> duration_since d now"
proof -
  define deadlines where "deadlines = concat (map (\<lambda>c. concat (map (\<lambda>e. case open_deadline now (snd e) of None \<Rightarrow> [] | Some d \<Rightarrow> [d])
    (rc_sessions (snd c)))) clients)"
  have "d \<in> set deadlines" unfolding deadlines_def using assms by (auto intro!: bexI [of _ "(cid, c)"] bexI [of _ "(sid, s)"])
  then show ?thesis
    using fold_min_le [of d] unfolding flush_wait_def Let_def deadlines_def [symmetric]
    by (cases deadlines) (auto simp: duration_since_def diff_le_mono)
qed

text \<open>
  No reply waits for its repair longer than the group may age: in every session the flusher leaves a
  group open, the group's deadline lies ahead, and the flusher's sleep ends no later than it.
\<close>

theorem flusher_wakes_in_time:
  assumes "(cid, client) \<in> set (fst (flush_clients L now clients))" and "(sid, s) \<in> set (rc_sessions client)"
    and "ss_repair s = Some r" and "en_count (rs_encoder r) \<noteq> 0" and "deadline (rs_encoder r) = Some d"
  shows "now < d \<and> now + flush_wait now clients \<le> d"
proof -
  obtain c where c: "(cid, c) \<in> set clients" "rc_sessions client = fst (flush_sessions L now c (rc_sessions c))"
    using flush_clients_member [OF assms(1)] by blast
  obtain s0 where s0: "(sid, s0) \<in> set (rc_sessions c)" "s = fst (flush_session L (rc_key c) (rc_client_id c) sid now s0)"
    using flush_sessions_member assms(2) c(2) by metis
  obtain r0 where r0: "ss_repair s0 = Some r0" "rs_encoder r = fst (flush_due now (rs_encoder r0))"
    using assms(3) s0(2) by (auto simp: flush_session_repair)
  have fresh_group: "\<not> expired (rs_encoder r0) now"
    using assms(4) r0(2) by (auto simp: flush_due_def encoder_close_def split: if_splits)
  then have "flush_due now (rs_encoder r0) = (rs_encoder r0, None)" by (simp add: flush_due_def)
  then have d: "deadline (rs_encoder r0) = Some d" "open_deadline now s0 = Some d"
    using assms(5) r0 by (simp_all add: open_deadline_def)
  then have "now < d" using fresh_group by (simp add: expired_def)
  then show ?thesis using flush_wait_le [OF c(1) s0(1) d(2)] by (simp add: duration_since_def)
qed

definition sample_repair :: RepairState where
  "sample_repair = (repair_state_new \<lparr>of_group_size = 2, of_mtu = 1400\<rparr>)\<lparr>rs_encoder :=
     (encoder_new 2 1000)\<lparr>en_base := 6, en_count := 1, en_parity := [0, 1, 9], en_opened_at := Some 0\<rparr>\<rparr>"

definition sample_open_clients :: clients where
  "sample_open_clients =
     [([7], sample_client\<lparr>rc_sessions := [(1, (session_new 5 0)\<lparr>ss_repair := Some sample_repair\<rparr>)]\<rparr>)]"

theorem flusher_wakes_in_time_witness: "1 + flush_wait 1 sample_open_clients \<le> GROUP_MAX_AGE"
proof -
  have "\<not> expired (rs_encoder sample_repair) 1" "deadline (rs_encoder sample_repair) = Some GROUP_MAX_AGE"
      "en_count (rs_encoder sample_repair) \<noteq> 0"
    by (simp_all add: expired_def deadline_def GROUP_MAX_AGE_def millis_def sample_repair_def)
  moreover from this have "fst (flush_clients tag_lib 1 sample_open_clients) = sample_open_clients"
    by (simp add: sample_open_clients_def flush_session_def flush_due_def)
  ultimately show ?thesis
    using flusher_wakes_in_time [of "[7]" "snd (hd sample_open_clients)" tag_lib 1 sample_open_clients 1
        "(session_new 5 0)\<lparr>ss_repair := Some sample_repair\<rparr>" sample_repair GROUP_MAX_AGE]
    by (simp add: sample_open_clients_def)
qed

end
