(* ===== verification/Registry.thy ===== *)
theory Registry
  imports Relay "HOL-Library.Char_ord" "HOL-Library.List_Lexorder" "HOL-Library.Product_Lexorder"
begin

section \<open>The client registry (\<^verbatim>\<open>relay/src/client_registry.rs\<close>, \<^verbatim>\<open>enroll\<close> of \<^verbatim>\<open>relay/src/main.rs\<close>)\<close>

text \<open>
  Enrolled clients are JSON files in a directory, which the relay reloads every second while it
  serves; a revoked client leaves a tombstone that reserves its address. The directory is an
  association list from file names to contents, in the order \<^verbatim>\<open>read_dir\<close> lists it; a file that
  cannot be read has no contents. Serde is a third-party crate and a parameter (\<open>serde_lib\<close>). Text is a list of
  code points up to 255.
\<close>

subsection \<open>The file store\<close>

type_synonym directory = "(string \<times> bytes option) list"

record serde_lib =
  sl_parse_record :: "bytes \<Rightarrow> ClientRecord option"
  sl_print_record :: "ClientRecord \<Rightarrow> bytes option"
  sl_parse_ip :: "bytes \<Rightarrow> ipv4 option"
  sl_print_ip :: "ipv4 \<Rightarrow> bytes option"

text \<open>
  Serde reads back what it writes; an address takes at most 15 characters and two quotes.
\<close>

definition serde_ok :: "serde_lib \<Rightarrow> bool" where
  "serde_ok S \<longleftrightarrow>
     (\<forall>r bs. sl_print_record S r = Some bs \<longrightarrow> sl_parse_record S bs = Some r) \<and>
     (\<forall>a bs. sl_print_ip S a = Some bs \<longrightarrow> sl_parse_ip S bs = Some a \<and> length bs \<le> 17)"

text \<open>
  A record is printed with its five field names, its version and its address in at most 256 bytes, and each
  character of its three texts takes at most six: a JSON string writes a character as itself (at most four
  bytes), as a two-character escape or as \<^verbatim>\<open>\u00XX\<close>.
\<close>

definition serde_sized :: "serde_lib \<Rightarrow> bool" where
  "serde_sized S \<longleftrightarrow>
     (\<forall>r bs. sl_print_record S r = Some bs \<longrightarrow>
        length bs \<le> 256 + 6 * (length (cr_name r) + length (cr_client_id r) + length (cr_pre_shared_key r)))"

datatype registry_error =
    IoError
  | FileExists
  | TooManyClients
  | RecordTooLarge
  | InvalidRecordJson
  | TooManyReserved
  | InvalidReserved
  | InvalidMaterial auth_error
  | AddressOutOfRange
  | DuplicateClient
  | ClientGone
  | EmptyName
  | InvalidLabel
  | AlreadyEnrolled
  | AddressReserved
  | SubnetFull

definition MAX_CLIENTS :: nat where "MAX_CLIENTS = 253"
definition MAX_RECORD_BYTES :: nat where "MAX_RECORD_BYTES = 4096"

text \<open>\<^verbatim>\<open>Path::extension\<close>: what follows the last dot, unless the name starts with its only dot.\<close>

definition extension :: "string \<Rightarrow> string option" where
  "extension name =
     (let after = takeWhile (\<lambda>c. c \<noteq> CHR ''.'') (rev name);
          before = drop (Suc (length after)) (rev name)
      in if name = ''..'' \<or> CHR ''.'' \<notin> set name \<or> before = [] then None else Some (rev after))"

definition write_secret :: "string \<Rightarrow> bytes \<Rightarrow> bool \<Rightarrow> directory \<Rightarrow> registry_error + directory" where
  "write_secret path contents create_only dir =
     (if create_only \<and> map_of dir path \<noteq> None then Inl FileExists else Inr (AList.update path (Some contents) dir))"

definition write_secret_json :: "serde_lib \<Rightarrow> string \<Rightarrow> ClientRecord \<Rightarrow> directory \<Rightarrow> registry_error + directory" where
  "write_secret_json S path record dir =
     (case sl_print_record S record of
        None \<Rightarrow> Inl IoError
      | Some contents \<Rightarrow> write_secret path contents True dir)"

subsection \<open>Reading and validating the records\<close>

fun read_files_from ::
  "serde_lib \<Rightarrow> (string \<times> ClientRecord) list \<Rightarrow> directory \<Rightarrow> registry_error + (string \<times> ClientRecord) list" where
  "read_files_from S records [] = Inr records"
| "read_files_from S records ((path, contents) # entries) =
     (if extension path \<noteq> Some ''json'' then read_files_from S records entries
      else if length records \<ge> MAX_CLIENTS then Inl TooManyClients
      else case contents of
        None \<Rightarrow> Inl IoError
      | Some bytes \<Rightarrow>
          (let source = take (MAX_RECORD_BYTES + 1) bytes
           in if length source > MAX_RECORD_BYTES then Inl RecordTooLarge
              else case sl_parse_record S source of
                None \<Rightarrow> Inl InvalidRecordJson
              | Some record \<Rightarrow> read_files_from S (records @ [(path, record)]) entries))"

definition read_record_files :: "serde_lib \<Rightarrow> directory \<Rightarrow> registry_error + (string \<times> ClientRecord) list" where
  "read_record_files S dir = read_files_from S [] dir"

definition read_records :: "serde_lib \<Rightarrow> directory \<Rightarrow> registry_error + ClientRecord list" where
  "read_records S dir = map_sum (\<lambda>e. e) (map snd) (read_record_files S dir)"

text \<open>The check of a client address: \<^verbatim>\<open>10.203.0.2\<close> to \<^verbatim>\<open>10.203.0.254\<close>.\<close>

definition client_address :: "ipv4 \<Rightarrow> bool" where
  "client_address a \<longleftrightarrow> a = [10, 203, 0, a ! 3] \<and> 2 \<le> a ! 3 \<and> a ! 3 \<le> 254"

fun reserved_from :: "serde_lib \<Rightarrow> nat \<Rightarrow> ipv4 list \<Rightarrow> directory \<Rightarrow> registry_error + ipv4 list" where
  "reserved_from S count reserved [] = Inr reserved"
| "reserved_from S count reserved ((path, contents) # entries) =
     (if extension path \<noteq> Some ''revoked'' then reserved_from S count reserved entries
      else if count + 1 > MAX_CLIENTS then Inl TooManyReserved
      else case contents of
        None \<Rightarrow> Inl IoError
      | Some bytes \<Rightarrow>
          (case sl_parse_ip S (take 33 bytes) of
             None \<Rightarrow> Inl InvalidReserved
           | Some address \<Rightarrow>
               if \<not> client_address address then Inl InvalidReserved
               else reserved_from S (count + 1) (List.insert address reserved) entries))"

definition reserved_addresses :: "serde_lib \<Rightarrow> directory \<Rightarrow> registry_error + ipv4 list" where
  "reserved_addresses S dir = reserved_from S 0 [] dir"

fun validate_from ::
  "crypto_lib \<Rightarrow> clients \<Rightarrow> ipv4 list \<Rightarrow> ClientRecord list \<Rightarrow> registry_error + clients" where
  "validate_from L clients addresses [] = Inr clients"
| "validate_from L clients addresses (record # records) =
     (case material L (client_token record) of
        Inl e \<Rightarrow> Inl (InvalidMaterial e)
      | Inr (client_id, key) \<Rightarrow>
          if \<not> client_address (cr_virtual_ipv4 record) then Inl AddressOutOfRange
          else if map_of clients client_id \<noteq> None \<or> cr_virtual_ipv4 record \<in> set addresses then Inl DuplicateClient
          else validate_from L
                 (AList.update client_id \<lparr>rc_record = record, rc_client_id = client_id, rc_key = key, rc_sessions = []\<rparr> clients)
                 (cr_virtual_ipv4 record # addresses) records)"

definition validate_records :: "crypto_lib \<Rightarrow> ClientRecord list \<Rightarrow> registry_error + clients" where
  "validate_records L records = validate_from L [] [] records"

definition load_clients :: "crypto_lib \<Rightarrow> serde_lib \<Rightarrow> directory \<Rightarrow> registry_error + clients" where
  "load_clients L S dir =
     (case read_records S dir of
        Inl e \<Rightarrow> Inl e
      | Inr records \<Rightarrow> validate_records L records)"

subsection \<open>Listing, revoking and enrolling\<close>

record ClientAccess =
  ca_client_id :: string
  ca_name :: string
  ca_virtual_ipv4 :: ipv4

definition list_access :: "crypto_lib \<Rightarrow> serde_lib \<Rightarrow> directory \<Rightarrow> registry_error + ClientAccess list" where
  "list_access L S dir =
     (case load_clients L S dir of
        Inl e \<Rightarrow> Inl e
      | Inr clients \<Rightarrow>
          Inr (sort_key (\<lambda>a. (ca_name a, ca_client_id a))
                (map (\<lambda>c. \<lparr>ca_client_id = cr_client_id (rc_record (snd c)), ca_name = cr_name (rc_record (snd c)),
                           ca_virtual_ipv4 = cr_virtual_ipv4 (rc_record (snd c))\<rparr>) clients)))"

text \<open>\<^verbatim>\<open>Display\<close> of an address: four decimal octets between dots.\<close>

definition digit :: "nat \<Rightarrow> char" where
  "digit d = char_of (48 + d :: nat)"

definition show_octet :: "u8 \<Rightarrow> string" where
  "show_octet b =
     (let n = unat b
      in if n < 10 then [digit n]
         else if n < 100 then [digit (n div 10), digit (n mod 10)]
         else [digit (n div 100), digit (n div 10 mod 10), digit (n mod 10)])"

definition show_ipv4 :: "ipv4 \<Rightarrow> string" where
  "show_ipv4 a = show_octet (a ! 0) @ ''.'' @ show_octet (a ! 1) @ ''.'' @ show_octet (a ! 2) @ ''.'' @ show_octet (a ! 3)"

text \<open>The directory afterwards, and the answer.\<close>

definition revoke_access ::
  "crypto_lib \<Rightarrow> serde_lib \<Rightarrow> string \<Rightarrow> directory \<Rightarrow> directory \<times> (registry_error + ClientAccess list)" where
  "revoke_access L S client_id dir =
     (case read_record_files S dir of
        Inl e \<Rightarrow> (dir, Inl e)
      | Inr files \<Rightarrow>
          (case validate_records L (map snd files) of
             Inl e \<Rightarrow> (dir, Inl e)
           | Inr _ \<Rightarrow>
               (case find (\<lambda>f. cr_client_id (snd f) = client_id) files of
                  None \<Rightarrow> (dir, Inl ClientGone)
                | Some (path, record) \<Rightarrow>
                    (case reserved_addresses S dir of
                       Inl e \<Rightarrow> (dir, Inl e)
                     | Inr reserved \<Rightarrow>
                         (case (if cr_virtual_ipv4 record \<notin> set reserved
                                then case sl_print_ip S (cr_virtual_ipv4 record) of
                                       None \<Rightarrow> Inl IoError
                                     | Some bytes \<Rightarrow> write_secret (show_ipv4 (cr_virtual_ipv4 record) @ ''.revoked'') bytes True dir
                                else Inr dir) of
                            Inl e \<Rightarrow> (dir, Inl e)
                          | Inr marked \<Rightarrow>
                              (let removed = AList.delete path marked in (removed, list_access L S removed)))))))"

definition next_virtual_ip :: "ClientRecord list \<Rightarrow> ipv4 list \<Rightarrow> registry_error + ipv4" where
  "next_virtual_ip records reserved =
     (let used = map (\<lambda>r. cr_virtual_ipv4 r ! 3) records
      in case find (\<lambda>host. host \<notin> set used \<and> [10, 203, 0, host] \<notin> set reserved) (map of_nat [2..<255]) of
           None \<Rightarrow> Inl SubnetFull
         | Some host \<Rightarrow> Inr [10, 203, 0, host])"

definition is_space :: "char \<Rightarrow> bool" where
  "is_space c \<longleftrightarrow> of_char c \<in> {9, 10, 11, 12, 13, 32, 133, 160 :: nat}"

definition trim :: "string \<Rightarrow> string" where
  "trim s = rev (dropWhile is_space (rev (dropWhile is_space s)))"

definition is_control :: "char \<Rightarrow> bool" where
  "is_control c \<longleftrightarrow> (of_char c < (32 :: nat)) \<or> (127 \<le> (of_char c :: nat) \<and> of_char c < (160 :: nat))"

definition is_ascii_alphanumeric :: "char \<Rightarrow> bool" where
  "is_ascii_alphanumeric c \<longleftrightarrow> (let n = of_char c :: nat in 48 \<le> n \<and> n \<le> 57 \<or> 65 \<le> n \<and> n \<le> 90 \<or> 97 \<le> n \<and> n \<le> 122)"

definition safe_name :: "string \<Rightarrow> string" where
  "safe_name name = map (\<lambda>c. if is_ascii_alphanumeric c \<or> c \<in> set ''-_'' then c else CHR ''_'') name"

text \<open>
  The random client id and key of \<^verbatim>\<open>EnrollmentToken::generate\<close> are arguments. The answer is the token
  written to the output file, which lies outside the directory: when that last write fails, the code answers
  an error with the record already in the directory, the same directory as here.
\<close>

definition enroll ::
  "serde_lib \<Rightarrow> string \<Rightarrow> string option \<Rightarrow> ipv4 option \<Rightarrow> string \<Rightarrow> string \<Rightarrow> directory
     \<Rightarrow> directory \<times> (registry_error + EnrollmentToken)" where
  "enroll S name label virtual_ip client_id key dir =
     (if trim name = [] then (dir, Inl EmptyName)
      else let label = trim (case label of Some l \<Rightarrow> l | None \<Rightarrow> name)
      in if label = [] \<or> length label > 120 \<or> list_ex is_control label then (dir, Inl InvalidLabel)
      else case read_records S dir of
        Inl e \<Rightarrow> (dir, Inl e)
      | Inr records \<Rightarrow>
          (case reserved_addresses S dir of
             Inl e \<Rightarrow> (dir, Inl e)
           | Inr reserved \<Rightarrow>
               (case (case virtual_ip of Some address \<Rightarrow> Inr address | None \<Rightarrow> next_virtual_ip records reserved) of
                  Inl e \<Rightarrow> (dir, Inl e)
                | Inr ip \<Rightarrow>
                    if \<not> client_address ip then (dir, Inl AddressOutOfRange)
                    else if list_ex (\<lambda>r. cr_virtual_ipv4 r = ip) records then (dir, Inl AlreadyEnrolled)
                    else if ip \<in> set reserved then (dir, Inl AddressReserved)
                    else let token = \<lparr>et_version = 1, et_client_id = client_id, et_pre_shared_key = key, et_virtual_ipv4 = ip\<rparr>;
                             record = \<lparr>cr_name = label, cr_version = et_version token, cr_client_id = et_client_id token,
                                       cr_pre_shared_key = et_pre_shared_key token, cr_virtual_ipv4 = et_virtual_ipv4 token\<rparr>
                         in case write_secret_json S (safe_name name @ ''.json'') record dir of
                              Inl e \<Rightarrow> (dir, Inl e)
                            | Inr written \<Rightarrow> (written, Inr token))))"

subsection \<open>Reloading\<close>

definition reconcile_step :: "bytes \<times> RelayClient \<Rightarrow> clients \<times> bool \<Rightarrow> clients \<times> bool" where
  "reconcile_step = (\<lambda>(cid, client) (active, changed).
     case map_of active cid of
       Some current \<Rightarrow>
         if rc_key current = rc_key client \<and> cr_virtual_ipv4 (rc_record current) = cr_virtual_ipv4 (rc_record client)
         then (AList.update cid (current\<lparr>rc_record := rc_record client\<rparr>) active, changed)
         else (AList.update cid client active, True)
     | None \<Rightarrow> (AList.update cid client active, True))"

definition reconcile_clients :: "clients \<Rightarrow> clients \<Rightarrow> clients \<times> bool" where
  "reconcile_clients active next_clients =
     (let kept = filter (\<lambda>c. map_of next_clients (fst c) \<noteq> None) active
      in fold reconcile_step next_clients (kept, length kept \<noteq> length active))"

definition refresh_clients ::
  "crypto_lib \<Rightarrow> serde_lib \<Rightarrow> directory \<Rightarrow> clients \<Rightarrow> clients \<times> (registry_error + nat option)" where
  "refresh_clients L S dir active =
     (case load_clients L S dir of
        Inl e \<Rightarrow> (active, Inl e)
      | Inr next_clients \<Rightarrow>
          (let (active, changed) = reconcile_clients active next_clients
           in (active, Inr (if changed then Some (length active) else None))))"

subsection \<open>What validation establishes\<close>

definition fresh_table :: "clients \<Rightarrow> bool" where
  "fresh_table clients \<longleftrightarrow> distinct (map fst clients) \<and> distinct (map (\<lambda>c. client_ip (snd c)) clients)
     \<and> (\<forall>c \<in> set clients. rc_client_id (snd c) = fst c \<and> length (fst c) = 16
          \<and> client_address (client_ip (snd c)) \<and> rc_sessions (snd c) = [])"

lemma material_lengths: "material L t = Inr (cid, key) \<Longrightarrow> length cid = 16 \<and> length key = 32"
  by (auto simp: material_def split: option.splits if_splits)

lemma validate_from_Inr:
  assumes "validate_from L clients addresses records = Inr result"
    and "fresh_table clients" and "set addresses = (\<lambda>c. client_ip (snd c)) ` set clients"
  shows "fresh_table result \<and> map (\<lambda>c. rc_record (snd c)) result = map (\<lambda>c. rc_record (snd c)) clients @ records"
  using assms
proof (induction records arbitrary: clients addresses)
  case (Cons rcd records)
  obtain cid key where mat: "material L (client_token rcd) = Inr (cid, key)"
    and addr: "client_address (cr_virtual_ipv4 rcd)" and new: "map_of clients cid = None"
      "cr_virtual_ipv4 rcd \<notin> set addresses"
    and rest: "validate_from L (AList.update cid \<lparr>rc_record = rcd, rc_client_id = cid, rc_key = key, rc_sessions = []\<rparr> clients)
      (cr_virtual_ipv4 rcd # addresses) records = Inr result"
    using Cons.prems(1) by (auto split: sum.splits if_splits)
  define entry where "entry = \<lparr>rc_record = rcd, rc_client_id = cid, rc_key = key, rc_sessions = [] :: (u64 \<times> SessionState) list\<rparr>"
  have "fresh_table (clients @ [(cid, entry)])"
    using Cons.prems(2,3) material_lengths [OF mat] addr new
    by (auto simp: fresh_table_def entry_def client_ip_def map_of_eq_None_iff)
  moreover have "set (cr_virtual_ipv4 rcd # addresses) = (\<lambda>c. client_ip (snd c)) ` set (clients @ [(cid, entry)])"
    using Cons.prems(3) by (simp add: entry_def client_ip_def)
  ultimately show ?case
    using Cons.IH [of "clients @ [(cid, entry)]"] rest
    by (simp add: alist_update_new [OF new(1)] entry_def)
qed simp

lemma validate_records_Inr:
  assumes "validate_records L records = Inr clients"
  shows "fresh_table clients" and "map (\<lambda>c. rc_record (snd c)) clients = records"
  using validate_from_Inr [OF assms [unfolded validate_records_def]] by (simp_all add: fresh_table_def)

lemma fresh_table_relay_ok: "fresh_table clients \<Longrightarrow> relay_ok clients"
  by (auto simp: fresh_table_def relay_ok_def client_ok_def sessions_ok_def)

lemma read_files_append:
  "read_files_from S records (as @ bs) =
     (case read_files_from S records as of Inl e \<Rightarrow> Inl e | Inr more_records \<Rightarrow> read_files_from S more_records bs)"
  by (induction S records as rule: read_files_from.induct) (auto simp: Let_def split: option.splits)

lemma validate_append:
  "validate_from L clients addresses (as @ bs) =
     (case validate_from L clients addresses as of
        Inl e \<Rightarrow> Inl e
      | Inr result \<Rightarrow> validate_from L result (rev (map cr_virtual_ipv4 as) @ addresses) bs)"
  by (induction L clients addresses as rule: validate_from.induct) (auto split: sum.splits)

lemma read_files_paths:
  "read_files_from S records dir = Inr files \<Longrightarrow> f \<in> set files \<Longrightarrow> f \<in> set records \<or> extension (fst f) = Some ''json''"
  by (induction S records dir rule: read_files_from.induct) (fastforce simp: Let_def split: option.splits if_splits)+

subsection \<open>Enrollment keeps the registry loadable\<close>

text \<open>A free client address leaves room for one more record: there are 253 addresses.\<close>

lemma client_addresses_finite: "finite {a. client_address a} \<and> card {a. client_address a} \<le> 253"
proof -
  define hosts where "hosts = (\<lambda>n. [10, 203, 0, of_nat n :: u8]) ` {2..254 :: nat}"
  have sub: "{a. client_address a} \<subseteq> hosts"
  proof
    fix a assume "a \<in> {a. client_address a}"
    then have a: "a = [10, 203, 0, a ! 3]" "2 \<le> a ! 3" "a ! 3 \<le> 254" by (simp_all add: client_address_def)
    have "unat (a ! 3) \<in> {2..254}" using a(2,3) by (simp add: word_le_nat_alt)
    then have "[10, 203, 0, of_nat (unat (a ! 3))] \<in> hosts" unfolding hosts_def by (rule imageI)
    then have "[10, 203, 0, a ! 3] \<in> hosts" by simp
    then show "a \<in> hosts" by (subst a(1))
  qed
  have hosts: "finite hosts" "card hosts \<le> 253"
    unfolding hosts_def by (simp, rule order_trans [OF card_image_le]) simp_all
  show ?thesis
    using finite_subset [OF sub hosts(1)] order_trans [OF card_mono [OF hosts(1) sub] hosts(2)] by (rule conjI)
qed

lemma fresh_table_room:
  assumes "fresh_table clients" and "client_address a" and "a \<notin> (\<lambda>c. client_ip (snd c)) ` set clients"
  shows "length clients < 253"
proof -
  have "insert a (set (map (\<lambda>c. client_ip (snd c)) clients)) \<subseteq> {a. client_address a}"
    using assms by (auto simp: fresh_table_def)
  then have "card (insert a (set (map (\<lambda>c. client_ip (snd c)) clients))) \<le> 253"
    using client_addresses_finite card_mono by (metis order_trans)
  moreover have "card (set (map (\<lambda>c. client_ip (snd c)) clients)) = length clients"
    using assms(1) distinct_card [of "map (\<lambda>c. client_ip (snd c)) clients"] by (simp add: fresh_table_def)
  ultimately show ?thesis using assms(3) by (simp add: card_insert_if)
qed

lemma extension_suffix:
  assumes "CHR ''.'' \<notin> set ext" and "ext \<noteq> []" and "base \<noteq> []"
  shows "extension (base @ CHR ''.'' # ext) = Some ext"
proof -
  have "takeWhile (\<lambda>c. c \<noteq> CHR ''.'') (rev (base @ CHR ''.'' # ext)) = rev ext"
    using assms(1) takeWhile_append2 [of "rev ext" "\<lambda>c. c \<noteq> CHR ''.''" "CHR ''.'' # rev base"] by auto
  moreover have "base @ CHR ''.'' # ext \<noteq> ''..''" using assms by (cases base; cases "tl base") auto
  ultimately show ?thesis using assms by (simp add: extension_def Let_def)
qed

lemma trim_nonempty: "trim name \<noteq> [] \<Longrightarrow> name \<noteq> []"
  by (auto simp: trim_def)

lemma enroll_path: "trim name \<noteq> [] \<Longrightarrow> extension (safe_name name @ ''.json'') = Some ''json''"
  using extension_suffix [of "''json''" "safe_name name"] trim_nonempty [of name] by (auto simp: safe_name_def)

text \<open>What a successful enrollment did.\<close>

lemma enroll_Inr:
  assumes "enroll S name label virtual_ip client_id key dir = (dir', Inr token)"
  obtains records reserved ip contents nick where
    "read_records S dir = Inr records" "reserved_addresses S dir = Inr reserved"
    "client_address ip" "ip \<notin> set (map cr_virtual_ipv4 records)" "ip \<notin> set reserved"
    "token = \<lparr>et_version = 1, et_client_id = client_id, et_pre_shared_key = key, et_virtual_ipv4 = ip\<rparr>"
    "sl_print_record S \<lparr>cr_name = nick, cr_version = 1, cr_client_id = client_id, cr_pre_shared_key = key,
       cr_virtual_ipv4 = ip\<rparr> = Some contents"
    "trim name \<noteq> []" "length nick \<le> 120" "map_of dir (safe_name name @ ''.json'') = None"
    "dir' = dir @ [(safe_name name @ ''.json'', Some contents)]"
proof -
  define nick where "nick = trim (case label of Some l \<Rightarrow> l | None \<Rightarrow> name)"
  define rcd where "rcd ip = \<lparr>cr_name = nick, cr_version = 1, cr_client_id = client_id, cr_pre_shared_key = key,
    cr_virtual_ipv4 = ip\<rparr>" for ip
  obtain records reserved ip where e: "read_records S dir = Inr records" "reserved_addresses S dir = Inr reserved"
    "client_address ip" "ip \<notin> set (map cr_virtual_ipv4 records)" "ip \<notin> set reserved" "trim name \<noteq> []" "length nick \<le> 120"
    "token = \<lparr>et_version = 1, et_client_id = client_id, et_pre_shared_key = key, et_virtual_ipv4 = ip\<rparr>"
    "write_secret_json S (safe_name name @ ''.json'') (rcd ip) dir = Inr dir'"
    using assms unfolding enroll_def Let_def nick_def [symmetric] rcd_def list_ex_iff
    by (simp split: if_split_asm sum.split_asm) blast
  obtain contents where "sl_print_record S (rcd ip) = Some contents" "map_of dir (safe_name name @ ''.json'') = None"
    "dir' = dir @ [(safe_name name @ ''.json'', Some contents)]"
    using e(9) by (auto simp: write_secret_json_def write_secret_def alist_update_new split: option.splits if_splits)
  with e that show thesis by (simp add: rcd_def)
qed

lemma enroll_unchanged: "enroll S name label virtual_ip client_id key dir = (dir', Inl e) \<Longrightarrow> dir' = dir"
  by (auto simp: enroll_def Let_def split: if_splits sum.splits option.splits)

text \<open>
  C36. Enrolling a client never breaks the registry the running relay reloads: if the directory loads
  before, then after a successful enrollment with a client id not yet in use it loads with exactly one more
  client - every size, address, count and duplicate check of the loader passes. The new record fits the
  loader's limit because the label has at most 120 characters and the generated id and key are the
  unpadded base64 of 16 and 32 bytes, 22 and 43 characters.
\<close>

theorem enrollment_keeps_registry_loadable:
  assumes "serde_ok S" and "load_clients L S dir = Inr clients"
    and "enroll S name label virtual_ip client_id key dir = (dir', Inr token)"
    and "material L token = Inr (raw_id, raw_key)" and "map_of clients raw_id = None"
    and "serde_sized S" and "length client_id \<le> 22" and "length key \<le> 43"
  shows "\<exists>record. client_token record = token \<and> load_clients L S dir' =
    Inr (clients @ [(raw_id, \<lparr>rc_record = record, rc_client_id = raw_id, rc_key = raw_key, rc_sessions = []\<rparr>)])"
proof -
  obtain records reserved ip contents nick where e: "read_records S dir = Inr records"
    "client_address ip" "ip \<notin> set (map cr_virtual_ipv4 records)"
    "token = \<lparr>et_version = 1, et_client_id = client_id, et_pre_shared_key = key, et_virtual_ipv4 = ip\<rparr>"
    "sl_print_record S \<lparr>cr_name = nick, cr_version = 1, cr_client_id = client_id, cr_pre_shared_key = key,
       cr_virtual_ipv4 = ip\<rparr> = Some contents"
    "trim name \<noteq> []" "dir' = dir @ [(safe_name name @ ''.json'', Some contents)]" "length nick \<le> 120"
    using enroll_Inr [OF assms(3)] by metis
  define r where "r = \<lparr>cr_name = nick, cr_version = 1, cr_client_id = client_id, cr_pre_shared_key = key, cr_virtual_ipv4 = ip\<rparr>"
  have tok: "client_token r = token" and vip: "cr_virtual_ipv4 r = ip" by (simp_all add: client_token_def r_def e(4))
  obtain files where files: "read_files_from S [] dir = Inr files" "records = map snd files"
    using e(1) by (cases "read_files_from S [] dir") (auto simp: read_records_def read_record_files_def)
  have val: "validate_from L [] [] records = Inr clients"
    using assms(2) e(1) by (simp add: load_clients_def validate_records_def)
  note table = validate_records_Inr [OF val [folded validate_records_def]]
  have ips: "map (\<lambda>c. client_ip (snd c)) clients = map cr_virtual_ipv4 records"
    using table(2) by (simp add: client_ip_def flip: table(2))
  have ip_new: "ip \<notin> (\<lambda>c. client_ip (snd c)) ` set clients"
    using e(3) by (simp flip: ips)
  have "length files = length clients" using table(2) files(2) by (metis length_map)
  then have room: "length files < MAX_CLIENTS"
    using fresh_table_room [OF table(1) e(2) ip_new] by (simp add: MAX_CLIENTS_def)
  have "length contents \<le> 256 + 6 * (length nick + length client_id + length key)"
    using assms(6) e(5) unfolding serde_sized_def by fastforce
  then have "length contents \<le> MAX_RECORD_BYTES" using assms(7,8) e(8) by (simp add: MAX_RECORD_BYTES_def)
  moreover have "sl_parse_record S contents = Some r" using assms(1) e(5) by (simp add: serde_ok_def r_def)
  ultimately have "read_records S dir' = Inr (records @ [r])"
    using room files enroll_path [OF e(6)] by (simp add: read_records_def read_record_files_def e(7) read_files_append Let_def)
  moreover have "validate_from L clients (rev (map cr_virtual_ipv4 records)) [r] =
      Inr (clients @ [(raw_id, \<lparr>rc_record = r, rc_client_id = raw_id, rc_key = raw_key, rc_sessions = []\<rparr>)])"
    using assms(4,5) e(2,3) vip by (simp add: tok alist_update_new)
  ultimately show ?thesis
    using tok by (auto simp: load_clients_def validate_records_def validate_append val intro!: exI [of _ r])
qed

subsection \<open>Revoked addresses stay reserved\<close>

definition reserved_in :: "serde_lib \<Rightarrow> ipv4 \<Rightarrow> directory \<Rightarrow> bool" where
  "reserved_in S a dir \<longleftrightarrow>
     (\<exists>path bs. (path, Some bs) \<in> set dir \<and> extension path = Some ''revoked'' \<and> sl_parse_ip S (take 33 bs) = Some a)"

lemma reserved_in_Cons:
  "reserved_in S a ((path, contents) # dir) \<longleftrightarrow>
     extension path = Some ''revoked'' \<and> (\<exists>bs. contents = Some bs \<and> sl_parse_ip S (take 33 bs) = Some a)
     \<or> reserved_in S a dir"
  by (auto simp: reserved_in_def)

lemma reserved_from_keeps: "reserved_from S n reserved dir = Inr result \<Longrightarrow> set reserved \<subseteq> set result"
  by (induction S n reserved dir rule: reserved_from.induct) (auto split: if_splits option.splits)

lemma reserved_from_complete:
  "reserved_from S n reserved dir = Inr result \<Longrightarrow> (path, Some bs) \<in> set dir \<Longrightarrow> extension path = Some ''revoked''
     \<Longrightarrow> sl_parse_ip S (take 33 bs) = Some a \<Longrightarrow> a \<in> set result"
  by (induction S n reserved dir rule: reserved_from.induct)
     (auto split: if_splits option.splits dest: reserved_from_keeps)

lemma reserved_addresses_complete:
  "reserved_addresses S dir = Inr result \<Longrightarrow> reserved_in S a dir \<Longrightarrow> a \<in> set result"
  by (auto simp: reserved_addresses_def reserved_in_def dest: reserved_from_complete)

lemma reserved_from_sound:
  "reserved_from S n reserved dir = Inr result \<Longrightarrow> a \<in> set result \<Longrightarrow> a \<in> set reserved \<or> reserved_in S a dir"
  by (induction S n reserved dir rule: reserved_from.induct)
     (auto simp: reserved_in_Cons split: if_splits option.splits)

lemma reserved_in_append: "reserved_in S a dir \<Longrightarrow> reserved_in S a (dir @ more_files)"
  by (auto simp: reserved_in_def)

lemma reserved_in_delete:
  "reserved_in S a dir \<Longrightarrow> extension path = Some ''json'' \<Longrightarrow> reserved_in S a (AList.delete path dir)"
  by (fastforce simp: reserved_in_def AList.delete_eq)

text \<open>What a revocation that got as far as removing the record did.\<close>

lemma revoke_cases:
  obtains (kept) "fst (revoke_access L S client_id dir) = dir" "\<exists>e. snd (revoke_access L S client_id dir) = Inl e"
  | (removed) files path rcd marked where
      "read_record_files S dir = Inr files" "find (\<lambda>f. cr_client_id (snd f) = client_id) files = Some (path, rcd)"
      "extension path = Some ''json''"
      "marked = dir \<and> reserved_in S (cr_virtual_ipv4 rcd) dir \<or>
        (\<exists>bs. sl_print_ip S (cr_virtual_ipv4 rcd) = Some bs
           \<and> marked = dir @ [(show_ipv4 (cr_virtual_ipv4 rcd) @ ''.revoked'', Some bs)])"
      "fst (revoke_access L S client_id dir) = AList.delete path marked"
proof (cases "\<exists>files path record reserved. read_record_files S dir = Inr files
    \<and> find (\<lambda>f. cr_client_id (snd f) = client_id) files = Some (path, record) \<and> reserved_addresses S dir = Inr reserved
    \<and> (\<exists>clients. validate_records L (map snd files) = Inr clients)")
  case False
  then show thesis
    by (intro kept) (auto simp: revoke_access_def split: sum.splits option.splits)
next
  case True
  then obtain files path r reserved clients where f: "read_record_files S dir = Inr files"
    "find (\<lambda>f. cr_client_id (snd f) = client_id) files = Some (path, r)" "reserved_addresses S dir = Inr reserved"
    "validate_records L (map snd files) = Inr clients"
    by blast
  have json: "extension path = Some ''json''"
    using read_files_paths [OF f(1) [unfolded read_record_files_def] find_Some_in_set [OF f(2)]] by simp
  note eq = revoke_access_def f sum.case option.case prod.case
  show thesis
  proof (cases "cr_virtual_ipv4 r \<in> set reserved")
    case True
    then have "reserved_in S (cr_virtual_ipv4 r) dir"
      using reserved_from_sound f(3) by (fastforce simp: reserved_addresses_def)
    then show thesis using True by (intro removed [OF f(1,2) json, of dir]) (simp_all add: eq Let_def)
  next
    case False
    show thesis
    proof (cases "\<exists>bs. sl_print_ip S (cr_virtual_ipv4 r) = Some bs
        \<and> map_of dir (show_ipv4 (cr_virtual_ipv4 r) @ ''.revoked'') = None")
      case True
      then obtain bs where "sl_print_ip S (cr_virtual_ipv4 r) = Some bs"
        "map_of dir (show_ipv4 (cr_virtual_ipv4 r) @ ''.revoked'') = None" by blast
      then show thesis using False
        by (intro removed [OF f(1,2) json, of "dir @ [(show_ipv4 (cr_virtual_ipv4 r) @ ''.revoked'', Some bs)]"])
           (simp_all add: eq Let_def write_secret_def alist_update_new)
    next
      case none: False
      then show thesis using False
        by (intro kept) (auto simp: eq write_secret_def split: option.splits)
    qed
  qed
qed

lemma show_octet_nonempty: "show_octet b \<noteq> []"
  by (simp add: show_octet_def Let_def)

lemma revoked_path: "extension (show_ipv4 a @ ''.revoked'') = Some ''revoked''"
  using extension_suffix [of "''revoked''" "show_ipv4 a"] by (simp add: show_ipv4_def show_octet_nonempty)

lemma revoke_keeps_reserved: "reserved_in S a dir \<Longrightarrow> reserved_in S a (fst (revoke_access L S client_id dir))"
  by (cases rule: revoke_cases [of L S client_id dir]) (auto intro: reserved_in_delete reserved_in_append)

lemma revoke_reserves:
  assumes "serde_ok S" and "revoke_access L S client_id dir = (dir', Inr access)"
    and "read_record_files S dir = Inr files" and "find (\<lambda>f. cr_client_id (snd f) = client_id) files = Some (path, r)"
  shows "reserved_in S (cr_virtual_ipv4 r) dir'"
proof (cases rule: revoke_cases [of L S client_id dir])
  case kept
  then show ?thesis using assms(2) by simp
next
  case (removed files' path' r' marked)
  have r: "r' = r" using removed(1,2) assms(3,4) by simp
  have "reserved_in S (cr_virtual_ipv4 r) marked"
    using removed(4) assms(1) revoked_path [of "cr_virtual_ipv4 r"]
    by (force simp: r reserved_in_def serde_ok_def)
  then show ?thesis using reserved_in_delete [OF _ removed(3)] removed(5) assms(2) by simp
qed

lemma enroll_keeps_reserved:
  assumes "reserved_in S a dir"
  shows "reserved_in S a (fst (enroll S name label ip cid key dir))"
  using enroll_unchanged [of S name label ip cid key dir] reserved_in_append [OF assms] assms
  by (cases "enroll S name label ip cid key dir"; cases "snd (enroll S name label ip cid key dir)")
     (auto elim!: enroll_Inr)

lemma enroll_avoids_reserved:
  "reserved_in S a dir \<Longrightarrow> enroll S name label ip cid key dir = (dir', Inr token) \<Longrightarrow> et_virtual_ipv4 token \<noteq> a"
  by (auto elim!: enroll_Inr dest: reserved_addresses_complete)

datatype registry_event =
    Enroll_Client string "string option" "ipv4 option" string string
  | Revoke_Client string

fun registry_step ::
  "crypto_lib \<Rightarrow> serde_lib \<Rightarrow> registry_event \<Rightarrow> directory \<Rightarrow> directory \<times> EnrollmentToken list" where
  "registry_step L S (Enroll_Client name label ip client_id key) dir =
     (let (dir', answer) = enroll S name label ip client_id key dir
      in (dir', case answer of Inl _ \<Rightarrow> [] | Inr token \<Rightarrow> [token]))"
| "registry_step L S (Revoke_Client client_id) dir = (fst (revoke_access L S client_id dir), [])"

interpretation registry: emitting_component "registry_step L S" "reserved_in S a" "\<lambda>_. True" "\<lambda>t. et_virtual_ipv4 t \<noteq> a"
  for L S a
proof (unfold_locales, goal_cases)
  case (1 dir e)
  then show ?case by (cases e) (simp_all add: case_prod_unfold Let_def enroll_keeps_reserved revoke_keeps_reserved)
next
  case (2 dir e)
  then show ?case
    by (cases e) (auto simp: case_prod_unfold Let_def split: sum.splits dest: enroll_avoids_reserved [OF _ prod_eqI])
qed

text \<open>
  C35. The address of a revoked client is never handed out again: after a successful revocation, whatever
  enrollments and revocations follow, no token carries it - the replies a NAT mapping still holds for
  it cannot reach another client.
\<close>

theorem revoked_address_never_reissued:
  assumes "serde_ok S" and "read_records S dir = Inr records"
    and "find (\<lambda>r. cr_client_id r = client_id) records = Some r"
    and "revoke_access L S client_id dir = (dir', Inr access)"
  shows "list_all (\<lambda>t. et_virtual_ipv4 t \<noteq> cr_virtual_ipv4 r) (snd (emit_run (registry_step L S) events dir'))"
proof -
  obtain files where files: "read_record_files S dir = Inr files" "records = map snd files"
    using assms(2) by (cases "read_record_files S dir") (auto simp: read_records_def)
  have "map_option snd (find (\<lambda>f. cr_client_id (snd f) = client_id) files) = Some r"
    using assms(3) unfolding files(2) by (induction files) auto
  then obtain path where "find (\<lambda>f. cr_client_id (snd f) = client_id) files = Some (path, r)" by auto
  from revoke_reserves [OF assms(1,4) files(1) this] show ?thesis
    by (rule registry.emit_run_emits) (simp add: list_all_iff)
qed

subsection \<open>Reloading while serving\<close>

definition merged :: "RelayClient option \<Rightarrow> RelayClient \<Rightarrow> RelayClient" where
  "merged current client =
     (case current of
        None \<Rightarrow> client
      | Some c \<Rightarrow> if rc_key c = rc_key client \<and> client_ip c = client_ip client then c\<lparr>rc_record := rc_record client\<rparr> else client)"

lemma reconcile_step_fst:
  "fst (reconcile_step (cid, client) state) = AList.update cid (merged (map_of (fst state) cid) client) (fst state)"
  by (cases state) (simp add: reconcile_step_def merged_def client_ip_def split: option.split)

lemma reconcile_fold:
  assumes "distinct (map fst next_clients)"
  shows "map_of (fst (fold reconcile_step next_clients state)) cid =
      (case map_of next_clients cid of None \<Rightarrow> map_of (fst state) cid | Some c \<Rightarrow> Some (merged (map_of (fst state) cid) c))"
    and "distinct (map fst (fst state)) \<Longrightarrow> distinct (map fst (fst (fold reconcile_step next_clients state)))"
  using assms
proof (induction next_clients arbitrary: state)
  case (Cons e next_clients)
  obtain k c where e: "e = (k, c)" by (cases e)
  { case 1
    then have new: "map_of next_clients k = None" by (simp add: e map_of_eq_None_iff)
    show ?case using Cons.IH(1) [of "reconcile_step e state"] 1 new
      by (auto simp: e reconcile_step_fst update_conv split: option.split) }
  { case 2 show ?case
      using Cons.IH(2) [of "reconcile_step e state"] 2 by (simp add: e reconcile_step_fst distinct_alist) }
qed simp_all

lemma reconcile_lookup:
  assumes "distinct (map fst next_clients)"
  shows "map_of (fst (reconcile_clients active next_clients)) cid =
    map_option (merged (map_of active cid)) (map_of next_clients cid)"
proof -
  define kept where "kept = filter (\<lambda>c. map_of next_clients (fst c) \<noteq> None) active"
  have "map_of kept cid = (if map_of next_clients cid = None then None else map_of active cid)"
    unfolding kept_def by (induction active) auto
  moreover have "reconcile_clients active next_clients = fold reconcile_step next_clients (kept, length kept \<noteq> length active)"
    by (simp add: reconcile_clients_def kept_def Let_def)
  ultimately show ?thesis
    using reconcile_fold(1) [OF assms, of "(kept, length kept \<noteq> length active)" cid] by (simp split: option.split)
qed

lemma reconcile_distinct:
  assumes "distinct (map fst next_clients)" and "distinct (map fst active)"
  shows "distinct (map fst (fst (reconcile_clients active next_clients)))"
  using reconcile_fold(2) [OF assms(1)] assms(2)
  by (simp add: reconcile_clients_def Let_def distinct_map_filter)

text \<open>
  A reload makes the table exactly the registry without disturbing who stays: a registry that does not
  load leaves the table alone; one that loads removes every client it no longer lists, adds the new
  ones, and a client with the same key and address keeps its sessions - sequence counters, replay
  windows and repair buffers - under its new record.
\<close>

theorem reload_keeps_live_sessions:
  "case load_clients L S dir of
     Inl e \<Rightarrow> refresh_clients L S dir active = (active, Inl e)
   | Inr registered \<Rightarrow>
       map_of (fst (refresh_clients L S dir active)) cid =
         (case map_of registered cid of
            None \<Rightarrow> None
          | Some client \<Rightarrow>
              Some (case map_of active cid of
                      None \<Rightarrow> client
                    | Some current \<Rightarrow>
                        if rc_key current = rc_key client \<and> client_ip current = client_ip client
                        then current\<lparr>rc_record := rc_record client\<rparr> else client))"
proof (cases "load_clients L S dir")
  case (Inr registered)
  then obtain records where "validate_records L records = Inr registered" by (auto simp: load_clients_def split: sum.splits)
  then have "distinct (map fst registered)" using validate_records_Inr(1) by (simp add: fresh_table_def)
  from reconcile_lookup [OF this, of active cid] Inr show ?thesis
    by (simp add: refresh_clients_def case_prod_unfold Let_def merged_def split: option.split)
qed (simp add: refresh_clients_def)

subsection \<open>A sample registry\<close>

definition sample_record :: ClientRecord where
  "sample_record = \<lparr>cr_name = ''pc'', cr_version = 1, cr_client_id = ''0123456789abcdef'',
     cr_pre_shared_key = ''0123456789abcdef0123456789abcdef'', cr_virtual_ipv4 = [10, 203, 0, 2]\<rparr>"

definition sample_serde :: serde_lib where
  "sample_serde = \<lparr>sl_parse_record = (\<lambda>bs. if bs = [1] then Some sample_record else None),
     sl_print_record = (\<lambda>r. if r = sample_record then Some [1] else None),
     sl_parse_ip = (\<lambda>bs. if length bs = 1 then Some [10, 203, 0, bs ! 0] else None),
     sl_print_ip = (\<lambda>a. if a = [10, 203, 0, a ! 3] then Some [a ! 3] else None)\<rparr>"

lemma sample_serde_ok: "serde_ok sample_serde"
  by (auto simp: serde_ok_def sample_serde_def split: if_splits)

lemma sample_serde_sized: "serde_sized sample_serde"
  by (auto simp: serde_sized_def sample_serde_def split: if_splits)

lemma sample_revocation:
  "revoke_access tag_lib sample_serde ''0123456789abcdef'' [(''pc.json'', Some [1])] =
     ([(''10.203.0.2.revoked'', Some [2])], Inr [])"
  by code_simp

lemma sample_enrollment:
  "enroll sample_serde ''pc'' None (Some [10, 203, 0, 2]) ''0123456789abcdef'' ''0123456789abcdef0123456789abcdef'' [] =
     ([(''pc.json'', Some [1])], Inr (client_token sample_record))"
  by code_simp

theorem enrollment_keeps_registry_loadable_witness:
  "\<exists>record c. client_token record = client_token sample_record
     \<and> load_clients tag_lib sample_serde [(''pc.json'', Some [1])] = Inr [c]"
proof -
  have "load_clients tag_lib sample_serde [] = Inr []"
    by (simp add: load_clients_def read_records_def read_record_files_def validate_records_def)
  moreover have "\<exists>raw_id raw_key. material tag_lib (client_token sample_record) = Inr (raw_id, raw_key)"
    by (simp add: material_def client_token_def sample_record_def tag_lib_def ascii_def)
  ultimately show ?thesis
    using enrollment_keeps_registry_loadable [OF sample_serde_ok _ sample_enrollment _ _ sample_serde_sized] by fastforce
qed

theorem revoked_address_never_reissued_witness:
  "list_all (\<lambda>t. et_virtual_ipv4 t \<noteq> [10, 203, 0, 2])
     (snd (emit_run (registry_step tag_lib sample_serde)
        [Enroll_Client ''pc'' None (Some [10, 203, 0, 2]) ''0123456789abcdef'' ''0123456789abcdef0123456789abcdef'']
        [(''10.203.0.2.revoked'', Some [2])]))"
proof -
  have "read_records sample_serde [(''pc.json'', Some [1])] = Inr [sample_record]" by code_simp
  moreover have "cr_client_id sample_record = ''0123456789abcdef''" "cr_virtual_ipv4 sample_record = [10, 203, 0, 2]"
    by (simp_all add: sample_record_def)
  ultimately show ?thesis
    using revoked_address_never_reissued [OF sample_serde_ok _ _ sample_revocation, of "[sample_record]" sample_record]
    by (simp del: emit_run.simps)
qed

end
