(* ===== verification/Relay_Run.thy ===== *)
theory Relay_Run
  imports Registry
begin

section \<open>A run of the whole relay\<close>

text \<open>
  The relay is the sequence of its threads' locked steps in any interleaving: datagrams of the serve
  loop, packets of the TUN reader, passes of the repair flusher, and reloads of the registry. Every
  step keeps the table well formed and writes to the TUN only in an enrolled client's name.
\<close>

datatype relay_event =
    Datagram bytes SocketAddr instant u64
  | Tun_Packet bytes instant
  | Flush_Pass instant
  | Reload directory

fun relay_step :: "crypto_lib \<Rightarrow> serde_lib \<Rightarrow> relay_event \<Rightarrow> clients \<Rightarrow> (clients \<times> relay_action list) outcome" where
  "relay_step L S (Datagram frame endpoint now wall) clients = serve_frame L now wall frame endpoint clients"
| "relay_step L S (Tun_Packet packet now) clients = Ret (forward_reply L now packet clients)"
| "relay_step L S (Flush_Pass now) clients = Ret (flush_clients L now clients)"
| "relay_step L S (Reload dir) clients = Ret (fst (refresh_clients L S dir clients), [])"

fun relay_run :: "crypto_lib \<Rightarrow> serde_lib \<Rightarrow> relay_event list \<Rightarrow> clients \<Rightarrow> (clients \<times> relay_action list) outcome" where
  "relay_run L S [] clients = Ret (clients, [])"
| "relay_run L S (e # es) clients =
     (case relay_step L S e clients of
        Panic \<Rightarrow> Panic
      | Ret (clients, acts) \<Rightarrow>
          (case relay_run L S es clients of
             Panic \<Rightarrow> Panic
           | Ret (clients, rest) \<Rightarrow> Ret (clients, acts @ rest)))"

subsection \<open>The invariant\<close>

definition addresses_ok :: "clients \<Rightarrow> bool" where
  "addresses_ok clients \<longleftrightarrow>
     (\<forall>i c. map_of clients i = Some c \<longrightarrow> client_address (client_ip c)
        \<and> (\<forall>j d. map_of clients j = Some d \<longrightarrow> client_ip c = client_ip d \<longrightarrow> i = j))"

definition relay_inv :: "clients \<Rightarrow> bool" where
  "relay_inv clients \<longleftrightarrow> relay_ok clients \<and> addresses_ok clients"

definition in_client_name :: "relay_action list \<Rightarrow> bool" where
  "in_client_name acts \<longleftrightarrow> list_all (\<lambda>p. \<exists>a. ipv4_source p = Some a \<and> client_address a) (tun_packets acts)"

lemma in_client_name_append [simp]: "in_client_name (as @ bs) \<longleftrightarrow> in_client_name as \<and> in_client_name bs"
  by (simp add: in_client_name_def)

lemma in_client_name_Nil [simp]: "in_client_name []"
  by (simp add: in_client_name_def)

lemma transition_in_client_name: "transition ip k s acts s' \<Longrightarrow> client_address ip \<Longrightarrow> in_client_name acts"
  by (auto simp: transition_def in_client_name_def list_all_iff)

lemma addresses_same:
  assumes "addresses_ok clients" and "\<And>k. map_option client_ip (map_of clients' k) = map_option client_ip (map_of clients k)"
  shows "addresses_ok clients'"
proof -
  have "\<exists>d. map_of clients i = Some d \<and> client_ip d = client_ip c" if "map_of clients' i = Some c" for i c
    using assms(2) [of i] that by (cases "map_of clients i") simp_all
  then show ?thesis using assms(1) unfolding addresses_ok_def by metis
qed

lemma addresses_update:
  assumes "addresses_ok clients" and "map_of clients k = Some c0" and "client_ip c = client_ip c0"
  shows "addresses_ok (AList.update k c clients)"
  by (rule addresses_same [OF assms(1)]) (simp add: update_conv assms)

lemma serve_frame_inv:
  assumes "relay_inv clients"
  shows "\<exists>clients' acts. serve_frame L now wall frame endpoint clients = Ret (clients', acts)
    \<and> relay_inv clients' \<and> in_client_name acts"
proof (cases rule: serve_frame_cases [of L now wall frame endpoint clients])
  case ignored
  then show ?thesis using assms by simp
next
  case (authentic header client crypto plaintext)
  have addr: "client_address (client_ip client)"
    using assms authentic(3) by (auto simp: relay_inv_def addresses_ok_def)
  obtain clients' acts where served: "serve_frame L now wall frame endpoint clients = Ret (clients', acts)" "relay_ok clients'"
    using serve_frame_ok assms by (metis relay_inv_def)
  show ?thesis
  proof (cases "stateless_probe_reply L client crypto header plaintext wall")
    case (Some reply)
    then show ?thesis using authentic(6) assms by (simp add: in_client_name_def)
  next
    case None
    obtain client' session where adm: "admit_session (fh_session_id header) now wall client = (client', session)"
      by (rule prod.exhaust)
    have "client_ok client" using assms map_of_SomeD [OF authentic(3)] by (auto simp: relay_inv_def relay_ok_def)
    note ok = admit_session_ok [OF this, of "fh_session_id header" now wall, unfolded adm fst_conv snd_conv]
    have ip: "cr_virtual_ipv4 (rc_record client') = client_ip client" using ok(4) by (simp add: client_ip_def)
    have ids: "length (rc_client_id client') = 16" "length (fh_client_id header) = 16"
      using ok(1) decoded_client_id [OF authentic(1)] by (simp_all add: client_ok_def)
    obtain s' moves where frame: "session_frame L crypto (rc_client_id client') (client_ip client) header plaintext endpoint now session = Ret (s', moves)"
        "transition (client_ip client) 2 session moves s'"
      using session_frame_transition [OF ok(2) ids] by blast
    then have eq: "clients' = AList.update (fh_client_id header)
          (client'\<lparr>rc_sessions := AList.update (fh_session_id header) s' (rc_sessions client')\<rparr>) clients" "acts = moves"
      using authentic(6) None adm ip served(1) by simp_all
    have "addresses_ok clients'"
      unfolding eq(1) using assms ip by (intro addresses_update [OF _ authentic(3)]) (simp_all add: relay_inv_def client_ip_def)
    then show ?thesis
      using served transition_in_client_name [OF frame(2) addr] by (simp add: relay_inv_def eq(2))
  qed
qed

lemma forward_reply_inv:
  assumes "relay_inv clients"
  shows "relay_inv (fst (forward_reply L now packet clients)) \<and> in_client_name (snd (forward_reply L now packet clients))"
proof (cases "forward_reply L now packet clients = (clients, [])")
  case True
  then show ?thesis using assms by simp
next
  case False
  then obtain destination cid client sid session crypto where found:
      "find (\<lambda>c. cr_virtual_ipv4 (rc_record (snd c)) = destination) clients = Some (cid, client)"
      "max_by_key (\<lambda>e. ss_last_seen (snd e)) (rc_sessions client) = Some (sid, session)"
    and eq: "forward_reply L now packet clients =
        (let (session, acts) = reply_session L crypto (rc_client_id client) sid packet now session
         in (AList.update cid (client\<lparr>rc_sessions := AList.update sid session (rc_sessions client)\<rparr>) clients, acts))"
    by (force simp: forward_reply_def split: option.splits sum.splits)
  have mem: "(cid, client) \<in> set clients" by (rule find_Some_in_set [OF found(1)])
  then have here: "map_of clients cid = Some client" and c: "client_ok client"
    using assms by (auto simp: relay_inv_def relay_ok_def intro: map_of_is_SomeI)
  then have addr: "client_address (client_ip client)" using assms by (auto simp: relay_inv_def addresses_ok_def)
  have "session_ok (client_ip client) session"
    using c max_by_key_in [OF found(2)] by (auto simp: client_ok_def sessions_ok_def)
  then have t: "transition (client_ip client) (2 * (length packet + 1)) session (snd (reply_session L crypto (rc_client_id client) sid packet now session))
      (fst (reply_session L crypto (rc_client_id client) sid packet now session))"
    using c by (intro reply_transition) (simp_all add: client_ok_def)
  have "addresses_ok (fst (forward_reply L now packet clients))"
    unfolding eq using assms
    by (auto simp: case_prod_unfold Let_def relay_inv_def client_ip_def intro!: addresses_update [OF _ here])
  moreover have "in_client_name (snd (forward_reply L now packet clients))"
    using transition_in_client_name [OF t addr] by (simp add: eq case_prod_unfold Let_def)
  ultimately show ?thesis using assms forward_reply_ok by (simp add: relay_inv_def)
qed

lemma flush_sessions_in_name:
  assumes "length (rc_client_id client) = 16" and "client_address ip" and "\<forall>e \<in> set sessions. session_ok ip (snd e)"
  shows "in_client_name (snd (flush_sessions L now client sessions))"
  using assms(3)
proof (induction sessions)
  case (Cons e sessions)
  obtain k s where e: "e = (k, s)" by (cases e)
  have "in_client_name (snd (flush_session L (rc_key client) (rc_client_id client) k now s))"
    using transition_in_client_name [OF flush_transition [OF _ assms(1)] assms(2)] Cons.prems by (simp add: e)
  with Cons show ?case by (simp add: e case_prod_unfold Let_def)
qed simp

lemma flush_clients_in_name:
  "\<forall>c \<in> set clients. client_ok (snd c) \<and> client_address (client_ip (snd c)) \<Longrightarrow> in_client_name (snd (flush_clients L now clients))"
proof (induction clients)
  case (Cons c clients)
  obtain k cl where c: "c = (k, cl)" by (cases c)
  have "in_client_name (snd (flush_sessions L now cl (rc_sessions cl)))"
    using Cons.prems by (intro flush_sessions_in_name [of _ "client_ip cl"]) (simp_all add: c client_ok_def sessions_ok_def)
  with Cons show ?case by (simp add: c case_prod_unfold Let_def)
qed simp

lemma flush_clients_lookup:
  "map_option client_ip (map_of (fst (flush_clients L now clients)) k) = map_option client_ip (map_of clients k)"
  by (induction clients) (auto simp: case_prod_unfold Let_def client_ip_def)

lemma flush_clients_inv:
  assumes "relay_inv clients"
  shows "relay_inv (fst (flush_clients L now clients)) \<and> in_client_name (snd (flush_clients L now clients))"
proof -
  have members: "\<forall>c \<in> set clients. client_ok (snd c) \<and> client_address (client_ip (snd c))"
  proof
    fix c assume "c \<in> set clients"
    then have "map_of clients (fst c) = Some (snd c)" using assms by (auto simp: relay_inv_def relay_ok_def)
    then show "client_ok (snd c) \<and> client_address (client_ip (snd c))"
      using assms \<open>c \<in> set clients\<close> unfolding relay_inv_def relay_ok_def addresses_ok_def by blast
  qed
  have "relay_ok (fst (flush_clients L now clients))"
    using assms members flush_clients_ok(1) [of L now clients] flush_clients_ok(2) [of clients L now]
    by (simp add: relay_inv_def relay_ok_def)
  moreover have "addresses_ok (fst (flush_clients L now clients))"
    using assms by (intro addresses_same [OF _ flush_clients_lookup]) (simp add: relay_inv_def)
  ultimately show ?thesis using flush_clients_in_name [OF members] by (simp add: relay_inv_def)
qed

lemma loaded_inv:
  assumes "load_clients L S dir = Inr clients"
  shows "relay_inv clients" and "distinct (map fst clients)"
proof -
  have table: "fresh_table clients"
    using assms validate_records_Inr(1) by (auto simp: load_clients_def split: sum.splits)
  then show "distinct (map fst clients)" by (simp add: fresh_table_def)
  have "addresses_ok clients"
    unfolding addresses_ok_def
  proof (intro allI impI conjI)
    fix i c assume i: "map_of clients i = Some c"
    then show "client_address (client_ip c)" using table by (auto simp: fresh_table_def dest: map_of_SomeD)
    fix j d assume j: "map_of clients j = Some d" and "client_ip c = client_ip d"
    then have "inj_on (\<lambda>c. client_ip (snd c)) (set clients)" "client_ip (snd (i, c)) = client_ip (snd (j, d))"
      using table by (simp_all add: fresh_table_def distinct_map)
    then have "(i, c) = (j, d)" using map_of_SomeD [OF i] map_of_SomeD [OF j] by (rule inj_onD)
    then show "i = j" by simp
  qed
  then show "relay_inv clients" by (simp add: relay_inv_def fresh_table_relay_ok [OF table])
qed

lemma merged_ip: "client_ip (merged current client) = client_ip client"
  by (simp add: merged_def client_ip_def split: option.split)

lemma refresh_inv:
  assumes "relay_inv clients"
  shows "relay_inv (fst (refresh_clients L S dir clients))"
proof (cases "load_clients L S dir")
  case (Inl e)
  then show ?thesis using assms by (simp add: refresh_clients_def)
next
  case (Inr registered)
  note reg = loaded_inv [OF Inr]
  have result: "fst (refresh_clients L S dir clients) = fst (reconcile_clients clients registered)"
    using Inr by (simp add: refresh_clients_def case_prod_unfold Let_def)
  have keys: "distinct (map fst (fst (reconcile_clients clients registered)))"
    using reconcile_distinct [OF reg(2)] assms by (simp add: relay_inv_def relay_ok_def)
  have "client_ok (snd c)" if "c \<in> set (fst (reconcile_clients clients registered))" for c
  proof -
    have "map_of (fst (reconcile_clients clients registered)) (fst c) = Some (snd c)" using keys that by auto
    then obtain d where d: "map_of registered (fst c) = Some d" "snd c = merged (map_of clients (fst c)) d"
      by (auto simp: reconcile_lookup [OF reg(2)])
    have "client_ok d" using reg(1) map_of_SomeD [OF d(1)] by (auto simp: relay_inv_def relay_ok_def)
    moreover have "client_ok a" if "map_of clients (fst c) = Some a" for a
      using assms map_of_SomeD [OF that] by (auto simp: relay_inv_def relay_ok_def)
    ultimately show ?thesis by (auto simp: d(2) merged_def client_ok_def client_ip_def split: option.split)
  qed
  moreover have "addresses_ok (fst (reconcile_clients clients registered))"
  proof (rule addresses_same)
    show "addresses_ok registered" using reg(1) by (simp add: relay_inv_def)
    show "map_option client_ip (map_of (fst (reconcile_clients clients registered)) k) = map_option client_ip (map_of registered k)" for k
      by (cases "map_of registered k") (simp_all add: reconcile_lookup [OF reg(2)] merged_ip)
  qed
  ultimately show ?thesis using keys by (simp add: result relay_inv_def relay_ok_def)
qed

lemma relay_step_inv:
  "relay_inv clients \<Longrightarrow> \<exists>clients' acts. relay_step L S e clients = Ret (clients', acts) \<and> relay_inv clients' \<and> in_client_name acts"
  by (cases e) (simp_all add: serve_frame_inv refresh_inv, (metis forward_reply_inv flush_clients_inv surjective_pairing)+)

lemma relay_run_inv:
  "relay_inv clients \<Longrightarrow> \<exists>clients' acts. relay_run L S es clients = Ret (clients', acts) \<and> relay_inv clients' \<and> in_client_name acts"
proof (induction es arbitrary: clients)
  case (Cons e es)
  obtain c1 as where c1: "relay_step L S e clients = Ret (c1, as)" "relay_inv c1" "in_client_name as"
    using relay_step_inv [OF Cons.prems] by blast
  obtain c2 bs where "relay_run L S es c1 = Ret (c2, bs)" "relay_inv c2" "in_client_name bs"
    using Cons.IH [OF c1(2)] by blast
  with c1 show ?case by simp
qed simp

text \<open>
  C5. The relay as a whole: started from a registry that loads, and through any interleaving of received
  datagrams - hostile ones included - packets from its TUN device, flusher passes and registry
  reloads, it never panics; every client keeps at most eight sessions; no two clients ever share a
  virtual address, so a reply has one owner; and every packet written to the TUN device carries an
  address of the client subnet as its source.
\<close>

theorem relay_serves_any_interleaving:
  assumes "load_clients L S dir = Inr clients"
  shows "\<exists>clients' acts. relay_run L S events clients = Ret (clients', acts)
    \<and> list_all (\<lambda>c. length (rc_sessions (snd c)) \<le> MAX_SESSIONS_PER_CLIENT \<and> distinct (map fst (rc_sessions (snd c)))) clients'
    \<and> distinct (map (\<lambda>c. cr_virtual_ipv4 (rc_record (snd c))) clients')
    \<and> list_all (\<lambda>p. \<exists>a. ipv4_source p = Some a \<and> client_address a) (tun_packets acts)"
proof -
  obtain clients' acts where run: "relay_run L S events clients = Ret (clients', acts)" "relay_inv clients'" "in_client_name acts"
    using relay_run_inv [OF loaded_inv(1) [OF assms]] by blast
  have keys: "distinct (map fst clients')" using run(2) by (simp add: relay_inv_def relay_ok_def)
  then have "distinct clients'" by (simp add: distinct_map)
  moreover have "inj_on (\<lambda>c. cr_virtual_ipv4 (rc_record (snd c))) (set clients')"
  proof (rule inj_onI)
    fix c d assume cd: "c \<in> set clients'" "d \<in> set clients'"
      "cr_virtual_ipv4 (rc_record (snd c)) = cr_virtual_ipv4 (rc_record (snd d))"
    then have "map_of clients' (fst c) = Some (snd c)" "map_of clients' (fst d) = Some (snd d)" using keys by auto
    then have "fst c = fst d" using run(2) cd(3) by (auto simp: relay_inv_def addresses_ok_def client_ip_def)
    then show "c = d" using keys cd(1,2) by (simp add: distinct_map inj_on_def)
  qed
  moreover have "list_all (\<lambda>c. length (rc_sessions (snd c)) \<le> MAX_SESSIONS_PER_CLIENT \<and> distinct (map fst (rc_sessions (snd c)))) clients'"
    using run(2) by (auto simp: relay_inv_def relay_ok_def client_ok_def sessions_ok_def list_all_iff)
  ultimately show ?thesis using run(1,3) by (simp add: distinct_map in_client_name_def)
qed

theorem relay_serves_any_interleaving_witness:
  "\<exists>clients' acts. relay_run tag_lib sample_serde [Datagram [1, 2] (SocketAddrV4 [10, 0, 0, 1] 4500) 0 0, Reload [], Flush_Pass 5]
     [(ascii ''0123456789abcdef'', \<lparr>rc_record = sample_record, rc_client_id = ascii ''0123456789abcdef'',
        rc_key = ascii ''0123456789abcdef0123456789abcdef'', rc_sessions = []\<rparr>)] = Ret (clients', acts)"
proof -
  have "load_clients tag_lib sample_serde [(''pc.json'', Some [1])] =
      Inr [(ascii ''0123456789abcdef'', \<lparr>rc_record = sample_record, rc_client_id = ascii ''0123456789abcdef'',
        rc_key = ascii ''0123456789abcdef0123456789abcdef'', rc_sessions = []\<rparr>)]"
    by code_simp
  from relay_serves_any_interleaving [OF this] show ?thesis by blast
qed

end
