(* ===== verification/Rtt.thy ===== *)
theory Rtt
  imports Contracts
begin

section \<open>Probe deadlines (\<^verbatim>\<open>engine/src/rtt.rs\<close>)\<close>

text \<open>
  The round-trip estimator of RFC 6298 and the probe deadline it gives. Durations are whole
  nanoseconds; \<^verbatim>\<open>Duration\<close>'s division by an integer truncates to a nanosecond, as \<open>div\<close> does. The
  lemmas bound the deadline and show how it follows a path that settles.
\<close>

definition MIN_TIMEOUT :: duration where "MIN_TIMEOUT = millis 200"
definition STREAMED_MIN_TIMEOUT :: duration where "STREAMED_MIN_TIMEOUT = millis 750"
definition MAX_TIMEOUT :: duration where "MAX_TIMEOUT = millis 1500"
definition ALPHA_RECIPROCAL :: nat where "ALPHA_RECIPROCAL = 8"
definition BETA_RECIPROCAL :: nat where "BETA_RECIPROCAL = 4"
definition VARIATION_MULTIPLIER :: nat where "VARIATION_MULTIPLIER = 4"

record RttEstimator =
  re_smoothed :: "duration option"
  re_variation :: duration
  re_floor :: duration

definition with_floor :: "duration \<Rightarrow> RttEstimator" where
  "with_floor floor = \<lparr>re_smoothed = None, re_variation = 0, re_floor = max MIN_TIMEOUT (min MAX_TIMEOUT floor)\<rparr>"

definition rtt_default :: RttEstimator where
  "rtt_default = with_floor MIN_TIMEOUT"

definition abs_diff :: "nat \<Rightarrow> nat \<Rightarrow> nat" where
  "abs_diff a b = (if a \<le> b then b - a else a - b)"

definition rtt_record :: "duration \<Rightarrow> RttEstimator \<Rightarrow> RttEstimator" where
  "rtt_record sample e =
     (case re_smoothed e of
        None \<Rightarrow> e\<lparr>re_smoothed := Some sample, re_variation := sample div 2\<rparr>
      | Some smoothed \<Rightarrow>
          let deviation = abs_diff sample smoothed
          in e\<lparr>re_variation := (re_variation e * (BETA_RECIPROCAL - 1) + deviation) div BETA_RECIPROCAL,
               re_smoothed := Some ((smoothed * (ALPHA_RECIPROCAL - 1) + sample) div ALPHA_RECIPROCAL)\<rparr>)"

definition rtt_timeout :: "RttEstimator \<Rightarrow> duration" where
  "rtt_timeout e =
     (case re_smoothed e of
        None \<Rightarrow> MAX_TIMEOUT
      | Some smoothed \<Rightarrow>
          max (re_floor e) (min MAX_TIMEOUT (smoothed + re_variation e * VARIATION_MULTIPLIER)))"

definition rtt_smoothed :: "RttEstimator \<Rightarrow> duration option" where
  "rtt_smoothed e = re_smoothed e"

definition rtt_ok :: "RttEstimator \<Rightarrow> bool" where
  "rtt_ok e \<longleftrightarrow> MIN_TIMEOUT \<le> re_floor e \<and> re_floor e \<le> MAX_TIMEOUT"

interpretation rtt: component "with_floor floor" rtt_record rtt_ok for floor
proof
  show "rtt_ok (with_floor floor)" by (simp add: rtt_ok_def with_floor_def MIN_TIMEOUT_def MAX_TIMEOUT_def millis_def)
  show "rtt_ok e \<Longrightarrow> rtt_ok (rtt_record s e)" for e s
    by (simp add: rtt_ok_def rtt_record_def Let_def split: option.splits)
qed

lemma rtt_floor_kept: "re_floor (fold rtt_record samples e) = re_floor e"
  by (induction samples arbitrary: e) (simp_all add: rtt_record_def Let_def split: option.splits)

subsection \<open>The estimate stays among the samples\<close>

definition samples_within :: "duration \<Rightarrow> duration \<Rightarrow> RttEstimator \<Rightarrow> bool" where
  "samples_within low high e \<longleftrightarrow>
     (case re_smoothed e of
        None \<Rightarrow> re_variation e = 0
      | Some s \<Rightarrow> low \<le> s \<and> s \<le> high \<and> re_variation e \<le> max (high div 2) (high - low))"

lemma average_within:
  assumes "low \<le> a" and "a \<le> high" and "low \<le> b" and "b \<le> (high :: nat)"
  shows "low \<le> (a * 7 + b) div 8 \<and> (a * 7 + b) div 8 \<le> high"
proof -
  have "8 * low \<le> a * 7 + b" "a * 7 + b \<le> 8 * high" using assms by linarith+
  then show ?thesis using div_le_mono [of "a * 7 + b" "8 * high" 8] by (simp add: less_eq_div_iff_mult_less_eq)
qed

lemma record_within:
  assumes "samples_within low high e" and "low \<le> sample" and "sample \<le> high"
  shows "samples_within low high (rtt_record sample e)"
proof (cases "re_smoothed e")
  case None
  then show ?thesis using assms by (simp add: samples_within_def rtt_record_def div_le_mono le_max_iff_disj)
next
  case (Some s)
  then have s: "low \<le> s" "s \<le> high" "re_variation e \<le> max (high div 2) (high - low)"
    using assms(1) by (simp_all add: samples_within_def)
  have "abs_diff sample s \<le> high - low" using assms(2,3) s(1,2) unfolding abs_diff_def by (simp split: if_split) linarith
  then have "(re_variation e * 3 + abs_diff sample s) div 4 \<le> max (high div 2) (high - low)"
    using s(3) by linarith
  with average_within [OF s(1,2) assms(2,3)] Some show ?thesis
    by (simp add: samples_within_def rtt_record_def ALPHA_RECIPROCAL_def BETA_RECIPROCAL_def Let_def)
qed

lemma run_within:
  "samples_within low high e \<Longrightarrow> list_all (\<lambda>s. low \<le> s \<and> s \<le> high) samples \<Longrightarrow>
     samples_within low high (fold rtt_record samples e)"
  by (induction samples arbitrary: e) (simp_all add: record_within)

lemma clamp_bounds:
  fixes fl cap v :: nat
  assumes "m \<le> fl" and "fl \<le> cap" and "low \<le> v" and "low \<le> cap" and "v \<le> b"
  shows "m \<le> max fl (min cap v) \<and> max fl (min cap v) \<le> cap \<and> low \<le> max fl (min cap v)
    \<and> max fl (min cap v) \<le> max fl b"
  using assms by (simp add: max_def min_def)

text \<open>
  The probe deadline never leaves its bounds and follows the path: after any measurements it lies
  between the path's floor and 1.5 s, with the floor never under 200 ms; and when every measured round
  trip lies between \<open>low\<close> and \<open>high\<close>, the deadline allows at least the fastest of them and is at most
  the slowest plus four times the larger of half the slowest and their spread (or the floor, if that
  is more).
\<close>

theorem probe_deadline_bounds:
  assumes "samples \<noteq> []" and "list_all (\<lambda>s. low \<le> s \<and> s \<le> high) samples" and "low \<le> millis 1500"
  shows "millis 200 \<le> rtt_timeout (fold rtt_record samples (with_floor floor))
    \<and> rtt_timeout (fold rtt_record samples (with_floor floor)) \<le> millis 1500
    \<and> low \<le> rtt_timeout (fold rtt_record samples (with_floor floor))
    \<and> rtt_timeout (fold rtt_record samples (with_floor floor))
        \<le> max (re_floor (with_floor floor)) (high + 4 * max (high div 2) (high - low))"
proof -
  let ?e = "fold rtt_record samples (with_floor floor)"
  have ok: "rtt_ok ?e" by (rule rtt.run_inv)
  have "samples_within low high ?e"
    using assms(2) by (intro run_within) (simp_all add: samples_within_def with_floor_def)
  moreover have "re_smoothed (fold rtt_record samples e) \<noteq> None" if "samples \<noteq> [] \<or> re_smoothed e \<noteq> None" for samples e
    using that by (induction samples arbitrary: e) (auto simp: rtt_record_def Let_def split: option.splits)
  then have "re_smoothed ?e \<noteq> None" using assms(1) by blast
  ultimately obtain s where s: "re_smoothed ?e = Some s" "low \<le> s" "s \<le> high"
      "re_variation ?e \<le> max (high div 2) (high - low)"
    by (auto simp: samples_within_def)
  have fl: "re_floor ?e = re_floor (with_floor floor)" by (rule rtt_floor_kept)
  have up: "s + re_variation ?e * 4 \<le> high + 4 * max (high div 2) (high - low)" using s(3,4) by linarith
  have t: "rtt_timeout ?e = max (re_floor (with_floor floor)) (min (millis 1500) (s + re_variation ?e * 4))"
    by (simp add: rtt_timeout_def s(1) fl VARIATION_MULTIPLIER_def MAX_TIMEOUT_def)
  have fl_ok: "millis 200 \<le> re_floor (with_floor floor)" "re_floor (with_floor floor) \<le> millis 1500"
    using ok fl by (simp_all add: rtt_ok_def MIN_TIMEOUT_def MAX_TIMEOUT_def)
  have "low \<le> s + re_variation ?e * 4" using s(2) by linarith
  from clamp_bounds [OF fl_ok this assms(3) up] show ?thesis unfolding t .
qed

theorem probe_deadline_bounds_witness:
  "rtt_timeout (fold rtt_record [millis 60, millis 62, millis 58] (with_floor (millis 750))) = millis 750"
proof -
  have "re_floor (with_floor (millis 750)) = millis 750" by (simp add: with_floor_def MIN_TIMEOUT_def MAX_TIMEOUT_def millis_def)
  moreover have "re_floor (with_floor (millis 750)) \<le> rtt_timeout (fold rtt_record [millis 60, millis 62, millis 58] (with_floor (millis 750)))"
    by (simp add: rtt_timeout_def rtt_record_def with_floor_def Let_def)
  ultimately show ?thesis
    using probe_deadline_bounds [of "[millis 60, millis 62, millis 58]" "millis 58" "millis 62" "millis 750"]
    by (simp add: millis_def del: fold_simps)
qed

end
