(* ===== verification/Tcp_Mss.thy ===== *)
theory Tcp_Mss
  imports Icmp
begin

section \<open>TCP MSS clamping (\<^verbatim>\<open>engine/src/tcp_mss.rs\<close>)\<close>

text \<open>
  Walking the options of a SYN to lower the maximum segment size it advertises, and recomputing the
  TCP checksum afterwards. The lemmas show that the walk ends, stays inside the packet and changes
  nothing but the two MSS bytes, that the recomputed checksum verifies, and under which header the
  recomputation panics.
\<close>

subsection \<open>The code\<close>

text \<open>The option loop: the offset of the MSS value to lower, if there is one.\<close>

function find_mss :: "bytes \<Rightarrow> u16 \<Rightarrow> nat \<Rightarrow> nat \<Rightarrow> nat option" where
  "find_mss packet maximum offset stop =
     (if offset \<ge> stop then None
      else let kind = packet ! offset
           in if kind = 0 then None
              else if kind = 1 then find_mss packet maximum (offset + 1) stop
              else if offset + 1 \<ge> length packet then None
              else let len = unat (packet ! (offset + 1))
                   in if len < 2 \<or> offset + len > stop then None
                      else if kind = 2 \<and> len = 4
                      then (if of_be16 [packet ! (offset + 2), packet ! (offset + 3)] > maximum
                            then Some (offset + 2) else None)
                      else find_mss packet maximum (offset + len) stop)"
  by pat_completeness auto
termination by (relation "measure (\<lambda>(packet, maximum, offset, stop). stop - offset)") auto

declare find_mss.simps [simp del]

definition clamp :: "bytes \<Rightarrow> u16 \<Rightarrow> bytes \<times> bool" where
  "clamp packet maximum =
     (if length packet < 20 \<or> drop_bit 4 (packet ! 0) \<noteq> 4 \<or> packet ! 9 \<noteq> 6 then (packet, False)
      else let ip_header = unat (packet ! 0 AND 0x0f) * 4
           in if length packet < ip_header + 20 \<or> packet ! (ip_header + 13) AND 0x02 = 0 then (packet, False)
              else let tcp_header = unat (drop_bit 4 (packet ! (ip_header + 12))) * 4
                   in if tcp_header < 20 \<or> length packet < ip_header + tcp_header then (packet, False)
                      else (case find_mss packet maximum (ip_header + 20) (ip_header + tcp_header) of
                              None \<Rightarrow> (packet, False)
                            | Some at \<Rightarrow> (put at (be16 maximum) packet, True)))"

text \<open>
  The slice \<^verbatim>\<open>packet[ip_header..total_length]\<close> panics when the total length field is smaller than the
  header. The sum is the source's \<^verbatim>\<open>u32\<close>, with the loop of the checksum folding the carries.
\<close>

definition clamp_with_checksum :: "bytes \<Rightarrow> u16 \<Rightarrow> (bytes \<times> bool) outcome" where
  "clamp_with_checksum packet maximum =
     (case clamp packet maximum of
        (packet, False) \<Rightarrow> Ret (packet, False)
      | (packet, True) \<Rightarrow>
          let ip_header = unat (packet ! 0 AND 0x0f) * 4;
              total_length = min (unat (of_be16 [packet ! 2, packet ! 3])) (length packet);
              segment_length = total_length - ip_header;
              packet = put (ip_header + 16) [0, 0] packet;
              acc = sum_chunks 0 (subslice 12 20 packet) + (6 + of_nat segment_length)
          in if total_length < ip_header then Panic
             else let acc = sum_chunks acc (subslice ip_header total_length packet)
                  in Ret (put (ip_header + 16) (be16 (NOT (ucast (fold_carry acc)))) packet, True))"

subsection \<open>Only the MSS is lowered\<close>

lemma find_mss_Some:
  assumes "find_mss packet maximum offset stop = Some at" and "stop \<le> length packet"
  shows "offset + 2 \<le> at \<and> at + 2 \<le> stop \<and> packet ! (at - 2) = 2 \<and> packet ! (at - 1) = 4
    \<and> maximum < of_be16 [packet ! at, packet ! (at + 1)]"
  using assms
proof (induction packet maximum offset stop rule: find_mss.induct)
  case (1 packet maximum offset stop)
  let ?kind = "packet ! offset" and ?len = "unat (packet ! (offset + 1))"
  have in_range: "offset < stop" and nz: "?kind \<noteq> 0"
    using 1(3) by (auto simp: find_mss.simps [of packet maximum offset stop] Let_def split: if_splits)
  show ?case
  proof (cases "?kind = 1")
    case True
    then have "find_mss packet maximum (offset + 1) stop = Some at"
      using 1(3) in_range by (simp add: find_mss.simps [of packet maximum offset stop])
    then show ?thesis using 1(1) [OF _ refl _ True] in_range True 1(4) by fastforce
  next
    case nop: False
    then have len: "offset + 1 < length packet" "2 \<le> ?len" "offset + ?len \<le> stop"
      using 1(3) in_range nz by (auto simp: find_mss.simps [of packet maximum offset stop] Let_def split: if_splits)
    show ?thesis
    proof (cases "?kind = 2 \<and> ?len = 4")
      case True
      then have "at = offset + 2" "maximum < of_be16 [packet ! (offset + 2), packet ! (offset + 3)]"
        using 1(3) in_range nz nop len
        by (auto simp: find_mss.simps [of packet maximum offset stop] Let_def split: if_splits)
      moreover have "packet ! (offset + 1) = 4" using True by (simp add: word_unat_eq_iff)
      ultimately show ?thesis using True len by (simp add: numeral_3_eq_3)
    next
      case False
      then have "find_mss packet maximum (offset + ?len) stop = Some at"
        using 1(3) in_range nz nop len by (auto simp: find_mss.simps [of packet maximum offset stop] Let_def)
      moreover have "\<not> offset \<ge> stop" "\<not> offset + 1 \<ge> length packet" "\<not> (?len < 2 \<or> offset + ?len > stop)"
        using in_range len by auto
      ultimately show ?thesis using 1(2) [OF _ refl nz nop _ refl _ False] 1(4) len by fastforce
    qed
  qed
qed

lemma clamp_changed:
  assumes "clamp packet maximum = (packet', True)"
  obtains at where "packet' = put at (be16 maximum) packet"
    "unat (packet ! 0 AND 0x0f) * 4 + 22 \<le> at" "at + 2 \<le> length packet"
    "packet ! (at - 2) = 2" "packet ! (at - 1) = 4" "maximum < of_be16 [packet ! at, packet ! (at + 1)]"
proof -
  let ?ip = "unat (packet ! 0 AND 0x0f) * 4"
  let ?tcp = "unat (drop_bit 4 (packet ! (?ip + 12))) * 4"
  from assms obtain at where at: "packet' = put at (be16 maximum) packet"
      "find_mss packet maximum (?ip + 20) (?ip + ?tcp) = Some at" "?ip + ?tcp \<le> length packet"
    by (auto simp: clamp_def Let_def split: if_splits option.splits)
  with find_mss_Some [OF at(2,3)] that [OF at(1)] show thesis by simp
qed

lemma clamp_unchanged: "clamp packet maximum = (packet', False) \<Longrightarrow> packet' = packet"
  by (auto simp: clamp_def Let_def split: if_splits option.splits)

text \<open>
  Clamping touches nothing but an MSS that is too large: a packet it reports as changed differs
  from the original only in the two bytes of an MSS option (kind 2, length 4) behind the TCP header,
  which advertised more than the maximum and now advertises exactly the maximum; every other packet,
  however malformed, is returned as it was.
\<close>

theorem clamp_only_lowers_mss:
  "case clamp packet maximum of
     (packet', changed) \<Rightarrow>
       if changed then \<exists>at. packet' = put at (be16 maximum) packet \<and> 22 \<le> at \<and> at + 2 \<le> length packet
         \<and> packet ! (at - 2) = 2 \<and> packet ! (at - 1) = 4 \<and> maximum < of_be16 [packet ! at, packet ! (at + 1)]
       else packet' = packet"
proof (cases "clamp packet maximum")
  case (Pair packet' changed)
  show ?thesis
  proof (cases changed)
    case True
    with Pair have "clamp packet maximum = (packet', True)" by simp
    then obtain at where "packet' = put at (be16 maximum) packet"
      "unat (packet ! 0 AND 0x0f) * 4 + 22 \<le> at" "at + 2 \<le> length packet"
      "packet ! (at - 2) = 2" "packet ! (at - 1) = 4" "maximum < of_be16 [packet ! at, packet ! (at + 1)]"
      by (rule clamp_changed)
    moreover from this(2) have "22 \<le> at" by linarith
    ultimately show ?thesis using Pair True by auto
  next
    case False
    with Pair clamp_unchanged show ?thesis by auto
  qed
qed

subsection \<open>The checksum of a clamped SYN\<close>

definition ip_header_length :: "bytes \<Rightarrow> nat" where
  "ip_header_length packet = unat (packet ! 0 AND 0x0f) * 4"

definition ip_total_length :: "bytes \<Rightarrow> nat" where
  "ip_total_length packet = unat (of_be16 [packet ! 2, packet ! 3])"

text \<open>The receiver's check: pseudo header and segment together sum to zero.\<close>

definition tcp_checksum_valid :: "bytes \<Rightarrow> bool" where
  "tcp_checksum_valid packet \<longleftrightarrow>
     (let segment = subslice (ip_header_length packet) (ip_total_length packet) packet
      in internet_checksum (subslice 12 20 packet @ [0, 6] @ be16 (of_nat (length segment)) @ segment) = 0)"

lemma sum_chunks_twice:
  assumes "wsum as + unat (k :: u32) + wsum bs < 2 ^ 32"
  shows "unat (sum_chunks (sum_chunks 0 as + k) bs) = wsum as + unat k + wsum bs"
proof -
  have a: "unat (sum_chunks 0 as) = wsum as" using sum_chunks_no_overflow [of 0 as] assms by simp
  then have "unat (sum_chunks 0 as + k) = wsum as + unat k" using assms by (simp add: unat_word_ariths)
  with assms show ?thesis by (subst sum_chunks_no_overflow) simp_all
qed

lemma subslice_zeroed:
  assumes "k + 2 \<le> length xs"
  shows "subslice k (k + 2) (put k [0, 0] xs) = [0, 0]"
  using subslice_put_same [of k "[0, 0]" xs] assms by simp

text \<open>The complement of the sum, put where the checksum was zero, completes a segment with its pseudo header.\<close>

lemma complement_completes:
  assumes "even (length ps)" and "18 \<le> length seg" and "length ps + length seg \<le> 65530" and "subslice 16 18 seg = [0, 0]"
    and "unat (acc :: u32) = wsum ps + (6 + length seg) + wsum seg" and "ck = NOT (ucast (fold_carry acc))"
  shows "internet_checksum (ps @ [0, 6] @ be16 (of_nat (length seg)) @ put 16 (be16 ck) seg) = 0"
proof -
  have "wsum (put 16 (be16 ck) seg) = wsum seg + unat ck"
    using wsum_put [of 16 seg ck] assms(2,4) by simp
  moreover have "unat (of_nat (length seg) :: u16) = length seg" using assms(3) by (simp add: unat_of_nat)
  ultimately have sum: "wsum (ps @ [0, 6] @ be16 (of_nat (length seg)) @ put 16 (be16 ck) seg) = unat ck + unat acc"
    using assms(1) by (simp add: wsum_append assms(5))
  have "(unat ck + unat acc) mod 65535 = 0" "unat ck + unat acc \<noteq> 0"
    using folded_complement [of acc] by (auto simp: assms(6))
  moreover have "length (ps @ [0, 6] @ be16 (of_nat (length seg)) @ put 16 (be16 ck) seg) \<le> 65536"
    using assms(2,3) by simp
  ultimately show ?thesis by (subst checksum_zero_iff) (simp_all only: sum not_False_eq_True simp_thms)
qed

text \<open>
  A SYN whose IPv4 header is well formed leaves \<^verbatim>\<open>clamp_with_checksum\<close> with a TCP checksum
  that verifies over its pseudo header and segment.
\<close>

theorem clamped_syn_checksum_verifies:
  assumes "snd (clamp packet maximum)" and "20 \<le> ip_header_length packet"
    and "ip_header_length packet + 20 \<le> ip_total_length packet" and "ip_total_length packet \<le> length packet"
  shows "\<exists>packet'. clamp_with_checksum packet maximum = Ret (packet', True) \<and> tcp_checksum_valid packet'"
proof -
  obtain p1 where p1: "clamp packet maximum = (p1, True)" using assms(1) by (cases "clamp packet maximum") auto
  then obtain at where at: "p1 = put at (be16 maximum) packet" "ip_header_length packet + 22 \<le> at" "at + 2 \<le> length packet"
    by (rule clamp_changed) (auto simp: ip_header_length_def)
  let ?h = "ip_header_length packet" and ?t = "ip_total_length packet"
  define p2 where "p2 = put (?h + 16) [0, 0] p1"
  have len: "length p1 = length packet" "length p2 = length packet"
    using at assms(3,4) by (simp_all add: p2_def)
  have t: "?t \<le> 65535" using unat_u16_less [of "of_be16 [packet ! 2, packet ! 3]"] by (simp add: ip_total_length_def)
  have low: "p1 ! i = packet ! i" "p2 ! i = packet ! i" if "i < 20" for i
    using that at assms(2-4) by (simp_all add: p2_def nth_put)
  let ?seg = "subslice ?h ?t p2" and ?ps = "subslice 12 20 p2"
  let ?k = "6 + of_nat (?t - ?h) :: u32"
  have k: "unat ?k = 6 + (?t - ?h)" using t by (simp add: unat_word_ariths unat_of_nat)
  have seglen: "length ?seg = ?t - ?h" using len assms(4) by simp
  have "2 * wsum ?ps \<le> 65535 * 9" "2 * wsum ?seg \<le> 65535 * (?t - ?h + 1)"
    using wsum_bound [of ?ps] wsum_bound [of ?seg] len seglen assms(2-4) by simp_all
  then have small: "wsum ?ps + unat ?k + wsum ?seg < 2 ^ 32" using k t by simp
  define acc where "acc = sum_chunks (sum_chunks 0 ?ps + ?k) ?seg"
  define ck where "ck = (NOT (ucast (fold_carry acc)) :: u16)"
  define p3 where "p3 = put (?h + 16) (be16 ck) p2"
  have acc: "unat acc = wsum ?ps + unat ?k + wsum ?seg" unfolding acc_def by (rule sum_chunks_twice [OF small])
  have "clamp_with_checksum packet maximum = Ret (p3, True)"
    using assms(3,4) low len
    by (simp add: clamp_with_checksum_def p1 Let_def ip_header_length_def [symmetric] ip_total_length_def [symmetric]
        p2_def [symmetric] p3_def ck_def acc_def del: unat_of_be16_pair of_nat_diff)
  moreover have "tcp_checksum_valid p3"
  proof -
    have low3: "p3 ! i = packet ! i" if "i < 20" for i
      using that low(2) assms(2-4) len by (simp add: p3_def nth_put)
    have hdr: "ip_header_length p3 = ?h" "ip_total_length p3 = ?t"
      by (simp_all add: ip_header_length_def ip_total_length_def low3)
    have ps3: "subslice 12 20 p3 = ?ps" using assms(2-4) len by (simp add: p3_def subslice_put_other)
    have seg3: "subslice ?h ?t p3 = put 16 (be16 ck) ?seg"
      using assms(3,4) len by (simp add: p3_def subslice_put_inside)
    have zero: "subslice 16 18 ?seg = [0, 0]"
      using subslice_zeroed [of 16 "subslice ?h ?t p1"] assms(3,4) len
      by (simp add: p2_def subslice_put_inside)
    have "length ?ps = 8" using len assms(2-4) by simp
    moreover have "18 \<le> length ?seg" "length ?ps + length ?seg \<le> 65530"
      using seglen t assms(2,3) \<open>length ?ps = 8\<close> by (simp_all del: length_subslice)
    ultimately have "internet_checksum (?ps @ [0, 6] @ be16 (of_nat (length ?seg)) @ put 16 (be16 ck) ?seg) = 0"
      using zero acc k seglen by (intro complement_completes [OF _ _ _ _ _ ck_def]) (simp_all del: length_subslice)
    then show ?thesis
      using seglen assms(3) by (simp add: tcp_checksum_valid_def Let_def hdr ps3 seg3)
  qed
  ultimately show ?thesis by blast
qed

text \<open>A 44-byte SYN with an MSS of 1460, and the same packet with a total length field of zero.\<close>

definition sample_syn :: bytes where
  "sample_syn =
     [0x45, 0, 0, 44, 0, 1, 0, 0, 64, 6, 0, 0, 10, 203, 0, 2, 1, 2, 3, 4,
      0x30, 0x39, 0, 80, 0, 0, 0, 1, 0, 0, 0, 0, 0x60, 2, 0xff, 0xff, 0, 0, 0, 0,
      2, 4, 5, 0xb4]"

definition short_syn :: bytes where
  "short_syn = put 2 [0, 0] sample_syn"

lemma sample_syn_clamped: "snd (clamp sample_syn 1200)" "snd (clamp short_syn 1200)"
  by (simp_all add: clamp_def Let_def sample_syn_def short_syn_def put_def find_mss.simps word_less_nat_alt)

theorem clamped_syn_checksum_verifies_witness:
  "\<exists>packet'. clamp_with_checksum sample_syn 1200 = Ret (packet', True) \<and> tcp_checksum_valid packet'"
  using clamped_syn_checksum_verifies [OF sample_syn_clamped(1)]
  by (simp add: ip_header_length_def ip_total_length_def sample_syn_def)

text \<open>
  C40. \<^verbatim>\<open>clamp_with_checksum\<close> panics exactly on a SYN it lowers whose total length field is smaller
  than its header length - the slice of the segment is then taken backwards - and there is such a
  packet: a SYN with a total length of zero.
\<close>

theorem clamp_with_checksum_panics_iff:
  "(clamp_with_checksum packet maximum = Panic \<longleftrightarrow>
     snd (clamp packet maximum) \<and> ip_total_length packet < ip_header_length packet)
   \<and> clamp_with_checksum short_syn 1200 = Panic"
proof -
  have iff: "clamp_with_checksum packet maximum = Panic \<longleftrightarrow>
     snd (clamp packet maximum) \<and> ip_total_length packet < ip_header_length packet" for packet maximum
  proof (cases "snd (clamp packet maximum)")
    case True
    then obtain p1 where p1: "clamp packet maximum = (p1, True)" by (cases "clamp packet maximum") auto
    then obtain at where at: "p1 = put at (be16 maximum) packet" "ip_header_length packet + 22 \<le> at" "at + 2 \<le> length packet"
      by (rule clamp_changed) (auto simp: ip_header_length_def)
    then have "4 < at" "4 < length packet" by linarith+
    then have same: "p1 ! 0 = packet ! 0" "p1 ! 2 = packet ! 2" "p1 ! 3 = packet ! 3" "length p1 = length packet"
      using at by (simp_all add: nth_put del: length_greater_0_conv)
    then have lens: "ip_header_length p1 = ip_header_length packet" "ip_total_length p1 = ip_total_length packet"
      by (simp_all add: ip_header_length_def ip_total_length_def)
    have "min (ip_total_length packet) (length packet) < ip_header_length packet \<longleftrightarrow>
        ip_total_length packet < ip_header_length packet"
      using at by auto
    then show ?thesis
      using True same(4) lens
      by (simp add: clamp_with_checksum_def p1 Let_def ip_header_length_def [symmetric]
          ip_total_length_def [symmetric] del: unat_of_be16_pair)
  next
    case False
    then show ?thesis by (cases "clamp packet maximum") (simp add: clamp_with_checksum_def)
  qed
  moreover have "ip_total_length short_syn < ip_header_length short_syn"
    by (simp add: ip_total_length_def ip_header_length_def short_syn_def sample_syn_def put_def)
  ultimately show ?thesis using sample_syn_clamped(2) by blast
qed

end
