(* ===== verification/Fragment_Router.thy ===== *)
theory Fragment_Router
  imports Contracts
begin

section \<open>The verdict of outbound fragments (\<^verbatim>\<open>engine/src/fragment_router.rs\<close>)\<close>

text \<open>
  The first fragment of a datagram decides where the datagram goes; the others wait for its verdict.
  Several capture threads share one router under a lock, so a run of the router is a sequence of its
  operations in any order. The router keeps a byte counter and a discard counter beside the waiting
  pieces; they are integers here, and the lemmas show that they count exactly, so the source's
  unsigned subtractions never underflow. Packets are at least 20 bytes long: the callers parse the
  IPv4 header first.
\<close>

definition PENDING_TTL :: duration where "PENDING_TTL = millis 100"
definition VERDICT_TTL :: duration where "VERDICT_TTL = secs 5"
definition ROUTER_DATAGRAMS :: nat where "ROUTER_DATAGRAMS = 64"
definition MAX_PIECES :: nat where "MAX_PIECES = 64"
definition MAX_PENDING_BYTES :: nat where "MAX_PENDING_BYTES = 1024 * 1024"

datatype Route = Tunnel "ipv4 option" u8 | Bypass | Drop

type_synonym router_key = "bytes \<times> bytes \<times> u8 \<times> u16"

definition key_of :: "bytes \<Rightarrow> router_key" where
  "key_of packet = (subslice 12 16 packet, subslice 16 20 packet, packet ! 9, of_be16 [packet ! 4, packet ! 5])"

record Ticket =
  tk_key :: router_key
  tk_generation :: u64

record 'a RoutedDatagram =
  rd_started :: instant
  rd_generation :: u64
  rd_route :: "Route option"
  rd_waiting :: "(bytes \<times> 'a) list"

datatype RouteAction = Routed Route | Held

record 'a FragmentRouter =
  fr_datagrams :: "(router_key \<times> 'a RoutedDatagram) list"
  fr_generation :: u64
  fr_pending_bytes :: int
  fr_discarded :: int

definition router_default :: "'a FragmentRouter" where
  "router_default = \<lparr>fr_datagrams = [], fr_generation = 0, fr_pending_bytes = 0, fr_discarded = 0\<rparr>"

definition pieces_bytes :: "(bytes \<times> 'a) list \<Rightarrow> int" where
  "pieces_bytes pieces = sum_list (map (\<lambda>p. int (length (fst p))) pieces)"

text \<open>Forgetting a datagram: its bytes are no longer pending and its pieces are discarded.\<close>

definition forget :: "'a RoutedDatagram \<Rightarrow> 'a FragmentRouter \<Rightarrow> 'a FragmentRouter" where
  "forget d r = r\<lparr>fr_pending_bytes := fr_pending_bytes r - pieces_bytes (rd_waiting d),
                  fr_discarded := fr_discarded r + int (length (rd_waiting d))\<rparr>"

definition still_fresh :: "instant \<Rightarrow> 'a RoutedDatagram \<Rightarrow> bool" where
  "still_fresh now d \<longleftrightarrow>
     duration_since now (rd_started d) < (if rd_route d \<noteq> None then VERDICT_TTL else PENDING_TTL)"

definition router_expire :: "instant \<Rightarrow> 'a FragmentRouter \<Rightarrow> 'a FragmentRouter" where
  "router_expire now r =
     fold (\<lambda>e. forget (snd e)) (filter (\<lambda>e. \<not> still_fresh now (snd e)) (fr_datagrams r))
       (r\<lparr>fr_datagrams := filter (\<lambda>e. still_fresh now (snd e)) (fr_datagrams r)\<rparr>)"

definition make_room :: "router_key \<Rightarrow> 'a FragmentRouter \<Rightarrow> 'a FragmentRouter" where
  "make_room key r =
     (if map_of (fr_datagrams r) key = None \<and> length (fr_datagrams r) \<ge> ROUTER_DATAGRAMS
      then case min_by_key (\<lambda>e. rd_started (snd e)) (fr_datagrams r) of
             None \<Rightarrow> r
           | Some (oldest, old) \<Rightarrow> forget old (r\<lparr>fr_datagrams := AList.delete oldest (fr_datagrams r)\<rparr>)
      else r)"

definition begin_datagram :: "bytes \<Rightarrow> instant \<Rightarrow> 'a FragmentRouter \<Rightarrow> 'a FragmentRouter \<times> Ticket" where
  "begin_datagram first now r0 =
     (let key = key_of first;
          r1 = make_room key (router_expire now r0);
          generation = max (fr_generation r1 + 1) 1;
          r2 = r1\<lparr>fr_generation := generation\<rparr>;
          (r3, waiting) =
            (case map_of (fr_datagrams r2) key of
               None \<Rightarrow> (r2, [])
             | Some old \<Rightarrow>
                 if rd_generation old = 0 then (r2, rd_waiting old) else (forget old r2, []))
      in (r3\<lparr>fr_datagrams := AList.update key
             \<lparr>rd_started = now, rd_generation = generation, rd_route = None, rd_waiting = waiting\<rparr> (fr_datagrams r3)\<rparr>,
          \<lparr>tk_key = key, tk_generation = generation\<rparr>))"

definition later_piece :: "bytes \<Rightarrow> 'a \<Rightarrow> instant \<Rightarrow> 'a FragmentRouter \<Rightarrow> 'a FragmentRouter \<times> RouteAction" where
  "later_piece packet address now r0 =
     (let key = key_of packet;
          r = make_room key (router_expire now r0);
          d = (case map_of (fr_datagrams r) key of
                 Some d \<Rightarrow> d
               | None \<Rightarrow> \<lparr>rd_started = now, rd_generation = 0, rd_route = None, rd_waiting = []\<rparr>);
          entry = (\<lambda>d r. r\<lparr>fr_datagrams := AList.update key d (fr_datagrams r)\<rparr>)
      in case rd_route d of
           Some route \<Rightarrow> (entry d r, Routed route)
         | None \<Rightarrow>
             if length (rd_waiting d) \<ge> MAX_PIECES
                \<or> fr_pending_bytes r + int (length packet) > int MAX_PENDING_BYTES
             then (entry (d\<lparr>rd_waiting := [], rd_route := Some Drop\<rparr>) (forget d r), Routed Drop)
             else (entry (d\<lparr>rd_waiting := rd_waiting d @ [(packet, address)]\<rparr>)
                     (r\<lparr>fr_pending_bytes := fr_pending_bytes r + int (length packet)\<rparr>), Held))"

definition finish_datagram ::
  "Ticket \<Rightarrow> Route \<Rightarrow> instant \<Rightarrow> 'a FragmentRouter \<Rightarrow> 'a FragmentRouter \<times> (bytes \<times> 'a) list" where
  "finish_datagram ticket route now r =
     (case map_of (fr_datagrams r) (tk_key ticket) of
        None \<Rightarrow> (r, [])
      | Some d \<Rightarrow>
          if rd_generation d \<noteq> tk_generation ticket then (r, [])
          else let route = (if rd_route d = Some Drop then Drop else route);
                   waiting = rd_waiting d;
                   r = r\<lparr>fr_datagrams := AList.update (tk_key ticket)
                           (d\<lparr>rd_route := Some route, rd_started := now, rd_waiting := []\<rparr>) (fr_datagrams r),
                         fr_pending_bytes := fr_pending_bytes r - pieces_bytes waiting\<rparr>
               in if route = Drop then (r\<lparr>fr_discarded := fr_discarded r + int (length waiting)\<rparr>, [])
                  else (r, waiting))"

definition router_take_discarded :: "'a FragmentRouter \<Rightarrow> 'a FragmentRouter \<times> int" where
  "router_take_discarded r = (r\<lparr>fr_discarded := 0\<rparr>, fr_discarded r)"

subsection \<open>Totals over the table\<close>

definition table_total :: "('b \<Rightarrow> int) \<Rightarrow> ('k \<times> 'b) list \<Rightarrow> int" where
  "table_total f t = sum_list (map (\<lambda>e. f (snd e)) t)"

lemma total_simps [simp]:
  "table_total f [] = 0" "table_total f (e # t) = f (snd e) + table_total f t"
  by (simp_all add: table_total_def)

lemma total_filter: "table_total f t = table_total f (filter P t) + table_total f (filter (\<lambda>e. \<not> P e) t)"
  by (induction t) auto

lemma total_delete:
  "distinct (map fst t) \<Longrightarrow> table_total f (AList.delete k t) =
     table_total f t - (case map_of t k of None \<Rightarrow> 0 | Some d \<Rightarrow> f d)"
proof (induction t)
  case (Cons e t)
  obtain k' d where e: "e = (k', d)" by (cases e)
  show ?case
  proof (cases "k' = k")
    case True
    then have "map_of t k = None" using Cons.prems by (simp add: e map_of_eq_None_iff)
    from alist_delete_absent [OF this] this show ?thesis using True by (simp add: e AList.delete_eq)
  qed (use Cons in \<open>simp add: e AList.delete_eq\<close>)
qed (simp add: AList.delete_eq)

lemma total_update:
  "distinct (map fst t) \<Longrightarrow> table_total f (AList.update k d t) =
     table_total f t - (case map_of t k of None \<Rightarrow> 0 | Some old \<Rightarrow> f old) + f d"
  by (induction t) auto

subsection \<open>The invariant\<close>

text \<open>
  The table is bounded with distinct keys; a datagram with a verdict holds no pieces and one without
  holds at most 64, all of them its own; the byte counter is the sum of the waiting pieces and bounded.
\<close>

definition datagram_wf :: "router_key \<times> 'a RoutedDatagram \<Rightarrow> bool" where
  "datagram_wf e \<longleftrightarrow> length (rd_waiting (snd e)) \<le> 64 \<and> (rd_route (snd e) \<noteq> None \<longrightarrow> rd_waiting (snd e) = [])
     \<and> (\<forall>p \<in> set (rd_waiting (snd e)). key_of (fst p) = fst e)"

definition waiting_bytes :: "(router_key \<times> 'a RoutedDatagram) list \<Rightarrow> int" where
  "waiting_bytes = table_total (\<lambda>d. pieces_bytes (rd_waiting d))"

definition waiting_pieces :: "(router_key \<times> 'a RoutedDatagram) list \<Rightarrow> int" where
  "waiting_pieces = table_total (\<lambda>d. int (length (rd_waiting d)))"

definition router_wf :: "'a FragmentRouter \<Rightarrow> bool" where
  "router_wf r \<longleftrightarrow> distinct (map fst (fr_datagrams r)) \<and> length (fr_datagrams r) \<le> 64
     \<and> (\<forall>e \<in> set (fr_datagrams r). datagram_wf e) \<and> 0 \<le> fr_discarded r
     \<and> fr_pending_bytes r = waiting_bytes (fr_datagrams r) \<and> fr_pending_bytes r \<le> 1048576"

text \<open>What the router still owes an answer for: the waiting pieces and the discards not yet reported.\<close>

definition owed :: "'a FragmentRouter \<Rightarrow> int" where
  "owed r = fr_discarded r + waiting_pieces (fr_datagrams r)"

lemma pieces_bytes_nonneg: "0 \<le> pieces_bytes ps"
  by (auto simp: pieces_bytes_def intro!: sum_list_nonneg)

lemma pieces_bytes_simps [simp]: "pieces_bytes [] = 0" "pieces_bytes (ps @ [p]) = pieces_bytes ps + int (length (fst p))"
  by (simp_all add: pieces_bytes_def)

lemma forget_fields [simp]:
  "fr_datagrams (forget d r) = fr_datagrams r" "fr_generation (forget d r) = fr_generation r"
  "fr_pending_bytes (forget d r) = fr_pending_bytes r - pieces_bytes (rd_waiting d)"
  "fr_discarded (forget d r) = fr_discarded r + int (length (rd_waiting d))"
  by (simp_all add: forget_def)

lemma fold_forget:
  "fr_datagrams (fold (\<lambda>e. forget (snd e)) es r) = fr_datagrams r"
  "fr_pending_bytes (fold (\<lambda>e. forget (snd e)) es r) = fr_pending_bytes r - waiting_bytes es"
  "fr_discarded (fold (\<lambda>e. forget (snd e)) es r) = fr_discarded r + waiting_pieces es"
  by (induction es arbitrary: r) (simp_all add: waiting_bytes_def waiting_pieces_def)

lemma waiting_nonneg: "0 \<le> waiting_bytes t" "0 \<le> waiting_pieces t"
  by (auto simp: waiting_bytes_def waiting_pieces_def table_total_def pieces_bytes_nonneg intro!: sum_list_nonneg)

lemma expire_wf:
  assumes "router_wf r"
  shows "router_wf (router_expire now r)" and "owed (router_expire now r) = owed r"
proof -
  let ?keep = "filter (\<lambda>e. still_fresh now (snd e)) (fr_datagrams r)"
    and ?gone = "filter (\<lambda>e. \<not> still_fresh now (snd e)) (fr_datagrams r)"
  have bytes: "waiting_bytes (fr_datagrams r) = waiting_bytes ?keep + waiting_bytes ?gone"
    unfolding waiting_bytes_def by (rule total_filter)
  have pieces: "waiting_pieces (fr_datagrams r) = waiting_pieces ?keep + waiting_pieces ?gone"
    unfolding waiting_pieces_def by (rule total_filter)
  show "router_wf (router_expire now r)"
    using assms bytes waiting_nonneg(1) [of ?gone] waiting_nonneg(2) [of ?gone]
    by (auto simp: router_wf_def router_expire_def fold_forget distinct_map_filter intro: order_trans [OF length_filter_le])
  show "owed (router_expire now r) = owed r"
    using pieces by (simp add: owed_def router_expire_def fold_forget)
qed

lemma delete_lookup_wf:
  assumes "router_wf r" and "map_of (fr_datagrams r) k = Some d"
  shows "router_wf (forget d (r\<lparr>fr_datagrams := AList.delete k (fr_datagrams r)\<rparr>))"
    and "owed (forget d (r\<lparr>fr_datagrams := AList.delete k (fr_datagrams r)\<rparr>)) = owed r"
    and "length (AList.delete k (fr_datagrams r)) < length (fr_datagrams r)"
proof -
  have keys: "distinct (map fst (fr_datagrams r))" using assms(1) by (simp add: router_wf_def)
  have sub: "set (AList.delete k (fr_datagrams r)) \<subseteq> set (fr_datagrams r)" by (auto simp: AList.delete_eq)
  show less: "length (AList.delete k (fr_datagrams r)) < length (fr_datagrams r)"
    using map_of_SomeD [OF assms(2)] by (auto simp: AList.delete_eq intro!: length_filter_less)
  show "router_wf (forget d (r\<lparr>fr_datagrams := AList.delete k (fr_datagrams r)\<rparr>))"
    using assms sub less pieces_bytes_nonneg [of "rd_waiting d"]
    by (auto simp: router_wf_def waiting_bytes_def total_delete [OF keys] distinct_delete)
  show "owed (forget d (r\<lparr>fr_datagrams := AList.delete k (fr_datagrams r)\<rparr>)) = owed r"
    using assms(2) by (simp add: owed_def waiting_pieces_def total_delete [OF keys])
qed

lemma make_room_wf:
  assumes "router_wf r"
  shows "router_wf (make_room key r)" and "owed (make_room key r) = owed r"
    and "map_of (fr_datagrams (make_room key r)) key = None \<Longrightarrow> length (fr_datagrams (make_room key r)) < 64"
proof -
  have "router_wf (make_room key r) \<and> owed (make_room key r) = owed r
    \<and> (map_of (fr_datagrams (make_room key r)) key = None \<longrightarrow> length (fr_datagrams (make_room key r)) < 64)"
  proof (cases "map_of (fr_datagrams r) key = None \<and> length (fr_datagrams r) \<ge> ROUTER_DATAGRAMS")
    case False
    then show ?thesis using assms by (auto simp: make_room_def ROUTER_DATAGRAMS_def)
  next
    case True
    then have "fr_datagrams r \<noteq> []" by (auto simp: ROUTER_DATAGRAMS_def)
    then obtain k d where old: "min_by_key (\<lambda>e. rd_started (snd e)) (fr_datagrams r) = Some (k, d)"
      by (metis min_by_key_None not_None_eq surj_pair)
    then have "map_of (fr_datagrams r) k = Some d"
      using assms min_by_key_in by (fastforce simp: router_wf_def intro: map_of_is_SomeI)
    from delete_lookup_wf [OF assms this] True old show ?thesis
      using assms by (auto simp: make_room_def router_wf_def)
  qed
  then show "router_wf (make_room key r)" "owed (make_room key r) = owed r"
    "map_of (fr_datagrams (make_room key r)) key = None \<Longrightarrow> length (fr_datagrams (make_room key r)) < 64"
    by simp_all
qed

text \<open>Replacing the entry of one datagram.\<close>

lemma entry_wf:
  assumes "router_wf r" and "map_of (fr_datagrams r) k \<noteq> None \<or> length (fr_datagrams r) < 64"
    and "fr_datagrams r' = AList.update k d (fr_datagrams r)" and "datagram_wf (k, d)" and "0 \<le> fr_discarded r'"
    and "fr_pending_bytes r' = fr_pending_bytes r
      - (case map_of (fr_datagrams r) k of None \<Rightarrow> 0 | Some old \<Rightarrow> pieces_bytes (rd_waiting old)) + pieces_bytes (rd_waiting d)"
    and "fr_pending_bytes r' \<le> 1048576"
  shows "router_wf r'"
proof -
  have keys: "distinct (map fst (fr_datagrams r))" using assms(1) by (simp add: router_wf_def)
  have "length (AList.update k d (fr_datagrams r)) \<le> 64"
    using assms(1,2) by (auto simp: length_alist_update router_wf_def map_of_eq_None_iff)
  moreover have "\<forall>e \<in> set (AList.update k d (fr_datagrams r)). datagram_wf e"
    using assms(1,4) by (auto simp: router_wf_def dest!: set_alist_update)
  ultimately show ?thesis
    using assms keys by (simp add: router_wf_def distinct_alist waiting_bytes_def total_update)
qed

lemma entry_owed:
  assumes "router_wf r" and "fr_datagrams r' = AList.update k d (fr_datagrams r)"
  shows "owed r' = owed r + (fr_discarded r' - fr_discarded r)
      - (case map_of (fr_datagrams r) k of None \<Rightarrow> 0 | Some old \<Rightarrow> int (length (rd_waiting old))) + int (length (rd_waiting d))"
  using assms by (simp add: router_wf_def owed_def waiting_pieces_def total_update)

lemma wf_lookup: "router_wf r \<Longrightarrow> map_of (fr_datagrams r) k = Some d \<Longrightarrow> datagram_wf (k, d)"
  by (auto simp: router_wf_def dest: map_of_SomeD)

lemma wf_discarded: "router_wf r \<Longrightarrow> 0 \<le> fr_discarded r" "router_wf r \<Longrightarrow> fr_pending_bytes r \<le> 1048576"
  by (simp_all add: router_wf_def)

lemma begin_wf:
  assumes "router_wf r0"
  shows "router_wf (fst (begin_datagram first now r0))" and "owed (fst (begin_datagram first now r0)) = owed r0"
proof -
  let ?k = "key_of first"
  define r where "r = make_room ?k (router_expire now r0)"
  have r: "router_wf r" "owed r = owed r0" "map_of (fr_datagrams r) ?k \<noteq> None \<or> length (fr_datagrams r) < 64"
    using make_room_wf [OF expire_wf(1) [OF assms], of ?k now] expire_wf(2) [OF assms, of now] by (auto simp: r_def)
  define r' where "r' = fst (begin_datagram first now r0)"
  define adopted where "adopted = (case map_of (fr_datagrams r) ?k of None \<Rightarrow> [] | Some old \<Rightarrow>
    if rd_generation old = 0 then rd_waiting old else [])"
  have fields: "fr_datagrams r' = AList.update ?k \<lparr>rd_started = now, rd_generation = max (fr_generation r + 1) 1,
        rd_route = None, rd_waiting = adopted\<rparr> (fr_datagrams r)"
      "fr_pending_bytes r' = fr_pending_bytes r
        - (case map_of (fr_datagrams r) ?k of None \<Rightarrow> 0 | Some old \<Rightarrow> pieces_bytes (rd_waiting old)) + pieces_bytes adopted"
      "fr_discarded r' = fr_discarded r
        + (case map_of (fr_datagrams r) ?k of None \<Rightarrow> 0 | Some old \<Rightarrow> int (length (rd_waiting old))) - int (length adopted)"
    by (simp_all add: r'_def begin_datagram_def Let_def r_def [symmetric] adopted_def split: option.split)
  have "datagram_wf (?k, \<lparr>rd_started = now, rd_generation = max (fr_generation r + 1) 1, rd_route = None, rd_waiting = adopted\<rparr>)"
    using wf_lookup [OF r(1), of ?k] by (auto simp: datagram_wf_def adopted_def split: option.splits) (metis fst_conv)
  moreover have "0 \<le> fr_discarded r'" "fr_pending_bytes r' \<le> 1048576"
    using wf_discarded [OF r(1)] pieces_bytes_nonneg [of "rd_waiting (the (map_of (fr_datagrams r) ?k))"]
    by (cases "map_of (fr_datagrams r) ?k"; simp add: fields adopted_def)+
  ultimately show "router_wf r'" using entry_wf [OF r(1,3) fields(1)] fields(2) by simp
  show "owed r' = owed r0" using entry_owed [OF r(1) fields(1)] fields(3) r(2) by simp
qed

lemma later_wf:
  assumes "router_wf r0"
  shows "router_wf (fst (later_piece packet address now r0))"
    and "owed (fst (later_piece packet address now r0)) =
      owed r0 + (if snd (later_piece packet address now r0) = Held then 1 else 0)"
proof -
  let ?k = "key_of packet"
  define r where "r = make_room ?k (router_expire now r0)"
  have r: "router_wf r" "owed r = owed r0" "map_of (fr_datagrams r) ?k \<noteq> None \<or> length (fr_datagrams r) < 64"
    using make_room_wf [OF expire_wf(1) [OF assms], of ?k now] expire_wf(2) [OF assms, of now] by (auto simp: r_def)
  define d where "d = (case map_of (fr_datagrams r) ?k of Some d \<Rightarrow> d
    | None \<Rightarrow> \<lparr>rd_started = now, rd_generation = 0, rd_route = None, rd_waiting = []\<rparr>)"
  have old: "(case map_of (fr_datagrams r) ?k of None \<Rightarrow> 0 | Some old \<Rightarrow> pieces_bytes (rd_waiting old)) = pieces_bytes (rd_waiting d)"
      "(case map_of (fr_datagrams r) ?k of None \<Rightarrow> 0 | Some old \<Rightarrow> int (length (rd_waiting old))) = int (length (rd_waiting d))"
    by (simp_all add: d_def split: option.split)
  have d: "datagram_wf (?k, d)"
    using wf_lookup [OF r(1)] by (auto simp: d_def datagram_wf_def split: option.split)
  define r' where "r' = fst (later_piece packet address now r0)"
  define act where "act = snd (later_piece packet address now r0)"
  note unfolded = r'_def act_def later_piece_def Let_def r_def [symmetric] d_def [symmetric]
  note bounds = wf_discarded [OF r(1)] pieces_bytes_nonneg [of "rd_waiting d"]
  consider (decided) route where "rd_route d = Some route"
    | (overflow) "rd_route d = None" "length (rd_waiting d) \<ge> MAX_PIECES \<or> fr_pending_bytes r + int (length packet) > int MAX_PENDING_BYTES"
    | (held) "rd_route d = None" "length (rd_waiting d) < MAX_PIECES" "fr_pending_bytes r + int (length packet) \<le> int MAX_PENDING_BYTES"
    by fastforce
  then have "router_wf r' \<and> owed r' = owed r0 + (if act = Held then 1 else 0)"
  proof cases
    case (decided route)
    then have f: "fr_datagrams r' = AList.update ?k d (fr_datagrams r)" "fr_pending_bytes r' = fr_pending_bytes r"
        "fr_discarded r' = fr_discarded r" "act \<noteq> Held" by (simp_all add: unfolded)
    then show ?thesis using entry_wf [OF r(1,3) f(1) d] entry_owed [OF r(1) f(1)] bounds r(2) by (simp add: old)
  next
    case overflow
    then have f: "fr_datagrams r' = AList.update ?k (d\<lparr>rd_waiting := [], rd_route := Some Drop\<rparr>) (fr_datagrams r)"
        "fr_pending_bytes r' = fr_pending_bytes r - pieces_bytes (rd_waiting d)"
        "fr_discarded r' = fr_discarded r + int (length (rd_waiting d))" "act \<noteq> Held" by (simp_all add: unfolded)
    have "datagram_wf (?k, d\<lparr>rd_waiting := [], rd_route := Some Drop\<rparr>)" by (simp add: datagram_wf_def)
    then show ?thesis using entry_wf [OF r(1,3) f(1)] entry_owed [OF r(1) f(1)] f bounds r(2) by (simp add: old)
  next
    case held
    then have f: "fr_datagrams r' = AList.update ?k (d\<lparr>rd_waiting := rd_waiting d @ [(packet, address)]\<rparr>) (fr_datagrams r)"
        "fr_pending_bytes r' = fr_pending_bytes r + int (length packet)"
        "fr_discarded r' = fr_discarded r" "act = Held" by (simp_all add: unfolded)
    have "datagram_wf (?k, d\<lparr>rd_waiting := rd_waiting d @ [(packet, address)]\<rparr>)"
      using held d by (auto simp: datagram_wf_def MAX_PIECES_def)
    then show ?thesis
      using entry_wf [OF r(1,3) f(1)] entry_owed [OF r(1) f(1)] f bounds r(2) held(3)
      by (simp add: old MAX_PENDING_BYTES_def)
  qed
  then show "router_wf r'" "owed r' = owed r0 + (if act = Held then 1 else 0)" by simp_all
qed

lemma finish_wf:
  assumes "router_wf r"
  shows "router_wf (fst (finish_datagram ticket route now r))"
    and "owed (fst (finish_datagram ticket route now r)) = owed r - int (length (snd (finish_datagram ticket route now r)))"
    and "\<forall>p \<in> set (snd (finish_datagram ticket route now r)). key_of (fst p) = tk_key ticket"
proof -
  define r' where "r' = fst (finish_datagram ticket route now r)"
  define out where "out = snd (finish_datagram ticket route now r)"
  have "router_wf r' \<and> owed r' = owed r - int (length out) \<and> (\<forall>p \<in> set out. key_of (fst p) = tk_key ticket)"
  proof (cases "\<exists>d. map_of (fr_datagrams r) (tk_key ticket) = Some d \<and> rd_generation d = tk_generation ticket")
    case False
    then have "r' = r" "out = []" by (auto simp: r'_def out_def finish_datagram_def split: option.splits)
    then show ?thesis using assms by simp
  next
    case True
    then obtain d where d: "map_of (fr_datagrams r) (tk_key ticket) = Some d" "rd_generation d = tk_generation ticket" by blast
    define verdict where "verdict = (if rd_route d = Some Drop then Drop else route)"
    have f: "fr_datagrams r' = AList.update (tk_key ticket)
          (d\<lparr>rd_route := Some verdict, rd_started := now, rd_waiting := []\<rparr>) (fr_datagrams r)"
        "fr_pending_bytes r' = fr_pending_bytes r - pieces_bytes (rd_waiting d)"
        "fr_discarded r' = fr_discarded r + (if verdict = Drop then int (length (rd_waiting d)) else 0)"
        "out = (if verdict = Drop then [] else rd_waiting d)"
      using d by (simp_all add: r'_def out_def finish_datagram_def Let_def verdict_def)
    have "datagram_wf (tk_key ticket, d\<lparr>rd_route := Some verdict, rd_started := now, rd_waiting := []\<rparr>)"
      by (simp add: datagram_wf_def)
    then show ?thesis
      using entry_wf [OF assms _ f(1)] entry_owed [OF assms f(1)] f d wf_discarded [OF assms]
        pieces_bytes_nonneg [of "rd_waiting d"] wf_lookup [OF assms d(1)]
      by (auto simp: datagram_wf_def)
  qed
  then show "router_wf r'" "owed r' = owed r - int (length out)" "\<forall>p \<in> set out. key_of (fst p) = tk_key ticket" by simp_all
qed

subsection \<open>Runs\<close>

datatype 'a router_event =
    Begin bytes instant
  | Later bytes 'a instant
  | Finish Ticket Route instant
  | Expire instant
  | Take_Discarded

datatype 'a router_output =
    Issued Ticket
  | Answered RouteAction
  | Released Ticket "(bytes \<times> 'a) list"
  | Reported int

fun router_step :: "'a router_event \<Rightarrow> 'a FragmentRouter \<Rightarrow> 'a FragmentRouter \<times> 'a router_output list" where
  "router_step (Begin first now) r = (let (r, t) = begin_datagram first now r in (r, [Issued t]))"
| "router_step (Later packet address now) r = (let (r, a) = later_piece packet address now r in (r, [Answered a]))"
| "router_step (Finish ticket route now) r = (let (r, ps) = finish_datagram ticket route now r in (r, [Released ticket ps]))"
| "router_step (Expire now) r = (router_expire now r, [])"
| "router_step Take_Discarded r = (let (r, n) = router_take_discarded r in (r, [Reported n]))"

text \<open>How an answer changes what is owed: a held piece is owed, a released or reported one is settled.\<close>

fun settled :: "'a router_output \<Rightarrow> int" where
  "settled (Answered Held) = -1"
| "settled (Released ticket pieces) = int (length pieces)"
| "settled (Reported n) = n"
| "settled _ = 0"

fun released_own :: "'a router_output \<Rightarrow> bool" where
  "released_own (Released ticket pieces) \<longleftrightarrow> list_all (\<lambda>p. key_of (fst p) = tk_key ticket) pieces"
| "released_own _ \<longleftrightarrow> True"

lemma settled_answer: "settled (Answered a) = (if a = Held then -1 else 0)"
  by (cases a) simp_all

lemma router_step_wf:
  assumes "router_wf r"
  shows "router_wf (fst (router_step e r))" and "list_all released_own (snd (router_step e r))"
    and "owed (fst (router_step e r)) = owed r - sum_list (map settled (snd (router_step e r)))"
  using assms
  by (cases e; simp add: case_prod_unfold Let_def begin_wf later_wf finish_wf expire_wf router_take_discarded_def settled_answer
      list_all_iff; simp add: router_wf_def owed_def)+

interpretation router: emitting_component router_step router_wf "\<lambda>_. True" released_own
  by unfold_locales (rule router_step_wf; assumption)+

lemma router_default_wf: "router_wf router_default"
  by (simp add: router_wf_def router_default_def waiting_bytes_def)

lemma router_run_owed:
  "router_wf r \<Longrightarrow> owed (fst (emit_run router_step es r)) = owed r - sum_list (map settled (snd (emit_run router_step es r)))"
proof (induction es arbitrary: r)
  case (Cons e es)
  show ?case
    using Cons.IH [OF router_step_wf(1) [OF Cons.prems]] router_step_wf(3) [OF Cons.prems]
    by (simp add: emit_run_simps del: emit_run.simps(2))
qed simp

subsection \<open>Whose pieces a verdict releases\<close>

text \<open>
  A network reuses the identification of a datagram, so two datagrams of one key can follow each other while
  the verdict on the first is still out. The trace of a run says for each key which ticket was issued last,
  which pieces came in since then, and which came in between the begin before and that one.
\<close>

record 'a epoch =
  ep_latest :: "Ticket option"
  ep_since :: "(bytes \<times> 'a) list"
  ep_before :: "(bytes \<times> 'a) list"

definition no_epoch :: "'a epoch" where
  "no_epoch = \<lparr>ep_latest = None, ep_since = [], ep_before = []\<rparr>"

fun note_event :: "'a router_event \<Rightarrow> 'a FragmentRouter \<Rightarrow> (router_key \<Rightarrow> 'a epoch) \<Rightarrow> router_key \<Rightarrow> 'a epoch" where
  "note_event (Begin first now) r h =
     h(key_of first := \<lparr>ep_latest = Some (snd (begin_datagram first now r)), ep_since = [], ep_before = ep_since (h (key_of first))\<rparr>)"
| "note_event (Later packet address now) r h =
     h(key_of packet := (h (key_of packet))\<lparr>ep_since := ep_since (h (key_of packet)) @ [(packet, address)]\<rparr>)"
| "note_event _ r h = h"

fun epochs :: "'a router_event list \<Rightarrow> 'a FragmentRouter \<Rightarrow> (router_key \<Rightarrow> 'a epoch) \<Rightarrow> router_key \<Rightarrow> 'a epoch" where
  "epochs [] r h = h"
| "epochs (e # es) r h = epochs es (fst (router_step e r)) (note_event e r h)"

text \<open>A begun entry belongs to the latest ticket of its key; one not begun holds only pieces since then.\<close>

definition of_epoch :: "(router_key \<Rightarrow> 'a epoch) \<Rightarrow> router_key \<times> 'a RoutedDatagram \<Rightarrow> bool" where
  "of_epoch h e \<longleftrightarrow> (case e of (k, d) \<Rightarrow>
     if rd_generation d = 0 then set (rd_waiting d) \<subseteq> set (ep_since (h k))
     else ep_latest (h k) = Some \<lparr>tk_key = k, tk_generation = rd_generation d\<rparr>
       \<and> set (rd_waiting d) \<subseteq> set (ep_since (h k)) \<union> set (ep_before (h k)))"

definition in_epoch :: "'a FragmentRouter \<Rightarrow> (router_key \<Rightarrow> 'a epoch) \<Rightarrow> bool" where
  "in_epoch r h \<longleftrightarrow> router_wf r \<and> (\<forall>e \<in> set (fr_datagrams r). of_epoch h e)"

lemma prepared_subset: "set (fr_datagrams (make_room key (router_expire now r))) \<subseteq> set (fr_datagrams r)"
  by (auto simp: make_room_def router_expire_def fold_forget AList.delete_eq split: option.splits)

lemma fold_forget_generation: "fr_generation (fold (\<lambda>e. forget (snd e)) es r) = fr_generation r"
  by (induction es arbitrary: r) simp_all

lemma expire_generation: "fr_generation (router_expire now r) = fr_generation r"
  by (simp add: router_expire_def fold_forget_generation)

lemma prepared_generation: "fr_generation (make_room key (router_expire now r)) = fr_generation r"
  by (simp add: make_room_def expire_generation split: option.split)

lemma prepared_entry:
  assumes "in_epoch r h" and "map_of (fr_datagrams (make_room key (router_expire now r))) k = Some d"
  shows "of_epoch h (k, d)"
  using assms prepared_subset [of key now r] map_of_SomeD [OF assms(2)] by (auto simp: in_epoch_def)

text \<open>Only the entry of one key changes, and the trace of no other key.\<close>

lemma epoch_update:
  assumes "in_epoch r h" and "router_wf r'" and "fr_datagrams r' = AList.update k d t" and "set t \<subseteq> set (fr_datagrams r)"
    and "distinct (map fst t)" and "\<And>k'. k' \<noteq> k \<Longrightarrow> h' k' = h k'" and "of_epoch h' (k, d)"
  shows "in_epoch r' h'"
proof -
  have "of_epoch h' (k', d')" if "(k', d') \<in> set (AList.update k d t)" for k' d'
  proof (cases "k' = k")
    case True
    have "distinct (map fst (AList.update k d t))" using assms(5) by (rule distinct_update)
    then have "map_of (AList.update k d t) k' = Some d'" using that by (rule map_of_is_SomeI)
    then show ?thesis using True assms(7) by (simp add: update_conv)
  next
    case False
    have "distinct (map fst (AList.update k d t))" using assms(5) by (rule distinct_update)
    then have "map_of (AList.update k d t) k' = Some d'" using that by (rule map_of_is_SomeI)
    then have "(k', d') \<in> set t" using False by (simp add: update_conv map_of_SomeD)
    then have "of_epoch h (k', d')" using assms(1,4) by (auto simp: in_epoch_def)
    then show ?thesis using assms(6) [OF False] by (simp add: of_epoch_def)
  qed
  then show ?thesis using assms(2,3) by (auto simp: in_epoch_def)
qed

lemma prepared_distinct: "router_wf r \<Longrightarrow> distinct (map fst (fr_datagrams (make_room key (router_expire now r))))"
  using make_room_wf(1) [OF expire_wf(1), of r key now] unfolding router_wf_def by blast

lemma begin_epoch:
  assumes "in_epoch r h"
  shows "in_epoch (fst (begin_datagram first now r)) (note_event (Begin first now) r h)"
proof -
  let ?k = "key_of first" and ?g = "max (fr_generation r + 1) 1"
  define t where "t = fr_datagrams (make_room ?k (router_expire now r))"
  define adopted where "adopted = (case map_of t ?k of None \<Rightarrow> [] | Some old \<Rightarrow>
    if rd_generation old = 0 then rd_waiting old else [])"
  have "set adopted \<subseteq> set (ep_since (h ?k))"
    using prepared_entry [OF assms, of ?k now ?k]
    by (cases "map_of t ?k") (auto simp: adopted_def t_def of_epoch_def split: if_splits)
  moreover have "snd (begin_datagram first now r) = \<lparr>tk_key = ?k, tk_generation = ?g\<rparr>"
    by (simp add: begin_datagram_def Let_def case_prod_unfold prepared_generation)
  moreover have "?g \<noteq> 0" by (simp add: max_def) (metis word_zero_le)
  ultimately have "of_epoch (note_event (Begin first now) r h) (?k, \<lparr>rd_started = now, rd_generation = ?g, rd_route = None, rd_waiting = adopted\<rparr>)"
    by (simp add: of_epoch_def)
  note fits = this
  have entry: "fr_datagrams (fst (begin_datagram first now r)) = AList.update ?k
      \<lparr>rd_started = now, rd_generation = ?g, rd_route = None, rd_waiting = adopted\<rparr> t"
    by (simp add: begin_datagram_def Let_def t_def adopted_def prepared_generation split: option.split)
  have wf: "router_wf r" using assms by (simp add: in_epoch_def)
  show ?thesis
    by (rule epoch_update [OF assms begin_wf(1) [OF wf] entry _ _ _ fits])
      (simp_all add: t_def prepared_subset prepared_distinct [OF wf])
qed

lemma later_epoch:
  assumes "in_epoch r h"
  shows "in_epoch (fst (later_piece packet address now r)) (note_event (Later packet address now) r h)"
proof -
  let ?k = "key_of packet" and ?h = "note_event (Later packet address now) r h"
  define t where "t = fr_datagrams (make_room ?k (router_expire now r))"
  define d where "d = (case map_of t ?k of Some d \<Rightarrow> d
    | None \<Rightarrow> \<lparr>rd_started = now, rd_generation = 0, rd_route = None, rd_waiting = []\<rparr>)"
  have d: "of_epoch h (?k, d)"
    using prepared_entry [OF assms, of ?k now ?k] by (auto simp: d_def t_def of_epoch_def split: option.split)
  obtain d' where d': "fr_datagrams (fst (later_piece packet address now r)) = AList.update ?k d' t"
      "rd_generation d' = rd_generation d" "set (rd_waiting d') \<subseteq> insert (packet, address) (set (rd_waiting d))"
  proof -
    have "\<exists>d'. fr_datagrams (fst (later_piece packet address now r)) = AList.update ?k d' t
        \<and> rd_generation d' = rd_generation d \<and> set (rd_waiting d') \<subseteq> insert (packet, address) (set (rd_waiting d))"
      unfolding later_piece_def Let_def t_def [symmetric] d_def [symmetric]
      by (cases "rd_route d") (auto simp: t_def intro!: exI)
    then show ?thesis using that by blast
  qed
  have "of_epoch ?h (?k, d')" using d d'(2,3) by (auto simp: of_epoch_def split: if_splits)
  then show ?thesis
    using epoch_update [OF assms later_wf(1) d'(1), of ?h] assms prepared_subset [of ?k now r] prepared_distinct [of r ?k now]
    unfolding t_def by (simp add: in_epoch_def)
qed

lemma finish_epoch:
  assumes "in_epoch r h"
  shows "in_epoch (fst (finish_datagram ticket route now r)) h"
proof (cases "fst (finish_datagram ticket route now r) = r")
  case False
  then obtain d where d: "map_of (fr_datagrams r) (tk_key ticket) = Some d" "rd_generation d = tk_generation ticket"
    by (auto simp: finish_datagram_def split: option.splits if_splits)
  define d' where "d' = d\<lparr>rd_route := Some (if rd_route d = Some Drop then Drop else route), rd_started := now, rd_waiting := []\<rparr>"
  have d': "fr_datagrams (fst (finish_datagram ticket route now r)) = AList.update (tk_key ticket) d' (fr_datagrams r)"
      "rd_generation d' = rd_generation d" "rd_waiting d' = []"
    using d by (simp_all add: finish_datagram_def Let_def d'_def)
  have "of_epoch h (tk_key ticket, d)" using assms map_of_SomeD [OF d(1)] by (auto simp: in_epoch_def)
  then have "of_epoch h (tk_key ticket, d')" using d'(2,3) by (auto simp: of_epoch_def)
  note fits = this
  have wf: "router_wf r" using assms by (simp add: in_epoch_def)
  show ?thesis
    by (rule epoch_update [OF assms finish_wf(1) [OF wf] d'(1) subset_refl _ _ fits]) (use wf in \<open>simp_all add: router_wf_def\<close>)
qed (use assms in simp)

lemma step_epoch: "in_epoch r h \<Longrightarrow> in_epoch (fst (router_step e r)) (note_event e r h)"
proof (cases e)
  case (Expire now)
  assume "in_epoch r h"
  then show ?thesis using Expire expire_wf(1) [of r now]
    by (auto simp: in_epoch_def router_expire_def fold_forget)
next
  case Take_Discarded
  assume "in_epoch r h"
  then show ?thesis using Take_Discarded router_step_wf(1) [of r e]
    by (auto simp: in_epoch_def router_take_discarded_def)
qed (simp_all add: case_prod_unfold Let_def begin_epoch later_epoch finish_epoch del: note_event.simps(1,2))

lemma run_epoch: "in_epoch r h \<Longrightarrow> in_epoch (fst (emit_run router_step es r)) (epochs es r h)"
  by (induction es arbitrary: r h) (simp_all add: emit_run_simps step_epoch del: emit_run.simps(2))

lemma finish_releases_latest:
  assumes "in_epoch r h" and "tk_generation ticket \<noteq> 0" and "snd (finish_datagram ticket route now r) \<noteq> []"
  shows "ep_latest (h (tk_key ticket)) = Some ticket"
    and "set (snd (finish_datagram ticket route now r)) \<subseteq> set (ep_since (h (tk_key ticket))) \<union> set (ep_before (h (tk_key ticket)))"
proof -
  obtain d where d: "map_of (fr_datagrams r) (tk_key ticket) = Some d" "rd_generation d = tk_generation ticket"
      "snd (finish_datagram ticket route now r) = rd_waiting d"
    using assms(3) by (auto simp: finish_datagram_def Let_def split: option.splits if_splits)
  then have "of_epoch h (tk_key ticket, d)" using assms(1) map_of_SomeD [OF d(1)] by (auto simp: in_epoch_def)
  then show "ep_latest (h (tk_key ticket)) = Some ticket"
    and "set (snd (finish_datagram ticket route now r)) \<subseteq> set (ep_since (h (tk_key ticket))) \<union> set (ep_before (h (tk_key ticket)))"
    using d assms(2) by (simp_all add: of_epoch_def)
qed

text \<open>The generations of the tickets are 1, 2, 3, ... as long as the counter does not wrap.\<close>

fun issued :: "'a router_output \<Rightarrow> Ticket list" where
  "issued (Issued t) = [t]"
| "issued _ = []"

definition tickets :: "'a router_output list \<Rightarrow> Ticket list" where
  "tickets out = concat (map issued out)"

fun is_begin :: "'a router_event \<Rightarrow> bool" where
  "is_begin (Begin first now) \<longleftrightarrow> True"
| "is_begin _ \<longleftrightarrow> False"

lemma step_generation:
  "\<not> is_begin e \<Longrightarrow> fr_generation (fst (router_step e r)) = fr_generation r \<and> tickets (snd (router_step e r)) = []"
  by (cases e) (auto simp: case_prod_unfold Let_def later_piece_def finish_datagram_def
      expire_generation router_take_discarded_def prepared_generation tickets_def split: option.split)

lemma begin_generation:
  assumes "fr_generation r = of_nat g" and "Suc g < 2 ^ 64"
  shows "fr_generation (fst (router_step (Begin first now) r)) = of_nat (Suc g)"
    and "tickets (snd (router_step (Begin first now) r)) = [\<lparr>tk_key = key_of first, tk_generation = of_nat (Suc g)\<rparr>]"
proof -
  have "unat (of_nat (Suc g) :: u64) = Suc g" using assms(2) by (simp add: unat_of_nat take_bit_nat_eq_self del: of_nat_Suc)
  then have "max (fr_generation r + 1) 1 = of_nat (Suc g)"
    using assms(1) by (auto simp: max_def word_le_nat_alt add.commute)
  then show "fr_generation (fst (router_step (Begin first now) r)) = of_nat (Suc g)"
    and "tickets (snd (router_step (Begin first now) r)) = [\<lparr>tk_key = key_of first, tk_generation = of_nat (Suc g)\<rparr>]"
    by (simp_all add: begin_datagram_def Let_def case_prod_unfold prepared_generation tickets_def split: option.split)
qed

lemma tickets_numbered:
  assumes "fr_generation r = of_nat g" and "g + length (filter is_begin es) < 2 ^ 64"
  shows "map tk_generation (tickets (snd (emit_run router_step es r)))
    = map of_nat [Suc g ..< Suc (g + length (filter is_begin es))]"
  using assms
proof (induction es arbitrary: r g)
  case (Cons e es)
  have parts: "tickets (snd (emit_run router_step (e # es) r)) =
      tickets (snd (router_step e r)) @ tickets (snd (emit_run router_step es (fst (router_step e r))))"
    by (simp add: emit_run_simps tickets_def del: emit_run.simps(2))
  show ?case
  proof (cases "is_begin e")
    case False
    then show ?thesis
      using Cons.IH [of "fst (router_step e r)" g] Cons.prems step_generation [OF False, of r]
      by (simp add: parts del: upt_Suc emit_run.simps(2))
  next
    case True
    then obtain first now where e: "e = Begin first now" by (cases e) simp_all
    have g: "Suc g < 2 ^ 64" using Cons.prems(2) True by simp
    show ?thesis
      using Cons.IH [of "fst (router_step e r)" "Suc g"] Cons.prems begin_generation [OF Cons.prems(1) g, of first now]
      by (simp add: parts [unfolded e] e upt_conv_Cons del: of_nat_Suc router_step.simps upt_Suc emit_run.simps(2))
  qed
qed (simp add: tickets_def)

lemma tickets_distinct:
  assumes "length (filter is_begin es) < 2 ^ 64"
  shows "distinct (tickets (snd (emit_run router_step es router_default)))"
proof -
  have numbered: "map tk_generation (tickets (snd (emit_run router_step es router_default)))
      = map of_nat [Suc 0 ..< Suc (length (filter is_begin es))]"
    using tickets_numbered [of router_default 0 es] assms by (simp add: router_default_def)
  have "inj_on (of_nat :: nat \<Rightarrow> u64) {Suc 0 ..< Suc (length (filter is_begin es))}"
    using assms by (auto intro!: inj_onI simp: word_of_nat_eq_iff take_bit_nat_eq_self)
  then have "distinct (map tk_generation (tickets (snd (emit_run router_step es router_default))))"
    unfolding numbered by (simp add: distinct_map del: upt_Suc)
  then show "distinct (tickets (snd (emit_run router_step es router_default)))" by (simp add: distinct_map)
qed

lemma tickets_begun: "0 \<notin> tk_generation ` set (tickets (snd (emit_run router_step es r)))"
proof (induction es arbitrary: r)
  case (Cons e es)
  have "0 \<notin> tk_generation ` set (tickets (snd (router_step e r)))"
  proof (cases "is_begin e")
    case True
    then obtain first now where "e = Begin first now" by (cases e) simp_all
    then show ?thesis
      by (simp add: begin_datagram_def Let_def case_prod_unfold tickets_def max_def) (metis word_zero_le)
  qed (simp add: step_generation)
  then show ?case using Cons.IH [of "fst (router_step e r)"]
    by (auto simp: emit_run_simps tickets_def simp del: emit_run.simps(2))
qed (simp add: tickets_def)

text \<open>
  C34. The router keeps exact books: through any sequence of operations by any threads it holds at most 64
  datagrams and one megabyte, its byte counter is the size of what waits, and every piece it ever held is
  accounted for - released, reported as discarded, or still waiting: none is lost and none is released
  twice. No two tickets are equal, for fewer than 2^64 datagrams. And a verdict releases only pieces of its
  own datagram: at whatever moment an issued ticket is finished, if it releases anything then no
  later first fragment of that key has been begun, and the pieces are of that key and came in after the
  first fragment before it; a ticket overtaken by a reuse of its identification releases nothing.
\<close>

theorem fragment_router_accounts:
  fixes events :: "'a router_event list"
  defines "r \<equiv> fst (emit_run router_step events router_default)" and "out \<equiv> snd (emit_run router_step events router_default)"
    and "history \<equiv> epochs events router_default (\<lambda>_. no_epoch)"
  assumes "length (filter is_begin events) < 2 ^ 64"
  shows "length (fr_datagrams r) \<le> 64 \<and> fr_pending_bytes r \<le> 1048576
    \<and> fr_pending_bytes r = sum_list (map (\<lambda>e. sum_list (map (\<lambda>p. int (length (fst p))) (rd_waiting (snd e)))) (fr_datagrams r))
    \<and> list_all released_own out
    \<and> int (length (filter (\<lambda>o'. o' = Answered Held) out)) =
        sum_list (map (\<lambda>o'. case o' of Released t ps \<Rightarrow> int (length ps) | Reported n \<Rightarrow> n | _ \<Rightarrow> 0) out)
        + fr_discarded r + sum_list (map (\<lambda>e. int (length (rd_waiting (snd e)))) (fr_datagrams r))
    \<and> distinct (tickets out)
    \<and> (\<forall>ticket route now pieces. ticket \<in> set (tickets out) \<and> snd (finish_datagram ticket route now r) = pieces \<and> pieces \<noteq> [] \<longrightarrow>
        ep_latest (history (tk_key ticket)) = Some ticket
        \<and> set pieces \<subseteq> set (ep_since (history (tk_key ticket))) \<union> set (ep_before (history (tk_key ticket))))"
proof (intro conjI allI impI)
  have "router_wf r" unfolding r_def by (rule router.emit_run_keeps [OF router_default_wf]) (simp add: list_all_iff)
  moreover have "owed r = - sum_list (map settled out)"
    using router_run_owed [OF router_default_wf, of events]
    by (simp add: r_def out_def owed_def waiting_pieces_def router_default_def)
  moreover have "sum_list (map settled out) =
      sum_list (map (\<lambda>o'. case o' of Released t ps \<Rightarrow> int (length ps) | Reported n \<Rightarrow> n | _ \<Rightarrow> 0) out)
      - int (length (filter (\<lambda>o'. o' = Answered Held) out))"
    by (induction out) (auto simp: settled_answer split: router_output.split)
  ultimately show "length (fr_datagrams r) \<le> 64" "fr_pending_bytes r \<le> 1048576"
    "fr_pending_bytes r = sum_list (map (\<lambda>e. sum_list (map (\<lambda>p. int (length (fst p))) (rd_waiting (snd e)))) (fr_datagrams r))"
    "int (length (filter (\<lambda>o'. o' = Answered Held) out)) =
        sum_list (map (\<lambda>o'. case o' of Released t ps \<Rightarrow> int (length ps) | Reported n \<Rightarrow> n | _ \<Rightarrow> 0) out)
        + fr_discarded r + sum_list (map (\<lambda>e. int (length (rd_waiting (snd e)))) (fr_datagrams r))"
    by (simp_all add: router_wf_def owed_def waiting_bytes_def waiting_pieces_def table_total_def pieces_bytes_def)
  show "list_all released_own out"
    unfolding out_def by (rule router.emit_run_emits [OF router_default_wf]) (simp add: list_all_iff)
  show "distinct (tickets out)" unfolding out_def by (rule tickets_distinct [OF assms(4)])
next
  fix ticket route now and pieces :: "(bytes \<times> 'a) list"
  assume t: "ticket \<in> set (tickets out) \<and> snd (finish_datagram ticket route now r) = pieces \<and> pieces \<noteq> []"
  have "in_epoch r history"
    unfolding r_def history_def by (rule run_epoch) (simp add: in_epoch_def router_default_wf, simp add: router_default_def)
  moreover have "tk_generation ticket \<noteq> 0" using t tickets_begun [of events router_default] by (force simp: out_def)
  ultimately show "ep_latest (history (tk_key ticket)) = Some ticket"
      "set pieces \<subseteq> set (ep_since (history (tk_key ticket))) \<union> set (ep_before (history (tk_key ticket)))"
    using finish_releases_latest [of r history ticket route now] t by blast+
qed

text \<open>The identification reused while the first verdict is out: only the second ticket releases the waiting piece.\<close>

definition reused_key :: router_key where
  "reused_key = ([10,0,0,2], [1,1,1,1], 17, 7)"

definition reusing_packet :: "u8 \<Rightarrow> bytes" where
  "reusing_packet tag = [0x45,0,0,28, 0,7,0x20,0, 64,17,0,0, 10,0,0,2, 1,1,1,1, tag]"

definition reusing_events :: "unit router_event list" where
  "reusing_events = [Begin (reusing_packet 1) 0, Later (reusing_packet 2) () 1, Begin (reusing_packet 3) 2, Later (reusing_packet 4) () 3]"

lemma reusing_key: "key_of (reusing_packet tag) = reused_key" "length (reusing_packet tag) = 21"
  by (simp_all add: key_of_def reusing_packet_def reused_key_def subslice_def of_be16_def)

definition reusing_table :: "instant \<Rightarrow> u64 \<Rightarrow> (bytes \<times> unit) list \<Rightarrow> int \<Rightarrow> int \<Rightarrow> unit FragmentRouter" where
  "reusing_table started generation waiting bytes discarded =
     \<lparr>fr_datagrams = [(reused_key, \<lparr>rd_started = started, rd_generation = generation, rd_route = None, rd_waiting = waiting\<rparr>)],
      fr_generation = generation, fr_pending_bytes = bytes, fr_discarded = discarded\<rparr>"

lemma reusing_prepared:
  "now < started + 100000000 \<Longrightarrow> make_room reused_key (router_expire now (reusing_table started generation waiting bytes discarded))
     = reusing_table started generation waiting bytes discarded"
  by (simp add: reusing_table_def router_expire_def make_room_def still_fresh_def PENDING_TTL_def duration_since_def millis_def)

lemma reusing_begin:
  "begin_datagram (reusing_packet tag) 0 router_default = (reusing_table 0 1 [] 0 0, \<lparr>tk_key = reused_key, tk_generation = 1\<rparr>)"
  by (simp add: begin_datagram_def reusing_key router_expire_def router_default_def make_room_def ROUTER_DATAGRAMS_def reusing_table_def)

lemma reusing_later:
  "now < started + 100000000 \<Longrightarrow> later_piece (reusing_packet tag) () now (reusing_table started generation [] 0 discarded)
     = (reusing_table started generation [(reusing_packet tag, ())] 21 discarded, Held)"
  unfolding later_piece_def reusing_key Let_def reusing_prepared
  by (simp add: reusing_table_def MAX_PIECES_def MAX_PENDING_BYTES_def)

lemma reusing_again:
  "begin_datagram (reusing_packet tag) 2 (reusing_table 0 1 [(reusing_packet tag', ())] 21 0)
     = (reusing_table 2 2 [] 0 1, \<lparr>tk_key = reused_key, tk_generation = 2\<rparr>)"
proof -
  have "make_room reused_key (router_expire 2 (reusing_table 0 1 [(reusing_packet tag', ())] 21 0)) =
    reusing_table 0 1 [(reusing_packet tag', ())] 21 0" by (rule reusing_prepared) simp
  then show ?thesis
    by (simp add: begin_datagram_def reusing_key reusing_table_def forget_def pieces_bytes_def)
qed

lemma reusing_run:
  "emit_run router_step reusing_events router_default =
     (reusing_table 2 2 [(reusing_packet 4, ())] 21 1, [Issued \<lparr>tk_key = reused_key, tk_generation = 1\<rparr>, Answered Held,
       Issued \<lparr>tk_key = reused_key, tk_generation = 2\<rparr>, Answered Held])"
  by (simp add: reusing_events_def reusing_begin reusing_later reusing_again)

theorem fragment_router_accounts_witness:
  "length (filter is_begin reusing_events) < 2 ^ 64
   \<and> snd (finish_datagram \<lparr>tk_key = reused_key, tk_generation = 1\<rparr> Bypass 4 (reusing_table 2 2 [(reusing_packet 4, ())] 21 1)) = []
   \<and> snd (finish_datagram \<lparr>tk_key = reused_key, tk_generation = 2\<rparr> Bypass 4 (reusing_table 2 2 [(reusing_packet 4, ())] 21 1)) = [(reusing_packet 4, ())]
   \<and> ep_latest (epochs reusing_events router_default (\<lambda>_. no_epoch) reused_key) = Some \<lparr>tk_key = reused_key, tk_generation = 2\<rparr>"
proof -
  have few: "length (filter is_begin reusing_events) < 2 ^ 64" by (simp add: reusing_events_def)
  have new: "snd (finish_datagram \<lparr>tk_key = reused_key, tk_generation = 2\<rparr> Bypass 4 (reusing_table 2 2 [(reusing_packet 4, ())] 21 1)) = [(reusing_packet 4, ())]"
    and old: "snd (finish_datagram \<lparr>tk_key = reused_key, tk_generation = 1\<rparr> Bypass 4 (reusing_table 2 2 [(reusing_packet 4, ())] 21 1)) = []"
    by (simp_all add: finish_datagram_def reusing_table_def Let_def)
  let ?ticket = "\<lparr>tk_key = reused_key, tk_generation = 2\<rparr> :: Ticket"
  have "?ticket \<in> set (tickets (snd (emit_run router_step reusing_events router_default)))
      \<and> snd (finish_datagram ?ticket Bypass 4 (fst (emit_run router_step reusing_events router_default))) = [(reusing_packet 4, ())]
      \<and> [(reusing_packet 4, ())] \<noteq> []"
    using new by (simp add: reusing_run tickets_def)
  then have "ep_latest (epochs reusing_events router_default (\<lambda>_. no_epoch) (tk_key ?ticket)) = Some ?ticket"
    using fragment_router_accounts [OF few] by blast
  then show ?thesis using few new old by simp
qed

text \<open>The verdict of the first fragment is the verdict of the rest.\<close>

lemma later_follows_verdict:
  assumes "router_wf r" and "map_of (fr_datagrams r) (tk_key ticket) = Some d" and "rd_generation d = tk_generation ticket"
    and "rd_route d = None" and "key_of packet = tk_key ticket" and "duration_since later finished < VERDICT_TTL"
  shows "snd (later_piece packet address later (fst (finish_datagram ticket route finished r))) = Routed route"
proof -
  let ?r = "fst (finish_datagram ticket route finished r)"
  let ?d = "d\<lparr>rd_route := Some route, rd_started := finished, rd_waiting := []\<rparr>"
  have wf: "router_wf ?r" by (rule finish_wf(1) [OF assms(1)])
  have "map_of (fr_datagrams ?r) (tk_key ticket) = Some ?d"
    using assms(2-4) by (simp add: finish_datagram_def Let_def update_conv)
  moreover have "still_fresh later ?d" using assms(6) by (simp add: still_fresh_def)
  ultimately have "map_of (fr_datagrams (router_expire later ?r)) (tk_key ticket) = Some ?d"
    using wf map_of_SomeD [of "fr_datagrams ?r" "tk_key ticket" ?d]
    by (auto simp: router_expire_def fold_forget router_wf_def distinct_map_filter intro!: map_of_is_SomeI)
  then show ?thesis by (simp add: later_piece_def make_room_def Let_def assms(5))
qed

end
