(* ===== verification/Bit_Masks.thy ===== *)
theory Bit_Masks
  imports Contracts
begin

section \<open>Sets of paths as bit masks\<close>

text \<open>
  The engine publishes sets of paths and of ports as words. The lemmas read a word as the set of its
  bits, and show what the two idioms of the source do: \<^verbatim>\<open>x & x.wrapping_neg()\<close> is the lowest bit,
  \<^verbatim>\<open>x & (x - 1)\<close> removes it.
\<close>

definition bits_of :: "'a::len word \<Rightarrow> nat set" where
  "bits_of w = {n. bit w n}"

text \<open>\<^verbatim>\<open>1_u64.checked_shl(index).unwrap_or(0)\<close>: the bit of an index, none from 64 on.\<close>

definition bit_of_index :: "nat \<Rightarrow> u64" where
  "bit_of_index index = (if index < 64 then push_bit index 1 else 0)"

text \<open>\<^verbatim>\<open>index as u32\<close>, as a number.\<close>

definition as_u32 :: "nat \<Rightarrow> nat" where
  "as_u32 index = unat (of_nat index :: u32)"

lemma as_u32_small [simp]: "index < 2 ^ 32 \<Longrightarrow> as_u32 index = index"
  by (simp add: as_u32_def unat_of_nat)

definition lowest_bit :: "u64 \<Rightarrow> u64" where
  "lowest_bit x = x AND - x"

lemma bits_of_less: "n \<in> bits_of (w :: u64) \<Longrightarrow> n < 64"
  using bit_imp_le_length [of w n] by (simp add: bits_of_def)

lemma bits_of_finite [simp]: "finite (bits_of (w :: u64))"
  by (rule finite_subset [of _ "{..<64}"]) (auto dest: bits_of_less)

lemma bits_of_empty [simp]: "bits_of w = {} \<longleftrightarrow> w = 0"
  by (auto simp: bits_of_def intro!: bit_word_eqI)

lemma bits_of_eq: "bits_of v = bits_of w \<longleftrightarrow> v = w"
  by (auto simp: bits_of_def set_eq_iff intro!: bit_word_eqI)

lemma bits_of_simps [simp]:
  "bits_of (v OR w) = bits_of v \<union> bits_of w" "bits_of 0 = {}"
  by (auto simp: bits_of_def bit_or_iff)

lemma bits_of_and: "bits_of (v AND w) = bits_of v \<inter> bits_of w"
  by (auto simp: bits_of_def bit_and_iff)

lemma bits_of_and_not [simp]: "bits_of (v AND NOT w) = bits_of v - bits_of (w :: u64)"
  by (auto simp: bits_of_def bit_and_iff bit_not_iff dest: bit_imp_le_length)

lemma bits_of_index [simp]: "bits_of (bit_of_index i) = (if i < 64 then {i} else {})"
  by (auto simp: bits_of_def bit_of_index_def bit_exp_iff possible_bit_word)

lemma bits_of_exp [simp]: "i < 64 \<Longrightarrow> bits_of (2 ^ i :: u64) = {i}"
  by (auto simp: bits_of_def bit_exp_iff possible_bit_word)

lemma and_zero_iff: "v AND w = 0 \<longleftrightarrow> bits_of v \<inter> bits_of w = {}"
  by (simp add: bits_of_and flip: bits_of_empty)

lemma count_ones_card: "count_ones (w :: u64) = card (bits_of w)"
proof -
  have "set (filter (bit w) [0..<64]) = bits_of w" using bits_of_less [of _ w] by (auto simp: bits_of_def)
  then show ?thesis
    using distinct_card [of "filter (bit w) [0..<64]"] by (simp add: count_ones_def)
qed

lemma bits_of_decrement:
  assumes "x \<noteq> (0 :: u64)"
  shows "bits_of (x - 1) = {n \<in> bits_of x. n \<noteq> Min (bits_of x)} \<union> {..<Min (bits_of x)}"
proof -
  define i where "i = Min (bits_of x)"
  have i: "i \<in> bits_of x" "\<forall>n \<in> bits_of x. i \<le> n" using assms by (simp_all add: i_def)
  then have small: "i < 64" using bits_of_less by blast
  define high where "high = x AND NOT (mask (Suc i))"
  have low: "\<not> bit x n" if "n < i" for n using i(2) that by (force simp: bits_of_def)
  have "high AND 2 ^ i = 0" by (rule bit_word_eqI) (auto simp: high_def bit_simps)
  moreover have "x = high OR 2 ^ i"
    by (rule bit_word_eqI) (use i low small in \<open>auto simp: high_def bit_simps bits_of_def less_Suc_eq not_less\<close>)
  ultimately have "x = high + 2 ^ i" by (simp add: disjunctive_add_eq_or)
  then have "x - 1 = high + mask i" by (simp add: mask_eq_exp_minus_1)
  also have "high AND mask i = 0" by (rule bit_word_eqI) (auto simp: high_def bit_simps)
  then have "high + mask i = high OR mask i" by (rule disjunctive_add_eq_or)
  finally have eq: "x - 1 = high OR mask i" .
  have "bit (x - 1) n \<longleftrightarrow> (bit x n \<and> n \<noteq> i) \<or> n < i" for n
    unfolding eq using low small bit_imp_le_length [of x n] by (auto simp: high_def bit_simps)
  then show ?thesis by (auto simp: bits_of_def i_def)
qed

lemma bits_of_lowest: "x \<noteq> 0 \<Longrightarrow> bits_of (lowest_bit x) = {Min (bits_of x)}"
  unfolding lowest_bit_def minus_eq_not_minus_1 bits_of_and_not
  by (subst bits_of_decrement) (auto simp: not_less intro: Min_in)

lemma lowest_bit_0 [simp]: "lowest_bit 0 = 0"
  by (simp add: lowest_bit_def)

lemma bits_of_clear_lowest: "x \<noteq> (0 :: u64) \<Longrightarrow> bits_of (x AND (x - 1)) = bits_of x - {Min (bits_of x)}"
  by (auto simp: bits_of_and bits_of_decrement Min_less_iff)

end
