(* ===== verification/Dispatch.thy ===== *)
theory Dispatch
  imports Bit_Masks
begin

section \<open>Handing frames to the path workers (\<^verbatim>\<open>engine/src/session/dispatch.rs\<close>, \<^verbatim>\<open>worker.rs\<close>)\<close>

text \<open>
  Every path has a bounded command queue. A sender reserves a place in the path's published depth,
  offers the frame to the queue and settles the counters; the path's worker takes a bounded batch and
  drops what waited too long. Senders and workers run on different threads and meet only in the queue
  and the counters, so the code is cut into its atomic actions: the sequential operations are composed
  of them, and a step relation interleaves them. Counters are words: \<^verbatim>\<open>fetch_add\<close> and \<^verbatim>\<open>fetch_sub\<close> wrap.
\<close>

subsection \<open>Queues and counters\<close>

definition PATH_SEND_BATCH :: nat where "PATH_SEND_BATCH = 128"
definition PATH_QUEUE_DEPTH :: nat where "PATH_QUEUE_DEPTH = 1024"
definition PATH_QUEUE_MAX_AGE :: duration where "PATH_QUEUE_MAX_AGE = millis 50"

record PathCommand =
  pc_frame :: bytes
  pc_queued_at :: instant

text \<open>\<^verbatim>\<open>mpsc::sync_channel\<close> of a positive capacity; \<open>cq_open\<close> is false once the worker dropped its end.\<close>

record command_queue =
  cq_capacity :: nat
  cq_items :: "PathCommand list"
  cq_open :: bool

datatype send_result = Accepted | Queue_Full | Receiver_Gone

definition queue_try_send :: "PathCommand \<Rightarrow> command_queue \<Rightarrow> command_queue \<times> send_result" where
  "queue_try_send c q =
     (if \<not> cq_open q then (q, Receiver_Gone)
      else if length (cq_items q) \<ge> cq_capacity q then (q, Queue_Full)
      else (q\<lparr>cq_items := cq_items q @ [c]\<rparr>, Accepted))"

definition queue_try_recv :: "command_queue \<Rightarrow> (PathCommand \<times> command_queue) option" where
  "queue_try_recv q = (case cq_items q of [] \<Rightarrow> None | c # cs \<Rightarrow> Some (c, q\<lparr>cq_items := cs\<rparr>))"

text \<open>The counters of \<^verbatim>\<open>PathTelemetry\<close>, one entry per route; the diagnostics and the uplink monitor are left out.\<close>

record PathTelemetry =
  pt_iterations :: "u64 list"
  pt_queue_depth :: "u64 list"
  pt_queue_peak :: "u64 list"
  pt_dropped :: "u64 list"
  pt_queue_full_dropped :: "u64 list"
  pt_stale_dropped :: "u64 list"
  pt_inbound_dropped :: "u64 list"
  pt_send_failed :: "u64 list"
  pt_stream_stale :: "u64 list"
  pt_stream_full :: "u64 list"
  pt_worker_gap_peak_ms :: "u64 list"
  pt_healthy_mask :: u64

definition telemetry_new :: "nat \<Rightarrow> PathTelemetry" where
  "telemetry_new route_count =
     (let counters = replicate route_count 0
      in \<lparr>pt_iterations = counters, pt_queue_depth = counters, pt_queue_peak = counters, pt_dropped = counters,
          pt_queue_full_dropped = counters, pt_stale_dropped = counters, pt_inbound_dropped = counters,
          pt_send_failed = counters, pt_stream_stale = counters, pt_stream_full = counters,
          pt_worker_gap_peak_ms = counters, pt_healthy_mask = 0\<rparr>)"

text \<open>\<^verbatim>\<open>if let Some(x) = counters.get(index) { x.fetch_...(...); }\<close>\<close>

definition update_at :: "('a \<Rightarrow> 'a) \<Rightarrow> nat \<Rightarrow> 'a list \<Rightarrow> 'a list" where
  "update_at f i xs = (if i < length xs then xs[i := f (xs ! i)] else xs)"

text \<open>Indexing with \<^verbatim>\<open>[index]\<close> panics past the end.\<close>

definition record_transport_drops :: "nat \<Rightarrow> u64 \<times> u64 \<Rightarrow> PathTelemetry \<Rightarrow> PathTelemetry outcome" where
  "record_transport_drops index = (\<lambda>(stale, full) t.
     if stale + full = 0 then Ret t
     else if index < length (pt_stream_stale t) \<and> index < length (pt_stream_full t) \<and> index < length (pt_dropped t)
     then Ret (t\<lparr>pt_stream_stale := update_at (\<lambda>n. n + stale) index (pt_stream_stale t),
                 pt_stream_full := update_at (\<lambda>n. n + full) index (pt_stream_full t),
                 pt_dropped := update_at (\<lambda>n. n + (stale + full)) index (pt_dropped t)\<rparr>)
     else Panic)"

record Dispatch =
  di_commands :: "command_queue list"
  di_telemetry :: PathTelemetry

record Dispatched =
  dd_selected :: nat
  dd_accepted :: nat
  dd_disconnected :: nat

subsection \<open>The atomic actions of a sender\<close>

definition queue_depth_at :: "Dispatch \<Rightarrow> nat \<Rightarrow> u64 option" where
  "queue_depth_at d i =
     (if i < length (pt_queue_depth (di_telemetry d)) then Some (pt_queue_depth (di_telemetry d) ! i) else None)"

definition reserve :: "nat \<Rightarrow> Dispatch \<Rightarrow> Dispatch \<times> u64 option" where
  "reserve index d =
     (d\<lparr>di_telemetry := (di_telemetry d)\<lparr>pt_queue_depth := update_at (\<lambda>n. n + 1) index (pt_queue_depth (di_telemetry d))\<rparr>\<rparr>,
      map_option (\<lambda>n. n + 1) (queue_depth_at d index))"

definition publish :: "nat \<Rightarrow> PathCommand \<Rightarrow> Dispatch \<Rightarrow> Dispatch \<times> send_result" where
  "publish index c d =
     (let (q, result) = queue_try_send c (di_commands d ! index)
      in (d\<lparr>di_commands := (di_commands d)[index := q]\<rparr>, result))"

definition settle :: "nat \<Rightarrow> u64 option \<Rightarrow> send_result \<Rightarrow> Dispatch \<Rightarrow> Dispatch" where
  "settle index reserved result d =
     (let t = di_telemetry d
      in case result of
           Accepted \<Rightarrow> (case reserved of
               None \<Rightarrow> d
             | Some current \<Rightarrow> d\<lparr>di_telemetry := t\<lparr>pt_queue_peak := update_at (max current) index (pt_queue_peak t)\<rparr>\<rparr>)
         | Queue_Full \<Rightarrow> d\<lparr>di_telemetry := t\<lparr>pt_queue_depth := update_at (\<lambda>n. n - 1) index (pt_queue_depth t),
               pt_dropped := update_at (\<lambda>n. n + 1) index (pt_dropped t),
               pt_queue_full_dropped := update_at (\<lambda>n. n + 1) index (pt_queue_full_dropped t)\<rparr>\<rparr>
         | Receiver_Gone \<Rightarrow> d\<lparr>di_telemetry := t\<lparr>pt_queue_depth := update_at (\<lambda>n. n - 1) index (pt_queue_depth t)\<rparr>\<rparr>)"

definition count_outcome :: "send_result \<Rightarrow> Dispatched \<Rightarrow> Dispatched" where
  "count_outcome result o' =
     o'\<lparr>dd_selected := dd_selected o' + 1,
        dd_accepted := dd_accepted o' + (if result = Accepted then 1 else 0),
        dd_disconnected := dd_disconnected o' + (if result = Receiver_Gone then 1 else 0)\<rparr>"

text \<open>One turn of the loop of \<^verbatim>\<open>Dispatch::send\<close>, and the loop.\<close>

definition send_to :: "bytes \<Rightarrow> u64 \<Rightarrow> instant \<Rightarrow> nat \<Rightarrow> Dispatch \<times> Dispatched \<Rightarrow> Dispatch \<times> Dispatched" where
  "send_to frame chosen queued_at index = (\<lambda>(d, outcome).
     if chosen AND bit_of_index (as_u32 index) = 0 then (d, outcome)
     else let (d, reserved) = reserve index d;
              (d, result) = publish index \<lparr>pc_frame = frame, pc_queued_at = queued_at\<rparr> d
          in (settle index reserved result d, count_outcome result outcome))"

definition dispatch_send :: "bytes \<Rightarrow> u64 \<Rightarrow> instant \<Rightarrow> Dispatch \<Rightarrow> Dispatch \<times> Dispatched" where
  "dispatch_send frame chosen queued_at d =
     fold (send_to frame chosen queued_at) [0..<length (di_commands d)]
       (d, \<lparr>dd_selected = 0, dd_accepted = 0, dd_disconnected = 0\<rparr>)"

subsection \<open>The atomic actions of a worker\<close>

definition receive :: "nat \<Rightarrow> Dispatch \<Rightarrow> (PathCommand \<times> Dispatch) option" where
  "receive index d =
     (if index < length (di_commands d)
      then map_option (\<lambda>(c, q). (c, d\<lparr>di_commands := (di_commands d)[index := q]\<rparr>)) (queue_try_recv (di_commands d ! index))
      else None)"

definition release_place :: "nat \<Rightarrow> Dispatch \<Rightarrow> Dispatch" where
  "release_place index d =
     d\<lparr>di_telemetry := (di_telemetry d)\<lparr>pt_queue_depth := update_at (\<lambda>n. n - 1) index (pt_queue_depth (di_telemetry d))\<rparr>\<rparr>"

definition count_stale :: "nat \<Rightarrow> Dispatch \<Rightarrow> Dispatch" where
  "count_stale index d =
     d\<lparr>di_telemetry := (di_telemetry d)\<lparr>pt_dropped := update_at (\<lambda>n. n + 1) index (pt_dropped (di_telemetry d)),
        pt_stale_dropped := update_at (\<lambda>n. n + 1) index (pt_stale_dropped (di_telemetry d))\<rparr>\<rparr>"

text \<open>
  \<^verbatim>\<open>drain_send_queue\<close>. The transport's \<open>send\<close> and the caller's \<open>record\<close> act on a state of their own;
  \<open>now n\<close> is the clock in the turn with \<open>n\<close> turns left.
\<close>

fun drain_turns ::
  "duration option \<Rightarrow> nat \<Rightarrow> (nat \<Rightarrow> instant) \<Rightarrow> (bytes \<Rightarrow> 'l \<Rightarrow> 'l \<times> nat \<times> string option) \<Rightarrow>
   (nat \<Rightarrow> string option \<Rightarrow> 'l \<Rightarrow> 'l) \<Rightarrow> nat \<Rightarrow> Dispatch \<times> 'l \<Rightarrow> Dispatch \<times> 'l" where
  "drain_turns max_age index now send_frame note_sent 0 s = s"
| "drain_turns max_age index now send_frame note_sent (Suc n) (d, l) =
     (case receive index d of
        None \<Rightarrow> (d, l)
      | Some (c, d) \<Rightarrow>
          (let d = release_place index d
           in if (case max_age of None \<Rightarrow> False | Some age \<Rightarrow> duration_since (now n) (pc_queued_at c) > age)
              then drain_turns max_age index now send_frame note_sent n (count_stale index d, l)
              else let (l, len, result) = send_frame (pc_frame c) l
                   in drain_turns max_age index now send_frame note_sent n (d, note_sent len result l)))"

definition drain_send_queue ::
  "duration option \<Rightarrow> nat \<Rightarrow> (nat \<Rightarrow> instant) \<Rightarrow> (bytes \<Rightarrow> 'l \<Rightarrow> 'l \<times> nat \<times> string option) \<Rightarrow>
   (nat \<Rightarrow> string option \<Rightarrow> 'l \<Rightarrow> 'l) \<Rightarrow> Dispatch \<times> 'l \<Rightarrow> Dispatch \<times> 'l" where
  "drain_send_queue max_age index now send_frame note_sent =
     drain_turns max_age index now send_frame note_sent PATH_SEND_BATCH"

subsection \<open>Senders and workers interleaved\<close>

text \<open>
  Where each sending thread stands inside \<^verbatim>\<open>Dispatch::send\<close>, and whether a path's worker holds a command
  whose place it has not yet released. A worker that ends drops its receiver; what was queued stays counted.
\<close>

datatype sender_pc =
    Ready
  | Reserved nat PathCommand "u64 option"
  | Offered nat "u64 option" send_result

record system =
  sy_dispatch :: Dispatch
  sy_senders :: "sender_pc list"
  sy_holding :: "bool list"

abbreviation queue_of :: "system \<Rightarrow> nat \<Rightarrow> command_queue" where
  "queue_of s i \<equiv> di_commands (sy_dispatch s) ! i"

abbreviation depth_of :: "system \<Rightarrow> nat \<Rightarrow> u64" where
  "depth_of s i \<equiv> pt_queue_depth (di_telemetry (sy_dispatch s)) ! i"

abbreviation peak_of :: "system \<Rightarrow> nat \<Rightarrow> u64" where
  "peak_of s i \<equiv> pt_queue_peak (di_telemetry (sy_dispatch s)) ! i"

inductive dispatch_step :: "system \<Rightarrow> system \<Rightarrow> bool" where
  begin_send: "k < length (sy_senders s) \<Longrightarrow> sy_senders s ! k = Ready \<Longrightarrow> i < length (di_commands (sy_dispatch s)) \<Longrightarrow>
     reserve i (sy_dispatch s) = (d, r) \<Longrightarrow>
     dispatch_step s (s\<lparr>sy_dispatch := d, sy_senders := (sy_senders s)[k := Reserved i c r]\<rparr>)"
| offer: "k < length (sy_senders s) \<Longrightarrow> sy_senders s ! k = Reserved i c r \<Longrightarrow>
     publish i c (sy_dispatch s) = (d, result) \<Longrightarrow>
     dispatch_step s (s\<lparr>sy_dispatch := d, sy_senders := (sy_senders s)[k := Offered i r result]\<rparr>)"
| finish_send: "k < length (sy_senders s) \<Longrightarrow> sy_senders s ! k = Offered i r result \<Longrightarrow>
     dispatch_step s (s\<lparr>sy_dispatch := settle i r result (sy_dispatch s), sy_senders := (sy_senders s)[k := Ready]\<rparr>)"
| take_command: "i < length (sy_holding s) \<Longrightarrow> \<not> sy_holding s ! i \<Longrightarrow> cq_open (queue_of s i) \<Longrightarrow>
     receive i (sy_dispatch s) = Some (c, d) \<Longrightarrow>
     dispatch_step s (s\<lparr>sy_dispatch := d, sy_holding := (sy_holding s)[i := True]\<rparr>)"
| free_place: "i < length (sy_holding s) \<Longrightarrow> sy_holding s ! i \<Longrightarrow>
     dispatch_step s (s\<lparr>sy_dispatch := release_place i (sy_dispatch s), sy_holding := (sy_holding s)[i := False]\<rparr>)"
| drop_stale: "dispatch_step s (s\<lparr>sy_dispatch := count_stale i (sy_dispatch s)\<rparr>)"
| worker_ends: "i < length (di_commands (sy_dispatch s)) \<Longrightarrow>
     dispatch_step s (s\<lparr>sy_dispatch := (sy_dispatch s)\<lparr>di_commands :=
       (di_commands (sy_dispatch s))[i := (queue_of s i)\<lparr>cq_open := False\<rparr>]\<rparr>\<rparr>)"

inductive_cases dispatch_stepE: "dispatch_step s t"

text \<open>A session of \<open>routes\<close> paths whose queues hold \<open>capacity\<close> commands, with \<open>senders\<close> sending threads.\<close>

definition dispatch_new :: "nat \<Rightarrow> nat \<Rightarrow> Dispatch" where
  "dispatch_new capacity routes =
     \<lparr>di_commands = replicate routes \<lparr>cq_capacity = capacity, cq_items = [], cq_open = True\<rparr>,
      di_telemetry = telemetry_new routes\<rparr>"

definition system_new :: "nat \<Rightarrow> nat \<Rightarrow> nat \<Rightarrow> system" where
  "system_new capacity routes senders =
     \<lparr>sy_dispatch = dispatch_new capacity routes, sy_senders = replicate senders Ready,
      sy_holding = replicate routes False\<rparr>"

fun owes :: "nat \<Rightarrow> sender_pc \<Rightarrow> bool" where
  "owes i Ready = False"
| "owes i (Reserved j c r) = (i = j)"
| "owes i (Offered j r result) = (i = j \<and> result \<noteq> Accepted)"

text \<open>What the published depth of a path stands for: queued, reserved, and taken but not yet released.\<close>

definition occupancy :: "system \<Rightarrow> nat \<Rightarrow> nat" where
  "occupancy s i = length (cq_items (queue_of s i)) + length (filter (owes i) (sy_senders s)) + of_bool (sy_holding s ! i)"

fun pc_ok :: "nat \<Rightarrow> nat \<Rightarrow> sender_pc \<Rightarrow> bool" where
  "pc_ok bound routes Ready = True"
| "pc_ok bound routes (Reserved i c r) = (i < routes \<and> (\<exists>v. r = Some v \<and> unat v \<le> bound))"
| "pc_ok bound routes (Offered i r result) = (i < routes \<and> (\<exists>v. r = Some v \<and> unat v \<le> bound))"

definition shape_ok :: "nat \<Rightarrow> nat \<Rightarrow> system \<Rightarrow> bool" where
  "shape_ok routes senders s \<longleftrightarrow>
     length (di_commands (sy_dispatch s)) = routes \<and> length (sy_holding s) = routes
     \<and> length (pt_queue_depth (di_telemetry (sy_dispatch s))) = routes
     \<and> length (pt_queue_peak (di_telemetry (sy_dispatch s))) = routes \<and> length (sy_senders s) = senders"

definition path_ok :: "nat \<Rightarrow> nat \<Rightarrow> system \<Rightarrow> nat \<Rightarrow> bool" where
  "path_ok capacity senders s i \<longleftrightarrow>
     length (cq_items (queue_of s i)) \<le> capacity \<and> cq_capacity (queue_of s i) = capacity
     \<and> depth_of s i = of_nat (occupancy s i) \<and> unat (peak_of s i) \<le> capacity + senders + 1"

definition system_ok :: "nat \<Rightarrow> nat \<Rightarrow> nat \<Rightarrow> system \<Rightarrow> bool" where
  "system_ok capacity routes senders s \<longleftrightarrow>
     shape_ok routes senders s \<and> (\<forall>i < routes. path_ok capacity senders s i)
     \<and> list_all (pc_ok (capacity + senders + 1) routes) (sy_senders s)"

lemma count_update:
  "k < length xs \<Longrightarrow> length (filter P (xs[k := v])) + of_bool (P (xs ! k)) = length (filter P xs) + of_bool (P v)"
proof (induction xs arbitrary: k)
  case (Cons x xs)
  show ?case
  proof (cases k)
    case (Suc k')
    then show ?thesis using Cons.IH [of k'] Cons.prems by (cases "P x") simp_all
  qed (cases "P x"; cases "P v"; simp)
qed simp

lemma count_becomes:
  assumes "k < length xs" and "xs ! k = old"
  shows "\<not> P old \<Longrightarrow> P v \<Longrightarrow> length (filter P (xs[k := v])) = Suc (length (filter P xs))"
    and "P old \<Longrightarrow> \<not> P v \<Longrightarrow> Suc (length (filter P (xs[k := v]))) = length (filter P xs)"
    and "P old = P v \<Longrightarrow> length (filter P (xs[k := v])) = length (filter P xs)"
  using count_update [of k xs P v] assms by auto

lemma nth_update_at: "i < length xs \<Longrightarrow> update_at f j xs ! i = (if i = j then f (xs ! i) else xs ! i)"
  by (auto simp: update_at_def)

lemma length_update_at [simp]: "length (update_at f j xs) = length xs"
  by (simp add: update_at_def)

lemma list_all_update: "list_all P xs \<Longrightarrow> P v \<Longrightarrow> list_all P (xs[k := v])"
  using set_update_subset_insert [of xs k v] by (auto simp: list_all_iff)

lemma occupancy_bound:
  assumes "path_ok capacity senders s i" and "length (sy_senders s) = senders"
  shows "occupancy s i \<le> capacity + senders + 1"
  using assms length_filter_le [of "owes i" "sy_senders s"]
  by (simp add: path_ok_def occupancy_def of_bool_def)

lemma system_new_ok: "system_ok capacity routes senders (system_new capacity routes senders)"
  by (simp add: system_ok_def shape_ok_def path_ok_def occupancy_def system_new_def dispatch_new_def
      telemetry_new_def Let_def list_all_iff)

lemma unat_of_nat_le: "unat (of_nat n :: u64) \<le> n"
  by (simp add: unat_of_nat)

lemma begin_send_keeps:
  assumes ok: "system_ok capacity routes senders s" and k: "k < length (sy_senders s)" "sy_senders s ! k = Ready"
    and i: "i < length (di_commands (sy_dispatch s))" and r: "reserve i (sy_dispatch s) = (d, r)"
  shows "system_ok capacity routes senders (s\<lparr>sy_dispatch := d, sy_senders := (sy_senders s)[k := Reserved i c r]\<rparr>)"
    (is "system_ok _ _ _ ?t")
proof -
  from ok have shape: "shape_ok routes senders s" and paths: "\<And>j. j < routes \<Longrightarrow> path_ok capacity senders s j"
    and pcs: "list_all (pc_ok (capacity + senders + 1) routes) (sy_senders s)"
    by (simp_all add: system_ok_def)
  from shape i r have shape': "shape_ok routes senders ?t" and small: "i < routes"
    and d: "d = fst (reserve i (sy_dispatch s))" and r': "r = Some (depth_of s i + 1)"
    by (auto simp: shape_ok_def reserve_def queue_depth_at_def)
  have "path_ok capacity senders ?t j" if j: "j < routes" for j
  proof (cases "j = i")
    case True
    have "occupancy ?t i = Suc (occupancy s i)"
      using count_becomes(1) [OF k, of "owes i" "Reserved i c r"] by (simp add: occupancy_def d reserve_def)
    then show ?thesis using True paths [OF small] shape small
      by (simp add: path_ok_def d reserve_def nth_update_at shape_ok_def)
  next
    case False
    have "occupancy ?t j = occupancy s j"
      using False count_becomes(3) [OF k, of "owes j" "Reserved i c r"] by (simp add: occupancy_def d reserve_def)
    then show ?thesis using False paths [OF j] shape j
      by (simp add: path_ok_def d reserve_def nth_update_at shape_ok_def)
  qed
  note paths' = this
  have "depth_of ?t i = depth_of s i + 1" using shape small by (simp add: d reserve_def nth_update_at shape_ok_def)
  then have "unat (depth_of s i + 1) \<le> capacity + senders + 1"
    using paths' [OF small] occupancy_bound [OF paths' [OF small]] shape' unat_of_nat_le [of "occupancy ?t i"]
    by (simp add: path_ok_def shape_ok_def)
  then have "list_all (pc_ok (capacity + senders + 1) routes) (sy_senders ?t)"
    using pcs small by (simp add: list_all_update r')
  with shape' paths' show ?thesis by (simp add: system_ok_def)
qed

lemma publish_effects:
  assumes "publish i c d = (d', result)" and "i < length (di_commands d)"
  shows "di_telemetry d' = di_telemetry d" "length (di_commands d') = length (di_commands d)"
    "j \<noteq> i \<Longrightarrow> di_commands d' ! j = di_commands d ! j"
    "length (cq_items (di_commands d' ! i)) = length (cq_items (di_commands d ! i)) + of_bool (result = Accepted)"
    "cq_capacity (di_commands d' ! i) = cq_capacity (di_commands d ! i)"
    "result = Accepted \<Longrightarrow> length (cq_items (di_commands d ! i)) < cq_capacity (di_commands d ! i)"
  using assms by (auto simp: publish_def queue_try_send_def split: if_splits)

lemma offer_keeps:
  assumes ok: "system_ok capacity routes senders s" and k: "k < length (sy_senders s)" "sy_senders s ! k = Reserved i c r"
    and p: "publish i c (sy_dispatch s) = (d, result)"
  shows "system_ok capacity routes senders (s\<lparr>sy_dispatch := d, sy_senders := (sy_senders s)[k := Offered i r result]\<rparr>)"
    (is "system_ok _ _ _ ?t")
proof -
  from ok have shape: "shape_ok routes senders s" and paths: "\<And>j. j < routes \<Longrightarrow> path_ok capacity senders s j"
    and pcs: "list_all (pc_ok (capacity + senders + 1) routes) (sy_senders s)"
    by (simp_all add: system_ok_def)
  from pcs k have pc: "pc_ok (capacity + senders + 1) routes (Reserved i c r)" by (metis list_all_length)
  then have small: "i < routes" by simp
  with shape have i: "i < length (di_commands (sy_dispatch s))" by (simp add: shape_ok_def)
  note eff = publish_effects [OF p i]
  have shape': "shape_ok routes senders ?t" using shape eff(1,2) by (simp add: shape_ok_def)
  have "path_ok capacity senders ?t j" if j: "j < routes" for j
  proof (cases "j = i")
    case True
    have "occupancy ?t i = occupancy s i"
      using count_becomes(2,3) [OF k, of "owes i" "Offered i r result"] eff(4)
      by (cases "result = Accepted") (simp_all add: occupancy_def)
    then show ?thesis using True paths [OF small] eff by (auto simp: path_ok_def of_bool_def)
  next
    case False
    have "occupancy ?t j = occupancy s j"
      using False count_becomes(3) [OF k, of "owes j" "Offered i r result"] eff(3) by (simp add: occupancy_def)
    then show ?thesis using False paths [OF j] eff by (simp add: path_ok_def)
  qed
  moreover have "list_all (pc_ok (capacity + senders + 1) routes) (sy_senders ?t)"
    using pcs pc by (simp add: list_all_update)
  ultimately show ?thesis using shape' by (simp add: system_ok_def)
qed

lemma settle_effects:
  assumes "i < length (pt_queue_depth (di_telemetry d))" and "i < length (pt_queue_peak (di_telemetry d))"
  shows "di_commands (settle i r result d) = di_commands d"
    "length (pt_queue_depth (di_telemetry (settle i r result d))) = length (pt_queue_depth (di_telemetry d))"
    "length (pt_queue_peak (di_telemetry (settle i r result d))) = length (pt_queue_peak (di_telemetry d))"
    "pt_queue_depth (di_telemetry (settle i r result d)) =
       (if result = Accepted then pt_queue_depth (di_telemetry d)
        else (pt_queue_depth (di_telemetry d))[i := pt_queue_depth (di_telemetry d) ! i - 1])"
    "pt_queue_peak (di_telemetry (settle i (Some v) result d)) =
       (if result = Accepted then (pt_queue_peak (di_telemetry d))[i := max v (pt_queue_peak (di_telemetry d) ! i)]
        else pt_queue_peak (di_telemetry d))"
  using assms by (cases result; simp add: settle_def Let_def update_at_def split: option.split)+

lemma finish_send_keeps:
  assumes ok: "system_ok capacity routes senders s" and k: "k < length (sy_senders s)" "sy_senders s ! k = Offered i r result"
  shows "system_ok capacity routes senders
    (s\<lparr>sy_dispatch := settle i r result (sy_dispatch s), sy_senders := (sy_senders s)[k := Ready]\<rparr>)" (is "system_ok _ _ _ ?t")
proof -
  from ok have shape: "shape_ok routes senders s" and paths: "\<And>j. j < routes \<Longrightarrow> path_ok capacity senders s j"
    and pcs: "list_all (pc_ok (capacity + senders + 1) routes) (sy_senders s)"
    by (simp_all add: system_ok_def)
  from pcs k have "pc_ok (capacity + senders + 1) routes (Offered i r result)" by (metis list_all_length)
  then obtain v where small: "i < routes" and r: "r = Some v" and v: "unat v \<le> capacity + senders + 1" by auto
  have "i < length (pt_queue_depth (di_telemetry (sy_dispatch s)))" "i < length (pt_queue_peak (di_telemetry (sy_dispatch s)))"
    using shape small by (simp_all add: shape_ok_def)
  note eff = settle_effects(1-4) [OF this, where r = r and result = result]
    settle_effects(5) [OF this, where v = v and result = result]
  have shape': "shape_ok routes senders ?t" using shape eff(1-3) by (simp add: shape_ok_def)
  have "path_ok capacity senders ?t j" if j: "j < routes" for j
  proof -
    have peak: "unat (peak_of ?t j) \<le> capacity + senders + 1"
      using paths [OF j] v j shape eff(5) by (cases "j = i") (simp_all add: path_ok_def r shape_ok_def max_def)
    have "occupancy s j = Suc (occupancy ?t j)" if "j = i" "result \<noteq> Accepted"
      using that count_becomes(2) [OF k, of "owes i" Ready] eff(1) by (simp add: occupancy_def)
    moreover have "occupancy ?t j = occupancy s j" if "j \<noteq> i \<or> result = Accepted"
      using that count_becomes(3) [OF k, of "owes j" Ready] eff(1) by (auto simp: occupancy_def)
    ultimately have "depth_of ?t j = of_nat (occupancy ?t j)"
      using paths [OF j] shape j eff(4) by (cases "j = i \<and> result \<noteq> Accepted") (auto simp: path_ok_def shape_ok_def nth_list_update)
    with peak show ?thesis using paths [OF j] eff(1) by (simp add: path_ok_def)
  qed
  moreover have "list_all (pc_ok (capacity + senders + 1) routes) (sy_senders ?t)"
    using pcs by (simp add: list_all_update)
  ultimately show ?thesis using shape' by (simp add: system_ok_def)
qed

lemma take_command_keeps:
  assumes ok: "system_ok capacity routes senders s" and i: "i < length (sy_holding s)" "\<not> sy_holding s ! i"
    and d: "receive i (sy_dispatch s) = Some (c, d)"
  shows "system_ok capacity routes senders (s\<lparr>sy_dispatch := d, sy_holding := (sy_holding s)[i := True]\<rparr>)" (is "system_ok _ _ _ ?t")
proof -
  from ok have shape: "shape_ok routes senders s" and paths: "\<And>j. j < routes \<Longrightarrow> path_ok capacity senders s j"
    and pcs: "list_all (pc_ok (capacity + senders + 1) routes) (sy_senders s)"
    by (simp_all add: system_ok_def)
  from d i shape obtain cs where cs: "cq_items (queue_of s i) = c # cs"
    and d': "d = (sy_dispatch s)\<lparr>di_commands := (di_commands (sy_dispatch s))[i := (queue_of s i)\<lparr>cq_items := cs\<rparr>]\<rparr>"
    by (auto simp: receive_def queue_try_recv_def shape_ok_def split: list.splits if_splits)
  have shape': "shape_ok routes senders ?t" using shape by (simp add: shape_ok_def d')
  have "path_ok capacity senders ?t j" if j: "j < routes" for j
  proof -
    have "occupancy ?t j = occupancy s j"
      using i cs shape j by (cases "j = i") (simp_all add: occupancy_def d' shape_ok_def)
    then show ?thesis using paths [OF j] cs shape j by (cases "j = i") (simp_all add: path_ok_def d' shape_ok_def)
  qed
  with shape' pcs show ?thesis by (simp add: system_ok_def)
qed

lemma free_place_keeps:
  assumes ok: "system_ok capacity routes senders s" and i: "i < length (sy_holding s)" "sy_holding s ! i"
  shows "system_ok capacity routes senders
    (s\<lparr>sy_dispatch := release_place i (sy_dispatch s), sy_holding := (sy_holding s)[i := False]\<rparr>)" (is "system_ok _ _ _ ?t")
proof -
  from ok have shape: "shape_ok routes senders s" and paths: "\<And>j. j < routes \<Longrightarrow> path_ok capacity senders s j"
    and pcs: "list_all (pc_ok (capacity + senders + 1) routes) (sy_senders s)"
    by (simp_all add: system_ok_def)
  have shape': "shape_ok routes senders ?t" using shape by (simp add: shape_ok_def release_place_def)
  have "path_ok capacity senders ?t j" if j: "j < routes" for j
  proof (cases "j = i")
    case True
    have "occupancy s i = Suc (occupancy ?t i)" using i by (simp add: occupancy_def release_place_def)
    then show ?thesis using True paths [OF j] shape j by (simp add: path_ok_def release_place_def nth_update_at shape_ok_def)
  next
    case False
    then have "occupancy ?t j = occupancy s j" by (simp add: occupancy_def release_place_def)
    then show ?thesis using False paths [OF j] shape j by (simp add: path_ok_def release_place_def nth_update_at shape_ok_def)
  qed
  with shape' pcs show ?thesis by (simp add: system_ok_def)
qed

lemma stale_keeps:
  "system_ok capacity routes senders s \<Longrightarrow> system_ok capacity routes senders (s\<lparr>sy_dispatch := count_stale i (sy_dispatch s)\<rparr>)"
  by (simp add: system_ok_def shape_ok_def path_ok_def occupancy_def count_stale_def)

lemma worker_ends_keeps:
  assumes ok: "system_ok capacity routes senders s" and i: "i < length (di_commands (sy_dispatch s))"
  shows "system_ok capacity routes senders (s\<lparr>sy_dispatch := (sy_dispatch s)\<lparr>di_commands :=
    (di_commands (sy_dispatch s))[i := (queue_of s i)\<lparr>cq_open := False\<rparr>]\<rparr>\<rparr>)" (is "system_ok _ _ _ ?t")
proof -
  have items: "cq_items (queue_of ?t j) = cq_items (queue_of s j)" "cq_capacity (queue_of ?t j) = cq_capacity (queue_of s j)" for j
    using i by (cases "j = i"; simp)+
  have "occupancy ?t j = occupancy s j" for j
    unfolding occupancy_def items by simp
  then have "path_ok capacity senders s j \<Longrightarrow> path_ok capacity senders ?t j" for j
    unfolding path_ok_def items by simp
  then show ?thesis using ok by (simp add: system_ok_def shape_ok_def)
qed

lemma dispatch_step_keeps:
  assumes "dispatch_step s t" and "system_ok capacity routes senders s"
  shows "system_ok capacity routes senders t"
  using assms
proof (cases rule: dispatch_step.cases)
  case (begin_send k i d r c)
  then show ?thesis using begin_send_keeps assms(2) by simp
next
  case (offer k i c r d result)
  then show ?thesis using offer_keeps assms(2) by simp
next
  case (finish_send k i r result)
  then show ?thesis using finish_send_keeps assms(2) by simp
next
  case (take_command i c d)
  then show ?thesis using take_command_keeps assms(2) by simp
next
  case (free_place i)
  then show ?thesis using free_place_keeps assms(2) by simp
next
  case (drop_stale i)
  then show ?thesis using stale_keeps assms(2) by simp
next
  case (worker_ends i)
  then show ?thesis using worker_ends_keeps assms(2) by simp
qed

lemma dispatch_run_keeps:
  "dispatch_step\<^sup>*\<^sup>* s t \<Longrightarrow> system_ok capacity routes senders s \<Longrightarrow> system_ok capacity routes senders t"
  by (induction rule: rtranclp_induct) (auto intro: dispatch_step_keeps)

text \<open>Sending to one path, undisturbed, is three steps of the relation, so the invariant covers \<^verbatim>\<open>Dispatch::send\<close> itself.\<close>

lemma send_to_steps:
  assumes "k < length (sy_senders s)" and "sy_senders s ! k = Ready" and "i < length (di_commands (sy_dispatch s))"
  shows "dispatch_step\<^sup>*\<^sup>* s (s\<lparr>sy_dispatch := fst (send_to frame chosen t i (sy_dispatch s, outcome))\<rparr>)"
proof (cases "chosen AND bit_of_index (as_u32 i) = 0")
  case True
  then show ?thesis by (simp add: send_to_def)
next
  case False
  obtain d r where r: "reserve i (sy_dispatch s) = (d, r)" by fastforce
  obtain d' result where p: "publish i \<lparr>pc_frame = frame, pc_queued_at = t\<rparr> d = (d', result)" by fastforce
  let ?a = "s\<lparr>sy_dispatch := d, sy_senders := (sy_senders s)[k := Reserved i \<lparr>pc_frame = frame, pc_queued_at = t\<rparr> r]\<rparr>"
  let ?b = "?a\<lparr>sy_dispatch := d', sy_senders := (sy_senders ?a)[k := Offered i r result]\<rparr>"
  let ?c = "?b\<lparr>sy_dispatch := settle i r result (sy_dispatch ?b), sy_senders := (sy_senders ?b)[k := Ready]\<rparr>"
  have "dispatch_step s ?a" using assms r by (rule dispatch_step.begin_send)
  moreover have "dispatch_step ?a ?b" by (rule dispatch_step.offer) (use assms p in simp_all)
  moreover have "dispatch_step ?b ?c" by (rule dispatch_step.finish_send) (use assms in simp_all)
  ultimately have "dispatch_step\<^sup>*\<^sup>* s ?c" by (meson r_into_rtranclp rtranclp.rtrancl_into_rtrancl)
  moreover have "?c = s\<lparr>sy_dispatch := fst (send_to frame chosen t i (sy_dispatch s, outcome))\<rparr>"
    using assms False r p by (simp add: send_to_def list_update_same_conv)
  ultimately show ?thesis by simp
qed

text \<open>
  C14. However the sending threads and the path workers interleave inside \<^verbatim>\<open>Dispatch::send\<close> and
  \<^verbatim>\<open>drain_send_queue\<close>, and whenever a worker ends, the published depth of a path is exactly the number of
  commands queued, places reserved by senders and commands taken whose place is not yet released: it
  never wraps below zero. The queue never holds more than its capacity, depth and peak never exceed
  capacity plus one per sender plus one, and when no thread is in the middle of an operation the depth
  is the length of the queue.
\<close>

theorem queue_depth_never_wraps:
  assumes "dispatch_step\<^sup>*\<^sup>* (system_new capacity routes senders) s"
    and "capacity + senders + 1 < 2 ^ 64" and "i < routes"
  shows "unat (depth_of s i) = occupancy s i \<and> occupancy s i \<le> capacity + senders + 1
    \<and> unat (peak_of s i) \<le> capacity + senders + 1 \<and> length (cq_items (queue_of s i)) \<le> capacity
    \<and> ((\<forall>pc \<in> set (sy_senders s). pc = Ready) \<and> \<not> sy_holding s ! i
         \<longrightarrow> unat (depth_of s i) = length (cq_items (queue_of s i)))"
proof -
  have "system_ok capacity routes senders s" using dispatch_run_keeps assms(1) system_new_ok by blast
  then have ok: "path_ok capacity senders s i" "shape_ok routes senders s" using assms(3) by (simp_all add: system_ok_def)
  then have bound: "occupancy s i \<le> capacity + senders + 1" using occupancy_bound by (simp add: shape_ok_def)
  then have "unat (depth_of s i) = occupancy s i"
    using ok(1) assms(2) by (simp add: path_ok_def unat_of_nat)
  moreover have "occupancy s i = length (cq_items (queue_of s i))"
    if "\<forall>pc \<in> set (sy_senders s). pc = Ready" "\<not> sy_holding s ! i"
    using that by (auto simp: occupancy_def filter_empty_conv)
  ultimately show ?thesis using bound ok(1) by (auto simp: path_ok_def)
qed

definition sample_after_send :: system where
  "sample_after_send = (let s = system_new 2 1 1
     in s\<lparr>sy_dispatch := fst (send_to [7] 1 0 0 (sy_dispatch s, \<lparr>dd_selected = 0, dd_accepted = 0, dd_disconnected = 0\<rparr>))\<rparr>)"

theorem queue_depth_never_wraps_witness:
  "dispatch_step\<^sup>*\<^sup>* (system_new 2 1 1) sample_after_send \<and> unat (depth_of sample_after_send 0) = 1
   \<and> occupancy sample_after_send 0 = 1 \<and> unat (peak_of sample_after_send 0) \<le> 4"
proof -
  have run: "dispatch_step\<^sup>*\<^sup>* (system_new 2 1 1) sample_after_send"
    unfolding sample_after_send_def Let_def
    by (rule send_to_steps [where k = 0]) (simp_all add: system_new_def dispatch_new_def)
  have "occupancy sample_after_send 0 = 1"
    by (simp add: sample_after_send_def Let_def system_new_def dispatch_new_def telemetry_new_def send_to_def reserve_def
        publish_def settle_def queue_try_send_def queue_depth_at_def update_at_def bit_of_index_def occupancy_def)
  with run queue_depth_never_wraps [OF run, of 0] show ?thesis by simp
qed

end
