(* ===== verification/Scheduler.thy ===== *)
theory Scheduler
  imports Contracts Complex_Main "HOL-Library.Multiset"
begin

section \<open>Choosing the paths that carry traffic (\<^verbatim>\<open>engine/src/scheduler.rs\<close>)\<close>

text \<open>
  The smoothed metrics of a path, and the decision which paths carry a packet. Milliseconds and
  ratios are rational numbers here, so arithmetic is exact where the source's \<^verbatim>\<open>f64\<close> rounds; an
  infinite score is \<open>None\<close>. \<^verbatim>\<open>sort_by\<close> is stable, as \<open>sort_key\<close> is, and \<^verbatim>\<open>min_by\<close> returns the first
  minimum, as \<open>min_by_key\<close> does.
\<close>

definition SMOOTHING :: rat where "SMOOTHING = 2 / 10"
definition LOSS_SMOOTHING :: rat where "LOSS_SMOOTHING = 5 / 100"
definition LOSSES_BEFORE_INACTIVE :: nat where "LOSSES_BEFORE_INACTIVE = 3"
definition ADAPTIVE_DUPLICATE_DELAY_BUDGET_MS :: rat where "ADAPTIVE_DUPLICATE_DELAY_BUDGET_MS = 100"
definition INCUMBENCY_MARGIN :: rat where "INCUMBENCY_MARGIN = 8"
definition INCUMBENCY_JITTER_MARGIN :: rat where "INCUMBENCY_JITTER_MARGIN = 1"
definition PROBES_TO_SETTLE :: nat where "PROBES_TO_SETTLE = 10"
definition SPIKE_RISE_MIN_MS :: rat where "SPIKE_RISE_MIN_MS = 25"
definition SPIKE_RISE_RATIO :: rat where "SPIKE_RISE_RATIO = 5 / 10"
definition SETTLED_ROUTES_WANTED :: nat where "SETTLED_ROUTES_WANTED = 2"

record PathMetrics =
  pm_id :: string
  pm_endpoint_ipv4 :: "ipv4 option"
  pm_active :: bool
  pm_samples :: nat
  pm_latency_ms :: rat
  pm_jitter_ms :: rat
  pm_loss_ratio :: rat
  pm_last_latency_ms :: "rat option"
  pm_consecutive_losses :: nat
  pm_unsettled_probes :: nat

definition incumbency_margin :: "PathMetrics \<Rightarrow> rat" where
  "incumbency_margin path = INCUMBENCY_MARGIN + pm_jitter_ms path * INCUMBENCY_JITTER_MARGIN"

definition metrics_new :: "string \<Rightarrow> PathMetrics" where
  "metrics_new i = \<lparr>pm_id = i, pm_endpoint_ipv4 = None, pm_active = True, pm_samples = 0, pm_latency_ms = 0,
     pm_jitter_ms = 0, pm_loss_ratio = 0, pm_last_latency_ms = None, pm_consecutive_losses = 0, pm_unsettled_probes = 0\<rparr>"

definition ewma_with :: "rat \<Rightarrow> rat \<Rightarrow> rat \<Rightarrow> rat" where
  "ewma_with previous sample smoothing = previous + smoothing * (sample - previous)"

definition ewma :: "rat \<Rightarrow> rat \<Rightarrow> rat" where
  "ewma previous sample = ewma_with previous sample SMOOTHING"

definition unit_clamp :: "rat \<Rightarrow> rat" where
  "unit_clamp x = max 0 (min 1 x)"

text \<open>The probe's effect on the smoothed figures: the first one sets the latency, later ones move it.\<close>

definition spikes :: "PathMetrics \<Rightarrow> rat \<Rightarrow> bool" where
  "spikes m latency \<longleftrightarrow> latency - pm_latency_ms m \<ge> max SPIKE_RISE_MIN_MS (pm_latency_ms m * SPIKE_RISE_RATIO)"

definition record_probe :: "rat \<Rightarrow> PathMetrics \<Rightarrow> PathMetrics" where
  "record_probe latency m0 =
     (let latency = max latency 0;
          m = (if pm_last_latency_ms m0 = None then m0\<lparr>pm_latency_ms := latency\<rparr>
               else m0\<lparr>pm_unsettled_probes :=
                        (if spikes m0 latency then PROBES_TO_SETTLE else pm_unsettled_probes m0 - 1),
                      pm_jitter_ms := ewma (pm_jitter_ms m0) \<bar>latency - pm_latency_ms m0\<bar>,
                      pm_latency_ms := ewma (pm_latency_ms m0) latency\<rparr>)
      in m\<lparr>pm_loss_ratio := unit_clamp (ewma_with (pm_loss_ratio m) 0 LOSS_SMOOTHING),
           pm_samples := pm_samples m + 1, pm_active := True, pm_last_latency_ms := Some latency,
           pm_consecutive_losses := 0\<rparr>)"

definition record_loss :: "PathMetrics \<Rightarrow> PathMetrics" where
  "record_loss m =
     (let losses = min (2 ^ 32 - 1) (pm_consecutive_losses m + 1)
      in m\<lparr>pm_loss_ratio := unit_clamp (ewma_with (pm_loss_ratio m) 1 LOSS_SMOOTHING),
           pm_samples := pm_samples m + 1, pm_consecutive_losses := losses, pm_unsettled_probes := PROBES_TO_SETTLE,
           pm_active := (if losses \<ge> LOSSES_BEFORE_INACTIVE then False else pm_active m)\<rparr>)"

definition is_settled :: "PathMetrics \<Rightarrow> bool" where
  "is_settled m \<longleftrightarrow> pm_unsettled_probes m = 0"

definition finite_score :: "PathMetrics \<Rightarrow> rat" where
  "finite_score m = pm_latency_ms m + pm_jitter_ms m * 2 + pm_loss_ratio m * 200"

definition score :: "PathMetrics \<Rightarrow> rat option" where
  "score m = (if \<not> pm_active m \<or> pm_last_latency_ms m = None then None else Some (finite_score m))"

definition shares_endpoint :: "PathMetrics \<Rightarrow> PathMetrics \<Rightarrow> bool" where
  "shares_endpoint a b \<longleftrightarrow> pm_endpoint_ipv4 a \<noteq> None \<and> pm_endpoint_ipv4 a = pm_endpoint_ipv4 b"

definition settled_path_count :: "PathMetrics list \<Rightarrow> nat" where
  "settled_path_count paths =
     length (filter (\<lambda>i. is_settled (paths ! i)
         \<and> \<not> list_ex (\<lambda>other. is_settled other \<and> shares_endpoint (paths ! i) other) (take i paths)) [0..<length paths])"

datatype Strategy = FastestPath | DuplicateStrategy | Adaptive | AllPaths

datatype Decision = DropPacket | Single string | Duplicate "string list"

subsection \<open>The decision\<close>

definition holding :: "string list \<Rightarrow> PathMetrics \<Rightarrow> bool" where
  "holding incumbent path \<longleftrightarrow> pm_id path \<in> set incumbent"

definition ranked :: "string list \<Rightarrow> PathMetrics \<Rightarrow> rat" where
  "ranked incumbent path =
     (if holding incumbent path then finite_score path - incumbency_margin path else finite_score path)"

definition healthy_paths :: "string list \<Rightarrow> PathMetrics list \<Rightarrow> PathMetrics list" where
  "healthy_paths incumbent paths =
     sort_key (ranked incumbent) (filter (\<lambda>p. pm_active p \<and> pm_last_latency_ms p \<noteq> None) paths)"

definition outage_cost :: "string list \<Rightarrow> PathMetrics \<Rightarrow> rat" where
  "outage_cost incumbent path =
     (let cost = pm_latency_ms path + pm_jitter_ms path * 2
      in if holding incumbent path then cost - incumbency_margin path else cost)"

definition last_resort :: "string list \<Rightarrow> PathMetrics list \<Rightarrow> PathMetrics option" where
  "last_resort incumbent paths =
     min_by_key (outage_cost incumbent) (filter (\<lambda>p. pm_last_latency_ms p \<noteq> None) paths)"

definition degraded :: "PathMetrics \<Rightarrow> bool" where
  "degraded path \<longleftrightarrow> pm_loss_ratio path \<ge> 5 / 10 \<or> pm_jitter_ms path \<ge> 50"

definition delivery_delay :: "PathMetrics \<Rightarrow> rat" where
  "delivery_delay path =
     max (pm_latency_ms path + pm_jitter_ms path * 2) (case pm_last_latency_ms path of None \<Rightarrow> 0 | Some l \<Rightarrow> l)"

definition within_budget :: "PathMetrics list \<Rightarrow> PathMetrics \<Rightarrow> bool" where
  "within_budget healthy path \<longleftrightarrow>
     delivery_delay path \<le> min_list (map delivery_delay healthy) + ADAPTIVE_DUPLICATE_DELAY_BUDGET_MS"

fun index_of :: "('a \<Rightarrow> bool) \<Rightarrow> 'a list \<Rightarrow> nat option" where
  "index_of P [] = None"
| "index_of P (x # xs) = (if P x then Some 0 else map_option Suc (index_of P xs))"

text \<open>Moving the backup on another server to the second place: \<^verbatim>\<open>remove(index)\<close>, then \<^verbatim>\<open>insert(1, ...)\<close>.\<close>

definition prefer_other_server :: "PathMetrics list \<Rightarrow> PathMetrics list" where
  "prefer_other_server healthy =
     (let best = hd healthy
      in if shares_endpoint best (healthy ! 1)
         then case index_of (\<lambda>p. pm_id p \<noteq> pm_id best \<and> \<not> shares_endpoint best p \<and> within_budget healthy p \<and> \<not> degraded p) healthy of
                None \<Rightarrow> healthy
              | Some i \<Rightarrow>
                  (let others = take i healthy @ drop (Suc i) healthy in take 1 others @ [healthy ! i] @ drop 1 others)
         else healthy)"

definition unsettled_carrier :: "string list \<Rightarrow> PathMetrics \<Rightarrow> bool" where
  "unsettled_carrier incumbent path \<longleftrightarrow> holding incumbent path \<and> \<not> is_settled path"

text \<open>The loop that fills the carrying set.\<close>

fun choose_loop :: "bool \<Rightarrow> (PathMetrics \<Rightarrow> bool) \<Rightarrow> PathMetrics list \<Rightarrow> PathMetrics list \<Rightarrow> PathMetrics list" where
  "choose_loop indep in_budget chosen [] = chosen"
| "choose_loop indep in_budget chosen (path # rest) =
     (if length chosen \<ge> 2 \<and> (\<not> indep \<or> settled_path_count chosen \<ge> SETTLED_ROUTES_WANTED) then chosen
      else if length chosen \<ge> 2 \<and> (\<not> in_budget path \<or> \<not> is_settled path) then choose_loop indep in_budget chosen rest
      else choose_loop indep in_budget (chosen @ [path]) rest)"

fun keep_carriers :: "string list \<Rightarrow> PathMetrics list \<Rightarrow> PathMetrics list \<Rightarrow> PathMetrics list" where
  "keep_carriers incumbent chosen [] = chosen"
| "keep_carriers incumbent chosen (path # rest) =
     (if unsettled_carrier incumbent path \<and> \<not> list_ex (\<lambda>c. pm_id c = pm_id path) chosen
      then keep_carriers incumbent (chosen @ [path]) rest
      else keep_carriers incumbent chosen rest)"

definition duplicate_set :: "string list \<Rightarrow> PathMetrics list \<Rightarrow> PathMetrics list \<Rightarrow> PathMetrics list" where
  "duplicate_set incumbent measured healthy =
     (let indep = (settled_path_count healthy \<ge> SETTLED_ROUTES_WANTED);
          chosen = choose_loop indep (within_budget measured) [] healthy
      in keep_carriers incumbent chosen (if indep then healthy else []))"

definition should_duplicate :: "string list \<Rightarrow> Strategy \<Rightarrow> PathMetrics list \<Rightarrow> PathMetrics list \<Rightarrow> bool" where
  "should_duplicate incumbent strategy measured healthy \<longleftrightarrow>
     strategy = DuplicateStrategy
     \<or> \<not> list_all degraded (take 2 healthy)
       \<and> length (filter (\<lambda>p. within_budget measured p \<or> unsettled_carrier incumbent p) healthy) \<ge> 2"

definition choose_paths_with_incumbent :: "PathMetrics list \<Rightarrow> Strategy \<Rightarrow> string list \<Rightarrow> Decision" where
  "choose_paths_with_incumbent paths strategy incumbent =
     (case healthy_paths incumbent paths of
        [] \<Rightarrow> (case last_resort incumbent paths of Some path \<Rightarrow> Single (pm_id path) | None \<Rightarrow> DropPacket)
      | best # others \<Rightarrow>
          let healthy = best # others
          in if strategy = AllPaths
             then (if length healthy = 1 then Single (pm_id best) else Duplicate (map pm_id healthy))
             else if length healthy = 1 \<or> strategy = FastestPath then Single (pm_id best)
             else let ordered = (if strategy = Adaptive then prefer_other_server healthy else healthy)
                  in if should_duplicate incumbent strategy healthy ordered
                     then Duplicate (map pm_id (duplicate_set incumbent healthy ordered))
                     else Single (pm_id best))"

definition choose_paths :: "PathMetrics list \<Rightarrow> Strategy \<Rightarrow> Decision" where
  "choose_paths paths strategy = choose_paths_with_incumbent paths strategy []"

subsection \<open>What the metrics reflect\<close>

datatype probe_event = Probe_Answered rat | Probe_Lost

fun metrics_step :: "probe_event \<Rightarrow> PathMetrics \<Rightarrow> PathMetrics" where
  "metrics_step (Probe_Answered latency) m = record_probe latency m"
| "metrics_step Probe_Lost m = record_loss m"

definition metrics_ok :: "PathMetrics \<Rightarrow> bool" where
  "metrics_ok m \<longleftrightarrow> 0 \<le> pm_loss_ratio m \<and> pm_loss_ratio m \<le> 1 \<and> 0 \<le> pm_jitter_ms m \<and> 0 \<le> pm_latency_ms m
     \<and> (pm_active m \<longleftrightarrow> pm_consecutive_losses m < 3)"

lemma unit_clamp_range: "0 \<le> unit_clamp x" "unit_clamp x \<le> 1"
  by (simp_all add: unit_clamp_def)

lemma ewma_nonneg: "0 \<le> a \<Longrightarrow> 0 \<le> b \<Longrightarrow> 0 \<le> ewma a b"
proof -
  have "ewma a b = (4 * a + b) / 5" by (simp add: ewma_def ewma_with_def SMOOTHING_def field_simps)
  then show "0 \<le> a \<Longrightarrow> 0 \<le> b \<Longrightarrow> 0 \<le> ewma a b" by simp
qed

lemma record_loss_ok: "metrics_ok m \<Longrightarrow> metrics_ok (record_loss m)"
  by (auto simp: metrics_ok_def record_loss_def Let_def unit_clamp_range LOSSES_BEFORE_INACTIVE_def)

lemma record_probe_ok: "metrics_ok m \<Longrightarrow> metrics_ok (record_probe latency m)"
  by (simp add: metrics_ok_def record_probe_def Let_def unit_clamp_range ewma_nonneg)

interpretation metrics: component "metrics_new i" metrics_step metrics_ok for i
proof (unfold_locales, goal_cases)
  case 1 show ?case by (simp add: metrics_ok_def metrics_new_def)
next
  case (2 m e) then show ?case by (cases e) (simp_all add: record_loss_ok record_probe_ok)
qed

definition trailing_losses :: "probe_event list \<Rightarrow> nat" where
  "trailing_losses es = length (takeWhile (\<lambda>e. e = Probe_Lost) (rev es))"

lemma consecutive_losses:
  "pm_consecutive_losses (fold metrics_step es (metrics_new i)) = min (2 ^ 32 - 1) (trailing_losses es)"
proof (induction es rule: rev_induct)
  case (snoc e es)
  then show ?case
    by (cases e) (simp_all add: trailing_losses_def record_loss_def record_probe_def Let_def)
qed (simp add: trailing_losses_def metrics_new_def)

lemma recent_loss_unsettled:
  "Probe_Lost \<in> set (take k (rev es)) \<Longrightarrow> k \<le> 10 \<Longrightarrow>
     11 - k \<le> pm_unsettled_probes (fold metrics_step es (metrics_new i))"
proof (induction es arbitrary: k rule: rev_induct)
  case (snoc e es)
  obtain j where k: "k = Suc j" using snoc.prems(1) by (cases k) auto
  show ?case
  proof (cases e)
    case Probe_Lost
    then show ?thesis by (simp add: k record_loss_def Let_def PROBES_TO_SETTLE_def)
  next
    case (Probe_Answered latency)
    then have "11 - j \<le> pm_unsettled_probes (fold metrics_step es (metrics_new i))"
      using snoc.prems by (intro snoc.IH) (simp_all add: k)
    then show ?thesis using snoc.prems(2) by (auto simp: k Probe_Answered record_probe_def Let_def PROBES_TO_SETTLE_def)
  qed
qed simp

text \<open>
  A path's metrics reflect its probes: after any probes its loss ratio lies between 0 and 1 and its
  latency and jitter are not negative; it is offered to the scheduler exactly when fewer than three
  probes in a row were lost; and a path that lost one of its last ten probes does not count as
  settled.
\<close>

theorem path_metrics_reflect_probes:
  fixes es :: "probe_event list" and i :: string
  defines "m \<equiv> \<lambda>es. fold metrics_step es (metrics_new i)"
  shows "0 \<le> pm_loss_ratio (m es) \<and> pm_loss_ratio (m es) \<le> 1 \<and> 0 \<le> pm_latency_ms (m es) \<and> 0 \<le> pm_jitter_ms (m es)
    \<and> (pm_active (m es) \<longleftrightarrow> trailing_losses es < 3)
    \<and> (Probe_Lost \<in> set (take 10 (rev es)) \<longrightarrow> \<not> is_settled (m es))"
  using metrics.run_inv [of es i] recent_loss_unsettled [of 10 es i]
  by (auto simp: m_def metrics_ok_def consecutive_losses is_settled_def)

theorem path_metrics_reflect_probes_witness:
  "\<not> is_settled (fold metrics_step [Probe_Answered 40, Probe_Lost, Probe_Answered 41] (metrics_new ''a''))"
  using path_metrics_reflect_probes [of "[Probe_Answered 40, Probe_Lost, Probe_Answered 41]" "''a''"] by simp

subsection \<open>What a decision guarantees\<close>

abbreviation measured_path :: "PathMetrics \<Rightarrow> bool" where
  "measured_path p \<equiv> pm_last_latency_ms p \<noteq> None"

lemma healthy_set: "set (healthy_paths incumbent paths) = {p \<in> set paths. pm_active p \<and> measured_path p}"
  by (simp add: healthy_paths_def)

lemma healthy_distinct: "distinct (map pm_id paths) \<Longrightarrow> distinct (map pm_id (healthy_paths incumbent paths))"
proof -
  assume "distinct (map pm_id paths)"
  then have "distinct (map pm_id (filter (\<lambda>p. pm_active p \<and> measured_path p) paths))" by (rule distinct_map_filter)
  then show ?thesis
    unfolding healthy_paths_def distinct_map by (simp add: distinct_sort)
qed

lemma index_of_Some: "index_of P xs = Some i \<Longrightarrow> i < length xs \<and> P (xs ! i)"
  by (induction xs arbitrary: i) (auto split: if_splits)

lemma prefer_other_server_perm: "mset (prefer_other_server healthy) = mset healthy"
proof (cases "shares_endpoint (hd healthy) (healthy ! 1)")
  case True
  show ?thesis
  proof (cases "index_of (\<lambda>p. pm_id p \<noteq> pm_id (hd healthy) \<and> \<not> shares_endpoint (hd healthy) p
      \<and> within_budget healthy p \<and> \<not> degraded p) healthy")
    case (Some i)
    then have i: "i < length healthy" using index_of_Some by blast
    let ?others = "take i healthy @ drop (Suc i) healthy"
    have "mset (take 1 ?others @ [healthy ! i] @ drop 1 ?others) = add_mset (healthy ! i) (mset (take 1 ?others @ drop 1 ?others))"
      by simp
    also have "\<dots> = add_mset (healthy ! i) (mset ?others)" by (simp only: append_take_drop_id)
    also have "\<dots> = mset (take i healthy @ healthy ! i # drop (Suc i) healthy)" by simp
    also have "\<dots> = mset healthy" by (simp only: id_take_nth_drop [OF i, symmetric])
    finally show ?thesis using True Some by (simp add: prefer_other_server_def Let_def)
  qed (simp add: prefer_other_server_def Let_def True)
qed (simp add: prefer_other_server_def Let_def)

lemma choose_loop_props:
  "set (choose_loop ind in_budget chosen rest) \<subseteq> set chosen \<union> set rest"
  "distinct (map pm_id (chosen @ rest)) \<Longrightarrow> distinct (map pm_id (choose_loop ind in_budget chosen rest))"
  "2 \<le> length chosen + length rest \<Longrightarrow> 2 \<le> length (choose_loop ind in_budget chosen rest)"
  by (induction ind in_budget chosen rest rule: choose_loop.induct) auto

lemma keep_carriers_subset: "set (keep_carriers incumbent chosen rest) \<subseteq> set chosen \<union> set rest"
  by (induction incumbent chosen rest rule: keep_carriers.induct) auto

lemma keep_carriers_extends: "length chosen \<le> length (keep_carriers incumbent chosen rest)"
  by (induction incumbent chosen rest rule: keep_carriers.induct) auto

lemma keep_carriers_distinct:
  "distinct (map pm_id chosen) \<Longrightarrow> distinct (map pm_id (keep_carriers incumbent chosen rest))"
proof (induction incumbent chosen rest rule: keep_carriers.induct)
  case (2 incumbent chosen path rest)
  show ?case
  proof (cases "unsettled_carrier incumbent path \<and> \<not> list_ex (\<lambda>c. pm_id c = pm_id path) chosen")
    case True
    then have "distinct (map pm_id (chosen @ [path]))" using 2(3) by (auto simp: list_ex_iff)
    from 2(1) [OF True this] True show ?thesis by simp
  next
    case False
    from 2(2) [OF False 2(3)] show ?thesis by (simp only: keep_carriers.simps if_not_P [OF False])
  qed
qed simp

lemma duplicate_set_props:
  assumes "distinct (map pm_id healthy)" and "2 \<le> length healthy"
  shows "set (duplicate_set incumbent measured healthy) \<subseteq> set healthy"
    and "distinct (map pm_id (duplicate_set incumbent measured healthy))"
    and "2 \<le> length (duplicate_set incumbent measured healthy)"
proof -
  define ind where "ind = (settled_path_count healthy \<ge> SETTLED_ROUTES_WANTED)"
  let ?chosen = "choose_loop ind (within_budget measured) [] healthy"
  note loop = choose_loop_props [where ind = ind and in_budget = "within_budget measured" and chosen = "[]" and rest = healthy]
  have eq: "duplicate_set incumbent measured healthy = keep_carriers incumbent ?chosen (if ind then healthy else [])"
    by (simp add: duplicate_set_def ind_def Let_def)
  show "set (duplicate_set incumbent measured healthy) \<subseteq> set healthy"
    unfolding eq using loop(1) keep_carriers_subset [of incumbent ?chosen "if ind then healthy else []"]
    by (auto split: if_splits)
  show "distinct (map pm_id (duplicate_set incumbent measured healthy))"
    unfolding eq using loop(2) assms(1) by (intro keep_carriers_distinct) simp
  show "2 \<le> length (duplicate_set incumbent measured healthy)"
    unfolding eq using loop(3) assms(2) by (intro order_trans [OF _ keep_carriers_extends]) simp
qed

lemma ordered_healthy:
  fixes strategy :: Strategy
  assumes "distinct (map pm_id healthy)" and "ordered = (if strategy = Adaptive then prefer_other_server healthy else healthy)"
  shows "set ordered = set healthy" and "length ordered = length healthy" and "distinct (map pm_id ordered)"
proof -
  have perm: "mset ordered = mset healthy" using prefer_other_server_perm assms(2) by simp
  then show "set ordered = set healthy" "length ordered = length healthy"
    by (rule mset_eq_setD, rule mset_eq_length)
  show "distinct (map pm_id ordered)"
    using assms(1) mset_eq_imp_distinct_iff [of "map pm_id ordered" "map pm_id healthy"] perm by (simp add: mset_map)
qed

text \<open>With no active path left, the decision is the last resort: the best path that ever answered.\<close>

lemma last_resort_decision:
  assumes "healthy_paths incumbent paths = []"
  shows "(\<exists>p \<in> set paths. measured_path p \<and> choose_paths_with_incumbent paths strategy incumbent = Single (pm_id p))
    \<or> (\<forall>p \<in> set paths. \<not> measured_path p) \<and> choose_paths_with_incumbent paths strategy incumbent = DropPacket"
proof (cases "last_resort incumbent paths")
  case None
  then show ?thesis
    using assms by (auto simp: choose_paths_with_incumbent_def last_resort_def filter_empty_conv)
next
  case (Some p)
  then have "p \<in> set paths" "measured_path p" using min_by_key_in by (auto simp: last_resort_def dest!: min_by_key_in)
  then show ?thesis using assms Some by (auto simp: choose_paths_with_incumbent_def)
qed

text \<open>
  C38. A decision is sound for every strategy: a packet is dropped only if no path ever answered a probe;
  a single path has answered one, and is active unless no path is; duplicates go to at least two
  different active paths and never under the fastest-path strategy.
\<close>

theorem decision_is_sound:
  assumes "distinct (map pm_id paths)"
  shows "case choose_paths_with_incumbent paths strategy incumbent of
      DropPacket \<Rightarrow> list_all (\<lambda>p. pm_last_latency_ms p = None) paths
    | Single i \<Rightarrow> list_ex (\<lambda>p. pm_id p = i \<and> pm_last_latency_ms p \<noteq> None
        \<and> (pm_active p \<or> \<not> list_ex (\<lambda>q. pm_active q \<and> pm_last_latency_ms q \<noteq> None) paths)) paths
    | Duplicate is \<Rightarrow> 2 \<le> length is \<and> distinct is \<and> strategy \<noteq> FastestPath
        \<and> list_all (\<lambda>i. list_ex (\<lambda>p. pm_id p = i \<and> pm_active p \<and> pm_last_latency_ms p \<noteq> None) paths) is"
proof (cases "healthy_paths incumbent paths")
  case Nil
  then have none: "\<not> (\<exists>q \<in> set paths. pm_active q \<and> measured_path q)" using healthy_set [of incumbent paths] by auto
  then show ?thesis
    using last_resort_decision [OF Nil, of strategy] by (fastforce simp: list_all_iff list_ex_iff)
next
  case (Cons best others)
  let ?healthy = "best # others"
  let ?ordered = "if strategy = Adaptive then prefer_other_server ?healthy else ?healthy"
  have healthy: "p \<in> set paths \<and> pm_active p \<and> measured_path p" if "p \<in> set ?healthy" for p
    using healthy_set [of incumbent paths] Cons that by auto
  have dist: "distinct (map pm_id ?healthy)" using healthy_distinct [OF assms, of incumbent] Cons by simp
  note ordered = ordered_healthy [OF dist refl, of strategy]
  have dup: "2 \<le> length ?ordered \<Longrightarrow> set (duplicate_set incumbent ?healthy ?ordered) \<subseteq> set ?healthy
      \<and> distinct (map pm_id (duplicate_set incumbent ?healthy ?ordered)) \<and> 2 \<le> length (duplicate_set incumbent ?healthy ?ordered)"
    using duplicate_set_props [OF ordered(3)] ordered(1) by blast
  have in_paths: "list_all (\<lambda>i. list_ex (\<lambda>p. pm_id p = i \<and> pm_active p \<and> measured_path p) paths) (map pm_id ps)"
    if "set ps \<subseteq> set ?healthy" for ps
    using that healthy unfolding list_all_iff list_ex_iff set_map by blast
  consider (all) "strategy = AllPaths" | (one) "strategy \<noteq> AllPaths" "length ?healthy = 1 \<or> strategy = FastestPath"
    | (several) "strategy \<noteq> AllPaths" "length ?healthy \<noteq> 1" "strategy \<noteq> FastestPath" by blast
  then show ?thesis
  proof cases
    case all
    have "2 \<le> length ?healthy" if "length ?healthy \<noteq> 1" using that by (cases others) simp_all
    then show ?thesis
      using all Cons dist healthy [of best] in_paths [of ?healthy] by (auto simp: choose_paths_with_incumbent_def Let_def list_ex_iff)
  next
    case one
    then show ?thesis using Cons healthy [of best] by (auto simp: choose_paths_with_incumbent_def Let_def list_ex_iff)
  next
    case several
    then have "2 \<le> length ?ordered" unfolding ordered(2) by (cases others) simp_all
    note set_props = dup [OF this]
    have eq: "choose_paths_with_incumbent paths strategy incumbent =
        (if should_duplicate incumbent strategy ?healthy ?ordered
         then Duplicate (map pm_id (duplicate_set incumbent ?healthy ?ordered)) else Single (pm_id best))"
      using several Cons by (simp add: choose_paths_with_incumbent_def Let_def)
    show ?thesis
      using set_props in_paths [of "duplicate_set incumbent ?healthy ?ordered"] healthy [of best] several(3)
      unfolding eq by (auto simp: list_ex_iff)
  qed
qed

text \<open>
  Traffic does not flap between paths: under the fastest-path strategy a healthy path that carries
  traffic loses it only to a path whose score is lower by more than the constant margin plus the
  carrier's own jitter, or exactly by that much.
\<close>

theorem carrier_kept_within_margin:
  assumes "p \<in> set paths" and "score p = Some carrier_score"
    and "choose_paths_with_incumbent paths FastestPath [pm_id p] = Single i" and "i \<noteq> pm_id p"
  shows "\<exists>q challenger_score. q \<in> set paths \<and> pm_id q = i \<and> score q = Some challenger_score
    \<and> challenger_score + 8 + pm_jitter_ms p \<le> carrier_score"
proof -
  have p: "pm_active p" "measured_path p" "carrier_score = finite_score p"
    using assms(2) by (auto simp: score_def split: if_splits)
  then have "p \<in> set (healthy_paths [pm_id p] paths)" using assms(1) by (simp add: healthy_set)
  then obtain q others where q: "healthy_paths [pm_id p] paths = q # others" by (cases "healthy_paths [pm_id p] paths") auto
  have i: "i = pm_id q" using assms(3) q by (simp add: choose_paths_with_incumbent_def Let_def)
  have "sorted (map (ranked [pm_id p]) (q # others))" unfolding q [symmetric] healthy_paths_def by (rule sorted_sort_key)
  moreover have "p \<in> set (q # others)" using \<open>p \<in> set (healthy_paths [pm_id p] paths)\<close> q by simp
  ultimately have "ranked [pm_id p] q \<le> ranked [pm_id p] p" by auto
  then have "finite_score q \<le> finite_score p - incumbency_margin p"
    using assms(4) i by (simp add: ranked_def holding_def)
  moreover have "q \<in> set paths" "pm_active q" "measured_path q" using healthy_set [of "[pm_id p]" paths] q by auto
  ultimately show ?thesis
    using i p(3) by (auto simp: score_def incumbency_margin_def INCUMBENCY_MARGIN_def INCUMBENCY_JITTER_MARGIN_def)
qed

definition sample_paths :: "PathMetrics list" where
  "sample_paths = [record_probe 50 (metrics_new ''a''), record_probe 20 (metrics_new ''b'')]"

lemma sample_paths_values:
  "sample_paths = [(metrics_new ''a'')\<lparr>pm_samples := 1, pm_latency_ms := 50, pm_last_latency_ms := Some 50\<rparr>,
     (metrics_new ''b'')\<lparr>pm_samples := 1, pm_latency_ms := 20, pm_last_latency_ms := Some 20\<rparr>]"
  by (simp add: sample_paths_def record_probe_def metrics_new_def Let_def unit_clamp_def ewma_with_def)

theorem decision_is_sound_witness:
  "list_ex (\<lambda>p. pm_id p = ''b'' \<and> pm_last_latency_ms p \<noteq> None) sample_paths"
proof -
  have "choose_paths_with_incumbent sample_paths FastestPath [''a''] = Single ''b''"
    by (simp add: sample_paths_values metrics_new_def choose_paths_with_incumbent_def healthy_paths_def ranked_def holding_def
        finite_score_def incumbency_margin_def INCUMBENCY_MARGIN_def INCUMBENCY_JITTER_MARGIN_def)
  moreover have "distinct (map pm_id sample_paths)" by (simp add: sample_paths_values metrics_new_def)
  ultimately show ?thesis
    using decision_is_sound [of sample_paths FastestPath "[''a'']"] by (auto simp: list_ex_iff)
qed

theorem carrier_kept_within_margin_witness:
  "\<exists>q challenger_score. q \<in> set sample_paths \<and> pm_id q = ''b'' \<and> score q = Some challenger_score \<and> challenger_score + 8 + 0 \<le> 50"
  using carrier_kept_within_margin [of "hd sample_paths" sample_paths 50 "''b''"]
  by (simp add: sample_paths_values metrics_new_def choose_paths_with_incumbent_def healthy_paths_def ranked_def holding_def
      finite_score_def score_def incumbency_margin_def INCUMBENCY_MARGIN_def INCUMBENCY_JITTER_MARGIN_def)

end
