(* ===== verification/Path_Health.thy ===== *)
theory Path_Health
  imports Scheduler Protocol Bit_Masks
begin

section \<open>Path health and the masks the dispatcher reads (\<^verbatim>\<open>engine/src/session/health.rs\<close>)\<close>

text \<open>
  The probe cadence, the healthy mask, the scheduler's decision as a mask, the per-path status the
  interface shows, and the probes that are remembered after their deadline. Atomics are state that is
  passed; the scheduler mutex makes one probe's update atomic. Log lines are left out.
\<close>

definition PROBE_INTERVAL :: duration where "PROBE_INTERVAL = secs 1"
definition PROBE_INTERVAL_DEGRADED :: duration where "PROBE_INTERVAL_DEGRADED = millis 150"
definition PROBE_INTERVAL_STANDBY :: duration where "PROBE_INTERVAL_STANDBY = millis 250"
definition HEALTH_FAILURE_THRESHOLD :: nat where "HEALTH_FAILURE_THRESHOLD = 3"

definition healthy_probe_interval :: "bool \<Rightarrow> duration" where
  "healthy_probe_interval carrying = (if carrying then PROBE_INTERVAL else PROBE_INTERVAL_STANDBY)"

definition publish_path_health :: "nat \<Rightarrow> bool \<Rightarrow> u64 \<Rightarrow> u64" where
  "publish_path_health index healthy healthy_mask =
     (let shift = as_u32 index
      in if shift < 64
         then (if healthy then healthy_mask OR push_bit shift 1 else healthy_mask AND NOT (push_bit shift 1))
         else healthy_mask)"

definition selected_paths :: "u64 \<Rightarrow> u64 \<Rightarrow> u64" where
  "selected_paths decision healthy =
     (if decision AND healthy \<noteq> 0 then decision AND healthy else if healthy \<noteq> 0 then healthy else decision)"

text \<open>The loop of \<^verbatim>\<open>initial_selection\<close>: take the lowest bit of what remains, \<open>limit\<close> times.\<close>

fun take_lowest :: "nat \<Rightarrow> u64 \<Rightarrow> u64 \<Rightarrow> u64" where
  "take_lowest 0 remaining selected = selected"
| "take_lowest (Suc n) remaining selected =
     take_lowest n (remaining AND NOT (lowest_bit remaining)) (selected OR lowest_bit remaining)"

definition initial_selection :: "u64 \<Rightarrow> Strategy \<Rightarrow> u64" where
  "initial_selection open_paths strategy =
     take_lowest (case strategy of AllPaths \<Rightarrow> 64 | FastestPath \<Rightarrow> 1 | Adaptive \<Rightarrow> 2 | DuplicateStrategy \<Rightarrow> 2) open_paths 0"

subsection \<open>Path ids as route numbers\<close>

definition digit_value :: "char \<Rightarrow> nat option" where
  "digit_value c = (let n = of_char c in if 48 \<le> n \<and> n \<le> 57 then Some (n - 48) else None)"

fun parse_digits :: "nat \<Rightarrow> string \<Rightarrow> nat option" where
  "parse_digits acc [] = Some acc"
| "parse_digits acc (c # cs) =
     (case digit_value c of
        None \<Rightarrow> None
      | Some d \<Rightarrow> if acc * 10 + d \<ge> 2 ^ 32 then None else parse_digits (acc * 10 + d) cs)"

text \<open>\<^verbatim>\<open>str::parse::<u32>\<close>: an optional plus sign, at least one digit, no overflow.\<close>

definition parse_u32 :: "string \<Rightarrow> nat option" where
  "parse_u32 s =
     (let digits = (if s \<noteq> [] \<and> hd s = CHR ''+'' then tl s else s)
      in if digits = [] then None else parse_digits 0 digits)"

text \<open>\<^verbatim>\<open>to_string\<close> of an index, which the session gives its paths as their ids.\<close>

fun show_nat :: "nat \<Rightarrow> string" where
  "show_nat n = (if n < 10 then [char_of (48 + n)] else show_nat (n div 10) @ [char_of (48 + n mod 10)])"

definition bit_for_path :: "string \<Rightarrow> u64" where
  "bit_for_path path_id = (case parse_u32 path_id of None \<Rightarrow> 0 | Some index \<Rightarrow> bit_of_index index)"

definition mask_for_decision :: "Decision \<Rightarrow> u64 \<Rightarrow> u64" where
  "mask_for_decision decision fallback_mask =
     (let chosen = (case decision of
                      DropPacket \<Rightarrow> 0
                    | Single path_id \<Rightarrow> bit_for_path path_id
                    | Duplicate path_ids \<Rightarrow> fold (\<lambda>path_id acc. acc OR bit_for_path path_id) path_ids 0)
      in if chosen = 0 then fallback_mask else chosen)"

definition update_scheduler_probe ::
  "u64 \<Rightarrow> nat \<Rightarrow> rat option \<Rightarrow> Strategy \<Rightarrow> PathMetrics list \<times> u64 \<Rightarrow> PathMetrics list \<times> u64" where
  "update_scheduler_probe fallback_mask index latency_ms strategy = (\<lambda>(metrics, previous).
     if index \<ge> length metrics then (metrics, previous)
     else let metrics = metrics[index := (case latency_ms of Some l \<Rightarrow> record_probe l (metrics ! index)
                                                            | None \<Rightarrow> record_loss (metrics ! index))];
              incumbent = map pm_id (filter (\<lambda>p. previous AND bit_for_path (pm_id p) \<noteq> 0) metrics)
          in (metrics, mask_for_decision (choose_paths_with_incumbent metrics strategy incumbent) fallback_mask))"

subsection \<open>The status of a path\<close>

record PathSessionStatus =
  ps_route :: nat
  ps_path_kind :: string
  ps_label :: string
  ps_endpoint :: string
  ps_reachable :: bool
  ps_return_path_selection :: bool
  ps_joining :: bool
  ps_latency_ms :: "rat option"
  ps_handshake_ms :: "rat option"
  ps_handshake_round_trips :: "u8 option"
  ps_packets_sent :: nat
  ps_packets_received :: nat
  ps_bytes_sent :: nat
  ps_bytes_received :: nat
  ps_probes_sent :: nat
  ps_probes_received :: nat
  ps_probes_lost :: nat
  ps_loss_percent :: rat
  ps_last_error :: "string option"

definition initial_status :: "nat \<Rightarrow> string \<Rightarrow> string \<Rightarrow> string \<Rightarrow> PathSessionStatus" where
  "initial_status route path_kind label endpoint =
     \<lparr>ps_route = route, ps_path_kind = path_kind, ps_label = label, ps_endpoint = endpoint, ps_reachable = False,
      ps_return_path_selection = False, ps_joining = False, ps_latency_ms = None, ps_handshake_ms = None,
      ps_handshake_round_trips = None, ps_packets_sent = 0, ps_packets_received = 0, ps_bytes_sent = 0,
      ps_bytes_received = 0, ps_probes_sent = 0, ps_probes_received = 0, ps_probes_lost = 0, ps_loss_percent = 0,
      ps_last_error = None\<rparr>"

text \<open>Indexing past the end panics, as in the source.\<close>

definition at_index :: "('a \<Rightarrow> 'a) \<Rightarrow> nat \<Rightarrow> 'a list \<Rightarrow> 'a list outcome" where
  "at_index f index xs = (if index < length xs then Ret (xs[index := f (xs ! index)]) else Panic)"

definition update_path_status :: "nat \<Rightarrow> string + rat \<Rightarrow> PathSessionStatus list \<Rightarrow> PathSessionStatus list outcome" where
  "update_path_status index result =
     at_index (\<lambda>s. case result of
         Inr latency \<Rightarrow> s\<lparr>ps_reachable := True, ps_latency_ms := Some latency,
                          ps_packets_received := ps_packets_received s + 1, ps_last_error := None\<rparr>
       | Inl error \<Rightarrow> s\<lparr>ps_reachable := False, ps_last_error := Some error\<rparr>) index"

definition record_path_send :: "nat \<Rightarrow> nat \<Rightarrow> string option \<Rightarrow> PathSessionStatus list \<Rightarrow> PathSessionStatus list outcome" where
  "record_path_send index sent_bytes error =
     at_index (\<lambda>s. case error of
         None \<Rightarrow> s\<lparr>ps_packets_sent := ps_packets_sent s + 1, ps_bytes_sent := ps_bytes_sent s + sent_bytes\<rparr>
       | Some e \<Rightarrow> s\<lparr>ps_packets_sent := ps_packets_sent s + 1, ps_last_error := Some e\<rparr>) index"

definition record_path_receive :: "nat \<Rightarrow> nat \<Rightarrow> PathSessionStatus list \<Rightarrow> PathSessionStatus list outcome" where
  "record_path_receive index received_bytes =
     at_index (\<lambda>s. s\<lparr>ps_packets_received := ps_packets_received s + 1,
                     ps_bytes_received := ps_bytes_received s + received_bytes\<rparr>) index"

subsection \<open>Late probe replies\<close>

definition LATE_REPLY_WINDOW :: duration where "LATE_REPLY_WINDOW = secs 3"
definition LATE_REPLY_CAPACITY :: nat where "LATE_REPLY_CAPACITY = 32"

definition remember_expired_probe :: "u64 \<Rightarrow> instant \<Rightarrow> instant \<Rightarrow> (u64 \<times> instant) list \<Rightarrow> (u64 \<times> instant) list" where
  "remember_expired_probe sequence started now expired =
     (let live = filter (\<lambda>(_, sent). duration_since now sent < LATE_REPLY_WINDOW) expired;
          live = (if length live \<ge> LATE_REPLY_CAPACITY then tl live else live)
      in live @ [(sequence, started)])"

definition take_late_probe_reply :: "bytes \<Rightarrow> instant \<Rightarrow> (u64 \<times> instant) list \<Rightarrow> (u64 \<times> instant) list \<times> duration option" where
  "take_late_probe_reply reply now expired =
     (case index_of (\<lambda>(sequence, _). probe_reply_matches reply sequence False) expired of
        None \<Rightarrow> (expired, None)
      | Some i \<Rightarrow> (take i expired @ drop (Suc i) expired, Some (duration_since now (snd (expired ! i)))))"

subsection \<open>The masks\<close>

lemma publish_bits:
  "index < 2 ^ 32 \<Longrightarrow> bits_of (publish_path_health index healthy paths) =
     (if index < 64 then (if healthy then insert index (bits_of paths) else bits_of paths - {index}) else bits_of paths)"
  by (auto simp: publish_path_health_def Let_def)

lemma selected_bits:
  "bits_of (selected_paths decision healthy) =
     (if bits_of decision \<inter> bits_of healthy \<noteq> {} then bits_of decision \<inter> bits_of healthy
      else if healthy \<noteq> 0 then bits_of healthy else bits_of decision)"
  by (simp add: selected_paths_def and_zero_iff bits_of_and)

lemma take_lowest_bits:
  "bits_of (take_lowest n remaining selected) =
     bits_of selected \<union> set (take n (sorted_list_of_set (bits_of remaining)))"
proof (induction n arbitrary: remaining selected)
  case (Suc n)
  show ?case
  proof (cases "remaining = 0")
    case True
    then show ?thesis using Suc by simp
  next
    case False
    then have "sorted_list_of_set (bits_of remaining) =
        Min (bits_of remaining) # sorted_list_of_set (bits_of remaining - {Min (bits_of remaining)})"
      by (intro sorted_list_of_set_nonempty) simp_all
    then show ?thesis using Suc bits_of_lowest [OF False] by simp
  qed
qed simp

lemma parse_digits_append:
  "parse_digits acc (as @ bs) = (case parse_digits acc as of None \<Rightarrow> None | Some v \<Rightarrow> parse_digits v bs)"
  by (induction acc as rule: parse_digits.induct) (auto split: option.splits)

lemma digit_value_digit: "d < 10 \<Longrightarrow> digit_value (char_of (48 + d :: nat)) = Some d"
  by (simp add: digit_value_def Let_def of_char_of)

declare show_nat.simps [simp del]

lemma show_nat_digits: "parse_digits 0 (show_nat n) = (if n < 2 ^ 32 then Some n else None)"
proof (induction n rule: show_nat.induct)
  case (1 n)
  show ?case
  proof (cases "n < 10")
    case True
    then show ?thesis by (simp add: show_nat.simps [of n] digit_value_digit)
  next
    case False
    have "n div 10 * 10 + n mod 10 = n" "n < 2 ^ 32 \<Longrightarrow> n div 10 < 2 ^ 32" by (simp_all add: less_mult_imp_div_less)
    then show ?thesis
      using 1 [OF False] False by (simp add: show_nat.simps [of n] parse_digits_append digit_value_digit)
  qed
qed

lemma show_nat_nonempty: "show_nat n \<noteq> []"
  by (simp add: show_nat.simps [of n])

lemma show_nat_head: "hd (show_nat n) \<noteq> CHR ''+''"
proof (induction n rule: show_nat.induct)
  case (1 n)
  have "char_of (48 + n) \<noteq> CHR ''+''" if "n < 10"
  proof
    assume plus: "char_of (48 + n) = CHR ''+''"
    show False using digit_value_digit [OF that] unfolding plus by (simp add: digit_value_def)
  qed
  then show ?case using 1 show_nat_nonempty [of "n div 10"] by (auto simp: show_nat.simps [of n])
qed

lemma parse_show [simp]: "n < 2 ^ 32 \<Longrightarrow> parse_u32 (show_nat n) = Some n"
  using show_nat_nonempty [of n] show_nat_head [of n] show_nat_digits [of n] by (simp add: parse_u32_def Let_def)

lemma bits_for_path [simp]: "n < 64 \<Longrightarrow> bits_of (bit_for_path (show_nat n)) = {n}"
  by (simp add: bit_for_path_def)

lemma fold_or_bits:
  "bits_of (fold (\<lambda>i acc. acc OR bit_for_path i) ids acc) = bits_of acc \<union> (\<Union>i \<in> set ids. bits_of (bit_for_path i))"
  by (induction ids arbitrary: acc) auto

lemma remember_bounded: "length expired \<le> 32 \<Longrightarrow> length (remember_expired_probe sequence started now expired) \<le> 32"
proof -
  assume "length expired \<le> 32"
  moreover define live where "live = filter (\<lambda>(_, sent). duration_since now sent < LATE_REPLY_WINDOW) expired"
  ultimately have "length live \<le> 32" by (auto simp: live_def intro: order_trans [OF length_filter_le])
  then show ?thesis
    by (auto simp: remember_expired_probe_def Let_def LATE_REPLY_CAPACITY_def live_def [symmetric])
qed

end
