(* ===== verification/Client_Send.thy ===== *)
theory Client_Send
  imports Dispatch Path_Health Auth Fec_Encoder Mtu Path_Policy
begin

section \<open>Sending on the client (\<^verbatim>\<open>engine/src/session/repair.rs\<close>, \<^verbatim>\<open>sender.rs\<close>)\<close>

text \<open>
  What a session does with an outgoing packet: number and seal it, pick the paths, hand it over, and
  protect it with a repair. The sequence counter, the masks and the dispatcher are shared by every
  thread; an operation runs as one step here, reading the clock once, and \<open>sh_sealed\<close> is a history of
  every call that sealed a frame. The lemmas show that no nonce is used twice, whichever threads seal,
  and that a repair covers exactly packets that were sealed as data under the sequences it names.
\<close>

subsection \<open>The measured MTU of a session (\<^verbatim>\<open>session/path_mtu.rs\<close>)\<close>

record SessionMtu =
  sm_derived :: EffectiveMtu
  sm_measured :: "EffectiveMtu option"

definition session_mtu_current :: "SessionMtu \<Rightarrow> EffectiveMtu" where
  "session_mtu_current m = (case sm_measured m of None \<Rightarrow> sm_derived m | Some e \<Rightarrow> e)"

text \<open>
  \<^verbatim>\<open>unfragmented\<close> without its panic: every MTU a session holds is at least the tunnel floor, where the
  clamp's bounds are in order.
\<close>

definition unfragmented_size :: "EffectiveMtu \<Rightarrow> nat" where
  "unfragmented_size e = max MIN_SIGNALLED_MTU (min (em_mtu e) (em_budget e))"

lemma unfragmented_size_eq: "MIN_SIGNALLED_MTU \<le> em_mtu e \<Longrightarrow> unfragmented e = Ret (unfragmented_size e)"
  by (simp add: unfragmented_def clamp_to_def unfragmented_size_def)

text \<open>
  The measuring thread's verdict: the narrowest path that answered, if the MTU derived from it is
  smaller than the interface's. \<^verbatim>\<open>OnceLock::set\<close> keeps the first value.
\<close>

definition finish_measurement :: "nat option list \<Rightarrow> (nat \<Rightarrow> EffectiveMtu) \<Rightarrow> SessionMtu \<Rightarrow> SessionMtu" where
  "finish_measurement measured derive m =
     (case [mtu. Some mtu \<leftarrow> measured] of
        [] \<Rightarrow> m
      | p # ps \<Rightarrow>
          (let refined = derive (fold min ps p)
           in if unfragmented_size refined \<ge> unfragmented_size (sm_derived m) then m
              else if sm_measured m = None then m\<lparr>sm_measured := Some refined\<rparr> else m))"

subsection \<open>Shared state and sealing\<close>

record shared =
  sh_sequences :: u64
  sh_decision_mask :: u64
  sh_dispatch :: Dispatch
  sh_sealed :: "(FrameHeader \<times> bytes) list"

definition sh_healthy :: "shared \<Rightarrow> u64" where
  "sh_healthy sh = pt_healthy_mask (di_telemetry (sh_dispatch sh))"

text \<open>\<^verbatim>\<open>sequences.fetch_add(1, ..)\<close> for the header, then \<^verbatim>\<open>seal_client\<close>.\<close>

definition seal_next ::
  "crypto_lib \<Rightarrow> SessionCrypto \<Rightarrow> u8 \<Rightarrow> bytes \<Rightarrow> u64 \<Rightarrow> (u64 \<Rightarrow> bytes) \<Rightarrow> shared \<Rightarrow> shared \<times> u64 \<times> (auth_error + bytes)" where
  "seal_next L crypto flags client_id session_id payload sh =
     (let sequence = sh_sequences sh;
          header = \<lparr>fh_flags = flags, fh_client_id = client_id, fh_session_id = session_id, fh_sequence = sequence\<rparr>
      in (sh\<lparr>sh_sequences := sequence + 1, sh_sealed := sh_sealed sh @ [(header, payload sequence)]\<rparr>,
          sequence, seal_client L crypto header (payload sequence)))"

subsection \<open>Loss repair\<close>

definition UNKNOWN :: u8 where "UNKNOWN = 0"
definition SUPPORTED :: u8 where "SUPPORTED = 1"
definition LEGACY :: u8 where "LEGACY = 2"
definition OFFER_RETRY :: duration where "OFFER_RETRY = millis 250"
definition OFFER_LIMIT :: u32 where "OFFER_LIMIT = 12"
definition OFFER_REFRESH :: duration where "OFFER_REFRESH = secs 5"
definition LEGACY_OFFER_RETRY :: duration where "LEGACY_OFFER_RETRY = secs 10"
definition IDLE_WAIT :: duration where "IDLE_WAIT = millis 250"
definition REPAIR_QUEUE_LIMIT :: u64 where "REPAIR_QUEUE_LIMIT = of_nat (PATH_QUEUE_DEPTH div 4)"
definition NEVER :: u64 where "NEVER = - 1"

record LossRepair =
  lr_crypto :: SessionCrypto
  lr_client_id :: bytes
  lr_session_id :: u64
  lr_encoder :: Encoder
  lr_mtu :: SessionMtu
  lr_offered_mtu :: u16
  lr_policy :: MultipathPolicy
  lr_histories :: "ProbeHistory list"
  lr_multipath_group :: u8
  lr_support :: u8
  lr_downlink_group :: u8
  lr_offers_unanswered :: u32
  lr_clock :: instant
  lr_last_offer_ms :: u64
  lr_repairs_sent :: u64

datatype Probe = Lost | Answered bool

record RepairStatus =
  rs_state :: string
  rs_uplink_group :: u8
  rs_downlink_group :: "u8 option"
  rs_repairs_sent :: u64

definition loss_repair_new :: "SessionCrypto \<Rightarrow> bytes \<Rightarrow> u64 \<Rightarrow> nat \<Rightarrow> SessionMtu \<Rightarrow> instant \<Rightarrow> LossRepair" where
  "loss_repair_new crypto client_id session_id routes mtu now =
     \<lparr>lr_crypto = crypto, lr_client_id = client_id, lr_session_id = session_id,
      lr_encoder = encoder_new SINGLE_PATH_GROUP (unfragmented_size (session_mtu_current mtu)), lr_mtu = mtu,
      lr_offered_mtu = 0, lr_policy = policy_default, lr_histories = replicate routes probe_history_default,
      lr_multipath_group = MULTIPATH_GROUP, lr_support = UNKNOWN, lr_downlink_group = 0, lr_offers_unanswered = 0,
      lr_clock = now, lr_last_offer_ms = NEVER, lr_repairs_sent = 0\<rparr>"

definition desired_group :: "shared \<Rightarrow> LossRepair \<Rightarrow> u8" where
  "desired_group sh r =
     (let healthy = sh_healthy sh;
          carrying = selected_paths (sh_decision_mask sh) healthy AND healthy
      in group_size_for (of_nat (count_ones carrying)) (lr_multipath_group r))"

text \<open>
  The best loss of the carrying paths. Over no path at all the fold of the source leaves infinity,
  which every comparison of the policy treats like a total loss.
\<close>

definition best_loss :: "u64 \<Rightarrow> ProbeHistory list \<Rightarrow> rat" where
  "best_loss carrying histories =
     (case [case history_loss h of None \<Rightarrow> 0 | Some l \<Rightarrow> l. (path, h) \<leftarrow> enumerate 0 histories,
            carrying AND bit_of_index (as_u32 path) \<noteq> 0] of
        [] \<Rightarrow> 1
      | l # ls \<Rightarrow> fold min ls l)"

definition repair_record_probe :: "nat \<Rightarrow> Probe \<Rightarrow> instant \<Rightarrow> shared \<Rightarrow> LossRepair \<Rightarrow> LossRepair" where
  "repair_record_probe index probe now sh r =
     (let healthy = sh_healthy sh;
          note_probe = (\<lambda>h. case probe of
             Lost \<Rightarrow> if healthy AND bit_of_index (as_u32 index) = 0 then forget_outage h else record_outcome True h
           | Answered after_outage \<Rightarrow> record_outcome False (if after_outage then forget_outage h else h));
          histories = update_at note_probe index (lr_histories r);
          r = r\<lparr>lr_histories := histories\<rparr>;
          decision = sh_decision_mask sh;
          carrying = (if decision AND healthy \<noteq> 0 then decision AND healthy else healthy)
      in if carrying = 0 then r\<lparr>lr_policy := policy_interrupt (lr_policy r)\<rparr>
         else let (policy, grp) = policy_observe (lr_policy r) (best_loss carrying histories) now
              in r\<lparr>lr_policy := policy, lr_multipath_group := grp\<rparr>)"

text \<open>\<^verbatim>\<open>for _ in 0..n { pool &= pool - 1; }\<close>\<close>

fun clear_lowest :: "nat \<Rightarrow> u64 \<Rightarrow> u64" where
  "clear_lowest 0 pool = pool"
| "clear_lowest (Suc n) pool = clear_lowest n (pool AND (pool - 1))"

text \<open>The remainder by zero of an empty mask would panic.\<close>

definition repair_target :: "u64 \<Rightarrow> u64 \<Rightarrow> u64 \<Rightarrow> u64 outcome" where
  "repair_target candidates carrying turn =
     (let spare = candidates AND NOT carrying;
          pool = (if spare \<noteq> 0 then spare else candidates)
      in if count_ones pool = 0 then Panic
         else Ret (lowest_bit (clear_lowest (unat turn mod count_ones pool) pool)))"

definition with_room :: "shared \<Rightarrow> u64 \<Rightarrow> u64" where
  "with_room sh candidates =
     fold (\<lambda>(index, depth) acc. if depth \<ge> REPAIR_QUEUE_LIMIT then acc AND NOT (bit_of_index (as_u32 index)) else acc)
       (enumerate 0 (pt_queue_depth (di_telemetry (sh_dispatch sh)))) candidates"

definition repair_send :: "crypto_lib \<Rightarrow> instant \<Rightarrow> bytes \<Rightarrow> shared \<times> LossRepair \<Rightarrow> shared \<times> LossRepair" where
  "repair_send L now repair = (\<lambda>(sh, r).
     let candidates = (if sh_healthy sh \<noteq> 0 then sh_healthy sh else sh_decision_mask sh);
         open_paths = with_room sh candidates
     in if open_paths = 0 then (sh, r)
        else case repair_target open_paths (sh_decision_mask sh) (lr_repairs_sent r) of
               Panic \<Rightarrow> (sh, r)
             | Ret target \<Rightarrow>
                 (case seal_next L (lr_crypto r) FLAG_REPAIR (lr_client_id r) (lr_session_id r) (\<lambda>_. repair) sh of
                    (sh, _, Inl _) \<Rightarrow> (sh, r)
                  | (sh, _, Inr frame) \<Rightarrow>
                      (let (d, outcome) = dispatch_send frame target now (sh_dispatch sh)
                       in (sh\<lparr>sh_dispatch := d\<rparr>,
                           if dd_accepted outcome > 0 then r\<lparr>lr_repairs_sent := lr_repairs_sent r + 1\<rparr> else r))))"

definition option_list :: "'a option \<Rightarrow> 'a list" where
  "option_list x = (case x of None \<Rightarrow> [] | Some a \<Rightarrow> [a])"

definition protect :: "crypto_lib \<Rightarrow> instant \<Rightarrow> u64 \<Rightarrow> bytes \<Rightarrow> shared \<times> LossRepair \<Rightarrow> shared \<times> LossRepair" where
  "protect L now sequence packet = (\<lambda>(sh, r).
     if lr_support r \<noteq> SUPPORTED then (sh, r)
     else let grp = desired_group sh r;
              enc = set_max_packet (unfragmented_size (session_mtu_current (lr_mtu r))) (lr_encoder r);
              (enc, resized) = set_group_size grp enc;
              (enc, closed) = encoder_push sequence packet now enc
          in fold (repair_send L now) (option_list resized @ option_list closed) (sh, r\<lparr>lr_encoder := enc\<rparr>))"

definition repair_offer_due :: "bool \<Rightarrow> instant \<Rightarrow> shared \<Rightarrow> LossRepair \<Rightarrow> LossRepair \<times> Offer option" where
  "repair_offer_due path_healthy now sh r =
     (if \<not> path_healthy then (r, None)
      else let support = lr_support r;
               desired = desired_group sh r;
               mtu = of_nat (unfragmented_size (session_mtu_current (lr_mtu r)));
               in_step = (support = SUPPORTED \<and> lr_downlink_group r = desired \<and> lr_offered_mtu r = mtu);
               retry = (if in_step then OFFER_REFRESH else if support = LEGACY then LEGACY_OFFER_RETRY else OFFER_RETRY);
               now_ms = of_nat (duration_since now (lr_clock r) div 1000000);
               last_ms = lr_last_offer_ms r
           in if last_ms \<noteq> NEVER \<and> unat now_ms < min (unat last_ms + retry div 1000000) (2 ^ 64 - 1) then (r, None)
              else let r = r\<lparr>lr_last_offer_ms := now_ms\<rparr>;
                       r = (if support = UNKNOWN
                            then r\<lparr>lr_offers_unanswered := lr_offers_unanswered r + 1,
                                   lr_support := (if lr_offers_unanswered r + 1 \<ge> OFFER_LIMIT then LEGACY else UNKNOWN)\<rparr>
                            else r)
                   in (r\<lparr>lr_offered_mtu := mtu\<rparr>, Some \<lparr>of_group_size = desired, of_mtu = mtu\<rparr>))"

definition repair_accepted :: "u8 \<Rightarrow> LossRepair \<Rightarrow> LossRepair" where
  "repair_accepted grp r = r\<lparr>lr_offers_unanswered := 0, lr_downlink_group := grp, lr_support := SUPPORTED\<rparr>"

definition repair_status :: "shared \<Rightarrow> LossRepair \<Rightarrow> RepairStatus" where
  "repair_status sh r =
     \<lparr>rs_state = (if lr_support r = SUPPORTED then ''active'' else if lr_support r = LEGACY then ''unsupported'' else ''negotiating''),
      rs_uplink_group = desired_group sh r,
      rs_downlink_group = (if lr_downlink_group r = 0 then None else Some (lr_downlink_group r)),
      rs_repairs_sent = lr_repairs_sent r\<rparr>"

text \<open>One turn of the flusher: how long it may sleep, or nothing when it closed a group.\<close>

definition repair_flusher_turn :: "crypto_lib \<Rightarrow> instant \<Rightarrow> shared \<times> LossRepair \<Rightarrow> (shared \<times> LossRepair) \<times> duration option" where
  "repair_flusher_turn L now = (\<lambda>(sh, r).
     case deadline (lr_encoder r) of
       None \<Rightarrow> ((sh, r), Some IDLE_WAIT)
     | Some d \<Rightarrow>
         if d > now then ((sh, r), Some (d - now))
         else let (enc, due) = flush_due now (lr_encoder r)
              in (fold (repair_send L now) (option_list due) (sh, r\<lparr>lr_encoder := enc\<rparr>), None))"

subsection \<open>The packet path\<close>

datatype SessionOverlay = Relay_Overlay bytes SessionCrypto | Direct_Overlay

datatype diagnostic = OutboundNoWorker | OutboundNoQueue

record DataSender =
  ds_overlay :: SessionOverlay
  ds_session_id :: u64
  ds_loss_repair :: "LossRepair option"
  ds_user_bytes_sent :: u64
  ds_stop :: bool
  ds_diagnostics :: "diagnostic list"

datatype send_error = Session_Stopped | Seal_Failed auth_error | No_Path_Workers

definition is_live :: "DataSender \<Rightarrow> bool" where
  "is_live ds \<longleftrightarrow> \<not> ds_stop ds"

text \<open>What follows the hand-over: diagnostics, protection and the byte count.\<close>

definition after_dispatch ::
  "crypto_lib \<Rightarrow> instant \<Rightarrow> bytes \<Rightarrow> u64 option \<Rightarrow> Dispatched \<Rightarrow> shared \<times> DataSender \<Rightarrow> (shared \<times> DataSender) \<times> (send_error + bool)" where
  "after_dispatch L now packet sequence outcome = (\<lambda>(sh, ds).
     if dd_selected outcome = 0
     then ((sh, ds\<lparr>ds_diagnostics := ds_diagnostics ds @ [OutboundNoWorker]\<rparr>), Inl No_Path_Workers)
     else let ds = (if dd_accepted outcome = 0
                    then ds\<lparr>ds_diagnostics := ds_diagnostics ds @
                           [if dd_disconnected outcome = dd_selected outcome then OutboundNoWorker else OutboundNoQueue]\<rparr>
                    else ds);
              (sh, ds) = (case (ds_loss_repair ds, sequence) of
                            (Some r, Some s) \<Rightarrow> (let (sh, r) = protect L now s packet (sh, r)
                                                 in (sh, ds\<lparr>ds_loss_repair := Some r\<rparr>))
                          | _ \<Rightarrow> (sh, ds));
              ds = (if dd_accepted outcome > 0
                    then ds\<lparr>ds_user_bytes_sent := ds_user_bytes_sent ds + of_nat (length packet)\<rparr> else ds)
          in ((sh, ds), Inr (dd_accepted outcome > 0)))"

definition data_send ::
  "crypto_lib \<Rightarrow> instant \<Rightarrow> bytes \<Rightarrow> u8 \<Rightarrow> shared \<times> DataSender \<Rightarrow> (shared \<times> DataSender) \<times> (send_error + bool)" where
  "data_send L now packet node = (\<lambda>(sh, ds).
     if \<not> is_live ds then ((sh, ds), Inl Session_Stopped)
     else case ds_overlay ds of
       Relay_Overlay client_id crypto \<Rightarrow>
         (case seal_next L crypto 0 client_id (ds_session_id ds) (\<lambda>_. packet) sh of
            (sh, _, Inl e) \<Rightarrow> ((sh, ds), Inl (Seal_Failed e))
          | (sh, sequence, Inr frame) \<Rightarrow>
              (let (d, outcome) = dispatch_send frame (selected_paths (sh_decision_mask sh) (sh_healthy sh)) now (sh_dispatch sh)
               in after_dispatch L now packet (Some sequence) outcome (sh\<lparr>sh_dispatch := d\<rparr>, ds)))
     | Direct_Overlay \<Rightarrow>
         (let (d, outcome) = dispatch_send packet (bit_of_index (unat node)) now (sh_dispatch sh)
          in after_dispatch L now packet None outcome (sh\<lparr>sh_dispatch := d\<rparr>, ds)))"

subsection \<open>The control frames of a path worker (\<^verbatim>\<open>session/relay_worker.rs\<close>)\<close>

definition announce_selection ::
  "crypto_lib \<Rightarrow> SessionCrypto \<Rightarrow> bytes \<Rightarrow> u64 \<Rightarrow> nat \<Rightarrow> bool \<Rightarrow> bool \<Rightarrow> shared \<Rightarrow> shared \<times> u64 \<times> (auth_error + bytes)" where
  "announce_selection L crypto client_id session_id index carrying path_healthy =
     seal_next L crypto (FLAG_CONTROL OR (if path_healthy then 0 else FLAG_PATH_UNHEALTHY)) client_id session_id
       (\<lambda>_. policy_request \<lparr>pp_path = of_nat index, pp_selected = carrying\<rparr>)"

definition seal_probe ::
  "crypto_lib \<Rightarrow> SessionCrypto \<Rightarrow> bytes \<Rightarrow> u64 \<Rightarrow> shared \<Rightarrow> shared \<times> u64 \<times> (auth_error + bytes)" where
  "seal_probe L crypto client_id session_id = seal_next L crypto FLAG_CONTROL client_id session_id probe_request"

definition seal_offer ::
  "crypto_lib \<Rightarrow> SessionCrypto \<Rightarrow> bytes \<Rightarrow> u64 \<Rightarrow> bool \<Rightarrow> instant \<Rightarrow> shared \<times> LossRepair \<Rightarrow> (shared \<times> LossRepair) \<times> bytes option" where
  "seal_offer L crypto client_id session_id own_healthy now = (\<lambda>(sh, r).
     case repair_offer_due own_healthy now sh r of
       (r, None) \<Rightarrow> ((sh, r), None)
     | (r, Some off) \<Rightarrow>
         (case seal_next L crypto FLAG_CONTROL client_id session_id (\<lambda>_. offer_message off) sh of
            (sh, _, Inl _) \<Rightarrow> ((sh, r), None)
          | (sh, _, Inr frame) \<Rightarrow> ((sh, r), Some frame)))"

subsection \<open>Where a repair goes\<close>

lemma clear_lowest_bits:
  "n \<le> card (bits_of pool) \<Longrightarrow>
     sorted_list_of_set (bits_of (clear_lowest n pool)) = drop n (sorted_list_of_set (bits_of pool))"
proof (induction n arbitrary: pool)
  case (Suc n)
  then have "pool \<noteq> 0" by auto
  then have split: "sorted_list_of_set (bits_of pool) =
      Min (bits_of pool) # sorted_list_of_set (bits_of pool - {Min (bits_of pool)})"
    by (intro sorted_list_of_set_nonempty) simp_all
  have bits: "bits_of (pool AND (pool - 1)) = bits_of pool - {Min (bits_of pool)}"
    using \<open>pool \<noteq> 0\<close> by (rule bits_of_clear_lowest)
  have "n \<le> card (bits_of (pool AND (pool - 1)))"
    using Suc.prems \<open>pool \<noteq> 0\<close> by (simp add: bits)
  from Suc.IH [OF this] show ?case by (simp add: bits split)
qed simp

lemma lowest_is_head:
  assumes "pool \<noteq> 0"
  shows "lowest_bit pool = bit_of_index (hd (sorted_list_of_set (bits_of pool)))"
proof -
  have "sorted_list_of_set (bits_of pool) = Min (bits_of pool) # sorted_list_of_set (bits_of pool - {Min (bits_of pool)})"
    using assms by (intro sorted_list_of_set_nonempty) simp_all
  moreover have "Min (bits_of pool) < 64" using assms Min_in [of "bits_of pool"] by (intro bits_of_less [of _ pool]) simp
  ultimately have "bits_of (lowest_bit pool) = bits_of (bit_of_index (hd (sorted_list_of_set (bits_of pool))))"
    by (simp add: bits_of_lowest [OF assms])
  then show ?thesis by (simp only: bits_of_eq)
qed

definition repair_pool :: "u64 \<Rightarrow> u64 \<Rightarrow> nat set" where
  "repair_pool candidates carrying =
     (if bits_of candidates - bits_of carrying \<noteq> {} then bits_of candidates - bits_of carrying else bits_of candidates)"

text \<open>
  The path a repair takes, computed with bit tricks, is the entry number \<^verbatim>\<open>turn\<close>, modulo their
  number, in the ascending list of the paths it may take: the ones free of data when there are any,
  else all with room. So it is always one single path, never a carrying one while a spare exists, and
  any run of as many turns as there are paths uses each of them once. It cannot panic.
\<close>

theorem repair_target_rotates:
  assumes "candidates \<noteq> 0"
  shows "repair_target candidates carrying turn =
      Ret (bit_of_index (sorted_list_of_set (repair_pool candidates carrying) ! (unat turn mod card (repair_pool candidates carrying))))
    \<and> sorted_list_of_set (repair_pool candidates carrying) ! (unat turn mod card (repair_pool candidates carrying))
        \<in> repair_pool candidates carrying"
proof -
  define pool where "pool = repair_pool candidates carrying"
  define p where "p = (if candidates AND NOT carrying \<noteq> 0 then candidates AND NOT carrying else candidates)"
  define n where "n = unat turn mod card pool"
  have spare: "candidates AND NOT carrying \<noteq> 0 \<longleftrightarrow> bits_of candidates - bits_of carrying \<noteq> {}"
    by (simp flip: bits_of_empty)
  then have pool: "bits_of p = pool" by (simp add: p_def pool_def repair_pool_def)
  have "p \<noteq> 0" using assms(1) by (simp add: p_def)
  then have ne: "pool \<noteq> {}" using pool by auto
  have fin: "finite pool" by (simp flip: pool)
  then have n: "n < card pool" using ne by (simp add: n_def card_gt_0_iff)
  have left: "sorted_list_of_set (bits_of (clear_lowest n p)) = drop n (sorted_list_of_set pool)"
    using n clear_lowest_bits [of n p] by (simp add: pool)
  have "sorted_list_of_set (bits_of (clear_lowest n p)) \<noteq> []" using n by (simp add: left)
  then have "clear_lowest n p \<noteq> 0" by auto
  from lowest_is_head [OF this] have "lowest_bit (clear_lowest n p) = bit_of_index (sorted_list_of_set pool ! n)"
    using n by (simp only: left) (simp add: hd_drop_conv_nth)
  moreover have "repair_target candidates carrying turn = Ret (lowest_bit (clear_lowest n p))"
    using \<open>p \<noteq> 0\<close> ne fin by (simp add: repair_target_def Let_def count_ones_card n_def p_def [symmetric] pool)
  moreover have "sorted_list_of_set pool ! n \<in> pool"
    using n fin nth_mem [of n "sorted_list_of_set pool"] by simp
  ultimately show ?thesis by (simp add: n_def pool_def)
qed

theorem repair_target_rotates_witness:
  "repair_target 15 3 1 = Ret 8 \<and> repair_target 15 3 2 = Ret 4"
proof -
  have "(12 :: u64) = bit_of_index 2 OR bit_of_index 3" by (simp add: bit_of_index_def)
  then have "bits_of (12 :: u64) = {2, 3}" by (simp only: bits_of_simps bits_of_index) auto
  moreover have "bits_of (15 :: u64) - bits_of (3 :: u64) = bits_of (12 :: u64)" using bits_of_and_not [of 15 3] by simp
  ultimately have pool: "repair_pool 15 3 = {2, 3}" by (simp add: repair_pool_def)
  have sorted: "sorted_list_of_set {2, 3 :: nat} = [2, 3]" by simp
  have "(15 :: u64) \<noteq> 0" by simp
  have two: "2 mod Suc (Suc 0) = 0" by (simp add: numeral_2_eq_2)
  from repair_target_rotates [OF \<open>15 \<noteq> 0\<close>, of 3 1] repair_target_rotates [OF \<open>15 \<noteq> 0\<close>, of 3 2]
  show ?thesis by (simp add: pool sorted two bit_of_index_def)
qed

subsection \<open>Everything a client seals\<close>

text \<open>A run of a session: packets, the flusher, the workers' control frames, and what the other threads change.\<close>

datatype client_event =
    Send_Data bytes u8 instant
  | Flusher_Wakes instant
  | Announce nat bool bool
  | Probe_Due
  | Offer_Turn bool instant
  | Probe_Result nat Probe instant
  | Relay_Accepts u8
  | Decided u64
  | Workers_Move Dispatch
  | Measured "nat option list" "nat \<Rightarrow> EffectiveMtu"
  | Session_Stops

definition on_repair :: "(shared \<times> LossRepair \<Rightarrow> shared \<times> LossRepair) \<Rightarrow> shared \<times> DataSender \<Rightarrow> shared \<times> DataSender" where
  "on_repair f = (\<lambda>(sh, ds).
     case ds_loss_repair ds of
       None \<Rightarrow> (sh, ds)
     | Some r \<Rightarrow> (let (sh, r) = f (sh, r) in (sh, ds\<lparr>ds_loss_repair := Some r\<rparr>)))"

text \<open>A direct session has no relay, so its workers send no control frames.\<close>

definition on_relay :: "(SessionCrypto \<Rightarrow> bytes \<Rightarrow> u64 \<Rightarrow> shared \<Rightarrow> shared) \<Rightarrow> shared \<times> DataSender \<Rightarrow> shared \<times> DataSender" where
  "on_relay f = (\<lambda>(sh, ds).
     case ds_overlay ds of
       Direct_Overlay \<Rightarrow> (sh, ds)
     | Relay_Overlay client_id crypto \<Rightarrow> (f crypto client_id (ds_session_id ds) sh, ds))"

fun client_step :: "crypto_lib \<Rightarrow> client_event \<Rightarrow> shared \<times> DataSender \<Rightarrow> shared \<times> DataSender" where
  "client_step L (Send_Data packet node now) s = fst (data_send L now packet node s)"
| "client_step L (Flusher_Wakes now) s = on_repair (\<lambda>x. fst (repair_flusher_turn L now x)) s"
| "client_step L (Announce index carrying healthy) s =
     on_relay (\<lambda>crypto client_id session_id sh. fst (announce_selection L crypto client_id session_id index carrying healthy sh)) s"
| "client_step L Probe_Due s =
     on_relay (\<lambda>crypto client_id session_id sh. fst (seal_probe L crypto client_id session_id sh)) s"
| "client_step L (Offer_Turn healthy now) s =
     on_repair (\<lambda>(sh, r). fst (seal_offer L (lr_crypto r) (lr_client_id r) (lr_session_id r) healthy now (sh, r))) s"
| "client_step L (Probe_Result index probe now) s = on_repair (\<lambda>(sh, r). (sh, repair_record_probe index probe now sh r)) s"
| "client_step L (Relay_Accepts grp) s = on_repair (\<lambda>(sh, r). (sh, repair_accepted grp r)) s"
| "client_step L (Decided m) s = (fst s\<lparr>sh_decision_mask := m\<rparr>, snd s)"
| "client_step L (Workers_Move d) s = (fst s\<lparr>sh_dispatch := d\<rparr>, snd s)"
| "client_step L (Measured found derive) s = on_repair (\<lambda>(sh, r). (sh, r\<lparr>lr_mtu := finish_measurement found derive (lr_mtu r)\<rparr>)) s"
| "client_step L Session_Stops s = (fst s, snd s\<lparr>ds_stop := True\<rparr>)"

definition data_frames :: "(FrameHeader \<times> bytes) list \<Rightarrow> (u64 \<times> bytes) set" where
  "data_frames sealed = {(fh_sequence h, p) | h p. (h, p) \<in> set sealed \<and> fh_flags h = 0}"

definition covers_data :: "(FrameHeader \<times> bytes) list \<Rightarrow> bytes \<Rightarrow> bool" where
  "covers_data sealed p \<longleftrightarrow> (\<exists>grp. group_wf grp \<and> p = repair_payload grp \<and> set grp \<subseteq> data_frames sealed)"

text \<open>The flags a client puts on a frame: none for data, the repair flag alone, or a control flag.\<close>

definition frame_kind :: "u8 \<Rightarrow> bool" where
  "frame_kind flags \<longleftrightarrow> flags = 0 \<or> flags = FLAG_REPAIR \<or> flags AND FLAG_CONTROL \<noteq> 0"

definition shared_ok :: "shared \<Rightarrow> bool" where
  "shared_ok sh \<longleftrightarrow>
     map (\<lambda>(h, _). fh_sequence h) (sh_sealed sh) = map (\<lambda>i. of_nat (Suc i)) [0..<length (sh_sealed sh)]
     \<and> sh_sequences sh = of_nat (Suc (length (sh_sealed sh)))
     \<and> (\<forall>(h, p) \<in> set (sh_sealed sh). frame_kind (fh_flags h) \<and> (fh_flags h = FLAG_REPAIR \<longrightarrow> covers_data (sh_sealed sh) p))"

definition sealed_extends :: "shared \<Rightarrow> shared \<Rightarrow> bool" where
  "sealed_extends sh sh' \<longleftrightarrow> shared_ok sh' \<and> set (sh_sealed sh) \<subseteq> set (sh_sealed sh')"

definition encoder_ok :: "shared \<Rightarrow> LossRepair \<Rightarrow> bool" where
  "encoder_ok sh r \<longleftrightarrow> (\<exists>grp. encoder_holds (lr_encoder r) grp \<and> set grp \<subseteq> data_frames (sh_sealed sh))"

lemma data_frames_mono: "set sealed \<subseteq> set sealed' \<Longrightarrow> data_frames sealed \<subseteq> data_frames sealed'"
  by (auto simp: data_frames_def)

lemma covers_mono: "covers_data sealed p \<Longrightarrow> set sealed \<subseteq> set sealed' \<Longrightarrow> covers_data sealed' p"
  unfolding covers_data_def using data_frames_mono by blast

lemma extends_refl: "shared_ok sh \<Longrightarrow> sealed_extends sh sh"
  by (simp add: sealed_extends_def)

lemma extends_trans: "sealed_extends a b \<Longrightarrow> sealed_extends b c \<Longrightarrow> sealed_extends a c"
  by (auto simp: sealed_extends_def)

lemma extends_dispatch [simp]:
  "sealed_extends sh (sh'\<lparr>sh_dispatch := d\<rparr>) = sealed_extends sh sh'"
  "sealed_extends sh (sh'\<lparr>sh_decision_mask := m\<rparr>) = sealed_extends sh sh'"
  by (simp_all add: sealed_extends_def shared_ok_def)

lemma seal_next_extends:
  assumes "shared_ok sh" and "flags = FLAG_REPAIR \<Longrightarrow> covers_data (sh_sealed sh) (payload (sh_sequences sh))"
    and "seal_next L crypto flags client_id session_id payload sh = (sh', s, res)" and "frame_kind flags"
  shows "sealed_extends sh sh'" and "flags = 0 \<Longrightarrow> (s, payload s) \<in> data_frames (sh_sealed sh')"
    and "s = sh_sequences sh"
proof -
  define h where "h = \<lparr>fh_flags = flags, fh_client_id = client_id, fh_session_id = session_id, fh_sequence = sh_sequences sh\<rparr>"
  have sh': "sh' = sh\<lparr>sh_sequences := sh_sequences sh + 1, sh_sealed := sh_sealed sh @ [(h, payload (sh_sequences sh))]\<rparr>"
    and s: "s = sh_sequences sh"
    using assms(3) by (auto simp: seal_next_def Let_def h_def)
  then show "s = sh_sequences sh" by simp
  have grow: "set (sh_sealed sh) \<subseteq> set (sh_sealed sh')" by (auto simp: sh')
  have "covers_data (sh_sealed sh') p" if "(h', p) \<in> set (sh_sealed sh')" "fh_flags h' = FLAG_REPAIR" for h' p
    using that assms(1,2) covers_mono [OF _ grow] by (auto simp: sh' h_def shared_ok_def)
  moreover have "frame_kind (fh_flags h')" if "(h', p) \<in> set (sh_sealed sh')" for h' p
    using that assms(1,4) by (auto simp: sh' h_def shared_ok_def)
  moreover have "map (\<lambda>(h, _). fh_sequence h) (sh_sealed sh') = map (\<lambda>i. of_nat (Suc i)) [0..<length (sh_sealed sh')]"
    "sh_sequences sh' = of_nat (Suc (length (sh_sealed sh')))"
    using assms(1) by (simp_all add: shared_ok_def sh' h_def)
  ultimately show "sealed_extends sh sh'"
    using grow unfolding sealed_extends_def shared_ok_def by blast
  show "flags = 0 \<Longrightarrow> (s, payload s) \<in> data_frames (sh_sealed sh')"
  proof -
    assume "flags = 0"
    then have "(h, payload s) \<in> set (sh_sealed sh')" "fh_flags h = 0" "fh_sequence h = s"
      by (simp_all add: sh' s h_def)
    then show ?thesis unfolding data_frames_def by blast
  qed
qed

lemma repair_send_extends:
  assumes "shared_ok sh" and "covers_data (sh_sealed sh) repair"
    and "repair_send L now repair (sh, r) = (sh', r')"
  shows "sealed_extends sh sh' \<and> lr_encoder r' = lr_encoder r"
proof (cases "with_room sh (if sh_healthy sh \<noteq> 0 then sh_healthy sh else sh_decision_mask sh) = 0")
  case True
  then show ?thesis using assms by (simp add: repair_send_def Let_def extends_refl)
next
  case False
  let ?paths = "with_room sh (if sh_healthy sh \<noteq> 0 then sh_healthy sh else sh_decision_mask sh)"
  obtain sh1 s res where sealed: "seal_next L (lr_crypto r) FLAG_REPAIR (lr_client_id r) (lr_session_id r) (\<lambda>_. repair) sh = (sh1, s, res)"
    by (metis prod_cases3)
  have ext: "sealed_extends sh sh1"
    using seal_next_extends(1) [OF assms(1) _ sealed] assms(2) by (simp add: frame_kind_def)
  show ?thesis
  proof (cases "repair_target ?paths (sh_decision_mask sh) (lr_repairs_sent r)")
    case Panic
    then show ?thesis using assms False by (simp add: repair_send_def Let_def extends_refl)
  next
    case (Ret target)
    show ?thesis
    proof (cases res)
      case (Inl e)
      then show ?thesis using assms(3) False Ret sealed ext by (simp add: repair_send_def Let_def)
    next
      case (Inr frame)
      obtain d outcome where "dispatch_send frame target now (sh_dispatch sh1) = (d, outcome)" by fastforce
      then show ?thesis using assms(3) False Ret sealed ext Inr
        by (auto simp: repair_send_def Let_def)
    qed
  qed
qed

lemma repair_sends_extend:
  assumes "shared_ok sh" and "\<forall>p \<in> set ps. covers_data (sh_sealed sh) p"
    and "fold (repair_send L now) ps (sh, r) = (sh', r')"
  shows "sealed_extends sh sh' \<and> lr_encoder r' = lr_encoder r"
  using assms
proof (induction ps arbitrary: sh r)
  case Nil
  then show ?case by (simp add: extends_refl)
next
  case (Cons p ps)
  obtain sh1 r1 where one: "repair_send L now p (sh, r) = (sh1, r1)" by fastforce
  have ext: "sealed_extends sh sh1 \<and> lr_encoder r1 = lr_encoder r"
    using repair_send_extends [OF Cons.prems(1) _ one] Cons.prems(2) by simp
  then have "shared_ok sh1" "\<forall>p \<in> set ps. covers_data (sh_sealed sh1) p"
    using Cons.prems(2) covers_mono by (auto simp: sealed_extends_def)
  with Cons.IH [of sh1 r1] Cons.prems(3) one ext show ?case using extends_trans by auto
qed

lemma encoder_ok_mono: "encoder_ok sh r \<Longrightarrow> sealed_extends sh sh' \<Longrightarrow> lr_encoder r' = lr_encoder r \<Longrightarrow> encoder_ok sh' r'"
  unfolding encoder_ok_def sealed_extends_def using data_frames_mono [of "sh_sealed sh" "sh_sealed sh'"] by auto

text \<open>What an encoder run emits covers sealed data, when the packets it was given are sealed data.\<close>

lemma encoder_emits_covered:
  assumes "encoder_ok sh r" and "set (protected_packets evs (lr_encoder r)) \<subseteq> data_frames (sh_sealed sh)"
    and "encoder_run evs (lr_encoder r) = (enc, outs)"
  shows "(\<forall>p \<in> set outs. covers_data (sh_sealed sh) p) \<and> encoder_ok sh (r\<lparr>lr_encoder := enc\<rparr>)"
proof -
  from assms(1) obtain grp where grp: "encoder_holds (lr_encoder r) grp" "set grp \<subseteq> data_frames (sh_sealed sh)"
    by (auto simp: encoder_ok_def)
  from encoder_run_covers [OF grp(1), of evs] obtain groups rest where
    outs: "outs = map repair_payload groups" "encoder_holds enc rest" "\<forall>g \<in> set groups. group_wf g"
    and all: "concat groups @ rest = grp @ protected_packets evs (lr_encoder r)"
    using assms(3) by auto
  have "set (concat groups @ rest) \<subseteq> data_frames (sh_sealed sh)"
    unfolding all using grp(2) assms(2) by simp
  then have "\<forall>g \<in> set groups. set g \<subseteq> data_frames (sh_sealed sh)" "set rest \<subseteq> data_frames (sh_sealed sh)" by auto
  with outs show ?thesis by (auto simp: covers_data_def encoder_ok_def)
qed

lemma protect_extends:
  assumes ok: "shared_ok sh" "encoder_ok sh r" and sealed: "(s, packet) \<in> data_frames (sh_sealed sh)"
    and run: "protect L now s packet (sh, r) = (sh', r')"
  shows "sealed_extends sh sh' \<and> encoder_ok sh' r'"
proof (cases "lr_support r = SUPPORTED")
  case False
  then show ?thesis using run ok by (auto simp: protect_def extends_refl)
next
  case True
  define evs where "evs = [SetMaxPacket (unfragmented_size (session_mtu_current (lr_mtu r))),
    SetGroup (desired_group sh r), PushPacket s packet now]"
  obtain e1 o1 where e1: "set_group_size (desired_group sh r)
      (set_max_packet (unfragmented_size (session_mtu_current (lr_mtu r))) (lr_encoder r)) = (e1, o1)" by fastforce
  obtain enc o2 where e2: "encoder_push s packet now e1 = (enc, o2)" by fastforce
  define outs where "outs = option_list o1 @ option_list o2"
  have er: "encoder_run evs (lr_encoder r) = (enc, outs)"
    using e1 e2 by (simp add: evs_def outs_def option_list_def)
  have "set (protected_packets evs (lr_encoder r)) \<subseteq> data_frames (sh_sealed sh)" using sealed by (simp add: evs_def)
  from encoder_emits_covered [OF ok(2) this er]
  have covered: "\<forall>p \<in> set outs. covers_data (sh_sealed sh) p" "encoder_ok sh (r\<lparr>lr_encoder := enc\<rparr>)" by simp_all
  have "fold (repair_send L now) outs (sh, r\<lparr>lr_encoder := enc\<rparr>) = (sh', r')"
    using run True e1 e2 by (simp add: protect_def outs_def Let_def)
  from repair_sends_extend [OF ok(1) covered(1) this] have "sealed_extends sh sh'" "lr_encoder r' = enc" by simp_all
  then show ?thesis using encoder_ok_mono [OF covered(2), of sh' r'] by simp
qed

lemma flusher_extends:
  assumes ok: "shared_ok sh" "encoder_ok sh r" and run: "fst (repair_flusher_turn L now (sh, r)) = (sh', r')"
  shows "sealed_extends sh sh' \<and> encoder_ok sh' r'"
proof (cases "\<exists>d. deadline (lr_encoder r) = Some d \<and> d \<le> now")
  case False
  then have "sh' = sh" "r' = r" using run by (auto simp: repair_flusher_turn_def split: option.splits if_splits)
  then show ?thesis using ok by (simp add: extends_refl)
next
  case True
  obtain enc due where due: "flush_due now (lr_encoder r) = (enc, due)" by fastforce
  define outs where "outs = option_list due"
  have er: "encoder_run [FlushDue now] (lr_encoder r) = (enc, outs)"
    using due by (simp add: outs_def option_list_def)
  from encoder_emits_covered [OF ok(2) _ er]
  have covered: "\<forall>p \<in> set outs. covers_data (sh_sealed sh) p" "encoder_ok sh (r\<lparr>lr_encoder := enc\<rparr>)" by simp_all
  have "fold (repair_send L now) outs (sh, r\<lparr>lr_encoder := enc\<rparr>) = (sh', r')"
    using run True due by (auto simp: repair_flusher_turn_def outs_def Let_def)
  from repair_sends_extend [OF ok(1) covered(1) this] have "sealed_extends sh sh'" "lr_encoder r' = enc" by simp_all
  then show ?thesis using encoder_ok_mono [OF covered(2), of sh' r'] by simp
qed

definition client_ok :: "shared \<times> DataSender \<Rightarrow> bool" where
  "client_ok s \<longleftrightarrow> shared_ok (fst s) \<and> (\<forall>r. ds_loss_repair (snd s) = Some r \<longrightarrow> encoder_ok (fst s) r)"

lemma after_dispatch_ok:
  assumes ok: "client_ok (sh, ds)" and sealed: "\<And>s. sequence = Some s \<Longrightarrow> (s, packet) \<in> data_frames (sh_sealed sh)"
  shows "client_ok (fst (after_dispatch L now packet sequence outcome (sh, ds)))"
proof (cases "dd_selected outcome = 0")
  case True
  then show ?thesis using ok by (simp add: after_dispatch_def client_ok_def)
next
  case selected: False
  show ?thesis
  proof (cases "\<exists>r s. ds_loss_repair ds = Some r \<and> sequence = Some s")
    case False
    then have "ds_loss_repair ds = None \<or> sequence = None" by (cases "ds_loss_repair ds"; cases sequence) auto
    then show ?thesis using ok selected
      by (auto simp: after_dispatch_def client_ok_def Let_def split: option.splits)
  next
    case True
    then obtain r s where r: "ds_loss_repair ds = Some r" "sequence = Some s" by auto
    obtain sh' r' where run: "protect L now s packet (sh, r) = (sh', r')" by fastforce
    have "sealed_extends sh sh' \<and> encoder_ok sh' r'"
      using protect_extends [OF _ _ sealed run] ok r by (simp add: client_ok_def)
    then show ?thesis using selected r run by (simp add: after_dispatch_def client_ok_def Let_def sealed_extends_def)
  qed
qed

lemma client_ok_extends:
  "client_ok (sh, ds) \<Longrightarrow> sealed_extends sh sh' \<Longrightarrow> client_ok (sh', ds)"
  using encoder_ok_mono by (fastforce simp: client_ok_def sealed_extends_def)

lemma client_ok_dispatch: "client_ok (sh\<lparr>sh_dispatch := d\<rparr>, ds) = client_ok (sh, ds)"
  by (simp add: client_ok_def shared_ok_def encoder_ok_def)

lemma data_send_ok:
  assumes "client_ok (sh, ds)"
  shows "client_ok (fst (data_send L now packet node (sh, ds)))"
proof (cases "is_live ds")
  case False
  then show ?thesis using assms by (simp add: data_send_def)
next
  case True
  show ?thesis
  proof (cases "ds_overlay ds")
    case Direct_Overlay
    obtain d outcome where "dispatch_send packet (bit_of_index (unat node)) now (sh_dispatch sh) = (d, outcome)" by fastforce
    then show ?thesis using True Direct_Overlay assms after_dispatch_ok [of "sh\<lparr>sh_dispatch := d\<rparr>" ds None]
      by (simp add: data_send_def client_ok_dispatch)
  next
    case (Relay_Overlay client_id crypto)
    obtain sh1 s res where sealed: "seal_next L crypto 0 client_id (ds_session_id ds) (\<lambda>_. packet) sh = (sh1, s, res)"
      by (metis prod_cases3)
    have zero: "(0 :: u8) = FLAG_REPAIR \<Longrightarrow> False" by (simp add: FLAG_REPAIR_def)
    have ext: "sealed_extends sh sh1" and frame: "(s, packet) \<in> data_frames (sh_sealed sh1)"
      using seal_next_extends [OF _ _ sealed] assms zero by (auto simp: client_ok_def frame_kind_def)
    have ok1: "client_ok (sh1, ds)" using client_ok_extends assms ext by blast
    show ?thesis
    proof (cases res)
      case (Inl e)
      then show ?thesis using True Relay_Overlay sealed ok1 by (simp add: data_send_def)
    next
      case (Inr f)
      obtain d outcome where "dispatch_send f (selected_paths (sh_decision_mask sh1) (sh_healthy sh1)) now (sh_dispatch sh1) = (d, outcome)"
        by fastforce
      then show ?thesis using True Relay_Overlay sealed Inr ok1 frame after_dispatch_ok [of "sh1\<lparr>sh_dispatch := d\<rparr>" ds "Some s"]
        by (simp add: data_send_def client_ok_dispatch)
    qed
  qed
qed

lemma on_repair_ok:
  assumes "client_ok (sh, ds)"
    and "\<And>r sh' r'. shared_ok sh \<Longrightarrow> encoder_ok sh r \<Longrightarrow> f (sh, r) = (sh', r') \<Longrightarrow> sealed_extends sh sh' \<and> encoder_ok sh' r'"
  shows "client_ok (on_repair f (sh, ds))"
proof (cases "ds_loss_repair ds")
  case None
  then show ?thesis using assms(1) by (simp add: on_repair_def)
next
  case (Some r)
  obtain sh' r' where run: "f (sh, r) = (sh', r')" by fastforce
  have "shared_ok sh" "encoder_ok sh r" using assms(1) Some by (simp_all add: client_ok_def)
  from assms(2) [OF this run] show ?thesis using Some run by (simp add: on_repair_def client_ok_def sealed_extends_def)
qed

lemma on_relay_ok:
  assumes "client_ok (sh, ds)" and "\<And>crypto client_id session_id. shared_ok sh \<Longrightarrow> sealed_extends sh (f crypto client_id session_id sh)"
  shows "client_ok (on_relay f (sh, ds))"
proof (cases "ds_overlay ds")
  case Direct_Overlay
  then show ?thesis using assms(1) by (simp add: on_relay_def)
next
  case (Relay_Overlay client_id crypto)
  have "shared_ok sh" using assms(1) by (simp add: client_ok_def)
  from client_ok_extends [OF assms(1) assms(2) [OF this]] show ?thesis by (simp add: on_relay_def Relay_Overlay)
qed

lemma seal_control_extends:
  assumes "shared_ok sh" and "flags AND 1 = 1"
  shows "sealed_extends sh (fst (seal_next L crypto flags client_id session_id payload sh))"
proof -
  have "flags \<noteq> FLAG_REPAIR" "frame_kind flags" using assms(2) by (auto simp: FLAG_REPAIR_def FLAG_CONTROL_def frame_kind_def)
  then show ?thesis using seal_next_extends(1) [OF assms(1)] by (metis prod.collapse)
qed

lemma probe_keeps_encoder: "lr_encoder (repair_record_probe index probe now sh r) = lr_encoder r"
  by (simp add: repair_record_probe_def Let_def case_prod_unfold)

lemma offer_keeps_encoder: "lr_encoder (fst (repair_offer_due h now sh r)) = lr_encoder r"
  by (simp add: repair_offer_due_def Let_def)

lemma seal_offer_extends:
  assumes "shared_ok sh" and "encoder_ok sh r"
    and "fst (seal_offer L crypto client_id session_id h now (sh, r)) = (sh', r')"
  shows "sealed_extends sh sh' \<and> encoder_ok sh' r'"
proof -
  obtain r1 off where due: "repair_offer_due h now sh r = (r1, off)" by fastforce
  then have enc: "lr_encoder r1 = lr_encoder r" using offer_keeps_encoder [of h now sh r] by simp
  show ?thesis
  proof (cases off)
    case None
    then show ?thesis using due assms enc encoder_ok_mono extends_refl by (fastforce simp: seal_offer_def)
  next
    case (Some o')
    obtain sh1 s res where sealed: "seal_next L crypto FLAG_CONTROL client_id session_id (\<lambda>_. offer_message o') sh = (sh1, s, res)"
      by (metis prod_cases3)
    have "sealed_extends sh sh1"
      using seal_control_extends [OF assms(1), of FLAG_CONTROL L crypto client_id session_id "\<lambda>_. offer_message o'"] sealed
      by (simp add: FLAG_CONTROL_def)
    moreover have "sh' = sh1" "r' = r1" using assms(3) due Some sealed by (auto simp: seal_offer_def split: sum.splits)
    ultimately show ?thesis using encoder_ok_mono [OF assms(2)] enc by simp
  qed
qed

lemma client_step_ok:
  assumes "client_ok s"
  shows "client_ok (client_step L ev s)"
proof -
  obtain sh ds where s: "s = (sh, ds)" by fastforce
  note ok = assms [unfolded s]
  show ?thesis unfolding s
  proof (cases ev)
    case (Send_Data packet node now)
    then show "client_ok (client_step L ev (sh, ds))" using data_send_ok [OF ok] by simp
  next
    case (Flusher_Wakes now)
    then show "client_ok (client_step L ev (sh, ds))"
      using on_repair_ok [OF ok, of "\<lambda>x. fst (repair_flusher_turn L now x)"] flusher_extends by simp
  next
    case (Announce index carrying healthy)
    have "(FLAG_CONTROL OR (if healthy then 0 else FLAG_PATH_UNHEALTHY)) AND 1 = 1" by (simp add: flag_defs)
    then show "client_ok (client_step L ev (sh, ds))"
      using on_relay_ok [OF ok] seal_control_extends by (simp add: Announce announce_selection_def)
  next
    case Probe_Due
    have "FLAG_CONTROL AND 1 = 1" by (simp add: flag_defs)
    then show "client_ok (client_step L ev (sh, ds))"
      using on_relay_ok [OF ok] seal_control_extends by (simp add: Probe_Due seal_probe_def)
  next
    case (Offer_Turn healthy now)
    have "client_ok (on_repair (\<lambda>(sh, r).
        fst (seal_offer L (lr_crypto r) (lr_client_id r) (lr_session_id r) healthy now (sh, r))) (sh, ds))"
      by (rule on_repair_ok [OF ok]) (simp add: seal_offer_extends)
    then show "client_ok (client_step L ev (sh, ds))" by (simp add: Offer_Turn)
  next
    case (Probe_Result index probe now)
    then show "client_ok (client_step L ev (sh, ds))"
      using on_repair_ok [OF ok] probe_keeps_encoder encoder_ok_mono extends_refl by fastforce
  next
    case (Relay_Accepts grp)
    then show "client_ok (client_step L ev (sh, ds))"
      using ok by (auto simp: on_repair_def client_ok_def encoder_ok_def repair_accepted_def split: option.splits)
  next
    case (Decided m)
    then show "client_ok (client_step L ev (sh, ds))" using ok by (simp add: client_ok_def shared_ok_def encoder_ok_def)
  next
    case (Workers_Move d)
    then show "client_ok (client_step L ev (sh, ds))" using ok by (simp add: client_ok_dispatch)
  next
    case (Measured found derive)
    then show "client_ok (client_step L ev (sh, ds))"
      using ok by (auto simp: on_repair_def client_ok_def encoder_ok_def split: option.splits)
  next
    case Session_Stops
    then show "client_ok (client_step L ev (sh, ds))" using ok by (simp add: client_ok_def)
  qed
qed

text \<open>A relay session at its start: numbering begins at one, nothing is sealed, the encoder is empty.\<close>

definition client_new :: "bytes \<Rightarrow> SessionCrypto \<Rightarrow> u64 \<Rightarrow> nat \<Rightarrow> SessionMtu \<Rightarrow> u64 \<Rightarrow> instant \<Rightarrow> shared \<times> DataSender" where
  "client_new client_id crypto session_id routes mtu decision now =
     (\<lparr>sh_sequences = 1, sh_decision_mask = decision, sh_dispatch = dispatch_new PATH_QUEUE_DEPTH routes, sh_sealed = []\<rparr>,
      \<lparr>ds_overlay = Relay_Overlay client_id crypto, ds_session_id = session_id,
       ds_loss_repair = Some (loss_repair_new crypto client_id session_id routes mtu now),
       ds_user_bytes_sent = 0, ds_stop = False, ds_diagnostics = []\<rparr>)"

interpretation client: component "client_new client_id crypto session_id routes mtu decision now" "client_step L" client_ok
  for client_id crypto session_id routes mtu decision now L
proof
  show "client_ok (client_new client_id crypto session_id routes mtu decision now)"
    using encoder_new_holds [of SINGLE_PATH_GROUP "unfragmented_size (session_mtu_current mtu)"]
    by (auto simp: client_ok_def client_new_def shared_ok_def encoder_ok_def loss_repair_new_def intro: exI [of _ "[]"])
qed (rule client_step_ok)

lemma distinct_numbering: "n < 2 ^ 64 \<Longrightarrow> distinct (map (\<lambda>i. of_nat (Suc i) :: u64) [0..<n])"
  by (auto simp: distinct_map inj_on_def simp flip: of_nat_Suc dest!: arg_cong [of _ _ unat] simp: unat_of_nat)

text \<open>
  C4. Whatever a relay session does, in any order - packets from the capture threads, repairs from the
  flusher, probes, offers and path announcements from the workers, with paths failing, the scheduler
  re-deciding and the MTU being measured in between - no two frames it seals share a nonce (for fewer
  than \<open>2 ^ 64\<close> frames), and every repair it seals is exactly the parity of a group of packets that
  were themselves sealed as data frames under the sequences the repair names.
\<close>

theorem sealed_once_and_repairs_cover:
  assumes "fold (client_step L) es (client_new client_id crypto session_id routes mtu decision now) = (sh, ds)"
    and "length (sh_sealed sh) < 2 ^ 64"
  shows "distinct (map (\<lambda>(h, _). nonce CLIENT_TO_SERVER_NONCE (fh_sequence h)) (sh_sealed sh))
    \<and> (\<forall>h p. (h, p) \<in> set (sh_sealed sh) \<and> fh_flags h = FLAG_REPAIR \<longrightarrow>
         (\<exists>grp. group_wf grp \<and> p = repair_payload grp \<and> set grp \<subseteq> data_frames (sh_sealed sh)))"
proof -
  have "client_ok (sh, ds)"
    using client.run_inv [of L es client_id crypto session_id routes mtu decision now] assms(1) by simp
  then have ok: "shared_ok sh" by (simp add: client_ok_def)
  then have "distinct (map (\<lambda>(h, _). fh_sequence h) (sh_sealed sh))"
    using distinct_numbering [OF assms(2)] by (simp add: shared_ok_def)
  then have "distinct (map (nonce CLIENT_TO_SERVER_NONCE) (map (\<lambda>(h, _). fh_sequence h) (sh_sealed sh)))"
    by (subst distinct_map) (simp add: inj_on_def nonce_inject)
  then have "distinct (map (\<lambda>(h, _). nonce CLIENT_TO_SERVER_NONCE (fh_sequence h)) (sh_sealed sh))"
    by (simp add: comp_def case_prod_unfold)
  then show ?thesis using ok by (auto simp: shared_ok_def covers_data_def)
qed

definition sample_session_mtu :: SessionMtu where
  "sample_session_mtu =
     \<lparr>sm_derived = \<lparr>em_mtu = 1400, em_overhead = 100, em_below_link_budget = False, em_budget = 1400\<rparr>, sm_measured = None\<rparr>"

definition sample_uplink :: "shared \<times> DataSender" where
  "sample_uplink = fold (client_step tag_lib) [Relay_Accepts 1, Probe_Due, Send_Data [7] 0 0, Send_Data [8, 9] 0 1]
     (client_new (replicate 16 0) sample_crypto 5 1 sample_session_mtu 1 0)"

lemma count_ones_small [simp]: "count_ones (0 :: u64) = 0" "count_ones (1 :: u64) = 1"
  by (simp_all add: count_ones_def upt_rec)

lemma sample_uplink_seals:
  "map (\<lambda>(h, p). (fh_flags h, fh_sequence h, p)) (sh_sealed (fst sample_uplink)) =
     [(1, 1, probe_request 1), (0, 2, [7]), (0, 3, [8, 9]), (4, 4, repair_payload [(2, [7])])]"
  by (simp add: sample_uplink_def client_new_def on_repair_def on_relay_def seal_probe_def seal_next_def data_send_def
      repair_accepted_def loss_repair_new_def is_live_def sh_healthy_def selected_paths_def sample_session_mtu_def
      seal_client_def seal_def tag_lib_def Let_def dispatch_send_def dispatch_new_def telemetry_new_def PATH_QUEUE_DEPTH_def
      send_to_def bit_of_index_def reserve_def publish_def settle_def queue_depth_at_def update_at_def queue_try_send_def
      count_outcome_def after_dispatch_def protect_def desired_group_def group_size_for_def SINGLE_PATH_GROUP_def
      UNKNOWN_def SUPPORTED_def encoder_new_def set_max_packet_def set_group_size_def clamp_group_def MAX_GROUP_def
      encoder_push_def can_join_def encoder_close_def option_list_def repair_send_def with_room_def REPAIR_QUEUE_LIMIT_def
      repair_target_def lowest_bit_def unfragmented_size_def session_mtu_current_def MIN_SIGNALLED_MTU_def
      FLAG_REPAIR_def FLAG_CONTROL_def repair_payload_def offsets_of_def group_parity_def subslice_def)

theorem sealed_once_and_repairs_cover_witness:
  "length (sh_sealed (fst sample_uplink)) = 4
   \<and> distinct (map (\<lambda>(h, _). nonce CLIENT_TO_SERVER_NONCE (fh_sequence h)) (sh_sealed (fst sample_uplink)))"
proof -
  have four: "length (sh_sealed (fst sample_uplink)) = 4"
    using arg_cong [OF sample_uplink_seals, of length] by simp
  have "fold (client_step tag_lib) [Relay_Accepts 1, Probe_Due, Send_Data [7] 0 0, Send_Data [8, 9] 0 1]
      (client_new (replicate 16 0) sample_crypto 5 1 sample_session_mtu 1 0) = (fst sample_uplink, snd sample_uplink)"
    by (simp only: sample_uplink_def prod.collapse)
  from sealed_once_and_repairs_cover [OF this] four show ?thesis by simp
qed

end
