(* ===== verification/Uplink.thy ===== *)
theory Uplink
  imports Relay_Safety Client_Send
begin

section \<open>From the client to the TUN device\<close>

text \<open>
  The two ends together: what a client session seals, lost, repeated and reordered by the paths in
  between, and what the relay session writes to the TUN device in the end. Every operation of the
  relay session is an \<open>uplink_move\<close>: it consumes some packets the client sealed as data, under
  sequences it has not consumed before, and what it writes is what the reassembler makes of them.
  Moves compose.
\<close>

subsection \<open>What reassembly makes of a list of packets\<close>

fun reassemble_run :: "(bytes \<times> instant) list \<Rightarrow> Reassembler \<Rightarrow> Reassembler \<times> bytes list" where
  "reassemble_run [] r = (r, [])"
| "reassemble_run ((packet, now) # rest) r =
     (let (r, whole) = rebuilt packet now r; (r, out) = reassemble_run rest r in (r, option_list whole @ out))"

lemma reassemble_append:
  assumes "reassemble_run xs r = (r1, as)" and "reassemble_run ys r1 = (r2, bs)"
  shows "reassemble_run (xs @ ys) r = (r2, as @ bs)"
  using assms by (induction xs r arbitrary: r1 as rule: reassemble_run.induct) (auto simp: Let_def split: prod.splits)

lemma write_to_tun_writes:
  "reassemble_run [(packet, now)] (ss_fragments s) =
     (ss_fragments (fst (write_to_tun packet now s)), tun_packets (snd (write_to_tun packet now s)))"
  by (simp add: write_to_tun_def case_prod_unfold Let_def option_list_def split: option.splits)

lemma write_to_tun_replay [simp]: "ss_replay (fst (write_to_tun packet now s)) = ss_replay s"
  by (simp add: write_to_tun_def case_prod_unfold Let_def)

subsection \<open>What the window refuses\<close>

lemma too_old_history:
  assumes "remembers w A"
  shows "is_too_old w q \<longleftrightarrow> A \<noteq> {} \<and> unat q + 8192 \<le> Max A"
proof (cases "A = {}")
  case True
  then show ?thesis using assms by (simp add: is_too_old_def remembers_def)
next
  case False
  then have init: "rw_initialized w" and top: "unat (rw_highest w) = Max A" using assms by (auto simp: remembers_def)
  show ?thesis
  proof (cases "q \<le> rw_highest w")
    case True
    then have "unat (rw_highest w - q) = Max A - unat q" "unat q \<le> Max A"
      by (simp_all add: unat_sub top word_le_nat_alt [of q])
    then show ?thesis using True False init by (auto simp: is_too_old_def word_le_nat_alt [of WINDOW])
  next
    case out: False
    then show ?thesis using False init by (simp add: is_too_old_def word_le_nat_alt top WINDOW_def)
  qed
qed

lemma old_stays_old:
  assumes "window_ok w" and "is_too_old w q"
  shows "is_too_old (snd (replay_accept w k)) q"
proof -
  obtain A where A: "remembers w A" using assms(1) by (auto simp: window_ok_def)
  then have "finite A" by (simp add: remembers_def)
  moreover have "A \<noteq> {}" "unat q + 8192 \<le> Max A" using assms(2) too_old_history [OF A] by auto
  ultimately have "unat q + 8192 \<le> Max (insert (unat k) A)" by (simp add: max_def)
  then show ?thesis
    using too_old_history [OF accept_history [OF A]] \<open>A \<noteq> {}\<close> \<open>unat q + 8192 \<le> Max A\<close> by (simp add: history_accept_def)
qed

text \<open>Accepting one sequence refuses from then on that sequence and what fell behind the window.\<close>

lemma newly_refused:
  assumes "window_ok w" and "would_accept w q" and "\<not> would_accept (snd (replay_accept w k)) q"
  shows "q = k \<and> would_accept w k \<or> is_too_old (snd (replay_accept w k)) q"
proof -
  obtain A where A: "remembers w A" using assms(1) by (auto simp: window_ok_def)
  let ?B = "snd (history_accept A (unat k))"
  note B = accept_history [OF A, of k]
  have admits: "history_admits A (unat q)" "\<not> history_admits ?B (unat q)"
    using assms(2,3) would_accept_history [OF A] would_accept_history [OF B] by simp_all
  then have k: "history_admits A (unat k)" "?B = insert (unat k) A" by (auto simp: history_accept_def split: if_splits)
  have "unat q \<le> Max ?B" "unat q \<in> ?B \<or> unat q + 8192 \<le> Max ?B"
    using admits(2) by (auto simp: history_admits_def)
  moreover have "unat q \<notin> A"
  proof
    assume "unat q \<in> A"
    moreover have "finite A" using A by (simp add: remembers_def)
    ultimately show False using admits(1) by (auto simp: history_admits_def dest: Max_ge [of A])
  qed
  ultimately have "unat q = unat k \<or> unat q + 8192 \<le> Max ?B" using k(2) by auto
  moreover have "?B \<noteq> {}" using k(2) by simp
  ultimately show ?thesis
    using too_old_history [OF B] would_accept_history [OF A] k(1) by (auto simp: word_unat_eq_iff)
qed

subsection \<open>Moves\<close>

definition uplink_ok :: "(u64 \<rightharpoonup> bytes) \<Rightarrow> SessionState \<Rightarrow> bool" where
  "uplink_ok truth s \<longleftrightarrow> window_ok (ss_replay s) \<and> (\<forall>r. ss_repair s = Some r \<longrightarrow> decoder_ok truth (rs_decoder r))"

text \<open>
  \<open>ds\<close> lists what a move consumed: packets that are true, under sequences accepted before and refused
  afterwards - and every true packet of the client's own address whose sequence the move used up, unless
  it fell behind the window.
\<close>

definition consumes ::
  "(u64 \<rightharpoonup> bytes) \<Rightarrow> ipv4 \<Rightarrow> ReplayWindow \<Rightarrow> (u64 \<times> bytes \<times> instant) list \<Rightarrow> ReplayWindow \<Rightarrow> bool" where
  "consumes truth ip w ds w' \<longleftrightarrow> distinct (map fst ds)
     \<and> (\<forall>(q, p, t) \<in> set ds. truth q = Some p \<and> would_accept w q \<and> \<not> would_accept w' q)
     \<and> (\<forall>q p. truth q = Some p \<and> ipv4_source p = Some ip \<and> would_accept w q \<and> \<not> would_accept w' q \<and> \<not> is_too_old w' q
          \<longrightarrow> q \<in> fst ` set ds)"

definition uplink_move :: "(u64 \<rightharpoonup> bytes) \<Rightarrow> ipv4 \<Rightarrow> SessionState \<Rightarrow> relay_action list \<Rightarrow> SessionState \<Rightarrow> bool" where
  "uplink_move truth ip s acts s' \<longleftrightarrow> uplink_ok truth s'
     \<and> (\<forall>q. \<not> would_accept (ss_replay s) q \<longrightarrow> \<not> would_accept (ss_replay s') q)
     \<and> (\<forall>q. is_too_old (ss_replay s) q \<longrightarrow> is_too_old (ss_replay s') q)
     \<and> (\<exists>ds. consumes truth ip (ss_replay s) ds (ss_replay s')
            \<and> reassemble_run (map snd ds) (ss_fragments s) = (ss_fragments s', tun_packets acts))"

lemma uplink_ok: "uplink_move truth ip s acts s' \<Longrightarrow> uplink_ok truth s'"
  by (simp add: uplink_move_def)

lemma uplink_silent:
  assumes "uplink_ok truth s'" and "ss_replay s' = ss_replay s" and "ss_fragments s' = ss_fragments s"
    and "tun_packets acts = []"
  shows "uplink_move truth ip s acts s'"
  using assms by (auto simp: uplink_move_def consumes_def intro!: exI [of _ "[]"])

lemma consumes_trans:
  assumes "consumes truth ip w ds w1" and "consumes truth ip w1 es w2"
    and "\<And>q. \<not> would_accept w q \<Longrightarrow> \<not> would_accept w1 q" and "\<And>q. \<not> would_accept w1 q \<Longrightarrow> \<not> would_accept w2 q"
    and "\<And>q. is_too_old w1 q \<Longrightarrow> is_too_old w2 q"
  shows "consumes truth ip w (ds @ es) w2"
proof -
  have "\<not> would_accept w1 (fst d)" if "d \<in> set ds" for d
    using that assms(1) by (cases d) (auto simp: consumes_def)
  moreover have "would_accept w1 (fst e)" if "e \<in> set es" for e
    using that assms(2) by (cases e) (auto simp: consumes_def)
  ultimately have "fst d \<noteq> fst e" if "d \<in> set ds" "e \<in> set es" for d e
    using that by metis
  then have "distinct (map fst (ds @ es))"
    using assms(1,2) by (auto simp: consumes_def)
  moreover have "truth q = Some p \<and> would_accept w q \<and> \<not> would_accept w2 q" if "(q, p, t) \<in> set (ds @ es)" for q p t
  proof -
    have "(q, p, t) \<in> set ds \<or> (q, p, t) \<in> set es" using that by simp
    then have "truth q = Some p \<and> (would_accept w q \<and> \<not> would_accept w1 q \<or> would_accept w1 q \<and> \<not> would_accept w2 q)"
      using assms(1,2) by (auto simp: consumes_def)
    then show ?thesis using assms(3,4) by blast
  qed
  moreover have "q \<in> fst ` set (ds @ es)"
    if "truth q = Some p" "ipv4_source p = Some ip" "would_accept w q" "\<not> would_accept w2 q" "\<not> is_too_old w2 q" for q p
  proof (cases "would_accept w1 q")
    case True
    then have "q \<in> fst ` set es" using that assms(2) by (simp add: consumes_def)
    then show ?thesis by auto
  next
    case False
    moreover have "\<not> is_too_old w1 q" using that(5) assms(5) by blast
    ultimately have "q \<in> fst ` set ds" using that assms(1) by (simp add: consumes_def)
    then show ?thesis by auto
  qed
  ultimately show ?thesis unfolding consumes_def by blast
qed

lemma uplink_trans:
  assumes "uplink_move truth ip s as s1" and "uplink_move truth ip s1 bs s2"
  shows "uplink_move truth ip s (as @ bs) s2"
proof -
  obtain ds where ds: "consumes truth ip (ss_replay s) ds (ss_replay s1)"
      "reassemble_run (map snd ds) (ss_fragments s) = (ss_fragments s1, tun_packets as)"
    using assms(1) by (auto simp: uplink_move_def)
  obtain es where es: "consumes truth ip (ss_replay s1) es (ss_replay s2)"
      "reassemble_run (map snd es) (ss_fragments s1) = (ss_fragments s2, tun_packets bs)"
    using assms(2) by (auto simp: uplink_move_def)
  have "consumes truth ip (ss_replay s) (ds @ es) (ss_replay s2)"
    using assms by (intro consumes_trans [OF ds(1) es(1)]) (simp_all add: uplink_move_def)
  moreover have "reassemble_run (map snd (ds @ es)) (ss_fragments s) = (ss_fragments s2, tun_packets (as @ bs))"
    using reassemble_append [OF ds(2) es(2)] by simp
  ultimately show ?thesis using assms unfolding uplink_move_def by blast
qed

text \<open>A packet the window accepts is written to the TUN device.\<close>

lemma uplink_delivers:
  assumes "uplink_ok truth s" and "would_accept (ss_replay s) q" and "truth q = Some packet"
    and "s1 = s\<lparr>ss_replay := snd (replay_accept (ss_replay s) q)\<rparr>"
  shows "uplink_move truth ip s (snd (write_to_tun packet now s1)) (fst (write_to_tun packet now s1))"
proof -
  have w: "window_ok (ss_replay s)" using assms(1) by (simp add: uplink_ok_def)
  have "reassemble_run (map snd [(q, packet, now)]) (ss_fragments s) =
      (ss_fragments (fst (write_to_tun packet now s1)), tun_packets (snd (write_to_tun packet now s1)))"
    using write_to_tun_writes [of packet now s1] by (simp add: assms(4))
  moreover have "consumes truth ip (ss_replay s) [(q, packet, now)] (ss_replay (fst (write_to_tun packet now s1)))"
    using assms(2-4) replay.commit_blocks [OF w] newly_refused [OF w, of _ q] by (auto simp: consumes_def)
  moreover have "uplink_ok truth (fst (write_to_tun packet now s1))"
    using assms(1,4) replay.commit_ok [OF w] by (simp add: uplink_ok_def)
  ultimately show ?thesis
    using replay.commit_keeps [OF w] old_stays_old [OF w] assms(4) unfolding uplink_move_def by fastforce
qed

lemma uplink_repair:
  assumes "uplink_ok truth s" and "\<And>x. r = Some x \<Longrightarrow> decoder_ok truth (rs_decoder x)"
  shows "uplink_move truth ip s [] (s\<lparr>ss_repair := r\<rparr>)"
  using assms by (intro uplink_silent) (simp_all add: uplink_ok_def)

text \<open>A sequence used up by anything but a true packet of the client's own address.\<close>

lemma uplink_window:
  assumes "uplink_ok truth s"
    and "\<And>p. truth q = Some p \<Longrightarrow> ipv4_source p = Some ip \<Longrightarrow> \<not> would_accept (ss_replay s) q"
  shows "uplink_move truth ip s [] (s\<lparr>ss_replay := snd (replay_accept (ss_replay s) q)\<rparr>)"
proof -
  have w: "window_ok (ss_replay s)" using assms(1) by (simp add: uplink_ok_def)
  have "consumes truth ip (ss_replay s) [] (snd (replay_accept (ss_replay s) q))"
    using assms(2) newly_refused [OF w, of _ q] by (auto simp: consumes_def)
  then show ?thesis
    using assms(1) replay.commit_ok [OF w] replay.commit_keeps [OF w] old_stays_old [OF w]
    by (auto simp: uplink_move_def uplink_ok_def intro!: exI [of _ "[]"])
qed

lemma admit_rebuilt_uplink:
  assumes "uplink_ok truth s" and "truth q = Some packet"
  shows "uplink_move truth ip s (snd (admit_rebuilt ip q packet now s)) (fst (admit_rebuilt ip q packet now s))"
proof (cases "ipv4_source packet = Some ip \<and> would_accept (ss_replay s) q")
  case False
  have w: "window_ok (ss_replay s)" using assms(1) by (simp add: uplink_ok_def)
  have refl: "uplink_move truth ip s [] s" using assms(1) by (intro uplink_silent) simp_all
  from False show ?thesis
    using refl uplink_window [OF assms(1), of q ip] assms(2) replay.commit_verdict [OF w, of q]
    by (auto simp: admit_rebuilt_def case_prod_unfold Let_def)
next
  case True
  have w: "window_ok (ss_replay s)" using assms(1) by (simp add: uplink_ok_def)
  define s1 where "s1 = s\<lparr>ss_replay := snd (replay_accept (ss_replay s) q)\<rparr>"
  let ?w = "write_to_tun packet now s1"
  note t1 = uplink_delivers [OF assms(1) _ assms(2) s1_def, of ip now]
  have t2: "uplink_move truth ip (fst ?w) [] ((fst ?w)\<lparr>ss_repair := map_option (\<lambda>r. r\<lparr>rs_decoder := remember q packet (rs_decoder r),
      rs_recovered := rs_recovered r + 1\<rparr>) (ss_repair (fst ?w))\<rparr>)"
    using uplink_ok [OF t1] True assms(1,2)
    by (intro uplink_repair) (auto simp: uplink_ok_def s1_def decoder_ok_remember)
  show ?thesis
    using uplink_trans [OF t1 t2] True replay.commit_verdict [OF w, of q]
    by (simp add: admit_rebuilt_def case_prod_unfold Let_def flip: s1_def)
qed

lemma retry_uplink:
  "uplink_ok truth s \<Longrightarrow> uplink_move truth ip s (snd (retry_pending_repairs ip now s)) (fst (retry_pending_repairs ip now s))"
proof (induction ip now s rule: retry_pending_repairs.induct)
  case (1 ip now s)
  have refl: "uplink_move truth ip s [] s" using 1(2) by (intro uplink_silent) simp_all
  show ?case
  proof (cases "\<exists>repair. ss_repair s = Some repair \<and> has_pending (rs_decoder repair)")
    case False
    then show ?thesis using refl by (auto simp: retry_pending_repairs.simps [of ip now s] split: option.splits)
  next
    case True
    then obtain repair where repair: "ss_repair s = Some repair" "has_pending (rs_decoder repair)" by blast
    then have dec: "decoder_ok truth (rs_decoder repair)" using 1(2) by (simp add: uplink_ok_def)
    define result where "result = retry_pending now (\<lambda>q. \<not> would_accept (ss_replay s) q) (rs_decoder repair)"
    define s' where "s' = s\<lparr>ss_repair := Some (repair\<lparr>rs_decoder := fst result\<rparr>)\<rparr>"
    have t1: "uplink_move truth ip s [] s'"
      unfolding s'_def using 1(2) retry_pending_ok(1) [OF dec] by (intro uplink_repair) (auto simp: result_def)
    show ?thesis
    proof (cases "snd result")
      case None
      then show ?thesis
        using repair t1 by (simp add: retry_pending_repairs.simps [of ip now s] result_def s'_def Let_def)
    next
      case (Some qp)
      obtain q packet where qp: "qp = (q, packet)" by (cases qp)
      have genuine: "truth q = Some packet"
        using retry_pending_ok(2) [OF dec] Some qp by (simp add: result_def)
      define a where "a = admit_rebuilt ip q packet now s'"
      have t2: "uplink_move truth ip s' (snd a) (fst a)"
        unfolding a_def by (rule admit_rebuilt_uplink [OF uplink_ok [OF t1] genuine])
      have t3: "uplink_move truth ip (fst a) (snd (retry_pending_repairs ip now (fst a))) (fst (retry_pending_repairs ip now (fst a)))"
        using 1(1) [OF repair(1) _ result_def s'_def Some, of q packet a] repair(2) uplink_ok [OF t2] qp
        by (simp add: a_def)
      have "retry_pending_repairs ip now s =
          (fst (retry_pending_repairs ip now (fst a)), snd a @ snd (retry_pending_repairs ip now (fst a)))"
        using repair Some qp
        by (simp add: retry_pending_repairs.simps [of ip now s] result_def [symmetric] s'_def [symmetric] a_def Let_def)
      then show ?thesis using uplink_trans [OF t1 uplink_trans [OF t2 t3]] by simp
    qed
  qed
qed

lemma repair_frame_uplink:
  assumes "uplink_ok truth s" and "genuine_group truth grp"
  shows "uplink_move truth ip s (snd (repair_frame ip (repair_payload grp) now s)) (fst (repair_frame ip (repair_payload grp) now s))"
proof (cases "ss_repair s")
  case None
  then show ?thesis using assms(1) by (simp add: repair_frame_def uplink_silent)
next
  case (Some repair)
  then have dec: "decoder_ok truth (rs_decoder repair)" using assms(1) by (simp add: uplink_ok_def)
  define a where "a = accept_repair (repair_payload grp) now (\<lambda>q. \<not> would_accept (ss_replay s) q) (rs_decoder repair)"
  define s1 where "s1 = s\<lparr>ss_repair := Some (repair\<lparr>rs_decoder := fst a\<rparr>)\<rparr>"
  have t1: "uplink_move truth ip s [] s1"
    unfolding s1_def using assms(1) accept_repair_ok(1) [OF dec assms(2)] by (intro uplink_repair) (auto simp: a_def)
  define m where "m = (case snd a of None \<Rightarrow> (s1, []) | Some (q, packet) \<Rightarrow> admit_rebuilt ip q packet now s1)"
  have t2: "uplink_move truth ip s1 (snd m) (fst m)"
    using uplink_ok [OF t1] accept_repair_ok(2) [OF dec assms(2)] admit_rebuilt_uplink [OF uplink_ok [OF t1]]
    by (auto simp: m_def a_def uplink_silent split: option.splits)
  note t3 = retry_uplink [OF uplink_ok [OF t2], of ip now]
  have "repair_frame ip (repair_payload grp) now s =
      (fst (retry_pending_repairs ip now (fst m)), snd m @ snd (retry_pending_repairs ip now (fst m)))"
    unfolding m_def s1_def a_def using Some by (simp add: repair_frame_def case_prod_unfold Let_def)
  then show ?thesis using uplink_trans [OF t1 uplink_trans [OF t2 t3]] by simp
qed

text \<open>A data frame, from the window on.\<close>

lemma data_frame_uplink:
  assumes "uplink_ok truth s" and "would_accept (ss_replay s) q" and "truth q = Some packet"
    and "s1 = s\<lparr>ss_replay := snd (replay_accept (ss_replay s) q)\<rparr>"
  shows "uplink_move truth ip s (snd (data_frame ip q packet now s1)) (fst (data_frame ip q packet now s1))"
proof (cases "ipv4_source packet = Some ip")
  case False
  then show ?thesis using uplink_window [OF assms(1), of q ip] assms(3) by (simp add: data_frame_def assms(4))
next
  case True
  let ?w = "write_to_tun packet now s1"
  note t1 = uplink_delivers [OF assms, of ip now]
  show ?thesis
  proof (cases "ss_repair s")
    case None
    then show ?thesis using True t1 by (simp add: data_frame_def case_prod_unfold Let_def assms(4))
  next
    case (Some repair)
    let ?s2 = "(fst ?w)\<lparr>ss_repair := Some (repair\<lparr>rs_decoder := remember q packet (rs_decoder repair)\<rparr>)\<rparr>"
    have t2: "uplink_move truth ip (fst ?w) [] ?s2"
      using uplink_ok [OF t1] assms(1,3) Some by (intro uplink_repair) (auto simp: uplink_ok_def decoder_ok_remember)
    note t3 = retry_uplink [OF uplink_ok [OF t2], of ip now]
    show ?thesis
      using True Some uplink_trans [OF t1 uplink_trans [OF t2 t3]]
      by (simp add: data_frame_def case_prod_unfold Let_def assms(4))
  qed
qed

text \<open>Everything else leaves the window, the decoder and the fragments alone.\<close>

definition uplink_quiet :: "(u64 \<rightharpoonup> bytes) \<Rightarrow> SessionState \<Rightarrow> relay_action list \<Rightarrow> SessionState \<Rightarrow> bool" where
  "uplink_quiet truth s acts s' \<longleftrightarrow> ss_replay s' = ss_replay s \<and> ss_fragments s' = ss_fragments s \<and> tun_packets acts = []
     \<and> (uplink_ok truth s \<longrightarrow> uplink_ok truth s')"

lemma quiet_move: "uplink_ok truth s \<Longrightarrow> uplink_quiet truth s acts s' \<Longrightarrow> uplink_move truth ip s acts s'"
  by (auto simp: uplink_quiet_def intro: uplink_silent)

lemma quiet_trans: "uplink_quiet truth s as s1 \<Longrightarrow> uplink_quiet truth s1 bs s2 \<Longrightarrow> uplink_quiet truth s (as @ bs) s2"
  by (simp add: uplink_quiet_def)

lemma control_reply_quiet:
  "uplink_quiet truth s (snd (control_reply L crypto client_id session_id payload endpoint s))
     (fst (control_reply L crypto client_id session_id payload endpoint s))"
  by (simp add: uplink_quiet_def uplink_ok_def control_reply_def Let_def split: sum.splits)

lemma fan_out_quiet:
  "uplink_quiet truth s (fst (snd (fan_out L crypto client_id session_id flags payload now s)))
     (fst (fan_out L crypto client_id session_id flags payload now s))"
  by (simp add: uplink_quiet_def uplink_ok_def fan_out_def Let_def case_prod_unfold split: sum.splits)

lemma encoder_quiet:
  assumes "ss_repair s = Some r"
  shows "uplink_quiet truth s [] (s\<lparr>ss_repair := Some (r\<lparr>rs_encoder := e\<rparr>)\<rparr>)"
  using assms by (simp add: uplink_quiet_def uplink_ok_def)

lemma offer_quiet:
  "uplink_quiet truth s (snd (apply_repair_offer L crypto client_id session_id q o' endpoint now s))
    (fst (apply_repair_offer L crypto client_id session_id q o' endpoint now s))"
proof -
  define repair where "repair = (case ss_repair s of Some r \<Rightarrow> r | None \<Rightarrow> repair_state_new o')"
  define step where "step = (if q \<ge> rs_offer_sequence repair
     then let (encoder, closed) =
                set_group_size (of_group_size o') (set_max_packet (reply_repair_limit o') (rs_encoder repair))
          in (repair\<lparr>rs_offer_sequence := q, rs_encoder := encoder\<rparr>, closed)
     else (repair, None))"
  obtain r closed where step_eq: "step = (r, closed)" by (cases step)
  then have "rs_decoder r = rs_decoder repair" by (auto simp: step_def Let_def split: if_splits prod.splits)
  then have "uplink_ok truth s \<Longrightarrow> decoder_ok truth (rs_decoder r)"
    by (auto simp: repair_def uplink_ok_def repair_state_new_def decoder_ok_default split: option.splits)
  then have t1: "uplink_quiet truth s [] (s\<lparr>ss_repair := Some r,
     ss_reply_mtu := (if q \<ge> rs_offer_sequence repair then Some (max (of_mtu o') MIN_REPLY_MTU) else ss_reply_mtu s)\<rparr>)"
    (is "uplink_quiet truth s [] ?s1")
    by (simp add: uplink_quiet_def uplink_ok_def)
  define fo where "fo = (case closed of None \<Rightarrow> (?s1, []) | Some payload \<Rightarrow>
     (let (s, sent, _) = fan_out L crypto client_id session_id FLAG_REPAIR payload now ?s1 in (s, sent)))"
  have "uplink_quiet truth ?s1 [] ?s1" by (simp add: uplink_quiet_def)
  then have t2: "uplink_quiet truth ?s1 (snd fo) (fst fo)"
    using fan_out_quiet [of truth ?s1 L crypto client_id session_id FLAG_REPAIR]
    by (cases closed) (simp_all add: fo_def case_prod_unfold Let_def)
  note t3 = control_reply_quiet [of truth "fst fo"]
  have "apply_repair_offer L crypto client_id session_id q o' endpoint now s =
    (let (s, answer) = control_reply L crypto client_id session_id (fec_accept (encoder_group_size (rs_encoder r))) endpoint (fst fo)
     in (s, snd fo @ answer))"
    unfolding apply_repair_offer_def repair_def [symmetric] Let_def step_def [unfolded Let_def, symmetric] step_eq
    by (cases closed) (simp_all add: fo_def case_prod_unfold Let_def)
  then show ?thesis
    using quiet_trans [OF t1 quiet_trans [OF t2 t3]] by (simp add: case_prod_unfold Let_def)
qed

lemma control_frame_quiet:
  assumes "control_frame L crypto client_id header plaintext endpoint now s = Ret (s', acts)"
  shows "uplink_quiet truth s acts s'"
proof (cases "policy_parse plaintext")
  case (Some policy)
  then obtain es where reply: "control_reply L crypto (fh_client_id header) (fh_session_id header) policy_accept endpoint
      (s\<lparr>ss_endpoints := es\<rparr>) = (s', acts)"
    using assms by (auto simp: control_frame_def apply_path_policy_def split: option.splits)
  have "uplink_quiet truth s [] (s\<lparr>ss_endpoints := es\<rparr>)" by (simp add: uplink_quiet_def uplink_ok_def)
  from quiet_trans [OF this control_reply_quiet [of truth "s\<lparr>ss_endpoints := es\<rparr>" L crypto "fh_client_id header" "fh_session_id header" policy_accept endpoint]]
  show ?thesis by (simp add: reply)
next
  case None
  have refl: "uplink_quiet truth s [] s" by (simp add: uplink_quiet_def)
  from None assms consider o' where "apply_repair_offer L crypto client_id (fh_session_id header) (fh_sequence header) o' endpoint now s = (s', acts)"
    | response where "control_reply L crypto client_id (fh_session_id header) response endpoint s = (s', acts)"
    | "s' = s" "acts = []"
    by (auto simp: control_frame_def apply_path_policy_def split: option.splits)
  then show ?thesis
  proof cases
    case (1 o')
    then show ?thesis using offer_quiet [of truth s L crypto client_id "fh_session_id header" "fh_sequence header" o' endpoint now] by simp
  next
    case (2 response)
    then show ?thesis using control_reply_quiet [of truth s L crypto client_id "fh_session_id header" response endpoint] by simp
  next
    case 3
    then show ?thesis using refl by simp
  qed
qed

lemma send_reply_quiet:
  "uplink_quiet truth s (snd (send_reply L crypto client_id session_id packet now s))
    (fst (send_reply L crypto client_id session_id packet now s))"
proof -
  obtain s1 sent q where fo: "fan_out L crypto client_id session_id 0 packet now s = (s1, sent, q)" by (rule prod_cases3)
  have t1: "uplink_quiet truth s sent s1" using fan_out_quiet [of truth s L crypto client_id session_id 0 packet now] by (simp add: fo)
  show ?thesis
  proof (cases "q = None \<or> ss_repair s1 = None")
    case True
    then show ?thesis using t1 by (auto simp: send_reply_def fo split: option.splits)
  next
    case False
    then obtain sequence repair where r: "q = Some sequence" "ss_repair s1 = Some repair" by auto
    let ?p = "encoder_push sequence packet now (rs_encoder repair)"
    note t2 = encoder_quiet [OF r(2), of truth "fst ?p"]
    note t3 = quiet_trans [OF t1 quiet_trans [OF t2 fan_out_quiet]]
    show ?thesis
      using r quiet_trans [OF t1 t2] t3
      by (simp add: send_reply_def fo case_prod_unfold Let_def split: option.splits)
  qed
qed

lemma send_replies_quiet:
  "uplink_quiet truth s (snd (send_replies L crypto client_id session_id pieces now s))
    (fst (send_replies L crypto client_id session_id pieces now s))"
proof (induction pieces arbitrary: s)
  case Nil
  then show ?case by (simp add: uplink_quiet_def)
next
  case (Cons piece pieces)
  show ?case using quiet_trans [OF send_reply_quiet [of truth s] Cons.IH] by (simp add: case_prod_unfold Let_def)
qed

lemma reply_quiet:
  "uplink_quiet truth s (snd (reply_session L crypto client_id session_id packet now s))
    (fst (reply_session L crypto client_id session_id packet now s))"
  using send_reply_quiet [of truth s] send_replies_quiet [of truth s] by (simp add: reply_session_def split: option.splits)

lemma flush_quiet:
  "uplink_quiet truth s (snd (flush_session L key client_id session_id now s))
    (fst (flush_session L key client_id session_id now s))"
proof (cases "ss_repair s")
  case None
  then show ?thesis by (simp add: flush_session_def uplink_quiet_def)
next
  case (Some repair)
  note t1 = encoder_quiet [OF Some, of truth "fst (flush_due now (rs_encoder repair))"]
  show ?thesis
    using Some t1 quiet_trans [OF t1 fan_out_quiet]
    by (simp add: flush_session_def case_prod_unfold Let_def split: option.splits sum.splits)
qed

subsection \<open>Frames and runs\<close>

text \<open>What the paths bring to the relay: frames the client sealed.\<close>

definition from_client :: "(FrameHeader \<times> bytes) list \<Rightarrow> session_event \<Rightarrow> bool" where
  "from_client sealed e \<longleftrightarrow> (case e of Client_Frame header plaintext endpoint now \<Rightarrow> (header, plaintext) \<in> set sealed | _ \<Rightarrow> True)"

text \<open>\<open>truth\<close> names the packet sealed under a sequence; a client frame is control, a genuine repair, or true data.\<close>

definition true_frame :: "(u64 \<rightharpoonup> bytes) \<Rightarrow> FrameHeader \<Rightarrow> bytes \<Rightarrow> bool" where
  "true_frame truth header plaintext \<longleftrightarrow>
     (if fh_flags header AND FLAG_CONTROL \<noteq> 0 then truth (fh_sequence header) = None
      else if fh_flags header AND FLAG_REPAIR \<noteq> 0
      then truth (fh_sequence header) = None \<and> (\<exists>grp. genuine_group truth grp \<and> plaintext = repair_payload grp)
      else truth (fh_sequence header) = Some plaintext)"

lemma session_frame_uplink:
  assumes "uplink_ok truth s" and "true_frame truth header plaintext"
    and "session_frame L crypto client_id ip header plaintext endpoint now s = Ret (s', acts)"
  shows "uplink_move truth ip s acts s'"
proof -
  define s1 where "s1 = observe_endpoint endpoint now s"
  have t1: "uplink_move truth ip s [] s1"
    using assms(1) by (intro uplink_silent) (simp_all add: s1_def observe_endpoint_def uplink_ok_def)
  let ?q = "fh_sequence header"
  define s2 where "s2 = s1\<lparr>ss_replay := snd (replay_accept (ss_replay s1) ?q)\<rparr>"
  have t2: "uplink_move truth ip s1 [] s2" if "would_accept (ss_replay s1) ?q \<Longrightarrow> truth ?q = None"
    unfolding s2_def using that by (intro uplink_window [OF uplink_ok [OF t1]]) auto
  have verdict: "fst (replay_accept (ss_replay s1) ?q) = would_accept (ss_replay s1) ?q"
    using uplink_ok [OF t1] by (intro replay.commit_verdict) (simp add: uplink_ok_def)
  have run: "(if \<not> would_accept (ss_replay s1) ?q then Ret (s2\<lparr>ss_rejected_frames := ss_rejected_frames s2 + 1\<rparr>, [])
      else if fh_flags header AND FLAG_CONTROL \<noteq> 0 then control_frame L crypto client_id header plaintext endpoint now s2
      else if fh_flags header AND FLAG_REPAIR \<noteq> 0 then Ret (repair_frame ip plaintext now s2)
      else Ret (data_frame ip ?q plaintext now s2)) = Ret (s', acts)"
    using assms(3) unfolding session_frame_def Let_def case_prod_unfold s1_def [symmetric] s2_def [symmetric] verdict
    by (simp add: s2_def)
  consider (replayed) "\<not> would_accept (ss_replay s1) ?q"
    | (control) "would_accept (ss_replay s1) ?q" "fh_flags header AND FLAG_CONTROL \<noteq> 0"
    | (repair) "would_accept (ss_replay s1) ?q" "fh_flags header AND FLAG_CONTROL = 0" "fh_flags header AND FLAG_REPAIR \<noteq> 0"
    | (data) "would_accept (ss_replay s1) ?q" "fh_flags header AND FLAG_CONTROL = 0" "fh_flags header AND FLAG_REPAIR = 0"
    by blast
  then have "uplink_move truth ip s1 acts s'"
  proof cases
    case replayed
    then have t2: "uplink_move truth ip s1 [] s2" using t2 by simp
    from replayed have "s' = s2\<lparr>ss_rejected_frames := ss_rejected_frames s2 + 1\<rparr>" "acts = []" using run by simp_all
    moreover have "uplink_move truth ip s2 [] (s2\<lparr>ss_rejected_frames := ss_rejected_frames s2 + 1\<rparr>)"
      using uplink_ok [OF t2] by (intro uplink_silent) (simp_all add: uplink_ok_def)
    ultimately show ?thesis using uplink_trans [OF t2] by fastforce
  next
    case control
    then have t2: "uplink_move truth ip s1 [] s2" using t2 assms(2) by (simp add: true_frame_def)
    from control have "uplink_quiet truth s2 acts s'" using run by (intro control_frame_quiet) simp
    from uplink_trans [OF t2 quiet_move [OF uplink_ok [OF t2] this]] show ?thesis by simp
  next
    case repair
    then have t2: "uplink_move truth ip s1 [] s2" using t2 assms(2) by (simp add: true_frame_def)
    from repair obtain grp where grp: "genuine_group truth grp" "plaintext = repair_payload grp"
      using assms(2) by (auto simp: true_frame_def)
    from uplink_trans [OF t2 repair_frame_uplink [OF uplink_ok [OF t2] grp(1), of ip now]] run repair grp(2)
    show ?thesis by simp
  next
    case data
    then have "truth ?q = Some plaintext" using assms(2) by (simp add: true_frame_def)
    from data_frame_uplink [OF uplink_ok [OF t1] data(1) this s2_def, of ip now] run data
    show ?thesis by simp
  qed
  from uplink_trans [OF t1 this] show ?thesis by simp
qed

lemma session_step_uplink:
  assumes "uplink_ok truth s" and "\<And>h p a t. e = Client_Frame h p a t \<Longrightarrow> true_frame truth h p"
    and "session_step L crypto key client_id session_id ip e s = Ret (s', acts)"
  shows "uplink_move truth ip s acts s'"
proof (cases e)
  case (Client_Frame h p a t)
  then show ?thesis using session_frame_uplink [OF assms(1)] assms(2,3) by simp
next
  case (Reply_Packet packet now)
  then have "reply_session L crypto client_id session_id packet now s = (s', acts)" using assms(3) by simp
  then show ?thesis
    using quiet_move [OF assms(1) reply_quiet [of truth s L crypto client_id session_id packet now]] by simp
next
  case (Flush now)
  then have "flush_session L key client_id session_id now s = (s', acts)" using assms(3) by simp
  then show ?thesis
    using quiet_move [OF assms(1) flush_quiet [of truth s L key client_id session_id now]] by simp
qed

lemma session_run_uplink:
  assumes "uplink_ok truth s" and "\<And>h p a t. Client_Frame h p a t \<in> set es \<Longrightarrow> true_frame truth h p"
    and "session_run L crypto key client_id session_id ip es s = Ret (s', acts)"
  shows "uplink_move truth ip s acts s'"
  using assms
proof (induction es arbitrary: s acts)
  case Nil
  then show ?case by (simp add: uplink_silent)
next
  case (Cons e es)
  obtain s1 as bs where run: "session_step L crypto key client_id session_id ip e s = Ret (s1, as)"
      "session_run L crypto key client_id session_id ip es s1 = Ret (s', bs)" "acts = as @ bs"
    using Cons.prems(3) by (auto split: outcome.splits)
  have t1: "uplink_move truth ip s as s1"
    by (rule session_step_uplink [OF Cons.prems(1) _ run(1)]) (use Cons.prems(2) in auto)
  have "uplink_move truth ip s1 bs s'"
    by (rule Cons.IH [OF uplink_ok [OF t1] _ run(2)]) (use Cons.prems(2) in auto)
  from uplink_trans [OF t1 this] run(3) show ?case by simp
qed

lemma handled_frames_refused:
  assumes "length client_id = 16"
  shows "session_ok ip s \<Longrightarrow> list_all event_ok es \<Longrightarrow> Client_Frame h p a t \<in> set es
    \<Longrightarrow> session_run L crypto key client_id session_id ip es s = Ret (s', acts)
    \<Longrightarrow> \<not> would_accept (ss_replay s') (fh_sequence h)"
proof (induction es arbitrary: s acts)
  case (Cons e es)
  obtain s1 as bs where run: "session_step L crypto key client_id session_id ip e s = Ret (s1, as)"
      "session_run L crypto key client_id session_id ip es s1 = Ret (s', bs)"
    using Cons.prems(4) by (auto split: outcome.splits)
  have ok1: "session_ok ip s1"
    using session_step_transition [OF Cons.prems(1) assms, of e L crypto key session_id] Cons.prems(2) run(1)
    by (auto dest: transition_ok)
  have rest: "transition ip (sum_list (map seals_at_most es)) s1 bs s'"
    using session_run_transition [OF assms ok1, of es L crypto key session_id] Cons.prems(2) run(2) by auto
  show ?case
  proof (cases "e = Client_Frame h p a t")
    case True
    then have "length (fh_client_id h) = 16" using Cons.prems(2) by simp
    from session_frame_transition [OF Cons.prems(1) assms this, of L crypto p a t] run(1) True
    have "\<not> would_accept (ss_replay s1) (fh_sequence h)" by auto
    then show ?thesis using rest by (simp add: transition_def)
  next
    case False
    then show ?thesis using Cons.IH [OF ok1 _ _ run(2)] Cons.prems(2,3) by auto
  qed
qed simp

subsection \<open>The packets a client sealed\<close>

definition sealed_data :: "(FrameHeader \<times> bytes) list \<Rightarrow> (u64 \<rightharpoonup> bytes)" where
  "sealed_data sealed = map_of (map (\<lambda>(h, p). (fh_sequence h, p)) (filter (\<lambda>(h, p). fh_flags h = 0) sealed))"

lemma sealed_data_iff:
  assumes "distinct (map (\<lambda>(h, _). fh_sequence h) sealed)"
  shows "sealed_data sealed q = Some p \<longleftrightarrow> (q, p) \<in> data_frames sealed"
proof -
  have "distinct (map (\<lambda>(h, _). fh_sequence h) (filter (\<lambda>(h, p). fh_flags h = 0) sealed))"
    using assms by (rule distinct_map_filter)
  then have "distinct (map fst (map (\<lambda>(h, p). (fh_sequence h, p)) (filter (\<lambda>(h, p). fh_flags h = 0) sealed)))"
    by (simp add: comp_def case_prod_unfold)
  from map_of_eq_Some_iff [OF this] show ?thesis by (force simp: sealed_data_def data_frames_def)
qed

lemma sealed_data_other:
  assumes "distinct (map (\<lambda>(h, _). fh_sequence h) sealed)" and "(h, p) \<in> set sealed" and "fh_flags h \<noteq> 0"
  shows "sealed_data sealed (fh_sequence h) = None"
proof (rule ccontr)
  assume "sealed_data sealed (fh_sequence h) \<noteq> None"
  then obtain p' where "(fh_sequence h, p') \<in> data_frames sealed" using sealed_data_iff [OF assms(1)] by auto
  then obtain h' where h': "(h', p') \<in> set sealed" "fh_flags h' = 0" "fh_sequence h' = fh_sequence h"
    by (auto simp: data_frames_def)
  then have "(h', p') = (h, p)"
    using assms(1,2) by (auto simp: distinct_map inj_on_def)
  then show False using h'(2) assms(3) by simp
qed

lemma client_frames_true:
  assumes "shared_ok sh" and "length (sh_sealed sh) < 2 ^ 64" and "(h, p) \<in> set (sh_sealed sh)"
  shows "true_frame (sealed_data (sh_sealed sh)) h p"
proof -
  have dist: "distinct (map (\<lambda>(h, _). fh_sequence h) (sh_sealed sh))"
    using assms(1) distinct_numbering [OF assms(2)] by (simp add: shared_ok_def)
  note iff = sealed_data_iff [OF dist]
  have kind: "frame_kind (fh_flags h)" and covers: "fh_flags h = FLAG_REPAIR \<Longrightarrow> covers_data (sh_sealed sh) p"
    using assms(1,3) by (auto simp: shared_ok_def)
  from kind consider "fh_flags h = 0" | "fh_flags h = FLAG_REPAIR" | "fh_flags h AND FLAG_CONTROL \<noteq> 0"
    by (auto simp: frame_kind_def)
  then show ?thesis
  proof cases
    case 1
    then have "(fh_sequence h, p) \<in> data_frames (sh_sealed sh)" using assms(3) by (auto simp: data_frames_def)
    then show ?thesis using 1 iff by (simp add: true_frame_def)
  next
    case 2
    then obtain grp where grp: "group_wf grp" "p = repair_payload grp" "set grp \<subseteq> data_frames (sh_sealed sh)"
      using covers by (auto simp: covers_data_def)
    then have "genuine_group (sealed_data (sh_sealed sh)) grp" using iff by (auto simp: genuine_group_def list_all_iff)
    moreover have "sealed_data (sh_sealed sh) (fh_sequence h) = None"
      using sealed_data_other [OF dist assms(3)] 2 by (simp add: FLAG_REPAIR_def)
    ultimately show ?thesis using grp(2) 2 by (auto simp: true_frame_def FLAG_REPAIR_def FLAG_CONTROL_def)
  next
    case 3
    then have "fh_flags h \<noteq> 0" by auto
    then show ?thesis using 3 sealed_data_other [OF dist assms(3)] by (simp add: true_frame_def)
  qed
qed

text \<open>
  C1. The uplink, end to end. Take any run of a client session and any run of its relay session in which
  the client frames are frames that client sealed - lost, repeated and reordered at will, with replies,
  flushes, offers and policies in between. Then the relay does not panic, and what it writes to the TUN
  device is exactly the reassembly of a list of packets that the client sealed as data, each taken at
  most once, whether its own frame arrived or a repair brought it back. And nothing that arrived is
  missing: every data frame with the client's own address that reached the relay is in the list,
  unless its sequence fell behind the replay window.
\<close>

theorem uplink_delivers_once:
  assumes "fold (client_step L) es (client_new client_id crypto session_id routes mtu decision now) = (sh, ds)"
    and "length (sh_sealed sh) < 2 ^ 64" and "length client_id = 16"
    and "list_all event_ok events" and "list_all (from_client (sh_sealed sh)) events"
  shows "\<exists>s acts taken. session_run L' crypto' key client_id session_id ip events (session_new wall start) = Ret (s, acts)
    \<and> tun_packets acts = snd (reassemble_run (map snd taken) reassembler_default)
    \<and> distinct (map fst taken) \<and> (\<lambda>(q, p, t). (q, p)) ` set taken \<subseteq> data_frames (sh_sealed sh)
    \<and> (\<forall>h p a t. Client_Frame h p a t \<in> set events \<and> fh_flags h = 0 \<and> ipv4_source p = Some ip
          \<and> \<not> is_too_old (ss_replay s) (fh_sequence h) \<longrightarrow> fh_sequence h \<in> fst ` set taken)"
proof -
  let ?truth = "sealed_data (sh_sealed sh)"
  have "client_ok (sh, ds)"
    using client.run_inv [of L es client_id crypto session_id routes mtu decision now] assms(1) by simp
  then have ok: "shared_ok sh" by (simp add: client_ok_def)
  then have iff: "?truth q = Some p \<longleftrightarrow> (q, p) \<in> data_frames (sh_sealed sh)" for q p
    using distinct_numbering [OF assms(2)] by (intro sealed_data_iff) (simp add: shared_ok_def)
  have sent: "(h, p) \<in> set (sh_sealed sh)" if "Client_Frame h p a t \<in> set events" for h p a t
    using that assms(5) by (auto simp: list_all_iff from_client_def)
  obtain s acts where run: "session_run L' crypto' key client_id session_id ip events (session_new wall start) = Ret (s, acts)"
    using session_run_transition [OF assms(3) session_new_ok assms(4)] by blast
  have "uplink_ok ?truth (session_new wall start)" by (simp add: uplink_ok_def session_new_def)
  from session_run_uplink [OF this client_frames_true [OF ok assms(2) sent] run]
  have "uplink_move ?truth ip (session_new wall start) acts s" by simp
  then obtain taken where taken: "consumes ?truth ip replay_default taken (ss_replay s)"
      "reassemble_run (map snd taken) reassembler_default = (ss_fragments s, tun_packets acts)"
    by (auto simp: uplink_move_def session_new_def)
  have "fh_sequence h \<in> fst ` set taken"
    if "Client_Frame h p a t \<in> set events" "fh_flags h = 0" "ipv4_source p = Some ip" "\<not> is_too_old (ss_replay s) (fh_sequence h)"
    for h p a t
  proof -
    have "?truth (fh_sequence h) = Some p" using sent [OF that(1)] that(2) iff by (auto simp: data_frames_def)
    moreover have "\<not> would_accept (ss_replay s) (fh_sequence h)"
      by (rule handled_frames_refused [OF assms(3) session_new_ok assms(4) that(1) run])
    moreover have "would_accept replay_default (fh_sequence h)" by (simp add: would_accept_def replay_default_def)
    ultimately show ?thesis using taken(1) that(3,4) unfolding consumes_def by blast
  qed
  moreover have "(\<lambda>(q, p, t). (q, p)) ` set taken \<subseteq> data_frames (sh_sealed sh)"
    using taken(1) iff by (auto simp: consumes_def)
  moreover have "tun_packets acts = snd (reassemble_run (map snd taken) reassembler_default)" using taken(2) by simp
  moreover have "distinct (map fst taken)" using taken(1) by (simp add: consumes_def)
  ultimately show ?thesis using run by blast
qed

definition sample_packet :: bytes where
  "sample_packet = [0x45, 0, 0, 20, 0, 0, 0, 0, 64, 17, 0, 0, 10, 203, 0, 2, 9, 9, 9, 9]"

definition sample_data_header :: FrameHeader where
  "sample_data_header = \<lparr>fh_flags = 0, fh_client_id = replicate 16 0, fh_session_id = 5, fh_sequence = 1\<rparr>"

definition sample_sender :: "shared \<times> DataSender" where
  "sample_sender = fold (client_step tag_lib) [Send_Data sample_packet 0 0]
     (client_new (replicate 16 0) sample_crypto 5 1 sample_session_mtu 1 0)"

lemma sample_sender_seals: "sh_sealed (fst sample_sender) = [(sample_data_header, sample_packet)]"
  by (simp add: sample_sender_def client_new_def seal_next_def data_send_def loss_repair_new_def is_live_def
      sh_healthy_def selected_paths_def seal_client_def seal_def tag_lib_def Let_def dispatch_send_def dispatch_new_def
      telemetry_new_def PATH_QUEUE_DEPTH_def send_to_def bit_of_index_def reserve_def publish_def settle_def
      queue_depth_at_def update_at_def queue_try_send_def count_outcome_def after_dispatch_def protect_def
      UNKNOWN_def SUPPORTED_def sample_data_header_def)

definition sample_arrivals :: "session_event list" where
  "sample_arrivals = [Client_Frame sample_data_header sample_packet (SocketAddrV4 [192, 0, 2, 1] 4000) 0,
     Flush 1, Client_Frame sample_data_header sample_packet (SocketAddrV4 [192, 0, 2, 9] 4001) 2]"

theorem uplink_delivers_once_witness:
  "\<exists>s acts taken. session_run tag_lib sample_crypto [7] (replicate 16 0) 5 [10, 203, 0, 2] sample_arrivals (session_new 5 0) = Ret (s, acts)
      \<and> tun_packets acts = snd (reassemble_run (map snd taken) reassembler_default) \<and> distinct (map fst taken)
      \<and> (\<lambda>(q, p, t). (q, p)) ` set taken \<subseteq> {(1, sample_packet)}
      \<and> (\<forall>h p a t. Client_Frame h p a t \<in> set sample_arrivals \<and> fh_flags h = 0 \<and> ipv4_source p = Some [10, 203, 0, 2]
          \<and> \<not> is_too_old (ss_replay s) (fh_sequence h) \<longrightarrow> fh_sequence h \<in> fst ` set taken)"
proof -
  have sender: "fold (client_step tag_lib) [Send_Data sample_packet 0 0]
      (client_new (replicate 16 0) sample_crypto 5 1 sample_session_mtu 1 0) = (fst sample_sender, snd sample_sender)"
    by (simp only: sample_sender_def prod.collapse)
  have data: "data_frames (sh_sealed (fst sample_sender)) = {(1, sample_packet)}"
    by (auto simp: sample_sender_seals data_frames_def sample_data_header_def)
  have events: "list_all event_ok sample_arrivals" "list_all (from_client (sh_sealed (fst sample_sender))) sample_arrivals"
    by (simp_all add: sample_arrivals_def sample_sender_seals from_client_def) (simp_all add: sample_data_header_def)
  have small: "length (sh_sealed (fst sample_sender)) < 2 ^ 64" "length (replicate 16 (0 :: u8)) = 16"
    by (simp_all add: sample_sender_seals)
  show ?thesis unfolding data [symmetric] by (rule uplink_delivers_once [OF sender small events])
qed

end
