(* ===== verification/Local_Tap.thy ===== *)
theory Local_Tap
  imports Bit_Masks
begin

section \<open>Diverting replies to the engine's own stack (\<^verbatim>\<open>engine/src/session/local_tap.rs\<close>)\<close>

text \<open>
  The bitmap of claimed ports, the fragment track that follows a diverted datagram, and the inbound
  queue in front of capture. The local stack behind the tap is an implementation of a trait, so its
  inbox is a parameter: \<open>deliver k packet\<close> is the inbox after taking the packet, or \<open>None\<close> when it gives
  the packet back. The bitmap refines a set of ports.
\<close>

definition PORT_WORDS :: nat where "PORT_WORDS = 65536 div 64"
definition FRAGMENT_TRACK_TTL :: duration where "FRAGMENT_TRACK_TTL = secs 5"
definition FRAGMENT_TRACK_LIMIT :: nat where "FRAGMENT_TRACK_LIMIT = 64"

datatype Protocol = Tcp | Udp

datatype Diversion = NotLocal bytes | Taken | Full_Inbox

record 'k LocalTap =
  lt_armed :: bool
  lt_tcp :: "u64 list"
  lt_udp :: "u64 list"
  lt_sink :: "'k option"
  lt_fragments :: "(u32 \<times> u16 \<times> instant) list"

definition tap_default :: "'k LocalTap" where
  "tap_default = \<lparr>lt_armed = False, lt_tcp = replicate PORT_WORDS 0, lt_udp = replicate PORT_WORDS 0,
     lt_sink = None, lt_fragments = []\<rparr>"

definition attach :: "'k \<Rightarrow> 'k LocalTap \<Rightarrow> 'k LocalTap" where
  "attach sink tap = tap\<lparr>lt_sink := Some sink, lt_armed := True\<rparr>"

definition detach :: "'k LocalTap \<Rightarrow> 'k LocalTap" where
  "detach tap = tap\<lparr>lt_armed := False, lt_sink := None, lt_tcp := map (\<lambda>_. 0) (lt_tcp tap),
     lt_udp := map (\<lambda>_. 0) (lt_udp tap), lt_fragments := []\<rparr>"

definition bitmap :: "Protocol \<Rightarrow> 'k LocalTap \<Rightarrow> u64 list" where
  "bitmap protocol tap = (case protocol of Tcp \<Rightarrow> lt_tcp tap | Udp \<Rightarrow> lt_udp tap)"

definition with_bitmap :: "Protocol \<Rightarrow> (u64 list \<Rightarrow> u64 list) \<Rightarrow> 'k LocalTap \<Rightarrow> 'k LocalTap" where
  "with_bitmap protocol f tap =
     (case protocol of Tcp \<Rightarrow> tap\<lparr>lt_tcp := f (lt_tcp tap)\<rparr> | Udp \<Rightarrow> tap\<lparr>lt_udp := f (lt_udp tap)\<rparr>)"

definition port_word :: "u16 \<Rightarrow> nat" where "port_word port = unat port div 64"
definition port_bit :: "u16 \<Rightarrow> u64" where "port_bit port = push_bit (unat port mod 64) 1"

definition claim :: "Protocol \<Rightarrow> u16 \<Rightarrow> 'k LocalTap \<Rightarrow> 'k LocalTap" where
  "claim protocol port =
     with_bitmap protocol (\<lambda>words. words[port_word port := words ! port_word port OR port_bit port])"

definition release_port :: "Protocol \<Rightarrow> u16 \<Rightarrow> 'k LocalTap \<Rightarrow> 'k LocalTap" where
  "release_port protocol port =
     with_bitmap protocol (\<lambda>words. words[port_word port := words ! port_word port AND NOT (port_bit port)])"

definition is_claimed :: "Protocol \<Rightarrow> u16 \<Rightarrow> 'k LocalTap \<Rightarrow> bool" where
  "is_claimed protocol port tap \<longleftrightarrow> bitmap protocol tap ! port_word port AND port_bit port \<noteq> 0"

record Ipv4Header =
  ih_source :: u32
  ih_identification :: u16
  ih_more_fragments :: bool
  ih_destination_port :: "(Protocol \<times> u16) option"

definition ipv4_header_parse :: "bytes \<Rightarrow> Ipv4Header option" where
  "ipv4_header_parse packet =
     (if length packet < 20 \<or> drop_bit 4 (packet ! 0) \<noteq> 4 then None
      else case (if packet ! 9 = 6 then Some Tcp else if packet ! 9 = 17 then Some Udp else None) of
        None \<Rightarrow> None
      | Some protocol \<Rightarrow>
          (let header_length = unat (packet ! 0 AND 0x0f) * 4;
               flags_offset = of_be16 [packet ! 6, packet ! 7];
               header = \<lambda>port. \<lparr>ih_source = of_be32 (subslice 12 16 packet),
                 ih_identification = of_be16 [packet ! 4, packet ! 5],
                 ih_more_fragments = (flags_offset AND 0x2000 \<noteq> 0), ih_destination_port = port\<rparr>
           in if flags_offset AND 0x1fff = 0
              then (if length packet < header_length + 4 then None
                    else Some (header (Some (protocol, of_be16 [packet ! (header_length + 2), packet ! (header_length + 3)]))))
              else Some (header None)))"

definition track_fragment :: "u32 \<Rightarrow> u16 \<Rightarrow> instant \<Rightarrow> 'k LocalTap \<Rightarrow> 'k LocalTap" where
  "track_fragment source identification now tap =
     (let fragments = filter (\<lambda>(_, _, seen). duration_since now seen < FRAGMENT_TRACK_TTL) (lt_fragments tap);
          fragments = (if length fragments \<ge> FRAGMENT_TRACK_LIMIT then tl fragments else fragments)
      in tap\<lparr>lt_fragments := fragments @ [(source, identification, now)]\<rparr>)"

definition is_tracked_fragment :: "u32 \<Rightarrow> u16 \<Rightarrow> instant \<Rightarrow> 'k LocalTap \<Rightarrow> bool" where
  "is_tracked_fragment source identification now tap \<longleftrightarrow>
     list_ex (\<lambda>(from_ip, i, seen). from_ip = source \<and> i = identification \<and> duration_since now seen < FRAGMENT_TRACK_TTL)
       (lt_fragments tap)"

definition divert :: "('k \<Rightarrow> bytes \<Rightarrow> 'k option) \<Rightarrow> bytes \<Rightarrow> instant \<Rightarrow> 'k LocalTap \<Rightarrow> 'k LocalTap \<times> Diversion" where
  "divert deliver packet now tap =
     (if \<not> lt_armed tap then (tap, NotLocal packet)
      else case ipv4_header_parse packet of
        None \<Rightarrow> (tap, NotLocal packet)
      | Some header \<Rightarrow>
          (let (tap, is_local) =
             (case ih_destination_port header of
                Some (protocol, port) \<Rightarrow>
                  (let claimed = is_claimed protocol port tap
                   in (if claimed \<and> ih_more_fragments header
                       then track_fragment (ih_source header) (ih_identification header) now tap else tap, claimed))
              | None \<Rightarrow> (tap, is_tracked_fragment (ih_source header) (ih_identification header) now tap))
           in if \<not> is_local then (tap, NotLocal packet)
              else case lt_sink tap of
                None \<Rightarrow> (tap, Full_Inbox)
              | Some k \<Rightarrow>
                  (case deliver k packet of
                     Some k' \<Rightarrow> (tap\<lparr>lt_sink := Some k'\<rparr>, Taken)
                   | None \<Rightarrow> (tap, Full_Inbox))))"

subsection \<open>The inbound queue\<close>

text \<open>A bounded channel of the standard library: what it holds, its capacity, whether its receiver lives.\<close>

record channel =
  ch_capacity :: nat
  ch_items :: "bytes list"
  ch_open :: bool

datatype TrySendError = Full bytes | Disconnected bytes

definition channel_try_send :: "bytes \<Rightarrow> channel \<Rightarrow> channel \<times> TrySendError option" where
  "channel_try_send packet c =
     (if \<not> ch_open c then (c, Some (Disconnected packet))
      else if length (ch_items c) \<ge> ch_capacity c then (c, Some (Full packet))
      else (c\<lparr>ch_items := ch_items c @ [packet]\<rparr>, None))"

record InboundGauge =
  ig_depth :: nat
  ig_peak :: nat

definition queued :: "InboundGauge \<Rightarrow> InboundGauge" where
  "queued g = (let depth = ig_depth g + 1 in \<lparr>ig_depth = depth, ig_peak = max (ig_peak g) depth\<rparr>)"

definition taken :: "InboundGauge \<Rightarrow> InboundGauge" where
  "taken g = (if ig_depth g = 0 then g else g\<lparr>ig_depth := ig_depth g - 1\<rparr>)"

record 'k InboundSink =
  sk_queue :: channel
  sk_tap :: "'k LocalTap"
  sk_gauge :: InboundGauge

definition sink_try_send ::
  "('k \<Rightarrow> bytes \<Rightarrow> 'k option) \<Rightarrow> instant \<Rightarrow> bytes \<Rightarrow> 'k InboundSink \<Rightarrow> 'k InboundSink \<times> TrySendError option" where
  "sink_try_send deliver now packet s =
     (case divert deliver packet now (sk_tap s) of
        (tap, NotLocal p) \<Rightarrow>
          (case channel_try_send p (sk_queue s) of
             (queue, Some e) \<Rightarrow> (s\<lparr>sk_tap := tap, sk_queue := queue\<rparr>, Some e)
           | (queue, None) \<Rightarrow> (s\<lparr>sk_tap := tap, sk_queue := queue, sk_gauge := queued (sk_gauge s)\<rparr>, None))
      | (tap, Taken) \<Rightarrow> (s\<lparr>sk_tap := tap\<rparr>, None)
      | (tap, Full_Inbox) \<Rightarrow> (s\<lparr>sk_tap := tap\<rparr>, Some (Full [])))"

subsection \<open>The bitmap is a set of ports\<close>

definition tap_wf :: "'k LocalTap \<Rightarrow> bool" where
  "tap_wf tap \<longleftrightarrow> length (lt_tcp tap) = 1024 \<and> length (lt_udp tap) = 1024 \<and> length (lt_fragments tap) \<le> 64"

lemma port_word_less: "port_word port < 1024"
  using unat_u16_less [of port] by (simp add: port_word_def less_mult_imp_div_less)

lemma port_bit_bit: "bit (port_bit port) n \<longleftrightarrow> n = unat port mod 64"
  using bits_of_exp [of "unat port mod 64"] by (auto simp: port_bit_def bits_of_def)

lemma and_port_bit: "w AND port_bit port \<noteq> 0 \<longleftrightarrow> bit w (unat port mod 64)"
  by (auto simp: and_zero_iff bits_of_def port_bit_bit)

lemma is_claimed_bit: "is_claimed protocol port tap \<longleftrightarrow> bit (bitmap protocol tap ! port_word port) (unat port mod 64)"
  by (simp add: is_claimed_def and_port_bit)

lemma port_split: "port_word p = port_word q \<and> unat p mod 64 = unat q mod 64 \<longleftrightarrow> p = q"
  unfolding port_word_def word_unat_eq_iff by (metis div_mult_mod_eq)

lemma bitmap_with_bitmap: "bitmap p (with_bitmap q f tap) = (if p = q then f (bitmap p tap) else bitmap p tap)"
  by (cases p; cases q) (simp_all add: bitmap_def with_bitmap_def)

lemma length_bitmap: "tap_wf tap \<Longrightarrow> length (bitmap p tap) = 1024"
  by (cases p) (simp_all add: bitmap_def tap_wf_def)

lemma claim_claims:
  "tap_wf tap \<Longrightarrow> is_claimed p port (claim q claimed tap) \<longleftrightarrow> p = q \<and> port = claimed \<or> is_claimed p port tap"
  using port_split [of port claimed] port_word_less [of claimed]
  by (auto simp: is_claimed_bit claim_def bitmap_with_bitmap length_bitmap nth_list_update bit_or_iff port_bit_bit)

lemma release_releases:
  "tap_wf tap \<Longrightarrow> is_claimed p port (release_port q released tap) \<longleftrightarrow> \<not> (p = q \<and> port = released) \<and> is_claimed p port tap"
  using port_split [of port released] port_word_less [of released]
  by (auto simp: is_claimed_bit release_port_def bitmap_with_bitmap length_bitmap nth_list_update bit_and_iff bit_not_iff port_bit_bit)

lemma detach_claims_nothing: "tap_wf tap \<Longrightarrow> \<not> is_claimed p port (detach tap)"
  using port_word_less [of port] by (cases p) (simp_all add: is_claimed_bit detach_def bitmap_def tap_wf_def)

lemma default_claims_nothing: "\<not> is_claimed p port tap_default"
  using port_word_less [of port] by (cases p) (simp_all add: is_claimed_bit tap_default_def bitmap_def PORT_WORDS_def)

lemma track_wf: "tap_wf tap \<Longrightarrow> tap_wf (track_fragment source ident now tap)"
proof -
  assume wf: "tap_wf tap"
  define live where "live = filter (\<lambda>(_, _, seen). duration_since now seen < FRAGMENT_TRACK_TTL) (lt_fragments tap)"
  have "length live \<le> 64"
    unfolding live_def using wf by (auto simp: tap_wf_def intro: order_trans [OF length_filter_le])
  then show ?thesis
    using wf by (auto simp: track_fragment_def Let_def live_def [symmetric] tap_wf_def FRAGMENT_TRACK_LIMIT_def)
qed

lemma divert_wf: "tap_wf tap \<Longrightarrow> tap_wf (fst (divert deliver packet now tap))"
proof -
  assume wf: "tap_wf tap"
  have sink: "tap_wf (t\<lparr>lt_sink := k\<rparr>) = tap_wf t" for t k by (simp add: tap_wf_def)
  show ?thesis
    using wf track_wf [OF wf]
    by (simp add: divert_def Let_def case_prod_unfold sink split: option.split)
qed

lemma tap_ops_wf:
  "tap_wf tap_default" "tap_wf tap \<Longrightarrow> tap_wf (attach k tap)" "tap_wf tap \<Longrightarrow> tap_wf (detach tap)"
  "tap_wf tap \<Longrightarrow> tap_wf (claim p port tap)" "tap_wf tap \<Longrightarrow> tap_wf (release_port p port tap)"
  by (cases p; simp add: tap_wf_def tap_default_def PORT_WORDS_def attach_def detach_def claim_def release_port_def with_bitmap_def)+

end
