(* ===== verification/Ingress.thy ===== *)
theory Ingress
  imports Replay Protocol Fec_Decoder Local_Tap
begin

section \<open>What the client admits from the relay (\<^verbatim>\<open>RelayIngress\<close> of \<^verbatim>\<open>engine/src/session/state.rs\<close>)\<close>

text \<open>
  The path workers share one ingress under a lock: it admits the first authenticated copy of every
  reply, rebuilds lost ones from repairs, and puts them into the inbound queue. The queue is a
  parameter, \<open>try_send q packet\<close>, as the source is generic in it; it may refuse any packet at any
  time. The diagnostics counters are left out. Operations return, beside the new state, the packets
  handed to the queue with their sequences.
\<close>

record RelayIngress =
  ri_client_id :: bytes
  ri_session_id :: u64
  ri_replay :: ReplayWindow
  ri_repair :: Decoder
  ri_recovered :: nat
  ri_repair_queue_rejected :: nat

type_synonym 'q try_send = "'q \<Rightarrow> bytes \<Rightarrow> 'q \<times> TrySendError option"

definition ingress_new :: "bytes \<Rightarrow> u64 \<Rightarrow> RelayIngress" where
  "ingress_new client_id session_id = \<lparr>ri_client_id = client_id, ri_session_id = session_id, ri_replay = replay_default,
     ri_repair = decoder_default, ri_recovered = 0, ri_repair_queue_rejected = 0\<rparr>"

definition is_ours :: "FrameHeader \<Rightarrow> RelayIngress \<Rightarrow> bool" where
  "is_ours header ing \<longleftrightarrow> fh_client_id header = ri_client_id ing \<and> fh_session_id header = ri_session_id ing
     \<and> fh_flags header AND FLAG_SERVER_TO_CLIENT \<noteq> 0 \<and> fh_flags header AND FLAG_CONTROL = 0"

definition admit_rebuilt_reply ::
  "'q try_send \<Rightarrow> u64 \<Rightarrow> bytes \<Rightarrow> RelayIngress \<times> 'q \<Rightarrow> (RelayIngress \<times> 'q) \<times> (u64 \<times> bytes) list" where
  "admit_rebuilt_reply try_send sequence packet = (\<lambda>(ing, q).
     if \<not> would_accept (ri_replay ing) sequence then ((ing, q), [])
     else let ing = ing\<lparr>ri_repair := remember sequence packet (ri_repair ing)\<rparr>
          in case try_send q packet of
               (q, Some _) \<Rightarrow> ((ing\<lparr>ri_repair_queue_rejected := ri_repair_queue_rejected ing + 1\<rparr>, q), [])
             | (q, None) \<Rightarrow>
                 ((ing\<lparr>ri_replay := snd (replay_accept (ri_replay ing) sequence), ri_recovered := ri_recovered ing + 1\<rparr>, q),
                  [(sequence, packet)]))"

lemma admit_rebuilt_reply_pending [simp]:
  "de_pending (ri_repair (fst (fst (admit_rebuilt_reply try_send sequence packet s)))) = de_pending (ri_repair (fst s))"
  by (cases s) (simp add: admit_rebuilt_reply_def Let_def case_prod_unfold split: option.split)

function ingress_retry :: "'q try_send \<Rightarrow> instant \<Rightarrow> RelayIngress \<times> 'q \<Rightarrow> (RelayIngress \<times> 'q) \<times> (u64 \<times> bytes) list" where
  "ingress_retry try_send now s =
     (if \<not> has_pending (ri_repair (fst s)) then (s, [])
      else let result = retry_pending now (\<lambda>q. \<not> would_accept (ri_replay (fst s)) q) (ri_repair (fst s));
               s' = ((fst s)\<lparr>ri_repair := fst result\<rparr>, snd s)
           in case snd result of
                None \<Rightarrow> (s', [])
              | Some (sequence, packet) \<Rightarrow>
                  (let admitted = admit_rebuilt_reply try_send sequence packet s';
                       rest = ingress_retry try_send now (fst admitted)
                   in (fst rest, snd admitted @ snd rest)))"
  by pat_completeness auto
termination
proof (relation "measure (\<lambda>(t, now, s). length (de_pending (ri_repair (fst s))))", goal_cases)
  case (2 try_send now s result s' q sequence packet admitted)
  then show ?case using retry_pending_shrinks by auto
qed simp

declare ingress_retry.simps [simp del]

definition enqueue_authenticated ::
  "'q try_send \<Rightarrow> FrameHeader \<Rightarrow> bytes \<Rightarrow> instant \<Rightarrow> RelayIngress \<times> 'q
     \<Rightarrow> (RelayIngress \<times> 'q) \<times> (u64 \<times> bytes) list \<times> (TrySendError + bool)" where
  "enqueue_authenticated try_send header plaintext now = (\<lambda>(ing, q).
     if \<not> is_ours header ing \<or> fh_flags header AND FLAG_REPAIR \<noteq> 0 then ((ing, q), [], Inr False)
     else if \<not> would_accept (ri_replay ing) (fh_sequence header) then ((ing, q), [], Inr False)
     else let ing = ing\<lparr>ri_repair := remember (fh_sequence header) plaintext (ri_repair ing)\<rparr>
          in case try_send q plaintext of
               (q, Some e) \<Rightarrow> ((ing, q), [], Inl e)
             | (q, None) \<Rightarrow>
                 (let ing = ing\<lparr>ri_replay := snd (replay_accept (ri_replay ing) (fh_sequence header))\<rparr>;
                      (s, rest) = ingress_retry try_send now (ing, q)
                  in (s, (fh_sequence header, plaintext) # rest, Inr True)))"

definition enqueue_repair ::
  "'q try_send \<Rightarrow> FrameHeader \<Rightarrow> bytes \<Rightarrow> instant \<Rightarrow> RelayIngress \<times> 'q
     \<Rightarrow> (RelayIngress \<times> 'q) \<times> (u64 \<times> bytes) list \<times> bool" where
  "enqueue_repair try_send header payload now = (\<lambda>(ing, q).
     if \<not> is_ours header ing \<or> fh_flags header AND FLAG_REPAIR = 0 then ((ing, q), [], False)
     else let (fresh_one, window) = replay_accept (ri_replay ing) (fh_sequence header);
              ing = ing\<lparr>ri_replay := window\<rparr>
          in if \<not> fresh_one then ((ing, q), [], False)
             else let (decoder, result) = accept_repair payload now (\<lambda>q. \<not> would_accept (ri_replay ing) q) (ri_repair ing);
                      ing = ing\<lparr>ri_repair := decoder\<rparr>;
                      (s, first) = (case result of
                         None \<Rightarrow> ((ing, q), [])
                       | Some (sequence, packet) \<Rightarrow> admit_rebuilt_reply try_send sequence packet (ing, q));
                      (s, rest) = ingress_retry try_send now s
                  in (s, first @ rest, first \<noteq> []))"

definition repair_counters :: "RelayIngress \<Rightarrow> nat \<times> nat \<times> nat" where
  "repair_counters ing = (de_repairs_received (ri_repair ing), ri_recovered ing, de_unrecoverable (ri_repair ing))"

subsection \<open>Exactly once, and only what was sent\<close>

text \<open>
  \<open>truth\<close> maps a sequence to the reply the relay sealed under it. Every operation is an
  \<open>ingress_move\<close>: it hands out true packets under distinct sequences that were acceptable before and
  are not afterwards. Moves compose.
\<close>

definition ingress_ok :: "(u64 \<rightharpoonup> bytes) \<Rightarrow> RelayIngress \<Rightarrow> bool" where
  "ingress_ok truth ing \<longleftrightarrow> window_ok (ri_replay ing) \<and> decoder_ok truth (ri_repair ing)"

definition ingress_move :: "(u64 \<rightharpoonup> bytes) \<Rightarrow> RelayIngress \<Rightarrow> (u64 \<times> bytes) list \<Rightarrow> RelayIngress \<Rightarrow> bool" where
  "ingress_move truth ing ds ing' \<longleftrightarrow> ingress_ok truth ing'
     \<and> (\<forall>q. \<not> would_accept (ri_replay ing) q \<longrightarrow> \<not> would_accept (ri_replay ing') q)
     \<and> distinct (map fst ds)
     \<and> (\<forall>d \<in> set ds. truth (fst d) = Some (snd d) \<and> would_accept (ri_replay ing) (fst d) \<and> \<not> would_accept (ri_replay ing') (fst d))"

lemma move_trans:
  assumes "ingress_move truth a ds b" and "ingress_move truth b es c"
  shows "ingress_move truth a (ds @ es) c"
proof -
  have "fst d \<noteq> fst e" if "d \<in> set ds" "e \<in> set es" for d e
    using assms that unfolding ingress_move_def by metis
  then have "distinct (map fst (ds @ es))" using assms by (auto simp: ingress_move_def)
  then show ?thesis using assms unfolding ingress_move_def set_append by blast
qed

lemma move_silent:
  "ingress_ok truth ing' \<Longrightarrow> ri_replay ing' = ri_replay ing \<Longrightarrow> ingress_move truth ing [] ing'"
  by (simp add: ingress_move_def)

lemma move_ok: "ingress_move truth ing ds ing' \<Longrightarrow> ingress_ok truth ing'"
  by (simp add: ingress_move_def)

lemma move_delivers:
  assumes "ingress_ok truth ing" and "would_accept (ri_replay ing) s" and "truth s = Some p"
    and "ri_replay ing' = snd (replay_accept (ri_replay ing) s)" and "decoder_ok truth (ri_repair ing')"
  shows "ingress_move truth ing [(s, p)] ing'"
  using assms replay.commit_ok replay.commit_blocks replay.commit_keeps by (simp add: ingress_move_def ingress_ok_def)

lemma admit_move:
  assumes "ingress_ok truth (fst s)" and "truth sequence = Some packet"
  shows "ingress_move truth (fst s) (snd (admit_rebuilt_reply try_send sequence packet s))
    (fst (fst (admit_rebuilt_reply try_send sequence packet s)))"
proof -
  obtain ing q where s: "s = (ing, q)" by (cases s)
  have kept: "decoder_ok truth (remember sequence packet (ri_repair ing))"
    using assms by (simp add: s ingress_ok_def decoder_ok_remember)
  show ?thesis
  proof (cases "would_accept (ri_replay ing) sequence")
    case False
    then show ?thesis using assms(1) by (simp add: s admit_rebuilt_reply_def move_silent)
  next
    case True
    obtain q' r where sent: "try_send q packet = (q', r)" by (cases "try_send q packet")
    show ?thesis
    proof (cases r)
      case None
      have "ingress_move truth ing [(sequence, packet)]
          (ing\<lparr>ri_repair := remember sequence packet (ri_repair ing),
               ri_replay := snd (replay_accept (ri_replay ing) sequence), ri_recovered := ri_recovered ing + 1\<rparr>)"
        using assms True kept by (intro move_delivers) (simp_all add: s)
      then show ?thesis using True sent None by (simp add: s admit_rebuilt_reply_def Let_def)
    next
      case (Some e)
      then show ?thesis
        using True sent kept assms(1) by (simp add: s admit_rebuilt_reply_def Let_def move_silent ingress_ok_def)
    qed
  qed
qed

lemma retry_move:
  "ingress_ok truth (fst s) \<Longrightarrow>
     ingress_move truth (fst s) (snd (ingress_retry try_send now s)) (fst (fst (ingress_retry try_send now s)))"
proof (induction try_send now s rule: ingress_retry.induct)
  case (1 try_send now s)
  show ?case
  proof (cases "has_pending (ri_repair (fst s))")
    case False
    then show ?thesis using 1(2) by (simp add: ingress_retry.simps [of try_send now s] move_silent)
  next
    case True
    define result where "result = retry_pending now (\<lambda>q. \<not> would_accept (ri_replay (fst s)) q) (ri_repair (fst s))"
    define s' where "s' = ((fst s)\<lparr>ri_repair := fst result\<rparr>, snd s)"
    have dec: "decoder_ok truth (ri_repair (fst s))" using 1(2) by (simp add: ingress_ok_def)
    have s': "ingress_ok truth (fst s')"
      using 1(2) retry_pending_ok(1) [OF dec] by (simp add: s'_def result_def ingress_ok_def)
    have start: "ingress_move truth (fst s) [] (fst s')" using s' by (simp add: move_silent s'_def)
    show ?thesis
    proof (cases "snd result")
      case None
      then show ?thesis
        using True start by (simp add: ingress_retry.simps [of try_send now s] Let_def flip: result_def s'_def)
    next
      case (Some found)
      obtain sequence packet where found: "found = (sequence, packet)" by (cases found)
      have "truth sequence = Some packet"
        using retry_pending_ok(2) [OF dec] Some found by (simp add: result_def)
      note admitted = admit_move [OF s' this, of try_send]
      define a where "a = admit_rebuilt_reply try_send sequence packet s'"
      have "ingress_move truth (fst (fst a)) (snd (ingress_retry try_send now (fst a))) (fst (fst (ingress_retry try_send now (fst a))))"
        using 1(1) [OF _ result_def s'_def Some found [symmetric] a_def] True move_ok [OF admitted, folded a_def] by simp
      from move_trans [OF admitted [folded a_def] this] move_trans [OF start]
      have "ingress_move truth (fst s) (snd a @ snd (ingress_retry try_send now (fst a)))
          (fst (fst (ingress_retry try_send now (fst a))))" by fastforce
      then show ?thesis
        using True Some found
        by (simp add: ingress_retry.simps [of try_send now s] Let_def a_def flip: result_def s'_def)
    qed
  qed
qed

text \<open>What reaches the ingress: frames the workers opened, and whatever the queue's reader does in between.\<close>

datatype 'q ingress_event =
    Data_Frame FrameHeader bytes instant
  | Repair_Frame FrameHeader bytes instant
  | Queue_Moves "'q \<Rightarrow> 'q"

fun ingress_step :: "'q try_send \<Rightarrow> 'q ingress_event \<Rightarrow> RelayIngress \<times> 'q \<Rightarrow> (RelayIngress \<times> 'q) \<times> (u64 \<times> bytes) list" where
  "ingress_step try_send (Data_Frame header plaintext now) s =
     (let (s, ds, _) = enqueue_authenticated try_send header plaintext now s in (s, ds))"
| "ingress_step try_send (Repair_Frame header payload now) s =
     (let (s, ds, _) = enqueue_repair try_send header payload now s in (s, ds))"
| "ingress_step try_send (Queue_Moves f) s = ((fst s, f (snd s)), [])"

text \<open>The relay's frames: data frames carry what was sent under their sequence, repairs cover such packets.\<close>

fun from_relay :: "(u64 \<rightharpoonup> bytes) \<Rightarrow> 'q ingress_event \<Rightarrow> bool" where
  "from_relay truth (Data_Frame header plaintext now) \<longleftrightarrow>
     fh_flags header AND FLAG_REPAIR \<noteq> 0 \<or> truth (fh_sequence header) = Some plaintext"
| "from_relay truth (Repair_Frame header payload now) \<longleftrightarrow>
     fh_flags header AND FLAG_REPAIR = 0 \<or> (\<exists>grp. genuine_group truth grp \<and> payload = repair_payload grp)"
| "from_relay truth (Queue_Moves f) \<longleftrightarrow> True"

lemma data_move:
  assumes "ingress_ok truth (fst s)" and "fh_flags header AND FLAG_REPAIR \<noteq> 0 \<or> truth (fh_sequence header) = Some plaintext"
  shows "ingress_move truth (fst s) (fst (snd (enqueue_authenticated try_send header plaintext now s)))
    (fst (fst (enqueue_authenticated try_send header plaintext now s)))"
proof -
  obtain ing q where s: "s = (ing, q)" by (cases s)
  show ?thesis
  proof (cases "is_ours header ing \<and> fh_flags header AND FLAG_REPAIR = 0 \<and> would_accept (ri_replay ing) (fh_sequence header)")
    case False
    then show ?thesis using assms(1) by (auto simp: s enqueue_authenticated_def move_silent)
  next
    case True
    then have genuine: "truth (fh_sequence header) = Some plaintext" using assms(2) by blast
    then have kept: "decoder_ok truth (remember (fh_sequence header) plaintext (ri_repair ing))"
      using assms(1) by (simp add: s ingress_ok_def decoder_ok_remember)
    obtain q' r where sent: "try_send q plaintext = (q', r)" by (cases "try_send q plaintext")
    show ?thesis
    proof (cases r)
      case (Some e)
      then show ?thesis
        using True sent kept assms(1) by (simp add: s enqueue_authenticated_def Let_def move_silent ingress_ok_def)
    next
      case None
      define ing' where "ing' = ing\<lparr>ri_repair := remember (fh_sequence header) plaintext (ri_repair ing),
        ri_replay := snd (replay_accept (ri_replay ing) (fh_sequence header))\<rparr>"
      have m: "ingress_move truth ing [(fh_sequence header, plaintext)] ing'"
        using assms(1) True genuine kept by (intro move_delivers) (simp_all add: s ing'_def)
      from move_trans [OF m] retry_move [of truth "(ing', q')" try_send now] move_ok [OF m]
      show ?thesis
        using True sent None by (simp add: s enqueue_authenticated_def Let_def case_prod_unfold ing'_def)
    qed
  qed
qed

lemma repair_move:
  assumes "ingress_ok truth (fst s)"
    and "fh_flags header AND FLAG_REPAIR = 0 \<or> (\<exists>grp. genuine_group truth grp \<and> payload = repair_payload grp)"
  shows "ingress_move truth (fst s) (fst (snd (enqueue_repair try_send header payload now s)))
    (fst (fst (enqueue_repair try_send header payload now s)))"
proof -
  obtain ing q where s: "s = (ing, q)" by (cases s)
  define w where "w = ing\<lparr>ri_replay := snd (replay_accept (ri_replay ing) (fh_sequence header))\<rparr>"
  have w: "ingress_move truth ing [] w"
    using assms(1) replay.commit_ok replay.commit_keeps by (simp add: s w_def ingress_move_def ingress_ok_def)
  show ?thesis
  proof (cases "is_ours header ing \<and> fh_flags header AND FLAG_REPAIR \<noteq> 0 \<and> fst (replay_accept (ri_replay ing) (fh_sequence header))")
    case False
    then show ?thesis
      using assms(1) w by (auto simp: s enqueue_repair_def move_silent case_prod_unfold Let_def w_def)
  next
    case True
    then obtain grp where grp: "genuine_group truth grp" "payload = repair_payload grp" using assms(2) by blast
    define out where "out = accept_repair payload now (\<lambda>q. \<not> would_accept (ri_replay w) q) (ri_repair w)"
    have dec: "decoder_ok truth (ri_repair w)" using move_ok [OF w] by (simp add: ingress_ok_def)
    define t where "t = (w\<lparr>ri_repair := fst out\<rparr>, q)"
    have t: "ingress_move truth ing [] (fst t)"
      using w accept_repair_ok(1) [OF dec grp(1)] by (simp add: t_def out_def grp(2) ingress_move_def ingress_ok_def)
    define u where "u = (case snd out of None \<Rightarrow> (t, []) | Some (sequence, packet) \<Rightarrow> admit_rebuilt_reply try_send sequence packet t)"
    have "ingress_move truth (fst t) (snd u) (fst (fst u))"
    proof (cases "snd out")
      case None
      then show ?thesis using move_ok [OF t] by (simp add: u_def move_silent)
    next
      case (Some m)
      then have "truth (fst m) = Some (snd m)"
        using accept_repair_ok(2) [OF dec grp(1), of now _ "fst m" "snd m"] by (simp add: out_def grp(2))
      from admit_move [OF move_ok [OF t] this] Some show ?thesis by (simp add: u_def case_prod_unfold)
    qed
    note m = move_trans [OF t this]
    have "ingress_move truth ing (snd u @ snd (ingress_retry try_send now (fst u))) (fst (fst (ingress_retry try_send now (fst u))))"
      using move_trans [OF m retry_move [OF move_ok [OF m]]] by simp
    moreover have "enqueue_repair try_send header payload now s =
        (fst (ingress_retry try_send now (fst u)), snd u @ snd (ingress_retry try_send now (fst u)), snd u \<noteq> [])"
      using True by (cases "snd out") (simp_all add: s enqueue_repair_def Let_def case_prod_unfold u_def t_def out_def w_def)
    ultimately show ?thesis by (simp add: s)
  qed
qed

lemma ingress_step_move:
  "ingress_ok truth (fst s) \<Longrightarrow> from_relay truth e \<Longrightarrow>
     ingress_move truth (fst s) (snd (ingress_step try_send e s)) (fst (fst (ingress_step try_send e s)))"
  using data_move repair_move by (cases e) (simp_all add: case_prod_unfold Let_def move_silent)

lemma ingress_run_move:
  "ingress_ok truth (fst s) \<Longrightarrow> list_all (from_relay truth) es \<Longrightarrow>
     ingress_move truth (fst s) (snd (emit_run (ingress_step try_send) es s)) (fst (fst (emit_run (ingress_step try_send) es s)))"
proof (induction es arbitrary: s)
  case Nil
  then show ?case by (simp add: move_silent)
next
  case (Cons e es)
  have m: "ingress_move truth (fst s) (snd (ingress_step try_send e s)) (fst (fst (ingress_step try_send e s)))"
    using Cons.prems by (intro ingress_step_move) simp_all
  from move_trans [OF m Cons.IH [OF move_ok [OF m]]] Cons.prems show ?case
    by (simp add: emit_run_simps del: emit_run.simps(2))
qed

lemma ingress_new_ok: "ingress_ok truth (ingress_new client_id session_id)"
  by (simp add: ingress_ok_def ingress_new_def decoder_ok_default)

text \<open>
  C2. The game receives every reply at most once and never a wrong one: whatever frames of the relay reach
  the client, over whatever paths, duplicated, reordered or lost, and whatever the inbound queue
  refuses in between, the packets handed to the queue carry pairwise different sequences, and each is
  the packet the relay sent under its sequence - also the rebuilt ones.
\<close>

theorem replies_delivered_once_and_genuine:
  assumes "list_all (from_relay truth) events"
  shows "distinct (map fst (snd (emit_run (ingress_step try_send) events (ingress_new client_id session_id, q))))
    \<and> list_all (\<lambda>d. truth (fst d) = Some (snd d))
        (snd (emit_run (ingress_step try_send) events (ingress_new client_id session_id, q)))"
  using ingress_run_move [OF _ assms, of "(ingress_new client_id session_id, q)" try_send] ingress_new_ok
  by (simp add: ingress_move_def list_all_iff)

text \<open>A queue that refuses a frame does not use its sequence up: another copy can still be admitted.\<close>

lemma refused_frame_can_return:
  assumes "enqueue_authenticated try_send header plaintext now (ing, q) = ((ing', q'), ds, Inl e)"
  shows "would_accept (ri_replay ing') (fh_sequence header)" and "ds = []"
  using assms by (auto simp: enqueue_authenticated_def Let_def case_prod_unfold split: if_splits option.splits)

text \<open>A run with a loss: the second packet of a group never arrives and is rebuilt.\<close>

definition sample_reply_header :: "u8 \<Rightarrow> u64 \<Rightarrow> FrameHeader" where
  "sample_reply_header flags sequence = \<lparr>fh_flags = flags OR FLAG_SERVER_TO_CLIENT, fh_client_id = [1], fh_session_id = 9,
     fh_sequence = sequence\<rparr>"

definition sample_replies :: "bytes list ingress_event list" where
  "sample_replies = [Data_Frame (sample_reply_header 0 7) [1, 2, 3] 0,
     Repair_Frame (sample_reply_header FLAG_REPAIR 20) (repair_payload sample_group) 1,
     Data_Frame (sample_reply_header 0 7) [1, 2, 3] 2]"

theorem replies_delivered_once_and_genuine_witness:
  "distinct (map fst (snd (emit_run (ingress_step (\<lambda>q p. (p # q, None))) sample_replies (ingress_new [1] 9, []))))"
proof -
  have "genuine_group (map_of sample_group) sample_group"
    by (simp add: sample_group_def genuine_group_def group_wf_def)
  then have "list_all (from_relay (map_of sample_group)) sample_replies"
    by (auto simp: sample_replies_def sample_reply_header_def sample_group_def)
  from replies_delivered_once_and_genuine [OF this] show ?thesis by blast
qed

end
