(* ===== verification/Direct_List.thy ===== *)
theory Direct_List
  imports Path_Health "HOL-Library.Char_ord" "HOL-Library.Product_Lexorder"
begin

section \<open>The direct destination list (\<^verbatim>\<open>engine/src/direct_list.rs\<close>)\<close>

text \<open>
  Networks and names that stay off the tunnel: parsing them, the merged ranges and their lookup, taking
  an address out, the CIDR blocks for the routing table, and the DNS replies the list learns from. The
  lemmas show that a lookup answers for exactly the networks that were listed, less the excluded
  addresses, and that the CIDR loop ends with blocks that cover exactly the ranges.

  Strings are lists of 8-bit characters; the white space \<^verbatim>\<open>trim\<close> removes is the ASCII one. The hash sets
  of names are lists, of which only membership and size are used.
\<close>

subsection \<open>Parsing\<close>

definition MAX_NETWORKS :: nat where "MAX_NETWORKS = 65536"
definition MAX_DOMAINS :: nat where "MAX_DOMAINS = 65536"
definition MIN_PREFIX :: nat where "MIN_PREFIX = 8"

definition is_space :: "char \<Rightarrow> bool" where
  "is_space c = (let n = of_char c :: nat in 9 \<le> n \<and> n \<le> 13 \<or> n = 32)"

definition trim :: "string \<Rightarrow> string" where
  "trim s = rev (dropWhile is_space (rev (dropWhile is_space s)))"

text \<open>\<^verbatim>\<open>split_once\<close>: the parts before and after the first occurrence.\<close>

definition split_once :: "char \<Rightarrow> string \<Rightarrow> (string \<times> string) option" where
  "split_once c s = (if c \<in> set s then Some (takeWhile (\<lambda>x. x \<noteq> c) s, tl (dropWhile (\<lambda>x. x \<noteq> c) s)) else None)"

text \<open>\<^verbatim>\<open>split\<close>: the parts between the occurrences.\<close>

fun split_on :: "char \<Rightarrow> string \<Rightarrow> string list" where
  "split_on c [] = [[]]"
| "split_on c (x # xs) =
     (if x = c then [] # split_on c xs
      else case split_on c xs of [] \<Rightarrow> [[x]] | p # ps \<Rightarrow> (x # p) # ps)"

text \<open>\<^verbatim>\<open>str::parse::<u8>\<close>.\<close>

definition parse_u8 :: "string \<Rightarrow> nat option" where
  "parse_u8 s = (case parse_u32 s of None \<Rightarrow> None | Some n \<Rightarrow> if n < 256 then Some n else None)"

text \<open>One octet of \<^verbatim>\<open>Ipv4Addr::from_str\<close>: one to three digits, no leading zero, at most 255.\<close>

definition parse_octet :: "string \<Rightarrow> u8 option" where
  "parse_octet s =
     (if s = [] \<or> length s > 3 \<or> (length s > 1 \<and> hd s = CHR ''0'') then None
      else case parse_digits 0 s of None \<Rightarrow> None | Some n \<Rightarrow> if n < 256 then Some (of_nat n) else None)"

definition parse_ipv4_addr :: "string \<Rightarrow> u32 option" where
  "parse_ipv4_addr s =
     (case map parse_octet (split_on CHR ''.'' s) of
        [Some a, Some b, Some c, Some d] \<Rightarrow> Some (of_be32 [a, b, c, d])
      | _ \<Rightarrow> None)"

definition parse_network :: "string \<Rightarrow> (u32 \<times> u32) option" where
  "parse_network s =
     (let s = trim s
      in case (case split_once CHR ''/'' s of
                 Some (a, p) \<Rightarrow> map_option (Pair a) (parse_u8 p)
               | None \<Rightarrow> Some (s, 32)) of
           None \<Rightarrow> None
         | Some (a, prefix) \<Rightarrow>
             (case parse_ipv4_addr a of
                None \<Rightarrow> None
              | Some address \<Rightarrow>
                  if \<not> (MIN_PREFIX \<le> prefix \<and> prefix \<le> 32) then None
                  else let netmask = push_bit (32 - prefix) (- 1); first = address AND netmask
                       in Some (first, first OR NOT netmask)))"

definition ascii_lower :: "char \<Rightarrow> char" where
  "ascii_lower c = (let n = of_char c :: nat in if 65 \<le> n \<and> n \<le> 90 then char_of (n + 32) else c)"

definition name_char :: "char \<Rightarrow> bool" where
  "name_char c = (let n = of_char c :: nat
     in 48 \<le> n \<and> n \<le> 57 \<or> 65 \<le> n \<and> n \<le> 90 \<or> 97 \<le> n \<and> n \<le> 122 \<or> c = CHR ''-'' \<or> c = CHR ''_'')"

definition parse_domain :: "string \<Rightarrow> (string \<times> bool) option" where
  "parse_domain s =
     (let v = map ascii_lower (rev (dropWhile (\<lambda>c. c = CHR ''.'') (rev (trim s))));
          (name, is_suffix) = (if take 2 v = ''*.'' then (drop 2 v, True) else (v, False));
          valid = (name \<noteq> [] \<and> length name \<le> 253
                   \<and> list_all (\<lambda>label. label \<noteq> [] \<and> length label \<le> 63 \<and> list_all name_char label) (split_on CHR ''.'' name))
      in if valid then Some (name, is_suffix) else None)"

subsection \<open>The list\<close>

record DirectSpec =
  dsp_networks :: "string list"
  dsp_domains :: "string list"

record DirectList =
  dl_ranges :: "(u32 \<times> u32) list"
  dl_exact :: "string list"
  dl_suffixes :: "string list"
  dl_skipped :: nat

text \<open>One range joined to the ranges merged so far, newest first; \<^verbatim>\<open>saturating_add\<close> at the top address.\<close>

fun merge_into :: "u32 \<times> u32 \<Rightarrow> (u32 \<times> u32) list \<Rightarrow> (u32 \<times> u32) list" where
  "merge_into r [] = [r]"
| "merge_into (first, last_one) ((f, l) # ms) =
     (if first \<le> (if l = - 1 then - 1 else l + 1) then (f, max l last_one) # ms
      else (first, last_one) # (f, l) # ms)"

definition merge_ranges :: "(u32 \<times> u32) list \<Rightarrow> (u32 \<times> u32) list" where
  "merge_ranges ranges = rev (fold merge_into (sort ranges) [])"

fun somes :: "'a option list \<Rightarrow> 'a list" where
  "somes [] = []"
| "somes (None # xs) = somes xs"
| "somes (Some x # xs) = x # somes xs"

definition compile_list :: "DirectSpec \<Rightarrow> DirectList" where
  "compile_list spec =
     (let networks = map parse_network (take MAX_NETWORKS (dsp_networks spec));
          domains = map parse_domain (take MAX_DOMAINS (dsp_domains spec))
      in \<lparr>dl_ranges = merge_ranges (somes networks),
          dl_exact = [name. (name, False) \<leftarrow> somes domains],
          dl_suffixes = [name. (name, True) \<leftarrow> somes domains],
          dl_skipped = length (filter (\<lambda>n. n = None) networks) + (length (dsp_networks spec) - MAX_NETWORKS)
                       + (length (filter (\<lambda>d. d = None) domains) + (length (dsp_domains spec) - MAX_DOMAINS))\<rparr>)"

definition has_domains :: "DirectList \<Rightarrow> bool" where
  "has_domains dl \<longleftrightarrow> dl_exact dl \<noteq> [] \<or> dl_suffixes dl \<noteq> []"

definition list_is_empty :: "DirectList \<Rightarrow> bool" where
  "list_is_empty dl \<longleftrightarrow> dl_ranges dl = [] \<and> \<not> has_domains dl"

text \<open>\<^verbatim>\<open>partition_point\<close> on ranges sorted by their first address: how many start at or before the address.\<close>

definition partition_point :: "u32 \<Rightarrow> (u32 \<times> u32) list \<Rightarrow> nat" where
  "partition_point address ranges = length (takeWhile (\<lambda>(first, _). first \<le> address) ranges)"

definition list_contains :: "u32 \<Rightarrow> DirectList \<Rightarrow> bool" where
  "list_contains address dl =
     (let index = partition_point address (dl_ranges dl)
      in index \<noteq> 0 \<and> index - 1 < length (dl_ranges dl) \<and> address \<le> snd (dl_ranges dl ! (index - 1)))"

text \<open>The suffixes of a name after each of its dots.\<close>

fun after_dots :: "string \<Rightarrow> string list" where
  "after_dots [] = []"
| "after_dots (c # cs) = (if c = CHR ''.'' then cs # after_dots cs else after_dots cs)"

definition matches_name :: "string \<Rightarrow> DirectList \<Rightarrow> bool" where
  "matches_name name dl \<longleftrightarrow>
     name \<in> set (dl_exact dl) \<or> name \<in> set (dl_suffixes dl) \<or> (\<exists>s \<in> set (after_dots name). s \<in> set (dl_suffixes dl))"

definition exclude :: "u32 \<Rightarrow> DirectList \<Rightarrow> DirectList" where
  "exclude address dl =
     (let index = partition_point address (dl_ranges dl)
      in if index = 0 then dl
         else let (first, last_one) = dl_ranges dl ! (index - 1)
              in if address > last_one then dl
                 else let pieces = (if first < address then [(first, address - 1)] else [])
                                   @ (if address < last_one then [(address + 1, last_one)] else [])
                      in dl\<lparr>dl_ranges := take (index - 1) (dl_ranges dl) @ pieces @ drop index (dl_ranges dl)\<rparr>)"

subsection \<open>The blocks of a range\<close>

text \<open>
  \<^verbatim>\<open>trailing_zeros\<close> of a positive number, and \<^verbatim>\<open>63 - n.leading_zeros()\<close>, the integer logarithm. The loop
  runs on \<^verbatim>\<open>u64\<close> values of at most \<open>2 ^ 32\<close>, so natural numbers do not overflow either.
\<close>

fun trailing_zeros :: "nat \<Rightarrow> nat" where
  "trailing_zeros n = (if n = 0 \<or> odd n then 0 else Suc (trailing_zeros (n div 2)))"

fun ilog2 :: "nat \<Rightarrow> nat" where
  "ilog2 n = (if n < 2 then 0 else Suc (ilog2 (n div 2)))"

declare trailing_zeros.simps [simp del] ilog2.simps [simp del]

definition block_bits :: "nat \<Rightarrow> nat \<Rightarrow> nat" where
  "block_bits start stop = min (if start = 0 then 32 else trailing_zeros start) (ilog2 (stop - start + 1))"

text \<open>The \<^verbatim>\<open>while start <= end\<close> loop, which may not return: \<open>None\<close> would be that.\<close>

partial_function (option) prefix_loop :: "nat \<Rightarrow> nat \<Rightarrow> (nat \<times> nat) list option" where
  "prefix_loop start stop =
     (if start \<le> stop
      then (let bits = block_bits start stop
            in Option.bind (prefix_loop (start + 2 ^ bits) stop) (\<lambda>rest. Some ((start, 32 - bits) # rest)))
      else Some [])"

fun prefixes_of :: "(u32 \<times> u32) list \<Rightarrow> (nat \<times> nat) list option" where
  "prefixes_of [] = Some []"
| "prefixes_of ((first, last_one) # ranges) =
     (case (prefix_loop (unat first) (unat last_one), prefixes_of ranges) of
        (Some ps, Some qs) \<Rightarrow> Some (ps @ qs)
      | _ \<Rightarrow> None)"

definition prefixes :: "DirectList \<Rightarrow> (nat \<times> nat) list option" where
  "prefixes dl = prefixes_of (dl_ranges dl)"

subsection \<open>Names in DNS replies\<close>

text \<open>The DNS message of an unfragmented IPv4 UDP datagram from port 53.\<close>

definition udp_dns_reply :: "bytes \<Rightarrow> bytes option" where
  "udp_dns_reply packet =
     (if length packet < 20 \<or> drop_bit 4 (packet ! 0) \<noteq> 4 \<or> packet ! 9 \<noteq> 17 then None
      else if of_be16 [packet ! 6, packet ! 7] AND 0x3fff \<noteq> 0 then None
      else let header = unat (packet ! 0 AND 0x0f) * 4
           in if length packet < header + 8 then None
              else if of_be16 [packet ! header, packet ! (header + 1)] \<noteq> 53 then None
              else Some (drop (header + 8) packet))"

definition is_dns_reply :: "bytes \<Rightarrow> bool" where
  "is_dns_reply packet \<longleftrightarrow> udp_dns_reply packet \<noteq> None"

text \<open>
  \<^verbatim>\<open>read_name\<close>: labels until the root, following at most sixteen pointers. Text is bytes here;
  \<^verbatim>\<open>from_utf8_lossy\<close> of a label is the parameter \<open>lossy\<close>. The name grows by every label and is cut off
  past 253, so the loop ends: with each label it grows by at least its length.
\<close>

definition lower_byte :: "u8 \<Rightarrow> u8" where
  "lower_byte b = (if 65 \<le> b \<and> b \<le> 90 then b + 32 else b)"

definition add_label :: "bytes \<Rightarrow> bytes \<Rightarrow> bytes" where
  "add_label name label = (if name = [] then name else name @ [46]) @ map lower_byte label"

function read_name :: "(bytes \<Rightarrow> bytes) \<Rightarrow> bytes \<Rightarrow> nat \<Rightarrow> bytes \<Rightarrow> nat option \<Rightarrow> nat \<Rightarrow> (bytes \<times> nat) option" where
  "read_name lossy message offset name resume jumps =
     (if offset \<ge> length message then None
      else if message ! offset AND 0xc0 = 0xc0
      then (if offset + 1 \<ge> length message \<or> jumps + 1 > 16 then None
            else read_name lossy message (unat (message ! offset AND 0x3f) * 256 + unat (message ! (offset + 1))) name
                   (Some (case resume of None \<Rightarrow> offset + 2 | Some r \<Rightarrow> r)) (jumps + 1))
      else if message ! offset > 63 then None
      else if message ! offset = 0 then Some (name, case resume of None \<Rightarrow> offset + 1 | Some r \<Rightarrow> r)
      else let size = unat (message ! offset);
               grown = add_label name (lossy (subslice (offset + 1) (offset + 1 + size) message))
           in if length message < offset + 1 + size \<or> length grown > 253 then None
              else read_name lossy message (offset + 1 + size) grown resume jumps)"
  by pat_completeness auto
termination
  by (relation "measures [\<lambda>(lossy, message, offset, name, resume, jumps). 16 - jumps,
                          \<lambda>(lossy, message, offset, name, resume, jumps). length message - offset]") auto

declare read_name.simps [simp del]

definition read_name_at :: "(bytes \<Rightarrow> bytes) \<Rightarrow> bytes \<Rightarrow> nat \<Rightarrow> (string \<times> nat) option" where
  "read_name_at lossy message offset =
     map_option (\<lambda>(name, next). (map (\<lambda>b. char_of (unat b)) name, next)) (read_name lossy message offset [] None 0)"

definition reply_question :: "(bytes \<Rightarrow> bytes) \<Rightarrow> bytes \<Rightarrow> string option" where
  "reply_question lossy packet =
     (case udp_dns_reply packet of None \<Rightarrow> None | Some message \<Rightarrow> map_option fst (read_name_at lossy message 12))"

fun read_questions :: "(bytes \<Rightarrow> bytes) \<Rightarrow> bytes \<Rightarrow> nat \<Rightarrow> nat \<Rightarrow> (string list \<times> nat) option" where
  "read_questions lossy message 0 offset = Some ([], offset)"
| "read_questions lossy message (Suc n) offset =
     (case read_name_at lossy message offset of
        None \<Rightarrow> None
      | Some (name, next) \<Rightarrow> map_option (\<lambda>(names, o'). (name # names, o')) (read_questions lossy message n (next + 4)))"

text \<open>The answer records: owner and target of an alias, the address of an A record.\<close>

fun read_dns_records :: "(bytes \<Rightarrow> bytes) \<Rightarrow> bytes \<Rightarrow> nat \<Rightarrow> nat \<Rightarrow> (string list \<times> bytes list) option" where
  "read_dns_records lossy message 0 offset = Some ([], [])"
| "read_dns_records lossy message (Suc n) offset =
     (case read_name_at lossy message offset of
        None \<Rightarrow> None
      | Some (owner, next) \<Rightarrow>
          if length message < next + 10 then None
          else let kind = of_be16 (subslice next (next + 2) message);
                   size = unat (of_be16 (subslice (next + 8) (next + 10) message));
                   data_start = next + 10
               in if length message < data_start + size then None
                  else let (names, addresses) =
                             (if kind = 1 \<and> size = 4 then ([], [subslice data_start (data_start + 4) message])
                              else if kind = 5
                              then (owner # (case read_name_at lossy message data_start of None \<Rightarrow> [] | Some (target, _) \<Rightarrow> [target]), [])
                              else ([], []))
                       in map_option (\<lambda>(ns, as). (names @ ns, addresses @ as)) (read_dns_records lossy message n (data_start + size)))"

definition read_dns_answer :: "(bytes \<Rightarrow> bytes) \<Rightarrow> bytes \<Rightarrow> (string list \<times> bytes list) option" where
  "read_dns_answer lossy message =
     (if length message < 12 \<or> message ! 2 AND 0x80 = 0 \<or> message ! 3 AND 0x0f \<noteq> 0 then None
      else case read_questions lossy message (unat (of_be16 [message ! 4, message ! 5])) 12 of
             None \<Rightarrow> None
           | Some (names, offset) \<Rightarrow>
               map_option (\<lambda>(ns, as). (names @ ns, as))
                 (read_dns_records lossy message (unat (of_be16 [message ! 6, message ! 7])) offset))"

definition answered_addresses :: "(bytes \<Rightarrow> bytes) \<Rightarrow> bytes \<Rightarrow> DirectList \<Rightarrow> bytes list" where
  "answered_addresses lossy packet dl =
     (if \<not> has_domains dl then []
      else case udp_dns_reply packet of
             None \<Rightarrow> []
           | Some message \<Rightarrow>
               (case read_dns_answer lossy message of
                  None \<Rightarrow> []
                | Some (names, addresses) \<Rightarrow> if \<exists>n \<in> set names. matches_name n dl then addresses else []))"

text \<open>A name is listed when it is written exactly, or is or ends below a listed suffix.\<close>

lemma after_dots_set: "s \<in> set (after_dots name) \<longleftrightarrow> (\<exists>p. name = p @ CHR ''.'' # s)"
proof (induction name)
  case (Cons c name)
  have "(\<exists>p. c # name = p @ CHR ''.'' # s) \<longleftrightarrow> (c = CHR ''.'' \<and> name = s) \<or> (\<exists>p. name = p @ CHR ''.'' # s)"
    by (auto simp: Cons_eq_append_conv)
  then show ?case using Cons by auto
qed simp

lemma matches_name_iff:
  "matches_name name dl \<longleftrightarrow> name \<in> set (dl_exact dl)
     \<or> (\<exists>s \<in> set (dl_suffixes dl). name = s \<or> (\<exists>p. name = p @ CHR ''.'' # s))"
  by (auto simp: matches_name_def after_dots_set)

subsection \<open>Ranges as sets of addresses\<close>

definition ranges_ok :: "(u32 \<times> u32) list \<Rightarrow> bool" where
  "ranges_ok rs \<longleftrightarrow> (\<forall>(f, l) \<in> set rs. f \<le> l) \<and> sorted_wrt (\<lambda>(f, l) (f', l'). l < f') rs"

definition covered :: "(u32 \<times> u32) list \<Rightarrow> u32 set" where
  "covered rs = (\<Union>(f, l) \<in> set rs. {f..l})"

lemma covered_simps [simp]:
  "covered [] = {}" "covered ((f, l) # rs) = {f..l} \<union> covered rs" "covered (as @ bs) = covered as \<union> covered bs"
  "covered (rev rs) = covered rs"
  by (auto simp: covered_def)

lemma ranges_ok_Cons:
  "ranges_ok ((f, l) # rs) \<longleftrightarrow> f \<le> l \<and> ranges_ok rs \<and> (\<forall>(f', l') \<in> set rs. l < f')"
  by (auto simp: ranges_ok_def)

lemma ranges_ok_append:
  "ranges_ok (as @ bs) \<longleftrightarrow> ranges_ok as \<and> ranges_ok bs \<and> (\<forall>(f, l) \<in> set as. \<forall>(f', l') \<in> set bs. l < f')"
  by (auto simp: ranges_ok_def sorted_wrt_append)

lemma partition_point_Cons:
  "partition_point a ((f, l) # rs) = (if f \<le> a then Suc (partition_point a rs) else 0)"
  by (simp add: partition_point_def)

lemma partition_point_le: "partition_point a rs \<le> length rs"
  by (simp add: partition_point_def length_takeWhile_le)

text \<open>Where a lookup lands: on the last range starting at or before the address.\<close>

lemma partition_split:
  assumes "ranges_ok rs" and "partition_point a rs \<noteq> 0"
  obtains xs f l ys where "rs = xs @ (f, l) # ys" and "partition_point a rs = Suc (length xs)" and "f \<le> a"
    and "\<forall>(f', l') \<in> set ys. a < f'" and "a \<notin> covered xs" and "a \<notin> covered ys"
proof -
  define ts where "ts = takeWhile (\<lambda>(f, _). f \<le> a) rs"
  define ys where "ys = dropWhile (\<lambda>(f, _). f \<le> a) rs"
  have rs: "rs = ts @ ys" by (simp add: ts_def ys_def)
  have "ts \<noteq> []" using assms(2) by (auto simp: partition_point_def ts_def)
  then obtain xs f l where ts: "ts = xs @ [(f, l)]" by (metis prod.exhaust rev_exhaust)
  have "f \<le> a" using ts set_takeWhileD [of "(f, l)" "\<lambda>(f, _). f \<le> a" rs] by (simp add: ts_def)
  have ok: "ranges_ok (xs @ (f, l) # ys)" using assms(1) rs ts by simp
  have late: "\<forall>(f', l') \<in> set ys. a < f'"
  proof (cases ys)
    case (Cons y ys')
    obtain fy ly where y: "y = (fy, ly)" by fastforce
    have "\<not> fy \<le> a" using Cons y by (simp add: ys_def dropWhile_eq_Cons_conv)
    moreover have "\<forall>(f', l') \<in> set ys'. fy < f'"
      using ok Cons y by (auto simp: ranges_ok_append ranges_ok_Cons dest: order.strict_trans1)
    ultimately show ?thesis using Cons y by (auto simp: not_le dest: order.strict_trans)
  qed simp
  then have "a \<notin> covered ys" by (fastforce simp: covered_def)
  moreover have "\<forall>(f', l') \<in> set xs. l' < a" using ok \<open>f \<le> a\<close> by (fastforce simp: ranges_ok_append)
  then have "a \<notin> covered xs" by (fastforce simp: covered_def)
  moreover have "partition_point a rs = Suc (length xs)" using ts by (simp add: partition_point_def ts_def)
  ultimately show ?thesis using that rs ts \<open>f \<le> a\<close> late by simp
qed

lemma partition_none: "ranges_ok rs \<Longrightarrow> partition_point a rs = 0 \<Longrightarrow> a \<notin> covered rs"
proof (induction rs)
  case (Cons r rs)
  then obtain f l where r: "r = (f, l)" "\<not> f \<le> a" by (cases r) (auto simp: partition_point_Cons split: if_splits)
  have "a < f'" if "(f', l') \<in> set rs" for f' l'
  proof -
    have "a < f" "f \<le> l" "l < f'" using that Cons.prems(1) r by (auto simp: ranges_ok_Cons)
    then show ?thesis by order
  qed
  then have "a \<notin> covered rs" by (fastforce simp: covered_def)
  then show ?case using r by simp
qed simp

lemma contains_covered:
  assumes "ranges_ok (dl_ranges dl)"
  shows "list_contains a dl \<longleftrightarrow> a \<in> covered (dl_ranges dl)"
proof (cases "partition_point a (dl_ranges dl) = 0")
  case True
  then show ?thesis using partition_none [OF assms] by (simp add: list_contains_def)
next
  case False
  then obtain xs f l ys where split: "dl_ranges dl = xs @ (f, l) # ys" "partition_point a (dl_ranges dl) = Suc (length xs)"
    "f \<le> a" "a \<notin> covered xs" "a \<notin> covered ys"
    using partition_split [OF assms] by metis
  then show ?thesis by (simp add: list_contains_def Let_def)
qed

lemma succ_le_iff: "(a :: u32) \<noteq> - 1 \<Longrightarrow> a + 1 \<le> x \<longleftrightarrow> a < x"
proof -
  assume "a \<noteq> - 1"
  then have "unat a < 4294967295" using word_order.not_eq_extremum [of a] by (simp add: word_less_nat_alt unsigned_minus_1_eq_mask mask_eq_exp_minus_1)
  then have "a < a + 1" by (simp add: word_less_nat_alt unat_word_ariths)
  then show ?thesis using inc_le [of a x] by (auto dest: order.strict_trans2)
qed

lemma le_pred_iff: "(a :: u32) \<noteq> 0 \<Longrightarrow> x \<le> a - 1 \<longleftrightarrow> x < a"
  using succ_le_iff [of "a - 1" x] by (auto simp flip: not_less)

lemma exclude_covered:
  assumes ok: "ranges_ok (dl_ranges dl)"
  shows "ranges_ok (dl_ranges (exclude a dl)) \<and> covered (dl_ranges (exclude a dl)) = covered (dl_ranges dl) - {a}"
proof (cases "partition_point a (dl_ranges dl) = 0")
  case True
  then show ?thesis using ok partition_none [OF ok] by (simp add: exclude_def)
next
  case False
  then obtain xs f l ys where split: "dl_ranges dl = xs @ (f, l) # ys" "partition_point a (dl_ranges dl) = Suc (length xs)"
    "f \<le> a" "\<forall>(f', l') \<in> set ys. a < f'" "a \<notin> covered xs" "a \<notin> covered ys"
    using partition_split [OF ok] by metis
  show ?thesis
  proof (cases "a > l")
    case True
    then show ?thesis using ok split by (auto simp: exclude_def Let_def)
  next
    case False
    define pieces where "pieces = (if f < a then [(f, a - 1)] else []) @ (if a < l then [(a + 1, l)] else [])"
    have new: "dl_ranges (exclude a dl) = xs @ pieces @ ys"
      using split False by (simp add: exclude_def Let_def pieces_def)
    have pred: "f < a \<Longrightarrow> x \<le> a - 1 \<longleftrightarrow> x < a" and succ: "a < l \<Longrightarrow> a + 1 \<le> x \<longleftrightarrow> a < x" for x
    proof -
      show "f < a \<Longrightarrow> x \<le> a - 1 \<longleftrightarrow> x < a" by (rule le_pred_iff) auto
      show "a < l \<Longrightarrow> a + 1 \<le> x \<longleftrightarrow> a < x"
        by (rule succ_le_iff) (auto simp: word_order.extremum_strict)
    qed
    have "x \<in> covered pieces \<longleftrightarrow> x \<in> {f..l} - {a}" for x
      using False split(3) pred [of x] succ [of x] by (cases "f < a"; cases "a < l") (auto simp: pieces_def)
    then have cover: "covered pieces = {f..l} - {a}" by blast
    have inside: "\<forall>(f', l') \<in> set pieces. f \<le> f' \<and> f' \<le> l' \<and> l' \<le> l"
      using False split(3) pred [of f] pred [of "a - 1"] succ [of l] succ [of "a + 1"] by (auto simp: pieces_def)
    have "ranges_ok pieces"
      using pred [of f] pred [of "a - 1"] succ [of l] succ [of "a + 1"] by (auto simp: pieces_def ranges_ok_def)
    moreover have "ranges_ok xs" "ranges_ok ys" "\<forall>(f', l') \<in> set xs. l' < f" "\<forall>(f', l') \<in> set ys. l < f'"
      "\<forall>(f1, l1) \<in> set xs. \<forall>(f2, l2) \<in> set ys. l1 < f2"
      using ok split(1) by (auto simp: ranges_ok_append ranges_ok_Cons)
    ultimately have "ranges_ok (xs @ pieces @ ys)"
      using inside unfolding ranges_ok_append by fastforce
    then show ?thesis using cover split(1,5,6) by (auto simp: new)
  qed
qed

text \<open>Merging: the newest merged range starts no later than the next one, as the input is sorted.\<close>

lemma merge_into_covered:
  assumes "ranges_ok (rev acc)" and "f \<le> l" and "\<forall>(f', l') \<in> set acc. f' \<le> f"
  shows "ranges_ok (rev (merge_into (f, l) acc)) \<and> covered (merge_into (f, l) acc) = {f..l} \<union> covered acc
    \<and> (\<forall>(f', l') \<in> set (merge_into (f, l) acc). f' \<le> f)"
proof (cases acc)
  case Nil
  then show ?thesis using assms by (simp add: ranges_ok_def)
next
  case (Cons r ms)
  obtain f0 l0 where r: "r = (f0, l0)" by fastforce
  have f0: "f0 \<le> f" "f0 \<le> l0" "\<forall>(f', l') \<in> set ms. l' < f0" "ranges_ok (rev ms)"
    using assms Cons r by (auto simp: ranges_ok_append ranges_ok_Cons)
  let ?next = "if l0 = - 1 then - 1 else l0 + 1"
  show ?thesis
  proof (cases "f \<le> ?next")
    case True
    have "{f0..max l0 l} = {f0..l0} \<union> {f..l}"
    proof (rule set_eqI)
      fix x
      have "f \<le> x" if "l0 < x"
        using that True succ_le_iff [of l0 x] by (cases "l0 = - 1") (auto simp: word_order.extremum_strict)
      then show "x \<in> {f0..max l0 l} \<longleftrightarrow> x \<in> {f0..l0} \<union> {f..l}"
        using f0(1,2) assms(2) by (cases "l0 < x") (auto simp: max_def not_less)
    qed
    moreover have "merge_into (f, l) acc = (f0, max l0 l) # ms" using True Cons r by simp
    moreover have "ranges_ok (rev ms @ [(f0, max l0 l)])"
      using f0 by (auto simp: ranges_ok_append ranges_ok_Cons ranges_ok_def [of "[]"] max_def)
    ultimately show ?thesis using Cons r assms(3) by auto
  next
    case False
    then have "l0 \<noteq> - 1" by auto
    then have "l0 < f" using False succ_le_iff [of l0 f] by auto
    then have "ranges_ok (rev ms @ [(f0, l0), (f, l)])"
      using f0 assms(2) by (fastforce simp: ranges_ok_append ranges_ok_Cons ranges_ok_def [of "[]"])
    then show ?thesis using False Cons r assms(3) by auto
  qed
qed

lemma merge_fold_covered:
  assumes "ranges_ok (rev acc)" and "\<forall>(f, l) \<in> set rs. f \<le> l" and "sorted rs"
    and "\<forall>(f', l') \<in> set acc. \<forall>(f, l) \<in> set rs. f' \<le> f"
  shows "ranges_ok (rev (fold merge_into rs acc)) \<and> covered (fold merge_into rs acc) = covered rs \<union> covered acc"
  using assms
proof (induction rs arbitrary: acc)
  case (Cons r rs)
  obtain f l where r: "r = (f, l)" by fastforce
  have one: "ranges_ok (rev (merge_into (f, l) acc))" "covered (merge_into (f, l) acc) = {f..l} \<union> covered acc"
    "\<forall>(f', l') \<in> set (merge_into (f, l) acc). f' \<le> f"
    using merge_into_covered [of acc f l] Cons.prems r by auto
  have firsts: "f \<le> f2" if "(f2, l2) \<in> set rs" for f2 l2
  proof -
    have "(f, l) \<le> (f2, l2)" using Cons.prems(3) that r by auto
    then show ?thesis by (auto simp: less_eq_prod_def)
  qed
  then have "\<forall>(f', l') \<in> set (merge_into (f, l) acc). \<forall>(f2, l2) \<in> set rs. f' \<le> f2"
    using one(3) by (fastforce intro: order_trans)
  then show ?case using Cons.IH [OF one(1)] Cons.prems(2,3) one(2) r by auto
qed simp

lemma merge_ranges_covered:
  assumes "\<forall>(f, l) \<in> set rs. f \<le> l"
  shows "ranges_ok (merge_ranges rs) \<and> covered (merge_ranges rs) = covered rs"
proof -
  have "covered (sort rs) = covered rs" by (simp add: covered_def)
  then show ?thesis using merge_fold_covered [of "[]" "sort rs"] assms
    by (simp add: merge_ranges_def ranges_ok_def [of "[]"])
qed

lemma parse_network_range: "parse_network s = Some (f, l) \<Longrightarrow> f \<le> l"
  by (auto simp: parse_network_def Let_def le_word_or2 split: option.splits if_splits prod.splits)

lemma somes_set: "set (somes xs) = {x. Some x \<in> set xs}"
  by (induction xs rule: somes.induct) auto

lemma compile_covered:
  "ranges_ok (dl_ranges (compile_list spec))
   \<and> (a \<in> covered (dl_ranges (compile_list spec)) \<longleftrightarrow>
        (\<exists>n f l. n \<in> set (take MAX_NETWORKS (dsp_networks spec)) \<and> parse_network n = Some (f, l) \<and> f \<le> a \<and> a \<le> l))"
proof -
  let ?rs = "somes (map parse_network (take MAX_NETWORKS (dsp_networks spec)))"
  have "\<forall>(f, l) \<in> set ?rs. f \<le> l" by (auto simp: somes_set dest: parse_network_range [OF sym])
  from merge_ranges_covered [OF this] show ?thesis
    by (auto simp: compile_list_def Let_def covered_def somes_set) (metis (no_types, lifting) rev_image_eqI)+
qed

lemma excludes_covered:
  "ranges_ok (dl_ranges dl) \<Longrightarrow> ranges_ok (dl_ranges (fold exclude as dl))
     \<and> covered (dl_ranges (fold exclude as dl)) = covered (dl_ranges dl) - set as"
proof (induction as arbitrary: dl)
  case (Cons a as)
  show ?case using Cons.IH [of "exclude a dl"] exclude_covered [OF Cons.prems, of a] by auto
qed simp

text \<open>
  C37. The direct list answers for an address exactly when one of the listed networks (the first 65,536
  that parse) contains it and it has not been excluded since: sorting, merging adjacent and overlapping
  ranges, the binary search and cutting single addresses out of ranges, at both ends of the address
  space too, change nothing about the set of addresses.
\<close>

theorem direct_list_is_union_of_networks:
  "list_contains a (fold exclude as (compile_list spec)) \<longleftrightarrow>
     a \<notin> set as \<and> (\<exists>n f l. n \<in> set (take MAX_NETWORKS (dsp_networks spec))
        \<and> parse_network n = Some (f, l) \<and> f \<le> a \<and> a \<le> l)"
  using contains_covered excludes_covered [of "compile_list spec" as] compile_covered [of spec a] by auto

subsection \<open>The blocks cover the ranges\<close>

lemma trailing_zeros_dvd: "2 ^ trailing_zeros n dvd n"
proof (induction n rule: trailing_zeros.induct)
  case (1 n)
  show ?case
  proof (cases "n = 0 \<or> odd n")
    case False
    then obtain k where k: "n div 2 = 2 ^ trailing_zeros (n div 2) * k" using 1 by (auto elim: dvdE)
    have "n = 2 * (n div 2)" using False by simp
    also have "\<dots> = 2 ^ Suc (trailing_zeros (n div 2)) * k" by (subst k) simp
    finally have "2 ^ Suc (trailing_zeros (n div 2)) dvd n" by (rule dvdI)
    then show ?thesis using False by (subst trailing_zeros.simps) simp
  qed (auto simp: trailing_zeros.simps [of n])
qed

lemma ilog2_le: "0 < n \<Longrightarrow> 2 ^ ilog2 n \<le> n"
proof (induction n rule: ilog2.induct)
  case (1 n)
  show ?case
  proof (cases "n < 2")
    case False
    then have "2 ^ ilog2 (n div 2) \<le> n div 2" using 1 by simp
    then have "2 * 2 ^ ilog2 (n div 2) \<le> n" by simp
    then show ?thesis using False by (simp add: ilog2.simps [of n])
  qed (use 1 in \<open>simp add: ilog2.simps [of n]\<close>)
qed

lemma block_bits_fits:
  assumes "start \<le> stop" and "stop < 2 ^ 32"
  shows "2 ^ block_bits start stop dvd start" "start + 2 ^ block_bits start stop \<le> stop + 1" "block_bits start stop \<le> 32"
proof -
  have "(2 :: nat) ^ block_bits start stop \<le> 2 ^ ilog2 (stop - start + 1)"
    by (simp add: block_bits_def)
  also have "\<dots> \<le> stop - start + 1" by (rule ilog2_le) simp
  finally show fit: "start + 2 ^ block_bits start stop \<le> stop + 1" using assms(1) by simp
  then have "(2 :: nat) ^ block_bits start stop \<le> 2 ^ 32" using assms(2) by simp
  then show "block_bits start stop \<le> 32" by (metis nat_power_less_imp_less not_le one_less_numeral_iff power_strict_increasing semiring_norm(76))
  show "2 ^ block_bits start stop dvd start"
  proof (cases "start = 0")
    case False
    then have "(2 :: nat) ^ block_bits start stop dvd 2 ^ trailing_zeros start"
      by (simp add: block_bits_def le_imp_power_dvd)
    then show ?thesis using trailing_zeros_dvd dvd_trans by blast
  qed simp
qed

definition block_of :: "nat \<times> nat \<Rightarrow> nat set" where
  "block_of b = {fst b..<fst b + 2 ^ (32 - snd b)}"

definition aligned :: "nat \<times> nat \<Rightarrow> bool" where
  "aligned b \<longleftrightarrow> snd b \<le> 32 \<and> 2 ^ (32 - snd b) dvd fst b"

lemma prefix_loop_covers:
  "stop < 2 ^ 32 \<Longrightarrow> \<exists>ps. prefix_loop start stop = Some ps \<and> (\<Union>b \<in> set ps. block_of b) = {start..stop}
     \<and> list_all aligned ps \<and> sorted_wrt (\<lambda>b c. fst b + 2 ^ (32 - snd b) \<le> fst c) ps"
proof (induction "stop + 1 - start" arbitrary: start rule: less_induct)
  case less
  show ?case
  proof (cases "start \<le> stop")
    case False
    then have "prefix_loop start stop = Some []" by (subst prefix_loop.simps) simp
    then show ?thesis using False by simp
  next
    case True
    define bits where "bits = block_bits start stop"
    have fits: "2 ^ bits dvd start" "start + 2 ^ bits \<le> stop + 1" "bits \<le> 32"
      using block_bits_fits [OF True less.prems] by (simp_all add: bits_def)
    have "(0 :: nat) < 2 ^ bits" by simp
    then have "stop + 1 - (start + 2 ^ bits) < stop + 1 - start" using True by linarith
    from less.hyps [OF this less.prems] obtain ps where
      ps: "prefix_loop (start + 2 ^ bits) stop = Some ps" "(\<Union>b \<in> set ps. block_of b) = {start + 2 ^ bits..stop}"
      "list_all aligned ps" "sorted_wrt (\<lambda>b c. fst b + 2 ^ (32 - snd b) \<le> fst c) ps" by blast
    have run: "prefix_loop start stop = Some ((start, 32 - bits) # ps)"
      using True ps(1) by (subst prefix_loop.simps) (simp add: bits_def Let_def)
    have first: "block_of (start, 32 - bits) = {start..<start + 2 ^ bits}" using fits(3) by (simp add: block_of_def)
    have "(\<Union>b \<in> set ((start, 32 - bits) # ps). block_of b) = {start..stop}"
      using fits(2) first ps(2) by auto
    moreover have "start + 2 ^ bits \<le> fst c" if "c \<in> set ps" for c
    proof -
      have "fst c \<in> block_of c" by (simp add: block_of_def)
      then have "fst c \<in> {start + 2 ^ bits..stop}" using that ps(2) by blast
      then show ?thesis by simp
    qed
    ultimately show ?thesis using run ps(3,4) fits(1,3) by (intro exI [of _ "(start, 32 - bits) # ps"]) (simp add: aligned_def)
  qed
qed

lemma prefixes_of_covers:
  "ranges_ok rs \<Longrightarrow> \<exists>ps. prefixes_of rs = Some ps \<and> (\<Union>b \<in> set ps. block_of b) = unat ` covered rs
     \<and> list_all aligned ps \<and> sorted_wrt (\<lambda>b c. fst b + 2 ^ (32 - snd b) \<le> fst c) ps"
proof (induction rs)
  case (Cons r rs)
  obtain f l where r: "r = (f, l)" by fastforce
  have fl: "f \<le> l" "ranges_ok rs" "\<forall>(f', l') \<in> set rs. l < f'" using Cons.prems r by (simp_all add: ranges_ok_Cons)
  from Cons.IH [OF fl(2)] obtain qs where qs: "prefixes_of rs = Some qs" "(\<Union>b \<in> set qs. block_of b) = unat ` covered rs"
    "list_all aligned qs" "sorted_wrt (\<lambda>b c. fst b + 2 ^ (32 - snd b) \<le> fst c) qs" by blast
  have "unat l < 2 ^ 32" using unsigned_less [of l] by simp
  from prefix_loop_covers [OF this, of "unat f"] obtain ps where ps: "prefix_loop (unat f) (unat l) = Some ps"
    "(\<Union>b \<in> set ps. block_of b) = {unat f..unat l}" "list_all aligned ps"
    "sorted_wrt (\<lambda>b c. fst b + 2 ^ (32 - snd b) \<le> fst c) ps" by blast
  have image: "unat ` {f..l} = {unat f..unat l}"
  proof -
    have "n \<in> unat ` {f..l}" if "unat f \<le> n" "n \<le> unat l" for n
    proof -
      have "n < 2 ^ 32" using that(2) \<open>unat l < 2 ^ 32\<close> by (rule order.strict_trans1)
      then have "unat (of_nat n :: u32) = n" by (simp add: unat_of_nat)
      then show ?thesis using that by (intro image_eqI [of _ _ "of_nat n"]) (simp_all add: word_le_nat_alt)
    qed
    then show ?thesis by (auto simp: word_le_nat_alt)
  qed
  have "fst b + 2 ^ (32 - snd b) \<le> fst c" if b: "b \<in> set ps" and c: "c \<in> set qs" for b c
  proof -
    have "(0 :: nat) < 2 ^ (32 - snd b)" by simp
    then have "fst b \<le> fst b + 2 ^ (32 - snd b) - 1" "fst b + 2 ^ (32 - snd b) - 1 < fst b + 2 ^ (32 - snd b)" by linarith+
    then have "fst b + 2 ^ (32 - snd b) - 1 \<in> block_of b" by (simp add: block_of_def)
    then have "fst b + 2 ^ (32 - snd b) - 1 \<le> unat l" using b ps(2) by fastforce
    moreover have "fst c \<in> block_of c" by (simp add: block_of_def)
    then have "fst c \<in> unat ` covered rs" using c qs(2) by blast
    then obtain x where "x \<in> covered rs" "fst c = unat x" by blast
    then have "unat l < fst c" using fl(3) by (fastforce simp: covered_def word_less_nat_alt word_le_nat_alt)
    ultimately show ?thesis by simp
  qed
  then show ?case using r ps qs image by (intro exI [of _ "ps @ qs"]) (auto simp: sorted_wrt_append image_Un)
qed simp

text \<open>
  The loop that turns the ranges into CIDR blocks ends for every list, however it was compiled and
  whatever was excluded from it, and its blocks are what a routing table needs: each is aligned to its
  own size, no two overlap, and together they contain exactly the addresses the list answers for.
\<close>

theorem prefixes_return_exact_cover:
  "\<exists>ps. prefixes (fold exclude as (compile_list spec)) = Some ps \<and> list_all aligned ps
     \<and> sorted_wrt (\<lambda>b c. fst b + 2 ^ (32 - snd b) \<le> fst c) ps
     \<and> (\<forall>a. list_contains a (fold exclude as (compile_list spec)) \<longleftrightarrow> (\<exists>b \<in> set ps. unat a \<in> block_of b))"
proof -
  let ?dl = "fold exclude as (compile_list spec)"
  have ok: "ranges_ok (dl_ranges ?dl)" using excludes_covered compile_covered by blast
  from prefixes_of_covers [OF this] obtain ps where ps: "prefixes_of (dl_ranges ?dl) = Some ps"
    "(\<Union>b \<in> set ps. block_of b) = unat ` covered (dl_ranges ?dl)" "list_all aligned ps"
    "sorted_wrt (\<lambda>b c. fst b + 2 ^ (32 - snd b) \<le> fst c) ps" by blast
  have "a \<in> covered (dl_ranges ?dl) \<longleftrightarrow> unat a \<in> unat ` covered (dl_ranges ?dl)" for a
    by (rule inj_image_mem_iff [symmetric]) (simp add: inj_def unsigned_word_eqI)
  then have "list_contains a ?dl \<longleftrightarrow> (\<exists>b \<in> set ps. unat a \<in> block_of b)" for a
    using contains_covered [OF ok] by (auto simp flip: ps(2))
  with ps show ?thesis by (auto simp: prefixes_def)
qed

end
