(* ===== verification/Openvpn_Control.thy ===== *)
theory Openvpn_Control
  imports Contracts
begin

section \<open>The OpenVPN control channel (\<^verbatim>\<open>engine/src/openvpn/control.rs\<close>)\<close>

text \<open>
  Packet framing under the three wrappings, acknowledgements, retransmission, and the reader that puts
  packets back in order for TLS. HMAC and AES in counter mode come from third-party crates and are a
  parameter, a record of functions; what is relied on is that a MAC has its digest's size and that the
  stream cipher is undone by applying it again. The wall clock of the replay header is an argument.

  The lemmas show that a peer holding the mirrored keys reads back what was wrapped, and that the TLS
  bytes come out whole and in order whatever the network loses, repeats or reorders.
\<close>

subsection \<open>Framing\<close>

definition P_CONTROL_SOFT_RESET_V1 :: u8 where "P_CONTROL_SOFT_RESET_V1 = 3"
definition P_CONTROL_V1 :: u8 where "P_CONTROL_V1 = 4"
definition P_ACK_V1 :: u8 where "P_ACK_V1 = 5"
definition P_DATA_V1 :: u8 where "P_DATA_V1 = 6"
definition P_CONTROL_HARD_RESET_CLIENT_V2 :: u8 where "P_CONTROL_HARD_RESET_CLIENT_V2 = 7"
definition P_CONTROL_HARD_RESET_SERVER_V2 :: u8 where "P_CONTROL_HARD_RESET_SERVER_V2 = 8"
definition P_DATA_V2 :: u8 where "P_DATA_V2 = 9"
definition MAX_CONTROL_PAYLOAD :: nat where "MAX_CONTROL_PAYLOAD = 1000"
definition RETRANSMIT_AFTER :: duration where "RETRANSMIT_AFTER = millis 1200"
definition MAX_ACKS :: nat where "MAX_ACKS = 8"

lemmas opcode_defs = P_CONTROL_SOFT_RESET_V1_def P_CONTROL_V1_def P_ACK_V1_def P_DATA_V1_def
  P_CONTROL_HARD_RESET_CLIENT_V2_def P_CONTROL_HARD_RESET_SERVER_V2_def P_DATA_V2_def

definition is_data :: "u8 \<Rightarrow> bool" where
  "is_data opcode \<longleftrightarrow> opcode = P_DATA_V1 \<or> opcode = P_DATA_V2"

definition opcode_of :: "bytes \<Rightarrow> u8 option" where
  "opcode_of packet = (case packet of [] \<Rightarrow> None | b # _ \<Rightarrow> Some (drop_bit 3 b))"

datatype Digest = Md5 | Sha1 | Sha256 | Sha512

fun output_len :: "Digest \<Rightarrow> nat" where
  "output_len Md5 = 16"
| "output_len Sha1 = 20"
| "output_len Sha256 = 32"
| "output_len Sha512 = 64"

record openvpn_lib =
  ov_hmac :: "Digest \<Rightarrow> bytes \<Rightarrow> bytes list \<Rightarrow> bytes"
  ov_ctr :: "bytes \<Rightarrow> bytes \<Rightarrow> bytes \<Rightarrow> bytes"

definition openvpn_lib_ok :: "openvpn_lib \<Rightarrow> bool" where
  "openvpn_lib_ok V \<longleftrightarrow> (\<forall>d k ps. length (ov_hmac V d k ps) = output_len d)
     \<and> (\<forall>k t p. ov_ctr V k t (ov_ctr V k t p) = p)"

record TlsAuthKeys =
  ta_send :: bytes
  ta_receive :: bytes
  ta_digest :: Digest

record TlsCryptKeys =
  tc_send_cipher :: bytes
  tc_send_hmac :: bytes
  tc_receive_cipher :: bytes
  tc_receive_hmac :: bytes

datatype Wrapping = Plain | TlsAuth TlsAuthKeys | TlsCrypt TlsCryptKeys

record Pending =
  pn_packet_id :: u32
  pn_packet :: bytes
  pn_sent_at :: instant

datatype Received = Nothing | ServerReset | SoftReset u8 | Payload bytes

datatype control_error =
    EmptyPacket | TruncatedPacket | TruncatedTlsAuth | TlsAuthFailed | TruncatedTlsCrypt | TlsCryptFailed
  | NoBody | TruncatedAcks | TruncatedAckBlock | NoPacketId

record ControlChannel =
  cc_wrapping :: Wrapping
  cc_session_id :: bytes
  cc_remote_session_id :: "bytes option"
  cc_key_id :: u8
  cc_next_packet_id :: u32
  cc_next_replay_id :: u32
  cc_unacknowledged :: "Pending list"
  cc_pending_acks :: "u32 list"
  cc_expected_packet_id :: u32
  cc_reordered :: "(u32 \<times> bytes) list"
  cc_outgoing :: "bytes list"

definition channel_new :: "Wrapping \<Rightarrow> bytes \<Rightarrow> ControlChannel" where
  "channel_new wrapping session_id =
     \<lparr>cc_wrapping = wrapping, cc_session_id = session_id, cc_remote_session_id = None, cc_key_id = 0,
      cc_next_packet_id = 0, cc_next_replay_id = 1, cc_unacknowledged = [], cc_pending_acks = [],
      cc_expected_packet_id = 0, cc_reordered = [], cc_outgoing = []\<rparr>"

subsection \<open>Sending\<close>

text \<open>The body: the acknowledgements and the session they belong to, this packet's id, the payload.\<close>

definition control_body :: "u32 list \<Rightarrow> bytes \<Rightarrow> u32 option \<Rightarrow> bytes \<Rightarrow> bytes" where
  "control_body acks remote packet_id payload =
     [of_nat (length acks)] @ concat (map be32 acks) @ (if acks = [] then [] else remote)
     @ (case packet_id of None \<Rightarrow> [] | Some n \<Rightarrow> be32 n) @ payload"

definition seal_control :: "openvpn_lib \<Rightarrow> Wrapping \<Rightarrow> u8 \<Rightarrow> bytes \<Rightarrow> bytes \<Rightarrow> bytes \<Rightarrow> bytes" where
  "seal_control V wrapping first session_id replay body =
     (case wrapping of
        Plain \<Rightarrow> [first] @ session_id @ body
      | TlsAuth keys \<Rightarrow>
          [first] @ session_id @ ov_hmac V (ta_digest keys) (ta_send keys) [replay, [first], session_id, body] @ replay @ body
      | TlsCrypt keys \<Rightarrow>
          (let header = [first] @ session_id @ replay;
               tag = ov_hmac V Sha256 (tc_send_hmac keys) [header, body]
           in header @ tag @ ov_ctr V (tc_send_cipher keys) tag body))"

definition replay_header :: "u32 \<Rightarrow> ControlChannel \<Rightarrow> ControlChannel \<times> bytes" where
  "replay_header wall ch =
     (ch\<lparr>cc_next_replay_id := cc_next_replay_id ch + 1\<rparr>, be32 (cc_next_replay_id ch) @ be32 wall)"

definition wrap :: "openvpn_lib \<Rightarrow> u32 \<Rightarrow> u8 \<Rightarrow> bytes \<Rightarrow> bool \<Rightarrow> ControlChannel \<Rightarrow> ControlChannel \<times> bytes \<times> u32 option" where
  "wrap V wall opcode payload with_acks ch =
     (let (acks, ch) = (if with_acks \<and> cc_remote_session_id ch \<noteq> None
                        then (take MAX_ACKS (cc_pending_acks ch), ch\<lparr>cc_pending_acks := drop MAX_ACKS (cc_pending_acks ch)\<rparr>)
                        else ([], ch));
          remote = (case cc_remote_session_id ch of None \<Rightarrow> [] | Some r \<Rightarrow> r);
          (packet_id, ch) = (if opcode = P_ACK_V1 then (None, ch)
                             else (Some (cc_next_packet_id ch), ch\<lparr>cc_next_packet_id := cc_next_packet_id ch + 1\<rparr>));
          body = control_body acks remote packet_id payload;
          first = push_bit 3 opcode OR cc_key_id ch;
          (ch, replay) = (if cc_wrapping ch = Plain then (ch, replicate 8 0) else replay_header wall ch)
      in (ch, seal_control V (cc_wrapping ch) first (cc_session_id ch) replay body, packet_id))"

definition control_send :: "openvpn_lib \<Rightarrow> u32 \<Rightarrow> instant \<Rightarrow> u8 \<Rightarrow> bytes \<Rightarrow> ControlChannel \<Rightarrow> ControlChannel" where
  "control_send V wall now opcode payload ch =
     (let (ch, packet, packet_id) = wrap V wall opcode payload True ch;
          ch = (case packet_id of
                  None \<Rightarrow> ch
                | Some n \<Rightarrow> ch\<lparr>cc_unacknowledged := cc_unacknowledged ch @ [\<lparr>pn_packet_id = n, pn_packet = packet, pn_sent_at = now\<rparr>]\<rparr>)
      in ch\<lparr>cc_outgoing := cc_outgoing ch @ [packet]\<rparr>)"

definition control_start :: "openvpn_lib \<Rightarrow> u32 \<Rightarrow> instant \<Rightarrow> ControlChannel \<Rightarrow> ControlChannel" where
  "control_start V wall now = control_send V wall now P_CONTROL_HARD_RESET_CLIENT_V2 []"

text \<open>\<^verbatim>\<open>chunks(n)\<close>: pieces of \<open>n\<close> bytes, the last one shorter.\<close>

function byte_chunks :: "nat \<Rightarrow> bytes \<Rightarrow> bytes list" where
  "byte_chunks n bs = (if bs = [] \<or> n = 0 then [] else take n bs # byte_chunks n (drop n bs))"
  by pat_completeness auto
termination by (relation "measure (\<lambda>(n, bs). length bs)") auto

declare byte_chunks.simps [simp del]

definition send_tls :: "openvpn_lib \<Rightarrow> u32 \<Rightarrow> instant \<Rightarrow> bytes \<Rightarrow> ControlChannel \<Rightarrow> ControlChannel" where
  "send_tls V wall now bs ch = fold (control_send V wall now P_CONTROL_V1) (byte_chunks MAX_CONTROL_PAYLOAD bs) ch"

definition take_outgoing :: "ControlChannel \<Rightarrow> ControlChannel \<times> bytes option" where
  "take_outgoing ch = (case cc_outgoing ch of [] \<Rightarrow> (ch, None) | p # ps \<Rightarrow> (ch\<lparr>cc_outgoing := ps\<rparr>, Some p))"

definition resend_stale :: "instant \<Rightarrow> ControlChannel \<Rightarrow> ControlChannel" where
  "resend_stale now ch =
     (let due = (\<lambda>p. duration_since now (pn_sent_at p) \<ge> RETRANSMIT_AFTER)
      in ch\<lparr>cc_unacknowledged := map (\<lambda>p. if due p then p\<lparr>pn_sent_at := now\<rparr> else p) (cc_unacknowledged ch),
            cc_outgoing := cc_outgoing ch @ map pn_packet (filter due (cc_unacknowledged ch))\<rparr>)"

definition control_restart :: "openvpn_lib \<Rightarrow> u32 \<Rightarrow> instant \<Rightarrow> ControlChannel \<Rightarrow> ControlChannel" where
  "control_restart V wall now = control_send V wall now P_CONTROL_SOFT_RESET_V1 []"

definition rekey :: "u8 \<Rightarrow> ControlChannel \<Rightarrow> ControlChannel" where
  "rekey key_id ch = ch\<lparr>cc_key_id := key_id, cc_next_packet_id := 0, cc_expected_packet_id := 0,
     cc_unacknowledged := [], cc_reordered := [], cc_pending_acks := []\<rparr>"

definition flush_acks :: "openvpn_lib \<Rightarrow> u32 \<Rightarrow> ControlChannel \<Rightarrow> ControlChannel" where
  "flush_acks V wall ch =
     (if cc_pending_acks ch = [] \<or> cc_remote_session_id ch = None then ch
      else let (ch, packet, _) = wrap V wall P_ACK_V1 [] True ch in ch\<lparr>cc_outgoing := cc_outgoing ch @ [packet]\<rparr>)"

subsection \<open>Receiving\<close>

definition constant_time_eq :: "bytes \<Rightarrow> bytes \<Rightarrow> bool" where
  "constant_time_eq left right \<longleftrightarrow>
     length left = length right \<and> fold (\<lambda>(a, b) difference. difference OR (a XOR b)) (zip left right) (0 :: u8) = 0"

definition open_control :: "openvpn_lib \<Rightarrow> Wrapping \<Rightarrow> bytes \<Rightarrow> control_error + bytes" where
  "open_control V wrapping packet =
     (case wrapping of
        Plain \<Rightarrow> Inr (drop 9 packet)
      | TlsAuth keys \<Rightarrow>
          (let size = output_len (ta_digest keys)
           in if length packet < 9 + size + 8 then Inl TruncatedTlsAuth
              else let mac = subslice 9 (9 + size) packet;
                       replay = subslice (9 + size) (9 + size + 8) packet;
                       body = drop (9 + size + 8) packet;
                       expected = ov_hmac V (ta_digest keys) (ta_receive keys) [replay, [packet ! 0], subslice 1 9 packet, body]
                   in if \<not> constant_time_eq expected mac then Inl TlsAuthFailed else Inr body)
      | TlsCrypt keys \<Rightarrow>
          (if length packet < 49 then Inl TruncatedTlsCrypt
           else let header = take 17 packet;
                    tag = subslice 17 49 packet;
                    body = ov_ctr V (tc_receive_cipher keys) tag (drop 49 packet);
                    expected = ov_hmac V Sha256 (tc_receive_hmac keys) [header, body]
                in if \<not> constant_time_eq expected tag then Inl TlsCryptFailed else Inr body))"

fun read_acks :: "nat \<Rightarrow> nat \<Rightarrow> bytes \<Rightarrow> (u32 list \<times> nat) option" where
  "read_acks 0 cursor body = Some ([], cursor)"
| "read_acks (Suc n) cursor body =
     (if length body < cursor + 4 then None
      else map_option (\<lambda>(acks, c). (of_be32 (subslice cursor (cursor + 4) body) # acks, c)) (read_acks n (cursor + 4) body))"

definition parse_body :: "u8 \<Rightarrow> bytes \<Rightarrow> control_error + (u32 list \<times> u32 option \<times> bytes)" where
  "parse_body opcode body =
     (if body = [] then Inl NoBody
      else let ack_count = unat (body ! 0)
           in case read_acks ack_count 1 body of
                None \<Rightarrow> Inl TruncatedAcks
              | Some (acks, cursor) \<Rightarrow>
                  (let cursor = (if ack_count > 0 then cursor + 8 else cursor)
                   in if ack_count > 0 \<and> length body < cursor then Inl TruncatedAckBlock
                      else if opcode = P_ACK_V1 then Inr (acks, None, drop cursor body)
                      else if length body < cursor + 4 then Inl NoPacketId
                      else Inr (acks, Some (of_be32 (subslice cursor (cursor + 4) body)), drop (cursor + 4) body)))"

text \<open>\<^verbatim>\<open>while let Some(chunk) = self.reordered.remove(&self.expected_packet_id)\<close>\<close>

function drain_in_order :: "u32 \<Rightarrow> (u32 \<times> bytes) list \<Rightarrow> u32 \<times> (u32 \<times> bytes) list \<times> bytes" where
  "drain_in_order expected held =
     (case map_of held expected of
        None \<Rightarrow> (expected, held, [])
      | Some chunk \<Rightarrow>
          (let (e, h, rest) = drain_in_order (expected + 1) (AList.delete expected held) in (e, h, chunk @ rest)))"
  by pat_completeness auto
termination
proof (relation "measure (\<lambda>(expected, held). length held)")
  fix expected :: u32 and held :: "(u32 \<times> bytes) list" and chunk
  assume "map_of held expected = Some chunk"
  then have "(expected, chunk) \<in> set held" by (rule map_of_SomeD)
  then have "length (filter (\<lambda>p. expected \<noteq> fst p) held) < length held" by (rule length_filter_less) simp
  then show "((expected + 1, AList.delete expected held), expected, held) \<in> measure (\<lambda>(expected, held). length held)"
    by (simp add: AList.delete_eq case_prod_unfold)
qed simp

declare drain_in_order.simps [simp del]

definition note_remote :: "bytes \<Rightarrow> u32 list \<Rightarrow> ControlChannel \<Rightarrow> ControlChannel" where
  "note_remote server_session_id acks ch =
     ch\<lparr>cc_remote_session_id := (case cc_remote_session_id ch of None \<Rightarrow> Some server_session_id | Some r \<Rightarrow> Some r),
        cc_unacknowledged := filter (\<lambda>p. pn_packet_id p \<notin> set acks) (cc_unacknowledged ch)\<rparr>"

text \<open>
  The source adds to \<^verbatim>\<open>expected_packet_id\<close> unchecked, here as in the in-order reader; the model wraps, as a
  release build does.
\<close>

definition step_past :: "u32 \<Rightarrow> ControlChannel \<Rightarrow> ControlChannel" where
  "step_past packet_id ch =
     (if packet_id = cc_expected_packet_id ch then ch\<lparr>cc_expected_packet_id := cc_expected_packet_id ch + 1\<rparr> else ch)"

definition control_receive :: "openvpn_lib \<Rightarrow> u32 \<Rightarrow> bytes \<Rightarrow> ControlChannel \<Rightarrow> ControlChannel \<times> (control_error + Received)" where
  "control_receive V wall packet ch =
     (case opcode_of packet of
        None \<Rightarrow> (ch, Inl EmptyPacket)
      | Some opcode \<Rightarrow>
          if length packet < 9 then (ch, Inl TruncatedPacket)
          else if packet ! 0 AND 7 \<noteq> cc_key_id ch \<and> opcode \<noteq> P_CONTROL_SOFT_RESET_V1 then (ch, Inr Nothing)
          else (case open_control V (cc_wrapping ch) packet of
             Inl e \<Rightarrow> (ch, Inl e)
           | Inr body \<Rightarrow>
               (case parse_body opcode body of
                  Inl e \<Rightarrow> (ch, Inl e)
                | Inr (acks, packet_id, payload) \<Rightarrow>
                    (let ch = note_remote (subslice 1 9 packet) acks ch
                     in case packet_id of
                          None \<Rightarrow> (ch, Inr Nothing)
                        | Some n \<Rightarrow>
                            (let ch = ch\<lparr>cc_pending_acks := cc_pending_acks ch @ [n]\<rparr>
                             in if opcode = P_CONTROL_HARD_RESET_SERVER_V2
                                then (flush_acks V wall (step_past n ch), Inr ServerReset)
                                else if opcode = P_CONTROL_SOFT_RESET_V1
                                then (flush_acks V wall (step_past n ch), Inr (SoftReset (packet ! 0 AND 7)))
                                else let ch = flush_acks V wall (ch\<lparr>cc_reordered := AList.update n payload (cc_reordered ch)\<rparr>);
                                         (expected, held, out) = drain_in_order (cc_expected_packet_id ch) (cc_reordered ch)
                                     in (ch\<lparr>cc_expected_packet_id := expected, cc_reordered := held\<rparr>,
                                         Inr (if out = [] then Nothing else Payload out)))))))"

subsection \<open>A peer reads back what was wrapped\<close>

lemma xor_zero_iff: "(a :: u8) XOR b = 0 \<longleftrightarrow> a = b"
  by (auto simp: bit_eq_iff bit_simps)

lemma drop_front: "length as = n \<Longrightarrow> drop n (as @ bs) = bs"
  by simp

lemma fold_or_zero: "fold (\<lambda>(a, b) d. d OR (a XOR b)) ps (d :: u8) = 0 \<longleftrightarrow> d = 0 \<and> list_all (\<lambda>(a, b). a = b) ps"
proof (induction ps arbitrary: d)
  case (Cons p ps)
  obtain a b where p: "p = (a, b)" by fastforce
  have "d OR (a XOR b) = 0 \<longleftrightarrow> d = 0 \<and> a = b" by (auto simp: or_eq_0_iff xor_zero_iff)
  then show ?case using Cons p by auto
qed simp

lemma constant_time_eq_iff: "constant_time_eq left right \<longleftrightarrow> left = right"
  by (auto simp: constant_time_eq_def fold_or_zero list_all_length intro: nth_equalityI)

fun mirrors :: "Wrapping \<Rightarrow> Wrapping \<Rightarrow> bool" where
  "mirrors Plain Plain = True"
| "mirrors (TlsAuth k) (TlsAuth k') = (ta_digest k = ta_digest k' \<and> ta_send k = ta_receive k')"
| "mirrors (TlsCrypt k) (TlsCrypt k') = (tc_send_cipher k = tc_receive_cipher k' \<and> tc_send_hmac k = tc_receive_hmac k')"
| "mirrors _ _ = False"

lemma subslice_middle: "length as = a \<Longrightarrow> length bs = b - a \<Longrightarrow> a \<le> b \<Longrightarrow> subslice a b (as @ bs @ cs) = bs"
  by (simp add: subslice_def)

lemma open_seal_control:
  assumes lib: "openvpn_lib_ok V" and keys: "mirrors w w'" and sid: "length session_id = 8" and replay: "length replay = 8"
  shows "open_control V w' (seal_control V w first session_id replay body) = Inr body"
    "length (seal_control V w first session_id replay body) \<ge> 9"
    "seal_control V w first session_id replay body ! 0 = first"
    "subslice 1 9 (seal_control V w first session_id replay body) = session_id"
proof -
  let ?p = "seal_control V w first session_id replay body"
  have p0: "\<exists>rest. ?p = first # session_id @ rest"
    using sid by (cases w) (auto simp: seal_control_def Let_def)
  then show "length ?p \<ge> 9" "?p ! 0 = first" "subslice 1 9 ?p = session_id"
    using sid by (auto simp: subslice_def)
  have hmac: "length (ov_hmac V d k ps) = output_len d" and ctr: "ov_ctr V k t (ov_ctr V k t p) = p" for d k ps t p
    using lib by (simp_all add: openvpn_lib_ok_def)
  show "open_control V w' ?p = Inr body"
  proof (cases w; cases w')
    assume "w = Plain" "w' = Plain"
    then show ?thesis using sid by (simp add: open_control_def seal_control_def)
  next
    fix k k' assume w: "w = TlsAuth k" "w' = TlsAuth k'"
    define mac where "mac = ov_hmac V (ta_digest k) (ta_send k) [replay, [first], session_id, body]"
    have pkt: "?p = (first # session_id) @ mac @ replay @ body" by (simp add: seal_control_def w mac_def)
    have len: "length (first # session_id) = 9" "length mac = output_len (ta_digest k)" using sid hmac by (simp_all add: mac_def)
    have "subslice 9 (9 + output_len (ta_digest k)) ?p = mac" unfolding pkt by (rule subslice_middle) (use len in simp_all)
    moreover have shape: "?p = ((first # session_id) @ mac) @ replay @ body" "?p = ((first # session_id) @ mac @ replay) @ body"
      by (simp_all add: pkt)
    have "subslice (9 + output_len (ta_digest k)) (9 + output_len (ta_digest k) + 8) ?p = replay"
      unfolding shape(1) by (rule subslice_middle) (use len replay in simp_all)
    moreover have "drop (9 + output_len (ta_digest k) + 8) ?p = body"
      unfolding shape(2) by (rule drop_front) (use len replay in simp)
    moreover have "subslice 1 9 ?p = session_id" "?p ! 0 = first" using sid by (simp_all add: pkt subslice_def)
    moreover have "length ?p \<ge> 9 + output_len (ta_digest k) + 8" unfolding pkt using len replay by simp
    ultimately show ?thesis using keys
      by (simp add: open_control_def w Let_def constant_time_eq_iff mac_def)
  next
    fix k k' assume w: "w = TlsCrypt k" "w' = TlsCrypt k'"
    define header where "header = first # session_id @ replay"
    define tag where "tag = ov_hmac V Sha256 (tc_send_hmac k) [header, body]"
    have pkt: "?p = header @ tag @ ov_ctr V (tc_send_cipher k) tag body"
      by (simp add: seal_control_def w Let_def header_def tag_def)
    have len: "length header = 17" "length tag = 32" using sid replay hmac by (simp_all add: header_def tag_def)
    have "subslice 17 49 ?p = tag" unfolding pkt by (rule subslice_middle) (use len in simp_all)
    moreover have "take 17 ?p = header" "drop 49 ?p = ov_ctr V (tc_send_cipher k) tag body" "49 \<le> length ?p"
      unfolding pkt using len by simp_all
    ultimately show ?thesis using keys
      by (simp add: open_control_def w Let_def constant_time_eq_iff ctr tag_def)
  qed (use keys in simp_all)
qed

lemma read_acks_body:
  "length pre = c \<Longrightarrow> read_acks (length acks) c (pre @ concat (map be32 acks) @ rest) = Some (acks, c + 4 * length acks)"
proof (induction acks arbitrary: pre c)
  case (Cons a acks)
  have "read_acks (length acks) (c + 4) ((pre @ be32 a) @ concat (map be32 acks) @ rest) = Some (acks, c + 4 + 4 * length acks)"
    using Cons by (intro Cons.IH) simp
  moreover have "subslice c (c + 4) (pre @ be32 a @ concat (map be32 acks) @ rest) = be32 a"
    by (rule subslice_middle) (use Cons.prems in simp_all)
  ultimately show ?case using Cons.prems by simp
qed simp

lemma parse_control_body:
  assumes "length acks \<le> 255" and "acks \<noteq> [] \<Longrightarrow> length remote = 8" and "(packet_id = None) = (opcode = P_ACK_V1)"
  shows "parse_body opcode (control_body acks remote packet_id payload) = Inr (acks, packet_id, payload)"
proof -
  define block where "block = (if acks = [] then [] else remote)"
  define tail where "tail = (case packet_id of None \<Rightarrow> [] | Some n \<Rightarrow> be32 n) @ payload"
  have body: "control_body acks remote packet_id payload = [of_nat (length acks)] @ concat (map be32 acks) @ block @ tail"
    by (simp add: control_body_def block_def tail_def)
  have count: "unat (of_nat (length acks) :: u8) = length acks" using assms(1) by (simp add: unat_of_nat)
  have acks: "read_acks (length acks) 1 (control_body acks remote packet_id payload) = Some (acks, 1 + 4 * length acks)"
    using read_acks_body [of "[of_nat (length acks)]" 1 acks "block @ tail"] by (simp add: body)
  have len: "length block = (if length acks > 0 then 8 else 0)" using assms(2) by (simp add: block_def)
  have flat: "length (concat (map be32 acks)) = 4 * length acks" by (induction acks) simp_all
  define c where "c = (if length acks > 0 then 1 + 4 * length acks + 8 else 1 + 4 * length acks)"
  have split: "control_body acks remote packet_id payload = ([of_nat (length acks)] @ concat (map be32 acks) @ block) @ tail"
    "length ([of_nat (length acks)] @ concat (map be32 acks) @ block) = c"
    using len flat by (simp_all add: body c_def)
  have rest: "drop c (control_body acks remote packet_id payload) = tail"
    "c \<le> length (control_body acks remote packet_id payload)"
    unfolding split(1) using drop_front [OF split(2)] split(2) by (simp_all only: length_append le_add1)
  have ids: "subslice c (c + 4) (control_body acks remote packet_id payload) = be32 n" 
    "drop (c + 4) (control_body acks remote packet_id payload) = payload"
    "c + 4 \<le> length (control_body acks remote packet_id payload)" if "packet_id = Some n" for n
  proof -
    have tail: "tail = be32 n @ payload" using that by (simp add: tail_def)
    show "subslice c (c + 4) (control_body acks remote packet_id payload) = be32 n"
      unfolding split(1) tail by (rule subslice_middle) (use split(2) in simp_all)
    have "drop (c + 4) (control_body acks remote packet_id payload) = drop 4 (drop c (control_body acks remote packet_id payload))"
      by (simp add: add.commute)
    then show "drop (c + 4) (control_body acks remote packet_id payload) = payload" by (simp add: rest(1) tail)
    show "c + 4 \<le> length (control_body acks remote packet_id payload)"
      unfolding split(1) tail using split(2) by simp
  qed
  have head: "control_body acks remote packet_id payload \<noteq> []" "control_body acks remote packet_id payload ! 0 = of_nat (length acks)"
    by (simp_all add: body)
  show ?thesis
  proof (cases packet_id)
    case None
    then have "tail = payload" "opcode = P_ACK_V1" using assms(3) by (simp_all add: tail_def)
    then show ?thesis using head count acks rest None by (simp add: parse_body_def Let_def c_def split: if_splits)
  next
    case (Some n)
    then have "opcode \<noteq> P_ACK_V1" using assms(3) by auto
    then show ?thesis using head count acks rest(2) ids [OF Some] Some
      by (simp add: parse_body_def Let_def c_def split: if_splits)
  qed
qed

subsection \<open>The reader puts packets back in order\<close>

lemma wrap_keeps:
  assumes "wrap V wall opcode payload with_acks ch = (ch', packet, packet_id)"
  shows "cc_wrapping ch' = cc_wrapping ch" "cc_session_id ch' = cc_session_id ch" "cc_key_id ch' = cc_key_id ch"
    "cc_remote_session_id ch' = cc_remote_session_id ch" "cc_expected_packet_id ch' = cc_expected_packet_id ch"
    "cc_reordered ch' = cc_reordered ch" "cc_outgoing ch' = cc_outgoing ch"
    "cc_unacknowledged ch' = cc_unacknowledged ch"
    "cc_next_packet_id ch' = (if opcode = P_ACK_V1 then cc_next_packet_id ch else cc_next_packet_id ch + 1)"
  using assms by (auto simp: wrap_def replay_header_def Let_def split: if_splits)

lemma flush_acks_keeps:
  "cc_wrapping (flush_acks V wall ch) = cc_wrapping ch" "cc_key_id (flush_acks V wall ch) = cc_key_id ch"
  "cc_expected_packet_id (flush_acks V wall ch) = cc_expected_packet_id ch"
  "cc_reordered (flush_acks V wall ch) = cc_reordered ch"
proof -
  obtain ch' p n where w: "wrap V wall P_ACK_V1 [] True ch = (ch', p, n)" by (metis prod_cases3)
  show "cc_wrapping (flush_acks V wall ch) = cc_wrapping ch" "cc_key_id (flush_acks V wall ch) = cc_key_id ch"
    "cc_expected_packet_id (flush_acks V wall ch) = cc_expected_packet_id ch"
    "cc_reordered (flush_acks V wall ch) = cc_reordered ch"
    using wrap_keeps [OF w] by (simp_all add: flush_acks_def w)
qed

text \<open>
  The reader's state while the byte_chunks of a stream numbered from \<open>base\<close> arrive: \<open>R\<close> are the indices that
  arrived so far and \<open>k\<close> is how many byte_chunks have been handed on.
\<close>

definition reader_at :: "u32 \<Rightarrow> bytes list \<Rightarrow> nat set \<Rightarrow> nat \<Rightarrow> u32 \<Rightarrow> (u32 \<times> bytes) list \<Rightarrow> bool" where
  "reader_at base cs R k expected held \<longleftrightarrow>
     k \<le> length cs \<and> expected = base + of_nat k \<and> {..<k} \<subseteq> R \<and> R \<subseteq> {..<length cs}
     \<and> (\<forall>n c. map_of held n = Some c \<longrightarrow> (\<exists>i \<in> R. n = base + of_nat i \<and> c = cs ! i))
     \<and> (\<forall>i \<in> R. k \<le> i \<longrightarrow> map_of held (base + of_nat i) = Some (cs ! i))"

lemma numbers_differ:
  "length cs < 2 ^ 32 \<Longrightarrow> i \<le> length cs \<Longrightarrow> j \<le> length cs \<Longrightarrow> (base :: u32) + of_nat i = base + of_nat j \<longleftrightarrow> i = j"
  by (auto dest!: arg_cong [of _ _ unat] simp: unat_of_nat)

lemma drain_reader:
  assumes "length cs < 2 ^ 32" and "reader_at base cs R k expected held"
  shows "\<exists>k' e h. drain_in_order expected held = (e, h, concat (take (k' - k) (drop k cs))) \<and> k \<le> k'
    \<and> reader_at base cs R k' e h \<and> k' \<notin> R"
  using assms(2)
proof (induction expected held arbitrary: k rule: drain_in_order.induct)
  case (1 expected held)
  note at = 1(2)
  have e: "expected = base + of_nat k" using at by (simp add: reader_at_def)
  show ?case
  proof (cases "map_of held expected")
    case None
    then have "k \<notin> R" using at by (auto simp: reader_at_def)
    with None at show ?thesis by (intro exI [of _ k]) (simp add: drain_in_order.simps [of expected held])
  next
    case (Some chunk)
    moreover have "\<forall>n c. map_of held n = Some c \<longrightarrow> (\<exists>i \<in> R. n = base + of_nat i \<and> c = cs ! i)"
      using at by (simp add: reader_at_def)
    ultimately obtain i where i: "i \<in> R" "expected = base + of_nat i" "chunk = cs ! i" by blast
    then have "i = k" using e numbers_differ [OF assms(1), of i k base] at by (auto simp: reader_at_def)
    with i at have k: "k \<in> R" "k < length cs" "chunk = cs ! k" by (auto simp: reader_at_def)
    have "reader_at base cs R (Suc k) (expected + 1) (AList.delete expected held)"
      unfolding reader_at_def
    proof (intro conjI allI impI ballI)
      show "Suc k \<le> length cs" "expected + 1 = base + of_nat (Suc k)" "R \<subseteq> {..<length cs}" "{..<Suc k} \<subseteq> R"
        using k e at by (auto simp: reader_at_def lessThan_Suc)
    next
      fix n c assume "map_of (AList.delete expected held) n = Some c"
      then have "map_of held n = Some c" by (simp add: delete_conv split: if_splits)
      then show "\<exists>i \<in> R. n = base + of_nat i \<and> c = cs ! i" using at by (simp add: reader_at_def)
    next
      fix j assume j: "j \<in> R" "Suc k \<le> j"
      then have "j < length cs" using at by (auto simp: reader_at_def)
      then have "base + of_nat j \<noteq> expected" using j k(2) numbers_differ [OF assms(1), of j k base] e by auto
      then show "map_of (AList.delete expected held) (base + of_nat j) = Some (cs ! j)"
        using at j by (simp add: reader_at_def delete_conv)
    qed
    from 1(1) [OF Some this] obtain k' e' h' where
      rest: "drain_in_order (expected + 1) (AList.delete expected held) = (e', h', concat (take (k' - Suc k) (drop (Suc k) cs)))"
      "Suc k \<le> k'" "reader_at base cs R k' e' h'" "k' \<notin> R" by blast
    have "drop k cs = cs ! k # drop (Suc k) cs" using k(2) by (simp add: Cons_nth_drop_Suc)
    then have "concat (take (k' - k) (drop k cs)) = chunk @ concat (take (k' - Suc k) (drop (Suc k) cs))"
      using rest(2) k(3) by (cases "k' - k") (simp_all add: Suc_diff_le diff_Suc split: nat.splits)
    then show ?thesis using Some rest by (intro exI [of _ k']) (simp add: drain_in_order.simps [of expected held])
  qed
qed

definition carries :: "openvpn_lib \<Rightarrow> Wrapping \<Rightarrow> u8 \<Rightarrow> u32 \<Rightarrow> bytes list \<Rightarrow> bytes \<Rightarrow> nat \<Rightarrow> bool" where
  "carries V w key_id base cs packet i \<longleftrightarrow>
     i < length cs \<and> opcode_of packet = Some P_CONTROL_V1 \<and> 9 \<le> length packet \<and> packet ! 0 AND 7 = key_id
     \<and> (\<exists>body acks. open_control V w packet = Inr body \<and> parse_body P_CONTROL_V1 body = Inr (acks, Some (base + of_nat i), cs ! i))"

definition payload_of :: "control_error + Received \<Rightarrow> bytes" where
  "payload_of r = (case r of Inr (Payload bs) \<Rightarrow> bs | _ \<Rightarrow> [])"

lemma receive_chunk:
  assumes short: "length cs < 2 ^ 32" and p: "carries V (cc_wrapping ch) (cc_key_id ch) base cs packet i"
    and at: "reader_at base cs R k (cc_expected_packet_id ch) (cc_reordered ch)"
  shows "\<exists>ch' r k'. control_receive V wall packet ch = (ch', Inr r) \<and> cc_wrapping ch' = cc_wrapping ch \<and> cc_key_id ch' = cc_key_id ch
    \<and> k \<le> k' \<and> k' \<notin> insert i R \<and> payload_of (Inr r) = concat (take (k' - k) (drop k cs))
    \<and> reader_at base cs (insert i R) k' (cc_expected_packet_id ch') (cc_reordered ch')"
proof -
  from p obtain body acks where open_it: "open_control V (cc_wrapping ch) packet = Inr body"
    and parse: "parse_body P_CONTROL_V1 body = Inr (acks, Some (base + of_nat i), cs ! i)" and i: "i < length cs"
    by (auto simp: carries_def)
  define held where "held = AList.update (base + of_nat i) (cs ! i) (cc_reordered ch)"
  have "j = i" if "j \<in> R" "(of_nat j :: u32) = of_nat i" for j
    using that at i numbers_differ [OF short, of j i base] by (auto simp: reader_at_def)
  then have "reader_at base cs (insert i R) k (cc_expected_packet_id ch) held"
    using at i by (auto simp: reader_at_def held_def update_conv split: if_splits)
  from drain_reader [OF short this] obtain k' e h where
    drain: "drain_in_order (cc_expected_packet_id ch) held = (e, h, concat (take (k' - k) (drop k cs)))" "k \<le> k'"
      "reader_at base cs (insert i R) k' e h" "k' \<notin> insert i R" by blast
  define ch1 where "ch1 = (let c = note_remote (subslice 1 9 packet) acks ch
    in c\<lparr>cc_pending_acks := cc_pending_acks c @ [base + of_nat i], cc_reordered := AList.update (base + of_nat i) (cs ! i) (cc_reordered c)\<rparr>)"
  have same: "cc_reordered ch1 = held" "cc_expected_packet_id ch1 = cc_expected_packet_id ch"
    "cc_wrapping ch1 = cc_wrapping ch" "cc_key_id ch1 = cc_key_id ch"
    by (simp_all add: ch1_def Let_def note_remote_def held_def)
  have ops: "P_CONTROL_V1 \<noteq> P_CONTROL_HARD_RESET_SERVER_V2" "P_CONTROL_V1 \<noteq> P_CONTROL_SOFT_RESET_V1" by (simp_all add: opcode_defs)
  have "control_receive V wall packet ch =
      ((flush_acks V wall ch1)\<lparr>cc_expected_packet_id := e, cc_reordered := h\<rparr>,
       Inr (if concat (take (k' - k) (drop k cs)) = [] then Nothing else Payload (concat (take (k' - k) (drop k cs)))))"
    using p open_it parse drain(1) ops
    by (simp add: control_receive_def carries_def flush_acks_keeps same ch1_def [symmetric] Let_def)
      (simp add: ch1_def Let_def note_remote_def flush_acks_keeps held_def)
  then show ?thesis using drain same by (auto simp: flush_acks_keeps payload_of_def)
qed

fun receive_all :: "openvpn_lib \<Rightarrow> u32 \<Rightarrow> bytes list \<Rightarrow> ControlChannel \<Rightarrow> ControlChannel \<times> (control_error + Received) list" where
  "receive_all V wall [] ch = (ch, [])"
| "receive_all V wall (p # ps) ch =
     (let (ch, r) = control_receive V wall p ch; (ch, rs) = receive_all V wall ps ch in (ch, r # rs))"

definition delivered :: "(control_error + Received) list \<Rightarrow> bytes" where
  "delivered rs = concat (map payload_of rs)"

lemma receive_all_chunks:
  assumes "length cs < 2 ^ 32" and "list_all2 (carries V (cc_wrapping ch) (cc_key_id ch) base cs) packets arrivals"
    and "reader_at base cs R k (cc_expected_packet_id ch) (cc_reordered ch)" and "k \<notin> R"
  shows "\<exists>k' \<ge> k. k' \<notin> R \<union> set arrivals \<and> {..<k'} \<subseteq> R \<union> set arrivals
    \<and> delivered (snd (receive_all V wall packets ch)) = concat (take (k' - k) (drop k cs))
    \<and> list_all (\<lambda>r. \<not> isl r) (snd (receive_all V wall packets ch))
    \<and> k' \<le> length cs \<and> cc_expected_packet_id (fst (receive_all V wall packets ch)) = base + of_nat k'"
  using assms(2-4)
proof (induction packets arbitrary: ch arrivals R k)
  case Nil
  then show ?case by (auto simp: reader_at_def delivered_def)
next
  case (Cons p ps)
  then obtain i js where arrivals: "arrivals = i # js" and p: "carries V (cc_wrapping ch) (cc_key_id ch) base cs p i"
    and ps: "list_all2 (carries V (cc_wrapping ch) (cc_key_id ch) base cs) ps js" by (auto simp: list_all2_Cons1)
  from receive_chunk [OF assms(1) p Cons.prems(2), of wall] obtain ch1 r k1 where
    one: "control_receive V wall p ch = (ch1, Inr r)" "cc_wrapping ch1 = cc_wrapping ch" "cc_key_id ch1 = cc_key_id ch"
    "k \<le> k1" "k1 \<notin> insert i R" "payload_of (Inr r) = concat (take (k1 - k) (drop k cs))"
    "reader_at base cs (insert i R) k1 (cc_expected_packet_id ch1) (cc_reordered ch1)" by blast
  have "list_all2 (carries V (cc_wrapping ch1) (cc_key_id ch1) base cs) ps js" using ps one(2,3) by simp
  from Cons.IH [OF this one(7,5)] obtain k' where
    rest: "k1 \<le> k'" "k' \<notin> insert i R \<union> set js" "{..<k'} \<subseteq> insert i R \<union> set js"
    "delivered (snd (receive_all V wall ps ch1)) = concat (take (k' - k1) (drop k1 cs))"
    "list_all (\<lambda>r. \<not> isl r) (snd (receive_all V wall ps ch1))"
    "k' \<le> length cs" "cc_expected_packet_id (fst (receive_all V wall ps ch1)) = base + of_nat k'" by blast
  have "take (k' - k) (drop k cs) = take (k1 - k) (drop k cs) @ take (k' - k1) (drop k1 cs)"
    using one(4) rest(1) take_add [of "k1 - k" "k' - k1" "drop k cs"] by simp
  then have "delivered (snd (receive_all V wall (p # ps) ch)) = concat (take (k' - k) (drop k cs))"
    using one(1,6) rest(4) by (simp add: delivered_def case_prod_unfold Let_def)
  then show ?case using one(1,4) rest arrivals by (intro exI [of _ k']) (auto simp: case_prod_unfold Let_def)
qed

subsection \<open>The peer's packets\<close>

lemma byte_chunks_concat: "0 < n \<Longrightarrow> concat (byte_chunks n bs) = bs"
  by (induction n bs rule: byte_chunks.induct) (simp add: byte_chunks.simps)

definition channel_ok :: "ControlChannel \<Rightarrow> bool" where
  "channel_ok ch \<longleftrightarrow> length (cc_session_id ch) = 8 \<and> cc_key_id ch \<le> 7
     \<and> (\<forall>r. cc_remote_session_id ch = Some r \<longrightarrow> length r = 8)"

lemma first_byte:
  assumes "k \<le> (7 :: u8)"
  shows "drop_bit 3 (push_bit 3 P_CONTROL_V1 OR k) = P_CONTROL_V1" "(push_bit 3 P_CONTROL_V1 OR k) AND 7 = k"
proof -
  have "unat k \<le> 7" using assms by (simp add: word_le_nat_alt)
  then have "unat k \<in> {0, 1, 2, 3, 4, 5, 6, 7}" by auto
  then have "k \<in> {0, 1, 2, 3, 4, 5, 6, 7}" by (auto dest!: arg_cong [of "unat k" _ "of_nat :: nat \<Rightarrow> u8"])
  then show "drop_bit 3 (push_bit 3 P_CONTROL_V1 OR k) = P_CONTROL_V1" "(push_bit 3 P_CONTROL_V1 OR k) AND 7 = k"
    by (auto simp: P_CONTROL_V1_def)
qed

lemma control_send_chunk:
  assumes lib: "openvpn_lib_ok V" and keys: "mirrors (cc_wrapping tx) w'" and ok: "channel_ok tx"
    and sent: "tx' = control_send V wall now P_CONTROL_V1 payload tx"
  shows "\<exists>p body acks. cc_outgoing tx' = cc_outgoing tx @ [p] \<and> opcode_of p = Some P_CONTROL_V1 \<and> 9 \<le> length p
      \<and> p ! 0 AND 7 = cc_key_id tx \<and> open_control V w' p = Inr body
      \<and> parse_body P_CONTROL_V1 body = Inr (acks, Some (cc_next_packet_id tx), payload)"
    and "channel_ok tx' \<and> cc_wrapping tx' = cc_wrapping tx \<and> cc_key_id tx' = cc_key_id tx
      \<and> cc_next_packet_id tx' = cc_next_packet_id tx + 1"
proof -
  obtain t p n where w: "wrap V wall P_CONTROL_V1 payload True tx = (t, p, n)" by (metis prod_cases3)
  note keeps = wrap_keeps [OF w]
  have op: "P_CONTROL_V1 \<noteq> P_ACK_V1" by (simp add: opcode_defs)
  define acks where "acks = (if cc_remote_session_id tx \<noteq> None then take MAX_ACKS (cc_pending_acks tx) else [])"
  define remote where "remote = (case cc_remote_session_id tx of None \<Rightarrow> [] | Some r \<Rightarrow> r)"
  define body where "body = control_body acks remote (Some (cc_next_packet_id tx)) payload"
  define first where "first = push_bit 3 P_CONTROL_V1 OR cc_key_id tx"
  have "\<exists>replay. p = seal_control V (cc_wrapping tx) first (cc_session_id tx) replay body \<and> length replay = 8 \<and> n = Some (cc_next_packet_id tx)"
    using w op by (auto simp: wrap_def Let_def replay_header_def acks_def remote_def body_def first_def split: if_splits)
  then obtain replay where p: "p = seal_control V (cc_wrapping tx) first (cc_session_id tx) replay body" "length replay = 8"
    and n: "n = Some (cc_next_packet_id tx)" by blast
  have sid: "length (cc_session_id tx) = 8" and key: "cc_key_id tx \<le> 7" using ok by (simp_all add: channel_ok_def)
  note opened = open_seal_control [OF lib keys sid p(2), of first body, folded p(1)]
  have "acks \<noteq> [] \<Longrightarrow> length remote = 8"
    using ok by (auto simp: channel_ok_def acks_def remote_def split: if_splits)
  then have "parse_body P_CONTROL_V1 body = Inr (acks, Some (cc_next_packet_id tx), payload)"
    unfolding body_def by (intro parse_control_body) (simp_all add: acks_def MAX_ACKS_def op min.coboundedI2)
  moreover have "opcode_of p = Some P_CONTROL_V1" "p ! 0 AND 7 = cc_key_id tx"
    using opened(2,3) first_byte [OF key] by (auto simp: opcode_of_def first_def split: list.splits)
  moreover have "cc_outgoing tx' = cc_outgoing tx @ [p]" using sent w n keeps by (simp add: control_send_def)
  ultimately show "\<exists>p body acks. cc_outgoing tx' = cc_outgoing tx @ [p] \<and> opcode_of p = Some P_CONTROL_V1 \<and> 9 \<le> length p
      \<and> p ! 0 AND 7 = cc_key_id tx \<and> open_control V w' p = Inr body
      \<and> parse_body P_CONTROL_V1 body = Inr (acks, Some (cc_next_packet_id tx), payload)"
    using opened(1,2) by blast
  show "channel_ok tx' \<and> cc_wrapping tx' = cc_wrapping tx \<and> cc_key_id tx' = cc_key_id tx
      \<and> cc_next_packet_id tx' = cc_next_packet_id tx + 1"
    using sent w n keeps ok op by (simp add: control_send_def channel_ok_def)
qed

text \<open>Any number of calls of \<^verbatim>\<open>send_tls\<close>, each at its own time, and the chunks they cut their bytes into.\<close>

definition send_calls :: "openvpn_lib \<Rightarrow> (u32 \<times> instant \<times> bytes) list \<Rightarrow> ControlChannel \<Rightarrow> ControlChannel" where
  "send_calls V calls = fold (\<lambda>(wall, now, bs). send_tls V wall now bs) calls"

definition call_chunks :: "(u32 \<times> instant \<times> bytes) list \<Rightarrow> bytes list" where
  "call_chunks calls = concat (map (\<lambda>(wall, now, bs). byte_chunks MAX_CONTROL_PAYLOAD bs) calls)"

lemma send_chunks:
  assumes "openvpn_lib_ok V" and "mirrors (cc_wrapping tx) w'" and "channel_ok tx"
  shows "let tx' = fold (\<lambda>(wall, now, c). control_send V wall now P_CONTROL_V1 c) sends tx; cs = map (\<lambda>s. snd (snd s)) sends
    in (\<exists>ps. cc_outgoing tx' = cc_outgoing tx @ ps \<and> length ps = length cs
         \<and> (\<forall>i < length cs. carries V w' (cc_key_id tx) (cc_next_packet_id tx) cs (ps ! i) i))
       \<and> cc_next_packet_id tx' = cc_next_packet_id tx + of_nat (length cs)"
  using assms(2,3)
proof (induction sends arbitrary: tx)
  case (Cons send sends)
  obtain wall now c where send: "send = (wall, now, c)" by (cases send)
  define tx1 where "tx1 = control_send V wall now P_CONTROL_V1 c tx"
  note one = control_send_chunk [OF assms(1) Cons.prems tx1_def]
  let ?cs = "map (\<lambda>s. snd (snd s)) sends" and ?tx' = "fold (\<lambda>(wall, now, c). control_send V wall now P_CONTROL_V1 c) sends tx1"
  obtain p body acks where p: "cc_outgoing tx1 = cc_outgoing tx @ [p]" "opcode_of p = Some P_CONTROL_V1" "9 \<le> length p"
    "p ! 0 AND 7 = cc_key_id tx" "open_control V w' p = Inr body"
    "parse_body P_CONTROL_V1 body = Inr (acks, Some (cc_next_packet_id tx), c)" using one(1) by blast
  have "mirrors (cc_wrapping tx1) w'" "channel_ok tx1" using one(2) Cons.prems by simp_all
  from Cons.IH [OF this] obtain ps where ps: "cc_outgoing ?tx' = cc_outgoing tx1 @ ps"
    "length ps = length ?cs" "\<And>i. i < length ?cs \<Longrightarrow> carries V w' (cc_key_id tx1) (cc_next_packet_id tx1) ?cs (ps ! i) i"
    and number: "cc_next_packet_id ?tx' = cc_next_packet_id tx1 + of_nat (length ?cs)" unfolding Let_def by blast
  have "carries V w' (cc_key_id tx) (cc_next_packet_id tx) (c # ?cs) ((p # ps) ! i) i" if "i < length (c # ?cs)" for i
  proof (cases i)
    case 0
    then show ?thesis using p by (auto simp: carries_def)
  next
    case (Suc j)
    then have "carries V w' (cc_key_id tx1) (cc_next_packet_id tx1) ?cs (ps ! j) j" using that ps(3) by simp
    then show ?thesis using Suc one(2) by (auto simp: carries_def add.assoc add.commute [of 1])
  qed
  moreover have "cc_next_packet_id ?tx' = cc_next_packet_id tx + of_nat (length (c # ?cs))"
    using number one(2) by simp
  ultimately show ?case using ps(1,2) p(1) by (auto simp: send tx1_def [symmetric] Let_def intro!: exI [of _ "p # ps"])
qed simp

lemma send_calls_chunks:
  "send_calls V calls tx = fold (\<lambda>(wall, now, c). control_send V wall now P_CONTROL_V1 c)
     (concat (map (\<lambda>(wall, now, bs). map (\<lambda>c. (wall, now, c)) (byte_chunks MAX_CONTROL_PAYLOAD bs)) calls)) tx"
proof (induction calls arbitrary: tx)
  case (Cons call calls)
  have "send_tls V wall now bs tx =
      fold (\<lambda>(wall, now, c). control_send V wall now P_CONTROL_V1 c) (map (\<lambda>c. (wall, now, c)) (byte_chunks MAX_CONTROL_PAYLOAD bs)) tx"
    for wall now bs
    by (simp add: send_tls_def fold_map comp_def)
  then show ?case using Cons by (cases call) (simp add: send_calls_def)
qed (simp add: send_calls_def)

lemma call_chunks_sent:
  "map (\<lambda>s. snd (snd s)) (concat (map (\<lambda>(wall, now, bs). map (\<lambda>c. (wall, now, c)) (byte_chunks MAX_CONTROL_PAYLOAD bs)) calls)) = call_chunks calls"
  by (induction calls) (auto simp: call_chunks_def comp_def)

lemma call_chunks_bytes: "concat (call_chunks calls) = concat (map (\<lambda>s. snd (snd s)) calls)"
  by (induction calls) (auto simp: call_chunks_def byte_chunks_concat MAX_CONTROL_PAYLOAD_def)

text \<open>
  C27. Under one key id the TLS stream crosses the control channel whole and in order. Two peers hold
  mirrored keys, under any of the three wrappings; the reader holds nothing back yet and expects the
  sender's next number, as after the reset that opens a session. Of the packets that any number of calls of
  \<^verbatim>\<open>send_tls\<close> queue, fewer than \<open>2 ^ 32\<close>, the network delivers any, in any order and any number of times:
  the reader never fails and has handed TLS exactly the bytes before the first packet still missing.
  Once every packet has arrived, it has handed on all the bytes and expects the sender's next number again.
\<close>

theorem control_stream_in_order:
  assumes "openvpn_lib_ok V" and "mirrors (cc_wrapping tx) (cc_wrapping rx)" and "channel_ok tx"
    and "cc_key_id rx = cc_key_id tx" and "cc_expected_packet_id rx = cc_next_packet_id tx" and "cc_reordered rx = []"
    and "length (call_chunks calls) < 2 ^ 32" and "set arrivals \<subseteq> {..<length (call_chunks calls)}"
    and "cc_outgoing (send_calls V calls tx) = cc_outgoing tx @ packets"
  shows "let (rx', rs) = receive_all V wall' (map ((!) packets) arrivals) rx
    in list_all (\<lambda>r. \<not> isl r) rs
       \<and> delivered rs = concat (take (LEAST j. j \<notin> set arrivals) (call_chunks calls))
       \<and> (set arrivals = {..<length (call_chunks calls)} \<longrightarrow>
            delivered rs = concat (map (\<lambda>s. snd (snd s)) calls) \<and> cc_expected_packet_id rx' = cc_next_packet_id (send_calls V calls tx))"
proof -
  define cs where "cs = call_chunks calls"
  note sent = send_chunks [OF assms(1-3), of "concat (map (\<lambda>(wall, now, bs). map (\<lambda>c. (wall, now, c)) (byte_chunks MAX_CONTROL_PAYLOAD bs)) calls)"]
  have packets: "carries V (cc_wrapping rx) (cc_key_id rx) (cc_next_packet_id tx) cs (packets ! i) i" if "i < length cs" for i
    using sent that assms(4,9) unfolding call_chunks_sent send_calls_chunks [symmetric] cs_def [symmetric] by (auto simp: Let_def)
  have next_id: "cc_next_packet_id (send_calls V calls tx) = cc_next_packet_id tx + of_nat (length cs)"
    using sent unfolding call_chunks_sent send_calls_chunks [symmetric] cs_def [symmetric] by (simp add: Let_def)
  have "arrivals ! n < length cs" if "n < length arrivals" for n
    using nth_mem [OF that] assms(8) by (auto simp: cs_def)
  then have "list_all2 (carries V (cc_wrapping rx) (cc_key_id rx) (cc_next_packet_id tx) cs) (map ((!) packets) arrivals) arrivals"
    using packets by (simp add: list_all2_conv_all_nth)
  moreover have "reader_at (cc_next_packet_id tx) cs {} 0 (cc_expected_packet_id rx) (cc_reordered rx)"
    using assms(5,6) by (simp add: reader_at_def)
  ultimately obtain k where k: "k \<notin> set arrivals" "{..<k} \<subseteq> set arrivals" "k \<le> length cs"
    "delivered (snd (receive_all V wall' (map ((!) packets) arrivals) rx)) = concat (take k cs)"
    "list_all (\<lambda>r. \<not> isl r) (snd (receive_all V wall' (map ((!) packets) arrivals) rx))"
    "cc_expected_packet_id (fst (receive_all V wall' (map ((!) packets) arrivals) rx)) = cc_next_packet_id tx + of_nat k"
    using receive_all_chunks [of cs V rx "cc_next_packet_id tx" _ arrivals "{}" 0 wall'] assms(7) by (auto simp: cs_def)
  have least: "(LEAST j. j \<notin> set arrivals) = k" using k(1,2) by (intro Least_equality) (auto simp: not_less [symmetric])
  have "k = length cs" if "set arrivals = {..<length cs}" using k(1,3) that by simp
  then show ?thesis
    using k(4-6) least next_id call_chunks_bytes [of calls] by (auto simp: cs_def case_prod_unfold Let_def)
qed

text \<open>A library that meets the hypothesis, and a concrete exchange.\<close>

definition sample_vpn_lib :: openvpn_lib where
  "sample_vpn_lib = \<lparr>ov_hmac = (\<lambda>d k ps. replicate (output_len d) 0), ov_ctr = (\<lambda>k t p. p)\<rparr>"

definition sample_wrapping :: Wrapping where
  "sample_wrapping = TlsAuth \<lparr>ta_send = [1], ta_receive = [1], ta_digest = Md5\<rparr>"

definition sample_channel :: "u8 \<Rightarrow> ControlChannel" where
  "sample_channel n = channel_new sample_wrapping (replicate 8 n)"

theorem control_stream_in_order_witness:
  "delivered (snd (receive_all sample_vpn_lib 0
     (map ((!) (cc_outgoing (send_calls sample_vpn_lib [(0, 0, [7, 8]), (1, 2, [9])] (sample_channel 1)))) [1, 0, 1]) (sample_channel 2))) = [7, 8, 9]"
proof -
  let ?calls = "[(0, 0, [7, 8]), (1, 2, [9])] :: (u32 \<times> instant \<times> bytes) list"
  have lib: "openvpn_lib_ok sample_vpn_lib" by (simp add: openvpn_lib_ok_def sample_vpn_lib_def)
  have cs: "call_chunks ?calls = [[7, 8], [9]]" by (simp add: call_chunks_def byte_chunks.simps MAX_CONTROL_PAYLOAD_def)
  define packets where "packets = cc_outgoing (send_calls sample_vpn_lib ?calls (sample_channel 1))"
  have "mirrors (cc_wrapping (sample_channel 1)) (cc_wrapping (sample_channel 2))" "channel_ok (sample_channel 1)"
    "cc_key_id (sample_channel 2) = cc_key_id (sample_channel 1)"
    "cc_expected_packet_id (sample_channel 2) = cc_next_packet_id (sample_channel 1)" "cc_reordered (sample_channel 2) = []"
    "cc_outgoing (sample_channel 1) = []"
    by (simp_all add: sample_channel_def channel_new_def channel_ok_def sample_wrapping_def)
  moreover have all: "set [1, 0, 1] = {..<length (call_chunks ?calls)}" by (auto simp: cs lessThan_Suc)
  moreover have "length (call_chunks ?calls) < 2 ^ 32" by (simp add: cs)
  ultimately have "let (rx', rs) = receive_all sample_vpn_lib 0 (map ((!) packets) [1, 0, 1]) (sample_channel 2)
    in list_all (\<lambda>r. \<not> isl r) rs
       \<and> delivered rs = concat (take (LEAST j. j \<notin> set [1, 0, 1]) (call_chunks ?calls))
       \<and> (set [1, 0, 1] = {..<length (call_chunks ?calls)} \<longrightarrow>
            delivered rs = concat (map (\<lambda>s. snd (snd s)) ?calls)
            \<and> cc_expected_packet_id rx' = cc_next_packet_id (send_calls sample_vpn_lib ?calls (sample_channel 1)))"
    by (intro control_stream_in_order [OF lib]) (simp_all add: packets_def)
  then have "delivered (snd (receive_all sample_vpn_lib 0 (map ((!) packets) [1, 0, 1]) (sample_channel 2))) =
      concat (map (\<lambda>s. snd (snd s)) ?calls)"
    using all unfolding Let_def case_prod_unfold by blast
  also have "\<dots> = [7, 8, 9]" by simp
  finally show ?thesis unfolding packets_def .
qed

subsection \<open>Retransmission and rekeying\<close>

text \<open>What was sent and not acknowledged is queued again at the latest 1.2 seconds after it was last sent.\<close>

lemma unacknowledged_resent:
  assumes "p \<in> set (cc_unacknowledged ch)" and "duration_since now (pn_sent_at p) \<ge> RETRANSMIT_AFTER"
  shows "pn_packet p \<in> set (cc_outgoing (resend_stale now ch))"
  using assms by (auto simp: resend_stale_def Let_def)

text \<open>
  A renegotiation as \<^verbatim>\<open>session.rs\<close> makes it: the soft reset the server sends under the new key id has
  number zero there, but \<^verbatim>\<open>rekey\<close> resets the reader to expect zero again, so the payload that follows the
  soft reset is held back until the server repeats it.
\<close>

lemma soft_reset_slot_forgotten:
  "let server = control_send sample_vpn_lib 0 0 P_CONTROL_V1 [7] (control_restart sample_vpn_lib 0 0 (rekey 1 (channel_new Plain (replicate 8 1))));
       (client, r) = control_receive sample_vpn_lib 0 (cc_outgoing server ! 0) (channel_new Plain (replicate 8 2))
   in r = Inr (SoftReset 1)
      \<and> snd (control_receive sample_vpn_lib 0 (cc_outgoing server ! 1) (rekey 1 client)) = Inr Nothing
      \<and> cc_expected_packet_id (rekey 1 client) = 0"
  by code_simp

end
