(* ===== verification/Openvpn_Data.thy ===== *)
theory Openvpn_Data
  imports Openvpn_Control
begin

section \<open>The OpenVPN data channel (\<^verbatim>\<open>engine/src/openvpn/crypto.rs\<close>)\<close>

text \<open>
  Key derivation and the encrypted channel that carries inner packets, under an AEAD cipher or under AES in
  CBC mode with an HMAC. The ciphers and the HMAC are third-party crates and a parameter, a record of
  functions; what is relied on is that opening undoes sealing, that decrypting a block undoes encrypting it,
  and the sizes. The random initialisation vector is an argument. An operation that can panic returns an
  \<open>outcome\<close>.

  The lemmas show that the chaining and the padding are undone, that the window admits a packet id once (it
  interprets the contract \<open>once_filter\<close>), that no packet id is used twice under one key, that what arrives
  at a peer holding the mirrored keys is what was sealed, each packet once, whatever the network loses,
  repeats, reorders or invents, and exactly when a datagram panics the receiver.
\<close>

unbundle bit_operations_syntax

subsection \<open>Ciphers and keys (\<^verbatim>\<open>openvpn/config.rs\<close>)\<close>

datatype DataCipher = Aes256Gcm | Aes128Gcm | ChaCha20Poly1305 | Aes256Cbc | Aes192Cbc | Aes128Cbc

fun key_len :: "DataCipher \<Rightarrow> nat" where
  "key_len Aes256Gcm = 32"
| "key_len ChaCha20Poly1305 = 32"
| "key_len Aes256Cbc = 32"
| "key_len Aes192Cbc = 24"
| "key_len Aes128Gcm = 16"
| "key_len Aes128Cbc = 16"

definition is_aead :: "DataCipher \<Rightarrow> bool" where
  "is_aead cipher \<longleftrightarrow> cipher \<in> {Aes256Gcm, Aes128Gcm, ChaCha20Poly1305}"

text \<open>A static key: two keys, each of 64 bytes for a cipher and 64 for an HMAC.\<close>

type_synonym StaticKey = bytes

definition static_cipher :: "nat \<Rightarrow> StaticKey \<Rightarrow> bytes" where
  "static_cipher index key = subslice (index * 128) (index * 128 + 64) key"

definition static_hmac :: "nat \<Rightarrow> StaticKey \<Rightarrow> bytes" where
  "static_hmac index key = subslice (index * 128 + 64) (index * 128 + 128) key"

datatype KeyDirection = Normal | Inverse | Bidirectional

fun indexes :: "KeyDirection \<Rightarrow> nat \<times> nat" where
  "indexes Normal = (0, 1)"
| "indexes Inverse = (1, 0)"
| "indexes Bidirectional = (0, 0)"

definition tls_auth_keys :: "StaticKey \<Rightarrow> KeyDirection \<Rightarrow> Digest \<Rightarrow> TlsAuthKeys" where
  "tls_auth_keys key direction digest =
     (let (send, receive) = indexes direction; size' = output_len digest
      in \<lparr>ta_send = take size' (static_hmac send key), ta_receive = take size' (static_hmac receive key), ta_digest = digest\<rparr>)"

definition tls_crypt_keys :: "StaticKey \<Rightarrow> TlsCryptKeys" where
  "tls_crypt_keys key =
     \<lparr>tc_send_cipher = take 32 (static_cipher 1 key), tc_send_hmac = take 32 (static_hmac 1 key),
      tc_receive_cipher = take 32 (static_cipher 0 key), tc_receive_hmac = take 32 (static_hmac 0 key)\<rparr>"

subsection \<open>The library\<close>

record data_lib = openvpn_lib +
  dl_seal :: "DataCipher \<Rightarrow> bytes \<Rightarrow> bytes \<Rightarrow> bytes \<Rightarrow> bytes \<Rightarrow> (bytes \<times> bytes) option"
  dl_open :: "DataCipher \<Rightarrow> bytes \<Rightarrow> bytes \<Rightarrow> bytes \<Rightarrow> bytes \<Rightarrow> bytes \<Rightarrow> bytes option"
  dl_encrypt :: "DataCipher \<Rightarrow> bytes \<Rightarrow> bytes \<Rightarrow> bytes"
  dl_decrypt :: "DataCipher \<Rightarrow> bytes \<Rightarrow> bytes \<Rightarrow> bytes"

definition hmac_sized :: "'a openvpn_lib_scheme \<Rightarrow> bool" where
  "hmac_sized V \<longleftrightarrow> (\<forall>d k ps. length (ov_hmac V d k ps) = output_len d)"

definition aead_undone :: "data_lib \<Rightarrow> bool" where
  "aead_undone V \<longleftrightarrow>
     (\<forall>c k n a p body tag. dl_seal V c k n a p = Some (body, tag) \<longrightarrow>
        length tag = 16 \<and> dl_open V c k n a tag body = Some p)"

definition blocks_undone :: "data_lib \<Rightarrow> bool" where
  "blocks_undone V \<longleftrightarrow>
     (\<forall>c k b. length b = 16 \<longrightarrow> length (dl_encrypt V c k b) = 16 \<and> dl_decrypt V c k (dl_encrypt V c k b) = b)"

subsection \<open>Key derivation\<close>

definition TAG_LEN :: nat where "TAG_LEN = 16"

definition DATA_PING :: bytes where
  "DATA_PING = [0x2a, 0x18, 0x7b, 0xf3, 0x64, 0x1e, 0xb4, 0xcb, 0x07, 0xed, 0x2d, 0x0a, 0x98, 0x1f, 0xc7, 0x48]"

record KeySource =
  ks_pre_master :: bytes
  ks_random1 :: bytes
  ks_random2 :: bytes

text \<open>The loop of \<^verbatim>\<open>p_hash\<close> ends because an HMAC is not empty; that is a lemma, not part of the definition.\<close>

partial_function (option) p_hash_loop ::
  "(bytes \<Rightarrow> bytes list \<Rightarrow> bytes) \<Rightarrow> bytes \<Rightarrow> bytes \<Rightarrow> nat \<Rightarrow> bytes \<Rightarrow> bytes \<Rightarrow> bytes option" where
  "p_hash_loop mac secret seed len acc a =
     (if length acc < len
      then p_hash_loop mac secret seed len (acc @ mac secret [a, seed]) (mac secret [a])
      else Some (take len acc))"

declare p_hash_loop.simps [code]

definition p_hash :: "(bytes \<Rightarrow> bytes list \<Rightarrow> bytes) \<Rightarrow> bytes \<Rightarrow> bytes \<Rightarrow> nat \<Rightarrow> bytes option" where
  "p_hash mac secret seed len = p_hash_loop mac secret seed len [] (mac secret [seed])"

definition tls1_prf :: "'a openvpn_lib_scheme \<Rightarrow> bytes \<Rightarrow> bytes \<Rightarrow> nat \<Rightarrow> bytes option" where
  "tls1_prf V secret seed len =
     (let half = (length secret + 1) div 2
      in case p_hash (ov_hmac V Md5) (take half secret) seed len of
           None \<Rightarrow> None
         | Some md5 \<Rightarrow>
             (case p_hash (ov_hmac V Sha1) (drop (length secret - half) secret) seed len of
                None \<Rightarrow> None
              | Some sha1 \<Rightarrow> Some (map2 (XOR) md5 sha1)))"

definition ascii_bytes :: "string \<Rightarrow> bytes" where
  "ascii_bytes s = map of_char s"

definition openvpn_prf ::
  "'a openvpn_lib_scheme \<Rightarrow> bytes \<Rightarrow> string \<Rightarrow> bytes \<Rightarrow> bytes \<Rightarrow> (bytes \<times> bytes) option \<Rightarrow> nat \<Rightarrow> bytes option" where
  "openvpn_prf V secret label client_seed server_seed session_ids len =
     tls1_prf V secret
       (ascii_bytes label @ client_seed @ server_seed
        @ (case session_ids of None \<Rightarrow> [] | Some (client_sid, server_sid) \<Rightarrow> client_sid @ server_sid)) len"

type_synonym KeyMaterial = bytes

definition derive :: "'a openvpn_lib_scheme \<Rightarrow> KeySource \<Rightarrow> bytes \<Rightarrow> bytes \<Rightarrow> bytes \<Rightarrow> bytes \<Rightarrow> KeyMaterial option" where
  "derive V client server_random1 server_random2 client_session_id server_session_id =
     (case openvpn_prf V (ks_pre_master client) ''OpenVPN master secret'' (ks_random1 client) server_random1 None 48 of
        None \<Rightarrow> None
      | Some master \<Rightarrow>
          openvpn_prf V master ''OpenVPN key expansion'' (ks_random2 client) server_random2
            (Some (client_session_id, server_session_id)) 256)"

definition cipher_key :: "nat \<Rightarrow> nat \<Rightarrow> KeyMaterial \<Rightarrow> bytes" where
  "cipher_key index len material = subslice (index * 128) (index * 128 + len) material"

definition hmac_key :: "nat \<Rightarrow> nat \<Rightarrow> KeyMaterial \<Rightarrow> bytes" where
  "hmac_key index len material = subslice (index * 128 + 64) (index * 128 + 64 + len) material"

definition implicit_iv :: "nat \<Rightarrow> KeyMaterial \<Rightarrow> bytes" where
  "implicit_iv index material = subslice (index * 128 + 64) (index * 128 + 72) material"

subsection \<open>Chaining\<close>

definition CBC_BLOCK :: nat where "CBC_BLOCK = 16"

function cbc_encrypt :: "(bytes \<Rightarrow> bytes) \<Rightarrow> bytes \<Rightarrow> bytes \<Rightarrow> bytes" where
  "cbc_encrypt encrypt_block previous buffer =
     (if length buffer < CBC_BLOCK then buffer
      else let block = encrypt_block (map2 (XOR) (take CBC_BLOCK buffer) previous)
           in block @ cbc_encrypt encrypt_block block (drop CBC_BLOCK buffer))"
  by pat_completeness auto
termination by (relation "measure (\<lambda>(_, _, buffer). length buffer)") (auto simp: CBC_BLOCK_def)

function cbc_decrypt :: "(bytes \<Rightarrow> bytes) \<Rightarrow> bytes \<Rightarrow> bytes \<Rightarrow> bytes" where
  "cbc_decrypt decrypt_block previous buffer =
     (if length buffer < CBC_BLOCK then buffer
      else let ciphertext = take CBC_BLOCK buffer
           in map2 (XOR) (decrypt_block ciphertext) previous
              @ cbc_decrypt decrypt_block ciphertext (drop CBC_BLOCK buffer))"
  by pat_completeness auto
termination by (relation "measure (\<lambda>(_, _, buffer). length buffer)") (auto simp: CBC_BLOCK_def)

declare cbc_encrypt.simps [simp del] cbc_decrypt.simps [simp del]

subsection \<open>Protection\<close>

datatype data_error =
    WrongKeyLength | WrongCipher DataCipher | KeysExhausted | SealFailed | EmptyData | NotData u8
  | TruncatedData | NotAuthentic | BadPadding

text \<open>A sealer is its cipher and its key, and so are a block cipher and a packet MAC.\<close>

datatype Protection = Aead DataCipher bytes bytes | Cbc DataCipher bytes Digest bytes

definition sealer_new :: "DataCipher \<Rightarrow> bytes \<Rightarrow> data_error + (DataCipher \<times> bytes)" where
  "sealer_new cipher key =
     (if \<not> is_aead cipher then Inl (WrongCipher cipher)
      else if length key \<noteq> key_len cipher then Inl WrongKeyLength else Inr (cipher, key))"

definition cbc_new :: "DataCipher \<Rightarrow> bytes \<Rightarrow> data_error + (DataCipher \<times> bytes)" where
  "cbc_new cipher key =
     (if is_aead cipher then Inl (WrongCipher cipher)
      else if length key \<noteq> key_len cipher then Inl WrongKeyLength else Inr (cipher, key))"

definition protection_new :: "KeyMaterial \<Rightarrow> nat \<Rightarrow> DataCipher \<Rightarrow> Digest \<Rightarrow> data_error + Protection" where
  "protection_new material index cipher digest =
     (let key = cipher_key index (key_len cipher) material
      in if is_aead cipher
         then (case sealer_new cipher key of
                 Inl e \<Rightarrow> Inl e
               | Inr (c, k) \<Rightarrow> Inr (Aead c k (implicit_iv index material)))
         else (case cbc_new cipher key of
                 Inl e \<Rightarrow> Inl e
               | Inr (c, k) \<Rightarrow> Inr (Cbc c k digest (hmac_key index (output_len digest) material))))"

subsection \<open>The window\<close>

record DataWindow =
  dw_highest :: u32
  dw_seen :: u64

definition window_new :: DataWindow where
  "window_new = \<lparr>dw_highest = 0, dw_seen = 0\<rparr>"

definition data_accept :: "DataWindow \<Rightarrow> u32 \<Rightarrow> bool \<times> DataWindow" where
  "data_accept w packet_id =
     (if packet_id = 0 then (False, w)
      else if packet_id > dw_highest w
      then (let shift = unat (packet_id - dw_highest w);
                seen = (if shift \<ge> 64 then 0 else push_bit shift (dw_seen w)) OR 1
            in (True, \<lparr>dw_highest = packet_id, dw_seen = seen\<rparr>))
      else let behind = unat (dw_highest w - packet_id)
           in if behind \<ge> 64 then (False, w)
              else let mask' = push_bit behind 1
                   in if dw_seen w AND mask' \<noteq> 0 then (False, w)
                      else (True, w\<lparr>dw_seen := dw_seen w OR mask'\<rparr>))"

subsection \<open>The channel\<close>

record DataChannel =
  dc_seal :: Protection
  dc_open :: Protection
  dc_peer_id :: "u32 option"
  dc_key_id :: u8
  dc_next_packet_id :: u32
  dc_replay :: DataWindow

definition data_new :: "KeyMaterial \<Rightarrow> DataCipher \<Rightarrow> Digest \<Rightarrow> u32 option \<Rightarrow> u8 \<Rightarrow> data_error + DataChannel" where
  "data_new material cipher digest peer_id key_id =
     (case protection_new material 0 cipher digest of
        Inl e \<Rightarrow> Inl e
      | Inr seal' \<Rightarrow>
          (case protection_new material 1 cipher digest of
             Inl e \<Rightarrow> Inl e
           | Inr open' \<Rightarrow>
               Inr \<lparr>dc_seal = seal', dc_open = open', dc_peer_id = peer_id, dc_key_id = key_id,
                    dc_next_packet_id = 1, dc_replay = window_new\<rparr>))"

definition data_nonce :: "bytes \<Rightarrow> u32 \<Rightarrow> bytes" where
  "data_nonce implicit packet_id = be32 packet_id @ implicit"

definition data_header :: "u32 option \<Rightarrow> u8 \<Rightarrow> bytes" where
  "data_header peer key_id =
     (case peer of
        Some peer_id \<Rightarrow> be32 (push_bit 24 (ucast (push_bit 3 P_DATA_V2 OR key_id)) OR (peer_id AND 0xffffff))
      | None \<Rightarrow> [push_bit 3 P_DATA_V1 OR key_id])"

text \<open>The body of a sealed packet: everything after the header, under a packet id and an initialisation vector.\<close>

definition cbc_body :: "data_lib \<Rightarrow> DataCipher \<Rightarrow> bytes \<Rightarrow> bytes \<Rightarrow> u32 \<Rightarrow> bytes \<Rightarrow> bytes" where
  "cbc_body V cipher key iv packet_id packet =
     (let plain_len = 4 + length packet;
          padding = CBC_BLOCK - plain_len mod CBC_BLOCK
      in cbc_encrypt (dl_encrypt V cipher key) iv (be32 packet_id @ packet @ replicate padding (of_nat padding)))"

definition protect_packet :: "data_lib \<Rightarrow> Protection \<Rightarrow> bytes \<Rightarrow> bytes \<Rightarrow> u32 \<Rightarrow> bytes \<Rightarrow> data_error + bytes" where
  "protect_packet V protection header iv packet_id packet =
     (case protection of
        Aead cipher key implicit \<Rightarrow>
          (let framed = header @ be32 packet_id
           in case dl_seal V cipher key (data_nonce implicit packet_id) framed packet of
                None \<Rightarrow> Inl SealFailed
              | Some (body, tag) \<Rightarrow> Inr (framed @ tag @ body))
      | Cbc cipher key digest mac_key \<Rightarrow>
          (let body = cbc_body V cipher key iv packet_id packet
           in Inr (header @ ov_hmac V digest mac_key [iv, body] @ iv @ body)))"

definition data_seal :: "data_lib \<Rightarrow> bytes \<Rightarrow> bytes \<Rightarrow> DataChannel \<Rightarrow> DataChannel \<times> (data_error + bytes)" where
  "data_seal V iv packet ch =
     (let packet_id = dc_next_packet_id ch
      in if packet_id = - 1 then (ch, Inl KeysExhausted)
         else (ch\<lparr>dc_next_packet_id := packet_id + 1\<rparr>,
               protect_packet V (dc_seal ch) (data_header (dc_peer_id ch) (dc_key_id ch)) iv packet_id packet))"

text \<open>
  Unwrapping, up to the window. Every slice, split and \<^verbatim>\<open>expect\<close> of the source is one that can panic here too:
  a range past the end, a split past the end, a number read from fewer than four bytes.
\<close>

definition and_then :: "'a outcome \<Rightarrow> ('a \<Rightarrow> 'b outcome) \<Rightarrow> 'b outcome" where
  "and_then r f = (case r of Panic \<Rightarrow> Panic | Ret x \<Rightarrow> f x)"

definition slice_of :: "nat \<Rightarrow> nat \<Rightarrow> bytes \<Rightarrow> bytes outcome" where
  "slice_of a b xs = (if a \<le> b \<and> b \<le> length xs then Ret (subslice a b xs) else Panic)"

definition split_at :: "nat \<Rightarrow> bytes \<Rightarrow> (bytes \<times> bytes) outcome" where
  "split_at n xs = (if n \<le> length xs then Ret (take n xs, drop n xs) else Panic)"

definition read_u32 :: "bytes \<Rightarrow> u32 outcome" where
  "read_u32 bs = and_then (slice_of 0 4 bs) (\<lambda>word. Ret (of_be32 word))"

definition unprotect_aead :: "data_lib \<Rightarrow> DataCipher \<Rightarrow> bytes \<Rightarrow> bytes \<Rightarrow> nat \<Rightarrow> bytes \<Rightarrow> (data_error + (u32 \<times> bytes)) outcome" where
  "unprotect_aead V cipher key implicit opcode_len packet =
     (let header_len = opcode_len + 4
      in if length packet < header_len + TAG_LEN then Ret (Inl TruncatedData)
         else and_then (slice_of opcode_len header_len packet) (\<lambda>word.
              and_then (read_u32 word) (\<lambda>packet_id.
              and_then (split_at header_len packet) (\<lambda>(header, rest).
              and_then (split_at TAG_LEN rest) (\<lambda>(tag, ciphertext).
                Ret (case dl_open V cipher key (data_nonce implicit packet_id) header tag ciphertext of
                       None \<Rightarrow> Inl NotAuthentic
                     | Some body \<Rightarrow> Inr (packet_id, body)))))))"

definition unpad :: "bytes \<Rightarrow> (data_error + (u32 \<times> bytes)) outcome" where
  "unpad body =
     (if body = [] then Panic
      else let padding = unat (last body)
           in if padding = 0 \<or> padding > CBC_BLOCK \<or> length body < 4 + padding then Ret (Inl BadPadding)
              else if padding > length body then Panic
              else and_then (slice_of (length body - padding) (length body) body) (\<lambda>tail.
                if list_ex (\<lambda>b. unat b \<noteq> padding) tail then Ret (Inl BadPadding)
                else let body = take (length body - padding) body
                     in and_then (read_u32 body) (\<lambda>packet_id.
                        and_then (split_at 4 body) (\<lambda>(_, body). Ret (Inr (packet_id, body))))))"

definition unprotect_cbc :: "data_lib \<Rightarrow> DataCipher \<Rightarrow> bytes \<Rightarrow> Digest \<Rightarrow> bytes \<Rightarrow> bytes \<Rightarrow> (data_error + (u32 \<times> bytes)) outcome" where
  "unprotect_cbc V cipher key digest mac_key rest =
     (let tag_len = output_len digest;
          ciphertext_len = length rest - (tag_len + CBC_BLOCK)
      in if ciphertext_len < CBC_BLOCK \<or> ciphertext_len mod CBC_BLOCK \<noteq> 0 then Ret (Inl TruncatedData)
         else and_then (split_at tag_len rest) (\<lambda>(tag, rest).
              and_then (split_at CBC_BLOCK rest) (\<lambda>(iv, ciphertext).
                if ov_hmac V digest mac_key [iv, ciphertext] \<noteq> tag then Ret (Inl NotAuthentic)
                else if length iv \<noteq> CBC_BLOCK then Panic
                else unpad (cbc_decrypt (dl_decrypt V cipher key) iv ciphertext))))"

definition unprotect :: "data_lib \<Rightarrow> Protection \<Rightarrow> bytes \<Rightarrow> (data_error + (u32 \<times> bytes)) outcome" where
  "unprotect V protection packet =
     (if packet = [] then Ret (Inl EmptyData)
      else let opcode = drop_bit 3 (packet ! 0)
           in if opcode \<noteq> P_DATA_V2 \<and> opcode \<noteq> P_DATA_V1 then Ret (Inl (NotData opcode))
              else let opcode_len = (if opcode = P_DATA_V2 then 4 else 1)
                   in case protection of
                        Aead cipher key implicit \<Rightarrow> unprotect_aead V cipher key implicit opcode_len packet
                      | Cbc cipher key digest mac_key \<Rightarrow>
                          and_then (slice_of opcode_len (length packet) packet) (unprotect_cbc V cipher key digest mac_key))"

definition data_open :: "data_lib \<Rightarrow> bytes \<Rightarrow> DataChannel \<Rightarrow> (DataChannel \<times> (data_error + bytes option)) outcome" where
  "data_open V packet ch =
     (case unprotect V (dc_open ch) packet of
        Panic \<Rightarrow> Panic
      | Ret (Inl e) \<Rightarrow> Ret (ch, Inl e)
      | Ret (Inr (packet_id, body)) \<Rightarrow>
          (let (accepted, window) = data_accept (dc_replay ch) packet_id;
               ch = ch\<lparr>dc_replay := window\<rparr>
           in Ret (ch, Inr (if \<not> accepted \<or> body = DATA_PING then None else Some body))))"

definition keepalive :: "data_lib \<Rightarrow> bytes \<Rightarrow> DataChannel \<Rightarrow> DataChannel \<times> (data_error + bytes)" where
  "keepalive V iv ch = data_seal V iv DATA_PING ch"

subsection \<open>Derived keys\<close>

lemma p_hash_returns:
  assumes "\<And>ps. length (mac secret ps) = n" "0 < n"
  shows "\<exists>out. p_hash_loop mac secret seed len acc a = Some out \<and> length out = len"
proof (induction "len - length acc" arbitrary: acc a rule: less_induct)
  case less
  show ?case
  proof (cases "length acc < len")
    case True
    let ?acc = "acc @ mac secret [a, seed]"
    have "len - length ?acc < len - length acc" using True assms by simp
    from less [OF this, of "mac secret [a]"] show ?thesis
      using True by (simp add: p_hash_loop.simps [of mac secret seed len acc a])
  next
    case False
    then show ?thesis by (simp add: p_hash_loop.simps [of mac secret seed len acc a])
  qed
qed

lemma output_len_pos: "0 < output_len d"
  by (cases d) simp_all

lemma tls1_prf_returns:
  assumes "hmac_sized V"
  shows "\<exists>out. tls1_prf V secret seed len = Some out \<and> length out = len"
proof -
  have "\<exists>out. p_hash (ov_hmac V d) s seed len = Some out \<and> length out = len" for d s
    unfolding p_hash_def using assms output_len_pos [of d] by (intro p_hash_returns) (auto simp: hmac_sized_def)
  from this [of Md5 "take ((length secret + 1) div 2) secret"]
    this [of Sha1 "drop (length secret - (length secret + 1) div 2) secret"]
  show ?thesis by (auto simp: tls1_prf_def Let_def)
qed

lemma derive_returns:
  assumes "hmac_sized V"
  shows "\<exists>material. derive V client r1 r2 c s = Some material \<and> length material = 256"
proof -
  obtain master where "openvpn_prf V (ks_pre_master client) ''OpenVPN master secret'' (ks_random1 client) r1 None 48 = Some master"
    using tls1_prf_returns [OF assms] unfolding openvpn_prf_def by blast
  then show ?thesis using tls1_prf_returns [OF assms] by (simp add: derive_def openvpn_prf_def)
qed

lemma key_len_le: "key_len c \<le> 64" "0 < key_len c"
  by (cases c; simp)+

lemma protection_always:
  assumes "length material = 256" "index < 2"
  shows "\<exists>p. protection_new material index cipher digest = Inr p"
proof -
  have "length (cipher_key index (key_len cipher) material) = key_len cipher"
    using assms key_len_le(1) [of cipher] by (simp add: cipher_key_def length_subslice)
  then show ?thesis by (auto simp: protection_new_def Let_def sealer_new_def cbc_new_def)
qed

text \<open>
  Key derivation returns. Over any HMAC with its digest's size, the chained derivation ends for every
  pair of random materials with 256 bytes, and from these the data channel of every cipher is installed
  without an error: no cipher gets a key of the wrong length.
\<close>

theorem derived_keys_install:
  assumes "hmac_sized V"
  shows "\<exists>material ch. derive V client r1 r2 c s = Some material \<and> data_new material cipher digest peer key_id = Inr ch
           \<and> dc_next_packet_id ch = 1 \<and> dc_key_id ch = key_id"
proof -
  obtain material where m: "derive V client r1 r2 c s = Some material" "length material = 256"
    using derive_returns [OF assms] by blast
  obtain p0 p1 where "protection_new material 0 cipher digest = Inr p0" "protection_new material 1 cipher digest = Inr p1"
    using protection_always [OF m(2)] by (metis one_less_numeral_iff semiring_norm(76) zero_less_numeral)
  then show ?thesis using m(1) by (simp add: data_new_def)
qed

subsection \<open>Chaining and padding are undone\<close>

lemma xor_twice: "length b = length p \<Longrightarrow> map2 (XOR) (map2 (XOR) b p) p = (b :: bytes)"
  by (induction b p rule: list_induct2) (simp_all add: xor.assoc)

text \<open>One block of either direction.\<close>

lemma cbc_block:
  assumes "16 \<le> length buffer"
  shows "cbc_encrypt enc iv buffer =
           enc (map2 (XOR) (take 16 buffer) iv) @ cbc_encrypt enc (enc (map2 (XOR) (take 16 buffer) iv)) (drop 16 buffer)"
    and "cbc_decrypt dec iv buffer =
           map2 (XOR) (dec (take 16 buffer)) iv @ cbc_decrypt dec (take 16 buffer) (drop 16 buffer)"
  using assms by (simp_all add: cbc_encrypt.simps [of enc iv buffer] cbc_decrypt.simps [of dec iv buffer] CBC_BLOCK_def Let_def)

lemma cbc_short:
  assumes "length buffer < 16"
  shows "cbc_encrypt enc iv buffer = buffer" "cbc_decrypt dec iv buffer = buffer"
  using assms by (simp_all add: cbc_encrypt.simps [of enc iv buffer] cbc_decrypt.simps [of dec iv buffer] CBC_BLOCK_def)

lemma cbc_undone:
  assumes "\<And>b. length b = 16 \<Longrightarrow> length (enc b) = 16 \<and> dec (enc b) = b" "length iv = 16"
  shows "length (cbc_encrypt enc iv buffer) = length buffer \<and> cbc_decrypt dec iv (cbc_encrypt enc iv buffer) = buffer"
  using assms(2)
proof (induction buffer arbitrary: iv rule: measure_induct_rule [of length])
  case (less buffer)
  show ?case
  proof (cases "length buffer < 16")
    case True
    then show ?thesis by (simp add: cbc_short)
  next
    case False
    let ?x = "map2 (XOR) (take 16 buffer) iv" and ?rest = "drop 16 buffer"
    have x: "length ?x = 16" using False less.prems by simp
    then have block: "length (enc ?x) = 16" "dec (enc ?x) = ?x" using assms(1) by blast+
    have rest: "length (cbc_encrypt enc (enc ?x) ?rest) = length ?rest"
      "cbc_decrypt dec (enc ?x) (cbc_encrypt enc (enc ?x) ?rest) = ?rest"
      using less.IH [OF _ block(1), of ?rest] False by simp_all
    have "map2 (XOR) ?x iv = take 16 buffer" using False less.prems by (intro xor_twice) simp
    then show ?thesis using False rest block
      by (simp add: cbc_block(1) [of buffer] cbc_block(2))
  qed
qed

subsection \<open>A peer with the mirrored keys\<close>

lemma be32_first: "be32 w ! 0 = ucast (drop_bit 24 w)"
proof -
  have four: "(4 :: nat) = Suc (Suc (Suc (Suc 0)))" by simp
  have "be32 w ! 0 = of_nat (unat w div 256 div 256 div 256)" unfolding be32_def four by simp
  also have "unat w div 256 div 256 div 256 = unat w div (256 * 256 * 256)" by (simp only: div_mult2_eq)
  also have "\<dots> = drop_bit 24 (unat w)" by (simp add: drop_bit_eq_div)
  also have "drop_bit 24 (unat w) = unat (drop_bit 24 w)" by (rule unat_drop_bit_eq [symmetric])
  finally show ?thesis by simp
qed

lemma key_bits:
  assumes "(key_id :: u8) < 8" "opcode = P_DATA_V1 \<or> opcode = P_DATA_V2"
  shows "drop_bit 3 (push_bit 3 opcode OR key_id) = opcode"
proof -
  have "unat key_id < 8" using assms(1) by (simp add: word_less_nat_alt)
  then have "drop_bit 3 (unat key_id) = 0" by (simp add: drop_bit_eq_div)
  then have k: "drop_bit 3 key_id = 0" by (simp only: word_unat_eq_iff unat_drop_bit_eq unat_0)
  have "drop_bit 3 (push_bit 3 opcode) = opcode" using assms(2) by (auto simp: opcode_defs)
  then show ?thesis by (simp add: drop_bit_or k)
qed

lemma data_header_shape:
  assumes "key_id < 8"
  shows "data_header peer key_id \<noteq> []"
    and "drop_bit 3 (data_header peer key_id ! 0) = (if peer = None then P_DATA_V1 else P_DATA_V2)"
    and "length (data_header peer key_id) = (if peer = None then 1 else 4)"
proof -
  have m: "(0xffffff :: u32) = mask 24" by (simp add: mask_eq_exp_minus_1)
  have "ucast (drop_bit 24 (push_bit 24 (ucast b) OR (p AND 0xffffff))) = b" for b :: u8 and p :: u32
    unfolding m by (rule bit_word_eqI) (auto simp: bit_simps)
  then have first: "data_header peer key_id ! 0 = push_bit 3 (if peer = None then P_DATA_V1 else P_DATA_V2) OR key_id"
    by (auto simp: data_header_def be32_first split: option.split)
  show "drop_bit 3 (data_header peer key_id ! 0) = (if peer = None then P_DATA_V1 else P_DATA_V2)"
    unfolding first using assms by (intro key_bits) simp_all
  show "length (data_header peer key_id) = (if peer = None then 1 else 4)"
    by (auto simp: data_header_def split: option.split)
  then show "data_header peer key_id \<noteq> []" by (auto split: if_splits)
qed

text \<open>What one side protects the other side unprotects, under every cipher.\<close>

definition lib_ok :: "data_lib \<Rightarrow> bool" where
  "lib_ok V \<longleftrightarrow> hmac_sized V \<and> aead_undone V \<and> blocks_undone V"

lemma unprotect_header:
  assumes "key_id < 8"
  shows "unprotect V protection (data_header peer key_id @ rest) =
    (case protection of
       Aead cipher key implicit \<Rightarrow>
         unprotect_aead V cipher key implicit (length (data_header peer key_id)) (data_header peer key_id @ rest)
     | Cbc cipher key digest mac_key \<Rightarrow> unprotect_cbc V cipher key digest mac_key rest)"
proof -
  note h = data_header_shape [OF assms, of peer]
  have first: "(data_header peer key_id @ rest) ! 0 = data_header peer key_id ! 0" using h(1) by (simp add: nth_append)
  have neq: "P_DATA_V1 \<noteq> P_DATA_V2" by (simp add: opcode_defs)
  have len: "(if (if peer = None then P_DATA_V1 else P_DATA_V2) = P_DATA_V2 then 4 else 1) = length (data_header peer key_id)"
    using h(3) neq by simp
  show ?thesis unfolding unprotect_def Let_def first h(2) len using h(1)
    by (auto simp: and_then_def slice_of_def subslice_def split: Protection.split)
qed

lemmas checked_slices = and_then_def slice_of_def split_at_def read_u32_def

lemma unpad_padded:
  assumes "0 < padding" "padding \<le> 16"
  shows "unpad (be32 packet_id @ packet @ replicate padding (of_nat padding)) = Ret (Inr (packet_id, packet))"
proof -
  have "unat (of_nat padding :: u8) = padding" using assms by (simp add: unat_of_nat)
  then show ?thesis using assms by (simp add: unpad_def Let_def CBC_BLOCK_def checked_slices subslice_def list_ex_iff)
qed

lemma padded_aligned: "(m + (16 - m mod 16)) mod 16 = (0 :: nat)"
proof -
  obtain q r where m: "m = 16 * q + r" "r < 16" by (metis mod_less_divisor mult_div_mod_eq zero_less_numeral)
  then have "m + (16 - m mod 16) = 16 * (q + 1)" by simp
  then show ?thesis by simp
qed

lemma cbc_body_undone:
  assumes "lib_ok V" "length iv = 16"
  shows "unpad (cbc_decrypt (dl_decrypt V cipher key) iv (cbc_body V cipher key iv packet_id packet)) = Ret (Inr (packet_id, packet))"
    and "16 \<le> length (cbc_body V cipher key iv packet_id packet)" "length (cbc_body V cipher key iv packet_id packet) mod 16 = 0"
proof -
  define padding where "padding = 16 - (4 + length packet) mod 16"
  define plain where "plain = be32 packet_id @ packet @ replicate padding (of_nat padding)"
  let ?body = "cbc_body V cipher key iv packet_id packet"
  have padding: "0 < padding" "padding \<le> 16" by (simp_all add: padding_def)
  have body: "?body = cbc_encrypt (dl_encrypt V cipher key) iv plain"
    by (simp add: cbc_body_def Let_def CBC_BLOCK_def padding_def plain_def)
  have "\<And>b. length b = 16 \<Longrightarrow> length (dl_encrypt V cipher key b) = 16 \<and> dl_decrypt V cipher key (dl_encrypt V cipher key b) = b"
    using assms(1) by (simp add: lib_ok_def blocks_undone_def)
  from cbc_undone [OF this assms(2), of plain]
  have cbc: "length ?body = length plain" "cbc_decrypt (dl_decrypt V cipher key) iv ?body = plain" by (simp_all add: body)
  have len: "length plain = 4 + length packet + padding" by (simp add: plain_def)
  show aligned: "length ?body mod 16 = 0" unfolding cbc(1) len padding_def by (rule padded_aligned)
  have "0 < length ?body" using padding by (simp add: len cbc(1))
  then show "16 \<le> length ?body" using aligned by (metis mod_less not_le less_numeral_extra(3))
  show "unpad (cbc_decrypt (dl_decrypt V cipher key) iv ?body) = Ret (Inr (packet_id, packet))"
    unfolding cbc(2) plain_def by (rule unpad_padded [OF padding])
qed

lemma unprotect_protected:
  assumes "lib_ok V" "key_id < 8" "length iv = 16"
    and "protect_packet V protection (data_header peer key_id) iv packet_id packet = Inr framed"
  shows "unprotect V protection framed = Ret (Inr (packet_id, packet))"
proof (cases protection)
  case (Aead cipher key implicit)
  let ?framed = "data_header peer key_id @ be32 packet_id"
  obtain body tag where s: "dl_seal V cipher key (data_nonce implicit packet_id) ?framed packet = Some (body, tag)"
    "framed = ?framed @ tag @ body"
    using assms(4) by (auto simp: protect_packet_def Aead Let_def split: option.splits)
  have o: "length tag = 16" "dl_open V cipher key (data_nonce implicit packet_id) ?framed tag body = Some packet"
    using assms(1) s(1) unfolding lib_ok_def aead_undone_def by blast+
  have "unprotect_aead V cipher key implicit (length (data_header peer key_id)) framed = Ret (Inr (packet_id, packet))"
    using o by (simp add: unprotect_aead_def s(2) TAG_LEN_def Let_def checked_slices subslice_def)
  then show ?thesis using unprotect_header [OF assms(2), of V protection peer "be32 packet_id @ tag @ body"]
    by (simp add: s(2) Aead)
next
  case (Cbc cipher key digest mac_key)
  define body where "body = cbc_body V cipher key iv packet_id packet"
  let ?tag = "ov_hmac V digest mac_key [iv, body]"
  have framed: "framed = data_header peer key_id @ ?tag @ iv @ body"
    using assms(4) by (simp add: protect_packet_def Cbc Let_def body_def)
  have tag: "length ?tag = output_len digest" using assms(1) by (simp add: lib_ok_def hmac_sized_def)
  note cbc = cbc_body_undone [OF assms(1,3), of cipher key packet_id packet, folded body_def]
  have "unprotect_cbc V cipher key digest mac_key (?tag @ iv @ body) = Ret (Inr (packet_id, packet))"
    using tag assms(3) cbc by (simp add: unprotect_cbc_def Let_def CBC_BLOCK_def and_then_def split_at_def)
  then show ?thesis unfolding framed unprotect_header [OF assms(2)] Cbc by simp
qed

subsection \<open>The window admits a packet id once\<close>

definition data_would :: "DataWindow \<Rightarrow> u32 \<Rightarrow> bool" where
  "data_would w packet_id \<longleftrightarrow>
     packet_id \<noteq> 0 \<and>
     (dw_highest w < packet_id \<or> unat (dw_highest w - packet_id) < 64 \<and> \<not> bit (dw_seen w) (unat (dw_highest w - packet_id)))"

lemmas seen_mask = push_bit_of_1 and_exp_eq_0_iff_not_bit

lemma data_accept_verdict: "fst (data_accept w k) = data_would w k"
  by (auto simp: data_accept_def data_would_def Let_def seen_mask not_less)

lemma below_difference:
  assumes "(a :: u32) \<le> b" "b \<le> c"
  shows "unat (c - a) = unat (c - b) + unat (b - a)"
  using assms by (simp add: unat_sub word_le_nat_alt)

lemma data_accept_above:
  assumes "dw_highest w < k"
  shows "data_would (snd (data_accept w k)) j \<longleftrightarrow>
         j \<noteq> 0 \<and> (k < j \<or> j \<noteq> k \<and> unat (k - j) < 64 \<and> (j \<le> dw_highest w \<longrightarrow> data_would w j))"
proof -
  let ?h = "dw_highest w" and ?shift = "unat (k - dw_highest w)"
  have k0: "k \<noteq> 0" using assms by auto
  have snd: "snd (data_accept w k) = \<lparr>dw_highest = k, dw_seen = (if ?shift \<ge> 64 then 0 else push_bit ?shift (dw_seen w)) OR 1\<rparr>"
    using assms k0 by (simp add: data_accept_def Let_def)
  have shift0: "0 < ?shift" using assms by (simp add: unat_gt_0)
  show ?thesis
  proof (cases "k < j")
    case True
    then show ?thesis by (auto simp: snd data_would_def)
  next
    case False
    then have jk: "j \<le> k" by simp
    have bit: "bit ((if ?shift \<ge> 64 then 0 else push_bit ?shift (dw_seen w)) OR 1) n \<longleftrightarrow>
        n = 0 \<or> ?shift \<le> n \<and> bit (dw_seen w) (n - ?shift)" if "n < 64" for n
      using that by (auto simp: bit_simps)
    show ?thesis
    proof (cases "j \<le> ?h")
      case True
      have d: "unat (k - j) = ?shift + unat (?h - j)" by (rule below_difference [OF True]) (use assms in simp)
      then have "j \<noteq> k" using shift0 by auto
      then show ?thesis using False True d shift0 by (auto simp: snd data_would_def bit_simps not_less)
    next
      case hj: False
      have "?shift = unat (k - j) + unat (j - ?h)" using hj jk by (intro below_difference) simp_all
      moreover have "0 < unat (j - ?h)" using hj by (simp add: unat_gt_0)
      ultimately have lt: "\<not> ?shift \<le> unat (k - j)" by simp
      have zero: "unat (k - j) = 0 \<longleftrightarrow> j = k" by (auto simp: unat_eq_0)
      have j0: "j \<noteq> 0" using hj by auto
      show ?thesis using False hj lt zero j0 bit [of "unat (k - j)"] by (auto simp: snd data_would_def)
    qed
  qed
qed

lemma data_accept_within:
  assumes "\<not> dw_highest w < k" "data_would w k"
  shows "data_would (snd (data_accept w k)) j \<longleftrightarrow> data_would w j \<and> j \<noteq> k"
proof -
  let ?n = "unat (dw_highest w - k)"
  have n: "?n < 64" "\<not> bit (dw_seen w) ?n" "k \<noteq> 0" using assms by (auto simp: data_would_def)
  have snd: "snd (data_accept w k) = w\<lparr>dw_seen := dw_seen w OR push_bit ?n 1\<rparr>"
    using assms n by (simp add: data_accept_def Let_def seen_mask)
  have bit: "bit (dw_seen w OR push_bit ?n 1) m \<longleftrightarrow> bit (dw_seen w) m \<or> m = ?n" if "m < 64" for m
    using that n(1) by (auto simp: bit_simps)
  have "unat (dw_highest w - j) = ?n \<longleftrightarrow> dw_highest w - j = dw_highest w - k" by (simp only: word_unat_eq_iff)
  then have same: "unat (dw_highest w - j) = ?n \<longleftrightarrow> j = k" by (auto dest: diff_left_imp_eq)
  have "j \<noteq> k \<or> \<not> dw_highest w < j" using assms(1) by auto
  then show ?thesis using same bit by (auto simp: snd data_would_def)
qed

lemma data_accept_refused: "\<not> data_would w k \<Longrightarrow> snd (data_accept w k) = w"
  by (auto simp: data_accept_def data_would_def Let_def seen_mask not_less)

interpretation data_window: once_filter data_would data_accept "\<lambda>_. True"
proof unfold_locales
  fix w k
  show "fst (data_accept w k) = data_would w k" by (rule data_accept_verdict)
  show "\<not> data_would (snd (data_accept w k)) k"
    using data_accept_above [of w k k] data_accept_within [of w k k] data_accept_refused [of w k]
    by (cases "dw_highest w < k"; cases "data_would w k") auto
  fix j assume "\<not> data_would w j"
  then show "\<not> data_would (snd (data_accept w k)) j"
    using data_accept_above [of w k j] data_accept_within [of w k j] data_accept_refused [of w k]
    by (cases "dw_highest w < k"; cases "data_would w k") (auto simp: data_would_def not_less)
qed simp

subsection \<open>Runs of the two ends\<close>

text \<open>A sender's packets in order, each with its random vector, and what became of each.\<close>

fun seal_all :: "data_lib \<Rightarrow> (bytes \<times> bytes) list \<Rightarrow> DataChannel \<Rightarrow> DataChannel \<times> (data_error + bytes) list" where
  "seal_all V [] ch = (ch, [])"
| "seal_all V ((iv, packet) # rest) ch =
     (let (ch, result) = data_seal V iv packet ch; (ch, results) = seal_all V rest ch in (ch, result # results))"

text \<open>A receiver's datagrams in order, and the inner packets it hands on.\<close>

fun open_all :: "data_lib \<Rightarrow> bytes list \<Rightarrow> DataChannel \<Rightarrow> (DataChannel \<times> bytes list) outcome" where
  "open_all V [] ch = Ret (ch, [])"
| "open_all V (d # ds) ch =
     (case data_open V d ch of
        Panic \<Rightarrow> Panic
      | Ret (ch, result) \<Rightarrow>
          (case open_all V ds ch of
             Panic \<Rightarrow> Panic
           | Ret (ch, inner) \<Rightarrow> Ret (ch, (case result of Inr (Some packet) \<Rightarrow> [packet] | _ \<Rightarrow> []) @ inner)))"

lemma seal_all_frame:
  assumes "seal_all V items ch = (ch', results)" "i < length items" "results ! i = Inr framed"
  shows "unat (dc_next_packet_id ch) + i < 2 ^ 32 - 1
    \<and> protect_packet V (dc_seal ch) (data_header (dc_peer_id ch) (dc_key_id ch)) (fst (items ! i))
        (dc_next_packet_id ch + of_nat i) (snd (items ! i)) = Inr framed"
  using assms
proof (induction items arbitrary: ch ch' results i)
  case (Cons item items)
  obtain iv packet where item: "item = (iv, packet)" by (cases item)
  obtain ch1 result where s: "data_seal V iv packet ch = (ch1, result)" by force
  obtain ch2 rs where r: "seal_all V items ch1 = (ch2, rs)" by force
  have results: "results = result # rs" using Cons.prems(1) by (simp add: item s r)
  let ?next = "dc_next_packet_id ch"
  show ?case
  proof (cases "?next = - 1")
    case True
    have "result = Inl KeysExhausted" "ch1 = ch" using s True by (simp_all add: data_seal_def Let_def)
    then have i: "i \<noteq> 0" using Cons.prems(3) results by (cases i) auto
    have "unat (dc_next_packet_id ch1) + (i - 1) < 2 ^ 32 - 1"
      using Cons.IH [OF r, of "i - 1"] Cons.prems i by (simp add: results nth_Cons')
    moreover have "unat (- 1 :: u32) = 2 ^ 32 - 1" by (simp add: unsigned_minus_1_eq_mask mask_eq_exp_minus_1)
    ultimately show ?thesis using True \<open>ch1 = ch\<close> by simp
  next
    case False
    then have ch1: "ch1 = ch\<lparr>dc_next_packet_id := ?next + 1\<rparr>"
      and result: "result = protect_packet V (dc_seal ch) (data_header (dc_peer_id ch) (dc_key_id ch)) iv ?next packet"
      using s by (simp_all add: data_seal_def Let_def)
    have less: "unat ?next < 2 ^ 32 - 1"
      using False word_order.not_eq_extremum [of ?next] by (simp add: word_less_nat_alt unsigned_minus_1_eq_mask mask_eq_exp_minus_1)
    then have suc: "unat (?next + 1) = unat ?next + 1" by (simp add: unat_word_ariths)
    show ?thesis
    proof (cases i)
      case 0
      then show ?thesis using Cons.prems(3) result less by (simp add: results item)
    next
      case (Suc j)
      then show ?thesis using Cons.IH [OF r, of j] Cons.prems suc
        by (simp add: results item ch1 ac_simps)
    qed
  qed
qed simp

lemma length_seal_all: "seal_all V items ch = (ch', results) \<Longrightarrow> length results = length items"
  by (induction items arbitrary: ch results) (auto simp: Let_def split: prod.splits)

text \<open>
  What the sender had sealed or authenticated: the inputs of the AEAD cipher (nonce, associated data, packet)
  or of the HMAC (vector and ciphertext), for every packet it put on the wire.
\<close>

definition sealed_at :: "(data_error + bytes) list \<Rightarrow> nat set" where
  "sealed_at results = {i. i < length results \<and> \<not> isl (results ! i)}"

definition aead_inputs :: "DataChannel \<Rightarrow> bytes \<Rightarrow> (bytes \<times> bytes) list \<Rightarrow> (data_error + bytes) list \<Rightarrow> (bytes \<times> bytes \<times> bytes) set" where
  "aead_inputs ch implicit items results =
     (\<lambda>i. let packet_id = dc_next_packet_id ch + of_nat i
          in (data_nonce implicit packet_id, data_header (dc_peer_id ch) (dc_key_id ch) @ be32 packet_id, snd (items ! i)))
     ` sealed_at results"

definition mac_inputs :: "data_lib \<Rightarrow> DataChannel \<Rightarrow> DataCipher \<Rightarrow> bytes \<Rightarrow> (bytes \<times> bytes) list \<Rightarrow> (data_error + bytes) list \<Rightarrow> (bytes \<times> bytes) set" where
  "mac_inputs V ch cipher key items results =
     (\<lambda>i. (fst (items ! i), cbc_body V cipher key (fst (items ! i)) (dc_next_packet_id ch + of_nat i) (snd (items ! i))))
     ` sealed_at results"

text \<open>
  No forgery reaches the receiver: wherever in a datagram one looks for a tag, if the cipher opens what
  follows under it, or if it is the HMAC of what follows, then the sender sealed or authenticated that.
\<close>

definition aead_unforged :: "data_lib \<Rightarrow> DataCipher \<Rightarrow> bytes \<Rightarrow> (bytes \<times> bytes \<times> bytes) set \<Rightarrow> bytes \<Rightarrow> bool" where
  "aead_unforged V cipher key inputs d \<longleftrightarrow>
     (\<forall>at_byte nonce body.
        dl_open V cipher key nonce (take at_byte d) (take 16 (drop at_byte d)) (drop (at_byte + 16) d) = Some body \<longrightarrow>
        (nonce, take at_byte d, body) \<in> inputs)"

definition mac_unforged :: "data_lib \<Rightarrow> Digest \<Rightarrow> bytes \<Rightarrow> (bytes \<times> bytes) set \<Rightarrow> bytes \<Rightarrow> bool" where
  "mac_unforged V digest mac_key inputs d \<longleftrightarrow>
     (\<forall>at_byte. let n = output_len digest; iv = take 16 (drop (at_byte + n) d); body = drop (at_byte + n + 16) d
        in at_byte + n + 16 \<le> length d \<longrightarrow> ov_hmac V digest mac_key [iv, body] = take n (drop at_byte d) \<longrightarrow> (iv, body) \<in> inputs)"

definition unforged :: "data_lib \<Rightarrow> DataChannel \<Rightarrow> (bytes \<times> bytes) list \<Rightarrow> (data_error + bytes) list \<Rightarrow> bytes \<Rightarrow> bool" where
  "unforged V ch items results d \<longleftrightarrow>
     (case dc_seal ch of
        Aead cipher key implicit \<Rightarrow> aead_unforged V cipher key (aead_inputs ch implicit items results) d
      | Cbc cipher key digest mac_key \<Rightarrow> mac_unforged V digest mac_key (mac_inputs V ch cipher key items results) d)"

lemma unprotect_aead_authentic:
  assumes "aead_unforged V cipher key (aead_inputs ch implicit items results) d"
    and "unprotect_aead V cipher key implicit opcode_len d = Ret (Inr (packet_id, body))"
  shows "\<exists>i \<in> sealed_at results. packet_id = dc_next_packet_id ch + of_nat i \<and> body = snd (items ! i)"
proof -
  have "dl_open V cipher key (data_nonce implicit packet_id) (take (opcode_len + 4) d) (take 16 (drop (opcode_len + 4) d))
      (drop (opcode_len + 4 + 16) d) = Some body"
    using assms(2) by (auto simp: unprotect_aead_def Let_def checked_slices TAG_LEN_def add.commute split: if_splits option.splits)
  then have "(data_nonce implicit packet_id, take (opcode_len + 4) d, body) \<in> aead_inputs ch implicit items results"
    using assms(1) unfolding aead_unforged_def by blast
  then show ?thesis by (auto simp: aead_inputs_def Let_def data_nonce_def)
qed

lemma unprotect_cbc_authentic:
  assumes "lib_ok V" "\<forall>item \<in> set items. length (fst item) = 16" "length results = length items"
    and "mac_unforged V digest mac_key (mac_inputs V ch cipher key items results) d"
    and "opcode_len \<le> length d" "unprotect_cbc V cipher key digest mac_key (drop opcode_len d) = r" "\<forall>e. r \<noteq> Ret (Inl e)"
  shows "\<exists>i \<in> sealed_at results. r = Ret (Inr (dc_next_packet_id ch + of_nat i, snd (items ! i)))"
proof -
  let ?n = "output_len digest"
  let ?iv = "take 16 (drop (opcode_len + ?n) d)" and ?body = "drop (opcode_len + ?n + 16) d"
  have guard: "\<not> (length d - opcode_len - (?n + 16) < 16 \<or> (length d - opcode_len - (?n + 16)) mod 16 \<noteq> 0)"
    using assms(6,7) by (auto simp: unprotect_cbc_def Let_def CBC_BLOCK_def split: if_splits)
  then have len: "opcode_len + ?n + 16 \<le> length d" by linarith
  then have sizes: "?n \<le> length d - opcode_len" "16 \<le> length d - (opcode_len + ?n)" by linarith+
  have eq: "unprotect_cbc V cipher key digest mac_key (drop opcode_len d) =
      (if ov_hmac V digest mac_key [?iv, ?body] \<noteq> take ?n (drop opcode_len d) then Ret (Inl NotAuthentic)
       else unpad (cbc_decrypt (dl_decrypt V cipher key) ?iv ?body))"
    using guard len sizes by (simp add: unprotect_cbc_def Let_def CBC_BLOCK_def and_then_def split_at_def ac_simps)
  then have mac: "ov_hmac V digest mac_key [?iv, ?body] = take ?n (drop opcode_len d)"
    using assms(6,7) by (auto split: if_splits)
  then have "(?iv, ?body) \<in> mac_inputs V ch cipher key items results"
    using assms(4) len unfolding mac_unforged_def Let_def by blast
  then obtain i where i: "i \<in> sealed_at results" "?iv = fst (items ! i)"
    "?body = cbc_body V cipher key ?iv (dc_next_packet_id ch + of_nat i) (snd (items ! i))"
    by (auto simp: mac_inputs_def)
  then have "length ?iv = 16" using assms(2,3) by (auto simp: sealed_at_def)
  from cbc_body_undone(1) [OF assms(1) this, of cipher key "dc_next_packet_id ch + of_nat i" "snd (items ! i)"]
  have "unpad (cbc_decrypt (dl_decrypt V cipher key) ?iv ?body) = Ret (Inr (dc_next_packet_id ch + of_nat i, snd (items ! i)))"
    unfolding i(3) [symmetric] .
  then show ?thesis using eq mac assms(6) i(1) by auto
qed

text \<open>A datagram without a forgery is rejected, or is a packet of the sender.\<close>

lemma unprotect_authentic:
  assumes "lib_ok V" "\<forall>item \<in> set items. length (fst item) = 16" "length results = length items"
    and "unforged V ch items results d" "4 \<le> length d"
  shows "(\<exists>e. unprotect V (dc_seal ch) d = Ret (Inl e))
     \<or> (\<exists>i \<in> sealed_at results. unprotect V (dc_seal ch) d = Ret (Inr (dc_next_packet_id ch + of_nat i, snd (items ! i))))"
proof -
  define opcode_len where "opcode_len = (if drop_bit 3 (d ! 0) = P_DATA_V2 then 4 else 1 :: nat)"
  have len: "opcode_len \<le> length d" using assms(5) by (simp add: opcode_len_def)
  let ?inner = "case dc_seal ch of
      Aead cipher key implicit \<Rightarrow> unprotect_aead V cipher key implicit opcode_len d
    | Cbc cipher key digest mac_key \<Rightarrow> unprotect_cbc V cipher key digest mac_key (drop opcode_len d)"
  have eq: "unprotect V (dc_seal ch) d =
      (if drop_bit 3 (d ! 0) \<noteq> P_DATA_V2 \<and> drop_bit 3 (d ! 0) \<noteq> P_DATA_V1 then Ret (Inl (NotData (drop_bit 3 (d ! 0)))) else ?inner)"
    using assms(5) len unfolding unprotect_def Let_def opcode_len_def [symmetric]
    by (auto simp: and_then_def slice_of_def subslice_def split: Protection.split)
  consider "\<exists>e. unprotect V (dc_seal ch) d = Ret (Inl e)" | "unprotect V (dc_seal ch) d = ?inner"
    using eq by (cases "drop_bit 3 (d ! 0) \<noteq> P_DATA_V2 \<and> drop_bit 3 (d ! 0) \<noteq> P_DATA_V1") simp_all
  then show ?thesis
  proof cases
    case 2
    show ?thesis
    proof (cases "dc_seal ch")
      case (Aead cipher key implicit)
      have "unprotect_aead V cipher key implicit opcode_len d \<noteq> Panic"
        by (auto simp: unprotect_aead_def Let_def checked_slices TAG_LEN_def)
      then obtain r where r: "unprotect_aead V cipher key implicit opcode_len d = Ret r" by (cases "unprotect_aead V cipher key implicit opcode_len d") auto
      show ?thesis
      proof (cases r)
        case (Inr x)
        then show ?thesis
          using unprotect_aead_authentic [of V cipher key ch implicit items results d opcode_len "fst x" "snd x"] assms(4) r 2
          by (cases x) (auto simp: Aead unforged_def)
      qed (use 2 r in \<open>simp add: Aead\<close>)
    next
      case (Cbc cipher key digest mac_key)
      then show ?thesis
        using unprotect_cbc_authentic [OF assms(1-3) _ len refl, of digest mac_key ch cipher key] assms(4) 2
        by (cases "\<exists>e. unprotect_cbc V cipher key digest mac_key (drop opcode_len d) = Ret (Inl e)") (auto simp: unforged_def)
    qed
  qed simp
qed

lemma open_authentic:
  assumes "lib_ok V" "\<forall>item \<in> set items. length (fst item) = 16" "length results = length items"
    and "unforged V ch items results d" "4 \<le> length d" "dc_open r = dc_seal ch"
  shows "(\<exists>e. data_open V d r = Ret (r, Inl e))
     \<or> (\<exists>i \<in> sealed_at results. data_open V d r =
          Ret (r\<lparr>dc_replay := snd (data_accept (dc_replay r) (dc_next_packet_id ch + of_nat i))\<rparr>,
               Inr (if data_would (dc_replay r) (dc_next_packet_id ch + of_nat i) \<and> snd (items ! i) \<noteq> DATA_PING
                    then Some (snd (items ! i)) else None)))"
  using unprotect_authentic [OF assms(1-5)]
  by (auto simp: data_open_def assms(6) case_prod_unfold data_accept_verdict Let_def)

lemma open_frame_at:
  assumes "lib_ok V" "dc_key_id ch < 8" "\<forall>item \<in> set items. length (fst item) = 16"
    and "seal_all V items ch = (ch', results)" "dc_open r = dc_seal ch" "i < length items" "results ! i = Inr framed"
  shows "unat (dc_next_packet_id ch) + i < 2 ^ 32 - 1"
    and "data_open V framed r =
       Ret (r\<lparr>dc_replay := snd (data_accept (dc_replay r) (dc_next_packet_id ch + of_nat i))\<rparr>,
            Inr (if data_would (dc_replay r) (dc_next_packet_id ch + of_nat i) \<and> snd (items ! i) \<noteq> DATA_PING
                 then Some (snd (items ! i)) else None))"
proof -
  note f = seal_all_frame [OF assms(4,6,7)]
  then show "unat (dc_next_packet_id ch) + i < 2 ^ 32 - 1" by simp
  have "unprotect V (dc_open r) framed = Ret (Inr (dc_next_packet_id ch + of_nat i, snd (items ! i)))"
    unfolding assms(5) using f assms(3,6) by (intro unprotect_protected [OF assms(1,2)]) auto
  then show "data_open V framed r =
       Ret (r\<lparr>dc_replay := snd (data_accept (dc_replay r) (dc_next_packet_id ch + of_nat i))\<rparr>,
            Inr (if data_would (dc_replay r) (dc_next_packet_id ch + of_nat i) \<and> snd (items ! i) \<noteq> DATA_PING
                 then Some (snd (items ! i)) else None))"
    by (simp add: data_open_def case_prod_unfold data_accept_verdict Let_def)
qed

lemma id_inject:
  assumes "unat (n :: u32) + i < 2 ^ 32 - 1" "unat n + j < 2 ^ 32 - 1" "n + of_nat i = n + of_nat j"
  shows "i = j"
proof -
  have "of_nat i = (of_nat j :: u32)" using assms(3) by simp
  then show ?thesis using assms(1,2) by (simp add: word_unat_eq_iff unat_of_nat)
qed

lemma sealed_bound:
  assumes "seal_all V items ch = (ch', results)" "i \<in> sealed_at results"
  shows "i < length items" "unat (dc_next_packet_id ch) + i < 2 ^ 32 - 1"
proof -
  show i: "i < length items" using assms length_seal_all [OF assms(1)] by (simp add: sealed_at_def)
  obtain framed where "results ! i = Inr framed" using assms(2) by (cases "results ! i") (auto simp: sealed_at_def)
  then show "unat (dc_next_packet_id ch) + i < 2 ^ 32 - 1" using seal_all_frame [OF assms(1) i] by simp
qed

lemma open_all_once:
  assumes "lib_ok V" "\<forall>item \<in> set items. length (fst item) = 16" "seal_all V items ch = (ch', results)"
  shows "dc_open r = dc_seal ch \<Longrightarrow> list_all (\<lambda>d. 4 \<le> length d \<and> unforged V ch items results d) ds \<Longrightarrow>
    \<exists>r' is. open_all V ds r = Ret (r', map (\<lambda>i. snd (items ! i)) is) \<and> distinct is
      \<and> (\<forall>i \<in> set is. i \<in> sealed_at results \<and> data_would (dc_replay r) (dc_next_packet_id ch + of_nat i))"
proof (induction ds arbitrary: r)
  case Nil
  then show ?case by simp
next
  case (Cons d ds)
  let ?n = "dc_next_packet_id ch"
  consider e where "data_open V d r = Ret (r, Inl e)"
    | i where "i \<in> sealed_at results" "data_open V d r =
          Ret (r\<lparr>dc_replay := snd (data_accept (dc_replay r) (?n + of_nat i))\<rparr>,
               Inr (if data_would (dc_replay r) (?n + of_nat i) \<and> snd (items ! i) \<noteq> DATA_PING
                    then Some (snd (items ! i)) else None))"
    using open_authentic [OF assms(1,2) length_seal_all [OF assms(3)] _ _ Cons.prems(1), of d] Cons.prems(2) by auto
  then show ?case
  proof cases
    case 1
    then show ?thesis using Cons.IH [OF Cons.prems(1)] Cons.prems(2) by fastforce
  next
    case 2
    let ?r = "r\<lparr>dc_replay := snd (data_accept (dc_replay r) (?n + of_nat i))\<rparr>"
    obtain r' js where js: "open_all V ds ?r = Ret (r', map (\<lambda>i. snd (items ! i)) js)" "distinct js"
      and j: "\<forall>j \<in> set js. j \<in> sealed_at results \<and> data_would (dc_replay ?r) (?n + of_nat j)"
      using Cons.IH [of ?r] Cons.prems by auto
    have fresh: "data_would (dc_replay r) (?n + of_nat j)" "j \<noteq> i" if "j \<in> set js" for j
      using j that data_window.commit_keeps [of "dc_replay r" "?n + of_nat j" "?n + of_nat i"]
        data_window.commit_blocks [of "dc_replay r" "?n + of_nat i"] by auto
    define js' where "js' = (if data_would (dc_replay r) (?n + of_nat i) \<and> snd (items ! i) \<noteq> DATA_PING then i # js else js)"
    have "open_all V (d # ds) r = Ret (r', map (\<lambda>i. snd (items ! i)) js')" by (simp add: 2 js(1) js'_def)
    moreover have "distinct js'" using js(2) fresh(2) by (auto simp: js'_def)
    moreover have "\<forall>j \<in> set js'. j \<in> sealed_at results \<and> data_would (dc_replay r) (?n + of_nat j)"
      using j fresh(1) 2(1) by (auto simp: js'_def)
    ultimately show ?thesis by blast
  qed
qed

text \<open>
  C28. The data channel delivers each packet once and whole. Let the network lose, repeat, reorder, alter and
  invent datagrams of at least four bytes, but not forge: a tag it delivers that the AEAD cipher or the HMAC
  accepts belongs to input the sender gave it. Then a receiver that holds the mirrored key never panics, and
  the inner packets it hands on are packets the sender sealed, byte for byte, each at most once, under an
  AEAD cipher as under CBC with an HMAC. No two sealed packets share a packet id, so no nonce is used twice
  under a key.
\<close>

theorem data_channel_delivers_once:
  assumes "lib_ok V" "\<forall>item \<in> set items. length (fst item) = 16"
    and "seal_all V items ch = (ch', results)" "dc_open r = dc_seal ch"
    and "list_all (\<lambda>d. 4 \<le> length d \<and> unforged V ch items results d) ds"
  shows "\<exists>r' is. open_all V ds r = Ret (r', map (\<lambda>i. snd (items ! i)) is) \<and> distinct is
      \<and> list_all (\<lambda>i. i < length items \<and> \<not> isl (results ! i)) is
      \<and> inj_on (\<lambda>i. dc_next_packet_id ch + of_nat i) (sealed_at results)"
proof -
  have "inj_on (\<lambda>i. dc_next_packet_id ch + of_nat i) (sealed_at results)"
    using sealed_bound(2) [OF assms(3)] by (intro inj_onI) (blast intro: id_inject)
  moreover obtain r' "is" where "open_all V ds r = Ret (r', map (\<lambda>i. snd (items ! i)) is)" "distinct is"
    "\<forall>i \<in> set is. i \<in> sealed_at results"
    using open_all_once [OF assms] by blast
  ultimately show ?thesis
    using sealed_bound(1) [OF assms(3)] by (auto simp: list_all_iff sealed_at_def intro!: exI)
qed

lemma data_accept_highest: "dw_highest w < k \<Longrightarrow> dw_highest (snd (data_accept w k)) = k"
  by (auto simp: data_accept_def Let_def)

text \<open>
  C29. Nothing is lost by the channel itself. Packets that arrive in the order they were sealed, whichever of
  them the network dropped, are all handed on, in order and byte for byte, keepalives apart, to a receiver
  that holds the mirrored key and has seen no later packet.
\<close>

theorem data_channel_in_order:
  assumes "lib_ok V" "dc_key_id ch < 8" "\<forall>item \<in> set items. length (fst item) = 16"
    and "seal_all V items ch = (ch', results)" "dc_open r = dc_seal ch" "dw_highest (dc_replay r) < dc_next_packet_id ch"
    and "sorted_wrt (<) js" "\<forall>j \<in> set js. j < length items \<and> results ! j = Inr (framed j)"
  shows "\<exists>r'. open_all V (map framed js) r = Ret (r', filter (\<lambda>p. p \<noteq> DATA_PING) (map (\<lambda>j. snd (items ! j)) js))"
proof -
  let ?n = "dc_next_packet_id ch"
  have bound: "unat ?n + j < 2 ^ 32 - 1" if "j \<in> set js" for j using open_frame_at(1) [OF assms(1-5)] that assms(8) by blast
  have ids: "unat (?n + of_nat j) = unat ?n + j" if "j \<in> set js" for j
    using bound [OF that] by (simp add: unat_word_ariths unat_of_nat)
  have "dw_highest (dc_replay r) < ?n + of_nat j" if "j \<in> set js" for j
    using ids [OF that] assms(6) by (simp add: word_less_nat_alt)
  with assms(5,7,8) ids show ?thesis
  proof (induction js arbitrary: r)
    case (Cons j js)
    let ?r = "r\<lparr>dc_replay := snd (data_accept (dc_replay r) (?n + of_nat j))\<rparr>"
    have above: "dw_highest (dc_replay r) < ?n + of_nat j" using Cons.prems by simp
    then have would: "data_would (dc_replay r) (?n + of_nat j)" by (auto simp: data_would_def)
    have o: "data_open V (framed j) r = Ret (?r, Inr (if snd (items ! j) \<noteq> DATA_PING then Some (snd (items ! j)) else None))"
      using open_frame_at(2) [OF assms(1-4) Cons.prems(1), of j "framed j"] Cons.prems(3) would by simp
    have "dw_highest (dc_replay ?r) < ?n + of_nat i" if "i \<in> set js" for i
      using that Cons.prems(2,4) data_accept_highest [OF above] by (simp add: word_less_nat_alt)
    then obtain r' where "open_all V (map framed js) ?r = Ret (r', filter (\<lambda>p. p \<noteq> DATA_PING) (map (\<lambda>j. snd (items ! j)) js))"
      using Cons.IH [of ?r] Cons.prems by auto
    then show ?case using o by simp
  qed simp
qed

text \<open>A block cipher works on a block in place.\<close>

definition decrypt_sized :: "data_lib \<Rightarrow> bool" where
  "decrypt_sized V \<longleftrightarrow> (\<forall>c k b. length b = 16 \<longrightarrow> length (dl_decrypt V c k b) = 16)"

lemma cbc_decrypt_length:
  assumes "decrypt_sized V" "length iv = 16"
  shows "length (cbc_decrypt (dl_decrypt V cipher key) iv buffer) = length buffer"
  using assms(2)
proof (induction buffer arbitrary: iv rule: measure_induct_rule [of length])
  case (less buffer)
  show ?case
  proof (cases "length buffer < 16")
    case True
    then show ?thesis by (simp add: cbc_short)
  next
    case False
    then have "length (dl_decrypt V cipher key (take 16 buffer)) = 16" using assms(1) by (simp add: decrypt_sized_def)
    then show ?thesis using less False by (simp add: cbc_block(2))
  qed
qed

lemma unpad_returns: "body \<noteq> [] \<Longrightarrow> unpad body \<noteq> Panic"
  by (auto simp: unpad_def Let_def checked_slices split: if_splits)

lemma unprotect_cbc_returns:
  assumes "decrypt_sized V"
  shows "unprotect_cbc V cipher key digest mac_key rest \<noteq> Panic"
proof -
  let ?n = "output_len digest"
  let ?iv = "take 16 (drop ?n rest)" and ?body = "drop 16 (drop ?n rest)"
  show ?thesis
  proof (cases "length rest - (?n + 16) < 16 \<or> (length rest - (?n + 16)) mod 16 \<noteq> 0")
    case True
    then show ?thesis by (simp add: unprotect_cbc_def Let_def CBC_BLOCK_def)
  next
    case False
    then have len: "?n + 32 \<le> length rest" "16 \<le> length rest - ?n" by linarith+
    then have "length (cbc_decrypt (dl_decrypt V cipher key) ?iv ?body) = length ?body"
      by (intro cbc_decrypt_length [OF assms]) simp
    moreover have "0 < length ?body" using len(1) by simp
    ultimately have "cbc_decrypt (dl_decrypt V cipher key) ?iv ?body \<noteq> []" by (metis length_greater_0_conv)
    then show ?thesis
      using False len unpad_returns by (simp add: unprotect_cbc_def Let_def CBC_BLOCK_def and_then_def split_at_def)
  qed
qed

lemma unprotect_aead_returns: "unprotect_aead V cipher key implicit opcode_len packet \<noteq> Panic"
  by (auto simp: unprotect_aead_def Let_def checked_slices TAG_LEN_def)

text \<open>
  C32. Of all the slices, splits and expectations on the way of a datagram through the receiver one can fail:
  over any block cipher that works in place, a datagram panics the receiver exactly when the channel runs a CBC
  cipher and the datagram is shorter than the four bytes of header its first byte announces.
\<close>

theorem data_open_panics_iff:
  assumes "decrypt_sized V"
  shows "data_open V packet ch = Panic \<longleftrightarrow>
     (\<exists>cipher key digest mac_key. dc_open ch = Cbc cipher key digest mac_key)
     \<and> packet \<noteq> [] \<and> drop_bit 3 (packet ! 0) = P_DATA_V2 \<and> length packet < 4"
proof -
  have one: "1 \<le> length packet" if "packet \<noteq> []" using that by (cases packet) auto
  have "unprotect V protection packet = Panic \<longleftrightarrow>
     (\<exists>cipher key digest mac_key. protection = Cbc cipher key digest mac_key)
     \<and> packet \<noteq> [] \<and> drop_bit 3 (packet ! 0) = P_DATA_V2 \<and> length packet < 4" for protection
    using unprotect_aead_returns unprotect_cbc_returns [OF assms] one
    by (cases protection) (auto simp: unprotect_def Let_def and_then_def slice_of_def split: if_splits)
  moreover have "data_open V packet ch = Panic \<longleftrightarrow> unprotect V (dc_open ch) packet = Panic"
    by (auto simp: data_open_def Let_def split: outcome.splits sum.splits prod.splits)
  ultimately show ?thesis by simp
qed

subsection \<open>A small channel\<close>

definition sample_data_lib :: data_lib where
  "sample_data_lib =
     \<lparr>ov_hmac = (\<lambda>d k ps. replicate (output_len d) 0), ov_ctr = (\<lambda>k t p. p),
      dl_seal = (\<lambda>c k n a p. Some (p, replicate 16 0)), dl_open = (\<lambda>c k n a t b. if t = replicate 16 0 then Some b else None),
      dl_encrypt = (\<lambda>c k b. rev b), dl_decrypt = (\<lambda>c k b. rev b)\<rparr>"

lemma sample_data_lib_ok: "lib_ok sample_data_lib" "hmac_sized sample_data_lib" "decrypt_sized sample_data_lib"
  by (auto simp: decrypt_sized_def lib_ok_def hmac_sized_def aead_undone_def blocks_undone_def sample_data_lib_def)

definition sample_data_sender :: DataChannel where
  "sample_data_sender = \<lparr>dc_seal = Cbc Aes256Cbc [1] Sha1 [2], dc_open = Cbc Aes256Cbc [3] Sha1 [4], dc_peer_id = Some 7,
                    dc_key_id = 0, dc_next_packet_id = 1, dc_replay = window_new\<rparr>"

definition sample_data_receiver :: DataChannel where
  "sample_data_receiver = sample_data_sender\<lparr>dc_open := dc_seal sample_data_sender\<rparr>"

definition sample_iv :: bytes where
  "sample_iv = replicate 16 9"

definition sample_framed :: bytes where
  "sample_framed = projr (protect_packet sample_data_lib (dc_seal sample_data_sender) (data_header (Some 7) 0) sample_iv 1 [10, 20, 30])"

lemma sample_sealed:
  "snd (seal_all sample_data_lib [(sample_iv, [10, 20, 30])] sample_data_sender) = [Inr sample_framed]"
  by (simp add: data_seal_def sample_data_sender_def sample_framed_def protect_packet_def Let_def)

theorem derived_keys_install_witness:
  "\<exists>material ch. derive sample_data_lib \<lparr>ks_pre_master = [1], ks_random1 = [2], ks_random2 = [3]\<rparr> [4] [5] [6] [7] = Some material
     \<and> data_new material Aes256Gcm Sha256 None 0 = Inr ch \<and> dc_next_packet_id ch = 1 \<and> dc_key_id ch = 0"
  by (rule derived_keys_install [OF sample_data_lib_ok(2)])

lemma sample_run:
  obtains ch' where "seal_all sample_data_lib [(sample_iv, [10, 20, 30])] sample_data_sender = (ch', [Inr sample_framed])"
  using sample_sealed by (metis prod.collapse)

text \<open>A cipher whose tag names the nonce and the length of the header, a packet sealed with it, and the same with a broken tag.\<close>

definition sample_tag :: "bytes \<Rightarrow> bytes \<Rightarrow> bytes" where
  "sample_tag n a = n @ replicate 4 (of_nat (length a))"

definition sample_gcm_lib :: data_lib where
  "sample_gcm_lib =
     \<lparr>ov_hmac = (\<lambda>d k ps. replicate (output_len d) 0), ov_ctr = (\<lambda>k t p. p),
      dl_seal = (\<lambda>c k n a p. if length n = 12 then Some (p, sample_tag n a) else None),
      dl_open = (\<lambda>c k n a t b. if length n = 12 \<and> t = sample_tag n a then Some b else None),
      dl_encrypt = (\<lambda>c k b. b), dl_decrypt = (\<lambda>c k b. b)\<rparr>"

definition sample_gcm :: DataChannel where
  "sample_gcm = \<lparr>dc_seal = Aead Aes256Gcm [1] (replicate 8 9), dc_open = Aead Aes256Gcm [1] (replicate 8 9), dc_peer_id = None,
                 dc_key_id = 0, dc_next_packet_id = 1, dc_replay = window_new\<rparr>"

definition sample_gcm_frame :: "u8 \<Rightarrow> bytes" where
  "sample_gcm_frame b = [48, 0, 0, 0, 1] @ [0, 0, 0, 1, 9, 9, 9, 9, 9, 9, 9, 9] @ [5, 5, 5, b] @ [10, 20, 30]"

lemma sample_gcm_lib_ok: "lib_ok sample_gcm_lib"
  by (auto simp: lib_ok_def hmac_sized_def aead_undone_def blocks_undone_def sample_gcm_lib_def sample_tag_def split: if_splits)

lemma be32_one: "be32 1 = [0, 0, 0, 1]"
  by code_simp

lemma sample_gcm_header: "data_header None 0 = [48]"
  by (simp add: data_header_def P_DATA_V1_def)

lemma sample_gcm_sealed:
  obtains ch' where "seal_all sample_gcm_lib [(sample_iv, [10, 20, 30])] sample_gcm = (ch', [Inr (sample_gcm_frame 5)])"
proof -
  have "snd (seal_all sample_gcm_lib [(sample_iv, [10, 20, 30])] sample_gcm) = [Inr (sample_gcm_frame 5)]"
    by (simp add: data_seal_def sample_gcm_def protect_packet_def sample_gcm_header data_nonce_def be32_one sample_gcm_lib_def
        sample_tag_def sample_gcm_frame_def numeral_eq_Suc)
  then show thesis using that by (metis prod.collapse)
qed

lemma sample_gcm_unforged:
  "b \<noteq> 8 \<Longrightarrow> unforged sample_gcm_lib sample_gcm [(sample_iv, [10, 20, 30])] [Inr (sample_gcm_frame 5)] (sample_gcm_frame b)"
proof -
  assume b: "b \<noteq> 8"
  have inputs: "aead_inputs sample_gcm (replicate 8 9) [(sample_iv, [10, 20, 30])] [Inr (sample_gcm_frame 5)] =
      {([0, 0, 0, 1] @ replicate 8 9, [48, 0, 0, 0, 1], [10, 20, 30])}"
    by (auto simp: aead_inputs_def sealed_at_def sample_gcm_def data_nonce_def be32_one sample_gcm_header)
  have "(nonce, take j (sample_gcm_frame b), body) = ([0, 0, 0, 1] @ replicate 8 9, [48, 0, 0, 0, 1], [10, 20, 30])"
    if n: "length nonce = 12" and t: "take 16 (drop j (sample_gcm_frame b)) = sample_tag nonce (take j (sample_gcm_frame b))"
      and body: "drop (j + 16) (sample_gcm_frame b) = body" for j nonce body
  proof -
    have "length (take 16 (drop j (sample_gcm_frame b))) = 16" unfolding t using n by (simp add: sample_tag_def)
    then have "j \<le> 8" by (simp add: sample_gcm_frame_def)
    then have "j \<in> {0, 1, 2, 3, 4, 5, 6, 7, 8}" by auto
    moreover have "take 16 (drop j (sample_gcm_frame b)) ! 12 = of_nat j"
      unfolding t using n \<open>j \<le> 8\<close> by (simp add: sample_tag_def nth_append sample_gcm_frame_def)
    ultimately have j: "j = 5" using b by (auto simp: sample_gcm_frame_def)
    have "nonce = take 12 (take 16 (drop j (sample_gcm_frame b)))" unfolding t using n by (simp add: sample_tag_def)
    then show ?thesis using body by (simp add: j sample_gcm_frame_def numeral_eq_Suc)
  qed
  then show ?thesis
    by (auto simp: unforged_def sample_gcm_def [THEN arg_cong, of dc_seal] aead_unforged_def inputs sample_gcm_lib_def split: if_splits)
qed

theorem data_channel_delivers_once_witness:
  "\<exists>r' is. open_all sample_gcm_lib [sample_gcm_frame 5, sample_gcm_frame 6, sample_gcm_frame 5] sample_gcm =
       Ret (r', map (\<lambda>i. snd ([(sample_iv, [10, 20, 30])] ! i)) is) \<and> distinct is"
proof -
  obtain ch' where run: "seal_all sample_gcm_lib [(sample_iv, [10, 20, 30])] sample_gcm = (ch', [Inr (sample_gcm_frame 5)])"
    by (rule sample_gcm_sealed)
  have key: "dc_open sample_gcm = dc_seal sample_gcm" "length sample_iv = 16" by (simp_all add: sample_gcm_def sample_iv_def)
  have "list_all (\<lambda>d. 4 \<le> length d \<and> unforged sample_gcm_lib sample_gcm [(sample_iv, [10, 20, 30])] [Inr (sample_gcm_frame 5)] d)
      [sample_gcm_frame 5, sample_gcm_frame 6, sample_gcm_frame 5]"
    using sample_gcm_unforged [of 5] sample_gcm_unforged [of 6] by (simp add: sample_gcm_frame_def)
  from data_channel_delivers_once [OF sample_gcm_lib_ok _ run key(1) this] key(2) show ?thesis by auto
qed

theorem data_open_panics_iff_witness:
  "data_open sample_data_lib [0x48, 1, 2] sample_data_receiver = Panic"
  using data_open_panics_iff [OF sample_data_lib_ok(3), of "[0x48, 1, 2]" sample_data_receiver]
  by (simp add: sample_data_receiver_def sample_data_sender_def P_DATA_V2_def)

theorem data_channel_in_order_witness:
  "\<exists>r'. open_all sample_data_lib (map (\<lambda>_. sample_framed) [0 :: nat]) sample_data_receiver =
     Ret (r', filter (\<lambda>p. p \<noteq> DATA_PING) (map (\<lambda>j. snd ([(sample_iv, [10, 20, 30])] ! j)) [0]))"
proof -
  obtain ch' where run: "seal_all sample_data_lib [(sample_iv, [10, 20, 30])] sample_data_sender = (ch', [Inr sample_framed])"
    by (rule sample_run)
  have key: "dc_key_id sample_data_sender < 8" "dc_open sample_data_receiver = dc_seal sample_data_sender" "length sample_iv = 16"
    "dw_highest (dc_replay sample_data_receiver) < dc_next_packet_id sample_data_sender"
    by (simp_all add: sample_data_sender_def sample_data_receiver_def sample_iv_def window_new_def)
  show ?thesis using key by (intro data_channel_in_order [OF sample_data_lib_ok(1) _ _ run]) simp_all
qed

end
