(* ===== verification/Utf8.thy ===== *)
theory Utf8
  imports Prelude
begin

section \<open>Text from bytes (\<^verbatim>\<open>str::from_utf8\<close> and \<^verbatim>\<open>String::from_utf8_lossy\<close>)\<close>

text \<open>
  Rust's UTF-8 validation reads one character at a time, by the width its first byte announces and the
  ranges the following bytes must lie in. Text is kept as its bytes, one 8-bit character each: the
  string operations used on it look at ASCII characters only, which never occur inside a longer one.
\<close>

definition continuation :: "u8 \<Rightarrow> bool" where
  "continuation b \<longleftrightarrow> 0x80 \<le> b \<and> b \<le> 0xbf"

text \<open>The bytes the second byte of a longer character is taken from.\<close>

definition second_byte_ok :: "u8 \<Rightarrow> u8 \<Rightarrow> bool" where
  "second_byte_ok a b \<longleftrightarrow>
     (if a = 0xe0 then 0xa0 \<le> b \<and> b \<le> 0xbf
      else if a = 0xed then 0x80 \<le> b \<and> b \<le> 0x9f
      else if a = 0xf0 then 0x90 \<le> b \<and> b \<le> 0xbf
      else if a = 0xf4 then 0x80 \<le> b \<and> b \<le> 0x8f
      else continuation b)"

definition char_width :: "u8 \<Rightarrow> nat" where
  "char_width a =
     (if a \<le> 0x7f then 1 else if 0xc2 \<le> a \<and> a \<le> 0xdf then 2 else if 0xe0 \<le> a \<and> a \<le> 0xef then 3
      else if 0xf0 \<le> a \<and> a \<le> 0xf4 then 4 else 0)"

text \<open>How many bytes at the front form a character, or how many of a broken one are skipped together.\<close>

definition scan_char :: "u8 \<Rightarrow> bytes \<Rightarrow> bool \<times> nat" where
  "scan_char a rest =
     (let at = (\<lambda>i. if i < length rest then rest ! i else 0)
      in if char_width a = 1 then (True, 1)
         else if char_width a = 0 then (False, 1)
         else if \<not> second_byte_ok a (at 0) then (False, 1)
         else if char_width a = 2 then (True, 2)
         else if \<not> continuation (at 1) then (False, 2)
         else if char_width a = 3 then (True, 3)
         else if \<not> continuation (at 2) then (False, 3)
         else (True, 4))"

lemma scan_char_pos: "scan_char a rest = (v, n) \<Longrightarrow> 0 < n"
  by (auto simp: scan_char_def Let_def split: if_splits)

lemma char_width_ascii: "a \<le> 0x7f \<Longrightarrow> char_width a = 1"
  by (simp add: char_width_def)

text \<open>\<^verbatim>\<open>from_utf8\<close>\<close>

function valid_utf8 :: "bytes \<Rightarrow> bool" where
  "valid_utf8 [] \<longleftrightarrow> True"
| "valid_utf8 (a # rest) \<longleftrightarrow> fst (scan_char a rest) \<and> valid_utf8 (drop (snd (scan_char a rest) - 1) rest)"
  by pat_completeness auto
termination by (relation "measure length") auto

text \<open>\<^verbatim>\<open>from_utf8_lossy\<close>: every broken sequence becomes U+FFFD, spelled in three bytes.\<close>

function utf8_lossy :: "bytes \<Rightarrow> bytes" where
  "utf8_lossy [] = []"
| "utf8_lossy (a # rest) =
     (let (valid, n) = scan_char a rest
      in (if valid then a # take (n - 1) rest else [0xef, 0xbf, 0xbd]) @ utf8_lossy (drop (n - 1) rest))"
  by pat_completeness auto
termination by (relation "measure length") auto

lemma utf8_lossy_valid: "valid_utf8 bs \<Longrightarrow> utf8_lossy bs = bs"
  by (induction bs rule: utf8_lossy.induct) (auto simp: Let_def split: prod.splits)

definition text_of :: "bytes \<Rightarrow> string" where
  "text_of bs = map (\<lambda>b. char_of (unat b)) bs"

definition bytes_of :: "string \<Rightarrow> bytes" where
  "bytes_of s = map (\<lambda>c. of_nat (of_char c)) s"

lemma text_of_bytes_of [simp]: "text_of (bytes_of s) = s"
proof -
  have "unat (of_nat (of_char c) :: u8) = of_char c" for c :: char
    using of_char_of [of "of_char c :: nat"] by (simp add: unat_of_nat take_bit_eq_mod)
  then show ?thesis by (simp add: text_of_def bytes_of_def comp_def)
qed

lemma bytes_of_text_of [simp]: "bytes_of (text_of bs) = bs"
  using unat_u8_less by (simp add: text_of_def bytes_of_def comp_def mod_less)

lemma length_text [simp]: "length (text_of bs) = length bs" "length (bytes_of s) = length s"
  by (simp_all add: text_of_def bytes_of_def)

lemma bytes_of_append [simp]: "bytes_of (a @ b) = bytes_of a @ bytes_of b" "bytes_of [] = []"
  by (simp_all add: bytes_of_def)

lemma text_of_append [simp]: "text_of (a @ b) = text_of a @ text_of b" "text_of [] = []"
  by (simp_all add: text_of_def)

lemma text_of_inject: "text_of a = text_of b \<longleftrightarrow> a = b"
  by (metis bytes_of_text_of)

end
