(* ===== verification/Socks_Wire.thy ===== *)
theory Socks_Wire
  imports Direct_List Utf8 "HOL-Library.Sublist"
begin

section \<open>The bytes of a proxy client (\<^verbatim>\<open>engine/src/socks/wire.rs\<close>)\<close>

text \<open>
  The parsers of SOCKS5 and of the HTTP proxy forms, which are handed whatever has arrived so far, and
  the messages the proxy answers with. The lemmas show that a parser's answer does not depend on how
  the stream was cut into reads, and that a forwarded HTTP request carries none of the headers that
  belong to the proxy. Base64 is a third-party crate and a parameter.
\<close>

definition SOCKS_VERSION :: u8 where "SOCKS_VERSION = 5"
definition METHOD_NONE :: u8 where "METHOD_NONE = 0"
definition METHOD_USER_PASS :: u8 where "METHOD_USER_PASS = 2"
definition METHOD_UNACCEPTABLE :: u8 where "METHOD_UNACCEPTABLE = 0xff"
definition USER_PASS_VERSION :: u8 where "USER_PASS_VERSION = 1"
definition COMMAND_CONNECT :: u8 where "COMMAND_CONNECT = 1"
definition COMMAND_UDP_ASSOCIATE :: u8 where "COMMAND_UDP_ASSOCIATE = 3"
definition ATYP_IPV4 :: u8 where "ATYP_IPV4 = 1"
definition ATYP_DOMAIN :: u8 where "ATYP_DOMAIN = 3"
definition ATYP_IPV6 :: u8 where "ATYP_IPV6 = 4"
definition MAX_HTTP_HEAD :: nat where "MAX_HTTP_HEAD = 16 * 1024"

lemmas wire_defs = SOCKS_VERSION_def METHOD_NONE_def METHOD_USER_PASS_def METHOD_UNACCEPTABLE_def USER_PASS_VERSION_def
  COMMAND_CONNECT_def COMMAND_UDP_ASSOCIATE_def ATYP_IPV4_def ATYP_DOMAIN_def ATYP_IPV6_def

datatype Reply =
    Succeeded | GeneralFailure | NotAllowed | HostUnreachable | ConnectionRefused | TtlExpired
  | CommandNotSupported | AddressTypeNotSupported

fun reply_code :: "Reply \<Rightarrow> u8" where
  "reply_code Succeeded = 0"
| "reply_code GeneralFailure = 1"
| "reply_code NotAllowed = 2"
| "reply_code HostUnreachable = 4"
| "reply_code ConnectionRefused = 5"
| "reply_code TtlExpired = 6"
| "reply_code CommandNotSupported = 7"
| "reply_code AddressTypeNotSupported = 8"

datatype Target = Ip ipv4 u16 | Domain string u16 | Ipv6

datatype 'a Parse = Incomplete | Done 'a nat | Invalid string

definition parse_greeting :: "bytes \<Rightarrow> bytes Parse" where
  "parse_greeting buffer =
     (if length buffer < 2 then Incomplete
      else if buffer ! 0 \<noteq> SOCKS_VERSION then Invalid ''not a SOCKS5 greeting''
      else let end_at = 2 + unat (buffer ! 1)
           in if end_at \<le> length buffer then Done (subslice 2 end_at buffer) end_at else Incomplete)"

definition parse_user_pass :: "bytes \<Rightarrow> (string \<times> string) Parse" where
  "parse_user_pass buffer =
     (if length buffer < 2 then Incomplete
      else if buffer ! 0 \<noteq> USER_PASS_VERSION then Invalid ''unknown username/password version''
      else let user_end = 2 + unat (buffer ! 1)
           in if length buffer \<le> user_end then Incomplete
              else let end_at = user_end + 1 + unat (buffer ! user_end)
                   in if length buffer < end_at then Incomplete
                      else Done (text_of (utf8_lossy (subslice 2 user_end buffer)),
                                 text_of (utf8_lossy (subslice (user_end + 1) end_at buffer))) end_at)"

definition user_pass_reply :: "bool \<Rightarrow> bytes" where
  "user_pass_reply accepted = [USER_PASS_VERSION, if accepted then 0 else 1]"

text \<open>\<^verbatim>\<open>name.parse::<Ipv4Addr>()\<close>, as octets.\<close>

definition domain_target :: "string \<Rightarrow> u16 \<Rightarrow> Target" where
  "domain_target name port =
     (case parse_ipv4_addr name of
        Some address \<Rightarrow> Ip (be32 address) port
      | None \<Rightarrow>
          if CHR '':'' \<in> set name then Ipv6
          else Domain (map ascii_lower (rev (dropWhile (\<lambda>c. c = CHR ''.'') (rev name)))) port)"

definition parse_address :: "bytes \<Rightarrow> Target Parse" where
  "parse_address buffer =
     (if buffer = [] then Incomplete
      else let kind = buffer ! 0; port = (\<lambda>i. of_be16 [buffer ! i, buffer ! (i + 1)])
           in if kind = ATYP_IPV4 \<and> length buffer \<ge> 7
              then Done (Ip [buffer ! 1, buffer ! 2, buffer ! 3, buffer ! 4] (port 5)) 7
              else if kind = ATYP_DOMAIN \<and> length buffer \<ge> 2
              then let end_at = 2 + unat (buffer ! 1)
                   in if length buffer < end_at + 2 then Incomplete
                      else Done (domain_target (text_of (utf8_lossy (subslice 2 end_at buffer))) (port end_at)) (end_at + 2)
              else if kind = ATYP_IPV6 \<and> length buffer \<ge> 19 then Done Ipv6 19
              else if kind = ATYP_IPV4 \<or> kind = ATYP_DOMAIN \<or> kind = ATYP_IPV6 then Incomplete
              else Invalid ''unknown address type'')"

record Request =
  rq_command :: u8
  rq_target :: Target

definition parse_request :: "bytes \<Rightarrow> Request Parse" where
  "parse_request buffer =
     (if length buffer < 3 then Incomplete
      else if buffer ! 0 \<noteq> SOCKS_VERSION then Invalid ''not a SOCKS5 request''
      else case parse_address (drop 3 buffer) of
             Done target used \<Rightarrow> Done \<lparr>rq_command = buffer ! 1, rq_target = target\<rparr> (3 + used)
           | Incomplete \<Rightarrow> Incomplete
           | Invalid reason \<Rightarrow> Invalid reason)"

definition wire_reply :: "Reply \<Rightarrow> ipv4 \<Rightarrow> u16 \<Rightarrow> bytes" where
  "wire_reply code ip port = [SOCKS_VERSION, reply_code code, 0, ATYP_IPV4] @ ip @ be16 port"

definition parse_udp_datagram :: "bytes \<Rightarrow> (Target \<times> bytes) option" where
  "parse_udp_datagram datagram =
     (if length datagram < 3 \<or> take 3 datagram \<noteq> [0, 0, 0] then None
      else case parse_address (drop 3 datagram) of
             Done target used \<Rightarrow> Some (target, drop (3 + used) datagram)
           | _ \<Rightarrow> None)"

definition udp_datagram :: "ipv4 \<Rightarrow> u16 \<Rightarrow> bytes \<Rightarrow> bytes" where
  "udp_datagram ip port payload = [0, 0, 0, ATYP_IPV4] @ ip @ be16 port @ payload"

subsection \<open>HTTP\<close>

record HttpRequest =
  hr_target :: Target
  hr_tunnel :: bool
  hr_credentials :: "(string \<times> string) option"
  hr_upstream_head :: bytes

definition CRLF :: string where "CRLF = [CHR 0x0D, CHR 0x0A]"

text \<open>\<^verbatim>\<open>buffer.windows(n).position(..)\<close>: where a byte string first occurs.\<close>

fun find_window :: "'a list \<Rightarrow> 'a list \<Rightarrow> nat option" where
  "find_window pat [] = (if pat = [] then Some 0 else None)"
| "find_window pat (x # xs) =
     (if take (length pat) (x # xs) = pat then Some 0 else map_option Suc (find_window pat xs))"

text \<open>\<^verbatim>\<open>split("\r\n")\<close>\<close>

fun split_crlf :: "string \<Rightarrow> string list" where
  "split_crlf [] = [[]]"
| "split_crlf [c] = [[c]]"
| "split_crlf (c # d # cs) =
     (if [c, d] = CRLF then [] # split_crlf cs
      else case split_crlf (d # cs) of [] \<Rightarrow> [[c]] | p # ps \<Rightarrow> (c # p) # ps)"

definition eq_ignore_case :: "string \<Rightarrow> string \<Rightarrow> bool" where
  "eq_ignore_case a b \<longleftrightarrow> map ascii_lower a = map ascii_lower b"

definition strip_prefix :: "'a list \<Rightarrow> 'a list \<Rightarrow> 'a list option" where
  "strip_prefix p s = (if take (length p) s = p then Some (drop (length p) s) else None)"

definition rsplit_once :: "char \<Rightarrow> string \<Rightarrow> (string \<times> string) option" where
  "rsplit_once c s = map_option (\<lambda>(a, b). (rev b, rev a)) (split_once c (rev s))"

text \<open>\<^verbatim>\<open>port.parse::<u16>()\<close>\<close>

definition parse_u16 :: "string \<Rightarrow> u16 option" where
  "parse_u16 s = (case parse_u32 s of None \<Rightarrow> None | Some n \<Rightarrow> if n < 65536 then Some (of_nat n) else None)"

definition authority_target :: "string \<Rightarrow> u16 \<Rightarrow> Target option" where
  "authority_target authority default_port =
     (let authority = (case rsplit_once CHR ''@'' authority of None \<Rightarrow> authority | Some (_, host) \<Rightarrow> host)
      in if authority \<noteq> [] \<and> hd authority = CHR ''['' then Some Ipv6
         else case (case rsplit_once CHR '':'' authority of
                      Some (host, port) \<Rightarrow> map_option (Pair host) (parse_u16 port)
                    | None \<Rightarrow> Some (authority, default_port)) of
                None \<Rightarrow> None
              | Some (host, port) \<Rightarrow> if host = [] then None else Some (domain_target host port))"

text \<open>The closure over the header lines that looks for the client's login.\<close>

definition login_of_line :: "(string \<Rightarrow> bytes option) \<Rightarrow> string \<Rightarrow> (string \<times> string) option" where
  "login_of_line base64 line =
     (case split_once CHR '':'' line of
        None \<Rightarrow> None
      | Some (name, value) \<Rightarrow>
          if \<not> eq_ignore_case (trim name) ''proxy-authorization'' then None
          else case strip_prefix ''Basic '' (trim value) of
                 None \<Rightarrow> None
               | Some encoded \<Rightarrow>
                   (case base64 (trim encoded) of
                      None \<Rightarrow> None
                    | Some decoded \<Rightarrow> if valid_utf8 decoded then split_once CHR '':'' (text_of decoded) else None))"

fun find_map :: "('a \<Rightarrow> 'b option) \<Rightarrow> 'a list \<Rightarrow> 'b option" where
  "find_map f [] = None"
| "find_map f (x # xs) = (case f x of Some y \<Rightarrow> Some y | None \<Rightarrow> find_map f xs)"

definition HOP_HEADERS :: "string list" where
  "HOP_HEADERS = [''proxy-authorization'', ''proxy-connection'', ''connection'', ''keep-alive'']"

definition header_name :: "string \<Rightarrow> string" where
  "header_name line = trim (case split_once CHR '':'' line of None \<Rightarrow> line | Some (name, _) \<Rightarrow> name)"

definition is_hop :: "string \<Rightarrow> bool" where
  "is_hop line \<longleftrightarrow> list_ex (eq_ignore_case (header_name line)) HOP_HEADERS"

definition upstream_text :: "string \<Rightarrow> string \<Rightarrow> string \<Rightarrow> string list \<Rightarrow> string" where
  "upstream_text request_method path version headers =
     request_method @ '' '' @ path @ '' '' @ version @ CRLF
     @ concat (map (\<lambda>line. line @ CRLF) (filter (\<lambda>line. \<not> is_hop line) headers))
     @ ''Connection: close'' @ CRLF @ CRLF"

definition parse_http_head :: "(string \<Rightarrow> bytes option) \<Rightarrow> string \<Rightarrow> nat \<Rightarrow> HttpRequest Parse" where
  "parse_http_head base64 head_text consumed =
     (case split_crlf head_text of
        [] \<Rightarrow> Invalid ''malformed HTTP request line''
      | request_line # headers \<Rightarrow>
          (case split_on CHR '' '' request_line of
             request_method # uri # version # _ \<Rightarrow>
               (let credentials = find_map (login_of_line base64) headers
                in if eq_ignore_case request_method ''CONNECT''
                   then (case authority_target uri 443 of
                           None \<Rightarrow> Invalid ''CONNECT needs a host and port''
                         | Some target \<Rightarrow>
                             Done \<lparr>hr_target = target, hr_tunnel = True, hr_credentials = credentials, hr_upstream_head = []\<rparr> consumed)
                   else case strip_prefix ''http://'' uri of
                          None \<Rightarrow> Invalid ''a proxied request needs an absolute http:// URI''
                        | Some rest \<Rightarrow>
                            (let authority = takeWhile (\<lambda>c. c \<noteq> CHR ''/'') rest;
                                 path = (if CHR ''/'' \<in> set rest then dropWhile (\<lambda>c. c \<noteq> CHR ''/'') rest else ''/'')
                             in case authority_target authority 80 of
                                  None \<Rightarrow> Invalid ''the request URI names no host''
                                | Some target \<Rightarrow>
                                    Done \<lparr>hr_target = target, hr_tunnel = False, hr_credentials = credentials,
                                           hr_upstream_head = bytes_of (upstream_text request_method path version headers)\<rparr> consumed))
           | _ \<Rightarrow> Invalid ''malformed HTTP request line''))"

definition parse_http_request :: "(string \<Rightarrow> bytes option) \<Rightarrow> bytes \<Rightarrow> HttpRequest Parse" where
  "parse_http_request base64 buffer =
     (case find_window (bytes_of (CRLF @ CRLF)) buffer of
        None \<Rightarrow> if length buffer > MAX_HTTP_HEAD then Invalid ''HTTP request head is too large'' else Incomplete
      | Some end_at \<Rightarrow>
          if \<not> valid_utf8 (take end_at buffer) then Invalid ''HTTP request head is not text''
          else parse_http_head base64 (text_of (take end_at buffer)) (end_at + 4))"

definition HTTP_ESTABLISHED :: bytes where
  "HTTP_ESTABLISHED = bytes_of (''HTTP/1.1 200 Connection established'' @ CRLF @ CRLF)"

definition HTTP_AUTH_REQUIRED :: bytes where
  "HTTP_AUTH_REQUIRED = bytes_of (''HTTP/1.1 407 Proxy Authentication Required'' @ CRLF
     @ ''Proxy-Authenticate: Basic realm='' @ [CHR 0x22] @ ''GamePath'' @ [CHR 0x22] @ CRLF
     @ ''Content-Length: 0'' @ CRLF @ ''Connection: close'' @ CRLF @ CRLF)"

definition http_failure :: "Reply \<Rightarrow> bytes" where
  "http_failure code = bytes_of
     ((case code of
         TtlExpired \<Rightarrow> ''HTTP/1.1 504 Gateway Timeout''
       | HostUnreachable \<Rightarrow> ''HTTP/1.1 504 Gateway Timeout''
       | NotAllowed \<Rightarrow> ''HTTP/1.1 403 Forbidden''
       | AddressTypeNotSupported \<Rightarrow> ''HTTP/1.1 400 Bad Request''
       | CommandNotSupported \<Rightarrow> ''HTTP/1.1 400 Bad Request''
       | _ \<Rightarrow> ''HTTP/1.1 502 Bad Gateway'')
      @ CRLF @ ''Content-Length: 0'' @ CRLF @ ''Connection: close'' @ CRLF @ CRLF)"

subsection \<open>Reading a stream in pieces\<close>

text \<open>
  What the event loop does with a parser: parse what is buffered, and read on while it is incomplete.
  A stream parser never takes back an answer when more bytes follow; a strict one neither a refusal.
\<close>

fun feed :: "(bytes \<Rightarrow> 'a Parse) \<Rightarrow> bytes \<Rightarrow> bytes list \<Rightarrow> 'a Parse" where
  "feed parse buffer [] = parse buffer"
| "feed parse buffer (chunk # chunks) =
     (case parse buffer of Incomplete \<Rightarrow> feed parse (buffer @ chunk) chunks | result \<Rightarrow> result)"

locale stream_parser =
  fixes parse :: "bytes \<Rightarrow> 'a Parse"
  assumes done_within: "parse buffer = Done x n \<Longrightarrow> n \<le> length buffer"
    and done_stable: "parse buffer = Done x n \<Longrightarrow> parse (buffer @ rest) = Done x n"
begin

lemma feed_done: "feed parse buffer chunks = Done x n \<Longrightarrow> parse (buffer @ concat chunks) = Done x n"
proof (induction chunks arbitrary: buffer)
  case (Cons chunk chunks)
  then show ?case
    using done_stable [of buffer x n "chunk @ concat chunks"] Cons.IH [of "buffer @ chunk"] by (simp split: Parse.splits)
qed simp

end

locale strict_stream_parser = stream_parser +
  assumes invalid_stable: "parse buffer = Invalid e \<Longrightarrow> parse (buffer @ rest) = Invalid e"
begin

lemma feed_whole: "feed parse buffer chunks = parse (buffer @ concat chunks)"
proof (induction chunks arbitrary: buffer)
  case (Cons chunk chunks)
  then show ?case
    using done_stable [of buffer _ _ "chunk @ concat chunks"] invalid_stable [of buffer _ "chunk @ concat chunks"]
    by (simp split: Parse.splits)
qed simp

end

interpretation greeting: strict_stream_parser parse_greeting
  by unfold_locales (auto simp: parse_greeting_def Let_def nth_append subslice_append_left split: if_splits)

interpretation user_pass: strict_stream_parser parse_user_pass
  by unfold_locales (auto simp: parse_user_pass_def Let_def nth_append subslice_append_left split: if_splits)

text \<open>The three kinds of address, by their first byte.\<close>

lemma parse_address_ipv4:
  assumes "buffer \<noteq> []" and "buffer ! 0 = ATYP_IPV4"
  shows "parse_address buffer = (if length buffer < 7 then Incomplete
    else Done (Ip [buffer ! 1, buffer ! 2, buffer ! 3, buffer ! 4] (of_be16 [buffer ! 5, buffer ! 6])) 7)"
  using assms by (simp add: parse_address_def wire_defs)

lemma parse_address_domain:
  assumes "buffer \<noteq> []" and "buffer ! 0 = ATYP_DOMAIN"
  shows "parse_address buffer = (if length buffer < 2 then Incomplete
    else let end_at = 2 + unat (buffer ! 1)
         in if length buffer < end_at + 2 then Incomplete
            else Done (domain_target (text_of (utf8_lossy (subslice 2 end_at buffer)))
                   (of_be16 [buffer ! end_at, buffer ! (end_at + 1)])) (end_at + 2))"
  using assms by (simp add: parse_address_def wire_defs Let_def)

lemma parse_address_other:
  assumes "buffer \<noteq> []" and "buffer ! 0 \<noteq> ATYP_IPV4" and "buffer ! 0 \<noteq> ATYP_DOMAIN"
  shows "parse_address buffer =
    (if buffer ! 0 \<noteq> ATYP_IPV6 then Invalid ''unknown address type'' else if length buffer < 19 then Incomplete else Done Ipv6 19)"
  using assms by (simp add: parse_address_def)

lemma parse_address_stable:
  assumes "parse_address buffer \<noteq> Incomplete"
  shows "parse_address (buffer @ rest) = parse_address buffer"
proof -
  have ne: "buffer \<noteq> []" "buffer @ rest \<noteq> []" using assms by (auto simp: parse_address_def)
  then have first: "(buffer @ rest) ! 0 = buffer ! 0" by (simp add: nth_append)
  consider "buffer ! 0 = ATYP_IPV4" | "buffer ! 0 = ATYP_DOMAIN" | "buffer ! 0 \<noteq> ATYP_IPV4" "buffer ! 0 \<noteq> ATYP_DOMAIN" by blast
  then show ?thesis
  proof cases
    case 1
    note eq = parse_address_ipv4 [OF ne(1) 1]
    then have "7 \<le> length buffer" using assms by (auto split: if_splits)
    then show ?thesis unfolding eq using parse_address_ipv4 [OF ne(2)] first 1 by (simp add: nth_append)
  next
    case 2
    note eq = parse_address_domain [OF ne(1) 2]
    then have long: "2 + unat (buffer ! 1) + 2 \<le> length buffer" using assms by (auto simp: Let_def split: if_splits)
    then show ?thesis unfolding eq using parse_address_domain [OF ne(2)] first 2
      by (simp add: nth_append Let_def subslice_append_left)
  next
    case 3
    then show ?thesis
      using parse_address_other [OF ne(1) 3] parse_address_other [OF ne(2)] first assms by (auto split: if_splits)
  qed
qed

lemma parse_address_within: "parse_address buffer = Done x n \<Longrightarrow> n \<le> length buffer"
  by (auto simp: parse_address_def Let_def split: if_splits)

interpretation address: strict_stream_parser parse_address
  by unfold_locales (simp_all add: parse_address_within parse_address_stable)

interpretation request: strict_stream_parser parse_request
proof
  fix buffer rest :: bytes and x n e
  show "parse_request buffer = Done x n \<Longrightarrow> n \<le> length buffer"
    using address.done_within [of "drop 3 buffer"] by (fastforce simp: parse_request_def split: if_splits Parse.splits)
  show "parse_request buffer = Done x n \<Longrightarrow> parse_request (buffer @ rest) = Done x n"
    using address.done_stable [of "drop 3 buffer" _ _ rest]
    by (auto simp: parse_request_def nth_append split: if_splits Parse.splits)
  show "parse_request buffer = Invalid e \<Longrightarrow> parse_request (buffer @ rest) = Invalid e"
    using address.invalid_stable [of "drop 3 buffer" _ rest]
    by (auto simp: parse_request_def nth_append split: if_splits Parse.splits)
qed

lemma find_window_within: "find_window pat xs = Some i \<Longrightarrow> i + length pat \<le> length xs"
proof (induction xs arbitrary: i)
  case (Cons x xs)
  then show ?case
    by (cases "take (length pat) (x # xs) = pat") (auto dest: arg_cong [of _ _ length] split: if_splits)
qed (simp split: if_splits)

lemma find_window_append:
  assumes "find_window pat xs = Some i"
  shows "find_window pat (xs @ ys) = Some i"
  using assms
proof (induction xs arbitrary: i)
  case Nil
  then show ?case by (cases ys) (auto split: if_splits)
next
  case (Cons x xs)
  then have "length pat \<le> length (x # xs)" using find_window_within [OF Cons.prems] by simp
  then have "take (length pat) (x # xs @ ys) = take (length pat) (x # xs)" by (cases pat) simp_all
  then show ?case using Cons by (auto split: if_splits)
qed

lemma parse_http_consumed:
  "parse_http_head base64 head_text consumed = Done r n \<Longrightarrow> n = consumed"
  by (auto simp: parse_http_head_def Let_def split: list.splits option.splits if_splits)

interpretation http: stream_parser "parse_http_request base64" for base64
proof
  fix buffer rest :: bytes and x n
  assume done_parse: "parse_http_request base64 buffer = Done x n"
  then obtain i where i: "find_window (bytes_of (CRLF @ CRLF)) buffer = Some i" "valid_utf8 (take i buffer)"
      "parse_http_head base64 (text_of (take i buffer)) (i + 4) = Done x n"
    by (auto simp: parse_http_request_def split: option.splits if_splits)
  have "i + 4 \<le> length buffer" using find_window_within [OF i(1)] by (simp add: CRLF_def)
  then show "n \<le> length buffer" "parse_http_request base64 (buffer @ rest) = Done x n"
    using i parse_http_consumed [OF i(3)] find_window_append [OF i(1), of rest] by (simp_all add: parse_http_request_def)
qed

text \<open>An HTTP head that grew past its limit before its end was seen.\<close>

definition head_overflows :: "bytes \<Rightarrow> bool" where
  "head_overflows buffer \<longleftrightarrow> length buffer > MAX_HTTP_HEAD \<and> find_window (bytes_of (CRLF @ CRLF)) buffer = None"

lemma http_overflow: "head_overflows b \<Longrightarrow> parse_http_request base64 b = Invalid ''HTTP request head is too large''"
  by (simp add: head_overflows_def parse_http_request_def)

lemma http_answered:
  assumes "parse_http_request base64 b \<noteq> Incomplete" "\<not> head_overflows b"
  shows "parse_http_request base64 (b @ c) = parse_http_request base64 b" and "\<not> head_overflows (b @ c)"
proof -
  obtain i where i: "find_window (bytes_of (CRLF @ CRLF)) b = Some i"
    using assms by (cases "find_window (bytes_of (CRLF @ CRLF)) b") (auto simp: parse_http_request_def head_overflows_def)
  then have "i \<le> length b" using find_window_within [OF i] by simp
  then show "parse_http_request base64 (b @ c) = parse_http_request base64 b" "\<not> head_overflows (b @ c)"
    using i find_window_append [OF i, of c] by (simp_all add: parse_http_request_def head_overflows_def)
qed

lemma ex_upto_Suc: "(\<exists>k \<le> Suc n. P k) \<longleftrightarrow> P 0 \<or> (\<exists>k \<le> n. P (Suc k))"
  by (metis Suc_le_mono not0_implies_Suc zero_le)

lemma http_feed:
  "feed (parse_http_request base64) buffer chunks =
     (if \<exists>k \<le> length chunks. head_overflows (buffer @ concat (take k chunks)) then Invalid ''HTTP request head is too large''
      else parse_http_request base64 (buffer @ concat chunks))"
proof (induction chunks arbitrary: buffer)
  case Nil
  then show ?case by (simp add: http_overflow)
next
  case (Cons chunk chunks)
  have later: "(\<exists>k \<le> length (chunk # chunks). head_overflows (buffer @ concat (take k (chunk # chunks)))) \<longleftrightarrow>
      head_overflows buffer \<or> (\<exists>k \<le> length chunks. head_overflows ((buffer @ chunk) @ concat (take k chunks)))"
    by (simp add: ex_upto_Suc)
  consider "head_overflows buffer" | "\<not> head_overflows buffer" "parse_http_request base64 buffer \<noteq> Incomplete"
    | "\<not> head_overflows buffer" "parse_http_request base64 buffer = Incomplete" by blast
  then show ?case
  proof cases
    case 1
    then show ?thesis unfolding later by (simp add: http_overflow)
  next
    case 2
    have "feed (parse_http_request base64) buffer (chunk # chunks) = parse_http_request base64 buffer"
      using 2(2) by (simp split: Parse.split)
    then show ?thesis
      unfolding later using 2(1) http_answered [OF 2(2,1)] by (simp add: append_assoc)
  next
    case 3
    from 3(2) have "feed (parse_http_request base64) buffer (chunk # chunks) = feed (parse_http_request base64) (buffer @ chunk) chunks"
      by simp
    then show ?thesis unfolding later using 3(1) Cons.IH [of "buffer @ chunk"] by (simp only: append_assoc concat.simps simp_thms)
  qed
qed

text \<open>
  C19. The network may cut a client's stream into reads anywhere: feeding the SOCKS5 parsers piece by piece
  gives exactly what parsing the whole stream gives - message, length and refusal alike. For an HTTP request
  there is one exception, and no other: it is refused as too large exactly when the bytes of some reads
  together exceed the limit of 16 KiB before the end of the head is among them; otherwise the answer, of
  whatever kind, is that for the whole stream.
\<close>

theorem parsers_ignore_segmentation:
  "feed parse_greeting [] chunks = parse_greeting (concat chunks)
   \<and> feed parse_user_pass [] chunks = parse_user_pass (concat chunks)
   \<and> feed parse_request [] chunks = parse_request (concat chunks)
   \<and> feed (parse_http_request base64) [] chunks =
       (if \<exists>k \<le> length chunks. head_overflows (concat (take k chunks)) then Invalid ''HTTP request head is too large''
        else parse_http_request base64 (concat chunks))"
  using greeting.feed_whole [of "[]" chunks] user_pass.feed_whole [of "[]" chunks] request.feed_whole [of "[]" chunks]
    http_feed [of base64 "[]" chunks]
  unfolding append_Nil by blast

lemma udp_datagram_round_trip:
  "length ip = 4 \<Longrightarrow> parse_udp_datagram (udp_datagram ip port payload) = Some (Ip ip port, payload)"
  using of_be16_be16 [of port]
  by (auto simp: parse_udp_datagram_def udp_datagram_def parse_address_def wire_defs be16_bytes Let_def
      elim!: length_4E)

subsection \<open>What a forwarded request carries\<close>

lemma sublist_CRLF_Cons: "sublist CRLF (c # s) \<longleftrightarrow> c = CHR 0x0D \<and> s \<noteq> [] \<and> hd s = CHR 0x0A \<or> sublist CRLF s"
  by (cases s) (auto simp: sublist_Cons_right CRLF_def)

lemma split_crlf_head: "split_crlf (d # cs) = p # ps \<Longrightarrow> p = [] \<or> hd p = d"
  by (cases cs) (auto split: if_splits list.splits)

lemma split_crlf_ne: "split_crlf s \<noteq> []"
  by (cases s rule: split_crlf.cases) (auto split: list.splits)

text \<open>No line contains a line break, and a line followed by one is split off.\<close>

lemma split_crlf_clean: "p \<in> set (split_crlf s) \<Longrightarrow> \<not> sublist CRLF p"
proof (induction s arbitrary: p rule: split_crlf.induct)
  case (3 c d cs)
  show ?case
  proof (cases "[c, d] = CRLF")
    case True
    then show ?thesis using 3 by (auto simp: CRLF_def)
  next
    case False
    obtain q qs where q: "split_crlf (d # cs) = q # qs" using split_crlf_ne by (cases "split_crlf (d # cs)") auto
    then have "p = c # q \<or> p \<in> set qs" using 3(3) False by auto
    moreover have "\<not> sublist CRLF r" if "r \<in> set (q # qs)" for r using 3(2) [OF False] q that by simp
    moreover have "\<not> sublist CRLF (c # q)"
      using calculation(2) [of q] False split_crlf_head [OF q] by (auto simp: sublist_CRLF_Cons [of c]) (auto simp: CRLF_def)
    ultimately show ?thesis by auto
  qed
qed (auto simp: CRLF_def sublist_Cons_right)

lemma split_crlf_line: "\<not> sublist CRLF l \<Longrightarrow> split_crlf (l @ CRLF @ rest) = l # split_crlf rest"
proof (induction l)
  case (Cons c l)
  then have clean: "\<not> sublist CRLF l" "\<not> (c = CHR 0x0D \<and> l \<noteq> [] \<and> hd l = CHR 0x0A)" by (auto simp: sublist_CRLF_Cons)
  show ?case
  proof (cases l)
    case Nil
    then show ?thesis using Cons.IH clean by (simp add: CRLF_def)
  next
    case (Cons d l')
    then show ?thesis using Cons.IH [OF clean(1)] clean(2) by (simp add: CRLF_def)
  qed
qed (simp add: CRLF_def)

lemma split_crlf_lines:
  "\<forall>l \<in> set ls. \<not> sublist CRLF l \<Longrightarrow> split_crlf (concat (map (\<lambda>l. l @ CRLF) ls) @ rest) = ls @ split_crlf rest"
  by (induction ls) (simp_all add: split_crlf_line)

lemma split_on_sublist: "p \<in> set (split_on c s) \<Longrightarrow> sublist p s"
proof (induction c s arbitrary: p rule: split_on.induct)
  case (2 c x xs)
  obtain q qs where q: "split_on c xs = q # qs" by (cases "split_on c xs") (auto elim: split_on.elims split: list.splits if_splits)
  have pre: "prefix (hd (split_on c xs)) xs" for xs
    by (induction c xs rule: split_on.induct) (auto split: list.splits)
  show ?case
  proof (cases "x = c")
    case True
    then have "p = [] \<or> sublist p xs" using 2 by auto
    then show ?thesis by (auto simp: sublist_Cons_right)
  next
    case False
    have "prefix q xs" using pre [of xs] q by simp
    then have "p = x # q \<and> prefix p (x # xs) \<or> sublist p xs" using 2 False q by auto
    then show ?thesis by (auto simp: sublist_Cons_right)
  qed
qed simp

lemma sublist_CRLF_space: "sublist CRLF (a @ CHR '' '' # b) \<longleftrightarrow> sublist CRLF a \<or> sublist CRLF b"
proof (induction a)
  case Nil
  then show ?case by (simp add: sublist_CRLF_Cons) (simp add: CRLF_def)
next
  case (Cons x a)
  then show ?case by (cases a) (auto simp: sublist_CRLF_Cons)
qed

text \<open>
  A forwarded HTTP request leaves without anything meant for the proxy: after its request line every
  header line of the head sent upstream is one of the client's that is neither a proxy login, nor
  about the client's connection to the proxy, and the head ends by asking for a single exchange.
\<close>

theorem forwarded_head_has_no_hop_headers:
  assumes "parse_http_request base64 buffer = Done r n" and "\<not> hr_tunnel r"
  shows "\<exists>request_line kept. split_crlf (text_of (hr_upstream_head r)) = request_line # kept @ [''Connection: close'', [], []]
    \<and> list_all (\<lambda>line. \<not> is_hop line) kept"
proof -
  obtain head_text where head: "parse_http_head base64 head_text n = Done r n"
    using assms(1) parse_http_consumed by (fastforce simp: parse_http_request_def split: option.splits if_splits)
  then obtain line headers where lines: "split_crlf head_text = line # headers"
    by (cases "split_crlf head_text") (auto simp: parse_http_head_def)
  obtain m uri version more_words where words: "split_on CHR '' '' line = m # uri # version # more_words"
    using head by (auto simp: parse_http_head_def lines split: list.splits)
  obtain rest where rest: "strip_prefix ''http://'' uri = Some rest"
    and up: "hr_upstream_head r = bytes_of (upstream_text m
      (if CHR ''/'' \<in> set rest then dropWhile (\<lambda>c. c \<noteq> CHR ''/'') rest else ''/'') version headers)"
    using head assms(2) by (auto simp: parse_http_head_def lines words Let_def split: option.splits if_splits)
  let ?path = "if CHR ''/'' \<in> set rest then dropWhile (\<lambda>c. c \<noteq> CHR ''/'') rest else ''/''"
  have clean: "\<not> sublist CRLF l" if "l \<in> set (line # headers)" for l
    using split_crlf_clean [of l head_text] that lines by simp
  have word: "\<not> sublist CRLF w" if "sublist w v" "v \<in> {m, uri, version}" for v w
  proof
    assume "sublist CRLF w"
    have "v \<in> set (split_on CHR '' '' line)" using that(2) words by auto
    then have "sublist v line" by (rule split_on_sublist)
    from sublist_order.order_trans [OF \<open>sublist CRLF w\<close> sublist_order.order_trans [OF that(1) this]] clean [of line]
    show False by simp
  qed
  have "\<not> sublist CRLF ?path"
  proof (cases "CHR ''/'' \<in> set rest")
    case True
    have "rest = drop (length ''http://'') uri" using rest unfolding strip_prefix_def by (metis option.distinct(1) option.inject)
    then have "suffix (dropWhile (\<lambda>c. c \<noteq> CHR ''/'') rest) uri"
      using suffix_dropWhile suffix_drop suffix_order.order_trans by metis
    then show ?thesis using True word [of _ uri] by (simp add: suffix_imp_sublist)
  next
    case False
    then show ?thesis by (simp add: sublist_CRLF_Cons) (simp add: CRLF_def)
  qed
  then have request: "\<not> sublist CRLF (m @ '' '' @ ?path @ '' '' @ version)"
    using word [of m m] word [of version version] by (simp add: sublist_CRLF_space)
  have ending: "split_crlf (''Connection: close'' @ CRLF @ CRLF) = [''Connection: close'', [], []]"
    by (simp add: CRLF_def)
  have "split_crlf (text_of (hr_upstream_head r)) =
      (m @ '' '' @ ?path @ '' '' @ version) # filter (\<lambda>line. \<not> is_hop line) headers @ [''Connection: close'', [], []]"
    using split_crlf_line [OF request] split_crlf_lines [of "filter (\<lambda>line. \<not> is_hop line) headers"] clean
    unfolding up upstream_text_def by (simp add: ending [simplified append_Cons append_Nil] del: split_crlf.simps)
  then show ?thesis by (auto simp: list_all_iff)
qed

definition sample_http :: string where
  "sample_http = ''G http://a 1'' @ CRLF @ ''Connection: y'' @ CRLF @ ''A: b''"

definition no_base64 :: "string \<Rightarrow> bytes option" where
  "no_base64 _ = None"

theorem forwarded_head_has_no_hop_headers_witness:
  "\<exists>r n request_line kept. parse_http_request no_base64 (bytes_of (sample_http @ CRLF @ CRLF)) = Done r n
    \<and> split_crlf (text_of (hr_upstream_head r)) = request_line # kept @ [''Connection: close'', [], []]
    \<and> list_all (\<lambda>line. \<not> is_hop line) kept"
proof -
  have "case parse_http_request no_base64 (bytes_of (sample_http @ CRLF @ CRLF)) of Done r n \<Rightarrow> \<not> hr_tunnel r | _ \<Rightarrow> False"
    by code_simp
  then obtain r n where "parse_http_request no_base64 (bytes_of (sample_http @ CRLF @ CRLF)) = Done r n" "\<not> hr_tunnel r"
    by (auto split: Parse.splits)
  with forwarded_head_has_no_hop_headers [OF this] show ?thesis by blast
qed

end
