(* ===== verification/Dns.thy ===== *)
theory Dns
  imports Direct_List Utf8
begin

section \<open>Asking one question (\<^verbatim>\<open>engine/src/dns.rs\<close>)\<close>

text \<open>
  Building an A query, recognising its answer, and reading the addresses out of it. Positions are
  natural numbers; the loops over a message end because every step moves towards its end. The lemmas
  show that a query carries the name it was built for, and that the answer to it is read back whole.
\<close>

definition FLAG_RECURSION_DESIRED :: u16 where "FLAG_RECURSION_DESIRED = 0x0100"
definition FLAG_RESPONSE :: u16 where "FLAG_RESPONSE = 0x8000"
definition RCODE_MASK :: u16 where "RCODE_MASK = 0x000f"
definition TYPE_A :: u16 where "TYPE_A = 1"
definition CLASS_IN :: u16 where "CLASS_IN = 1"
definition HEADER_LEN :: nat where "HEADER_LEN = 12"

fun encode_labels :: "string list \<Rightarrow> bytes option" where
  "encode_labels [] = Some []"
| "encode_labels (label # labels) =
     (if length label > 63 then None
      else map_option (\<lambda>rest. of_nat (length label) # bytes_of label @ rest) (encode_labels labels))"

definition dns_query :: "u16 \<Rightarrow> string \<Rightarrow> bytes option" where
  "dns_query i hostname =
     (case encode_labels (filter (\<lambda>label. label \<noteq> []) (split_on CHR ''.'' hostname)) of
        None \<Rightarrow> None
      | Some labels \<Rightarrow>
          (let message = be16 i @ be16 FLAG_RECURSION_DESIRED @ be16 1 @ [0, 0, 0, 0, 0, 0] @ labels @ [0]
                         @ be16 TYPE_A @ be16 CLASS_IN
           in if length message \<le> 255 + HEADER_LEN + 5 then Some message else None))"

datatype ResolverVerdict = Answered_Query | Mismatched | Refused_Query u16

definition be16_at :: "bytes \<Rightarrow> nat \<Rightarrow> u16" where
  "be16_at bs i = of_be16 [bs ! i, bs ! (i + 1)]"

definition dns_verdict :: "bytes \<Rightarrow> u16 \<Rightarrow> ResolverVerdict" where
  "dns_verdict response i =
     (if length response < HEADER_LEN then Mismatched
      else if be16_at response 0 \<noteq> i then Mismatched
      else let flags = be16_at response 2
           in if flags AND FLAG_RESPONSE = 0 then Mismatched
              else if flags AND RCODE_MASK = 0 then Answered_Query else Refused_Query (flags AND RCODE_MASK))"

datatype Answer = Addresses "ipv4 list" u32 | NoAddress u16

function skip_name :: "bytes \<Rightarrow> nat \<Rightarrow> nat option" where
  "skip_name message i =
     (if length message \<le> i then None
      else if message ! i = 0 then Some (i + 1)
      else if message ! i AND 0xc0 = 0xc0 then (if i + 1 < length message then Some (i + 2) else None)
      else if message ! i AND 0xc0 = 0 then skip_name message (i + 1 + unat (message ! i))
      else None)"
  by pat_completeness auto
termination by (relation "measure (\<lambda>(message, i). length message - i)") auto

declare skip_name.simps [simp del]

fun skip_questions :: "nat \<Rightarrow> bytes \<Rightarrow> nat \<Rightarrow> nat option" where
  "skip_questions 0 message i = Some i"
| "skip_questions (Suc n) message i =
     (case skip_name message i of None \<Rightarrow> None | Some j \<Rightarrow> skip_questions n message (j + 4))"

text \<open>The loop over the answer records, with the addresses and the shortest lifetime so far.\<close>

fun read_answer_records :: "nat \<Rightarrow> bytes \<Rightarrow> nat \<Rightarrow> ipv4 list \<Rightarrow> u32 \<Rightarrow> (ipv4 list \<times> u32) option" where
  "read_answer_records 0 message i addresses ttl = Some (addresses, ttl)"
| "read_answer_records (Suc n) message i addresses ttl =
     (case skip_name message i of
        None \<Rightarrow> None
      | Some j \<Rightarrow>
          if length message < j + 10 then None
          else let record_type = be16_at message j; record_class = be16_at message (j + 2);
                   record_ttl = of_be32 (subslice (j + 4) (j + 8) message);
                   size = unat (be16_at message (j + 8))
               in if length message < j + 10 + size then None
                  else if record_type = TYPE_A \<and> record_class = CLASS_IN \<and> size = 4
                  then read_answer_records n message (j + 10 + size) (addresses @ [subslice (j + 10) (j + 14) message]) (min ttl record_ttl)
                  else read_answer_records n message (j + 10 + size) addresses ttl)"

definition read_answer :: "bytes \<Rightarrow> u16 \<Rightarrow> Answer option" where
  "read_answer response i =
     (case dns_verdict response i of
        Mismatched \<Rightarrow> None
      | Refused_Query rcode \<Rightarrow> Some (NoAddress rcode)
      | Answered_Query \<Rightarrow>
          (case skip_questions (unat (be16_at response 4)) response HEADER_LEN of
             None \<Rightarrow> None
           | Some j \<Rightarrow>
               (case read_answer_records (unat (be16_at response 6)) response j [] (- 1) of
                  None \<Rightarrow> None
                | Some (addresses, ttl) \<Rightarrow> Some (if addresses = [] then NoAddress 0 else Addresses addresses ttl))))"

definition PROBE_HOSTNAME :: string where "PROBE_HOSTNAME = ''example.com''"

definition FALLBACK_RESOLVERS :: "ipv4 list" where
  "FALLBACK_RESOLVERS = [[8, 8, 8, 8], [8, 8, 4, 4]]"

definition resolver_order :: "ipv4 option \<Rightarrow> ipv4 list" where
  "resolver_order relay = (case relay of Some r \<Rightarrow> [r, FALLBACK_RESOLVERS ! 0] | None \<Rightarrow> FALLBACK_RESOLVERS)"

text \<open>\<^verbatim>\<open>question_name\<close>; its length counts the bytes of the text, as \<^verbatim>\<open>String::len\<close> does.\<close>

function question_name_from :: "bytes \<Rightarrow> nat \<Rightarrow> string \<Rightarrow> string option" where
  "question_name_from message offset name =
     (if length message \<le> offset then None
      else let size = unat (message ! offset)
           in if size = 0 then Some name
              else if size > 63 \<or> length name + size > 255 then None
              else if length message < offset + 1 + size then None
              else question_name_from message (offset + 1 + size)
                     ((if name = [] then name else name @ ''.'')
                      @ map ascii_lower (text_of (utf8_lossy (subslice (offset + 1) (offset + 1 + size) message)))))"
  by pat_completeness auto
termination by (relation "measure (\<lambda>(message, offset, name). length message - offset)") (auto simp: Let_def)

declare question_name_from.simps [simp del]

definition question_name :: "bytes \<Rightarrow> string option" where
  "question_name message = question_name_from message HEADER_LEN []"

definition LOCAL_SUFFIXES :: "string list" where
  "LOCAL_SUFFIXES = [''local'', ''lan'', ''home.arpa'', ''localdomain'', ''localhost'']"

definition ends_with :: "string \<Rightarrow> string \<Rightarrow> bool" where
  "ends_with suffix name \<longleftrightarrow> length suffix \<le> length name \<and> drop (length name - length suffix) name = suffix"

definition strip_suffix :: "string \<Rightarrow> string \<Rightarrow> string option" where
  "strip_suffix suffix name = (if ends_with suffix name then Some (take (length name - length suffix) name) else None)"

definition is_private :: "ipv4 \<Rightarrow> bool" where
  "is_private a \<longleftrightarrow> a ! 0 = 10 \<or> a ! 0 = 172 \<and> 16 \<le> a ! 1 \<and> a ! 1 \<le> 31 \<or> a ! 0 = 192 \<and> a ! 1 = 168"

definition is_loopback :: "ipv4 \<Rightarrow> bool" where "is_loopback a \<longleftrightarrow> a ! 0 = 127"

definition is_link_local :: "ipv4 \<Rightarrow> bool" where "is_link_local a \<longleftrightarrow> a ! 0 = 169 \<and> a ! 1 = 254"

definition is_shared :: "ipv4 \<Rightarrow> bool" where "is_shared a \<longleftrightarrow> a ! 0 = 100 \<and> 64 \<le> a ! 1 \<and> a ! 1 < 128"

fun map_while :: "('a \<Rightarrow> 'b option) \<Rightarrow> 'a list \<Rightarrow> 'b list" where
  "map_while f [] = []"
| "map_while f (x # xs) = (case f x of None \<Rightarrow> [] | Some y \<Rightarrow> y # map_while f xs)"

definition is_local_only_name :: "string \<Rightarrow> bool" where
  "is_local_only_name name =
     (if name = [] \<or> CHR ''.'' \<notin> set name then True
      else if list_ex (\<lambda>suffix. name = suffix \<or> ends_with (CHR ''.'' # suffix) name) LOCAL_SUFFIXES then True
      else case strip_suffix ''.in-addr.arpa'' name of
             None \<Rightarrow> False
           | Some reversed \<Rightarrow>
               (let octets = map (\<lambda>n. of_nat n :: u8) (map_while parse_u8 (rev (split_on CHR ''.'' reversed)))
                in if octets = [] \<or> length octets > 4 then False
                   else let address = octets @ replicate (4 - length octets) 0
                        in is_private address \<or> is_loopback address \<or> is_link_local address \<or> is_shared address))"

subsection \<open>A query carries its name\<close>

lemma be16_at_append:
  "i + 2 \<le> length a \<Longrightarrow> be16_at (a @ b) i = be16_at a i"
  "be16_at (a @ be16 w @ b) (length a) = w"
  using of_be16_be16 [of w] by (simp_all add: be16_at_def nth_append be16_bytes)

lemma label_size: "length label \<le> 63 \<Longrightarrow> unat (of_nat (length label) :: u8) = length label"
  by (simp add: unat_of_nat)

lemma short_label_bits:
  assumes "(w :: u8) < 64"
  shows "w AND 0xc0 = 0"
proof -
  have "unat w < 2 ^ 6" using assms by (simp add: word_less_nat_alt)
  then have "take_bit 6 (unat w) = unat w" by (simp add: take_bit_eq_mod)
  then have "take_bit 6 w = w" by (metis unsigned_take_bit_eq unsigned_word_eqI)
  then have "w AND 0xc0 = w AND (mask 6 AND 0xc0)" by (simp add: and.assoc [symmetric] take_bit_eq_mask [symmetric])
  moreover have "mask 6 AND (0xc0 :: u8) = 0" by (simp add: mask_eq_exp_minus_1)
  ultimately show ?thesis by simp
qed

lemma skip_name_labels:
  assumes "encode_labels labels = Some bs" and "\<forall>l \<in> set labels. l \<noteq> []"
  shows "skip_name (pre @ bs @ 0 # post) (length pre) = Some (length pre + length bs + 1)"
  using assms
proof (induction labels arbitrary: bs pre)
  case Nil
  then show ?case by (simp add: skip_name.simps [of "pre @ 0 # post"] nth_append)
next
  case (Cons label labels)
  then obtain rest where rest: "encode_labels labels = Some rest" "length label \<le> 63"
    and bs: "bs = of_nat (length label) # bytes_of label @ rest"
    by (auto split: if_splits)
  let ?n = "of_nat (length label) :: u8"
  have n: "unat ?n = length label" using rest(2) by (rule label_size)
  then have "?n \<noteq> 0" using Cons.prems(2) by (metis length_0_conv list.set_intros(1) unsigned_0)
  moreover have "?n < 64" using n rest(2) by (simp add: word_less_nat_alt)
  then have "?n AND 0xc0 = 0" by (rule short_label_bits)
  moreover have "(0 :: u8) \<noteq> 0xc0" by code_simp
  ultimately show ?case
    using Cons.IH [OF rest(1), of "pre @ ?n # bytes_of label"] Cons.prems(2) n
    by (simp add: skip_name.simps [of "pre @ ?n # bytes_of label @ rest @ 0 # post" "length pre"] bs nth_append ac_simps)
qed

lemma dns_query_layout:
  assumes "dns_query i hostname = Some q"
  obtains labels bs where "encode_labels labels = Some bs" "labels = filter (\<lambda>label. label \<noteq> []) (split_on CHR ''.'' hostname)"
    "q = be16 i @ be16 FLAG_RECURSION_DESIRED @ be16 1 @ [0, 0, 0, 0, 0, 0] @ bs @ [0] @ be16 TYPE_A @ be16 CLASS_IN"
    "length bs \<le> 255"
  using assms by (auto simp: dns_query_def Let_def HEADER_LEN_def split: option.splits if_splits)

subsection \<open>The answer to a query is read whole\<close>

text \<open>
  What a recursive resolver answers: the query's id and question, the response flag, and one address
  record per address, each naming the question by a compression pointer.
\<close>

definition answer_record :: "u32 \<times> ipv4 \<Rightarrow> bytes" where
  "answer_record r = [0xc0, 0x0c] @ be16 TYPE_A @ be16 CLASS_IN @ be32 (fst r) @ be16 4 @ snd r"

definition answer_to :: "bytes \<Rightarrow> (u32 \<times> ipv4) list \<Rightarrow> bytes" where
  "answer_to q records =
     take 2 q @ be16 0x8180 @ be16 1 @ be16 (of_nat (length records)) @ [0, 0, 0, 0] @ drop 12 q
     @ concat (map answer_record records)"

lemma read_record_step:
  assumes "length (snd r) = 4"
  shows "read_answer_records (Suc n) (pre @ answer_record r @ post) (length pre) acc t =
    read_answer_records n ((pre @ answer_record r) @ post) (length (pre @ answer_record r)) (acc @ [snd r]) (min t (fst r))"
proof -
  let ?m = "pre @ answer_record r @ post"
  obtain a b c d where addr: "snd r = [a, b, c, d]" using assms by (rule length_4E)
  have long: "length pre + 16 \<le> length ?m" by (simp add: answer_record_def assms)
  have "?m ! length pre = 0xc0" by (simp add: nth_append answer_record_def)
  moreover have "answer_record r \<noteq> []" by (simp add: answer_record_def)
  ultimately have skip: "skip_name ?m (length pre) = Some (length pre + 2)"
    using long by (simp add: skip_name.simps [of ?m "length pre"])
  have at_field: "be16_at ?m (length pre + 2) = TYPE_A" "be16_at ?m (length pre + 4) = CLASS_IN"
      "be16_at ?m (length pre + 10) = 4"
    using be16_at_append(2) [of "pre @ [0xc0, 0x0c]" TYPE_A] be16_at_append(2) [of "pre @ [0xc0, 0x0c] @ be16 TYPE_A" CLASS_IN]
      be16_at_append(2) [of "pre @ [0xc0, 0x0c] @ be16 TYPE_A @ be16 CLASS_IN @ be32 (fst r)" 4]
    by (simp_all add: answer_record_def)
  have ttl: "of_be32 (subslice (length pre + 6) (length pre + 10) ?m) = fst r"
    by (simp add: answer_record_def subslice_def)
  have data: "subslice (length pre + 12) (length pre + 16) ?m = snd r"
    using assms by (simp add: answer_record_def subslice_def)
  have total: "length (pre @ answer_record r) = length pre + 16" by (simp add: answer_record_def assms)
  define k where "k = length pre + 2"
  have "skip_name ?m (length pre) = Some k" "be16_at ?m k = TYPE_A" "be16_at ?m (k + 2) = CLASS_IN" "be16_at ?m (k + 8) = 4"
      "of_be32 (subslice (k + 4) (k + 8) ?m) = fst r" "subslice (k + 10) (k + 14) ?m = snd r"
      "k + 14 \<le> length ?m" "length (pre @ answer_record r) = k + 14"
  proof -
    have eqs: "k = length pre + 2" "k + 2 = length pre + 4" "k + 4 = length pre + 6" "k + 8 = length pre + 10"
        "k + 10 = length pre + 12" "k + 14 = length pre + 16"
      by (simp_all add: k_def)
    show "skip_name ?m (length pre) = Some k" "be16_at ?m k = TYPE_A" using skip at_field(1) unfolding eqs(1) .
    show "be16_at ?m (k + 2) = CLASS_IN" "be16_at ?m (k + 8) = 4" using at_field(2,3) unfolding eqs(2-) .
    show "of_be32 (subslice (k + 4) (k + 8) ?m) = fst r" "subslice (k + 10) (k + 14) ?m = snd r" using ttl data unfolding eqs(2-) .
    show "k + 14 \<le> length ?m" "length (pre @ answer_record r) = k + 14" using long total unfolding eqs(2-) .
  qed
  then show ?thesis by (simp add: Let_def add.commute [of 14] del: length_append)
qed

lemma read_records_all:
  assumes "\<forall>r \<in> set records. length (snd r) = 4"
  shows "read_answer_records (length records) (pre @ concat (map answer_record records)) (length pre) acc t =
    Some (acc @ map snd records, fold min (map fst records) t)"
  using assms
proof (induction records arbitrary: pre acc t)
  case (Cons r records)
  have "read_answer_records (Suc (length records)) (pre @ answer_record r @ concat (map answer_record records)) (length pre) acc t =
      read_answer_records (length records) ((pre @ answer_record r) @ concat (map answer_record records)) (length (pre @ answer_record r))
        (acc @ [snd r]) (min t (fst r))"
    by (rule read_record_step) (use Cons.prems in simp)
  also have "\<dots> = Some ((acc @ [snd r]) @ map snd records, fold min (map fst records) (min t (fst r)))"
    by (rule Cons.IH) (use Cons.prems in simp)
  finally show ?case by (simp add: min.commute)
qed simp

text \<open>
  A resolver's answer is read whole: for every name a query can be built for, and every list of
  addresses a resolver may answer it with, reading the answer under the query's id gives exactly those
  addresses, in order, with the shortest of their lifetimes.
\<close>

theorem answer_read_whole:
  assumes "dns_query i hostname = Some q" and "records \<noteq> []" and "length records < 65536"
    and "\<forall>r \<in> set records. length (snd r) = 4"
  shows "read_answer (answer_to q records) i = Some (Addresses (map snd records) (fold min (map fst records) (- 1)))"
proof -
  obtain labels bs where labels: "encode_labels labels = Some bs"
      "labels = filter (\<lambda>label. label \<noteq> []) (split_on CHR ''.'' hostname)"
    and q: "q = be16 i @ be16 FLAG_RECURSION_DESIRED @ be16 1 @ [0, 0, 0, 0, 0, 0] @ bs @ [0] @ be16 TYPE_A @ be16 CLASS_IN"
    using dns_query_layout [OF assms(1)] by blast
  let ?n = "of_nat (length records) :: u16" and ?recs = "concat (map answer_record records)"
  define pre where "pre = be16 i @ be16 0x8180 @ be16 1 @ be16 ?n @ [0, 0, 0, 0]"
  have pre: "length pre = 12" by (simp add: pre_def)
  have m: "answer_to q records = pre @ bs @ 0 # be16 TYPE_A @ be16 CLASS_IN @ ?recs"
    by (simp add: answer_to_def q pre_def)
  have fields: "be16_at (answer_to q records) 0 = i" "be16_at (answer_to q records) 2 = 0x8180"
      "be16_at (answer_to q records) 4 = 1" "be16_at (answer_to q records) 6 = ?n"
    using be16_at_append(2) [of "[]" i] be16_at_append(2) [of "be16 i" "0x8180"]
      be16_at_append(2) [of "be16 i @ be16 0x8180" 1] be16_at_append(2) [of "be16 i @ be16 0x8180 @ be16 1" ?n]
    by (simp_all add: m pre_def)
  have verdict: "dns_verdict (answer_to q records) i = Answered_Query"
    by (simp add: dns_verdict_def fields HEADER_LEN_def FLAG_RESPONSE_def RCODE_MASK_def) (simp add: m pre)
  have "skip_name (answer_to q records) 12 = Some (12 + length bs + 1)"
    using skip_name_labels [OF labels(1), of pre "be16 TYPE_A @ be16 CLASS_IN @ ?recs"] labels(2) by (simp add: m pre)
  then have skip: "skip_questions (unat (1 :: u16)) (answer_to q records) 12 = Some (length (pre @ bs @ 0 # be16 TYPE_A @ be16 CLASS_IN))"
    by (simp add: pre)
  have n: "unat ?n = length records" using assms(3) by (simp add: unat_of_nat)
  have "read_answer_records (length records) (answer_to q records) (length (pre @ bs @ 0 # be16 TYPE_A @ be16 CLASS_IN)) [] (- 1) =
      Some (map snd records, fold min (map fst records) (- 1))"
    using read_records_all [OF assms(4), of "pre @ bs @ 0 # be16 TYPE_A @ be16 CLASS_IN"] by (simp add: m)
  then show ?thesis
    using verdict skip n assms(2) by (simp add: read_answer_def fields HEADER_LEN_def del: length_append)
qed

definition sample_query :: bytes where
  "sample_query = be16 7 @ be16 FLAG_RECURSION_DESIRED @ be16 1 @ [0, 0, 0, 0, 0, 0] @ [1, 97, 1, 98] @ [0] @ be16 TYPE_A @ be16 CLASS_IN"

theorem answer_read_whole_witness:
  "read_answer (answer_to sample_query [(60, [1, 2, 3, 4]), (30, [5, 6, 7, 8])]) 7 =
     Some (Addresses [[1, 2, 3, 4], [5, 6, 7, 8]] 30)"
proof -
  have q: "dns_query 7 ''a.b'' = Some sample_query"
    by (simp add: dns_query_def sample_query_def bytes_of_def HEADER_LEN_def)
  have "fold min [60, 30] (- 1 :: u32) = 30" by code_simp
  then show ?thesis
    using answer_read_whole [OF q, of "[(60, [1, 2, 3, 4]), (30, [5, 6, 7, 8])]"] by simp
qed

end
