(* ===== verification/Openvpn_Config.thy ===== *)
theory Openvpn_Config
  imports Openvpn_Data Socks_Wire Dns
begin

section \<open>Reading an OpenVPN configuration (\<^verbatim>\<open>engine/src/openvpn/config.rs\<close>)\<close>

text \<open>
  The parser of the files providers hand out: lines, comments, quoted arguments, inline blocks, directives,
  and the checks at the end. Reading PEM is a third-party crate and a parameter. Errors are values named
  after what is wrong; their texts are left out. White space is ASCII, and text is kept as bytes.

  The lemmas show what an accepted file guarantees: a server to dial and a certificate authority to check it
  against, a way to authenticate, usable ports, keys and ciphers, and that no directive outside the blocks
  which the client cannot honour was passed over; and what of a connection block is read at all.
\<close>

subsection \<open>Text\<close>

definition ascii_upper :: "char \<Rightarrow> char" where
  "ascii_upper c = (let n = of_char c :: nat in if 97 \<le> n \<and> n \<le> 122 then char_of (n - 32) else c)"

definition starts_with :: "string \<Rightarrow> string \<Rightarrow> bool" where
  "starts_with p s \<longleftrightarrow> strip_prefix p s \<noteq> None"

text \<open>\<^verbatim>\<open>str::lines\<close>: a line ends at a line feed, with a carriage return before it left off; no empty last line.\<close>

definition strip_cr :: "string \<Rightarrow> string" where
  "strip_cr s = (if s \<noteq> [] \<and> last s = CHR 0x0D then butlast s else s)"

definition lines_of :: "string \<Rightarrow> string list" where
  "lines_of s =
     (let ps = split_on (CHR 0x0A) s
      in map strip_cr (butlast ps) @ (if last ps = [] then [] else [last ps]))"

text \<open>\<^verbatim>\<open>str::parse\<close> for an unsigned integer below a limit.\<close>

fun parse_below :: "nat \<Rightarrow> nat \<Rightarrow> string \<Rightarrow> nat option" where
  "parse_below limit acc [] = Some acc"
| "parse_below limit acc (c # cs) =
     (case digit_value c of
        None \<Rightarrow> None
      | Some d \<Rightarrow> if acc * 10 + d \<ge> limit then None else parse_below limit (acc * 10 + d) cs)"

definition parse_u64 :: "string \<Rightarrow> nat option" where
  "parse_u64 s =
     (let digits = (if s \<noteq> [] \<and> hd s = CHR ''+'' then tl s else s)
      in if digits = [] then None else parse_below (2 ^ 64) 0 digits)"

definition strip_comment :: "string \<Rightarrow> string" where
  "strip_comment line =
     (let line = trim line in if line \<noteq> [] \<and> (hd line = CHR ''#'' \<or> hd line = CHR '';'') then [] else line)"

definition inline_open_tag :: "string \<Rightarrow> string option" where
  "inline_open_tag line =
     (case strip_prefix ''<'' line of
        None \<Rightarrow> None
      | Some rest \<Rightarrow>
          (case strip_suffix ''>'' rest of
             None \<Rightarrow> None
           | Some inner \<Rightarrow> if inner = [] \<or> hd inner = CHR ''/'' then None else Some inner))"

fun collect_inline :: "string \<Rightarrow> string list \<Rightarrow> (string \<times> string list) option" where
  "collect_inline tag [] = None"
| "collect_inline tag (line # lines) =
     (if trim line = ''</'' @ tag @ ''>'' then Some ([], lines)
      else map_option (\<lambda>(body, rest). (line @ [CHR 0x0A] @ body, rest)) (collect_inline tag lines))"

fun tokenize_loop :: "string list \<Rightarrow> string \<Rightarrow> bool \<Rightarrow> string \<Rightarrow> string list" where
  "tokenize_loop tokens current quoted [] = (if current = [] then tokens else tokens @ [current])"
| "tokenize_loop tokens current quoted (c # cs) =
     (if c = CHR 0x22 then tokenize_loop tokens current (\<not> quoted) cs
      else if is_space c \<and> \<not> quoted
      then (if current = [] then tokenize_loop tokens current quoted cs
            else tokenize_loop (tokens @ [current]) [] quoted cs)
      else tokenize_loop tokens (current @ [c]) quoted cs)"

definition tokenize :: "string \<Rightarrow> string list" where
  "tokenize line = tokenize_loop [] [] False line"

subsection \<open>Values\<close>

definition digest_parse :: "string \<Rightarrow> Digest option" where
  "digest_parse name =
     (let name = filter (\<lambda>c. c \<noteq> CHR ''-'') (map ascii_upper name)
      in if name = ''MD5'' then Some Md5 else if name = ''SHA1'' then Some Sha1
         else if name = ''SHA256'' then Some Sha256 else if name = ''SHA512'' then Some Sha512 else None)"

fun digest_name :: "Digest \<Rightarrow> string" where
  "digest_name Md5 = ''MD5''" | "digest_name Sha1 = ''SHA1''"
| "digest_name Sha256 = ''SHA256''" | "digest_name Sha512 = ''SHA512''"

fun cipher_name :: "DataCipher \<Rightarrow> string" where
  "cipher_name Aes256Gcm = ''AES-256-GCM''"
| "cipher_name Aes128Gcm = ''AES-128-GCM''"
| "cipher_name ChaCha20Poly1305 = ''CHACHA20-POLY1305''"
| "cipher_name Aes256Cbc = ''AES-256-CBC''"
| "cipher_name Aes192Cbc = ''AES-192-CBC''"
| "cipher_name Aes128Cbc = ''AES-128-CBC''"

definition cipher_parse :: "string \<Rightarrow> DataCipher option" where
  "cipher_parse name =
     (let name = map ascii_upper name
      in if name = ''AES-256-GCM'' then Some Aes256Gcm else if name = ''AES-128-GCM'' then Some Aes128Gcm
         else if name = ''CHACHA20-POLY1305'' \<or> name = ''CHACHA20POLY1305'' then Some ChaCha20Poly1305
         else if name = ''AES-256-CBC'' then Some Aes256Cbc else if name = ''AES-192-CBC'' then Some Aes192Cbc
         else if name = ''AES-128-CBC'' then Some Aes128Cbc else None)"

datatype RemoteProtocol = Udp | Tcp

fun options_name :: "RemoteProtocol \<Rightarrow> string" where
  "options_name Udp = ''UDPv4''"
| "options_name Tcp = ''TCPv4_CLIENT''"

record Remote =
  re_host :: string
  re_port :: u16
  re_protocol :: RemoteProtocol

definition endpoint :: "Remote \<Rightarrow> string" where
  "endpoint r = re_host r @ '':'' @ show_nat (unat (re_port r))"

datatype ServerNameCheck = Subject string | Name string | NamePrefix string

datatype ControlAuth = NoControlAuth | TlsAuthKey StaticKey KeyDirection Digest | TlsCryptKey StaticKey

datatype config_error =
    UnsupportedCheck string | RemoteWithoutHost | BadPort string | ServerFile | BadProtocol string
  | NameMissing | BadNameType string | ProtoMissing | PortMissing | NotTun string | AuthMissing | BadDigest string
  | CiphersMissing | NoCipher string | CredentialsInFile string | DirectionMissing | SeparateFile string
  | StaticKeyMode | Compressed string string | UsesFragment | UsesProxy string | OneTimeCode
  | UnreadablePem string | NoCertificate string | NoPrivateKey | NotStaticKey string | UsesTlsCryptV2
  | Unclosed string | NoRemote | NoAuthority | HalfCertificate | NoAuthentication | BadDirection nat

definition server_name_parse :: "string list \<Rightarrow> config_error + ServerNameCheck" where
  "server_name_parse arguments =
     (if arguments = [] \<or> hd arguments = [] then Inl NameMissing
      else let name = hd arguments; kind = (if length arguments > 1 then arguments ! 1 else ''subject'')
           in if kind = ''subject'' then Inr (Subject name)
              else if kind = ''name'' then Inr (Name name)
              else if kind = ''name-prefix'' then Inr (NamePrefix name)
              else Inl (BadNameType kind))"

definition parse_protocol :: "string \<Rightarrow> config_error + RemoteProtocol" where
  "parse_protocol name =
     (let name = map ascii_lower name
      in if name \<in> {''udp'', ''udp4'', ''udp6''} then Inr Udp
         else if name \<in> {''tcp'', ''tcp4'', ''tcp6'', ''tcp-client'', ''tcp4-client'', ''tcp6-client''} then Inr Tcp
         else if name \<in> {''tcp-server'', ''udp-server''} then Inl ServerFile
         else Inl (BadProtocol name))"

definition parse_port :: "string \<Rightarrow> config_error + u16" where
  "parse_port value =
     (case parse_u16 value of
        Some port \<Rightarrow> if port \<noteq> 0 then Inr port else Inl (BadPort value)
      | None \<Rightarrow> Inl (BadPort value))"

subsection \<open>Inline blocks\<close>

text \<open>
  What \<^verbatim>\<open>rustls_pemfile\<close> makes of a block: its certificates, or an error; whether it holds a private key.
\<close>

record pem_lib =
  pem_certs :: "string \<Rightarrow> bytes list option"
  pem_key :: "string \<Rightarrow> bool option"

definition read_certificates :: "pem_lib \<Rightarrow> string \<Rightarrow> string \<Rightarrow> config_error + bytes list" where
  "read_certificates P body tag =
     (case pem_certs P body of
        None \<Rightarrow> Inl (UnreadablePem tag)
      | Some certificates \<Rightarrow> if certificates = [] then Inl (NoCertificate tag) else Inr certificates)"

definition read_private_key :: "pem_lib \<Rightarrow> string \<Rightarrow> config_error + string" where
  "read_private_key P body =
     (case pem_key P body of
        None \<Rightarrow> Inl (UnreadablePem ''key'')
      | Some found \<Rightarrow> if found then Inr body else Inl NoPrivateKey)"

definition hex_value :: "char \<Rightarrow> nat option" where
  "hex_value c =
     (let n = of_char c :: nat
      in if 48 \<le> n \<and> n \<le> 57 then Some (n - 48) else if 97 \<le> n \<and> n \<le> 102 then Some (n - 87)
         else if 65 \<le> n \<and> n \<le> 70 then Some (n - 55) else None)"

fun hex_bytes :: "string \<Rightarrow> bytes" where
  "hex_bytes (a # b # rest) = of_nat (the (hex_value a) * 16 + the (hex_value b)) # hex_bytes rest"
| "hex_bytes _ = []"

definition read_static_key :: "string \<Rightarrow> string \<Rightarrow> config_error + StaticKey" where
  "read_static_key body tag =
     (let hex = concat (filter (\<lambda>line. line \<noteq> [] \<and> hd line \<noteq> CHR ''-'' \<and> hd line \<noteq> CHR ''#'') (map trim (lines_of body)))
      in if length hex \<noteq> 512 \<or> \<not> list_all (\<lambda>c. hex_value c \<noteq> None) hex then Inl (NotStaticKey tag)
         else Inr (hex_bytes hex))"

subsection \<open>Directives\<close>

definition UNSUPPORTED_CERTIFICATE_CHECKS :: "string list" where
  "UNSUPPORTED_CERTIFICATE_CHECKS = [''peer-fingerprint'', ''verify-hash'', ''crl-verify'', ''tls-verify'']"

definition DEFAULT_CIPHERS :: "DataCipher list" where
  "DEFAULT_CIPHERS = [Aes256Gcm, Aes128Gcm, ChaCha20Poly1305]"

record PendingRemote =
  pr_host :: string
  pr_port :: "u16 option"
  pr_protocol :: "RemoteProtocol option"

record Parser =
  pa_remotes :: "PendingRemote list"
  pa_protocol :: "RemoteProtocol option"
  pa_port :: "u16 option"
  pa_ca :: "bytes list"
  pa_client_certs :: "bytes list"
  pa_client_key :: "string option"
  pa_tls_auth :: "StaticKey option"
  pa_key_direction :: "nat option"
  pa_tls_crypt :: "StaticKey option"
  pa_ciphers :: "DataCipher list option"
  pa_legacy_cipher :: "DataCipher option"
  pa_digest :: "Digest option"
  pa_wants_credentials :: bool
  pa_server_name :: "ServerNameCheck option"
  pa_reneg_seconds :: "nat option"
  pa_tun_mtu :: "u16 option"

definition parser_default :: Parser where
  "parser_default =
     \<lparr>pa_remotes = [], pa_protocol = None, pa_port = None, pa_ca = [], pa_client_certs = [], pa_client_key = None,
      pa_tls_auth = None, pa_key_direction = None, pa_tls_crypt = None, pa_ciphers = None, pa_legacy_cipher = None,
      pa_digest = None, pa_wants_credentials = False, pa_server_name = None, pa_reneg_seconds = None, pa_tun_mtu = None\<rparr>"

definition directive_name :: "string \<Rightarrow> string" where
  "directive_name name = (case strip_prefix ''--'' name of None \<Rightarrow> name | Some rest \<Rightarrow> rest)"

definition argument :: "string list \<Rightarrow> nat \<Rightarrow> string option" where
  "argument arguments index = (if index < length arguments then Some (arguments ! index) else None)"

text \<open>\<^verbatim>\<open>Option::map(f).transpose()\<close>\<close>

definition optionally :: "('a \<Rightarrow> 'e + 'b) \<Rightarrow> 'a option \<Rightarrow> 'e + 'b option" where
  "optionally f x = (case x of None \<Rightarrow> Inr None | Some a \<Rightarrow> (case f a of Inl e \<Rightarrow> Inl e | Inr b \<Rightarrow> Inr (Some b)))"

definition remote_directive :: "string list \<Rightarrow> Parser \<Rightarrow> config_error + Parser" where
  "remote_directive arguments p =
     (case argument arguments 0 of
        None \<Rightarrow> Inl RemoteWithoutHost
      | Some host \<Rightarrow>
          (case optionally parse_port (argument arguments 1) of
             Inl e \<Rightarrow> Inl e
           | Inr port \<Rightarrow>
               (case optionally parse_protocol (argument arguments 2) of
                  Inl e \<Rightarrow> Inl e
                | Inr protocol \<Rightarrow>
                    Inr (p\<lparr>pa_remotes := pa_remotes p @ [\<lparr>pr_host = host, pr_port = port, pr_protocol = protocol\<rparr>]\<rparr>))))"

definition ciphers_directive :: "string list \<Rightarrow> Parser \<Rightarrow> config_error + Parser" where
  "ciphers_directive arguments p =
     (case argument arguments 0 of
        None \<Rightarrow> Inl CiphersMissing
      | Some listed \<Rightarrow>
          (let ciphers = List.map_filter cipher_parse (split_on CHR '':'' listed)
           in if ciphers = [] then Inl (NoCipher listed) else Inr (p\<lparr>pa_ciphers := Some ciphers\<rparr>)))"

definition directive :: "string \<Rightarrow> string list \<Rightarrow> Parser \<Rightarrow> config_error + Parser" where
  "directive name arguments p =
     (let name = directive_name name; first = argument arguments 0
      in if name \<in> set UNSUPPORTED_CERTIFICATE_CHECKS then Inl (UnsupportedCheck name)
         else if name = ''remote'' then remote_directive arguments p
         else if name = ''verify-x509-name''
         then (case server_name_parse arguments of Inl e \<Rightarrow> Inl e | Inr check \<Rightarrow> Inr (p\<lparr>pa_server_name := Some check\<rparr>))
         else if name = ''proto''
         then (case first of
                 None \<Rightarrow> Inl ProtoMissing
               | Some value \<Rightarrow> (case parse_protocol value of Inl e \<Rightarrow> Inl e | Inr v \<Rightarrow> Inr (p\<lparr>pa_protocol := Some v\<rparr>)))
         else if name = ''port'' \<or> name = ''rport''
         then (case first of
                 None \<Rightarrow> Inl PortMissing
               | Some value \<Rightarrow> (case parse_port value of Inl e \<Rightarrow> Inl e | Inr v \<Rightarrow> Inr (p\<lparr>pa_port := Some v\<rparr>)))
         else if name = ''dev'' \<or> name = ''dev-type''
         then (case first of None \<Rightarrow> Inr p | Some d \<Rightarrow> if starts_with ''tun'' d then Inr p else Inl (NotTun d))
         else if name = ''auth''
         then (case first of
                 None \<Rightarrow> Inl AuthMissing
               | Some value \<Rightarrow> (case digest_parse value of None \<Rightarrow> Inl (BadDigest value) | Some d \<Rightarrow> Inr (p\<lparr>pa_digest := Some d\<rparr>)))
         else if name = ''cipher''
         then Inr (p\<lparr>pa_legacy_cipher := cipher_parse (case first of None \<Rightarrow> [] | Some v \<Rightarrow> v)\<rparr>)
         else if name = ''data-ciphers'' \<or> name = ''ncp-ciphers'' then ciphers_directive arguments p
         else if name = ''auth-user-pass''
         then (case first of Some path \<Rightarrow> Inl (CredentialsInFile path) | None \<Rightarrow> Inr (p\<lparr>pa_wants_credentials := True\<rparr>))
         else if name = ''reneg-sec'' then Inr (p\<lparr>pa_reneg_seconds := Option.bind first parse_u64\<rparr>)
         else if name = ''tun-mtu'' then Inr (p\<lparr>pa_tun_mtu := Option.bind first parse_u16\<rparr>)
         else if name = ''key-direction''
         then (case Option.bind first parse_u8 of None \<Rightarrow> Inl DirectionMissing | Some d \<Rightarrow> Inr (p\<lparr>pa_key_direction := Some d\<rparr>))
         else if name \<in> {''ca'', ''cert'', ''key'', ''tls-auth'', ''tls-crypt'', ''tls-crypt-v2'', ''pkcs12''} then Inl (SeparateFile name)
         else if name = ''secret'' then Inl StaticKeyMode
         else if name = ''comp-lzo'' \<or> name = ''compress''
         then (case first of
                 None \<Rightarrow> Inr p
               | Some mode \<Rightarrow> if mode \<in> {''no'', ''stub'', ''stub-v2''} then Inr p else Inl (Compressed name mode))
         else if name = ''fragment'' then Inl UsesFragment
         else if name = ''http-proxy'' \<or> name = ''socks-proxy'' then Inl (UsesProxy name)
         else if name = ''static-challenge'' then Inl OneTimeCode
         else Inr p)"

fun connection_lines :: "string list \<Rightarrow> Parser \<Rightarrow> config_error + Parser" where
  "connection_lines [] p = Inr p"
| "connection_lines (line # lines) p =
     (case tokenize (strip_comment line) of
        [] \<Rightarrow> connection_lines lines p
      | name # arguments \<Rightarrow>
          if directive_name name \<in> {''remote'', ''proto'', ''port'', ''rport''}
             \<or> directive_name name \<in> set UNSUPPORTED_CERTIFICATE_CHECKS
          then (case directive name arguments p of Inl e \<Rightarrow> Inl e | Inr p \<Rightarrow> connection_lines lines p)
          else connection_lines lines p)"

definition inline_block :: "pem_lib \<Rightarrow> string \<Rightarrow> string \<Rightarrow> Parser \<Rightarrow> config_error + Parser" where
  "inline_block P tag body p =
     (if tag \<in> set UNSUPPORTED_CERTIFICATE_CHECKS then directive tag [] p
      else if tag = ''ca''
      then (case read_certificates P body ''ca'' of Inl e \<Rightarrow> Inl e | Inr cs \<Rightarrow> Inr (p\<lparr>pa_ca := cs\<rparr>))
      else if tag = ''cert''
      then (case read_certificates P body ''cert'' of Inl e \<Rightarrow> Inl e | Inr cs \<Rightarrow> Inr (p\<lparr>pa_client_certs := cs\<rparr>))
      else if tag = ''key''
      then (case read_private_key P body of Inl e \<Rightarrow> Inl e | Inr k \<Rightarrow> Inr (p\<lparr>pa_client_key := Some k\<rparr>))
      else if tag = ''tls-auth''
      then (case read_static_key body tag of Inl e \<Rightarrow> Inl e | Inr k \<Rightarrow> Inr (p\<lparr>pa_tls_auth := Some k\<rparr>))
      else if tag = ''tls-crypt''
      then (case read_static_key body tag of Inl e \<Rightarrow> Inl e | Inr k \<Rightarrow> Inr (p\<lparr>pa_tls_crypt := Some k\<rparr>))
      else if tag = ''tls-crypt-v2'' then Inl UsesTlsCryptV2
      else if tag = ''connection'' then connection_lines (lines_of body) p
      else Inr p)"

subsection \<open>The whole file\<close>

lemma collect_inline_shorter: "collect_inline tag lines = Some (body, rest) \<Longrightarrow> length rest < length lines"
  by (induction lines arbitrary: body) (auto split: if_splits simp: less_SucI)

function run_lines :: "pem_lib \<Rightarrow> string list \<Rightarrow> Parser \<Rightarrow> config_error + Parser" where
  "run_lines P [] p = Inr p"
| "run_lines P (line # lines) p =
     (let line = strip_comment line
      in if line = [] then run_lines P lines p
         else case inline_open_tag line of
                Some tag \<Rightarrow>
                  (case collect_inline tag lines of
                     None \<Rightarrow> Inl (Unclosed tag)
                   | Some (body, rest) \<Rightarrow>
                       (case inline_block P tag body p of Inl e \<Rightarrow> Inl e | Inr p \<Rightarrow> run_lines P rest p))
              | None \<Rightarrow>
                  (case tokenize line of
                     [] \<Rightarrow> run_lines P lines p
                   | name # arguments \<Rightarrow>
                       (case directive name arguments p of Inl e \<Rightarrow> Inl e | Inr p \<Rightarrow> run_lines P lines p)))"
  by pat_completeness auto
termination by (relation "measure (\<lambda>(_, lines, _). length lines)") (auto dest: collect_inline_shorter)

record OpenVpnConfig =
  oc_remotes :: "Remote list"
  oc_ca :: "bytes list"
  oc_client_certs :: "bytes list"
  oc_client_key :: "string option"
  oc_control_auth :: ControlAuth
  oc_data_ciphers :: "DataCipher list"
  oc_fallback_cipher :: DataCipher
  oc_digest :: Digest
  oc_wants_credentials :: bool
  oc_server_name :: "ServerNameCheck option"
  oc_reneg_seconds :: "nat option"
  oc_tun_mtu :: u16

definition control_auth_of :: "Parser \<Rightarrow> Digest \<Rightarrow> config_error + ControlAuth" where
  "control_auth_of p digest =
     (case pa_tls_crypt p of
        Some key \<Rightarrow> Inr (TlsCryptKey key)
      | None \<Rightarrow>
          (case pa_tls_auth p of
             None \<Rightarrow> Inr NoControlAuth
           | Some key \<Rightarrow>
               (case pa_key_direction p of
                  None \<Rightarrow> Inr (TlsAuthKey key Bidirectional digest)
                | Some d \<Rightarrow>
                    if d = 0 then Inr (TlsAuthKey key Normal digest)
                    else if d = 1 then Inr (TlsAuthKey key Inverse digest) else Inl (BadDirection d))))"

definition offered_ciphers :: "Parser \<Rightarrow> DataCipher list" where
  "offered_ciphers p =
     (case pa_ciphers p of
        Some listed \<Rightarrow> listed
      | None \<Rightarrow> (case pa_legacy_cipher p of
                   Some cipher \<Rightarrow> cipher # filter (\<lambda>kind. kind \<noteq> cipher) DEFAULT_CIPHERS
                 | None \<Rightarrow> DEFAULT_CIPHERS))"

definition settle_remote :: "Parser \<Rightarrow> PendingRemote \<Rightarrow> Remote" where
  "settle_remote p r =
     \<lparr>re_host = pr_host r,
      re_port = (case pa_port p of Some port \<Rightarrow> port | None \<Rightarrow> (case pr_port r of Some port \<Rightarrow> port | None \<Rightarrow> 1194)),
      re_protocol = (case pr_protocol r of Some v \<Rightarrow> v | None \<Rightarrow> (case pa_protocol p of Some v \<Rightarrow> v | None \<Rightarrow> Udp))\<rparr>"

definition finish_config :: "Parser \<Rightarrow> config_error + OpenVpnConfig" where
  "finish_config p =
     (if pa_remotes p = [] then Inl NoRemote
      else if pa_ca p = [] then Inl NoAuthority
      else if (pa_client_certs p = []) \<noteq> (pa_client_key p = None) then Inl HalfCertificate
      else if \<not> pa_wants_credentials p \<and> pa_client_key p = None then Inl NoAuthentication
      else let digest = (case pa_digest p of Some d \<Rightarrow> d | None \<Rightarrow> Sha1)
           in case control_auth_of p digest of
                Inl e \<Rightarrow> Inl e
              | Inr control_auth \<Rightarrow>
                  (let data_ciphers = offered_ciphers p
                   in Inr \<lparr>oc_remotes = map (settle_remote p) (pa_remotes p), oc_ca = pa_ca p,
                           oc_client_certs = pa_client_certs p, oc_client_key = pa_client_key p,
                           oc_control_auth = control_auth, oc_data_ciphers = data_ciphers,
                           oc_fallback_cipher = (case pa_legacy_cipher p of
                                                   Some cipher \<Rightarrow> cipher
                                                 | None \<Rightarrow> if data_ciphers = [] then Aes256Gcm else hd data_ciphers),
                           oc_digest = digest, oc_wants_credentials = pa_wants_credentials p,
                           oc_server_name = pa_server_name p, oc_reneg_seconds = pa_reneg_seconds p,
                           oc_tun_mtu = (case pa_tun_mtu p of Some m \<Rightarrow> m | None \<Rightarrow> 1500)\<rparr>))"

definition config_parse :: "pem_lib \<Rightarrow> string \<Rightarrow> config_error + OpenVpnConfig" where
  "config_parse P source =
     (case run_lines P (lines_of source) parser_default of Inl e \<Rightarrow> Inl e | Inr p \<Rightarrow> finish_config p)"

text \<open>What the two ends compare, and what the client tells the server of itself.\<close>

definition options_string :: "OpenVpnConfig \<Rightarrow> RemoteProtocol \<Rightarrow> string" where
  "options_string c protocol =
     ''V4,dev-type tun,link-mtu 1549'' @ '',tun-mtu '' @ show_nat (unat (oc_tun_mtu c))
     @ '',proto '' @ options_name protocol @ '',cipher '' @ cipher_name (oc_fallback_cipher c)
     @ '',auth '' @ digest_name (oc_digest c) @ '',keysize '' @ show_nat (key_len (oc_fallback_cipher c) * 8)
     @ '',key-method 2,tls-client''"

definition PEER_INFO_IV_PROTO :: nat where "PEER_INFO_IV_PROTO = 22"

fun join_with :: "string \<Rightarrow> string list \<Rightarrow> string" where
  "join_with sep [] = []"
| "join_with sep [x] = x"
| "join_with sep (x # y # xs) = x @ sep @ join_with sep (y # xs)"

definition peer_info :: "OpenVpnConfig \<Rightarrow> Remote \<Rightarrow> string" where
  "peer_info c remote =
     concat (map (\<lambda>line. line @ [CHR 0x0A])
       [''IV_VER=2.6.0'', ''IV_PLAT=win'', ''IV_TCPNL=1'', ''IV_MTU='' @ show_nat (unat (oc_tun_mtu c)), ''IV_NCP=2'',
        ''IV_CIPHERS='' @ join_with '':'' (map cipher_name (oc_data_ciphers c)),
        ''IV_PROTO='' @ show_nat PEER_INFO_IV_PROTO, ''IV_LZO_STUB=1'', ''IV_COMP_STUB=1'', ''IV_COMP_STUBv2=1'',
        ''UV_ENDPOINT='' @ endpoint remote])"


subsection \<open>A file as a list of items\<close>

text \<open>
  The parser's reading of a file without its state: which lines are directives and which open a block. The
  parser folds \<open>apply_item\<close> over it (\<open>run_lines_items\<close>), so what it keeps is proved item by item.
\<close>

datatype config_item = Line string "string list" | Block string string

function file_items :: "string list \<Rightarrow> config_item list option" where
  "file_items [] = Some []"
| "file_items (line # lines) =
     (let line = strip_comment line
      in case inline_open_tag line of
           Some tag \<Rightarrow>
             (case collect_inline tag lines of
                None \<Rightarrow> None
              | Some (body, rest) \<Rightarrow> map_option (Cons (Block tag body)) (file_items rest))
         | None \<Rightarrow>
             (case tokenize line of
                [] \<Rightarrow> file_items lines
              | name # arguments \<Rightarrow> map_option (Cons (Line name arguments)) (file_items lines)))"
  by pat_completeness auto
termination by (relation "measure length") (auto dest: collect_inline_shorter)

fun apply_item :: "pem_lib \<Rightarrow> config_item \<Rightarrow> Parser \<Rightarrow> config_error + Parser" where
  "apply_item P (Line name arguments) p = directive name arguments p"
| "apply_item P (Block tag body) p = inline_block P tag body p"

fun run_items :: "pem_lib \<Rightarrow> config_item list \<Rightarrow> Parser \<Rightarrow> config_error + Parser" where
  "run_items P [] p = Inr p"
| "run_items P (i # is) p = (case apply_item P i p of Inl e \<Rightarrow> Inl e | Inr p \<Rightarrow> run_items P is p)"

lemma inline_open_tag_Nil [simp]: "inline_open_tag [] = None"
  by (simp add: inline_open_tag_def strip_prefix_def)

lemma tokenize_Nil [simp]: "tokenize [] = []"
  by (simp add: tokenize_def)

lemma run_lines_items:
  "run_lines P lines p = Inr q \<Longrightarrow> \<exists>is. file_items lines = Some is \<and> run_items P is p = Inr q"
proof (induction P lines p arbitrary: q rule: run_lines.induct)
  case (2 P line lines p)
  show ?case
  proof (cases "strip_comment line = []")
    case True
    then show ?thesis using 2 by (simp add: Let_def)
  next
    case False
    show ?thesis
    proof (cases "inline_open_tag (strip_comment line)")
      case None
      then show ?thesis
        using 2 False by (cases "tokenize (strip_comment line)") (fastforce simp: Let_def split: sum.splits)+
    next
      case (Some tag)
      then show ?thesis using 2 False by (fastforce simp: Let_def split: option.splits sum.splits)
    qed
  qed
qed simp

text \<open>An invariant every item keeps holds at the end of the file.\<close>

lemma run_items_invariant:
  assumes "run_items P is p = Inr q" "I p"
    and step: "\<And>i p q. i \<in> set is \<Longrightarrow> apply_item P i p = Inr q \<Longrightarrow> I p \<Longrightarrow> I q"
  shows "I q"
  using assms
proof (induction "is" arbitrary: p)
  case (Cons i "is")
  obtain r where r: "apply_item P i p = Inr r" "run_items P is r = Inr q"
    using Cons.prems(1) by (auto split: sum.splits)
  have "I r" using Cons.prems(2) Cons.prems(3)[OF _ r(1)] by simp
  then show ?case by (rule Cons.IH[OF r(2) _ Cons.prems(3)]) simp_all
qed simp

lemma connection_lines_invariant:
  assumes "connection_lines lines p = Inr q" "I p"
    and step: "\<And>line name arguments p q. line \<in> set lines \<Longrightarrow> tokenize (strip_comment line) = name # arguments \<Longrightarrow>
           directive name arguments p = Inr q \<Longrightarrow> I p \<Longrightarrow> I q"
  shows "I q"
  using assms
proof (induction lines arbitrary: p)
  case (Cons line lines)
  obtain r where r: "connection_lines lines r = Inr q"
    "r = p \<or> (\<exists>name arguments. tokenize (strip_comment line) = name # arguments \<and> directive name arguments p = Inr r)"
    using Cons.prems(1) by (auto split: list.splits if_splits sum.splits)
  have "I r" using r(2) Cons.prems(2) Cons.prems(3) by (metis list.set_intros(1))
  then show ?case by (rule Cons.IH[OF r(1) _ Cons.prems(3)]) simp_all
qed simp

lemma tokenize_loop_nonempty:
  "list_all (\<lambda>t. t \<noteq> []) tokens \<Longrightarrow> list_all (\<lambda>t. t \<noteq> []) (tokenize_loop tokens current quoted cs)"
  by (induction tokens current quoted cs rule: tokenize_loop.induct) auto

lemma tokenize_nonempty: "list_all (\<lambda>t. t \<noteq> []) (tokenize line)"
  by (simp add: tokenize_def tokenize_loop_nonempty)

subsection \<open>What the parser keeps\<close>

definition port_ok :: "u16 option \<Rightarrow> bool" where
  "port_ok port \<longleftrightarrow> port \<noteq> Some 0"

definition static_ok :: "StaticKey option \<Rightarrow> bool" where
  "static_ok key \<longleftrightarrow> (case key of None \<Rightarrow> True | Some k \<Rightarrow> length k = 256)"

definition parser_ok :: "pem_lib \<Rightarrow> Parser \<Rightarrow> bool" where
  "parser_ok P p \<longleftrightarrow>
     list_all (\<lambda>r. pr_host r \<noteq> [] \<and> port_ok (pr_port r)) (pa_remotes p) \<and> port_ok (pa_port p)
     \<and> pa_ciphers p \<noteq> Some [] \<and> static_ok (pa_tls_auth p) \<and> static_ok (pa_tls_crypt p)
     \<and> (case pa_client_key p of None \<Rightarrow> True | Some k \<Rightarrow> pem_key P k = Some True)"

lemma parse_port_nonzero: "parse_port s = Inr v \<Longrightarrow> v \<noteq> 0"
  by (auto simp: parse_port_def split: option.splits if_splits)

lemma optionally_port: "optionally parse_port x = Inr v \<Longrightarrow> port_ok v"
  by (auto simp: optionally_def port_ok_def dest: parse_port_nonzero split: option.splits sum.splits)

lemma hex_bytes_length: "length (hex_bytes s) = length s div 2"
  by (induction s rule: hex_bytes.induct) auto

lemma read_static_key_length: "read_static_key body tag = Inr k \<Longrightarrow> length k = 256"
  by (auto simp: read_static_key_def Let_def hex_bytes_length split: if_splits)

lemma remote_directive_ok:
  assumes "remote_directive arguments p = Inr q" "parser_ok P p" "list_all (\<lambda>t. t \<noteq> []) arguments"
  shows "parser_ok P q"
proof -
  obtain port protocol where
    q: "q = p\<lparr>pa_remotes := pa_remotes p @ [\<lparr>pr_host = hd arguments, pr_port = port, pr_protocol = protocol\<rparr>]\<rparr>"
    and "arguments \<noteq> []" "optionally parse_port (argument arguments 1) = Inr port"
    using assms(1) by (auto simp: remote_directive_def argument_def hd_conv_nth split: sum.splits if_splits)
  then have "hd arguments \<noteq> []" "port_ok port"
    using assms(3) by (auto simp: list_all_iff intro: optionally_port)
  then show ?thesis using assms(2) by (simp add: q parser_ok_def)
qed

lemma ciphers_directive_ok:
  "ciphers_directive arguments p = Inr q \<Longrightarrow> parser_ok P p \<Longrightarrow> parser_ok P q"
  by (auto simp: ciphers_directive_def parser_ok_def Let_def split: option.splits if_splits)

text \<open>The directives that leave every field the invariant looks at alone.\<close>

definition parser_view :: "Parser \<Rightarrow> PendingRemote list \<times> u16 option \<times> DataCipher list option \<times> StaticKey option \<times> StaticKey option \<times> string option" where
  "parser_view p = (pa_remotes p, pa_port p, pa_ciphers p, pa_tls_auth p, pa_tls_crypt p, pa_client_key p)"

lemma parser_view_ok: "parser_view q = parser_view p \<Longrightarrow> parser_ok P q = parser_ok P p"
  by (simp add: parser_view_def parser_ok_def)

lemma directive_view:
  assumes "directive name arguments p = Inr q"
    "directive_name name \<noteq> ''remote''" "directive_name name \<noteq> ''data-ciphers''" "directive_name name \<noteq> ''ncp-ciphers''"
    "directive_name name \<noteq> ''port''" "directive_name name \<noteq> ''rport''"
  shows "parser_view q = parser_view p"
  using assms(1)
  by (auto simp: directive_def Let_def assms(2-) parser_view_def split: if_split_asm option.split_asm sum.split_asm)

lemma directive_ok:
  assumes "directive name arguments p = Inr q" "parser_ok P p" "list_all (\<lambda>t. t \<noteq> []) arguments"
  shows "parser_ok P q"
proof -
  consider "directive_name name = ''remote''" | "directive_name name = ''data-ciphers'' \<or> directive_name name = ''ncp-ciphers''"
    | "directive_name name = ''port'' \<or> directive_name name = ''rport''" | "parser_view q = parser_view p"
    using directive_view[OF assms(1)] by metis
  then show ?thesis
  proof cases
    case 1
    then show ?thesis
      using assms remote_directive_ok by (simp add: directive_def UNSUPPORTED_CERTIFICATE_CHECKS_def)
  next
    case 2
    then show ?thesis
      using assms(1) ciphers_directive_ok[OF _ assms(2)] by (elim disjE) (simp_all add: directive_def UNSUPPORTED_CERTIFICATE_CHECKS_def)
  next
    case 3
    then have "\<exists>v. q = p\<lparr>pa_port := Some v\<rparr> \<and> v \<noteq> 0"
      using assms(1) by (elim disjE) (auto simp: directive_def UNSUPPORTED_CERTIFICATE_CHECKS_def
          dest: parse_port_nonzero split: option.split_asm sum.split_asm)
    then show ?thesis using assms(2) by (auto simp: parser_ok_def port_ok_def)
  next
    case 4
    then show ?thesis using assms(2) parser_view_ok by blast
  qed
qed

lemma tokens_nonempty: "tokenize line = name # arguments \<Longrightarrow> list_all (\<lambda>t. t \<noteq> []) arguments"
  using tokenize_nonempty[of line] by simp

lemma connection_lines_ok: "connection_lines lines p = Inr q \<Longrightarrow> parser_ok P p \<Longrightarrow> parser_ok P q"
  by (erule connection_lines_invariant) (auto intro: directive_ok tokens_nonempty)

lemma inline_block_ok:
  assumes "inline_block P tag body p = Inr q" "parser_ok P p"
  shows "parser_ok P q"
proof -
  consider "tag \<in> set UNSUPPORTED_CERTIFICATE_CHECKS" | "tag = ''connection''"
    | "tag \<notin> set UNSUPPORTED_CERTIFICATE_CHECKS" "tag \<noteq> ''connection''"
    by blast
  then show ?thesis
  proof cases
    case 1
    then show ?thesis using assms directive_ok[of tag "[]"] by (simp add: inline_block_def)
  next
    case 2
    then show ?thesis
      using assms connection_lines_ok by (simp add: inline_block_def UNSUPPORTED_CERTIFICATE_CHECKS_def)
  next
    case 3
    then show ?thesis
      using assms by (auto simp: inline_block_def parser_ok_def static_ok_def read_private_key_def
          dest: read_static_key_length split: if_split_asm option.split_asm sum.split_asm)
  qed
qed

lemma file_items_arguments:
  "file_items lines = Some is \<Longrightarrow> Line name arguments \<in> set is \<Longrightarrow> list_all (\<lambda>t. t \<noteq> []) arguments"
proof (induction lines arbitrary: "is" rule: file_items.induct)
  case (2 line lines)
  then show ?case
    by (auto simp: Let_def intro: tokens_nonempty split: option.split_asm list.split_asm)
qed simp

lemma parsed_ok:
  assumes "file_items lines = Some is" "run_items P is parser_default = Inr q"
  shows "parser_ok P q"
  using assms(2)
proof (rule run_items_invariant)
  show "parser_ok P parser_default"
    by (simp add: parser_ok_def parser_default_def port_ok_def static_ok_def)
  fix i p q assume step: "i \<in> set is" "apply_item P i p = Inr q" "parser_ok P p"
  show "parser_ok P q"
    using step by (cases i rule: config_item.exhaust) (auto intro: directive_ok inline_block_ok file_items_arguments[OF assms(1)])
qed

definition control_keys_ok :: "ControlAuth \<Rightarrow> bool" where
  "control_keys_ok auth \<longleftrightarrow>
     (case auth of NoControlAuth \<Rightarrow> True | TlsAuthKey key _ _ \<Rightarrow> length key = 256 | TlsCryptKey key \<Rightarrow> length key = 256)"

definition config_usable :: "pem_lib \<Rightarrow> OpenVpnConfig \<Rightarrow> bool" where
  "config_usable P c \<longleftrightarrow>
     oc_remotes c \<noteq> [] \<and> list_all (\<lambda>r. re_host r \<noteq> [] \<and> re_port r \<noteq> 0) (oc_remotes c) \<and> oc_ca c \<noteq> []
     \<and> (oc_client_certs c = [] \<longleftrightarrow> oc_client_key c = None)
     \<and> (oc_wants_credentials c \<or> (\<exists>key. oc_client_key c = Some key \<and> pem_key P key = Some True))
     \<and> oc_data_ciphers c \<noteq> [] \<and> control_keys_ok (oc_control_auth c)"

lemma control_auth_of_ok:
  "control_auth_of p digest = Inr auth \<Longrightarrow> parser_ok P p \<Longrightarrow> control_keys_ok auth"
  by (auto simp: control_auth_of_def control_keys_ok_def parser_ok_def static_ok_def split: option.split_asm if_split_asm)

lemma settle_remote_ok:
  "parser_ok P p \<Longrightarrow> r \<in> set (pa_remotes p) \<Longrightarrow> re_host (settle_remote p r) \<noteq> [] \<and> re_port (settle_remote p r) \<noteq> 0"
  by (auto simp: settle_remote_def parser_ok_def port_ok_def list_all_iff split: option.split)

lemma offered_ciphers_nonempty: "parser_ok P p \<Longrightarrow> offered_ciphers p \<noteq> []"
  by (auto simp: offered_ciphers_def parser_ok_def DEFAULT_CIPHERS_def split: option.split)

lemma finish_config_usable:
  assumes "finish_config p = Inr c" "parser_ok P p"
  shows "config_usable P c"
proof -
  obtain digest auth where auth: "control_auth_of p digest = Inr auth" "oc_control_auth c = auth"
    using assms(1) by (auto simp: finish_config_def Let_def split: if_split_asm sum.split_asm)
  have fields: "oc_remotes c = map (settle_remote p) (pa_remotes p)" "pa_remotes p \<noteq> []" "oc_ca c = pa_ca p" "pa_ca p \<noteq> []"
    "oc_client_certs c = pa_client_certs p" "oc_client_key c = pa_client_key p" "(pa_client_certs p = []) = (pa_client_key p = None)"
    "oc_wants_credentials c = pa_wants_credentials p" "pa_wants_credentials p \<or> pa_client_key p \<noteq> None"
    "oc_data_ciphers c = offered_ciphers p"
    using assms(1) by (auto simp: finish_config_def Let_def split: if_split_asm sum.split_asm)
  have "pa_client_key p = Some key \<Longrightarrow> pem_key P key = Some True" for key
    using assms(2) by (simp add: parser_ok_def)
  then show ?thesis
    using fields auth control_auth_of_ok[OF auth(1) assms(2)] settle_remote_ok[OF assms(2)] offered_ciphers_nonempty[OF assms(2)]
    by (auto simp: config_usable_def list_all_iff)
qed

lemma config_parse_run:
  assumes "config_parse P source = Inr c"
  obtains "is" p where "file_items (lines_of source) = Some is" "run_items P is parser_default = Inr p" "finish_config p = Inr c"
  using assms run_lines_items by (fastforce simp: config_parse_def split: sum.split_asm)

text \<open>
  C31. A configuration the parser accepts can be used as it is: it names a server, each with a host and a
  port that is not zero; it holds a certificate authority; a client certificate and its key come together;
  there are credentials to ask for or a key that was read; there is a cipher to offer; and a static key of
  the control channel is a whole key of 256 bytes.
\<close>

theorem accepted_config_is_usable:
  assumes "config_parse P source = Inr c"
  shows "config_usable P c"
  using assms by (rule config_parse_run) (auto intro: finish_config_usable parsed_ok)

definition sample_lib :: pem_lib where
  "sample_lib = \<lparr>pem_certs = (\<lambda>_. Some [[48]]), pem_key = (\<lambda>_. None)\<rparr>"

definition sample_file :: string where
  "sample_file = concat (map (\<lambda>line. line @ [CHR 0x0A])
     [''remote vpn.example 443 tcp'', ''<ca>'', ''MIIB'', ''</ca>'', ''auth-user-pass''])"

lemma sample_lines: "lines_of sample_file = [''remote vpn.example 443 tcp'', ''<ca>'', ''MIIB'', ''</ca>'', ''auth-user-pass'']"
  by code_simp

lemma sample_remote_line:
  "inline_open_tag (strip_comment ''remote vpn.example 443 tcp'') = None"
  "tokenize (strip_comment ''remote vpn.example 443 tcp'') = [''remote'', ''vpn.example'', ''443'', ''tcp'']"
  by (code_simp, code_simp)

lemma sample_credentials_line:
  "inline_open_tag (strip_comment ''auth-user-pass'') = None" "tokenize (strip_comment ''auth-user-pass'') = [''auth-user-pass'']"
  by (code_simp, code_simp)

lemma sample_authority_block:
  "inline_open_tag (strip_comment ''<ca>'') = Some ''ca''"
  "collect_inline ''ca'' [''MIIB'', ''</ca>'', ''auth-user-pass''] = Some (''MIIB'' @ [CHR 0x0A], [''auth-user-pass''])"
  by (code_simp, code_simp)

lemmas sample_texts = sample_remote_line sample_credentials_line sample_authority_block

lemma sample_items: "file_items (lines_of sample_file) =
   Some [Line ''remote'' [''vpn.example'', ''443'', ''tcp''], Block ''ca'' (''MIIB'' @ [CHR 0x0A]), Line ''auth-user-pass'' []]"
  unfolding sample_lines file_items.simps Let_def sample_texts option.case list.case prod.case option.map ..

lemma sample_remote: "remote_directive [''vpn.example'', ''443'', ''tcp''] p =
   Inr (p\<lparr>pa_remotes := pa_remotes p @ [\<lparr>pr_host = ''vpn.example'', pr_port = Some 443, pr_protocol = Some Tcp\<rparr>]\<rparr>)"
proof -
  have "parse_port ''443'' = Inr 443"
    by (simp add: parse_port_def parse_u16_def parse_u32_def digit_value_def)
  moreover have "parse_protocol ''tcp'' = Inr Tcp" by code_simp
  ultimately show ?thesis by (simp add: remote_directive_def argument_def optionally_def)
qed

definition sample_config :: OpenVpnConfig where
  "sample_config =
     \<lparr>oc_remotes = [\<lparr>re_host = ''vpn.example'', re_port = 443, re_protocol = Tcp\<rparr>], oc_ca = [[48]], oc_client_certs = [],
      oc_client_key = None, oc_control_auth = NoControlAuth, oc_data_ciphers = DEFAULT_CIPHERS, oc_fallback_cipher = Aes256Gcm,
      oc_digest = Sha1, oc_wants_credentials = True, oc_server_name = None, oc_reneg_seconds = None, oc_tun_mtu = 1500\<rparr>"

lemma sample_parse: "config_parse sample_lib sample_file = Inr sample_config"
proof -
  have remote: "directive ''remote'' arguments p = remote_directive arguments p" for arguments p
    by (simp add: directive_def directive_name_def strip_prefix_def UNSUPPORTED_CERTIFICATE_CHECKS_def)
  have credentials: "directive ''auth-user-pass'' [] p = Inr (p\<lparr>pa_wants_credentials := True\<rparr>)" for p
    by (simp add: directive_def directive_name_def strip_prefix_def UNSUPPORTED_CERTIFICATE_CHECKS_def argument_def)
  have authority: "inline_block sample_lib ''ca'' body p = Inr (p\<lparr>pa_ca := [[48]]\<rparr>)" for body p
    by (simp add: inline_block_def UNSUPPORTED_CERTIFICATE_CHECKS_def read_certificates_def sample_lib_def)
  have comments: "strip_comment ''remote vpn.example 443 tcp'' \<noteq> []" "strip_comment ''<ca>'' \<noteq> []" "strip_comment ''auth-user-pass'' \<noteq> []"
    using sample_texts by force+
  have run: "run_lines sample_lib (lines_of sample_file) parser_default =
    Inr (parser_default\<lparr>pa_remotes := [\<lparr>pr_host = ''vpn.example'', pr_port = Some 443, pr_protocol = Some Tcp\<rparr>],
                        pa_ca := [[48]], pa_wants_credentials := True\<rparr>)"
    by (simp only: sample_lines run_lines.simps Let_def sample_texts option.case list.case prod.case sum.case remote sample_remote
        credentials authority comments if_False) (simp add: parser_default_def)
  show ?thesis
    by (simp only: config_parse_def run sum.case)
      (simp add: finish_config_def parser_default_def control_auth_of_def offered_ciphers_def settle_remote_def sample_config_def
        DEFAULT_CIPHERS_def)
qed

theorem accepted_config_is_usable_witness:
  "config_parse sample_lib sample_file = Inr sample_config \<and> config_usable sample_lib sample_config"
  using accepted_config_is_usable[OF sample_parse] sample_parse by simp

subsection \<open>What an accepted file does not hold\<close>





















text \<open>
  Of a \<^verbatim>\<open><connection>\<close> block only the lines that name a server, a protocol, a port or a certificate check are
  read. A proxy, fragmentation, compression or a name check in it is passed over, neither honoured nor refused.
\<close>

definition connection_reads :: "string \<Rightarrow> bool" where
  "connection_reads line \<longleftrightarrow>
     (case tokenize (strip_comment line) of
        [] \<Rightarrow> False
      | name # _ \<Rightarrow> directive_name name \<in> {''remote'', ''proto'', ''port'', ''rport''}
                     \<or> directive_name name \<in> set UNSUPPORTED_CERTIFICATE_CHECKS)"

lemma connection_reads_only: "connection_lines lines p = connection_lines (filter connection_reads lines) p"
proof (induction lines arbitrary: p)
  case (Cons line lines)
  then show ?case
    by (cases "tokenize (strip_comment line)") (auto simp: connection_reads_def split: sum.split)
qed simp

text \<open>
  A \<^verbatim>\<open>port\<close> line inside a \<^verbatim>\<open><connection>\<close> block is read as the file's own, and the file's port is put before
  the one a \<^verbatim>\<open>remote\<close> line names: every server of the file is dialled at that port.
\<close>

lemma file_port_moves_every_remote:
  assumes "finish_config p = Inr c" "pa_port p = Some port"
  shows "list_all (\<lambda>r. re_port r = port) (oc_remotes c)"
  using assms
  by (auto simp: finish_config_def Let_def settle_remote_def list_all_iff split: if_split_asm sum.split_asm)

lemma connection_port_is_file_port:
  assumes "tokenize (strip_comment line) = [''port'', value]" "parse_port value = Inr port"
  shows "connection_lines [line] p = Inr (p\<lparr>pa_port := Some port\<rparr>)"
  using assms by (simp add: UNSUPPORTED_CERTIFICATE_CHECKS_def directive_def directive_name_def
      strip_prefix_def argument_def)

end
