(* ===== verification/Socks_Resolver.thy ===== *)
theory Socks_Resolver
  imports Dns "HOL-Library.Multiset"
begin

section \<open>Where the proxy's flows leave, and its resolver (\<^verbatim>\<open>socks/egress.rs\<close>, \<^verbatim>\<open>socks/resolver.rs\<close>)\<close>

text \<open>
  The egress is a trait with two implementations, the user-space stack of the tunnel and ordinary
  sockets; here it is a record of functions over a state of its own, and nothing is assumed of it
  but what a theorem names. The resolver asks all its servers at once and keeps, per name, the
  connections and datagrams that wait for the answer. A loop that reads until the egress has nothing
  more is a partial function: \<open>None\<close> means that it never ends.

  The random query id is an argument. Hash maps are association lists with distinct keys, whose order
  stands for the iteration order.
\<close>

type_synonym addr4 = "ipv4 \<times> u16"

datatype TcpState = Tcp_Connecting | Tcp_Open | Remote_Closed | Tcp_Closed | Tcp_Refused

record 'e Egress =
  eg_tcp_connect :: "addr4 \<Rightarrow> 'e \<Rightarrow> 'e \<times> (string + nat)"
  eg_tcp_state :: "nat \<Rightarrow> 'e \<Rightarrow> 'e \<times> TcpState"
  eg_tcp_send :: "nat \<Rightarrow> bytes \<Rightarrow> 'e \<Rightarrow> 'e \<times> nat"
  eg_tcp_recv :: "nat \<Rightarrow> nat \<Rightarrow> 'e \<Rightarrow> 'e \<times> bytes"
  eg_tcp_send_idle :: "nat \<Rightarrow> 'e \<Rightarrow> 'e \<times> bool"
  eg_tcp_shutdown :: "nat \<Rightarrow> 'e \<Rightarrow> 'e"
  eg_tcp_release :: "nat \<Rightarrow> 'e \<Rightarrow> 'e"
  eg_udp_open :: "'e \<Rightarrow> 'e \<times> (string + nat)"
  eg_udp_send :: "nat \<Rightarrow> addr4 \<Rightarrow> bytes \<Rightarrow> 'e \<Rightarrow> 'e \<times> bool"
  eg_udp_recv :: "nat \<Rightarrow> 'e \<Rightarrow> 'e \<times> (addr4 \<times> bytes) option"
  eg_udp_release :: "nat \<Rightarrow> 'e \<Rightarrow> 'e"
  eg_on_event :: "nat \<Rightarrow> bool \<Rightarrow> bool \<Rightarrow> 'e \<Rightarrow> 'e"
  eg_drive :: "'e \<Rightarrow> 'e \<times> duration option"
  eg_resolvers :: "'e \<Rightarrow> ipv4 list"
  eg_dropped_inbound :: "'e \<Rightarrow> nat"

definition destination_allowed :: "ipv4 \<Rightarrow> bool" where
  "destination_allowed a \<longleftrightarrow>
     \<not> (a = [0, 0, 0, 0] \<or> is_loopback a \<or> (224 \<le> a ! 0 \<and> a ! 0 \<le> 239) \<or> a = [255, 255, 255, 255]
        \<or> is_link_local a \<or> a ! 0 = 0 \<or> 240 \<le> a ! 0)"

subsection \<open>The resolver\<close>

definition RETRY_INTERVAL :: duration where "RETRY_INTERVAL = millis 700"
definition QUERY_TIMEOUT :: duration where "QUERY_TIMEOUT = secs 4"
definition MIN_TTL :: duration where "MIN_TTL = secs 30"
definition MAX_TTL :: duration where "MAX_TTL = secs 600"
definition NEGATIVE_TTL :: duration where "NEGATIVE_TTL = secs 10"
definition CACHE_LIMIT :: nat where "CACHE_LIMIT = 4096"

record 'w Query =
  qy_id :: u16
  qy_message :: bytes
  qy_started :: instant
  qy_last_sent :: instant
  qy_waiters :: "'w list"

record 'w Resolver =
  rv_flow :: "nat option"
  rv_servers :: "ipv4 list"
  rv_pending :: "(string \<times> 'w Query) list"
  rv_cache :: "(string \<times> ipv4 list option \<times> instant) list"
  rv_rotation :: u64

datatype Lookup = Lookup_Ready ipv4 | Lookup_Pending | Lookup_Failed string

text \<open>The remainder by zero of an empty list would panic; lemma \<open>resolver_ok_poll\<close> shows that it is never asked for.\<close>

fun pick :: "u64 \<Rightarrow> ipv4 list \<Rightarrow> u64 \<times> ipv4" where
  "pick rotation [] = (rotation + 1, [])"
| "pick rotation (a # as) = (rotation + 1, (a # as) ! (unat (rotation + 1) mod length (a # as)))"

definition resolver_new :: "ipv4 list \<Rightarrow> 'w Resolver" where
  "resolver_new servers = \<lparr>rv_flow = None, rv_servers = servers, rv_pending = [], rv_cache = [], rv_rotation = 0\<rparr>"

text \<open>The query, to every server.\<close>

definition ask_servers :: "('e, 'x) Egress_scheme \<Rightarrow> nat \<Rightarrow> ipv4 list \<Rightarrow> bytes \<Rightarrow> 'e \<Rightarrow> 'e" where
  "ask_servers E flow servers message e = fold (\<lambda>server e. fst (eg_udp_send E flow (server, 53) message e)) servers e"

definition start_query ::
  "('e, 'x) Egress_scheme \<Rightarrow> u16 \<Rightarrow> instant \<Rightarrow> string \<Rightarrow> 'w \<Rightarrow> nat \<Rightarrow> 'w Resolver \<times> 'e \<Rightarrow> ('w Resolver \<times> 'e) \<times> Lookup" where
  "start_query E i now name waiter flow = (\<lambda>(rv, e).
     case dns_query i name of
       None \<Rightarrow> ((rv, e), Lookup_Failed (name @ '' is not a valid hostname''))
     | Some message \<Rightarrow>
         ((rv\<lparr>rv_pending := AList.update name
                \<lparr>qy_id = i, qy_message = message, qy_started = now, qy_last_sent = now, qy_waiters = [waiter]\<rparr> (rv_pending rv)\<rparr>,
           ask_servers E flow (rv_servers rv) message e), Lookup_Pending))"

text \<open>Past the cache: join a running lookup, or start one.\<close>

definition join_query ::
  "('e, 'x) Egress_scheme \<Rightarrow> u16 \<Rightarrow> instant \<Rightarrow> string \<Rightarrow> 'w \<Rightarrow> 'w Resolver \<times> 'e \<Rightarrow> ('w Resolver \<times> 'e) \<times> Lookup" where
  "join_query E i now name waiter = (\<lambda>(rv, e).
     case map_of (rv_pending rv) name of
       Some q \<Rightarrow>
         ((rv\<lparr>rv_pending := AList.update name (q\<lparr>qy_waiters := qy_waiters q @ [waiter]\<rparr>) (rv_pending rv)\<rparr>, e), Lookup_Pending)
     | None \<Rightarrow>
         (case rv_flow rv of
            Some flow \<Rightarrow> start_query E i now name waiter flow (rv, e)
          | None \<Rightarrow>
              (case eg_udp_open E e of
                 (e, Inl reason) \<Rightarrow> ((rv, e), Lookup_Failed reason)
               | (e, Inr flow) \<Rightarrow> start_query E i now name waiter flow (rv\<lparr>rv_flow := Some flow\<rparr>, e))))"

definition lookup_name ::
  "('e, 'x) Egress_scheme \<Rightarrow> u16 \<Rightarrow> instant \<Rightarrow> string \<Rightarrow> 'w \<Rightarrow> 'w Resolver \<times> 'e \<Rightarrow> ('w Resolver \<times> 'e) \<times> Lookup" where
  "lookup_name E i now name waiter = (\<lambda>(rv, e).
     case map_of (rv_cache rv) name of
       Some (addresses, expires) \<Rightarrow>
         if now < expires
         then (case addresses of
                 Some as \<Rightarrow> (let (rotation, a) = pick (rv_rotation rv) as
                             in ((rv\<lparr>rv_rotation := rotation\<rparr>, e), Lookup_Ready a))
               | None \<Rightarrow> ((rv, e), Lookup_Failed (name @ '' did not resolve'')))
         else join_query E i now name waiter (rv, e)
     | None \<Rightarrow> join_query E i now name waiter (rv, e))"

text \<open>The waiters of an answered query, each with the address it gets.\<close>

fun answer_waiters :: "string \<Rightarrow> ipv4 list option \<Rightarrow> 'w list \<Rightarrow> u64 \<Rightarrow> u64 \<times> ('w \<times> (string + ipv4)) list" where
  "answer_waiters name addresses [] rotation = (rotation, [])"
| "answer_waiters name addresses (w # ws) rotation =
     (case addresses of
        Some as \<Rightarrow> (let (rotation, a) = pick rotation as; (rotation, rest) = answer_waiters name addresses ws rotation
                    in (rotation, (w, Inr a) # rest))
      | None \<Rightarrow> (let (rotation, rest) = answer_waiters name addresses ws rotation
                 in (rotation, (w, Inl (name @ '' has no IPv4 address'')) # rest)))"

definition remember_answer :: "string \<Rightarrow> ipv4 list option \<Rightarrow> duration \<Rightarrow> instant \<Rightarrow> 'w Resolver \<Rightarrow> 'w Resolver" where
  "remember_answer name addresses ttl now rv =
     (let cache = (if length (rv_cache rv) \<ge> CACHE_LIMIT
                   then let kept = filter (\<lambda>(_, _, expires). expires > now) (rv_cache rv)
                        in if length kept \<ge> CACHE_LIMIT then [] else kept
                   else rv_cache rv)
      in rv\<lparr>rv_cache := AList.update name (addresses, now + ttl) cache\<rparr>)"

definition find_answer :: "bytes \<Rightarrow> (string \<times> 'w Query) list \<Rightarrow> (string \<times> Answer) option" where
  "find_answer response pending =
     (case find (\<lambda>(name, q). read_answer response (qy_id q) \<noteq> None) pending of
        None \<Rightarrow> None
      | Some (name, q) \<Rightarrow> map_option (Pair name) (read_answer response (qy_id q)))"

definition accept_response ::
  "instant \<Rightarrow> addr4 \<Rightarrow> bytes \<Rightarrow> 'w Resolver \<Rightarrow> 'w Resolver \<times> ('w \<times> (string + ipv4)) list" where
  "accept_response now from response rv =
     (if snd from \<noteq> 53 \<or> fst from \<notin> set (rv_servers rv) then (rv, [])
      else case find_answer response (rv_pending rv) of
             None \<Rightarrow> (rv, [])
           | Some (name, answer) \<Rightarrow>
               (case map_of (rv_pending rv) name of
                  None \<Rightarrow> (rv, [])
                | Some q \<Rightarrow>
                    (let (addresses, ttl) = (case answer of
                           Addresses as ttl \<Rightarrow> (Some as, max MIN_TTL (min MAX_TTL (secs (unat ttl))))
                         | NoAddress _ \<Rightarrow> (None, NEGATIVE_TTL));
                         (rotation, finished) = answer_waiters name addresses (qy_waiters q) (rv_rotation rv);
                         rv = rv\<lparr>rv_pending := AList.delete name (rv_pending rv), rv_rotation := rotation\<rparr>
                     in (remember_answer name addresses ttl now rv, finished))))"

partial_function (option) read_responses ::
  "('e, 'x) Egress_scheme \<Rightarrow> instant \<Rightarrow> nat \<Rightarrow> 'w Resolver \<Rightarrow> 'e \<Rightarrow> ('w \<times> (string + ipv4)) list
     \<Rightarrow> ('w Resolver \<times> 'e \<times> ('w \<times> (string + ipv4)) list) option" where
  "read_responses E now flow rv e finished =
     (case snd (eg_udp_recv E flow e) of
        None \<Rightarrow> Some (rv, fst (eg_udp_recv E flow e), finished)
      | Some (from, response) \<Rightarrow>
          read_responses E now flow (fst (accept_response now from response rv)) (fst (eg_udp_recv E flow e))
            (finished @ snd (accept_response now from response rv)))"

definition expire_queries :: "instant \<Rightarrow> 'w Resolver \<Rightarrow> 'w Resolver \<times> ('w \<times> (string + ipv4)) list" where
  "expire_queries now rv =
     (let expired = (\<lambda>q. duration_since now (qy_started q) \<ge> QUERY_TIMEOUT)
      in (rv\<lparr>rv_pending := filter (\<lambda>(_, q). \<not> expired q) (rv_pending rv)\<rparr>,
          concat (map (\<lambda>(name, q). if expired q then map (\<lambda>w. (w, Inl (''no resolver answered for '' @ name))) (qy_waiters q) else [])
                    (rv_pending rv))))"

fun retry_queries ::
  "('e, 'x) Egress_scheme \<Rightarrow> instant \<Rightarrow> nat \<Rightarrow> ipv4 list \<Rightarrow> (string \<times> 'w Query) list \<Rightarrow> 'e \<Rightarrow> (string \<times> 'w Query) list \<times> 'e" where
  "retry_queries E now flow servers [] e = ([], e)"
| "retry_queries E now flow servers ((name, q) # pending) e =
     (let (q, e) = (if duration_since now (qy_last_sent q) \<ge> RETRY_INTERVAL
                    then (q\<lparr>qy_last_sent := now\<rparr>, ask_servers E flow servers (qy_message q) e) else (q, e));
          (pending, e) = retry_queries E now flow servers pending e
      in ((name, q) # pending, e))"

definition poll_lookups ::
  "('e, 'x) Egress_scheme \<Rightarrow> instant \<Rightarrow> 'w Resolver \<times> 'e \<Rightarrow> (('w Resolver \<times> 'e) \<times> ('w \<times> (string + ipv4)) list) option" where
  "poll_lookups E now = (\<lambda>(rv, e).
     case rv_flow rv of
       None \<Rightarrow> Some ((rv, e), [])
     | Some flow \<Rightarrow>
         (case read_responses E now flow rv e [] of
            None \<Rightarrow> None
          | Some (rv, e, finished) \<Rightarrow>
              (let (rv, expired) = expire_queries now rv;
                   (pending, e) = retry_queries E now flow (rv_servers rv) (rv_pending rv) e
               in Some ((rv\<lparr>rv_pending := pending\<rparr>, e), finished @ expired))))"

definition next_lookup_deadline :: "'w Resolver \<Rightarrow> instant option" where
  "next_lookup_deadline rv =
     (case map (\<lambda>(_, q). min (qy_last_sent q + RETRY_INTERVAL) (qy_started q + QUERY_TIMEOUT)) (rv_pending rv) of
        [] \<Rightarrow> None
      | d # ds \<Rightarrow> Some (fold min ds d))"

definition release_lookups :: "('e, 'x) Egress_scheme \<Rightarrow> 'w Resolver \<times> 'e \<Rightarrow> 'w Resolver \<times> 'e" where
  "release_lookups E = (\<lambda>(rv, e).
     case rv_flow rv of
       None \<Rightarrow> (rv, e)
     | Some flow \<Rightarrow> (rv\<lparr>rv_flow := None\<rparr>, eg_udp_release E flow e))"

subsection \<open>No waiter is lost, and none is answered twice\<close>

text \<open>
  A well-formed resolver has one query per name, a flow to ask on when it has asked, and every list of
  addresses it remembers has an address in it.
\<close>

definition resolver_ok :: "'w Resolver \<Rightarrow> bool" where
  "resolver_ok rv \<longleftrightarrow> distinct (map fst (rv_pending rv)) \<and> (rv_pending rv \<noteq> [] \<longrightarrow> rv_flow rv \<noteq> None)
     \<and> (\<forall>(_, as, _) \<in> set (rv_cache rv). as \<noteq> Some [])"

definition waiting :: "'w Resolver \<Rightarrow> 'w list" where
  "waiting rv = concat (map (\<lambda>(_, q). qy_waiters q) (rv_pending rv))"

lemma waiting_delete:
  assumes "distinct (map fst ps)" and "map_of ps k = Some q"
  shows "mset (concat (map (\<lambda>(_, q). qy_waiters q) ps)) =
    mset (qy_waiters q) + mset (concat (map (\<lambda>(_, q). qy_waiters q) (AList.delete k ps)))"
  using assms
proof (induction ps)
  case (Cons p ps)
  show ?case
  proof (cases "fst p = k")
    case True
    then have "map_of ps k = None" using Cons.prems(1) by (auto simp: map_of_eq_None_iff)
    then show ?thesis using True Cons.prems(2) by (simp add: alist_delete_absent case_prod_unfold)
  next
    case False
    then show ?thesis using Cons by (simp add: case_prod_unfold)
  qed
qed simp

lemma waiting_update:
  assumes "distinct (map fst ps)"
  shows "mset (concat (map (\<lambda>(_, q). qy_waiters q) (AList.update k q ps))) =
    mset (qy_waiters q) + mset (concat (map (\<lambda>(_, q). qy_waiters q) (AList.delete k ps)))"
  using assms
proof (induction ps)
  case (Cons p ps)
  show ?case
  proof (cases "fst p = k")
    case True
    then have "map_of ps k = None" using Cons.prems(1) by (auto simp: map_of_eq_None_iff)
    then show ?thesis using True by (cases p) (simp add: alist_delete_absent case_prod_unfold)
  next
    case False
    then show ?thesis using Cons by (cases p) (simp add: case_prod_unfold)
  qed
qed simp

lemma waiting_absent: "map_of ps k = None \<Longrightarrow> AList.delete k ps = ps"
  by (rule alist_delete_absent)

lemma start_query_waiting:
  assumes "resolver_ok rv" and "map_of (rv_pending rv) name = None" and "rv_flow rv \<noteq> None"
    and "start_query E i now name w flow (rv, e) = ((rv', e'), result)"
  shows "resolver_ok rv'" and "mset (waiting rv') = (if result = Lookup_Pending then {#w#} else {#}) + mset (waiting rv)"
  using assms waiting_update [of "rv_pending rv" name] waiting_absent [OF assms(2)]
  by (auto simp: start_query_def resolver_ok_def waiting_def split: option.splits intro: distinct_alist)

lemma join_query_waiting:
  assumes "resolver_ok rv" and "join_query E i now name w (rv, e) = ((rv', e'), result)"
  shows "resolver_ok rv' \<and> mset (waiting rv') = (if result = Lookup_Pending then {#w#} else {#}) + mset (waiting rv)"
proof (cases "map_of (rv_pending rv) name")
  case (Some q)
  then show ?thesis
    using assms waiting_update [of "rv_pending rv" name] waiting_delete [OF _ Some]
    by (auto simp: join_query_def resolver_ok_def waiting_def intro: distinct_alist)
next
  case None
  have ok: "resolver_ok (rv\<lparr>rv_flow := Some f\<rparr>)" "waiting (rv\<lparr>rv_flow := Some f\<rparr>) = waiting rv" for f
    using assms(1) by (simp_all add: resolver_ok_def waiting_def)
  show ?thesis
  proof (cases "rv_flow rv")
    case (Some flow)
    then have "start_query E i now name w flow (rv, e) = ((rv', e'), result)"
      using None assms(2) by (simp add: join_query_def)
    from start_query_waiting [OF assms(1) None _ this] Some show ?thesis by simp
  next
    case no_flow: None
    obtain e1 r where opened: "eg_udp_open E e = (e1, r)" by fastforce
    show ?thesis
    proof (cases r)
      case (Inl reason)
      then show ?thesis using None no_flow opened assms by (auto simp: join_query_def)
    next
      case (Inr flow)
      then have "start_query E i now name w flow (rv\<lparr>rv_flow := Some flow\<rparr>, e1) = ((rv', e'), result)"
        using None no_flow opened assms(2) by (simp add: join_query_def)
      from start_query_waiting [OF ok(1) _ _ this] None ok(2) show ?thesis by simp
    qed
  qed
qed

lemma lookup_waiting:
  assumes "resolver_ok rv" and "lookup_name E i now name w (rv, e) = ((rv', e'), result)"
  shows "resolver_ok rv' \<and> mset (waiting rv') = (if result = Lookup_Pending then {#w#} else {#}) + mset (waiting rv)"
proof -
  have "resolver_ok (rv\<lparr>rv_rotation := n\<rparr>)" "waiting (rv\<lparr>rv_rotation := n\<rparr>) = waiting rv" for n
    using assms(1) by (simp_all add: resolver_ok_def waiting_def)
  then show ?thesis
    using assms join_query_waiting [OF assms(1), of E i now name w e]
    by (auto simp: lookup_name_def split: option.splits prod.splits if_splits)
qed

lemma answer_waiters_all: "map fst (snd (answer_waiters name addresses ws rotation)) = ws"
  by (induction ws arbitrary: rotation) (auto simp: case_prod_unfold Let_def split: option.splits)

lemma read_answer_nonempty: "read_answer response i = Some (Addresses as ttl) \<Longrightarrow> as \<noteq> []"
  by (auto simp: read_answer_def split: ResolverVerdict.splits option.splits if_splits)

lemma find_answer_Some:
  assumes "find_answer response ps = Some (name, answer)" and "distinct (map fst ps)"
  obtains q where "map_of ps name = Some q" "read_answer response (qy_id q) = Some answer"
proof -
  from assms(1) obtain q where "find (\<lambda>(name, q). read_answer response (qy_id q) \<noteq> None) ps = Some (name, q)"
      "read_answer response (qy_id q) = Some answer"
    by (auto simp: find_answer_def split: option.splits)
  then show thesis using that find_Some_in_set map_of_is_SomeI [OF assms(2)] by metis
qed

lemma remember_answer_ok:
  assumes "resolver_ok rv" and "addresses \<noteq> Some []"
  shows "resolver_ok (remember_answer name addresses ttl now rv)"
proof -
  define cache where "cache = (if length (rv_cache rv) \<ge> CACHE_LIMIT
     then let kept = filter (\<lambda>(_, _, expires). expires > now) (rv_cache rv) in if length kept \<ge> CACHE_LIMIT then [] else kept
     else rv_cache rv)"
  have "set cache \<subseteq> set (rv_cache rv)" by (auto simp: cache_def Let_def)
  then have "\<forall>(_, as, _) \<in> set (AList.update name (addresses, now + ttl) cache). as \<noteq> Some []"
    using assms set_alist_update [of _ name] by (fastforce simp: resolver_ok_def)
  then show ?thesis using assms(1) by (simp add: resolver_ok_def remember_answer_def Let_def cache_def)
qed

lemma accept_response_waiting:
  assumes "resolver_ok rv"
  shows "resolver_ok (fst (accept_response now from response rv))"
    and "mset (waiting rv) = mset (map fst (snd (accept_response now from response rv)))
      + mset (waiting (fst (accept_response now from response rv)))"
proof -
  have "resolver_ok (fst (accept_response now from response rv))
    \<and> mset (waiting rv) = mset (map fst (snd (accept_response now from response rv)))
      + mset (waiting (fst (accept_response now from response rv)))"
  proof (cases "snd from \<noteq> 53 \<or> fst from \<notin> set (rv_servers rv) \<or> find_answer response (rv_pending rv) = None")
    case True
    then show ?thesis using assms by (auto simp: accept_response_def)
  next
    case False
    then obtain name answer where found: "find_answer response (rv_pending rv) = Some (name, answer)" by auto
    have dist: "distinct (map fst (rv_pending rv))" using assms by (simp add: resolver_ok_def)
    obtain q where q: "map_of (rv_pending rv) name = Some q" "read_answer response (qy_id q) = Some answer"
      using find_answer_Some [OF found dist] by blast
    define addresses where "addresses = (case answer of Addresses as ttl \<Rightarrow> Some as | NoAddress _ \<Rightarrow> None)"
    define ttl where "ttl = (case answer of Addresses as ttl \<Rightarrow> max MIN_TTL (min MAX_TTL (secs (unat ttl))) | NoAddress _ \<Rightarrow> NEGATIVE_TTL)"
    obtain rotation finished where ws: "answer_waiters name addresses (qy_waiters q) (rv_rotation rv) = (rotation, finished)" by fastforce
    let ?rv = "rv\<lparr>rv_pending := AList.delete name (rv_pending rv), rv_rotation := rotation\<rparr>"
    have "accept_response now from response rv = (remember_answer name addresses ttl now ?rv, finished)"
      using False found q(1) ws by (cases answer) (simp_all add: accept_response_def addresses_def ttl_def)
    moreover have "map fst finished = qy_waiters q" using answer_waiters_all [of name addresses "qy_waiters q"] ws by (metis snd_conv)
    moreover have "addresses \<noteq> Some []"
      using read_answer_nonempty q(2) by (auto simp: addresses_def split: Answer.splits)
    moreover have "rv_pending rv \<noteq> []" using q(1) by auto
    then have "resolver_ok ?rv" using assms by (simp add: resolver_ok_def distinct_alist)
    moreover have "waiting (remember_answer name addresses ttl now ?rv) = concat (map (\<lambda>(_, q). qy_waiters q) (AList.delete name (rv_pending rv)))"
      by (simp add: waiting_def remember_answer_def Let_def)
    ultimately show ?thesis
      using waiting_delete [OF dist q(1)] remember_answer_ok by (simp add: waiting_def)
  qed
  then show "resolver_ok (fst (accept_response now from response rv))"
    and "mset (waiting rv) = mset (map fst (snd (accept_response now from response rv)))
      + mset (waiting (fst (accept_response now from response rv)))" by simp_all
qed

lemma read_responses_waiting:
  assumes "resolver_ok rv" and run: "read_responses E now flow rv e fin = Some (rv', e', fin')"
  shows "resolver_ok rv' \<and> (\<exists>more_fin. fin' = fin @ more_fin \<and> mset (waiting rv) = mset (map fst more_fin) + mset (waiting rv'))"
proof -
  let ?P = "\<lambda>E now flow rv e fin r. resolver_ok rv \<longrightarrow> resolver_ok (fst r)
    \<and> (\<exists>more_fin. snd (snd r) = fin @ more_fin \<and> mset (waiting rv) = mset (map fst more_fin) + mset (waiting (fst r)))"
  have "?P E now flow rv e fin (rv', e', fin')"
  proof (rule read_responses.raw_induct [where P = ?P, OF _ run])
    fix g E now flow rv e fin r
    assume IH: "\<And>E now flow rv e fin r. g E now flow rv e fin = Some r \<Longrightarrow> ?P E now flow rv e fin r"
      and eq: "(case snd (eg_udp_recv E flow e) of
        None \<Rightarrow> Some (rv, fst (eg_udp_recv E flow e), fin)
      | Some (from, response) \<Rightarrow>
          g E now flow (fst (accept_response now from response rv)) (fst (eg_udp_recv E flow e))
            (fin @ snd (accept_response now from response rv))) = Some r"
    show "?P E now flow rv e fin r"
    proof (cases "snd (eg_udp_recv E flow e)")
      case None
      then show ?thesis using eq by auto
    next
      case (Some m)
      obtain sender response where m: "m = (sender, response)" by (cases m)
      let ?a = "accept_response now sender response rv"
      have "?P E now flow (fst ?a) (fst (eg_udp_recv E flow e)) (fin @ snd ?a) r"
        using eq Some m by (intro IH) simp
      then show ?thesis
        using accept_response_waiting [of rv now sender response] by (auto simp: add.assoc)
    qed
  qed
  then show ?thesis using assms(1) by simp
qed

lemma expire_waiting:
  "mset (waiting rv) = mset (map fst (snd (expire_queries now rv))) + mset (waiting (fst (expire_queries now rv)))"
proof -
  let ?expired = "\<lambda>q. duration_since now (qy_started q) \<ge> QUERY_TIMEOUT"
  have "mset (concat (map (\<lambda>(_, q). qy_waiters q) ps)) =
      mset (map fst (concat (map (\<lambda>(name, q). if ?expired q then map (\<lambda>w. (w, Inl (''no resolver answered for '' @ name) :: string + ipv4)) (qy_waiters q) else []) ps)))
      + mset (concat (map (\<lambda>(_, q). qy_waiters q) (filter (\<lambda>(_, q). \<not> ?expired q) ps)))" for ps :: "(string \<times> 'a Query) list"
    by (induction ps) (auto simp: comp_def image_mset.compositionality)
  from this [of "rv_pending rv"] show ?thesis unfolding waiting_def expire_queries_def Let_def by simp
qed

lemma retry_queries_waiting:
  "map fst (fst (retry_queries E now flow servers ps e)) = map fst ps"
  "map (\<lambda>(_, q). (qy_waiters q, qy_started q)) (fst (retry_queries E now flow servers ps e)) = map (\<lambda>(_, q). (qy_waiters q, qy_started q)) ps"
  by (induction E now flow servers ps e rule: retry_queries.induct) (auto simp: case_prod_unfold Let_def)

lemma poll_waiting:
  assumes "resolver_ok rv" and "poll_lookups E now (rv, e) = Some ((rv', e'), fin)"
  shows "resolver_ok rv'" and "mset (waiting rv) = mset (map fst fin) + mset (waiting rv')"
    and "\<forall>(_, q) \<in> set (rv_pending rv'). rv_flow rv \<noteq> None \<longrightarrow> duration_since now (qy_started q) < QUERY_TIMEOUT"
proof -
  have "resolver_ok rv' \<and> mset (waiting rv) = mset (map fst fin) + mset (waiting rv')
    \<and> (\<forall>(_, q) \<in> set (rv_pending rv'). rv_flow rv \<noteq> None \<longrightarrow> duration_since now (qy_started q) < QUERY_TIMEOUT)"
  proof (cases "rv_flow rv")
    case None
    then show ?thesis using assms by (auto simp: poll_lookups_def)
  next
    case (Some flow)
    obtain rv1 e1 fin1 where read: "read_responses E now flow rv e [] = Some (rv1, e1, fin1)"
      using assms(2) Some by (auto simp: poll_lookups_def split: option.splits)
    obtain rv2 ex where ex: "expire_queries now rv1 = (rv2, ex)" by fastforce
    obtain ps e2 where retry: "retry_queries E now flow (rv_servers rv2) (rv_pending rv2) e1 = (ps, e2)" by fastforce
    have result: "rv' = rv2\<lparr>rv_pending := ps\<rparr>" "fin = fin1 @ ex" using assms(2) Some read ex retry by (auto simp: poll_lookups_def)
    have one: "resolver_ok rv1" "mset (waiting rv) = mset (map fst fin1) + mset (waiting rv1)"
      using read_responses_waiting [OF assms(1) read] by auto
    have two: "mset (waiting rv1) = mset (map fst ex) + mset (waiting rv2)" using expire_waiting [of rv1 now] ex by simp
    have pend2: "rv_pending rv2 = filter (\<lambda>(_, q). \<not> duration_since now (qy_started q) \<ge> QUERY_TIMEOUT) (rv_pending rv1)"
      "rv_cache rv2 = rv_cache rv1" "rv_flow rv2 = rv_flow rv1"
      using ex by (auto simp: expire_queries_def Let_def)
    have names: "map fst ps = map fst (rv_pending rv2)"
      and qs: "map (\<lambda>(_, q). (qy_waiters q, qy_started q)) ps = map (\<lambda>(_, q). (qy_waiters q, qy_started q)) (rv_pending rv2)"
      using retry_queries_waiting [of E now flow "rv_servers rv2" "rv_pending rv2" e1] retry by simp_all
    have "map fst (map (\<lambda>(_, q). (qy_waiters q, qy_started q)) ps) = map fst (map (\<lambda>(_, q). (qy_waiters q, qy_started q)) (rv_pending rv2))"
      using qs by simp
    then have three: "waiting rv' = waiting rv2" by (simp add: waiting_def result(1) comp_def case_prod_unfold)
    have "snd ` set (map (\<lambda>(_, q). (qy_waiters q, qy_started q)) ps) = snd ` set (map (\<lambda>(_, q). (qy_waiters q, qy_started q)) (rv_pending rv2))"
      using qs by simp
    then have "\<forall>(_, q) \<in> set ps. duration_since now (qy_started q) < QUERY_TIMEOUT"
      by (force simp: pend2 image_image case_prod_unfold)
    moreover have "resolver_ok rv'"
      using one(1) names by (auto simp: resolver_ok_def result(1) pend2 distinct_map_filter)
    ultimately show ?thesis using one two three result by (simp add: case_prod_unfold)
  qed
  then show "resolver_ok rv'" "mset (waiting rv) = mset (map fst fin) + mset (waiting rv')"
    "\<forall>(_, q) \<in> set (rv_pending rv'). rv_flow rv \<noteq> None \<longrightarrow> duration_since now (qy_started q) < QUERY_TIMEOUT" by simp_all
qed

subsection \<open>Runs of the resolver\<close>

text \<open>The reading loop ends when the egress can hand out only so many datagrams.\<close>

definition finite_datagrams :: "('e, 'x) Egress_scheme \<Rightarrow> ('e \<Rightarrow> nat) \<Rightarrow> bool" where
  "finite_datagrams E queued \<longleftrightarrow>
     (\<forall>flow e. snd (eg_udp_recv E flow e) \<noteq> None \<longrightarrow> queued (fst (eg_udp_recv E flow e)) < queued e)"

lemma read_responses_returns:
  assumes "finite_datagrams E queued"
  shows "\<exists>r. read_responses E now flow rv e fin = Some r"
proof (induction "queued e" arbitrary: rv e fin rule: less_induct)
  case less
  show ?case
  proof (cases "snd (eg_udp_recv E flow e)")
    case None
    then show ?thesis by (simp add: read_responses.simps [of E now flow rv e])
  next
    case (Some m)
    then have "snd (eg_udp_recv E flow e) \<noteq> None" by simp
    then have "queued (fst (eg_udp_recv E flow e)) < queued e" using assms unfolding finite_datagrams_def by blast
    from less [OF this] show ?thesis using Some by (cases m) (simp add: read_responses.simps [of E now flow rv e])
  qed
qed

lemma poll_returns:
  assumes "finite_datagrams E queued"
  shows "\<exists>r. poll_lookups E now (rv, e) = Some r"
proof (cases "rv_flow rv")
  case (Some flow)
  obtain r where "read_responses E now flow rv e [] = Some r" using read_responses_returns [OF assms] by blast
  then show ?thesis using Some by (cases r) (simp add: poll_lookups_def case_prod_unfold Let_def)
qed (simp add: poll_lookups_def)

datatype 'w resolver_event = Ask u16 instant string 'w | Poll instant

fun resolver_run ::
  "('e, 'x) Egress_scheme \<Rightarrow> 'w resolver_event list \<Rightarrow> 'w Resolver \<times> 'e
     \<Rightarrow> (('w Resolver \<times> 'e) \<times> 'w list \<times> ('w \<times> (string + ipv4)) list) option" where
  "resolver_run E [] s = Some (s, [], [])"
| "resolver_run E (Ask i now name w # events) s =
     (let (s, result) = lookup_name E i now name w s
      in map_option (\<lambda>(s, asked, finished). (s, (if result = Lookup_Pending then w # asked else asked), finished))
           (resolver_run E events s))"
| "resolver_run E (Poll now # events) s =
     (case poll_lookups E now s of
        None \<Rightarrow> None
      | Some (s, done_now) \<Rightarrow>
          map_option (\<lambda>(s, asked, finished). (s, asked, done_now @ finished)) (resolver_run E events s))"

lemma resolver_run_waiting:
  assumes "finite_datagrams E queued"
  shows "resolver_ok rv \<Longrightarrow> \<exists>rv' e' asked finished. resolver_run E events (rv, e) = Some ((rv', e'), asked, finished)
    \<and> resolver_ok rv' \<and> mset (waiting rv) + mset asked = mset (map fst finished) + mset (waiting rv')"
proof (induction events arbitrary: rv e)
  case (Cons ev events)
  show ?case
  proof (cases ev)
    case (Ask i now name w)
    obtain rv1 e1 result where one: "lookup_name E i now name w (rv, e) = ((rv1, e1), result)" by (metis prod_cases3 prod.collapse)
    note kept = lookup_waiting [OF Cons.prems one]
    obtain rv' e' asked finished where rest: "resolver_run E events (rv1, e1) = Some ((rv', e'), asked, finished)"
        "resolver_ok rv'" "mset (waiting rv1) + mset asked = mset (map fst finished) + mset (waiting rv')"
      using Cons.IH [of rv1 e1] kept by blast
    have "mset (waiting rv) + mset (if result = Lookup_Pending then w # asked else asked) = mset (map fst finished) + mset (waiting rv')"
      using kept rest(3) by (cases "result = Lookup_Pending") (simp_all add: union_mset_add_mset_left)
    then show ?thesis using Ask one rest by auto
  next
    case (Poll now)
    obtain rv1 e1 fin where one: "poll_lookups E now (rv, e) = Some ((rv1, e1), fin)"
      using poll_returns [OF assms, of now rv e] by auto
    note kept = poll_waiting [OF Cons.prems one]
    obtain rv' e' asked finished where rest: "resolver_run E events (rv1, e1) = Some ((rv', e'), asked, finished)"
        "resolver_ok rv'" "mset (waiting rv1) + mset asked = mset (map fst finished) + mset (waiting rv')"
      using Cons.IH [OF kept(1), of e1] by blast
    have "mset (waiting rv) + mset asked = mset (map fst (fin @ finished)) + mset (waiting rv')"
      using kept(2) rest(3) by (simp add: ac_simps)
    then show ?thesis using Poll one rest by auto
  qed
qed simp

lemma resolver_run_append:
  "resolver_run E (es @ fs) s = (case resolver_run E es s of None \<Rightarrow> None
     | Some (s1, asked, fin) \<Rightarrow> map_option (\<lambda>(s2, asked2, fin2). (s2, asked @ asked2, fin @ fin2)) (resolver_run E fs s1))"
proof (induction es arbitrary: s)
  case Nil
  then show ?case by (simp add: option.map_ident case_prod_unfold)
next
  case (Cons ev es)
  then show ?case
    by (cases ev) (auto simp: case_prod_unfold Let_def option.map_comp comp_def split: option.splits)
qed

lemma resolver_new_ok: "resolver_ok (resolver_new servers)" "waiting (resolver_new servers) = []"
  by (simp_all add: resolver_ok_def resolver_new_def waiting_def)

text \<open>
  C18. Nobody who asks for a name is forgotten or answered twice. Over any egress whose flows hold finitely
  many datagrams, whatever they contain, every run of lookups and polls returns, and the connections
  and datagrams that were told to wait are exactly those that were finished, once each, together with
  those still waiting; and after a poll none of these has waited as long as the timeout.
\<close>

theorem waiters_finish_exactly_once:
  assumes "finite_datagrams E queued"
  shows "\<exists>rv e' asked finished. resolver_run E (events @ [Poll now]) (resolver_new servers, e) = Some ((rv, e'), asked, finished)
    \<and> mset asked = mset (map fst finished) + mset (waiting rv)
    \<and> list_all (\<lambda>(_, q). duration_since now (qy_started q) < QUERY_TIMEOUT) (rv_pending rv)"
proof -
  obtain rv1 e1 asked fin1 where one: "resolver_run E events (resolver_new servers, e) = Some ((rv1, e1), asked, fin1)"
      "resolver_ok rv1" "mset asked = mset (map fst fin1) + mset (waiting rv1)"
    using resolver_run_waiting [OF assms resolver_new_ok(1), of events servers e] by (auto simp: resolver_new_ok(2))
  obtain rv e' fin where two: "poll_lookups E now (rv1, e1) = Some ((rv, e'), fin)"
    using poll_returns [OF assms, of now rv1 e1] by auto
  note kept = poll_waiting [OF one(2) two]
  have "list_all (\<lambda>(_, q). duration_since now (qy_started q) < QUERY_TIMEOUT) (rv_pending rv)"
  proof (cases "rv_flow rv1")
    case None
    then have "rv_pending rv = []" using two one(2) by (auto simp: poll_lookups_def resolver_ok_def)
    then show ?thesis by simp
  next
    case (Some flow)
    then show ?thesis using kept(3) by (auto simp: list_all_iff)
  qed
  moreover have "mset asked = mset (map fst (fin1 @ fin)) + mset (waiting rv)" using one(3) kept(2) by simp
  moreover have "resolver_run E (events @ [Poll now]) (resolver_new servers, e) = Some ((rv, e'), asked, fin1 @ fin)"
    using one(1) two by (simp add: resolver_run_append)
  ultimately show ?thesis by blast
qed

text \<open>A quiet egress, with one waiting datagram of a stranger.\<close>

definition quiet_egress :: "nat Egress" where
  "quiet_egress = \<lparr>eg_tcp_connect = (\<lambda>_ e. (e, Inl ''no route'')), eg_tcp_state = (\<lambda>_ e. (e, Tcp_Closed)), eg_tcp_send = (\<lambda>_ _ e. (e, 0)),
     eg_tcp_recv = (\<lambda>_ _ e. (e, [])), eg_tcp_send_idle = (\<lambda>_ e. (e, True)), eg_tcp_shutdown = (\<lambda>_ e. e), eg_tcp_release = (\<lambda>_ e. e),
     eg_udp_open = (\<lambda>e. (e, Inr 3)), eg_udp_send = (\<lambda>_ _ _ e. (e, True)),
     eg_udp_recv = (\<lambda>_ e. if e = 0 then (e, None) else (e - 1, Some (([9, 9, 9, 9], 53), [1, 2]))), eg_udp_release = (\<lambda>_ e. e), eg_on_event = (\<lambda>_ _ _ e. e), eg_drive = (\<lambda>e. (e, None)), eg_resolvers = (\<lambda>_. [[8, 8, 8, 8]]), eg_dropped_inbound = (\<lambda>_. 0)\<rparr>"

lemma quiet_egress_finite: "finite_datagrams quiet_egress (\<lambda>e. e)"
  by (simp add: finite_datagrams_def quiet_egress_def)

theorem waiters_finish_exactly_once_witness:
  "\<exists>rv e' asked finished. resolver_run quiet_egress ([Ask 7 0 ''a.b'' (1 :: nat)] @ [Poll (secs 5)]) (resolver_new [[8, 8, 8, 8]], 1)
      = Some ((rv, e'), asked, finished)
    \<and> mset asked = mset (map fst finished) + mset (waiting rv)
    \<and> list_all (\<lambda>(_, q). duration_since (secs 5) (qy_started q) < QUERY_TIMEOUT) (rv_pending rv)"
  by (rule waiters_finish_exactly_once [OF quiet_egress_finite])

end
