(* ===== verification/Socks_Server.thy ===== *)
theory Socks_Server
  imports Socks_Wire Socks_Resolver
begin

section \<open>The LAN proxy's event loop (\<^verbatim>\<open>socks/server.rs\<close>, \<^verbatim>\<open>socks/clients.rs\<close>)\<close>

text \<open>
  One thread serves every client: it reads what clients sent, moves them through their handshake,
  relays, and writes back. A client's socket is two scripts, the results its next reads and writes
  have, which the network extends at any time; an empty script is \<^verbatim>\<open>WouldBlock\<close>. What was read from
  a client and written to it is kept as a history. The proxy's UDP socket has such scripts too. The
  egress, base64 and the random query ids are parameters; the egress is taken to accept no more of a
  slice than there is of it, as its documentation says. Counters of usage are natural numbers. The two
  clocks are arguments, read once per turn. Registration with the poll and log lines are left out.

  \<^verbatim>\<open>advance\<close> repeats a step as long as one is made; as a partial function its \<open>None\<close> means that the
  loop, and with it the thread that serves every client, never comes back.
\<close>

definition MAX_CONNECTIONS :: nat where "MAX_CONNECTIONS = 1024"
definition MAX_CONNECTIONS_PER_CLIENT :: nat where "MAX_CONNECTIONS_PER_CLIENT = 512"
definition MAX_ASSOCIATIONS_PER_CLIENT :: nat where "MAX_ASSOCIATIONS_PER_CLIENT = 32"
definition FIRST_CONNECTION :: nat where "FIRST_CONNECTION = 16"
definition HANDSHAKE_TIMEOUT :: duration where "HANDSHAKE_TIMEOUT = secs 15"
definition CONNECT_TIMEOUT :: duration where "CONNECT_TIMEOUT = secs 10"
definition CLIENT_BACKLOG :: nat where "CLIENT_BACKLOG = 256 * 1024"
definition READ_CHUNK :: nat where "READ_CHUNK = 32 * 1024"
definition PENDING_DATAGRAMS_PER_ASSOCIATION :: nat where "PENDING_DATAGRAMS_PER_ASSOCIATION = 64"
definition MAX_WAIT :: duration where "MAX_WAIT = millis 250"

datatype ClientProtocol = Socks_Client | Http_Client

datatype ReplyKind = Reply_Socks | Reply_HttpTunnel | Reply_HttpForward bytes

datatype Phase =
    Sniff | Greeting | UserPass | Request_Phase | HttpHead
  | Resolving u16 ReplyKind | Connecting nat ReplyKind | Relaying nat | UdpControl nat | Closing

datatype read_result = Arrived bytes | Read_Interrupted | Read_Failed
datatype write_result = Accepts nat | Write_Interrupted | Write_Failed

record Connection =
  cn_reads :: "read_result list"
  cn_writes :: "write_result list"
  cn_received :: bytes
  cn_sent :: bytes
  cn_client :: addr4
  cn_local :: addr4
  cn_phase :: Phase
  cn_protocol :: ClientProtocol
  cn_input :: bytes
  cn_output :: bytes
  cn_written :: nat
  cn_readable :: bool
  cn_writable :: bool
  cn_client_done :: bool
  cn_upstream_shut :: bool
  cn_client_shut :: bool
  cn_deadline :: "instant option"
  cn_counted :: bool
  cn_finished :: bool

definition UNSPECIFIED :: ipv4 where "UNSPECIFIED = [0, 0, 0, 0]"

definition conn_send :: "bytes \<Rightarrow> Connection \<Rightarrow> Connection" where
  "conn_send bs c = c\<lparr>cn_output := cn_output c @ bs\<rparr>"

definition backlog :: "Connection \<Rightarrow> nat" where
  "backlog c = length (cn_output c) - cn_written c"

definition conn_fail :: "instant \<Rightarrow> Reply \<Rightarrow> Connection \<Rightarrow> Connection" where
  "conn_fail now code c =
     (conn_send (case cn_protocol c of Socks_Client \<Rightarrow> wire_reply code UNSPECIFIED 0 | Http_Client \<Rightarrow> http_failure code) c)
       \<lparr>cn_phase := Closing, cn_deadline := Some (now + secs 2)\<rparr>"

text \<open>The size of a read script, to see that the reading loop ends.\<close>

fun read_weight :: "read_result \<Rightarrow> nat" where
  "read_weight (Arrived bs) = Suc (length bs)"
| "read_weight _ = 1"

function read_client :: "nat \<Rightarrow> Connection \<Rightarrow> Connection \<times> bool" where
  "read_client limit c =
     (if \<not> (cn_readable c \<and> \<not> cn_client_done c \<and> length (cn_input c) < limit) then (c, True)
      else case cn_reads c of
             [] \<Rightarrow> read_client limit (c\<lparr>cn_readable := False\<rparr>)
           | Arrived bs # rest \<Rightarrow>
               (let room = min (limit - length (cn_input c)) READ_CHUNK
                in if bs = [] then read_client limit (c\<lparr>cn_client_done := True, cn_reads := rest\<rparr>)
                   else read_client limit (c\<lparr>cn_input := cn_input c @ take room bs, cn_received := cn_received c @ take room bs,
                          cn_reads := (if drop room bs = [] then rest else Arrived (drop room bs) # rest)\<rparr>))
           | Read_Interrupted # rest \<Rightarrow> read_client limit (c\<lparr>cn_reads := rest\<rparr>)
           | Read_Failed # rest \<Rightarrow> (c\<lparr>cn_reads := rest\<rparr>, False))"
  by pat_completeness auto
termination
  by (relation "measure (\<lambda>(limit, c). 2 * sum_list (map read_weight (cn_reads c)) + of_bool (cn_readable c))")
     (auto simp: READ_CHUNK_def)

declare read_client.simps [simp del]

function write_loop :: "Connection \<Rightarrow> Connection \<times> bool" where
  "write_loop c =
     (if \<not> (cn_writable c \<and> cn_written c < length (cn_output c)) then (c, True)
      else case cn_writes c of
             [] \<Rightarrow> write_loop (c\<lparr>cn_writable := False\<rparr>)
           | Accepts n # rest \<Rightarrow>
               (let wrote = min n (length (cn_output c) - cn_written c)
                in if wrote = 0 then (c\<lparr>cn_writes := rest\<rparr>, False)
                   else write_loop (c\<lparr>cn_writes := rest, cn_written := cn_written c + wrote,
                          cn_sent := cn_sent c @ subslice (cn_written c) (cn_written c + wrote) (cn_output c)\<rparr>))
           | Write_Interrupted # rest \<Rightarrow> write_loop (c\<lparr>cn_writes := rest\<rparr>)
           | Write_Failed # rest \<Rightarrow> (c\<lparr>cn_writes := rest\<rparr>, False))"
  by pat_completeness auto
termination by (relation "measure (\<lambda>c. 2 * length (cn_writes c) + of_bool (cn_writable c))") auto

declare write_loop.simps [simp del]

definition write_client :: "Connection \<Rightarrow> Connection \<times> bool" where
  "write_client c =
     (let (c, ok) = write_loop c
      in if \<not> ok then (c, False)
         else (if cn_written c = length (cn_output c) then c\<lparr>cn_output := [], cn_written := 0\<rparr> else c, True))"

subsection \<open>Usage per device\<close>

record ClientUsage =
  cu_active_tcp :: nat
  cu_active_udp :: nat
  cu_total_connections :: nat
  cu_failed_connections :: nat
  cu_bytes_sent :: nat
  cu_bytes_received :: nat
  cu_first_seen_at :: nat
  cu_last_active_at :: nat

type_synonym client_book = "(ipv4 \<times> ClientUsage) list"

text \<open>\<^verbatim>\<open>entry\<close> and what the caller does with it; the B-tree map keeps its entries in the order of the addresses.\<close>

definition client_entry :: "nat \<Rightarrow> ipv4 \<Rightarrow> (ClientUsage \<Rightarrow> ClientUsage) \<Rightarrow> client_book \<Rightarrow> client_book" where
  "client_entry wall address change book =
     (let fresh = \<lparr>cu_active_tcp = 0, cu_active_udp = 0, cu_total_connections = 0, cu_failed_connections = 0,
                    cu_bytes_sent = 0, cu_bytes_received = 0, cu_first_seen_at = wall, cu_last_active_at = 0\<rparr>;
          usage = (case map_of book address of None \<Rightarrow> fresh | Some u \<Rightarrow> u);
          usage = change (usage\<lparr>cu_last_active_at := wall\<rparr>)
      in case map_of book address of
           None \<Rightarrow> insort_key (\<lambda>(a, _). nat_of_be a) (address, usage) book
         | Some _ \<Rightarrow> AList.update address usage book)"

definition active_tcp :: "ipv4 \<Rightarrow> client_book \<Rightarrow> nat" where
  "active_tcp address book = (case map_of book address of None \<Rightarrow> 0 | Some u \<Rightarrow> cu_active_tcp u)"

definition CONNECTED_GRACE :: nat where "CONNECTED_GRACE = 60000"

text \<open>The usage of each device, with whether it counts as connected.\<close>

definition snapshot :: "nat \<Rightarrow> client_book \<Rightarrow> (ipv4 \<times> ClientUsage \<times> bool) list" where
  "snapshot wall book = map (\<lambda>(a, u). (a, u, cu_active_tcp u > 0 \<or> cu_active_udp u > 0 \<or> wall - CONNECTED_GRACE \<le> cu_last_active_at u)) book"

subsection \<open>The server\<close>

record Association =
  as_control :: nat
  as_client_ip :: ipv4
  as_client_port :: "u16 option"
  as_flow :: nat
  as_pending_lookups :: nat

datatype Next = Next_Connect Target ReplyKind | Next_Associate Target

datatype Waiter = Wait_Connect nat | Wait_Datagram nat u16 bytes

record ServerStatus =
  ss_total_connections :: nat
  ss_failed_connections :: nat
  ss_rejected_connections :: nat
  ss_bytes_sent :: nat
  ss_bytes_received :: nat

datatype udp_read = Udp_From addr4 bytes | Udp_From_V6 | Udp_Reset | Udp_Failed

record 'e Server =
  sv_port :: u16
  sv_egress :: 'e
  sv_resolver :: "Waiter Resolver"
  sv_connections :: "(nat \<times> Connection) list"
  sv_associations :: "(nat \<times> Association) list"
  sv_next_token :: nat
  sv_next_association :: nat
  sv_clients :: client_book
  sv_credentials :: "(string \<times> string) option"
  sv_totals :: ServerStatus
  sv_egress_wait :: "duration option"
  sv_udp_readable :: bool
  sv_udp_reads :: "udp_read list"
  sv_udp_sends :: "bool list"
  sv_datagrams :: "(addr4 \<times> bytes) list"
  sv_drawn :: nat

definition client_allowed :: "ipv4 \<Rightarrow> bool" where
  "client_allowed a \<longleftrightarrow> is_private a \<or> is_loopback a \<or> is_link_local a \<or> is_shared a"

definition same_secret :: "string \<Rightarrow> string \<Rightarrow> bool" where
  "same_secret left right \<longleftrightarrow> length left = length right
     \<and> fold (\<lambda>(a, b) difference. difference OR (a XOR b)) (zip (bytes_of left) (bytes_of right)) (0 :: u8) = 0"

definition server_new :: "('e, 'x) Egress_scheme \<Rightarrow> u16 \<Rightarrow> 'e \<Rightarrow> (string \<times> string) option \<Rightarrow> 'e Server" where
  "server_new E port e credentials =
     \<lparr>sv_port = port, sv_egress = e, sv_resolver = resolver_new (eg_resolvers E e), sv_connections = [], sv_associations = [],
      sv_next_token = FIRST_CONNECTION, sv_next_association = 0, sv_clients = [], sv_credentials = credentials,
      sv_totals = \<lparr>ss_total_connections = 0, ss_failed_connections = 0, ss_rejected_connections = 0, ss_bytes_sent = 0, ss_bytes_received = 0\<rparr>,
      sv_egress_wait = None, sv_udp_readable = False, sv_udp_reads = [], sv_udp_sends = [], sv_datagrams = [], sv_drawn = 0\<rparr>"

definition connection_of :: "nat \<Rightarrow> 'e Server \<Rightarrow> Connection option" where
  "connection_of token s = map_of (sv_connections s) token"

definition put_connection :: "nat \<Rightarrow> Connection \<Rightarrow> 'e Server \<Rightarrow> 'e Server" where
  "put_connection token c s = s\<lparr>sv_connections := AList.update token c (sv_connections s)\<rparr>"

definition count_failed :: "'e Server \<Rightarrow> 'e Server" where
  "count_failed s = s\<lparr>sv_totals := (sv_totals s)\<lparr>ss_failed_connections := ss_failed_connections (sv_totals s) + 1\<rparr>\<rparr>"

definition client_failed :: "nat \<Rightarrow> ipv4 \<Rightarrow> 'e Server \<Rightarrow> 'e Server" where
  "client_failed wall ip s =
     s\<lparr>sv_clients := client_entry wall ip (\<lambda>u. u\<lparr>cu_failed_connections := cu_failed_connections u + 1\<rparr>) (sv_clients s)\<rparr>"

definition count_sent :: "nat \<Rightarrow> ipv4 \<Rightarrow> nat \<Rightarrow> 'e Server \<Rightarrow> 'e Server" where
  "count_sent wall ip n s =
     s\<lparr>sv_clients := client_entry wall ip (\<lambda>u. u\<lparr>cu_bytes_sent := cu_bytes_sent u + n\<rparr>) (sv_clients s),
       sv_totals := (sv_totals s)\<lparr>ss_bytes_sent := ss_bytes_sent (sv_totals s) + n\<rparr>\<rparr>"

definition count_received :: "nat \<Rightarrow> ipv4 \<Rightarrow> nat \<Rightarrow> 'e Server \<Rightarrow> 'e Server" where
  "count_received wall ip n s =
     s\<lparr>sv_clients := client_entry wall ip (\<lambda>u. u\<lparr>cu_bytes_received := cu_bytes_received u + n\<rparr>) (sv_clients s),
       sv_totals := (sv_totals s)\<lparr>ss_bytes_received := ss_bytes_received (sv_totals s) + n\<rparr>\<rparr>"

text \<open>One accepted stream; \<open>registered\<close> is whether the poll took it.\<close>

definition accept_connection :: "instant \<Rightarrow> nat \<Rightarrow> addr4 \<Rightarrow> addr4 \<Rightarrow> bool \<Rightarrow> 'e Server \<Rightarrow> 'e Server" where
  "accept_connection now wall client local registered s =
     (if \<not> client_allowed (fst client) \<or> length (sv_connections s) \<ge> MAX_CONNECTIONS
         \<or> active_tcp (fst client) (sv_clients s) \<ge> MAX_CONNECTIONS_PER_CLIENT
      then s\<lparr>sv_totals := (sv_totals s)\<lparr>ss_rejected_connections := ss_rejected_connections (sv_totals s) + 1\<rparr>\<rparr>
      else let token = sv_next_token s; s = s\<lparr>sv_next_token := sv_next_token s + 1\<rparr>
           in if \<not> registered then s
              else put_connection token
                     \<lparr>cn_reads = [], cn_writes = [], cn_received = [], cn_sent = [], cn_client = client, cn_local = local, cn_phase = Sniff,
                      cn_protocol = Socks_Client, cn_input = [], cn_output = [], cn_written = 0, cn_readable = True,
                      cn_writable = True, cn_client_done = False, cn_upstream_shut = False, cn_client_shut = False,
                      cn_deadline = Some (now + HANDSHAKE_TIMEOUT), cn_counted = False, cn_finished = False\<rparr>
                     (s\<lparr>sv_clients := client_entry wall (fst client)
                           (\<lambda>u. u\<lparr>cu_total_connections := cu_total_connections u + 1\<rparr>) (sv_clients s),
                        sv_totals := (sv_totals s)\<lparr>ss_total_connections := ss_total_connections (sv_totals s) + 1\<rparr>\<rparr>))"

subsection \<open>The handshake, one transition at a time\<close>

text \<open>What the environment answers: the egress, base64, the random query ids, and the two clocks.\<close>

record 'e proxy_env =
  pe_egress :: "'e Egress"
  pe_base64 :: "string \<Rightarrow> bytes option"
  pe_query_id :: "nat \<Rightarrow> u16"
  pe_now :: instant
  pe_wall :: nat

definition greeting_method :: "(string \<times> string) option \<Rightarrow> bytes \<Rightarrow> u8 option" where
  "greeting_method credentials methods =
     (if credentials \<noteq> None \<or> METHOD_NONE \<notin> set methods
      then if METHOD_USER_PASS \<in> set methods then Some METHOD_USER_PASS else None
      else Some METHOD_NONE)"

definition login_accepted :: "(string \<times> string) option \<Rightarrow> (string \<times> string) option \<Rightarrow> bool" where
  "login_accepted credentials given =
     (case credentials of
        None \<Rightarrow> True
      | Some (user, password) \<Rightarrow>
          (case given of
             None \<Rightarrow> False
           | Some (given_user, given_password) \<Rightarrow> same_secret given_user user \<and> same_secret given_password password))"

definition is_ascii_alphabetic :: "u8 \<Rightarrow> bool" where
  "is_ascii_alphabetic b \<longleftrightarrow> 0x41 \<le> b \<and> b \<le> 0x5a \<or> 0x61 \<le> b \<and> b \<le> 0x7a"

definition step_sniff :: "nat \<Rightarrow> Connection \<Rightarrow> 'e Server \<Rightarrow> 'e Server \<times> bool \<times> Next option" where
  "step_sniff token c s =
     (case cn_input c of
        [] \<Rightarrow> (s, False, None)
      | first # _ \<Rightarrow>
          (put_connection token
             (if first = SOCKS_VERSION then c\<lparr>cn_phase := Greeting\<rparr>
              else if is_ascii_alphabetic first then c\<lparr>cn_protocol := Http_Client, cn_phase := HttpHead\<rparr>
              else c\<lparr>cn_finished := True\<rparr>) s, True, None))"

definition step_greeting :: "nat \<Rightarrow> Connection \<Rightarrow> 'e Server \<Rightarrow> 'e Server \<times> bool \<times> Next option" where
  "step_greeting token c s =
     (case parse_greeting (cn_input c) of
        Incomplete \<Rightarrow> (s, False, None)
      | Invalid _ \<Rightarrow> (put_connection token (c\<lparr>cn_finished := True\<rparr>) s, False, None)
      | Done methods used \<Rightarrow>
          (let c = c\<lparr>cn_input := drop used (cn_input c)\<rparr>
           in case greeting_method (sv_credentials s) methods of
                None \<Rightarrow>
                  (count_failed (put_connection token
                     ((conn_send [SOCKS_VERSION, METHOD_UNACCEPTABLE] c)\<lparr>cn_phase := Closing\<rparr>) s), True, None)
              | Some m \<Rightarrow>
                  (put_connection token
                     ((conn_send [SOCKS_VERSION, m] c)
                        \<lparr>cn_phase := (if m = METHOD_USER_PASS then UserPass else Request_Phase)\<rparr>) s, True, None)))"

definition step_user_pass :: "nat \<Rightarrow> nat \<Rightarrow> Connection \<Rightarrow> 'e Server \<Rightarrow> 'e Server \<times> bool \<times> Next option" where
  "step_user_pass wall token c s =
     (case parse_user_pass (cn_input c) of
        Incomplete \<Rightarrow> (s, False, None)
      | Invalid _ \<Rightarrow> (put_connection token (c\<lparr>cn_finished := True\<rparr>) s, False, None)
      | Done given used \<Rightarrow>
          (let accepted = login_accepted (sv_credentials s) (Some given);
               c = conn_send (user_pass_reply accepted) (c\<lparr>cn_input := drop used (cn_input c)\<rparr>)
           in (if accepted then put_connection token (c\<lparr>cn_phase := Request_Phase\<rparr>) s
               else client_failed wall (fst (cn_client c)) (count_failed (put_connection token (c\<lparr>cn_phase := Closing\<rparr>) s)),
               True, None)))"

definition step_request :: "instant \<Rightarrow> nat \<Rightarrow> Connection \<Rightarrow> 'e Server \<Rightarrow> 'e Server \<times> bool \<times> Next option" where
  "step_request now token c s =
     (case parse_request (cn_input c) of
        Incomplete \<Rightarrow> (s, False, None)
      | Invalid _ \<Rightarrow> (put_connection token (conn_fail now GeneralFailure c) s, True, None)
      | Done request used \<Rightarrow>
          (let c = c\<lparr>cn_input := drop used (cn_input c)\<rparr>
           in if rq_command request = COMMAND_CONNECT
              then (put_connection token c s, True, Some (Next_Connect (rq_target request) Reply_Socks))
              else if rq_command request = COMMAND_UDP_ASSOCIATE
              then (put_connection token c s, True, Some (Next_Associate (rq_target request)))
              else (put_connection token (conn_fail now CommandNotSupported c) s, True, None)))"

definition step_http_head ::
  "(string \<Rightarrow> bytes option) \<Rightarrow> instant \<Rightarrow> nat \<Rightarrow> Connection \<Rightarrow> 'e Server \<Rightarrow> 'e Server \<times> bool \<times> Next option" where
  "step_http_head base64 now token c s =
     (case parse_http_request base64 (cn_input c) of
        Incomplete \<Rightarrow> (s, False, None)
      | Invalid _ \<Rightarrow> (put_connection token (conn_fail now CommandNotSupported c) s, True, None)
      | Done request used \<Rightarrow>
          (let c = c\<lparr>cn_input := drop used (cn_input c)\<rparr>
           in if \<not> login_accepted (sv_credentials s) (hr_credentials request)
              then (put_connection token ((conn_send HTTP_AUTH_REQUIRED c)\<lparr>cn_phase := Closing\<rparr>) s, True, None)
              else (put_connection token c s, True,
                    Some (Next_Connect (hr_target request)
                      (if hr_tunnel request then Reply_HttpTunnel else Reply_HttpForward (hr_upstream_head request))))))"

definition step_relaying ::
  "('e, 'x) Egress_scheme \<Rightarrow> nat \<Rightarrow> nat \<Rightarrow> nat \<Rightarrow> Connection \<Rightarrow> 'e Server \<Rightarrow> 'e Server \<times> bool \<times> Next option" where
  "step_relaying E wall token flow c s =
     (let (e, sent) = (if cn_input c \<noteq> [] then eg_tcp_send E flow (cn_input c) (sv_egress s) else (sv_egress s, 0));
          c = c\<lparr>cn_input := drop sent (cn_input c)\<rparr>;
          s = s\<lparr>sv_egress := e\<rparr>;
          s = (if sent > 0 then count_sent wall (fst (cn_client c)) sent s else s);
          shut = (cn_input c = [] \<and> cn_client_done c \<and> \<not> cn_upstream_shut c);
          s = (if shut then s\<lparr>sv_egress := eg_tcp_shutdown E flow (sv_egress s)\<rparr> else s);
          c = (if shut then c\<lparr>cn_upstream_shut := True\<rparr> else c);
          go_on = (cn_input c = [] \<and> cn_readable c \<and> \<not> cn_client_done c);
          (c, ok) = (if go_on then read_client READ_CHUNK c else (c, True))
      in if \<not> ok then (put_connection token (c\<lparr>cn_finished := True\<rparr>) s, False, None)
         else (put_connection token c s, go_on \<and> cn_input c \<noteq> [], None))"

definition step_connection :: "'e proxy_env \<Rightarrow> nat \<Rightarrow> 'e Server \<Rightarrow> 'e Server \<times> bool \<times> Next option" where
  "step_connection V token s =
     (case connection_of token s of
        None \<Rightarrow> (s, False, None)
      | Some c \<Rightarrow>
          (case cn_phase c of
             Sniff \<Rightarrow> step_sniff token c s
           | Greeting \<Rightarrow> step_greeting token c s
           | UserPass \<Rightarrow> step_user_pass (pe_wall V) token c s
           | Request_Phase \<Rightarrow> step_request (pe_now V) token c s
           | HttpHead \<Rightarrow> step_http_head (pe_base64 V) (pe_now V) token c s
           | Relaying flow \<Rightarrow> step_relaying (pe_egress V) (pe_wall V) token flow c s
           | UdpControl _ \<Rightarrow>
               (put_connection token (c\<lparr>cn_input := [], cn_finished := cn_finished c \<or> cn_client_done c\<rparr>) s, False, None)
           | _ \<Rightarrow> (s, False, None)))"

subsection \<open>Connecting and associating\<close>

definition open_flow :: "'e proxy_env \<Rightarrow> nat \<Rightarrow> ipv4 \<Rightarrow> u16 \<Rightarrow> ReplyKind \<Rightarrow> 'e Server \<Rightarrow> 'e Server" where
  "open_flow V token ip port code s =
     (case connection_of token s of
        None \<Rightarrow> s
      | Some c \<Rightarrow>
          if \<not> destination_allowed ip then put_connection token (conn_fail (pe_now V) NotAllowed c) (count_failed s)
          else (case eg_tcp_connect (pe_egress V) (ip, port) (sv_egress s) of
                  (e, Inr flow) \<Rightarrow>
                    put_connection token (c\<lparr>cn_phase := Connecting flow code, cn_deadline := Some (pe_now V + CONNECT_TIMEOUT)\<rparr>)
                      (s\<lparr>sv_egress := e\<rparr>)
                | (e, Inl _) \<Rightarrow>
                    put_connection token (conn_fail (pe_now V) GeneralFailure c) (count_failed (s\<lparr>sv_egress := e\<rparr>))))"

text \<open>A lookup of the server's resolver, which draws a query id.\<close>

definition server_lookup :: "'e proxy_env \<Rightarrow> string \<Rightarrow> Waiter \<Rightarrow> 'e Server \<Rightarrow> 'e Server \<times> Lookup" where
  "server_lookup V name waiter s =
     (let ((rv, e), result) =
            lookup_name (pe_egress V) (pe_query_id V (sv_drawn s)) (pe_now V) name waiter (sv_resolver s, sv_egress s)
      in (s\<lparr>sv_resolver := rv, sv_egress := e, sv_drawn := sv_drawn s + 1\<rparr>, result))"

definition begin_connect :: "'e proxy_env \<Rightarrow> nat \<Rightarrow> Target \<Rightarrow> ReplyKind \<Rightarrow> 'e Server \<Rightarrow> 'e Server" where
  "begin_connect V token target code s =
     (case connection_of token s of
        None \<Rightarrow> s
      | Some c \<Rightarrow>
          (case target of
             Ipv6 \<Rightarrow> put_connection token (conn_fail (pe_now V) AddressTypeNotSupported c) s
           | Ip ip port \<Rightarrow> open_flow V token ip port code s
           | Domain name port \<Rightarrow>
               (case server_lookup V name (Wait_Connect token) s of
                  (s, Lookup_Ready ip) \<Rightarrow> open_flow V token ip port code s
                | (s, Lookup_Pending) \<Rightarrow>
                    put_connection token (c\<lparr>cn_phase := Resolving port code, cn_deadline := Some (pe_now V + CONNECT_TIMEOUT)\<rparr>) s
                | (s, Lookup_Failed _) \<Rightarrow> put_connection token (conn_fail (pe_now V) HostUnreachable c) s)))"

definition associate :: "'e proxy_env \<Rightarrow> nat \<Rightarrow> Target \<Rightarrow> 'e Server \<Rightarrow> 'e Server" where
  "associate V token target s =
     (case connection_of token s of
        None \<Rightarrow> s
      | Some c \<Rightarrow>
          (let client_ip = fst (cn_client c)
           in if length (filter (\<lambda>(_, a). as_client_ip a = client_ip) (sv_associations s)) \<ge> MAX_ASSOCIATIONS_PER_CLIENT
              then put_connection token (conn_fail (pe_now V) GeneralFailure c) s
              else case eg_udp_open (pe_egress V) (sv_egress s) of
                     (e, Inl _) \<Rightarrow> put_connection token (conn_fail (pe_now V) GeneralFailure c) (s\<lparr>sv_egress := e\<rparr>)
                   | (e, Inr flow) \<Rightarrow>
                       (let client_port = (case target of Ip _ port \<Rightarrow> if port \<noteq> 0 then Some port else None | _ \<Rightarrow> None);
                            n = sv_next_association s + 1;
                            c = (conn_send (wire_reply Succeeded (fst (cn_local c)) (sv_port s)) c)
                                  \<lparr>cn_phase := UdpControl n, cn_deadline := None\<rparr>
                        in put_connection token c
                             (s\<lparr>sv_egress := e, sv_next_association := n,
                                sv_associations := AList.update n
                                  \<lparr>as_control = token, as_client_ip = client_ip, as_client_port = client_port, as_flow = flow,
                                   as_pending_lookups = 0\<rparr> (sv_associations s),
                                sv_clients := client_entry (pe_wall V) client_ip (\<lambda>u. u\<lparr>cu_active_udp := cu_active_udp u + 1\<rparr>)
                                  (sv_clients s)\<rparr>))))"

definition proxy_step :: "'e proxy_env \<Rightarrow> nat \<Rightarrow> 'e Server \<Rightarrow> 'e Server \<times> bool" where
  "proxy_step V token s =
     (case step_connection V token s of
        (s, progressed, None) \<Rightarrow> (s, progressed)
      | (s, progressed, Some (Next_Connect target code)) \<Rightarrow> (begin_connect V token target code s, progressed)
      | (s, progressed, Some (Next_Associate target)) \<Rightarrow> (associate V token target s, progressed))"

partial_function (option) advance_loop :: "'e proxy_env \<Rightarrow> nat \<Rightarrow> 'e Server \<Rightarrow> 'e Server option" where
  "advance_loop V token s =
     (if snd (proxy_step V token s) then advance_loop V token (fst (proxy_step V token s))
      else Some (fst (proxy_step V token s)))"

definition read_limit :: "Phase \<Rightarrow> nat" where
  "read_limit p = (case p of Relaying _ \<Rightarrow> READ_CHUNK | _ \<Rightarrow> 64 * 1024)"

definition paused :: "Connection \<Rightarrow> bool" where
  "paused c = (case cn_phase c of Resolving _ _ \<Rightarrow> True | Connecting _ _ \<Rightarrow> True | Relaying _ \<Rightarrow> cn_input c \<noteq> [] | _ \<Rightarrow> False)"

definition advance :: "'e proxy_env \<Rightarrow> nat \<Rightarrow> 'e Server \<Rightarrow> 'e Server option" where
  "advance V token s =
     (case connection_of token s of
        None \<Rightarrow> Some s
      | Some c \<Rightarrow>
          (let (c', ok) = (if paused c then (c, True) else read_client (read_limit (cn_phase c)) c)
           in if \<not> ok then Some (put_connection token (c'\<lparr>cn_finished := True\<rparr>) s)
              else advance_loop V token (put_connection token c' s)))"

subsection \<open>Datagrams from clients\<close>

definition send_datagram :: "'e proxy_env \<Rightarrow> nat \<Rightarrow> ipv4 \<Rightarrow> addr4 \<Rightarrow> bytes \<Rightarrow> 'e Server \<Rightarrow> 'e Server" where
  "send_datagram V flow client_ip destination payload s =
     (if \<not> destination_allowed (fst destination) then s
      else let (e, ok) = eg_udp_send (pe_egress V) flow destination payload (sv_egress s); s = s\<lparr>sv_egress := e\<rparr>
           in if ok then count_sent (pe_wall V) client_ip (length payload) s else s)"

definition association_for :: "addr4 \<Rightarrow> (nat \<times> Association) list \<Rightarrow> (nat \<times> (nat \<times> Association) list) option" where
  "association_for source associations =
     (case find (\<lambda>(_, a). as_client_ip a = fst source \<and> as_client_port a = Some (snd source)) associations of
        Some (n, _) \<Rightarrow> Some (n, associations)
      | None \<Rightarrow>
          map_option (\<lambda>(n, a). (n, AList.update n (a\<lparr>as_client_port := Some (snd source)\<rparr>) associations))
            (min_by_key fst (filter (\<lambda>(_, a). as_client_ip a = fst source \<and> as_client_port a = None) associations)))"

definition forward_datagram :: "'e proxy_env \<Rightarrow> nat \<Rightarrow> Association \<Rightarrow> Target \<Rightarrow> bytes \<Rightarrow> 'e Server \<Rightarrow> 'e Server" where
  "forward_datagram V n a target payload s =
     (case target of
        Ipv6 \<Rightarrow> s
      | Ip ip port \<Rightarrow> send_datagram V (as_flow a) (as_client_ip a) (ip, port) payload s
      | Domain name port \<Rightarrow>
          if as_pending_lookups a \<ge> PENDING_DATAGRAMS_PER_ASSOCIATION then s
          else (case server_lookup V name (Wait_Datagram n port payload) s of
                  (s, Lookup_Ready ip) \<Rightarrow> send_datagram V (as_flow a) (as_client_ip a) (ip, port) payload s
                | (s, Lookup_Pending) \<Rightarrow>
                    s\<lparr>sv_associations := AList.map_entry n (\<lambda>a. a\<lparr>as_pending_lookups := as_pending_lookups a + 1\<rparr>) (sv_associations s)\<rparr>
                | (s, Lookup_Failed _) \<Rightarrow> s))"

definition client_datagram :: "'e proxy_env \<Rightarrow> addr4 \<Rightarrow> bytes \<Rightarrow> 'e Server \<Rightarrow> 'e Server" where
  "client_datagram V source datagram s =
     (case association_for source (sv_associations s) of
        None \<Rightarrow> s
      | Some (n, associations) \<Rightarrow>
          (let s = s\<lparr>sv_associations := associations\<rparr>
           in case parse_udp_datagram datagram of
                None \<Rightarrow> s
              | Some (target, payload) \<Rightarrow>
                  (case map_of associations n of
                     None \<Rightarrow> s
                   | Some a \<Rightarrow> forward_datagram V n a target payload s)))"

fun receive_datagrams :: "'e proxy_env \<Rightarrow> udp_read list \<Rightarrow> 'e Server \<Rightarrow> 'e Server" where
  "receive_datagrams V [] s = s\<lparr>sv_udp_readable := False, sv_udp_reads := []\<rparr>"
| "receive_datagrams V (Udp_From source datagram # reads) s = receive_datagrams V reads (client_datagram V source datagram s)"
| "receive_datagrams V (Udp_From_V6 # reads) s = receive_datagrams V reads s"
| "receive_datagrams V (Udp_Reset # reads) s = receive_datagrams V reads s"
| "receive_datagrams V (Udp_Failed # reads) s = s\<lparr>sv_udp_readable := False, sv_udp_reads := reads\<rparr>"

definition receive_client_datagrams :: "'e proxy_env \<Rightarrow> 'e Server \<Rightarrow> 'e Server" where
  "receive_client_datagrams V s = (if sv_udp_readable s then receive_datagrams V (sv_udp_reads s) s else s)"

subsection \<open>Lookups that finished\<close>

definition finish_lookup :: "'e proxy_env \<Rightarrow> Waiter \<times> (string + ipv4) \<Rightarrow> 'e Server \<Rightarrow> 'e Server" where
  "finish_lookup V = (\<lambda>(waiter, result) s.
     case waiter of
       Wait_Connect token \<Rightarrow>
         (case connection_of token s of
            None \<Rightarrow> s
          | Some c \<Rightarrow>
              (case cn_phase c of
                 Resolving port code \<Rightarrow>
                   (let c = c\<lparr>cn_phase := Closing\<rparr>
                    in case result of
                         Inr ip \<Rightarrow> open_flow V token ip port code (put_connection token c s)
                       | Inl _ \<Rightarrow> put_connection token (conn_fail (pe_now V) HostUnreachable c) (count_failed s))
               | _ \<Rightarrow> s))
     | Wait_Datagram n port payload \<Rightarrow>
         (case map_of (sv_associations s) n of
            None \<Rightarrow> s
          | Some a \<Rightarrow>
              (let s = s\<lparr>sv_associations := AList.update n (a\<lparr>as_pending_lookups := as_pending_lookups a - 1\<rparr>) (sv_associations s)\<rparr>
               in case result of
                    Inr ip \<Rightarrow> send_datagram V (as_flow a) (as_client_ip a) (ip, port) payload s
                  | Inl _ \<Rightarrow> s)))"

definition finish_lookups :: "'e proxy_env \<Rightarrow> 'e Server \<Rightarrow> 'e Server option" where
  "finish_lookups V s =
     map_option (\<lambda>((rv, e), finished). fold (finish_lookup V) finished (s\<lparr>sv_resolver := rv, sv_egress := e\<rparr>))
       (poll_lookups (pe_egress V) (pe_now V) (sv_resolver s, sv_egress s))"

subsection \<open>Delivering to clients\<close>

function receive_remote ::
  "('e, 'x) Egress_scheme \<Rightarrow> nat \<Rightarrow> Connection \<Rightarrow> 'e \<Rightarrow> nat \<Rightarrow> Connection \<times> 'e \<times> nat" where
  "receive_remote E flow c e received =
     (if \<not> backlog c < CLIENT_BACKLOG then (c, e, received)
      else let (e, chunk) = eg_tcp_recv E flow READ_CHUNK e
           in if chunk = [] then (c, e, received)
              else receive_remote E flow (conn_send chunk c) e (received + length chunk))"
  by pat_completeness auto
termination
  by (relation "measure (\<lambda>(E, flow, c, e, received). CLIENT_BACKLOG + cn_written c - length (cn_output c))")
     (auto simp: backlog_def conn_send_def simp flip: length_greater_0_conv)

declare receive_remote.simps [simp del]

definition remote_done :: "TcpState \<Rightarrow> bool" where
  "remote_done state \<longleftrightarrow> state = Remote_Closed \<or> state = Tcp_Closed \<or> state = Tcp_Refused"

definition deliver_relaying :: "'e proxy_env \<Rightarrow> nat \<Rightarrow> nat \<Rightarrow> Connection \<Rightarrow> 'e Server \<Rightarrow> 'e Server" where
  "deliver_relaying V token flow c s =
     (let (c, e, received) = receive_remote (pe_egress V) flow c (sv_egress s) 0;
          s = s\<lparr>sv_egress := e\<rparr>;
          s = (if received > 0 then count_received (pe_wall V) (fst (cn_client c)) received s else s);
          (c, ok) = write_client c
      in if \<not> ok then put_connection token (c\<lparr>cn_finished := True\<rparr>) s
         else let (e, state) = eg_tcp_state (pe_egress V) flow (sv_egress s);
                  c = c\<lparr>cn_client_shut := cn_client_shut c \<or> remote_done state \<and> backlog c = 0\<rparr>;
                  (e, upstream_idle) = eg_tcp_send_idle (pe_egress V) flow e;
                  both_done = (cn_client_shut c \<and> (cn_client_done c \<and> upstream_idle \<or> state = Tcp_Closed \<or> state = Tcp_Refused))
              in put_connection token (c\<lparr>cn_finished := cn_finished c \<or> both_done\<rparr>) (s\<lparr>sv_egress := e\<rparr>))"

definition deliver_other :: "nat \<Rightarrow> Connection \<Rightarrow> 'e Server \<Rightarrow> 'e Server" where
  "deliver_other token c s =
     (let (c, ok) = write_client c
      in put_connection token (c\<lparr>cn_finished := cn_finished c \<or> \<not> ok \<or> cn_phase c = Closing \<and> backlog c = 0\<rparr>) s)"

text \<open>
  A connection whose flow has opened becomes a relaying one, takes a step, and is delivered again;
  a step keeps it relaying (\<open>step_keeps_relaying\<close>), so the second delivery is that of \<open>deliver_settled\<close>.
\<close>

definition deliver_settled :: "'e proxy_env \<Rightarrow> nat \<Rightarrow> 'e Server \<Rightarrow> 'e Server" where
  "deliver_settled V token s =
     (case connection_of token s of
        None \<Rightarrow> s
      | Some c \<Rightarrow> (case cn_phase c of Relaying flow \<Rightarrow> deliver_relaying V token flow c s | _ \<Rightarrow> deliver_other token c s))"

definition connected :: "nat \<Rightarrow> ReplyKind \<Rightarrow> Connection \<Rightarrow> Connection" where
  "connected flow code c =
     (case code of
        Reply_Socks \<Rightarrow> conn_send (wire_reply Succeeded UNSPECIFIED 0) c
      | Reply_HttpTunnel \<Rightarrow> conn_send HTTP_ESTABLISHED c
      | Reply_HttpForward head \<Rightarrow> c\<lparr>cn_input := head @ cn_input c\<rparr>)
       \<lparr>cn_phase := Relaying flow, cn_deadline := None, cn_counted := True\<rparr>"

definition deliver_connecting :: "'e proxy_env \<Rightarrow> nat \<Rightarrow> nat \<Rightarrow> ReplyKind \<Rightarrow> Connection \<Rightarrow> 'e Server \<Rightarrow> 'e Server" where
  "deliver_connecting V token flow code c s =
     (let (e, state) = eg_tcp_state (pe_egress V) flow (sv_egress s); s = s\<lparr>sv_egress := e\<rparr>
      in case state of
           Tcp_Connecting \<Rightarrow> s
         | Tcp_Closed \<Rightarrow>
             put_connection token (conn_fail (pe_now V) GeneralFailure c)
               (client_failed (pe_wall V) (fst (cn_client c)) (count_failed (s\<lparr>sv_egress := eg_tcp_release (pe_egress V) flow e\<rparr>)))
         | Tcp_Refused \<Rightarrow>
             put_connection token (conn_fail (pe_now V) ConnectionRefused c)
               (client_failed (pe_wall V) (fst (cn_client c)) (count_failed (s\<lparr>sv_egress := eg_tcp_release (pe_egress V) flow e\<rparr>)))
         | _ \<Rightarrow>
             deliver_settled V token (fst (proxy_step V token
               (put_connection token (connected flow code c)
                  (s\<lparr>sv_clients := client_entry (pe_wall V) (fst (cn_client c)) (\<lambda>u. u\<lparr>cu_active_tcp := cu_active_tcp u + 1\<rparr>)
                        (sv_clients s)\<rparr>)))))"

definition deliver :: "'e proxy_env \<Rightarrow> nat \<Rightarrow> 'e Server \<Rightarrow> 'e Server" where
  "deliver V token s =
     (case connection_of token s of
        None \<Rightarrow> s
      | Some c \<Rightarrow> (case cn_phase c of Connecting flow code \<Rightarrow> deliver_connecting V token flow code c s | _ \<Rightarrow> deliver_settled V token s))"

text \<open>\<^verbatim>\<open>send_to\<close> on the proxy's own socket; an empty script is a full socket buffer.\<close>

definition send_to_client :: "'e proxy_env \<Rightarrow> ipv4 \<Rightarrow> u16 \<Rightarrow> addr4 \<Rightarrow> bytes \<Rightarrow> 'e Server \<Rightarrow> 'e Server" where
  "send_to_client V client_ip port source payload s =
     (case sv_udp_sends s of
        [] \<Rightarrow> s
      | ok # rest \<Rightarrow>
          (let s = s\<lparr>sv_udp_sends := rest\<rparr>
           in if ok
              then count_received (pe_wall V) client_ip (length payload)
                     (s\<lparr>sv_datagrams := sv_datagrams s @ [((client_ip, port), udp_datagram (fst source) (snd source) payload)]\<rparr>)
              else s))"

partial_function (option) drain_association :: "'e proxy_env \<Rightarrow> Association \<Rightarrow> 'e Server \<Rightarrow> 'e Server option" where
  "drain_association V a s =
     (case eg_udp_recv (pe_egress V) (as_flow a) (sv_egress s) of
        (e, None) \<Rightarrow> Some (s\<lparr>sv_egress := e\<rparr>)
      | (e, Some (source, payload)) \<Rightarrow>
          drain_association V a
            (case as_client_port a of
               None \<Rightarrow> s\<lparr>sv_egress := e\<rparr>
             | Some port \<Rightarrow> send_to_client V (as_client_ip a) port source payload (s\<lparr>sv_egress := e\<rparr>)))"

fun deliver_datagrams :: "'e proxy_env \<Rightarrow> (nat \<times> Association) list \<Rightarrow> 'e Server \<Rightarrow> 'e Server option" where
  "deliver_datagrams V [] s = Some s"
| "deliver_datagrams V ((_, a) # rest) s =
     (case drain_association V a s of None \<Rightarrow> None | Some s \<Rightarrow> deliver_datagrams V rest s)"

subsection \<open>Deadlines and the end of connections\<close>

definition expire_connection :: "'e proxy_env \<Rightarrow> nat \<Rightarrow> 'e Server \<Rightarrow> 'e Server" where
  "expire_connection V token s =
     (case connection_of token s of
        None \<Rightarrow> s
      | Some c \<Rightarrow>
          (case cn_deadline c of
             None \<Rightarrow> s
           | Some deadline \<Rightarrow>
               if pe_now V < deadline then s
               else (case cn_phase c of
                       Connecting flow _ \<Rightarrow>
                         put_connection token (conn_fail (pe_now V) TtlExpired c)
                           (count_failed (s\<lparr>sv_egress := eg_tcp_release (pe_egress V) flow (sv_egress s)\<rparr>))
                     | Resolving _ _ \<Rightarrow> put_connection token (conn_fail (pe_now V) HostUnreachable c) (count_failed s)
                     | _ \<Rightarrow> put_connection token (c\<lparr>cn_phase := Closing, cn_finished := True\<rparr>) s)))"

definition tokens :: "'e Server \<Rightarrow> nat list" where
  "tokens s = map fst (sv_connections s)"

definition expire_connections :: "'e proxy_env \<Rightarrow> 'e Server \<Rightarrow> 'e Server" where
  "expire_connections V s = fold (expire_connection V) (tokens s) s"

definition release_association :: "'e proxy_env \<Rightarrow> nat \<Rightarrow> 'e Server \<Rightarrow> 'e Server" where
  "release_association V n s =
     (case map_of (sv_associations s) n of
        None \<Rightarrow> s
      | Some a \<Rightarrow>
          s\<lparr>sv_associations := AList.delete n (sv_associations s),
            sv_egress := eg_udp_release (pe_egress V) (as_flow a) (sv_egress s)\<rparr>)"

definition reap_connection :: "'e proxy_env \<Rightarrow> nat \<Rightarrow> 'e Server \<Rightarrow> 'e Server" where
  "reap_connection V token s =
     (case connection_of token s of
        None \<Rightarrow> s
      | Some c \<Rightarrow>
          (let client_ip = fst (cn_client c);
               s = s\<lparr>sv_connections := AList.delete token (sv_connections s)\<rparr>;
               s = (case cn_phase c of
                      Connecting flow _ \<Rightarrow> s\<lparr>sv_egress := eg_tcp_release (pe_egress V) flow (sv_egress s)\<rparr>
                    | Relaying flow \<Rightarrow> s\<lparr>sv_egress := eg_tcp_release (pe_egress V) flow (sv_egress s)\<rparr>
                    | UdpControl n \<Rightarrow>
                        (if n \<in> fst ` set (sv_associations s)
                         then (release_association V n s)\<lparr>sv_clients := client_entry (pe_wall V) client_ip
                                (\<lambda>u. u\<lparr>cu_active_udp := cu_active_udp u - 1\<rparr>) (sv_clients s)\<rparr>
                         else s)
                    | _ \<Rightarrow> s)
           in if cn_counted c
              then s\<lparr>sv_clients := client_entry (pe_wall V) client_ip (\<lambda>u. u\<lparr>cu_active_tcp := cu_active_tcp u - 1\<rparr>) (sv_clients s)\<rparr>
              else s))"

definition reap :: "'e proxy_env \<Rightarrow> 'e Server \<Rightarrow> 'e Server" where
  "reap V s =
     (let s = fold (reap_connection V) (map fst (filter (\<lambda>(_, c). cn_finished c) (sv_connections s))) s
      in fold (release_association V)
           (map fst (filter (\<lambda>(_, a). as_control a \<notin> set (tokens s)) (sv_associations s))) s)"

subsection \<open>A turn, and a run\<close>

fun advance_all :: "'e proxy_env \<Rightarrow> nat list \<Rightarrow> 'e Server \<Rightarrow> 'e Server option" where
  "advance_all V [] s = Some s"
| "advance_all V (token # rest) s = (case advance V token s of None \<Rightarrow> None | Some s \<Rightarrow> advance_all V rest s)"

definition drive_egress :: "'e proxy_env \<Rightarrow> 'e Server \<Rightarrow> 'e Server" where
  "drive_egress V s = (let (e, wait) = eg_drive (pe_egress V) (sv_egress s) in s\<lparr>sv_egress := e, sv_egress_wait := wait\<rparr>)"

definition turn :: "'e proxy_env \<Rightarrow> 'e Server \<Rightarrow> 'e Server option" where
  "turn V s =
     (case advance_all V (tokens s) s of
        None \<Rightarrow> None
      | Some s1 \<Rightarrow>
          (case finish_lookups V (drive_egress V (receive_client_datagrams V s1)) of
             None \<Rightarrow> None
           | Some s2 \<Rightarrow>
               (let s3 = fold (deliver V) (tokens s) s2
                in map_option (\<lambda>s. reap V (expire_connections V (drive_egress V s)))
                     (deliver_datagrams V (sv_associations s3) s3))))"

definition server_wait :: "instant \<Rightarrow> 'e Server \<Rightarrow> duration" where
  "server_wait now s =
     (let wait = (case sv_egress_wait s of None \<Rightarrow> MAX_WAIT | Some delay \<Rightarrow> min MAX_WAIT delay);
          deadlines = List.map_filter (\<lambda>(_, c). cn_deadline c) (sv_connections s)
            @ (case next_lookup_deadline (sv_resolver s) of None \<Rightarrow> [] | Some d \<Rightarrow> [d])
      in fold (\<lambda>deadline wait. min wait (duration_since deadline now)) deadlines wait)"

definition shutdown :: "'e proxy_env \<Rightarrow> 'e Server \<Rightarrow> 'e Server" where
  "shutdown V s =
     (let s = reap V (s\<lparr>sv_connections := map (\<lambda>(token, c). (token, c\<lparr>cn_finished := True\<rparr>)) (sv_connections s)\<rparr>);
          (rv, e) = release_lookups (pe_egress V) (sv_resolver s, sv_egress s)
      in drive_egress V (s\<lparr>sv_resolver := rv, sv_egress := e\<rparr>))"

record published_status =
  ps_active_connections :: nat
  ps_udp_associations :: nat
  ps_totals :: ServerStatus
  ps_dropped_inbound :: nat
  ps_clients :: "(ipv4 \<times> ClientUsage \<times> bool) list"

definition publish_status :: "'e proxy_env \<Rightarrow> 'e Server \<Rightarrow> published_status" where
  "publish_status V s =
     \<lparr>ps_active_connections = length (filter (\<lambda>(_, c). case cn_phase c of Relaying _ \<Rightarrow> True | _ \<Rightarrow> False) (sv_connections s)),
      ps_udp_associations = length (sv_associations s), ps_totals = sv_totals s,
      ps_dropped_inbound = eg_dropped_inbound (pe_egress V) (sv_egress s), ps_clients = snapshot (pe_wall V) (sv_clients s)\<rparr>"

text \<open>
  What the poll and the network bring before a turn: new connections, readiness of a client's socket or
  of the egress, datagrams on the proxy's socket, and the results the next reads and writes will have.
\<close>

datatype proxy_event =
    Accepted addr4 addr4 bool
  | Ready nat bool bool
  | Udp_Ready
  | Egress_Event nat bool bool
  | Client_Reads nat "read_result list"
  | Client_Writes nat "write_result list"
  | Udp_Arrives "udp_read list"
  | Udp_Room "bool list"

definition change_connection :: "nat \<Rightarrow> (Connection \<Rightarrow> Connection) \<Rightarrow> 'e Server \<Rightarrow> 'e Server" where
  "change_connection token f s = (case connection_of token s of None \<Rightarrow> s | Some c \<Rightarrow> put_connection token (f c) s)"

fun on_proxy_event :: "'e proxy_env \<Rightarrow> proxy_event \<Rightarrow> 'e Server \<Rightarrow> 'e Server" where
  "on_proxy_event V (Accepted client local registered) s = accept_connection (pe_now V) (pe_wall V) client local registered s"
| "on_proxy_event V (Ready token readable writable) s =
     change_connection token (\<lambda>c. c\<lparr>cn_readable := cn_readable c \<or> readable, cn_writable := cn_writable c \<or> writable\<rparr>) s"
| "on_proxy_event V Udp_Ready s = s\<lparr>sv_udp_readable := True\<rparr>"
| "on_proxy_event V (Egress_Event token readable writable) s = s\<lparr>sv_egress := eg_on_event (pe_egress V) token readable writable (sv_egress s)\<rparr>"
| "on_proxy_event V (Client_Reads token results) s = change_connection token (\<lambda>c. c\<lparr>cn_reads := cn_reads c @ results\<rparr>) s"
| "on_proxy_event V (Client_Writes token results) s = change_connection token (\<lambda>c. c\<lparr>cn_writes := cn_writes c @ results\<rparr>) s"
| "on_proxy_event V (Udp_Arrives results) s = s\<lparr>sv_udp_reads := sv_udp_reads s @ results\<rparr>"
| "on_proxy_event V (Udp_Room results) s = s\<lparr>sv_udp_sends := sv_udp_sends s @ results\<rparr>"

text \<open>A run: per turn the clocks and the events before it.\<close>

fun proxy_run :: "'e proxy_env \<Rightarrow> (instant \<times> nat \<times> proxy_event list) list \<Rightarrow> 'e Server \<Rightarrow> 'e Server option" where
  "proxy_run V [] s = Some s"
| "proxy_run V ((now, wall, events) # turns) s =
     (let W = V\<lparr>pe_now := now, pe_wall := wall\<rparr>
      in case turn W (fold (on_proxy_event W) events s) of None \<Rightarrow> None | Some s \<Rightarrow> proxy_run V turns s)"

end
