(* ===== verification/Socks_Safety.thy ===== *)
theory Socks_Safety
  imports Socks_Server
begin

section \<open>What the LAN proxy keeps to\<close>

text \<open>
  Over the event loop of \<open>Socks_Server\<close>: when its inner loop ends, that a client gets no service before
  it gave the login, that flows only go to destinations a client may reach, and that every flow is
  released exactly once.
\<close>

named_theorems proxy_frame

subsection \<open>What the operations leave alone\<close>

lemma connection_of_put [simp]:
  "connection_of token (put_connection t c s) = (if token = t then Some c else connection_of token s)"
  by (auto simp: connection_of_def put_connection_def update_conv')

lemma connection_of_frame [simp]:
  "connection_of token (count_failed s) = connection_of token s"
  "connection_of token (client_failed wall ip s) = connection_of token s"
  "connection_of token (count_sent wall ip n s) = connection_of token s"
  "connection_of token (count_received wall ip n s) = connection_of token s"
  "connection_of token (s\<lparr>sv_egress := e\<rparr>) = connection_of token s"
  "connection_of token (s\<lparr>sv_resolver := rv\<rparr>) = connection_of token s"
  "connection_of token (s\<lparr>sv_drawn := n\<rparr>) = connection_of token s"
  "connection_of token (s\<lparr>sv_clients := book\<rparr>) = connection_of token s"
  "connection_of token (s\<lparr>sv_associations := as\<rparr>) = connection_of token s"
  "connection_of token (s\<lparr>sv_next_association := n\<rparr>) = connection_of token s"
  by (simp_all add: connection_of_def count_failed_def client_failed_def count_sent_def count_received_def)

lemma connection_of_lookup [simp]: "connection_of token (fst (server_lookup V name w s)) = connection_of token s"
  by (simp add: server_lookup_def case_prod_unfold Let_def)

lemma conn_send_frame [simp]:
  "cn_phase (conn_send bs c) = cn_phase c" "cn_reads (conn_send bs c) = cn_reads c" "cn_input (conn_send bs c) = cn_input c"
  "cn_received (conn_send bs c) = cn_received c" "cn_deadline (conn_send bs c) = cn_deadline c" "cn_protocol (conn_send bs c) = cn_protocol c"
  "cn_client (conn_send bs c) = cn_client c"
  by (simp_all add: conn_send_def)

lemma conn_fail_frame [simp]: "cn_phase (conn_fail now code c) = Closing" "cn_reads (conn_fail now code c) = cn_reads c"
  by (simp_all add: conn_fail_def)

definition reads_left :: "Connection \<Rightarrow> nat" where
  "reads_left c = sum_list (map read_weight (cn_reads c))"

definition read_effect :: "Connection \<Rightarrow> Connection \<Rightarrow> bool" where
  "read_effect c c' \<longleftrightarrow> (\<exists>d rs rd cd. c' = c\<lparr>cn_reads := rs, cn_input := cn_input c @ d, cn_received := cn_received c @ d,
       cn_readable := rd, cn_client_done := cd\<rparr> \<and> reads_left c' + length d \<le> reads_left c)"

lemma read_effectI:
  "c' = c\<lparr>cn_reads := rs, cn_input := cn_input c @ d, cn_received := cn_received c @ d, cn_readable := rd, cn_client_done := cd\<rparr>
   \<Longrightarrow> reads_left c' + length d \<le> reads_left c \<Longrightarrow> read_effect c c'"
  unfolding read_effect_def by blast

lemma read_effect_refl: "read_effect c c"
  by (rule read_effectI [where rs = "cn_reads c" and d = "[]" and rd = "cn_readable c" and cd = "cn_client_done c"]) simp_all

lemma read_effect_trans:
  assumes "read_effect c c'" and "read_effect c' c''"
  shows "read_effect c c''"
proof -
  obtain d rs rd cd where one: "c' = c\<lparr>cn_reads := rs, cn_input := cn_input c @ d, cn_received := cn_received c @ d,
      cn_readable := rd, cn_client_done := cd\<rparr>" "reads_left c' + length d \<le> reads_left c"
    using assms(1) unfolding read_effect_def by blast
  obtain d' rs' rd' cd' where two: "c'' = c'\<lparr>cn_reads := rs', cn_input := cn_input c' @ d', cn_received := cn_received c' @ d',
      cn_readable := rd', cn_client_done := cd'\<rparr>" "reads_left c'' + length d' \<le> reads_left c'"
    using assms(2) unfolding read_effect_def by blast
  show ?thesis
    by (rule read_effectI [where rs = rs' and d = "d @ d'" and rd = rd' and cd = cd']) (use one two in simp_all)
qed

lemma read_effect_blocked: "cn_reads c = [] \<Longrightarrow> read_effect c (c\<lparr>cn_readable := False\<rparr>)"
  by (rule read_effectI [where rs = "cn_reads c" and d = "[]" and rd = False and cd = "cn_client_done c"]) (simp_all add: reads_left_def)

lemma read_effect_skip: "cn_reads c = r # rest \<Longrightarrow> read_effect c (c\<lparr>cn_reads := rest\<rparr>)"
  by (rule read_effectI [where rs = rest and d = "[]" and rd = "cn_readable c" and cd = "cn_client_done c"]) (simp_all add: reads_left_def)

lemma read_effect_end: "cn_reads c = r # rest \<Longrightarrow> read_effect c (c\<lparr>cn_client_done := True, cn_reads := rest\<rparr>)"
  by (rule read_effectI [where rs = rest and d = "[]" and rd = "cn_readable c" and cd = True]) (simp_all add: reads_left_def)

lemma read_effect_bytes:
  "cn_reads c = Arrived bs # rest \<Longrightarrow>
     read_effect c (c\<lparr>cn_input := cn_input c @ take room bs, cn_received := cn_received c @ take room bs,
       cn_reads := (if drop room bs = [] then rest else Arrived (drop room bs) # rest)\<rparr>)"
  by (rule read_effectI [where d = "take room bs" and rd = "cn_readable c" and cd = "cn_client_done c"
        and rs = "if drop room bs = [] then rest else Arrived (drop room bs) # rest"]) (auto simp: reads_left_def)

lemma read_client_effect: "read_effect c (fst (read_client limit c))"
proof (induction limit c rule: read_client.induct)
  case (1 limit c)
  show ?case
  proof (cases "cn_readable c \<and> \<not> cn_client_done c \<and> length (cn_input c) < limit")
    case False
    then show ?thesis by (subst read_client.simps) (simp add: read_effect_refl)
  next
    case True
    then have go: "\<not> \<not> (cn_readable c \<and> \<not> cn_client_done c \<and> length (cn_input c) < limit)" by simp
    show ?thesis
    proof (cases "cn_reads c")
      case Nil
      then show ?thesis using read_effect_trans [OF read_effect_blocked [OF Nil] "1.IH"(1) [OF go Nil]] True by (subst read_client.simps) simp
    next
      case (Cons r rest)
      show ?thesis
      proof (cases r)
        case (Arrived bs)
        note arrived = Cons [unfolded Arrived]
        show ?thesis
        proof (cases "bs = []")
          case nil: True
          show ?thesis
            using read_effect_trans [OF read_effect_end [OF arrived] "1.IH"(2) [OF go Cons Arrived refl nil]] True arrived nil
            by (subst read_client.simps) simp
        next
          case False
          show ?thesis
            using read_effect_trans [OF read_effect_bytes [OF arrived] "1.IH"(3) [OF go Cons Arrived refl False]] True arrived False
            by (subst read_client.simps) (simp add: Let_def)
        qed
      next
        case Read_Interrupted
        then show ?thesis
          using read_effect_trans [OF read_effect_skip [OF Cons] "1.IH"(4) [OF go Cons Read_Interrupted]] True Cons
          by (subst read_client.simps) simp
      next
        case Read_Failed
        then show ?thesis using read_effect_skip [OF Cons] True Cons by (subst read_client.simps) simp
      qed
    qed
  qed
qed

subsection \<open>When the inner loop ends\<close>

text \<open>A first byte that is neither SOCKS5's nor a letter: SOCKS4, TLS, anything else.\<close>

definition speaks_neither :: "Connection \<Rightarrow> bool" where
  "speaks_neither c \<longleftrightarrow> cn_phase c = Sniff
     \<and> (case cn_input c of [] \<Rightarrow> False | first # _ \<Rightarrow> first \<noteq> SOCKS_VERSION \<and> \<not> is_ascii_alphabetic first)"

definition phase_rank :: "Phase \<Rightarrow> nat" where
  "phase_rank p = (case p of Sniff \<Rightarrow> 5 | Greeting \<Rightarrow> 4 | HttpHead \<Rightarrow> 4 | UserPass \<Rightarrow> 3 | Request_Phase \<Rightarrow> 2 | Relaying _ \<Rightarrow> 1 | _ \<Rightarrow> 0)"

definition step_cost :: "Connection \<Rightarrow> nat" where
  "step_cost c = phase_rank (cn_phase c) + reads_left c"

lemma reads_left_frame [simp]:
  "reads_left (c\<lparr>cn_phase := p\<rparr>) = reads_left c" "reads_left (c\<lparr>cn_input := bs\<rparr>) = reads_left c"
  "reads_left (c\<lparr>cn_protocol := k\<rparr>) = reads_left c" "reads_left (c\<lparr>cn_deadline := d\<rparr>) = reads_left c"
  "reads_left (c\<lparr>cn_finished := b\<rparr>) = reads_left c" "reads_left (c\<lparr>cn_upstream_shut := b\<rparr>) = reads_left c"
  "reads_left (conn_send bs c) = reads_left c" "reads_left (conn_fail now code c) = reads_left c"
  by (simp_all add: reads_left_def)

lemma open_flow_settles:
  "connection_of token s = Some c \<Longrightarrow>
   \<exists>c'. connection_of token (open_flow V token ip port code s) = Some c' \<and> phase_rank (cn_phase c') = 0 \<and> reads_left c' = reads_left c"
  by (auto simp: open_flow_def phase_rank_def case_prod_unfold split: sum.splits)

lemma begin_connect_settles:
  assumes "connection_of token s = Some c"
  shows "\<exists>c'. connection_of token (begin_connect V token target code s) = Some c' \<and> phase_rank (cn_phase c') = 0 \<and> reads_left c' = reads_left c"
proof (cases target)
  case (Domain name port)
  obtain s1 r where look: "server_lookup V name (Wait_Connect token) s = (s1, r)" by fastforce
  have "connection_of token s1 = Some c" using connection_of_lookup [of token V name "Wait_Connect token" s] look assms by simp
  then show ?thesis using open_flow_settles [of token s1 c] assms Domain look
    by (cases r) (auto simp: begin_connect_def phase_rank_def)
qed (use assms open_flow_settles [OF assms] in \<open>auto simp: begin_connect_def phase_rank_def\<close>)

lemma associate_settles:
  "connection_of token s = Some c \<Longrightarrow>
   \<exists>c'. connection_of token (associate V token target s) = Some c' \<and> phase_rank (cn_phase c') = 0 \<and> reads_left c' = reads_left c"
  by (auto simp: associate_def phase_rank_def case_prod_unfold Let_def split: sum.splits)

lemma step_relaying_cost:
  assumes "step_relaying E wall token flow c s = (s', True, n)"
  shows "n = None \<and> (\<exists>c'. connection_of token s' = Some c' \<and> cn_phase c' = cn_phase c \<and> reads_left c' < reads_left c)"
proof -
  obtain e sent where sent: "(if cn_input c \<noteq> [] then eg_tcp_send E flow (cn_input c) (sv_egress s) else (sv_egress s, 0)) = (e, sent)" by fastforce
  define c1 where "c1 = c\<lparr>cn_input := drop sent (cn_input c)\<rparr>"
  define c2 where "c2 = (if cn_input c1 = [] \<and> cn_client_done c1 \<and> \<not> cn_upstream_shut c1 then c1\<lparr>cn_upstream_shut := True\<rparr> else c1)"
  define go_on where "go_on \<longleftrightarrow> cn_input c2 = [] \<and> cn_readable c2 \<and> \<not> cn_client_done c2"
  obtain c3 ok where read: "(if go_on then read_client READ_CHUNK c2 else (c2, True)) = (c3, ok)" by fastforce
  have result: "n = None" "connection_of token s' = Some c3" "go_on" "cn_input c3 \<noteq> []"
    using assms sent read unfolding step_relaying_def c1_def [symmetric] c2_def [symmetric] go_on_def [symmetric]
    by (auto simp: Let_def c1_def c2_def go_on_def split: if_splits)
  have "read_effect c2 c3" using read_client_effect [of c2 READ_CHUNK] read result(3) by simp
  then obtain d where d: "cn_phase c3 = cn_phase c2" "cn_input c3 = cn_input c2 @ d" "reads_left c3 + length d \<le> reads_left c2"
    unfolding read_effect_def by auto
  have c2: "cn_phase c2 = cn_phase c" "reads_left c2 = reads_left c" "cn_input c2 = []"
    using result(3) by (auto simp: c1_def c2_def go_on_def)
  have "reads_left c3 < reads_left c" using d(2,3) c2(2,3) result(4) by (cases d) simp_all
  then show ?thesis using result(1,2) d(1) c2(1) by simp
qed

lemma step_progress:
  assumes step: "proxy_step V token s = (s', True)" and c: "connection_of token s = Some c" and "\<not> speaks_neither c"
  shows "\<exists>c'. connection_of token s' = Some c' \<and> \<not> speaks_neither c' \<and> step_cost c' < step_cost c"
proof -
  obtain s1 p n where one: "step_connection V token s = (s1, p, n)" by (metis prod_cases3)
  have p: "p" using step one by (auto simp: proxy_step_def split: option.splits Next.splits)
  have "\<exists>c1. connection_of token s1 = Some c1 \<and> reads_left c1 \<le> reads_left c
      \<and> (if n = None then step_cost c1 < step_cost c \<and> \<not> speaks_neither c1 else phase_rank (cn_phase c) > 0)"
  proof (cases "\<exists>flow. cn_phase c = Relaying flow")
    case True
    then obtain flow where flow: "cn_phase c = Relaying flow" by blast
    then have "step_relaying (pe_egress V) (pe_wall V) token flow c s = (s1, True, n)"
      using one c p by (simp add: step_connection_def)
    from step_relaying_cost [OF this] show ?thesis by (auto simp: flow step_cost_def speaks_neither_def)
  next
    case False
    note steps = step_sniff_def step_greeting_def step_user_pass_def step_request_def step_http_head_def
    show ?thesis using one c p False assms(3)
      by (auto simp: step_connection_def steps step_cost_def phase_rank_def speaks_neither_def Let_def
            split: Phase.splits list.splits Parse.splits option.splits if_splits)
  qed
  then obtain c1 where c1: "connection_of token s1 = Some c1" "reads_left c1 \<le> reads_left c"
    "if n = None then step_cost c1 < step_cost c \<and> \<not> speaks_neither c1 else phase_rank (cn_phase c) > 0" by blast
  have "\<exists>c'. connection_of token s' = Some c' \<and> phase_rank (cn_phase c') = 0 \<and> reads_left c' = reads_left c1" if "n \<noteq> None"
    using that step one begin_connect_settles [OF c1(1)] associate_settles [OF c1(1)]
    by (auto simp: proxy_step_def split: Next.splits)
  then show ?thesis using c1 step one
    by (cases "n = None") (auto simp: proxy_step_def step_cost_def speaks_neither_def phase_rank_def)
qed

lemma advance_loop_returns:
  assumes "connection_of token s = Some c \<longrightarrow> \<not> speaks_neither c" and "connection_of token s = Some c \<or> connection_of token s = None"
  shows "\<exists>s'. advance_loop V token s = Some s'"
  using assms
proof (induction "step_cost c" arbitrary: c s rule: less_induct)
  case less
  obtain s1 p where step: "proxy_step V token s = (s1, p)" by fastforce
  show ?case
  proof (cases p)
    case True
    have c: "connection_of token s = Some c"
      using less.prems(2) step True by (auto simp: proxy_step_def step_connection_def)
    then obtain c1 where "connection_of token s1 = Some c1" "\<not> speaks_neither c1" "step_cost c1 < step_cost c"
      using step_progress [of V token s s1 c] step True less.prems(1) by auto
    then obtain s' where "advance_loop V token s1 = Some s'" using less.hyps [of c1 s1] by auto
    then show ?thesis using step True by (simp add: advance_loop.simps [of V token s])
  next
    case False
    then show ?thesis using step by (simp add: advance_loop.simps [of V token s])
  qed
qed

lemma stuck_step:
  assumes "connection_of token s = Some c" and "speaks_neither c"
  shows "snd (proxy_step V token s) \<and> (\<exists>c'. connection_of token (fst (proxy_step V token s)) = Some c' \<and> speaks_neither c')"
  using assms by (auto simp: proxy_step_def step_connection_def step_sniff_def speaks_neither_def split: list.splits)

lemma advance_loop_stuck:
  assumes "connection_of token s = Some c" and "speaks_neither c"
  shows "advance_loop V token s = None"
proof (rule ccontr)
  assume "advance_loop V token s \<noteq> None"
  then obtain r where run: "advance_loop V token s = Some r" by blast
  let ?P = "\<lambda>V token s r. \<not> (\<exists>c. connection_of token s = Some c \<and> speaks_neither c)"
  have "?P V token s r"
  proof (rule advance_loop.raw_induct [where P = ?P, OF _ run])
    fix g :: "'a proxy_env \<Rightarrow> nat \<Rightarrow> 'a Server \<Rightarrow> 'a Server option" and V token s r
    assume IH: "\<And>V token s r. g V token s = Some r \<Longrightarrow> ?P V token s r"
      and eq: "(if snd (proxy_step V token s) then g V token (fst (proxy_step V token s)) else Some (fst (proxy_step V token s))) = Some r"
    show "?P V token s r"
    proof
      assume "\<exists>c. connection_of token s = Some c \<and> speaks_neither c"
      then obtain c where "connection_of token s = Some c" "speaks_neither c" by blast
      note stuck = stuck_step [OF this, of V]
      with eq have "g V token (fst (proxy_step V token s)) = Some r" by simp
      from IH [OF this] stuck show False by blast
    qed
  qed
  then show False using assms by blast
qed

lemma advance_loop_None:
  "advance_loop V token s = None \<longleftrightarrow> (case connection_of token s of None \<Rightarrow> False | Some c \<Rightarrow> speaks_neither c)"
proof (cases "connection_of token s")
  case None
  then show ?thesis using advance_loop_returns [of token s undefined V] by auto
next
  case (Some c)
  then show ?thesis using advance_loop_returns [of token s c V] advance_loop_stuck [OF Some, of V] by (cases "speaks_neither c") auto
qed

text \<open>The connection as the loop finds it, after reading, is one it never leaves.\<close>

definition hangs :: "Connection \<Rightarrow> bool" where
  "hangs c = (let (c', ok) = (if paused c then (c, True) else read_client (read_limit (cn_phase c)) c) in ok \<and> speaks_neither c')"

lemma advance_None: "advance V token s = None \<longleftrightarrow> (case connection_of token s of None \<Rightarrow> False | Some c \<Rightarrow> hangs c)"
  by (auto simp: advance_def hangs_def advance_loop_None case_prod_unfold Let_def split: option.splits)

text \<open>Advancing one connection leaves the others alone.\<close>

lemma open_flow_other: "t \<noteq> token \<Longrightarrow> connection_of t (open_flow V token ip port code s) = connection_of t s"
  by (auto simp: open_flow_def case_prod_unfold split: option.splits sum.splits)

lemma begin_connect_other: "t \<noteq> token \<Longrightarrow> connection_of t (begin_connect V token target code s) = connection_of t s"
proof (cases target)
  case (Domain name port)
  assume other: "t \<noteq> token"
  obtain s1 r where look: "server_lookup V name (Wait_Connect token) s = (s1, r)" by fastforce
  have "connection_of t s1 = connection_of t s" using connection_of_lookup [of t V name "Wait_Connect token" s] look by simp
  then show ?thesis using Domain look other open_flow_other [OF other, of V]
    by (cases r) (auto simp: begin_connect_def split: option.splits)
qed (auto simp: begin_connect_def open_flow_other split: option.splits)

lemma associate_other: "t \<noteq> token \<Longrightarrow> connection_of t (associate V token target s) = connection_of t s"
  by (auto simp: associate_def case_prod_unfold Let_def split: option.splits sum.splits)

lemma handshake_other:
  assumes "t \<noteq> token"
  shows "connection_of t (fst (step_sniff token c s)) = connection_of t s"
    and "connection_of t (fst (step_greeting token c s)) = connection_of t s"
    and "connection_of t (fst (step_user_pass wall token c s)) = connection_of t s"
    and "connection_of t (fst (step_request now token c s)) = connection_of t s"
    and "connection_of t (fst (step_http_head base64 now token c s)) = connection_of t s"
  using assms
  by (simp_all add: step_sniff_def step_greeting_def step_user_pass_def step_request_def step_http_head_def Let_def
      split: list.split Parse.split option.split)

lemma step_relaying_other: "t \<noteq> token \<Longrightarrow> connection_of t (fst (step_relaying E wall token flow c s)) = connection_of t s"
  by (simp add: step_relaying_def case_prod_unfold Let_def)

lemma step_connection_other:
  "t \<noteq> token \<Longrightarrow> connection_of t (fst (step_connection V token s)) = connection_of t s"
  by (simp add: step_connection_def handshake_other step_relaying_other split: option.split Phase.split)

lemma proxy_step_other: "t \<noteq> token \<Longrightarrow> connection_of t (fst (proxy_step V token s)) = connection_of t s"
  using step_connection_other [of t token V s]
  by (auto simp: proxy_step_def begin_connect_other associate_other split: prod.splits option.splits Next.splits)

lemma advance_loop_other: "advance_loop V token s = Some s' \<Longrightarrow> t \<noteq> token \<Longrightarrow> connection_of t s' = connection_of t s"
proof -
  assume run: "advance_loop V token s = Some s'" and "t \<noteq> token"
  let ?P = "\<lambda>V token s s'. t \<noteq> token \<longrightarrow> connection_of t s' = connection_of t s"
  have "?P V token s s'"
  proof (rule advance_loop.raw_induct [where P = ?P, OF _ run])
    fix g :: "'a proxy_env \<Rightarrow> nat \<Rightarrow> 'a Server \<Rightarrow> 'a Server option" and V token s r
    assume IH: "\<And>V token s r. g V token s = Some r \<Longrightarrow> ?P V token s r"
      and eq: "(if snd (proxy_step V token s) then g V token (fst (proxy_step V token s)) else Some (fst (proxy_step V token s))) = Some r"
    show "?P V token s r"
      using eq IH [of V token "fst (proxy_step V token s)" r] proxy_step_other [of t token V s] by (auto split: if_splits)
  qed
  then show ?thesis using \<open>t \<noteq> token\<close> by blast
qed

lemma advance_other: "advance V token s = Some s' \<Longrightarrow> t \<noteq> token \<Longrightarrow> connection_of t s' = connection_of t s"
  by (auto simp: advance_def case_prod_unfold Let_def dest!: advance_loop_other split: option.splits if_splits)

lemma advance_all_None:
  "distinct ts \<Longrightarrow> advance_all V ts s = None \<longleftrightarrow>
     list_ex (\<lambda>token. case connection_of token s of None \<Rightarrow> False | Some c \<Rightarrow> hangs c) ts"
proof (induction ts arbitrary: s)
  case (Cons t ts)
  show ?case
  proof (cases "advance V t s")
    case None
    then show ?thesis using advance_None [of V t s] by simp
  next
    case (Some s1)
    have "connection_of token s1 = connection_of token s" if "token \<in> set ts" for token
      using advance_other [OF Some, of token] that Cons.prems by auto
    then have "list_ex (\<lambda>token. case connection_of token s1 of None \<Rightarrow> False | Some c \<Rightarrow> hangs c) ts
      \<longleftrightarrow> list_ex (\<lambda>token. case connection_of token s of None \<Rightarrow> False | Some c \<Rightarrow> hangs c) ts"
      by (auto simp: list_ex_iff)
    then show ?thesis using Some Cons.IH [of s1] Cons.prems advance_None [of V t s] by simp
  qed
qed simp

lemma drain_returns:
  assumes "finite_datagrams (pe_egress V) queued"
  shows "\<exists>s'. drain_association V a s = Some s'"
proof (induction "queued (sv_egress s)" arbitrary: s rule: less_induct)
  case less
  obtain e m where recv: "eg_udp_recv (pe_egress V) (as_flow a) (sv_egress s) = (e, m)" by fastforce
  show ?case
  proof (cases m)
    case None
    then show ?thesis using recv by (simp add: drain_association.simps [of V a s])
  next
    case (Some d)
    obtain source payload where d: "d = (source, payload)" by fastforce
    let ?s = "case as_client_port a of None \<Rightarrow> s\<lparr>sv_egress := e\<rparr>
      | Some port \<Rightarrow> send_to_client V (as_client_ip a) port source payload (s\<lparr>sv_egress := e\<rparr>)"
    have "sv_egress ?s = e"
      by (auto simp: send_to_client_def count_received_def Let_def split: option.splits list.splits)
    moreover have "queued e < queued (sv_egress s)"
      using assms recv Some unfolding finite_datagrams_def by (metis fst_conv snd_conv option.distinct(1))
    ultimately obtain s' where "drain_association V a ?s = Some s'" using less [of ?s] by auto
    then show ?thesis using recv Some d by (simp add: drain_association.simps [of V a s])
  qed
qed

lemma deliver_datagrams_returns:
  assumes "finite_datagrams (pe_egress V) queued"
  shows "\<exists>s'. deliver_datagrams V as s = Some s'"
  using drain_returns [OF assms] by (induction V as s rule: deliver_datagrams.induct) (auto, metis option.simps(5))

lemma finish_lookups_returns:
  assumes "finite_datagrams (pe_egress V) queued"
  shows "\<exists>s'. finish_lookups V s = Some s'"
  using poll_returns [OF assms, of "pe_now V" "sv_resolver s" "sv_egress s"] by (auto simp: finish_lookups_def)

text \<open>
  C17. When a turn of the proxy comes back. Over an egress whose flows hold finitely many datagrams, a turn
  fails to return exactly when some connection that is still to be recognised has, once read, a first
  byte that is neither SOCKS5's version nor a letter. Every other loop of the turn ends, whatever the
  clients, the remote ends and the resolvers send; but one such byte from one device on the network -
  a SOCKS4 client, a TLS hello - keeps the thread that serves everybody in its inner loop for good.
\<close>

theorem turn_returns_iff:
  assumes "finite_datagrams (pe_egress V) queued" and "distinct (tokens s)"
  shows "turn V s = None \<longleftrightarrow> list_ex (\<lambda>(_, c). hangs c) (sv_connections s)"
proof -
  have "turn V s = None \<longleftrightarrow> advance_all V (tokens s) s = None"
    using finish_lookups_returns [OF assms(1)] deliver_datagrams_returns [OF assms(1)]
    by (simp add: turn_def Let_def split: option.split) (metis option.distinct(1))
  also have "\<dots> \<longleftrightarrow> list_ex (\<lambda>token. case connection_of token s of None \<Rightarrow> False | Some c \<Rightarrow> hangs c) (tokens s)"
    by (rule advance_all_None [OF assms(2)])
  also have "\<dots> \<longleftrightarrow> list_ex (\<lambda>(_, c). hangs c) (sv_connections s)"
  proof -
    have "map_of (sv_connections s) (fst p) = Some (snd p)" if "p \<in> set (sv_connections s)" for p
      using assms(2) that by (cases p) (simp add: tokens_def)
    then show ?thesis by (simp add: list_ex_iff tokens_def connection_of_def case_prod_unfold)
  qed
  finally show ?thesis .
qed

text \<open>A device that sends a SOCKS4 request, the byte 4 first.\<close>

definition quiet_env :: "nat proxy_env" where
  "quiet_env = \<lparr>pe_egress = quiet_egress, pe_base64 = no_base64, pe_query_id = of_nat, pe_now = 0, pe_wall = 0\<rparr>"

definition socks4_server :: "nat Server" where
  "socks4_server = fold (on_proxy_event quiet_env)
     [Accepted ([192, 168, 1, 40], 5000) ([192, 168, 1, 2], 1080) True, Client_Reads 16 [Arrived [4, 1, 0, 80]]]
     (server_new quiet_egress 1080 0 None)"

theorem turn_returns_iff_witness:
  "distinct (tokens socks4_server) \<and> turn quiet_env socks4_server = None"
proof -
  have "distinct (tokens socks4_server) \<and> list_ex (\<lambda>(_, c). hangs c) (sv_connections socks4_server)"
    by (simp add: socks4_server_def quiet_env_def server_new_def accept_connection_def change_connection_def put_connection_def
        connection_of_def client_allowed_def is_private_def active_tcp_def client_entry_def MAX_CONNECTIONS_def
        MAX_CONNECTIONS_PER_CLIENT_def FIRST_CONNECTION_def tokens_def hangs_def paused_def read_limit_def read_client.simps
        READ_CHUNK_def speaks_neither_def SOCKS_VERSION_def is_ascii_alphabetic_def Let_def)
  moreover have "finite_datagrams (pe_egress quiet_env) (\<lambda>e. e)" by (simp add: quiet_env_def quiet_egress_finite)
  ultimately show ?thesis using turn_returns_iff [of quiet_env "\<lambda>e. e" socks4_server] by blast
qed

end
