(* ===== verification/Socks_Login.thy ===== *)
theory Socks_Login
  imports Socks_Safety
begin

section \<open>The LAN proxy serves nobody before the login\<close>

text \<open>
  The invariant of the event loop that with credentials set a connection passes the handshake only when
  the client's stream begins with them, in SOCKS5 or in HTTP, and that an association for datagrams
  belongs to such a connection.
\<close>

subsection \<open>Logins\<close>


lemma fold_or_eq_0: "fold (\<lambda>(a, b) d. d OR (a XOR b)) ps (d :: u8) = 0 \<longleftrightarrow> d = 0 \<and> list_all (\<lambda>(a, b). a = b) ps"
proof (induction ps arbitrary: d)
  case (Cons p ps)
  have "fst p XOR snd p = 0 \<longleftrightarrow> fst p = snd p" by (auto simp: bit_eq_iff bit_simps)
  then have "d OR (fst p XOR snd p) = 0 \<longleftrightarrow> d = 0 \<and> fst p = snd p" by (simp add: or_eq_0_iff)
  then show ?case using Cons by (auto simp: case_prod_unfold)
qed simp

lemma same_secret_iff [simp]: "same_secret a b \<longleftrightarrow> a = b"
proof -
  have "list_all (\<lambda>(x, y). x = y) (zip xs ys) \<longleftrightarrow> xs = ys" if "length xs = length ys" for xs ys :: bytes
    using that by (induction xs ys rule: list_induct2) auto
  moreover have "bytes_of a = bytes_of b \<longleftrightarrow> a = b" by (metis text_of_bytes_of)
  ultimately show ?thesis by (auto simp: same_secret_def fold_or_eq_0)
qed

text \<open>The login a client's stream begins with, in either protocol.\<close>

definition socks_login :: "bytes \<Rightarrow> (string \<times> string) option" where
  "socks_login received =
     (case parse_greeting received of
        Done _ n \<Rightarrow> (case parse_user_pass (drop n received) of Done given _ \<Rightarrow> Some given | _ \<Rightarrow> None)
      | _ \<Rightarrow> None)"

definition http_login :: "(string \<Rightarrow> bytes option) \<Rightarrow> bytes \<Rightarrow> (string \<times> string) option" where
  "http_login base64 received = (case parse_http_request base64 received of Done r _ \<Rightarrow> hr_credentials r | _ \<Rightarrow> None)"

definition gave_login :: "(string \<Rightarrow> bytes option) \<Rightarrow> string \<times> string \<Rightarrow> bytes \<Rightarrow> bool" where
  "gave_login base64 creds received \<longleftrightarrow> socks_login received = Some creds \<or> http_login base64 received = Some creds"

lemma gave_login_append: "gave_login base64 creds received \<Longrightarrow> gave_login base64 creds (received @ d)"
proof -
  have "socks_login (received @ d) = Some creds" if given: "socks_login received = Some creds"
  proof -
    obtain m n k where "parse_greeting received = Done m n" "parse_user_pass (drop n received) = Done creds k"
      using given by (cases "parse_greeting received") (auto simp: socks_login_def split: Parse.splits)
    then show ?thesis
      using greeting.done_stable [of received m n d] greeting.done_within [of received m n]
        user_pass.done_stable [of "drop n received" creds k d] by (simp add: socks_login_def)
  qed
  moreover have "http_login base64 (received @ d) = Some creds" if "http_login base64 received = Some creds"
    using that http.done_stable [of base64 received _ _ d] by (auto simp: http_login_def split: Parse.splits)
  ultimately show "gave_login base64 creds received \<Longrightarrow> gave_login base64 creds (received @ d)" by (auto simp: gave_login_def)
qed

lemma gave_login_prefix: "gave_login base64 creds r \<Longrightarrow> prefix r r' \<Longrightarrow> gave_login base64 creds r'"
  by (elim prefixE) (simp add: gave_login_append)

definition serviced :: "Phase \<Rightarrow> bool" where
  "serviced p = (case p of Request_Phase \<Rightarrow> True | Resolving _ _ \<Rightarrow> True | Connecting _ _ \<Rightarrow> True | Relaying _ \<Rightarrow> True | UdpControl _ \<Rightarrow> True | _ \<Rightarrow> False)"

text \<open>
  A connection is on its way out, or gave the login, or is in a phase before it, and then what it has
  buffered is what is left of what it sent.
\<close>

definition conn_ok :: "(string \<Rightarrow> bytes option) \<Rightarrow> string \<times> string \<Rightarrow> Connection \<Rightarrow> bool" where
  "conn_ok base64 creds c \<longleftrightarrow> cn_phase c = Closing \<or> gave_login base64 creds (cn_received c)
     \<or> (case cn_phase c of
          UserPass \<Rightarrow> (case parse_greeting (cn_received c) of Done _ n \<Rightarrow> cn_input c = drop n (cn_received c) | _ \<Rightarrow> False)
        | p \<Rightarrow> \<not> serviced p \<and> cn_input c = cn_received c)"

definition secured :: "(string \<Rightarrow> bytes option) \<Rightarrow> string \<times> string \<Rightarrow> 'e Server \<Rightarrow> bool" where
  "secured base64 creds s \<longleftrightarrow> sv_credentials s = Some creds
     \<and> (\<forall>(t, c) \<in> set (sv_connections s). conn_ok base64 creds c \<and> t < sv_next_token s)
     \<and> (\<forall>(_, a) \<in> set (sv_associations s). as_control a < sv_next_token s
          \<and> (\<forall>c. connection_of (as_control a) s = Some c \<longrightarrow> gave_login base64 creds (cn_received c)))"

lemma conn_ok_intros:
  "gave_login base64 creds (cn_received c) \<Longrightarrow> conn_ok base64 creds c"
  "cn_phase c = Closing \<Longrightarrow> conn_ok base64 creds c"
  by (simp_all add: conn_ok_def)

lemma conn_ok_cong:
  "cn_phase c' = cn_phase c \<Longrightarrow> cn_input c' = cn_input c \<Longrightarrow> cn_received c' = cn_received c \<Longrightarrow> conn_ok base64 creds c' = conn_ok base64 creds c"
  by (simp only: conn_ok_def)

lemma conn_ok_finished [simp]: "conn_ok base64 creds (c\<lparr>cn_finished := b\<rparr>) = conn_ok base64 creds c"
  by (rule conn_ok_cong) simp_all

lemma conn_ok_serviced: "conn_ok base64 creds c \<Longrightarrow> serviced (cn_phase c) \<Longrightarrow> gave_login base64 creds (cn_received c)"
  by (auto simp: conn_ok_def serviced_def split: Phase.splits)

lemma connection_in: "connection_of t s = Some c \<Longrightarrow> (t, c) \<in> set (sv_connections s)"
  by (simp add: connection_of_def map_of_SomeD)

lemma secured_conn: "secured base64 creds s \<Longrightarrow> connection_of t s = Some c \<Longrightarrow> conn_ok base64 creds c"
  using connection_in [of t s c] by (auto simp: secured_def)

lemma secured_creds: "secured base64 creds s \<Longrightarrow> sv_credentials s = Some creds"
  by (simp add: secured_def)

lemma secured_frame [simp]:
  "secured base64 creds (count_failed s) = secured base64 creds s"
  "secured base64 creds (client_failed wall ip s) = secured base64 creds s"
  "secured base64 creds (count_sent wall ip n s) = secured base64 creds s"
  "secured base64 creds (count_received wall ip n s) = secured base64 creds s"
  "secured base64 creds (s\<lparr>sv_egress := e\<rparr>) = secured base64 creds s"
  "secured base64 creds (s\<lparr>sv_egress_wait := w\<rparr>) = secured base64 creds s"
  "secured base64 creds (s\<lparr>sv_resolver := rv\<rparr>) = secured base64 creds s"
  "secured base64 creds (s\<lparr>sv_drawn := n\<rparr>) = secured base64 creds s"
  "secured base64 creds (s\<lparr>sv_clients := book\<rparr>) = secured base64 creds s"
  "secured base64 creds (s\<lparr>sv_totals := totals\<rparr>) = secured base64 creds s"
  "secured base64 creds (s\<lparr>sv_next_association := n\<rparr>) = secured base64 creds s"
  "secured base64 creds (s\<lparr>sv_udp_readable := b\<rparr>) = secured base64 creds s"
  "secured base64 creds (s\<lparr>sv_udp_reads := us\<rparr>) = secured base64 creds s"
  "secured base64 creds (s\<lparr>sv_udp_sends := bs\<rparr>) = secured base64 creds s"
  "secured base64 creds (s\<lparr>sv_datagrams := ds\<rparr>) = secured base64 creds s"
  by (simp_all add: secured_def connection_of_def count_failed_def client_failed_def count_sent_def count_received_def)

lemma secured_put:
  assumes "secured base64 creds s" and c: "connection_of t s = Some c"
    and "conn_ok base64 creds c'" and "prefix (cn_received c) (cn_received c')"
  shows "secured base64 creds (put_connection t c' s)"
proof -
  have t: "t < sv_next_token s" using assms(1) connection_in [OF c] by (auto simp: secured_def)
  have "gave_login base64 creds (cn_received d)"
    if a_in: "(n, a) \<in> set (sv_associations s)" and d: "connection_of (as_control a) (put_connection t c' s) = Some d" for n a d
  proof (cases "as_control a = t")
    case True
    then have "gave_login base64 creds (cn_received c)" using assms(1) a_in c by (auto simp: secured_def)
    then show ?thesis using True d gave_login_prefix [OF _ assms(4)] by simp
  next
    case False
    then show ?thesis using assms(1) a_in d by (auto simp: secured_def)
  qed
  moreover have "conn_ok base64 creds d \<and> u < sv_next_token s" if "(u, d) \<in> set (AList.update t c' (sv_connections s))" for u d
    using set_alist_update [OF that] assms(1,3) t by (auto simp: secured_def)
  ultimately show ?thesis using assms(1) unfolding secured_def by (fastforce simp: put_connection_def)
qed

lemma secured_put_same:
  "secured base64 creds s \<Longrightarrow> connection_of t s = Some c \<Longrightarrow> cn_received c' = cn_received c \<Longrightarrow> conn_ok base64 creds c'
   \<Longrightarrow> secured base64 creds (put_connection t c' s)"
  by (rule secured_put) auto

lemma secured_put_login:
  assumes "secured base64 creds s" and "connection_of t s = Some c" and "gave_login base64 creds (cn_received c)"
    and "prefix (cn_received c) (cn_received c')"
  shows "secured base64 creds (put_connection t c' s)"
proof (rule secured_put [OF assms(1,2) _ assms(4)])
  show "conn_ok base64 creds c'" by (rule conn_ok_intros(1) [OF gave_login_prefix [OF assms(3,4)]])
qed

lemma secured_associations:
  assumes "secured base64 creds s"
    and "\<And>n a. (n, a) \<in> set as \<Longrightarrow> (\<exists>m b. (m, b) \<in> set (sv_associations s) \<and> as_control b = as_control a)
      \<or> (\<exists>c. connection_of (as_control a) s = Some c \<and> gave_login base64 creds (cn_received c))"
  shows "secured base64 creds (s\<lparr>sv_associations := as\<rparr>)"
proof -
  have "as_control a < sv_next_token s \<and> (\<forall>c. connection_of (as_control a) s = Some c \<longrightarrow> gave_login base64 creds (cn_received c))"
    if "(n, a) \<in> set as" for n a
    using assms(2) [OF that]
  proof
    assume "\<exists>m b. (m, b) \<in> set (sv_associations s) \<and> as_control b = as_control a"
    then show ?thesis using assms(1) by (auto simp: secured_def)
  next
    assume "\<exists>c. connection_of (as_control a) s = Some c \<and> gave_login base64 creds (cn_received c)"
    then show ?thesis using assms(1) connection_in by (fastforce simp: secured_def)
  qed
  then show ?thesis using assms(1) by (auto simp: secured_def)
qed

subsection \<open>Every operation keeps it\<close>

lemma login_accepted_iff [simp]: "login_accepted (Some creds) given \<longleftrightarrow> given = Some creds"
  by (cases creds) (auto simp: login_accepted_def split: option.splits)

lemma greeting_method_creds: "greeting_method (Some creds) methods = Some m \<Longrightarrow> m = METHOD_USER_PASS"
  by (auto simp: greeting_method_def split: if_splits)

text \<open>A connection that gave the login may be put back in any phase; one that is closing anyway.\<close>

lemma conn_fail_received [simp]: "cn_received (conn_fail now code c) = cn_received c"
  by (simp add: conn_fail_def)

lemma secured_fail:
  "secured base64 creds s \<Longrightarrow> connection_of t s = Some c \<Longrightarrow> cn_received d = cn_received c
   \<Longrightarrow> secured base64 creds (put_connection t (conn_fail now code d) s)"
  by (rule secured_put_same) (auto simp: conn_ok_def)

lemma secured_put_given:
  "secured base64 creds s \<Longrightarrow> connection_of t s = Some c \<Longrightarrow> gave_login base64 creds (cn_received c)
   \<Longrightarrow> cn_received c' = cn_received c \<Longrightarrow> secured base64 creds (put_connection t c' s)"
  by (rule secured_put_same) (auto simp: conn_ok_def)

lemma secured_open_flow:
  assumes "secured base64 creds s" and "\<And>c. connection_of token s = Some c \<Longrightarrow> gave_login base64 creds (cn_received c)"
  shows "secured base64 creds (open_flow V token ip port code s)"
proof (cases "connection_of token s")
  case (Some c)
  show ?thesis using assms(1) Some assms(2) [OF Some]
    by (auto simp: open_flow_def case_prod_unfold secured_fail secured_put_given split: sum.split)
qed (simp add: open_flow_def assms(1))

lemma secured_lookup [simp]: "secured base64 creds (fst (server_lookup V name w s)) = secured base64 creds s"
proof -
  obtain rv e r where "lookup_name (pe_egress V) (pe_query_id V (sv_drawn s)) (pe_now V) name w (sv_resolver s, sv_egress s) = ((rv, e), r)"
    by (metis prod.collapse)
  then show ?thesis by (simp add: server_lookup_def)
qed

lemma secured_begin_connect:
  assumes ok: "secured base64 creds s" and given: "\<And>c. connection_of token s = Some c \<Longrightarrow> gave_login base64 creds (cn_received c)"
  shows "secured base64 creds (begin_connect V token target code s)"
proof (cases "connection_of token s")
  case (Some c)
  show ?thesis
  proof (cases target)
    case (Domain name port)
    obtain s1 r where look: "server_lookup V name (Wait_Connect token) s = (s1, r)" by fastforce
    have s1: "secured base64 creds s1" "connection_of token s1 = Some c"
      using ok Some look secured_lookup [of base64 creds V name "Wait_Connect token" s]
        connection_of_lookup [of token V name "Wait_Connect token" s] by simp_all
    have "secured base64 creds (open_flow V token ip port code s1)" for ip
      using secured_open_flow [OF s1(1), of token V ip port code] s1(2) given [OF Some] by simp
    then show ?thesis using Some Domain look s1 given [OF Some]
      by (cases r) (auto simp: begin_connect_def secured_fail secured_put_given)
  qed (use Some ok in \<open>auto simp: begin_connect_def secured_fail intro!: secured_open_flow given\<close>)
qed (simp add: begin_connect_def ok)

lemma secured_associate:
  assumes ok: "secured base64 creds s" and given: "\<And>c. connection_of token s = Some c \<Longrightarrow> gave_login base64 creds (cn_received c)"
  shows "secured base64 creds (associate V token target s)"
proof (cases "connection_of token s")
  case (Some c)
  obtain e r where opened: "eg_udp_open (pe_egress V) (sv_egress s) = (e, r)" by fastforce
  have grown: "secured base64 creds (s\<lparr>sv_egress := e, sv_next_association := n, sv_associations := AList.update n a (sv_associations s)\<rparr>)"
    if "as_control a = token" for n a
    using that ok Some given [OF Some] by (intro secured_associations) (auto dest!: set_alist_update)
  show ?thesis
  proof (cases r)
    case (Inl x)
    then show ?thesis using ok Some opened by (auto simp: associate_def Let_def secured_fail)
  next
    case (Inr flow)
    show ?thesis
    proof (cases "length (filter (\<lambda>(_, a). as_client_ip a = fst (cn_client c)) (sv_associations s)) \<ge> MAX_ASSOCIATIONS_PER_CLIENT")
      case True
      then show ?thesis using ok Some by (simp add: associate_def Let_def secured_fail)
    next
      case False
      let ?a = "\<lparr>as_control = token, as_client_ip = fst (cn_client c),
        as_client_port = (case target of Ip _ port \<Rightarrow> if port \<noteq> 0 then Some port else None | _ \<Rightarrow> None),
        as_flow = flow, as_pending_lookups = 0\<rparr>"
      have "secured base64 creds (s\<lparr>sv_egress := e, sv_next_association := sv_next_association s + 1,
          sv_associations := AList.update (sv_next_association s + 1) ?a (sv_associations s)\<rparr>)"
        by (rule grown) simp
      then show ?thesis using False Some Inr opened given [OF Some]
        by (auto simp: associate_def Let_def intro!: secured_put_given [where c = c])
    qed
  qed
qed (simp add: associate_def ok)

lemma secured_handshake:
  assumes ok: "secured base64 creds s" and c: "connection_of token s = Some c"
  shows "cn_phase c = Sniff \<Longrightarrow> secured base64 creds (fst (step_sniff token c s))"
    and "cn_phase c = Greeting \<Longrightarrow> secured base64 creds (fst (step_greeting token c s))"
    and "cn_phase c = UserPass \<Longrightarrow> secured base64 creds (fst (step_user_pass wall token c s))"
    and "cn_phase c = Request_Phase \<Longrightarrow> secured base64 creds (fst (step_request now token c s))"
    and "cn_phase c = HttpHead \<Longrightarrow> secured base64 creds (fst (step_http_head base64 now token c s))"
proof -
  note conn = secured_conn [OF ok c] and put_same = secured_put_same [OF ok c]
  show "secured base64 creds (fst (step_sniff token c s))" if "cn_phase c = Sniff"
    using that conn ok by (auto simp: step_sniff_def conn_ok_def serviced_def intro!: put_same split: list.split)
  show "secured base64 creds (fst (step_greeting token c s))" if "cn_phase c = Greeting"
  proof (cases "parse_greeting (cn_input c)")
    case (Done methods used)
    have "gave_login base64 creds (cn_received c) \<or> parse_greeting (cn_received c) = Done methods used \<and> cn_input c = cn_received c"
      using that conn Done by (auto simp: conn_ok_def serviced_def)
    then show ?thesis using Done secured_creds [OF ok]
      by (cases "greeting_method (Some creds) methods")
         (auto simp: step_greeting_def Let_def conn_ok_def serviced_def dest!: greeting_method_creds intro!: put_same)
  qed (use that conn ok in \<open>auto simp: step_greeting_def conn_ok_def intro!: put_same\<close>)
  show "secured base64 creds (fst (step_user_pass wall token c s))" if "cn_phase c = UserPass"
  proof (cases "parse_user_pass (cn_input c)")
    case (Done given used)
    have "gave_login base64 creds (cn_received c)" if "given = creds"
      using \<open>cn_phase c = UserPass\<close> conn Done that by (auto simp: conn_ok_def gave_login_def socks_login_def split: Parse.splits)
    then show ?thesis using Done secured_creds [OF ok]
      by (auto simp: step_user_pass_def Let_def conn_ok_def intro!: put_same)
  qed (use that conn ok in \<open>auto simp: step_user_pass_def intro!: put_same\<close>)
  show "secured base64 creds (fst (step_request now token c s))" if "cn_phase c = Request_Phase"
    using that conn ok by (auto simp: step_request_def Let_def conn_ok_def serviced_def intro!: put_same split: Parse.split)
  show "secured base64 creds (fst (step_http_head base64 now token c s))" if "cn_phase c = HttpHead"
  proof (cases "parse_http_request base64 (cn_input c)")
    case (Done r used)
    have "gave_login base64 creds (cn_received c)" if "hr_credentials r = Some creds"
      using \<open>cn_phase c = HttpHead\<close> conn Done that by (auto simp: conn_ok_def gave_login_def http_login_def serviced_def)
    then show ?thesis using Done secured_creds [OF ok]
      by (auto simp: step_http_head_def Let_def conn_ok_def intro!: put_same)
  qed (use that conn ok in \<open>auto simp: step_http_head_def conn_ok_def intro!: put_same\<close>)
qed

lemma connection_of_totals [simp]: "connection_of token (s\<lparr>sv_totals := totals\<rparr>) = connection_of token s"
  by (simp add: connection_of_def)

lemma step_relaying_shape:
  "\<exists>d e book totals. fst (step_relaying E wall token flow c s) = put_connection token d (s\<lparr>sv_egress := e, sv_clients := book, sv_totals := totals\<rparr>)
    \<and> prefix (cn_received c) (cn_received d) \<and> cn_phase d = cn_phase c \<and> cn_deadline d = cn_deadline c
    \<and> (let sent = (if cn_input c \<noteq> [] then fst (eg_tcp_send E flow (cn_input c) (sv_egress s)) else sv_egress s)
       in e = sent \<or> e = eg_tcp_shutdown E flow sent)
    \<and> snd (snd (step_relaying E wall token flow c s)) = None"
proof -
  obtain e sent where sent: "(if cn_input c \<noteq> [] then eg_tcp_send E flow (cn_input c) (sv_egress s) else (sv_egress s, 0)) = (e, sent)" by fastforce
  define c1 where "c1 = c\<lparr>cn_input := drop sent (cn_input c)\<rparr>"
  define shut where "shut \<longleftrightarrow> cn_input c1 = [] \<and> cn_client_done c1 \<and> \<not> cn_upstream_shut c1"
  define c2 where "c2 = (if shut then c1\<lparr>cn_upstream_shut := True\<rparr> else c1)"
  define go_on where "go_on \<longleftrightarrow> cn_input c2 = [] \<and> cn_readable c2 \<and> \<not> cn_client_done c2"
  obtain c3 ok where read: "(if go_on then read_client READ_CHUNK c2 else (c2, True)) = (c3, ok)" by fastforce
  define s1 where "s1 = (if sent > 0 then count_sent wall (fst (cn_client c1)) sent (s\<lparr>sv_egress := e\<rparr>) else s\<lparr>sv_egress := e\<rparr>)"
  define s2 where "s2 = (if shut then s1\<lparr>sv_egress := eg_tcp_shutdown E flow (sv_egress s1)\<rparr> else s1)"
  define d where "d = (if ok then c3 else c3\<lparr>cn_finished := True\<rparr>)"
  have step: "step_relaying E wall token flow c s = (put_connection token d s2, ok \<and> go_on \<and> cn_input c3 \<noteq> [], None)"
    unfolding step_relaying_def sent prod.case Let_def c1_def [symmetric] s1_def [symmetric] shut_def [symmetric]
      c2_def [symmetric] s2_def [symmetric] go_on_def [symmetric] read
    by (simp add: d_def)
  have egress: "sv_egress s2 = e \<or> sv_egress s2 = eg_tcp_shutdown E flow e" by (simp add: s2_def s1_def count_sent_def)
  have "e = (if cn_input c \<noteq> [] then fst (eg_tcp_send E flow (cn_input c) (sv_egress s)) else sv_egress s)"
    using sent by (auto split: if_splits)
  moreover have "s\<lparr>sv_egress := sv_egress s2, sv_clients := sv_clients s2, sv_totals := sv_totals s2\<rparr> = s2"
    by (simp add: s2_def s1_def count_sent_def)
  moreover have "prefix (cn_received c2) (cn_received c3) \<and> cn_phase c3 = cn_phase c2 \<and> cn_deadline c3 = cn_deadline c2"
    using read read_client_effect [of c2 READ_CHUNK] by (auto simp: read_effect_def split: if_splits)
  then have "prefix (cn_received c) (cn_received d) \<and> cn_phase d = cn_phase c \<and> cn_deadline d = cn_deadline c" by (cases shut) (simp_all add: c1_def c2_def d_def)
  ultimately show ?thesis using step egress
    by (intro exI [of _ d] exI [of _ "sv_egress s2"] exI [of _ "sv_clients s2"] exI [of _ "sv_totals s2"]) (simp add: Let_def)
qed

lemma secured_step_connection:
  assumes ok: "secured (pe_base64 V) creds s" and step: "step_connection V token s = (s1, p, n)"
  shows "secured (pe_base64 V) creds s1"
    and "n \<noteq> None \<Longrightarrow> \<exists>c. connection_of token s1 = Some c \<and> gave_login (pe_base64 V) creds (cn_received c)"
proof -
  have "secured (pe_base64 V) creds s1 \<and> (n \<noteq> None \<longrightarrow> (\<exists>c. connection_of token s1 = Some c \<and> gave_login (pe_base64 V) creds (cn_received c)))"
  proof (cases "connection_of token s")
    case None
    then show ?thesis using ok step by (simp add: step_connection_def)
  next
    case (Some c)
    note conn = secured_conn [OF ok Some]
    note hand = secured_handshake [OF ok Some]
    show ?thesis
    proof (cases "cn_phase c")
      case Sniff
      then have "step_sniff token c s = (s1, p, n)" using step Some by (simp add: step_connection_def)
      then show ?thesis using hand(1) [OF Sniff] by (auto simp: step_sniff_def split: list.splits)
    next
      case Greeting
      then have "step_greeting token c s = (s1, p, n)" using step Some by (simp add: step_connection_def)
      then show ?thesis using hand(2) [OF Greeting] by (auto simp: step_greeting_def Let_def split: Parse.splits option.splits)
    next
      case UserPass
      then have "step_user_pass (pe_wall V) token c s = (s1, p, n)" using step Some by (simp add: step_connection_def)
      then show ?thesis using hand(3) [OF UserPass, of "pe_wall V"] by (auto simp: step_user_pass_def Let_def split: Parse.splits)
    next
      case Request_Phase
      then have one: "step_request (pe_now V) token c s = (s1, p, n)" using step Some by (simp add: step_connection_def)
      have "gave_login (pe_base64 V) creds (cn_received c)" using conn by (rule conn_ok_serviced) (simp add: serviced_def Request_Phase)
      then show ?thesis using one hand(4) [OF Request_Phase, of "pe_now V"]
        by (auto simp: step_request_def Let_def split: Parse.splits if_splits)
    next
      case HttpHead
      then have one: "step_http_head (pe_base64 V) (pe_now V) token c s = (s1, p, n)" using step Some by (simp add: step_connection_def)
      have "n \<noteq> None \<longrightarrow> (\<exists>c. connection_of token s1 = Some c \<and> gave_login (pe_base64 V) creds (cn_received c))"
      proof
        assume "n \<noteq> None"
        then obtain r used where r: "parse_http_request (pe_base64 V) (cn_input c) = Done r used" "hr_credentials r = Some creds"
            "connection_of token s1 = Some (c\<lparr>cn_input := drop used (cn_input c)\<rparr>)"
          using one secured_creds [OF ok] by (auto simp: step_http_head_def Let_def split: Parse.splits if_splits)
        have "gave_login (pe_base64 V) creds (cn_received c)"
          using conn HttpHead r by (auto simp: conn_ok_def gave_login_def http_login_def serviced_def)
        then show "\<exists>c. connection_of token s1 = Some c \<and> gave_login (pe_base64 V) creds (cn_received c)" using r(3) by simp
      qed
      then show ?thesis using one hand(5) [OF HttpHead, of "pe_now V"] by simp
    next
      case (Relaying flow)
      then have one: "step_relaying (pe_egress V) (pe_wall V) token flow c s = (s1, p, n)" using step Some by (simp add: step_connection_def)
      have given: "gave_login (pe_base64 V) creds (cn_received c)" using conn by (rule conn_ok_serviced) (simp add: serviced_def Relaying)
      show ?thesis using step_relaying_shape [of "pe_egress V" "pe_wall V" token flow c s] one ok Some given
        by (auto intro!: secured_put_login [where c = c])
    next
      case (UdpControl x)
      have given: "gave_login (pe_base64 V) creds (cn_received c)" using conn by (rule conn_ok_serviced) (simp add: serviced_def UdpControl)
      then show ?thesis using step Some UdpControl ok by (auto simp: step_connection_def intro!: secured_put_given [where c = c])
    qed (use step Some ok in \<open>simp_all add: step_connection_def\<close>)
  qed
  then show "secured (pe_base64 V) creds s1"
    "n \<noteq> None \<Longrightarrow> \<exists>c. connection_of token s1 = Some c \<and> gave_login (pe_base64 V) creds (cn_received c)" by blast+
qed

lemma secured_proxy_step:
  assumes "secured (pe_base64 V) creds s"
  shows "secured (pe_base64 V) creds (fst (proxy_step V token s))"
proof -
  obtain s1 p n where step: "step_connection V token s = (s1, p, n)" by (metis prod_cases3)
  note one = secured_step_connection [OF assms step]
  have given: "gave_login (pe_base64 V) creds (cn_received c)" if "n = Some x" "connection_of token s1 = Some c" for c x
    using one(2) that by auto
  show ?thesis
  proof (cases n)
    case None
    then show ?thesis using step one(1) by (simp add: proxy_step_def)
  next
    case (Some x)
    then show ?thesis using step secured_begin_connect [OF one(1) given [OF Some]] secured_associate [OF one(1) given [OF Some]]
      by (cases x) (simp_all add: proxy_step_def)
  qed
qed

lemma secured_advance_loop:
  assumes "secured (pe_base64 V) creds s" and run: "advance_loop V token s = Some s'"
  shows "secured (pe_base64 V) creds s'"
proof -
  let ?P = "\<lambda>V token s s'. secured (pe_base64 V) creds s \<longrightarrow> secured (pe_base64 V) creds s'"
  have "?P V token s s'"
  proof (rule advance_loop.raw_induct [where P = ?P, OF _ run])
    fix g :: "'a proxy_env \<Rightarrow> nat \<Rightarrow> 'a Server \<Rightarrow> 'a Server option" and V token s r
    assume IH: "\<And>V token s r. g V token s = Some r \<Longrightarrow> ?P V token s r"
      and eq: "(if snd (proxy_step V token s) then g V token (fst (proxy_step V token s)) else Some (fst (proxy_step V token s))) = Some r"
    show "?P V token s r"
      using eq IH [of V token "fst (proxy_step V token s)" r] secured_proxy_step [of V creds s token] by (auto split: if_splits)
  qed
  then show ?thesis using assms(1) by blast
qed

lemma conn_ok_read:
  assumes "conn_ok base64 creds c" and "read_effect c c'"
  shows "conn_ok base64 creds c'" and "prefix (cn_received c) (cn_received c')"
proof -
  obtain d where d: "cn_phase c' = cn_phase c" "cn_input c' = cn_input c @ d" "cn_received c' = cn_received c @ d"
    using assms(2) by (auto simp: read_effect_def)
  have "parse_greeting (cn_received c @ d) = Done m n \<and> n \<le> length (cn_received c)" if "parse_greeting (cn_received c) = Done m n" for m n
    using that greeting.done_stable greeting.done_within by blast
  then show "conn_ok base64 creds c'"
    using assms(1) gave_login_append [of base64 creds "cn_received c" d]
    by (auto simp: conn_ok_def d split: Phase.splits Parse.splits)
  show "prefix (cn_received c) (cn_received c')" by (simp add: d)
qed

lemma secured_advance:
  assumes ok: "secured (pe_base64 V) creds s" and run: "advance V token s = Some s'"
  shows "secured (pe_base64 V) creds s'"
proof (cases "connection_of token s")
  case None
  then show ?thesis using assms by (simp add: advance_def)
next
  case (Some c)
  obtain c' fine where read: "(if paused c then (c, True) else read_client (read_limit (cn_phase c)) c) = (c', fine)" by fastforce
  have effect: "read_effect c c'"
    using read read_client_effect [of c "read_limit (cn_phase c)"] read_effect_refl [of c] by (auto split: if_splits)
  note keeps = conn_ok_read [OF secured_conn [OF ok Some] effect]
  have "secured (pe_base64 V) creds (put_connection token c' s)" "secured (pe_base64 V) creds (put_connection token (c'\<lparr>cn_finished := True\<rparr>) s)"
    using secured_put [OF ok Some, of c'] secured_put [OF ok Some, of "c'\<lparr>cn_finished := True\<rparr>"] keeps by simp_all
  then show ?thesis using run Some read secured_advance_loop [of V creds "put_connection token c' s" token s']
    by (auto simp: advance_def split: if_splits)
qed

lemma secured_advance_all:
  "secured (pe_base64 V) creds s \<Longrightarrow> advance_all V ts s = Some s' \<Longrightarrow> secured (pe_base64 V) creds s'"
  by (induction V ts s rule: advance_all.induct) (auto dest: secured_advance split: option.splits)

lemma secured_send_datagram [simp]: "secured base64 creds (send_datagram V flow ip destination payload s) = secured base64 creds s"
  by (simp add: send_datagram_def case_prod_unfold Let_def)

lemma association_for_control:
  "association_for source as = Some (n, as') \<Longrightarrow> (m, a) \<in> set as' \<Longrightarrow> \<exists>k b. (k, b) \<in> set as \<and> as_control b = as_control a"
  by (auto simp: association_for_def split: option.splits dest!: set_alist_update min_by_key_in) blast+

lemma map_entry_control:
  "(m, a) \<in> set (AList.map_entry n f as) \<Longrightarrow> (\<And>a. as_control (f a) = as_control a) \<Longrightarrow> \<exists>k b. (k, b) \<in> set as \<and> as_control b = as_control a"
  by (induction as) (auto split: if_splits, (metis+)?)

lemma secured_forward_datagram:
  assumes "secured base64 creds s"
  shows "secured base64 creds (forward_datagram V n a target payload s)"
proof (cases target)
  case (Domain name port)
  obtain s1 r where look: "server_lookup V name (Wait_Datagram n port payload) s = (s1, r)" by fastforce
  have s1: "secured base64 creds s1"
    using assms look secured_lookup [of base64 creds V name "Wait_Datagram n port payload" s] by simp
  have "secured base64 creds (s1\<lparr>sv_associations := AList.map_entry n (\<lambda>a. a\<lparr>as_pending_lookups := as_pending_lookups a + 1\<rparr>) (sv_associations s1)\<rparr>)"
  proof (rule secured_associations [OF s1])
    fix m b
    assume "(m, b) \<in> set (AList.map_entry n (\<lambda>a. a\<lparr>as_pending_lookups := as_pending_lookups a + 1\<rparr>) (sv_associations s1))"
    from map_entry_control [OF this] show "(\<exists>m c. (m, c) \<in> set (sv_associations s1) \<and> as_control c = as_control b)
      \<or> (\<exists>c. connection_of (as_control b) s1 = Some c \<and> gave_login base64 creds (cn_received c))" by simp
  qed
  then show ?thesis using Domain look s1 assms by (cases r) (simp_all add: forward_datagram_def)
qed (simp_all add: forward_datagram_def assms)

lemma secured_client_datagram:
  assumes "secured base64 creds s"
  shows "secured base64 creds (client_datagram V source datagram s)"
proof (cases "association_for source (sv_associations s)")
  case (Some r)
  obtain n as where r: "r = (n, as)" by fastforce
  have "secured base64 creds (s\<lparr>sv_associations := as\<rparr>)"
    using association_for_control Some r by (intro secured_associations [OF assms]) blast
  then show ?thesis using Some r by (auto simp: client_datagram_def Let_def secured_forward_datagram split: option.split)
qed (simp add: client_datagram_def assms)

lemma secured_receive: "secured base64 creds s \<Longrightarrow> secured base64 creds (receive_client_datagrams V s)"
proof -
  have "secured base64 creds s \<Longrightarrow> secured base64 creds (receive_datagrams V reads s)" for reads
    by (induction V reads s rule: receive_datagrams.induct) (simp_all add: secured_client_datagram)
  then show "secured base64 creds s \<Longrightarrow> ?thesis" by (simp add: receive_client_datagrams_def)
qed

lemma secured_finish_lookup:
  assumes ok: "secured base64 creds s"
  shows "secured base64 creds (finish_lookup V w s)"
proof -
  obtain waiter result where w: "w = (waiter, result)" by fastforce
  show ?thesis
  proof (cases waiter)
    case (Wait_Connect token)
    show ?thesis
    proof (cases "connection_of token s")
      case (Some c)
      show ?thesis
      proof (cases "\<exists>port code. cn_phase c = Resolving port code")
        case True
        then obtain port code where phase: "cn_phase c = Resolving port code" by blast
        have given: "gave_login base64 creds (cn_received c)"
          using secured_conn [OF ok Some] by (rule conn_ok_serviced) (simp add: phase serviced_def)
        have "secured base64 creds (put_connection token (c\<lparr>cn_phase := Closing\<rparr>) s)"
          using secured_put_given [OF ok Some given] by simp
        from secured_open_flow [OF this, of token V _ port code] given
        have "secured base64 creds (open_flow V token ip port code (put_connection token (c\<lparr>cn_phase := Closing\<rparr>) s))" for ip by simp
        then show ?thesis using w Wait_Connect Some phase ok
          by (auto simp: finish_lookup_def Let_def intro!: secured_fail [where c = c] split: sum.split)
      next
        case False
        then show ?thesis using w Wait_Connect Some ok by (simp add: finish_lookup_def split: Phase.split)
      qed
    qed (simp add: w Wait_Connect finish_lookup_def ok)
  next
    case (Wait_Datagram n port payload)
    have "secured base64 creds (s\<lparr>sv_associations := AList.update n (a\<lparr>as_pending_lookups := k\<rparr>) (sv_associations s)\<rparr>)"
      if "map_of (sv_associations s) n = Some a" for a k
      using map_of_SomeD [OF that] by (intro secured_associations [OF ok]) (auto dest!: set_alist_update, blast)
    then show ?thesis using w Wait_Datagram ok by (auto simp: finish_lookup_def Let_def split: option.split sum.split)
  qed
qed

lemma secured_finish_lookups:
  assumes "secured base64 creds s" and "finish_lookups V s = Some s'"
  shows "secured base64 creds s'"
proof -
  obtain rv e finished where "s' = fold (finish_lookup V) finished (s\<lparr>sv_resolver := rv, sv_egress := e\<rparr>)"
    using assms(2) by (auto simp: finish_lookups_def)
  moreover have "secured base64 creds s \<Longrightarrow> secured base64 creds (fold (finish_lookup V) ws s)" for ws and s :: "'a Server"
    by (induction ws arbitrary: s) (simp_all add: secured_finish_lookup)
  ultimately show ?thesis using assms(1) by simp
qed

lemma write_client_frame [simp]:
  "cn_phase (fst (write_client c)) = cn_phase c" "cn_input (fst (write_client c)) = cn_input c"
  "cn_received (fst (write_client c)) = cn_received c"
proof -
  have loop: "cn_phase (fst (write_loop c)) = cn_phase c \<and> cn_input (fst (write_loop c)) = cn_input c \<and> cn_received (fst (write_loop c)) = cn_received c"
  proof (induction c rule: write_loop.induct)
    case (1 c)
    show ?case
    proof (cases "cn_writable c \<and> cn_written c < length (cn_output c)")
      case False
      then show ?thesis by (subst (1 2 3) write_loop.simps) simp
    next
      case True
      then have go: "\<not> \<not> (cn_writable c \<and> cn_written c < length (cn_output c))" by simp
      show ?thesis using "1.IH" go
        by (subst (1 2 3) write_loop.simps) (auto simp: Let_def split: list.split write_result.split)
    qed
  qed
  then show "cn_phase (fst (write_client c)) = cn_phase c" "cn_input (fst (write_client c)) = cn_input c"
    "cn_received (fst (write_client c)) = cn_received c"
    by (simp_all add: write_client_def case_prod_unfold Let_def)
qed

lemma receive_remote_frame [simp]:
  "cn_phase (fst (receive_remote E flow c e n)) = cn_phase c" "cn_input (fst (receive_remote E flow c e n)) = cn_input c"
  "cn_received (fst (receive_remote E flow c e n)) = cn_received c"
proof -
  have "cn_phase (fst (receive_remote E flow c e n)) = cn_phase c \<and> cn_input (fst (receive_remote E flow c e n)) = cn_input c
    \<and> cn_received (fst (receive_remote E flow c e n)) = cn_received c"
  proof (induction E flow c e n rule: receive_remote.induct)
    case (1 E flow c e n)
    then show ?case by (subst (1 2 3) receive_remote.simps) (auto simp: case_prod_unfold Let_def)
  qed
  then show "cn_phase (fst (receive_remote E flow c e n)) = cn_phase c" "cn_input (fst (receive_remote E flow c e n)) = cn_input c"
    "cn_received (fst (receive_remote E flow c e n)) = cn_received c" by simp_all
qed

text \<open>Delivery puts back a connection in the phase it was in, with its input untouched.\<close>

lemma secured_put_unmoved:
  assumes "secured base64 creds s" and "connection_of t s = Some c"
    and "cn_phase c' = cn_phase c" "cn_input c' = cn_input c" "cn_received c' = cn_received c"
  shows "secured base64 creds (put_connection t c' s)"
  using secured_put_same [OF assms(1,2,5)] conn_ok_cong [OF assms(3-5)] secured_conn [OF assms(1,2)] by blast

lemma secured_deliver_settled:
  assumes ok: "secured base64 creds s"
  shows "secured base64 creds (deliver_settled V token s)"
proof (cases "connection_of token s")
  case (Some c)
  have "secured base64 creds (deliver_relaying V token flow c s)" for flow
    using ok Some by (auto simp: deliver_relaying_def case_prod_unfold Let_def intro!: secured_put_unmoved [where c = c])
  moreover have "secured base64 creds (deliver_other token c s)"
    using ok Some by (auto simp: deliver_other_def case_prod_unfold Let_def intro!: secured_put_unmoved [where c = c])
  ultimately show ?thesis using Some by (simp add: deliver_settled_def split: Phase.split)
qed (simp add: deliver_settled_def ok)

lemma connected_received [simp]: "cn_received (connected flow code c) = cn_received c"
  by (simp add: connected_def split: ReplyKind.split)

lemma secured_deliver:
  assumes ok: "secured (pe_base64 V) creds s"
  shows "secured (pe_base64 V) creds (deliver V token s)"
proof (cases "connection_of token s")
  case (Some c)
  have "secured (pe_base64 V) creds (deliver_connecting V token flow code c s)" if "cn_phase c = Connecting flow code" for flow code
  proof -
    have given: "gave_login (pe_base64 V) creds (cn_received c)"
      using secured_conn [OF ok Some] by (rule conn_ok_serviced) (simp add: that serviced_def)
    have "secured (pe_base64 V) creds (put_connection token (connected flow code c) (s\<lparr>sv_egress := e, sv_clients := book\<rparr>))" for e book
      using ok Some given by (auto intro!: secured_put_given [where c = c])
    then have "secured (pe_base64 V) creds (deliver_settled V token (fst (proxy_step V token
        (put_connection token (connected flow code c) (s\<lparr>sv_egress := e, sv_clients := book\<rparr>)))))" for e book
      by (intro secured_deliver_settled secured_proxy_step)
    then show ?thesis using ok Some
      by (auto simp: deliver_connecting_def case_prod_unfold Let_def intro!: secured_fail [where c = c] split: TcpState.split)
  qed
  then show ?thesis using Some secured_deliver_settled [OF ok] by (simp add: deliver_def split: Phase.split)
qed (simp add: deliver_def ok)

lemma secured_send_to_client [simp]: "secured base64 creds (send_to_client V ip port source payload s) = secured base64 creds s"
  by (simp add: send_to_client_def Let_def split: list.split)

lemma secured_drain:
  assumes "secured base64 creds s" and run: "drain_association V a s = Some s'"
  shows "secured base64 creds s'"
proof -
  let ?P = "\<lambda>V a s s'. secured base64 creds s \<longrightarrow> secured base64 creds s'"
  have "?P V a s s'"
  proof (rule drain_association.raw_induct [where P = ?P, OF _ run])
    fix g :: "'a proxy_env \<Rightarrow> Association \<Rightarrow> 'a Server \<Rightarrow> 'a Server option" and V a s r
    assume IH: "\<And>V a s r. g V a s = Some r \<Longrightarrow> ?P V a s r"
      and eq: "(case eg_udp_recv (pe_egress V) (as_flow a) (sv_egress s) of
        (e, None) \<Rightarrow> Some (s\<lparr>sv_egress := e\<rparr>)
      | (e, Some (source, payload)) \<Rightarrow>
          g V a (case as_client_port a of None \<Rightarrow> s\<lparr>sv_egress := e\<rparr>
            | Some port \<Rightarrow> send_to_client V (as_client_ip a) port source payload (s\<lparr>sv_egress := e\<rparr>))) = Some r"
    show "?P V a s r" using eq by (auto dest!: IH split: prod.splits option.splits)
  qed
  then show ?thesis using assms(1) by blast
qed

lemma secured_deliver_datagrams:
  "secured base64 creds s \<Longrightarrow> deliver_datagrams V as s = Some s' \<Longrightarrow> secured base64 creds s'"
  by (induction V as s rule: deliver_datagrams.induct) (auto dest: secured_drain split: option.splits)

lemma secured_expire:
  assumes "secured base64 creds s"
  shows "secured base64 creds (expire_connections V s)"
proof -
  have one: "secured base64 creds (expire_connection V t s)" if ok: "secured base64 creds s" for t and s :: "'a Server"
  proof (cases "connection_of t s")
    case (Some c)
    have "secured base64 creds (put_connection t (c\<lparr>cn_phase := Closing, cn_finished := True\<rparr>) s)"
      using secured_put_same [OF ok Some] by (simp add: conn_ok_def)
    then show ?thesis using ok Some
      by (auto simp: expire_connection_def intro!: secured_fail [where c = c] split: option.split Phase.split)
  qed (simp add: expire_connection_def ok)
  have "secured base64 creds s \<Longrightarrow> secured base64 creds (fold (expire_connection V) ts s)" for ts and s :: "'a Server"
    by (induction ts arbitrary: s) (simp_all add: one)
  then show ?thesis using assms by (simp add: expire_connections_def)
qed

lemma secured_release_association: "secured base64 creds s \<Longrightarrow> secured base64 creds (release_association V n s)"
proof (cases "map_of (sv_associations s) n")
  case (Some a)
  assume ok: "secured base64 creds s"
  have "secured base64 creds (s\<lparr>sv_associations := AList.delete n (sv_associations s)\<rparr>)"
    by (rule secured_associations [OF ok]) (auto dest: set_alist_delete)
  then show ?thesis using Some by (simp add: release_association_def)
qed (simp add: release_association_def)

lemma secured_drop_connection:
  assumes "secured base64 creds s"
  shows "secured base64 creds (s\<lparr>sv_connections := AList.delete t (sv_connections s)\<rparr>)"
proof -
  have "connection_of u (s\<lparr>sv_connections := AList.delete t (sv_connections s)\<rparr>) = (if u = t then None else connection_of u s)" for u
    by (simp add: connection_of_def delete_conv')
  then show ?thesis using assms by (auto simp: secured_def dest: set_alist_delete)
qed

lemma secured_reap_connection:
  assumes ok: "secured base64 creds s"
  shows "secured base64 creds (reap_connection V t s)"
proof (cases "connection_of t s")
  case (Some c)
  note dropped = secured_drop_connection [OF ok, of t]
  note released = secured_release_association [OF dropped, of V]
  show ?thesis using Some dropped released by (auto simp: reap_connection_def Let_def split: Phase.split)
qed (simp add: reap_connection_def ok)

lemma secured_release_all: "secured base64 creds s \<Longrightarrow> secured base64 creds (fold (release_association V) ns s)"
  by (induction ns arbitrary: s) (simp_all add: secured_release_association)

lemma secured_reap: "secured base64 creds s \<Longrightarrow> secured base64 creds (reap V s)"
proof -
  have "secured base64 creds s \<Longrightarrow> secured base64 creds (fold (reap_connection V) ts s)" for ts and s :: "'a Server"
    by (induction ts arbitrary: s) (simp_all add: secured_reap_connection)
  then show "secured base64 creds s \<Longrightarrow> secured base64 creds (reap V s)" by (simp add: reap_def Let_def secured_release_all)
qed

lemma secured_drive [simp]: "secured base64 creds (drive_egress V s) = secured base64 creds s"
  by (simp add: drive_egress_def case_prod_unfold Let_def)

lemma secured_turn:
  assumes ok: "secured (pe_base64 V) creds s" and run: "turn V s = Some s'"
  shows "secured (pe_base64 V) creds s'"
proof -
  obtain s1 s2 s4 where one: "advance_all V (tokens s) s = Some s1"
    and two: "finish_lookups V (drive_egress V (receive_client_datagrams V s1)) = Some s2"
    and three: "deliver_datagrams V (sv_associations (fold (deliver V) (tokens s) s2)) (fold (deliver V) (tokens s) s2) = Some s4"
    and s': "s' = reap V (expire_connections V (drive_egress V s4))"
    using run by (auto simp: turn_def Let_def split: option.splits)
  have "secured (pe_base64 V) creds s \<Longrightarrow> secured (pe_base64 V) creds (fold (deliver V) ts s)" for ts and s :: "'a Server"
    by (induction ts arbitrary: s) (simp_all add: secured_deliver)
  moreover have "secured (pe_base64 V) creds s2"
    by (rule secured_finish_lookups [OF _ two]) (simp add: secured_receive secured_advance_all [OF ok one])
  ultimately have "secured (pe_base64 V) creds s4" using secured_deliver_datagrams [OF _ three] by simp
  then show ?thesis by (simp add: s' secured_reap secured_expire)
qed

text \<open>After the orphans were released every association has its connection.\<close>

definition no_orphans :: "'e Server \<Rightarrow> bool" where
  "no_orphans s \<longleftrightarrow> list_all (\<lambda>(_, a). as_control a \<in> set (tokens s)) (sv_associations s)"

lemma release_all_associations:
  "sv_connections (fold (release_association V) ns s) = sv_connections s
   \<and> set (sv_associations (fold (release_association V) ns s)) \<subseteq> {(n, a) \<in> set (sv_associations s). n \<notin> set ns}"
proof (induction ns arbitrary: s)
  case (Cons n ns)
  have "sv_connections (release_association V n s) = sv_connections s
      \<and> set (sv_associations (release_association V n s)) \<subseteq> {(m, a) \<in> set (sv_associations s). m \<noteq> n}"
  proof (cases "map_of (sv_associations s) n")
    case None
    then have "release_association V n s = s" by (simp add: release_association_def)
    moreover have "n \<notin> fst ` set (sv_associations s)" using None by (simp add: map_of_eq_None_iff)
    ultimately show ?thesis by force
  next
    case (Some a)
    then show ?thesis by (auto simp: release_association_def AList.delete_eq)
  qed
  then show ?case using Cons.IH [of "release_association V n s"] by auto
qed simp

lemma reap_no_orphans: "no_orphans (reap V s)"
proof -
  define s1 where "s1 = fold (reap_connection V) (map fst (filter (\<lambda>(_, c). cn_finished c) (sv_connections s))) s"
  define ns where "ns = map fst (filter (\<lambda>(_, a). as_control a \<notin> set (tokens s1)) (sv_associations s1))"
  have reap: "reap V s = fold (release_association V) ns s1" by (simp add: reap_def Let_def s1_def ns_def)
  have "as_control a \<in> set (tokens s1)" if "(n, a) \<in> set (sv_associations (reap V s))" for n a
  proof (rule ccontr)
    assume "as_control a \<notin> set (tokens s1)"
    moreover have "(n, a) \<in> set (sv_associations s1)" "n \<notin> set ns" using that release_all_associations [of V ns s1] by (auto simp: reap)
    ultimately show False by (force simp: ns_def)
  qed
  then show ?thesis using release_all_associations [of V ns s1] by (auto simp: no_orphans_def list_all_iff tokens_def reap)
qed

subsection \<open>Runs\<close>

lemma secured_accept:
  assumes ok: "secured base64 creds s"
  shows "secured base64 creds (accept_connection now wall client local registered s)"
proof -
  have next_token: "secured base64 creds (s\<lparr>sv_next_token := sv_next_token s + 1\<rparr>)"
    using ok by (fastforce simp: secured_def connection_of_def)
  have "secured base64 creds (put_connection (sv_next_token s) c (s\<lparr>sv_next_token := sv_next_token s + 1, sv_clients := book, sv_totals := totals\<rparr>))"
    if "conn_ok base64 creds c" for c book totals
    using ok that unfolding secured_def
    by (fastforce simp: connection_of_def put_connection_def update_conv' dest!: set_alist_update)
  then show ?thesis using ok next_token
    by (simp add: accept_connection_def Let_def conn_ok_def serviced_def)
qed

lemma secured_change:
  assumes ok: "secured base64 creds s" and "\<And>c. cn_phase (f c) = cn_phase c \<and> cn_input (f c) = cn_input c \<and> cn_received (f c) = cn_received c"
  shows "secured base64 creds (change_connection token f s)"
  using assms by (auto simp: change_connection_def intro!: secured_put_unmoved split: option.split)

lemma secured_event: "secured base64 creds s \<Longrightarrow> secured base64 creds (on_proxy_event V ev s)"
  by (cases ev) (simp_all add: secured_accept secured_change)

lemma secured_events: "secured base64 creds s \<Longrightarrow> secured base64 creds (fold (on_proxy_event V) evs s)"
  by (induction evs arbitrary: s) (simp_all add: secured_event)

lemma secured_run:
  "secured (pe_base64 V) creds s \<Longrightarrow> no_orphans s \<Longrightarrow> proxy_run V turns s = Some s'
   \<Longrightarrow> secured (pe_base64 V) creds s' \<and> no_orphans s'"
proof (induction turns arbitrary: s)
  case (Cons t turns)
  obtain now wall evs where t: "t = (now, wall, evs)" by (metis prod_cases3)
  let ?W = "V\<lparr>pe_now := now, pe_wall := wall\<rparr>"
  obtain s1 where turn: "turn ?W (fold (on_proxy_event ?W) evs s) = Some s1" and rest: "proxy_run V turns s1 = Some s'"
    using Cons.prems(3) by (auto simp: t Let_def split: option.splits)
  have "secured (pe_base64 ?W) creds s1" by (rule secured_turn [OF _ turn]) (simp add: secured_events Cons.prems(1))
  moreover have "no_orphans s1" using turn reap_no_orphans by (auto simp: turn_def Let_def split: option.splits)
  ultimately show ?case using Cons.IH [OF _ _ rest] by simp
qed simp

text \<open>
  C15. With a login set, the proxy serves nobody who did not give it. Through any run of the event loop -
  any clients, any chunks their streams arrive in, any order of events, any egress - a connection that
  is past the handshake (reading a request, resolving, connecting, relaying, or holding an association)
  has received a stream that begins with exactly the login, as a SOCKS5 greeting and sub-negotiation or
  as a proxy authorization in an HTTP head; and the association of every client's datagrams belongs to
  such a connection.
\<close>

theorem no_service_without_login:
  assumes "proxy_run V turns (server_new (pe_egress V) port e (Some creds)) = Some s"
  shows "list_all (\<lambda>(_, c). serviced (cn_phase c) \<longrightarrow> gave_login (pe_base64 V) creds (cn_received c)) (sv_connections s)
    \<and> list_all (\<lambda>(_, a). case connection_of (as_control a) s of
        None \<Rightarrow> False | Some c \<Rightarrow> gave_login (pe_base64 V) creds (cn_received c)) (sv_associations s)"
proof -
  have start: "secured (pe_base64 V) creds (server_new (pe_egress V) port e (Some creds))" "no_orphans (server_new (pe_egress V) port e (Some creds))"
    by (simp_all add: secured_def server_new_def no_orphans_def)
  have run: "secured (pe_base64 V) creds s" "no_orphans s" using secured_run [OF start assms] by simp_all
  have "case connection_of (as_control a) s of None \<Rightarrow> False | Some c \<Rightarrow> gave_login (pe_base64 V) creds (cn_received c)"
    if "(n, a) \<in> set (sv_associations s)" for n a
  proof -
    have "as_control a \<in> set (tokens s)" using run(2) that by (auto simp: no_orphans_def list_all_iff)
    then obtain c where "connection_of (as_control a) s = Some c"
      by (cases "connection_of (as_control a) s") (auto simp: connection_of_def tokens_def map_of_eq_None_iff)
    then show ?thesis using run(1) that by (auto simp: secured_def)
  qed
  moreover have "gave_login (pe_base64 V) creds (cn_received c)" if "(t, c) \<in> set (sv_connections s)" "serviced (cn_phase c)" for t c
  proof -
    have "conn_ok (pe_base64 V) creds c" using run(1) that(1) by (auto simp: secured_def)
    then show ?thesis using that(2) by (rule conn_ok_serviced)
  qed
  ultimately show ?thesis by (auto simp: list_all_iff)
qed

text \<open>A client that sends its greeting and its login in two pieces.\<close>

definition login_turns :: "(instant \<times> nat \<times> proxy_event list) list" where
  "login_turns = [(0, 0, [Accepted ([192, 168, 1, 40], 5000) ([192, 168, 1, 2], 1080) True, Client_Reads 16 [Arrived [5, 1, 2, 1]]]),
                  (1, 1, [Client_Reads 16 [Arrived [1, 97, 1, 98]], Ready 16 True True])]"

lemma sample_parses:
  "parse_greeting [5, 1, 2, 1] = Done [2] 3" "parse_user_pass [1] = Incomplete" "parse_user_pass [1, 1, 97, 1, 98] = Done (''a'', ''b'') 5"
  "parse_request [] = Incomplete"
  by code_simp+

lemma login_run:
  "map_option (\<lambda>s. map (cn_phase \<circ> snd) (sv_connections s)) (proxy_run quiet_env login_turns (server_new quiet_egress 1080 0 (Some (''a'', ''b''))))
    = Some [Request_Phase]"
  by (simp add: login_turns_def quiet_env_def quiet_egress_def server_new_def accept_connection_def change_connection_def put_connection_def
      connection_of_def client_allowed_def is_private_def active_tcp_def client_entry_def MAX_CONNECTIONS_def
      MAX_CONNECTIONS_PER_CLIENT_def FIRST_CONNECTION_def tokens_def paused_def read_limit_def read_client.simps
      READ_CHUNK_def wire_defs is_ascii_alphabetic_def Let_def turn_def advance_def advance_loop.simps proxy_step_def step_connection_def
      step_sniff_def step_greeting_def sample_parses greeting_method_def conn_send_def step_user_pass_def
      receive_client_datagrams_def drive_egress_def finish_lookups_def poll_lookups_def resolver_new_def deliver_def deliver_settled_def
      deliver_other_def write_client_def write_loop.simps backlog_def expire_connections_def expire_connection_def HANDSHAKE_TIMEOUT_def
      reap_def subslice_def login_accepted_def user_pass_reply_def step_request_def secs_def)

theorem no_service_without_login_witness:
  "\<exists>s. proxy_run quiet_env login_turns (server_new (pe_egress quiet_env) 1080 0 (Some (''a'', ''b''))) = Some s
    \<and> map (cn_phase \<circ> snd) (sv_connections s) = [Request_Phase]
    \<and> list_all (\<lambda>(_, c). serviced (cn_phase c) \<longrightarrow> gave_login (pe_base64 quiet_env) (''a'', ''b'') (cn_received c)) (sv_connections s)"
proof -
  have "pe_egress quiet_env = quiet_egress" by (simp add: quiet_env_def)
  then obtain s where s: "proxy_run quiet_env login_turns (server_new (pe_egress quiet_env) 1080 0 (Some (''a'', ''b''))) = Some s"
      "map (cn_phase \<circ> snd) (sv_connections s) = [Request_Phase]"
    using login_run by auto
  then show ?thesis using no_service_without_login [OF s(1)]
    by - (rule exI [of _ s], elim conjE, intro conjI; assumption)
qed

end
