(* ===== verification/Socks_Flows.thy ===== *)
theory Socks_Flows
  imports Socks_Login
begin

section \<open>The LAN proxy's flows: allowed, used while open, released once\<close>

text \<open>
  The contract between the event loop and an egress, as a locale: an egress with an invariant and a
  multiset of open flows (\<open>True\<close> marks a TCP flow), whose operations are promised to keep the invariant
  only when they are called properly - on a flow that is open, towards a destination that is allowed or
  a resolver's port 53. Inside it the event loop is shown to call them so, and to hold exactly the open
  flows. The interpretation wraps any egress at all with a record of every call.
\<close>

subsection \<open>The flows a server holds\<close>

definition conn_flow :: "Connection \<Rightarrow> (bool \<times> nat) multiset" where
  "conn_flow c = (case cn_phase c of Connecting flow _ \<Rightarrow> {#(True, flow)#} | Relaying flow \<Rightarrow> {#(True, flow)#} | _ \<Rightarrow> {#})"

definition resolver_flow :: "'w Resolver \<Rightarrow> (bool \<times> nat) multiset" where
  "resolver_flow rv = (case rv_flow rv of None \<Rightarrow> {#} | Some flow \<Rightarrow> {#(False, flow)#})"

definition conns_flows :: "(nat \<times> Connection) list \<Rightarrow> (bool \<times> nat) multiset" where
  "conns_flows cs = sum_list (map (conn_flow \<circ> snd) cs)"

definition assoc_flows :: "(nat \<times> Association) list \<Rightarrow> (bool \<times> nat) multiset" where
  "assoc_flows as = mset (map (\<lambda>(_, a). (False, as_flow a)) as)"

definition held :: "'e Server \<Rightarrow> (bool \<times> nat) multiset" where
  "held s = conns_flows (sv_connections s) + assoc_flows (sv_associations s) + resolver_flow (sv_resolver s)"

lemma conns_flows_update:
  "distinct (map fst cs) \<Longrightarrow> map_of cs t = Some c \<Longrightarrow> conns_flows (AList.update t d cs) + conn_flow c = conns_flows cs + conn_flow d"
proof (induction cs)
  case (Cons p cs)
  show ?case
  proof (cases "fst p = t")
    case True
    then have "p = (t, c)" using Cons.prems(2) by (cases p) simp
    then show ?thesis by (simp add: conns_flows_def ac_simps)
  next
    case False
    then show ?thesis using Cons by (cases p) (simp add: conns_flows_def ac_simps)
  qed
qed simp

lemma conns_flows_new: "map_of cs t = None \<Longrightarrow> conns_flows (AList.update t d cs) = conns_flows cs + conn_flow d"
  by (simp add: alist_update_new conns_flows_def)

lemma conns_flows_delete:
  "distinct (map fst cs) \<Longrightarrow> map_of cs t = Some c \<Longrightarrow> conns_flows cs = conns_flows (AList.delete t cs) + conn_flow c"
proof (induction cs)
  case (Cons p cs)
  show ?case
  proof (cases "fst p = t")
    case True
    then have p: "p = (t, c)" using Cons.prems(2) by (cases p) simp
    then have "map_of cs t = None" using Cons.prems(1) by (auto simp: map_of_eq_None_iff)
    then show ?thesis using p by (simp add: conns_flows_def alist_delete_absent ac_simps)
  next
    case False
    then show ?thesis using Cons by (cases p) (simp add: conns_flows_def ac_simps)
  qed
qed simp

lemma conns_flows_in: "map_of cs t = Some c \<Longrightarrow> conn_flow c \<subseteq># conns_flows cs"
proof (induction cs)
  case (Cons p cs)
  show ?case
  proof (cases "fst p = t")
    case True
    then have "p = (t, c)" using Cons.prems by (cases p) simp
    then show ?thesis by (simp add: conns_flows_def)
  next
    case False
    then have "conn_flow c \<subseteq># conns_flows cs" using Cons by (cases p) simp
    then show ?thesis by (simp add: conns_flows_def subset_mset.add_increasing)
  qed
qed simp

text \<open>Changes to an association that keep its flow, its removal, and a new one.\<close>

lemma assoc_flows_update:
  "distinct (map fst as) \<Longrightarrow> map_of as n = Some a \<Longrightarrow> as_flow b = as_flow a \<Longrightarrow> assoc_flows (AList.update n b as) = assoc_flows as"
proof (induction as)
  case (Cons p as)
  then show ?case by (cases p) (auto simp: assoc_flows_def)
qed simp

lemma assoc_flows_new: "map_of as n = None \<Longrightarrow> assoc_flows (AList.update n a as) = add_mset (False, as_flow a) (assoc_flows as)"
  by (simp add: alist_update_new assoc_flows_def)

lemma assoc_flows_delete:
  "distinct (map fst as) \<Longrightarrow> map_of as n = Some a \<Longrightarrow> assoc_flows as = add_mset (False, as_flow a) (assoc_flows (AList.delete n as))"
proof (induction as)
  case (Cons p as)
  show ?case
  proof (cases "fst p = n")
    case True
    then have p: "p = (n, a)" using Cons.prems(2) by (cases p) simp
    then have "map_of as n = None" using Cons.prems(1) by (auto simp: map_of_eq_None_iff)
    then show ?thesis using p by (simp add: assoc_flows_def alist_delete_absent)
  next
    case False
    then show ?thesis using Cons by (cases p) (auto simp: assoc_flows_def)
  qed
qed simp

lemma assoc_flows_in: "(n, a) \<in> set as \<Longrightarrow> (False, as_flow a) \<in># assoc_flows as"
  by (force simp: assoc_flows_def)

lemma assoc_flows_map_entry:
  "(\<And>a. as_flow (f a) = as_flow a) \<Longrightarrow> assoc_flows (AList.map_entry n f as) = assoc_flows as"
  by (induction as) (auto simp: assoc_flows_def)

subsection \<open>What the server relies on and keeps\<close>

text \<open>The bookkeeping the accounting needs: unique keys, fresh counters, no deadline on a relaying connection.\<close>

definition tidy :: "ipv4 list \<Rightarrow> 'e Server \<Rightarrow> bool" where
  "tidy servers s \<longleftrightarrow> distinct (tokens s) \<and> distinct (map fst (sv_associations s)) \<and> rv_servers (sv_resolver s) = servers
     \<and> (\<forall>(t, c) \<in> set (sv_connections s). t < sv_next_token s \<and> ((\<exists>flow. cn_phase c = Relaying flow) \<longrightarrow> cn_deadline c = None))
     \<and> (\<forall>(n, _) \<in> set (sv_associations s). n \<le> sv_next_association s)"

lemma tidy_frame [simp]:
  "tidy servers (count_failed s) = tidy servers s" "tidy servers (client_failed wall ip s) = tidy servers s"
  "tidy servers (count_sent wall ip n s) = tidy servers s" "tidy servers (count_received wall ip n s) = tidy servers s"
  "tidy servers (s\<lparr>sv_egress := e\<rparr>) = tidy servers s" "tidy servers (s\<lparr>sv_egress_wait := w\<rparr>) = tidy servers s"
  "tidy servers (s\<lparr>sv_drawn := n\<rparr>) = tidy servers s" "tidy servers (s\<lparr>sv_clients := book\<rparr>) = tidy servers s"
  "tidy servers (s\<lparr>sv_totals := totals\<rparr>) = tidy servers s" "tidy servers (s\<lparr>sv_udp_readable := b\<rparr>) = tidy servers s"
  "tidy servers (s\<lparr>sv_udp_reads := us\<rparr>) = tidy servers s" "tidy servers (s\<lparr>sv_udp_sends := bs\<rparr>) = tidy servers s"
  "tidy servers (s\<lparr>sv_datagrams := ds\<rparr>) = tidy servers s"
  by (simp_all add: tidy_def tokens_def count_failed_def client_failed_def count_sent_def count_received_def)

lemma held_frame [simp]:
  "held (count_failed s) = held s" "held (client_failed wall ip s) = held s"
  "held (count_sent wall ip n s) = held s" "held (count_received wall ip n s) = held s"
  "held (s\<lparr>sv_egress := e\<rparr>) = held s" "held (s\<lparr>sv_egress_wait := w\<rparr>) = held s"
  "held (s\<lparr>sv_drawn := n\<rparr>) = held s" "held (s\<lparr>sv_clients := book\<rparr>) = held s"
  "held (s\<lparr>sv_totals := totals\<rparr>) = held s" "held (s\<lparr>sv_udp_readable := b\<rparr>) = held s"
  "held (s\<lparr>sv_udp_reads := us\<rparr>) = held s" "held (s\<lparr>sv_udp_sends := bs\<rparr>) = held s"
  "held (s\<lparr>sv_datagrams := ds\<rparr>) = held s" "held (s\<lparr>sv_next_association := n\<rparr>) = held s" "held (s\<lparr>sv_next_token := n\<rparr>) = held s"
  by (simp_all add: held_def count_failed_def client_failed_def count_sent_def count_received_def)

lemma egress_frame [simp]:
  "sv_egress (count_failed s) = sv_egress s" "sv_egress (client_failed wall ip s) = sv_egress s"
  "sv_egress (count_sent wall ip n s) = sv_egress s" "sv_egress (count_received wall ip n s) = sv_egress s"
  "sv_egress (put_connection t c s) = sv_egress s"
  by (simp_all add: count_failed_def client_failed_def count_sent_def count_received_def put_connection_def)

lemma tidy_conn:
  "tidy servers s \<Longrightarrow> connection_of t s = Some c \<Longrightarrow> cn_phase c = Relaying flow \<Longrightarrow> cn_deadline c = None"
  using connection_in [of t s c] by (auto simp: tidy_def)

lemma tidy_put:
  assumes "tidy servers s" and c: "connection_of t s = Some c"
    and "(\<exists>flow. cn_phase d = Relaying flow) \<Longrightarrow> cn_deadline d = None"
  shows "tidy servers (put_connection t d s)"
proof -
  have "t < sv_next_token s" using assms(1) connection_in [OF c] by (auto simp: tidy_def)
  then have "u < sv_next_token s \<and> ((\<exists>flow. cn_phase b = Relaying flow) \<longrightarrow> cn_deadline b = None)"
    if "(u, b) \<in> set (AList.update t d (sv_connections s))" for u b
    using set_alist_update [OF that] assms(1,3) by (auto simp: tidy_def)
  moreover have "distinct (map fst (AList.update t d (sv_connections s)))" using assms(1) by (simp add: tidy_def tokens_def distinct_update)
  ultimately show ?thesis using assms(1) by (auto simp: tidy_def tokens_def put_connection_def)
qed

lemma held_put:
  assumes "tidy servers s" and "connection_of t s = Some c"
  shows "held (put_connection t d s) + conn_flow c = held s + conn_flow d"
  using assms conns_flows_update [of "sv_connections s" t c d]
  by (simp add: held_def put_connection_def tidy_def tokens_def connection_of_def ac_simps)

lemma held_in:
  "connection_of t s = Some c \<Longrightarrow> conn_flow c \<subseteq># held s"
  "(n, a) \<in> set (sv_associations s) \<Longrightarrow> (False, as_flow a) \<in># held s"
  "rv_flow (sv_resolver s) = Some flow \<Longrightarrow> (False, flow) \<in># held s"
  using conns_flows_in [of "sv_connections s" t c] assoc_flows_in [of n a "sv_associations s"]
  by (auto simp: held_def connection_of_def resolver_flow_def intro: subset_mset.trans [OF _ mset_subset_eq_add_left] )

definition accounted :: "('e \<Rightarrow> bool) \<Rightarrow> ('e \<Rightarrow> (bool \<times> nat) multiset) \<Rightarrow> ipv4 list \<Rightarrow> 'e Server \<Rightarrow> bool" where
  "accounted good opened servers s \<longleftrightarrow> good (sv_egress s) \<and> opened (sv_egress s) = held s \<and> tidy servers s"

lemma accounted_frame [simp]:
  "accounted good opened servers (count_failed s) = accounted good opened servers s"
  "accounted good opened servers (client_failed wall ip s) = accounted good opened servers s"
  "accounted good opened servers (count_sent wall ip n s) = accounted good opened servers s"
  "accounted good opened servers (count_received wall ip n s) = accounted good opened servers s"
  "accounted good opened servers (s\<lparr>sv_egress_wait := w\<rparr>) = accounted good opened servers s"
  "accounted good opened servers (s\<lparr>sv_drawn := n\<rparr>) = accounted good opened servers s"
  "accounted good opened servers (s\<lparr>sv_clients := book\<rparr>) = accounted good opened servers s"
  "accounted good opened servers (s\<lparr>sv_totals := totals\<rparr>) = accounted good opened servers s"
  "accounted good opened servers (s\<lparr>sv_udp_readable := b\<rparr>) = accounted good opened servers s"
  "accounted good opened servers (s\<lparr>sv_udp_reads := us\<rparr>) = accounted good opened servers s"
  "accounted good opened servers (s\<lparr>sv_udp_sends := bs\<rparr>) = accounted good opened servers s"
  "accounted good opened servers (s\<lparr>sv_datagrams := ds\<rparr>) = accounted good opened servers s"
  by (simp_all add: accounted_def)

lemma accounted_egress:
  "accounted good opened servers s \<Longrightarrow> good e \<and> opened e = opened (sv_egress s) \<Longrightarrow> accounted good opened servers (s\<lparr>sv_egress := e\<rparr>)"
  by (simp add: accounted_def)

lemma accounted_put:
  assumes "accounted good opened servers s" and c: "connection_of t s = Some c" and "conn_flow d = conn_flow c"
    and "(\<exists>flow. cn_phase d = Relaying flow) \<Longrightarrow> cn_deadline d = None"
  shows "accounted good opened servers (put_connection t d s)"
proof -
  have tidy: "tidy servers s" using assms(1) by (simp add: accounted_def)
  have "held (put_connection t d s) = held s" using held_put [OF tidy c, of d] assms(3) by simp
  then show ?thesis using assms(1) tidy_put [OF tidy c assms(4)] by (simp add: accounted_def)
qed

text \<open>Associations changed without their flows and keys.\<close>

lemma accounted_associations:
  assumes "accounted good opened servers s" and "map fst as = map fst (sv_associations s)" and "assoc_flows as = assoc_flows (sv_associations s)"
  shows "accounted good opened servers (s\<lparr>sv_associations := as\<rparr>)"
proof -
  have "fst ` set as = fst ` set (sv_associations s)" using assms(2) by (metis list.set_map)
  then have "n \<le> sv_next_association s" if "(n, a) \<in> set as" for n a
    using that assms(1) by (force simp: accounted_def tidy_def image_iff)
  then show ?thesis using assms by (auto simp: accounted_def held_def tidy_def tokens_def)
qed

lemma update_keys: "map_of as n = Some a \<Longrightarrow> map fst (AList.update n b as) = map fst as"
  by (induction as) auto

lemma map_entry_keys: "map fst (AList.map_entry n f as) = map fst as"
  by (induction as) auto

lemma association_for_flows:
  assumes "distinct (map fst as)" and "association_for source as = Some (n, as')"
  shows "map fst as' = map fst as \<and> assoc_flows as' = assoc_flows as"
proof (cases "find (\<lambda>(_, a). as_client_ip a = fst source \<and> as_client_port a = Some (snd source)) as")
  case (Some p)
  then show ?thesis using assms(2) by (cases p) (simp add: association_for_def)
next
  case None
  then obtain a where a: "min_by_key fst (filter (\<lambda>(_, a). as_client_ip a = fst source \<and> as_client_port a = None) as) = Some (n, a)"
      "as' = AList.update n (a\<lparr>as_client_port := Some (snd source)\<rparr>) as"
    using assms(2) by (auto simp: association_for_def)
  have "map_of as n = Some a" using min_by_key_in [OF a(1)] assms(1) by simp
  then show ?thesis using a(2) update_keys assoc_flows_update [OF assms(1)] by simp
qed

text \<open>Writing to a client and receiving for it leave the deadline alone.\<close>

lemma write_client_deadline [simp]: "cn_deadline (fst (write_client c)) = cn_deadline c"
proof -
  have "cn_deadline (fst (write_loop c)) = cn_deadline c"
  proof (induction c rule: write_loop.induct)
    case (1 c)
    then show ?case by (subst write_loop.simps) (auto simp: Let_def split: list.split write_result.split)
  qed
  then show ?thesis by (simp add: write_client_def case_prod_unfold Let_def)
qed

lemma receive_remote_deadline [simp]: "cn_deadline (fst (receive_remote E flow c e n)) = cn_deadline c"
proof (induction E flow c e n rule: receive_remote.induct)
  case (1 E flow c e n)
  then show ?case by (subst receive_remote.simps) (auto simp: case_prod_unfold Let_def)
qed

text \<open>A phase without a flow.\<close>

lemma conn_flow_none:
  "cn_phase c = Sniff \<Longrightarrow> conn_flow c = {#}" "cn_phase c = Greeting \<Longrightarrow> conn_flow c = {#}" "cn_phase c = UserPass \<Longrightarrow> conn_flow c = {#}"
  "cn_phase c = Request_Phase \<Longrightarrow> conn_flow c = {#}" "cn_phase c = HttpHead \<Longrightarrow> conn_flow c = {#}"
  "cn_phase c = Resolving port code \<Longrightarrow> conn_flow c = {#}" "cn_phase c = UdpControl n \<Longrightarrow> conn_flow c = {#}" "cn_phase c = Closing \<Longrightarrow> conn_flow c = {#}"
  by (simp_all add: conn_flow_def)

lemma conn_flow_cong: "cn_phase d = cn_phase c \<Longrightarrow> conn_flow d = conn_flow c"
  by (simp add: conn_flow_def)

lemma accounted_unmoved:
  assumes "accounted good opened servers s" and c: "connection_of t s = Some c" and "cn_phase d = cn_phase c" and "cn_deadline d = cn_deadline c"
  shows "accounted good opened servers (put_connection t d s)"
  using accounted_put [OF assms(1,2) conn_flow_cong [OF assms(3)]] tidy_conn [OF _ c] assms(1,3,4) by (auto simp: accounted_def)

lemma conn_flow_fail [simp]: "conn_flow (conn_fail now code c) = {#}"
  by (simp add: conn_flow_def)

lemma accounted_fail:
  "accounted good opened servers s \<Longrightarrow> connection_of t s = Some c \<Longrightarrow> conn_flow c = {#} \<Longrightarrow>
   accounted good opened servers (put_connection t (conn_fail now code d) s)"
  by (rule accounted_put) simp_all

lemma accounted_tidy: "accounted good opened servers s \<Longrightarrow> tidy servers s"
  by (simp add: accounted_def)

lemma reap_connections:
  "sv_connections (fold (reap_connection V) ts s) = filter (\<lambda>(t, _). t \<notin> set ts) (sv_connections s)"
proof (induction ts arbitrary: s)
  case Nil
  then show ?case by simp
next
  case (Cons t ts)
  have "sv_connections (release_association V n s) = sv_connections s" for n and s :: "'a Server"
    using release_all_associations [of V "[n]" s] by simp
  then have "sv_connections (reap_connection V t s) = AList.delete t (sv_connections s)"
    by (auto simp: reap_connection_def connection_of_def Let_def alist_delete_absent split: option.split Phase.split)
  then show ?case using Cons.IH [of "reap_connection V t s"] by (auto simp: AList.delete_eq case_prod_unfold intro: filter_cong)
qed

lemma reap_keeps_unfinished:
  "sv_connections (reap V s) = filter (\<lambda>(t, _). t \<notin> set (map fst (filter (\<lambda>(_, c). cn_finished c) (sv_connections s)))) (sv_connections s)"
  by (simp only: reap_def Let_def release_all_associations [THEN conjunct1] reap_connections)

lemma reap_all_finished:
  "sv_connections (reap V (s\<lparr>sv_connections := map (\<lambda>(token, c). (token, c\<lparr>cn_finished := True\<rparr>)) cs\<rparr>)) = []"
  unfolding reap_keeps_unfinished by (force simp: filter_empty_conv)

lemma accept_response_flow:
  "rv_flow (fst (accept_response now source response rv)) = rv_flow rv" "rv_servers (fst (accept_response now source response rv)) = rv_servers rv"
  by (simp_all add: accept_response_def remember_answer_def Let_def case_prod_unfold split: option.split)

locale proxied_egress =
  fixes E :: "'e Egress" and good :: "'e \<Rightarrow> bool" and opened :: "'e \<Rightarrow> (bool \<times> nat) multiset" and servers :: "ipv4 list"
  assumes tcp_connect: "good e \<Longrightarrow> destination_allowed ip \<Longrightarrow> good (fst (eg_tcp_connect E (ip, port) e))
      \<and> opened (fst (eg_tcp_connect E (ip, port) e)) =
          (case snd (eg_tcp_connect E (ip, port) e) of Inr flow \<Rightarrow> add_mset (True, flow) (opened e) | Inl _ \<Rightarrow> opened e)"
    and udp_open: "good e \<Longrightarrow> good (fst (eg_udp_open E e))
      \<and> opened (fst (eg_udp_open E e)) = (case snd (eg_udp_open E e) of Inr flow \<Rightarrow> add_mset (False, flow) (opened e) | Inl _ \<Rightarrow> opened e)"
    and tcp_state: "good e \<Longrightarrow> (True, flow) \<in># opened e \<Longrightarrow> good (fst (eg_tcp_state E flow e)) \<and> opened (fst (eg_tcp_state E flow e)) = opened e"
    and tcp_send: "good e \<Longrightarrow> (True, flow) \<in># opened e \<Longrightarrow> good (fst (eg_tcp_send E flow bs e)) \<and> opened (fst (eg_tcp_send E flow bs e)) = opened e"
    and tcp_recv: "good e \<Longrightarrow> (True, flow) \<in># opened e \<Longrightarrow> good (fst (eg_tcp_recv E flow n e)) \<and> opened (fst (eg_tcp_recv E flow n e)) = opened e"
    and tcp_send_idle: "good e \<Longrightarrow> (True, flow) \<in># opened e \<Longrightarrow> good (fst (eg_tcp_send_idle E flow e)) \<and> opened (fst (eg_tcp_send_idle E flow e)) = opened e"
    and tcp_shutdown: "good e \<Longrightarrow> (True, flow) \<in># opened e \<Longrightarrow> good (eg_tcp_shutdown E flow e) \<and> opened (eg_tcp_shutdown E flow e) = opened e"
    and udp_send: "good e \<Longrightarrow> (False, flow) \<in># opened e \<Longrightarrow> destination_allowed (fst d) \<or> fst d \<in> set servers \<and> snd d = 53
      \<Longrightarrow> good (fst (eg_udp_send E flow d bs e)) \<and> opened (fst (eg_udp_send E flow d bs e)) = opened e"
    and udp_recv: "good e \<Longrightarrow> (False, flow) \<in># opened e \<Longrightarrow> good (fst (eg_udp_recv E flow e)) \<and> opened (fst (eg_udp_recv E flow e)) = opened e"
    and tcp_release: "good e \<Longrightarrow> (True, flow) \<in># opened e
      \<Longrightarrow> good (eg_tcp_release E flow e) \<and> opened (eg_tcp_release E flow e) = opened e - {#(True, flow)#}"
    and udp_release: "good e \<Longrightarrow> (False, flow) \<in># opened e
      \<Longrightarrow> good (eg_udp_release E flow e) \<and> opened (eg_udp_release E flow e) = opened e - {#(False, flow)#}"
    and on_event: "good e \<Longrightarrow> good (eg_on_event E token readable writable e) \<and> opened (eg_on_event E token readable writable e) = opened e"
    and drive: "good e \<Longrightarrow> good (fst (eg_drive E e)) \<and> opened (fst (eg_drive E e)) = opened e"
begin

lemma ask_servers_good:
  "good e \<Longrightarrow> (False, flow) \<in># opened e \<Longrightarrow> set asked \<subseteq> set servers
   \<Longrightarrow> good (ask_servers E flow asked message e) \<and> opened (ask_servers E flow asked message e) = opened e"
proof (induction asked arbitrary: e)
  case (Cons a asked)
  have "good (fst (eg_udp_send E flow (a, 53) message e)) \<and> opened (fst (eg_udp_send E flow (a, 53) message e)) = opened e"
    using Cons.prems udp_send [of e flow "(a, 53)" message] by simp
  then show ?case using Cons.IH [of "fst (eg_udp_send E flow (a, 53) message e)"] Cons.prems by (simp add: ask_servers_def)
qed (simp add: ask_servers_def)

text \<open>What the resolver keeps, beside the other flows \<open>M\<close>.\<close>

lemma lookup_good:
  assumes "good e" and "opened e = M + resolver_flow rv" and "rv_servers rv = servers"
    and look: "lookup_name E i now name w (rv, e) = ((rv', e'), r)"
  shows "good e' \<and> opened e' = M + resolver_flow rv' \<and> rv_servers rv' = servers"
proof -
  have start: "good e2 \<and> opened e2 = M + resolver_flow rv2 \<and> rv_servers rv2 = servers"
    if "start_query E i now name w flow (rv1, e1) = ((rv2, e2), r2)" and "good e1" "opened e1 = M + resolver_flow rv1"
      "rv_flow rv1 = Some flow" "rv_servers rv1 = servers" for rv1 e1 rv2 e2 r2 flow
  proof (cases "dns_query i name")
    case None
    then show ?thesis using that by (auto simp: start_query_def)
  next
    case (Some message)
    have "(False, flow) \<in># opened e1" using that by (simp add: resolver_flow_def)
    from ask_servers_good [OF that(2) this, of "rv_servers rv1" message] that Some show ?thesis
      by (auto simp: start_query_def resolver_flow_def)
  qed
  have join: "good e2 \<and> opened e2 = M + resolver_flow rv2 \<and> rv_servers rv2 = servers"
    if "join_query E i now name w (rv, e) = ((rv2, e2), r2)" for rv2 e2 r2
  proof (cases "map_of (rv_pending rv) name")
    case (Some q)
    then show ?thesis using that assms by (auto simp: join_query_def resolver_flow_def)
  next
    case None
    show ?thesis
    proof (cases "rv_flow rv")
      case (Some flow)
      then show ?thesis using start [of flow rv e] that assms None by (auto simp: join_query_def)
    next
      case no_flow: None
      obtain e1 res where udp_result: "eg_udp_open E e = (e1, res)" by fastforce
      show ?thesis
      proof (cases res)
        case (Inl reason)
        then show ?thesis using that assms None no_flow udp_result udp_open [OF assms(1)] by (auto simp: join_query_def)
      next
        case (Inr flow)
        have "good e1" "opened e1 = M + resolver_flow (rv\<lparr>rv_flow := Some flow\<rparr>)"
          using udp_open [OF assms(1)] udp_result Inr assms(2) no_flow by (simp_all add: resolver_flow_def)
        then show ?thesis using start [of flow "rv\<lparr>rv_flow := Some flow\<rparr>" e1] that None no_flow udp_result Inr assms(3)
          by (simp add: join_query_def)
      qed
    qed
  qed
  show ?thesis using look assms join
    by (auto simp: lookup_name_def case_prod_unfold Let_def resolver_flow_def split: option.splits if_splits)
qed

lemma read_responses_good:
  assumes "good e" and "(False, flow) \<in># opened e" and run: "read_responses E now flow rv e fin = Some (rv', e', fin')"
  shows "good e' \<and> opened e' = opened e \<and> rv_flow rv' = rv_flow rv \<and> rv_servers rv' = rv_servers rv"
proof -
  let ?P = "\<lambda>F now flow rv e fin r. F = E \<longrightarrow> good e \<longrightarrow> (False, flow) \<in># opened e \<longrightarrow>
    good (fst (snd r)) \<and> opened (fst (snd r)) = opened e \<and> rv_flow (fst r) = rv_flow rv \<and> rv_servers (fst r) = rv_servers rv"
  have "?P E now flow rv e fin (rv', e', fin')"
  proof (rule read_responses.raw_induct [where P = ?P, OF _ run])
    fix g and F :: "'e Egress" and now flow rv e fin r
    assume IH: "\<And>F now flow rv e fin r. g F now flow rv e fin = Some r \<Longrightarrow> ?P F now flow rv e fin r"
      and eq: "(case snd (eg_udp_recv F flow e) of
        None \<Rightarrow> Some (rv, fst (eg_udp_recv F flow e), fin)
      | Some (from, response) \<Rightarrow>
          g F now flow (fst (accept_response now from response rv)) (fst (eg_udp_recv F flow e))
            (fin @ snd (accept_response now from response rv))) = Some r"
    show "?P F now flow rv e fin r"
    proof (intro impI)
      assume F: "F = E" and "good e" and "(False, flow) \<in># opened e"
      note recv = udp_recv [OF this(2,3)]
      show "good (fst (snd r)) \<and> opened (fst (snd r)) = opened e \<and> rv_flow (fst r) = rv_flow rv \<and> rv_servers (fst r) = rv_servers rv"
      proof (cases "snd (eg_udp_recv F flow e)")
        case None
        then show ?thesis using eq recv F by auto
      next
        case (Some m)
        obtain sender response where m: "m = (sender, response)" by (cases m)
        let ?a = "accept_response now sender response rv"
        have "?P F now flow (fst ?a) (fst (eg_udp_recv F flow e)) (fin @ snd ?a) r" using eq Some m by (intro IH) simp
        then show ?thesis using recv F \<open>(False, flow) \<in># opened e\<close> accept_response_flow [of now sender response rv] by simp
      qed
    qed
  qed
  then show ?thesis using assms by simp
qed

lemma retry_queries_good:
  "good e \<Longrightarrow> (False, flow) \<in># opened e \<Longrightarrow> set asked \<subseteq> set servers
   \<Longrightarrow> good (snd (retry_queries E now flow asked ps e)) \<and> opened (snd (retry_queries E now flow asked ps e)) = opened e"
proof (induction ps arbitrary: e)
  case (Cons p ps)
  obtain name q where p: "p = (name, q)" by fastforce
  define e1 where "e1 = (if duration_since now (qy_last_sent q) \<ge> RETRY_INTERVAL then ask_servers E flow asked (qy_message q) e else e)"
  have e1: "good e1 \<and> opened e1 = opened e" using ask_servers_good [OF Cons.prems] Cons.prems(1) by (simp add: e1_def)
  have "snd (retry_queries E now flow asked (p # ps) e) = snd (retry_queries E now flow asked ps e1)"
    by (simp add: p e1_def case_prod_unfold Let_def)
  then show ?case using Cons.IH [of e1] e1 Cons.prems by simp
qed simp

lemma poll_good:
  assumes "good e" and "opened e = M + resolver_flow rv" and "rv_servers rv = servers"
    and poll: "poll_lookups E now (rv, e) = Some ((rv', e'), fin)"
  shows "good e' \<and> opened e' = M + resolver_flow rv' \<and> rv_servers rv' = servers"
proof (cases "rv_flow rv")
  case None
  then show ?thesis using assms by (simp add: poll_lookups_def)
next
  case (Some flow)
  obtain rv1 e1 fin1 where read: "read_responses E now flow rv e [] = Some (rv1, e1, fin1)"
    using poll Some by (auto simp: poll_lookups_def split: option.splits)
  have flow: "(False, flow) \<in># opened e" using assms(2) Some by (simp add: resolver_flow_def)
  note one = read_responses_good [OF assms(1) flow read]
  define rv2 where "rv2 = fst (expire_queries now rv1)"
  have rv2: "rv_flow rv2 = rv_flow rv1" "rv_servers rv2 = rv_servers rv1" by (simp_all add: rv2_def expire_queries_def Let_def)
  have result: "rv_flow rv' = rv_flow rv2" "rv_servers rv' = rv_servers rv2"
      "e' = snd (retry_queries E now flow (rv_servers rv2) (rv_pending rv2) e1)"
    using poll Some read by (auto simp: poll_lookups_def rv2_def case_prod_unfold Let_def)
  show ?thesis
    using retry_queries_good [of e1 flow "rv_servers rv2" now "rv_pending rv2"] one rv2 result assms flow Some
    by (simp add: resolver_flow_def)
qed

lemma accounted_open_flow:
  assumes ok: "accounted good opened servers s" and V: "pe_egress V = E"
    and empty: "\<And>c. connection_of token s = Some c \<Longrightarrow> conn_flow c = {#}"
  shows "accounted good opened servers (open_flow V token ip port code s)"
proof (cases "connection_of token s")
  case (Some c)
  show ?thesis
  proof (cases "destination_allowed ip")
    case False
    then show ?thesis using Some ok empty [OF Some] by (simp add: open_flow_def accounted_fail)
  next
    case True
    obtain e r where connect: "eg_tcp_connect E (ip, port) (sv_egress s) = (e, r)" by fastforce
    have "good (sv_egress s)" using ok by (simp add: accounted_def)
    from tcp_connect [OF this True, of port] connect
    have e: "good e" "opened e = (case r of Inr flow \<Rightarrow> add_mset (True, flow) (opened (sv_egress s)) | Inl _ \<Rightarrow> opened (sv_egress s))" by simp_all
    show ?thesis
    proof (cases r)
      case (Inl reason)
      have "accounted good opened servers (s\<lparr>sv_egress := e\<rparr>)" using accounted_egress [OF ok, of e] e Inl by simp
      then show ?thesis using Some True connect V Inl empty [OF Some] by (simp add: open_flow_def accounted_fail)
    next
      case (Inr flow)
      define d where "d = c\<lparr>cn_phase := Connecting flow code, cn_deadline := Some (pe_now V + CONNECT_TIMEOUT)\<rparr>"
      have "held (put_connection token d s) = add_mset (True, flow) (held s)"
        using held_put [OF accounted_tidy [OF ok] Some, of d] empty [OF Some] by (simp add: d_def conn_flow_def)
      moreover have "tidy servers (put_connection token d s)"
        by (rule tidy_put [OF accounted_tidy [OF ok] Some]) (simp add: d_def)
      moreover have "put_connection token d (s\<lparr>sv_egress := e\<rparr>) = (put_connection token d s)\<lparr>sv_egress := e\<rparr>" by (simp add: put_connection_def)
      ultimately have "accounted good opened servers (put_connection token d (s\<lparr>sv_egress := e\<rparr>))"
        using ok e Inr by (simp add: accounted_def)
      then show ?thesis using Some True connect V Inr by (simp add: open_flow_def d_def)
    qed
  qed
qed (simp add: open_flow_def ok)

lemma accounted_lookup:
  assumes ok: "accounted good opened servers s" and V: "pe_egress V = E"
  shows "accounted good opened servers (fst (server_lookup V name w s))"
proof -
  obtain rv e r where look: "lookup_name E (pe_query_id V (sv_drawn s)) (pe_now V) name w (sv_resolver s, sv_egress s) = ((rv, e), r)"
    by (metis prod.collapse)
  have "good e \<and> opened e = (conns_flows (sv_connections s) + assoc_flows (sv_associations s)) + resolver_flow rv \<and> rv_servers rv = servers"
    by (rule lookup_good [OF _ _ _ look]) (use ok in \<open>simp_all add: accounted_def held_def tidy_def\<close>)
  then show ?thesis using ok look V by (simp add: server_lookup_def accounted_def held_def tidy_def tokens_def)
qed

lemma accounted_begin_connect:
  assumes ok: "accounted good opened servers s" and V: "pe_egress V = E"
    and empty: "\<And>c. connection_of token s = Some c \<Longrightarrow> conn_flow c = {#}"
  shows "accounted good opened servers (begin_connect V token target code s)"
proof (cases "connection_of token s")
  case (Some c)
  show ?thesis
  proof (cases target)
    case (Domain name port)
    obtain s1 r where look: "server_lookup V name (Wait_Connect token) s = (s1, r)" by fastforce
    have s1: "accounted good opened servers s1" "connection_of token s1 = Some c"
      using accounted_lookup [OF ok V, of name "Wait_Connect token"] look Some
        connection_of_lookup [of token V name "Wait_Connect token" s] by simp_all
    have "accounted good opened servers (open_flow V token ip port code s1)" for ip
      using accounted_open_flow [OF s1(1) V, of token ip port code] s1(2) empty [OF Some] by simp
    then show ?thesis using Some Domain look s1 empty [OF Some]
      by (cases r) (auto simp: begin_connect_def accounted_fail conn_flow_none intro!: accounted_put [where c = c])
  qed (use Some ok V empty in \<open>auto simp: begin_connect_def accounted_fail intro!: accounted_open_flow\<close>)
qed (simp add: begin_connect_def ok)

lemma accounted_associate:
  assumes ok: "accounted good opened servers s" and V: "pe_egress V = E"
    and empty: "\<And>c. connection_of token s = Some c \<Longrightarrow> conn_flow c = {#}"
  shows "accounted good opened servers (associate V token target s)"
proof (cases "connection_of token s")
  case (Some c)
  obtain e r where udp_result: "eg_udp_open E (sv_egress s) = (e, r)" by fastforce
  have "good (sv_egress s)" using ok by (simp add: accounted_def)
  from udp_open [OF this] udp_result
  have e: "good e" "opened e = (case r of Inr flow \<Rightarrow> add_mset (False, flow) (opened (sv_egress s)) | Inl _ \<Rightarrow> opened (sv_egress s))" by simp_all
  have grown: "accounted good opened servers (s\<lparr>sv_egress := e, sv_next_association := Suc (sv_next_association s),
      sv_associations := AList.update (Suc (sv_next_association s)) a (sv_associations s)\<rparr>)"
    if "r = Inr (as_flow a)" for a
  proof -
    have fresh: "map_of (sv_associations s) (Suc (sv_next_association s)) = None"
      using accounted_tidy [OF ok] by (force simp: tidy_def map_of_eq_None_iff)
    have "n \<le> Suc (sv_next_association s)" if "(n, b) \<in> set (AList.update (Suc (sv_next_association s)) a (sv_associations s))" for n b
      using set_alist_update [OF that] accounted_tidy [OF ok] by (auto simp: tidy_def)
    then show ?thesis using ok e that assoc_flows_new [OF fresh, of a]
      by (auto simp: accounted_def held_def tidy_def tokens_def distinct_update)
  qed
  show ?thesis
  proof (cases "length (filter (\<lambda>(_, a). as_client_ip a = fst (cn_client c)) (sv_associations s)) \<ge> MAX_ASSOCIATIONS_PER_CLIENT")
    case True
    then show ?thesis using ok Some empty [OF Some] by (simp add: associate_def Let_def accounted_fail)
  next
    case False
    show ?thesis
    proof (cases r)
      case (Inl reason)
      have "accounted good opened servers (s\<lparr>sv_egress := e\<rparr>)" using accounted_egress [OF ok, of e] e Inl by simp
      then show ?thesis using Some V udp_result False Inl empty [OF Some] by (simp add: associate_def Let_def accounted_fail)
    next
      case (Inr flow)
      show ?thesis using grown [of "\<lparr>as_control = token, as_client_ip = fst (cn_client c),
          as_client_port = (case target of Ip _ port \<Rightarrow> if port \<noteq> 0 then Some port else None | _ \<Rightarrow> None),
          as_flow = flow, as_pending_lookups = 0\<rparr>"] Some V udp_result False Inr empty [OF Some]
        by (auto simp: associate_def Let_def conn_flow_none intro!: accounted_put [where c = c])
    qed
  qed
qed (simp add: associate_def ok)

text \<open>In the handshake there is no flow before and none after; the next step is only asked for then.\<close>

lemma accounted_handshake:
  assumes ok: "accounted good opened servers s" and c: "connection_of token s = Some c" and empty: "conn_flow c = {#}"
  shows "accounted good opened servers (fst (step_sniff token c s))"
    and "accounted good opened servers (fst (step_greeting token c s))"
    and "accounted good opened servers (fst (step_user_pass wall token c s))"
    and "accounted good opened servers (fst (step_request now token c s))"
    and "accounted good opened servers (fst (step_http_head base64 now token c s))"
proof -
  have put: "accounted good opened servers (put_connection token d s)" if "conn_flow d = {#}" for d
    using accounted_put [OF ok c, of d] that empty by (auto simp: conn_flow_def split: Phase.splits)
  have same: "conn_flow d = {#}" if "cn_phase d = cn_phase c" for d using that empty conn_flow_cong by metis
  show "accounted good opened servers (fst (step_sniff token c s))"
    by (auto simp: step_sniff_def ok conn_flow_none same intro!: put split: list.split)
  show "accounted good opened servers (fst (step_greeting token c s))"
    by (auto simp: step_greeting_def ok Let_def conn_flow_none same intro!: put split: Parse.split option.split)
  show "accounted good opened servers (fst (step_user_pass wall token c s))"
    by (auto simp: step_user_pass_def ok Let_def conn_flow_none same intro!: put split: Parse.split)
  show "accounted good opened servers (fst (step_request now token c s))"
    by (auto simp: step_request_def ok Let_def conn_flow_none same intro!: put split: Parse.split)
  show "accounted good opened servers (fst (step_http_head base64 now token c s))"
    by (auto simp: step_http_head_def ok Let_def conn_flow_none same intro!: put split: Parse.split)
qed

lemma handshake_next_empty:
  assumes "conn_flow c = {#}"
  shows "step_request now token c s = (s1, p, Some x) \<Longrightarrow> \<exists>d. connection_of token s1 = Some d \<and> conn_flow d = {#}"
    and "step_http_head base64 now token c s = (s1, p, Some x) \<Longrightarrow> \<exists>d. connection_of token s1 = Some d \<and> conn_flow d = {#}"
  using assms conn_flow_cong [of "c\<lparr>cn_input := _\<rparr>" c]
  by (auto simp: step_request_def step_http_head_def Let_def split: Parse.splits if_splits)

lemma accounted_step_relaying:
  assumes ok: "accounted good opened servers s" and c: "connection_of token s = Some c" and flow: "cn_phase c = Relaying flow"
  shows "accounted good opened servers (fst (step_relaying E wall token flow c s))"
proof -
  obtain d e book totals where shape:
      "fst (step_relaying E wall token flow c s) = put_connection token d (s\<lparr>sv_egress := e, sv_clients := book, sv_totals := totals\<rparr>)"
      "cn_phase d = cn_phase c" "cn_deadline d = cn_deadline c"
      "let sent = (if cn_input c \<noteq> [] then fst (eg_tcp_send E flow (cn_input c) (sv_egress s)) else sv_egress s)
       in e = sent \<or> e = eg_tcp_shutdown E flow sent"
    using step_relaying_shape [of E wall token flow c s] by blast
  have start: "good (sv_egress s)" "(True, flow) \<in># opened (sv_egress s)"
    using ok held_in(1) [OF c] flow by (auto simp: accounted_def conn_flow_def)
  have "good e \<and> opened e = opened (sv_egress s)"
    using shape(4) start tcp_send [OF start] tcp_shutdown [of _ flow] by (auto simp: Let_def split: if_splits)
  then have "accounted good opened servers (s\<lparr>sv_egress := e, sv_clients := book, sv_totals := totals\<rparr>)"
    using accounted_egress [OF ok, of e] by simp
  then show ?thesis unfolding shape(1) using c shape(2,3) by (intro accounted_unmoved [where c = c]) simp_all
qed

lemma accounted_proxy_step:
  assumes ok: "accounted good opened servers s" and V: "pe_egress V = E"
  shows "accounted good opened servers (fst (proxy_step V token s))"
proof (cases "connection_of token s")
  case None
  then show ?thesis using ok by (simp add: proxy_step_def step_connection_def)
next
  case (Some c)
  obtain s1 p n where step: "step_connection V token s = (s1, p, n)" by (metis prod_cases3)
  have acc: "accounted good opened servers s1"
  proof -
    have "accounted good opened servers (fst (step_connection V token s))"
    proof (cases "cn_phase c")
      case (Relaying flow)
      then show ?thesis using Some V accounted_step_relaying [OF ok Some Relaying] by (simp add: step_connection_def)
    next
      case (UdpControl k)
      then show ?thesis using Some ok by (auto simp: step_connection_def intro!: accounted_unmoved [where c = c])
    qed (use Some ok accounted_handshake [OF ok Some] in \<open>simp_all add: step_connection_def conn_flow_none\<close>)
    then show ?thesis by (simp add: step)
  qed
  have empty: "conn_flow d = {#}" if "n = Some x" and "connection_of token s1 = Some d" for d x
  proof -
    have "\<exists>d. connection_of token s1 = Some d \<and> conn_flow d = {#}"
    proof (cases "cn_phase c")
      case Request_Phase
      then show ?thesis using handshake_next_empty(1) [OF conn_flow_none(4)] step Some that(1) by (simp add: step_connection_def)
    next
      case HttpHead
      then show ?thesis using handshake_next_empty(2) [OF conn_flow_none(5)] step Some that(1) by (simp add: step_connection_def)
    next
      case (Relaying flow)
      then show ?thesis using step Some that(1) step_relaying_shape [of "pe_egress V" "pe_wall V" token flow c s]
        by (auto simp: step_connection_def)
    qed (use step Some that(1) in \<open>auto simp: step_connection_def step_sniff_def step_greeting_def step_user_pass_def Let_def
          split: list.splits Parse.splits option.splits\<close>)
    then show ?thesis using that(2) by simp
  qed
  show ?thesis
  proof (cases n)
    case None
    then show ?thesis using acc step by (simp add: proxy_step_def)
  next
    case (Some x)
    then show ?thesis using step accounted_begin_connect [OF acc V empty [OF Some]] accounted_associate [OF acc V empty [OF Some]]
      by (cases x) (simp_all add: proxy_step_def)
  qed
qed

lemma accounted_advance:
  assumes ok: "accounted good opened servers s" and V: "pe_egress V = E" and run: "advance V token s = Some s'"
  shows "accounted good opened servers s'"
proof -
  have loop: "accounted good opened servers s2" if "accounted good opened servers s1" "advance_loop V token s1 = Some s2" for s1 s2
  proof -
    let ?P = "\<lambda>V token s s'. pe_egress V = E \<longrightarrow> accounted good opened servers s \<longrightarrow> accounted good opened servers s'"
    have "?P V token s1 s2"
    proof (rule advance_loop.raw_induct [where P = ?P, OF _ that(2)])
      fix g :: "'e proxy_env \<Rightarrow> nat \<Rightarrow> 'e Server \<Rightarrow> 'e Server option" and V token s r
      assume IH: "\<And>V token s r. g V token s = Some r \<Longrightarrow> ?P V token s r"
        and eq: "(if snd (proxy_step V token s) then g V token (fst (proxy_step V token s)) else Some (fst (proxy_step V token s))) = Some r"
      show "?P V token s r"
        using eq IH [of V token "fst (proxy_step V token s)" r] accounted_proxy_step [of s V token] by (auto split: if_splits)
    qed
    then show ?thesis using that(1) V by blast
  qed
  show ?thesis
  proof (cases "connection_of token s")
    case None
    then show ?thesis using run ok by (simp add: advance_def)
  next
    case (Some c)
    obtain c' fine where read: "(if paused c then (c, True) else read_client (read_limit (cn_phase c)) c) = (c', fine)" by fastforce
    have "read_effect c c'"
      using read read_client_effect [of c "read_limit (cn_phase c)"] read_effect_refl [of c] by (auto split: if_splits)
    then have "cn_phase c' = cn_phase c" "cn_deadline c' = cn_deadline c" by (auto simp: read_effect_def)
    then have "accounted good opened servers (put_connection token c' s)" "accounted good opened servers (put_connection token (c'\<lparr>cn_finished := True\<rparr>) s)"
      using accounted_unmoved [OF ok Some] by simp_all
    then show ?thesis using run Some read loop [of "put_connection token c' s" s'] by (auto simp: advance_def split: if_splits)
  qed
qed

lemma accounted_send_datagram:
  assumes ok: "accounted good opened servers s" and V: "pe_egress V = E" and flow: "(False, flow) \<in># held s"
  shows "accounted good opened servers (send_datagram V flow ip destination payload s)"
proof (cases "destination_allowed (fst destination)")
  case True
  obtain e fine where send: "eg_udp_send E flow destination payload (sv_egress s) = (e, fine)" by fastforce
  have "good e \<and> opened e = opened (sv_egress s)"
    using udp_send [of "sv_egress s" flow destination payload] send ok flow True by (simp add: accounted_def)
  then have "accounted good opened servers (s\<lparr>sv_egress := e\<rparr>)" by (rule accounted_egress [OF ok])
  then show ?thesis using True send V by (simp add: send_datagram_def Let_def)
qed (simp add: send_datagram_def ok)

lemma accounted_forward_datagram:
  assumes ok: "accounted good opened servers s" and V: "pe_egress V = E" and a: "(n, a) \<in> set (sv_associations s)"
  shows "accounted good opened servers (forward_datagram V n a target payload s)"
proof (cases target)
  case (Domain name port)
  obtain s1 r where look: "server_lookup V name (Wait_Datagram n port payload) s = (s1, r)" by fastforce
  have s1: "accounted good opened servers s1" using accounted_lookup [OF ok V, of name "Wait_Datagram n port payload"] look by simp
  have "sv_associations s1 = sv_associations s" using look by (auto simp: server_lookup_def case_prod_unfold Let_def)
  then have "(False, as_flow a) \<in># held s1" using held_in(2) a by metis
  then have "accounted good opened servers (send_datagram V (as_flow a) (as_client_ip a) (ip, port) payload s1)" for ip
    by (rule accounted_send_datagram [OF s1 V])
  moreover have "accounted good opened servers (s1\<lparr>sv_associations := AList.map_entry n (\<lambda>a. a\<lparr>as_pending_lookups := as_pending_lookups a + 1\<rparr>) (sv_associations s1)\<rparr>)"
    by (rule accounted_associations [OF s1]) (simp_all add: map_entry_keys assoc_flows_map_entry)
  ultimately show ?thesis using Domain look s1 ok by (cases r) (simp_all add: forward_datagram_def)
qed (simp_all add: forward_datagram_def ok accounted_send_datagram [OF ok V held_in(2) [OF a]])

lemma accounted_client_datagram:
  assumes ok: "accounted good opened servers s" and V: "pe_egress V = E"
  shows "accounted good opened servers (client_datagram V source datagram s)"
proof (cases "association_for source (sv_associations s)")
  case (Some r)
  obtain n as where r: "r = (n, as)" by fastforce
  have "distinct (map fst (sv_associations s))" using accounted_tidy [OF ok] by (simp add: tidy_def)
  from association_for_flows [OF this] have "accounted good opened servers (s\<lparr>sv_associations := as\<rparr>)"
    using Some r by (intro accounted_associations [OF ok]) simp_all
  then show ?thesis using Some r V
    by (auto simp: client_datagram_def Let_def intro!: accounted_forward_datagram dest: map_of_SomeD split: option.split)
qed (simp add: client_datagram_def ok)

lemma accounted_receive:
  assumes "accounted good opened servers s" and V: "pe_egress V = E"
  shows "accounted good opened servers (receive_client_datagrams V s)"
proof -
  have "accounted good opened servers s \<Longrightarrow> accounted good opened servers (receive_datagrams V reads s)" for reads
    using V by (induction V reads s rule: receive_datagrams.induct) (simp_all add: accounted_client_datagram)
  then show ?thesis using assms by (simp add: receive_client_datagrams_def)
qed

lemma accounted_finish_lookup:
  assumes ok: "accounted good opened servers s" and V: "pe_egress V = E"
  shows "accounted good opened servers (finish_lookup V w s)"
proof -
  obtain waiter result where w: "w = (waiter, result)" by fastforce
  show ?thesis
  proof (cases waiter)
    case (Wait_Connect token)
    show ?thesis
    proof (cases "connection_of token s")
      case (Some c)
      show ?thesis
      proof (cases "\<exists>port code. cn_phase c = Resolving port code")
        case True
        then obtain port code where phase: "cn_phase c = Resolving port code" by blast
        have "accounted good opened servers (put_connection token (c\<lparr>cn_phase := Closing\<rparr>) s)"
          by (rule accounted_put [OF ok Some]) (simp_all add: phase conn_flow_none)
        from accounted_open_flow [OF this V, of token _ port code]
        have "accounted good opened servers (open_flow V token ip port code (put_connection token (c\<lparr>cn_phase := Closing\<rparr>) s))" for ip
          by (simp add: conn_flow_none)
        then show ?thesis using w Wait_Connect Some phase ok
          by (auto simp: finish_lookup_def Let_def conn_flow_none intro!: accounted_fail [where c = c] split: sum.split)
      next
        case False
        then show ?thesis using w Wait_Connect Some ok by (simp add: finish_lookup_def split: Phase.split)
      qed
    qed (simp add: w Wait_Connect finish_lookup_def ok)
  next
    case (Wait_Datagram n port payload)
    show ?thesis
    proof (cases "map_of (sv_associations s) n")
      case (Some a)
      define b where "b = a\<lparr>as_pending_lookups := as_pending_lookups a - Suc 0\<rparr>"
      define s1 where "s1 = s\<lparr>sv_associations := AList.update n b (sv_associations s)\<rparr>"
      have "distinct (map fst (sv_associations s))" using accounted_tidy [OF ok] by (simp add: tidy_def)
      then have s1: "accounted good opened servers s1" unfolding s1_def
        using update_keys [OF Some] assoc_flows_update [OF _ Some] by (intro accounted_associations [OF ok]) (simp_all add: b_def)
      have "map_of (sv_associations s1) n = Some b" by (simp add: s1_def update_conv')
      from held_in(2) [OF map_of_SomeD [OF this]] have "(False, as_flow a) \<in># held s1" by (simp add: b_def)
      then show ?thesis using w Wait_Datagram Some s1 accounted_send_datagram [OF s1 V]
        by (auto simp: finish_lookup_def Let_def b_def [symmetric] s1_def [symmetric] split: sum.split)
    qed (simp add: w Wait_Datagram finish_lookup_def ok)
  qed
qed

lemma accounted_finish_lookups:
  assumes ok: "accounted good opened servers s" and V: "pe_egress V = E" and run: "finish_lookups V s = Some s'"
  shows "accounted good opened servers s'"
proof -
  obtain rv e finished where poll: "poll_lookups E (pe_now V) (sv_resolver s, sv_egress s) = Some ((rv, e), finished)"
      and s': "s' = fold (finish_lookup V) finished (s\<lparr>sv_resolver := rv, sv_egress := e\<rparr>)"
    using run V by (auto simp: finish_lookups_def)
  have "good e \<and> opened e = (conns_flows (sv_connections s) + assoc_flows (sv_associations s)) + resolver_flow rv \<and> rv_servers rv = servers"
    by (rule poll_good [OF _ _ _ poll]) (use ok in \<open>simp_all add: accounted_def held_def tidy_def\<close>)
  then have "accounted good opened servers (s\<lparr>sv_resolver := rv, sv_egress := e\<rparr>)"
    using ok by (simp add: accounted_def held_def tidy_def tokens_def)
  moreover have "accounted good opened servers s \<Longrightarrow> accounted good opened servers (fold (finish_lookup V) ws s)" for ws s
    by (induction ws arbitrary: s) (simp_all add: accounted_finish_lookup V)
  ultimately show ?thesis by (simp add: s')
qed

lemma receive_remote_good:
  "F = E \<Longrightarrow> good e \<Longrightarrow> (True, flow) \<in># opened e \<Longrightarrow> good (fst (snd (receive_remote F flow c e n))) \<and> opened (fst (snd (receive_remote F flow c e n))) = opened e"
proof (induction F flow c e n rule: receive_remote.induct)
  case (1 F flow c e n)
  obtain e1 chunk where recv: "eg_tcp_recv F flow READ_CHUNK e = (e1, chunk)" by fastforce
  have e1: "good e1 \<and> opened e1 = opened e" using tcp_recv [of e flow READ_CHUNK] 1(2-4) recv by simp
  show ?case
  proof (cases "backlog c < CLIENT_BACKLOG \<and> chunk \<noteq> []")
    case True
    then show ?thesis using "1.IH" [OF _ recv [symmetric]] 1(2-4) recv e1 by (subst (1 2) receive_remote.simps) simp
  next
    case False
    then show ?thesis using 1(2-4) recv e1 by (subst (1 2) receive_remote.simps) auto
  qed
qed

lemma accounted_deliver_settled:
  assumes ok: "accounted good opened servers s" and V: "pe_egress V = E"
  shows "accounted good opened servers (deliver_settled V token s)"
proof (cases "connection_of token s")
  case (Some c)
  have "accounted good opened servers (deliver_relaying V token flow c s)" if phase: "cn_phase c = Relaying flow" for flow
  proof -
    have start: "good (sv_egress s)" "(True, flow) \<in># opened (sv_egress s)"
      using ok held_in(1) [OF Some] phase by (auto simp: accounted_def conn_flow_def)
    define e1 where "e1 = fst (snd (receive_remote E flow c (sv_egress s) 0))"
    have e1: "good e1 \<and> opened e1 = opened (sv_egress s)" using receive_remote_good [OF refl start] by (simp add: e1_def)
    define e2 where "e2 = fst (eg_tcp_state E flow e1)"
    have e2: "good e2 \<and> opened e2 = opened (sv_egress s)" using tcp_state [of e1 flow] e1 start by (simp add: e2_def)
    define e3 where "e3 = fst (eg_tcp_send_idle E flow e2)"
    have e3: "good e3 \<and> opened e3 = opened (sv_egress s)" using tcp_send_idle [of e2 flow] e2 start by (simp add: e3_def)
    have base: "accounted good opened servers (s\<lparr>sv_egress := e\<rparr>)" if "good e \<and> opened e = opened (sv_egress s)" for e
      using accounted_egress [OF ok] that by simp
    show ?thesis using base [OF e1] base [OF e3] Some ok e3
      by (auto simp: deliver_relaying_def case_prod_unfold Let_def V e1_def [symmetric] e2_def [symmetric] e3_def [symmetric]
          count_received_def intro!: accounted_unmoved [where c = c] accounted_egress)
  qed
  moreover have "accounted good opened servers (deliver_other token c s)"
    using ok Some by (auto simp: deliver_other_def case_prod_unfold Let_def intro!: accounted_unmoved [where c = c])
  ultimately show ?thesis using Some by (simp add: deliver_settled_def split: Phase.split)
qed (simp add: deliver_settled_def ok)

text \<open>Giving a connection's flow back and putting the connection away without it.\<close>

lemma accounted_release:
  assumes ok: "accounted good opened servers s" and c: "connection_of t s = Some c" and flow: "conn_flow c = {#(True, flow)#}"
    and "conn_flow d = {#}"
  shows "accounted good opened servers (put_connection t d (s\<lparr>sv_egress := eg_tcp_release E flow (sv_egress s)\<rparr>))"
proof -
  have "held (put_connection t d s) + {#(True, flow)#} = held s" using held_put [OF accounted_tidy [OF ok] c, of d] assms(3,4) by simp
  then have "held s - {#(True, flow)#} = held (put_connection t d s)" by (metis add_diff_cancel_right')
  moreover have "tidy servers (put_connection t d s)"
    using assms(4) by (intro tidy_put [OF accounted_tidy [OF ok] c]) (auto simp: conn_flow_def)
  moreover have "good (sv_egress s)" "(True, flow) \<in># opened (sv_egress s)" using ok held_in(1) [OF c] flow by (auto simp: accounted_def)
  moreover have "put_connection t d (s\<lparr>sv_egress := e\<rparr>) = (put_connection t d s)\<lparr>sv_egress := e\<rparr>" for e by (simp add: put_connection_def)
  ultimately show ?thesis using ok tcp_release [of "sv_egress s" flow] by (simp add: accounted_def)
qed

lemma accounted_deliver:
  assumes ok: "accounted good opened servers s" and V: "pe_egress V = E"
  shows "accounted good opened servers (deliver V token s)"
proof (cases "connection_of token s")
  case (Some c)
  have "accounted good opened servers (deliver_connecting V token flow code c s)" if phase: "cn_phase c = Connecting flow code" for flow code
  proof -
    obtain e state where state: "eg_tcp_state E flow (sv_egress s) = (e, state)" by fastforce
    have flow: "conn_flow c = {#(True, flow)#}" using phase by (simp add: conn_flow_def)
    have e: "good e \<and> opened e = opened (sv_egress s)"
      using tcp_state [of "sv_egress s" flow] state ok held_in(1) [OF Some] flow by (simp add: accounted_def)
    have base: "accounted good opened servers (s\<lparr>sv_egress := e\<rparr>)" by (rule accounted_egress [OF ok e])
    have failed: "accounted good opened servers (put_connection token (conn_fail now reply c)
        (client_failed wall ip (count_failed (s\<lparr>sv_egress := eg_tcp_release E flow e\<rparr>))))" for now reply wall ip
    proof -
      have "accounted good opened servers (put_connection token (conn_fail now reply c) (s\<lparr>sv_egress := e\<rparr>
          \<lparr>sv_egress := eg_tcp_release E flow (sv_egress (s\<lparr>sv_egress := e\<rparr>))\<rparr>))"
        using Some flow by (intro accounted_release [OF base]) simp_all
      moreover have "put_connection token d (client_failed wall ip (count_failed s1)) = client_failed wall ip (count_failed (put_connection token d s1))" for d and s1 :: "'e Server"
        by (simp add: put_connection_def client_failed_def count_failed_def)
      ultimately show ?thesis by simp
    qed
    have "accounted good opened servers (put_connection token (connected flow code c) (s\<lparr>sv_egress := e, sv_clients := book\<rparr>))" for book
    proof (rule accounted_put [where c = c])
      show "conn_flow (connected flow code c) = conn_flow c" using flow by (simp add: connected_def conn_flow_def)
    qed (use base Some in \<open>simp_all add: connected_def\<close>)
    then have "accounted good opened servers (deliver_settled V token (fst (proxy_step V token
        (put_connection token (connected flow code c) (s\<lparr>sv_egress := e, sv_clients := book\<rparr>)))))" for book
      using V by (intro accounted_deliver_settled accounted_proxy_step)
    then show ?thesis using base failed state V by (auto simp: deliver_connecting_def Let_def split: TcpState.split)
  qed
  then show ?thesis using Some accounted_deliver_settled [OF ok V] by (simp add: deliver_def split: Phase.split)
qed (simp add: deliver_def ok)

lemma accounted_deliver_datagrams:
  assumes "accounted good opened servers s" and V: "pe_egress V = E"
    and "\<And>n a. (n, a) \<in> set as \<Longrightarrow> (False, as_flow a) \<in># held s" and "deliver_datagrams V as s = Some s'"
  shows "accounted good opened servers s'"
proof -
  have drain: "accounted good opened servers s2 \<and> held s2 = held s1"
    if "accounted good opened servers s1" and "(False, as_flow a) \<in># held s1" and run: "drain_association V a s1 = Some s2" for a s1 s2
  proof -
    let ?P = "\<lambda>V a s s'. pe_egress V = E \<longrightarrow> accounted good opened servers s \<longrightarrow> (False, as_flow a) \<in># held s \<longrightarrow>
      accounted good opened servers s' \<and> held s' = held s"
    have "?P V a s1 s2"
    proof (rule drain_association.raw_induct [where P = ?P, OF _ run])
      fix g :: "'e proxy_env \<Rightarrow> Association \<Rightarrow> 'e Server \<Rightarrow> 'e Server option" and V a s r
      assume IH: "\<And>V a s r. g V a s = Some r \<Longrightarrow> ?P V a s r"
        and eq: "(case eg_udp_recv (pe_egress V) (as_flow a) (sv_egress s) of
          (e, None) \<Rightarrow> Some (s\<lparr>sv_egress := e\<rparr>)
        | (e, Some (source, payload)) \<Rightarrow>
            g V a (case as_client_port a of None \<Rightarrow> s\<lparr>sv_egress := e\<rparr>
              | Some port \<Rightarrow> send_to_client V (as_client_ip a) port source payload (s\<lparr>sv_egress := e\<rparr>))) = Some r"
      show "?P V a s r"
      proof (intro impI)
        assume V: "pe_egress V = E" and ok: "accounted good opened servers s" and flow: "(False, as_flow a) \<in># held s"
        obtain e m where recv: "eg_udp_recv E (as_flow a) (sv_egress s) = (e, m)" by fastforce
        have "good e \<and> opened e = opened (sv_egress s)"
          using udp_recv [of "sv_egress s" "as_flow a"] recv ok flow by (simp add: accounted_def)
        then have base: "accounted good opened servers (s\<lparr>sv_egress := e\<rparr>)" by (rule accounted_egress [OF ok])
        show "accounted good opened servers r \<and> held r = held s"
        proof (cases m)
          case None
          then show ?thesis using eq recv V base by auto
        next
          case (Some d)
          obtain source payload where d: "d = (source, payload)" by fastforce
          let ?s = "case as_client_port a of None \<Rightarrow> s\<lparr>sv_egress := e\<rparr>
            | Some port \<Rightarrow> send_to_client V (as_client_ip a) port source payload (s\<lparr>sv_egress := e\<rparr>)"
          have "accounted good opened servers ?s" "held ?s = held s"
            using base by (auto simp: send_to_client_def Let_def split: option.split list.split)
          moreover have "?P V a ?s r" using eq recv V Some d by (intro IH) simp
          ultimately show ?thesis using V flow by simp
        qed
      qed
    qed
    then show ?thesis using that V by blast
  qed
  show ?thesis using assms(1,3,4)
  proof (induction as arbitrary: s)
    case (Cons p as)
    obtain n a where p: "p = (n, a)" by fastforce
    obtain s1 where one: "drain_association V a s = Some s1" and rest: "deliver_datagrams V as s1 = Some s'"
      using Cons.prems(3) p by (auto split: option.splits)
    have "accounted good opened servers s1 \<and> held s1 = held s"
      using drain [OF Cons.prems(1) _ one] Cons.prems(2) [of n a] p by simp
    then show ?case using Cons.prems(2) by (intro Cons.IH [OF _ _ rest]) auto
  qed simp
qed

lemma accounted_expire:
  assumes "accounted good opened servers s" and V: "pe_egress V = E"
  shows "accounted good opened servers (expire_connections V s)"
proof -
  have one: "accounted good opened servers (expire_connection V t s)" if ok: "accounted good opened servers s" for t s
  proof (cases "connection_of t s")
    case (Some c)
    show ?thesis
    proof (cases "\<exists>flow code. cn_phase c = Connecting flow code")
      case True
      then obtain flow code where phase: "cn_phase c = Connecting flow code" by blast
      have "accounted good opened servers (put_connection t (conn_fail now reply c) (s\<lparr>sv_egress := eg_tcp_release E flow (sv_egress s)\<rparr>))" for now reply
        by (rule accounted_release [OF ok Some]) (simp_all add: phase conn_flow_def)
      moreover have "put_connection t d (count_failed s1) = count_failed (put_connection t d s1)" for d and s1 :: "'e Server"
        by (simp add: put_connection_def count_failed_def)
      ultimately show ?thesis using ok Some V phase by (simp add: expire_connection_def split: option.split)
    next
      case False
      have "cn_deadline c \<noteq> None \<Longrightarrow> conn_flow c = {#}"
        using False tidy_conn [OF accounted_tidy [OF ok] Some] by (auto simp: conn_flow_def split: Phase.splits)
      then show ?thesis using ok Some False
        by (auto simp: expire_connection_def conn_flow_none intro!: accounted_fail [where c = c] accounted_put [where c = c] split: option.split Phase.split)
    qed
  qed (simp add: expire_connection_def ok)
  have "accounted good opened servers s \<Longrightarrow> accounted good opened servers (fold (expire_connection V) ts s)" for ts s
    by (induction ts arbitrary: s) (simp_all add: one)
  then show ?thesis using assms by (simp add: expire_connections_def)
qed

lemma accounted_release_association:
  assumes ok: "accounted good opened servers s" and V: "pe_egress V = E"
  shows "accounted good opened servers (release_association V n s)"
proof (cases "map_of (sv_associations s) n")
  case (Some a)
  have tidy: "tidy servers s" by (rule accounted_tidy [OF ok])
  have "assoc_flows (sv_associations s) = add_mset (False, as_flow a) (assoc_flows (AList.delete n (sv_associations s)))"
    using assoc_flows_delete [OF _ Some] tidy by (simp add: tidy_def)
  then have "held s - {#(False, as_flow a)#} = held (s\<lparr>sv_associations := AList.delete n (sv_associations s)\<rparr>)"
    by (simp add: held_def)
  moreover have "tidy servers (s\<lparr>sv_associations := AList.delete n (sv_associations s)\<rparr>)"
    using tidy by (auto simp: tidy_def tokens_def distinct_delete dest: set_alist_delete)
  moreover have "good (sv_egress s)" "(False, as_flow a) \<in># opened (sv_egress s)"
    using ok held_in(2) [OF map_of_SomeD [OF Some]] by (auto simp: accounted_def)
  ultimately show ?thesis using ok Some V udp_release [of "sv_egress s" "as_flow a"] by (simp add: release_association_def accounted_def)
qed (simp add: release_association_def ok)

lemma accounted_reap_connection:
  assumes ok: "accounted good opened servers s" and V: "pe_egress V = E"
  shows "accounted good opened servers (reap_connection V t s)"
proof (cases "connection_of t s")
  case (Some c)
  have tidy: "tidy servers s" by (rule accounted_tidy [OF ok])
  define s1 where "s1 = s\<lparr>sv_connections := AList.delete t (sv_connections s)\<rparr>"
  have held1: "held s = held s1 + conn_flow c"
    using conns_flows_delete [of "sv_connections s" t c] tidy Some by (simp add: s1_def held_def tidy_def tokens_def connection_of_def ac_simps)
  have "u < sv_next_token s \<and> ((\<exists>flow. cn_phase b = Relaying flow) \<longrightarrow> cn_deadline b = None)"
    if "(u, b) \<in> set (AList.delete t (sv_connections s))" for u b
    using set_alist_delete [OF that] tidy by (auto simp: tidy_def)
  then have tidy1: "tidy servers s1"
    using tidy by (auto simp: s1_def tidy_def tokens_def distinct_delete)
  have drop: "accounted good opened servers s1" if "conn_flow c = {#}"
    using ok tidy1 held1 that by (simp add: accounted_def) (simp add: s1_def)
  have released: "accounted good opened servers (s1\<lparr>sv_egress := eg_tcp_release E flow (sv_egress s1)\<rparr>)" if "conn_flow c = {#(True, flow)#}" for flow
  proof -
    have "good (sv_egress s)" "opened (sv_egress s) = add_mset (True, flow) (held s1)" "sv_egress s1 = sv_egress s"
      using ok held1 that by (simp_all add: accounted_def s1_def)
    then show ?thesis using tcp_release [of "sv_egress s" flow] tidy1 by (simp add: accounted_def)
  qed
  show ?thesis using Some V drop released accounted_release_association [OF drop V]
    by (cases "cn_phase c") (simp_all add: reap_connection_def Let_def conn_flow_def s1_def [symmetric])
qed (simp add: reap_connection_def ok)

lemma accounted_reap:
  assumes "accounted good opened servers s" and V: "pe_egress V = E"
  shows "accounted good opened servers (reap V s)"
proof -
  have "accounted good opened servers s \<Longrightarrow> accounted good opened servers (fold (reap_connection V) ts s)" for ts s
    by (induction ts arbitrary: s) (simp_all add: accounted_reap_connection V)
  moreover have "accounted good opened servers s \<Longrightarrow> accounted good opened servers (fold (release_association V) ns s)" for ns s
    by (induction ns arbitrary: s) (simp_all add: accounted_release_association V)
  ultimately show ?thesis using assms(1) by (simp add: reap_def Let_def)
qed

lemma accounted_drive: "accounted good opened servers s \<Longrightarrow> pe_egress V = E \<Longrightarrow> accounted good opened servers (drive_egress V s)"
  using drive [of "sv_egress s"] accounted_egress [of good opened servers s "fst (eg_drive E (sv_egress s))"]
  by (simp add: drive_egress_def case_prod_unfold Let_def accounted_def)

lemma accounted_turn:
  assumes ok: "accounted good opened servers s" and V: "pe_egress V = E" and run: "turn V s = Some s'"
  shows "accounted good opened servers s'"
proof -
  obtain s1 s2 s4 where one: "advance_all V (tokens s) s = Some s1"
    and two: "finish_lookups V (drive_egress V (receive_client_datagrams V s1)) = Some s2"
    and three: "deliver_datagrams V (sv_associations (fold (deliver V) (tokens s) s2)) (fold (deliver V) (tokens s) s2) = Some s4"
    and s': "s' = reap V (expire_connections V (drive_egress V s4))"
    using run by (auto simp: turn_def Let_def split: option.splits)
  have "accounted good opened servers s \<Longrightarrow> advance_all V ts s = Some s1 \<Longrightarrow> accounted good opened servers s1" for ts s
    by (induction ts arbitrary: s) (auto dest: accounted_advance [OF _ V] split: option.splits)
  from this [OF ok one] have "accounted good opened servers (drive_egress V (receive_client_datagrams V s1))"
    by (intro accounted_drive accounted_receive V)
  then have "accounted good opened servers s2" using accounted_finish_lookups [OF _ V two] by blast
  moreover have "accounted good opened servers s \<Longrightarrow> accounted good opened servers (fold (deliver V) ts s)" for ts s
    by (induction ts arbitrary: s) (simp_all add: accounted_deliver V)
  ultimately have "accounted good opened servers (fold (deliver V) (tokens s) s2)" by blast
  from accounted_deliver_datagrams [OF this V _ three] have "accounted good opened servers s4" using held_in(2) by blast
  then show ?thesis unfolding s' by (intro accounted_reap accounted_expire accounted_drive V)
qed

lemma accounted_accept:
  assumes ok: "accounted good opened servers s"
  shows "accounted good opened servers (accept_connection now wall client local registered s)"
proof -
  have tidy: "tidy servers s" by (rule accounted_tidy [OF ok])
  have next_token: "accounted good opened servers (s\<lparr>sv_next_token := sv_next_token s + 1\<rparr>)"
    using ok by (auto simp: accounted_def tidy_def tokens_def)
  have "accounted good opened servers (put_connection (sv_next_token s) c (s\<lparr>sv_next_token := sv_next_token s + 1, sv_clients := book, sv_totals := totals\<rparr>))"
    if "cn_phase c = Sniff" for c book totals
  proof -
    have fresh: "map_of (sv_connections s) (sv_next_token s) = None" using tidy by (force simp: tidy_def map_of_eq_None_iff)
    have "u < Suc (sv_next_token s) \<and> ((\<exists>flow. cn_phase b = Relaying flow) \<longrightarrow> cn_deadline b = None)"
      if "(u, b) \<in> set (AList.update (sv_next_token s) c (sv_connections s))" for u b
      using set_alist_update [OF that] tidy \<open>cn_phase c = Sniff\<close> by (auto simp: tidy_def)
    then show ?thesis using ok conns_flows_new [OF fresh, of c] that
      by (auto simp: accounted_def held_def tidy_def tokens_def put_connection_def distinct_update conn_flow_none)
  qed
  then show ?thesis using ok next_token by (simp add: accept_connection_def Let_def)
qed

lemma accounted_events:
  assumes V: "pe_egress V = E"
  shows "accounted good opened servers s \<Longrightarrow> accounted good opened servers (fold (on_proxy_event V) evs s)"
proof (induction evs arbitrary: s)
  case (Cons ev evs)
  have "accounted good opened servers (change_connection token f s)"
    if "\<And>c. cn_phase (f c) = cn_phase c \<and> cn_deadline (f c) = cn_deadline c" for token f
    using Cons.prems that by (auto simp: change_connection_def intro!: accounted_unmoved split: option.split)
  then have "accounted good opened servers (on_proxy_event V ev s)"
    using Cons.prems V on_event [of "sv_egress s"] by (cases ev) (simp_all add: accounted_accept accounted_egress accounted_def [of _ _ _ s])
  then show ?case using Cons.IH by simp
qed simp

lemma accounted_run:
  assumes V: "pe_egress V = E"
  shows "accounted good opened servers s \<Longrightarrow> proxy_run V turns s = Some s' \<Longrightarrow> accounted good opened servers s'"
proof (induction turns arbitrary: s)
  case (Cons t turns)
  obtain now wall evs where t: "t = (now, wall, evs)" by (metis prod_cases3)
  let ?W = "V\<lparr>pe_now := now, pe_wall := wall\<rparr>"
  obtain s1 where turn: "turn ?W (fold (on_proxy_event ?W) evs s) = Some s1" and rest: "proxy_run V turns s1 = Some s'"
    using Cons.prems(2) by (auto simp: t Let_def split: option.splits)
  have "accounted good opened servers (fold (on_proxy_event ?W) evs s)" using accounted_events [of ?W s evs] V Cons.prems(1) by simp
  then have "accounted good opened servers s1" using accounted_turn [OF _ _ turn] V by simp
  then show ?case using Cons.IH [OF _ rest] by simp
qed simp

text \<open>After a shutdown nothing is open.\<close>

lemma shutdown_closes:
  assumes ok: "accounted good opened servers s" and V: "pe_egress V = E"
  shows "good (sv_egress (shutdown V s)) \<and> opened (sv_egress (shutdown V s)) = {#}"
proof -
  define s1 where "s1 = s\<lparr>sv_connections := map (\<lambda>(token, c). (token, c\<lparr>cn_finished := True\<rparr>)) (sv_connections s)\<rparr>"
  have flows: "conn_flow (c\<lparr>cn_finished := True\<rparr>) = conn_flow c" for c by (simp add: conn_flow_def)
  have "held s1 = held s" by (simp add: s1_def held_def conns_flows_def comp_def case_prod_unfold flows)
  moreover have "tidy servers s1" using accounted_tidy [OF ok] by (fastforce simp: s1_def tidy_def tokens_def comp_def case_prod_unfold)
  ultimately have acc: "accounted good opened servers s1" using ok by (simp add: accounted_def) (simp add: s1_def)
  define s2 where "s2 = reap V s1"
  have s2: "accounted good opened servers s2" using accounted_reap [OF acc V] by (simp add: s2_def)
  have "sv_connections s2 = []" by (simp add: s2_def s1_def reap_all_finished)
  moreover have "sv_associations s2 = []"
    using reap_no_orphans [of V s1] calculation by (cases "sv_associations s2") (auto simp: s2_def no_orphans_def tokens_def)
  ultimately have held2: "held s2 = resolver_flow (sv_resolver s2)" by (simp add: held_def conns_flows_def assoc_flows_def)
  obtain rv e where release: "release_lookups E (sv_resolver s2, sv_egress s2) = (rv, e)" by fastforce
  have "good e \<and> opened e = {#}"
    using release s2 held2 udp_release [of "sv_egress s2"] by (auto simp: release_lookups_def accounted_def resolver_flow_def split: option.splits)
  then show ?thesis using drive [of e]
    unfolding shutdown_def Let_def s1_def [symmetric] s2_def [symmetric] V release by (simp add: drive_egress_def V case_prod_unfold Let_def)
qed

end

subsection \<open>Any egress, with a record of the calls\<close>

record 'e tracked =
  tr_state :: 'e
  tr_opened :: "(bool \<times> nat) list"
  tr_released :: "(bool \<times> nat) list"
  tr_destinations :: "(bool \<times> addr4) list"
  tr_misused :: bool

definition tracked_new :: "'e \<Rightarrow> 'e tracked" where
  "tracked_new e = \<lparr>tr_state = e, tr_opened = [], tr_released = [], tr_destinations = [], tr_misused = False\<rparr>"

definition open_flows :: "'e tracked \<Rightarrow> (bool \<times> nat) multiset" where
  "open_flows t = mset (tr_opened t) - mset (tr_released t)"

text \<open>A call on a flow that is not open is a misuse.\<close>

definition use_flow :: "bool \<times> nat \<Rightarrow> 'e tracked \<Rightarrow> 'e tracked" where
  "use_flow flow t = t\<lparr>tr_misused := tr_misused t \<or> flow \<notin># open_flows t\<rparr>"

definition opens :: "bool \<Rightarrow> (string + nat) \<Rightarrow> 'e tracked \<Rightarrow> 'e tracked" where
  "opens kind result t = (case result of Inl _ \<Rightarrow> t | Inr flow \<Rightarrow> t\<lparr>tr_opened := (kind, flow) # tr_opened t\<rparr>)"

definition tracked_egress :: "'e Egress \<Rightarrow> 'e tracked Egress" where
  "tracked_egress E =
     \<lparr>eg_tcp_connect = (\<lambda>d t. let (e, r) = eg_tcp_connect E d (tr_state t)
        in (opens True r (t\<lparr>tr_state := e, tr_destinations := (True, d) # tr_destinations t\<rparr>), r)),
      eg_tcp_state = (\<lambda>f t. let (e, r) = eg_tcp_state E f (tr_state t) in ((use_flow (True, f) t)\<lparr>tr_state := e\<rparr>, r)),
      eg_tcp_send = (\<lambda>f bs t. let (e, r) = eg_tcp_send E f bs (tr_state t) in ((use_flow (True, f) t)\<lparr>tr_state := e\<rparr>, r)),
      eg_tcp_recv = (\<lambda>f n t. let (e, r) = eg_tcp_recv E f n (tr_state t) in ((use_flow (True, f) t)\<lparr>tr_state := e\<rparr>, r)),
      eg_tcp_send_idle = (\<lambda>f t. let (e, r) = eg_tcp_send_idle E f (tr_state t) in ((use_flow (True, f) t)\<lparr>tr_state := e\<rparr>, r)),
      eg_tcp_shutdown = (\<lambda>f t. (use_flow (True, f) t)\<lparr>tr_state := eg_tcp_shutdown E f (tr_state t)\<rparr>),
      eg_tcp_release = (\<lambda>f t. (use_flow (True, f) t)\<lparr>tr_state := eg_tcp_release E f (tr_state t), tr_released := (True, f) # tr_released t\<rparr>),
      eg_udp_open = (\<lambda>t. let (e, r) = eg_udp_open E (tr_state t) in (opens False r (t\<lparr>tr_state := e\<rparr>), r)),
      eg_udp_send = (\<lambda>f d bs t. let (e, r) = eg_udp_send E f d bs (tr_state t)
        in ((use_flow (False, f) t)\<lparr>tr_state := e, tr_destinations := (False, d) # tr_destinations t\<rparr>, r)),
      eg_udp_recv = (\<lambda>f t. let (e, r) = eg_udp_recv E f (tr_state t) in ((use_flow (False, f) t)\<lparr>tr_state := e\<rparr>, r)),
      eg_udp_release = (\<lambda>f t. (use_flow (False, f) t)\<lparr>tr_state := eg_udp_release E f (tr_state t), tr_released := (False, f) # tr_released t\<rparr>),
      eg_on_event = (\<lambda>k r w t. t\<lparr>tr_state := eg_on_event E k r w (tr_state t)\<rparr>),
      eg_drive = (\<lambda>t. let (e, r) = eg_drive E (tr_state t) in (t\<lparr>tr_state := e\<rparr>, r)),
      eg_resolvers = (\<lambda>t. eg_resolvers E (tr_state t)),
      eg_dropped_inbound = (\<lambda>t. eg_dropped_inbound E (tr_state t))\<rparr>"

text \<open>A client's destination is one it may reach; the resolver also asks its own servers.\<close>

definition proper_destination :: "ipv4 list \<Rightarrow> bool \<times> addr4 \<Rightarrow> bool" where
  "proper_destination servers = (\<lambda>(tcp, ip, port). destination_allowed ip \<or> \<not> tcp \<and> ip \<in> set servers \<and> port = 53)"

definition proper :: "ipv4 list \<Rightarrow> 'e tracked \<Rightarrow> bool" where
  "proper servers t \<longleftrightarrow> \<not> tr_misused t \<and> mset (tr_released t) \<subseteq># mset (tr_opened t)
     \<and> list_all (proper_destination servers) (tr_destinations t)"

lemma proper_release:
  assumes "mset (tr_released t) \<subseteq># mset (tr_opened t)" and "flow \<in># open_flows t"
  shows "add_mset flow (mset (tr_released t)) \<subseteq># mset (tr_opened t)"
proof -
  have "{#flow#} \<subseteq># mset (tr_opened t) - mset (tr_released t)" using assms(2) by (simp add: open_flows_def)
  then show ?thesis using subset_mset.le_diff_conv2 [OF assms(1), of "{#flow#}"] by simp
qed

lemma open_flows_open:
  assumes "B \<subseteq># A"
  shows "add_mset x A - B = add_mset x (A - B)" and "B \<subseteq># add_mset x A"
  using subset_mset.diff_add_assoc2 [OF assms, of "{#x#}"] subset_mset.add_increasing2 [of "{#x#}" B A] assms by simp_all

interpretation tracked: proxied_egress "tracked_egress E" "proper servers" open_flows servers for E servers
proof
  fix e :: "'a tracked" and flow
  assume good: "proper servers e"
  have parts: "\<not> tr_misused e" "mset (tr_released e) \<subseteq># mset (tr_opened e)" "list_all (proper_destination servers) (tr_destinations e)"
    using good by (simp_all add: proper_def)
  note simps = tracked_egress_def proper_def use_flow_def case_prod_unfold Let_def
  {
    fix ip port
    assume "destination_allowed ip"
    then show "proper servers (fst (eg_tcp_connect (tracked_egress E) (ip, port) e))
      \<and> open_flows (fst (eg_tcp_connect (tracked_egress E) (ip, port) e)) =
          (case snd (eg_tcp_connect (tracked_egress E) (ip, port) e) of Inr flow \<Rightarrow> add_mset (True, flow) (open_flows e) | Inl _ \<Rightarrow> open_flows e)"
      using parts by (simp add: simps opens_def open_flows_def open_flows_open proper_destination_def split: sum.split)
  }
  show "proper servers (fst (eg_udp_open (tracked_egress E) e))
    \<and> open_flows (fst (eg_udp_open (tracked_egress E) e)) =
        (case snd (eg_udp_open (tracked_egress E) e) of Inr flow \<Rightarrow> add_mset (False, flow) (open_flows e) | Inl _ \<Rightarrow> open_flows e)"
    using parts by (simp add: simps opens_def open_flows_def open_flows_open split: sum.split)
  {
    assume flow: "(True, flow) \<in># open_flows e"
    note call = parts flow
    show "proper servers (fst (eg_tcp_state (tracked_egress E) flow e)) \<and> open_flows (fst (eg_tcp_state (tracked_egress E) flow e)) = open_flows e"
      using call by (simp add: simps open_flows_def)
    show "proper servers (fst (eg_tcp_send (tracked_egress E) flow bs e)) \<and> open_flows (fst (eg_tcp_send (tracked_egress E) flow bs e)) = open_flows e" for bs
      using call by (simp add: simps open_flows_def)
    show "proper servers (fst (eg_tcp_recv (tracked_egress E) flow n e)) \<and> open_flows (fst (eg_tcp_recv (tracked_egress E) flow n e)) = open_flows e" for n
      using call by (simp add: simps open_flows_def)
    show "proper servers (fst (eg_tcp_send_idle (tracked_egress E) flow e)) \<and> open_flows (fst (eg_tcp_send_idle (tracked_egress E) flow e)) = open_flows e"
      using call by (simp add: simps open_flows_def)
    show "proper servers (eg_tcp_shutdown (tracked_egress E) flow e) \<and> open_flows (eg_tcp_shutdown (tracked_egress E) flow e) = open_flows e"
      using call by (simp add: simps open_flows_def)
    show "proper servers (eg_tcp_release (tracked_egress E) flow e)
      \<and> open_flows (eg_tcp_release (tracked_egress E) flow e) = open_flows e - {#(True, flow)#}"
      using call proper_release [OF parts(2) flow] by (simp add: simps) (simp add: open_flows_def diff_diff_add)
  }
  {
    assume flow: "(False, flow) \<in># open_flows e"
    note call = parts flow
    show "proper servers (fst (eg_udp_send (tracked_egress E) flow d bs e)) \<and> open_flows (fst (eg_udp_send (tracked_egress E) flow d bs e)) = open_flows e"
      if "destination_allowed (fst d) \<or> fst d \<in> set servers \<and> snd d = 53" for d bs
      using call that by (auto simp: simps open_flows_def proper_destination_def)
    show "proper servers (fst (eg_udp_recv (tracked_egress E) flow e)) \<and> open_flows (fst (eg_udp_recv (tracked_egress E) flow e)) = open_flows e"
      using call by (simp add: simps open_flows_def)
    show "proper servers (eg_udp_release (tracked_egress E) flow e)
      \<and> open_flows (eg_udp_release (tracked_egress E) flow e) = open_flows e - {#(False, flow)#}"
      using call proper_release [OF parts(2) flow] by (simp add: simps) (simp add: open_flows_def diff_diff_add)
  }
  show "proper servers (eg_on_event (tracked_egress E) token readable writable e)
      \<and> open_flows (eg_on_event (tracked_egress E) token readable writable e) = open_flows e" for token readable writable
    using parts by (simp add: simps open_flows_def)
  show "proper servers (fst (eg_drive (tracked_egress E) e)) \<and> open_flows (fst (eg_drive (tracked_egress E) e)) = open_flows e"
    using parts by (simp add: simps open_flows_def)
qed

text \<open>
  C16. What the proxy does with its egress, whichever it is. Through any run of the event loop it connects
  clients, and sends their datagrams, only to destinations they may reach, and its own queries only to the
  resolvers' port 53; it never uses or releases a flow that is not open; and the flows it was given are
  exactly those it released and those a connection, an association or the resolver still holds. So no flow
  leaks, and after the shutdown every flow was released, once.
\<close>

theorem flows_allowed_and_released_once:
  assumes "pe_egress V = tracked_egress E"
    and "proxy_run V turns (server_new (pe_egress V) port (tracked_new e) creds) = Some s"
  shows "let t = sv_egress s; ended = sv_egress (shutdown V s)
    in \<not> tr_misused t \<and> list_all (proper_destination (eg_resolvers E e)) (tr_destinations t)
       \<and> mset (tr_opened t) = mset (tr_released t) + held s
       \<and> \<not> tr_misused ended \<and> mset (tr_opened ended) = mset (tr_released ended)"
proof -
  let ?servers = "eg_resolvers E e"
  have "accounted (proper ?servers) open_flows ?servers (server_new (pe_egress V) port (tracked_new e) creds)"
    using assms(1) by (simp add: accounted_def proper_def tracked_new_def server_new_def held_def conns_flows_def assoc_flows_def
        resolver_flow_def resolver_new_def open_flows_def tidy_def tokens_def tracked_egress_def)
  from tracked.accounted_run [OF assms(1) this assms(2)]
  have acc: "accounted (proper ?servers) open_flows ?servers s" .
  have closed: "proper ?servers (sv_egress (shutdown V s))" "open_flows (sv_egress (shutdown V s)) = {#}"
    using tracked.shutdown_closes [OF acc assms(1)] by simp_all
  have split: "mset (tr_opened t) = mset (tr_released t) + open_flows t" if "proper ?servers t" for t :: "'a tracked"
    using that by (simp add: proper_def open_flows_def)
  show ?thesis using acc closed split [of "sv_egress s"] split [OF closed(1)] by (simp add: Let_def accounted_def proper_def)
qed

text \<open>A client that connects to 8.8.8.8, over an egress whose flow 3 is still connecting.\<close>

definition line_env :: "nat tracked proxy_env" where
  "line_env = \<lparr>pe_egress = tracked_egress (quiet_egress\<lparr>eg_tcp_connect := (\<lambda>_ e. (e, Inr 3)), eg_tcp_state := (\<lambda>_ e. (e, Tcp_Connecting))\<rparr>),
     pe_base64 = no_base64, pe_query_id = of_nat, pe_now = 0, pe_wall = 0\<rparr>"

definition connect_turns :: "(instant \<times> nat \<times> proxy_event list) list" where
  "connect_turns = [(0, 0, [Accepted ([192, 168, 1, 40], 5000) ([192, 168, 1, 2], 1080) True,
      Client_Reads 16 [Arrived [5, 1, 0, 5, 1, 0, 1, 8, 8, 8, 8, 0, 80]]])]"

lemma connect_parses:
  "parse_greeting [5, 1, 0, 5, 1, 0, 1, 8, 8, 8, 8, 0, 80] = Done [0] 3"
  "parse_request [5, 1, 0, 1, 8, 8, 8, 8, 0, 80] = Done \<lparr>rq_command = 1, rq_target = Ip [8, 8, 8, 8] 80\<rparr> 10"
  "destination_allowed [8, 8, 8, 8]"
  by code_simp+

lemma connect_run:
  "map_option (\<lambda>s. (map (cn_phase \<circ> snd) (sv_connections s), tr_opened (sv_egress s), tr_released (sv_egress s)))
     (proxy_run line_env connect_turns (server_new (pe_egress line_env) 1080 (tracked_new 0) None))
    = Some ([Connecting 3 Reply_Socks], [(True, 3)], [])"
  by (simp add: connect_turns_def line_env_def tracked_egress_def tracked_new_def opens_def use_flow_def
      quiet_egress_def server_new_def accept_connection_def change_connection_def put_connection_def
      connection_of_def client_allowed_def is_private_def active_tcp_def client_entry_def MAX_CONNECTIONS_def
      MAX_CONNECTIONS_PER_CLIENT_def FIRST_CONNECTION_def tokens_def paused_def read_limit_def read_client.simps
      READ_CHUNK_def wire_defs is_ascii_alphabetic_def Let_def turn_def advance_def advance_loop.simps proxy_step_def step_connection_def
      step_sniff_def step_greeting_def connect_parses greeting_method_def conn_send_def step_request_def begin_connect_def open_flow_def
      receive_client_datagrams_def drive_egress_def finish_lookups_def poll_lookups_def resolver_new_def deliver_def deliver_connecting_def
      expire_connections_def expire_connection_def CONNECT_TIMEOUT_def reap_def secs_def)

theorem flows_allowed_and_released_once_witness:
  "\<exists>s. proxy_run line_env connect_turns (server_new (pe_egress line_env) 1080 (tracked_new 0) None) = Some s
    \<and> tr_opened (sv_egress s) = [(True, 3)] \<and> mset (tr_opened (sv_egress s)) = mset (tr_released (sv_egress s)) + held s
    \<and> mset (tr_opened (sv_egress (shutdown line_env s))) = mset (tr_released (sv_egress (shutdown line_env s)))"
proof -
  obtain s where s: "proxy_run line_env connect_turns (server_new (pe_egress line_env) 1080 (tracked_new 0) None) = Some s"
      "tr_opened (sv_egress s) = [(True, 3)]"
    using connect_run by auto
  have "pe_egress line_env = tracked_egress (quiet_egress\<lparr>eg_tcp_connect := (\<lambda>_ e. (e, Inr 3)), eg_tcp_state := (\<lambda>_ e. (e, Tcp_Connecting))\<rparr>)"
    by (simp add: line_env_def)
  from flows_allowed_and_released_once [OF this s(1)] s show ?thesis by (auto simp: Let_def)
qed

end
