(* ===== verification/Split_Sockets.thy ===== *)
theory Split_Sockets
  imports Socks_Wire Dns "HOL-Library.AList"
begin

section \<open>Who owns a socket (\<^verbatim>\<open>udp_classifier.rs\<close>, \<^verbatim>\<open>proxy_identity.rs\<close>, \<^verbatim>\<open>split_capture.rs\<close>)\<close>

text \<open>
  A split capture selects packets by the program that sent them, which it finds in the socket
  inventories of Windows. The inventories and the path of a process are read from the system; here they
  are the record \<open>Windows\<close>, with the instant of the reading, an argument of every definition that reads
  them. The definitions are the caches around those readings: the classifier of first datagrams, the
  identity of a proxy on this machine and the verdict on the owner of a name lookup. The lemma
  says what the classifier can hide: an owner that is in the inventory goes unnoticed only while a verdict
  on its socket is younger than two seconds.
\<close>

record UdpRow =
  u_local_addr :: u32
  u_local_port :: u32
  u_pid :: u32

record TcpRow =
  t_local_addr :: u32
  t_local_port :: u32
  t_remote_addr :: u32
  t_remote_port :: u32
  t_pid :: u32

record Windows =
  udp_rows :: "UdpRow list option"
  tcp_rows :: "TcpRow list option"
  tcp_listeners :: "TcpRow list option"
  process_path :: "u32 \<Rightarrow> string option"
  now_is :: instant

subsection \<open>Ports, addresses and paths\<close>

text \<open>
  \<^verbatim>\<open>port_from_dword\<close>: the port is in network order in the low half of the word; the machine is
  little-endian. \<open>ne_addr\<close> is \<^verbatim>\<open>Ipv4Addr::from(dword.to_ne_bytes())\<close>.
\<close>

definition port_from_dword :: "u32 \<Rightarrow> u16" where
  "port_from_dword value = of_be16 (rev (be16 (ucast value)))"

definition ne_addr :: "u32 \<Rightarrow> ipv4" where
  "ne_addr w = rev (be32 w)"

definition is_unspecified :: "ipv4 \<Rightarrow> bool" where
  "is_unspecified a \<longleftrightarrow> a = [0, 0, 0, 0]"

definition folder_contains :: "string \<Rightarrow> string \<Rightarrow> bool" where
  "folder_contains folder path \<longleftrightarrow>
     path = folder \<or> (case strip_prefix folder path of None \<Rightarrow> False | Some rest \<Rightarrow> take 1 rest = [CHR 0x5C])"

definition path_matches :: "string \<Rightarrow> string list \<Rightarrow> string list \<Rightarrow> bool" where
  "path_matches path applications folders \<longleftrightarrow>
     path \<in> set applications \<or> (\<exists>folder \<in> set folders. folder_contains folder path)"

definition trim_end_matches :: "char \<Rightarrow> string \<Rightarrow> string" where
  "trim_end_matches c s = rev (dropWhile (\<lambda>x. x = c) (rev s))"

text \<open>The environment variable \<^verbatim>\<open>SystemRoot\<close>, when it is set, is the argument \<open>sysroot\<close>.\<close>

definition system_root :: "string option \<Rightarrow> string" where
  "system_root sysroot = trim_end_matches (CHR 0x5C) (case sysroot of None \<Rightarrow> ''C:'' @ CHR 0x5C # ''Windows'' | Some r \<Rightarrow> r)"

definition carries_certificate_check :: "string option \<Rightarrow> string \<Rightarrow> u8 \<Rightarrow> u16 \<Rightarrow> bool" where
  "carries_certificate_check sysroot path protocol remote_port \<longleftrightarrow>
     protocol = 6 \<and> remote_port = 80 \<and> eq_ignore_case path (system_root sysroot @ CHR 0x5C # ''System32'' @ CHR 0x5C # ''lsass.exe'')"

definition is_application_path :: "string option \<Rightarrow> string \<Rightarrow> bool" where
  "is_application_path sysroot path \<longleftrightarrow> strip_prefix (map ascii_lower (system_root sysroot) @ [CHR 0x5C]) path = None"

text \<open>
  \<^verbatim>\<open>Path::file_name\<close>: the last component, unless it is a parent step or belongs to the prefix, a drive
  or the two parts of a network share.
\<close>

definition is_separator :: "char \<Rightarrow> bool" where
  "is_separator c \<longleftrightarrow> c = CHR 0x5C \<or> c = CHR ''/''"

definition path_components :: "string \<Rightarrow> string list" where
  "path_components path =
     filter (\<lambda>p. p \<noteq> [] \<and> p \<noteq> ''.'')
       (split_on (CHR 0x5C) (map (\<lambda>c. if is_separator c then CHR 0x5C else c) path))"

definition after_prefix :: "string \<Rightarrow> string list" where
  "after_prefix path =
     (if 2 \<le> length path \<and> is_separator (path ! 0) \<and> is_separator (path ! 1) then drop 2 (path_components path)
      else if 2 \<le> length path \<and> path ! 1 = CHR '':'' then path_components (drop 2 path)
      else path_components path)"

definition process_name :: "string \<Rightarrow> string" where
  "process_name path =
     (let names = after_prefix path
      in if names = [] \<or> last names = ''..'' then path else last names)"

subsection \<open>Sockets that exist\<close>

record ExistingSocket =
  es_process :: u32
  es_protocol :: u8
  es_local_port :: u16
  es_remote_port :: u16

definition existing_ipv4_udp_sockets :: "Windows \<Rightarrow> ExistingSocket list option" where
  "existing_ipv4_udp_sockets w =
     map_option
       (\<lambda>rows. map (\<lambda>row. \<lparr>es_process = u_pid row, es_protocol = 17,
                           es_local_port = port_from_dword (u_local_port row), es_remote_port = 0\<rparr>)
                 (filter (\<lambda>row. port_from_dword (u_local_port row) \<noteq> 0) rows))
       (udp_rows w)"

definition existing_ipv4_process_sockets :: "Windows \<Rightarrow> ExistingSocket set option" where
  "existing_ipv4_process_sockets w =
     (case existing_ipv4_udp_sockets w of
        None \<Rightarrow> None
      | Some sockets \<Rightarrow>
          map_option
            (\<lambda>rows. set sockets \<union>
               set (map (\<lambda>row. \<lparr>es_process = t_pid row, es_protocol = 6,
                                es_local_port = port_from_dword (t_local_port row),
                                es_remote_port = port_from_dword (t_remote_port row)\<rparr>)
                      (filter (\<lambda>row. t_pid row \<noteq> 0 \<and> port_from_dword (t_local_port row) \<noteq> 0) rows)))
            (tcp_rows w))"

text \<open>The addresses and ports of a packet; \<open>ipv4_fields\<close> reads them.\<close>

record Ipv4Fields =
  f_source :: ipv4
  f_destination :: ipv4
  f_protocol :: u8
  f_source_port :: u16
  f_destination_port :: u16

definition tcp_socket_process ::
  "string option \<Rightarrow> Windows \<Rightarrow> Ipv4Fields \<Rightarrow> string list \<Rightarrow> string list \<Rightarrow> (u32 \<times> string) option" where
  "tcp_socket_process sysroot w f applications folders =
     (case tcp_rows w of
        None \<Rightarrow> None
      | Some rows \<Rightarrow>
          (case List.map_filter
                  (\<lambda>row. if port_from_dword (t_local_port row) \<noteq> f_source_port f
                            \<or> port_from_dword (t_remote_port row) \<noteq> f_destination_port f
                            \<or> ne_addr (t_remote_addr row) \<noteq> f_destination f then None
                         else case process_path w (t_pid row) of
                                None \<Rightarrow> None
                              | Some path \<Rightarrow>
                                  if path_matches path applications folders
                                     \<or> carries_certificate_check sysroot path 6 (f_destination_port f)
                                  then Some (t_pid row, path) else None) rows of
             [] \<Rightarrow> None
           | found # _ \<Rightarrow> Some found))"

definition dns_socket_process :: "Windows \<Rightarrow> Ipv4Fields \<Rightarrow> (u32 \<times> string) option" where
  "dns_socket_process w f =
     (case (if f_protocol f = 17
            then Option.bind (udp_rows w)
                   (\<lambda>rows. map_option u_pid
                      (find (\<lambda>row. port_from_dword (u_local_port row) = f_source_port f
                                   \<and> (is_unspecified (ne_addr (u_local_addr row))
                                      \<or> ne_addr (u_local_addr row) = f_source f)) rows))
            else Option.bind (tcp_rows w)
                   (\<lambda>rows. map_option t_pid
                      (find (\<lambda>row. port_from_dword (t_local_port row) = f_source_port f
                                   \<and> ne_addr (t_local_addr row) = f_source f
                                   \<and> port_from_dword (t_remote_port row) = f_destination_port f) rows))) of
        None \<Rightarrow> None
      | Some pid \<Rightarrow> map_option (Pair pid) (process_path w pid))"

definition udp_owner :: "Windows \<Rightarrow> u16 \<Rightarrow> u32 option" where
  "udp_owner w port =
     Option.bind (udp_rows w) (\<lambda>rows. map_option u_pid (find (\<lambda>row. port_from_dword (u_local_port row) = port) rows))"

definition listener_owner :: "Windows \<Rightarrow> ipv4 \<Rightarrow> u16 \<Rightarrow> u32 option" where
  "listener_owner w address port =
     Option.bind (tcp_listeners w)
       (\<lambda>rows. map_option t_pid
          (find (\<lambda>row. (is_unspecified (ne_addr (t_local_addr row)) \<or> ne_addr (t_local_addr row) = address)
                       \<and> port_from_dword (t_local_port row) = port) rows))"

subsection \<open>The first datagrams of a socket (\<^verbatim>\<open>udp_classifier.rs\<close>)\<close>

definition BYPASS_TTL :: duration where "BYPASS_TTL = secs 2"

type_synonym UdpClassifier = "((ipv4 \<times> u16) \<times> instant) list"

definition rows_of_socket :: "ipv4 \<Rightarrow> u16 \<Rightarrow> UdpRow list \<Rightarrow> UdpRow list" where
  "rows_of_socket source port rows =
     filter (\<lambda>row. port_from_dword (u_local_port row) = port
                   \<and> (is_unspecified (ne_addr (u_local_addr row)) \<or> ne_addr (u_local_addr row) = source)) rows"

definition selected_owner ::
  "Windows \<Rightarrow> ipv4 \<Rightarrow> u16 \<Rightarrow> (u32 \<Rightarrow> string option) \<Rightarrow> UdpClassifier \<Rightarrow> UdpClassifier \<times> (u32 \<times> string) option" where
  "selected_owner w source port selected_path bypassed =
     (let fresh = (\<lambda>seen. duration_since (now_is w) seen < BYPASS_TTL)
      in if (case map_of bypassed (source, port) of None \<Rightarrow> False | Some seen \<Rightarrow> fresh seen) then (bypassed, None)
         else case udp_rows w of
                None \<Rightarrow> (bypassed, None)
              | Some rows \<Rightarrow>
                  let found = rows_of_socket source port rows
                  in case List.map_filter (\<lambda>row. map_option (Pair (u_pid row)) (selected_path (u_pid row))) found of
                       owner # _ \<Rightarrow> (bypassed, Some owner)
                     | [] \<Rightarrow>
                         if found = [] then (bypassed, None)
                         else (AList.update (source, port) (now_is w) (filter (\<lambda>(_, seen). fresh seen) bypassed), None))"

definition socket_changed :: "u16 \<Rightarrow> UdpClassifier \<Rightarrow> UdpClassifier" where
  "socket_changed port bypassed = filter (\<lambda>((_, held), _). held \<noteq> port) bypassed"

lemma owner_missed:
  assumes "udp_rows w = Some rows" "row \<in> set (rows_of_socket source port rows)" "selected_path (u_pid row) \<noteq> None"
    and "snd (selected_owner w source port selected_path bypassed) = None"
  obtains seen where "map_of bypassed (source, port) = Some seen" "duration_since (now_is w) seen < BYPASS_TTL"
proof -
  let ?found = "List.map_filter (\<lambda>row. map_option (Pair (u_pid row)) (selected_path (u_pid row))) (rows_of_socket source port rows)"
  have "?found \<noteq> []" using assms(2,3) by (auto simp: map_filter_def filter_empty_conv)
  then show thesis using assms(1,4) that
    by (cases ?found) (auto simp: selected_owner_def Let_def split: option.splits if_splits)
qed

subsection \<open>The proxy's own sockets (\<^verbatim>\<open>proxy_identity.rs\<close>)\<close>

definition OWNER_TTL :: duration where "OWNER_TTL = secs 2"
definition PROCESS_TTL :: duration where "PROCESS_TTL = secs 5"

record ProxyIdentity =
  px_port :: u16
  px_address :: ipv4
  px_process :: "u32 option \<times> instant option"
  px_udp_owners :: "(u16 \<times> (bool \<times> instant)) list"
  px_tcp_flows :: "((ipv4 \<times> u16 \<times> ipv4 \<times> u16) \<times> (bool \<times> instant)) list"

text \<open>
  \<^verbatim>\<open>interface_index_for_address\<close> asks the system for the interface that holds an address: an argument.
\<close>

definition for_endpoint :: "(ipv4 \<Rightarrow> bool) \<Rightarrow> SocketAddr \<Rightarrow> ProxyIdentity option" where
  "for_endpoint has_interface endpoint =
     (case endpoint of
        SocketAddrV6 _ _ \<Rightarrow> None
      | SocketAddrV4 address port \<Rightarrow>
          if is_loopback address \<or> has_interface address
          then Some \<lparr>px_port = port, px_address = address, px_process = (None, None),
                     px_udp_owners = [], px_tcp_flows = []\<rparr>
          else None)"

definition proxy_process_id :: "Windows \<Rightarrow> ProxyIdentity \<Rightarrow> ProxyIdentity \<times> u32 option" where
  "proxy_process_id w px =
     (if (case snd (px_process px) of None \<Rightarrow> True | Some seen \<Rightarrow> duration_since (now_is w) seen \<ge> PROCESS_TTL)
      then (let found = listener_owner w (px_address px) (px_port px)
            in (px\<lparr>px_process := (found, Some (now_is w))\<rparr>, found))
      else (px, fst (px_process px)))"

definition owns_udp_port :: "Windows \<Rightarrow> u16 \<Rightarrow> ProxyIdentity \<Rightarrow> ProxyIdentity \<times> bool" where
  "owns_udp_port w local_port px =
     (let fresh = (\<lambda>seen. duration_since (now_is w) seen < OWNER_TTL);
          look = (let (px, proxy) = proxy_process_id w px;
                      owned = proxy \<noteq> None \<and> udp_owner w local_port = proxy
                  in (px\<lparr>px_udp_owners := AList.update local_port (owned, now_is w)
                                            (filter (\<lambda>(_, _, seen). fresh seen) (px_udp_owners px))\<rparr>, owned))
      in case map_of (px_udp_owners px) local_port of
           Some (owned, seen) \<Rightarrow> if fresh seen then (px, owned) else look
         | None \<Rightarrow> look)"

definition tcp_owner :: "Windows \<Rightarrow> ipv4 \<times> u16 \<times> ipv4 \<times> u16 \<Rightarrow> u32 option" where
  "tcp_owner w k =
     (case k of (source, source_port, destination, destination_port) \<Rightarrow>
        Option.bind (tcp_rows w)
          (\<lambda>rows. map_option t_pid
             (find (\<lambda>row. ne_addr (t_local_addr row) = source
                          \<and> port_from_dword (t_local_port row) = source_port
                          \<and> ne_addr (t_remote_addr row) = destination
                          \<and> port_from_dword (t_remote_port row) = destination_port) rows)))"

definition owns_tcp_flow :: "Windows \<Rightarrow> ipv4 \<times> u16 \<times> ipv4 \<times> u16 \<Rightarrow> ProxyIdentity \<Rightarrow> ProxyIdentity \<times> bool" where
  "owns_tcp_flow w k px =
     (let fresh = (\<lambda>seen. duration_since (now_is w) seen < OWNER_TTL);
          look = (let (px, proxy) = proxy_process_id w px;
                      owned = proxy \<noteq> None \<and> tcp_owner w k = proxy;
                      flows = (if length (px_tcp_flows px) \<ge> 4096
                               then filter (\<lambda>(_, _, seen). fresh seen) (px_tcp_flows px) else px_tcp_flows px);
                      flows = (if length flows < 4096 then AList.update k (owned, now_is w) flows else flows)
                  in (px\<lparr>px_tcp_flows := flows\<rparr>, owned))
      in case map_of (px_tcp_flows px) k of
           Some (owned, seen) \<Rightarrow> if fresh seen then (px, owned) else look
         | None \<Rightarrow> look)"

subsection \<open>The owner of a name lookup\<close>

definition LOOKUP_PORT_TTL :: duration where "LOOKUP_PORT_TTL = secs 2"
definition LOOKUP_PROCESS_TTL :: duration where "LOOKUP_PROCESS_TTL = secs 60"

record LookupOwners =
  lo_ports :: "((u8 \<times> u16) \<times> (bool \<times> instant)) list"
  lo_processes :: "(u32 \<times> (bool \<times> instant)) list"

definition lookup_owner_process :: "Windows \<Rightarrow> u8 \<Rightarrow> u16 \<Rightarrow> u32 option" where
  "lookup_owner_process w protocol port =
     (if protocol = 17 then udp_owner w port
      else Option.bind (tcp_rows w)
             (\<lambda>rows. map_option t_pid (find (\<lambda>row. port_from_dword (t_local_port row) = port) rows)))"

definition process_verdict :: "string option \<Rightarrow> Windows \<Rightarrow> u32 \<Rightarrow> LookupOwners \<Rightarrow> LookupOwners \<times> bool" where
  "process_verdict sysroot w pid lo =
     (let look = (let verdict = (case process_path w pid of None \<Rightarrow> False | Some path \<Rightarrow> is_application_path sysroot path)
                  in (lo\<lparr>lo_processes := AList.update pid (verdict, now_is w) (lo_processes lo)\<rparr>, verdict))
      in case map_of (lo_processes lo) pid of
           Some (verdict, seen) \<Rightarrow>
             if duration_since (now_is w) seen < LOOKUP_PROCESS_TTL then (lo, verdict) else look
         | None \<Rightarrow> look)"

definition lookup_is_from_an_application ::
  "string option \<Rightarrow> Windows \<Rightarrow> u8 \<Rightarrow> u16 \<Rightarrow> LookupOwners \<Rightarrow> LookupOwners \<times> bool" where
  "lookup_is_from_an_application sysroot w protocol port lo =
     (let fresh_port = (\<lambda>seen. duration_since (now_is w) seen < LOOKUP_PORT_TTL);
          look = (let (lo, verdict) = (case lookup_owner_process w protocol port of
                                         None \<Rightarrow> (lo, False)
                                       | Some pid \<Rightarrow> process_verdict sysroot w pid lo);
                      ports = filter (\<lambda>(_, _, seen). fresh_port seen) (lo_ports lo);
                      processes = filter (\<lambda>(_, _, seen). duration_since (now_is w) seen < LOOKUP_PROCESS_TTL)
                                    (lo_processes lo)
                  in (lo\<lparr>lo_ports := AList.update (protocol, port) (verdict, now_is w) ports,
                         lo_processes := processes\<rparr>, verdict))
      in case map_of (lo_ports lo) (protocol, port) of
           Some (verdict, seen) \<Rightarrow> if fresh_port seen then (lo, verdict) else look
         | None \<Rightarrow> look)"

end
