(* ===== verification/Split_Ranges.thy ===== *)
theory Split_Ranges
  imports Prelude "HOL-Library.AList"
begin

section \<open>Destination ranges of a split capture (\<^verbatim>\<open>layer_destinations\<close> of \<^verbatim>\<open>engine/src/split_capture.rs\<close>)\<close>

text \<open>
  The destination rules of a split capture are ranges of addresses, each with the node that carries it.
  They overlap as the user wrote them. \<open>layer_destinations\<close> lays the narrower over the wider ones in an
  ordered map and merges neighbours; \<open>destination_node\<close> is the binary search the capture loop makes in
  the result. The lemmas show that the search answers with the node of the narrowest range that holds
  the address, for every address and every set of ranges.

  A \<^verbatim>\<open>BTreeMap\<close> is an association list in the order of its keys. Addresses are 32-bit words: the bounds
  \<open>first - 1\<close> and \<open>last + 1\<close> are computed where they cannot wrap.
\<close>

type_synonym drange = "u32 \<times> u32 \<times> u8"
type_synonym layer = "u32 \<times> u32 \<times> u8"

subsection \<open>An ordered map\<close>

fun btree_insert :: "'k :: linorder \<Rightarrow> 'v \<Rightarrow> ('k \<times> 'v) list \<Rightarrow> ('k \<times> 'v) list" where
  "btree_insert k v [] = [(k, v)]"
| "btree_insert k v ((k', v') # kvs) =
     (if k < k' then (k, v) # (k', v') # kvs
      else if k = k' then (k, v) # kvs
      else (k', v') # btree_insert k v kvs)"

definition btree_remove :: "'k \<Rightarrow> ('k \<times> 'v) list \<Rightarrow> ('k \<times> 'v) list" where
  "btree_remove k kvs = filter (\<lambda>(k', _). k' \<noteq> k) kvs"

definition btree_ok :: "('k :: linorder \<times> 'v) list \<Rightarrow> bool" where
  "btree_ok kvs \<longleftrightarrow> sorted_wrt (<) (map fst kvs)"

lemma set_btree_insert:
  "btree_ok kvs \<Longrightarrow> set (btree_insert k v kvs) = insert (k, v) {x \<in> set kvs. fst x \<noteq> k}"
  by (induction k v kvs rule: btree_insert.induct) (auto simp: btree_ok_def)

lemma btree_ok_insert: "btree_ok kvs \<Longrightarrow> btree_ok (btree_insert k v kvs)"
proof (induction k v kvs rule: btree_insert.induct)
  case (2 k v k' v' kvs)
  then have "btree_ok kvs" by (simp add: btree_ok_def)
  then show ?case using 2 set_btree_insert [of kvs k v] by (auto simp: btree_ok_def)
qed (simp add: btree_ok_def)

lemma set_btree_remove: "set (btree_remove k kvs) = {x \<in> set kvs. fst x \<noteq> k}"
  by (auto simp: btree_remove_def)

lemma btree_ok_filter: "btree_ok kvs \<Longrightarrow> btree_ok (filter P kvs)"
  by (induction kvs) (auto simp: btree_ok_def)

lemma btree_ok_remove: "btree_ok kvs \<Longrightarrow> btree_ok (btree_remove k kvs)"
  by (simp add: btree_remove_def btree_ok_filter)

lemma btree_key_unique: "btree_ok kvs \<Longrightarrow> (k, v) \<in> set kvs \<Longrightarrow> (k, v') \<in> set kvs \<Longrightarrow> v = v'"
  by (auto simp: btree_ok_def strict_sorted_iff eq_key_imp_eq_value)

subsection \<open>The code\<close>

text \<open>The widths sort descending, and the sort is stable: of two ranges of one width the later is laid last.\<close>

definition by_width :: "drange list \<Rightarrow> drange list" where
  "by_width ranges = sort_key (\<lambda>(first, last_one, _). - uint (last_one - first)) ranges"

definition covered_layers :: "u32 \<Rightarrow> u32 \<Rightarrow> layer list \<Rightarrow> layer list" where
  "covered_layers first last_one layered =
     takeWhile (\<lambda>(_, end, _). end \<ge> first) (rev (filter (\<lambda>(start, _). start \<le> last_one) layered))"

definition cut_layer :: "u32 \<Rightarrow> u32 \<Rightarrow> layer \<Rightarrow> layer list \<Rightarrow> layer list" where
  "cut_layer first last_one c layered =
     (case c of (start, end, held) \<Rightarrow>
        let layered = btree_remove start layered;
            layered = (if start < first then btree_insert start (first - 1, held) layered else layered)
        in if end > last_one then btree_insert (last_one + 1) (end, held) layered else layered)"

definition lay_range :: "layer list \<Rightarrow> drange \<Rightarrow> layer list" where
  "lay_range layered r =
     (case r of (first, last_one, node) \<Rightarrow>
        btree_insert first (last_one, node)
          (fold (cut_layer first last_one) (covered_layers first last_one layered) layered))"

definition saturating_add1 :: "u32 \<Rightarrow> u32" where
  "saturating_add1 w = (if w = - 1 then w else w + 1)"

text \<open>The merge loop, on the reversed result: its head is \<^verbatim>\<open>merged.last_mut()\<close>.\<close>

fun merge_layers :: "drange list \<Rightarrow> layer list \<Rightarrow> drange list" where
  "merge_layers merged [] = rev merged"
| "merge_layers merged ((first, last_one, node) # layers) =
     (case merged of
        (pfirst, plast, pnode) # older \<Rightarrow>
          if pnode = node \<and> first \<le> saturating_add1 plast
          then merge_layers ((pfirst, max plast last_one, pnode) # older) layers
          else merge_layers ((first, last_one, node) # merged) layers
      | [] \<Rightarrow> merge_layers [(first, last_one, node)] layers)"

definition layer_destinations :: "drange list \<Rightarrow> drange list" where
  "layer_destinations ranges = merge_layers [] (foldl lay_range [] (by_width ranges))"

definition destination_node :: "drange list \<Rightarrow> u32 \<Rightarrow> u8 option" where
  "destination_node destinations destination =
     (let index = length (takeWhile (\<lambda>(first, _, _). first \<le> destination) destinations)
      in if index = 0 then None
         else case destinations ! (index - 1) of
                (_, last_one, node) \<Rightarrow> if destination \<le> last_one then Some node else None)"

subsection \<open>What a layering means\<close>

definition in_layer :: "u32 \<Rightarrow> layer \<Rightarrow> bool" where
  "in_layer a r \<longleftrightarrow> fst r \<le> a \<and> a \<le> fst (snd r)"

definition carries :: "layer set \<Rightarrow> u32 \<Rightarrow> u8 \<Rightarrow> bool" where
  "carries L a n \<longleftrightarrow> (\<exists>r \<in> L. in_layer a r \<and> snd (snd r) = n)"

definition disjoint_layers :: "layer set \<Rightarrow> bool" where
  "disjoint_layers L \<longleftrightarrow>
     (\<forall>r \<in> L. fst r \<le> fst (snd r)) \<and> (\<forall>r \<in> L. \<forall>s \<in> L. r \<noteq> s \<longrightarrow> fst (snd r) < fst s \<or> fst (snd s) < fst r)"

definition overlaps :: "u32 \<Rightarrow> u32 \<Rightarrow> layer \<Rightarrow> bool" where
  "overlaps first last_one r \<longleftrightarrow> fst r \<le> last_one \<and> first \<le> fst (snd r)"

definition remains :: "u32 \<Rightarrow> u32 \<Rightarrow> layer \<Rightarrow> layer set" where
  "remains first last_one r =
     (if fst r < first then {(fst r, first - 1, snd (snd r))} else {})
     \<union> (if last_one < fst (snd r) then {(last_one + 1, snd r)} else {})"

text \<open>The two computed bounds do not wrap where the code computes them.\<close>

lemma below_pred_iff: "(s :: u32) < f \<Longrightarrow> a \<le> f - 1 \<longleftrightarrow> a < f"
  by unat_arith

lemma above_succ_iff: "(l :: u32) < e \<Longrightarrow> l + 1 \<le> a \<longleftrightarrow> l < a"
  by unat_arith

lemma pred_less_iff: "(s :: u32) < f \<Longrightarrow> f - 1 < a \<longleftrightarrow> f \<le> a"
  by unat_arith

lemma less_succ_iff: "(l :: u32) < e \<Longrightarrow> a < l + 1 \<longleftrightarrow> a \<le> l"
  by unat_arith

lemma pred_le: "(s :: u32) < f \<Longrightarrow> f \<le> b \<Longrightarrow> f - 1 \<le> b"
  by unat_arith

lemma le_succ: "(l :: u32) < e \<Longrightarrow> a \<le> l \<Longrightarrow> a \<le> l + 1"
  by unat_arith

lemma succ_saturating: "a < b \<Longrightarrow> b \<le> saturating_add1 a \<Longrightarrow> x < b \<longleftrightarrow> x \<le> a"
  for a b x :: u32
  unfolding saturating_add1_def by (auto split: if_splits) (unat_arith+)

subsection \<open>Laying one range\<close>

lemma takeWhile_antitone: "sorted_wrt (\<lambda>x y. P y \<longrightarrow> P x) xs \<Longrightarrow> takeWhile P xs = filter P xs"
  by (induction xs) (auto simp: filter_empty_conv)

lemma disjoint_layersD:
  assumes "disjoint_layers L" "r \<in> L"
  shows "fst r \<le> fst (snd r)" and "s \<in> L \<Longrightarrow> r \<noteq> s \<Longrightarrow> fst (snd r) < fst s \<or> fst (snd s) < fst r"
  using assms by (auto simp: disjoint_layers_def)

lemma covered_layers_filter:
  assumes "btree_ok layered" "disjoint_layers (set layered)"
  shows "covered_layers first last_one layered = rev (filter (overlaps first last_one) layered)"
proof -
  let ?P = "\<lambda>(_, end, _). end \<ge> first"
  let ?ys = "filter (\<lambda>(start, _). start \<le> last_one) layered"
  have "sorted_wrt (\<lambda>x y. fst x < fst y) ?ys"
    using btree_ok_filter [OF assms(1)] by (simp add: btree_ok_def sorted_wrt_map)
  then have "sorted_wrt (\<lambda>x y. ?P x \<longrightarrow> ?P y) ?ys"
  proof (rule sorted_wrt_mono_rel [rotated])
    fix x y assume xy: "x \<in> set ?ys" "y \<in> set ?ys" "fst x < fst y"
    then have "fst (snd x) < fst y \<or> fst (snd y) < fst x"
      by (intro disjoint_layersD(2) [OF assms(2)]) auto
    moreover have "fst y \<le> fst (snd y)" using xy by (intro disjoint_layersD(1) [OF assms(2)]) auto
    ultimately show "?P x \<longrightarrow> ?P y" using xy(3) by (auto split: prod.splits)
  qed
  then have "sorted_wrt (\<lambda>x y. ?P y \<longrightarrow> ?P x) (rev ?ys)" by (simp add: sorted_wrt_rev)
  then have "covered_layers first last_one layered = rev (filter ?P ?ys)"
    unfolding covered_layers_def by (simp add: takeWhile_antitone rev_filter)
  also have "filter ?P ?ys = filter (overlaps first last_one) layered"
    by (auto simp: overlaps_def intro!: filter_cong)
  finally show ?thesis .
qed

lemma remains_not_overlaps:
  "overlaps first last_one c \<Longrightarrow> first \<le> last_one \<Longrightarrow> r \<in> remains first last_one c \<Longrightarrow> \<not> overlaps first last_one r"
  by (auto simp: remains_def overlaps_def below_pred_iff above_succ_iff split: if_splits)

lemma in_remains:
  assumes "overlaps first last_one c" "first \<le> last_one"
  shows "(\<exists>r \<in> remains first last_one c. in_layer a r \<and> snd (snd r) = n) \<longleftrightarrow>
         in_layer a c \<and> snd (snd c) = n \<and> \<not> (first \<le> a \<and> a \<le> last_one)"
  using assms
  by (cases c) (auto simp: remains_def overlaps_def in_layer_def below_pred_iff above_succ_iff split: if_splits)

lemma remains_inside:
  assumes "overlaps first last_one c" "r \<in> remains first last_one c"
  shows "fst c \<le> fst r \<and> fst (snd r) \<le> fst (snd c) \<and> fst r \<le> fst (snd r)"
  using assms
  by (cases c) (auto simp: remains_def overlaps_def below_pred_iff above_succ_iff pred_le le_succ less_imp_le split: if_splits)

lemma remains_apart:
  assumes "first \<le> last_one" "r \<in> remains first last_one c" "s \<in> remains first last_one c" "r \<noteq> s"
  shows "fst (snd r) < fst s \<or> fst (snd s) < fst r"
  using assms
  by (cases c) (auto simp: remains_def pred_less_iff less_succ_iff above_succ_iff pred_le split: if_splits)

lemma disjoint_replace:
  assumes L: "disjoint_layers L" "c \<in> L" and c: "overlaps first last_one c" "first \<le> last_one"
  shows "disjoint_layers (L - {c} \<union> remains first last_one c)"
proof -
  have apart: "fst (snd r) < fst s \<or> fst (snd s) < fst r"
    if "r \<in> remains first last_one c" "s \<in> L" "s \<noteq> c" for r s
  proof -
    have "fst (snd c) < fst s \<or> fst (snd s) < fst c"
      using disjoint_layersD(2) [OF L that(2)] that(3) by simp
    then show ?thesis using remains_inside [OF c(1) that(1)] by auto
  qed
  then show ?thesis
    using L(1) remains_inside [OF c(1)] remains_apart [OF c(2), of _ c] unfolding disjoint_layers_def
    by (metis (no_types, lifting) Diff_iff Un_iff insertCI)
qed

lemma cut_layer_ok:
  assumes L: "btree_ok L" "disjoint_layers (set L)" "c \<in> set L" and c: "overlaps first last_one c" "first \<le> last_one"
  shows "set (cut_layer first last_one c L) = set L - {c} \<union> remains first last_one c"
    and "btree_ok (cut_layer first last_one c L)"
proof -
  obtain start "end" held where [simp]: "c = (start, end, held)" by (cases c)
  define L1 where "L1 = btree_remove start L"
  define L2 where "L2 = (if start < first then btree_insert start (first - 1, held) L1 else L1)"
  have ok1: "btree_ok L1" by (simp add: L1_def btree_ok_remove L)
  then have ok2: "btree_ok L2" by (simp add: L2_def btree_ok_insert)
  have cut: "cut_layer first last_one c L = (if end > last_one then btree_insert (last_one + 1) (end, held) L2 else L2)"
    by (simp add: cut_layer_def L1_def L2_def Let_def)
  have key: "fst r = start \<longleftrightarrow> r = c" if "r \<in> set L" for r
    using btree_key_unique [OF L(1), of start "(end, held)" "snd r"] L(3) that by (cases r) auto
  have set1: "set L1 = set L - {c}" unfolding L1_def set_btree_remove using key by blast
  have "fst r \<noteq> start" if "r \<in> set L1" for r using that by (simp add: L1_def set_btree_remove)
  then have "{x \<in> set L1. fst x \<noteq> start} = set L1" by blast
  then have set2: "set L2 = set L - {c} \<union> (if start < first then {(start, first - 1, held)} else {})"
    unfolding L2_def by (simp add: set_btree_insert [OF ok1] set1)
  have fresh: "fst r \<noteq> last_one + 1" if "end > last_one" "r \<in> set L2" for r
  proof (cases "r \<in> set L - {c}")
    case True
    then have "end < fst r \<or> fst (snd r) < start" "fst r \<le> fst (snd r)"
      using disjoint_layersD(2) [OF L(2,3), of r] disjoint_layersD(1) [OF L(2), of r] by auto
    moreover have "start \<le> last_one" using c(1) by (simp add: overlaps_def)
    moreover have "last_one + 1 \<le> end" "start \<le> last_one + 1"
      using c(1) that(1) by (auto simp: above_succ_iff overlaps_def le_succ)
    ultimately show ?thesis by auto
  next
    case False
    then show ?thesis using that set2 c(1) above_succ_iff [OF that(1), of start]
      by (auto simp: overlaps_def split: if_splits)
  qed
  show "btree_ok (cut_layer first last_one c L)" unfolding cut using ok2 by (simp add: btree_ok_insert)
  show "set (cut_layer first last_one c L) = set L - {c} \<union> remains first last_one c"
  proof (cases "last_one < end")
    case True
    then have "{x \<in> set L2. fst x \<noteq> last_one + 1} = set L2" using fresh by blast
    then show ?thesis unfolding cut using True set2 by (simp add: set_btree_insert [OF ok2] remains_def)
  qed (unfold cut, simp add: set2 remains_def)
qed

lemma cut_all_ok:
  assumes "btree_ok L" "disjoint_layers (set L)" "set cs \<subseteq> set L" "distinct cs"
    and "\<forall>c \<in> set cs. overlaps first last_one c" "first \<le> last_one"
  shows "set (fold (cut_layer first last_one) cs L) = set L - set cs \<union> (\<Union>c \<in> set cs. remains first last_one c)
         \<and> btree_ok (fold (cut_layer first last_one) cs L)
         \<and> disjoint_layers (set (fold (cut_layer first last_one) cs L))"
  using assms(1-5)
proof (induction cs arbitrary: L)
  case (Cons c cs)
  let ?L = "cut_layer first last_one c L"
  have c: "c \<in> set L" "overlaps first last_one c" using Cons.prems by auto
  have set: "set ?L = set L - {c} \<union> remains first last_one c"
    by (rule cut_layer_ok(1) [OF Cons.prems(1,2) c assms(6)])
  have dis: "disjoint_layers (set ?L)" unfolding set by (rule disjoint_replace [OF Cons.prems(2) c assms(6)])
  have away: "r \<notin> set cs" if "r \<in> remains first last_one c" for r
    using remains_not_overlaps [OF c(2) assms(6) that] Cons.prems(5) by auto
  have sub: "set cs \<subseteq> set ?L" using Cons.prems(3,4) by (auto simp: set)
  let ?F = "fold (cut_layer first last_one) cs ?L"
  have "set ?F = set ?L - set cs \<union> (\<Union>c \<in> set cs. remains first last_one c) \<and> btree_ok ?F \<and> disjoint_layers (set ?F)"
    using Cons.prems(4,5)
    by (intro Cons.IH [OF cut_layer_ok(2) [OF Cons.prems(1,2) c assms(6)] dis sub]) simp_all
  moreover have "set ?L - set cs = set L - set (c # cs) \<union> remains first last_one c"
    using away unfolding set by auto
  moreover have "fold (cut_layer first last_one) (c # cs) L = ?F" by simp
  ultimately show ?case unfolding list.set UN_insert Un_assoc [symmetric] by metis
qed simp

definition layering_ok :: "layer list \<Rightarrow> bool" where
  "layering_ok L \<longleftrightarrow> btree_ok L \<and> disjoint_layers (set L)"

lemma lay_range_ok:
  assumes "layering_ok L" "first \<le> last_one"
  shows "layering_ok (lay_range L (first, last_one, node))"
    and "carries (set (lay_range L (first, last_one, node))) a n \<longleftrightarrow>
         (if first \<le> a \<and> a \<le> last_one then n = node else carries (set L) a n)"
proof -
  let ?cs = "covered_layers first last_one L"
  define K where "K = fold (cut_layer first last_one) ?cs L"
  have L: "btree_ok L" "disjoint_layers (set L)" using assms(1) by (auto simp: layering_ok_def)
  have cs: "set ?cs = {r \<in> set L. overlaps first last_one r}" "distinct ?cs"
    using L(1) by (auto simp: covered_layers_filter [OF L] btree_ok_def strict_sorted_iff distinct_map)
  then have "set ?cs \<subseteq> set L" "\<forall>c \<in> set ?cs. overlaps first last_one c" by blast+
  from cut_all_ok [OF L this(1) cs(2) this(2) assms(2)]
  have K: "set K = set L - set ?cs \<union> (\<Union>c \<in> set ?cs. remains first last_one c)" "btree_ok K" "disjoint_layers (set K)"
    unfolding K_def by blast+
  have none: "\<not> overlaps first last_one r" if "r \<in> set K" for r
    using that remains_not_overlaps [OF _ assms(2), of _ r] cs(1) unfolding K(1) by blast
  have fresh: "fst r \<noteq> first" if "r \<in> set K" for r
    using none [OF that] disjoint_layersD(1) [OF K(3) that] assms(2) by (auto simp: overlaps_def)
  have result: "set (lay_range L (first, last_one, node)) = insert (first, last_one, node) (set K)"
    using fresh by (auto simp: lay_range_def K_def [symmetric] set_btree_insert [OF K(2)])
  have "fst (snd r) < first \<or> last_one < fst r" if "r \<in> set K" for r
    using none [OF that] by (auto simp: overlaps_def)
  then have "disjoint_layers (insert (first, last_one, node) (set K))"
    using K(3) assms(2) by (auto simp: disjoint_layers_def)
  then show "layering_ok (lay_range L (first, last_one, node))"
    unfolding layering_ok_def result by (simp add: lay_range_def K_def [symmetric] btree_ok_insert K(2))
  have pieces: "(\<exists>r \<in> (\<Union>c \<in> set ?cs. remains first last_one c). in_layer a r \<and> snd (snd r) = n) \<longleftrightarrow>
                (\<exists>c \<in> set ?cs. in_layer a c \<and> snd (snd c) = n) \<and> \<not> (first \<le> a \<and> a \<le> last_one)"
    (is "?l = ?r")
  proof -
    have "?l \<longleftrightarrow> (\<exists>c \<in> set ?cs. \<exists>r \<in> remains first last_one c. in_layer a r \<and> snd (snd r) = n)" by blast
    also have "\<dots> \<longleftrightarrow> (\<exists>c \<in> set ?cs. in_layer a c \<and> snd (snd c) = n \<and> \<not> (first \<le> a \<and> a \<le> last_one))"
      using in_remains [OF _ assms(2), of _ a n] cs(1) by (intro bex_cong refl) blast
    finally show ?thesis by blast
  qed
  have outside: "\<not> (in_layer a r \<and> first \<le> a \<and> a \<le> last_one)" if "r \<in> set L - set ?cs" for r
  proof -
    have "\<not> overlaps first last_one r" using that cs(1) by blast
    then show ?thesis by (auto simp: in_layer_def overlaps_def)
  qed
  have "carries (set K) a n \<longleftrightarrow> carries (set L) a n \<and> \<not> (first \<le> a \<and> a \<le> last_one)"
    unfolding carries_def K(1) bex_Un pieces using outside cs(1) by blast
  then show "carries (set (lay_range L (first, last_one, node))) a n \<longleftrightarrow>
         (if first \<le> a \<and> a \<le> last_one then n = node else carries (set L) a n)"
    unfolding result by (auto simp: carries_def in_layer_def)
qed

subsection \<open>The whole layering\<close>

text \<open>The range that was laid last, of those that hold the address.\<close>

definition holds_address :: "u32 \<Rightarrow> drange \<Rightarrow> bool" where
  "holds_address a r \<longleftrightarrow> (case r of (first, last_one, _) \<Rightarrow> first \<le> a \<and> a \<le> last_one)"

definition width :: "drange \<Rightarrow> nat" where
  "width r = (case r of (first, last_one, _) \<Rightarrow> unat (last_one - first))"

lemma carries_empty [simp]: "\<not> carries {} a n"
  by (simp add: carries_def)

lemma layering_ok_Nil [simp]: "layering_ok []"
  by (simp add: layering_ok_def btree_ok_def disjoint_layers_def)

lemma find_append: "find P (xs @ ys) = (case find P xs of None \<Rightarrow> find P ys | Some x \<Rightarrow> Some x)"
  by (induction xs) simp_all

lemma foldl_lay_range:
  assumes "\<forall>(first, last_one, _) \<in> set ranges. first \<le> last_one" "layering_ok L"
  shows "layering_ok (foldl lay_range L ranges) \<and>
         (carries (set (foldl lay_range L ranges)) a n \<longleftrightarrow>
          (case find (holds_address a) (rev ranges) of
             Some (_, _, node) \<Rightarrow> n = node
           | None \<Rightarrow> carries (set L) a n))"
  using assms
proof (induction ranges arbitrary: L)
  case (Cons r ranges)
  obtain first last_one node where r [simp]: "r = (first, last_one, node)" by (cases r)
  have le: "first \<le> last_one" using Cons.prems(1) by simp
  have ok: "layering_ok (lay_range L r)" unfolding r by (rule lay_range_ok(1) [OF Cons.prems(2) le])
  have step: "carries (set (lay_range L r)) a n \<longleftrightarrow> (if holds_address a r then n = node else carries (set L) a n)"
    unfolding r lay_range_ok(2) [OF Cons.prems(2) le] by (simp add: holds_address_def)
  have "find (holds_address a) (rev (r # ranges)) =
        (case find (holds_address a) (rev ranges) of None \<Rightarrow> if holds_address a r then Some r else None | Some x \<Rightarrow> Some x)"
    by (simp add: find_append) (simp split: option.splits)
  then show ?case using Cons.IH [OF _ ok] Cons.prems(1) step by (auto split: option.splits)
qed simp

text \<open>A sorted list of disjoint ranges, as the merge makes and the search needs it.\<close>

definition ranges_sorted :: "drange list \<Rightarrow> bool" where
  "ranges_sorted rs \<longleftrightarrow> sorted_wrt (\<lambda>r s. fst (snd r) < fst s) rs \<and> (\<forall>r \<in> set rs. fst r \<le> fst (snd r))"

lemma layering_sorted:
  assumes "layering_ok L"
  shows "ranges_sorted L"
proof -
  have L: "sorted_wrt (\<lambda>r s. fst r < fst s) L" "disjoint_layers (set L)"
    using assms by (auto simp: layering_ok_def btree_ok_def sorted_wrt_map)
  have "sorted_wrt (\<lambda>r s. fst (snd r) < fst s) L"
  proof (rule sorted_wrt_mono_rel [OF _ L(1)])
    fix r s assume rs: "r \<in> set L" "s \<in> set L" "fst r < fst s"
    then have "fst (snd r) < fst s \<or> fst (snd s) < fst r" by (intro disjoint_layersD(2) [OF L(2)]) auto
    then show "fst (snd r) < fst s" using disjoint_layersD(1) [OF L(2) rs(2)] rs(3) by auto
  qed
  then show ?thesis using L(2) by (simp add: ranges_sorted_def disjoint_layers_def)
qed

lemma carries_Un: "carries (A \<union> B) a n \<longleftrightarrow> carries A a n \<or> carries B a n"
  by (auto simp: carries_def)

lemma carries_insert: "carries (insert (first, last_one, node) A) a n \<longleftrightarrow> first \<le> a \<and> a \<le> last_one \<and> node = n \<or> carries A a n"
  by (auto simp: carries_def in_layer_def)

lemma merge_layers_ok:
  "ranges_sorted (rev merged @ layers) \<Longrightarrow>
   ranges_sorted (merge_layers merged layers) \<and>
   (carries (set (merge_layers merged layers)) a n \<longleftrightarrow> carries (set merged \<union> set layers) a n)"
proof (induction merged layers rule: merge_layers.induct)
  case (2 merged first last_one node layers)
  show ?case
  proof (cases merged)
    case Nil
    then show ?thesis using "2.IH"(1) [OF Nil] "2.prems" by simp
  next
    case (Cons p older)
    obtain pfirst plast pnode where p: "p = (pfirst, plast, pnode)" by (cases p)
    show ?thesis
    proof (cases "pnode = node \<and> first \<le> saturating_add1 plast")
      case True
      have order: "pfirst \<le> plast" "plast < first" "first \<le> last_one"
        using "2.prems" by (auto simp: Cons p ranges_sorted_def sorted_wrt_append)
      have "ranges_sorted (rev ((pfirst, max plast last_one, pnode) # older) @ layers)"
        using "2.prems" order by (auto simp: Cons p ranges_sorted_def sorted_wrt_append)
      from "2.IH"(2) [OF Cons p [symmetric] refl True this] have
        "ranges_sorted (merge_layers merged ((first, last_one, node) # layers)) \<and>
         (carries (set (merge_layers merged ((first, last_one, node) # layers))) a n \<longleftrightarrow>
          carries (insert (pfirst, max plast last_one, pnode) (set older \<union> set layers)) a n)"
        using True by (simp add: Cons p)
      moreover have "pfirst \<le> a \<and> a \<le> max plast last_one \<longleftrightarrow> pfirst \<le> a \<and> a \<le> plast \<or> first \<le> a \<and> a \<le> last_one"
        using order succ_saturating [of plast first a] True by (auto simp: max_def)
      ultimately show ?thesis using True by (auto simp: Cons p carries_Un carries_insert)
    next
      case False
      then show ?thesis using "2.IH"(3) [OF Cons p [symmetric] refl False] "2.prems" by (auto simp: Cons p)
    qed
  qed
qed simp

lemma destination_node_iff:
  assumes "ranges_sorted rs"
  shows "destination_node rs a = Some n \<longleftrightarrow> carries (set rs) a n"
proof -
  let ?P = "\<lambda>(first :: u32, _ :: u32, _ :: u8). first \<le> a"
  let ?ys = "takeWhile ?P rs"
  have rs: "sorted_wrt (\<lambda>r s. fst (snd r) < fst s) rs" "\<And>r. r \<in> set rs \<Longrightarrow> fst r \<le> fst (snd r)"
    using assms by (auto simp: ranges_sorted_def)
  have sorted: "sorted_wrt (\<lambda>r s. ?P s \<longrightarrow> ?P r) rs"
  proof (rule sorted_wrt_mono_rel [OF _ rs(1)])
    fix r s :: drange assume "r \<in> set rs" "fst (snd r) < fst s"
    with rs(2) [of r] show "?P s \<longrightarrow> ?P r" by (auto simp: split_beta)
  qed
  have ys: "?ys = filter ?P rs" by (rule takeWhile_antitone [OF sorted])
  have all: "in_layer a r \<Longrightarrow> r \<in> set ?ys" if "r \<in> set rs" for r
    using that unfolding ys by (auto simp: in_layer_def)
  show ?thesis
  proof (cases "?ys = []")
    case True
    then show ?thesis using all by (auto simp: destination_node_def carries_def)
  next
    case False
    then have nth: "rs ! (length ?ys - 1) = last ?ys"
      by (metis diff_less last_conv_nth length_greater_0_conv less_numeral_extra(1) takeWhile_nth)
    have "last ?ys \<in> set ?ys" using False by simp
    then have l: "last ?ys \<in> set rs" "?P (last ?ys)" unfolding ys by auto
    have "sorted_wrt (\<lambda>r s. fst (snd r) < fst s) ?ys" using rs(1) unfolding ys by (rule sorted_wrt_filter)
    then have "sorted_wrt (\<lambda>r s. fst (snd r) < fst s) (butlast ?ys @ [last ?ys])" using False by simp
    then have before: "fst (snd r) < fst (last ?ys)" if "r \<in> set (butlast ?ys)" for r
      using that by (auto simp: sorted_wrt_append)
    have only: "r = last ?ys" if "r \<in> set rs" "in_layer a r" for r
    proof (rule ccontr)
      assume "r \<noteq> last ?ys"
      moreover have "r \<in> set (butlast ?ys @ [last ?ys])" using all [OF that] False by simp
      ultimately have "r \<in> set (butlast ?ys)" by simp
      from before [OF this] that(2) l(2) show False by (auto simp: in_layer_def split_beta)
    qed
    have "destination_node rs a = (if a \<le> fst (snd (last ?ys)) then Some (snd (snd (last ?ys))) else None)"
      using False nth by (simp add: destination_node_def Let_def split_beta)
    moreover have "carries (set rs) a n \<longleftrightarrow> in_layer a (last ?ys) \<and> snd (snd (last ?ys)) = n"
      using only l(1) unfolding carries_def by blast
    ultimately show ?thesis using l(2) by (auto simp: in_layer_def split_beta)
  qed
qed

lemma find_filter: "find P xs = (case filter P xs of [] \<Rightarrow> None | x # _ \<Rightarrow> Some x)"
  by (induction xs) simp_all

lemma min_by_key_snoc:
  "min_by_key w (zs @ [z]) = (case min_by_key w zs of None \<Rightarrow> Some z | Some y \<Rightarrow> if w y \<le> w z then Some y else Some z)"
  by (induction zs) (auto split: option.splits)

lemma last_insort_key:
  "sorted (map f ys) \<Longrightarrow> last (insort_key f z ys) = (if ys = [] \<or> f (last ys) < f z then z else last ys)"
proof (induction ys)
  case (Cons y ys)
  have "insort_key f z ys \<noteq> []" by (cases ys) auto
  moreover have "ys \<noteq> [] \<Longrightarrow> f y \<le> f (last ys)" using Cons.prems by simp
  moreover have "ys \<noteq> [] \<Longrightarrow> f z \<le> f y \<Longrightarrow> \<not> f (last ys) < f z" using calculation(2) by auto
  ultimately show ?case using Cons by auto
qed simp

lemma last_sort_key:
  assumes "zs \<noteq> []"
  shows "min_by_key w (rev zs) = Some (last (sort_key (\<lambda>z. - int (w z)) zs))"
  using assms
proof (induction zs)
  case (Cons z zs)
  let ?f = "\<lambda>z. - int (w z)"
  have "last (sort_key ?f (z # zs)) = (if zs = [] \<or> ?f (last (sort_key ?f zs)) < ?f z then z else last (sort_key ?f zs))"
    using last_insort_key [OF sorted_sort_key, of ?f z zs]
    by (simp add: sort_key_simps) (metis length_0_conv length_sort)
  then show ?case using Cons.IH by (cases "zs = []") (auto simp: min_by_key_snoc)
qed simp

lemma by_width_key: "by_width ranges = sort_key (\<lambda>r. - int (width r)) ranges"
proof -
  have "(\<lambda>(first, last_one, _). - uint (last_one - first)) = (\<lambda>r. - int (width r))"
    by (auto simp: width_def fun_eq_iff)
  then show ?thesis by (simp add: by_width_def)
qed

lemma find_by_width: "find P (rev (by_width ranges)) = min_by_key width (rev (filter P ranges))"
proof -
  let ?s = "sort_key (\<lambda>r. - int (width r)) (filter P ranges)"
  have "find P (rev (by_width ranges)) = (case rev ?s of [] \<Rightarrow> None | x # _ \<Rightarrow> Some x)"
    by (simp add: find_filter by_width_key rev_filter [symmetric] filter_sort)
  also have "\<dots> = min_by_key width (rev (filter P ranges))"
  proof (cases "filter P ranges = []")
    case False
    then have "?s \<noteq> []" by (metis length_0_conv length_sort)
    then have "rev ?s = last ?s # rev (butlast ?s)"
      using arg_cong [OF append_butlast_last_id, of ?s rev] by (simp del: append_butlast_last_id)
    then have "(case rev ?s of [] \<Rightarrow> None | x # _ \<Rightarrow> Some x) = Some (last ?s)" by (simp only: list.case)
    then show ?thesis using last_sort_key [OF False, of width] by simp
  qed simp
  finally show ?thesis .
qed

lemma layer_destinations_sorted:
  assumes "\<forall>(first, last_one, _) \<in> set ranges. first \<le> last_one"
  shows "ranges_sorted (layer_destinations ranges)"
    and "carries (set (layer_destinations ranges)) a n \<longleftrightarrow>
         map_option (snd \<circ> snd) (min_by_key width (rev (filter (holds_address a) ranges))) = Some n"
proof -
  let ?L = "foldl lay_range [] (by_width ranges)"
  have "\<forall>(first, last_one, _) \<in> set (by_width ranges). first \<le> last_one"
    using assms by (simp add: by_width_def)
  from foldl_lay_range [OF this layering_ok_Nil, of a n] have L: "layering_ok ?L"
    and "carries (set ?L) a n \<longleftrightarrow> (case find (holds_address a) (rev (by_width ranges)) of Some (_, _, node) \<Rightarrow> n = node | None \<Rightarrow> False)"
    by (simp_all cong: option.case_cong)
  then have carry: "carries (set ?L) a n \<longleftrightarrow>
      map_option (snd \<circ> snd) (min_by_key width (rev (filter (holds_address a) ranges))) = Some n"
    by (auto simp: find_by_width split: option.splits)
  have "ranges_sorted (rev [] @ ?L)" using layering_sorted [OF L] by simp
  from merge_layers_ok [OF this, of a n] carry
  show "ranges_sorted (layer_destinations ranges)"
    and "carries (set (layer_destinations ranges)) a n \<longleftrightarrow>
         map_option (snd \<circ> snd) (min_by_key width (rev (filter (holds_address a) ranges))) = Some n"
    by (simp_all add: layer_destinations_def)
qed

lemma option_eqI_Some: "(\<And>n. x = Some n \<longleftrightarrow> y = Some n) \<Longrightarrow> x = y"
  by (cases x; cases y) auto

theorem narrowest_range_wins:
  assumes "\<forall>(first, last_one, _) \<in> set ranges. first \<le> last_one"
  shows "destination_node (layer_destinations ranges) a =
         map_option (snd \<circ> snd) (min_by_key width (rev (filter (holds_address a) ranges)))"
proof (rule option_eqI_Some)
  fix n
  show "destination_node (layer_destinations ranges) a = Some n \<longleftrightarrow>
        map_option (snd \<circ> snd) (min_by_key width (rev (filter (holds_address a) ranges))) = Some n"
    using layer_destinations_sorted [OF assms] destination_node_iff by blast
qed

end
