(* ===== verification/Split_Selectors.thy ===== *)
theory Split_Selectors
  imports Split_Sockets Split_Ranges "HOL-Library.Multiset"
begin

section \<open>What a split capture selects (\<^verbatim>\<open>engine/src/split_capture.rs\<close>, \<^verbatim>\<open>engine/src/policy.rs\<close>)\<close>

text \<open>
  The selectors of a running capture: ranges of destinations and flows of processes, with the owners of
  each flow, and the read-only table the capture loop looks packets up in. The operations are those that
  change them: a rule, an address learned for a website, a socket event, the removal of a closed socket
  and the reaper. The lemmas show that the table the capture loop reads always selects exactly the packets
  some selector of the state matches, under the label and the destination's node the state gives it, after
  every sequence of operations; and that the reaper drops an owner only after fifteen observations in a
  row that found it stale.

  Hash maps are association lists. Where the code iterates over one, the order is that of the list the
  argument \<open>order\<close> makes of it, which may be any permutation.
\<close>

subsection \<open>Rules and the nodes of their targets\<close>

record InterceptionPlan =
  pl_application_paths :: "string list"
  pl_folder_prefixes :: "string list"
  pl_hostnames :: "string list"
  pl_ip_networks :: "string list"
  pl_nodes :: "(string \<times> u8) list"

definition node_of :: "InterceptionPlan \<Rightarrow> string \<Rightarrow> u8" where
  "node_of plan target = (case map_of (pl_nodes plan) target of None \<Rightarrow> 0 | Some node \<Rightarrow> node)"

definition hostname_matches :: "string \<Rightarrow> string \<Rightarrow> bool" where
  "hostname_matches name target \<longleftrightarrow>
     (case strip_prefix ''*.'' target of
        None \<Rightarrow> name = target
      | Some rest \<Rightarrow> name = rest \<or> ends_with (''.'' @ rest) name)"

definition rule_rank :: "string \<Rightarrow> bool \<times> nat" where
  "rule_rank rule = (strip_prefix ''*.'' rule = None, length rule)"

definition most_specific_rule :: "string \<Rightarrow> string list \<Rightarrow> string option" where
  "most_specific_rule name rules = max_by_key rule_rank (filter (hostname_matches name) rules)"

record TargetNodes =
  tn_applications :: "(string \<times> u8) list"
  tn_folders :: "(string \<times> u8) list"
  tn_hostnames :: "(string \<times> u8) list"

text \<open>\<^verbatim>\<open>TargetNodes::of\<close>: the map of applications keeps one entry for each path, all with the same node.\<close>

definition targets_of :: "InterceptionPlan \<Rightarrow> TargetNodes" where
  "targets_of plan =
     \<lparr>tn_applications = map (\<lambda>path. (path, node_of plan path)) (pl_application_paths plan),
      tn_folders = sort_key (\<lambda>(folder, _). - int (length folder))
                     (map (\<lambda>folder. (folder, node_of plan folder)) (pl_folder_prefixes plan)),
      tn_hostnames = map (\<lambda>hostname. (hostname, node_of plan hostname)) (pl_hostnames plan)\<rparr>"

definition for_path :: "TargetNodes \<Rightarrow> string \<Rightarrow> u8" where
  "for_path targets path =
     (case map_of (tn_applications targets) path of
        Some node \<Rightarrow> node
      | None \<Rightarrow> (case find (\<lambda>(folder, _). folder_contains folder path) (tn_folders targets) of
                   None \<Rightarrow> 0
                 | Some (_, node) \<Rightarrow> node))"

definition for_rule :: "TargetNodes \<Rightarrow> string \<Rightarrow> u8 option" where
  "for_rule targets rule = map_option snd (find (\<lambda>(hostname, _). hostname = rule) (tn_hostnames targets))"

definition for_name :: "TargetNodes \<Rightarrow> string \<Rightarrow> u8 option" where
  "for_name targets name =
     Option.bind (most_specific_rule name (map fst (tn_hostnames targets))) (for_rule targets)"

subsection \<open>Selectors and the table\<close>

datatype TrafficSelector =
    Destination (sel_first: u32) (sel_last: u32)
  | Flow u8 u16 "u16 option"

fun selector_matches :: "TrafficSelector \<Rightarrow> Ipv4Fields \<Rightarrow> bool" where
  "selector_matches (Destination first last_one) f \<longleftrightarrow>
     first \<le> of_be32 (f_destination f) \<and> of_be32 (f_destination f) \<le> last_one"
| "selector_matches (Flow protocol local_port remote_port) f \<longleftrightarrow>
     f_protocol f = protocol \<and> f_source_port f = local_port
     \<and> (case remote_port of None \<Rightarrow> True | Some port \<Rightarrow> f_destination_port f = port)"

record FlowOwner =
  fo_endpoint :: "u64 option"
  fo_process :: u32
  fo_path :: string
  fo_stale :: nat

record SelectorState =
  st_selectors :: "(TrafficSelector \<times> string option) list"
  st_owners :: "(TrafficSelector \<times> FlowOwner list) list"
  st_nodes :: "(TrafficSelector \<times> u8) list"

record Match =
  m_application :: "string option"
  m_process :: "u32 option"
  m_node :: u8

record SelectorTable =
  tb_destinations :: "drange list"
  tb_flows :: "((u8 \<times> u16 \<times> u16 option) \<times> Match) list"
  tb_len :: nat

fun destination_range :: "(TrafficSelector \<times> u8) list \<Rightarrow> TrafficSelector \<Rightarrow> drange option" where
  "destination_range nodes (Destination first last_one) =
     Some (first, last_one, case map_of nodes (Destination first last_one) of None \<Rightarrow> 0 | Some node \<Rightarrow> node)"
| "destination_range nodes (Flow _ _ _) = None"

fun flow_selection ::
  "(TrafficSelector \<times> FlowOwner list) list \<Rightarrow> TargetNodes \<Rightarrow> TrafficSelector \<Rightarrow> string option
     \<Rightarrow> ((u8 \<times> u16 \<times> u16 option) \<times> Match) option" where
  "flow_selection owners targets (Destination _ _) application = None"
| "flow_selection owners targets (Flow protocol local_port remote_port) application =
     (let owner = (case map_of owners (Flow protocol local_port remote_port) of
                     None \<Rightarrow> None | Some os \<Rightarrow> if os = [] then None else Some (last os))
      in Some ((protocol, local_port, remote_port),
               \<lparr>m_application = application, m_process = map_option fo_process owner,
                m_node = (case owner of None \<Rightarrow> 0 | Some o' \<Rightarrow> for_path targets (fo_path o'))\<rparr>))"

definition build_with_owners ::
  "(TrafficSelector \<times> string option) list \<Rightarrow> (TrafficSelector \<times> FlowOwner list) list
     \<Rightarrow> (TrafficSelector \<times> u8) list \<Rightarrow> TargetNodes \<Rightarrow> SelectorTable" where
  "build_with_owners selectors owners nodes targets =
     \<lparr>tb_destinations = layer_destinations (List.map_filter (\<lambda>(selector, _). destination_range nodes selector) selectors),
      tb_flows = List.map_filter (\<lambda>(selector, application). flow_selection owners targets selector application) selectors,
      tb_len = length selectors\<rparr>"

definition table_lookup :: "SelectorTable \<Rightarrow> Ipv4Fields \<Rightarrow> Match option" where
  "table_lookup table f =
     (let destination = destination_node (tb_destinations table) (of_be32 (f_destination f));
          flow = (case map_of (tb_flows table) (f_protocol f, f_source_port f, Some (f_destination_port f)) of
                    Some m \<Rightarrow> Some m
                  | None \<Rightarrow> map_of (tb_flows table) (f_protocol f, f_source_port f, None))
      in case flow of
           Some m \<Rightarrow> Some (m\<lparr>m_node := (case destination of None \<Rightarrow> m_node m | Some node \<Rightarrow> node)\<rparr>)
         | None \<Rightarrow> map_option (\<lambda>node. \<lparr>m_application = None, m_process = None, m_node = node\<rparr>) destination)"

subsection \<open>The return routes\<close>

record ReturnKey =
  rk_protocol :: u8
  rk_remote_ip :: ipv4
  rk_local_port :: u16
  rk_remote_port :: u16

definition key_outbound :: "Ipv4Fields \<Rightarrow> ReturnKey" where
  "key_outbound f = \<lparr>rk_protocol = f_protocol f, rk_remote_ip = f_destination f,
                     rk_local_port = f_source_port f, rk_remote_port = f_destination_port f\<rparr>"

definition key_inbound :: "Ipv4Fields \<Rightarrow> ReturnKey" where
  "key_inbound f = \<lparr>rk_protocol = f_protocol f, rk_remote_ip = f_source f,
                    rk_local_port = f_destination_port f, rk_remote_port = f_source_port f\<rparr>"

text \<open>The counters of an application are shared with the table of all applications, under its name.\<close>

record ReturnPath =
  rp_local_ip :: ipv4
  rp_interface :: u32
  rp_subinterface :: u32
  rp_process :: "u32 option"
  rp_usage :: string
  rp_last_seen :: instant
  rp_resolver :: "ipv4 option"
  rp_node :: u8

record HandledConnection =
  hc_application :: string
  hc_destination_ip :: ipv4
  hc_destination_port :: u16
  hc_protocol :: string
  hc_started_at :: nat
  hc_path :: "string option"
  hc_process :: "u32 option"
  hc_node :: u8

text \<open>The part of \<^verbatim>\<open>Registry\<close> these operations change; the rest of it extends this record.\<close>

record Selectors =
  rg_targets :: TargetNodes
  rg_state :: SelectorState
  rg_table :: SelectorTable
  rg_version :: nat
  rg_labels :: "(ipv4 \<times> string) list"
  rg_paths :: "(ReturnKey \<times> ReturnPath) list"
  rg_handled :: "(ReturnKey \<times> HandledConnection) list"
  rg_applications :: "string list"
  rg_folders :: "string list"
  rg_classifier :: UdpClassifier
  rg_matched :: nat

type_synonym 'a hash_order = "'a list \<Rightarrow> 'a list"

definition publish_selectors ::
  "(TrafficSelector \<times> string option) hash_order \<Rightarrow> SelectorState \<Rightarrow> 'a Selectors_scheme \<Rightarrow> 'a Selectors_scheme" where
  "publish_selectors order st rg =
     rg\<lparr>rg_state := st,
        rg_table := build_with_owners (order (st_selectors st)) (st_owners st) (st_nodes st) (rg_targets rg),
        rg_version := rg_version rg + 1\<rparr>"

subsection \<open>Adding selectors\<close>

definition add_selector ::
  "(TrafficSelector \<times> string option) hash_order \<Rightarrow> TrafficSelector \<Rightarrow> u8 \<Rightarrow> 'a Selectors_scheme \<Rightarrow> 'a Selectors_scheme" where
  "add_selector order selector node rg =
     (let st = rg_state rg;
          added = map_of (st_selectors st) selector = None;
          moved = map_of (st_nodes st) selector \<noteq> Some node;
          st' = st\<lparr>st_selectors := AList.update selector None (st_selectors st),
                   st_nodes := AList.update selector node (st_nodes st)\<rparr>
      in if added \<or> moved then publish_selectors order st' rg else rg\<lparr>rg_state := st'\<rparr>)"

definition same_owner :: "FlowOwner \<Rightarrow> FlowOwner \<Rightarrow> bool" where
  "same_owner owner held \<longleftrightarrow>
     fo_endpoint held = fo_endpoint owner \<and> fo_process held = fo_process owner \<and> fo_path held = fo_path owner"

definition with_owner :: "FlowOwner \<Rightarrow> FlowOwner list \<Rightarrow> FlowOwner list \<times> bool" where
  "with_owner owner owners =
     (let owners = (if fo_endpoint owner \<noteq> None
                    then filter (\<lambda>held. \<not> (fo_endpoint held = None \<and> fo_process held = fo_process owner)) owners
                    else owners)
      in if \<exists>held \<in> set owners. same_owner owner held
         then (update_first (same_owner owner) (\<lambda>held. held\<lparr>fo_stale := 0\<rparr>) owners, False)
         else (owners @ [owner], True))"

definition add_process_selector ::
  "(TrafficSelector \<times> string option) hash_order \<Rightarrow> TrafficSelector \<Rightarrow> string \<Rightarrow> u32 \<Rightarrow> u64 option
     \<Rightarrow> 'a Selectors_scheme \<Rightarrow> 'a Selectors_scheme" where
  "add_process_selector order selector path process_id endpoint_id rg =
     (let st = rg_state rg;
          application = process_name path;
          owner = \<lparr>fo_endpoint = endpoint_id, fo_process = process_id, fo_path = path, fo_stale = 0\<rparr>;
          held = (case map_of (st_owners st) selector of None \<Rightarrow> [] | Some os \<Rightarrow> os);
          (owners, owner_added) = with_owner owner held;
          label_changed = map_of (st_selectors st) selector \<noteq> Some (Some application);
          st' = st\<lparr>st_owners := AList.update selector owners (st_owners st),
                   st_selectors := AList.update selector (Some application) (st_selectors st)\<rparr>
      in if owner_added \<or> label_changed then publish_selectors order st' rg else rg\<lparr>rg_state := st'\<rparr>)"

definition process_socket_selector :: "u8 \<Rightarrow> u16 \<Rightarrow> u16 \<Rightarrow> TrafficSelector" where
  "process_socket_selector protocol local_port remote_port =
     Flow protocol local_port (if protocol = 6 \<and> remote_port \<noteq> 0 then Some remote_port else None)"

definition MAX_DESTINATION_LABELS :: nat where "MAX_DESTINATION_LABELS = 4096"

definition add_hostname_address ::
  "(TrafficSelector \<times> string option) hash_order \<Rightarrow> ipv4 \<Rightarrow> string \<Rightarrow> 'a Selectors_scheme \<Rightarrow> 'a Selectors_scheme" where
  "add_hostname_address order address hostname rg =
     (let labels = rg_labels rg;
          labels = (if length labels < MAX_DESTINATION_LABELS \<or> map_of labels address \<noteq> None
                    then AList.update address hostname labels else labels);
          node = (case for_rule (rg_targets rg) hostname of None \<Rightarrow> 0 | Some node \<Rightarrow> node)
      in add_selector order (Destination (of_be32 address) (of_be32 address)) node (rg\<lparr>rg_labels := labels\<rparr>))"

subsection \<open>Removing selectors\<close>

definition stale_owner_matches_return_key :: "(u32 \<times> TrafficSelector) list \<Rightarrow> u32 \<Rightarrow> ReturnKey \<Rightarrow> bool" where
  "stale_owner_matches_return_key stale process_id k \<longleftrightarrow>
     (process_id, Flow (rk_protocol k) (rk_local_port k) (Some (rk_remote_port k))) \<in> set stale
     \<or> (process_id, Flow (rk_protocol k) (rk_local_port k) None) \<in> set stale"

definition remove_owned_routes :: "(u32 \<times> TrafficSelector) list \<Rightarrow> 'a Selectors_scheme \<Rightarrow> 'a Selectors_scheme" where
  "remove_owned_routes removed rg =
     (if removed = [] then rg
      else let keeps = (\<lambda>k pid. case pid of None \<Rightarrow> True | Some p \<Rightarrow> \<not> stale_owner_matches_return_key removed p k)
           in rg\<lparr>rg_paths := filter (\<lambda>(k, path). keeps k (rp_process path)) (rg_paths rg),
                 rg_handled := filter (\<lambda>(k, c). keeps k (hc_process c)) (rg_handled rg)\<rparr>)"

text \<open>
  Both removals walk over the owners of every flow, keep some of them, relabel the flows that lost an
  owner after the last one left, and drop the flows that lost all. \<open>swept\<close> pairs every selector with its
  owners before and after.
\<close>

type_synonym sweep = "(TrafficSelector \<times> FlowOwner list \<times> FlowOwner list) list"

definition settle_owners :: "sweep \<Rightarrow> SelectorState \<Rightarrow> SelectorState" where
  "settle_owners swept st =
     (let emptied = map fst (filter (\<lambda>(_, _, after). after = []) swept);
          relabeled = map (\<lambda>(selector, _, after). (selector, process_name (fo_path (last after))))
                        (filter (\<lambda>(_, before, after). after \<noteq> [] \<and> length after \<noteq> length before) swept);
          selectors = fold (\<lambda>(selector, application). AList.update selector (Some application)) relabeled (st_selectors st)
      in st\<lparr>st_selectors := filter (\<lambda>(selector, _). selector \<notin> set emptied) selectors,
            st_owners := filter (\<lambda>(selector, _). selector \<notin> set emptied)
                           (map (\<lambda>(selector, _, after). (selector, after)) swept)\<rparr>)"

definition without_survivors :: "SelectorState \<Rightarrow> (u32 \<times> TrafficSelector) list \<Rightarrow> (u32 \<times> TrafficSelector) list" where
  "without_survivors st removed =
     filter (\<lambda>(process_id, selector).
               \<not> (case map_of (st_owners st) selector of
                    None \<Rightarrow> False
                  | Some owners \<Rightarrow> \<exists>owner \<in> set owners. fo_process owner = process_id)) removed"

record SocketData =
  sd_endpoint :: u64
  sd_process :: u32
  sd_local_port :: u16
  sd_remote_port :: u16
  sd_protocol :: u8

definition exact_endpoint :: "SocketData \<Rightarrow> FlowOwner \<Rightarrow> bool" where
  "exact_endpoint event owner \<longleftrightarrow> sd_endpoint event \<noteq> 0 \<and> fo_endpoint owner = Some (sd_endpoint event)"

definition remove_closed_socket ::
  "(TrafficSelector \<times> string option) hash_order \<Rightarrow> SocketData \<Rightarrow> 'a Selectors_scheme \<Rightarrow> 'a Selectors_scheme" where
  "remove_closed_socket order event rg =
     (let st = rg_state rg;
          swept = map (\<lambda>(selector, owners). (selector, owners, filter (\<lambda>owner. \<not> exact_endpoint event owner) owners))
                    (st_owners st);
          removed = concat (map (\<lambda>(selector, owners). map (\<lambda>owner. (fo_process owner, selector))
                                                         (filter (exact_endpoint event) owners)) (st_owners st));
          st' = settle_owners swept st;
          rg = (if removed \<noteq> [] then publish_selectors order st' rg else rg\<lparr>rg_state := st'\<rparr>)
      in remove_owned_routes (without_survivors st' removed) rg)"

definition ACTIVE_CONNECTION_WINDOW :: duration where "ACTIVE_CONNECTION_WINDOW = secs 30"
definition STALE_FLOW_CONFIRMATIONS :: nat where "STALE_FLOW_CONFIRMATIONS = 15"

definition socket_is_active :: "TrafficSelector \<Rightarrow> u32 \<Rightarrow> ExistingSocket set \<Rightarrow> bool" where
  "socket_is_active selector process_id sockets \<longleftrightarrow>
     (case selector of
        Destination _ _ \<Rightarrow> True
      | Flow protocol local_port remote_port \<Rightarrow>
          if protocol = 17 \<or> remote_port \<noteq> None
          then \<lparr>es_process = process_id, es_protocol = protocol, es_local_port = local_port,
                es_remote_port = (case remote_port of None \<Rightarrow> 0 | Some port \<Rightarrow> port)\<rparr> \<in> sockets
          else \<exists>socket \<in> sockets. es_process socket = process_id \<and> es_protocol socket = protocol
                 \<and> es_local_port socket = local_port)"

definition recently_routed :: "instant \<Rightarrow> (ReturnKey \<times> ReturnPath) list \<Rightarrow> (u32 \<times> TrafficSelector) list" where
  "recently_routed observed_at paths =
     concat (map (\<lambda>(k, path).
                    case rp_process path of
                      None \<Rightarrow> []
                    | Some process_id \<Rightarrow>
                        if duration_since observed_at (rp_last_seen path) \<le> ACTIVE_CONNECTION_WINDOW
                        then [(process_id, Flow (rk_protocol k) (rk_local_port k) (Some (rk_remote_port k))),
                              (process_id, Flow (rk_protocol k) (rk_local_port k) None)]
                        else []) paths)"

definition looks_stale ::
  "Windows \<Rightarrow> ExistingSocket set \<Rightarrow> (u32 \<times> TrafficSelector) list \<Rightarrow> TrafficSelector \<Rightarrow> FlowOwner \<Rightarrow> bool" where
  "looks_stale w sockets recent selector owner \<longleftrightarrow>
     (case process_path w (fo_process owner) of None \<Rightarrow> False | Some path \<Rightarrow> \<not> eq_ignore_case path (fo_path owner))
     \<or> (\<not> socket_is_active selector (fo_process owner) sockets \<and> (fo_process owner, selector) \<notin> set recent)"

definition observe_owner ::
  "Windows \<Rightarrow> ExistingSocket set \<Rightarrow> (u32 \<times> TrafficSelector) list \<Rightarrow> TrafficSelector \<Rightarrow> FlowOwner \<Rightarrow> FlowOwner" where
  "observe_owner w sockets recent selector owner =
     owner\<lparr>fo_stale := (if looks_stale w sockets recent selector owner then min 255 (fo_stale owner + 1) else 0)\<rparr>"

definition confirmed_stale :: "FlowOwner \<Rightarrow> bool" where
  "confirmed_stale owner \<longleftrightarrow> STALE_FLOW_CONFIRMATIONS \<le> fo_stale owner"

definition reap_stale_flows ::
  "(TrafficSelector \<times> string option) hash_order \<Rightarrow> Windows \<Rightarrow> 'a Selectors_scheme \<Rightarrow> 'a Selectors_scheme" where
  "reap_stale_flows order w rg =
     (case existing_ipv4_process_sockets w of
        None \<Rightarrow> rg
      | Some sockets \<Rightarrow>
          let recent = recently_routed (now_is w) (rg_paths rg);
              st = rg_state rg;
              observed = map (\<lambda>(selector, owners). (selector, owners, map (observe_owner w sockets recent selector) owners))
                           (st_owners st);
              swept = map (\<lambda>(selector, owners, seen). (selector, owners, filter (\<lambda>owner. \<not> confirmed_stale owner) seen))
                        observed;
              stale = concat (map (\<lambda>(selector, _, seen). map (\<lambda>owner. (fo_process owner, selector))
                                                          (filter confirmed_stale seen)) observed);
              st' = settle_owners swept st;
              rg = (if stale \<noteq> [] then publish_selectors order st' rg else rg\<lparr>rg_state := st'\<rparr>)
          in remove_owned_routes (without_survivors st' stale) rg)"

subsection \<open>The process tracker\<close>

text \<open>
  The sockets that existed when the capture started, and one event of the socket layer: 3 and 4 are a
  bind and a connect, 7 is a close.
\<close>

definition seed_socket ::
  "(TrafficSelector \<times> string option) hash_order \<Rightarrow> Windows \<Rightarrow> ExistingSocket \<Rightarrow> 'a Selectors_scheme \<Rightarrow> 'a Selectors_scheme" where
  "seed_socket order w socket rg =
     (case process_path w (es_process socket) of
        None \<Rightarrow> rg
      | Some path \<Rightarrow>
          if path_matches path (rg_applications rg) (rg_folders rg)
          then add_process_selector order
                 (process_socket_selector (es_protocol socket) (es_local_port socket) (es_remote_port socket))
                 path (es_process socket) None (rg\<lparr>rg_matched := rg_matched rg + 1\<rparr>)
          else rg)"

definition seed_sockets ::
  "(TrafficSelector \<times> string option) hash_order \<Rightarrow> Windows \<Rightarrow> 'a Selectors_scheme \<Rightarrow> 'a Selectors_scheme" where
  "seed_sockets order w rg =
     fold (seed_socket order w) (case existing_ipv4_udp_sockets w of None \<Rightarrow> [] | Some sockets \<Rightarrow> sockets) rg"

definition socket_event ::
  "(TrafficSelector \<times> string option) hash_order \<Rightarrow> string option \<Rightarrow> Windows \<Rightarrow> u8 \<Rightarrow> SocketData
     \<Rightarrow> 'a Selectors_scheme \<Rightarrow> 'a Selectors_scheme" where
  "socket_event order sysroot w kind event rg =
     (let rg = (if sd_protocol event = 17
                then rg\<lparr>rg_classifier := socket_changed (sd_local_port event) (rg_classifier rg)\<rparr> else rg)
      in if kind = 7 then remove_closed_socket order event rg
         else if kind \<noteq> 3 \<and> kind \<noteq> 4 then rg
         else case process_path w (sd_process event) of
                None \<Rightarrow> rg
              | Some path \<Rightarrow>
                  if \<not> (path_matches path (rg_applications rg) (rg_folders rg)
                        \<or> carries_certificate_check sysroot path (sd_protocol event) (sd_remote_port event)) then rg
                  else if sd_local_port event = 0 then rg
                  else if sd_protocol event \<noteq> 6 \<and> sd_protocol event \<noteq> 17 then rg
                  else add_process_selector order
                         (process_socket_selector (sd_protocol event) (sd_local_port event) (sd_remote_port event))
                         path (sd_process event) (if sd_endpoint event \<noteq> 0 then Some (sd_endpoint event) else None)
                         (rg\<lparr>rg_matched := rg_matched rg + 1\<rparr>))"

subsection \<open>Every change of the selectors\<close>

text \<open>
  The operations the threads of a capture apply, in the order they take the lock: the rules at the start,
  an address learned for a website, the tracker's sockets and events, the owner a capture thread finds
  for a packet, and the reaper.
\<close>

datatype selector_op =
    AddRule u32 u32 u8
  | LearnAddress ipv4 string
  | SeedSockets Windows
  | SocketEvent Windows u8 SocketData
  | OwnerFound u8 u16 "u16 option" string u32
  | ReapStale Windows

fun apply_op ::
  "(TrafficSelector \<times> string option) hash_order \<Rightarrow> string option \<Rightarrow> selector_op \<Rightarrow> 'a Selectors_scheme \<Rightarrow> 'a Selectors_scheme" where
  "apply_op order sysroot (AddRule first last_one node) rg = add_selector order (Destination first last_one) node rg"
| "apply_op order sysroot (LearnAddress address hostname) rg = add_hostname_address order address hostname rg"
| "apply_op order sysroot (SeedSockets w) rg = seed_sockets order w rg"
| "apply_op order sysroot (SocketEvent w kind event) rg = socket_event order sysroot w kind event rg"
| "apply_op order sysroot (OwnerFound protocol local_port remote_port path pid) rg =
     add_process_selector order (Flow protocol local_port remote_port) path pid None rg"
| "apply_op order sysroot (ReapStale w) rg = reap_stale_flows order w rg"

fun op_ok :: "selector_op \<Rightarrow> bool" where
  "op_ok (AddRule first last_one _) \<longleftrightarrow> first \<le> last_one"
| "op_ok _ \<longleftrightarrow> True"

definition fresh_selectors :: "TargetNodes \<Rightarrow> string list \<Rightarrow> string list \<Rightarrow> Selectors" where
  "fresh_selectors targets applications folders =
     \<lparr>rg_targets = targets, rg_state = \<lparr>st_selectors = [], st_owners = [], st_nodes = []\<rparr>,
      rg_table = \<lparr>tb_destinations = [], tb_flows = [], tb_len = 0\<rparr>, rg_version = 0, rg_labels = [],
      rg_paths = [], rg_handled = [], rg_applications = applications, rg_folders = folders,
      rg_classifier = [], rg_matched = 0\<rparr>"

definition hash_order :: "'a hash_order \<Rightarrow> bool" where
  "hash_order order \<longleftrightarrow> (\<forall>xs. mset (order xs) = mset xs)"

subsection \<open>The invariant of the selectors\<close>

fun is_flow :: "TrafficSelector \<Rightarrow> bool" where
  "is_flow (Flow _ _ _) \<longleftrightarrow> True"
| "is_flow (Destination _ _) \<longleftrightarrow> False"

definition selectors_ok :: "SelectorState \<Rightarrow> bool" where
  "selectors_ok st \<longleftrightarrow>
     distinct (map fst (st_selectors st)) \<and> distinct (map fst (st_owners st))
     \<and> fst ` set (st_owners st) = {k \<in> fst ` set (st_selectors st). is_flow k}
     \<and> (\<forall>(k, owners) \<in> set (st_owners st). owners \<noteq> [])
     \<and> (\<forall>(k, label) \<in> set (st_selectors st). \<not> is_flow k \<longrightarrow> label = None \<and> sel_first k \<le> sel_last k)"

lemma selectors_okD:
  assumes "selectors_ok st"
  shows "distinct (map fst (st_selectors st))" "distinct (map fst (st_owners st))"
    "fst ` set (st_owners st) = {k \<in> fst ` set (st_selectors st). is_flow k}"
    "\<forall>(k, owners) \<in> set (st_owners st). owners \<noteq> []"
    "\<forall>(k, label) \<in> set (st_selectors st). \<not> is_flow k \<longrightarrow> label = None \<and> sel_first k \<le> sel_last k"
  using assms unfolding selectors_ok_def by blast+

definition ranges_of :: "(TrafficSelector \<times> u8) list \<Rightarrow> (TrafficSelector \<times> string option) list \<Rightarrow> drange list" where
  "ranges_of nodes selectors = List.map_filter (\<lambda>(selector, _). destination_range nodes selector) selectors"

definition table_current :: "SelectorState \<Rightarrow> SelectorTable \<Rightarrow> bool" where
  "table_current st table \<longleftrightarrow>
     (\<exists>xs. mset xs = mset (st_selectors st) \<and> tb_destinations table = layer_destinations (ranges_of (st_nodes st) xs))
     \<and> (\<forall>p l r. map_option m_application (map_of (tb_flows table) (p, l, r)) = map_of (st_selectors st) (Flow p l r))
     \<and> tb_len table = length (st_selectors st)"

definition selectors_wf :: "'a Selectors_scheme \<Rightarrow> bool" where
  "selectors_wf rg \<longleftrightarrow> selectors_ok (rg_state rg) \<and> table_current (rg_state rg) (rg_table rg)"

lemma flows_of_selectors:
  assumes "distinct (map fst xs)"
  shows "map_option m_application
           (map_of (List.map_filter (\<lambda>(selector, application). flow_selection owners targets selector application) xs) (p, l, r))
         = map_of xs (Flow p l r)"
  using assms
proof (induction xs)
  case (Cons x xs)
  obtain k label where x: "x = (k, label)" by (cases x)
  have "map_of xs k = None" using Cons.prems by (simp add: x map_of_eq_None_iff)
  then show ?case using Cons by (cases k) (auto simp: x List.map_filter_simps Let_def)
qed (simp add: List.map_filter_simps)

lemma map_of_perm: "mset xs = mset ys \<Longrightarrow> distinct (map fst ys) \<Longrightarrow> map_of xs k = map_of ys k"
proof -
  assume a: "mset xs = mset ys" "distinct (map fst ys)"
  then have "distinct (map fst xs)" by (metis mset_map mset_eq_imp_distinct_iff)
  with a show ?thesis by (intro option_eqI_Some) (metis map_of_eq_Some_iff mset_eq_setD)
qed

lemma publish_current:
  assumes "hash_order order" "selectors_ok st"
  shows "table_current st (build_with_owners (order (st_selectors st)) (st_owners st) (st_nodes st) targets)"
proof -
  have perm: "mset (order (st_selectors st)) = mset (st_selectors st)"
    using assms(1) by (simp add: hash_order_def)
  have dist: "distinct (map fst (st_selectors st))" using assms(2) by (simp add: selectors_ok_def)
  then have "distinct (map fst (order (st_selectors st)))" using perm by (metis mset_map mset_eq_imp_distinct_iff)
  from flows_of_selectors [OF this] show ?thesis
    unfolding table_current_def build_with_owners_def ranges_of_def
    using perm map_of_perm [OF perm dist] mset_eq_length [OF perm] by (auto simp: ranges_of_def)
qed

lemma published_wf:
  "hash_order order \<Longrightarrow> selectors_ok st \<Longrightarrow> selectors_wf (publish_selectors order st rg)"
  by (simp add: selectors_wf_def publish_selectors_def publish_current)

lemma table_current_cong:
  "table_current st table \<Longrightarrow> st_selectors st' = st_selectors st \<Longrightarrow> st_nodes st' = st_nodes st \<Longrightarrow> table_current st' table"
  by (simp add: table_current_def)

lemma selectors_wf_cong:
  "selectors_wf rg \<Longrightarrow> rg_state rg' = rg_state rg \<Longrightarrow> rg_table rg' = rg_table rg \<Longrightarrow> selectors_wf rg'"
  by (simp add: selectors_wf_def)

subsubsection \<open>A destination\<close>

lemma set_update: "distinct (map fst xs) \<Longrightarrow> set (AList.update k v xs) = insert (k, v) {x \<in> set xs. fst x \<noteq> k}"
  by (induction xs) (auto simp: image_iff)

lemma add_selector_wf:
  assumes "hash_order order" "selectors_wf rg" "first \<le> last_one"
  shows "selectors_wf (add_selector order (Destination first last_one) node rg)"
proof -
  let ?st = "rg_state rg" and ?k = "Destination first last_one"
  have ok: "selectors_ok ?st" and cur: "table_current ?st (rg_table rg)"
    using assms(2) by (simp_all add: selectors_wf_def)
  have dist: "distinct (map fst (st_selectors ?st))" using ok by (simp add: selectors_ok_def)
  define st' where "st' = ?st\<lparr>st_selectors := AList.update ?k None (st_selectors ?st),
                              st_nodes := AList.update ?k node (st_nodes ?st)\<rparr>"
  have ok': "selectors_ok st'"
    unfolding selectors_ok_def
  proof (intro conjI)
    show "fst ` set (st_owners st') = {k \<in> fst ` set (st_selectors st'). is_flow k}"
      using selectors_okD(3) [OF ok] by (auto simp: st'_def AList.dom_update)
    show "\<forall>(k, label) \<in> set (st_selectors st'). \<not> is_flow k \<longrightarrow> label = None \<and> sel_first k \<le> sel_last k"
      using selectors_okD(5) [OF ok] assms(3) by (auto simp: st'_def set_update [OF dist])
  qed (use ok in \<open>simp_all add: st'_def selectors_ok_def AList.distinct_update\<close>)
  have none: "label = None" if "map_of (st_selectors ?st) ?k = Some label" for label
    using ok map_of_SomeD [OF that] by (auto simp: selectors_ok_def)
  show ?thesis
  proof (cases "map_of (st_selectors ?st) ?k = None \<or> map_of (st_nodes ?st) ?k \<noteq> Some node")
    case True
    then have "add_selector order ?k node rg = publish_selectors order st' rg"
      by (simp add: add_selector_def st'_def Let_def)
    then show ?thesis by (simp add: published_wf assms(1) ok')
  next
    case False
    then have "map_of (st_selectors ?st) ?k = Some None" "map_of (st_nodes ?st) ?k = Some node"
      using none by (cases "map_of (st_selectors ?st) ?k"; auto)+
    then have "st' = ?st" by (simp add: st'_def AList.update_triv)
    moreover have "add_selector order ?k node rg = rg\<lparr>rg_state := st'\<rparr>"
      unfolding add_selector_def Let_def st'_def using False by (simp only: if_False)
    ultimately show ?thesis using assms(2) by simp
  qed
qed

lemma add_hostname_address_wf:
  "hash_order order \<Longrightarrow> selectors_wf rg \<Longrightarrow> selectors_wf (add_hostname_address order address hostname rg)"
  unfolding add_hostname_address_def Let_def
  by (rule add_selector_wf) (simp_all add: selectors_wf_def)

subsubsection \<open>A flow\<close>

lemma with_owner_nonempty: "fst (with_owner owner owners) \<noteq> []"
proof -
  have "update_first P f xs \<noteq> []" if "\<exists>x \<in> set xs. Q x" for P f Q and xs :: "FlowOwner list"
    using that by (cases xs) auto
  then show ?thesis by (auto simp: with_owner_def Let_def)
qed

lemma add_process_selector_wf:
  assumes "hash_order order" "selectors_wf rg"
  shows "selectors_wf (add_process_selector order (Flow p l r) path pid endpoint rg)"
proof -
  let ?st = "rg_state rg" and ?k = "Flow p l r"
  let ?held = "case map_of (st_owners ?st) ?k of None \<Rightarrow> [] | Some os \<Rightarrow> os"
  let ?owner = "\<lparr>fo_endpoint = endpoint, fo_process = pid, fo_path = path, fo_stale = 0\<rparr>"
  obtain owners added where w: "with_owner ?owner ?held = (owners, added)" by force
  have ok: "selectors_ok ?st" and cur: "table_current ?st (rg_table rg)"
    using assms(2) by (simp_all add: selectors_wf_def)
  have dist: "distinct (map fst (st_selectors ?st))" "distinct (map fst (st_owners ?st))"
    using ok by (simp_all add: selectors_ok_def)
  define st' where "st' = ?st\<lparr>st_owners := AList.update ?k owners (st_owners ?st),
                              st_selectors := AList.update ?k (Some (process_name path)) (st_selectors ?st)\<rparr>"
  have ne: "owners \<noteq> []" using with_owner_nonempty [of ?owner ?held] w by simp
  have ok': "selectors_ok st'"
    unfolding selectors_ok_def
  proof (intro conjI)
    show "fst ` set (st_owners st') = {k \<in> fst ` set (st_selectors st'). is_flow k}"
      using selectors_okD(3) [OF ok] by (auto simp: st'_def AList.dom_update)
    show "\<forall>(k, owners) \<in> set (st_owners st'). owners \<noteq> []"
      using selectors_okD(4) [OF ok] ne by (auto simp: st'_def set_update [OF dist(2)])
    show "\<forall>(k, label) \<in> set (st_selectors st'). \<not> is_flow k \<longrightarrow> label = None \<and> sel_first k \<le> sel_last k"
      using selectors_okD(5) [OF ok] by (auto simp: st'_def set_update [OF dist(1)])
  qed (use ok in \<open>simp_all add: st'_def selectors_ok_def AList.distinct_update\<close>)
  have eq: "add_process_selector order ?k path pid endpoint rg =
            (if added \<or> map_of (st_selectors ?st) ?k \<noteq> Some (Some (process_name path))
             then publish_selectors order st' rg else rg\<lparr>rg_state := st'\<rparr>)"
    unfolding add_process_selector_def Let_def by (simp only: w case_prod_conv st'_def)
  show ?thesis
  proof (cases "added \<or> map_of (st_selectors ?st) ?k \<noteq> Some (Some (process_name path))")
    case True
    then show ?thesis unfolding eq by (simp add: published_wf assms(1) ok')
  next
    case False
    then have "st_selectors st' = st_selectors ?st" by (simp add: st'_def AList.update_triv)
    then have "table_current st' (rg_table rg)" by (intro table_current_cong [OF cur]) (simp_all add: st'_def)
    then show ?thesis unfolding eq using False ok' by (simp add: selectors_wf_def)
  qed
qed

subsubsection \<open>Owners that leave\<close>

definition sweep_of :: "(TrafficSelector \<Rightarrow> FlowOwner list \<Rightarrow> FlowOwner list) \<Rightarrow> SelectorState \<Rightarrow> sweep" where
  "sweep_of F st = map (\<lambda>(k, owners). (k, owners, F k owners)) (st_owners st)"

lemma fold_update_keys:
  "fst ` set rs \<subseteq> fst ` set xs \<Longrightarrow>
   map fst (fold (\<lambda>(k, v). AList.update k (g v)) rs xs) = map fst xs"
proof (induction rs arbitrary: xs)
  case (Cons r rs)
  obtain k v where r: "r = (k, v)" by (cases r)
  have k: "k \<in> fst ` set xs" "fst ` set rs \<subseteq> fst ` set xs" using Cons.prems by (auto simp: r)
  then have "fst ` set rs \<subseteq> fst ` set (AList.update k (g v) xs)" by (auto simp: AList.dom_update)
  from Cons.IH [OF this] show ?case using k(1) by (simp add: r AList.update_keys)
qed simp

lemma fold_update_other:
  "k \<notin> fst ` set rs \<Longrightarrow> map_of (fold (\<lambda>(k, v). AList.update k (g v)) rs xs) k = map_of xs k"
  by (induction rs arbitrary: xs) (auto simp: AList.update_conv')

lemma settle_owners_ok:
  assumes ok: "selectors_ok st"
  shows "selectors_ok (settle_owners (sweep_of F st) st)"
    and "st_nodes (settle_owners (sweep_of F st) st) = st_nodes st"
    and "(\<forall>(k, owners) \<in> set (st_owners st). length (F k owners) = length owners) \<Longrightarrow>
         st_selectors (settle_owners (sweep_of F st) st) = st_selectors st"
proof -
  let ?swept = "sweep_of F st"
  define emptied where "emptied = map fst (filter (\<lambda>(_, _, after). after = []) ?swept)"
  define relabeled where "relabeled = map (\<lambda>(selector, _, after). (selector, process_name (fo_path (last after))))
                        (filter (\<lambda>(_, before, after). after \<noteq> [] \<and> length after \<noteq> length before) ?swept)"
  define sels where "sels = fold (\<lambda>(selector, application). AList.update selector (Some application)) relabeled (st_selectors st)"
  define owners where "owners = map (\<lambda>(selector, _, after). (selector, after)) ?swept"
  have settle: "settle_owners ?swept st =
      st\<lparr>st_selectors := filter (\<lambda>(k, _). k \<notin> set emptied) sels, st_owners := filter (\<lambda>(k, _). k \<notin> set emptied) owners\<rparr>"
    by (simp add: settle_owners_def emptied_def relabeled_def sels_def owners_def Let_def)
  have owner_keys: "map fst owners = map fst (st_owners st)"
    by (simp add: owners_def sweep_of_def split_beta comp_def)
  have flows: "fst ` set (st_owners st) = {k \<in> fst ` set (st_selectors st). is_flow k}" by (rule selectors_okD(3) [OF ok])
  have relabeled_keys: "fst ` set relabeled \<subseteq> fst ` set (st_owners st)"
    by (force simp: relabeled_def sweep_of_def)
  then have keys: "map fst sels = map fst (st_selectors st)"
    unfolding sels_def using flows by (intro fold_update_keys) blast
  have same: "label = None \<and> sel_first k \<le> sel_last k" if "(k, label) \<in> set sels" "\<not> is_flow k" for k label
  proof -
    have "k \<notin> fst ` set relabeled" using relabeled_keys flows that(2) by blast
    then have "map_of sels k = map_of (st_selectors st) k" unfolding sels_def by (rule fold_update_other)
    moreover have "map_of sels k = Some label" using that(1) keys selectors_okD(1) [OF ok] by simp
    ultimately have "(k, label) \<in> set (st_selectors st)" by (simp add: map_of_SomeD)
    then show ?thesis using selectors_okD(5) [OF ok] that(2) by auto
  qed
  have filtered: "fst ` set (filter (\<lambda>(k, _). k \<notin> E) xs) = fst ` set xs - E" for E and xs :: "(TrafficSelector \<times> 'z) list"
    by force
  let ?sels = "filter (\<lambda>(k, _). k \<notin> set emptied) sels" and ?owners = "filter (\<lambda>(k, _). k \<notin> set emptied) owners"
  have "inj_on fst (set sels)" "distinct sels" "inj_on fst (set owners)" "distinct owners"
    using selectors_okD(1,2) [OF ok] keys owner_keys by (metis distinct_map)+
  then have dist: "distinct (map fst ?sels)" "distinct (map fst ?owners)"
    by (auto simp: distinct_map intro: inj_on_subset)
  have "fst ` set owners = {k \<in> fst ` set sels. is_flow k}" using flows owner_keys keys by (metis list.set_map)
  then have flows': "fst ` set ?owners = {k \<in> fst ` set ?sels. is_flow k}"
    unfolding filtered by auto
  have nonempty: "\<forall>(k, os) \<in> set ?owners. os \<noteq> []" by (force simp: owners_def emptied_def sweep_of_def)
  have plain: "\<forall>(k, label) \<in> set ?sels. \<not> is_flow k \<longrightarrow> label = None \<and> sel_first k \<le> sel_last k"
    using same by auto
  show "selectors_ok (settle_owners ?swept st)"
    unfolding selectors_ok_def settle using dist flows' nonempty plain by auto
  show "st_nodes (settle_owners ?swept st) = st_nodes st" by (simp add: settle)
  assume all: "\<forall>(k, owners) \<in> set (st_owners st). length (F k owners) = length owners"
  then have "relabeled = []" by (force simp: relabeled_def sweep_of_def filter_empty_conv)
  moreover have "emptied = []"
    using all selectors_okD(4) [OF ok] by (force simp: emptied_def sweep_of_def filter_empty_conv)
  ultimately show "st_selectors (settle_owners ?swept st) = st_selectors st" by (simp add: settle sels_def)
qed

lemma settled_wf:
  assumes "hash_order order" "selectors_wf rg"
    and "\<not> publish \<Longrightarrow> \<forall>(k, owners) \<in> set (st_owners (rg_state rg)). length (F k owners) = length owners"
  shows "selectors_wf (let st' = settle_owners (sweep_of F (rg_state rg)) (rg_state rg)
                       in if publish then publish_selectors order st' rg else rg\<lparr>rg_state := st'\<rparr>)"
proof -
  have ok: "selectors_ok (rg_state rg)" and cur: "table_current (rg_state rg) (rg_table rg)"
    using assms(2) by (simp_all add: selectors_wf_def)
  show ?thesis
  proof (cases publish)
    case True
    then show ?thesis by (simp add: Let_def published_wf assms(1) settle_owners_ok(1) [OF ok])
  next
    case False
    have "table_current (settle_owners (sweep_of F (rg_state rg)) (rg_state rg)) (rg_table rg)"
      by (intro table_current_cong [OF cur] settle_owners_ok(2,3) [OF ok] assms(3) [OF False])
    then show ?thesis using False settle_owners_ok(1) [OF ok, of F] by (simp add: Let_def selectors_wf_def)
  qed
qed

lemma selectors_wf_routes: "selectors_wf (remove_owned_routes removed rg) \<longleftrightarrow> selectors_wf rg"
  by (simp add: remove_owned_routes_def selectors_wf_def Let_def)

lemma remove_closed_socket_wf:
  assumes "hash_order order" "selectors_wf rg"
  shows "selectors_wf (remove_closed_socket order event rg)"
proof -
  let ?F = "\<lambda>k :: TrafficSelector. filter (\<lambda>owner. \<not> exact_endpoint event owner)"
  define removed where "removed = concat (map (\<lambda>(selector, owners). map (\<lambda>owner. (fo_process owner, selector))
                                   (filter (exact_endpoint event) owners)) (st_owners (rg_state rg)))"
  have "length (?F k owners) = length owners" if "removed = []" "(k, owners) \<in> set (st_owners (rg_state rg))" for k owners
    using that by (auto simp: removed_def filter_empty_conv intro!: arg_cong [where f = length] filter_True)
  then have "selectors_wf (let st' = settle_owners (sweep_of ?F (rg_state rg)) (rg_state rg)
                           in if removed \<noteq> [] then publish_selectors order st' rg else rg\<lparr>rg_state := st'\<rparr>)"
    by (intro settled_wf [OF assms]) auto
  then show ?thesis
    unfolding remove_closed_socket_def by (simp add: Let_def selectors_wf_routes sweep_of_def removed_def)
qed

lemma reap_stale_flows_wf:
  assumes "hash_order order" "selectors_wf rg"
  shows "selectors_wf (reap_stale_flows order w rg)"
proof (cases "existing_ipv4_process_sockets w")
  case None
  then show ?thesis using assms(2) by (simp add: reap_stale_flows_def)
next
  case (Some sockets)
  let ?obs = "observe_owner w sockets (recently_routed (now_is w) (rg_paths rg))"
  let ?F = "\<lambda>k owners. filter (\<lambda>owner. \<not> confirmed_stale owner) (map (?obs k) owners)"
  define stale where "stale = concat (map (\<lambda>(selector, owners). map (\<lambda>owner. (fo_process owner, selector))
                                (filter confirmed_stale (map (?obs selector) owners))) (st_owners (rg_state rg)))"
  have "length (?F k owners) = length owners" if "stale = []" "(k, owners) \<in> set (st_owners (rg_state rg))" for k owners
  proof -
    have "\<forall>owner \<in> set (map (?obs k) owners). \<not> confirmed_stale owner"
      using that by (fastforce simp: stale_def filter_empty_conv)
    then show ?thesis by (metis (mono_tags, lifting) filter_True length_map)
  qed
  then have "selectors_wf (let st' = settle_owners (sweep_of ?F (rg_state rg)) (rg_state rg)
                           in if stale \<noteq> [] then publish_selectors order st' rg else rg\<lparr>rg_state := st'\<rparr>)"
    by (intro settled_wf [OF assms]) auto
  then show ?thesis
    unfolding reap_stale_flows_def Some option.case
    by (simp add: Let_def selectors_wf_routes sweep_of_def stale_def split_def comp_def split del: if_split cong: if_cong)
qed

subsubsection \<open>Every operation\<close>

lemma seed_sockets_wf:
  assumes "hash_order order" "selectors_wf rg"
  shows "selectors_wf (seed_sockets order w rg)"
proof -
  have "selectors_wf (fold (seed_socket order w) sockets rg)" for sockets
    using assms(2)
  proof (induction sockets arbitrary: rg)
    case (Cons s sockets)
    have "selectors_wf (rg\<lparr>rg_matched := rg_matched rg + 1\<rparr>)" using Cons.prems by (simp add: selectors_wf_def)
    then have "selectors_wf (seed_socket order w s rg)" using Cons.prems
      by (auto simp: seed_socket_def process_socket_selector_def add_process_selector_wf [OF assms(1)] split: option.splits)
    then show ?case using Cons.IH by simp
  qed simp
  then show ?thesis by (simp add: seed_sockets_def)
qed

lemma socket_event_wf:
  assumes "hash_order order" "selectors_wf rg"
  shows "selectors_wf (socket_event order sysroot w kind event rg)"
proof -
  define rg' where "rg' = (if sd_protocol event = 17
                then rg\<lparr>rg_classifier := socket_changed (sd_local_port event) (rg_classifier rg)\<rparr> else rg)"
  have "selectors_wf rg'" "selectors_wf (rg'\<lparr>rg_matched := n\<rparr>)" for n
    using assms(2) by (simp_all add: rg'_def selectors_wf_def)
  then show ?thesis
    unfolding socket_event_def rg'_def [symmetric] Let_def
    by (auto simp: process_socket_selector_def add_process_selector_wf [OF assms(1)]
          remove_closed_socket_wf [OF assms(1)] split: option.splits)
qed

lemma apply_op_wf:
  assumes "hash_order order" "selectors_wf rg" "op_ok op"
  shows "selectors_wf (apply_op order sysroot op rg)"
  using assms
  by (cases op) (auto simp: add_selector_wf add_hostname_address_wf seed_sockets_wf socket_event_wf
                   add_process_selector_wf reap_stale_flows_wf)

lemma apply_ops_wf:
  assumes "hash_order order" "selectors_wf rg" "\<forall>op \<in> set ops. op_ok op"
  shows "selectors_wf (fold (apply_op order sysroot) ops rg)"
  using assms(2,3) by (induction ops arbitrary: rg) (simp_all add: apply_op_wf [OF assms(1)])

lemma fresh_selectors_wf: "selectors_wf (fresh_selectors targets applications folders)"
proof -
  have "layer_destinations [] = []" by (simp add: layer_destinations_def by_width_def)
  then show ?thesis
    by (simp add: selectors_wf_def fresh_selectors_def selectors_ok_def table_current_def ranges_of_def
          List.map_filter_simps)
qed

subsection \<open>What the table answers\<close>

text \<open>
  The plain meaning of the selectors, as \<^verbatim>\<open>TrafficSelector::matches\<close> gives it: a packet is selected when
  some selector matches it, it belongs to the flow selected for its exact ports before the one for any
  remote port, and a destination rule decides the node, the narrowest first.
\<close>

definition selected_by :: "SelectorState \<Rightarrow> Ipv4Fields \<Rightarrow> bool" where
  "selected_by st f \<longleftrightarrow> (\<exists>k \<in> fst ` set (st_selectors st). selector_matches k f)"

definition flow_label :: "SelectorState \<Rightarrow> Ipv4Fields \<Rightarrow> string option" where
  "flow_label st f =
     (case map_of (st_selectors st) (Flow (f_protocol f) (f_source_port f) (Some (f_destination_port f))) of
        Some label \<Rightarrow> label
      | None \<Rightarrow> (case map_of (st_selectors st) (Flow (f_protocol f) (f_source_port f) None) of
                   Some label \<Rightarrow> label | None \<Rightarrow> None))"

definition node_of_selector :: "SelectorState \<Rightarrow> TrafficSelector \<Rightarrow> u8" where
  "node_of_selector st k = (case map_of (st_nodes st) k of None \<Rightarrow> 0 | Some node \<Rightarrow> node)"

definition narrowest_match :: "SelectorState \<Rightarrow> Ipv4Fields \<Rightarrow> TrafficSelector \<Rightarrow> bool" where
  "narrowest_match st f k \<longleftrightarrow>
     k \<in> fst ` set (st_selectors st) \<and> \<not> is_flow k \<and> selector_matches k f
     \<and> (\<forall>k' \<in> fst ` set (st_selectors st). \<not> is_flow k' \<and> selector_matches k' f \<longrightarrow>
          sel_last k - sel_first k \<le> sel_last k' - sel_first k')"

lemma set_ranges_of:
  "(first, last_one, node) \<in> set (ranges_of nodes xs) \<longleftrightarrow>
   Destination first last_one \<in> fst ` set xs \<and> node = (case map_of nodes (Destination first last_one) of None \<Rightarrow> 0 | Some n \<Rightarrow> n)"
proof (induction xs)
  case (Cons x xs)
  obtain k label where x: "x = (k, label)" by (cases x)
  show ?case using Cons by (cases k) (auto simp: x ranges_of_def List.map_filter_simps)
qed (simp add: ranges_of_def List.map_filter_simps)

lemma current_ranges:
  assumes "selectors_ok st" "table_current st table"
  obtains ranges where "tb_destinations table = layer_destinations ranges"
    and "\<forall>(first, last_one, _) \<in> set ranges. first \<le> last_one"
    and "\<And>first last_one node. (first, last_one, node) \<in> set ranges \<longleftrightarrow>
           Destination first last_one \<in> fst ` set (st_selectors st) \<and> node = node_of_selector st (Destination first last_one)"
proof -
  obtain xs where xs: "mset xs = mset (st_selectors st)" "tb_destinations table = layer_destinations (ranges_of (st_nodes st) xs)"
    using assms(2) by (auto simp: table_current_def)
  have mem: "(first, last_one, node) \<in> set (ranges_of (st_nodes st) xs) \<longleftrightarrow>
           Destination first last_one \<in> fst ` set (st_selectors st) \<and> node = node_of_selector st (Destination first last_one)"
    for first last_one node
    unfolding set_ranges_of mset_eq_setD [OF xs(1)] by (simp add: node_of_selector_def)
  moreover have "\<forall>(first, last_one, _) \<in> set (ranges_of (st_nodes st) xs). first \<le> last_one"
    using selectors_okD(5) [OF assms(1)] mem by fastforce
  ultimately show thesis using that [OF xs(2)] by blast
qed

lemma narrowest_matchD:
  assumes "tb_destinations table = layer_destinations ranges"
    and "\<forall>(first, last_one, _) \<in> set ranges. first \<le> last_one"
    and mem: "\<And>first last_one node. (first, last_one, node) \<in> set ranges \<longleftrightarrow>
           Destination first last_one \<in> fst ` set (st_selectors st) \<and> node = node_of_selector st (Destination first last_one)"
  shows "case destination_node (tb_destinations table) (of_be32 (f_destination f)) of
           None \<Rightarrow> \<forall>k \<in> fst ` set (st_selectors st). \<not> is_flow k \<longrightarrow> \<not> selector_matches k f
         | Some n \<Rightarrow> \<exists>k. narrowest_match st f k \<and> n = node_of_selector st k"
proof -
  let ?a = "of_be32 (f_destination f)"
  let ?hits = "rev (filter (holds_address ?a) ranges)"
  have holds: "holds_address ?a (first, last_one, node) \<longleftrightarrow> selector_matches (Destination first last_one) f" for first last_one node
    by (simp add: holds_address_def)
  have hit: "k \<in> fst ` set (st_selectors st) \<Longrightarrow> \<not> is_flow k \<Longrightarrow> selector_matches k f \<Longrightarrow>
             (sel_first k, sel_last k, node_of_selector st k) \<in> set ?hits" for k
    using mem holds by (cases k) auto
  have node: "destination_node (tb_destinations table) ?a = map_option (snd \<circ> snd) (min_by_key width ?hits)"
    unfolding assms(1) by (rule narrowest_range_wins [OF assms(2)])
  show ?thesis
  proof (cases "min_by_key width ?hits")
    case None
    then have "?hits = []" by simp
    then show ?thesis using hit unfolding node None by (auto simp: image_iff)
  next
    case (Some r)
    obtain first last_one n where r: "r = (first, last_one, n)" by (cases r)
    let ?k = "Destination first last_one"
    have "r \<in> set ?hits" by (rule min_by_key_in [OF Some])
    then have k: "?k \<in> fst ` set (st_selectors st)" "n = node_of_selector st ?k" "selector_matches ?k f"
      using mem holds by (auto simp: r)
    have "sel_last ?k - sel_first ?k \<le> sel_last k' - sel_first k'"
      if "k' \<in> fst ` set (st_selectors st)" "\<not> is_flow k'" "selector_matches k' f" for k'
      using min_by_key_min [OF Some hit [OF that]] by (simp add: r width_def word_le_nat_alt)
    then have "narrowest_match st f ?k" using k by (simp add: narrowest_match_def)
    then show ?thesis unfolding node Some using k(2) by (auto simp: r)
  qed
qed

lemma flow_selected_iff:
  "(\<exists>k \<in> fst ` set (st_selectors st). is_flow k \<and> selector_matches k f) \<longleftrightarrow>
   map_of (st_selectors st) (Flow (f_protocol f) (f_source_port f) (Some (f_destination_port f))) \<noteq> None
   \<or> map_of (st_selectors st) (Flow (f_protocol f) (f_source_port f) None) \<noteq> None"
  (is "?l \<longleftrightarrow> ?r")
proof -
  have flow: "is_flow k \<and> selector_matches k f \<longleftrightarrow>
    k = Flow (f_protocol f) (f_source_port f) (Some (f_destination_port f)) \<or> k = Flow (f_protocol f) (f_source_port f) None" for k
    by (cases k) (auto split: option.splits)
  have "?l \<longleftrightarrow> (\<exists>k \<in> fst ` set (st_selectors st).
      k = Flow (f_protocol f) (f_source_port f) (Some (f_destination_port f)) \<or> k = Flow (f_protocol f) (f_source_port f) None)"
    by (intro bex_cong refl flow)
  moreover have "(\<exists>k \<in> A. k = a \<or> k = b) \<longleftrightarrow> a \<in> A \<or> b \<in> A" for A and a b :: TrafficSelector by blast
  ultimately show ?thesis by (simp only: map_of_eq_None_iff not_not)
qed

lemma lookup_meaning:
  assumes "selectors_wf rg"
  shows "case table_lookup (rg_table rg) f of
           None \<Rightarrow> \<not> selected_by (rg_state rg) f
         | Some m \<Rightarrow> selected_by (rg_state rg) f \<and> m_application m = flow_label (rg_state rg) f
                     \<and> ((\<exists>k. narrowest_match (rg_state rg) f k) \<longrightarrow>
                        (\<exists>k. narrowest_match (rg_state rg) f k \<and> m_node m = node_of_selector (rg_state rg) k))"
proof -
  let ?st = "rg_state rg" and ?t = "rg_table rg"
  have ok: "selectors_ok ?st" and cur: "table_current ?st ?t" using assms by (simp_all add: selectors_wf_def)
  obtain ranges where "tb_destinations ?t = layer_destinations ranges"
    "\<forall>(first, last_one, _) \<in> set ranges. first \<le> last_one"
    "\<And>first last_one node. (first, last_one, node) \<in> set ranges \<longleftrightarrow>
       Destination first last_one \<in> fst ` set (st_selectors ?st) \<and> node = node_of_selector ?st (Destination first last_one)"
    using current_ranges [OF ok cur] by blast
  note dest = narrowest_matchD [OF this, of f]
  have labels: "map_option m_application (map_of (tb_flows ?t) (p, l, r)) = map_of (st_selectors ?st) (Flow p l r)" for p l r
    using cur by (simp add: table_current_def)
  let ?exact = "map_of (tb_flows ?t) (f_protocol f, f_source_port f, Some (f_destination_port f))"
  let ?any = "map_of (tb_flows ?t) (f_protocol f, f_source_port f, None)"
  have split: "selected_by ?st f \<longleftrightarrow> ?exact \<noteq> None \<or> ?any \<noteq> None \<or>
                 (\<exists>k \<in> fst ` set (st_selectors ?st). \<not> is_flow k \<and> selector_matches k f)"
  proof -
    have "selected_by ?st f \<longleftrightarrow> (\<exists>k \<in> fst ` set (st_selectors ?st). is_flow k \<and> selector_matches k f)
            \<or> (\<exists>k \<in> fst ` set (st_selectors ?st). \<not> is_flow k \<and> selector_matches k f)"
      unfolding selected_by_def by blast
    then show ?thesis unfolding flow_selected_iff labels [symmetric] by simp
  qed
  have label: "flow_label ?st f = (case (case ?exact of Some m \<Rightarrow> Some m | None \<Rightarrow> ?any) of Some m \<Rightarrow> m_application m | None \<Rightarrow> None)"
    unfolding flow_label_def labels [symmetric] by (simp split: option.splits)
  have none: "\<not> narrowest_match ?st f k" if "destination_node (tb_destinations ?t) (of_be32 (f_destination f)) = None" for k
    using dest that by (auto simp: narrowest_match_def)
  have some: "(\<exists>k \<in> fst ` set (st_selectors ?st). \<not> is_flow k \<and> selector_matches k f)"
    "\<exists>k. narrowest_match ?st f k \<and> n = node_of_selector ?st k"
    if "destination_node (tb_destinations ?t) (of_be32 (f_destination f)) = Some n" for n
    using dest that by (auto simp: narrowest_match_def)
  have unmatched: "\<not> (\<exists>k \<in> fst ` set (st_selectors ?st). \<not> is_flow k \<and> selector_matches k f)"
    if "destination_node (tb_destinations ?t) (of_be32 (f_destination f)) = None"
    using dest that by auto
  show ?thesis
  proof (cases "case ?exact of Some m \<Rightarrow> Some m | None \<Rightarrow> ?any")
    case None
    then have "?exact = None" "?any = None" by (auto split: option.splits)
    note flows = this
    show ?thesis
    proof (cases "destination_node (tb_destinations ?t) (of_be32 (f_destination f))")
      case None
      then have "\<not> selected_by ?st f" using split flows unmatched [OF None] by simp
      then show ?thesis using None flows by (simp add: table_lookup_def Let_def)
    next
      case (Some n)
      then have "selected_by ?st f" "flow_label ?st f = None" using split flows some(1) label by auto
      then show ?thesis using Some flows some(2) [OF Some] by (simp add: table_lookup_def Let_def)
    qed
  next
    case (Some m)
    then have "selected_by ?st f" "flow_label ?st f = m_application m"
      using split label by (auto split: option.splits)
    then show ?thesis using Some none some
      by (cases "destination_node (tb_destinations ?t) (of_be32 (f_destination f))")
         (auto simp: table_lookup_def Let_def)
  qed
qed

subsection \<open>The reaper\<close>

lemma settled_owner:
  assumes ok: "selectors_ok st" and k: "(k, owners) \<in> set (st_owners st)" and "owner \<in> set (F k owners)"
  shows "(k, F k owners) \<in> set (st_owners (settle_owners (sweep_of F st) st))"
proof -
  have "k \<notin> set (map fst (filter (\<lambda>(_, _, after). after = []) (sweep_of F st)))"
  proof
    assume "k \<in> set (map fst (filter (\<lambda>(_, _, after). after = []) (sweep_of F st)))"
    then obtain owners' where "(k, owners') \<in> set (st_owners st)" "F k owners' = []" by (auto simp: sweep_of_def)
    moreover from this(1) k have "owners' = owners"
      using eq_key_imp_eq_value [OF selectors_okD(2) [OF ok]] by blast
    ultimately show False using assms(3) by simp
  qed
  moreover have "(k, F k owners) \<in> set (map (\<lambda>(selector, _, after). (selector, after)) (sweep_of F st))"
    using k by (force simp: sweep_of_def)
  ultimately show ?thesis by (simp add: settle_owners_def Let_def)
qed

lemma reap_state:
  assumes "existing_ipv4_process_sockets w = Some sockets"
  shows "rg_state (reap_stale_flows order w rg) =
         settle_owners (sweep_of (\<lambda>k owners. filter (\<lambda>owner. \<not> confirmed_stale owner)
                                   (map (observe_owner w sockets (recently_routed (now_is w) (rg_paths rg)) k) owners)) (rg_state rg))
           (rg_state rg)"
  using assms
  by (simp add: reap_stale_flows_def Let_def remove_owned_routes_def publish_selectors_def sweep_of_def split_def comp_def)

lemma reap_keeps_unconfirmed:
  assumes ok: "selectors_ok (rg_state rg)" and k: "(k, owners) \<in> set (st_owners (rg_state rg))" "owner \<in> set owners"
    and w: "existing_ipv4_process_sockets w = Some sockets"
    and o': "o' = observe_owner w sockets (recently_routed (now_is w) (rg_paths rg)) k owner" "\<not> confirmed_stale o'"
  obtains owners' where "(k, owners') \<in> set (st_owners (rg_state (reap_stale_flows order w rg)))" "o' \<in> set owners'"
proof -
  let ?F = "\<lambda>k owners. filter (\<lambda>owner. \<not> confirmed_stale owner)
              (map (observe_owner w sockets (recently_routed (now_is w) (rg_paths rg)) k) owners)"
  have "o' \<in> set (?F k owners)" using k(2) o' by auto
  from settled_owner [of "rg_state rg" k owners o' ?F, OF ok k(1) this] that this
  show thesis unfolding reap_state [OF w] by blast
qed

lemma same_owner_observe: "same_owner (observe_owner w sockets recent k owner) owner"
  by (simp add: same_owner_def observe_owner_def)

definition sample_windows :: Windows where
  "sample_windows = \<lparr>udp_rows = Some [], tcp_rows = Some [], tcp_listeners = None, process_path = (\<lambda>_. None), now_is = 0\<rparr>"

definition sample_ops :: "selector_op list" where
  "sample_ops = [AddRule 0x0A000000 0x0AFFFFFF 1, AddRule 0x0A000001 0x0A000001 2, OwnerFound 17 5000 None ''game.exe'' 42]"

definition sample_selectors :: Selectors where
  "sample_selectors = fold (apply_op rev None) sample_ops
     (fresh_selectors \<lparr>tn_applications = [], tn_folders = [], tn_hostnames = []\<rparr> [''game.exe''] [])"

lemma hash_order_rev: "hash_order rev"
  by (simp add: hash_order_def)

lemma sample_selectors_wf: "selectors_wf sample_selectors"
  unfolding sample_selectors_def
  by (rule apply_ops_wf [OF hash_order_rev fresh_selectors_wf]) (simp add: sample_ops_def)

lemma sample_owners:
  "st_owners (rg_state sample_selectors) =
     [(Flow 17 5000 None, [\<lparr>fo_endpoint = None, fo_process = 42, fo_path = ''game.exe'', fo_stale = 0\<rparr>])]"
  by (simp add: sample_selectors_def sample_ops_def fresh_selectors_def add_selector_def add_process_selector_def
        with_owner_def publish_selectors_def Let_def)

text \<open>
  The reaper never tears a flow down on too little evidence. An owner of a flow that has been found
  stale \<open>n\<close> times in a row is still there after any further reapings, as long as these and the \<open>n\<close> are
  fewer than fifteen, whatever the inventories of sockets and the paths of processes say; and one reaping
  that finds its socket, with its process still the same program or not readable, starts the count again.
\<close>

theorem reaper_needs_confirmations:
  assumes "selectors_wf rg" "(k, owners) \<in> set (st_owners (rg_state rg))" "owner \<in> set owners"
    and "hash_order order"
    and "fo_stale owner + length ws < STALE_FLOW_CONFIRMATIONS"
  shows "\<exists>owners' owner'. (k, owners') \<in> set (st_owners (rg_state (fold (reap_stale_flows order) ws rg)))
           \<and> owner' \<in> set owners' \<and> same_owner owner' owner \<and> fo_stale owner' \<le> fo_stale owner + length ws
           \<and> (ws \<noteq> [] \<longrightarrow>
                (\<exists>sockets. existing_ipv4_process_sockets (last ws) = Some sockets
                   \<and> socket_is_active k (fo_process owner) sockets
                   \<and> (case process_path (last ws) (fo_process owner) of
                        None \<Rightarrow> True | Some path \<Rightarrow> eq_ignore_case path (fo_path owner)))
                \<longrightarrow> fo_stale owner' = 0)"
  using assms(5)
proof (induction ws rule: rev_induct)
  case Nil
  then show ?case using assms(2,3) by (auto simp: same_owner_def)
next
  case (snoc w ws)
  let ?rg = "fold (reap_stale_flows order) ws rg"
  have wf: "selectors_wf ?rg"
    using assms(1) by (induction ws arbitrary: rg) (simp_all add: reap_stale_flows_wf [OF assms(4)])
  then have ok: "selectors_ok (rg_state ?rg)" by (simp add: selectors_wf_def)
  obtain owners' owner' where held: "(k, owners') \<in> set (st_owners (rg_state ?rg))" "owner' \<in> set owners'"
    "same_owner owner' owner" "fo_stale owner' \<le> fo_stale owner + length ws"
    using snoc by auto
  show ?case
  proof (cases "existing_ipv4_process_sockets w")
    case None
    then have "reap_stale_flows order w ?rg = ?rg" by (simp add: reap_stale_flows_def)
    then show ?thesis using held None by (auto intro!: exI [of _ owners'] exI [of _ owner'])
  next
    case (Some sockets)
    define o' where "o' = observe_owner w sockets (recently_routed (now_is w) (rg_paths ?rg)) k owner'"
    have stale: "fo_stale o' \<le> fo_stale owner + length (ws @ [w])" using held(4) by (auto simp: o'_def observe_owner_def)
    then have "\<not> confirmed_stale o'" using snoc.prems by (simp add: confirmed_stale_def)
    from reap_keeps_unconfirmed [OF ok held(1,2) Some o'_def this]
    obtain owners'' where kept: "(k, owners'') \<in> set (st_owners (rg_state (reap_stale_flows order w ?rg)))" "o' \<in> set owners''"
      by blast
    have same: "same_owner o' owner" using held(3) by (simp add: o'_def observe_owner_def same_owner_def)
    have "fo_stale o' = 0"
      if "socket_is_active k (fo_process owner) sockets"
        "case process_path w (fo_process owner) of None \<Rightarrow> True | Some path \<Rightarrow> eq_ignore_case path (fo_path owner)"
      using that held(3) by (auto simp: o'_def observe_owner_def looks_stale_def same_owner_def split: option.splits)
    then show ?thesis using kept same stale Some by auto
  qed
qed

theorem reaper_needs_confirmations_witness:
  "\<exists>owners' owner'. (Flow 17 5000 None, owners') \<in> set (st_owners (rg_state (fold (reap_stale_flows rev) [sample_windows] sample_selectors)))
     \<and> owner' \<in> set owners' \<and> fo_process owner' = 42 \<and> fo_stale owner' \<le> 1"
  using reaper_needs_confirmations [OF sample_selectors_wf, of "Flow 17 5000 None"
    "[\<lparr>fo_endpoint = None, fo_process = 42, fo_path = ''game.exe'', fo_stale = 0\<rparr>]"
    "\<lparr>fo_endpoint = None, fo_process = 42, fo_path = ''game.exe'', fo_stale = 0\<rparr>" rev "[sample_windows]"]
  by (auto simp: sample_owners hash_order_rev STALE_FLOW_CONFIRMATIONS_def same_owner_def)

text \<open>
  C24. The table the capture loop reads selects exactly what the selectors select. After every sequence of
  rules, learned addresses, socket events, owners found by the capture threads and reapings, a packet is
  found in the table exactly when some selector of the state matches it; it is labelled with the flow for
  its exact ports, or else for its local port; and where destination rules match it, the node of the
  narrowest of them carries it.
\<close>

theorem table_selects_exactly:
  assumes "hash_order order" "\<forall>op \<in> set ops. op_ok op"
    and "rg = fold (apply_op order sysroot) ops (fresh_selectors targets applications folders)"
  shows "case table_lookup (rg_table rg) f of
           None \<Rightarrow> \<not> selected_by (rg_state rg) f
         | Some m \<Rightarrow> selected_by (rg_state rg) f \<and> m_application m = flow_label (rg_state rg) f
                     \<and> ((\<exists>k. narrowest_match (rg_state rg) f k) \<longrightarrow>
                        (\<exists>k. narrowest_match (rg_state rg) f k \<and> m_node m = node_of_selector (rg_state rg) k))"
  unfolding assms(3) by (rule lookup_meaning [OF apply_ops_wf [OF assms(1) fresh_selectors_wf assms(2)]])

definition sample_fields :: Ipv4Fields where
  "sample_fields = \<lparr>f_source = [192, 168, 1, 2], f_destination = [10, 0, 0, 1], f_protocol = 6,
                     f_source_port = 4000, f_destination_port = 443\<rparr>"

theorem table_selects_exactly_witness:
  "list_all op_ok sample_ops
   \<and> (case table_lookup (rg_table sample_selectors) sample_fields of
        None \<Rightarrow> \<not> selected_by (rg_state sample_selectors) sample_fields
      | Some m \<Rightarrow> selected_by (rg_state sample_selectors) sample_fields \<and> m_application m = flow_label (rg_state sample_selectors) sample_fields)"
proof -
  have ops: "\<forall>op \<in> set sample_ops. op_ok op" by (simp add: sample_ops_def)
  from table_selects_exactly [OF hash_order_rev this sample_selectors_def, of sample_fields] ops
  show ?thesis by (auto simp: list_all_iff split: option.splits)
qed

end
