(* ===== verification/Split_Capture.thy ===== *)
theory Split_Capture
  imports Split_Selectors Fragment_Router Tcp_Mss Mtu Reassembly
begin

section \<open>The packets of a split capture (\<^verbatim>\<open>engine/src/split_capture.rs\<close>, \<^verbatim>\<open>tun2socks/exit.rs\<close>)\<close>

text \<open>
  What happens to one captured packet: the capture loop decides from the selector table, the owner of
  its socket, the policy for name lookups, fake addresses, the list of direct destinations and the
  reachability of its destination whether the packet goes into the tunnel, back to the network, or waits;
  the route of a selected packet records how its replies come back; the reply injector undoes it. The
  threads beside it send the packets that wait: the bypass injector and the pending handshakes.

  The operations of WinDivert and of the tunnel are the record \<open>Io\<close>: whether a packet could be sent,
  and what the checksum helper makes of it. Everything handed to them is recorded in order, with the
  address it carries. The readings of the system are the \<open>Windows\<close> of \<^verbatim>\<open>Split_Sockets\<close>, one for every
  place in the loop that reads, so that no two readings need agree.
\<close>

subsection \<open>Sockets of the adapter exit (\<^verbatim>\<open>tun2socks/exit.rs\<close>)\<close>

type_synonym ClaimTable = "((u8 \<times> ipv4 \<times> u16) \<times> instant option) list"

definition RELEASED_LINGER :: duration where "RELEASED_LINGER = secs 240"
definition SWEEP_AT :: nat where "SWEEP_AT = 1024"

definition still_counts :: "instant \<Rightarrow> instant option \<Rightarrow> bool" where
  "still_counts now released = (case released of None \<Rightarrow> True | Some at' \<Rightarrow> duration_since now at' < RELEASED_LINGER)"

definition claim_new :: "instant \<Rightarrow> u8 \<times> ipv4 \<times> u16 \<Rightarrow> ClaimTable \<Rightarrow> ClaimTable" where
  "claim_new now k sockets =
     AList.update k None (if length sockets \<ge> SWEEP_AT then filter (\<lambda>(_, released). still_counts now released) sockets
                          else sockets)"

definition claim_drop :: "instant \<Rightarrow> u8 \<times> ipv4 \<times> u16 \<Rightarrow> ClaimTable \<Rightarrow> ClaimTable" where
  "claim_drop now k sockets = (if map_of sockets k = None then sockets else AList.update k (Some now) sockets)"

definition claimed :: "instant \<Rightarrow> ClaimTable \<Rightarrow> u8 \<Rightarrow> ipv4 \<Rightarrow> u16 \<Rightarrow> bool" where
  "claimed now sockets protocol ip port =
     (case map_of sockets (protocol, ip, port) of None \<Rightarrow> False | Some released \<Rightarrow> still_counts now released)"

definition is_exit_socket :: "instant \<Rightarrow> ClaimTable \<Rightarrow> Ipv4Fields \<Rightarrow> bool" where
  "is_exit_socket now sockets f \<longleftrightarrow>
     (f_protocol f = 6 \<or> f_protocol f = 17) \<and> claimed now sockets (f_protocol f) (f_source f) (f_source_port f)"

subsection \<open>Reading a packet\<close>

definition ipv4_fields :: "bytes \<Rightarrow> Ipv4Fields option" where
  "ipv4_fields packet =
     (if length packet < 20 \<or> drop_bit 4 (packet ! 0) \<noteq> 4 then None
      else let header = unat (packet ! 0 AND 0x0f) * 4
           in if header < 20 \<or> length packet < header + 4 then None
              else let protocol = packet ! 9;
                       (source_port, destination_port) =
                         (if protocol = 6 \<or> protocol = 17
                          then (of_be16 [packet ! header, packet ! (header + 1)],
                                of_be16 [packet ! (header + 2), packet ! (header + 3)])
                          else if protocol = 1 \<and> length packet \<ge> header + 8
                          then (let i = of_be16 [packet ! (header + 4), packet ! (header + 5)] in (i, i))
                          else (0, 0))
                   in Some \<lparr>f_source = [packet ! 12, packet ! 13, packet ! 14, packet ! 15],
                            f_destination = [packet ! 16, packet ! 17, packet ! 18, packet ! 19],
                            f_protocol = protocol, f_source_port = source_port,
                            f_destination_port = destination_port\<rparr>)"

definition is_tcp_syn :: "bytes \<Rightarrow> bool" where
  "is_tcp_syn packet \<longleftrightarrow>
     \<not> (length packet < 20 \<or> drop_bit 4 (packet ! 0) \<noteq> 4 \<or> packet ! 9 \<noteq> 6)
     \<and> (let header = unat (packet ! 0 AND 0x0f) * 4
        in header + 13 < length packet \<and> packet ! (header + 13) AND 0x02 \<noteq> 0)"

definition lookup_question :: "bytes \<Rightarrow> Ipv4Fields \<Rightarrow> string option" where
  "lookup_question packet f =
     (if f_protocol f \<noteq> 17 \<or> f_destination_port f \<noteq> 53 then None
      else let header = unat (packet ! 0 AND 0x0f) * 4
           in if length packet < header + 8 then None else question_name (drop (header + 8) packet))"

definition is_fake_ip :: "ipv4 \<Rightarrow> bool" where
  "is_fake_ip a \<longleftrightarrow> a ! 0 = 198 \<and> a ! 1 AND 0xfe = 18"

text \<open>
  \<^verbatim>\<open>Ipv4Addr::is_documentation\<close> is 192.0.2.0/24, 198.51.100.0/24 and 203.0.113.0/24,
  \<^verbatim>\<open>is_multicast\<close> 224.0.0.0/4.
\<close>

definition is_documentation :: "ipv4 \<Rightarrow> bool" where
  "is_documentation a \<longleftrightarrow> take 3 a \<in> {[192, 0, 2], [198, 51, 100], [203, 0, 113]}"

definition is_globally_routable_ipv4 :: "ipv4 \<Rightarrow> bool" where
  "is_globally_routable_ipv4 a \<longleftrightarrow>
     \<not> is_private a \<and> \<not> is_loopback a \<and> \<not> is_link_local a \<and> a \<noteq> [255, 255, 255, 255]
     \<and> \<not> (224 \<le> a ! 0 \<and> a ! 0 \<le> 239) \<and> \<not> is_unspecified a \<and> \<not> is_documentation a
     \<and> \<not> is_shared a \<and> \<not> is_fake_ip a"

definition is_outside_name_resolution :: "Ipv4Fields \<Rightarrow> bool" where
  "is_outside_name_resolution f \<longleftrightarrow>
     (f_protocol f = 6 \<or> f_protocol f = 17) \<and> f_destination_port f = 53
     \<and> \<not> is_globally_routable_ipv4 (f_destination f)"

definition TUNNEL_RESOLVER :: ipv4 where "TUNNEL_RESOLVER = FALLBACK_RESOLVERS ! 0"

subsection \<open>Who answers a name lookup (\<^verbatim>\<open>dns_policy.rs\<close>)\<close>

datatype DnsRoute = NormalDns | RemoteDns

definition dns_route :: "bool \<Rightarrow> bool \<Rightarrow> bool \<Rightarrow> bool \<Rightarrow> bool \<Rightarrow> bool \<Rightarrow> DnsRoute" where
  "dns_route remote_enabled own_apps_only yield_foreign_apps rule_selected application_owned bootstrap =
     (if \<not> remote_enabled \<or> bootstrap then NormalDns
      else if rule_selected \<or> (\<not> own_apps_only \<and> \<not> (yield_foreign_apps \<and> application_owned)) then RemoteDns
      else NormalDns)"

subsection \<open>State\<close>

record Address =
  ad_timestamp :: int
  ad_flags :: u32
  ad_interface :: u32
  ad_subinterface :: u32

definition inbound_address :: "u32 \<Rightarrow> u32 \<Rightarrow> Address" where
  "inbound_address interface subinterface =
     \<lparr>ad_timestamp = 0, ad_flags = 0, ad_interface = interface, ad_subinterface = subinterface\<rparr>"

record Io =
  io_send :: "bytes \<Rightarrow> Address \<Rightarrow> bool"
  io_checksums :: "bytes \<Rightarrow> Address \<Rightarrow> (bytes \<times> Address) option"
  io_ip_checksum :: "bytes \<Rightarrow> Address \<Rightarrow> (bytes \<times> Address) option"
  io_tunnel :: "bytes \<Rightarrow> u8 \<Rightarrow> bool option"

datatype Emitted = ToNetwork bytes Address | ToTunnel bytes u8

datatype Counter =
    HeldPackets | RedirectedDns | TunnelledDns | FakeIpPackets | DirectPackets | LocalDestinations
  | BypassQueueFull | CapturedPackets | CapturedBytes | RelayedPackets | BypassedPackets
  | FragmentationNeededSent | FragmentationNeededFailed | FragmentsDiscarded | FragmentsFollowed
  | PendingSynOverflow | PendingSynPeak | RelayReturnPackets | ReassembledReturns | ReturnNotIpv4
  | ReturnWrongDestination | ReturnWithoutFlow | UnmatchedReturns | InjectedReturns
  | ReturnInjectionErrors | IcmpErrorsDelivered | SendErrors

record NodeLimits =
  nl_tcp_mss :: u16
  nl_tunnel_mtu :: u16

text \<open>
  \<^verbatim>\<open>NodeLimits::of\<close>: the size fits a \<^verbatim>\<open>u16\<close> and is at least 1228. A panic of \<^verbatim>\<open>unfragmented\<close>, on a
  maximum below its minimum, is a panic here.
\<close>

definition limits_of :: "EffectiveMtu \<Rightarrow> NodeLimits outcome" where
  "limits_of mtu =
     (case unfragmented mtu of
        Panic \<Rightarrow> Panic
      | Ret n \<Rightarrow> Ret \<lparr>nl_tcp_mss = of_nat (n - 40), nl_tunnel_mtu = of_nat n\<rparr>)"

record PendingSyn =
  ps_packet :: bytes
  ps_address :: Address
  ps_fields :: Ipv4Fields
  ps_deadline :: instant

definition DESTINATION_LOG_LIMIT :: nat where "DESTINATION_LOG_LIMIT = 64"
definition DESTINATION_LOG_WINDOW :: duration where "DESTINATION_LOG_WINDOW = secs (10 * 60)"

record DestinationLog =
  dl_window_started :: instant
  dl_logged :: "(u8 \<times> ipv4 \<times> u16) list"

definition first_seen :: "u8 \<times> ipv4 \<times> u16 \<Rightarrow> instant \<Rightarrow> DestinationLog \<Rightarrow> DestinationLog \<times> bool" where
  "first_seen destination now dlog =
     (let dlog = (if duration_since now (dl_window_started dlog) \<ge> DESTINATION_LOG_WINDOW
                  then \<lparr>dl_window_started = now, dl_logged = []\<rparr> else dlog)
      in if length (dl_logged dlog) < DESTINATION_LOG_LIMIT \<and> destination \<notin> set (dl_logged dlog)
         then (dlog\<lparr>dl_logged := destination # dl_logged dlog\<rparr>, True)
         else (dlog, False))"

record Capture = Selectors +
  cp_kill_switch :: bool
  cp_relay_reassembles :: bool
  cp_redirect_dns :: bool
  cp_own_apps_only :: bool
  cp_yield_foreign :: bool
  cp_lookup_owners :: LookupOwners
  cp_fragments :: "Address FragmentRouter"
  cp_node_addresses :: "ipv4 list"
  cp_limits :: "NodeLimits list"
  cp_proxy_nodes :: u64
  cp_fake_ip_node :: "u8 option"
  cp_proxies :: "(u8 \<times> ProxyIdentity) list"
  cp_own_hostnames :: "string list"
  cp_direct :: DirectList
  cp_direct_learned :: "(ipv4 \<times> string) list"
  cp_usage :: "(string \<times> nat \<times> nat) list"
  cp_log :: DestinationLog
  cp_pending :: "PendingSyn list"
  cp_pending_open :: bool
  cp_bypass :: "(bytes \<times> Address) list"
  cp_bypass_open :: bool
  cp_bypass_bytes :: nat
  cp_counts :: "Counter \<Rightarrow> nat"
  cp_out :: "Emitted list"

definition bump_by :: "Counter \<Rightarrow> nat \<Rightarrow> Capture \<Rightarrow> Capture" where
  "bump_by c n cap = cap\<lparr>cp_counts := (cp_counts cap)(c := cp_counts cap c + n)\<rparr>"

abbreviation bump :: "Counter \<Rightarrow> Capture \<Rightarrow> Capture" where
  "bump c \<equiv> bump_by c 1"

definition emit :: "Emitted \<Rightarrow> Capture \<Rightarrow> Capture" where
  "emit e cap = cap\<lparr>cp_out := cp_out cap @ [e]\<rparr>"

definition node_limits :: "Capture \<Rightarrow> u8 \<Rightarrow> NodeLimits" where
  "node_limits cap node =
     (if unat node < length (cp_limits cap) then cp_limits cap ! unat node else cp_limits cap ! 0)"

definition node_address :: "Capture \<Rightarrow> u8 \<Rightarrow> ipv4" where
  "node_address cap node =
     (if unat node < length (cp_node_addresses cap) then cp_node_addresses cap ! unat node
      else cp_node_addresses cap ! 0)"

definition set_node_address :: "nat \<Rightarrow> ipv4 \<Rightarrow> Capture \<Rightarrow> Capture" where
  "set_node_address node address cap = cap\<lparr>cp_node_addresses := (cp_node_addresses cap)[node := address]\<rparr>"

definition nodes_own :: "Capture \<Rightarrow> ipv4 \<Rightarrow> bool" where
  "nodes_own cap address \<longleftrightarrow> address \<in> set (cp_node_addresses cap)"

text \<open>\<^verbatim>\<open>1_u64.checked_shl(node).unwrap_or(0)\<close>: no bit from the 64th node on.\<close>

definition is_proxy_node :: "Capture \<Rightarrow> u8 \<Rightarrow> bool" where
  "is_proxy_node cap node \<longleftrightarrow>
     cp_proxy_nodes cap AND (if unat node < 64 then push_bit (unat node) 1 else 0) \<noteq> 0"

definition is_direct :: "Capture \<Rightarrow> ipv4 \<Rightarrow> bool" where
  "is_direct cap destination \<longleftrightarrow>
     list_contains (of_be32 destination) (cp_direct cap)
     \<or> (has_domains (cp_direct cap) \<and> map_of (cp_direct_learned cap) destination \<noteq> None)"

definition MAX_LEARNED :: nat where "MAX_LEARNED = 4096"

definition learn_address :: "string \<Rightarrow> ipv4 \<Rightarrow> Capture \<Rightarrow> Capture" where
  "learn_address name address cap =
     (if is_globally_routable_ipv4 address \<and> \<not> list_contains (of_be32 address) (cp_direct cap)
         \<and> (length (cp_direct_learned cap) < MAX_LEARNED \<or> map_of (cp_direct_learned cap) address \<noteq> None)
      then cap\<lparr>cp_direct_learned := AList.update address name (cp_direct_learned cap)\<rparr>
      else cap)"

definition learn_direct :: "bytes \<Rightarrow> Capture \<Rightarrow> Capture" where
  "learn_direct packet cap =
     (if \<not> has_domains (cp_direct cap) \<or> \<not> is_dns_reply packet then cap
      else let name = (case reply_question utf8_lossy packet of None \<Rightarrow> [] | Some n \<Rightarrow> n)
           in fold (learn_address name) (answered_addresses utf8_lossy packet (cp_direct cap)) cap)"

subsection \<open>Back to the network\<close>

definition BYPASS_QUEUE_DEPTH :: nat where "BYPASS_QUEUE_DEPTH = 2048"
definition BYPASS_QUEUE_BYTES :: nat where "BYPASS_QUEUE_BYTES = 4 * 1024 * 1024"

definition send_bypass :: "Io \<Rightarrow> bytes \<Rightarrow> Address \<Rightarrow> Capture \<Rightarrow> Capture" where
  "send_bypass io packet address cap =
     (let cap = emit (ToNetwork packet address) cap
      in if io_send io packet address then cap else bump SendErrors cap)"

definition reinject :: "Io \<Rightarrow> bytes \<Rightarrow> Address \<Rightarrow> Capture \<Rightarrow> Capture" where
  "reinject io packet address cap =
     (if cp_bypass_bytes cap + length packet \<le> BYPASS_QUEUE_BYTES
         \<and> cp_bypass_open cap \<and> length (cp_bypass cap) < BYPASS_QUEUE_DEPTH
      then cap\<lparr>cp_bypass := cp_bypass cap @ [(packet, address)], cp_bypass_bytes := cp_bypass_bytes cap + length packet\<rparr>
      else send_bypass io packet address (bump BypassQueueFull cap))"

text \<open>One packet taken off the queue by the injector thread.\<close>

definition bypass_inject :: "Io \<Rightarrow> Capture \<Rightarrow> Capture" where
  "bypass_inject io cap =
     (case cp_bypass cap of
        [] \<Rightarrow> cap
      | (packet, address) # rest \<Rightarrow>
          let cap = send_bypass io packet address (cap\<lparr>cp_bypass := rest\<rparr>)
          in cap\<lparr>cp_bypass_bytes := cp_bypass_bytes cap - length packet\<rparr>)"

subsection \<open>Into the tunnel\<close>

fun send_pieces :: "Io \<Rightarrow> bytes list \<Rightarrow> u8 \<Rightarrow> bool \<Rightarrow> Capture \<Rightarrow> Capture \<times> bool option" where
  "send_pieces io [] node sent cap = (cap, Some sent)"
| "send_pieces io (piece # pieces) node sent cap =
     (let cap = emit (ToTunnel piece node) cap
      in case io_tunnel io piece node of
           None \<Rightarrow> (cap, None)
         | Some ok \<Rightarrow> send_pieces io pieces node (sent \<or> ok) cap)"

definition send_within :: "Io \<Rightarrow> bytes \<Rightarrow> u8 \<Rightarrow> u16 \<Rightarrow> Capture \<Rightarrow> Capture \<times> bool option" where
  "send_within io packet node mtu cap =
     (case (if cp_relay_reassembles cap then split_for_tunnel packet (unat mtu) else fragment packet (unat mtu)) of
        None \<Rightarrow> (emit (ToTunnel packet node) cap, io_tunnel io packet node)
      | Some pieces \<Rightarrow> send_pieces io pieces node False cap)"

definition route_later_fragment :: "Io \<Rightarrow> bytes \<Rightarrow> Address \<Rightarrow> ipv4 option \<Rightarrow> u8 \<Rightarrow> Capture \<Rightarrow> Capture" where
  "route_later_fragment io packet address redirect node cap =
     (let tunneled = put 12 (node_address cap node) packet;
          tunneled = (if redirect \<noteq> None then put 16 TUNNEL_RESOLVER tunneled else tunneled);
          (cap, forwarded) =
            (case io_ip_checksum io tunneled address of
               None \<Rightarrow> (cap, None)
             | Some (tunneled, _) \<Rightarrow> send_within io tunneled node (nl_tunnel_mtu (node_limits cap node)) cap)
      in if forwarded \<noteq> None then bump RelayedPackets (bump FragmentsFollowed cap) else bump FragmentsDiscarded cap)"

definition dispatch_fragment :: "Io \<Rightarrow> bytes \<Rightarrow> Address \<Rightarrow> Route \<Rightarrow> Capture \<Rightarrow> Capture" where
  "dispatch_fragment io packet address route cap =
     (case route of
        Tunnel redirect node \<Rightarrow> route_later_fragment io packet address redirect node cap
      | Bypass \<Rightarrow> reinject io packet address cap
      | Drop \<Rightarrow> bump FragmentsDiscarded cap)"

definition drain_discarded :: "Capture \<Rightarrow> Capture" where
  "drain_discarded cap =
     (let (fragments, n) = router_take_discarded (cp_fragments cap)
      in bump_by FragmentsDiscarded (nat n) (cap\<lparr>cp_fragments := fragments\<rparr>))"

definition finish_fragments :: "Io \<Rightarrow> instant \<Rightarrow> Ticket \<Rightarrow> Route \<Rightarrow> Capture \<Rightarrow> Capture" where
  "finish_fragments io now ticket route cap =
     (let (fragments, waiting) = finish_datagram ticket route now (cp_fragments cap);
          cap = drain_discarded (cap\<lparr>cp_fragments := fragments\<rparr>)
      in fold (\<lambda>(packet, address). dispatch_fragment io packet address route) waiting cap)"

definition signal_fragmentation_needed :: "Io \<Rightarrow> bytes \<Rightarrow> Address \<Rightarrow> Capture \<Rightarrow> Capture \<times> bool" where
  "signal_fragmentation_needed io reply address cap =
     (case io_checksums io reply (inbound_address (ad_interface address) (ad_subinterface address)) of
        None \<Rightarrow> (bump FragmentationNeededFailed cap, False)
      | Some (reply, inbound) \<Rightarrow>
          let cap = emit (ToNetwork reply inbound) cap
          in if io_send io reply inbound then (bump FragmentationNeededSent cap, True)
             else (bump FragmentationNeededFailed cap, False))"

subsection \<open>A selected packet\<close>

definition RETURN_PATH_TARGET :: nat where "RETURN_PATH_TARGET = 4096"

definition destination_label :: "Capture \<Rightarrow> ipv4 \<Rightarrow> string option" where
  "destination_label cap address = map_of (rg_labels cap) address"

definition protocol_name :: "u8 \<Rightarrow> string" where
  "protocol_name protocol =
     (if protocol = 6 then ''TCP'' else if protocol = 17 then ''UDP'' else if protocol = 1 then ''ICMP'' else ''IP'')"

definition or_label :: "string option \<Rightarrow> string option \<Rightarrow> string \<Rightarrow> string" where
  "or_label application label default' =
     (case application of Some a \<Rightarrow> a | None \<Rightarrow> (case label of Some l \<Rightarrow> l | None \<Rightarrow> default'))"

definition record_handled_connection ::
  "instant \<Rightarrow> nat \<Rightarrow> ReturnKey \<Rightarrow> Ipv4Fields \<Rightarrow> string option \<Rightarrow> u32 option \<Rightarrow> u8 \<Rightarrow> Capture \<Rightarrow> Capture" where
  "record_handled_connection now unix k f application process_id node cap =
     (let name = or_label application (destination_label cap (f_destination f)) ''Matched destination'';
          (dlog, _) = first_seen (f_protocol f, f_destination f, f_destination_port f) now (cp_log cap)
      in cap\<lparr>cp_log := dlog,
             rg_handled := AList.update k
               \<lparr>hc_application = name, hc_destination_ip = f_destination f, hc_destination_port = f_destination_port f,
                hc_protocol = protocol_name (f_protocol f), hc_started_at = unix, hc_path = None,
                hc_process = process_id, hc_node = node\<rparr> (rg_handled cap)\<rparr>)"

text \<open>
  Making room for a reply route: the oldest route no process owns and no packet used for half a minute,
  and only at the target size. Several of one age: the first in the order of the map.
\<close>

definition evict_route :: "(ReturnKey \<times> ReturnPath) hash_order \<Rightarrow> instant \<Rightarrow> ReturnKey \<Rightarrow> Capture \<Rightarrow> Capture" where
  "evict_route porder now k cap =
     (if map_of (rg_paths cap) k = None \<and> length (rg_paths cap) \<ge> RETURN_PATH_TARGET
      then case min_by_key (\<lambda>(_, path). rp_last_seen path)
                  (filter (\<lambda>(_, path). rp_process path = None
                                       \<and> duration_since now (rp_last_seen path) > ACTIVE_CONNECTION_WINDOW)
                     (porder (rg_paths cap))) of
             None \<Rightarrow> cap
           | Some (oldest, _) \<Rightarrow> cap\<lparr>rg_paths := AList.delete oldest (rg_paths cap),
                                    rg_handled := AList.delete oldest (rg_handled cap)\<rparr>
      else cap)"

definition redirected :: "ipv4 option \<Rightarrow> Ipv4Fields \<Rightarrow> Ipv4Fields" where
  "redirected redirect f = (if redirect \<noteq> None then f\<lparr>f_destination := TUNNEL_RESOLVER\<rparr> else f)"

text \<open>The bookkeeping of \<^verbatim>\<open>route_selected_packet\<close> before the packet is sent: the node that carries it and its usage.\<close>

definition note_route ::
  "(ReturnKey \<times> ReturnPath) hash_order \<Rightarrow> instant \<Rightarrow> nat \<Rightarrow> bytes \<Rightarrow> Address \<Rightarrow> Ipv4Fields \<Rightarrow> string option \<Rightarrow> u32 option
     \<Rightarrow> u8 \<Rightarrow> ipv4 option \<Rightarrow> Capture \<Rightarrow> Capture \<times> u8 \<times> string" where
  "note_route porder now unix packet address f application process_id node redirect cap =
     (let f = redirected redirect f;
          k = key_outbound f;
          cap = evict_route porder now k cap;
          previous = map_of (rg_paths cap) k;
          carried = (case previous of Some path \<Rightarrow> if rp_process path = process_id then Some path else None | None \<Rightarrow> None);
          node = (case carried of None \<Rightarrow> node | Some path \<Rightarrow> rp_node path);
          usage = (case carried of
                     Some path \<Rightarrow> rp_usage path
                   | None \<Rightarrow> or_label application (destination_label cap (f_destination f)) ''Unattributed'');
          cap = (if carried = None \<and> map_of (cp_usage cap) usage = None
                 then cap\<lparr>cp_usage := AList.update usage (0, 0) (cp_usage cap)\<rparr> else cap);
          cap = cap\<lparr>rg_paths := AList.update k
                      \<lparr>rp_local_ip = f_source f, rp_interface = ad_interface address,
                       rp_subinterface = ad_subinterface address, rp_process = process_id, rp_usage = usage,
                       rp_last_seen = now, rp_resolver = redirect, rp_node = node\<rparr> (rg_paths cap)\<rparr>;
          cap = (if (case previous of None \<Rightarrow> True | Some path \<Rightarrow> rp_process path \<noteq> process_id)
                 then record_handled_connection now unix k f application process_id node cap else cap)
      in (bump_by CapturedBytes (length packet) (bump CapturedPackets cap), node, usage))"

definition count_usage :: "string \<Rightarrow> nat \<Rightarrow> nat \<Rightarrow> Capture \<Rightarrow> Capture" where
  "count_usage name sent received cap =
     (case map_of (cp_usage cap) name of
        None \<Rightarrow> cap
      | Some (s, r) \<Rightarrow> cap\<lparr>cp_usage := AList.update name (s + sent, r + received) (cp_usage cap)\<rparr>)"

text \<open>The rewritten packet with its checksums, or nothing when they could not be updated.\<close>

definition tunnel_packet :: "Io \<Rightarrow> bytes \<Rightarrow> Address \<Rightarrow> u8 \<Rightarrow> ipv4 option \<Rightarrow> Capture \<Rightarrow> bytes option" where
  "tunnel_packet io packet address node redirect cap =
     (let tunneled = put 12 (node_address cap node) packet;
          tunneled = (if redirect \<noteq> None then put 16 TUNNEL_RESOLVER tunneled else tunneled)
      in if is_first_fragment packet
         then (case readdress_transport_checksum tunneled packet of
                 (True, tunneled) \<Rightarrow> map_option fst (io_ip_checksum io tunneled address)
               | (False, _) \<Rightarrow> None)
         else map_option fst (io_checksums io (fst (clamp tunneled (nl_tcp_mss (node_limits cap node)))) address))"

definition forward_packet ::
  "Io \<Rightarrow> bytes \<Rightarrow> Address \<Rightarrow> u8 \<Rightarrow> string \<Rightarrow> bool \<Rightarrow> ipv4 option \<Rightarrow> Capture \<Rightarrow> Capture \<times> u8 option" where
  "forward_packet io packet address node usage hold_on_failure redirect cap =
     (let (cap, forwarded) =
            (case tunnel_packet io packet address node redirect cap of
               None \<Rightarrow> (bump SendErrors cap, None)
             | Some tunneled \<Rightarrow> send_within io tunneled node (nl_tunnel_mtu (node_limits cap node)) cap)
      in case forwarded of
           None \<Rightarrow> (if hold_on_failure then bump HeldPackets cap
                    else send_bypass io packet address (bump BypassedPackets cap), None)
         | Some sent \<Rightarrow> (if sent then count_usage usage (length packet) 0 (bump RelayedPackets cap)
                         else bump RelayedPackets cap, Some node))"

text \<open>
  The result is the node that carries the packet. A packet the capture loop routes is at least 24 bytes
  long, where \<^verbatim>\<open>fragmentation_needed\<close> does not panic.
\<close>

definition route_selected_packet ::
  "Io \<Rightarrow> (ReturnKey \<times> ReturnPath) hash_order \<Rightarrow> instant \<Rightarrow> nat \<Rightarrow> bytes \<Rightarrow> Address \<Rightarrow> Ipv4Fields \<Rightarrow> string option
     \<Rightarrow> u32 option \<Rightarrow> u8 \<Rightarrow> bool \<Rightarrow> ipv4 option \<Rightarrow> Capture \<Rightarrow> Capture \<times> u8 option" where
  "route_selected_packet io porder now unix packet address f application process_id node hold_on_failure redirect cap =
     (let (cap, node, usage) = note_route porder now unix packet address f application process_id node redirect cap;
          (cap, told) =
            (if cp_relay_reassembles cap then (cap, False)
             else case fragmentation_needed packet (nl_tunnel_mtu (node_limits cap node)) of
                    Ret (Some reply) \<Rightarrow> signal_fragmentation_needed io reply address cap
                  | _ \<Rightarrow> (cap, False))
      in if told then (cap, Some node)
         else forward_packet io packet address node usage hold_on_failure redirect cap)"

subsection \<open>The decision of the capture loop\<close>

text \<open>The places where the loop reads the system or the clock.\<close>

datatype site =
  AtCapture | AtDnsOwner | AtUdpOwner | AtProxyLookup | AtOwnLookup | AtForeign | AtTcpOwner | AtUpstream | AtRoute | AtFinish

record Env =
  en_io :: Io
  en_at :: "site \<Rightarrow> Windows"
  en_unix :: nat
  en_sysroot :: "string option"
  en_claims :: ClaimTable
  en_order :: "(TrafficSelector \<times> string option) hash_order"
  en_porder :: "(ReturnKey \<times> ReturnPath) hash_order"

abbreviation en_now :: "Env \<Rightarrow> site \<Rightarrow> instant" where
  "en_now env s \<equiv> now_is (en_at env s)"

text \<open>What the loop knows of the packet so far.\<close>

record Draft =
  d_selected :: bool
  d_application :: "string option"
  d_process :: "u32 option"
  d_node :: u8

definition is_dns_packet :: "Ipv4Fields \<Rightarrow> bool" where
  "is_dns_packet f \<longleftrightarrow> (f_protocol f = 6 \<or> f_protocol f = 17) \<and> f_destination_port f = 53"

definition table_draft :: "SelectorTable \<Rightarrow> Ipv4Fields \<Rightarrow> Draft" where
  "table_draft table f =
     (case table_lookup table f of
        Some m \<Rightarrow> \<lparr>d_selected = True, d_application = m_application m, d_process = m_process m, d_node = m_node m\<rparr>
      | None \<Rightarrow> \<lparr>d_selected = False, d_application = None, d_process = None, d_node = 0\<rparr>)"

definition owner_draft :: "Capture \<Rightarrow> u32 \<Rightarrow> string \<Rightarrow> Draft" where
  "owner_draft cap pid path =
     \<lparr>d_selected = True, d_application = Some (process_name path), d_process = Some pid,
      d_node = for_path (rg_targets cap) path\<rparr>"

definition dns_owner_stage :: "Env \<Rightarrow> Ipv4Fields \<Rightarrow> bool \<Rightarrow> Draft \<Rightarrow> Capture \<Rightarrow> Capture \<times> Draft \<times> bool" where
  "dns_owner_stage env f exit d cap =
     (if \<not> d_selected d \<and> \<not> exit \<and> is_dns_packet f
      then case dns_socket_process (en_at env AtDnsOwner) f of
             None \<Rightarrow> (cap, d, True)
           | Some (pid, path) \<Rightarrow>
               if path_matches path (rg_applications cap) (rg_folders cap)
               then (add_process_selector (en_order env)
                       (process_socket_selector (f_protocol f) (f_source_port f) (f_destination_port f)) path pid None cap,
                     owner_draft cap pid path, False)
               else (cap, d, False)
      else (cap, d, False))"

definition udp_owner_stage :: "Env \<Rightarrow> Ipv4Fields \<Rightarrow> bool \<Rightarrow> bool \<Rightarrow> Draft \<Rightarrow> Capture \<Rightarrow> Capture \<times> Draft" where
  "udp_owner_stage env f direct exit d cap =
     (if \<not> d_selected d \<and> \<not> direct \<and> \<not> exit \<and> f_protocol f = 17
         \<and> (rg_applications cap \<noteq> [] \<or> rg_folders cap \<noteq> [])
         \<and> (is_globally_routable_ipv4 (f_destination f) \<or> f_destination_port f = 53)
      then let w = en_at env AtUdpOwner;
               selected_path = (\<lambda>pid. case process_path w pid of
                                        None \<Rightarrow> None
                                      | Some path \<Rightarrow> if path_matches path (rg_applications cap) (rg_folders cap)
                                                     then Some path else None);
               (classifier, owner) = selected_owner w (f_source f) (f_source_port f) selected_path (rg_classifier cap);
               cap = cap\<lparr>rg_classifier := classifier\<rparr>
           in case owner of
                None \<Rightarrow> (cap, d)
              | Some (pid, path) \<Rightarrow>
                  (let cap = add_process_selector (en_order env)
                               (process_socket_selector 17 (f_source_port f) (f_destination_port f)) path pid None cap
                   in (cap\<lparr>rg_matched := rg_matched cap + 1\<rparr>, owner_draft cap pid path))
      else (cap, d))"

text \<open>\<^verbatim>\<open>iter().any\<close> over the proxies: it stops at the first that answers, and the caches of those asked change.\<close>

fun any_proxy :: "(u8 \<times> ProxyIdentity \<Rightarrow> ProxyIdentity \<times> bool) \<Rightarrow> (u8 \<times> ProxyIdentity) list \<Rightarrow> (u8 \<times> ProxyIdentity) list \<times> bool" where
  "any_proxy ask [] = ([], False)"
| "any_proxy ask ((node, px) # proxies) =
     (case ask (node, px) of
        (px, True) \<Rightarrow> ((node, px) # proxies, True)
      | (px, False) \<Rightarrow> (let (proxies, found) = any_proxy ask proxies in ((node, px) # proxies, found)))"

definition flow_of :: "Ipv4Fields \<Rightarrow> ipv4 \<times> u16 \<times> ipv4 \<times> u16" where
  "flow_of f = (f_source f, f_source_port f, f_destination f, f_destination_port f)"

definition is_proxy_upstream :: "Windows \<Rightarrow> u8 \<Rightarrow> Ipv4Fields \<Rightarrow> Capture \<Rightarrow> Capture \<times> bool" where
  "is_proxy_upstream w node f cap =
     (if f_protocol f \<noteq> 6 then (cap, False)
      else let (proxies, found) =
                 any_proxy (\<lambda>(proxy_node, px). if proxy_node = node then owns_tcp_flow w (flow_of f) px else (px, False))
                   (cp_proxies cap)
           in (cap\<lparr>cp_proxies := proxies\<rparr>, found))"

definition proxy_lookup :: "Windows \<Rightarrow> Ipv4Fields \<Rightarrow> Capture \<Rightarrow> Capture \<times> bool" where
  "proxy_lookup w f cap =
     (if f_destination_port f \<noteq> 53 then (cap, False)
      else let (proxies, found) =
                 any_proxy (\<lambda>(_, px). if f_protocol f = 6 then owns_tcp_flow w (flow_of f) px
                                      else if f_protocol f = 17 then owns_udp_port w (f_source_port f) px
                                      else (px, False))
                   (cp_proxies cap)
           in (cap\<lparr>cp_proxies := proxies\<rparr>, found))"

definition from_application :: "Env \<Rightarrow> site \<Rightarrow> Ipv4Fields \<Rightarrow> Capture \<Rightarrow> Capture \<times> bool" where
  "from_application env s f cap =
     (let (owners, verdict) = lookup_is_from_an_application (en_sysroot env) (en_at env s)
                                (f_protocol f) (f_source_port f) (cp_lookup_owners cap)
      in (cap\<lparr>cp_lookup_owners := owners\<rparr>, verdict))"

definition own_lookup_stage :: "Env \<Rightarrow> Ipv4Fields \<Rightarrow> bool \<Rightarrow> string option \<Rightarrow> Capture \<Rightarrow> Capture \<times> bool" where
  "own_lookup_stage env f exit question cap =
     (if exit then (cap, True)
      else let (cap, proxy) = proxy_lookup (en_at env AtProxyLookup) f cap
           in if proxy then (cap, True)
              else case question of
                     None \<Rightarrow> (cap, False)
                   | Some name \<Rightarrow>
                       if name \<in> set (cp_own_hostnames cap)
                       then (let (cap, application) = from_application env AtOwnLookup f cap in (cap, \<not> application))
                       else (cap, False))"

definition dns_stage ::
  "Env \<Rightarrow> Ipv4Fields \<Rightarrow> string option \<Rightarrow> bool \<Rightarrow> Draft \<Rightarrow> Capture \<Rightarrow> Capture \<times> Draft \<times> bool" where
  "dns_stage env f question own_lookup d cap =
     (if \<not> is_dns_packet f then (cap, d, False)
      else let (cap, foreign) =
                 (if \<not> d_selected d \<and> cp_yield_foreign cap then from_application env AtForeign f cap else (cap, False));
               remote = dns_route (cp_redirect_dns cap) (cp_own_apps_only cap) (cp_yield_foreign cap)
                          (d_selected d) foreign own_lookup = RemoteDns
           in if remote
              then (bump TunnelledDns cap,
                    d\<lparr>d_selected := True,
                      d_node := (case Option.bind question (for_name (rg_targets cap)) of
                                   Some node \<Rightarrow> node
                                 | None \<Rightarrow> if d_selected d then d_node d else 0)\<rparr>, True)
              else (cap, d\<lparr>d_selected := False\<rparr>, False))"

definition fake_ip_stage :: "Ipv4Fields \<Rightarrow> Draft \<Rightarrow> Capture \<Rightarrow> Capture \<times> Draft \<times> bool" where
  "fake_ip_stage f d cap =
     (case cp_fake_ip_node cap of
        None \<Rightarrow> (cap, d, False)
      | Some fake_node \<Rightarrow>
          if is_fake_ip (f_destination f)
          then (bump FakeIpPackets cap,
                d\<lparr>d_selected := True,
                  d_node := (if d_selected d \<and> is_proxy_node cap (d_node d) then d_node d else fake_node)\<rparr>, True)
          else (cap, d, False))"

definition PENDING_SYN_DEPTH :: nat where "PENDING_SYN_DEPTH = 256"

text \<open>
  A handshake nobody is known to own waits three milliseconds for the socket observer. The depth the
  capture threads count is the length of the queue here; the peak keeps the greatest.
\<close>

definition hold_syn :: "Env \<Rightarrow> bytes \<Rightarrow> Address \<Rightarrow> Ipv4Fields \<Rightarrow> Capture \<Rightarrow> Capture" where
  "hold_syn env packet address f cap =
     (if cp_pending_open cap \<and> length (cp_pending cap) < PENDING_SYN_DEPTH
      then let cap = cap\<lparr>cp_pending := cp_pending cap @
                           [\<lparr>ps_packet = packet, ps_address = address, ps_fields = f,
                             ps_deadline = en_now env AtTcpOwner + millis 3\<rparr>]\<rparr>
           in cap\<lparr>cp_counts := (cp_counts cap)(PendingSynPeak := max (cp_counts cap PendingSynPeak) (length (cp_pending cap)))\<rparr>
      else send_bypass (en_io env) packet address
             (if cp_pending_open cap then bump PendingSynOverflow cap else cap))"

definition syn_stage ::
  "Env \<Rightarrow> bytes \<Rightarrow> Address \<Rightarrow> Ipv4Fields \<Rightarrow> bool \<Rightarrow> bool \<Rightarrow> bool \<Rightarrow> Draft \<Rightarrow> Capture \<Rightarrow> Capture \<times> Draft option" where
  "syn_stage env packet address f direct exit first d cap =
     (if \<not> d_selected d \<and> \<not> direct \<and> \<not> is_dns_packet f \<and> \<not> exit \<and> \<not> first \<and> is_tcp_syn packet
      then case tcp_socket_process (en_sysroot env) (en_at env AtTcpOwner) f (rg_applications cap) (rg_folders cap) of
             Some (pid, path) \<Rightarrow>
               (let cap' = add_process_selector (en_order env) (Flow 6 (f_source_port f) (Some (f_destination_port f)))
                             path pid None cap
                in (cap'\<lparr>rg_matched := rg_matched cap' + 1\<rparr>, Some (owner_draft cap pid path)))
           | None \<Rightarrow> (hold_syn env packet address f cap, None)
      else (cap, Some d))"

text \<open>The packets a rule selects and the tunnel must not take: sockets already inside, the local network, direct destinations.\<close>

definition exclusion_stage ::
  "Env \<Rightarrow> Ipv4Fields \<Rightarrow> bool \<Rightarrow> bool \<Rightarrow> bool \<Rightarrow> ipv4 option \<Rightarrow> Draft \<Rightarrow> Capture \<Rightarrow> Capture \<times> bool" where
  "exclusion_stage env f direct exit fake_ip redirect d cap =
     (let (cap, selected) =
            (if \<not> d_selected d then (cap, False)
             else if exit then (cap, False)
             else if is_dns_packet f then (cap, True)
             else (let (cap, upstream) = is_proxy_upstream (en_at env AtUpstream) (d_node d) f cap in (cap, \<not> upstream)));
          (cap, selected) =
            (if selected \<and> \<not> fake_ip \<and> redirect = None \<and> \<not> is_globally_routable_ipv4 (f_destination f)
             then (bump LocalDestinations cap, False) else (cap, selected))
      in if selected \<and> direct \<and> \<not> fake_ip \<and> redirect = None \<and> map_of (rg_paths cap) (key_outbound f) = None
         then (bump DirectPackets cap, False) else (cap, selected))"

subsection \<open>One captured packet\<close>

definition finish_first :: "Env \<Rightarrow> Ticket option \<Rightarrow> Route \<Rightarrow> Capture \<Rightarrow> Capture" where
  "finish_first env ticket route cap =
     (case ticket of None \<Rightarrow> cap | Some t \<Rightarrow> finish_fragments (en_io env) (en_now env AtFinish) t route cap)"

definition capture_later :: "Env \<Rightarrow> bytes \<Rightarrow> Address \<Rightarrow> Capture \<Rightarrow> Capture" where
  "capture_later env packet address cap =
     (let (fragments, action) = later_piece packet address (en_now env AtCapture) (cp_fragments cap);
          cap = drain_discarded (cap\<lparr>cp_fragments := fragments\<rparr>)
      in case action of Held \<Rightarrow> cap | Routed route \<Rightarrow> dispatch_fragment (en_io env) packet address route cap)"

text \<open>A packet whose fields are known and whose selection is settled.\<close>

definition conclude ::
  "Env \<Rightarrow> bytes \<Rightarrow> Address \<Rightarrow> Ipv4Fields \<Rightarrow> Ticket option \<Rightarrow> Draft \<Rightarrow> bool \<Rightarrow> bool \<Rightarrow> ipv4 option \<Rightarrow> Capture \<Rightarrow> Capture" where
  "conclude env packet address f ticket d selected remote_dns redirect cap =
     (if \<not> selected then finish_first env ticket Bypass (reinject (en_io env) packet address cap)
      else let hold = cp_kill_switch cap \<or> remote_dns;
               (cap, carried) = route_selected_packet (en_io env) (en_porder env) (en_now env AtRoute) (en_unix env)
                                  packet address f (d_application d) (d_process d) (d_node d) hold redirect cap
           in finish_first env ticket
                (case carried of Some node \<Rightarrow> Tunnel redirect node | None \<Rightarrow> if hold then Drop else Bypass) cap)"

text \<open>
  The stages up to the policy for name lookups, and the whole decision: the packet is held, waits as a
  handshake, or is settled, with whether it is selected, whether remote DNS took it, and the resolver a
  redirected lookup was for.
\<close>

definition consult :: "Env \<Rightarrow> bytes \<Rightarrow> Ipv4Fields \<Rightarrow> Capture \<Rightarrow> Capture \<times> Draft \<times> bool \<times> bool" where
  "consult env packet f cap =
     (let d = table_draft (rg_table cap) f;
          direct = (\<not> is_dns_packet f \<and> is_direct cap (f_destination f));
          exit = is_exit_socket (en_now env AtCapture) (en_claims env) f;
          (cap, d, uncertain) = dns_owner_stage env f exit d cap;
          (cap, d) = udp_owner_stage env f direct exit d cap;
          (cap, own_lookup) = own_lookup_stage env f exit (lookup_question packet f) cap
      in (cap, d, uncertain, own_lookup))"

datatype Verdict =
    HeldVerdict Capture
  | PendingVerdict Capture
  | Settled Capture Draft bool bool "ipv4 option"

definition decide :: "Env \<Rightarrow> bytes \<Rightarrow> Address \<Rightarrow> Ipv4Fields \<Rightarrow> bool \<Rightarrow> Capture \<Rightarrow> Verdict" where
  "decide env packet address f first cap0 =
     (let direct = (\<not> is_dns_packet f \<and> is_direct cap0 (f_destination f));
          exit = is_exit_socket (en_now env AtCapture) (en_claims env) f;
          (cap, d, uncertain, own_lookup) = consult env packet f cap0
      in if is_dns_packet f \<and> cp_redirect_dns cap \<and> cp_own_apps_only cap \<and> uncertain \<and> \<not> own_lookup \<and> \<not> d_selected d
         then HeldVerdict (bump HeldPackets cap)
         else let (cap, d, remote_dns) = dns_stage env f (lookup_question packet f) own_lookup d cap;
                  redirect = (if remote_dns \<and> is_outside_name_resolution f then Some (f_destination f) else None);
                  cap = (if redirect \<noteq> None then bump RedirectedDns cap else cap);
                  (cap, d, fake_ip) = fake_ip_stage f d cap;
                  (cap, pending) = syn_stage env packet address f direct exit first d cap
              in case pending of
                   None \<Rightarrow> PendingVerdict cap
                 | Some d \<Rightarrow>
                     let (cap, selected) = exclusion_stage env f direct exit fake_ip redirect d cap
                     in Settled cap d selected remote_dns redirect)"

definition capture_fields :: "Env \<Rightarrow> bytes \<Rightarrow> Address \<Rightarrow> Ipv4Fields \<Rightarrow> Ticket option \<Rightarrow> Capture \<Rightarrow> Capture" where
  "capture_fields env packet address f ticket cap =
     (case decide env packet address f (ticket \<noteq> None) cap of
        HeldVerdict cap \<Rightarrow> finish_first env ticket Drop cap
      | PendingVerdict cap \<Rightarrow> cap
      | Settled cap d selected remote_dns redirect \<Rightarrow>
          conclude env packet address f ticket d selected remote_dns redirect cap)"

definition begin_first :: "Env \<Rightarrow> bytes \<Rightarrow> Capture \<Rightarrow> Capture \<times> Ticket option" where
  "begin_first env packet cap =
     (if is_first_fragment packet
      then (let (fragments, t) = begin_datagram packet (en_now env AtCapture) (cp_fragments cap)
            in (cap\<lparr>cp_fragments := fragments\<rparr>, Some t))
      else (cap, None))"

definition capture_packet :: "Env \<Rightarrow> bytes \<Rightarrow> Address \<Rightarrow> Capture \<Rightarrow> Capture" where
  "capture_packet env packet address cap =
     (if is_later_fragment packet then capture_later env packet address cap
      else let (cap, ticket) = begin_first env packet cap
           in case ipv4_fields packet of
                None \<Rightarrow> (case ticket of
                           Some _ \<Rightarrow> finish_first env ticket Drop cap
                         | None \<Rightarrow> reinject (en_io env) packet address cap)
              | Some f \<Rightarrow> capture_fields env packet address f ticket cap)"

subsection \<open>Handshakes that waited\<close>

definition pending_syn :: "Env \<Rightarrow> bool \<Rightarrow> Capture \<Rightarrow> Capture" where
  "pending_syn env stopped cap =
     (case cp_pending cap of
        [] \<Rightarrow> cap
      | syn # rest \<Rightarrow>
          let cap = cap\<lparr>cp_pending := rest\<rparr>
          in if stopped then send_bypass (en_io env) (ps_packet syn) (ps_address syn) cap
             else case table_lookup (rg_table cap) (ps_fields syn) of
                    None \<Rightarrow> send_bypass (en_io env) (ps_packet syn) (ps_address syn) cap
                  | Some m \<Rightarrow>
                      let (cap, upstream) = is_proxy_upstream (en_at env AtUpstream) (m_node m) (ps_fields syn) cap
                      in if upstream then send_bypass (en_io env) (ps_packet syn) (ps_address syn) cap
                         else fst (route_selected_packet (en_io env) (en_porder env) (en_now env AtRoute) (en_unix env)
                                     (ps_packet syn) (ps_address syn) (ps_fields syn) (m_application m) (m_process m)
                                     (m_node m) (cp_kill_switch cap) None cap))"

subsection \<open>Replies\<close>

definition icmp_error_quote :: "bytes \<Rightarrow> Ipv4Fields option option" where
  "icmp_error_quote packet =
     (let header = unat (packet ! 0 AND 0x0f) * 4
      in if packet ! 9 \<noteq> 1 \<or> \<not> (header < length packet \<and> packet ! header \<in> {3, 11, 12}) then None
         else Some (if header + 8 \<le> length packet then ipv4_fields (drop (header + 8) packet) else None))"

definition readdress_icmp_error :: "bytes \<Rightarrow> ipv4 \<Rightarrow> ipv4 option \<Rightarrow> bytes" where
  "readdress_icmp_error packet local_ip resolver =
     (let quote = unat (packet ! 0 AND 0x0f) * 4 + 8;
          original = drop quote packet;
          packet = put 16 local_ip packet;
          quoted = put 12 local_ip (drop quote packet);
          quoted = (case resolver of None \<Rightarrow> quoted | Some r \<Rightarrow> put 16 r quoted);
          quoted_header = unat (quoted ! 0 AND 0x0f) * 4;
          quoted = (if length quoted \<ge> quoted_header
                    then (let zeroed = put 10 [0, 0] quoted
                          in put 10 (be16 (internet_checksum (take quoted_header zeroed))) zeroed)
                    else quoted);
          quoted = snd (readdress_transport_checksum quoted original)
      in take quote packet @ quoted)"

definition inject_reply :: "Env \<Rightarrow> bytes \<Rightarrow> Address \<Rightarrow> Capture \<Rightarrow> Capture \<times> bytes option" where
  "inject_reply env packet address cap =
     (case io_checksums (en_io env) packet address of
        None \<Rightarrow> (bump SendErrors cap, None)
      | Some (packet, address) \<Rightarrow>
          let cap = emit (ToNetwork packet address) cap
          in if io_send (en_io env) packet address then (cap, Some packet) else (bump SendErrors cap, None))"

definition deliver_icmp_error :: "Env \<Rightarrow> bytes \<Rightarrow> Capture \<Rightarrow> Capture \<times> bool" where
  "deliver_icmp_error env packet cap =
     (case icmp_error_quote packet of
        None \<Rightarrow> (cap, False)
      | Some None \<Rightarrow> (cap, True)
      | Some (Some flow) \<Rightarrow>
          if \<not> nodes_own cap (f_source flow) then (cap, True)
          else case map_of (rg_paths cap) (key_outbound flow) of
                 None \<Rightarrow> (cap, True)
               | Some path \<Rightarrow>
                   (let packet = readdress_icmp_error packet (rp_local_ip path) (rp_resolver path)
                    in case inject_reply env packet (inbound_address (rp_interface path) (rp_subinterface path)) cap of
                         (cap, Some _) \<Rightarrow> (bump IcmpErrorsDelivered cap, True)
                       | (cap, None) \<Rightarrow> (bump ReturnInjectionErrors cap, True)))"

definition readdress_reply :: "bytes \<Rightarrow> ReturnPath \<Rightarrow> Capture \<Rightarrow> bytes" where
  "readdress_reply packet path cap =
     (let packet = put 16 (rp_local_ip path) packet;
          packet = (case rp_resolver path of None \<Rightarrow> packet | Some resolver \<Rightarrow> put 12 resolver packet)
      in fst (clamp packet (nl_tcp_mss (node_limits cap (rp_node path)))))"

text \<open>One whole packet from the tunnel, and the reassembly in front of it; the samples for the log are left out.\<close>

definition deliver_reply :: "Env \<Rightarrow> bytes \<Rightarrow> Capture \<Rightarrow> Capture" where
  "deliver_reply env packet cap0 =
     (let cap = learn_direct packet cap0
      in case ipv4_fields packet of
           None \<Rightarrow> bump UnmatchedReturns (bump ReturnNotIpv4 cap)
         | Some f \<Rightarrow>
             if \<not> nodes_own cap (f_destination f) then bump UnmatchedReturns (bump ReturnWrongDestination cap)
             else case deliver_icmp_error env packet cap of
                    (cap, True) \<Rightarrow> cap
                  | (cap, False) \<Rightarrow>
                      (case map_of (rg_paths cap) (key_inbound f) of
                         None \<Rightarrow> bump UnmatchedReturns (bump ReturnWithoutFlow cap)
                       | Some path \<Rightarrow>
                           let cap = cap\<lparr>rg_paths := AList.update (key_inbound f) (path\<lparr>rp_last_seen := en_now env AtRoute\<rparr>)
                                                     (rg_paths cap)\<rparr>
                           in case inject_reply env (readdress_reply packet path cap)
                                     (inbound_address (rp_interface path) (rp_subinterface path)) cap of
                                (cap, Some sent) \<Rightarrow> count_usage (rp_usage path) 0 (length sent) (bump InjectedReturns cap)
                              | (cap, None) \<Rightarrow> bump ReturnInjectionErrors cap))"

definition receive_reply :: "Env \<Rightarrow> bytes \<Rightarrow> Reassembler \<times> Capture \<Rightarrow> Reassembler \<times> Capture" where
  "receive_reply env packet st =
     (case st of (fragments, cap) \<Rightarrow>
        let cap = bump RelayReturnPackets cap
        in if is_fragment packet
           then (let (fragments, rebuilt) = push packet (en_now env AtCapture) fragments;
                     (fragments, n) = take_discarded fragments;
                     cap = bump_by FragmentsDiscarded n cap
                 in case rebuilt of
                      None \<Rightarrow> (fragments, cap)
                    | Some datagram \<Rightarrow> (fragments, deliver_reply env datagram (bump ReassembledReturns cap)))
           else (fragments, deliver_reply env packet cap))"

end
