(* ===== verification/Split_Safety.thy ===== *)
theory Split_Safety
  imports Split_Capture
begin

section \<open>Where the packets of a split capture go\<close>

text \<open>
  The safety of the split capture, for every reading of the system and every answer of WinDivert and the
  tunnel: a name lookup that remote DNS takes, and with the kill switch every selected packet, is never
  handed back to the network; a packet for the local network, and a packet the adapter exit sent, never
  enters the tunnel from the capture loop; the queue of packets on their way back to the network keeps
  its bounds and accounts for every byte; and no packet is taken off the network without being sent,
  queued or counted as held.
\<close>

subsection \<open>What the stages leave alone\<close>

definition frame where
  "frame cap =
     (cp_out cap, cp_bypass cap, cp_bypass_bytes cap, cp_bypass_open cap, cp_pending cap, cp_pending_open cap,
      cp_fragments cap, cp_kill_switch cap, cp_redirect_dns cap, cp_own_apps_only cap, cp_yield_foreign cap,
      cp_fake_ip_node cap, cp_relay_reassembles cap, cp_counts cap HeldPackets)"

lemma frameD:
  assumes "frame cap = frame cap'"
  shows "cp_out cap = cp_out cap'" "cp_bypass cap = cp_bypass cap'" "cp_bypass_bytes cap = cp_bypass_bytes cap'"
    "cp_bypass_open cap = cp_bypass_open cap'" "cp_pending cap = cp_pending cap'" "cp_pending_open cap = cp_pending_open cap'"
    "cp_fragments cap = cp_fragments cap'" "cp_kill_switch cap = cp_kill_switch cap'"
    "cp_redirect_dns cap = cp_redirect_dns cap'" "cp_own_apps_only cap = cp_own_apps_only cap'"
    "cp_yield_foreign cap = cp_yield_foreign cap'" "cp_fake_ip_node cap = cp_fake_ip_node cap'"
    "cp_relay_reassembles cap = cp_relay_reassembles cap'" "cp_counts cap HeldPackets = cp_counts cap' HeldPackets"
  using assms by (simp_all add: frame_def)

named_theorems frame_simps \<open>the stages leave the queues, the emissions and the switches alone\<close>

lemma frame_bump [frame_simps]: "c \<noteq> HeldPackets \<Longrightarrow> frame (bump_by c n cap) = frame cap"
  by (simp add: frame_def bump_by_def)

lemma frame_add_process [frame_simps]:
  "frame (add_process_selector order k path pid endpoint cap) = frame cap"
  by (simp add: frame_def add_process_selector_def publish_selectors_def Let_def split: prod.split)

lemma frame_dns_owner [frame_simps]: "frame (fst (dns_owner_stage env f exit d cap)) = frame cap"
  by (auto simp: dns_owner_stage_def frame_simps split: option.split)

lemma frame_udp_owner [frame_simps]: "frame (fst (udp_owner_stage env f direct exit d cap)) = frame cap"
proof -
  have update: "frame (cap\<lparr>rg_classifier := c\<rparr>) = frame cap" "frame (cap\<lparr>rg_matched := n\<rparr>) = frame cap" for cap c n
    by (simp_all add: frame_def)
  show ?thesis
    by (simp add: udp_owner_stage_def Let_def update frame_simps split: prod.split option.split)
qed

lemma frame_proxies: "frame (cap\<lparr>cp_proxies := p\<rparr>) = frame cap"
  by (simp add: frame_def)

lemma frame_upstream [frame_simps]: "frame (fst (is_proxy_upstream w node f cap)) = frame cap"
  by (simp add: is_proxy_upstream_def frame_proxies split: prod.split)

lemma frame_proxy_lookup [frame_simps]: "frame (fst (proxy_lookup w f cap)) = frame cap"
  by (simp add: proxy_lookup_def frame_proxies split: prod.split)

lemma frame_from_application [frame_simps]: "frame (fst (from_application env s f cap)) = frame cap"
  by (simp add: from_application_def frame_def split: prod.split)

lemma frame_own_lookup [frame_simps]: "frame (fst (own_lookup_stage env f exit question cap)) = frame cap"
proof -
  obtain cap' p where p: "proxy_lookup (en_at env AtProxyLookup) f cap = (cap', p)" by force
  have "frame cap' = frame cap" using frame_proxy_lookup [of "en_at env AtProxyLookup" f cap] by (simp add: p)
  moreover have "frame (fst (from_application env AtOwnLookup f cap')) = frame cap'" by (rule frame_from_application)
  ultimately show ?thesis by (auto simp: own_lookup_stage_def p split: option.split prod.split)
qed

lemma frame_consult:
  assumes "consult env packet f cap = (cap', d, uncertain, own)"
  shows "frame cap' = frame cap"
proof -
  let ?direct = "\<not> is_dns_packet f \<and> is_direct cap (f_destination f)"
    and ?exit = "is_exit_socket (en_now env AtCapture) (en_claims env) f"
  obtain c1 d1 u where 1: "dns_owner_stage env f ?exit (table_draft (rg_table cap) f) cap = (c1, d1, u)" by (metis prod_cases3)
  obtain c2 d2 where 2: "udp_owner_stage env f ?direct ?exit d1 c1 = (c2, d2)" by force
  obtain c3 w where 3: "own_lookup_stage env f ?exit (lookup_question packet f) c2 = (c3, w)" by force
  have "frame c1 = frame cap" using frame_dns_owner [of env f ?exit "table_draft (rg_table cap) f" cap] by (simp add: 1)
  moreover have "frame c2 = frame c1" using frame_udp_owner [of env f ?direct ?exit d1 c1] by (simp add: 2)
  moreover have "frame c3 = frame c2" using frame_own_lookup [of env f ?exit "lookup_question packet f" c2] by (simp add: 3)
  moreover have "cap' = c3" using assms by (simp add: consult_def Let_def 1 2 3)
  ultimately show ?thesis by simp
qed

lemma frame_dns_stage [frame_simps]: "frame (fst (dns_stage env f question own d cap)) = frame cap"
proof -
  let ?p = "if \<not> d_selected d \<and> cp_yield_foreign cap then from_application env AtForeign f cap else (cap, False)"
  obtain c b where p: "?p = (c, b)" by force
  have "frame (fst ?p) = frame cap" by (simp add: frame_from_application)
  then have "frame c = frame cap" by (simp only: p fst_conv)
  then show ?thesis unfolding dns_stage_def p by (simp add: Let_def frame_bump)
qed

lemma frame_fake_ip [frame_simps]: "frame (fst (fake_ip_stage f d cap)) = frame cap"
  by (auto simp: fake_ip_stage_def frame_bump split: option.split)

lemma frame_exclusion [frame_simps]:
  "frame (fst (exclusion_stage env f direct exit fake_ip redirect d cap)) = frame cap"
proof -
  obtain c u where p: "is_proxy_upstream (en_at env AtUpstream) (d_node d) f cap = (c, u)" by force
  have "frame c = frame cap" using frame_upstream [of "en_at env AtUpstream" "d_node d" f cap] by (simp add: p)
  then show ?thesis by (simp add: exclusion_stage_def p Let_def frame_bump)
qed

subsection \<open>The decision, stage by stage\<close>

abbreviation exits :: "Env \<Rightarrow> Ipv4Fields \<Rightarrow> bool" where
  "exits env f \<equiv> is_exit_socket (en_now env AtCapture) (en_claims env) f"

abbreviation goes_direct :: "Capture \<Rightarrow> Ipv4Fields \<Rightarrow> bool" where
  "goes_direct cap f \<equiv> \<not> is_dns_packet f \<and> is_direct cap (f_destination f)"

definition redirect_of :: "bool \<Rightarrow> Ipv4Fields \<Rightarrow> ipv4 option" where
  "redirect_of remote f = (if remote \<and> is_outside_name_resolution f then Some (f_destination f) else None)"

definition noted_redirect :: "ipv4 option \<Rightarrow> Capture \<Rightarrow> Capture" where
  "noted_redirect redirect cap = (if redirect \<noteq> None then bump RedirectedDns cap else cap)"

definition holds_lookup :: "Ipv4Fields \<Rightarrow> Draft \<Rightarrow> bool \<Rightarrow> bool \<Rightarrow> Capture \<Rightarrow> bool" where
  "holds_lookup f d uncertain own cap \<longleftrightarrow>
     is_dns_packet f \<and> cp_redirect_dns cap \<and> cp_own_apps_only cap \<and> uncertain \<and> \<not> own \<and> \<not> d_selected d"

lemma decide_stages:
  obtains c1 d1 uncertain own where "consult env packet f cap = (c1, d1, uncertain, own)"
    and "holds_lookup f d1 uncertain own c1"
    and "decide env packet address f first cap = HeldVerdict (bump HeldPackets c1)"
  | c1 d1 uncertain own c2 d2 remote c3 d3 fake c4 where "consult env packet f cap = (c1, d1, uncertain, own)"
    and "\<not> holds_lookup f d1 uncertain own c1"
    and "dns_stage env f (lookup_question packet f) own d1 c1 = (c2, d2, remote)"
    and "fake_ip_stage f d2 (noted_redirect (redirect_of remote f) c2) = (c3, d3, fake)"
    and "syn_stage env packet address f (goes_direct cap f) (exits env f) first d3 c3 = (c4, None)"
    and "decide env packet address f first cap = PendingVerdict c4"
  | c1 d1 uncertain own c2 d2 remote c3 d3 fake c4 d c selected where "consult env packet f cap = (c1, d1, uncertain, own)"
    and "\<not> holds_lookup f d1 uncertain own c1"
    and "dns_stage env f (lookup_question packet f) own d1 c1 = (c2, d2, remote)"
    and "fake_ip_stage f d2 (noted_redirect (redirect_of remote f) c2) = (c3, d3, fake)"
    and "syn_stage env packet address f (goes_direct cap f) (exits env f) first d3 c3 = (c4, Some d)"
    and "exclusion_stage env f (goes_direct cap f) (exits env f) fake (redirect_of remote f) d c4 = (c, selected)"
    and "decide env packet address f first cap = Settled c d selected remote (redirect_of remote f)"
proof -
  obtain c1 d1 uncertain own where 1: "consult env packet f cap = (c1, d1, uncertain, own)" by (metis prod_cases4)
  obtain c2 d2 remote where 2: "dns_stage env f (lookup_question packet f) own d1 c1 = (c2, d2, remote)" by (metis prod_cases3)
  obtain c3 d3 fake where 3: "fake_ip_stage f d2 (noted_redirect (redirect_of remote f) c2) = (c3, d3, fake)" by (metis prod_cases3)
  obtain c4 pending where 4: "syn_stage env packet address f (goes_direct cap f) (exits env f) first d3 c3 = (c4, pending)" by force
  show thesis
  proof (cases "holds_lookup f d1 uncertain own c1")
    case True
    then have "decide env packet address f first cap = HeldVerdict (bump HeldPackets c1)"
      by (simp add: decide_def Let_def 1 holds_lookup_def)
    then show thesis using that(1) 1 True by blast
  next
    case False
    note more = 2 3 [unfolded noted_redirect_def redirect_of_def] 4
    show thesis
    proof (cases pending)
      case None
      then have "decide env packet address f first cap = PendingVerdict c4"
        using False more unfolding decide_def Let_def 1 holds_lookup_def [symmetric] by simp
      then show thesis using that(2) 1 False 2 3 4 None by blast
    next
      case (Some d)
      obtain c selected where 5: "exclusion_stage env f (goes_direct cap f) (exits env f) fake (redirect_of remote f) d c4 = (c, selected)" by force
      then have "decide env packet address f first cap = Settled c d selected remote (redirect_of remote f)"
        using False more Some 5 [unfolded redirect_of_def] unfolding decide_def Let_def 1 holds_lookup_def [symmetric] redirect_of_def by simp
      then show thesis using that(3) 1 False 2 3 4 5 Some by blast
    qed
  qed
qed

lemma frame_noted_redirect: "frame (noted_redirect redirect cap) = frame cap"
  by (simp add: noted_redirect_def frame_bump)

lemma frame_matched: "frame (cap\<lparr>rg_matched := n\<rparr>) = frame cap"
  by (simp add: frame_def)

lemma frame_syn_some:
  assumes "syn_stage env packet address f direct exit first d cap = (cap', Some d')"
  shows "frame cap' = frame cap"
  using assms
  by (auto simp: syn_stage_def Let_def frame_add_process frame_matched split: if_splits option.splits prod.splits)

lemma decide_frame:
  "case decide env packet address f first cap of
     HeldVerdict c \<Rightarrow> \<exists>c1. frame c1 = frame cap \<and> c = bump HeldPackets c1
   | PendingVerdict c \<Rightarrow> \<exists>c3. frame c3 = frame cap \<and> c = hold_syn env packet address f c3
   | Settled c d selected remote redirect \<Rightarrow> frame c = frame cap"
proof (cases rule: decide_stages [of env packet f cap address first])
  case (1 c1 d1 uncertain own)
  then show ?thesis using frame_consult [OF 1(1)] by auto
next
  case (2 c1 d1 uncertain own c2 d2 remote c3 d3 fake c4)
  have "frame c3 = frame cap"
    using frame_consult [OF 2(1)] frame_dns_stage [of env f "lookup_question packet f" own d1 c1]
      frame_fake_ip [of f d2 "noted_redirect (redirect_of remote f) c2"] by (simp add: 2 frame_noted_redirect)
  moreover have "c4 = hold_syn env packet address f c3"
    using 2(5) by (auto simp: syn_stage_def Let_def split: if_splits option.splits prod.splits)
  ultimately show ?thesis by (auto simp: 2)
next
  case (3 c1 d1 uncertain own c2 d2 remote c3 d3 fake c4 d c selected)
  have "frame c3 = frame cap"
    using frame_consult [OF 3(1)] frame_dns_stage [of env f "lookup_question packet f" own d1 c1]
      frame_fake_ip [of f d2 "noted_redirect (redirect_of remote f) c2"] by (simp add: 3 frame_noted_redirect)
  moreover have "frame c4 = frame c3" by (rule frame_syn_some [OF 3(5)])
  moreover have "frame c = frame c4"
    using frame_exclusion [of env f "goes_direct cap f" "exits env f" fake "redirect_of remote f" d c4] by (simp add: 3)
  ultimately show ?thesis by (simp add: 3)
qed

lemma settled_frame:
  "decide env packet address f first cap = Settled c d selected remote redirect \<Longrightarrow> frame c = frame cap"
  using decide_frame [where env = env and packet = packet and address = address and f = f and first = first and cap = cap]
  by simp

lemma exclusion_selected:
  assumes "exclusion_stage env f direct exit fake redirect d cap = (cap', True)"
  shows "\<not> exit" and "fake \<or> redirect \<noteq> None \<or> is_globally_routable_ipv4 (f_destination f)"
  using assms by (auto simp: exclusion_stage_def Let_def split: if_splits prod.splits)

lemma remote_only_dns: "dns_stage env f question own d cap = (cap', d', remote) \<Longrightarrow> remote \<Longrightarrow> is_dns_packet f"
  by (auto simp: dns_stage_def split: if_splits)

lemma fake_only: "fake_ip_stage f d cap = (cap', d', fake) \<Longrightarrow> fake \<Longrightarrow> cp_fake_ip_node cap \<noteq> None \<and> is_fake_ip (f_destination f)"
  by (auto simp: fake_ip_stage_def split: option.splits if_splits)

lemma selected_packet:
  assumes "decide env packet address f first cap = Settled c d True remote redirect"
  shows "\<not> exits env f \<and>
         (is_dns_packet f \<or> is_globally_routable_ipv4 (f_destination f)
          \<or> cp_fake_ip_node cap \<noteq> None \<and> is_fake_ip (f_destination f))"
proof (cases rule: decide_stages [of env packet f cap address first])
  case (3 c1 d1 uncertain own c2 d2 remote' c3 d3 fake c4 d' c' selected)
  then have ex: "exclusion_stage env f (goes_direct cap f) (exits env f) fake (redirect_of remote' f) d' c4 = (c', True)"
    using assms by simp
  have "remote' \<Longrightarrow> is_dns_packet f" using remote_only_dns [OF 3(3)] .
  moreover have "fake \<Longrightarrow> cp_fake_ip_node cap \<noteq> None \<and> is_fake_ip (f_destination f)"
  proof -
    assume fake
    then have node: "cp_fake_ip_node (noted_redirect (redirect_of remote' f) c2) \<noteq> None \<and> is_fake_ip (f_destination f)"
      using fake_only [OF 3(4)] by simp
    have "frame (noted_redirect (redirect_of remote' f) c2) = frame cap"
      using frame_consult [OF 3(1)] frame_dns_stage [of env f "lookup_question packet f" own d1 c1]
      by (simp add: 3 frame_noted_redirect)
    from frameD(12) [OF this] node show ?thesis by simp
  qed
  ultimately show ?thesis using exclusion_selected [OF ex] by (auto simp: redirect_of_def split: if_splits)
qed (use assms in simp_all)

subsection \<open>What is handed on\<close>

definition emits :: "(Emitted \<Rightarrow> bool) \<Rightarrow> Capture \<Rightarrow> Capture \<Rightarrow> bool" where
  "emits P cap cap' \<longleftrightarrow> (\<exists>es. cp_out cap' = cp_out cap @ es \<and> (\<forall>e \<in> set es. P e))"

definition same_queues :: "Capture \<Rightarrow> Capture \<Rightarrow> bool" where
  "same_queues cap cap' \<longleftrightarrow> cp_bypass cap' = cp_bypass cap \<and> cp_bypass_bytes cap' = cp_bypass_bytes cap
     \<and> cp_pending cap' = cp_pending cap"

fun is_tunnel :: "Emitted \<Rightarrow> bool" where
  "is_tunnel (ToTunnel _ _) \<longleftrightarrow> True"
| "is_tunnel (ToNetwork _ _) \<longleftrightarrow> False"

lemma emits_refl: "cp_out cap' = cp_out cap \<Longrightarrow> emits P cap cap'"
  by (auto simp: emits_def)

lemma emits_trans: "emits P a b \<Longrightarrow> emits P b c \<Longrightarrow> emits P a c"
  by (fastforce simp: emits_def)

lemma emits_mono: "emits P a b \<Longrightarrow> (\<And>e. P e \<Longrightarrow> Q e) \<Longrightarrow> emits Q a b"
  by (auto simp: emits_def)

lemma same_queues_self [simp]: "same_queues cap cap"
  by (simp add: same_queues_def)

lemma emits_self [simp]: "emits P cap cap"
  by (simp add: emits_def)

lemma same_queues_refl: "frame cap' = frame cap \<Longrightarrow> same_queues cap cap'"
  using frameD(2,3,5) [of cap' cap] by (simp add: same_queues_def)

lemma same_queues_trans: "same_queues a b \<Longrightarrow> same_queues b c \<Longrightarrow> same_queues a c"
  by (simp add: same_queues_def)

lemma bump_out [simp]: "cp_out (bump_by c n cap) = cp_out cap" and bump_queues [simp]: "same_queues cap (bump_by c n cap)"
  by (simp_all add: bump_by_def same_queues_def)

lemma emit_emits: "P e \<Longrightarrow> emits P cap (emit e cap)" and emit_queues [simp]: "same_queues cap (emit e cap)"
  by (simp_all add: emits_def emit_def same_queues_def)

lemma emits_bump [simp]: "emits P a (bump_by c n b) \<longleftrightarrow> emits P a b" "emits P (bump_by c n a) b \<longleftrightarrow> emits P a b"
  by (simp_all add: emits_def)

lemma queues_bump [simp]: "same_queues a (bump_by c n b) \<longleftrightarrow> same_queues a b" "same_queues (bump_by c n a) b \<longleftrightarrow> same_queues a b"
  by (simp_all add: same_queues_def bump_by_def)

lemma send_bypass_emits: "emits (\<lambda>e. e = ToNetwork packet address) cap (send_bypass io packet address cap)"
  and send_bypass_queues: "same_queues cap (send_bypass io packet address cap)"
  by (auto simp: send_bypass_def Let_def intro: emit_emits)

lemma reinject_emits: "emits (\<lambda>e. e = ToNetwork packet address) cap (reinject io packet address cap)"
  using send_bypass_emits [of packet address "bump BypassQueueFull cap" io]
  by (auto simp: reinject_def intro: emits_refl)

lemma send_pieces_emits:
  "emits is_tunnel cap (fst (send_pieces io pieces node sent cap)) \<and> same_queues cap (fst (send_pieces io pieces node sent cap))"
proof (induction pieces arbitrary: sent cap)
  case (Cons piece pieces)
  have "emits is_tunnel cap (emit (ToTunnel piece node) cap)" by (rule emit_emits) simp
  then show ?case using Cons.IH [where cap = "emit (ToTunnel piece node) cap"]
    by (auto simp: Let_def intro: emits_trans same_queues_trans [OF emit_queues] split: option.split)
qed simp

lemma send_within_emits:
  "emits is_tunnel cap (fst (send_within io packet node mtu cap)) \<and> same_queues cap (fst (send_within io packet node mtu cap))"
  using send_pieces_emits by (auto simp: send_within_def intro: emit_emits split: option.split)

lemma later_fragment_emits:
  "emits is_tunnel cap (route_later_fragment io packet address redirect node cap)
   \<and> same_queues cap (route_later_fragment io packet address redirect node cap)"
proof -
  have "emits is_tunnel cap c \<and> same_queues cap c" if "send_within io t node m cap = (c, r)" for t m c r
    using send_within_emits [of cap io t node m] by (simp add: that)
  then show ?thesis
    by (auto simp: route_later_fragment_def Let_def split: option.split prod.split)
qed

lemma drain_emits: "cp_out (drain_discarded cap) = cp_out cap" and drain_queues: "same_queues cap (drain_discarded cap)"
  by (simp_all add: drain_discarded_def router_take_discarded_def Let_def bump_by_def same_queues_def)

fun route_emission :: "Route \<Rightarrow> Emitted \<Rightarrow> bool" where
  "route_emission (Tunnel _ _) e \<longleftrightarrow> is_tunnel e"
| "route_emission Bypass e \<longleftrightarrow> \<not> is_tunnel e"
| "route_emission Drop e \<longleftrightarrow> False"

lemma dispatch_emits:
  "emits (route_emission route) cap (dispatch_fragment io packet address route cap)
   \<and> (route \<noteq> Bypass \<longrightarrow> same_queues cap (dispatch_fragment io packet address route cap))"
proof (cases route)
  case (Tunnel redirect node)
  then show ?thesis
    using later_fragment_emits [of cap io packet address redirect node]
    by (auto simp: dispatch_fragment_def elim: emits_mono)
next
  case Bypass
  have "emits (route_emission Bypass) cap (reinject io packet address cap)"
    by (rule emits_mono [OF reinject_emits]) simp
  then show ?thesis by (simp add: dispatch_fragment_def Bypass)
qed (simp add: dispatch_fragment_def)

lemma fold_dispatch_emits:
  "emits (route_emission route) cap (fold (\<lambda>(packet, address). dispatch_fragment io packet address route) waiting cap)
   \<and> (route \<noteq> Bypass \<longrightarrow> same_queues cap (fold (\<lambda>(packet, address). dispatch_fragment io packet address route) waiting cap))"
proof (induction waiting arbitrary: cap)
  case (Cons w waiting)
  obtain packet address where w: "w = (packet, address)" by (cases w)
  show ?case using dispatch_emits [of route cap io packet address] Cons [of "dispatch_fragment io packet address route cap"]
    by (auto simp: w intro: emits_trans same_queues_trans)
qed simp

lemma finish_fragments_emits:
  "emits (route_emission route) cap (finish_fragments io now ticket route cap)
   \<and> (route \<noteq> Bypass \<longrightarrow> same_queues cap (finish_fragments io now ticket route cap))"
proof -
  obtain fragments waiting where fw: "finish_datagram ticket route now (cp_fragments cap) = (fragments, waiting)" by force
  let ?c = "drain_discarded (cap\<lparr>cp_fragments := fragments\<rparr>)"
  have "cp_out ?c = cp_out cap" "same_queues cap ?c"
    using drain_emits [of "cap\<lparr>cp_fragments := fragments\<rparr>"] drain_queues [of "cap\<lparr>cp_fragments := fragments\<rparr>"]
    by (simp_all add: same_queues_def)
  then show ?thesis using fold_dispatch_emits [of route ?c io waiting]
    by (auto simp: finish_fragments_def fw Let_def intro: emits_trans [OF emits_refl] same_queues_trans)
qed

lemma finish_first_emits:
  "emits (route_emission route) cap (finish_first env ticket route cap)
   \<and> (route \<noteq> Bypass \<longrightarrow> same_queues cap (finish_first env ticket route cap))"
  using finish_fragments_emits by (auto simp: finish_first_def split: option.split)

subsection \<open>A selected packet\<close>

lemma frame_note_route: "frame (fst (note_route porder now unix packet address f application pid node redirect cap)) = frame cap"
proof -
  have evict: "frame (evict_route porder now k cap) = frame cap" for k
    by (auto simp: evict_route_def frame_def split: option.split)
  have usage: "frame (cap\<lparr>cp_usage := u\<rparr>) = frame cap" for u and cap :: Capture by (simp add: frame_def)
  have paths: "frame (cap\<lparr>rg_paths := u\<rparr>) = frame cap" for u and cap :: Capture by (simp add: frame_def)
  have handled: "frame (record_handled_connection now unix k f application pid node cap) = frame cap" for k f node and cap :: Capture
    by (simp add: record_handled_connection_def frame_def Let_def split: prod.split)
  show ?thesis by (simp add: note_route_def Let_def frame_bump usage paths handled evict)
qed

text \<open>The answer to a packet too large for the tunnel, injected towards its own sender.\<close>

definition icmp_answer :: "Io \<Rightarrow> bytes \<Rightarrow> Address \<Rightarrow> Emitted \<Rightarrow> bool" where
  "icmp_answer io packet address e \<longleftrightarrow>
     (\<exists>mtu reply p a. fragmentation_needed packet mtu = Ret (Some reply)
        \<and> io_checksums io reply (inbound_address (ad_interface address) (ad_subinterface address)) = Some (p, a)
        \<and> e = ToNetwork p a)"

lemma count_usage_out: "cp_out (count_usage name s r cap) = cp_out cap" and count_usage_queues: "same_queues cap (count_usage name s r cap)"
  by (simp_all add: count_usage_def same_queues_def split: option.split)

lemma forward_emits:
  "emits (\<lambda>e. is_tunnel e \<or> \<not> hold \<and> e = ToNetwork packet address) cap
     (fst (forward_packet io packet address node usage hold redirect cap))
   \<and> same_queues cap (fst (forward_packet io packet address node usage hold redirect cap))"
  (is "emits ?P cap _ \<and> _")
proof -
  define r where "r = (case tunnel_packet io packet address node redirect cap of
               None \<Rightarrow> (bump SendErrors cap, None)
             | Some tunneled \<Rightarrow> send_within io tunneled node (nl_tunnel_mtu (node_limits cap node)) cap)"
  obtain c forwarded where rc: "r = (c, forwarded)" by (cases r)
  have "emits is_tunnel cap (fst r) \<and> same_queues cap (fst r)"
    using send_within_emits by (simp add: r_def split: option.split)
  then have c: "emits ?P cap c" "same_queues cap c" by (auto simp: rc elim: emits_mono)
  have bypass: "emits ?P cap (send_bypass io packet address (bump BypassedPackets c))" if "\<not> hold"
    using emits_trans [OF c(1), of "send_bypass io packet address (bump BypassedPackets c)"]
      emits_mono [OF send_bypass_emits [of packet address "bump BypassedPackets c" io], of ?P] that by simp
  have queues: "same_queues cap (send_bypass io packet address (bump BypassedPackets c))"
    using same_queues_trans [OF c(2), of "send_bypass io packet address (bump BypassedPackets c)"]
      send_bypass_queues [of "bump BypassedPackets c" io packet address] by simp
  have counted: "emits ?P cap (count_usage usage n 0 (bump RelayedPackets c))"
    "same_queues cap (count_usage usage n 0 (bump RelayedPackets c))" for n
    using c count_usage_out [of usage n 0 "bump RelayedPackets c"] count_usage_queues [of "bump RelayedPackets c" usage n 0]
    by (auto simp: emits_def same_queues_def bump_by_def)
  show ?thesis unfolding forward_packet_def r_def [symmetric] rc
    using c bypass queues counted by (auto split: option.split)
qed

lemma signal_emits:
  assumes "fragmentation_needed packet mtu = Ret (Some reply)"
  shows "emits (icmp_answer io packet address) cap (fst (signal_fragmentation_needed io reply address cap))
         \<and> same_queues cap (fst (signal_fragmentation_needed io reply address cap))"
proof -
  have "icmp_answer io packet address (ToNetwork p a)"
    if "io_checksums io reply (inbound_address (ad_interface address) (ad_subinterface address)) = Some (p, a)" for p a
    using assms that by (auto simp: icmp_answer_def)
  then show ?thesis by (auto simp: signal_fragmentation_needed_def Let_def intro: emit_emits split: option.split)
qed

lemma route_selected_emits:
  "emits (\<lambda>e. is_tunnel e \<or> icmp_answer io packet address e \<or> \<not> hold \<and> e = ToNetwork packet address) cap
     (fst (route_selected_packet io porder now unix packet address f application pid node hold redirect cap))
   \<and> same_queues cap (fst (route_selected_packet io porder now unix packet address f application pid node hold redirect cap))"
  (is "emits ?P _ _ \<and> _")
proof -
  obtain c1 node' usage where 1: "note_route porder now unix packet address f application pid node redirect cap = (c1, node', usage)"
    by (metis prod_cases3)
  have f1: "frame c1 = frame cap" using frame_note_route [of porder now unix packet address f application pid node redirect cap] by (simp add: 1)
  define r where "r = (if cp_relay_reassembles c1 then (c1, False)
             else case fragmentation_needed packet (nl_tunnel_mtu (node_limits c1 node')) of
                    Ret (Some reply) \<Rightarrow> signal_fragmentation_needed io reply address c1
                  | _ \<Rightarrow> (c1, False))"
  obtain c2 told where rc: "r = (c2, told)" by (cases r)
  have "emits (icmp_answer io packet address) c1 (fst r) \<and> same_queues c1 (fst r)"
    using signal_emits unfolding r_def by (auto split: outcome.split option.split)
  then have 2: "emits ?P c1 c2" "same_queues c1 c2" by (auto simp: rc elim: emits_mono)
  have start: "emits ?P cap c1" "same_queues cap c1" using f1 by (auto intro: emits_refl frameD same_queues_refl)
  have 3: "emits ?P c2 (fst (forward_packet io packet address node' usage hold redirect c2))"
    "same_queues c2 (fst (forward_packet io packet address node' usage hold redirect c2))"
    using forward_emits [of hold packet address c2 io node' usage redirect] by (auto elim: emits_mono)
  have eq: "route_selected_packet io porder now unix packet address f application pid node hold redirect cap =
            (if told then (c2, Some node') else forward_packet io packet address node' usage hold redirect c2)"
    unfolding route_selected_packet_def Let_def 1 prod.case r_def [symmetric] rc ..
  show ?thesis unfolding eq
    using emits_trans [OF start(1) 2(1)] same_queues_trans [OF start(2) 2(2)] 3
    by (auto intro: emits_trans same_queues_trans)
qed

subsection \<open>Where a captured packet goes\<close>

lemma frame_begin_first: "begin_first env packet cap = (cap1, ticket) \<Longrightarrow> emits P cap cap1 \<and> same_queues cap cap1"
  by (auto simp: begin_first_def emits_def same_queues_def split: if_splits prod.splits)

lemma begin_first_switches:
  "begin_first env packet cap = (cap1, ticket) \<Longrightarrow>
   cp_kill_switch cap1 = cp_kill_switch cap \<and> cp_redirect_dns cap1 = cp_redirect_dns cap
   \<and> cp_own_apps_only cap1 = cp_own_apps_only cap \<and> cp_yield_foreign cap1 = cp_yield_foreign cap
   \<and> cp_fake_ip_node cap1 = cp_fake_ip_node cap"
  by (auto simp: begin_first_def split: if_splits prod.splits)

lemma kept_settled:
  assumes "begin_first env packet cap = (cap1, ticket)" "frame c = frame cap1"
  shows "emits P cap c \<and> same_queues cap c"
  using frame_begin_first [OF assms(1), of P] emits_trans [OF _ emits_refl [OF frameD(1) [OF assms(2)]]]
    same_queues_trans [OF _ same_queues_refl [OF assms(2)]] by blast

lemma capture_packet_fields:
  assumes "\<not> is_later_fragment packet" "ipv4_fields packet = Some f" "begin_first env packet cap = (cap1, ticket)"
  shows "capture_packet env packet address cap = capture_fields env packet address f ticket cap1"
  by (simp add: capture_packet_def assms)

abbreviation kept_in :: "Io \<Rightarrow> bytes \<Rightarrow> Address \<Rightarrow> Capture \<Rightarrow> Capture \<Rightarrow> bool" where
  "kept_in io packet address cap cap' \<equiv>
     emits (\<lambda>e. is_tunnel e \<or> icmp_answer io packet address e) cap cap' \<and> same_queues cap cap'"

lemma conclude_held:
  assumes "cp_kill_switch cap \<or> remote"
  shows "kept_in (en_io env) packet address cap (conclude env packet address f ticket d True remote redirect cap)"
proof -
  let ?P = "\<lambda>e. is_tunnel e \<or> icmp_answer (en_io env) packet address e"
  obtain c carried where r: "route_selected_packet (en_io env) (en_porder env) (en_now env AtRoute) (en_unix env)
        packet address f (d_application d) (d_process d) (d_node d) True redirect cap = (c, carried)" by force
  have 1: "emits ?P cap c" "same_queues cap c"
    using route_selected_emits [where hold = True and io = "en_io env" and packet = packet and address = address and f = f
      and cap = cap, of "en_porder env" "en_now env AtRoute" "en_unix env" "d_application d" "d_process d" "d_node d" redirect]
    by (simp_all add: r)
  have finish: "kept_in (en_io env) packet address c (finish_first env ticket route c)"
    if "route = Drop \<or> (\<exists>redirect node. route = Tunnel redirect node)" for route
    using finish_first_emits [where route = route and cap = c and env = env and ticket = ticket] that by (auto elim!: emits_mono)
  show ?thesis
    using emits_trans [OF 1(1)] same_queues_trans [OF 1(2)] finish assms
    by (simp add: conclude_def r Let_def split: option.split)
qed

text \<open>
  C21. The kill switch fails closed. When it is on, a packet the capture loop selects is never handed back
  to the network, whatever the checksum helper and the tunnel answer: nothing is queued for the bypass
  injector or as a pending handshake, and all that is sent goes into the tunnel, but for the answer to a
  packet too large for it, which is injected towards its own sender. The later fragments that waited for
  it share its fate. The same holds, whatever the switch, when remote DNS selected the packet.
\<close>

theorem selected_packets_fail_closed:
  assumes "\<not> is_later_fragment packet" "ipv4_fields packet = Some f" "begin_first env packet cap = (cap1, ticket)"
    and "decide env packet address f (ticket \<noteq> None) cap1 = Settled c d True remote redirect"
    and "cp_kill_switch cap \<or> remote"
  shows "kept_in (en_io env) packet address cap (capture_packet env packet address cap)"
proof -
  have fr: "frame c = frame cap1"
    by (rule settled_frame [OF assms(4)])
  have c: "emits P cap c \<and> same_queues cap c" for P by (rule kept_settled [OF assms(3) fr])
  have k: "cp_kill_switch c = cp_kill_switch cap" using begin_first_switches [OF assms(3)] frameD(8) [OF fr] by simp
  have "kept_in (en_io env) packet address c (conclude env packet address f ticket d True remote redirect c)"
    by (rule conclude_held) (use assms(5) k in simp)
  then show ?thesis
    unfolding capture_packet_fields [OF assms(1-3)] capture_fields_def assms(4)
    using c by (auto intro: emits_trans same_queues_trans)
qed

text \<open>The remote DNS policy settles a lookup it takes as selected.\<close>

lemma remote_lookup_decided:
  assumes dns: "is_dns_packet f" "cp_redirect_dns cap"
    and asked: "consult env packet f cap = (c1, d1, uncertain, own)" "\<not> own"
    and policy: "d_selected d1 \<or> \<not> cp_own_apps_only cap \<and> \<not> cp_yield_foreign cap \<or> cp_own_apps_only cap \<and> uncertain"
  shows "(\<exists>c d redirect. decide env packet address f first cap = Settled c d True True redirect)
         \<or> (\<exists>c. decide env packet address f first cap = HeldVerdict c)"
proof (cases rule: decide_stages [of env packet f cap address first])
  case (2 c1' d1' u o' c2 d2 remote c3 d3 fake c4)
  then show ?thesis using dns by (auto simp: syn_stage_def Let_def split: if_splits option.splits prod.splits)
next
  case (3 c1' d1' u o' c2 d2 remote c3 d3 fake c4 d c selected)
  have same: "c1' = c1" "d1' = d1" "u = uncertain" "o' = own" using 3(1) asked(1) by simp_all
  have fr: "frame c1 = frame cap" by (rule frame_consult [OF asked(1)])
  then have sw: "cp_redirect_dns c1" "cp_own_apps_only c1 = cp_own_apps_only cap" "cp_yield_foreign c1 = cp_yield_foreign cap"
    using dns(2) frameD(9,10,11) [OF fr] by simp_all
  have pol: "d_selected d1 \<or> \<not> cp_own_apps_only cap \<and> \<not> cp_yield_foreign cap"
    using 3(2) policy dns(1) asked(2) sw by (auto simp: holds_lookup_def same)
  have remote: remote "d_selected d2"
    using 3(3) dns(1) asked(2) sw pol unfolding same
    by (auto simp: dns_stage_def dns_route_def Let_def split: if_splits prod.splits)
  have exit: "\<not> exits env f"
    using asked unfolding consult_def by (auto simp: Let_def own_lookup_stage_def split: prod.splits)
  have "d_selected d3" using 3(4) remote(2) by (auto simp: fake_ip_stage_def split: option.splits if_splits)
  then have d: "d_selected d" using 3(5) by (auto simp: syn_stage_def split: if_splits)
  have "redirect_of remote f \<noteq> None \<or> is_globally_routable_ipv4 (f_destination f)"
    using remote(1) dns(1) by (auto simp: redirect_of_def is_outside_name_resolution_def is_dns_packet_def)
  then have selected using 3(6) d exit dns(1) by (auto simp: exclusion_stage_def Let_def split: if_splits)
  then show ?thesis using 3(7) remote(1) by simp
qed simp

text \<open>
  C20. Remote DNS fails closed. While it is on, a lookup of the session (a packet to port 53 that is not one
  of GamePath's own lookups and that a rule selects, or any of them when no other session shares the
  machine, or one whose owner cannot be told while only the session's own applications are redirected)
  is never handed back to the network: it goes into the tunnel or is held, and nothing else leaves but the
  answer to a packet too large, whatever the system, the checksum helper and the tunnel answer.
\<close>

theorem remote_dns_fails_closed:
  assumes "\<not> is_later_fragment packet" "ipv4_fields packet = Some f" "begin_first env packet cap = (cap1, ticket)"
    and "is_dns_packet f" "cp_redirect_dns cap"
    and "consult env packet f cap1 = (c1, d1, uncertain, own)" "\<not> own"
    and "d_selected d1 \<or> \<not> cp_own_apps_only cap \<and> \<not> cp_yield_foreign cap \<or> cp_own_apps_only cap \<and> uncertain"
  shows "kept_in (en_io env) packet address cap (capture_packet env packet address cap)"
proof -
  note sw = begin_first_switches [OF assms(3)]
  have "(\<exists>c d redirect. decide env packet address f (ticket \<noteq> None) cap1 = Settled c d True True redirect)
         \<or> (\<exists>c. decide env packet address f (ticket \<noteq> None) cap1 = HeldVerdict c)"
    using assms(5,8) sw by (intro remote_lookup_decided [OF assms(4) _ assms(6,7)]) auto
  then show ?thesis
  proof (elim disjE exE)
    fix c d redirect
    assume settled: "decide env packet address f (ticket \<noteq> None) cap1 = Settled c d True True redirect"
    have "kept_in (en_io env) packet address c (conclude env packet address f ticket d True True redirect c)"
      by (rule conclude_held) simp
    moreover have "kept_in (en_io env) packet address cap c"
      using kept_settled [OF assms(3) settled_frame [OF settled]] by blast
    ultimately show ?thesis
      unfolding capture_packet_fields [OF assms(1-3)] capture_fields_def settled
      by (auto intro: emits_trans same_queues_trans)
  next
    fix c assume held: "decide env packet address f (ticket \<noteq> None) cap1 = HeldVerdict c"
    obtain c1 where "frame c1 = frame cap1" "c = bump HeldPackets c1"
      using decide_frame [where env = env and packet = packet and address = address and f = f and first = "ticket \<noteq> None" and cap = cap1]
      unfolding held by auto
    then have "kept_in (en_io env) packet address cap c" using kept_settled [OF assms(3)] by simp
    moreover have "kept_in (en_io env) packet address c (finish_first env ticket Drop c)"
      using finish_first_emits [where route = Drop and cap = c and env = env and ticket = ticket] by (auto elim: emits_mono)
    ultimately show ?thesis
      unfolding capture_packet_fields [OF assms(1-3)] capture_fields_def held
      by (auto intro: emits_trans same_queues_trans)
  qed
qed

lemma not_selected_emits:
  "emits (\<lambda>e. \<not> is_tunnel e) cap (conclude env packet address f ticket d False remote redirect cap)"
proof -
  let ?c = "reinject (en_io env) packet address cap"
  have "emits (\<lambda>e. \<not> is_tunnel e) cap ?c" by (rule emits_mono [OF reinject_emits]) simp
  moreover have "emits (\<lambda>e. \<not> is_tunnel e) ?c (finish_first env ticket Bypass ?c)"
    using finish_first_emits [where route = Bypass and cap = ?c and env = env and ticket = ticket] by (auto elim: emits_mono)
  ultimately show ?thesis by (auto simp: conclude_def intro: emits_trans)
qed

lemma hold_syn_emits: "emits (\<lambda>e. \<not> is_tunnel e) cap (hold_syn env packet address f cap)"
proof -
  have "emits (\<lambda>e. \<not> is_tunnel e) c (send_bypass io packet address c)" for c io
    by (rule emits_mono [OF send_bypass_emits]) simp
  from this [of "bump PendingSynOverflow cap"] this [of cap] show ?thesis
    by (auto simp: hold_syn_def Let_def emits_def)
qed

text \<open>
  C22. What the tunnel cannot carry never enters it from the capture loop. A packet the adapter exit sent,
  and a packet for an address that is not globally routable (nor a fake address of a proxy, nor a name
  lookup), is not sent into the tunnel, and neither are the fragments that waited for it, whatever rule,
  owner or lookup selects it.
\<close>

theorem unroutable_never_tunnelled:
  assumes "\<not> is_later_fragment packet" "ipv4_fields packet = Some f"
    and "is_exit_socket (en_now env AtCapture) (en_claims env) f
         \<or> \<not> is_dns_packet f \<and> \<not> is_globally_routable_ipv4 (f_destination f)
           \<and> (cp_fake_ip_node cap = None \<or> \<not> is_fake_ip (f_destination f))"
  shows "emits (\<lambda>e. \<not> is_tunnel e) cap (capture_packet env packet address cap)"
proof -
  obtain cap1 ticket where b: "begin_first env packet cap = (cap1, ticket)" by force
  have fake: "cp_fake_ip_node cap1 = cp_fake_ip_node cap" using begin_first_switches [OF b] by simp
  let ?first = "ticket \<noteq> None"
  note fields = capture_packet_fields [OF assms(1,2) b]
  note fr = decide_frame [where env = env and packet = packet and address = address and f = f and first = ?first and cap = cap1]
  show ?thesis
  proof (cases "decide env packet address f ?first cap1")
    case (HeldVerdict c)
    then have "emits (\<lambda>e. \<not> is_tunnel e) cap c" using fr kept_settled [OF b] by auto
    moreover have "emits (\<lambda>e. \<not> is_tunnel e) c (finish_first env ticket Drop c)"
      using finish_first_emits [where route = Drop and cap = c and env = env and ticket = ticket] by (auto elim: emits_mono)
    ultimately show ?thesis unfolding fields capture_fields_def HeldVerdict by (auto intro: emits_trans)
  next
    case (PendingVerdict c)
    then obtain c3 where c3: "frame c3 = frame cap1" "c = hold_syn env packet address f c3" using fr by auto
    have "emits (\<lambda>e. \<not> is_tunnel e) cap c3" using kept_settled [OF b c3(1)] by blast
    then show ?thesis unfolding fields capture_fields_def PendingVerdict using c3(2) hold_syn_emits
      by (auto intro: emits_trans)
  next
    case (Settled c d selected remote redirect)
    have "\<not> selected"
      using selected_packet [of env packet address f ?first cap1 c d remote redirect] Settled assms(3) fake by (cases selected) auto
    then have "emits (\<lambda>e. \<not> is_tunnel e) c (conclude env packet address f ticket d selected remote redirect c)"
      using not_selected_emits by simp
    moreover have "emits (\<lambda>e. \<not> is_tunnel e) cap c" using fr kept_settled [OF b] Settled by simp
    ultimately show ?thesis unfolding fields capture_fields_def Settled by (auto intro: emits_trans)
  qed
qed

subsection \<open>The queue of packets on their way back\<close>

definition bypass_ok :: "Capture \<Rightarrow> bool" where
  "bypass_ok cap \<longleftrightarrow>
     cp_bypass_bytes cap = sum_list (map (\<lambda>(packet, _). length packet) (cp_bypass cap))
     \<and> cp_bypass_bytes cap \<le> BYPASS_QUEUE_BYTES \<and> length (cp_bypass cap) \<le> BYPASS_QUEUE_DEPTH"

lemma bypass_ok_same: "bypass_ok cap \<Longrightarrow> same_queues cap cap' \<Longrightarrow> bypass_ok cap'"
  by (simp add: bypass_ok_def same_queues_def)

lemma reinject_ok: "bypass_ok cap \<Longrightarrow> bypass_ok (reinject io packet address cap)"
  using bypass_ok_same [OF _ send_bypass_queues, of "bump BypassQueueFull cap" io packet address]
  by (auto simp: reinject_def bypass_ok_def bump_by_def)

lemma fold_reinject_ok:
  "bypass_ok cap \<Longrightarrow> bypass_ok (fold (\<lambda>(packet, address). dispatch_fragment io packet address route) waiting cap)"
proof (induction waiting arbitrary: cap)
  case (Cons w waiting)
  have "bypass_ok (dispatch_fragment io (fst w) (snd w) route cap)"
    using Cons.prems dispatch_emits [where route = route and cap = cap and io = io and packet = "fst w" and address = "snd w"]
    by (cases "route = Bypass") (auto simp: dispatch_fragment_def reinject_ok intro: bypass_ok_same)
  then show ?case using Cons.IH by (simp add: split_beta)
qed simp

lemma finish_fragments_ok: "bypass_ok cap \<Longrightarrow> bypass_ok (finish_fragments io now ticket route cap)"
proof -
  assume ok: "bypass_ok cap"
  obtain fragments waiting where fw: "finish_datagram ticket route now (cp_fragments cap) = (fragments, waiting)" by force
  have "bypass_ok (drain_discarded (cap\<lparr>cp_fragments := fragments\<rparr>))"
    using ok drain_queues [of "cap\<lparr>cp_fragments := fragments\<rparr>"] by (simp add: bypass_ok_def same_queues_def)
  then show ?thesis by (simp add: finish_fragments_def fw Let_def fold_reinject_ok)
qed

lemma finish_first_ok: "bypass_ok cap \<Longrightarrow> bypass_ok (finish_first env ticket route cap)"
  by (auto simp: finish_first_def finish_fragments_ok split: option.split)

lemma conclude_ok:
  assumes "bypass_ok cap"
  shows "bypass_ok (conclude env packet address f ticket d selected remote redirect cap)"
proof (cases selected)
  case True
  obtain c carried where r: "route_selected_packet (en_io env) (en_porder env) (en_now env AtRoute) (en_unix env)
        packet address f (d_application d) (d_process d) (d_node d) (cp_kill_switch cap \<or> remote) redirect cap = (c, carried)" by force
  have "same_queues cap c"
    using route_selected_emits [where io = "en_io env" and porder = "en_porder env" and now = "en_now env AtRoute" and unix = "en_unix env"
      and packet = packet and address = address and f = f and application = "d_application d" and pid = "d_process d"
      and node = "d_node d" and hold = "cp_kill_switch cap \<or> remote" and redirect = redirect and cap = cap]
    unfolding r by simp
  then have "bypass_ok c" by (rule bypass_ok_same [OF assms])
  then show ?thesis using True by (simp add: conclude_def r Let_def finish_first_ok)
qed (simp add: conclude_def finish_first_ok reinject_ok assms)

lemma hold_syn_bypass: "cp_bypass (hold_syn env packet address f cap) = cp_bypass cap \<and> cp_bypass_bytes (hold_syn env packet address f cap) = cp_bypass_bytes cap"
proof -
  have "cp_bypass (send_bypass io packet address c) = cp_bypass c \<and> cp_bypass_bytes (send_bypass io packet address c) = cp_bypass_bytes c" for io c
    using send_bypass_queues by (simp add: same_queues_def)
  then show ?thesis by (simp add: hold_syn_def Let_def bump_by_def)
qed

lemma capture_packet_ok:
  assumes "bypass_ok cap"
  shows "bypass_ok (capture_packet env packet address cap)"
proof -
  obtain cap1 ticket where b: "begin_first env packet cap = (cap1, ticket)" by force
  have ok1: "bypass_ok cap1" using frame_begin_first [OF b] assms by (auto intro: bypass_ok_same)
  have kept: "bypass_ok c" if "frame c = frame cap1" for c
    using ok1 same_queues_refl [OF that] by (rule bypass_ok_same)
  have "bypass_ok (capture_fields env packet address f ticket cap1)" for f
  proof (cases "decide env packet address f (ticket \<noteq> None) cap1")
    case (HeldVerdict c)
    then obtain c1 where "frame c1 = frame cap1" "c = bump HeldPackets c1"
      using decide_frame [where env = env and packet = packet and address = address and f = f
        and first = "ticket \<noteq> None" and cap = cap1] unfolding HeldVerdict by auto
    then have "bypass_ok c" using kept [of c1] by (simp add: bypass_ok_def bump_by_def)
    then show ?thesis unfolding capture_fields_def HeldVerdict by (simp add: finish_first_ok)
  next
    case (PendingVerdict c)
    then obtain c3 where "frame c3 = frame cap1" "c = hold_syn env packet address f c3"
      using decide_frame [where env = env and packet = packet and address = address and f = f
        and first = "ticket \<noteq> None" and cap = cap1] unfolding PendingVerdict by auto
    then show ?thesis using kept [of c3] unfolding capture_fields_def PendingVerdict
      by (simp add: bypass_ok_def hold_syn_bypass)
  next
    case (Settled c d selected remote redirect)
    then show ?thesis unfolding capture_fields_def Settled by (simp add: conclude_ok kept settled_frame [OF Settled])
  qed
  moreover have "bypass_ok (capture_later env packet address cap)"
  proof -
    obtain fragments action where l: "later_piece packet address (en_now env AtCapture) (cp_fragments cap) = (fragments, action)" by force
    let ?c = "drain_discarded (cap\<lparr>cp_fragments := fragments\<rparr>)"
    have "bypass_ok ?c"
      using assms drain_queues [of "cap\<lparr>cp_fragments := fragments\<rparr>"] by (simp add: bypass_ok_def same_queues_def)
    then show ?thesis using fold_reinject_ok [of ?c "en_io env" _ "[(packet, address)]"]
      by (auto simp: capture_later_def l Let_def split: RouteAction.split)
  qed
  ultimately show ?thesis using ok1
    by (auto simp: capture_packet_def b finish_first_ok reinject_ok split: option.split)
qed

lemma pending_syn_ok:
  assumes "bypass_ok cap"
  shows "bypass_ok (pending_syn env stopped cap)"
proof (cases "cp_pending cap")
  case (Cons syn rest)
  let ?c = "cap\<lparr>cp_pending := rest\<rparr>"
  have ok: "bypass_ok ?c" using assms by (simp add: bypass_ok_def)
  have bypass: "bypass_ok (send_bypass io p a c)" if "bypass_ok c" for io p a c
    using that send_bypass_queues by (rule bypass_ok_same)
  have up: "bypass_ok (fst (is_proxy_upstream w node f ?c))" for w node f
    using ok same_queues_refl [OF frame_upstream] by (rule bypass_ok_same)
  have route: "bypass_ok (fst (route_selected_packet io porder now unix packet address f application pid node hold redirect c))"
    if "bypass_ok c" for io porder now unix packet address f application pid node hold redirect c
    using that route_selected_emits by (blast intro: bypass_ok_same)
  have "bypass_ok c" if "is_proxy_upstream w node f ?c = (c, u)" for w node f c u
    using up [of w node f] by (simp add: that)
  then show ?thesis using ok bypass route
    by (auto simp: pending_syn_def Cons Let_def split: option.split prod.split)
qed (simp add: pending_syn_def assms)

lemma inject_reply_queues: "same_queues cap (fst (inject_reply env packet address cap))"
  by (auto simp: inject_reply_def Let_def split: option.split)

lemma learn_direct_queues: "same_queues cap (learn_direct packet cap)"
proof -
  have "same_queues cap (fold (learn_address name) addresses cap)" for name addresses
  proof (induction addresses arbitrary: cap)
    case (Cons a addresses)
    have "same_queues cap (learn_address name a cap)" by (simp add: learn_address_def same_queues_def)
    then show ?case using Cons [of "learn_address name a cap"] by (auto intro: same_queues_trans)
  qed simp
  then show ?thesis by (simp add: learn_direct_def Let_def)
qed

lemma deliver_icmp_queues: "same_queues cap (fst (deliver_icmp_error env packet cap))"
proof -
  have "same_queues cap c" if "inject_reply env p a cap = (c, r)" for p a c r
    using inject_reply_queues [of cap env p a] by (simp add: that)
  then show ?thesis
    by (auto simp: deliver_icmp_error_def Let_def split: option.split prod.split)
qed

lemma deliver_reply_queues: "same_queues cap (deliver_reply env packet cap)"
proof -
  define c0 where "c0 = learn_direct packet cap"
  have c0: "same_queues cap c0" by (simp add: c0_def learn_direct_queues)
  obtain c1 t where i: "deliver_icmp_error env packet c0 = (c1, t)" by force
  have "same_queues c0 c1" using deliver_icmp_queues [of c0 env packet] by (simp add: i)
  then have c1: "same_queues cap c1" using c0 by (rule same_queues_trans [rotated])
  have inject: "same_queues cap c2" if "inject_reply env p a (c1\<lparr>rg_paths := paths\<rparr>) = (c2, r)" for p a paths c2 r
    using inject_reply_queues [of "c1\<lparr>rg_paths := paths\<rparr>" env p a] c1 by (simp add: that same_queues_def)
  have counted: "same_queues cap (count_usage u s r c)" if "same_queues cap c" for u s r c
    using that count_usage_queues by (rule same_queues_trans)
  show ?thesis unfolding deliver_reply_def Let_def c0_def [symmetric] i
    using c0 c1 inject counted by (auto split: option.split prod.split bool.split)
qed

lemma receive_reply_queues: "same_queues cap (snd (receive_reply env packet (fragments, cap)))"
proof -
  have "same_queues cap (deliver_reply env p c)" if "same_queues cap c" for p c
    using that deliver_reply_queues by (rule same_queues_trans)
  then show ?thesis by (auto simp: receive_reply_def Let_def split: prod.split option.split)
qed

subsection \<open>Every operation on the capture\<close>

datatype capture_event =
    Captured Env bytes Address
  | BypassInjected Io
  | PendingChecked Env bool
  | ReplyReceived Env bytes
  | SelectorsChanged "(TrafficSelector \<times> string option) hash_order" "string option" selector_op
  | DnsSwitched bool bool
  | YieldSwitched bool
  | NodeReaddressed nat ipv4

fun capture_step :: "capture_event \<Rightarrow> Reassembler \<times> Capture \<Rightarrow> Reassembler \<times> Capture" where
  "capture_step (Captured env packet address) (r, cap) = (r, capture_packet env packet address cap)"
| "capture_step (BypassInjected io) (r, cap) = (r, bypass_inject io cap)"
| "capture_step (PendingChecked env stopped) (r, cap) = (r, pending_syn env stopped cap)"
| "capture_step (ReplyReceived env packet) (r, cap) = receive_reply env packet (r, cap)"
| "capture_step (SelectorsChanged order sysroot op) (r, cap) = (r, apply_op order sysroot op cap)"
| "capture_step (DnsSwitched redirect own) (r, cap) = (r, cap\<lparr>cp_redirect_dns := redirect, cp_own_apps_only := own\<rparr>)"
| "capture_step (YieldSwitched yields) (r, cap) = (r, cap\<lparr>cp_yield_foreign := yields\<rparr>)"
| "capture_step (NodeReaddressed node address) (r, cap) = (r, set_node_address node address cap)"

lemma frame_publish [frame_simps]: "frame (publish_selectors order st cap) = frame cap"
  by (simp add: publish_selectors_def frame_def)

lemma frame_state [frame_simps]: "frame (cap\<lparr>rg_state := st\<rparr>) = frame cap"
  by (simp add: frame_def)

lemma frame_routes [frame_simps]: "frame (remove_owned_routes removed cap) = frame cap"
  by (simp add: remove_owned_routes_def Let_def frame_def)

lemma frame_add_selector [frame_simps]: "frame (add_selector order k node cap) = frame cap"
  by (simp add: add_selector_def Let_def frame_simps)

lemma frame_add_hostname [frame_simps]: "frame (add_hostname_address order address hostname cap) = frame cap"
  by (simp add: add_hostname_address_def Let_def frame_simps) (simp add: frame_def)

lemma frame_remove_closed [frame_simps]: "frame (remove_closed_socket order event cap) = frame cap"
  by (simp add: remove_closed_socket_def Let_def frame_simps)

lemma frame_reap [frame_simps]: "frame (reap_stale_flows order w cap) = frame cap"
  by (simp add: reap_stale_flows_def Let_def frame_simps split: option.split)

lemma frame_seed [frame_simps]: "frame (seed_sockets order w cap) = frame cap"
proof -
  have "frame (fold (seed_socket order w) sockets cap) = frame cap" for sockets
  proof (induction sockets arbitrary: cap)
    case (Cons s sockets)
    have "frame (seed_socket order w s cap) = frame cap"
      by (simp add: seed_socket_def frame_add_process frame_matched split: option.split)
    then show ?case using Cons by simp
  qed simp
  then show ?thesis by (simp add: seed_sockets_def)
qed

lemma frame_socket_event [frame_simps]: "frame (socket_event order sysroot w kind event cap) = frame cap"
proof -
  have "frame (cap\<lparr>rg_classifier := c\<rparr>) = frame cap" for c by (simp add: frame_def)
  then show ?thesis
    by (simp add: socket_event_def Let_def frame_add_process frame_matched frame_remove_closed split: option.split)
qed

lemma frame_apply_op: "frame (apply_op order sysroot op cap) = frame cap"
  by (cases op) (simp_all add: frame_simps)

lemma bypass_inject_ok:
  assumes "bypass_ok cap"
  shows "bypass_ok (bypass_inject io cap)"
proof (cases "cp_bypass cap")
  case (Cons x rest)
  obtain packet address where x: "x = (packet, address)" by (cases x)
  have q: "same_queues (cap\<lparr>cp_bypass := rest\<rparr>) (send_bypass io packet address (cap\<lparr>cp_bypass := rest\<rparr>))"
    by (rule send_bypass_queues)
  show ?thesis using assms q by (simp add: bypass_inject_def Cons x Let_def bypass_ok_def same_queues_def)
qed (simp add: bypass_inject_def assms)

lemma bypass_ok_switches:
  "bypass_ok (cap\<lparr>cp_redirect_dns := a, cp_own_apps_only := b\<rparr>) \<longleftrightarrow> bypass_ok cap"
  "bypass_ok (cap\<lparr>cp_yield_foreign := a\<rparr>) \<longleftrightarrow> bypass_ok cap"
  "bypass_ok (set_node_address node address cap) \<longleftrightarrow> bypass_ok cap"
  by (simp_all add: bypass_ok_def set_node_address_def)

lemma capture_step_ok:
  assumes "bypass_ok cap" "capture_step e (r, cap) = (r', cap')"
  shows "bypass_ok cap'"
proof (cases e)
  case (ReplyReceived env packet)
  then have "same_queues cap cap'" using assms(2) receive_reply_queues [of cap env packet r] by simp
  then show ?thesis by (rule bypass_ok_same [OF assms(1)])
next
  case (SelectorsChanged order sysroot op)
  then have "same_queues cap cap'" using assms(2) same_queues_refl [OF frame_apply_op [of order sysroot op cap]] by simp
  then show ?thesis by (rule bypass_ok_same [OF assms(1)])
qed (use assms capture_packet_ok bypass_inject_ok pending_syn_ok in \<open>auto simp: bypass_ok_switches\<close>)

text \<open>
  C26. The queue of packets on their way back to the network keeps its bounds. From any state that keeps
  them, through every sequence of captured packets, injected packets, pending handshakes, replies, changes
  of the selectors and of the switches, it holds at most 2048 packets and 4 MiB, and the bytes counted for
  it are exactly the bytes in it: no reservation is lost or given back twice.
\<close>

theorem bypass_queue_bounded:
  assumes "bypass_ok cap" "fold capture_step events (r, cap) = (r', cap')"
  shows "length (cp_bypass cap') \<le> 2048 \<and> cp_bypass_bytes cap' \<le> 4 * 1024 * 1024
         \<and> cp_bypass_bytes cap' = sum_list (map (\<lambda>(packet, _). length packet) (cp_bypass cap'))"
proof -
  have "bypass_ok cap'"
    using assms
  proof (induction events arbitrary: r cap)
    case (Cons e events)
    obtain r1 cap1 where step: "capture_step e (r, cap) = (r1, cap1)" by force
    have "bypass_ok cap1" by (rule capture_step_ok [OF Cons.prems(1) step])
    then show ?case using Cons.IH [of cap1 r1] Cons.prems(2) by (simp add: step)
  qed simp
  then show ?thesis by (simp add: bypass_ok_def BYPASS_QUEUE_DEPTH_def BYPASS_QUEUE_BYTES_def)
qed

subsection \<open>No packet vanishes\<close>

definition handed :: "(Emitted \<Rightarrow> bool) \<Rightarrow> Capture \<Rightarrow> Capture \<Rightarrow> bool" where
  "handed P cap cap' \<longleftrightarrow> (\<exists>es e. cp_out cap' = cp_out cap @ es \<and> e \<in> set es \<and> P e)"

definition accounted :: "Io \<Rightarrow> bytes \<Rightarrow> Address \<Rightarrow> Capture \<Rightarrow> Capture \<Rightarrow> bool" where
  "accounted io packet address cap cap' \<longleftrightarrow>
     cp_bypass cap' = cp_bypass cap @ [(packet, address)]
     \<or> (\<exists>syn. cp_pending cap' = cp_pending cap @ [syn] \<and> ps_packet syn = packet \<and> ps_address syn = address)
     \<or> handed (\<lambda>e. e = ToNetwork packet address \<or> is_tunnel e \<or> icmp_answer io packet address e) cap cap'
     \<or> cp_counts cap' HeldPackets = cp_counts cap HeldPackets + 1"

lemma accounted_framed: "accounted io packet address cap cap' \<Longrightarrow> frame cap = frame cap0 \<Longrightarrow> accounted io packet address cap0 cap'"
  using frameD [of cap cap0] by (simp add: accounted_def handed_def)

lemma handed_emit: "P e \<Longrightarrow> handed P cap (emit e cap)"
  by (auto simp: handed_def emit_def)

lemma handed_bump [simp]: "handed P cap (bump_by c n cap') \<longleftrightarrow> handed P cap cap'" "handed P (bump_by c n cap) cap' \<longleftrightarrow> handed P cap cap'"
  by (simp_all add: handed_def)

lemma handed_more: "handed P cap cap' \<Longrightarrow> emits Q cap' cap'' \<Longrightarrow> handed P cap cap''"
  by (fastforce simp: handed_def emits_def)

lemma handed_later: "emits Q cap cap' \<Longrightarrow> handed P cap' cap'' \<Longrightarrow> handed P cap cap''"
  by (fastforce simp: handed_def emits_def)

lemma send_bypass_handed: "handed (\<lambda>e. e = ToNetwork packet address) cap (send_bypass io packet address cap)"
  by (simp add: send_bypass_def Let_def handed_emit)

lemma handed_mono: "handed P a b \<Longrightarrow> (\<And>e. P e \<Longrightarrow> Q e) \<Longrightarrow> handed Q a b"
  by (auto simp: handed_def)

lemma reinject_accounted: "accounted io packet address cap (reinject io packet address cap)"
proof -
  have "handed (\<lambda>e. e = ToNetwork packet address \<or> is_tunnel e \<or> icmp_answer io packet address e) (bump BypassQueueFull cap)
          (send_bypass io packet address (bump BypassQueueFull cap))"
    by (rule handed_mono [OF send_bypass_handed]) simp
  then show ?thesis by (auto simp: reinject_def accounted_def)
qed

lemma hold_syn_accounted: "accounted io packet address cap (hold_syn env packet address f cap)"
proof -
  have "handed (\<lambda>e. e = ToNetwork packet address \<or> is_tunnel e \<or> icmp_answer io packet address e) c
          (send_bypass io' packet address c)" for c io'
    by (rule handed_mono [OF send_bypass_handed]) simp
  from this [of "bump PendingSynOverflow cap"] this [of cap] show ?thesis
    by (auto simp: hold_syn_def Let_def accounted_def)
qed

lemma split_pieces_nonempty: "split_for_tunnel packet mtu = Some pieces \<Longrightarrow> pieces \<noteq> []"
proof -
  assume s: "split_for_tunnel packet mtu = Some pieces"
  let ?size = "(mtu - 20) div 8 * 8" and ?payload = "subslice 20 (unat (word_at packet 2)) packet"
  have "?size > 0" "?payload \<noteq> []"
    using s by (auto simp: split_for_tunnel_def Let_def subslice_def split: if_splits)
  then have "chunks ?size ?payload \<noteq> []" by (simp add: chunks_step)
  then show ?thesis using s by (auto simp: split_for_tunnel_def Let_def enumerate_eq_zip split: if_splits)
qed

lemma send_within_handed: "handed is_tunnel cap (fst (send_within io packet node mtu cap))"
proof -
  have "handed is_tunnel cap (fst (send_pieces io pieces node False cap))" if "pieces \<noteq> []" for pieces
  proof -
    obtain p ps where p: "pieces = p # ps" using \<open>pieces \<noteq> []\<close> by (cases pieces) auto
    have h: "handed is_tunnel cap (emit (ToTunnel p node) cap)" by (rule handed_emit) simp
    show ?thesis using h handed_more [OF h, of is_tunnel] send_pieces_emits
      by (auto simp: p Let_def split: option.split)
  qed
  moreover have "handed is_tunnel cap (emit (ToTunnel packet node) cap)" by (rule handed_emit) simp
  ultimately show ?thesis using split_pieces_nonempty
    by (auto simp: send_within_def fragment_def split: option.split if_splits)
qed

lemma send_within_held: "cp_counts (fst (send_within io packet node mtu cap)) = cp_counts cap"
proof -
  have "cp_counts (fst (send_pieces io pieces node sent cap)) = cp_counts cap" for pieces sent
    by (induction pieces arbitrary: sent cap) (auto simp: Let_def emit_def split: option.split)
  then show ?thesis by (auto simp: send_within_def emit_def split: option.split)
qed

lemma forward_accounted: "accounted io packet address cap (fst (forward_packet io packet address node usage hold redirect cap))"
proof -
  let ?P = "\<lambda>e. e = ToNetwork packet address \<or> is_tunnel e \<or> icmp_answer io packet address e"
  have bypass: "handed ?P c (send_bypass io packet address c)" for c
    by (rule handed_mono [OF send_bypass_handed]) simp
  show ?thesis
  proof (cases "tunnel_packet io packet address node redirect cap")
    case None
    then show ?thesis using bypass [of "bump BypassedPackets (bump SendErrors cap)"]
      by (simp add: forward_packet_def accounted_def) (simp add: bump_by_def)
  next
    case (Some tunneled)
    obtain c forwarded where s: "send_within io tunneled node (nl_tunnel_mtu (node_limits cap node)) cap = (c, forwarded)" by force
    have c: "handed is_tunnel cap c"
      using send_within_handed [of cap io tunneled node "nl_tunnel_mtu (node_limits cap node)"] by (simp add: s)
    then have h: "handed ?P cap c" by (rule handed_mono) simp
    have more: "handed ?P cap c'" if "emits Q c c'" for Q c' by (rule handed_more [OF h that])
    have sent: "handed ?P cap (count_usage usage n 0 (bump RelayedPackets c))" for n
      by (rule more [of "\<lambda>_. True"]) (simp add: emits_refl count_usage_out)
    have "handed ?P cap (send_bypass io packet address (bump BypassedPackets c))"
      by (rule more [of "\<lambda>_. True"]) (use send_bypass_emits [of packet address "bump BypassedPackets c" io] in \<open>auto elim: emits_mono\<close>)
    then show ?thesis using h sent by (auto simp: forward_packet_def Some s accounted_def split: option.split)
  qed
qed

lemma route_selected_accounted:
  "accounted io packet address cap (fst (route_selected_packet io porder now unix packet address f application pid node hold redirect cap))"
proof -
  let ?P = "\<lambda>e. e = ToNetwork packet address \<or> is_tunnel e \<or> icmp_answer io packet address e"
  obtain c1 node' usage where 1: "note_route porder now unix packet address f application pid node redirect cap = (c1, node', usage)"
    by (metis prod_cases3)
  have f1: "frame c1 = frame cap" using frame_note_route [of porder now unix packet address f application pid node redirect cap] by (simp add: 1)
  define r where "r = (if cp_relay_reassembles c1 then (c1, False)
             else case fragmentation_needed packet (nl_tunnel_mtu (node_limits c1 node')) of
                    Ret (Some reply) \<Rightarrow> signal_fragmentation_needed io reply address c1
                  | _ \<Rightarrow> (c1, False))"
  have answered: "handed ?P c1 c2" if "r = (c2, True)" for c2
    using that by (auto simp: r_def signal_fragmentation_needed_def Let_def icmp_answer_def intro!: handed_emit
        split: if_splits outcome.splits option.splits)
  have silent: "accounted io packet address c1 (fst (forward_packet io packet address node' usage hold redirect c2))" if "r = (c2, False)" for c2
  proof -
    have e: "emits (\<lambda>_. True) c1 c2 \<and> same_queues c1 c2 \<and> cp_counts c2 HeldPackets = cp_counts c1 HeldPackets"
      using that by (auto simp: r_def signal_fragmentation_needed_def Let_def bump_by_def emits_def emit_def same_queues_def
          split: if_splits outcome.splits option.splits)
    show ?thesis using forward_accounted [of io packet address c2 node' usage hold redirect] e
      by (auto simp: accounted_def same_queues_def intro: handed_later)
  qed
  have eq: "route_selected_packet io porder now unix packet address f application pid node hold redirect cap =
            (case r of (c2, told) \<Rightarrow> if told then (c2, Some node') else forward_packet io packet address node' usage hold redirect c2)"
    unfolding route_selected_packet_def Let_def 1 prod.case r_def ..
  obtain c2 told where rc: "r = (c2, told)" by (cases r)
  have "accounted io packet address c1 (fst (route_selected_packet io porder now unix packet address f application pid node hold redirect cap))"
    unfolding eq using answered [of c2] silent [of c2] by (cases told) (auto simp: rc accounted_def)
  then show ?thesis using f1 by (rule accounted_framed)
qed

text \<open>
  C23. No packet vanishes. A captured packet that is not a fragment is accounted for, whatever the system,
  the checksum helper and the tunnel answer: it is queued for the bypass injector, waits as a handshake,
  is handed to the network or the tunnel, is answered as too large, or is counted as held.
\<close>

theorem no_packet_vanishes:
  assumes "\<not> is_fragment packet"
  shows "accounted (en_io env) packet address cap (capture_packet env packet address cap)"
proof (cases "ipv4_fields packet")
  case None
  then show ?thesis using assms reinject_accounted
    by (simp add: capture_packet_def begin_first_def is_later_fragment_def is_first_fragment_def)
next
  case (Some f)
  have later: "\<not> is_later_fragment packet" using assms by (simp add: is_later_fragment_def)
  have b: "begin_first env packet cap = (cap, None)" using assms by (simp add: begin_first_def is_first_fragment_def)
  have whole: "capture_packet env packet address cap =
      (case decide env packet address f False cap of
         HeldVerdict c \<Rightarrow> c | PendingVerdict c \<Rightarrow> c
       | Settled c d selected remote redirect \<Rightarrow> conclude env packet address f None d selected remote redirect c)"
    unfolding capture_packet_fields [OF later Some b] by (simp add: capture_fields_def finish_first_def split: Verdict.split)
  note fr = decide_frame [where env = env and packet = packet and address = address and f = f and first = False and cap = cap]
  show ?thesis
  proof (cases "decide env packet address f False cap")
    case (HeldVerdict c)
    then obtain c1 where "frame c1 = frame cap" "c = bump HeldPackets c1" using fr by auto
    then show ?thesis using frameD(14) [of c1 cap] by (simp add: whole HeldVerdict accounted_def bump_by_def)
  next
    case (PendingVerdict c)
    then obtain c3 where "frame c3 = frame cap" "c = hold_syn env packet address f c3" using fr by auto
    then show ?thesis using accounted_framed [OF hold_syn_accounted] by (simp add: whole PendingVerdict)
  next
    case (Settled c d selected remote redirect)
    have "accounted (en_io env) packet address c (conclude env packet address f None d selected remote redirect c)"
      using reinject_accounted [of "en_io env" packet address c] route_selected_accounted [where io = "en_io env" and porder = "en_porder env"
        and now = "en_now env AtRoute" and unix = "en_unix env" and packet = packet and address = address and f = f
        and application = "d_application d" and pid = "d_process d" and node = "d_node d" and hold = "cp_kill_switch c \<or> remote"
        and redirect = redirect and cap = c]
      by (auto simp: conclude_def finish_first_def Let_def split: prod.splits)
    then show ?thesis using accounted_framed settled_frame [OF Settled] by (simp add: whole Settled)
  qed
qed

subsection \<open>A small capture\<close>

definition sample_udp :: "ipv4 \<Rightarrow> u16 \<Rightarrow> bytes" where
  "sample_udp destination port =
     [0x45, 0, 0, 28, 0, 1, 0, 0, 64, 17, 0, 0, 192, 168, 1, 2] @ destination @ [0x13, 0x88] @ be16 port @ [0, 8, 0, 0]"

definition sample_io :: Io where
  "sample_io = \<lparr>io_send = (\<lambda>_ _. True), io_checksums = (\<lambda>p a. Some (p, a)), io_ip_checksum = (\<lambda>p a. Some (p, a)),
                io_tunnel = (\<lambda>_ _. None)\<rparr>"

definition sample_env :: Env where
  "sample_env = \<lparr>en_io = sample_io, en_at = (\<lambda>_. sample_windows), en_unix = 0, en_sysroot = None, en_claims = [],
                 en_order = id, en_porder = id\<rparr>"

definition sample_address :: Address where
  "sample_address = \<lparr>ad_timestamp = 1, ad_flags = 0, ad_interface = 7, ad_subinterface = 0\<rparr>"

definition sample_capture :: Capture where
  "sample_capture =
     \<lparr>rg_targets = \<lparr>tn_applications = [], tn_folders = [], tn_hostnames = []\<rparr>,
      rg_state = \<lparr>st_selectors = [(Destination 0 (- 1), None)], st_owners = [], st_nodes = []\<rparr>,
      rg_table = \<lparr>tb_destinations = [(0, - 1, 0)], tb_flows = [], tb_len = 1\<rparr>, rg_version = 1, rg_labels = [],
      rg_paths = [], rg_handled = [], rg_applications = [], rg_folders = [], rg_classifier = [], rg_matched = 0,
      cp_kill_switch = True, cp_relay_reassembles = True, cp_redirect_dns = True, cp_own_apps_only = False,
      cp_yield_foreign = False, cp_lookup_owners = \<lparr>lo_ports = [], lo_processes = []\<rparr>, cp_fragments = router_default,
      cp_node_addresses = [[10, 8, 0, 6]], cp_limits = [\<lparr>nl_tcp_mss = 1240, nl_tunnel_mtu = 1280\<rparr>],
      cp_proxy_nodes = 0, cp_fake_ip_node = None, cp_proxies = [], cp_own_hostnames = [],
      cp_direct = \<lparr>dl_ranges = [], dl_exact = [], dl_suffixes = [], dl_skipped = 0\<rparr>, cp_direct_learned = [], cp_usage = [],
      cp_log = \<lparr>dl_window_started = 0, dl_logged = []\<rparr>, cp_pending = [], cp_pending_open = True, cp_bypass = [],
      cp_bypass_open = True, cp_bypass_bytes = 0, cp_counts = (\<lambda>_. 0), cp_out = []\<rparr>"

definition sample_packet_fields :: "ipv4 \<Rightarrow> u16 \<Rightarrow> Ipv4Fields" where
  "sample_packet_fields destination port =
     \<lparr>f_source = [192, 168, 1, 2], f_destination = destination, f_protocol = 17, f_source_port = 5000, f_destination_port = port\<rparr>"

lemma sample_packets:
  "ipv4_fields (sample_udp [8, 8, 8, 8] 443) = Some (sample_packet_fields [8, 8, 8, 8] 443)"
  "ipv4_fields (sample_udp [192, 168, 1, 1] 53) = Some (sample_packet_fields [192, 168, 1, 1] 53)"
  "ipv4_fields (sample_udp [192, 168, 1, 9] 443) = Some (sample_packet_fields [192, 168, 1, 9] 443)"
  "\<not> is_fragment (sample_udp [8, 8, 8, 8] 443)" "\<not> is_fragment (sample_udp [192, 168, 1, 1] 53)"
  "\<not> is_fragment (sample_udp [192, 168, 1, 9] 443)"
  "lookup_question (sample_udp [192, 168, 1, 1] 53) (sample_packet_fields [192, 168, 1, 1] 53) = None"
  by code_simp+

lemma sample_whole:
  "\<not> is_fragment packet \<Longrightarrow> \<not> is_later_fragment packet \<and> begin_first env packet cap = (cap, None)"
  by (simp add: is_later_fragment_def begin_first_def is_first_fragment_def)


lemma sample_drafts:
  "d_selected (table_draft (rg_table sample_capture) (sample_packet_fields [8, 8, 8, 8] 443))"
  "d_selected (table_draft (rg_table sample_capture) (sample_packet_fields [192, 168, 1, 1] 53))"
  by (simp_all add: table_draft_def table_lookup_def destination_node_def sample_capture_def sample_packet_fields_def)

lemma sample_destinations:
  "lookup_question (sample_udp [8, 8, 8, 8] 443) (sample_packet_fields [8, 8, 8, 8] 443) = None"
  "\<not> is_dns_packet (sample_packet_fields [8, 8, 8, 8] 443)" "is_dns_packet (sample_packet_fields [192, 168, 1, 1] 53)"
  "is_globally_routable_ipv4 (f_destination (sample_packet_fields [8, 8, 8, 8] 443))"
  by code_simp+

lemma sample_not_direct: "\<not> is_direct sample_capture (f_destination (sample_packet_fields [8, 8, 8, 8] 443))"
  by (simp add: is_direct_def sample_capture_def list_contains_def has_domains_def)

lemma sample_no_exit: "\<not> is_exit_socket now (en_claims sample_env) f"
  by (simp add: is_exit_socket_def claimed_def sample_env_def)

lemma sample_consult:
  assumes "d_selected (table_draft (rg_table sample_capture) f)" "lookup_question packet f = None"
  shows "consult sample_env packet f sample_capture = (sample_capture, table_draft (rg_table sample_capture) f, False, False)"
proof -
  have "cp_proxies sample_capture = []" "sample_capture\<lparr>cp_proxies := []\<rparr> = sample_capture" by (simp_all add: sample_capture_def)
  then show ?thesis
    by (simp add: consult_def assms sample_no_exit dns_owner_stage_def udp_owner_stage_def own_lookup_stage_def
        proxy_lookup_def)
qed

lemma sample_selected:
  "decide sample_env (sample_udp [8, 8, 8, 8] 443) sample_address (sample_packet_fields [8, 8, 8, 8] 443) False sample_capture =
     Settled sample_capture (table_draft (rg_table sample_capture) (sample_packet_fields [8, 8, 8, 8] 443)) True False None"
proof -
  have "cp_fake_ip_node sample_capture = None" "f_protocol (sample_packet_fields [8, 8, 8, 8] 443) = 17"
    by (simp_all add: sample_capture_def sample_packet_fields_def)
  then show ?thesis
    by (simp add: decide_def sample_consult sample_drafts sample_destinations sample_not_direct dns_stage_def fake_ip_stage_def syn_stage_def exclusion_stage_def
        sample_no_exit is_proxy_upstream_def)
qed

theorem selected_packets_fail_closed_witness:
  "kept_in sample_io (sample_udp [8, 8, 8, 8] 443) sample_address sample_capture
     (capture_packet sample_env (sample_udp [8, 8, 8, 8] 443) sample_address sample_capture)"
proof -
  have io: "sample_io = en_io sample_env" by (simp add: sample_env_def)
  have "cp_kill_switch sample_capture" by (simp add: sample_capture_def)
  then show ?thesis unfolding io
    using sample_whole [OF sample_packets(4)] sample_selected
    by (intro selected_packets_fail_closed [OF _ sample_packets(1), where ticket = None]) auto
qed

theorem remote_dns_fails_closed_witness:
  "kept_in sample_io (sample_udp [192, 168, 1, 1] 53) sample_address sample_capture
     (capture_packet sample_env (sample_udp [192, 168, 1, 1] 53) sample_address sample_capture)"
proof -
  have io: "sample_io = en_io sample_env" by (simp add: sample_env_def)
  note c = sample_consult [OF sample_drafts(2) sample_packets(7)]
  have sw: "cp_redirect_dns sample_capture" "\<not> cp_own_apps_only sample_capture" "\<not> cp_yield_foreign sample_capture"
    by (simp_all add: sample_capture_def)
  show ?thesis unfolding io
    using remote_dns_fails_closed [OF _ sample_packets(2) _ sample_destinations(3) _ c] sample_whole [OF sample_packets(5)] sw by blast
qed

theorem unroutable_never_tunnelled_witness:
  "emits (\<lambda>e. \<not> is_tunnel e) sample_capture
     (capture_packet sample_env (sample_udp [192, 168, 1, 9] 443) sample_address sample_capture)"
proof (rule unroutable_never_tunnelled [OF _ sample_packets(3)])
  show "\<not> is_later_fragment (sample_udp [192, 168, 1, 9] 443)"
    using sample_whole [OF sample_packets(6)] by blast
  show "is_exit_socket (en_now sample_env AtCapture) (en_claims sample_env) (sample_packet_fields [192, 168, 1, 9] 443)
        \<or> \<not> is_dns_packet (sample_packet_fields [192, 168, 1, 9] 443)
          \<and> \<not> is_globally_routable_ipv4 (f_destination (sample_packet_fields [192, 168, 1, 9] 443))
          \<and> (cp_fake_ip_node sample_capture = None \<or> \<not> is_fake_ip (f_destination (sample_packet_fields [192, 168, 1, 9] 443)))"
    by code_simp
qed

theorem bypass_queue_bounded_witness:
  "case fold capture_step [Captured sample_env (sample_udp [192, 168, 1, 9] 443) sample_address, BypassInjected sample_io]
          (reassembler_default, sample_capture) of
     (r', cap') \<Rightarrow>
       length (cp_bypass cap') \<le> 2048 \<and> cp_bypass_bytes cap' \<le> 4 * 1024 * 1024
       \<and> cp_bypass_bytes cap' = sum_list (map (\<lambda>(packet, _). length packet) (cp_bypass cap'))"
proof -
  have "bypass_ok sample_capture" by (simp add: bypass_ok_def sample_capture_def)
  then show ?thesis by (intro case_prodI2) (rule bypass_queue_bounded)
qed

theorem no_packet_vanishes_witness:
  "accounted sample_io (sample_udp [8, 8, 8, 8] 443) sample_address sample_capture
     (capture_packet sample_env (sample_udp [8, 8, 8, 8] 443) sample_address sample_capture)"
  using no_packet_vanishes [OF sample_packets(4), of sample_env sample_address sample_capture]
  by (simp add: sample_env_def)

end
