(* ===== verification/Split_Return.thy ===== *)
theory Split_Return
  imports Split_Safety
begin

section \<open>The way back of a split capture\<close>

text \<open>
  The rewriting of a selected packet and of its replies are inverse: a reply to a packet the tunnel carried
  is delivered to the address and the interface the packet came from, from the address it was sent to, also
  when a lookup was answered by another resolver. And the one way into the tunnel that does not ask whether
  the destination can be reached there: a handshake that waited for its owner.
\<close>

subsection \<open>What rewriting a packet leaves of its fields\<close>

lemma ipv4_fields_length: "ipv4_fields p = Some g \<Longrightarrow> 24 \<le> length p"
  by (auto simp: ipv4_fields_def Let_def split: if_splits)

lemma ipv4_fields_addresses:
  assumes "ipv4_fields p = Some g"
  shows "length (f_source g) = 4" "length (f_destination g) = 4"
  using assms by (auto simp: ipv4_fields_def Let_def split: if_splits)

text \<open>The fields are those of the bytes they are read from.\<close>

lemma fields_change:
  assumes "ipv4_fields p = Some g" "length p' = length p" "p' ! 0 = p ! 0" "p' ! 9 = p ! 9"
    and same: "\<And>i. 20 \<le> i \<Longrightarrow> i < unat (p ! 0 AND 0x0f) * 4 + 8 \<Longrightarrow> i < length p \<Longrightarrow> p' ! i = p ! i"
  shows "ipv4_fields p' = Some (g\<lparr>f_source := [p' ! 12, p' ! 13, p' ! 14, p' ! 15],
                                   f_destination := [p' ! 16, p' ! 17, p' ! 18, p' ! 19]\<rparr>)"
proof -
  define h where "h = unat (p ! 0 AND 0x0f) * 4"
  have h: "20 \<le> h" "h + 4 \<le> length p"
    using assms(1) by (auto simp: ipv4_fields_def Let_def h_def split: if_splits)
  then have ports: "p' ! h = p ! h" "p' ! (h + 1) = p ! (h + 1)" "p' ! (h + 2) = p ! (h + 2)" "p' ! (h + 3) = p ! (h + 3)"
    "h + 8 \<le> length p \<Longrightarrow> p' ! (h + 4) = p ! (h + 4)" "h + 8 \<le> length p \<Longrightarrow> p' ! (h + 5) = p ! (h + 5)"
    using same by (simp_all add: h_def)
  have hp: "unat (p ! 0 AND 0x0f) * 4 = h" "unat (p' ! 0 AND 0x0f) * 4 = h" by (simp_all add: h_def assms(3))
  show ?thesis
    using assms(1) ports unfolding ipv4_fields_def hp Let_def by (auto simp: assms(2-4) split: if_splits)
qed

lemma fields_put_source:
  assumes "ipv4_fields p = Some g" "length a = 4"
  shows "ipv4_fields (put 12 a p) = Some (g\<lparr>f_source := a\<rparr>)"
proof -
  have l: "24 \<le> length p" "p \<noteq> []" using ipv4_fields_length [OF assms(1)] by auto
  have a: "[a ! 0, a ! 1, a ! 2, a ! 3] = a" using assms(2) by (auto simp: numeral_eq_Suc length_Suc_conv)
  have "f_destination g = [p ! 16, p ! 17, p ! 18, p ! 19]"
    using assms(1) by (auto simp: ipv4_fields_def Let_def split: if_splits)
  then have g: "g\<lparr>f_source := s, f_destination := [p ! 16, p ! 17, p ! 18, p ! 19]\<rparr> = g\<lparr>f_source := s\<rparr>" for s by simp
  have "ipv4_fields (put 12 a p) = Some (g\<lparr>f_source := [a ! 0, a ! 1, a ! 2, a ! 3], f_destination := [p ! 16, p ! 17, p ! 18, p ! 19]\<rparr>)"
    using fields_change [OF assms(1), of "put 12 a p"] l assms(2) by (simp add: nth_put)
  then show ?thesis unfolding a g .
qed

lemma fields_put_destination:
  assumes "ipv4_fields p = Some g" "length a = 4"
  shows "ipv4_fields (put 16 a p) = Some (g\<lparr>f_destination := a\<rparr>)"
proof -
  have l: "24 \<le> length p" "p \<noteq> []" using ipv4_fields_length [OF assms(1)] by auto
  have a: "[a ! 0, a ! 1, a ! 2, a ! 3] = a" using assms(2) by (auto simp: numeral_eq_Suc length_Suc_conv)
  have "f_source g = [p ! 12, p ! 13, p ! 14, p ! 15]"
    using assms(1) by (auto simp: ipv4_fields_def Let_def split: if_splits)
  then have g: "g\<lparr>f_source := [p ! 12, p ! 13, p ! 14, p ! 15], f_destination := d\<rparr> = g\<lparr>f_destination := d\<rparr>" for d by simp
  have "ipv4_fields (put 16 a p) = Some (g\<lparr>f_source := [p ! 12, p ! 13, p ! 14, p ! 15], f_destination := [a ! 0, a ! 1, a ! 2, a ! 3]\<rparr>)"
    using fields_change [OF assms(1), of "put 16 a p"] l assms(2) by (simp add: nth_put)
  then show ?thesis unfolding a g .
qed

lemma fields_clamp:
  assumes "ipv4_fields p = Some g"
  shows "ipv4_fields (fst (clamp p mss)) = Some g" "length (fst (clamp p mss)) = length p"
proof -
  obtain p' changed where c: "clamp p mss = (p', changed)" by force
  have "ipv4_fields p' = Some g \<and> length p' = length p"
  proof (cases changed)
    case False
    then have "p' = p" using c by (intro clamp_unchanged) simp
    then show ?thesis using assms by simp
  next
    case True
    then obtain k where k: "p' = put k (be16 mss) p" "unat (p ! 0 AND 0x0f) * 4 + 22 \<le> k" "k + 2 \<le> length p"
      using clamp_changed [of p mss p'] c by metis
    have "20 \<le> unat (p ! 0 AND 0x0f) * 4" using assms by (auto simp: ipv4_fields_def Let_def split: if_splits)
    then have k22: "42 \<le> k" using k(2) by simp
    have same: "p' ! i = p ! i" if "i < k" for i using that k by (simp add: nth_put)
    have len: "length p' = length p" using k by simp
    have "g\<lparr>f_source := [p ! 12, p ! 13, p ! 14, p ! 15], f_destination := [p ! 16, p ! 17, p ! 18, p ! 19]\<rparr> = g"
      using assms by (auto simp: ipv4_fields_def Let_def split: if_splits)
    then show ?thesis using fields_change [OF assms len] same k22 k(2) len by simp
  qed
  then show "ipv4_fields (fst (clamp p mss)) = Some g" "length (fst (clamp p mss)) = length p" by (simp_all add: c)
qed

lemma readdressed_fields:
  assumes "ipv4_fields p = Some g" "length (rp_local_ip path) = 4" "\<And>r. rp_resolver path = Some r \<Longrightarrow> length r = 4"
  shows "ipv4_fields (readdress_reply p path cap) =
           Some (g\<lparr>f_destination := rp_local_ip path,
                   f_source := (case rp_resolver path of None \<Rightarrow> f_source g | Some r \<Rightarrow> r)\<rparr>)"
    and "length (readdress_reply p path cap) = length p"
proof -
  let ?q = "put 16 (rp_local_ip path) p"
  have q: "ipv4_fields ?q = Some (g\<lparr>f_destination := rp_local_ip path\<rparr>)" "length ?q = length p"
    using fields_put_destination [OF assms(1,2)] ipv4_fields_length [OF assms(1)] assms(2) by simp_all
  have "ipv4_fields (readdress_reply p path cap) =
           Some (g\<lparr>f_destination := rp_local_ip path,
                   f_source := (case rp_resolver path of None \<Rightarrow> f_source g | Some r \<Rightarrow> r)\<rparr>)
        \<and> length (readdress_reply p path cap) = length p"
  proof (cases "rp_resolver path")
    case None
    then show ?thesis using fields_clamp [OF q(1)] q(2) by (simp add: readdress_reply_def Let_def)
  next
    case (Some r)
    have r: "length r = 4" by (rule assms(3) [OF Some])
    have "ipv4_fields (put 12 r ?q) = Some (g\<lparr>f_destination := rp_local_ip path, f_source := r\<rparr>)"
      using fields_put_source [OF q(1) r] by simp
    from fields_clamp [OF this] show ?thesis
      using Some q(2) r ipv4_fields_length [OF q(1)] by (simp add: readdress_reply_def Let_def)
  qed
  then show "ipv4_fields (readdress_reply p path cap) =
           Some (g\<lparr>f_destination := rp_local_ip path,
                   f_source := (case rp_resolver path of None \<Rightarrow> f_source g | Some r \<Rightarrow> r)\<rparr>)"
    "length (readdress_reply p path cap) = length p" by simp_all
qed

subsection \<open>The route a packet leaves behind\<close>

lemma note_route_path:
  "\<exists>path. map_of (rg_paths (fst (note_route porder now unix packet address f application pid node redirect cap)))
            (key_outbound (redirected redirect f)) = Some path
     \<and> rp_local_ip path = f_source f \<and> rp_interface path = ad_interface address
     \<and> rp_subinterface path = ad_subinterface address \<and> rp_resolver path = redirect"
proof -
  have source: "f_source (redirected redirect f) = f_source f" by (simp add: redirected_def)
  show ?thesis
    by (simp add: note_route_def Let_def bump_by_def record_handled_connection_def update_conv' source
        split: prod.split)
qed

text \<open>What replies are matched against: the routes and the addresses of the nodes.\<close>

definition way_back :: "Capture \<Rightarrow> (ReturnKey \<times> ReturnPath) list \<times> ipv4 list" where
  "way_back cap = (rg_paths cap, cp_node_addresses cap)"

lemma send_within_way_back: "way_back (fst (send_within io packet node mtu cap)) = way_back cap"
proof -
  have "way_back (fst (send_pieces io pieces node sent cap)) = way_back cap" for pieces sent
    by (induction pieces arbitrary: sent cap) (auto simp: Let_def emit_def way_back_def split: option.split)
  then show ?thesis by (auto simp: send_within_def emit_def way_back_def split: option.split)
qed

lemma forward_way_back: "way_back (fst (forward_packet io packet address node usage hold redirect cap)) = way_back cap"
proof -
  have "rg_paths c = rg_paths cap" "cp_node_addresses c = cp_node_addresses cap" if "send_within io t node m cap = (c, r)" for t m c r
    using send_within_way_back [of io t node m cap] by (simp_all add: that way_back_def)
  then show ?thesis
    by (auto simp: forward_packet_def count_usage_def send_bypass_def Let_def bump_by_def emit_def way_back_def
        split: option.split prod.split)
qed

lemma route_selected_way_back:
  "way_back (fst (route_selected_packet io porder now unix packet address f application pid node hold redirect cap)) =
   way_back (fst (note_route porder now unix packet address f application pid node redirect cap))"
proof -
  let ?r = "note_route porder now unix packet address f application pid node redirect cap"
  obtain c1 node' usage where 1: "?r = (c1, node', usage)" by (metis prod_cases3)
  have "way_back (fst (signal_fragmentation_needed io reply address c1)) = way_back c1" for reply
    by (auto simp: signal_fragmentation_needed_def Let_def bump_by_def emit_def way_back_def split: option.split)
  then show ?thesis
    by (auto simp: route_selected_packet_def 1 Let_def forward_way_back split: outcome.split option.split prod.split)
      (metis fst_conv)+
qed

lemma note_route_nodes:
  "cp_node_addresses (fst (note_route porder now unix packet address f application pid node redirect cap)) = cp_node_addresses cap"
  by (auto simp: note_route_def Let_def bump_by_def record_handled_connection_def evict_route_def split: prod.split option.split)

lemma route_selected_routes:
  "rg_paths (fst (route_selected_packet io porder now unix packet address f application pid node hold redirect cap)) =
     rg_paths (fst (note_route porder now unix packet address f application pid node redirect cap))"
  "cp_node_addresses (fst (route_selected_packet io porder now unix packet address f application pid node hold redirect cap)) =
     cp_node_addresses cap"
  using route_selected_way_back [of io porder now unix packet address f application pid node hold redirect cap] note_route_nodes
  by (simp_all add: way_back_def)

lemma route_selected_path:
  "\<exists>path. map_of (rg_paths (fst (route_selected_packet io porder now unix packet address f application pid node hold redirect cap)))
            (key_outbound (redirected redirect f)) = Some path
     \<and> rp_local_ip path = f_source f \<and> rp_interface path = ad_interface address
     \<and> rp_subinterface path = ad_subinterface address \<and> rp_resolver path = redirect"
  unfolding route_selected_routes by (rule note_route_path)

text \<open>Packets of other flows, routed afterwards, leave the route alone while the table is below its target size.\<close>

type_synonym routing =
  "instant \<times> nat \<times> bytes \<times> Address \<times> Ipv4Fields \<times> string option \<times> u32 option \<times> u8 \<times> bool \<times> ipv4 option"

fun routing_key :: "routing \<Rightarrow> ReturnKey" where
  "routing_key (now, unix, packet, address, f, application, pid, node, hold, redirect) = key_outbound (redirected redirect f)"

fun route_all :: "Io \<Rightarrow> (ReturnKey \<times> ReturnPath) hash_order \<Rightarrow> routing list \<Rightarrow> Capture \<Rightarrow> Capture" where
  "route_all io porder [] cap = cap"
| "route_all io porder ((now, unix, packet, address, f, application, pid, node, hold, redirect) # rs) cap =
     route_all io porder rs
       (fst (route_selected_packet io porder now unix packet address f application pid node hold redirect cap))"


lemma note_route_other:
  assumes "length (rg_paths cap) < RETURN_PATH_TARGET"
  shows "length (rg_paths (fst (note_route porder now unix packet address f application pid node redirect cap))) \<le> length (rg_paths cap) + 1"
    and "k \<noteq> key_outbound (redirected redirect f) \<Longrightarrow>
      map_of (rg_paths (fst (note_route porder now unix packet address f application pid node redirect cap))) k = map_of (rg_paths cap) k"
proof -
  have "evict_route porder now key cap = cap" for key using assms by (simp add: evict_route_def)
  then show "length (rg_paths (fst (note_route porder now unix packet address f application pid node redirect cap))) \<le> length (rg_paths cap) + 1"
    and "k \<noteq> key_outbound (redirected redirect f) \<Longrightarrow>
      map_of (rg_paths (fst (note_route porder now unix packet address f application pid node redirect cap))) k = map_of (rg_paths cap) k"
    by (simp_all add: note_route_def Let_def bump_by_def record_handled_connection_def update_conv' length_alist_update split: prod.split)
qed

lemma route_all_keeps:
  assumes "length (rg_paths cap) + length rs \<le> RETURN_PATH_TARGET" "list_all (\<lambda>r. routing_key r \<noteq> k) rs"
  shows "map_of (rg_paths (route_all io porder rs cap)) k = map_of (rg_paths cap) k"
  using assms
proof (induction io porder rs cap rule: route_all.induct)
  case (2 io porder now unix packet address f application pid node hold redirect rs cap)
  have "length (rg_paths cap) < RETURN_PATH_TARGET" using 2(2) by simp
  note step = note_route_other [OF this, where porder = porder and now = now and unix = unix and packet = packet and address = address
      and f = f and application = application and pid = pid and node = node and redirect = redirect]
  show ?case using 2 step(1) step(2) [of k] by (auto simp: route_selected_routes)
qed simp

lemma route_all_nodes: "cp_node_addresses (route_all io porder rs cap) = cp_node_addresses cap"
  by (induction io porder rs cap rule: route_all.induct) (simp_all add: route_selected_routes)

subsection \<open>Replies\<close>

definition reply_fields :: "Ipv4Fields \<Rightarrow> ipv4 \<Rightarrow> ipv4 \<Rightarrow> Ipv4Fields" where
  "reply_fields f remote local' =
     \<lparr>f_source = remote, f_destination = local', f_protocol = f_protocol f,
      f_source_port = f_destination_port f, f_destination_port = f_source_port f\<rparr>"

lemma learn_direct_routes:
  "rg_paths (learn_direct packet cap) = rg_paths cap" "nodes_own (learn_direct packet cap) local' \<longleftrightarrow> nodes_own cap local'"
  "cp_out (learn_direct packet cap) = cp_out cap"
proof -
  have one: "rg_paths (learn_address name a c) = rg_paths c \<and> cp_node_addresses (learn_address name a c) = cp_node_addresses c
              \<and> cp_out (learn_address name a c) = cp_out c" for name a c
    by (simp add: learn_address_def)
  have "rg_paths (fold (learn_address name) as c) = rg_paths c
          \<and> cp_node_addresses (fold (learn_address name) as c) = cp_node_addresses c
          \<and> cp_out (fold (learn_address name) as c) = cp_out c" for name as c
    by (induction as arbitrary: c) (simp_all add: one)
  then show "rg_paths (learn_direct packet cap) = rg_paths cap" "nodes_own (learn_direct packet cap) local' \<longleftrightarrow> nodes_own cap local'"
    "cp_out (learn_direct packet cap) = cp_out cap"
    by (simp_all add: learn_direct_def Let_def nodes_own_def)
qed

lemma inject_reply_out:
  "cp_out (fst (inject_reply env p address cap)) =
     cp_out cap @ (case io_checksums (en_io env) p address of None \<Rightarrow> [] | Some (q, a) \<Rightarrow> [ToNetwork q a])"
  by (simp add: inject_reply_def Let_def emit_def split: option.split)

lemma deliver_reply_out:
  assumes "ipv4_fields reply = Some g" "nodes_own cap (f_destination g)" "icmp_error_quote reply = None"
    and "map_of (rg_paths cap) (key_inbound g) = Some path"
  shows "\<exists>cap'. cp_out (deliver_reply env reply cap) =
    cp_out cap @ (case io_checksums (en_io env) (readdress_reply reply path cap') (inbound_address (rp_interface path) (rp_subinterface path)) of
                    None \<Rightarrow> [] | Some (q, a) \<Rightarrow> [ToNetwork q a])"
proof -
  let ?c = "learn_direct reply cap"
  let ?c' = "?c\<lparr>rg_paths := AList.update (key_inbound g) (path\<lparr>rp_last_seen := en_now env AtRoute\<rparr>) (rg_paths ?c)\<rparr>"
  let ?in = "inbound_address (rp_interface path) (rp_subinterface path)"
  obtain c3 sent where inj: "inject_reply env (readdress_reply reply path ?c') ?in ?c' = (c3, sent)" by force
  have "deliver_reply env reply cap =
        (case sent of Some b \<Rightarrow> count_usage (rp_usage path) 0 (length b) (bump InjectedReturns c3)
         | None \<Rightarrow> bump ReturnInjectionErrors c3)"
    using assms inj by (simp add: deliver_reply_def Let_def learn_direct_routes deliver_icmp_error_def split: option.split)
  moreover have "cp_out c3 = cp_out cap @ (case io_checksums (en_io env) (readdress_reply reply path ?c') ?in of None \<Rightarrow> [] | Some (q, a) \<Rightarrow> [ToNetwork q a])"
    using inject_reply_out [of env "readdress_reply reply path ?c'" ?in ?c'] by (simp add: inj learn_direct_routes(3))
  ultimately show ?thesis by (intro exI [of _ ?c']) (simp add: count_usage_out split: option.split)
qed

text \<open>
  C25. Replies find their way back. After a selected packet was routed, and whatever packets of other flows
  (another protocol, remote address or port) were routed since while the table of routes stayed below its
  target size, a reply to it (from where the packet was sent, the tunnel's resolver for a redirected lookup,
  to an address of a node, ports swapped, and not an ICMP error) becomes a packet of the reply's length from the address the sender wrote in its
  packet, to the address the sender has, and that packet is handed to the network exactly once, towards the
  interface the packet came from, or not at all when its checksums cannot be updated.
\<close>

theorem replies_return_to_the_sender:
  assumes "ipv4_fields packet = Some f" "redirect = None \<or> redirect = Some (f_destination f)"
    and "length (rg_paths (fst (route_selected_packet io porder now unix packet address f application pid node hold redirect cap)))
           + length others \<le> RETURN_PATH_TARGET"
    and "list_all (\<lambda>r. routing_key r \<noteq> key_outbound (redirected redirect f)) others"
    and "cap_later = route_all io porder others
           (fst (route_selected_packet io porder now unix packet address f application pid node hold redirect cap))"
    and "ipv4_fields reply = Some (reply_fields f (f_destination (redirected redirect f)) local')"
    and "nodes_own cap local'" "icmp_error_quote reply = None"
  shows "\<exists>p. ipv4_fields p = Some (reply_fields f (f_destination f) (f_source f)) \<and> length p = length reply
           \<and> cp_out (deliver_reply env reply cap_later) = cp_out cap_later
               @ (case io_checksums (en_io env) p (inbound_address (ad_interface address) (ad_subinterface address)) of
                    None \<Rightarrow> [] | Some (q, a) \<Rightarrow> [ToNetwork q a])"
proof -
  let ?g = "reply_fields f (f_destination (redirected redirect f)) local'"
  have k: "key_inbound ?g = key_outbound (redirected redirect f)"
    by (simp add: key_inbound_def key_outbound_def reply_fields_def redirected_def)
  obtain path where path: "map_of (rg_paths cap_later) (key_inbound ?g) = Some path"
    "rp_local_ip path = f_source f" "rp_interface path = ad_interface address"
    "rp_subinterface path = ad_subinterface address" "rp_resolver path = redirect"
    using route_selected_path [of io porder now unix packet address f application pid node hold redirect cap]
      route_all_keeps [OF assms(3,4), of io porder] unfolding k assms(5) by auto
  have resolver: "length r = 4" if "rp_resolver path = Some r" for r
    using that path(5) assms(2) ipv4_fields_addresses(2) [OF assms(1)] by auto
  have sender: "length (rp_local_ip path) = 4" using path(2) ipv4_fields_addresses(1) [OF assms(1)] by simp
  have p: "ipv4_fields (readdress_reply reply path c) = Some (reply_fields f (f_destination f) (f_source f))"
    "length (readdress_reply reply path c) = length reply" for c
    using readdressed_fields [OF assms(6) sender resolver, of c] path(2,5) assms(2)
    by (auto simp: reply_fields_def redirected_def)
  have "nodes_own cap_later (f_destination ?g)"
    using assms(7) by (simp add: reply_fields_def nodes_own_def assms(5) route_all_nodes route_selected_routes(2))
  then show ?thesis
    using deliver_reply_out [OF assms(6) _ assms(8) path(1), of env] p path(3,4) by auto
qed

text \<open>
  The key of a route names neither the sender's address nor the resolver a lookup was meant for. Of two
  redirected lookups from one port the later one takes the route, and the answer to the earlier one is
  delivered as if it came from the later one's resolver, at the later one's address.
\<close>

lemma later_lookup_takes_the_answer:
  assumes "ipv4_fields packet = Some f" "f_source_port f = f_source_port first" "f_destination_port f = f_destination_port first"
    and "f_protocol f = f_protocol first"
    and "cap_later = fst (route_selected_packet io porder now unix packet address f application pid node hold (Some (f_destination f)) cap)"
    and "ipv4_fields answer = Some (reply_fields first TUNNEL_RESOLVER local')"
    and "nodes_own cap_later local'" "icmp_error_quote answer = None"
  shows "\<exists>p. ipv4_fields p = Some (reply_fields first (f_destination f) (f_source f))
           \<and> cp_out (deliver_reply env answer cap_later) = cp_out cap_later
               @ (case io_checksums (en_io env) p (inbound_address (ad_interface address) (ad_subinterface address)) of
                    None \<Rightarrow> [] | Some (q, a) \<Rightarrow> [ToNetwork q a])"
proof -
  have same: "reply_fields first a b = reply_fields f a b" for a b
    using assms(2-4) by (simp add: reply_fields_def)
  obtain path where path: "map_of (rg_paths cap_later) (key_outbound (redirected (Some (f_destination f)) f)) = Some path"
    "rp_local_ip path = f_source f" "rp_interface path = ad_interface address"
    "rp_subinterface path = ad_subinterface address" "rp_resolver path = Some (f_destination f)"
    using route_selected_path [of io porder now unix packet address f application pid node hold "Some (f_destination f)" cap]
    unfolding assms(5) by auto
  have k: "key_inbound (reply_fields f TUNNEL_RESOLVER local') = key_outbound (redirected (Some (f_destination f)) f)"
    by (simp add: key_inbound_def key_outbound_def reply_fields_def redirected_def)
  have p: "ipv4_fields (readdress_reply answer path c) = Some (reply_fields f (f_destination f) (f_source f))" for c
    using readdressed_fields [OF assms(6) [unfolded same], of path c] path(2,5) ipv4_fields_addresses [OF assms(1)]
    by (auto simp: reply_fields_def)
  have "f_destination (reply_fields f TUNNEL_RESOLVER local') = local'" by (simp add: reply_fields_def)
  then show ?thesis
    using deliver_reply_out [OF assms(6) [unfolded same] _ assms(8) path(1) [folded k], of env] assms(7) p path(3,4)
    unfolding same by auto
qed

definition sample_reply :: bytes where
  "sample_reply =
     [0x45, 0, 0, 28, 0, 1, 0, 0, 64, 17, 0, 0] @ TUNNEL_RESOLVER @ [10, 8, 0, 6] @ [0, 53, 0x13, 0x88, 0, 8, 0, 0]"

definition sample_routed :: Capture where
  "sample_routed = fst (route_selected_packet sample_io id 0 0 (sample_udp [192, 168, 1, 1] 53) sample_address
     (sample_packet_fields [192, 168, 1, 1] 53) None None 0 True (Some [192, 168, 1, 1]) sample_capture)"

lemma sample_reply_fields:
  "ipv4_fields sample_reply = Some (reply_fields (sample_packet_fields [192, 168, 1, 1] 53) TUNNEL_RESOLVER [10, 8, 0, 6])"
  "icmp_error_quote sample_reply = None"
  by code_simp+

definition sample_other :: routing where
  "sample_other = (1, 0, sample_udp [8, 8, 8, 8] 443, sample_address, sample_packet_fields [8, 8, 8, 8] 443, None, None, 0, True, None)"

theorem replies_return_to_the_sender_witness:
  "\<exists>p. ipv4_fields p = Some (reply_fields (sample_packet_fields [192, 168, 1, 1] 53) [192, 168, 1, 1] [192, 168, 1, 2])
     \<and> length p = length sample_reply
     \<and> cp_out (deliver_reply sample_env sample_reply (route_all sample_io id [sample_other] sample_routed)) =
         cp_out (route_all sample_io id [sample_other] sample_routed)
         @ (case io_checksums sample_io p (inbound_address 7 0) of None \<Rightarrow> [] | Some (q, a) \<Rightarrow> [ToNetwork q a])"
proof -
  let ?f = "sample_packet_fields [192, 168, 1, 1] 53"
  have f: "f_destination ?f = [192, 168, 1, 1]" "f_source ?f = [192, 168, 1, 2]"
    "f_destination (redirected (Some [192, 168, 1, 1]) ?f) = TUNNEL_RESOLVER"
    by (simp_all add: sample_packet_fields_def redirected_def)
  have key: "routing_key sample_other \<noteq> key_outbound (redirected (Some [192, 168, 1, 1]) ?f)"
    by (simp add: sample_other_def key_outbound_def redirected_def sample_packet_fields_def)
  have own: "nodes_own sample_capture [10, 8, 0, 6]" by (simp add: nodes_own_def sample_capture_def)
  have empty: "length (rg_paths sample_capture) = 0" by (simp add: sample_capture_def)
  then have small: "length (rg_paths sample_capture) < RETURN_PATH_TARGET" by (simp add: RETURN_PATH_TARGET_def)
  have "length (rg_paths sample_routed) \<le> 1"
    unfolding sample_routed_def route_selected_routes(1) using note_route_other(1) [OF small] unfolding empty by simp
  then have size: "Suc (length (rg_paths sample_routed)) \<le> RETURN_PATH_TARGET" by (simp add: RETURN_PATH_TARGET_def)
  have io: "en_io sample_env = sample_io" by (simp add: sample_env_def)
  have address: "ad_interface sample_address = 7" "ad_subinterface sample_address = 0" by (simp_all add: sample_address_def)
  show ?thesis
    using replies_return_to_the_sender [OF sample_packets(2), where redirect = "Some [192, 168, 1, 1]" and env = sample_env
        and cap = sample_capture and cap_later = "route_all sample_io id [sample_other] sample_routed" and others = "[sample_other]"
        and io = sample_io and porder = id
        and now = 0 and unix = 0 and address = sample_address and application = None and pid = None and node = 0 and hold = True
        and reply = sample_reply and local' = "[10, 8, 0, 6]"]
    by (simp add: f own io size key address sample_reply_fields sample_routed_def [symmetric])
qed

subsection \<open>Handshakes that waited\<close>

lemma forward_handed:
  assumes "tunnel_packet io packet address node redirect cap = Some t"
  shows "handed is_tunnel cap (fst (forward_packet io packet address node usage hold redirect cap))"
proof -
  obtain c forwarded where s: "send_within io t node (nl_tunnel_mtu (node_limits cap node)) cap = (c, forwarded)" by force
  have c: "handed is_tunnel cap c"
    using send_within_handed [of cap io t node "nl_tunnel_mtu (node_limits cap node)"] by (simp add: s)
  have "emits (\<lambda>_. True) c (fst (forward_packet io packet address node usage hold redirect cap))"
    using send_bypass_emits [of packet address "bump BypassedPackets c" io]
    by (auto simp: forward_packet_def assms s count_usage_out emits_refl intro: emits_mono split: option.split)
  then show ?thesis by (rule handed_more [OF c])
qed

text \<open>
  A handshake that waited for its owner and that the table then selects is sent into the tunnel whatever its
  destination: the local network and the direct destinations are not asked about again, as the capture loop
  asks for every other packet it selects.
\<close>

theorem waiting_handshake_ignores_destination:
  assumes "cp_pending cap = syn # rest" "table_lookup (rg_table cap) (ps_fields syn) = Some m" "cp_proxies cap = []"
    and "cp_relay_reassembles cap" "\<not> is_first_fragment (ps_packet syn)" "\<And>p a. io_checksums (en_io env) p a \<noteq> None"
  shows "handed is_tunnel cap (pending_syn env False cap)"
proof -
  let ?c0 = "cap\<lparr>cp_pending := rest\<rparr>"
  let ?n = "note_route (en_porder env) (en_now env AtRoute) (en_unix env) (ps_packet syn) (ps_address syn) (ps_fields syn)
              (m_application m) (m_process m) (m_node m) None ?c0"
  obtain c1 node usage where n: "?n = (c1, node, usage)" by (metis prod_cases3)
  have fr: "frame c1 = frame ?c0" using frame_note_route [of "en_porder env" "en_now env AtRoute" "en_unix env" "ps_packet syn"
        "ps_address syn" "ps_fields syn" "m_application m" "m_process m" "m_node m" None ?c0] by (simp add: n)
  have "is_proxy_upstream w k f ?c0 = (?c0, False)" for w k f
    using assms(3) by (simp add: is_proxy_upstream_def)
  then have step: "pending_syn env False cap =
      fst (forward_packet (en_io env) (ps_packet syn) (ps_address syn) node usage (cp_kill_switch ?c0) None c1)"
    using assms(1,2,4) frameD(13) [OF fr] by (simp add: pending_syn_def route_selected_packet_def n Let_def)
  have "tunnel_packet (en_io env) (ps_packet syn) (ps_address syn) node None c1 \<noteq> None"
    using assms(5,6) by (simp add: tunnel_packet_def Let_def)
  then obtain t where "tunnel_packet (en_io env) (ps_packet syn) (ps_address syn) node None c1 = Some t" by blast
  then have "handed is_tunnel c1 (pending_syn env False cap)" unfolding step by (rule forward_handed)
  moreover have "cp_out c1 = cp_out cap" using frameD(1) [OF fr] by simp
  ultimately show ?thesis by (simp add: handed_def)
qed

end
