(* ===== verification/Spec2Isabelle.thy ===== *)
theory Spec2Isabelle
  imports Relay_Run Rtt Tcp_Mss Fragment_Router Uplink Ingress Direct_List Openvpn_Config Socks_Flows Split_Return
begin

text \<open>
  \<^bold>\<open>GamePath.\<close> A Windows client carries selected traffic to a relay over several network paths at
  once, and the relay forwards it through a TUN device. The two ends share a wire protocol: sealed
  frames, numbered once per session, may arrive over any path, several times, in any order, or not at
  all; a repair frame carries the XOR of a group of packets, so that one lost packet of a group can be
  rebuilt. This development models the protocol, both ends of it, and the packet handling around it,
  from the Rust sources \<^verbatim>\<open>src/engine/src\<close> and \<^verbatim>\<open>src/relay/src\<close>.

  \<^bold>\<open>How the parts interact.\<close> On the client, capture hands an IPv4 packet to the sender
  (\<^verbatim>\<open>session/sender.rs\<close>), which splits it to the tunnel MTU, numbers and seals it, asks for the paths the
  scheduler chose and offers it to the bounded queues of their workers; loss repair
  (\<^verbatim>\<open>session/repair.rs\<close>) closes groups with repair frames. The relay's serve loop (\<^verbatim>\<open>relay/src/main.rs\<close>)
  finds the client, opens the frame, filters replays, remembers and rebuilds packets, reassembles
  fragments and writes to the TUN. Its TUN reader seals replies and sends them to the endpoints the
  client selected, and a flusher closes groups that waited too long. Back on the client the ingress
  (\<^verbatim>\<open>session/state.rs\<close>) filters and rebuilds replies and hands them to the local stack or to capture.

  \<^bold>\<open>Theories and sources.\<close>

    \<^item> Prelude, Bit_Masks, Contracts: machine integers, byte strings, the clock, association lists;
      words read as sets of bits; and the locales the components offer each other.
      \<open>once_filter\<close> is a duplicate filter (interpreted by the replay window and by that of the OpenVPN data channel), \<open>wire_format\<close> and
      \<open>canonical_format\<close> are encoders with their parsers (headers, policies, offers, acceptances),
      \<open>component\<close> and \<open>emitting_component\<close> are state machines with an invariant and a law for what
      they put out (endpoint table, decoder, probe history, router, reassembler, registry, estimator,
      path metrics, client session).
    \<^item> Replay (\<^verbatim>\<open>replay.rs\<close>), Protocol (\<^verbatim>\<open>protocol.rs\<close>), Path_Policy (\<^verbatim>\<open>path_policy.rs\<close>), Auth (\<^verbatim>\<open>auth.rs\<close>):
      the sealed frame and the window that accepts a sequence once. The window is refined to the set
      of accepted sequences; encoders and parsers are inverse; what opens was sealed.
    \<^item> Fec_Policy, Fec_Encoder, Fec_Decoder (\<^verbatim>\<open>fec.rs\<close>): group sizes, offers, parity, rebuilding. Every
      packet the encoder accepts is covered (empty and oversized ones it leaves out), a single loss is recovered, nothing is fabricated.
    \<^item> Fragments, Reassembly (\<^verbatim>\<open>ipv4_fragments.rs\<close>), Icmp (\<^verbatim>\<open>icmp.rs\<close>), Tcp_Mss (\<^verbatim>\<open>tcp_mss.rs\<close>), Mtu
      (\<^verbatim>\<open>mtu.rs\<close>): packet surgery. Splitting is undone by reassembly in any order, within its limits of pieces and time, checksums verify,
      tables are bounded, budgets fit the link.
    \<^item> Endpoints (\<^verbatim>\<open>relay/src/endpoints.rs\<close>), Relay_Session, Relay_Safety, Relay, Relay_Run
      (\<^verbatim>\<open>relay/src/main.rs\<close>), Registry (\<^verbatim>\<open>relay/src/client_registry.rs\<close>): the relay. A session's operations
      return the session and the list of its actions (sends and TUN writes), or \<open>None\<close> for a panic.
      The theorems bound what any interleaving of the threads can send, write and hand out.
    \<^item> Scheduler (\<^verbatim>\<open>scheduler.rs\<close>), Path_Health (\<^verbatim>\<open>session/health.rs\<close>), Rtt (\<^verbatim>\<open>rtt.rs\<close>): what a path is
      worth, and which paths carry a packet.
    \<^item> Dispatch (\<^verbatim>\<open>session/dispatch.rs\<close>, \<^verbatim>\<open>session/worker.rs\<close>), Client_Send (\<^verbatim>\<open>session/repair.rs\<close>,
      \<^verbatim>\<open>session/sender.rs\<close>, \<^verbatim>\<open>session/path_mtu.rs\<close>, control frames of \<^verbatim>\<open>session/relay_worker.rs\<close>), Ingress
      (\<^verbatim>\<open>session/state.rs\<close>), Local_Tap (\<^verbatim>\<open>session/local_tap.rs\<close>), Fragment_Router (\<^verbatim>\<open>fragment_router.rs\<close>):
      the client's data plane. Dispatch is a step relation over the atomic actions of senders and
      workers; the other shared objects are locked in the source, and their runs are sequences of
      whole operations in any order. The router's books are exact, and only the latest ticket of a
      reused identification releases what waits.
    \<^item> Uplink: the two ends together. Whatever the paths lose, repeat and reorder, the TUN device gets the
      reassembly of packets the client sealed, each once, and every one that arrived in time.
    \<^item> Direct_List (\<^verbatim>\<open>direct_list.rs\<close>): networks kept off the tunnel, against the union of the networks.
    \<^item> Openvpn_Control (\<^verbatim>\<open>openvpn/control.rs\<close>): the reliable control channel under OpenVPN's TLS.
      Openvpn_Data (\<^verbatim>\<open>openvpn/crypto.rs\<close>): key derivation and the data channel; derivation ends with usable
      keys, packets arrive once and whole, and the datagrams that panic the receiver are named.
      Openvpn_Config (\<^verbatim>\<open>openvpn/config.rs\<close>, \<^verbatim>\<open>openvpn/x509_name.rs\<close>): the parser of configuration files; what an
      accepted file guarantees, that what it asks for outside its blocks is honoured or refused, and what a
      \<^verbatim>\<open><connection>\<close> block can say without being heard.
    \<^item> Utf8, Dns (\<^verbatim>\<open>dns.rs\<close>), Socks_Wire (\<^verbatim>\<open>socks/wire.rs\<close>), Socks_Resolver (\<^verbatim>\<open>socks/egress.rs\<close>,
      \<^verbatim>\<open>socks/resolver.rs\<close>), Socks_Server (\<^verbatim>\<open>socks/server.rs\<close>, \<^verbatim>\<open>socks/clients.rs\<close>): the proxy for a console
      on the same network. The SOCKS5 parsers are stream parsers (a locale: an answer stands whatever follows), and the
      HTTP parser is one up to its limit on a head whose end has not arrived;
      the server's \<open>turn\<close> is the whole event loop over any egress, its clients' sockets scripts of read
      and write results. Socks_Safety says exactly when a turn returns, Socks_Login that nobody is
      served without the login, Socks_Flows, through the locale \<open>proxied_egress\<close>, what the loop does with
      its flows.
    \<^item> Split_Ranges, Split_Sockets, Split_Selectors, Split_Capture, Split_Safety, Split_Return
      (\<^verbatim>\<open>split_capture.rs\<close>, \<^verbatim>\<open>udp_classifier.rs\<close>, \<^verbatim>\<open>proxy_identity.rs\<close>, \<^verbatim>\<open>dns_policy.rs\<close>, parts of \<^verbatim>\<open>policy.rs\<close>,
      \<^verbatim>\<open>netutil.rs\<close>, \<^verbatim>\<open>session/nodes.rs\<close> and \<^verbatim>\<open>tun2socks/exit.rs\<close>): which packets of the machine the tunnel
      carries. The selectors of rules and sockets and the table built from them; the owners of sockets and
      the caches in front of the inventories; \<open>capture_packet\<close>, the whole decision for one packet, stage by
      stage as the loop makes it; the routes of replies. The theorems say that the table is equivalent to
      the selectors, that lookups and selected packets fail closed, that local traffic stays out of the
      tunnel, that no packet vanishes, that the queue back to the network is bounded through every
      interleaving (\<open>capture_step\<close>), and that replies undo the rewriting of the packets they answer, until
      another packet with the same return key takes their route. Queueing a packet for the network (reserve, offer,
      give back) and injecting it (receive, send, give back) are one step each: the moments between, when the
      bytes of a packet are counted and the packet is in no queue, are not states of the model.

  \<^bold>\<open>Parameters.\<close> Third-party code is an argument of the definitions that call it: \<open>crypto_lib\<close> (HKDF,
  ChaCha20-Poly1305, base64), \<open>serde_lib\<close> (JSON text), \<open>openvpn_lib\<close> (HMAC, AES-CTR) and its extension \<open>data_lib\<close>
  (AEAD ciphers, AES blocks), \<open>pem_lib\<close> (PEM), and what the
  source is generic in: queues and inboxes (\<open>try_send\<close>, \<open>deliver\<close>), and the proxy's egress, a record of
  functions (\<open>Egress\<close>). The system is one too: \<open>Windows\<close> holds the socket inventories and process paths at
  one reading, \<open>Io\<close> the answers of WinDivert and of the tunnel, \<open>Env\<close> both with a separate reading for every
  place of the loop that reads, and the order in which a hash map is walked is any permutation. What is relied on is a named hypothesis
  (\<open>aead_correct\<close> and its like; that tags are not forged, as a property of the datagrams the network delivers; the size
  of a printed record) and each theorem with one has a witness on a concrete instance. The
  clock is an argument of every operation that reads it.

  \<^bold>\<open>Numbers.\<close> Integers keep their width where they can wrap: sequences and nonces (theorems about
  sealing count the 2^64 sequences explicitly), masks, counters, checksums, telemetry. Where sizes
  are far from a bound they are natural numbers, with the subtractions shown not to underflow or
  written as the source's saturating ones. Loss ratios and scores are rationals where the source has
  \<^verbatim>\<open>f64\<close>. Loops are structural recursion or \<open>function\<close> with a termination proof; the loops that may not end (the proxy's, and the key derivation over any HMAC) are partial functions
  into an option, \<open>None\<close> meaning that they never return, and the theorems say when; no fuel is used. An
  operation that can panic returns an option or a sum, and the theorems say when.

  \<^bold>\<open>Not modelled.\<close> Windows APIs (WinDivert, Wintun, routing, WFP, RAS), sockets, processes, pipes,
  threads as such (only their locked or atomic steps), log text, TLS and the ciphers, the Electron
  and React application. Not modelled yet, in the order they are worth adding: the OpenVPN session around TLS (pushed options, renegotiation) and the reader of certificate names, the dialling backoff and monitors of a session,
  the filter text and the DNS watcher of split capture, and the TCP stack of \<^verbatim>\<open>tun2socks\<close>.
\<close>

end
